(* ===== verification/Prelude.thy ===== *)
theory Prelude
  imports Main "HOL-Library.Word"
begin

text \<open>
  The shared vocabulary of the development: the machine integers of the Motorola 68k build of
  the kernel (\<open>uchar\<close>, \<open>ushort\<close>, \<open>uint\<close> of \<open>include/xv6/types.h\<close>), the outcome of a kernel
  routine, its sequencing and its total-correctness predicate, big-endian loads and stores in
  byte arrays, and the search for the first free slot of a fixed table, which the kernel writes
  again for every one of its tables.
\<close>

unbundle bit_operations_syntax

section \<open>Machine integers\<close>

type_synonym uchar = "8 word"
type_synonym ushort = "16 word"
type_synonym uint = "32 word"

text \<open>A byte array of the program.\<close>
type_synonym bytes = "uchar list"

named_theorems kdefs \<open>definitions of kernel operations, to be unfolded together\<close>
named_theorems wp_intros \<open>total-correctness specifications of kernel operations\<close>

text \<open>Small words have the same value signed and unsigned.\<close>

lemma word_nat_of_unat_id: "of_nat (unat w) = (w :: uint)"
  by simp

lemma sint_small: "0 \<le> n \<Longrightarrow> n < 2 ^ 31 \<Longrightarrow> sint (word_of_int n :: uint) = n"
  by (simp add: signed_of_int signed_take_bit_int_eq_self)

lemma sint_unat: "unat (w :: uint) < 2 ^ 31 \<Longrightarrow> sint w = int (unat w)"
  using sint_small [of "int (unat w)"]
  by (metis of_int_of_nat_eq of_nat_0_le_iff of_nat_less_numeral_power_cancel_iff word_nat_of_unat_id)

section \<open>Outcomes of kernel code\<close>

text \<open>
  A kernel routine returns, or calls \<open>panic\<close> (which prints its message and loops forever), or
  loops forever on its own account, or runs into behaviour C leaves undefined (a null pointer,
  an index past the end of an array).
\<close>

datatype 'a res = Ok 'a | Panic string | Hang | Fault

definition rbind :: "'a res \<Rightarrow> ('a \<Rightarrow> 'b res) \<Rightarrow> 'b res" where
  "rbind m f = (case m of Ok a \<Rightarrow> f a | Panic e \<Rightarrow> Panic e | Hang \<Rightarrow> Hang | Fault \<Rightarrow> Fault)"

text \<open>\<open>wp m P\<close>: the routine returns, and its result satisfies \<open>P\<close>.\<close>

definition wp :: "'a res \<Rightarrow> ('a \<Rightarrow> bool) \<Rightarrow> bool" where
  "wp m P = (case m of Ok a \<Rightarrow> P a | _ \<Rightarrow> False)"

lemma rbind_simps [simp]:
  "rbind (Ok a) f = f a" "rbind (Panic e) f = Panic e" "rbind Hang f = Hang" "rbind Fault f = Fault"
  by (simp_all add: rbind_def)

lemma rbind_eq_Ok [simp]: "rbind m f = Ok b \<longleftrightarrow> (\<exists>a. m = Ok a \<and> f a = Ok b)"
  by (cases m) auto

lemma rbind_assoc: "rbind (rbind m f) g = rbind m (\<lambda>x. rbind (f x) g)"
  by (cases m) auto

lemma rbind_cong [fundef_cong]:
  "m = m' \<Longrightarrow> (\<And>a. m' = Ok a \<Longrightarrow> f a = f' a) \<Longrightarrow> rbind m f = rbind m' f'"
  by (cases m') auto

lemma wp_simps [simp]:
  "wp (Ok a) P = P a" "wp (Panic e) P = False" "wp Hang P = False" "wp Fault P = False"
  by (simp_all add: wp_def)

lemma wp_rbind [simp]: "wp (rbind m f) P = wp m (\<lambda>x. wp (f x) P)"
  by (cases m) auto

lemma wp_iff: "wp m P \<longleftrightarrow> (\<exists>x. m = Ok x \<and> P x)"
  by (cases m) auto

lemma wp_mono: "wp m P \<Longrightarrow> (\<And>x. P x \<Longrightarrow> Q x) \<Longrightarrow> wp m Q"
  by (cases m) auto

lemma wp_mono_bind: "wp m P \<Longrightarrow> (\<And>x. P x \<Longrightarrow> wp (f x) Q) \<Longrightarrow> wp (rbind m f) Q"
  by (cases m) auto

lemma wp_mono_pair: "wp m (\<lambda>(a, b). P a b) \<Longrightarrow> (\<And>a b. P a b \<Longrightarrow> Q a b) \<Longrightarrow> wp m (\<lambda>(a, b). Q a b)"
  by (cases m) auto

lemma wp_bind_pair: "wp m (\<lambda>(a, b). P a b) \<Longrightarrow> (\<And>a b. P a b \<Longrightarrow> wp (f a b) Q) \<Longrightarrow> wp (rbind m (\<lambda>(a, b). f a b)) Q"
  by (cases m) auto

lemma wp_conjI: "wp m P \<Longrightarrow> wp m Q \<Longrightarrow> wp m (\<lambda>x. P x \<and> Q x)"
  by (cases m) auto

lemma wp_split_pair [simp]: "wp m (\<lambda>x. case x of (a, b) \<Rightarrow> P a b) = wp m (\<lambda>x. P (fst x) (snd x))"
  by (simp add: case_prod_unfold)

lemma wp_OkD: "wp m P \<Longrightarrow> m = Ok x \<Longrightarrow> P x"
  by simp

section \<open>Big-endian loads and stores\<close>

text \<open>
  The 68k is big-endian: a \<open>uint\<close> field of a structure that overlays a disk block reads its
  most significant byte first.
\<close>

definition be32 :: "uchar \<Rightarrow> uchar \<Rightarrow> uchar \<Rightarrow> uchar \<Rightarrow> uint" where
  "be32 a b c d = push_bit 24 (ucast a) OR push_bit 16 (ucast b) OR push_bit 8 (ucast c) OR ucast d"

definition be16 :: "uchar \<Rightarrow> uchar \<Rightarrow> ushort" where
  "be16 a b = push_bit 8 (ucast a) OR ucast b"

definition enc32 :: "uint \<Rightarrow> bytes" where
  "enc32 w = [ucast (drop_bit 24 w), ucast (drop_bit 16 w), ucast (drop_bit 8 w), ucast w]"

definition enc16 :: "ushort \<Rightarrow> bytes" where
  "enc16 w = [ucast (drop_bit 8 w), ucast w]"

text \<open>Overwriting part of an array, as \<open>memmove(bs + off, xs, length xs)\<close> does.\<close>

definition patch :: "nat \<Rightarrow> 'a list \<Rightarrow> 'a list \<Rightarrow> 'a list" where
  "patch off xs bs = take off bs @ xs @ drop (off + length xs) bs"

definition slice :: "nat \<Rightarrow> nat \<Rightarrow> 'a list \<Rightarrow> 'a list" where
  "slice off n bs = take n (drop off bs)"

definition get32 :: "bytes \<Rightarrow> nat \<Rightarrow> uint" where
  "get32 bs off = be32 (bs ! off) (bs ! (off + 1)) (bs ! (off + 2)) (bs ! (off + 3))"

definition get16 :: "bytes \<Rightarrow> nat \<Rightarrow> ushort" where
  "get16 bs off = be16 (bs ! off) (bs ! (off + 1))"

definition put32 :: "nat \<Rightarrow> uint \<Rightarrow> bytes \<Rightarrow> bytes" where
  "put32 off w bs = patch off (enc32 w) bs"

definition put16 :: "nat \<Rightarrow> ushort \<Rightarrow> bytes \<Rightarrow> bytes" where
  "put16 off w bs = patch off (enc16 w) bs"

lemma not_bit_byte: "8 \<le> n \<Longrightarrow> \<not> bit (w :: uchar) n"
  by (auto dest: bit_imp_le_length)

lemma be32_enc [simp]:
  "be32 (ucast (drop_bit 24 w)) (ucast (drop_bit 16 w)) (ucast (drop_bit 8 w)) (ucast w) = w"
proof (rule bit_word_eqI)
  fix n assume "n < LENGTH(32)"
  then consider "n < 8" | "8 \<le> n" "n < 16" | "16 \<le> n" "n < 24" | "24 \<le> n" "n < 32"
    by fastforce
  then show "bit (be32 (ucast (drop_bit 24 w)) (ucast (drop_bit 16 w)) (ucast (drop_bit 8 w)) (ucast w)) n
      = bit w n"
    by cases (auto simp: be32_def bit_simps)
qed

lemma be16_enc [simp]: "be16 (ucast (drop_bit 8 w)) (ucast w) = w"
proof (rule bit_word_eqI)
  fix n assume "n < LENGTH(16)"
  then consider "n < 8" | "8 \<le> n" "n < 16"
    by fastforce
  then show "bit (be16 (ucast (drop_bit 8 w)) (ucast w)) n = bit w n"
    by cases (auto simp: be16_def bit_simps)
qed

lemma enc32_be32 [simp]: "enc32 (be32 a b c d) = [a, b, c, d]"
  unfolding enc32_def be32_def by (auto intro!: bit_word_eqI simp: bit_simps not_bit_byte)

lemma enc16_be16 [simp]: "enc16 (be16 a b) = [a, b]"
  unfolding enc16_def be16_def by (auto intro!: bit_word_eqI simp: bit_simps not_bit_byte)

lemma length_enc [simp]: "length (enc32 w) = 4" "length (enc16 v) = 2"
  by (simp_all add: enc32_def enc16_def)

lemma be32_nth_enc32: "be32 (enc32 w ! 0) (enc32 w ! 1) (enc32 w ! 2) (enc32 w ! 3) = w"
  by (simp add: enc32_def)

lemma be16_nth_enc16: "be16 (enc16 w ! 0) (enc16 w ! 1) = w"
  by (simp add: enc16_def)

lemma enc32_inject: "enc32 v = enc32 w \<longleftrightarrow> v = w"
  by (metis be32_nth_enc32)

lemma enc16_inject: "enc16 v = enc16 w \<longleftrightarrow> v = w"
  by (metis be16_nth_enc16)

lemma length_patch [simp]: "off + length xs \<le> length bs \<Longrightarrow> length (patch off xs bs) = length bs"
  by (simp add: patch_def)

lemma length_slice: "length (slice off n bs) = min n (length bs - off)"
  by (simp add: slice_def)

lemma nth_patch:
  assumes "off + length xs \<le> length bs" "i < length bs"
  shows "patch off xs bs ! i = (if off \<le> i \<and> i < off + length xs then xs ! (i - off) else bs ! i)"
  using assms by (auto simp: patch_def nth_append min_def)

lemma nth_slice: "i < n \<Longrightarrow> off + i < length bs \<Longrightarrow> slice off n bs ! i = bs ! (off + i)"
  by (simp add: slice_def)

lemma slice_patch_same: "off + length xs \<le> length bs \<Longrightarrow> slice off (length xs) (patch off xs bs) = xs"
  by (simp add: slice_def patch_def min_def)

lemma slice_patch_other:
  assumes "off + length xs \<le> length bs" "o2 + n \<le> off \<or> off + length xs \<le> o2" "o2 + n \<le> length bs"
  shows "slice o2 n (patch off xs bs) = slice o2 n bs"
  using assms by (intro nth_equalityI) (auto simp: length_slice nth_slice nth_patch)

lemma length_put [simp]:
  "off + 4 \<le> length bs \<Longrightarrow> length (put32 off w bs) = length bs"
  "off + 2 \<le> length bs \<Longrightarrow> length (put16 off v bs) = length bs"
  by (simp_all add: put32_def put16_def)

lemma get32_slice: "off + 4 \<le> length bs \<Longrightarrow> enc32 (get32 bs off) = slice off 4 bs"
  by (auto simp: get32_def length_slice nth_slice less_Suc_eq numeral_eq_Suc intro!: nth_equalityI)

lemma get16_slice: "off + 2 \<le> length bs \<Longrightarrow> enc16 (get16 bs off) = slice off 2 bs"
  by (auto simp: get16_def length_slice nth_slice less_Suc_eq numeral_eq_Suc intro!: nth_equalityI)

lemma get32_put32 [simp]: "off + 4 \<le> length bs \<Longrightarrow> get32 (put32 off w bs) off = w"
  by (metis enc32_inject get32_slice length_enc(1) length_put(1) put32_def slice_patch_same)

lemma get16_put16 [simp]: "off + 2 \<le> length bs \<Longrightarrow> get16 (put16 off w bs) off = w"
  by (metis enc16_inject get16_slice length_enc(2) length_put(2) put16_def slice_patch_same)

lemma get32_patch_other:
  "off + length xs \<le> length bs \<Longrightarrow> o2 + 4 \<le> length bs \<Longrightarrow> o2 + 4 \<le> off \<or> off + length xs \<le> o2 \<Longrightarrow>
     get32 (patch off xs bs) o2 = get32 bs o2"
  by (auto simp: get32_def nth_patch)

lemma get16_patch_other:
  "off + length xs \<le> length bs \<Longrightarrow> o2 + 2 \<le> length bs \<Longrightarrow> o2 + 2 \<le> off \<or> off + length xs \<le> o2 \<Longrightarrow>
     get16 (patch off xs bs) o2 = get16 bs o2"
  by (auto simp: get16_def nth_patch)

section \<open>Searching a fixed table\<close>

text \<open>
  \<open>for (i = lo; i < hi; i++) if (P i) ...\<close>: the first index of the range that satisfies \<open>P\<close>.
\<close>

function find_from :: "(nat \<Rightarrow> bool) \<Rightarrow> nat \<Rightarrow> nat \<Rightarrow> nat option" where
  "find_from P lo hi = (if lo < hi then (if P lo then Some lo else find_from P (Suc lo) hi) else None)"
  by pat_completeness auto
termination
  by (relation "measure (\<lambda>(P, lo, hi). hi - lo)") auto

declare find_from.simps [simp del]

lemma find_from_None: "find_from P lo hi = None \<longleftrightarrow> (\<forall>i. lo \<le> i \<and> i < hi \<longrightarrow> \<not> P i)"
proof (induction P lo hi rule: find_from.induct)
  case (1 P lo hi)
  show ?case
    by (subst find_from.simps) (auto simp: 1, metis Suc_leI le_neq_implies_less)
qed

lemma find_from_Some:
  "find_from P lo hi = Some i \<longleftrightarrow> lo \<le> i \<and> i < hi \<and> P i \<and> (\<forall>j. lo \<le> j \<and> j < i \<longrightarrow> \<not> P j)"
proof (induction P lo hi rule: find_from.induct)
  case (1 P lo hi)
  show ?case
  proof (cases "lo < hi \<and> \<not> P lo")
    case True
    then have "find_from P lo hi = find_from P (Suc lo) hi"
      by (subst find_from.simps) simp
    then show ?thesis
      using 1 True by (auto simp: Suc_le_eq) (metis le_neq_implies_less)+
  next
    case False
    then show ?thesis
      by (subst find_from.simps) (cases "i = lo"; auto)
  qed
qed

lemma find_from_SomeD:
  assumes "find_from P lo hi = Some i"
  shows "lo \<le> i" "i < hi" "P i" "\<And>j. lo \<le> j \<Longrightarrow> j < i \<Longrightarrow> \<not> P j"
  using assms by (auto simp: find_from_Some)

text \<open>
  The tables of the kernel (open files, pipes, descriptors, processes) are all allocated the
  same way: scan for the first free entry, mark it and hand it out, or report that there is
  none. A table is a map from slots to entries; \<open>free\<close> recognises a free entry and \<open>mark\<close>
  makes one used.
\<close>

definition alloc_slot :: "('e \<Rightarrow> bool) \<Rightarrow> ('e \<Rightarrow> 'e) \<Rightarrow> nat \<Rightarrow> (nat \<Rightarrow> 'e) \<Rightarrow> (nat \<times> (nat \<Rightarrow> 'e)) option" where
  "alloc_slot free mark n t =
     (case find_from (\<lambda>i. free (t i)) 0 n of None \<Rightarrow> None | Some i \<Rightarrow> Some (i, t(i := mark (t i))))"

locale slot_table =
  fixes free :: "'e \<Rightarrow> bool" and mark :: "'e \<Rightarrow> 'e" and n :: nat
  assumes mark_used: "free e \<Longrightarrow> \<not> free (mark e)"
begin

definition used :: "(nat \<Rightarrow> 'e) \<Rightarrow> nat set" where
  "used t = {i. i < n \<and> \<not> free (t i)}"

lemma finite_used [simp]: "finite (used t)"
  by (rule finite_subset [of _ "{..<n}"]) (auto simp: used_def)

lemma alloc_fresh: "alloc_slot free mark n t = Some (i, t') \<Longrightarrow> i < n \<and> i \<notin> used t \<and> free (t i)"
  by (auto simp: alloc_slot_def used_def split: option.splits dest: find_from_SomeD)

lemma alloc_used: "alloc_slot free mark n t = Some (i, t') \<Longrightarrow> used t' = insert i (used t)"
  using find_from_SomeD [of "\<lambda>i. free (t i)" 0 n i] mark_used [of "t i"]
  by (auto simp: alloc_slot_def used_def split: option.splits if_splits)

lemma alloc_frame: "alloc_slot free mark n t = Some (i, t') \<Longrightarrow> j \<noteq> i \<Longrightarrow> t' j = t j"
  by (auto simp: alloc_slot_def split: option.splits)

lemma alloc_lowest: "alloc_slot free mark n t = Some (i, t') \<Longrightarrow> j < i \<Longrightarrow> j \<in> used t"
  by (auto simp: alloc_slot_def used_def split: option.splits dest: find_from_SomeD)

lemma alloc_full: "alloc_slot free mark n t = None \<longleftrightarrow> card (used t) = n"
proof -
  have "alloc_slot free mark n t = None \<longleftrightarrow> used t = {..<n}"
    unfolding alloc_slot_def used_def using find_from_None [of "\<lambda>i. free (t i)" 0 n]
    by (auto split: option.split)
  also have "\<dots> \<longleftrightarrow> card (used t) = n"
  proof
    assume c: "card (used t) = n"
    have "used t \<subseteq> {..<n}" by (auto simp: used_def)
    with c show "used t = {..<n}" by (intro card_subset_eq) auto
  qed simp
  finally show ?thesis .
qed

lemma alloc_card: "alloc_slot free mark n t = Some (i, t') \<Longrightarrow> card (used t') = Suc (card (used t))"
  using alloc_used alloc_fresh by fastforce

end

end
