(* ===== verification/Frames.thy ===== *)
theory Frames
  imports Prelude
begin

text \<open>
  The frame allocator of \<open>kern/frames.c\<close>: sixteen 64K frames of expansion RAM, each owned by a
  process or free. \<open>allocframes\<close> frees what the process had, takes the first free frame when one
  is enough and otherwise allocates at the start of the longest run of free frames, and puts the
  old list back when it fails. Shown: it succeeds exactly when a long enough run exists, it never
  takes a frame from another process, and a failure changes nothing.
\<close>

definition NFRAME :: nat where "NFRAME = 16"

definition FREE :: int where "FREE = 0"

text \<open>\<open>flist\<close>: the owner of each frame.\<close>
type_synonym flist = "int list"

definition finit :: flist where
  "finit = replicate NFRAME FREE"

definition freeframes :: "int \<Rightarrow> flist \<Rightarrow> flist" where
  "freeframes pid fl = map (\<lambda>owner. if owner = pid then FREE else owner) fl"

text \<open>
  The loop that looks for the biggest run: \<open>maxstart\<close>, \<open>maxnum\<close> describe the best run so far,
  \<open>potstart\<close>, \<open>potnum\<close> the run being measured (\<open>potstart = -1\<close> when there is none).
\<close>

function scan_runs :: "flist \<Rightarrow> nat \<Rightarrow> int \<Rightarrow> int \<Rightarrow> int \<Rightarrow> int \<Rightarrow> int \<times> int" where
  "scan_runs fl i maxstart maxnum potstart potnum =
     (if i < NFRAME then
        (if fl ! i = FREE \<and> potstart = -1 then
           scan_runs fl (i + 1) maxstart maxnum (int i) 1
         else
           (let potnum = (if fl ! i = FREE then potnum + 1 else potnum)
            in if fl ! i = FREE \<and> i < NFRAME - 1 then
                 scan_runs fl (i + 1) maxstart maxnum potstart potnum
               else if potstart \<noteq> -1 then
                 (if potnum > maxnum then scan_runs fl (i + 1) potstart potnum (-1) potnum
                  else scan_runs fl (i + 1) maxstart maxnum (-1) potnum)
               else scan_runs fl (i + 1) maxstart maxnum potstart potnum))
      else (maxstart, maxnum))"
  by pat_completeness auto
termination
  by (relation "measure (\<lambda>(fl, i, _). NFRAME - i)") auto

declare scan_runs.simps [simp del]

definition allocframes :: "int \<Rightarrow> int \<Rightarrow> flist \<Rightarrow> int \<times> flist" where
  "allocframes pid nframes flist =
     (let blist = flist;
          flist = freeframes pid flist
      in if nframes = 1 then
           (case find_from (\<lambda>i. flist ! i = FREE) 0 NFRAME of
              Some i \<Rightarrow> (int i, flist[i := pid])
            | None \<Rightarrow> (-1, blist))
         else
           (let (maxstart, maxnum) = scan_runs flist 0 (-1) 0 (-1) 0
            in if maxnum \<ge> nframes then
                 (maxstart, patch (nat maxstart) (replicate (nat nframes) pid) flist)
               else (-1, blist)))"

section \<open>The run scan finds a longest run\<close>

definition free_run :: "flist \<Rightarrow> nat \<Rightarrow> nat \<Rightarrow> bool" where
  "free_run fl b n \<longleftrightarrow> b + n \<le> NFRAME \<and> (\<forall>k. b \<le> k \<and> k < b + n \<longrightarrow> fl ! k = FREE)"

text \<open>
  What the loop knows before it looks at frame \<open>i\<close>: the best run is a run below \<open>i\<close>; the run
  being measured ends at \<open>i\<close> and cannot be extended to the left; every run below \<open>i\<close> is no longer
  than the best one, unless it lies in the run being measured.
\<close>

definition scan_inv :: "flist \<Rightarrow> nat \<Rightarrow> int \<Rightarrow> int \<Rightarrow> int \<Rightarrow> int \<Rightarrow> bool" where
  "scan_inv fl i ms mn ps pn \<longleftrightarrow>
     0 \<le> mn \<and> (0 < mn \<longrightarrow> 0 \<le> ms \<and> ms + mn \<le> int i \<and> free_run fl (nat ms) (nat mn)) \<and>
     (ps \<noteq> -1 \<longrightarrow> 0 \<le> ps \<and> ps < int i \<and> pn = int i - ps \<and> free_run fl (nat ps) (nat pn) \<and>
                  (0 < ps \<longrightarrow> fl ! nat (ps - 1) \<noteq> FREE)) \<and>
     (ps = -1 \<and> 0 < i \<and> i < NFRAME \<longrightarrow> fl ! (i - 1) \<noteq> FREE) \<and>
     (\<forall>b n. free_run fl b n \<and> b + n \<le> i \<and> 0 < n \<longrightarrow> int n \<le> mn \<or> (ps \<noteq> -1 \<and> ps \<le> int b))"

lemma scan_inv_start: "scan_inv fl 0 (-1) 0 (-1) 0"
  by (simp add: scan_inv_def)

lemma free_run_shrink: "free_run fl b (Suc n) \<Longrightarrow> free_run fl b n"
  by (auto simp: free_run_def)

lemma free_run_last: "free_run fl b (Suc n) \<Longrightarrow> fl ! (b + n) = FREE"
  by (auto simp: free_run_def)

lemma free_run_snoc: "free_run fl b n \<Longrightarrow> fl ! (b + n) = FREE \<Longrightarrow> b + n < NFRAME \<Longrightarrow> free_run fl b (Suc n)"
  by (auto simp: free_run_def less_Suc_eq)


lemma scan_inv_max:
  "scan_inv fl i ms mn ps pn \<Longrightarrow> free_run fl b n \<Longrightarrow> b + n \<le> i \<Longrightarrow> 0 < n \<Longrightarrow>
     int n \<le> mn \<or> (ps \<noteq> -1 \<and> ps \<le> int b)"
  unfolding scan_inv_def by blast

text \<open>The four ways the loop body can end.\<close>

lemma scan_inv_open:
  assumes inv: "scan_inv fl i ms mn ps pn" and "ps = -1" "fl ! i = FREE" "i < NFRAME"
  shows "scan_inv fl (i + 1) ms mn (int i) 1"
proof -
  have "int n \<le> mn \<or> int i \<le> int b" if r: "free_run fl b n" "b + n \<le> i + 1" "0 < n" for b n
  proof (cases "b + n \<le> i")
    case True
    then show ?thesis using inv assms(2) r by (auto simp: scan_inv_def)
  next
    case False
    with r have "b \<le> i" "b + n = Suc i" by auto
    show ?thesis
    proof (cases "b = i")
      case False
      then have "0 < i" "b < i" using \<open>b \<le> i\<close> by auto
      then have "b \<le> i - 1 \<and> i - 1 < b + n" using \<open>b + n = Suc i\<close> by linarith
      then have "fl ! (i - 1) = FREE" using r by (simp only: free_run_def)
      then show ?thesis using inv assms(2,4) \<open>0 < i\<close> by (auto simp: scan_inv_def)
    qed simp
  qed
  moreover have "0 < i \<longrightarrow> fl ! (i - 1) \<noteq> FREE"
    using inv assms by (auto simp: scan_inv_def)
  then have "0 < int i \<longrightarrow> fl ! nat (int i - 1) \<noteq> FREE"
    by (simp add: nat_diff_distrib)
  moreover have "free_run fl i 1"
    using assms by (auto simp: free_run_def le_less_Suc_eq)
  ultimately show ?thesis
    using inv assms by (auto simp: scan_inv_def)
qed

lemma scan_inv_extend:
  assumes inv: "scan_inv fl i ms mn ps pn" and "ps \<noteq> -1" "fl ! i = FREE" "i < NFRAME"
  shows "scan_inv fl (i + 1) ms mn ps (pn + 1)"
proof -
  have pn: "0 \<le> ps" "ps < int i" "pn = int i - ps" "free_run fl (nat ps) (nat pn)"
    "0 < ps \<longrightarrow> fl ! nat (ps - 1) \<noteq> FREE"
    using inv assms(2) by (auto simp: scan_inv_def)
  have "nat ps + nat pn = i" "nat (pn + 1) = Suc (nat pn)"
    using pn by auto
  then have run: "free_run fl (nat ps) (nat (pn + 1))"
    using pn assms by (auto intro: free_run_snoc)
  have "int n \<le> mn \<or> ps \<le> int b" if r: "free_run fl b n" "b + n \<le> i + 1" "0 < n" for b n
  proof (rule ccontr)
    assume "\<not> ?thesis"
    then have lt: "int b < ps" "mn < int n" by auto
    have "b + n = i + 1"
      using scan_inv_max [OF inv r(1) _ r(3)] r lt by linarith
    then have "nat (ps - 1) < b + n" "b \<le> nat (ps - 1)"
      using pn lt by auto
    then have "fl ! nat (ps - 1) = FREE"
      using r by (auto simp: free_run_def)
    then show False using pn lt by auto
  qed
  then show ?thesis
    using inv assms pn run by (auto simp: scan_inv_def)
qed

lemma scan_inv_close:
  assumes inv: "scan_inv fl i ms mn ps pn" and "ps \<noteq> -1"
    and stop: "fl ! i \<noteq> FREE \<and> i < NFRAME \<and> j = i + 1 \<or> i = NFRAME \<and> j = i"
  shows "scan_inv fl j (if pn > mn then ps else ms) (if pn > mn then pn else mn) (-1) pn'"
proof -
  have pn: "0 \<le> ps" "ps < int i" "pn = int i - ps" "free_run fl (nat ps) (nat pn)"
    using inv assms(2) by (auto simp: scan_inv_def)
  have "int n \<le> (if pn > mn then pn else mn)" if r: "free_run fl b n" "b + n \<le> j" "0 < n" for b n
  proof -
    have "b + n \<le> i"
      using stop r by (cases "b + n = Suc i") (auto simp: free_run_def)
    then show ?thesis using scan_inv_max [OF inv r(1) _ r(3)] pn by (auto split: if_splits)
  qed
  moreover have "0 \<le> mn" "0 < mn \<longrightarrow> 0 \<le> ms \<and> ms + mn \<le> int i \<and> free_run fl (nat ms) (nat mn)"
    using inv by (auto simp: scan_inv_def)
  ultimately show ?thesis
    using stop pn unfolding scan_inv_def by auto
qed

lemma scan_inv_skip:
  assumes inv: "scan_inv fl i ms mn ps pn" and "ps = -1" "fl ! i \<noteq> FREE" "i < NFRAME"
  shows "scan_inv fl (i + 1) ms mn ps pn'"
proof -
  have "int n \<le> mn" if r: "free_run fl b n" "b + n \<le> i + 1" "0 < n" for b n
  proof -
    have "b + n \<le> i" using assms r by (cases "b + n = Suc i") (auto simp: free_run_def)
    then show ?thesis using inv assms r by (auto simp: scan_inv_def)
  qed
  then show ?thesis using inv assms by (auto simp: scan_inv_def)
qed

text \<open>At the end only a run of one frame, in the last position, can have been missed.\<close>


lemma scan_runs_inv:
  assumes "scan_inv fl i ms mn ps pn" "i \<le> NFRAME" "i = NFRAME \<longrightarrow> ps = -1 \<or> ps = int NFRAME - 1"
    "scan_runs fl i ms mn ps pn = (rs, rn)"
  shows "\<exists>ps' pn'. scan_inv fl NFRAME rs rn ps' pn' \<and> (ps' = -1 \<or> ps' = int NFRAME - 1)"
  using assms
proof (induction fl i ms mn ps pn rule: scan_runs.induct)
  case (1 fl i ms mn ps pn)
  note IH = "1.IH" and inv = "1.prems"(1) and eq = "1.prems"(4) [unfolded scan_runs.simps [of fl i]]
  consider (stop) "i = NFRAME" | (start) "i < NFRAME" "fl ! i = FREE" "ps = -1"
    | (longer) "i < NFRAME - 1" "fl ! i = FREE" "ps \<noteq> -1"
    | (lastone) "i = NFRAME - 1" "fl ! i = FREE" "ps \<noteq> -1"
    | (closing) "i < NFRAME" "fl ! i \<noteq> FREE" "ps \<noteq> -1"
    | (skipping) "i < NFRAME" "fl ! i \<noteq> FREE" "ps = -1"
    using "1.prems"(2) by linarith
  then show ?case
  proof cases
    case stop
    then show ?thesis using "1.prems" eq by auto
  next
    case start
    then show ?thesis
      using scan_inv_open [OF inv] IH(1) eq by auto
  next
    case longer
    then have "i < NFRAME" "i + 1 \<noteq> NFRAME" by auto
    with longer show ?thesis
      using scan_inv_extend [OF inv] IH(2) eq by auto
  next
    case lastone
    then show ?thesis
      using scan_inv_close [OF scan_inv_extend [OF inv], of NFRAME] IH(3,4) eq
      by (auto simp: Let_def NFRAME_def split: if_splits)
  next
    case closing
    then show ?thesis
      using scan_inv_close [OF inv, of "i + 1"] IH(3,4) eq
      by (auto simp: Let_def split: if_splits)
  next
    case skipping
    then show ?thesis
      using scan_inv_skip [OF inv] IH(5) eq by auto
  qed
qed


lemma scan_runs_longest:
  assumes "scan_runs fl 0 (-1) 0 (-1) 0 = (rs, rn)"
  shows "0 \<le> rn" "0 < rn \<Longrightarrow> 0 \<le> rs \<and> free_run fl (nat rs) (nat rn)"
    and "free_run fl b n \<Longrightarrow> 2 \<le> n \<Longrightarrow> int n \<le> rn"
proof -
  obtain ps pn where inv: "scan_inv fl NFRAME rs rn ps pn" and ps: "ps = -1 \<or> ps = int NFRAME - 1"
    using scan_runs_inv [OF scan_inv_start _ _ assms] by (auto simp: NFRAME_def)
  from inv show "0 \<le> rn" "0 < rn \<Longrightarrow> 0 \<le> rs \<and> free_run fl (nat rs) (nat rn)"
    by (auto simp: scan_inv_def)
  assume r: "free_run fl b n" "2 \<le> n"
  then have "b + n \<le> NFRAME" by (simp add: free_run_def)
  with scan_inv_max [OF inv r(1)] r(2) ps show "int n \<le> rn" by auto
qed

lemma free_run_part: "free_run fl b m \<Longrightarrow> n \<le> m \<Longrightarrow> free_run fl b n"
  by (auto simp: free_run_def)

section \<open>Correctness of the allocator\<close>

lemma length_freeframes [simp]: "length (freeframes pid fl) = length fl"
  by (simp add: freeframes_def)

lemma nth_freeframes [simp]:
  "k < length fl \<Longrightarrow> freeframes pid fl ! k = (if fl ! k = pid then FREE else fl ! k)"
  by (simp add: freeframes_def)

lemma allocframes_one:
  "allocframes pid 1 fl =
     (case find_from (\<lambda>i. freeframes pid fl ! i = FREE) 0 NFRAME of
        Some i \<Rightarrow> (int i, (freeframes pid fl)[i := pid]) | None \<Rightarrow> (-1, fl))"
  by (simp add: allocframes_def Let_def)

lemma free_run_one: "free_run fl b 1 \<longleftrightarrow> b < NFRAME \<and> fl ! b = FREE"
  by (auto simp: free_run_def le_less_Suc_eq)

text \<open>
  What a caller may rely on: failure (\<open>-1\<close>) leaves the list alone and means that no run of
  \<open>n\<close> contiguous frames is free or the caller's own; success returns the base of such a run, of
  which, and of nothing else, the caller is the owner afterwards.
\<close>

definition frame_alloc_spec :: "int \<Rightarrow> int \<Rightarrow> flist \<Rightarrow> int \<times> flist \<Rightarrow> bool" where
  "frame_alloc_spec pid n fl res \<longleftrightarrow>
     (let (r, fl') = res in
      if r = -1 then fl' = fl \<and> (\<forall>b. \<not> free_run (freeframes pid fl) b (nat n))
      else 0 \<le> r \<and> free_run (freeframes pid fl) (nat r) (nat n) \<and> length fl' = NFRAME \<and>
        (\<forall>k < NFRAME. fl' ! k = (if r \<le> int k \<and> int k < r + n then pid
                                else if fl ! k = pid then FREE else fl ! k)))"

lemma allocframes_one_spec:
  assumes "length fl = NFRAME"
  shows "frame_alloc_spec pid 1 fl (allocframes pid 1 fl)"
proof (cases "find_from (\<lambda>i. freeframes pid fl ! i = FREE) 0 NFRAME")
  case None
  then have "\<not> free_run (freeframes pid fl) b 1" for b
    using free_run_one [of "freeframes pid fl"] by (auto simp: find_from_None)
  then show ?thesis
    unfolding allocframes_one None by (simp add: frame_alloc_spec_def)
next
  case (Some i)
  note i = find_from_SomeD [OF Some]
  from i have "free_run (freeframes pid fl) i 1"
    using free_run_one by blast
  with i assms show ?thesis
    unfolding allocframes_one Some by (auto simp: frame_alloc_spec_def nth_list_update)
qed

lemma allocframes_many_spec:
  assumes len: "length fl = NFRAME" and n: "1 < n"
  shows "frame_alloc_spec pid n fl (allocframes pid n fl)"
proof -
  let ?fl = "freeframes pid fl"
  obtain rs rn where sc: "scan_runs ?fl 0 (-1) 0 (-1) 0 = (rs, rn)"
    by fastforce
  note L = scan_runs_longest [OF sc]
  have af: "allocframes pid n fl =
      (if rn \<ge> n then (rs, patch (nat rs) (replicate (nat n) pid) ?fl) else (-1, fl))"
    using n by (simp add: allocframes_def Let_def sc)
  show ?thesis
  proof (cases "rn \<ge> n")
    case True
    then have r: "0 \<le> rs" "free_run ?fl (nat rs) (nat n)"
      using L(2) n by (auto intro: free_run_part)
    then have "nat rs + nat n \<le> NFRAME" by (simp add: free_run_def)
    then show ?thesis
      using True r len n unfolding af by (auto simp: frame_alloc_spec_def nth_patch)
  next
    case False
    moreover have "2 \<le> nat n" using n by linarith
    ultimately have "\<not> free_run ?fl b (nat n)" for b
      using L(3) [of b "nat n"] n by auto
    then show ?thesis
      using False unfolding af by (simp add: frame_alloc_spec_def)
  qed
qed

text \<open>
  C1. For any process and any positive number of frames: \<open>allocframes\<close> fails exactly when no run
  of that many contiguous frames is free or owned by the process itself, and then the frame list
  is unchanged; otherwise it returns the base of such a run, the process owns exactly that run
  afterwards, and every frame of another process keeps its owner.
\<close>

theorem allocframes_correct:
  assumes "length fl = NFRAME" and "1 \<le> n"
  shows "frame_alloc_spec pid n fl (allocframes pid n fl)"
  using allocframes_one_spec allocframes_many_spec assms by (cases "n = 1") auto

theorem allocframes_correct_witness:
  "frame_alloc_spec 3 2 ([7, 3, 0, 9, 0, 0, 0] @ replicate 9 9)
     (allocframes 3 2 ([7, 3, 0, 9, 0, 0, 0] @ replicate 9 9)) \<and>
   allocframes 3 2 ([7, 3, 0, 9, 0, 0, 0] @ replicate 9 9) =
     (4, [7, 0, 0, 9, 3, 3, 0] @ replicate 9 9) \<and>
   frame_alloc_spec 3 4 ([7, 3, 0, 9, 0, 0, 0] @ replicate 9 9)
     (allocframes 3 4 ([7, 3, 0, 9, 0, 0, 0] @ replicate 9 9)) \<and>
   fst (allocframes 3 4 ([7, 3, 0, 9, 0, 0, 0] @ replicate 9 9)) = -1"
proof -
  have len: "length ([7, 3, 0, 9, 0, 0, 0] @ replicate 9 9 :: flist) = NFRAME"
    by (simp add: NFRAME_def)
  have v: "allocframes 3 2 ([7, 3, 0, 9, 0, 0, 0] @ replicate 9 9) =
      (4, [7, 0, 0, 9, 3, 3, 0] @ replicate 9 9)"
    "fst (allocframes 3 4 ([7, 3, 0, 9, 0, 0, 0] @ replicate 9 9)) = -1"
    by code_simp+
  show ?thesis
    by (intro conjI v allocframes_correct len) simp_all
qed

end
