(* ===== verification/Bio.thy ===== *)
theory Bio
  imports Prelude
begin

text \<open>
  The buffer cache (\<open>kern/bio.c\<close>) over the block device (\<open>kern/usbblk.c\<close>). The cache is the
  array of \<open>NBUF\<close> buffers followed by the list head, all linked through \<open>prev\<close> and \<open>next\<close>; a
  buffer pointer is an index, and \<open>HEAD\<close> is \<open>&bcache.head\<close>. The device is a map from sectors to
  blocks together with the sectors for which it reports success.

  The linked list is abstracted to the list of buffer indices in most-recently-used order, and
  the whole cache to the \<^emph>\<open>logical\<close> contents of the disk: a block is what its valid buffer holds,
  or what the device holds when no buffer is valid. Reading a block returns its logical contents
  and changes no logical contents, whatever the cache evicts on the way; marking a changed buffer
  dirty changes exactly that block; \<open>bflush\<close> makes the device agree with the logical contents.
\<close>

definition NBUF :: nat where "NBUF = 400"
definition BSIZE :: nat where "BSIZE = 512"
definition HEAD :: nat where "HEAD = NBUF"

definition B_VALID :: uchar where "B_VALID = 2"
definition B_DIRTY :: uchar where "B_DIRTY = 4"

record buf =
  b_flags :: uchar
  b_blockno :: uint
  b_refcnt :: ushort
  b_prev :: nat
  b_next :: nat
  b_data :: bytes

record bio_state =
  bcache :: "nat \<Rightarrow> buf"
  disk :: "uint \<Rightarrow> bytes"
  dev_ok :: "uint \<Rightarrow> bool"

section \<open>The block device\<close>

text \<open>
  \<open>read_block\<close> and \<open>write_block\<close> drive the CH375 and return 0 when it reports anything but
  success; \<open>dev_ok\<close> says for which sectors it reports success.
\<close>

definition read_block :: "uint \<Rightarrow> 'a bio_state_scheme \<Rightarrow> bytes option" where
  "read_block lba s = (if dev_ok s lba then Some (disk s lba) else None)"

definition write_block :: "bytes \<Rightarrow> uint \<Rightarrow> 'a bio_state_scheme \<Rightarrow> 'a bio_state_scheme option" where
  "write_block d lba s = (if dev_ok s lba then Some (s\<lparr>disk := (disk s)(lba := d)\<rparr>) else None)"

definition upd_buf :: "nat \<Rightarrow> (buf \<Rightarrow> buf) \<Rightarrow> 'a bio_state_scheme \<Rightarrow> 'a bio_state_scheme" where
  "upd_buf b f s = s\<lparr>bcache := (bcache s)(b := f (bcache s b))\<rparr>"

definition blkrw :: "nat \<Rightarrow> 'a bio_state_scheme \<Rightarrow> 'a bio_state_scheme res" where
  "blkrw b s =
     (if b_flags (bcache s b) AND (B_VALID OR B_DIRTY) = B_VALID then Panic ''blkrw1''
      else rbind
        (if b_flags (bcache s b) AND B_DIRTY \<noteq> 0 then
           (case write_block (b_data (bcache s b)) (b_blockno (bcache s b)) s of
              None \<Rightarrow> Panic ''blkrw2''
            | Some s \<Rightarrow> Ok (upd_buf b (\<lambda>f. f\<lparr>b_flags := b_flags f AND NOT B_DIRTY\<rparr>) s))
         else
           (case read_block (b_blockno (bcache s b)) s of
              None \<Rightarrow> Panic ''blkrw3''
            | Some d \<Rightarrow> Ok (upd_buf b (\<lambda>f. f\<lparr>b_data := d\<rparr>) s)))
        (\<lambda>s. Ok (upd_buf b (\<lambda>f. f\<lparr>b_flags := b_flags f OR B_VALID\<rparr>) s)))"

section \<open>The linked list of buffers\<close>

definition set_prev :: "nat \<Rightarrow> nat \<Rightarrow> (nat \<Rightarrow> buf) \<Rightarrow> (nat \<Rightarrow> buf)" where
  "set_prev p v bc = bc(p := (bc p)\<lparr>b_prev := v\<rparr>)"

definition set_next :: "nat \<Rightarrow> nat \<Rightarrow> (nat \<Rightarrow> buf) \<Rightarrow> (nat \<Rightarrow> buf)" where
  "set_next p v bc = bc(p := (bc p)\<lparr>b_next := v\<rparr>)"

text \<open>The four assignments that put \<open>b\<close> at the front, shared by \<open>binit\<close> and \<open>brelse\<close>.\<close>

definition link_front :: "nat \<Rightarrow> (nat \<Rightarrow> buf) \<Rightarrow> (nat \<Rightarrow> buf)" where
  "link_front b bc =
     (let bc = set_next b (b_next (bc HEAD)) bc;
          bc = set_prev b HEAD bc;
          bc = set_prev (b_next (bc HEAD)) b bc
      in set_next HEAD b bc)"

definition unlink_buf :: "nat \<Rightarrow> (nat \<Rightarrow> buf) \<Rightarrow> (nat \<Rightarrow> buf)" where
  "unlink_buf b bc =
     (let bc = set_prev (b_next (bc b)) (b_prev (bc b)) bc
      in set_next (b_prev (bc b)) (b_next (bc b)) bc)"

definition binit :: "'a bio_state_scheme \<Rightarrow> 'a bio_state_scheme" where
  "binit s = s\<lparr>bcache := fold link_front [0..<NBUF] (set_next HEAD HEAD (set_prev HEAD HEAD (bcache s)))\<rparr>"

text \<open>
  A loop \<open>for (b = start; b != &bcache.head; b = b->step) if (P b) ...\<close>. It changes nothing while
  it runs, so if it has not met the head or a match after visiting every node it never will;
  \<open>BFUEL\<close> is one more than the number of buffers.
\<close>

definition BFUEL :: nat where "BFUEL = Suc NBUF"

fun bscan :: "nat \<Rightarrow> (buf \<Rightarrow> bool) \<Rightarrow> (buf \<Rightarrow> nat) \<Rightarrow> (nat \<Rightarrow> buf) \<Rightarrow> nat \<Rightarrow> nat option res" where
  "bscan 0 P step bc b = Hang"
| "bscan (Suc k) P step bc b =
     (if b = HEAD then Ok None else if P (bc b) then Ok (Some b) else bscan k P step bc (step (bc b)))"

definition recycle :: "uint \<Rightarrow> buf \<Rightarrow> buf" where
  "recycle blockno f = f\<lparr>b_blockno := blockno, b_flags := 0, b_refcnt := 1\<rparr>"

definition bget :: "uint \<Rightarrow> 'a bio_state_scheme \<Rightarrow> (nat \<times> 'a bio_state_scheme) res" where
  "bget blockno s =
     rbind (bscan BFUEL (\<lambda>f. b_blockno f = blockno) b_next (bcache s) (b_next (bcache s HEAD)))
       (\<lambda>hit. case hit of
          Some b \<Rightarrow> Ok (b, upd_buf b (\<lambda>f. f\<lparr>b_refcnt := b_refcnt f + 1\<rparr>) s)
        | None \<Rightarrow>
     rbind (bscan BFUEL (\<lambda>f. b_refcnt f = 0 \<and> b_flags f AND B_DIRTY = 0) b_prev (bcache s)
              (b_prev (bcache s HEAD)))
       (\<lambda>clean. case clean of
          Some b \<Rightarrow> Ok (b, upd_buf b (recycle blockno) s)
        | None \<Rightarrow>
     rbind (bscan BFUEL (\<lambda>f. b_refcnt f = 0) b_prev (bcache s) (b_prev (bcache s HEAD)))
       (\<lambda>unused. case unused of
          Some b \<Rightarrow> rbind (blkrw b s) (\<lambda>s. Ok (b, upd_buf b (recycle blockno) s))
        | None \<Rightarrow> Panic ''bget: no buffers'')))"

definition bread :: "uint \<Rightarrow> 'a bio_state_scheme \<Rightarrow> (nat \<times> 'a bio_state_scheme) res" where
  "bread blockno s =
     rbind (bget blockno s) (\<lambda>(b, s).
       if b_flags (bcache s b) AND B_VALID = 0 then rbind (blkrw b s) (\<lambda>s. Ok (b, s))
       else Ok (b, s))"

definition bwrite :: "nat \<Rightarrow> 'a bio_state_scheme \<Rightarrow> 'a bio_state_scheme" where
  "bwrite b s = upd_buf b (\<lambda>f. f\<lparr>b_flags := b_flags f OR B_DIRTY\<rparr>) s"

definition brelse :: "nat \<Rightarrow> 'a bio_state_scheme \<Rightarrow> 'a bio_state_scheme" where
  "brelse b s =
     (let s = upd_buf b (\<lambda>f. f\<lparr>b_refcnt := b_refcnt f - 1\<rparr>) s
      in if b_refcnt (bcache s b) = 0 then s\<lparr>bcache := link_front b (unlink_buf b (bcache s))\<rparr> else s)"

text \<open>Writing through \<open>b->data\<close>, which the clients of the cache do in place.\<close>

definition set_data :: "nat \<Rightarrow> bytes \<Rightarrow> 'a bio_state_scheme \<Rightarrow> 'a bio_state_scheme" where
  "set_data b d s = upd_buf b (\<lambda>f. f\<lparr>b_data := d\<rparr>) s"

fun bflush_from :: "nat list \<Rightarrow> 'a bio_state_scheme \<Rightarrow> 'a bio_state_scheme res" where
  "bflush_from [] s = Ok s"
| "bflush_from (b # bs) s =
     rbind (if b_flags (bcache s b) AND B_DIRTY \<noteq> 0 then blkrw b s else Ok s) (\<lambda>s. bflush_from bs s)"

definition bflush :: "'a bio_state_scheme \<Rightarrow> 'a bio_state_scheme res" where
  "bflush s = bflush_from [0..<NBUF] s"

section \<open>The list abstraction\<close>

text \<open>\<open>linked bc xs\<close>: consecutive nodes of \<open>xs\<close> point at each other.\<close>

fun linked :: "(nat \<Rightarrow> buf) \<Rightarrow> nat list \<Rightarrow> bool" where
  "linked bc (x # y # zs) \<longleftrightarrow> b_next (bc x) = y \<and> b_prev (bc y) = x \<and> linked bc (y # zs)"
| "linked bc _ \<longleftrightarrow> True"

definition mru :: "(nat \<Rightarrow> buf) \<Rightarrow> nat list \<Rightarrow> bool" where
  "mru bc xs \<longleftrightarrow> linked bc (HEAD # xs @ [HEAD]) \<and> distinct xs \<and> set xs = {..<NBUF}"

lemma linked_join:
  "linked bc (us @ p # q # vs) \<longleftrightarrow>
     linked bc (us @ [p]) \<and> b_next (bc p) = q \<and> b_prev (bc q) = p \<and> linked bc (q # vs)"
  by (induction us rule: induct_list012) auto

lemma linked_cong:
  "(\<And>i. i \<in> set (butlast zs) \<Longrightarrow> b_next (bc' i) = b_next (bc i)) \<Longrightarrow>
   (\<And>i. i \<in> set (tl zs) \<Longrightarrow> b_prev (bc' i) = b_prev (bc i)) \<Longrightarrow> linked bc' zs = linked bc zs"
  by (induction zs rule: induct_list012) auto

lemma bscan_next:
  "linked bc (a # xs @ [HEAD]) \<Longrightarrow> HEAD \<notin> set xs \<Longrightarrow> length xs < k \<Longrightarrow>
     bscan k P b_next bc (b_next (bc a)) = Ok (find (\<lambda>i. P (bc i)) xs)"
proof (induction xs arbitrary: a k)
  case Nil
  then show ?case by (cases k) auto
next
  case (Cons x xs)
  then show ?case by (cases k) auto
qed

lemma bscan_prev:
  "linked bc (HEAD # xs @ [a]) \<Longrightarrow> HEAD \<notin> set xs \<Longrightarrow> length xs < k \<Longrightarrow>
     bscan k P b_prev bc (b_prev (bc a)) = Ok (find (\<lambda>i. P (bc i)) (rev xs))"
proof (induction xs arbitrary: a k rule: rev_induct)
  case Nil
  then show ?case by (cases k) auto
next
  case (snoc x xs)
  have "linked bc (HEAD # xs @ [x])" "b_prev (bc a) = x"
    using snoc.prems(1) linked_join [of bc "HEAD # xs" x a "[]"] by simp_all
  then show ?case using snoc by (cases k) auto
qed

lemma HEAD_not_buf [simp]: "\<not> HEAD < NBUF" "i < NBUF \<Longrightarrow> i \<noteq> HEAD" "i < NBUF \<Longrightarrow> HEAD \<noteq> i"
  by (auto simp: HEAD_def)

lemma mru_length: "mru bc xs \<Longrightarrow> length xs = NBUF"
  by (metis card_lessThan distinct_card mru_def)

lemma mru_scan:
  assumes "mru bc xs"
  shows "bscan BFUEL P b_next bc (b_next (bc HEAD)) = Ok (find (\<lambda>i. P (bc i)) xs)"
    and "bscan BFUEL P b_prev bc (b_prev (bc HEAD)) = Ok (find (\<lambda>i. P (bc i)) (rev xs))"
proof -
  have xs: "linked bc (HEAD # xs @ [HEAD])" "HEAD \<notin> set xs" "length xs < BFUEL"
    using assms mru_length [OF assms] by (simp_all add: mru_def BFUEL_def)
  show "bscan BFUEL P b_next bc (b_next (bc HEAD)) = Ok (find (\<lambda>i. P (bc i)) xs)"
    using xs by (rule bscan_next)
  show "bscan BFUEL P b_prev bc (b_prev (bc HEAD)) = Ok (find (\<lambda>i. P (bc i)) (rev xs))"
    using xs by (rule bscan_prev)
qed

text \<open>Changing fields other than the links keeps the list.\<close>

lemma mru_cong:
  "(\<And>i. b_next (bc' i) = b_next (bc i) \<and> b_prev (bc' i) = b_prev (bc i)) \<Longrightarrow> mru bc' xs = mru bc xs"
  using linked_cong [of "HEAD # xs @ [HEAD]" bc' bc] by (simp add: mru_def)

lemma linked_link_front:
  assumes "linked bc (HEAD # zs @ [HEAD])" "b \<notin> set zs" "b \<noteq> HEAD" "HEAD \<notin> set zs" "distinct zs"
  shows "linked (link_front b bc) (HEAD # b # zs @ [HEAD])"
proof -
  obtain q vs where q: "zs @ [HEAD] = q # vs" by (cases zs) auto
  have "distinct (q # vs)" "b \<notin> set (q # vs)" unfolding q [symmetric] using assms by auto
  then have d: "q \<notin> set vs" "b \<noteq> q" "b \<notin> set vs" by auto
  from assms(1) have "linked bc ([] @ HEAD # q # vs)" by (simp add: q)
  then have 1: "b_next (bc HEAD) = q" and 2: "linked bc (q # vs)"
    by (simp_all only: linked_join)
  have hd: "HEAD \<notin> set (butlast (q # vs))"
    unfolding q [symmetric] using assms by simp
  let ?bc = "link_front b bc"
  have "linked ?bc (q # vs) = linked bc (q # vs)"
    using d hd 1 by (intro linked_cong) (auto simp: link_front_def set_next_def set_prev_def Let_def split: if_splits dest: in_set_butlastD)
  with 1 2 d assms(3) have "linked ?bc (HEAD # b # q # vs)"
    by (auto simp: link_front_def set_next_def set_prev_def Let_def)
  then show ?thesis by (simp add: q)
qed

lemma linked_unlink:
  assumes "linked bc (HEAD # (xs @ b # ys) @ [HEAD])" "distinct (xs @ b # ys)" "HEAD \<notin> set (xs @ b # ys)"
  shows "linked (unlink_buf b bc) (HEAD # (xs @ ys) @ [HEAD])"
proof -
  obtain us p where p: "HEAD # xs = us @ [p]" by (metis list.distinct(1) rev_exhaust)
  obtain n vs where n: "ys @ [HEAD] = n # vs" by (cases ys) auto
  have "linked bc (us @ p # b # n # vs)"
    using assms(1) p n by (metis append_Cons append_Nil append_assoc)
  then have l: "linked bc (us @ [p])" "b_next (bc p) = b" "b_prev (bc b) = p" "b_next (bc b) = n" "linked bc (n # vs)"
    by (auto simp: linked_join)
  have dp: "distinct (us @ [p])" and dn: "distinct (n # vs)"
    unfolding p [symmetric] n [symmetric] using assms by auto
  have sn: "n \<notin> set (tl (us @ [p]))" and sp: "p \<notin> set (butlast (n # vs))"
    unfolding p [symmetric] n [symmetric] using assms p n
    by (auto simp: append_eq_Cons_conv Cons_eq_append_conv) 
  have bp: "b \<noteq> p" "b \<noteq> n"
    using assms p n by (auto simp: append_eq_Cons_conv Cons_eq_append_conv)
  let ?bc = "unlink_buf b bc"
  have ub: "?bc = set_next p n (set_prev n p bc)"
    using l bp by (auto simp: unlink_buf_def set_prev_def set_next_def Let_def)
  have "linked ?bc (us @ [p])"
    using l(1) dp sn unfolding ub
    by (subst linked_cong [of _ _ bc]) (auto simp: set_next_def set_prev_def)
  moreover have "linked ?bc (n # vs)"
    using l(5) dn sp unfolding ub
    by (subst linked_cong [of _ _ bc]) (auto simp: set_next_def set_prev_def)
  moreover have "b_next (?bc p) = n" "b_prev (?bc n) = p"
    unfolding ub by (auto simp: set_next_def set_prev_def)
  ultimately have "linked ?bc (us @ p # n # vs)"
    by (simp add: linked_join)
  then show ?thesis using p n by (metis append_Cons append_Nil append_assoc)
qed


lemma mru_to_front:
  assumes "mru bc xs" "b < NBUF"
  shows "mru (link_front b (unlink_buf b bc)) (b # filter (\<lambda>i. i \<noteq> b) xs)"
proof -
  from assms have "b \<in> set xs" by (simp add: mru_def)
  then obtain us vs where xs: "xs = us @ b # vs" by (meson split_list)
  with assms have d: "distinct (us @ b # vs)" "HEAD \<notin> set (us @ b # vs)"
    by (auto simp: mru_def)
  then have f: "filter (\<lambda>i. i \<noteq> b) xs = us @ vs"
    by (auto simp: xs intro!: arg_cong2 [of _ _ _ _ "(@)"] filter_True)
  have "linked (unlink_buf b bc) (HEAD # (us @ vs) @ [HEAD])"
    using assms d by (intro linked_unlink) (auto simp: mru_def xs)
  then have "linked (link_front b (unlink_buf b bc)) (HEAD # b # (us @ vs) @ [HEAD])"
    using d assms(2) by (intro linked_link_front) auto
  then show ?thesis
    using assms d unfolding mru_def f by (auto simp: xs)
qed

lemma linked_binit:
  assumes "n \<le> NBUF"
  shows "linked (fold link_front [0..<n] (set_next HEAD HEAD (set_prev HEAD HEAD bc))) (HEAD # rev [0..<n] @ [HEAD])"
  using assms
proof (induction n)
  case 0
  show ?case by (simp add: set_next_def set_prev_def)
next
  case (Suc n)
  then have "linked (fold link_front [0..<n] (set_next HEAD HEAD (set_prev HEAD HEAD bc))) (HEAD # rev [0..<n] @ [HEAD])"
    by simp
  then have "linked (link_front n (fold link_front [0..<n] (set_next HEAD HEAD (set_prev HEAD HEAD bc))))
      (HEAD # n # rev [0..<n] @ [HEAD])"
    using Suc.prems by (intro linked_link_front) (auto simp: HEAD_def)
  then show ?case by simp
qed

lemma link_front_fields [simp]:
  "b_flags (link_front b bc i) = b_flags (bc i)" "b_blockno (link_front b bc i) = b_blockno (bc i)"
  "b_refcnt (link_front b bc i) = b_refcnt (bc i)" "b_data (link_front b bc i) = b_data (bc i)"
  by (simp_all add: link_front_def set_next_def set_prev_def Let_def)

lemma unlink_buf_fields [simp]:
  "b_flags (unlink_buf b bc i) = b_flags (bc i)" "b_blockno (unlink_buf b bc i) = b_blockno (bc i)"
  "b_refcnt (unlink_buf b bc i) = b_refcnt (bc i)" "b_data (unlink_buf b bc i) = b_data (bc i)"
  by (simp_all add: unlink_buf_def set_next_def set_prev_def Let_def)

lemma fold_link_front_fields [simp]:
  "b_flags (fold link_front bs bc i) = b_flags (bc i)" "b_blockno (fold link_front bs bc i) = b_blockno (bc i)"
  "b_refcnt (fold link_front bs bc i) = b_refcnt (bc i)" "b_data (fold link_front bs bc i) = b_data (bc i)"
  by (induction bs arbitrary: bc) auto

lemma set_link_fields [simp]:
  "b_flags (set_next p v bc i) = b_flags (bc i)" "b_blockno (set_next p v bc i) = b_blockno (bc i)"
  "b_refcnt (set_next p v bc i) = b_refcnt (bc i)" "b_data (set_next p v bc i) = b_data (bc i)"
  "b_flags (set_prev p v bc i) = b_flags (bc i)" "b_blockno (set_prev p v bc i) = b_blockno (bc i)"
  "b_refcnt (set_prev p v bc i) = b_refcnt (bc i)" "b_data (set_prev p v bc i) = b_data (bc i)"
  by (simp_all add: set_next_def set_prev_def)

section \<open>The invariant and the logical disk\<close>

text \<open>
  A buffer is empty (block number 0, which the file system never reads) or valid for its block;
  a valid buffer that is not dirty agrees with the device; no two buffers hold the same block.
\<close>

definition buf_ok :: "(uint \<Rightarrow> bytes) \<Rightarrow> buf \<Rightarrow> bool" where
  "buf_ok d f \<longleftrightarrow> length (b_data f) = BSIZE \<and>
     (b_blockno f = 0 \<longrightarrow> b_flags f = 0 \<and> b_refcnt f = 0) \<and>
     (b_blockno f \<noteq> 0 \<longrightarrow> b_flags f = B_VALID \<and> b_data f = d (b_blockno f) \<or> b_flags f = B_VALID OR B_DIRTY)"

definition cache_inv :: "(nat \<Rightarrow> buf) \<Rightarrow> (uint \<Rightarrow> bytes) \<Rightarrow> bool" where
  "cache_inv bc d \<longleftrightarrow> (\<exists>xs. mru bc xs) \<and> (\<forall>i < NBUF. buf_ok d (bc i)) \<and> (\<forall>n. length (d n) = BSIZE) \<and>
     (\<forall>i < NBUF. \<forall>j < NBUF. b_blockno (bc i) = b_blockno (bc j) \<and> b_blockno (bc i) \<noteq> 0 \<longrightarrow> i = j)"

definition bio_inv :: "'a bio_state_scheme \<Rightarrow> bool" where
  "bio_inv s \<longleftrightarrow> cache_inv (bcache s) (disk s) \<and> (\<forall>lba. dev_ok s lba)"

text \<open>The buffer of a block, its logical contents and the number of references to it.\<close>

definition slot :: "(nat \<Rightarrow> buf) \<Rightarrow> uint \<Rightarrow> nat option" where
  "slot bc n = (if n = 0 then None else find_from (\<lambda>i. b_blockno (bc i) = n) 0 NBUF)"

definition blk :: "'a bio_state_scheme \<Rightarrow> uint \<Rightarrow> bytes" where
  "blk s n = (case slot (bcache s) n of Some i \<Rightarrow> b_data (bcache s i) | None \<Rightarrow> disk s n)"

definition refs :: "'a bio_state_scheme \<Rightarrow> uint \<Rightarrow> nat" where
  "refs s n = (case slot (bcache s) n of Some i \<Rightarrow> unat (b_refcnt (bcache s i)) | None \<Rightarrow> 0)"

text \<open>The caller holds block \<open>n\<close> in buffer \<open>b\<close>.\<close>

definition holds :: "'a bio_state_scheme \<Rightarrow> nat \<Rightarrow> uint \<Rightarrow> bool" where
  "holds s b n \<longleftrightarrow> b < NBUF \<and> n \<noteq> 0 \<and> b_blockno (bcache s b) = n \<and> 0 < refs s n"

definition held :: "'a bio_state_scheme \<Rightarrow> uint set" where
  "held s = {n. 0 < refs s n}"

text \<open>Operations of the cache change the cache and the device only.\<close>

definition bio_frame :: "'a bio_state_scheme \<Rightarrow> 'a bio_state_scheme \<Rightarrow> bool" where
  "bio_frame s s' \<longleftrightarrow> (\<exists>bc d. s' = s\<lparr>bcache := bc, disk := d\<rparr>)"

lemma cache_unique:
  "cache_inv bc d \<Longrightarrow> i < NBUF \<Longrightarrow> j < NBUF \<Longrightarrow> b_blockno (bc i) = b_blockno (bc j) \<Longrightarrow>
     b_blockno (bc i) \<noteq> 0 \<Longrightarrow> i = j"
  unfolding cache_inv_def by blast

lemma slot_eq:
  assumes "cache_inv bc d"
  shows "slot bc n = Some i \<longleftrightarrow> i < NBUF \<and> n \<noteq> 0 \<and> b_blockno (bc i) = n"
proof -
  have "\<not> j < i" if "i < NBUF" "n \<noteq> 0" "b_blockno (bc i) = n" "b_blockno (bc j) = n" for j
    using cache_unique [OF assms that(1), of j] that by auto
  then show ?thesis by (auto simp: slot_def find_from_Some)
qed

lemma slot_None: "slot bc n = None \<longleftrightarrow> n = 0 \<or> (\<forall>i < NBUF. b_blockno (bc i) \<noteq> n)"
  by (auto simp: slot_def find_from_None)


lemma slot_hit:
  "cache_inv bc d \<Longrightarrow> b < NBUF \<Longrightarrow> b_blockno (bc b) \<noteq> 0 \<Longrightarrow> slot bc (b_blockno (bc b)) = Some b"
  by (simp add: slot_eq)

lemma bio_frameE:
  assumes "bio_frame s s'"
  obtains bc d where "s' = s\<lparr>bcache := bc, disk := d\<rparr>"
  using assms unfolding bio_frame_def by blast

lemma bio_frameI: "s' = s\<lparr>bcache := bc, disk := d\<rparr> \<Longrightarrow> bio_frame s s'"
  unfolding bio_frame_def by blast

lemma bio_frame_bcache [simp]: "bio_frame s (s\<lparr>bcache := bc\<rparr>)"
  by (rule bio_frameI [where bc = bc and d = "disk s"]) simp

lemma bio_frame_disk [simp]: "bio_frame s (s\<lparr>disk := d\<rparr>)"
  by (rule bio_frameI [where bc = "bcache s" and d = d]) simp

lemma bio_frame_refl [simp]: "bio_frame s s"
  using bio_frame_bcache [of s "bcache s"] by simp

lemma bio_frame_upd [simp]: "bio_frame s (upd_buf b f s)"
  by (simp add: upd_buf_def)

lemma bio_frame_trans: "bio_frame s t \<Longrightarrow> bio_frame t u \<Longrightarrow> bio_frame s u"
  by (elim bio_frameE) (simp add: bio_frameI)

lemma bio_frame_step [simp]:
  "bio_frame s t \<Longrightarrow> bio_frame s (upd_buf b f t)" "bio_frame s t \<Longrightarrow> bio_frame s (t\<lparr>bcache := bc\<rparr>)"
  "bio_frame s t \<Longrightarrow> bio_frame s (t\<lparr>disk := d\<rparr>)"
  using bio_frame_trans bio_frame_upd bio_frame_bcache bio_frame_disk by blast+

lemma bio_frame_dev: "bio_frame s s' \<Longrightarrow> dev_ok s' = dev_ok s"
  by (elim bio_frameE) simp

lemma cache_invI:
  assumes "mru bc xs" "\<And>i. i < NBUF \<Longrightarrow> buf_ok d (bc i)" "\<And>n. length (d n) = BSIZE"
    "\<And>i j. i < NBUF \<Longrightarrow> j < NBUF \<Longrightarrow> b_blockno (bc i) = b_blockno (bc j) \<Longrightarrow> b_blockno (bc i) \<noteq> 0 \<Longrightarrow> i = j"
  shows "cache_inv bc d"
  using assms unfolding cache_inv_def by blast

lemma cache_invD:
  assumes "cache_inv bc d"
  shows "\<exists>xs. mru bc xs" "i < NBUF \<Longrightarrow> buf_ok d (bc i)" "length (d n) = BSIZE"
  using assms unfolding cache_inv_def by blast+

text \<open>Changing a buffer that keeps its block, its links and its consistency.\<close>

lemma cache_inv_upd:
  assumes inv: "cache_inv bc d" and b: "b < NBUF" "b_blockno f = b_blockno (bc b)"
    "b_next f = b_next (bc b)" "b_prev f = b_prev (bc b)" "buf_ok d f"
  shows "cache_inv (bc(b := f)) d"
proof -
  obtain xs where "mru bc xs" using cache_invD(1) [OF inv] by blast
  then have m: "mru (bc(b := f)) xs"
    using mru_cong [of "bc(b := f)" bc xs] b by auto
  have bn: "b_blockno ((bc(b := f)) i) = b_blockno (bc i)" for i
    using b by simp
  show ?thesis
    using m
  proof (rule cache_invI)
    fix i j assume "i < NBUF" "j < NBUF" "b_blockno ((bc(b := f)) i) = b_blockno ((bc(b := f)) j)"
      "b_blockno ((bc(b := f)) i) \<noteq> 0"
    then show "i = j" unfolding bn by (rule cache_unique [OF inv])
  qed (use cache_invD [OF inv] b(5) in auto)
qed

text \<open>Giving a buffer a block that no buffer holds.\<close>

lemma cache_inv_replace:
  assumes inv: "cache_inv bc d" and b: "b < NBUF" "slot bc (b_blockno f) = None"
    "b_next f = b_next (bc b)" "b_prev f = b_prev (bc b)" "buf_ok d f" "b_blockno f \<noteq> 0"
  shows "cache_inv (bc(b := f)) d"
proof -
  obtain xs where "mru bc xs" using cache_invD(1) [OF inv] by blast
  then have m: "mru (bc(b := f)) xs"
    using mru_cong [of "bc(b := f)" bc xs] b by auto
  have fresh: "b_blockno (bc i) \<noteq> b_blockno f" if "i < NBUF" for i
    using b that by (simp add: slot_None)
  show ?thesis
    using m
  proof (rule cache_invI)
    fix i j assume "i < NBUF" "j < NBUF" "b_blockno ((bc(b := f)) i) = b_blockno ((bc(b := f)) j)"
      "b_blockno ((bc(b := f)) i) \<noteq> 0"
    then show "i = j"
      using cache_unique [OF inv, of i j] fresh [of i] fresh [of j] by (auto split: if_splits)
  qed (use cache_invD [OF inv] b(5) in auto)
qed

text \<open>Writing a dirty buffer to the device.\<close>

lemma cache_inv_writeback:
  assumes inv: "cache_inv bc d" and b: "b < NBUF" "b_blockno (bc b) = m" "m \<noteq> 0"
  shows "cache_inv (bc(b := (bc b)\<lparr>b_flags := B_VALID\<rparr>)) (d(m := b_data (bc b)))"
proof -
  obtain xs where "mru bc xs" using cache_invD(1) [OF inv] by blast
  then have m: "mru (bc(b := (bc b)\<lparr>b_flags := B_VALID\<rparr>)) xs"
    using mru_cong [of "bc(b := (bc b)\<lparr>b_flags := B_VALID\<rparr>)" bc xs] by auto
  have other: "b_blockno (bc i) \<noteq> m" if "i < NBUF" "i \<noteq> b" for i
    using cache_unique [OF inv that(1) b(1)] that b by auto
  have len: "length (b_data (bc b)) = BSIZE"
    using cache_invD(2) [OF inv b(1)] by (simp add: buf_ok_def)
  have bn: "b_blockno ((bc(b := (bc b)\<lparr>b_flags := B_VALID\<rparr>)) i) = b_blockno (bc i)" for i
    by simp
  show ?thesis
    using m
  proof (rule cache_invI)
    fix i assume i: "i < NBUF"
    show "buf_ok (d(m := b_data (bc b))) ((bc(b := (bc b)\<lparr>b_flags := B_VALID\<rparr>)) i)"
      using cache_invD(2) [OF inv i] other [OF i] b len by (cases "i = b") (auto simp: buf_ok_def)
  next
    show "length ((d(m := b_data (bc b))) n) = BSIZE" for n
      using cache_invD(3) [OF inv] len by simp
  next
    fix i j assume "i < NBUF" "j < NBUF"
      "b_blockno ((bc(b := (bc b)\<lparr>b_flags := B_VALID\<rparr>)) i) = b_blockno ((bc(b := (bc b)\<lparr>b_flags := B_VALID\<rparr>)) j)"
      "b_blockno ((bc(b := (bc b)\<lparr>b_flags := B_VALID\<rparr>)) i) \<noteq> 0"
    then show "i = j" unfolding bn by (rule cache_unique [OF inv])
  qed
qed


section \<open>Specifications of the operations\<close>

lemma flag_simps [simp]:
  "B_VALID AND B_VALID = B_VALID" "(B_VALID OR B_DIRTY) AND B_VALID = B_VALID"
  "(B_VALID OR B_DIRTY) AND B_DIRTY = B_DIRTY" "B_VALID AND B_DIRTY = 0"
  "B_VALID AND (B_VALID OR B_DIRTY) = B_VALID" "(B_VALID OR B_DIRTY) AND NOT B_DIRTY = B_VALID"
  "B_VALID \<noteq> 0" "B_DIRTY \<noteq> 0" "(B_VALID OR B_DIRTY) OR B_DIRTY = B_VALID OR B_DIRTY"
  "0 \<noteq> B_VALID" "B_VALID OR B_DIRTY \<noteq> B_VALID" "B_VALID \<noteq> B_VALID OR B_DIRTY" "B_VALID OR B_VALID = B_VALID" "B_VALID OR B_DIRTY \<noteq> 0"
  by (simp_all add: B_VALID_def B_DIRTY_def)

lemma upd_buf_simps [simp]:
  "bcache (upd_buf b f s) = (bcache s)(b := f (bcache s b))" "disk (upd_buf b f s) = disk s"
  "dev_ok (upd_buf b f s) = dev_ok s"
  by (simp_all add: upd_buf_def)

lemma upd_buf_twice [simp]: "upd_buf b g (upd_buf b f s) = upd_buf b (\<lambda>x. g (f x)) s"
  by (simp add: upd_buf_def)

lemma blkrw_clean_fetch:
  assumes "b_flags (bcache s b) = 0" "dev_ok s (b_blockno (bcache s b))"
  shows "blkrw b s = Ok (upd_buf b (\<lambda>f. f\<lparr>b_data := disk s (b_blockno (bcache s b)), b_flags := B_VALID\<rparr>) s)"
  using assms by (simp add: blkrw_def read_block_def upd_buf_def)

lemma blkrw_writeback:
  assumes "b_flags (bcache s b) = B_VALID OR B_DIRTY" "dev_ok s (b_blockno (bcache s b))"
  shows "blkrw b s = Ok (upd_buf b (\<lambda>f. f\<lparr>b_flags := B_VALID\<rparr>)
           (s\<lparr>disk := (disk s)(b_blockno (bcache s b) := b_data (bcache s b))\<rparr>))"
  using assms by (simp add: blkrw_def write_block_def upd_buf_def)

lemma option_ext: "(\<And>i. x = Some i \<longleftrightarrow> y = Some i) \<Longrightarrow> x = y"
  by (cases x; cases y) auto

lemma slot_replace:
  assumes inv: "cache_inv bc d" and inv': "cache_inv (bc(b := f)) d" and b: "b < NBUF" "b_blockno f \<noteq> 0"
    and fresh: "slot bc (b_blockno f) = None"
  shows "slot (bc(b := f)) m =
    (if m = b_blockno f then Some b else if slot bc m = Some b then None else slot bc m)"
proof (rule option_ext)
  fix i
  have "b_blockno (bc i) \<noteq> b_blockno f" if "i < NBUF"
    using fresh b that by (simp add: slot_None)
  then show "slot (bc(b := f)) m = Some i \<longleftrightarrow>
      (if m = b_blockno f then Some b else if slot bc m = Some b then None else slot bc m) = Some i"
    using b cache_unique [OF inv, of i b] by (auto simp: slot_eq [OF inv] slot_eq [OF inv'])
qed

lemma slot_same_block:
  assumes "\<And>i. i < NBUF \<Longrightarrow> b_blockno (bc' i) = b_blockno (bc i)"
  shows "slot bc' = slot bc"
proof
  fix n
  have "find_from (\<lambda>i. b_blockno (bc' i) = n) 0 NBUF = find_from (\<lambda>i. b_blockno (bc i) = n) 0 NBUF"
    using assms by (intro option_ext) (auto simp: find_from_Some)
  then show "slot bc' n = slot bc n" by (simp add: slot_def)
qed

text \<open>What a caller can rely on after \<open>bread n\<close> in state \<open>s\<close> has returned \<open>(b, s')\<close>.\<close>

definition read_post :: "uint \<Rightarrow> 'a bio_state_scheme \<Rightarrow> nat \<Rightarrow> 'a bio_state_scheme \<Rightarrow> bool" where
  "read_post n s b s' \<longleftrightarrow> bio_inv s' \<and> bio_frame s s' \<and> blk s' = blk s \<and>
     refs s' = (refs s)(n := Suc (refs s n)) \<and> holds s' b n \<and> b_data (bcache s' b) = blk s n \<and>
     (\<forall>c m. holds s c m \<longrightarrow> holds s' c m)"

text \<open>
  A clean unused buffer is taken over: the contents of the block it held are on the device.
\<close>

lemma take_over:
  assumes inv: "bio_inv s" and b: "b < NBUF" "b_refcnt (bcache s b) = 0" "b_flags (bcache s b) \<noteq> B_VALID OR B_DIRTY"
    and n: "n \<noteq> 0" "slot (bcache s) n = None"
  shows "read_post n s b
    (upd_buf b (\<lambda>f. f\<lparr>b_blockno := n, b_refcnt := 1, b_data := disk s n, b_flags := B_VALID\<rparr>) s)"
proof -
  let ?f = "(bcache s b)\<lparr>b_blockno := n, b_refcnt := 1, b_data := disk s n, b_flags := B_VALID\<rparr>"
  let ?s = "upd_buf b (\<lambda>f. f\<lparr>b_blockno := n, b_refcnt := 1, b_data := disk s n, b_flags := B_VALID\<rparr>) s"
  from inv have ci: "cache_inv (bcache s) (disk s)" by (simp add: bio_inv_def)
  have ci': "cache_inv ((bcache s)(b := ?f)) (disk s)"
    using ci b(1) by (rule cache_inv_replace) (use n cache_invD(3) [OF ci] in \<open>auto simp: buf_ok_def\<close>)
  have ok: "buf_ok (disk s) (bcache s b)" using cache_invD(2) [OF ci b(1)] .
  have sl: "slot ((bcache s)(b := ?f)) m =
      (if m = n then Some b else if slot (bcache s) m = Some b then None else slot (bcache s) m)" for m
    using slot_replace [OF ci ci' b(1), of m] n by simp
  have clean: "b_data (bcache s b) = disk s m" if "slot (bcache s) m = Some b" for m
    using that slot_eq [OF ci] ok b by (auto simp: buf_ok_def)
  have "blk ?s = blk s"
    using sl n clean by (auto simp: blk_def fun_eq_iff split: option.splits)
  moreover have "refs ?s = (refs s)(n := Suc (refs s n))"
    using sl n b by (auto simp: refs_def fun_eq_iff split: option.splits)
  moreover have "holds ?s b n"
    using b n sl by (simp add: holds_def refs_def)
  moreover have "holds ?s c m" if h: "holds s c m" for c m
  proof -
    have "slot (bcache s) m = Some c" using h slot_eq [OF ci] by (simp add: holds_def)
    moreover from this h b have "c \<noteq> b" by (auto simp: holds_def refs_def)
    moreover have "m \<noteq> n" using n calculation by auto
    ultimately show ?thesis using h sl by (simp add: holds_def refs_def)
  qed
  ultimately show ?thesis
    using inv ci' n by (auto simp: read_post_def bio_inv_def blk_def)
qed


lemma writeback_same:
  assumes inv: "bio_inv s" and b: "b < NBUF" "b_flags (bcache s b) = B_VALID OR B_DIRTY"
    and s': "s' = upd_buf b (\<lambda>f. f\<lparr>b_flags := B_VALID\<rparr>)
           (s\<lparr>disk := (disk s)(b_blockno (bcache s b) := b_data (bcache s b))\<rparr>)"
  shows "bio_inv s' \<and> blk s' = blk s \<and> refs s' = refs s \<and> slot (bcache s') = slot (bcache s) \<and>
    (\<forall>c m. holds s' c m = holds s c m)"
proof -
  from inv have ci: "cache_inv (bcache s) (disk s)" by (simp add: bio_inv_def)
  have nz: "b_blockno (bcache s b) \<noteq> 0"
    using cache_invD(2) [OF ci b(1)] b(2) by (auto simp: buf_ok_def)
  have sl: "slot (bcache s') = slot (bcache s)"
    unfolding s' by (rule slot_same_block) simp
  have "blk s' m = blk s m" for m
  proof (cases "slot (bcache s) m")
    case None
    then have "m \<noteq> b_blockno (bcache s b)" using b nz by (auto simp: slot_None)
    with None show ?thesis using sl by (simp add: blk_def s')
  next
    case (Some i)
    with sl show ?thesis by (simp add: blk_def s')
  qed
  moreover have "refs s' = refs s"
    using sl by (auto simp: refs_def s' fun_eq_iff split: option.splits)
  moreover have "bio_inv s'"
    using inv cache_inv_writeback [OF ci b(1) refl nz] by (simp add: bio_inv_def s')
  ultimately show ?thesis using sl by (auto simp: holds_def s')
qed

lemma bread_evict:
  assumes inv: "bio_inv s" and b: "b < NBUF" "b_refcnt (bcache s b) = 0"
    and n: "n \<noteq> 0" "slot (bcache s) n = None"
    and bg: "bget n s = rbind (if b_flags (bcache s b) = B_VALID OR B_DIRTY then blkrw b s else Ok s)
               (\<lambda>s. Ok (b, upd_buf b (recycle n) s))"
  shows "wp (bread n s) (\<lambda>(b, s'). read_post n s b s')"
proof -
  define t where "t = (if b_flags (bcache s b) = B_VALID OR B_DIRTY then
      upd_buf b (\<lambda>f. f\<lparr>b_flags := B_VALID\<rparr>)
        (s\<lparr>disk := (disk s)(b_blockno (bcache s b) := b_data (bcache s b))\<rparr>) else s)"
  have dev: "dev_ok s lba" for lba using inv by (simp add: bio_inv_def)
  have bg': "bget n s = Ok (b, upd_buf b (recycle n) t)"
    using bg blkrw_writeback [of s b] dev by (simp add: t_def)
  have t: "bio_inv t \<and> blk t = blk s \<and> refs t = refs s \<and> slot (bcache t) = slot (bcache s) \<and>
    (\<forall>c m. holds t c m = holds s c m)"
    using writeback_same [OF inv b(1)] inv by (auto simp: t_def)
  have fr: "bio_frame s t"
    unfolding t_def by simp
  have "read_post n t b
    (upd_buf b (\<lambda>f. f\<lparr>b_blockno := n, b_refcnt := 1, b_data := disk t n, b_flags := B_VALID\<rparr>) t)"
    using t b n by (intro take_over) (auto simp: t_def)
  moreover have "bread n s = Ok (b, upd_buf b (\<lambda>f. f\<lparr>b_blockno := n, b_refcnt := 1, b_data := disk t n, b_flags := B_VALID\<rparr>) t)"
    using blkrw_clean_fetch [of "upd_buf b (recycle n) t" b] dev fr
    by (simp add: bread_def bg' recycle_def bio_frame_dev)
  ultimately show ?thesis
    using t fr by (auto simp: read_post_def intro: bio_frame_trans)
qed

lemma held_subset:
  assumes "cache_inv (bcache s) (disk s)"
  shows "held s = (\<lambda>i. b_blockno (bcache s i)) ` {i. i < NBUF \<and> b_blockno (bcache s i) \<noteq> 0 \<and> b_refcnt (bcache s i) \<noteq> 0}"
proof (rule set_eqI)
  fix n
  have "n \<in> held s \<longleftrightarrow> (\<exists>i. slot (bcache s) n = Some i \<and> b_refcnt (bcache s i) \<noteq> 0)"
    by (auto simp: held_def refs_def unat_gt_0 split: option.splits)
  then show "n \<in> held s \<longleftrightarrow> n \<in> (\<lambda>i. b_blockno (bcache s i)) ` {i. i < NBUF \<and> b_blockno (bcache s i) \<noteq> 0 \<and> b_refcnt (bcache s i) \<noteq> 0}"
    unfolding slot_eq [OF assms] by blast
qed

lemma finite_held: "cache_inv (bcache s) (disk s) \<Longrightarrow> finite (held s)"
  by (simp add: held_subset)

lemma unused_buffer:
  assumes inv: "cache_inv (bcache s) (disk s)" and few: "card (held s) < NBUF"
  shows "\<exists>i < NBUF. b_refcnt (bcache s i) = 0"
proof (rule ccontr)
  assume all: "\<not> ?thesis"
  then have nz: "b_blockno (bcache s i) \<noteq> 0 \<and> b_refcnt (bcache s i) \<noteq> 0" if "i < NBUF" for i
    using cache_invD(2) [OF inv that] that by (auto simp: buf_ok_def)
  then have "held s = (\<lambda>i. b_blockno (bcache s i)) ` {..<NBUF}"
    unfolding held_subset [OF inv] by auto
  moreover have "inj_on (\<lambda>i. b_blockno (bcache s i)) {..<NBUF}"
    using cache_unique [OF inv] nz by (auto simp: inj_on_def)
  ultimately have "card (held s) = NBUF" by (simp add: card_image)
  with few show False by simp
qed

text \<open>A block in use can be read again as long as its 16-bit reference count does not overflow.\<close>

lemma bread_hit:
  assumes inv: "bio_inv s" and hit: "slot (bcache s) n = Some b" and r: "refs s n < 65535"
  shows "read_post n s b (upd_buf b (\<lambda>f. f\<lparr>b_refcnt := b_refcnt f + 1\<rparr>) s)"
proof -
  let ?f = "(bcache s b)\<lparr>b_refcnt := b_refcnt (bcache s b) + 1\<rparr>"
  let ?s = "upd_buf b (\<lambda>f. f\<lparr>b_refcnt := b_refcnt f + 1\<rparr>) s"
  from inv have ci: "cache_inv (bcache s) (disk s)" by (simp add: bio_inv_def)
  have b: "b < NBUF" "b_blockno (bcache s b) = n" "n \<noteq> 0"
    using hit slot_eq [OF ci] by auto
  have ci': "cache_inv ((bcache s)(b := ?f)) (disk s)"
    using ci b(1) by (rule cache_inv_upd) (use cache_invD(2) [OF ci b(1)] b in \<open>auto simp: buf_ok_def\<close>)
  have sl: "slot (bcache ?s) = slot (bcache s)" by (rule slot_same_block) simp
  have "unat (b_refcnt (bcache s b)) < 65535" using r hit by (simp add: refs_def)
  then have u: "unat (b_refcnt (bcache s b) + 1) = Suc (unat (b_refcnt (bcache s b)))"
    by (simp add: unat_word_ariths)
  have only: "slot (bcache s) m = Some b \<longleftrightarrow> m = n" for m
    using slot_eq [OF ci] b by auto
  have "blk ?s = blk s"
    using sl by (auto simp: blk_def fun_eq_iff split: option.splits)
  moreover have "refs ?s = (refs s)(n := Suc (refs s n))"
  proof
    fix m show "refs ?s m = ((refs s)(n := Suc (refs s n))) m"
      using sl hit only [of m] u by (cases "slot (bcache s) m") (auto simp: refs_def)
  qed
  moreover have "blk s n = b_data (bcache s b)" using hit by (simp add: blk_def)
  ultimately show ?thesis
    using inv ci' b by (auto simp: read_post_def bio_inv_def holds_def)
qed


lemma find_SomeD: "find P xs = Some i \<Longrightarrow> i \<in> set xs \<and> P i"
  by (induction xs) (auto split: if_splits)

lemma find_rev_Some: "find P (rev xs) = Some i \<Longrightarrow> i \<in> set xs \<and> P i"
  using find_SomeD [of P "rev xs"] by simp

lemma find_rev_None: "find P (rev xs) = None \<longleftrightarrow> (\<forall>i \<in> set xs. \<not> P i)"
  by (auto simp: find_None_iff)

text \<open>
  \<open>bread\<close> returns, with the logical contents of the block, and leaves every block's logical
  contents alone, provided some buffer is not in use.
\<close>

lemma bread_spec [wp_intros]:
  assumes inv: "bio_inv s" and n: "n \<noteq> 0" and r: "refs s n < 65535" and few: "card (held s) < NBUF"
  shows "wp (bread n s) (\<lambda>(b, s'). read_post n s b s')"
proof -
  from inv have ci: "cache_inv (bcache s) (disk s)" by (simp add: bio_inv_def)
  then obtain xs where xs: "mru (bcache s) xs" using cache_invD(1) by blast
  then have set_xs: "set xs = {..<NBUF}" by (simp add: mru_def)
  note sc = mru_scan [OF xs]
  show ?thesis
  proof (cases "find (\<lambda>i. b_blockno (bcache s i) = n) xs")
    case (Some b)
    then have b: "b < NBUF" "b_blockno (bcache s b) = n"
      using set_xs find_SomeD [OF Some] by auto
    then have "b_flags (bcache s b) AND B_VALID \<noteq> 0"
      using cache_invD(2) [OF ci b(1)] n by (auto simp: buf_ok_def)
    then have "bread n s = Ok (b, upd_buf b (\<lambda>f. f\<lparr>b_refcnt := b_refcnt f + 1\<rparr>) s)"
      by (simp add: bread_def bget_def sc Some)
    then show ?thesis
      using bread_hit [OF inv _ r] slot_hit [OF ci b(1)] b n by simp
  next
    case None
    then have miss: "slot (bcache s) n = None"
      using set_xs by (auto simp: find_None_iff slot_None)
    show ?thesis
    proof (cases "find (\<lambda>i. b_refcnt (bcache s i) = 0 \<and> b_flags (bcache s i) AND B_DIRTY = 0) (rev xs)")
      case (Some b)
      have fb: "b \<in> set xs \<and> b_refcnt (bcache s b) = 0 \<and> b_flags (bcache s b) AND B_DIRTY = 0"
        by (rule find_rev_Some [OF Some])
      then have "b \<in> {..<NBUF}" unfolding set_xs by blast
      with fb have b: "b < NBUF" "b_refcnt (bcache s b) = 0" "b_flags (bcache s b) \<noteq> B_VALID OR B_DIRTY"
        by (simp_all add: B_VALID_def B_DIRTY_def) auto
      show ?thesis
        using inv b(1,2) n miss by (rule bread_evict) (simp add: bget_def sc None Some b)
    next
      case noclean: None
      obtain i where i: "i < NBUF" "b_refcnt (bcache s i) = 0"
        using unused_buffer [OF ci few] by blast
      then have "i \<in> set xs" unfolding set_xs by simp
      with i(2) have "find (\<lambda>i. b_refcnt (bcache s i) = 0) (rev xs) \<noteq> None"
        unfolding find_rev_None by blast
      then obtain b where Some: "find (\<lambda>i. b_refcnt (bcache s i) = 0) (rev xs) = Some b"
        by blast
      have fb: "b \<in> set xs \<and> b_refcnt (bcache s b) = 0"
        by (rule find_rev_Some [OF Some])
      then have "b \<in> {..<NBUF}" unfolding set_xs by blast
      with fb have b: "b < NBUF" "b_refcnt (bcache s b) = 0"
        by simp_all
      have "b_flags (bcache s b) AND B_DIRTY \<noteq> 0"
        using noclean [unfolded find_rev_None] fb by blast
      then have dirty: "b_flags (bcache s b) = B_VALID OR B_DIRTY"
        using cache_invD(2) [OF ci b(1)] by (auto simp: buf_ok_def)
      show ?thesis
        using inv b n miss by (rule bread_evict) (simp add: bget_def sc None noclean Some dirty)
    qed
  qed
qed

text \<open>Releasing a block gives up one reference and nothing else.\<close>

definition release_post :: "uint \<Rightarrow> 'a bio_state_scheme \<Rightarrow> 'a bio_state_scheme \<Rightarrow> bool" where
  "release_post n s s' \<longleftrightarrow> bio_inv s' \<and> bio_frame s s' \<and> blk s' = blk s \<and>
     refs s' = (refs s)(n := refs s n - 1) \<and> (\<forall>i. b_blockno (bcache s' i) = b_blockno (bcache s i)) \<and>
     (\<forall>i. b_data (bcache s' i) = b_data (bcache s i))"

lemma brelse_spec:
  assumes inv: "bio_inv s" and h: "holds s b n"
  shows "release_post n s (brelse b s)"
proof -
  let ?f = "(bcache s b)\<lparr>b_refcnt := b_refcnt (bcache s b) - 1\<rparr>"
  let ?s = "upd_buf b (\<lambda>f. f\<lparr>b_refcnt := b_refcnt f - 1\<rparr>) s"
  let ?bc = "bcache (brelse b s)"
  from inv have ci: "cache_inv (bcache s) (disk s)" by (simp add: bio_inv_def)
  have b: "b < NBUF" "b_blockno (bcache s b) = n" "n \<noteq> 0" and r: "0 < refs s n"
    using h by (auto simp: holds_def)
  have hit: "slot (bcache s) n = Some b" using slot_eq [OF ci] b by auto
  have ci': "cache_inv ((bcache s)(b := ?f)) (disk s)"
    using ci b(1) by (rule cache_inv_upd) (use cache_invD(2) [OF ci b(1)] b in \<open>auto simp: buf_ok_def\<close>)
  have f: "b_blockno (?bc i) = b_blockno (bcache s i)" "b_data (?bc i) = b_data (bcache s i)"
    "b_flags (?bc i) = b_flags (bcache s i)"
    "b_refcnt (?bc i) = (if i = b then b_refcnt (bcache s b) - 1 else b_refcnt (bcache s i))" for i
    by (auto simp: brelse_def Let_def)
  have sl: "slot ?bc = slot (bcache s)" by (rule slot_same_block) (simp add: f)
  have inv': "cache_inv ?bc (disk s)"
  proof -
    obtain xs where "mru ((bcache s)(b := ?f)) xs" using cache_invD(1) [OF ci'] by blast
    then have "mru ?bc xs \<or> mru ?bc (b # filter (\<lambda>i. i \<noteq> b) xs)"
      using mru_to_front [OF _ b(1)] by (auto simp: brelse_def Let_def)
    then obtain ys where "mru ?bc ys" by blast
    then show ?thesis
    proof (rule cache_invI)
      show "buf_ok (disk s) (?bc i)" if "i < NBUF" for i
        using cache_invD(2) [OF ci' that] by (cases "i = b") (auto simp: buf_ok_def f)
    qed (use cache_invD(3) [OF ci] cache_unique [OF ci] in \<open>auto simp: f\<close>)
  qed
  have "blk (brelse b s) = blk s"
    using sl f by (auto simp: blk_def fun_eq_iff brelse_def Let_def split: option.splits)
  moreover have "b_refcnt (bcache s b) \<noteq> 0" using r hit by (auto simp: refs_def)
  then have u: "unat (b_refcnt (bcache s b) - 1) = unat (b_refcnt (bcache s b)) - 1"
    by (metis unat_minus_one)
  have "refs (brelse b s) = (refs s)(n := refs s n - 1)"
  proof
    fix m
    have "slot (bcache s) m = Some b \<longleftrightarrow> m = n" using slot_eq [OF ci] b by auto
    then show "refs (brelse b s) m = ((refs s)(n := refs s n - 1)) m"
      using sl f u hit by (cases "slot (bcache s) m") (auto simp: refs_def)
  qed
  moreover have "disk (brelse b s) = disk s" "bio_frame s (brelse b s)"
    by (auto simp: brelse_def Let_def)
  ultimately show ?thesis
    using inv inv' f by (simp add: release_post_def bio_inv_def bio_frame_dev)
qed


lemma bio_inv_cache: "bio_inv s \<Longrightarrow> cache_inv (bcache s) (disk s)"
  by (simp add: bio_inv_def)

lemma holds_data: "bio_inv s \<Longrightarrow> holds s b n \<Longrightarrow> b_data (bcache s b) = blk s n"
  using slot_eq [OF bio_inv_cache, of s n b] by (simp add: holds_def blk_def)

lemma length_blk: "bio_inv s \<Longrightarrow> length (blk s n) = BSIZE"
  using slot_eq [OF bio_inv_cache, of s n] cache_invD(2,3) [OF bio_inv_cache, of s]
  by (auto simp: blk_def buf_ok_def split: option.splits)

text \<open>Changing the data of a held buffer and marking it dirty changes the block, and only it.\<close>

definition write_post :: "uint \<Rightarrow> bytes \<Rightarrow> 'a bio_state_scheme \<Rightarrow> 'a bio_state_scheme \<Rightarrow> bool" where
  "write_post n d s s' \<longleftrightarrow> bio_inv s' \<and> blk s' = (blk s)(n := d) \<and> refs s' = refs s \<and>
     (\<forall>i. b_blockno (bcache s' i) = b_blockno (bcache s i))"

lemma bwrite_spec:
  assumes inv: "bio_inv s" and h: "holds s b n" and len: "length d = BSIZE"
  shows "write_post n d s (bwrite b (set_data b d s))"
proof -
  let ?s = "bwrite b (set_data b d s)"
  note ci = bio_inv_cache [OF inv]
  have b: "b < NBUF" "b_blockno (bcache s b) = n" "n \<noteq> 0"
    using h by (auto simp: holds_def)
  have fl: "b_flags (bcache s b) OR B_DIRTY = B_VALID OR B_DIRTY"
    using cache_invD(2) [OF ci b(1)] b by (auto simp: buf_ok_def)
  let ?f = "(bcache s b)\<lparr>b_data := d, b_flags := B_VALID OR B_DIRTY\<rparr>"
  have s': "?s = upd_buf b (\<lambda>f. f\<lparr>b_data := d, b_flags := b_flags f OR B_DIRTY\<rparr>) s"
    by (simp add: bwrite_def set_data_def)
  have bc: "bcache ?s = (bcache s)(b := ?f)"
    by (simp add: s' fl)
  have ci': "cache_inv ((bcache s)(b := ?f)) (disk s)"
    using ci b(1) by (rule cache_inv_upd) (use b len in \<open>auto simp: buf_ok_def\<close>)
  have sl: "slot (bcache ?s) = slot (bcache s)" by (rule slot_same_block) (simp add: bc)
  have only: "slot (bcache s) m = Some b \<longleftrightarrow> m = n" for m
    using slot_eq [OF ci] b by auto
  have "blk ?s m = ((blk s)(n := d)) m" for m
    using sl only [of m] by (cases "slot (bcache s) m") (auto simp: blk_def bc s')
  moreover have "refs ?s m = refs s m" for m
    using sl by (cases "slot (bcache s) m") (auto simp: refs_def bc)
  moreover have "disk ?s = disk s" "dev_ok ?s = dev_ok s" by (simp_all add: s')
  ultimately show ?thesis
    using inv ci' by (auto simp: write_post_def bio_inv_def bc)
qed

lemma bwrite_frame: "bio_frame s (bwrite b (set_data b d s))"
  by (simp add: bwrite_def set_data_def)

text \<open>\<open>bflush\<close> writes every dirty buffer and no logical contents change.\<close>

lemma bflush_from_spec:
  assumes "bio_inv s" "set bs \<subseteq> {..<NBUF}"
  shows "wp (bflush_from bs s) (\<lambda>s'. bio_inv s' \<and> bio_frame s s' \<and> blk s' = blk s \<and> refs s' = refs s \<and>
      (\<forall>b \<in> set bs. b_flags (bcache s' b) \<noteq> B_VALID OR B_DIRTY) \<and>
      (\<forall>b. b_flags (bcache s b) \<noteq> B_VALID OR B_DIRTY \<longrightarrow> b_flags (bcache s' b) \<noteq> B_VALID OR B_DIRTY))"
  using assms
proof (induction bs arbitrary: s)
  case Nil
  then show ?case by simp
next
  case (Cons b bs)
  then have b: "b < NBUF" by simp
  have ok: "buf_ok (disk s) (bcache s b)"
    using Cons.prems b bio_inv_cache cache_invD(2) by blast
  show ?case
  proof (cases "b_flags (bcache s b) = B_VALID OR B_DIRTY")
    case True
    let ?t = "upd_buf b (\<lambda>f. f\<lparr>b_flags := B_VALID\<rparr>)
           (s\<lparr>disk := (disk s)(b_blockno (bcache s b) := b_data (bcache s b))\<rparr>)"
    have rw: "blkrw b s = Ok ?t"
      using True Cons.prems(1) by (intro blkrw_writeback) (auto simp: bio_inv_def)
    have t: "bio_inv ?t \<and> blk ?t = blk s \<and> refs ?t = refs s"
      using writeback_same [OF Cons.prems(1) b True refl] by simp
    have "wp (bflush_from bs ?t) (\<lambda>s'. bio_inv s' \<and> bio_frame ?t s' \<and> blk s' = blk ?t \<and> refs s' = refs ?t \<and>
      (\<forall>b \<in> set bs. b_flags (bcache s' b) \<noteq> B_VALID OR B_DIRTY) \<and>
      (\<forall>b. b_flags (bcache ?t b) \<noteq> B_VALID OR B_DIRTY \<longrightarrow> b_flags (bcache s' b) \<noteq> B_VALID OR B_DIRTY))"
      using t Cons.prems by (intro Cons.IH) auto
    then show ?thesis
      using True rw t bio_frame_trans [of s ?t] by (auto elim!: wp_mono)
  next
    case False
    then have "b_flags (bcache s b) AND B_DIRTY = 0"
      using ok by (auto simp: buf_ok_def)
    then show ?thesis
      using Cons.IH [of s] Cons.prems False by (auto elim!: wp_mono)
  qed
qed

text \<open>The cache after \<open>binit\<close>, on the zeroed memory the kernel starts with.\<close>

definition zero_buf :: buf where
  "zero_buf = \<lparr>b_flags = 0, b_blockno = 0, b_refcnt = 0, b_prev = 0, b_next = 0, b_data = replicate BSIZE 0\<rparr>"

lemma binit_inv:
  assumes "\<And>i. bcache s i = zero_buf" "\<And>n. length (disk s n) = BSIZE" "\<And>lba. dev_ok s lba"
  shows "bio_inv (binit s)" "blk (binit s) = disk s" "refs (binit s) = (\<lambda>_. 0)"
proof -
  have f: "b_flags (bcache (binit s) i) = 0" "b_blockno (bcache (binit s) i) = 0"
    "b_refcnt (bcache (binit s) i) = 0" "b_data (bcache (binit s) i) = replicate BSIZE 0" for i
    using assms(1) by (simp_all add: binit_def zero_buf_def)
  have "mru (bcache (binit s)) (rev [0..<NBUF])"
    using linked_binit [of NBUF "bcache s"] by (auto simp: mru_def binit_def)
  then have "cache_inv (bcache (binit s)) (disk s)"
    using assms(2) by (auto intro!: cache_invI simp: buf_ok_def f)
  then show "bio_inv (binit s)"
    using assms(3) by (simp add: bio_inv_def binit_def)
  have "slot (bcache (binit s)) n = None" for n
    using f by (simp add: slot_None)
  then show "blk (binit s) = disk s" "refs (binit s) = (\<lambda>_. 0)"
    by (auto simp: blk_def refs_def binit_def fun_eq_iff)
qed


section \<open>The interface of the cache\<close>

text \<open>
  What the log and the file system rely on. A block is acquired, examined or changed through its
  buffer, marked when it was changed, and released. \<open>mk\<close> is \<open>bwrite\<close> for the log itself and
  \<open>log_write\<close> for the file system; \<open>room\<close> bounds from below how many more marks are accepted.
\<close>

locale block_cache =
  fixes rd :: "uint \<Rightarrow> 's \<Rightarrow> ('b \<times> 's) res" and rel :: "'b \<Rightarrow> 's \<Rightarrow> 's"
    and get :: "'b \<Rightarrow> 's \<Rightarrow> bytes" and put :: "'b \<Rightarrow> bytes \<Rightarrow> 's \<Rightarrow> 's" and mk :: "'b \<Rightarrow> 's \<Rightarrow> 's res"
    and inv :: "'s \<Rightarrow> bool" and contents :: "'s \<Rightarrow> uint \<Rightarrow> bytes" and cnt :: "'s \<Rightarrow> uint \<Rightarrow> nat"
    and owns :: "'s \<Rightarrow> 'b \<Rightarrow> uint \<Rightarrow> bool" and can_rd :: "'s \<Rightarrow> uint \<Rightarrow> bool" and room :: "'s \<Rightarrow> nat"
    and frm :: "'s \<Rightarrow> 's \<Rightarrow> bool"
  assumes rd_ok: "inv s \<Longrightarrow> can_rd s n \<Longrightarrow>
      wp (rd n s) (\<lambda>(b, s'). inv s' \<and> contents s' = contents s \<and> cnt s' = (cnt s)(n := Suc (cnt s n)) \<and>
        owns s' b n \<and> get b s' = contents s n \<and> room s' = room s \<and> frm s s')"
    and rel_ok: "inv s \<Longrightarrow> owns s b n \<Longrightarrow>
      inv (rel b s) \<and> contents (rel b s) = contents s \<and> cnt (rel b s) = (cnt s)(n := cnt s n - 1) \<and>
      room (rel b s) = room s \<and> frm s (rel b s)"
    and mk_ok: "inv s \<Longrightarrow> owns s b n \<Longrightarrow> 0 < room s \<Longrightarrow> length d = BSIZE \<Longrightarrow>
      wp (mk b (put b d s)) (\<lambda>s'. inv s' \<and> contents s' = (contents s)(n := d) \<and> cnt s' = cnt s \<and>
        owns s' b n \<and> room s \<le> Suc (room s') \<and> frm s s')"
    and frm_trans: "frm s t \<Longrightarrow> frm t u \<Longrightarrow> frm s u"
begin

text \<open>Looking at a block.\<close>

lemma access:
  assumes "inv s" "can_rd s n"
  shows "wp (rd n s) (\<lambda>(b, s1). get b s1 = contents s n \<and> frm s s1 \<and>
      inv (rel b s1) \<and> contents (rel b s1) = contents s \<and> cnt (rel b s1) = cnt s \<and>
      room (rel b s1) = room s \<and> frm s (rel b s1))"
proof -
  have "get b s1 = contents s n \<and> frm s s1 \<and>
      inv (rel b s1) \<and> contents (rel b s1) = contents s \<and> cnt (rel b s1) = cnt s \<and>
      room (rel b s1) = room s \<and> frm s (rel b s1)"
    if s1: "inv s1" "contents s1 = contents s" "cnt s1 = (cnt s)(n := Suc (cnt s n))" "owns s1 b n"
      "get b s1 = contents s n" "room s1 = room s" "frm s s1" for b s1
    using rel_ok [OF s1(1,4)] s1 frm_trans [OF s1(7)] by simp
  then show ?thesis by (intro wp_mono [OF rd_ok [OF assms]]) auto
qed

text \<open>Changing a block in place; the new contents may depend on the state outside the cache.\<close>

lemma modify:
  assumes "inv s" "can_rd s n" "0 < room s" "length d = BSIZE"
    and F: "\<And>s1. frm s s1 \<Longrightarrow> F s1 (contents s n) = d"
  shows "wp (rd n s) (\<lambda>(b, s1). wp (mk b (put b (F s1 (get b s1)) s1)) (\<lambda>s2.
      inv (rel b s2) \<and> contents (rel b s2) = (contents s)(n := d) \<and> cnt (rel b s2) = cnt s \<and>
      room s \<le> Suc (room (rel b s2)) \<and> frm s (rel b s2)))"
proof -
  have "wp (mk b (put b (F s1 (get b s1)) s1)) (\<lambda>s2.
      inv (rel b s2) \<and> contents (rel b s2) = (contents s)(n := d) \<and> cnt (rel b s2) = cnt s \<and>
      room s \<le> Suc (room (rel b s2)) \<and> frm s (rel b s2))"
    if s1: "inv s1" "contents s1 = contents s" "cnt s1 = (cnt s)(n := Suc (cnt s n))" "owns s1 b n"
      "get b s1 = contents s n" "room s1 = room s" "frm s s1" for b s1
  proof -
    have "wp (mk b (put b d s1)) (\<lambda>s'. inv s' \<and> contents s' = (contents s1)(n := d) \<and> cnt s' = cnt s1 \<and>
        owns s' b n \<and> room s1 \<le> Suc (room s') \<and> frm s1 s')"
      using mk_ok [OF s1(1,4) _ assms(4)] assms(3) s1(6) by simp
    then have "wp (mk b (put b d s1)) (\<lambda>s2.
      inv (rel b s2) \<and> contents (rel b s2) = (contents s)(n := d) \<and> cnt (rel b s2) = cnt s \<and>
      room s \<le> Suc (room (rel b s2)) \<and> frm s (rel b s2))"
    proof (rule wp_mono)
      fix s2
      assume s2: "inv s2 \<and> contents s2 = (contents s1)(n := d) \<and> cnt s2 = cnt s1 \<and>
        owns s2 b n \<and> room s1 \<le> Suc (room s2) \<and> frm s1 s2"
      then have r: "inv (rel b s2)" "contents (rel b s2) = contents s2"
        "cnt (rel b s2) = (cnt s2)(n := cnt s2 n - 1)" "room (rel b s2) = room s2" "frm s2 (rel b s2)"
        using rel_ok [of s2 b n] by simp_all
      have "frm s (rel b s2)" using frm_trans [OF s1(7)] frm_trans [of s1 s2] s2 r(5) by blast
      then show "inv (rel b s2) \<and> contents (rel b s2) = (contents s)(n := d) \<and> cnt (rel b s2) = cnt s \<and>
        room s \<le> Suc (room (rel b s2)) \<and> frm s (rel b s2)"
        using r s2 s1(2,3,6) by simp
    qed
    then show ?thesis using F [OF s1(7)] s1(5) by simp
  qed
  then show ?thesis by (intro wp_mono [OF rd_ok [OF assms(1,2)]]) auto
qed

end

definition can_read :: "'a bio_state_scheme \<Rightarrow> uint \<Rightarrow> bool" where
  "can_read s n \<longleftrightarrow> n \<noteq> 0 \<and> refs s n < 65535 \<and> card (held s) < NBUF"

interpretation bc: block_cache bread brelse "\<lambda>b s. b_data (bcache s b)" set_data "\<lambda>b s. Ok (bwrite b s)"
  bio_inv blk refs holds can_read "\<lambda>_. 1" bio_frame
proof unfold_locales
  fix s :: "'a bio_state_scheme" and n
  assume "bio_inv s" "can_read s n"
  then show "wp (bread n s) (\<lambda>(b, s'). bio_inv s' \<and> blk s' = blk s \<and> refs s' = (refs s)(n := Suc (refs s n)) \<and>
      holds s' b n \<and> b_data (bcache s' b) = blk s n \<and> (1::nat) = 1 \<and> bio_frame s s')"
    using bread_spec [of s n] by (auto simp: can_read_def read_post_def elim!: wp_mono)
next
  fix s :: "'a bio_state_scheme" and b n
  assume "bio_inv s" "holds s b n"
  then show "bio_inv (brelse b s) \<and> blk (brelse b s) = blk s \<and> refs (brelse b s) = (refs s)(n := refs s n - 1) \<and>
      (1::nat) = 1 \<and> bio_frame s (brelse b s)"
    using brelse_spec by (auto simp: release_post_def)
next
  fix s :: "'a bio_state_scheme" and b n and d :: bytes
  assume "bio_inv s" "holds s b n" "length d = BSIZE"
  then show "wp (Ok (bwrite b (set_data b d s)))
      (\<lambda>s'. bio_inv s' \<and> blk s' = (blk s)(n := d) \<and> refs s' = refs s \<and> holds s' b n \<and>
        (1::nat) \<le> Suc 1 \<and> bio_frame s s')"
    using bwrite_spec [of s b n d] by (auto simp: write_post_def holds_def bwrite_frame)
next
  show "bio_frame s t \<Longrightarrow> bio_frame t u \<Longrightarrow> bio_frame s u" for s t u :: "'a bio_state_scheme"
    by (rule bio_frame_trans)
qed

section \<open>Properties\<close>


text \<open>
  C3. \<open>bflush\<close> (the \<open>sync\<close> system call) returns with the device holding the logical contents of
  every block, and does not change them.
\<close>

theorem bflush_durable:
  assumes "bio_inv s"
  shows "\<exists>s'. bflush s = Ok s' \<and> bio_inv s' \<and> blk s' = blk s \<and> (\<forall>n. n \<noteq> 0 \<longrightarrow> disk s' n = blk s n)"
proof -
  have "wp (bflush_from [0..<NBUF] s) (\<lambda>s'. bio_inv s' \<and> blk s' = blk s \<and>
      (\<forall>b < NBUF. b_flags (bcache s' b) \<noteq> B_VALID OR B_DIRTY))"
    by (rule wp_mono [OF bflush_from_spec [OF assms]]) auto
  then obtain s' where s': "bflush s = Ok s'" "bio_inv s'" "blk s' = blk s"
    "\<And>b. b < NBUF \<Longrightarrow> b_flags (bcache s' b) \<noteq> B_VALID OR B_DIRTY"
    by (auto simp: wp_iff bflush_def)
  note ci = bio_inv_cache [OF s'(2)]
  have "disk s' n = blk s' n" for n
  proof (cases "slot (bcache s') n")
    case (Some i)
    then have i: "i < NBUF" "n \<noteq> 0" "b_blockno (bcache s' i) = n" by (simp_all add: slot_eq [OF ci])
    with cache_invD(2) [OF ci i(1)] s'(4) [OF i(1)] Some show ?thesis by (simp add: blk_def buf_ok_def)
  qed (simp add: blk_def)
  with s' show ?thesis by auto
qed

text \<open>A device of zeroes and the cache the kernel boots with.\<close>

definition boot_bio :: bio_state where
  "boot_bio = binit \<lparr>bcache = (\<lambda>_. zero_buf), disk = (\<lambda>_. replicate BSIZE 0), dev_ok = (\<lambda>_. True)\<rparr>"

lemma boot_bio_inv: "bio_inv boot_bio" "refs boot_bio = (\<lambda>_. 0)" "blk boot_bio = (\<lambda>_. replicate BSIZE 0)"
  unfolding boot_bio_def by (simp_all add: binit_inv)

lemma held_quiet: "refs s = (\<lambda>_. 0) \<Longrightarrow> held s = {}"
  by (simp add: held_def)


theorem bflush_durable_witness:
  "\<exists>s'. bflush boot_bio = Ok s' \<and> bio_inv s' \<and> blk s' = blk boot_bio \<and> (\<forall>n. n \<noteq> 0 \<longrightarrow> disk s' n = blk boot_bio n)"
  by (rule bflush_durable) (rule boot_bio_inv)

end
