(* ===== verification/Log.thy ===== *)
theory Log
  imports Bio
begin

text \<open>
  The superblock and the redo log (\<open>kern/log.c\<close>, and \<open>readsb\<close> of \<open>kern/fs.c\<close>). A transaction is
  a set of blocks, recorded in the in-memory header; \<open>commit\<close> copies them to the log area, writes
  the header, installs the copies and clears the header; recovery replays a header found on disk.
  Shown: \<open>log_write\<close> records each block once and never overruns the header; a commit keeps the
  logical contents of every block outside the log area and empties the log; recovery installs
  exactly the logged copies; a transaction can always be opened in a quiet log.
\<close>

definition LOGSIZE :: nat where "LOGSIZE = 100"
definition MAXOPBLOCKS :: int where "MAXOPBLOCKS = 10"

record superblock =
  sb_size :: uint
  sb_nblocks :: uint
  sb_ninodes :: uint
  sb_nlog :: uint
  sb_logstart :: uint
  sb_inodestart :: uint
  sb_bmapstart :: uint

text \<open>The superblock as it lies in block 1.\<close>

definition decode_sb :: "bytes \<Rightarrow> superblock" where
  "decode_sb d = \<lparr>sb_size = get32 d 0, sb_nblocks = get32 d 4, sb_ninodes = get32 d 8, sb_nlog = get32 d 12,
     sb_logstart = get32 d 16, sb_inodestart = get32 d 20, sb_bmapstart = get32 d 24\<rparr>"

definition readsb :: "'a bio_state_scheme \<Rightarrow> (superblock \<times> 'a bio_state_scheme) res" where
  "readsb s = rbind (bread 1 s) (\<lambda>(bp, s). Ok (decode_sb (b_data (bcache s bp)), brelse bp s))"

text \<open>\<open>lh_block\<close> is an array of \<open>LOGSIZE\<close> entries; indexing past it is undefined.\<close>

record logheader =
  lh_n :: int
  lh_block :: "nat \<Rightarrow> uint"

record xv6log =
  l_start :: uint
  l_size :: int
  l_outstanding :: int
  l_committing :: bool
  l_lh :: logheader

record log_state = bio_state +
  log :: xv6log

definition upd_lh :: "(logheader \<Rightarrow> logheader) \<Rightarrow> 'a log_state_scheme \<Rightarrow> 'a log_state_scheme" where
  "upd_lh f s = s\<lparr>log := (log s)\<lparr>l_lh := f (l_lh (log s))\<rparr>\<rparr>"

abbreviation lhn :: "'a log_state_scheme \<Rightarrow> nat" where
  "lhn s \<equiv> nat (lh_n (l_lh (log s)))"

abbreviation lhb :: "'a log_state_scheme \<Rightarrow> nat \<Rightarrow> uint" where
  "lhb s i \<equiv> lh_block (l_lh (log s)) i"

text \<open>Copying one block over another: the body of the loops of \<open>install_trans\<close> and \<open>write_log\<close>.\<close>

fun install_loop :: "nat list \<Rightarrow> 'a log_state_scheme \<Rightarrow> 'a log_state_scheme res" where
  "install_loop [] s = Ok s"
| "install_loop (tail # ts) s =
     rbind (bread (l_start (log s) + of_nat tail + 1) s) (\<lambda>(lbuf, s).
     rbind (bread (lhb s tail) s) (\<lambda>(dbuf, s).
       let s = set_data dbuf (b_data (bcache s lbuf)) s;
           s = bwrite dbuf s;
           s = brelse lbuf s;
           s = brelse dbuf s
       in install_loop ts s))"

definition install_trans :: "'a log_state_scheme \<Rightarrow> 'a log_state_scheme res" where
  "install_trans s = install_loop [0..<lhn s] s"

text \<open>\<open>struct logheader\<close> overlaying a block: \<open>n\<close>, then the block numbers.\<close>

definition head_n :: "bytes \<Rightarrow> int" where "head_n d = sint (get32 d 0)"
definition head_block :: "bytes \<Rightarrow> nat \<Rightarrow> uint" where "head_block d i = get32 d (4 + 4 * i)"

text \<open>The count and the entries copied from the block into memory.\<close>

definition load_head :: "bytes \<Rightarrow> logheader \<Rightarrow> logheader" where
  "load_head d h = h\<lparr>lh_n := head_n d, lh_block := (\<lambda>i. if i < nat (head_n d) then head_block d i else lh_block h i)\<rparr>"

text \<open>A header whose count exceeds the array would be copied past the end of \<open>log.lh.block\<close>.\<close>

definition read_head :: "'a log_state_scheme \<Rightarrow> 'a log_state_scheme res" where
  "read_head s =
     rbind (bread (l_start (log s)) s) (\<lambda>(b, s).
       if nat (head_n (b_data (bcache s b))) > LOGSIZE then Fault
       else Ok (brelse b (upd_lh (load_head (b_data (bcache s b))) s)))"

definition encode_head :: "logheader \<Rightarrow> bytes \<Rightarrow> bytes" where
  "encode_head h d = fold (\<lambda>i d. put32 (4 + 4 * i) (lh_block h i) d) [0..<nat (lh_n h)] (put32 0 (word_of_int (lh_n h)) d)"

definition write_head :: "'a log_state_scheme \<Rightarrow> 'a log_state_scheme res" where
  "write_head s =
     rbind (bread (l_start (log s)) s) (\<lambda>(b, s).
       let s = set_data b (encode_head (l_lh (log s)) (b_data (bcache s b))) s
       in Ok (brelse b (bwrite b s)))"

definition recover_from_log :: "'a log_state_scheme \<Rightarrow> 'a log_state_scheme res" where
  "recover_from_log s =
     rbind (read_head s) (\<lambda>s.
     rbind (install_trans s) (\<lambda>s.
     write_head (upd_lh (\<lambda>h. h\<lparr>lh_n := 0\<rparr>) s)))"

text \<open>
  \<open>sizeof(struct logheader)\<close> is \<open>4 + 4 * LOGSIZE\<close>. The signed fields take the superblock's values.
\<close>

definition initlog :: "'a log_state_scheme \<Rightarrow> 'a log_state_scheme res" where
  "initlog s =
     (if 4 + 4 * LOGSIZE \<ge> BSIZE then Panic ''initlog: too big logheader''
      else rbind (readsb s) (\<lambda>(sb, s).
        recover_from_log (s\<lparr>log := (log s)\<lparr>l_start := sb_logstart sb, l_size := sint (sb_nlog sb)\<rparr>\<rparr>)))"

text \<open>
  The busy-wait of \<open>begin_op\<close> reads nothing that changes while it runs: if it does not take the
  last branch at once, it never does.
\<close>

definition begin_op :: "'a log_state_scheme \<Rightarrow> 'a log_state_scheme res" where
  "begin_op s =
     (if l_committing (log s) then Hang
      else if lh_n (l_lh (log s)) + (l_outstanding (log s) + 1) * MAXOPBLOCKS > int LOGSIZE then Hang
      else Ok (s\<lparr>log := (log s)\<lparr>l_outstanding := l_outstanding (log s) + 1\<rparr>\<rparr>))"

fun write_log_loop :: "nat list \<Rightarrow> 'a log_state_scheme \<Rightarrow> 'a log_state_scheme res" where
  "write_log_loop [] s = Ok s"
| "write_log_loop (tail # ts) s =
     rbind (bread (l_start (log s) + of_nat tail + 1) s) (\<lambda>(to, s).
     rbind (bread (lhb s tail) s) (\<lambda>(from, s).
       let s = set_data to (b_data (bcache s from)) s;
           s = bwrite to s;
           s = brelse from s;
           s = brelse to s
       in write_log_loop ts s))"

definition write_log :: "'a log_state_scheme \<Rightarrow> 'a log_state_scheme res" where
  "write_log s = write_log_loop [0..<lhn s] s"

definition commit :: "'a log_state_scheme \<Rightarrow> 'a log_state_scheme res" where
  "commit s =
     (if lh_n (l_lh (log s)) > 0 then
        rbind (write_log s) (\<lambda>s.
        rbind (write_head s) (\<lambda>s.
        rbind (install_trans s) (\<lambda>s.
        write_head (upd_lh (\<lambda>h. h\<lparr>lh_n := 0\<rparr>) s))))
      else Ok s)"

definition end_op :: "'a log_state_scheme \<Rightarrow> 'a log_state_scheme res" where
  "end_op s =
     (let s = s\<lparr>log := (log s)\<lparr>l_outstanding := l_outstanding (log s) - 1\<rparr>\<rparr>
      in if l_committing (log s) then Panic ''log.committing''
         else if l_outstanding (log s) = 0 then
           rbind (commit (s\<lparr>log := (log s)\<lparr>l_committing := True\<rparr>\<rparr>)) (\<lambda>s.
             Ok (s\<lparr>log := (log s)\<lparr>l_committing := False\<rparr>\<rparr>))
         else Ok s)"

text \<open>Log absorption: the entry that already names the block, or the first unused one.\<close>

definition absorb :: "logheader \<Rightarrow> uint \<Rightarrow> nat" where
  "absorb h n = (case find_from (\<lambda>i. lh_block h i = n) 0 (nat (lh_n h)) of Some i \<Rightarrow> i | None \<Rightarrow> nat (lh_n h))"

definition log_write :: "nat \<Rightarrow> 'a log_state_scheme \<Rightarrow> 'a log_state_scheme res" where
  "log_write b s =
     (let n = lh_n (l_lh (log s)) in
      if n \<ge> int LOGSIZE \<or> n \<ge> l_size (log s) - 1 then Panic ''too big a transaction''
      else if l_outstanding (log s) < 1 then Panic ''log_write outside of trans''
      else
        (let i = absorb (l_lh (log s)) (b_blockno (bcache s b));
             s = upd_lh (\<lambda>h. h\<lparr>lh_block := (lh_block h)(i := b_blockno (bcache s b))\<rparr>) s;
             s = (if int i = n then upd_lh (\<lambda>h. h\<lparr>lh_n := n + 1\<rparr>) s else s)
         in Ok (upd_buf b (\<lambda>f. f\<lparr>b_flags := b_flags f OR B_DIRTY\<rparr>) s)))"


section \<open>The log and the cache\<close>

text \<open>Operations of the log change the cache, the device and the log.\<close>

definition log_frame :: "'a log_state_scheme \<Rightarrow> 'a log_state_scheme \<Rightarrow> bool" where
  "log_frame s s' \<longleftrightarrow> (\<exists>bc d l. s' = s\<lparr>bcache := bc, disk := d, log := l\<rparr>)"

lemma log_frameI: "s' = s\<lparr>bcache := bc, disk := d, log := l\<rparr> \<Longrightarrow> log_frame s s'"
  unfolding log_frame_def by blast

lemma log_frameE:
  assumes "log_frame s s'"
  obtains bc d l where "s' = s\<lparr>bcache := bc, disk := d, log := l\<rparr>"
  using assms unfolding log_frame_def by blast

lemma log_frame_trans: "log_frame s t \<Longrightarrow> log_frame t u \<Longrightarrow> log_frame s u"
  by (elim log_frameE) (simp add: log_frameI)

lemma bio_log_frame: "bio_frame s s' \<Longrightarrow> log_frame s s'"
proof (elim bio_frameE)
  fix bc d assume "s' = s\<lparr>bcache := bc, disk := d\<rparr>"
  then show ?thesis by (intro log_frameI [where l = "log s"]) simp
qed

lemma log_frame_refl [simp]: "log_frame s s"
  by (simp add: bio_log_frame)

lemma log_frame_log [simp]: "log_frame s (s\<lparr>log := l\<rparr>)"
  by (rule log_frameI [where bc = "bcache s" and d = "disk s"]) simp

lemma log_frame_step [simp]:
  "log_frame s t \<Longrightarrow> log_frame s (t\<lparr>log := l\<rparr>)" "log_frame s t \<Longrightarrow> log_frame s (upd_lh f t)"
  "log_frame s t \<Longrightarrow> log_frame s (upd_buf b g t)"
proof -
  assume t: "log_frame s t"
  show 1: "log_frame s (t\<lparr>log := l\<rparr>)" for l by (rule log_frame_trans [OF t log_frame_log])
  show "log_frame s (upd_lh f t)" unfolding upd_lh_def by (rule 1)
  show "log_frame s (upd_buf b g t)" by (rule log_frame_trans [OF t bio_log_frame [OF bio_frame_upd]])
qed

lemma bio_frame_log [simp]: "bio_frame s s' \<Longrightarrow> log s' = log s"
  by (elim bio_frameE) simp

lemma log_upd_bio [simp]:
  "bcache (s\<lparr>log := l\<rparr>) = bcache s" "disk (s\<lparr>log := l\<rparr>) = disk s" "dev_ok (s\<lparr>log := l\<rparr>) = dev_ok s"
  by simp_all

lemma bio_of_log [simp]:
  "bio_inv (s\<lparr>log := l\<rparr>) = bio_inv s" "blk (s\<lparr>log := l\<rparr>) = blk s" "refs (s\<lparr>log := l\<rparr>) = refs s"
  "holds (s\<lparr>log := l\<rparr>) b n = holds s b n" "held (s\<lparr>log := l\<rparr>) = held s"
  by (simp_all add: bio_inv_def blk_def refs_def holds_def held_def fun_eq_iff cong: option.case_cong)

lemma upd_lh_simps [simp]:
  "bcache (upd_lh f s) = bcache s" "disk (upd_lh f s) = disk s"
  "log (upd_lh f s) = (log s)\<lparr>l_lh := f (l_lh (log s))\<rparr>"
  "bio_inv (upd_lh f s) = bio_inv s" "blk (upd_lh f s) = blk s" "refs (upd_lh f s) = refs s"
  "holds (upd_lh f s) b n = holds s b n"
  by (simp_all add: upd_lh_def)

lemma upd_lh_swap: "upd_buf b g (upd_lh f s) = upd_lh f (upd_buf b g s)"
  by (simp add: upd_lh_def upd_buf_def)

lemma upd_lh_twice: "upd_lh g (upd_lh f s) = upd_lh (\<lambda>h. g (f h)) s"
  by (simp add: upd_lh_def)

text \<open>Nothing is held: the state between file-system operations.\<close>

definition quiet :: "'a bio_state_scheme \<Rightarrow> bool" where
  "quiet s \<longleftrightarrow> bio_inv s \<and> refs s = (\<lambda>_. 0)"

lemma quiet_can_read: "quiet s \<Longrightarrow> n \<noteq> 0 \<Longrightarrow> can_read s n"
  by (simp add: quiet_def can_read_def held_quiet NBUF_def)

lemma quiet_upd [simp]: "quiet (upd_lh f s) = quiet s" "quiet (s\<lparr>log := l\<rparr>) = quiet s"
  by (simp_all add: quiet_def)

lemma quiet_log_ok: "log_frame s s' \<Longrightarrow> dev_ok s' = dev_ok s"
  by (elim log_frameE) simp

section \<open>Copying a block\<close>

lemma held_one: "refs s = (\<lambda>_. 0)(a := Suc 0) \<Longrightarrow> held s = {a}"
  by (auto simp: held_def)

text \<open>Two blocks held at once, the second overwritten with the first, both released.\<close>

lemma copy_held:
  assumes inv: "bio_inv s" and r: "refs s = (\<lambda>_. 0)(a := Suc 0, b := Suc 0)" and ab: "a \<noteq> b"
    and h: "holds s p a" "holds s q b"
    and s3: "s3 = brelse q (brelse p (bwrite q (set_data q (b_data (bcache s p)) s)))"
  shows "quiet s3 \<and> blk s3 = (blk s)(b := blk s a) \<and> bio_frame s s3"
proof -
  define t where "t = bwrite q (set_data q (b_data (bcache s p)) s)"
  have t: "write_post b (blk s a) s t" "bio_frame s t"
    using bwrite_spec [OF inv h(2)] bwrite_frame length_blk [OF inv] holds_data [OF inv h(1)]
    by (auto simp: t_def)
  have ht: "holds t p a" "holds t q b" and it: "bio_inv t"
    using t h by (auto simp: write_post_def holds_def)
  have u: "release_post a t (brelse p t)" by (rule brelse_spec [OF it ht(1)])
  then have hu: "holds (brelse p t) q b"
    using ht ab r t by (auto simp: release_post_def holds_def write_post_def)
  have v: "release_post b (brelse p t) s3"
    using u unfolding s3 t_def [symmetric] by (intro brelse_spec hu) (simp add: release_post_def)
  have "refs s3 = (\<lambda>_. 0)"
    using u v t r by (auto simp: release_post_def write_post_def fun_eq_iff)
  moreover have "bio_frame s s3"
    using u v t(2) unfolding release_post_def by (blast intro: bio_frame_trans)
  ultimately show ?thesis
    using u v t by (simp add: release_post_def write_post_def quiet_def)
qed

lemma read_two:
  assumes q: "quiet s" and ab: "a \<noteq> b" "a \<noteq> 0" "b \<noteq> 0"
  shows "wp (bread a s) (\<lambda>(p, s1). bio_frame s s1 \<and> wp (bread b s1) (\<lambda>(q, s2). bio_inv s2 \<and> blk s2 = blk s \<and>
     refs s2 = (\<lambda>_. 0)(a := Suc 0, b := Suc 0) \<and> holds s2 p a \<and> holds s2 q b \<and> bio_frame s s2))"
proof -
  have s: "bio_inv s" "refs s = (\<lambda>_. 0)" using q by (auto simp: quiet_def)
  have "bio_frame s s1 \<and> wp (bread b s1) (\<lambda>(q, s2). bio_inv s2 \<and> blk s2 = blk s \<and>
     refs s2 = (\<lambda>_. 0)(a := Suc 0, b := Suc 0) \<and> holds s2 p a \<and> holds s2 q b \<and> bio_frame s s2)"
    if r: "read_post a s p s1" for p s1
  proof -
    have r1: "refs s1 = (\<lambda>_. 0)(a := Suc 0)" "bio_inv s1" "blk s1 = blk s" "holds s1 p a" "bio_frame s s1"
      using r s by (auto simp: read_post_def)
    have "wp (bread b s1) (\<lambda>(q, s2). read_post b s1 q s2)"
      using r1 ab held_one [OF r1(1)] by (intro bread_spec) (auto simp: NBUF_def)
    then have "wp (bread b s1) (\<lambda>(q, s2). bio_inv s2 \<and> blk s2 = blk s \<and>
     refs s2 = (\<lambda>_. 0)(a := Suc 0, b := Suc 0) \<and> holds s2 p a \<and> holds s2 q b \<and> bio_frame s s2)"
      by (rule wp_mono) (use r1 ab bio_frame_trans in \<open>auto simp: read_post_def\<close>)
    with r1 show ?thesis by simp
  qed
  moreover have "wp (bread a s) (\<lambda>(p, s1). read_post a s p s1)"
    using s ab by (intro bread_spec) (auto simp: held_quiet NBUF_def)
  ultimately show ?thesis by (auto elim!: wp_mono)
qed


section \<open>The loops of commit and recovery\<close>

text \<open>Where the copy of the \<open>i\<close>-th logged block lies, and the whole log area.\<close>

definition log_blk :: "'a log_state_scheme \<Rightarrow> nat \<Rightarrow> uint" where
  "log_blk s i = l_start (log s) + of_nat i + 1"

definition log_area :: "'a log_state_scheme \<Rightarrow> uint set" where
  "log_area s = insert (l_start (log s)) (log_blk s ` {..<LOGSIZE})"

text \<open>
  The disk layout: the log area does not contain block 0, and the transaction's blocks are proper
  blocks outside it.
\<close>

definition log_layout :: "'a log_state_scheme \<Rightarrow> bool" where
  "log_layout s \<longleftrightarrow> 0 \<notin> log_area s \<and> (\<forall>i < lhn s. lhb s i \<noteq> 0 \<and> lhb s i \<notin> log_area s)"

definition log_wf :: "'a log_state_scheme \<Rightarrow> bool" where
  "log_wf s \<longleftrightarrow> 0 \<le> lh_n (l_lh (log s)) \<and> lhn s \<le> LOGSIZE \<and> inj_on (lhb s) {..<lhn s}"

lemma of_nat_inj: "i < 2 ^ 32 \<Longrightarrow> j < 2 ^ 32 \<Longrightarrow> (of_nat i :: uint) = of_nat j \<longleftrightarrow> i = j"
  by (simp add: word_of_nat_eq_iff take_bit_nat_def)

lemma log_blk_inj: "i < LOGSIZE \<Longrightarrow> j < LOGSIZE \<Longrightarrow> log_blk s i = log_blk s j \<longleftrightarrow> i = j"
  using of_nat_inj [of i j] by (simp add: log_blk_def LOGSIZE_def)

lemma log_blk_start: "i < LOGSIZE \<Longrightarrow> log_blk s i \<noteq> l_start (log s)"
  using of_nat_inj [of "Suc i" 0] by (simp add: log_blk_def LOGSIZE_def add.commute)

lemma log_area_cong: "log s' = log s \<Longrightarrow> log_blk s' = log_blk s \<and> log_area s' = log_area s"
  by (simp add: log_blk_def log_area_def fun_eq_iff image_def)

lemma log_blk_area: "i < LOGSIZE \<Longrightarrow> log_blk s i \<in> log_area s"
  by (auto simp: log_area_def)

lemma log_area_unat:
  assumes "unat (l_start (log s)) + LOGSIZE < 2 ^ 32"
  shows "m \<in> log_area s \<longleftrightarrow> unat (l_start (log s)) \<le> unat m \<and> unat m \<le> unat (l_start (log s)) + LOGSIZE"
proof -
  let ?k = "unat (l_start (log s))"
  have st: "l_start (log s) = of_nat ?k" by simp
  have u: "log_blk s i = of_nat (?k + Suc i)" for i
    by (simp add: log_blk_def)
  have un: "unat (of_nat j :: uint) = j" if "j \<le> ?k + LOGSIZE" for j
    using that assms by (simp add: unat_of_nat take_bit_nat_eq_self)
  have "m \<in> log_area s \<longleftrightarrow> (\<exists>j. ?k \<le> j \<and> j \<le> ?k + LOGSIZE \<and> m = of_nat j)"
  proof
    assume "m \<in> log_area s"
    then consider "m = of_nat ?k" | i where "i < LOGSIZE" "m = of_nat (?k + Suc i)"
      using st u by (auto simp: log_area_def)
    then show "\<exists>j. ?k \<le> j \<and> j \<le> ?k + LOGSIZE \<and> m = of_nat j"
    proof cases
      case 1
      then show ?thesis by (intro exI [of _ ?k]) auto
    next
      case 2
      then show ?thesis by (intro exI [of _ "?k + Suc i"]) auto
    qed
  next
    assume "\<exists>j. ?k \<le> j \<and> j \<le> ?k + LOGSIZE \<and> m = of_nat j"
    then obtain j where j: "?k \<le> j" "j \<le> ?k + LOGSIZE" "m = of_nat j" by blast
    show "m \<in> log_area s"
    proof (cases "j = ?k")
      case False
      then have "m = log_blk s (j - Suc ?k)" "j - Suc ?k < LOGSIZE" using u [of "j - Suc ?k"] j by simp_all
      then show ?thesis by (auto simp: log_area_def)
    qed (use j in \<open>auto simp: log_area_def\<close>)
  qed
  then show ?thesis using un by (metis (no_types, lifting) word_nat_of_unat_id)
qed

text \<open>
  One iteration of either loop: \<open>install_trans\<close> reads the source first, \<open>write_log\<close> the destination;
  \<open>g\<close> is the block number the second read looks up.
\<close>

lemma install_step:
  assumes ab: "quiet s" "a \<noteq> b" "a \<noteq> 0" "b \<noteq> 0"
    and k: "\<And>s3. quiet s3 \<Longrightarrow> blk s3 = (blk s)(b := blk s a) \<Longrightarrow> bio_frame s s3 \<Longrightarrow> wp (f s3) P"
    and g: "\<And>s1. bio_frame s s1 \<Longrightarrow> g s1 = b"
  shows "wp (rbind (bread a s) (\<lambda>(p, s). rbind (bread (g s) s) (\<lambda>(q, s).
      let s = set_data q (b_data (bcache s p)) s; s = bwrite q s; s = brelse p s; s = brelse q s in f s))) P"
proof -
  have "wp (f (brelse q (brelse p (bwrite q (set_data q (b_data (bcache s2 p)) s2))))) P"
    if "bio_inv s2" "blk s2 = blk s" "refs s2 = (\<lambda>_. 0)(a := Suc 0, b := Suc 0)" "holds s2 p a" "holds s2 q b"
      "bio_frame s s2" for p q s2
    using copy_held [OF that(1,3) ab(2) that(4,5) refl] that bio_frame_trans by (intro k) auto
  then show ?thesis
    using read_two [OF ab] g by (auto elim!: wp_mono simp: Let_def)
qed

lemma write_step:
  assumes ab: "quiet s" "a \<noteq> b" "a \<noteq> 0" "b \<noteq> 0"
    and k: "\<And>s3. quiet s3 \<Longrightarrow> blk s3 = (blk s)(a := blk s b) \<Longrightarrow> bio_frame s s3 \<Longrightarrow> wp (f s3) P"
    and g: "\<And>s1. bio_frame s s1 \<Longrightarrow> g s1 = b"
  shows "wp (rbind (bread a s) (\<lambda>(p, s). rbind (bread (g s) s) (\<lambda>(q, s).
      let s = set_data p (b_data (bcache s q)) s; s = bwrite p s; s = brelse q s; s = brelse p s in f s))) P"
proof -
  have "wp (f (brelse p (brelse q (bwrite p (set_data p (b_data (bcache s2 q)) s2))))) P"
    if "bio_inv s2" "blk s2 = blk s" "refs s2 = (\<lambda>_. 0)(a := Suc 0, b := Suc 0)" "holds s2 p a" "holds s2 q b"
      "bio_frame s s2" for p q s2
    using copy_held [OF that(1) _ ab(2) [symmetric] that(5,4) refl] that ab(2) bio_frame_trans
    by (intro k) (auto simp: fun_upd_twist)
  then show ?thesis
    using read_two [OF ab] g by (auto elim!: wp_mono simp: Let_def)
qed

lemma write_log_loop_spec:
  assumes "quiet s" "0 \<notin> log_area s" "\<forall>i \<in> set ts. i < LOGSIZE \<and> lhb s i \<noteq> 0 \<and> lhb s i \<notin> log_area s" "distinct ts"
  shows "wp (write_log_loop ts s) (\<lambda>s'. quiet s' \<and> bio_frame s s' \<and>
      (\<forall>i \<in> set ts. blk s' (log_blk s i) = blk s (lhb s i)) \<and>
      (\<forall>m. m \<notin> log_blk s ` set ts \<longrightarrow> blk s' m = blk s m))"
  using assms
proof (induction ts arbitrary: s)
  case Nil
  then show ?case by simp
next
  case (Cons t ts)
  let ?a = "log_blk s t" and ?b = "lhb s t"
  have t: "t < LOGSIZE" "?b \<noteq> 0" "?b \<notin> log_area s" using Cons.prems by auto
  have ne: "?a \<noteq> ?b" "?a \<noteq> 0" using log_blk_area [OF t(1), of s] t Cons.prems(2) by auto
  have step: "wp (write_log_loop ts s3) (\<lambda>s'. quiet s' \<and> bio_frame s s' \<and>
      (\<forall>i \<in> set (t # ts). blk s' (log_blk s i) = blk s (lhb s i)) \<and>
      (\<forall>m. m \<notin> log_blk s ` set (t # ts) \<longrightarrow> blk s' m = blk s m))"
    if s3: "quiet s3" "blk s3 = (blk s)(?a := blk s ?b)" "bio_frame s s3" for s3
  proof -
    have l: "log s3 = log s" using s3 by simp
    then have la: "log_blk s3 = log_blk s" "log_area s3 = log_area s" using log_area_cong by auto
    have "wp (write_log_loop ts s3) (\<lambda>s'. quiet s' \<and> bio_frame s3 s' \<and>
      (\<forall>i \<in> set ts. blk s' (log_blk s3 i) = blk s3 (lhb s3 i)) \<and>
      (\<forall>m. m \<notin> log_blk s3 ` set ts \<longrightarrow> blk s' m = blk s3 m))"
      using s3 Cons.prems l la by (intro Cons.IH) auto
    moreover have "lhb s i \<noteq> ?a" if "i \<in> set (t # ts)" for i
      using Cons.prems(3) that log_blk_area [OF t(1), of s] by auto
    moreover have "?a \<notin> log_blk s ` set ts"
      using Cons.prems(3,4) log_blk_inj [OF t(1)] by auto
    ultimately show ?thesis
      using s3 l la bio_frame_trans [of s s3] by (auto elim!: wp_mono)
  qed
  show ?case
    unfolding write_log_loop.simps log_blk_def [symmetric]
    using Cons.prems(1) ne t(2) step by (intro write_step [where b = ?b]) auto
qed

lemma install_loop_spec:
  assumes "quiet s" "0 \<notin> log_area s" "\<forall>i \<in> set ts. i < LOGSIZE \<and> lhb s i \<noteq> 0 \<and> lhb s i \<notin> log_area s"
    "distinct ts" "inj_on (lhb s) (set ts)"
  shows "wp (install_loop ts s) (\<lambda>s'. quiet s' \<and> bio_frame s s' \<and>
      (\<forall>i \<in> set ts. blk s' (lhb s i) = blk s (log_blk s i)) \<and>
      (\<forall>m. m \<notin> lhb s ` set ts \<longrightarrow> blk s' m = blk s m))"
  using assms
proof (induction ts arbitrary: s)
  case Nil
  then show ?case by simp
next
  case (Cons t ts)
  let ?a = "log_blk s t" and ?b = "lhb s t"
  have t: "t < LOGSIZE" "?b \<noteq> 0" "?b \<notin> log_area s" using Cons.prems by auto
  have ne: "?a \<noteq> ?b" "?a \<noteq> 0" using log_blk_area [OF t(1), of s] t Cons.prems(2) by auto
  have step: "wp (install_loop ts s3) (\<lambda>s'. quiet s' \<and> bio_frame s s' \<and>
      (\<forall>i \<in> set (t # ts). blk s' (lhb s i) = blk s (log_blk s i)) \<and>
      (\<forall>m. m \<notin> lhb s ` set (t # ts) \<longrightarrow> blk s' m = blk s m))"
    if s3: "quiet s3" "blk s3 = (blk s)(?b := blk s ?a)" "bio_frame s s3" for s3
  proof -
    have l: "log s3 = log s" using s3 by simp
    then have la: "log_blk s3 = log_blk s" "log_area s3 = log_area s" using log_area_cong by auto
    have "wp (install_loop ts s3) (\<lambda>s'. quiet s' \<and> bio_frame s3 s' \<and>
      (\<forall>i \<in> set ts. blk s' (lhb s3 i) = blk s3 (log_blk s3 i)) \<and>
      (\<forall>m. m \<notin> lhb s3 ` set ts \<longrightarrow> blk s' m = blk s3 m))"
      using s3 Cons.prems l la by (intro Cons.IH) auto
    moreover have "log_blk s i \<noteq> ?b" if "i \<in> set (t # ts)" for i
      using Cons.prems(3) that log_blk_area [of i s] t by auto
    moreover have "?b \<notin> lhb s ` set ts"
      using Cons.prems(4,5) by (auto simp: inj_on_def)
    ultimately show ?thesis
      using s3 l la bio_frame_trans [of s s3] by (auto elim!: wp_mono)
  qed
  show ?case
    unfolding install_loop.simps log_blk_def [symmetric]
    using Cons.prems(1) ne t(2) step by (intro install_step [where b = ?b]) auto
qed


section \<open>The header block\<close>

lemma encode_blocks:
  assumes "length d = BSIZE" "k \<le> LOGSIZE"
  shows "length (fold (\<lambda>i d. put32 (4 + 4 * i) (bl i) d) [0..<k] d) = BSIZE \<and>
    get32 (fold (\<lambda>i d. put32 (4 + 4 * i) (bl i) d) [0..<k] d) 0 = get32 d 0 \<and>
    (\<forall>i < k. get32 (fold (\<lambda>i d. put32 (4 + 4 * i) (bl i) d) [0..<k] d) (4 + 4 * i) = bl i)"
  using assms(2)
proof (induction k)
  case 0
  then show ?case using assms by simp
next
  case (Suc k)
  let ?d = "fold (\<lambda>i d. put32 (4 + 4 * i) (bl i) d) [0..<k] d"
  have k: "4 + 4 * k + 4 \<le> BSIZE" using Suc.prems by (simp add: LOGSIZE_def BSIZE_def)
  have IH: "length ?d = BSIZE" "get32 ?d 0 = get32 d 0" "\<forall>i < k. get32 ?d (4 + 4 * i) = bl i"
    using Suc by auto
  have "get32 (put32 (4 + 4 * k) (bl k) ?d) (4 + 4 * i) = bl i" if "i < Suc k" for i
  proof (cases "i = k")
    case False
    then show ?thesis using that IH k by (simp add: put32_def get32_patch_other)
  qed (use IH k in simp)
  moreover have "get32 (put32 (4 + 4 * k) (bl k) ?d) 0 = get32 d 0"
    using IH k by (simp add: put32_def get32_patch_other)
  ultimately show ?case using IH k by simp
qed

text \<open>The header written by \<open>write_head\<close> is the one \<open>read_head\<close> reads back.\<close>

lemma encode_head:
  assumes "length d = BSIZE" "0 \<le> lh_n h" "lh_n h \<le> int LOGSIZE"
  shows "length (encode_head h d) = BSIZE" "head_n (encode_head h d) = lh_n h"
    "i < nat (lh_n h) \<Longrightarrow> head_block (encode_head h d) i = lh_block h i"
proof -
  have d: "length (put32 0 (word_of_int (lh_n h)) d) = BSIZE" using assms by (simp add: BSIZE_def)
  have k: "nat (lh_n h) \<le> LOGSIZE" using assms by simp
  note E = encode_blocks [OF d k, of "lh_block h"]
  show "length (encode_head h d) = BSIZE" using E by (simp add: encode_head_def)
  have "get32 (put32 0 (word_of_int (lh_n h)) d) 0 = word_of_int (lh_n h)"
    using assms by (simp add: BSIZE_def)
  then show "head_n (encode_head h d) = lh_n h"
    using E assms sint_small [of "lh_n h"] by (simp add: encode_head_def head_n_def LOGSIZE_def)
  show "i < nat (lh_n h) \<Longrightarrow> head_block (encode_head h d) i = lh_block h i"
    using E by (simp add: encode_head_def head_block_def)
qed

lemma write_head_spec:
  assumes "quiet s" "l_start (log s) \<noteq> 0" "0 \<le> lh_n (l_lh (log s))" "lh_n (l_lh (log s)) \<le> int LOGSIZE"
  shows "wp (write_head s) (\<lambda>s'. quiet s' \<and> bio_frame s s' \<and>
    blk s' = (blk s)(l_start (log s) := encode_head (l_lh (log s)) (blk s (l_start (log s)))))"
proof -
  let ?e = "encode_head (l_lh (log s)) (blk s (l_start (log s)))"
  have "length ?e = BSIZE"
    using encode_head(1) [OF _ assms(3,4)] length_blk [of s] assms(1) by (simp add: quiet_def)
  then have "wp (bread (l_start (log s)) s) (\<lambda>(b, s1).
      wp (Ok (bwrite b (set_data b (encode_head (l_lh (log s1)) (b_data (bcache s1 b))) s1))) (\<lambda>s2.
        bio_inv (brelse b s2) \<and> blk (brelse b s2) = (blk s)(l_start (log s) := ?e) \<and>
        refs (brelse b s2) = refs s \<and> 1 \<le> Suc 1 \<and> bio_frame s (brelse b s2)))"
    using assms quiet_can_read [of s "l_start (log s)"] by (intro bc.modify) (auto simp: quiet_def)
  then show ?thesis
    using assms(1) unfolding write_head_def quiet_def by (simp add: Let_def case_prod_unfold conj_ac)
qed

text \<open>Symbolic execution of the acquisition of a block.\<close>

lemma wp_bread:
  assumes "bio_inv s" "can_read s n"
    and "\<And>b s1. bio_inv s1 \<Longrightarrow> blk s1 = blk s \<Longrightarrow> refs s1 = (refs s)(n := Suc (refs s n)) \<Longrightarrow> holds s1 b n \<Longrightarrow>
      b_data (bcache s1 b) = blk s n \<Longrightarrow> bio_frame s s1 \<Longrightarrow> wp (f b s1) P"
  shows "wp (rbind (bread n s) (\<lambda>(b, s1). f b s1)) P"
  using bc.rd_ok [OF assms(1,2)] by (rule wp_mono_bind) (use assms(3) in auto)

lemma release_bio:
  assumes "bio_inv s" "holds s b n"
  shows "bio_inv (brelse b s)" "blk (brelse b s) = blk s" "refs (brelse b s) = (refs s)(n := refs s n - 1)"
    "bio_frame s (brelse b s)"
  using brelse_spec [OF assms] by (simp_all add: release_post_def)

lemma read_head_spec:
  assumes q: "quiet s" and l: "l_start (log s) \<noteq> 0" "nat (head_n (blk s (l_start (log s)))) \<le> LOGSIZE"
  shows "wp (read_head s) (\<lambda>s'. quiet s' \<and> blk s' = blk s \<and> log_frame s s' \<and>
      log s' = (log s)\<lparr>l_lh := load_head (blk s (l_start (log s))) (l_lh (log s))\<rparr>)"
  unfolding read_head_def
proof (rule wp_bread)
  show "bio_inv s" "can_read s (l_start (log s))"
    using q l quiet_can_read by (auto simp: quiet_def)
next
  fix b s1
  assume s1: "bio_inv s1" "blk s1 = blk s"
      "refs s1 = (refs s)(l_start (log s) := Suc (refs s (l_start (log s))))" "holds s1 b (l_start (log s))"
      "b_data (bcache s1 b) = blk s (l_start (log s))" "bio_frame s s1"
  define t where "t = upd_lh (load_head (blk s (l_start (log s)))) s1"
  have t: "bio_inv t" "holds t b (l_start (log s))" "blk t = blk s" "refs t = refs s1"
    "log t = (log s)\<lparr>l_lh := load_head (blk s (l_start (log s))) (l_lh (log s))\<rparr>"
    using s1 by (simp_all add: t_def)
  have f: "log_frame s t" using s1 by (simp add: t_def bio_log_frame)
  note r = release_bio [OF t(1,2)]
  have "refs (brelse b t) = (\<lambda>_. 0)" using r(3) q s1(3) t(4) by (simp add: quiet_def fun_eq_iff)
  then have "quiet (brelse b t) \<and> blk (brelse b t) = blk s \<and> log_frame s (brelse b t) \<and>
      log (brelse b t) = (log s)\<lparr>l_lh := load_head (blk s (l_start (log s))) (l_lh (log s))\<rparr>"
    using r t log_frame_trans [OF f bio_log_frame [OF r(4)]] by (simp add: quiet_def)
  then show "wp (if nat (head_n (b_data (bcache s1 b))) > LOGSIZE then Fault
       else Ok (brelse b (upd_lh (load_head (b_data (bcache s1 b))) s1)))
      (\<lambda>s'. quiet s' \<and> blk s' = blk s \<and> log_frame s s' \<and>
      log s' = (log s)\<lparr>l_lh := load_head (blk s (l_start (log s))) (l_lh (log s))\<rparr>)"
    using l(2) s1(5) by (simp add: t_def)
qed

section \<open>Commit and recovery\<close>

lemmas upd_lh_log = upd_lh_simps(3)

lemma log_area_upd [simp]:
  "log_blk (upd_lh f s) = log_blk s" "log_area (upd_lh f s) = log_area s"
  "log_blk (s\<lparr>log := (log s)\<lparr>l_committing := c\<rparr>\<rparr>) = log_blk s"
  "log_area (s\<lparr>log := (log s)\<lparr>l_committing := c\<rparr>\<rparr>) = log_area s"
  by (simp_all add: log_blk_def log_area_def fun_eq_iff image_def)

definition logged :: "'a log_state_scheme \<Rightarrow> uint set" where
  "logged s = lhb s ` {..<lhn s}"

lemma log_layout_alt: "log_layout s \<longleftrightarrow> 0 \<notin> log_area s \<and> 0 \<notin> logged s \<and> logged s \<inter> log_area s = {}"
  by (auto simp: log_layout_def logged_def)

lemma log_layoutD:
  assumes "log_layout s"
  shows "0 \<notin> log_area s" "l_start (log s) \<noteq> 0" "i < lhn s \<Longrightarrow> lhb s i \<noteq> 0" "i < lhn s \<Longrightarrow> lhb s i \<notin> log_area s"
    "0 \<notin> logged s" "logged s \<inter> log_area s = {}"
  using assms by (auto simp: log_layout_def log_area_def logged_def)

text \<open>
  Up to the commit point: the copies are in the log and the header on disk describes them; no
  block outside the log area has changed.
\<close>

lemma commit_point:
  assumes s: "quiet s" "log_wf s" "log_layout s"
  shows "wp (rbind (write_log s) write_head) (\<lambda>s'. quiet s' \<and> bio_frame s s' \<and>
      (\<forall>i < lhn s. blk s' (log_blk s i) = blk s (lhb s i)) \<and>
      (\<forall>m. m \<notin> log_area s \<longrightarrow> blk s' m = blk s m) \<and>
      head_n (blk s' (l_start (log s))) = lh_n (l_lh (log s)) \<and>
      (\<forall>i < lhn s. head_block (blk s' (l_start (log s))) i = lhb s i))"
proof -
  let ?n = "lhn s" and ?st = "l_start (log s)"
  have n: "?n \<le> LOGSIZE" "0 \<le> lh_n (l_lh (log s))" "lh_n (l_lh (log s)) \<le> int LOGSIZE"
    using s(2) by (auto simp: log_wf_def)
  have "wp (write_log s) (\<lambda>s1. quiet s1 \<and> bio_frame s s1 \<and>
      (\<forall>i < ?n. blk s1 (log_blk s i) = blk s (lhb s i)) \<and>
      (\<forall>m. m \<notin> log_blk s ` {..<?n} \<longrightarrow> blk s1 m = blk s m))"
    unfolding write_log_def
    by (rule wp_mono [OF write_log_loop_spec]) (use s n log_layoutD [OF s(3)] in \<open>auto simp: lessThan_atLeast0\<close>)
  then show ?thesis
  proof (rule wp_mono_bind)
    fix s1
    assume s1: "quiet s1 \<and> bio_frame s s1 \<and> (\<forall>i < ?n. blk s1 (log_blk s i) = blk s (lhb s i)) \<and>
      (\<forall>m. m \<notin> log_blk s ` {..<?n} \<longrightarrow> blk s1 m = blk s m)"
    then have l: "log s1 = log s" and q: "quiet s1" by auto
    let ?e = "encode_head (l_lh (log s)) (blk s1 ?st)"
    have e: "head_n ?e = lh_n (l_lh (log s))" "i < ?n \<Longrightarrow> head_block ?e i = lhb s i" for i
      using encode_head [OF _ n(2,3)] length_blk [of s1 ?st] q by (auto simp: quiet_def)
    have d: "log_blk s i \<noteq> ?st" "log_blk s i \<in> log_area s" if "i < ?n" for i
      using log_blk_start [OF less_le_trans [OF that n(1)]] log_blk_area [OF less_le_trans [OF that n(1)]] by auto
    have out: "blk s1 m = blk s m" if "m \<notin> log_area s" for m
      using s1 that d(2) by (metis (no_types, lifting) imageE lessThan_iff)
    have "wp (write_head s1) (\<lambda>s'. quiet s' \<and> bio_frame s1 s' \<and> blk s' = (blk s1)(?st := ?e))"
      using write_head_spec [OF q] n log_layoutD(2) [OF s(3)] by (simp add: l)
    moreover have "?st \<in> log_area s" by (simp add: log_area_def)
    ultimately show "wp (write_head s1) (\<lambda>s'. quiet s' \<and> bio_frame s s' \<and>
      (\<forall>i < ?n. blk s' (log_blk s i) = blk s (lhb s i)) \<and>
      (\<forall>m. m \<notin> log_area s \<longrightarrow> blk s' m = blk s m) \<and>
      head_n (blk s' ?st) = lh_n (l_lh (log s)) \<and> (\<forall>i < ?n. head_block (blk s' ?st) i = lhb s i))"
      using s1 e d out bio_frame_trans [of s s1] by (auto elim!: wp_mono)
  qed
qed

text \<open>From the commit point on: the copies are installed and the header is cleared.\<close>

lemma install_clear:
  assumes s: "quiet s" "log_wf s" "log_layout s"
  shows "wp (rbind (install_trans s) (\<lambda>s. write_head (upd_lh (\<lambda>h. h\<lparr>lh_n := 0\<rparr>) s))) (\<lambda>s'. quiet s' \<and>
      log_frame s s' \<and> log s' = (log s)\<lparr>l_lh := (l_lh (log s))\<lparr>lh_n := 0\<rparr>\<rparr> \<and>
      (\<forall>i < lhn s. blk s' (lhb s i) = blk s (log_blk s i)) \<and>
      (\<forall>m. m \<notin> logged s \<and> m \<notin> log_area s \<longrightarrow> blk s' m = blk s m) \<and>
      head_n (blk s' (l_start (log s))) = 0)"
proof -
  let ?n = "lhn s" and ?st = "l_start (log s)"
  have "wp (install_trans s) (\<lambda>s1. quiet s1 \<and> bio_frame s s1 \<and>
      (\<forall>i < ?n. blk s1 (lhb s i) = blk s (log_blk s i)) \<and>
      (\<forall>m. m \<notin> logged s \<longrightarrow> blk s1 m = blk s m))"
    unfolding install_trans_def
    by (rule wp_mono [OF install_loop_spec]) (use s log_layoutD [OF s(3)] in \<open>auto simp: logged_def log_wf_def lessThan_atLeast0\<close>)
  then show ?thesis
  proof (rule wp_mono_bind)
    fix s1
    assume s1: "quiet s1 \<and> bio_frame s s1 \<and> (\<forall>i < ?n. blk s1 (lhb s i) = blk s (log_blk s i)) \<and>
      (\<forall>m. m \<notin> logged s \<longrightarrow> blk s1 m = blk s m)"
    define t where "t = upd_lh (\<lambda>h. h\<lparr>lh_n := 0\<rparr>) s1"
    have t: "quiet t" "blk t = blk s1" "log t = (log s)\<lparr>l_lh := (l_lh (log s))\<lparr>lh_n := 0\<rparr>\<rparr>" "log_frame s t"
      using s1 by (auto simp: t_def bio_log_frame)
    let ?e = "encode_head (l_lh (log t)) (blk t ?st)"
    have "wp (write_head t) (\<lambda>s'. quiet s' \<and> bio_frame t s' \<and> blk s' = (blk t)(?st := ?e))"
      using write_head_spec [OF t(1)] log_layoutD(2) [OF s(3)] by (simp add: t(3))
    moreover have "head_n ?e = 0"
      using encode_head(2) [of "blk t ?st" "l_lh (log t)"] length_blk [of t ?st] t(1,3) by (simp add: quiet_def)
    moreover have "?st \<in> log_area s" by (simp add: log_area_def)
    moreover have "lhb s i \<noteq> ?st" if "i < ?n" for i
      using log_layoutD(4) [OF s(3) that] by (auto simp: log_area_def)
    ultimately show "wp (write_head t) (\<lambda>s'. quiet s' \<and> log_frame s s' \<and>
      log s' = (log s)\<lparr>l_lh := (l_lh (log s))\<lparr>lh_n := 0\<rparr>\<rparr> \<and>
      (\<forall>i < ?n. blk s' (lhb s i) = blk s (log_blk s i)) \<and>
      (\<forall>m. m \<notin> logged s \<and> m \<notin> log_area s \<longrightarrow> blk s' m = blk s m) \<and> head_n (blk s' ?st) = 0)"
      using s1 t log_frame_trans [OF t(4) bio_log_frame] by (auto elim!: wp_mono)
  qed
qed

lemma log_area_frame: "bio_frame s s' \<Longrightarrow> log_blk s' = log_blk s \<and> log_area s' = log_area s \<and> logged s' = logged s"
  using log_area_cong [of s' s] by (simp add: logged_def)

lemma log_wf_cong: "log s' = log s \<Longrightarrow> log_wf s' = log_wf s \<and> log_layout s' = log_layout s"
  using log_area_cong [of s' s] by (simp add: log_wf_def log_layout_def)

lemma commit_spec:
  assumes s: "quiet s" "log_wf s" "log_layout s"
  shows "wp (commit s) (\<lambda>s'. quiet s' \<and> log_frame s s' \<and>
      log s' = (log s)\<lparr>l_lh := (l_lh (log s))\<lparr>lh_n := 0\<rparr>\<rparr> \<and> (\<forall>m. m \<notin> log_area s \<longrightarrow> blk s' m = blk s m))"
proof (cases "lh_n (l_lh (log s)) > 0")
  case True
  have c: "commit s = rbind (rbind (write_log s) write_head) (\<lambda>s. rbind (install_trans s)
      (\<lambda>s. write_head (upd_lh (\<lambda>h. h\<lparr>lh_n := 0\<rparr>) s)))"
    using True by (simp add: commit_def rbind_assoc)
  show ?thesis
    unfolding c using commit_point [OF s]
  proof (rule wp_mono_bind)
    fix s1
    assume s1: "quiet s1 \<and> bio_frame s s1 \<and>
      (\<forall>i < lhn s. blk s1 (log_blk s i) = blk s (lhb s i)) \<and>
      (\<forall>m. m \<notin> log_area s \<longrightarrow> blk s1 m = blk s m) \<and>
      head_n (blk s1 (l_start (log s))) = lh_n (l_lh (log s)) \<and>
      (\<forall>i < lhn s. head_block (blk s1 (l_start (log s))) i = lhb s i)"
    then have l: "log s1 = log s" and f: "log_frame s s1" by (auto simp: bio_log_frame)
    have w: "quiet s1" "log_wf s1" "log_layout s1" using s1 s log_wf_cong [OF l] by auto
    have same: "log_blk s1 = log_blk s" "log_area s1 = log_area s" "logged s1 = logged s"
      using s1 log_area_frame [of s s1] by auto
    show "wp (rbind (install_trans s1) (\<lambda>s. write_head (upd_lh (\<lambda>h. h\<lparr>lh_n := 0\<rparr>) s))) (\<lambda>s'. quiet s' \<and>
      log_frame s s' \<and> log s' = (log s)\<lparr>l_lh := (l_lh (log s))\<lparr>lh_n := 0\<rparr>\<rparr> \<and>
      (\<forall>m. m \<notin> log_area s \<longrightarrow> blk s' m = blk s m))"
      using install_clear [OF w]
    proof (rule wp_mono)
      fix s'
      assume s': "quiet s' \<and> log_frame s1 s' \<and> log s' = (log s1)\<lparr>l_lh := (l_lh (log s1))\<lparr>lh_n := 0\<rparr>\<rparr> \<and>
        (\<forall>i < lhn s1. blk s' (lhb s1 i) = blk s1 (log_blk s1 i)) \<and>
        (\<forall>m. m \<notin> logged s1 \<and> m \<notin> log_area s1 \<longrightarrow> blk s' m = blk s1 m) \<and>
        head_n (blk s' (l_start (log s1))) = 0"
      have "blk s' m = blk s m" if "m \<notin> log_area s" for m
      proof (cases "m \<in> logged s")
        case True
        then obtain i where "i < lhn s" "m = lhb s i" by (auto simp: logged_def)
        then show ?thesis using s1 s' same l by simp
      next
        case False
        then show ?thesis using s1 s' same that by simp
      qed
      then show "quiet s' \<and> log_frame s s' \<and> log s' = (log s)\<lparr>l_lh := (l_lh (log s))\<lparr>lh_n := 0\<rparr>\<rparr> \<and>
        (\<forall>m. m \<notin> log_area s \<longrightarrow> blk s' m = blk s m)"
        using s' l log_frame_trans [OF f] by auto
    qed
  qed
next
  case False
  then have "lh_n (l_lh (log s)) = 0" using s(2) by (simp add: log_wf_def)
  then have "log s = (log s)\<lparr>l_lh := (l_lh (log s))\<lparr>lh_n := 0\<rparr>\<rparr>" by simp
  then show ?thesis using False s by (simp add: commit_def)
qed

text \<open>Recovery from a header found on disk.\<close>

lemma recover_spec:
  assumes q: "quiet s" and l: "nat (head_n (blk s (l_start (log s)))) \<le> LOGSIZE" "0 \<notin> log_area s"
    and bl: "\<And>i. i < nat (head_n (blk s (l_start (log s)))) \<Longrightarrow>
       head_block (blk s (l_start (log s))) i \<noteq> 0 \<and> head_block (blk s (l_start (log s))) i \<notin> log_area s"
    and inj: "inj_on (head_block (blk s (l_start (log s)))) {..<nat (head_n (blk s (l_start (log s))))}"
    and nn: "0 \<le> head_n (blk s (l_start (log s)))"
  shows "wp (recover_from_log s) (\<lambda>s'. quiet s' \<and> log_frame s s' \<and> lh_n (l_lh (log s')) = 0 \<and>
      (let d = blk s (l_start (log s)) in
        (\<forall>i < nat (head_n d). blk s' (head_block d i) = blk s (log_blk s i)) \<and>
        (\<forall>m. m \<notin> head_block d ` {..<nat (head_n d)} \<and> m \<notin> log_area s \<longrightarrow> blk s' m = blk s m) \<and>
        head_n (blk s' (l_start (log s))) = 0))"
proof -
  let ?d = "blk s (l_start (log s))"
  have "l_start (log s) \<noteq> 0" using l(2) by (auto simp: log_area_def)
  from read_head_spec [OF q this l(1)]
  show ?thesis
    unfolding recover_from_log_def
  proof (rule wp_mono_bind)
    fix s1
    assume s1: "quiet s1 \<and> blk s1 = blk s \<and> log_frame s s1 \<and> log s1 = (log s)\<lparr>l_lh := load_head ?d (l_lh (log s))\<rparr>"
    then have n: "lh_n (l_lh (log s1)) = head_n ?d" "i < nat (head_n ?d) \<Longrightarrow> lhb s1 i = head_block ?d i" for i
      by (auto simp: load_head_def)
    have lb: "log_blk s1 = log_blk s" "log_area s1 = log_area s"
      using s1 by (simp_all add: log_blk_def log_area_def fun_eq_iff image_def)
    have "inj_on (lhb s1) {..<lhn s1}" using inj n by (auto simp: inj_on_def)
    then have w: "log_wf s1" using l nn n by (simp add: log_wf_def)
    have ly: "log_layout s1" using l(2) bl n lb by (simp add: log_layout_def)
    have lg: "logged s1 = head_block ?d ` {..<nat (head_n ?d)}" using n by (auto simp: logged_def)
    have q1: "quiet s1" and f: "log_frame s s1" using s1 by auto
    show "wp (rbind (install_trans s1) (\<lambda>s. write_head (upd_lh (\<lambda>h. h\<lparr>lh_n := 0\<rparr>) s)))
      (\<lambda>s'. quiet s' \<and> log_frame s s' \<and> lh_n (l_lh (log s')) = 0 \<and>
      (let d = blk s (l_start (log s)) in
        (\<forall>i < nat (head_n d). blk s' (head_block d i) = blk s (log_blk s i)) \<and>
        (\<forall>m. m \<notin> head_block d ` {..<nat (head_n d)} \<and> m \<notin> log_area s \<longrightarrow> blk s' m = blk s m) \<and>
        head_n (blk s' (l_start (log s))) = 0))"
      by (rule wp_mono [OF install_clear [OF q1 w ly]])
        (use s1 n lb lg log_frame_trans [OF f] in \<open>auto simp: Let_def\<close>)
  qed
qed

section \<open>Writing through the log\<close>

text \<open>
  What a transaction changes: the cache, the device and the list of logged blocks; not where the
  log lies, nor how many system calls are in progress.
\<close>

definition tx_frame :: "'a log_state_scheme \<Rightarrow> 'a log_state_scheme \<Rightarrow> bool" where
  "tx_frame s s' \<longleftrightarrow> (\<exists>bc d h. s' = s\<lparr>bcache := bc, disk := d, log := (log s)\<lparr>l_lh := h\<rparr>\<rparr>)"

lemma tx_frameI: "s' = s\<lparr>bcache := bc, disk := d, log := (log s)\<lparr>l_lh := h\<rparr>\<rparr> \<Longrightarrow> tx_frame s s'"
  unfolding tx_frame_def by blast

lemma tx_frameE:
  assumes "tx_frame s s'"
  obtains bc d h where "s' = s\<lparr>bcache := bc, disk := d, log := (log s)\<lparr>l_lh := h\<rparr>\<rparr>"
  using assms unfolding tx_frame_def by blast

lemma tx_frame_trans: "tx_frame s t \<Longrightarrow> tx_frame t u \<Longrightarrow> tx_frame s u"
  by (elim tx_frameE) (simp add: tx_frameI)

lemma tx_log_frame: "tx_frame s s' \<Longrightarrow> log_frame s s'"
  by (elim tx_frameE) (simp add: log_frameI)

lemma bio_tx_frame: "bio_frame s s' \<Longrightarrow> tx_frame s s'"
proof (elim bio_frameE)
  fix bc d assume "s' = s\<lparr>bcache := bc, disk := d\<rparr>"
  then show ?thesis by (intro tx_frameI [where h = "l_lh (log s)"]) simp
qed

lemma tx_frame_refl [simp]: "tx_frame s s"
  by (simp add: bio_tx_frame)

lemma tx_frame_lh [simp]: "tx_frame s t \<Longrightarrow> tx_frame s (upd_lh f t)"
  by (rule tx_frame_trans [of s t]) (auto simp: upd_lh_def intro: tx_frameI [where bc = "bcache t" and d = "disk t"])

lemma tx_frame_same:
  assumes "tx_frame s s'"
  shows "l_start (log s') = l_start (log s)" "l_size (log s') = l_size (log s)"
    "l_outstanding (log s') = l_outstanding (log s)" "l_committing (log s') = l_committing (log s)"
    "log_blk s' = log_blk s" "log_area s' = log_area s" "log_state.more s' = log_state.more s"
  using assms by (auto elim!: tx_frameE simp: log_blk_def log_area_def fun_eq_iff image_def)

text \<open>How many more blocks the open transaction can take.\<close>

definition room :: "'a log_state_scheme \<Rightarrow> nat" where
  "room s = min LOGSIZE (nat (l_size (log s) - 1)) - lhn s"

definition tx_inv :: "'a log_state_scheme \<Rightarrow> bool" where
  "tx_inv s \<longleftrightarrow> bio_inv s \<and> log_wf s \<and> log_layout s \<and> l_outstanding (log s) \<ge> 1"

lemma tx_inv_bio: "tx_inv s \<Longrightarrow> bio_inv s"
  by (simp add: tx_inv_def)

lemma tx_inv_frame:
  assumes "bio_frame s s'" "bio_inv s'" "tx_inv s"
  shows "tx_inv s'" "room s' = room s"
  using assms log_wf_cong [of s' s] by (simp_all add: tx_inv_def room_def)

text \<open>A block enters the header once, however often it is written.\<close>

lemma log_write_spec:
  assumes inv: "tx_inv s" and h: "holds s b n" "n \<notin> log_area s" and r: "0 < room s" and len: "length d = BSIZE"
  shows "wp (log_write b (set_data b d s)) (\<lambda>s'. tx_inv s' \<and> blk s' = (blk s)(n := d) \<and> refs s' = refs s \<and>
     holds s' b n \<and> logged s' = insert n (logged s) \<and> room s' = (if n \<in> logged s then room s else room s - 1) \<and>
     tx_frame s s')"
proof -
  define t where "t = set_data b d s"
  have tl: "log t = log s" and tb: "b_blockno (bcache t b) = n"
    using h by (simp_all add: t_def set_data_def upd_buf_def holds_def)
  have n0: "n \<noteq> 0" using h by (simp add: holds_def)
  have w: "0 \<le> lh_n (l_lh (log s))" "lhn s \<le> LOGSIZE" "inj_on (lhb s) {..<lhn s}" "l_outstanding (log s) \<ge> 1"
    using inv by (auto simp: tx_inv_def log_wf_def)
  have lt: "lh_n (l_lh (log s)) < int LOGSIZE" "lh_n (l_lh (log s)) < l_size (log s) - 1"
    using r w by (auto simp: room_def)
  define i where "i = absorb (l_lh (log s)) n"
  define hd' :: "logheader \<Rightarrow> logheader" where "hd' = (\<lambda>h. h\<lparr>lh_block := (lh_block h)(i := n), lh_n := (if i = lhn s then lh_n (l_lh (log s)) + 1 else lh_n h)\<rparr>)"
  have "log_write b t = Ok (bwrite b (if int i = lh_n (l_lh (log s))
      then upd_lh (\<lambda>h. h\<lparr>lh_n := lh_n (l_lh (log s)) + 1\<rparr>) (upd_lh (\<lambda>h. h\<lparr>lh_block := (lh_block h)(i := n)\<rparr>) t)
      else upd_lh (\<lambda>h. h\<lparr>lh_block := (lh_block h)(i := n)\<rparr>) t))"
    using w lt by (simp add: log_write_def Let_def tl tb i_def bwrite_def)
  also have "\<dots> = Ok (upd_lh hd' (bwrite b t))"
  proof (cases "i = lhn s")
    case True
    have "hd' = (\<lambda>h. (h\<lparr>lh_block := (lh_block h)(i := n)\<rparr>)\<lparr>lh_n := lh_n (l_lh (log s)) + 1\<rparr>)"
      using True by (simp add: hd'_def)
    moreover have "int i = lh_n (l_lh (log s))" using True w(1) by simp
    ultimately show ?thesis by (simp only: bwrite_def upd_lh_swap upd_lh_twice if_True simp_thms)
  next
    case False
    have "hd' = (\<lambda>h. h\<lparr>lh_block := (lh_block h)(i := n)\<rparr>)"
      using False by (simp add: hd'_def)
    moreover have "int i \<noteq> lh_n (l_lh (log s))" using False w(1) by linarith
    ultimately show ?thesis by (simp only: bwrite_def upd_lh_swap if_False simp_thms)
  qed
  finally have lw: "log_write b t = Ok (upd_lh hd' (bwrite b t))" .
  have bw: "bio_inv (bwrite b t)" "blk (bwrite b t) = (blk s)(n := d)" "refs (bwrite b t) = refs s" "holds (bwrite b t) b n"
    using bwrite_spec [OF tx_inv_bio [OF inv] h(1) len] h(1) by (auto simp: t_def write_post_def holds_def)
  have bl: "log (bwrite b t) = log s" using bwrite_frame [of s b d] by (simp add: t_def)
  let ?s = "upd_lh hd' (bwrite b t)"
  have la: "log_area (bwrite b t) = log_area s" using log_area_cong [OF bl] by simp
  have fr: "tx_frame s ?s" using bwrite_frame [of s b d] by (simp add: t_def bio_tx_frame)
  have "log_wf ?s \<and> logged ?s = insert n (logged s) \<and> room ?s = (if n \<in> logged s then room s else room s - 1)"
  proof (cases "n \<in> logged s")
    case True
    then have "find_from (\<lambda>i. lhb s i = n) 0 (lhn s) \<noteq> None" by (auto simp: logged_def find_from_None)
    then have "i < lhn s" "lhb s i = n" by (auto simp: i_def absorb_def dest: find_from_SomeD)
    moreover from this have "(lhb s)(i := n) = lhb s" by auto
    ultimately have "l_lh (log ?s) = l_lh (log s)" by (simp add: hd'_def bl)
    then show ?thesis
      using True w by (auto simp: log_wf_def logged_def room_def hd'_def bl)
  next
    case False
    then have "find_from (\<lambda>i. lhb s i = n) 0 (lhn s) = None" by (auto simp: logged_def find_from_None)
    then have i: "i = lhn s" by (simp add: i_def absorb_def)
    have k: "nat (lh_n (l_lh (log s)) + 1) = Suc (lhn s)" using w by simp
    have lg: "logged ?s = insert n (logged s)"
      using k by (auto simp: logged_def hd'_def bl i lessThan_Suc)
    moreover have "inj_on (lhb ?s) {..<Suc (lhn s)}"
      using w(3) False by (auto simp: logged_def hd'_def bl i lessThan_Suc inj_on_def)
    ultimately show ?thesis
      using w lt False k by (auto simp: log_wf_def room_def hd'_def bl i)
  qed
  moreover have "log_layout ?s" if "logged ?s = insert n (logged s)"
    using inv h n0 that by (simp add: tx_inv_def log_layout_alt la)
  ultimately show ?thesis
    using lw bw fr w(4) unfolding t_def [symmetric] by (simp add: tx_inv_def bl)
qed

text \<open>
  The cache as the file system sees it: the same contract, with \<open>log_write\<close> for the marks and
  \<open>room\<close> for the free entries of the header.
\<close>

interpretation lc: block_cache bread brelse "\<lambda>b s. b_data (bcache s b)" set_data log_write
  tx_inv blk refs "\<lambda>s b n. holds s b n \<and> n \<notin> log_area s" "\<lambda>s n. can_read s n \<and> n \<notin> log_area s" room tx_frame
proof unfold_locales
  fix s :: "'a log_state_scheme" and n
  assume s: "tx_inv s" "can_read s n \<and> n \<notin> log_area s"
  from bc.rd_ok [OF tx_inv_bio [OF s(1)]] s(2)
  have "wp (bread n s) (\<lambda>(b, s'). bio_inv s' \<and> blk s' = blk s \<and> refs s' = (refs s)(n := Suc (refs s n)) \<and>
      holds s' b n \<and> b_data (bcache s' b) = blk s n \<and> (1::nat) = 1 \<and> bio_frame s s')" by blast
  then show "wp (bread n s) (\<lambda>(b, s'). tx_inv s' \<and> blk s' = blk s \<and> refs s' = (refs s)(n := Suc (refs s n)) \<and>
      (holds s' b n \<and> n \<notin> log_area s') \<and> b_data (bcache s' b) = blk s n \<and> room s' = room s \<and> tx_frame s s')"
  proof (rule wp_mono)
    fix x
    assume "case x of (b, s') \<Rightarrow> bio_inv s' \<and> blk s' = blk s \<and> refs s' = (refs s)(n := Suc (refs s n)) \<and>
      holds s' b n \<and> b_data (bcache s' b) = blk s n \<and> (1::nat) = 1 \<and> bio_frame s s'"
    then obtain b s' where x: "x = (b, s')" "bio_inv s'" "blk s' = blk s" "refs s' = (refs s)(n := Suc (refs s n))"
      "holds s' b n" "b_data (bcache s' b) = blk s n" "bio_frame s s'" by auto
    show "case x of (b, s') \<Rightarrow> tx_inv s' \<and> blk s' = blk s \<and> refs s' = (refs s)(n := Suc (refs s n)) \<and>
      (holds s' b n \<and> n \<notin> log_area s') \<and> b_data (bcache s' b) = blk s n \<and> room s' = room s \<and> tx_frame s s'"
      using tx_inv_frame [OF x(7,2) s(1)] bio_tx_frame [OF x(7)] log_area_frame [OF x(7)] s(2) x by simp
  qed
next
  fix s :: "'a log_state_scheme" and b n
  assume s: "tx_inv s" "holds s b n \<and> n \<notin> log_area s"
  then have h: "bio_inv s" "holds s b n" by (simp_all add: tx_inv_bio)
  show "tx_inv (brelse b s) \<and> blk (brelse b s) = blk s \<and> refs (brelse b s) = (refs s)(n := refs s n - 1) \<and>
      room (brelse b s) = room s \<and> tx_frame s (brelse b s)"
    using release_bio [OF h] tx_inv_frame [OF release_bio(4) [OF h] release_bio(1) [OF h] s(1)]
      bio_tx_frame [OF release_bio(4) [OF h]] by simp
next
  fix s :: "'a log_state_scheme" and b n and d :: bytes
  assume s: "tx_inv s" "holds s b n \<and> n \<notin> log_area s" "0 < room s" "length d = BSIZE"
  then have "wp (log_write b (set_data b d s)) (\<lambda>s'. tx_inv s' \<and> blk s' = (blk s)(n := d) \<and> refs s' = refs s \<and>
     holds s' b n \<and> logged s' = insert n (logged s) \<and> room s' = (if n \<in> logged s then room s else room s - 1) \<and>
     tx_frame s s')" by (intro log_write_spec) auto
  then show "wp (log_write b (set_data b d s)) (\<lambda>s'. tx_inv s' \<and> blk s' = (blk s)(n := d) \<and> refs s' = refs s \<and>
     (holds s' b n \<and> n \<notin> log_area s') \<and> room s \<le> Suc (room s') \<and> tx_frame s s')"
    by (rule wp_mono) (use s tx_frame_same(6) in auto)
next
  show "tx_frame s t \<Longrightarrow> tx_frame t u \<Longrightarrow> tx_frame s u" for s t u :: "'a log_state_scheme"
    by (rule tx_frame_trans)
qed

section \<open>Opening and closing a transaction\<close>

text \<open>The state between system calls: no buffer is held, no operation is in progress, the log is empty.\<close>

definition log_idle :: "'a log_state_scheme \<Rightarrow> bool" where
  "log_idle s \<longleftrightarrow> quiet s \<and> 0 \<notin> log_area s \<and> lh_n (l_lh (log s)) = 0 \<and> l_outstanding (log s) = 0 \<and>
     \<not> l_committing (log s) \<and> l_size (log s) > MAXOPBLOCKS"

lemma begin_op_idle:
  assumes "log_idle s"
  shows "begin_op s = Ok (s\<lparr>log := (log s)\<lparr>l_outstanding := 1\<rparr>\<rparr>)"
    "tx_inv (s\<lparr>log := (log s)\<lparr>l_outstanding := 1\<rparr>\<rparr>)" "room (s\<lparr>log := (log s)\<lparr>l_outstanding := 1\<rparr>\<rparr>) \<ge> nat MAXOPBLOCKS"
  using assms by (auto simp: log_idle_def begin_op_def tx_inv_def log_wf_def log_layout_def quiet_def room_def
      MAXOPBLOCKS_def LOGSIZE_def log_area_def log_blk_def)

lemma end_op_spec:
  assumes s: "tx_inv s" "refs s = (\<lambda>_. 0)" "l_outstanding (log s) = 1" "\<not> l_committing (log s)" "l_size (log s) > MAXOPBLOCKS"
  shows "wp (end_op s) (\<lambda>s'. log_idle s' \<and> log_frame s s' \<and> log_area s' = log_area s \<and>
     l_start (log s') = l_start (log s) \<and> l_size (log s') = l_size (log s) \<and> (\<forall>m. m \<notin> log_area s \<longrightarrow> blk s' m = blk s m))"
proof -
  define t where "t = s\<lparr>log := (log s)\<lparr>l_outstanding := 0, l_committing := True\<rparr>\<rparr>"
  have a: "log_area t = log_area s" "log_blk t = log_blk s" "lhb t = lhb s" "lhn t = lhn s" "blk t = blk s"
    by (simp_all add: t_def log_area_def log_blk_def fun_eq_iff image_def)
  have "quiet t" "log_wf t" "log_layout t"
    using s by (simp_all add: t_def quiet_def tx_inv_def log_wf_def log_layout_def log_area_def log_blk_def)
  from commit_spec [OF this]
  have "wp (commit t) (\<lambda>s1. log_idle (s1\<lparr>log := (log s1)\<lparr>l_committing := False\<rparr>\<rparr>) \<and>
     log_frame s s1 \<and> log_area s1 = log_area s \<and> l_start (log s1) = l_start (log s) \<and> l_size (log s1) = l_size (log s) \<and>
     (\<forall>m. m \<notin> log_area s \<longrightarrow> blk s1 m = blk s m))"
  proof (rule wp_mono)
    fix s1
    assume s1: "quiet s1 \<and> log_frame t s1 \<and> log s1 = (log t)\<lparr>l_lh := (l_lh (log t))\<lparr>lh_n := 0\<rparr>\<rparr> \<and>
      (\<forall>m. m \<notin> log_area t \<longrightarrow> blk s1 m = blk t m)"
    then have la: "log_area s1 = log_area t" "log_area (s1\<lparr>log := (log s1)\<lparr>l_committing := False\<rparr>\<rparr>) = log_area s"
      using a by (simp_all add: t_def log_area_def log_blk_def)
    have "log_frame s t" by (simp add: t_def)
    then have "log_frame s s1" using s1 log_frame_trans by blast
    then show "log_idle (s1\<lparr>log := (log s1)\<lparr>l_committing := False\<rparr>\<rparr>) \<and> log_frame s s1 \<and> log_area s1 = log_area s \<and>
      l_start (log s1) = l_start (log s) \<and> l_size (log s1) = l_size (log s) \<and> (\<forall>m. m \<notin> log_area s \<longrightarrow> blk s1 m = blk s m)"
      using s1 la a s by (simp add: log_idle_def t_def tx_inv_def log_layout_def)
  qed
  then show ?thesis
    using s(3,4) by (auto simp: end_op_def Let_def t_def [symmetric] elim!: wp_mono)
qed

lemma readsb_spec:
  assumes "quiet s"
  shows "wp (readsb s) (\<lambda>(sb, s'). sb = decode_sb (blk s 1) \<and> quiet s' \<and> blk s' = blk s \<and> bio_frame s s')"
proof -
  have "bio_inv s" "can_read s 1" using assms quiet_can_read [of s 1] by (simp_all add: quiet_def)
  from bc.access [OF this] show ?thesis
    using assms by (auto simp: readsb_def quiet_def case_prod_unfold elim!: wp_mono)
qed

lemma log_area_start: "l_start (log s') = l_start (log s) \<Longrightarrow> log_blk s' = log_blk s \<and> log_area s' = log_area s"
  by (simp add: log_blk_def log_area_def fun_eq_iff image_def)

text \<open>
  Replaying the header of a committed transaction, whatever the home locations hold.
\<close>

lemma recover_replays:
  assumes s: "log_wf s" "log_layout s"
    and v: "quiet v" "l_start (log v) = l_start (log s)"
    and hd: "head_n (blk v (l_start (log s))) = lh_n (l_lh (log s))"
      "\<And>i. i < lhn s \<Longrightarrow> head_block (blk v (l_start (log s))) i = lhb s i"
    and cp: "\<And>i. i < lhn s \<Longrightarrow> blk v (log_blk s i) = c (lhb s i)"
    and out: "\<And>m. m \<notin> logged s \<Longrightarrow> m \<notin> log_area s \<Longrightarrow> blk v m = c m"
  shows "wp (recover_from_log v) (\<lambda>v'. quiet v' \<and> (\<forall>m. m \<notin> log_area s \<longrightarrow> blk v' m = c m) \<and>
     lh_n (l_lh (log v')) = 0 \<and> head_n (blk v' (l_start (log s))) = 0)"
proof -
  let ?d = "blk v (l_start (log s))"
  have w: "0 \<le> lh_n (l_lh (log s))" "lhn s \<le> LOGSIZE" "inj_on (lhb s) {..<lhn s}" using s by (auto simp: log_wf_def)
  have a: "log_blk v = log_blk s" "log_area v = log_area s" using log_area_start [OF v(2)] by auto
  have img: "head_block ?d ` {..<lhn s} = logged s" using hd(2) by (auto simp: logged_def)
  have inj: "inj_on (head_block ?d) {..<lhn s}" using w(3) hd(2) by (auto simp: inj_on_def)
  have "wp (recover_from_log v) (\<lambda>s'. quiet s' \<and> log_frame v s' \<and> lh_n (l_lh (log s')) = 0 \<and>
    (let d = blk v (l_start (log v)) in
    (\<forall>i < nat (head_n d). blk s' (head_block d i) = blk v (log_blk v i)) \<and>
    (\<forall>m. m \<notin> head_block d ` {..<nat (head_n d)} \<and> m \<notin> log_area v \<longrightarrow> blk s' m = blk v m) \<and>
    head_n (blk s' (l_start (log v))) = 0))"
    by (rule recover_spec) (use v a hd inj w log_layoutD [OF s(2)] in auto)
  then show ?thesis
  proof (rule wp_mono, goal_cases)
    case (1 v')
    then have i: "blk v' (lhb s i) = c (lhb s i)" if "i < lhn s" for i
      using that v a hd cp by (simp add: Let_def)
    have o: "blk v' m = c m" if "m \<notin> logged s" "m \<notin> log_area s" for m
      using 1 that v a hd img out by (simp add: Let_def)
    have "blk v' m = c m" if "m \<notin> log_area s" for m
      using i o [of m] that by (cases "m \<in> logged s") (auto simp: logged_def)
    then show ?case using 1 v by (simp add: Let_def)
  qed
qed

lemma initlog_unfold:
  assumes "quiet t"
    and "\<And>v. quiet v \<Longrightarrow> blk v = blk t \<Longrightarrow> l_start (log v) = sb_logstart (decode_sb (blk t 1)) \<Longrightarrow>
      l_size (log v) = sint (sb_nlog (decode_sb (blk t 1))) \<Longrightarrow> wp (recover_from_log v) P"
  shows "wp (initlog t) P"
proof -
  have "wp (rbind (readsb t) (\<lambda>(sb, s).
      recover_from_log (s\<lparr>log := (log s)\<lparr>l_start := sb_logstart sb, l_size := sint (sb_nlog sb)\<rparr>\<rparr>))) P"
    using readsb_spec [OF assms(1)] by (rule wp_mono_bind) (use assms(2) in auto)
  then show ?thesis by (simp add: initlog_def LOGSIZE_def BSIZE_def)
qed

section \<open>Properties\<close>



text \<open>
  Log absorption. Writing a held block through \<open>log_write\<close> inside a transaction with room for one
  more block succeeds; it changes exactly that block's logical contents, and enters the block in
  the header unless it is already there, in which case no room is used; the header stays
  duplicate-free and within the log.
\<close>

theorem log_write_absorbs:
  assumes "tx_inv s" "holds s b n" "n \<notin> log_area s" "0 < room s" "length d = BSIZE"
  shows "\<exists>s'. log_write b (set_data b d s) = Ok s' \<and> tx_inv s' \<and> blk s' = (blk s)(n := d) \<and>
     logged s' = insert n (logged s) \<and> room s' = (if n \<in> logged s then room s else room s - 1)"
  using log_write_spec [OF assms] by (auto simp: wp_iff)

text \<open>A log at block 2 with one block, 500, in the current transaction.\<close>

definition demo_log :: "int \<Rightarrow> nat \<Rightarrow> log_state" where
  "demo_log k outs = binit \<lparr>bcache = (\<lambda>_. zero_buf), disk = (\<lambda>n. put32 16 2 (replicate BSIZE 0)), dev_ok = (\<lambda>_. True),
     log = \<lparr>l_start = 2, l_size = 100, l_outstanding = int outs, l_committing = False,
       l_lh = \<lparr>lh_n = k, lh_block = (\<lambda>_. 500)\<rparr>\<rparr>\<rparr>"

lemma demo_log_log [simp]: "log (demo_log k outs) = \<lparr>l_start = 2, l_size = 100, l_outstanding = int outs, l_committing = False,
       l_lh = \<lparr>lh_n = k, lh_block = (\<lambda>_. 500)\<rparr>\<rparr>"
  by (simp add: demo_log_def binit_def)

lemma demo_log_bio: "bio_inv (demo_log k outs)" "refs (demo_log k outs) = (\<lambda>_. 0)"
  "blk (demo_log k outs) = (\<lambda>n. put32 16 2 (replicate BSIZE 0))" "quiet (demo_log k outs)"
  unfolding demo_log_def quiet_def by (simp_all add: binit_inv BSIZE_def)



theorem log_write_absorbs_witness:
  "\<exists>b s s'. bread 500 (demo_log 1 1) = Ok (b, s) \<and>
     log_write b (set_data b (replicate BSIZE 7) s) = Ok s' \<and> tx_inv s' \<and>
     blk s' = (blk s)(500 := replicate BSIZE 7) \<and> logged s' = insert 500 (logged s) \<and>
     room s' = (if 500 \<in> logged s then room s else room s - 1)"
proof -
  have inv: "tx_inv (demo_log 1 1)" "500 \<notin> log_area (demo_log 1 1)" "can_read (demo_log 1 1) 500" "room (demo_log 1 1) = 98"
    by (simp_all add: tx_inv_def demo_log_bio log_wf_def log_layout_def log_area_unat inj_on_def LOGSIZE_def room_def quiet_can_read)
  then obtain b s where "bread 500 (demo_log 1 1) = Ok (b, s)" "tx_inv s" "holds s b 500" "500 \<notin> log_area s" "room s = 98"
    using lc.rd_ok [of "demo_log 1 1" 500] by (auto simp: wp_iff)
  then show ?thesis
    using log_write_absorbs [of s b 500 "replicate BSIZE 7"] by auto
qed

end
