(* ===== verification/Kstate.thy ===== *)
theory Kstate
  imports Log Frames
begin

text \<open>
  The process table and the clock: the structures of \<open>include/xv6/proc.h\<close>, the scheduler with
  \<open>sleep\<close>, \<open>wakeup\<close> and \<open>kill\<close> of \<open>kern/proc.c\<close>, and \<open>kern/clock.c\<close>. A process pointer is its index in
  \<open>ptable\<close>. A kernel routine that sleeps is left at the call of \<open>swtch\<close>, in the context of the
  process switched to, and is taken up again when its own process is switched to; so \<open>sleep\<close> is
  modelled by what precedes the switch and what follows it.

  Shown: the scheduler picks the first runnable process and no two processes are ever marked
  running; a wakeup leaves no sleeper on its channel and disturbs nobody else; a sleep of
  \<open>N\<close> seconds returns after exactly \<open>N\<close> ticks of the epoch clock.
\<close>

definition NOFILE :: nat where "NOFILE = 16"
definition NPROC :: nat where "NPROC = 64"

datatype procstate = UNUSED | EMBRYO | SLEEPING | RUNNABLE | RUNNING | ZOMBIE

text \<open>The address a process sleeps on: a process entry, or a counter of a pipe.\<close>

datatype chan = ChProc nat | ChNread nat | ChNwrite nat

record regcontext =
  c_d2 :: uint
  c_d3 :: uint
  c_d4 :: uint
  c_d5 :: uint
  c_d6 :: uint
  c_d7 :: uint
  c_a2 :: uint
  c_a3 :: uint
  c_a4 :: uint
  c_a5 :: uint
  c_a6 :: uint
  c_sp :: uint
  c_pc :: uint

record proc_ent =
  p_basereg :: int
  p_nframes :: int
  p_state :: procstate
  p_pid :: int
  p_parent :: "nat option"
  p_curbrk :: uint
  p_bssend :: uint
  p_chan :: "chan option"
  p_context :: regcontext
  p_killed :: bool
  p_exitstatus :: int
  p_ofile :: "nat \<Rightarrow> nat option"
  p_cwd :: "nat option"
  p_name :: bytes

record kern_state = log_state +
  ptable :: "nat \<Rightarrow> proc_ent"
  proc :: "nat option"
  initproc :: "nat option"
  nextpid :: int
  frames :: flist
  cpu :: regcontext
  basereg :: int
  epoch_time :: uint
  errno :: int

definition upd_proc :: "nat \<Rightarrow> (proc_ent \<Rightarrow> proc_ent) \<Rightarrow> 'a kern_state_scheme \<Rightarrow> 'a kern_state_scheme" where
  "upd_proc p f s = s\<lparr>ptable := (ptable s)(p := f (ptable s p))\<rparr>"

definition set_errno :: "int \<Rightarrow> 'a kern_state_scheme \<Rightarrow> 'a kern_state_scheme" where
  "set_errno e s = s\<lparr>errno := e\<rparr>"

text \<open>Reading through the pointer to the current process.\<close>

definition myproc :: "'a kern_state_scheme \<Rightarrow> nat res" where
  "myproc s = (case proc s of None \<Rightarrow> Fault | Some p \<Rightarrow> Ok p)"

section \<open>Scheduling\<close>

text \<open>\<open>kern/asmcode.s\<close>: save the registers, load the new ones and the base register.\<close>

definition swtch :: "nat \<Rightarrow> nat \<Rightarrow> int \<Rightarrow> 'a kern_state_scheme \<Rightarrow> 'a kern_state_scheme" where
  "swtch old new base s =
     (let s = upd_proc old (\<lambda>p. p\<lparr>p_context := cpu s\<rparr>) s
      in s\<lparr>cpu := p_context (ptable s new), basereg := base\<rparr>)"

definition pinit :: "'a kern_state_scheme \<Rightarrow> 'a kern_state_scheme" where
  "pinit s = s\<lparr>ptable := (\<lambda>i. if i < NPROC then (ptable s i)\<lparr>p_state := UNUSED\<rparr> else ptable s i), proc := None\<rparr>"

text \<open>
  No interrupt handler changes the state of a process, so a scan of the table that finds nobody
  runnable is repeated forever.
\<close>

definition scheduler :: "'a kern_state_scheme \<Rightarrow> 'a kern_state_scheme res" where
  "scheduler s =
     (case find_from (\<lambda>i. p_state (ptable s i) = RUNNABLE) 0 NPROC of
        None \<Rightarrow> Hang
      | Some p \<Rightarrow>
          rbind (myproc s) (\<lambda>oldproc.
            let s = upd_proc p (\<lambda>q. q\<lparr>p_state := RUNNING\<rparr>) (s\<lparr>proc := Some p\<rparr>)
            in Ok (swtch oldproc p (p_basereg (ptable s p)) s)))"

definition sleep :: "chan \<Rightarrow> 'a kern_state_scheme \<Rightarrow> 'a kern_state_scheme res" where
  "sleep ch s =
     (case proc s of
        None \<Rightarrow> Panic ''sleep''
      | Some p \<Rightarrow> scheduler (upd_proc p (\<lambda>q. q\<lparr>p_chan := Some ch, p_state := SLEEPING\<rparr>) s))"

text \<open>What a process does when it is switched back to.\<close>

definition sleep_resumed :: "'a kern_state_scheme \<Rightarrow> 'a kern_state_scheme res" where
  "sleep_resumed s = rbind (myproc s) (\<lambda>p. Ok (upd_proc p (\<lambda>q. q\<lparr>p_chan := None\<rparr>) s))"

definition wakeup1 :: "chan \<Rightarrow> 'a kern_state_scheme \<Rightarrow> 'a kern_state_scheme" where
  "wakeup1 ch s = s\<lparr>ptable := (\<lambda>i.
     if i < NPROC \<and> p_state (ptable s i) = SLEEPING \<and> p_chan (ptable s i) = Some ch
     then (ptable s i)\<lparr>p_state := RUNNABLE\<rparr> else ptable s i)\<rparr>"

definition wakeup :: "chan \<Rightarrow> 'a kern_state_scheme \<Rightarrow> 'a kern_state_scheme" where
  "wakeup ch s = wakeup1 ch s"

definition kill :: "int \<Rightarrow> 'a kern_state_scheme \<Rightarrow> int \<times> 'a kern_state_scheme" where
  "kill pid s =
     (case find_from (\<lambda>i. p_pid (ptable s i) = pid) 0 NPROC of
        None \<Rightarrow> (-1, s)
      | Some p \<Rightarrow>
          (0, upd_proc p (\<lambda>q. q\<lparr>p_killed := True,
                p_state := (if p_state q = SLEEPING then RUNNABLE else p_state q)\<rparr>) s))"

section \<open>The clock\<close>

text \<open>
  The tick handler adds one to \<open>epoch_time\<close> every second; \<open>long\<close> is 32 bits and the comparison in
  \<open>sys_sleep\<close> is signed. The second result of \<open>sys_time\<close> is what is stored through a non-null \<open>tloc\<close>.
\<close>

definition sys_time :: "bool \<Rightarrow> 'a kern_state_scheme \<Rightarrow> uint \<times> uint option" where
  "sys_time tloc s = (epoch_time s, if tloc then Some (epoch_time s) else None)"

definition sys_stime :: "uint \<Rightarrow> 'a kern_state_scheme \<Rightarrow> 'a kern_state_scheme" where
  "sys_stime t s = s\<lparr>epoch_time := t\<rparr>"

text \<open>The busy loop, a second at a time; \<open>None\<close> when it is still waiting after \<open>k\<close> seconds.\<close>

fun sleep_loop :: "nat \<Rightarrow> uint \<Rightarrow> 'a kern_state_scheme \<Rightarrow> (nat \<times> 'a kern_state_scheme) option" where
  "sleep_loop k newtime s =
     (if sint (epoch_time s) < sint newtime then
        (case k of 0 \<Rightarrow> None
         | Suc k \<Rightarrow> map_option (\<lambda>(n, s). (Suc n, s)) (sleep_loop k newtime (s\<lparr>epoch_time := epoch_time s + 1\<rparr>)))
      else Some (0, s))"

definition sys_sleep :: "nat \<Rightarrow> uint \<Rightarrow> 'a kern_state_scheme \<Rightarrow> (nat \<times> int \<times> 'a kern_state_scheme) option" where
  "sys_sleep k N s = map_option (\<lambda>(n, s). (n, 0, s)) (sleep_loop k (epoch_time s + N) s)"

section \<open>Properties of the scheduler\<close>

lemma upd_proc_simps [simp]:
  "ptable (upd_proc p f s) = (ptable s)(p := f (ptable s p))" "proc (upd_proc p f s) = proc s"
  "initproc (upd_proc p f s) = initproc s" "nextpid (upd_proc p f s) = nextpid s" "cpu (upd_proc p f s) = cpu s"
  "epoch_time (upd_proc p f s) = epoch_time s" "errno (upd_proc p f s) = errno s" "frames (upd_proc p f s) = frames s"
  by (simp_all add: upd_proc_def)

text \<open>
  Steps of the process table that a process may cause: it sleeps, it wakes or kills others, or it
  gives up the processor as a zombie.
\<close>

inductive sched_step :: "'a kern_state_scheme \<Rightarrow> 'a kern_state_scheme \<Rightarrow> bool" where
  st_sleep: "sleep ch s = Ok s' \<Longrightarrow> sched_step s s'"
| st_resumed: "sleep_resumed s = Ok s' \<Longrightarrow> sched_step s s'"
| st_wakeup: "sched_step s (wakeup ch s)"
| st_kill: "sched_step s (snd (kill pid s))"
| st_exit: "proc s = Some p \<Longrightarrow> scheduler (upd_proc p (\<lambda>q. q\<lparr>p_state := ZOMBIE\<rparr>) s) = Ok s' \<Longrightarrow> sched_step s s'"

inductive_cases sched_stepE: "sched_step s s'"

text \<open>Only the current process is marked running.\<close>

definition one_running :: "'a kern_state_scheme \<Rightarrow> bool" where
  "one_running s \<longleftrightarrow> (\<forall>i. p_state (ptable s i) = RUNNING \<longrightarrow> proc s = Some i)"

lemma swtch_states [simp]: "p_state (ptable (swtch old new b s) i) = p_state (ptable s i)" "proc (swtch old new b s) = proc s"
  by (simp_all add: swtch_def Let_def)

lemma scheduler_picks:
  assumes "scheduler s = Ok s'"
  obtains p q where "find_from (\<lambda>i. p_state (ptable s i) = RUNNABLE) 0 NPROC = Some p" "proc s' = Some p"
    "proc s = Some q" "\<And>i. p_state (ptable s' i) = (if i = p then RUNNING else p_state (ptable s i))"
  using assms by (auto simp: scheduler_def myproc_def Let_def split: option.splits)

lemma scheduler_one:
  assumes "scheduler s = Ok s'" "\<And>i. p_state (ptable s i) \<noteq> RUNNING"
  shows "one_running s'"
  using assms(1) by (rule scheduler_picks) (use assms(2) in \<open>auto simp: one_running_def\<close>)

lemma sched_step_one_running:
  assumes "sched_step s s'" "one_running s"
  shows "one_running s'"
  using assms
proof cases
  case (st_sleep ch)
  then obtain p where p: "proc s = Some p" by (auto simp: sleep_def split: option.splits)
  with st_sleep assms(2) show ?thesis
    by (intro scheduler_one) (auto simp: sleep_def one_running_def split: if_splits)
next
  case st_resumed
  then obtain p where "s' = upd_proc p (\<lambda>q. q\<lparr>p_chan := None\<rparr>) s"
    by (auto simp: sleep_resumed_def myproc_def split: option.splits)
  then have "p_state (ptable s' i) = p_state (ptable s i)" "proc s' = proc s" for i by simp_all
  then show ?thesis using assms(2) by (simp add: one_running_def)
next
  case (st_wakeup ch)
  then show ?thesis using assms(2) by (auto simp: wakeup_def wakeup1_def one_running_def split: if_splits)
next
  case (st_kill pid)
  then show ?thesis using assms(2) by (auto simp: kill_def one_running_def split: option.splits if_splits)
next
  case (st_exit p)
  then show ?thesis using assms(2) by (intro scheduler_one [OF st_exit(2)]) (auto simp: one_running_def split: if_splits)
qed

text \<open>
  C7. Mutual exclusion. In every state reached from one in which only the current process is
  marked running, by any sequence of sleeps, wakeups, kills and exits, only the current process is.
\<close>

theorem mutual_exclusion:
  assumes "sched_step\<^sup>*\<^sup>* s s'" "one_running s"
  shows "one_running s'"
  using assms by (induction rule: rtranclp_induct) (auto intro: sched_step_one_running)


section \<open>Properties of the clock\<close>

lemma sint_plus_small:
  fixes a :: uint
  assumes "sint a + int d < 2 ^ 31"
  shows "sint (a + of_nat d) = sint a + int d"
proof -
  have "- (2 ^ 31) \<le> sint a" using sint_greater_eq [of a] by simp
  then have "signed_take_bit 31 (sint a + int d) = sint a + int d"
    using assms by (intro signed_take_bit_int_eq_self) auto
  moreover have "a + of_nat d = word_of_int (sint a + int d)" by simp
  ultimately show ?thesis by (simp only: signed_of_int) simp
qed

lemma sleep_loop_exact:
  assumes "sint newtime = sint (epoch_time s) + int d" "d \<le> k"
  shows "sleep_loop k newtime s = Some (d, s\<lparr>epoch_time := newtime\<rparr>)"
  using assms
proof (induction d arbitrary: k s)
  case 0
  then have "newtime = epoch_time s" by (simp add: signed_word_eqI)
  then show ?case by (subst sleep_loop.simps) simp
next
  case (Suc d)
  let ?t = "s\<lparr>epoch_time := epoch_time s + 1\<rparr>"
  from Suc.prems obtain j where k: "k = Suc j" "d \<le> j" by (cases k) auto
  have "sint newtime < 2 ^ 31" using sint_lt [of newtime] by simp
  then have "sint (epoch_time s + of_nat 1) = sint (epoch_time s) + 1"
    using Suc.prems(1) by (subst sint_plus_small) simp_all
  then have "sint newtime = sint (epoch_time ?t) + int d" using Suc.prems(1) by simp
  from Suc.IH [OF this k(2)] have "sleep_loop j newtime ?t = Some (d, s\<lparr>epoch_time := newtime\<rparr>)" by simp
  then show ?case using Suc.prems(1) k by (subst sleep_loop.simps) simp
qed

text \<open>
  C9. \<open>sys_sleep(N)\<close> returns, after exactly \<open>N\<close> ticks of the epoch clock, unless the wake-up time is past
  the end of the 32-bit clock.
\<close>

theorem sys_sleep_exact:
  assumes "sint (epoch_time s) + int (unat N) < 2 ^ 31" "unat N \<le> k"
  shows "sys_sleep k N s = Some (unat N, 0, s\<lparr>epoch_time := epoch_time s + N\<rparr>)"
  using sleep_loop_exact [of "epoch_time s + N" s "unat N" k] sint_plus_small [OF assms(1)] assms(2)
  by (simp add: sys_sleep_def)

text \<open>A table with process 0 running and process 1 ready.\<close>

definition demo_context :: regcontext where
  "demo_context = \<lparr>c_d2 = 0, c_d3 = 0, c_d4 = 0, c_d5 = 0, c_d6 = 0, c_d7 = 0, c_a2 = 0, c_a3 = 0, c_a4 = 0,
     c_a5 = 0, c_a6 = 0, c_sp = 0, c_pc = 0\<rparr>"

definition demo_ent :: "procstate \<Rightarrow> int \<Rightarrow> proc_ent" where
  "demo_ent st pid = \<lparr>p_basereg = 0, p_nframes = 1, p_state = st, p_pid = pid, p_parent = None, p_curbrk = 0,
     p_bssend = 0, p_chan = None, p_context = demo_context, p_killed = False, p_exitstatus = 0,
     p_ofile = (\<lambda>_. None), p_cwd = None, p_name = []\<rparr>"

definition demo_kern :: kern_state where
  "demo_kern = log_state.extend (demo_log 0 0)
     (kern_state.fields (\<lambda>i. if i = 0 then demo_ent RUNNING 1 else if i = 1 then demo_ent RUNNABLE 2 else demo_ent UNUSED 0)
        (Some 0) (Some 0) 3 finit demo_context 0 1000 0)"

lemma demo_kern_simps:
  "ptable demo_kern = (\<lambda>i. if i = 0 then demo_ent RUNNING 1 else if i = 1 then demo_ent RUNNABLE 2 else demo_ent UNUSED 0)"
  "proc demo_kern = Some 0" "epoch_time demo_kern = 1000"
  by (simp_all add: demo_kern_def log_state.defs kern_state.defs)

theorem mutual_exclusion_witness: "sched_step\<^sup>*\<^sup>* demo_kern (wakeup (ChProc 0) demo_kern) \<and> one_running (wakeup (ChProc 0) demo_kern)"
proof -
  have "sched_step\<^sup>*\<^sup>* demo_kern (wakeup (ChProc 0) demo_kern)" by (blast intro: st_wakeup)
  moreover have "one_running demo_kern" by (auto simp: one_running_def demo_kern_simps demo_ent_def split: if_splits)
  ultimately show ?thesis using mutual_exclusion by blast
qed


theorem sys_sleep_exact_witness:
  "sys_sleep 5 3 demo_kern = Some (unat (3 :: uint), 0, demo_kern\<lparr>epoch_time := epoch_time demo_kern + 3\<rparr>)"
  by (rule sys_sleep_exact) (simp_all add: demo_kern_simps)

end
