(* ===== verification/Kstring.thy ===== *)
theory Kstring
  imports Prelude
begin

text \<open>
  \<open>kern/string.c\<close>. A \<open>char *\<close> argument is the list of bytes from the pointer up to the end of the
  string or array it points into; the terminating NUL is what is read at the end of the list. A
  routine that writes through a pointer returns the bytes it writes, in order from the pointer.

  The part of a string the bounded routines look at is \<open>cname n p\<close>: at most \<open>n\<close> bytes, up to the
  first NUL. Shown: \<open>strncmp\<close> compares exactly these parts, and orders them; \<open>strncpy\<close> writes exactly
  \<open>n\<close> bytes and keeps the part; \<open>safestrcpy\<close> always terminates and never writes more than \<open>n\<close> bytes.
\<close>

definition deref :: "bytes \<Rightarrow> uchar" where
  "deref p = (case p of [] \<Rightarrow> 0 | c # _ \<Rightarrow> c)"

lemma deref_simps [simp]: "deref [] = 0" "deref (c # p) = c"
  by (simp_all add: deref_def)

fun memcmp :: "bytes \<Rightarrow> bytes \<Rightarrow> nat \<Rightarrow> int" where
  "memcmp s1 s2 0 = 0"
| "memcmp s1 s2 (Suc n) =
     (if deref s1 \<noteq> deref s2 then uint (deref s1) - uint (deref s2) else memcmp (tl s1) (tl s2) n)"

text \<open>\<open>memcpy\<close> calls \<open>memmove\<close>: the first \<open>n\<close> bytes of \<open>dst\<close> become those of \<open>src\<close>.\<close>

definition memcpy :: "bytes \<Rightarrow> bytes \<Rightarrow> nat \<Rightarrow> bytes" where
  "memcpy dst src n = patch 0 (take n src) dst"

fun strncmp :: "bytes \<Rightarrow> bytes \<Rightarrow> nat \<Rightarrow> int" where
  "strncmp p q 0 = 0"
| "strncmp p q (Suc n) =
     (if deref p \<noteq> 0 \<and> deref p = deref q then strncmp (tl p) (tl q) n
      else uint (deref p) - uint (deref q))"

text \<open>The bytes written to \<open>s\<close>; a count that is not positive writes nothing.\<close>

fun strncpy_bytes :: "bytes \<Rightarrow> nat \<Rightarrow> bytes" where
  "strncpy_bytes t 0 = []"
| "strncpy_bytes t (Suc n) =
     (if deref t = 0 then 0 # replicate n 0 else deref t # strncpy_bytes (tl t) n)"

definition strncpy :: "bytes \<Rightarrow> bytes \<Rightarrow> int \<Rightarrow> bytes" where
  "strncpy s t n = patch 0 (strncpy_bytes t (nat n)) s"

text \<open>
  \<open>while (--n > 0 && (*s++ = *t++) != 0); *s = 0;\<close> with \<open>k\<close> for \<open>n - 1\<close>: when the NUL has been copied,
  a second one is written after it.
\<close>

fun safestrcpy_bytes :: "bytes \<Rightarrow> nat \<Rightarrow> bytes" where
  "safestrcpy_bytes t 0 = [0]"
| "safestrcpy_bytes t (Suc k) =
     (if deref t = 0 then [0, 0] else deref t # safestrcpy_bytes (tl t) k)"

definition safestrcpy :: "bytes \<Rightarrow> bytes \<Rightarrow> int \<Rightarrow> bytes" where
  "safestrcpy s t n = (if n \<le> 0 then s else patch 0 (safestrcpy_bytes t (nat (n - 1))) s)"

fun strlen :: "bytes \<Rightarrow> nat" where
  "strlen [] = 0"
| "strlen (c # s) = (if c = 0 then 0 else Suc (strlen s))"

section \<open>Names\<close>

fun cname :: "nat \<Rightarrow> bytes \<Rightarrow> bytes" where
  "cname 0 p = []"
| "cname (Suc n) p = (if deref p = 0 then [] else deref p # cname n (tl p))"

lemma cname_take: "cname n p = takeWhile (\<lambda>c. c \<noteq> 0) (take n p)"
proof (induction n arbitrary: p)
  case (Suc n)
  then show ?case by (cases p) auto
qed simp

lemma length_cname: "length (cname n p) \<le> n"
  by (induction n arbitrary: p) auto

lemma cname_nul_free: "0 \<notin> set (cname n p)"
  by (auto simp: cname_take dest: set_takeWhileD)

lemma strlen_takeWhile: "strlen s = length (takeWhile (\<lambda>c. c \<noteq> 0) s)"
  by (induction s) auto

lemma strncmp_eq_0: "strncmp p q n = 0 \<longleftrightarrow> cname n p = cname n q"
proof (induction n arbitrary: p q)
  case (Suc n)
  then show ?case by (auto simp: word_uint_eq_iff)
qed simp

lemma strncmp_antisym: "strncmp q p n = - strncmp p q n"
proof (induction n arbitrary: p q)
  case (Suc n)
  show ?case using Suc [of "tl p" "tl q"] by (cases "deref p = deref q") simp_all
qed simp

text \<open>The order of \<open>strncmp\<close> is the lexicographic order of the names, by unsigned bytes.\<close>

fun lex_less :: "bytes \<Rightarrow> bytes \<Rightarrow> bool" where
  "lex_less xs [] = False"
| "lex_less [] (y # ys) = True"
| "lex_less (x # xs) (y # ys) = (x < y \<or> x = y \<and> lex_less xs ys)"

lemma strncmp_neg: "strncmp p q n < 0 \<longleftrightarrow> lex_less (cname n p) (cname n q)"
proof (induction n arbitrary: p q)
  case (Suc n)
  have pos: "0 \<le> uint c" for c :: uchar by simp
  show ?case
  proof (cases "deref p = 0 \<or> deref q = 0")
    case True
    then show ?thesis
      using pos [of "deref q"] pos [of "deref p"] by (auto simp: word_uint_eq_iff less_le)
  next
    case False
    then show ?thesis by (auto simp: Suc word_less_def)
  qed
qed simp

lemma length_strncpy_bytes [simp]: "length (strncpy_bytes t n) = n"
  by (induction t n rule: strncpy_bytes.induct) auto

lemma cname_strncpy: "cname n (strncpy_bytes t n) = cname n t"
  by (induction t n rule: strncpy_bytes.induct) auto

lemma safestrcpy_length: "length (safestrcpy_bytes t k) \<le> Suc k"
  by (induction t k rule: safestrcpy_bytes.induct) auto

lemma safestrcpy_name: "takeWhile (\<lambda>c. c \<noteq> 0) (safestrcpy_bytes t k) = cname k t \<and> 0 \<in> set (safestrcpy_bytes t k)"
  by (induction t k rule: safestrcpy_bytes.induct) auto

lemma memcmp_eq_0: "length s1 \<ge> n \<Longrightarrow> length s2 \<ge> n \<Longrightarrow> memcmp s1 s2 n = 0 \<longleftrightarrow> take n s1 = take n s2"
proof (induction s1 s2 n rule: memcmp.induct)
  case (2 s1 s2 n)
  then show ?case by (cases s1; cases s2) (auto simp: word_uint_eq_iff)
qed simp

lemma strncmp_order:
  "(strncmp p q n = 0 \<longleftrightarrow> cname n p = cname n q) \<and> (strncmp p q n < 0 \<longleftrightarrow> lex_less (cname n p) (cname n q)) \<and>
   strncmp q p n = - strncmp p q n"
  by (simp add: strncmp_eq_0 strncmp_neg strncmp_antisym [of q p])

lemma strncpy_fills:
  assumes "nat n \<le> length s"
  shows "length (strncpy s t n) = length s \<and> cname (nat n) (strncpy s t n) = cname (nat n) t \<and> drop (nat n) (strncpy s t n) = drop (nat n) s"
proof -
  have "cname (nat n) (strncpy s t n) = cname (nat n) (strncpy_bytes t (nat n))"
    using assms by (simp add: strncpy_def patch_def cname_take)
  then show ?thesis using assms by (simp add: strncpy_def patch_def cname_strncpy)
qed

lemma safestrcpy_terminates:
  assumes "0 < n" "nat n \<le> length s"
  shows "length (safestrcpy s t n) = length s \<and> drop (nat n) (safestrcpy s t n) = drop (nat n) s \<and>
    takeWhile (\<lambda>c. c \<noteq> 0) (safestrcpy s t n) = cname (nat n - 1) t \<and> strlen (safestrcpy s t n) < nat n"
proof -
  let ?w = "safestrcpy_bytes t (nat (n - 1))"
  have k: "nat (n - 1) = nat n - 1" using assms by simp
  have le: "length ?w \<le> nat n" using safestrcpy_length [of t "nat (n - 1)"] assms(1) by simp
  have tw: "takeWhile (\<lambda>c. c \<noteq> 0) (safestrcpy s t n) = cname (nat n - 1) t"
    using assms(1) safestrcpy_name [of t "nat (n - 1)"] k by (auto simp: safestrcpy_def patch_def takeWhile_append1)
  then have "strlen (safestrcpy s t n) < nat n"
    using length_cname [of "nat n - 1" t] assms(1) by (simp add: strlen_takeWhile)
  then show ?thesis using assms le tw by (auto simp: safestrcpy_def patch_def)
qed

text \<open>
  The string routines of the kernel. The bounded copies stay within the destination: \<open>strncpy\<close> writes exactly the \<open>n\<close> bytes it
  may and keeps the name, and \<open>safestrcpy\<close> leaves a terminated string that holds at most \<open>n - 1\<close> bytes of the source, whatever the
  source. \<open>strncmp\<close> decides equality of names and orders them: zero exactly for equal names, negative exactly when the first
  precedes the second byte-wise, and antisymmetric.
\<close>

theorem string_routines:
  assumes "0 < n" "nat n \<le> length s"
  shows "length (strncpy s t n) = length s \<and> cname (nat n) (strncpy s t n) = cname (nat n) t \<and>
    drop (nat n) (strncpy s t n) = drop (nat n) s \<and>
    length (safestrcpy s t n) = length s \<and> drop (nat n) (safestrcpy s t n) = drop (nat n) s \<and>
    takeWhile (\<lambda>c. c \<noteq> 0) (safestrcpy s t n) = cname (nat n - 1) t \<and> strlen (safestrcpy s t n) < nat n \<and>
    (strncmp p q m = 0 \<longleftrightarrow> cname m p = cname m q) \<and> (strncmp p q m < 0 \<longleftrightarrow> lex_less (cname m p) (cname m q)) \<and>
    strncmp q p m = - strncmp p q m"
  using strncpy_fills [OF assms(2)] safestrcpy_terminates [OF assms] strncmp_order by blast

theorem string_routines_witness:
  "length (strncpy [1, 2, 3, 4] [7, 0] 3) = length [1, 2, 3, 4 :: uchar] \<and>
   cname (nat 3) (strncpy [1, 2, 3, 4] [7, 0] 3) = cname (nat 3) [7, 0] \<and> strlen (safestrcpy [1, 2, 3, 4] [7, 8, 9] 3) < nat 3 \<and>
   (strncmp [7, 0] [7, 8] 2 < 0 \<longleftrightarrow> lex_less (cname 2 [7, 0]) (cname 2 [7, 8]))"
  using string_routines [of 3 "[1, 2, 3, 4]" "[7, 0]" "[7, 0]" "[7, 8]" 2] string_routines [of 3 "[1, 2, 3, 4]" "[7, 8, 9]" "[7]" "[7]" 1] by simp

end
