(* ===== verification/Balloc.thy ===== *)
theory Balloc
  imports Kstate
begin

text \<open>
  The block allocator of \<open>kern/fs.c\<close>: \<open>bzero\<close>, \<open>balloc\<close> and \<open>bfree\<close> on the free-block bitmap, and the state
  of the file system. \<open>balloc\<close> starts at the place of its last success, kept in \<open>lastballoc\<close> and
  \<open>lastbi\<close>, and goes round the bitmap; both loops are bounded by the number of positions they can
  visit, so running out of fuel is looping forever.
\<close>

definition NINODE :: nat where "NINODE = 50"
definition NDIRECT :: nat where "NDIRECT = 11"
definition NINDIRECT :: nat where "NINDIRECT = BSIZE div 4"
definition IPB :: nat where "IPB = BSIZE div 64"
definition BPB :: nat where "BPB = BSIZE * 8"
definition ROOTINO :: uint where "ROOTINO = 1"

text \<open>The in-memory inode; \<open>i_addrs\<close> has \<open>NDIRECT + 1\<close> entries.\<close>

record inode =
  i_inum :: uint
  i_ref :: int
  i_valid :: bool
  i_type :: ushort
  i_major :: ushort
  i_minor :: ushort
  i_nlink :: ushort
  i_size :: uint
  i_mtime :: uint
  i_addrs :: "uint list"

record fs_state = kern_state +
  fsb :: superblock
  lastballoc :: uint
  lastbi :: nat
  icache :: "nat \<Rightarrow> inode"

definition BBLOCK :: "uint \<Rightarrow> superblock \<Rightarrow> uint" where
  "BBLOCK b sb = b div of_nat BPB + sb_bmapstart sb"

definition bzero :: "uint \<Rightarrow> 'a log_state_scheme \<Rightarrow> 'a log_state_scheme res" where
  "bzero bno s =
     rbind (bread bno s) (\<lambda>(bp, s).
     rbind (log_write bp (set_data bp (replicate BSIZE 0) s)) (\<lambda>s. Ok (brelse bp s)))"

definition bmask :: "nat \<Rightarrow> uchar" where "bmask bi = push_bit (bi mod 8) 1"

fun balloc_scan :: "nat \<Rightarrow> bytes \<Rightarrow> uint \<Rightarrow> uint \<Rightarrow> nat \<Rightarrow> nat \<Rightarrow> nat option res" where
  "balloc_scan 0 d b sz lst bi = Hang"
| "balloc_scan (Suc k) d b sz lst bi =
     (if bi div 8 \<ge> length d then Fault
      else if d ! (bi div 8) \<noteq> 0xff \<and> d ! (bi div 8) AND bmask bi = 0 then Ok (Some bi)
      else
        (let bi = (if bi + 1 \<ge> BPB \<or> b + of_nat (bi + 1) \<ge> sz then 0 else bi + 1)
         in if bi = lst then Ok None else balloc_scan k d b sz lst bi))"

fun balloc_loop :: "nat \<Rightarrow> uint \<Rightarrow> 'a fs_state_scheme \<Rightarrow> (uint \<times> 'a fs_state_scheme) res" where
  "balloc_loop 0 b s = Hang"
| "balloc_loop (Suc k) b s =
     rbind (bread (BBLOCK b (fsb s)) s) (\<lambda>(bp, s).
     rbind (balloc_scan (BPB + 1) (b_data (bcache s bp)) b (sb_size (fsb s)) (lastbi s) (lastbi s)) (\<lambda>r.
       case r of
         Some bi \<Rightarrow>
           (let d = b_data (bcache s bp);
                s = set_data bp (d[bi div 8 := d ! (bi div 8) OR bmask bi]) s
            in rbind (log_write bp s) (\<lambda>s.
               rbind (bzero (b + of_nat bi) (brelse bp s)) (\<lambda>s.
                 Ok (b + of_nat bi, s\<lparr>lastballoc := b, lastbi := bi\<rparr>))))
       | None \<Rightarrow>
           (let s = brelse bp s;
                b = b + of_nat BPB;
                b = (if b \<ge> sb_size (fsb s) then 0 else b)
            in if b = lastballoc s then Panic ''balloc: out of blocks'' else balloc_loop k b s)))"

definition balloc :: "'a fs_state_scheme \<Rightarrow> (uint \<times> 'a fs_state_scheme) res" where
  "balloc s = balloc_loop (unat (sb_size (fsb s)) div BPB + 2) (lastballoc s) s"

definition bfree :: "uint \<Rightarrow> 'a fs_state_scheme \<Rightarrow> 'a fs_state_scheme res" where
  "bfree b s =
     rbind (bread (BBLOCK b (fsb s)) s) (\<lambda>(bp, s).
       let bi = unat b mod BPB; d = b_data (bcache s bp)
       in if d ! (bi div 8) AND bmask bi = 0 then Panic ''freeing free block''
          else rbind (log_write bp (set_data bp (d[bi div 8 := d ! (bi div 8) AND NOT (bmask bi)]) s)) (\<lambda>s.
            Ok (brelse bp s)))"

section \<open>The bitmap\<close>

text \<open>Bit \<open>bi\<close> of a bitmap block.\<close>

definition used_bit :: "bytes \<Rightarrow> nat \<Rightarrow> bool" where
  "used_bit d bi \<longleftrightarrow> bit (d ! (bi div 8)) (bi mod 8)"

lemma bmask_test: "c AND bmask bi = 0 \<longleftrightarrow> \<not> bit c (bi mod 8)"
proof -
  have "bit (c AND bmask bi) n \<longleftrightarrow> n = bi mod 8 \<and> bit c n" for n
    by (auto simp: bmask_def bit_simps dest: bit_imp_le_length)
  then show ?thesis by (metis bit_0_eq bot_apply bot_bool_def bit_word_eqI)
qed

lemma full_byte: "bit (0xff :: uchar) (bi mod 8)"
proof -
  have "(0xff :: uchar) = NOT 0" by simp
  moreover have "bi mod 8 < 8" by simp
  ultimately show ?thesis by (simp only: bit_simps) simp
qed

lemma byte_free: "(c \<noteq> 0xff \<and> c AND bmask bi = 0) \<longleftrightarrow> \<not> bit (c :: uchar) (bi mod 8)"
  using full_byte bmask_test by metis

lemma used_bit_set:
  assumes "bi < BPB" "j < BPB" "length d = BSIZE"
  shows "used_bit (d[bi div 8 := d ! (bi div 8) OR bmask bi]) j \<longleftrightarrow> j = bi \<or> used_bit d j"
    "used_bit (d[bi div 8 := d ! (bi div 8) AND NOT (bmask bi)]) j \<longleftrightarrow> j \<noteq> bi \<and> used_bit d j"
proof -
  have l: "bi div 8 < length d" "j div 8 < length d" using assms by (simp_all add: BPB_def)
  have e: "j = bi \<longleftrightarrow> j div 8 = bi div 8 \<and> j mod 8 = bi mod 8"
    by (metis div_mod_decomp)
  have m: "bit (bmask bi) (j mod 8) \<longleftrightarrow> j mod 8 = bi mod 8" by (auto simp: bmask_def bit_simps)
  show "used_bit (d[bi div 8 := d ! (bi div 8) OR bmask bi]) j \<longleftrightarrow> j = bi \<or> used_bit d j"
    using l m by (cases "j div 8 = bi div 8") (auto simp: used_bit_def e bit_simps)
  show "used_bit (d[bi div 8 := d ! (bi div 8) AND NOT (bmask bi)]) j \<longleftrightarrow> j \<noteq> bi \<and> used_bit d j"
    using l m by (cases "j div 8 = bi div 8") (auto simp: used_bit_def e bit_simps)
qed

section \<open>The scan of one bitmap block\<close>

text \<open>\<open>lim\<close> is the first position past the bitmap block or the disk.\<close>

lemma scan_step:
  assumes "bi < lim" "lim \<le> BPB" "length d = BSIZE" "\<And>j. j < BPB \<Longrightarrow> (sz \<le> b + of_nat j) = (lim \<le> j)"
  shows "balloc_scan (Suc k) d b sz lst bi =
    (if \<not> used_bit d bi then Ok (Some bi)
     else let bi' = (if Suc bi = lim then 0 else Suc bi) in if bi' = lst then Ok None else balloc_scan k d b sz lst bi')"
proof -
  have bi: "\<not> length d \<le> bi div 8" using assms by (simp add: BPB_def)
  have wrap: "(BPB \<le> bi + 1 \<or> sz \<le> b + of_nat (bi + 1)) \<longleftrightarrow> Suc bi = lim"
    using assms(1,2) assms(4) [of "bi + 1"] by (cases "bi + 1 < BPB") auto
  show ?thesis
    unfolding balloc_scan.simps wrap byte_free used_bit_def [symmetric] using bi by simp
qed

lemma scan_up:
  assumes "bi < lst" "lst < lim" "lim \<le> BPB" "length d = BSIZE" "lst - bi \<le> k"
    "\<And>j. j < BPB \<Longrightarrow> (sz \<le> b + of_nat j) = (lim \<le> j)"
  shows "balloc_scan k d b sz lst bi = Ok (find_from (\<lambda>j. \<not> used_bit d j) bi lst)"
  using assms(1,5)
proof (induction k arbitrary: bi)
  case (Suc k)
  then have bi: "bi < lim" using assms(2) by simp
  have "Suc bi = lst \<Longrightarrow> find_from (\<lambda>j. \<not> used_bit d j) (Suc bi) lst = None" by (auto simp: find_from_None)
  then show ?case
    using Suc assms(2) scan_step [OF bi assms(3,4,6), of k lst]
    by (subst find_from.simps) (auto simp: Let_def simp del: balloc_scan.simps)
qed simp

lemma scan_round:
  assumes "lst \<le> bi" "bi < lim" "lim \<le> BPB" "length d = BSIZE" "lim - bi + lst \<le> k"
    "\<And>j. j < BPB \<Longrightarrow> (sz \<le> b + of_nat j) = (lim \<le> j)"
  shows "balloc_scan k d b sz lst bi =
    Ok (case find_from (\<lambda>j. \<not> used_bit d j) bi lim of None \<Rightarrow> find_from (\<lambda>j. \<not> used_bit d j) 0 lst | Some j \<Rightarrow> Some j)"
  using assms(1,2,5)
proof (induction k arbitrary: bi)
  case (Suc k)
  let ?f = "find_from (\<lambda>j. \<not> used_bit d j)"
  have zero: "?f 0 0 = None" "?f lim lim = None" by (auto simp: find_from_None)
  have "balloc_scan k d b sz lst 0 = Ok (?f 0 lst)" if "Suc bi = lim" "lst \<noteq> 0"
    using Suc.prems that assms by (intro scan_up [of _ _ lim]) auto
  moreover have "?f bi lim = (if \<not> used_bit d bi then Some bi else ?f (Suc bi) lim)"
    using Suc.prems(2) by (subst find_from.simps) simp
  ultimately show ?case
    using Suc zero scan_step [OF Suc.prems(2) assms(3,4,6), of k lst]
    by (auto simp: Let_def simp del: balloc_scan.simps)
qed simp

section \<open>Transactions seen from the file system\<close>

text \<open>Room for \<open>k\<close> more buffers to be held.\<close>

definition roomy :: "nat \<Rightarrow> 'a bio_state_scheme \<Rightarrow> bool" where
  "roomy k s \<longleftrightarrow> card (held s) + k \<le> NBUF \<and> (\<forall>n. refs s n + k \<le> 65535)"

lemma roomy_can_read: "roomy k s \<Longrightarrow> 0 < k \<Longrightarrow> n \<noteq> 0 \<Longrightarrow> can_read s n"
  unfolding roomy_def can_read_def
  by (metis (no_types, lifting) add_gr_0 less_add_same_cancel1 less_le_trans)

lemma roomy_cong: "refs s' = refs s \<Longrightarrow> roomy k s' = roomy k s"
  by (simp add: roomy_def held_def)

lemma roomy_held:
  assumes "roomy (Suc k) s" "refs s' = (refs s)(n := Suc (refs s n))" "bio_inv s"
  shows "roomy k s'"
proof -
  have "finite (held s)" using finite_held bio_inv_cache assms(3) by blast
  moreover have "held s' \<subseteq> insert n (held s)" using assms(2) by (auto simp: held_def)
  ultimately have "card (held s') \<le> card (insert n (held s))" by (intro card_mono) auto
  also have "\<dots> \<le> Suc (card (held s))" using \<open>finite (held s)\<close> by (simp add: card_insert_if)
  finally have "card (held s') \<le> Suc (card (held s))" .
  moreover have "refs s' m + k \<le> 65535" for m
    using assms(1,2) by (auto simp: roomy_def fun_upd_def intro: Suc_leD)
  ultimately show ?thesis using assms(1) by (simp add: roomy_def)
qed

lemma roomy_mono: "roomy k s \<Longrightarrow> j \<le> k \<Longrightarrow> roomy j s"
  unfolding roomy_def by (meson add_le_mono le_refl le_trans)

lemma quiet_roomy: "refs s = (\<lambda>_. 0) \<Longrightarrow> k \<le> NBUF \<Longrightarrow> roomy k s"
  by (simp add: roomy_def held_quiet NBUF_def)

lemma wp_tx_bread:
  assumes "tx_inv s" "can_read s n" "n \<notin> log_area s"
    and "\<And>b s1. tx_inv s1 \<Longrightarrow> blk s1 = blk s \<Longrightarrow> refs s1 = (refs s)(n := Suc (refs s n)) \<Longrightarrow> holds s1 b n \<Longrightarrow>
      n \<notin> log_area s1 \<Longrightarrow> b_data (bcache s1 b) = blk s n \<Longrightarrow> room s1 = room s \<Longrightarrow> tx_frame s s1 \<Longrightarrow>
      (\<And>c m. holds s c m \<Longrightarrow> holds s1 c m) \<Longrightarrow> wp (f b s1) P"
  shows "wp (rbind (bread n s) (\<lambda>(b, s1). f b s1)) P"
proof -
  have "wp (bread n s) (\<lambda>(b, s'). tx_inv s' \<and> blk s' = blk s \<and> refs s' = (refs s)(n := Suc (refs s n)) \<and>
    (holds s' b n \<and> n \<notin> log_area s') \<and> b_data (bcache s' b) = blk s n \<and> room s' = room s \<and> tx_frame s s')"
    using assms(1-3) by (intro lc.rd_ok) auto
  moreover have "wp (bread n s) (\<lambda>(b, s'). read_post n s b s')"
    using bread_spec [OF tx_inv_bio [OF assms(1)]] assms(2) by (simp add: can_read_def)
  ultimately show ?thesis using assms(4) by (auto simp: wp_iff read_post_def)
qed

lemma log_write_holds: "log_write b (set_data b d s) = Ok s' \<Longrightarrow> b_blockno (bcache s' c) = b_blockno (bcache s c)"
  by (auto simp: log_write_def Let_def set_data_def upd_buf_def split: if_splits)

lemma wp_log_write:
  assumes "tx_inv s" "holds s b n" "n \<notin> log_area s" "0 < room s" "length d = BSIZE"
    and "\<And>s1. tx_inv s1 \<Longrightarrow> blk s1 = (blk s)(n := d) \<Longrightarrow> refs s1 = refs s \<Longrightarrow> holds s1 b n \<Longrightarrow>
      n \<notin> log_area s1 \<Longrightarrow> room s \<le> Suc (room s1) \<Longrightarrow> tx_frame s s1 \<Longrightarrow>
      (\<And>c m. holds s1 c m \<longleftrightarrow> holds s c m) \<Longrightarrow> wp (f s1) P"
  shows "wp (rbind (log_write b (set_data b d s)) f) P"
proof -
  have "wp (log_write b (set_data b d s)) (\<lambda>s'. tx_inv s' \<and> blk s' = (blk s)(n := d) \<and> refs s' = refs s \<and>
    (holds s' b n \<and> n \<notin> log_area s') \<and> room s \<le> Suc (room s') \<and> tx_frame s s')"
    using assms(1-5) by (intro lc.mk_ok) auto
  then obtain s1 where s1: "log_write b (set_data b d s) = Ok s1" "tx_inv s1" "blk s1 = (blk s)(n := d)" "refs s1 = refs s"
    "holds s1 b n" "n \<notin> log_area s1" "room s \<le> Suc (room s1)" "tx_frame s s1" by (auto simp: wp_iff)
  have "holds s1 c m \<longleftrightarrow> holds s c m" for c m
    using log_write_holds [OF s1(1)] s1(4) by (auto simp: holds_def)
  then show ?thesis using assms(6) s1 by simp
qed

lemma tx_release:
  assumes "tx_inv s" "holds s b n" "n \<notin> log_area s"
  shows "tx_inv (brelse b s)" "blk (brelse b s) = blk s" "refs (brelse b s) = (refs s)(n := refs s n - 1)"
    "room (brelse b s) = room s" "tx_frame s (brelse b s)"
    "holds s c m \<Longrightarrow> 0 < refs (brelse b s) m \<Longrightarrow> holds (brelse b s) c m"
  using lc.rel_ok [of s b n] brelse_spec [OF tx_inv_bio [OF assms(1)] assms(2)] assms by (simp_all add: release_post_def holds_def)

lemma holds_refs: "holds s c m \<Longrightarrow> 0 < refs s m"
  by (simp add: holds_def)

lemma bzero_spec:
  assumes "tx_inv s" "can_read s n" "n \<notin> log_area s" "0 < room s"
  shows "wp (bzero n s) (\<lambda>s'. tx_inv s' \<and> blk s' = (blk s)(n := replicate BSIZE 0) \<and> refs s' = refs s \<and>
     room s \<le> Suc (room s') \<and> tx_frame s s' \<and> (\<forall>c m. holds s c m \<longrightarrow> holds s' c m))"
  unfolding bzero_def
proof (rule wp_tx_bread [OF assms(1-3)])
  fix bp s1
  assume s1: "tx_inv s1" "blk s1 = blk s" "refs s1 = (refs s)(n := Suc (refs s n))" "holds s1 bp n" "n \<notin> log_area s1"
    "b_data (bcache s1 bp) = blk s n" "room s1 = room s" "tx_frame s s1" and k1: "\<And>c m. holds s c m \<Longrightarrow> holds s1 c m"
  show "wp (rbind (log_write bp (set_data bp (replicate BSIZE 0) s1)) (\<lambda>s. Ok (brelse bp s))) (\<lambda>s'. tx_inv s' \<and>
     blk s' = (blk s)(n := replicate BSIZE 0) \<and> refs s' = refs s \<and> room s \<le> Suc (room s') \<and> tx_frame s s' \<and>
     (\<forall>c m. holds s c m \<longrightarrow> holds s' c m))"
  proof (rule wp_log_write [OF s1(1,4,5)])
    fix s2
    assume s2: "tx_inv s2" "blk s2 = (blk s1)(n := replicate BSIZE 0)" "refs s2 = refs s1" "holds s2 bp n" "n \<notin> log_area s2"
      "room s1 \<le> Suc (room s2)" "tx_frame s1 s2" and k2: "\<And>c m. holds s2 c m \<longleftrightarrow> holds s1 c m"
    note r = tx_release [OF s2(1,4,5)]
    have "refs (brelse bp s2) = refs s" using r(3) s2(3) s1(3) by (simp add: fun_eq_iff)
    moreover from this have "\<forall>c m. holds s c m \<longrightarrow> holds (brelse bp s2) c m" using r(6) k1 k2 holds_refs by metis
    ultimately show "wp (Ok (brelse bp s2)) (\<lambda>s'. tx_inv s' \<and>
     blk s' = (blk s)(n := replicate BSIZE 0) \<and> refs s' = refs s \<and> room s \<le> Suc (room s') \<and> tx_frame s s' \<and>
     (\<forall>c m. holds s c m \<longrightarrow> holds s' c m))"
      using r s2 s1 tx_frame_trans [OF s1(8) tx_frame_trans [OF s2(7) r(5)]] by simp
  qed (use assms(4) s1(7) in simp_all)
qed

text \<open>
  What an operation of the file system may change: the cache, the device, the list of logged
  blocks, the allocator's hints and the inode cache.
\<close>

definition fs_frame :: "'a fs_state_scheme \<Rightarrow> 'a fs_state_scheme \<Rightarrow> bool" where
  "fs_frame s s' \<longleftrightarrow> (\<exists>bc d h lb li ic. s' = s\<lparr>bcache := bc, disk := d, log := (log s)\<lparr>l_lh := h\<rparr>,
     lastballoc := lb, lastbi := li, icache := ic\<rparr>)"

lemma fs_frameI: "s' = s\<lparr>bcache := bc, disk := d, log := (log s)\<lparr>l_lh := h\<rparr>,
     lastballoc := lb, lastbi := li, icache := ic\<rparr> \<Longrightarrow> fs_frame s s'"
  unfolding fs_frame_def by blast

lemma fs_frameE:
  assumes "fs_frame s s'"
  obtains bc d h lb li ic where "s' = s\<lparr>bcache := bc, disk := d, log := (log s)\<lparr>l_lh := h\<rparr>,
     lastballoc := lb, lastbi := li, icache := ic\<rparr>"
  using assms unfolding fs_frame_def by blast

lemma fs_frame_trans: "fs_frame s t \<Longrightarrow> fs_frame t u \<Longrightarrow> fs_frame s u"
  by (elim fs_frameE) (simp add: fs_frameI)

lemma tx_fs_frame: "tx_frame s s' \<Longrightarrow> fs_frame s s'"
proof (elim tx_frameE)
  fix bc d h assume "s' = s\<lparr>bcache := bc, disk := d, log := (log s)\<lparr>l_lh := h\<rparr>\<rparr>"
  then show ?thesis by (intro fs_frameI [where lb = "lastballoc s" and li = "lastbi s" and ic = "icache s"]) simp
qed

lemma fs_frame_refl [simp]: "fs_frame s s"
  by (simp add: tx_fs_frame)

lemma fs_frame_upd [simp]: "fs_frame s t \<Longrightarrow> fs_frame s (t\<lparr>lastballoc := lb, lastbi := li\<rparr>)"
    "fs_frame s t \<Longrightarrow> fs_frame s (t\<lparr>icache := ic\<rparr>)"
proof -
  have "fs_frame t (t\<lparr>lastballoc := lb, lastbi := li\<rparr>)" for t :: "'a fs_state_scheme"
    by (rule fs_frameI [where bc = "bcache t" and d = "disk t" and h = "l_lh (log t)" and ic = "icache t"]) simp
  then show "fs_frame s t \<Longrightarrow> fs_frame s (t\<lparr>lastballoc := lb, lastbi := li\<rparr>)" by (blast intro: fs_frame_trans)
  have "fs_frame t (t\<lparr>icache := ic\<rparr>)" for t :: "'a fs_state_scheme"
    by (rule fs_frameI [where bc = "bcache t" and d = "disk t" and h = "l_lh (log t)" and lb = "lastballoc t"
          and li = "lastbi t"]) simp
  then show "fs_frame s t \<Longrightarrow> fs_frame s (t\<lparr>icache := ic\<rparr>)" by (blast intro: fs_frame_trans)
qed

lemma fs_frame_same:
  assumes "fs_frame s s'"
  shows "fsb s' = fsb s" "log_area s' = log_area s" "log_blk s' = log_blk s" "dev_ok s' = dev_ok s"
    "l_outstanding (log s') = l_outstanding (log s)" "l_committing (log s') = l_committing (log s)"
    "l_size (log s') = l_size (log s)" "l_start (log s') = l_start (log s)"
    "ptable s' = ptable s" "proc s' = proc s" "epoch_time s' = epoch_time s" "errno s' = errno s"
    "frames s' = frames s" "initproc s' = initproc s" "nextpid s' = nextpid s"
  using assms by (auto elim!: fs_frameE simp: log_area_def log_blk_def)

lemma tx_frame_fs:
  assumes "tx_frame s s'"
  shows "icache s' = icache s" "lastballoc s' = lastballoc s" "lastbi s' = lastbi s" "fsb s' = fsb s"
  using assms by (auto elim!: tx_frameE)

lemma bio_of_fs [simp]:
  "tx_inv (s\<lparr>lastballoc := lb, lastbi := li\<rparr>) = tx_inv s" "tx_inv (s\<lparr>icache := ic\<rparr>) = tx_inv s"
  "blk (s\<lparr>lastballoc := lb, lastbi := li\<rparr>) = blk s" "blk (s\<lparr>icache := ic\<rparr>) = blk s"
  "refs (s\<lparr>lastballoc := lb, lastbi := li\<rparr>) = refs s" "refs (s\<lparr>icache := ic\<rparr>) = refs s"
  "room (s\<lparr>lastballoc := lb, lastbi := li\<rparr>) = room s" "room (s\<lparr>icache := ic\<rparr>) = room s"
  "log_area (s\<lparr>lastballoc := lb, lastbi := li\<rparr>) = log_area s" "log_area (s\<lparr>icache := ic\<rparr>) = log_area s"
  "holds (s\<lparr>lastballoc := lb, lastbi := li\<rparr>) = holds s" "holds (s\<lparr>icache := ic\<rparr>) = holds s"
  by (simp_all add: tx_inv_def bio_inv_def blk_def refs_def log_wf_def log_layout_def log_area_def log_blk_def
      holds_def room_def fun_eq_iff cong: option.case_cong)

section \<open>The allocator\<close>

definition bmap_area :: "'a fs_state_scheme \<Rightarrow> uint set" where
  "bmap_area s = (\<lambda>b. BBLOCK b (fsb s)) ` {b. b < sb_size (fsb s)}"

definition used :: "'a fs_state_scheme \<Rightarrow> uint \<Rightarrow> bool" where
  "used s b \<longleftrightarrow> used_bit (blk s (BBLOCK b (fsb s))) (unat b mod BPB)"

text \<open>
  The bitmap lies outside the log, and every block the bitmap reports as free is a data block: not
  block 0, not in the log, not part of the bitmap.
\<close>

definition balloc_ok :: "'a fs_state_scheme \<Rightarrow> bool" where
  "balloc_ok s \<longleftrightarrow> unat (sb_size (fsb s)) + BPB < 2 ^ 32 \<and> 0 \<notin> bmap_area s \<and> bmap_area s \<inter> log_area s = {} \<and>
     (\<forall>b < sb_size (fsb s). \<not> used s b \<longrightarrow> b \<noteq> 0 \<and> b \<notin> log_area s \<and> b \<notin> bmap_area s)"

text \<open>The place of the last success is a position of every bitmap block.\<close>

definition hint_ok :: "'a fs_state_scheme \<Rightarrow> bool" where
  "hint_ok s \<longleftrightarrow> BPB dvd unat (lastballoc s) \<and> lastballoc s < sb_size (fsb s) \<and> lastbi s < BPB \<and>
     (\<forall>b < sb_size (fsb s). BPB dvd unat b \<longrightarrow> unat b + lastbi s < unat (sb_size (fsb s)))"

definition alloc_post :: "'a fs_state_scheme \<Rightarrow> uint \<Rightarrow> 'a fs_state_scheme \<Rightarrow> bool" where
  "alloc_post s c s' \<longleftrightarrow> tx_inv s' \<and> refs s' = refs s \<and> c < sb_size (fsb s) \<and> \<not> used s c \<and>
     (\<forall>m < sb_size (fsb s). used s' m \<longleftrightarrow> m = c \<or> used s m) \<and> blk s' c = replicate BSIZE 0 \<and>
     (\<forall>m. m \<notin> bmap_area s \<longrightarrow> m \<noteq> c \<longrightarrow> blk s' m = blk s m) \<and> room s \<le> room s' + 2 \<and>
     fs_frame s s' \<and> icache s' = icache s \<and> BPB dvd unat (lastballoc s') \<and> lastbi s' < BPB \<and>
     unat c = unat (lastballoc s') + lastbi s' \<and> (\<forall>b n. holds s b n \<longrightarrow> holds s' b n)"

lemma word_add_nat: "unat (b :: uint) + j < 2 ^ 32 \<Longrightarrow> unat (b + of_nat j) = unat b + j"
  by (simp add: unat_word_ariths unat_of_nat)

lemma BPB_pos [simp]: "0 < BPB" "BPB \<noteq> 0"
  by (simp_all add: BPB_def BSIZE_def)

lemma div_BPB_Suc: "(y + BPB) div BPB = Suc (y div BPB)"
  by (simp add: div_add_self2)

lemma dvd_step: "d dvd a \<Longrightarrow> d dvd b \<Longrightarrow> a < b \<Longrightarrow> a + d \<le> (b :: nat)"
  by (metis add.commute dvd_diff_nat dvd_imp_le le_diff_conv2 less_imp_le zero_less_diff)

lemma unat_of_nat_small: "j < 2 ^ 32 \<Longrightarrow> unat (of_nat j :: uint) = j"
  by (simp add: unat_of_nat take_bit_nat_eq_self)

lemma BBLOCK_nat: "BBLOCK b sb = of_nat (unat b div BPB) + sb_bmapstart sb"
proof -
  have "unat (of_nat BPB :: uint) = BPB" by (simp add: BPB_def BSIZE_def)
  then have "unat (b div of_nat BPB) = unat b div BPB" by (simp add: unat_div)
  then have "b div of_nat BPB = of_nat (unat b div BPB)" by (metis word_nat_of_unat_id)
  then show ?thesis by (simp add: BBLOCK_def)
qed

lemma BBLOCK_eq: "BBLOCK a sb = BBLOCK b sb \<longleftrightarrow> unat a div BPB = unat b div BPB"
proof -
  have "unat c div BPB < 2 ^ 32" for c :: uint
  proof -
    have "unat c < 2 ^ LENGTH(32)" by (rule unsigned_less)
    then show ?thesis by (intro le_less_trans [OF div_le_dividend]) simp
  qed
  then have "(of_nat (unat a div BPB) :: uint) = of_nat (unat b div BPB) \<longleftrightarrow> unat a div BPB = unat b div BPB"
    using of_nat_inj by blast
  then show ?thesis by (simp add: BBLOCK_nat)
qed

text \<open>The first position past block \<open>b\<close> of the bitmap or past the disk.\<close>

definition lim_of :: "uint \<Rightarrow> uint \<Rightarrow> nat" where
  "lim_of sz b = min BPB (unat sz - unat b)"

lemma lim_of_test:
  assumes "unat sz + BPB < 2 ^ 32" "b < sz" "j < BPB"
  shows "(sz \<le> b + of_nat j) = (lim_of sz b \<le> j)"
proof -
  have "unat b + j < 2 ^ 32" using assms by (simp add: word_less_nat_alt)
  then show ?thesis using assms(2,3) by (auto simp: word_le_nat_alt word_less_nat_alt word_add_nat lim_of_def)
qed

lemma lim_of_pos:
  assumes "unat sz + BPB < 2 ^ 32" "b < sz" "BPB dvd unat b" "j < lim_of sz b"
  shows "unat (b + of_nat j) = unat b + j" "b + of_nat j < sz" "unat (b + of_nat j) mod BPB = j" "j < BPB"
    "BBLOCK (b + of_nat j) sb = BBLOCK b sb"
proof -
  show u: "unat (b + of_nat j) = unat b + j"
    using assms by (intro word_add_nat) (simp add: word_less_nat_alt lim_of_def)
  show j: "j < BPB" using assms by (simp add: lim_of_def)
  have "j < unat sz - unat b" using assms(4) by (simp add: lim_of_def)
  then show "b + of_nat j < sz" unfolding word_less_nat_alt u by linarith
  show "unat (b + of_nat j) mod BPB = j" using u j assms(3) by auto
  show "BBLOCK (b + of_nat j) sb = BBLOCK b sb" using u j assms(3) by (auto simp: BBLOCK_eq)
qed

lemma balloc_scan_spec:
  assumes "unat sz + BPB < 2 ^ 32" "b < sz" "length d = BSIZE" "lst < lim_of sz b"
  shows "balloc_scan (BPB + 1) d b sz lst lst = Ok (case find_from (\<lambda>j. \<not> used_bit d j) lst (lim_of sz b) of
     None \<Rightarrow> find_from (\<lambda>j. \<not> used_bit d j) 0 lst | Some j \<Rightarrow> Some j)"
  using assms lim_of_test [OF assms(1,2)] by (intro scan_round) (auto simp: lim_of_def)

text \<open>Marking a free position and zeroing its block.\<close>

lemma balloc_take:
  assumes ok: "balloc_ok s" and s: "tx_inv s" "roomy 1 s" "2 \<le> room s"
    and b: "b < sb_size (fsb s)" "BPB dvd unat b" "bi < lim_of (sb_size (fsb s)) b" "\<not> used_bit (blk s (BBLOCK b (fsb s))) bi"
    and s1: "tx_inv s1" "blk s1 = blk s" "refs s1 = (refs s)(BBLOCK b (fsb s) := Suc (refs s (BBLOCK b (fsb s))))"
      "holds s1 bp (BBLOCK b (fsb s))" "room s1 = room s" "tx_frame s s1" "d = blk s (BBLOCK b (fsb s))"
    and k1: "\<And>c m. holds s c m \<Longrightarrow> holds s1 c m"
  shows "wp (rbind (log_write bp (set_data bp (d[bi div 8 := d ! (bi div 8) OR bmask bi]) s1)) (\<lambda>s.
           rbind (bzero (b + of_nat bi) (brelse bp s)) (\<lambda>s.
             Ok (b + of_nat bi, s\<lparr>lastballoc := b, lastbi := bi\<rparr>)))) (\<lambda>(c, s'). alloc_post s c s' \<and> lastballoc s' = b)"
proof -
  let ?n = "BBLOCK b (fsb s)" and ?c = "b + of_nat bi" and ?sz = "sb_size (fsb s)"
  let ?d = "d[bi div 8 := d ! (bi div 8) OR bmask bi]"
  have sz: "unat ?sz + BPB < 2 ^ 32" using ok by (simp add: balloc_ok_def)
  note c = lim_of_pos [OF sz b(1-3)]
  have n: "?n \<in> bmap_area s" using b(1) by (auto simp: bmap_area_def)
  then have nl: "?n \<notin> log_area s1" using ok tx_frame_same(6) [OF s1(6)] by (auto simp: balloc_ok_def)
  have len: "length ?d = BSIZE" using length_blk [OF tx_inv_bio [OF s(1)]] s1(7) by simp
  have nu: "\<not> used s ?c" using b(4) c by (simp add: used_def)
  then have cc: "?c \<noteq> 0" "?c \<notin> log_area s" "?c \<notin> bmap_area s" using ok c(2) by (auto simp: balloc_ok_def)
  then have cn: "?c \<noteq> ?n" using n by auto
  show ?thesis
  proof (rule wp_log_write [OF s1(1,4) nl _ len])
    show "0 < room s1" using s s1 by simp
  next
    fix s2
    assume s2: "tx_inv s2" "blk s2 = (blk s1)(?n := ?d)" "refs s2 = refs s1" "holds s2 bp ?n" "?n \<notin> log_area s2"
      "room s1 \<le> Suc (room s2)" "tx_frame s1 s2" and k2: "\<And>c m. holds s2 c m \<longleftrightarrow> holds s1 c m"
    note r = tx_release [OF s2(1,4,5)]
    have rf: "refs (brelse bp s2) = refs s" using r(3) s2(3) s1(3) by (simp add: fun_eq_iff)
    have fr: "tx_frame s (brelse bp s2)" using s1(6) s2(7) r(5) tx_frame_trans by blast
    have kr: "holds (brelse bp s2) c m" if "holds s c m" for c m using that r(6) k1 k2 rf holds_refs by metis
    have "wp (bzero ?c (brelse bp s2)) (\<lambda>s3. tx_inv s3 \<and> blk s3 = (blk (brelse bp s2))(?c := replicate BSIZE 0) \<and>
        refs s3 = refs (brelse bp s2) \<and> room (brelse bp s2) \<le> Suc (room s3) \<and> tx_frame (brelse bp s2) s3 \<and>
        (\<forall>c m. holds (brelse bp s2) c m \<longrightarrow> holds s3 c m))"
    proof (rule bzero_spec [OF r(1)])
      show "can_read (brelse bp s2) ?c"
        using roomy_cong [OF rf] s(2) cc(1) by (intro roomy_can_read [of 1]) auto
      show "?c \<notin> log_area (brelse bp s2)" using tx_frame_same(6) [OF fr] cc(2) by simp
      show "0 < room (brelse bp s2)" using r(4) s2(6) s1(5) s(3) by simp
    qed
    then show "wp (rbind (bzero ?c (brelse bp s2)) (\<lambda>s. Ok (?c, s\<lparr>lastballoc := b, lastbi := bi\<rparr>))) (\<lambda>(c, s'). alloc_post s c s' \<and> lastballoc s' = b)"
    proof (rule wp_mono_bind)
      fix s3
      assume s3: "tx_inv s3 \<and> blk s3 = (blk (brelse bp s2))(?c := replicate BSIZE 0) \<and>
        refs s3 = refs (brelse bp s2) \<and> room (brelse bp s2) \<le> Suc (room s3) \<and> tx_frame (brelse bp s2) s3 \<and>
        (\<forall>c m. holds (brelse bp s2) c m \<longrightarrow> holds s3 c m)"
      let ?t = "s3\<lparr>lastballoc := b, lastbi := bi\<rparr>"
      have f3: "tx_frame s s3" using s3 fr tx_frame_trans by blast
      have ft: "fs_frame s ?t" using tx_fs_frame [OF f3] by simp
      have bk: "blk ?t = (blk s)(?n := ?d, ?c := replicate BSIZE 0)" using s3 r(2) s2(2) s1(2) by simp
      have u: "used ?t m \<longleftrightarrow> m = ?c \<or> used s m" if m: "m < ?sz" for m
      proof (cases "BBLOCK m (fsb s) = ?n")
        case True
        have mc: "m = ?c \<longleftrightarrow> unat m mod BPB = bi"
          using True c(1,3) b(2) c(4) unfolding BBLOCK_eq
          by (metis add_diff_cancel_left' div_mod_decomp dvd_div_mult_self word_nat_of_unat_id mult.commute)
        have "length d = BSIZE" using len by simp
        then show ?thesis
          using used_bit_set(1) [of bi "unat m mod BPB" d] c(4) mc True cn s1(7) fs_frame_same(1) [OF ft] bk
          by (simp add: used_def)
      next
        case False
        then have "m \<noteq> ?c" using c(5) by auto
        moreover have "BBLOCK m (fsb s) \<in> bmap_area s" using m by (simp add: bmap_area_def)
        then have "BBLOCK m (fsb s) \<noteq> ?c" using cc(3) by metis
        ultimately show ?thesis using False fs_frame_same(1) [OF ft] bk by (simp add: used_def)
      qed
      have k3: "\<forall>c m. holds s c m \<longrightarrow> holds ?t c m" using s3 kr by simp
      have "room s \<le> room s3 + 2" using s3 r(4) s2(6) s1(5) by simp
      then have "alloc_post s ?c ?t"
        using s3 rf c nu u bk n ft f3 k3 tx_frame_fs(1) [OF f3] b(2) by (auto simp: alloc_post_def)
      then show "wp (Ok (?c, s3\<lparr>lastballoc := b, lastbi := bi\<rparr>)) (\<lambda>(c, s'). alloc_post s c s' \<and> lastballoc s' = b)" by simp
    qed
  qed
qed

text \<open>Two states that agree on everything the allocator looks at.\<close>

definition same_view :: "'a fs_state_scheme \<Rightarrow> 'a fs_state_scheme \<Rightarrow> bool" where
  "same_view s t \<longleftrightarrow> tx_inv t \<and> blk t = blk s \<and> refs t = refs s \<and> room t = room s \<and> tx_frame s t \<and>
     (\<forall>b n. holds s b n \<longrightarrow> holds t b n)"

lemma same_viewD:
  assumes "same_view s t"
  shows "tx_inv t" "blk t = blk s" "refs t = refs s" "room t = room s" "fsb t = fsb s" "log_area t = log_area s"
    "bmap_area t = bmap_area s" "used t = used s" "balloc_ok t = balloc_ok s" "hint_ok t = hint_ok s" "roomy k t = roomy k s"
    "lastballoc t = lastballoc s" "lastbi t = lastbi s" "icache t = icache s" "fs_frame s t"
proof -
  have f: "tx_frame s t" using assms by (simp add: same_view_def)
  show 1: "tx_inv t" "blk t = blk s" "refs t = refs s" "room t = room s" "fs_frame s t"
    using assms tx_fs_frame by (auto simp: same_view_def)
  show 2: "fsb t = fsb s" "log_area t = log_area s" "lastballoc t = lastballoc s" "lastbi t = lastbi s" "icache t = icache s"
    using tx_frame_fs [OF f] tx_frame_same [OF f] by auto
  show 3: "bmap_area t = bmap_area s" "used t = used s" "roomy k t = roomy k s"
    using 1 2 by (simp_all add: bmap_area_def used_def fun_eq_iff roomy_cong)
  show "balloc_ok t = balloc_ok s" "hint_ok t = hint_ok s"
    using 2 3 by (simp_all add: balloc_ok_def hint_ok_def)
qed

lemma same_view_refl: "tx_inv s \<Longrightarrow> same_view s s"
  by (simp add: same_view_def)

lemma alloc_post_view:
  assumes "same_view s t" "alloc_post t c s'"
  shows "alloc_post s c s'"
proof -
  have "\<forall>b n. holds s b n \<longrightarrow> holds s' b n" using assms by (simp add: same_view_def alloc_post_def)
  moreover have "fs_frame s s'" using fs_frame_trans [OF same_viewD(15) [OF assms(1)]] assms(2) by (simp add: alloc_post_def)
  ultimately show ?thesis using assms(2) same_viewD(2-7,8,14) [OF assms(1)] by (simp add: alloc_post_def)
qed

text \<open>The precondition shared by the lemmas on the outer loop.\<close>

definition alloc_base :: "'a fs_state_scheme \<Rightarrow> bool" where
  "alloc_base s \<longleftrightarrow> balloc_ok s \<and> tx_inv s \<and> roomy 1 s \<and> 2 \<le> room s"

definition alloc_pre :: "'a fs_state_scheme \<Rightarrow> bool" where
  "alloc_pre s \<longleftrightarrow> balloc_ok s \<and> hint_ok s \<and> tx_inv s \<and> roomy 1 s \<and> 2 \<le> room s"

definition free_in :: "'a fs_state_scheme \<Rightarrow> uint \<Rightarrow> bool" where
  "free_in s b \<longleftrightarrow> (\<exists>j < lim_of (sb_size (fsb s)) b. \<not> used_bit (blk s (BBLOCK b (fsb s))) j)"

lemma alloc_pre_view: "same_view s t \<Longrightarrow> alloc_pre s \<Longrightarrow> alloc_pre t"
  using same_viewD [of s t] by (simp add: alloc_pre_def)

lemma free_in_view: "same_view s t \<Longrightarrow> free_in t = free_in s"
  using same_viewD [of s t] by (simp add: free_in_def fun_eq_iff)

text \<open>One round of the outer loop.\<close>

lemma balloc_visit_at:
  assumes pre: "alloc_base s" and b: "b < sb_size (fsb s)" "BPB dvd unat b" and li: "lastbi s < lim_of (sb_size (fsb s)) b"
    and P: "\<And>c s'. free_in s b \<Longrightarrow> alloc_post s c s' \<Longrightarrow> lastballoc s' = b \<Longrightarrow> P (c, s')"
    and next': "\<And>t. \<not> free_in s b \<Longrightarrow> same_view s t \<Longrightarrow>
      wp (let b = b + of_nat BPB; b = (if b \<ge> sb_size (fsb t) then 0 else b)
            in if b = lastballoc t then Panic ''balloc: out of blocks'' else balloc_loop k b t) P"
  shows "wp (balloc_loop (Suc k) b s) P"
  unfolding balloc_loop.simps
proof (rule wp_tx_bread)
  let ?n = "BBLOCK b (fsb s)"
  have n: "?n \<in> bmap_area s" using b(1) by (auto simp: bmap_area_def)
  then have n0: "?n \<noteq> 0" "?n \<notin> log_area s" using pre by (auto simp: alloc_base_def balloc_ok_def)
  show "tx_inv s" using pre by (simp add: alloc_base_def)
  show "can_read s ?n" using pre n0 by (intro roomy_can_read [of 1]) (simp_all add: alloc_base_def)
  show "?n \<notin> log_area s" by (rule n0)
  fix bp s1
  assume s1: "tx_inv s1" "blk s1 = blk s" "refs s1 = (refs s)(?n := Suc (refs s ?n))" "holds s1 bp ?n"
    "?n \<notin> log_area s1" "b_data (bcache s1 bp) = blk s ?n" "room s1 = room s" "tx_frame s s1"
    and k1: "\<And>c m. holds s c m \<Longrightarrow> holds s1 c m"
  have sz: "unat (sb_size (fsb s)) + BPB < 2 ^ 32" using pre by (simp add: alloc_base_def balloc_ok_def)
  let ?lim = "lim_of (sb_size (fsb s)) b" and ?f = "find_from (\<lambda>j. \<not> used_bit (blk s ?n) j)"
  have len: "length (blk s ?n) = BSIZE" using pre length_blk [OF tx_inv_bio, of s] by (simp add: alloc_base_def)
  have scan: "balloc_scan (BPB + 1) (b_data (bcache s1 bp)) b (sb_size (fsb s1)) (lastbi s1) (lastbi s1) =
     Ok (case ?f (lastbi s) ?lim of None \<Rightarrow> ?f 0 (lastbi s) | Some j \<Rightarrow> Some j)"
    using balloc_scan_spec [OF sz b(1) len li] tx_frame_fs [OF s1(8)] s1(6) by simp
  define r where "r = (case ?f (lastbi s) ?lim of None \<Rightarrow> ?f 0 (lastbi s) | Some j \<Rightarrow> Some j)"
  have r: "case r of None \<Rightarrow> \<not> free_in s b | Some j \<Rightarrow> j < ?lim \<and> \<not> used_bit (blk s ?n) j"
  proof (cases "?f (lastbi s) ?lim")
    case (Some j)
    then show ?thesis using find_from_SomeD [OF Some] by (simp add: r_def)
  next
    case None
    then have up: "\<And>j. lastbi s \<le> j \<Longrightarrow> j < ?lim \<Longrightarrow> used_bit (blk s ?n) j" by (simp add: find_from_None)
    show ?thesis
    proof (cases "?f 0 (lastbi s)")
      case (Some j)
      then show ?thesis using find_from_SomeD [OF Some] None li by (simp add: r_def)
    next
      case None2: None
      then have "\<And>j. j < lastbi s \<Longrightarrow> used_bit (blk s ?n) j" by (simp add: find_from_None)
      then have "\<not> free_in s b" using up by (meson free_in_def not_le)
      then show ?thesis using None None2 by (simp add: r_def)
    qed
  qed
  show "wp (rbind (balloc_scan (BPB + 1) (b_data (bcache s1 bp)) b (sb_size (fsb s1)) (lastbi s1) (lastbi s1)) (\<lambda>r.
       case r of
         Some bi \<Rightarrow>
           (let d = b_data (bcache s1 bp);
                s = set_data bp (d[bi div 8 := d ! (bi div 8) OR bmask bi]) s1
            in rbind (log_write bp s) (\<lambda>s.
               rbind (bzero (b + of_nat bi) (brelse bp s)) (\<lambda>s.
                 Ok (b + of_nat bi, s\<lparr>lastballoc := b, lastbi := bi\<rparr>))))
       | None \<Rightarrow>
           (let s = brelse bp s1;
                b = b + of_nat BPB;
                b = (if b \<ge> sb_size (fsb s) then 0 else b)
            in if b = lastballoc s then Panic ''balloc: out of blocks'' else balloc_loop k b s))) P"
  proof (cases r)
    case (Some bi)
    then have bi: "bi < ?lim" "\<not> used_bit (blk s ?n) bi" using r by auto
    then have "free_in s b" by (auto simp: free_in_def)
    have "wp (rbind (log_write bp (set_data bp ((blk s ?n)[bi div 8 := blk s ?n ! (bi div 8) OR bmask bi]) s1)) (\<lambda>s.
           rbind (bzero (b + of_nat bi) (brelse bp s)) (\<lambda>s.
             Ok (b + of_nat bi, s\<lparr>lastballoc := b, lastbi := bi\<rparr>)))) (\<lambda>(c, s'). alloc_post s c s' \<and> lastballoc s' = b)"
      using pre b bi s1 by (intro balloc_take [OF _ _ _ _ _ _ _ _ _ _ _ _ _ _ _ k1]) (auto simp: alloc_base_def)
    then have "wp (rbind (log_write bp (set_data bp ((blk s ?n)[bi div 8 := blk s ?n ! (bi div 8) OR bmask bi]) s1)) (\<lambda>s.
           rbind (bzero (b + of_nat bi) (brelse bp s)) (\<lambda>s.
             Ok (b + of_nat bi, s\<lparr>lastballoc := b, lastbi := bi\<rparr>)))) P"
      by (rule wp_mono) (use P \<open>free_in s b\<close> in auto)
    then show ?thesis
      unfolding scan r_def [symmetric] Some by (simp add: Let_def s1(6) del: wp_rbind)
  next
    case None
    note rl = tx_release [OF s1(1,4,5)]
    have rf: "refs (brelse bp s1) = refs s" using rl(3) s1(3) by (simp add: fun_eq_iff)
    then have "\<forall>c m. holds s c m \<longrightarrow> holds (brelse bp s1) c m" using k1 rl(6) holds_refs by metis
    then have "same_view s (brelse bp s1)"
      using rl(1,2,4) rf s1 tx_frame_trans [OF s1(8) rl(5)] by (simp add: same_view_def)
    then have "wp (let b = b + of_nat BPB; b = (if b \<ge> sb_size (fsb (brelse bp s1)) then 0 else b)
            in if b = lastballoc (brelse bp s1) then Panic ''balloc: out of blocks'' else balloc_loop k b (brelse bp s1)) P"
      using r None by (intro next') auto
    then show ?thesis
      unfolding scan r_def [symmetric] None by (simp add: Let_def del: balloc_loop.simps)
  qed
qed

lemma balloc_visit:
  assumes pre: "alloc_pre s" and b: "b < sb_size (fsb s)" "BPB dvd unat b"
    and P: "\<And>c s'. free_in s b \<Longrightarrow> alloc_post s c s' \<Longrightarrow> P (c, s')"
    and next': "\<And>t. \<not> free_in s b \<Longrightarrow> same_view s t \<Longrightarrow>
      wp (let b = b + of_nat BPB; b = (if b \<ge> sb_size (fsb t) then 0 else b)
            in if b = lastballoc t then Panic ''balloc: out of blocks'' else balloc_loop k b t) P"
  shows "wp (balloc_loop (Suc k) b s) P"
proof (rule balloc_visit_at [OF _ b _ _ next'])
  show "alloc_base s" using pre by (simp add: alloc_pre_def alloc_base_def)
  show "lastbi s < lim_of (sb_size (fsb s)) b"
    using pre b by (simp add: alloc_pre_def hint_ok_def lim_of_def less_diff_conv add.commute)
qed (rule P)

text \<open>Going up to a bitmap block that has a free position.\<close>

lemma balloc_up:
  assumes "alloc_pre s" "b \<le> tb" "tb < sb_size (fsb s)" "BPB dvd unat b" "BPB dvd unat tb" "free_in s tb"
    "unat tb div BPB < unat b div BPB + k" "lastballoc s \<le> b \<or> tb < lastballoc s"
  shows "wp (balloc_loop k b s) (\<lambda>(c, s'). alloc_post s c s')"
  using assms
proof (induction k arbitrary: b s)
  case 0
  then have "unat b div BPB \<le> unat tb div BPB" by (simp add: div_le_mono word_le_nat_alt)
  with 0 show ?case by simp
next
  case (Suc k)
  have bs: "b < sb_size (fsb s)" using Suc.prems by auto
  show ?case
  proof (rule balloc_visit [OF Suc.prems(1) bs Suc.prems(4)])
    show "\<And>c s'. alloc_post s c s' \<Longrightarrow> case (c, s') of (c, s') \<Rightarrow> alloc_post s c s'" by simp
    fix t
    assume nf: "\<not> free_in s b" and t: "same_view s t"
    note v = same_viewD [OF t]
    have lt: "unat b < unat tb" using nf Suc.prems(2,6) by (metis order_le_less word_less_nat_alt)
    have sz: "unat (sb_size (fsb s)) + BPB < 2 ^ 32" using Suc.prems(1) by (simp add: alloc_pre_def balloc_ok_def)
    have step: "unat b + BPB \<le> unat tb" by (rule dvd_step [OF Suc.prems(4,5) lt])
    then have ub: "unat (b + of_nat BPB) = unat b + BPB" using sz Suc.prems(3) by (intro word_add_nat) (simp add: word_less_nat_alt)
    then have le: "b + of_nat BPB \<le> tb" "b + of_nat BPB < sb_size (fsb s)"
      using step Suc.prems(3) by (simp_all add: word_le_nat_alt word_less_nat_alt)
    have ne: "b + of_nat BPB \<noteq> lastballoc s"
      using Suc.prems(8) le(1) ub by (auto simp: word_le_nat_alt word_less_nat_alt)
    have dv: "BPB dvd unat (b + of_nat BPB)" "unat (b + of_nat BPB) div BPB = Suc (unat b div BPB)"
      using ub Suc.prems(4) by simp_all
    have "wp (balloc_loop k (b + of_nat BPB) t) (\<lambda>(c, s'). alloc_post t c s')"
    proof (rule Suc.IH)
      show "alloc_pre t" by (rule alloc_pre_view [OF t Suc.prems(1)])
      show "free_in t tb" using Suc.prems(6) free_in_view [OF t] by simp
      show "unat tb div BPB < unat (b + of_nat BPB) div BPB + k" using Suc.prems(7) dv by simp
      show "lastballoc t \<le> b + of_nat BPB \<or> tb < lastballoc t"
        using Suc.prems(8) ub v(12) by (auto simp: word_le_nat_alt)
    qed (use le dv v Suc.prems in auto)
    then have "wp (balloc_loop k (b + of_nat BPB) t) (\<lambda>(c, s'). alloc_post s c s')"
      by (rule wp_mono) (use alloc_post_view [OF t] in auto)
    then show "wp (let b = b + of_nat BPB; b = (if b \<ge> sb_size (fsb t) then 0 else b)
        in if b = lastballoc t then Panic ''balloc: out of blocks'' else balloc_loop k b t) (\<lambda>(c, s'). alloc_post s c s')"
      using le(2) [unfolded not_le [symmetric]] ne v(5,12) by (simp add: Let_def)
  qed
qed

text \<open>Going up to the end of the disk, round to the first bitmap block, and up again.\<close>

lemma balloc_round:
  assumes "alloc_pre s" "lastballoc s \<le> b" "b < sb_size (fsb s)" "tb < lastballoc s" "BPB dvd unat b" "BPB dvd unat tb"
    "free_in s tb" "(unat (sb_size (fsb s)) - 1 - unat b) div BPB + unat tb div BPB + 1 < k"
  shows "wp (balloc_loop k b s) (\<lambda>(c, s'). alloc_post s c s')"
  using assms
proof (induction k arbitrary: b s)
  case (Suc k)
  let ?sz = "sb_size (fsb s)"
  show ?case
  proof (rule balloc_visit [OF Suc.prems(1,3,5)])
    show "\<And>c s'. alloc_post s c s' \<Longrightarrow> case (c, s') of (c, s') \<Rightarrow> alloc_post s c s'" by simp
    fix t
    assume t: "same_view s t"
    note v = same_viewD [OF t]
    have sz: "unat ?sz + BPB < 2 ^ 32" using Suc.prems(1) by (simp add: alloc_pre_def balloc_ok_def)
    have ub: "unat (b + of_nat BPB) = unat b + BPB"
      using sz Suc.prems(3) by (intro word_add_nat) (simp add: word_less_nat_alt)
    have pt: "alloc_pre t" "free_in t tb" using alloc_pre_view [OF t Suc.prems(1)] free_in_view [OF t] Suc.prems(7) by auto
    have "wp (balloc_loop k (if b + of_nat BPB \<ge> ?sz then 0 else b + of_nat BPB) t) (\<lambda>(c, s'). alloc_post t c s')"
    proof (cases "b + of_nat BPB \<ge> ?sz")
      case True
      have "wp (balloc_loop k 0 t) (\<lambda>(c, s'). alloc_post t c s')"
        using pt Suc.prems v by (intro balloc_up [of t 0 tb]) auto
      then show ?thesis using True by simp
    next
      case False
      then have lt: "unat b + BPB < unat ?sz" using ub by (simp add: word_le_nat_alt)
      then have "unat ?sz - 1 - unat b = (unat ?sz - 1 - (unat b + BPB)) + BPB" by simp
      then have d: "(unat ?sz - 1 - unat b) div BPB = Suc ((unat ?sz - 1 - (unat b + BPB)) div BPB)"
        by (simp only: div_BPB_Suc)
      have "wp (balloc_loop k (b + of_nat BPB) t) (\<lambda>(c, s'). alloc_post t c s')"
        using pt Suc.prems v(5,12) False ub d by (intro Suc.IH) (auto simp: word_le_nat_alt word_less_nat_alt)
      then show ?thesis using False by simp
    qed
    then have "wp (balloc_loop k (if b + of_nat BPB \<ge> ?sz then 0 else b + of_nat BPB) t) (\<lambda>(c, s'). alloc_post s c s')"
      by (rule wp_mono) (use alloc_post_view [OF t] in auto)
    moreover have "(if b + of_nat BPB \<ge> ?sz then 0 else b + of_nat BPB) \<noteq> lastballoc s"
      using Suc.prems(2,4) ub by (auto simp: word_le_nat_alt word_less_nat_alt)
    ultimately show "wp (let b = b + of_nat BPB; b = (if b \<ge> sb_size (fsb t) then 0 else b)
        in if b = lastballoc t then Panic ''balloc: out of blocks'' else balloc_loop k b t) (\<lambda>(c, s'). alloc_post s c s')"
      using v by (simp add: Let_def)
  qed
qed simp

lemma balloc_spec:
  assumes pre: "alloc_pre s" and c: "c < sb_size (fsb s)" "\<not> used s c"
  shows "wp (balloc s) (\<lambda>(c, s'). alloc_post s c s')"
proof -
  define tb :: uint where "tb = of_nat (BPB * (unat c div BPB))"
  let ?sz = "sb_size (fsb s)"
  have sz: "unat ?sz + BPB < 2 ^ 32" using pre by (simp add: alloc_pre_def balloc_ok_def)
  have cs: "unat c < unat ?sz" using c by (simp add: word_less_nat_alt)
  have le: "BPB * (unat c div BPB) \<le> unat c" by (simp add: times_div_less_eq_dividend)
  then have ut: "unat tb = BPB * (unat c div BPB)"
    unfolding tb_def using cs sz by (intro unat_of_nat_small) linarith
  then have tb: "BPB dvd unat tb" "tb < ?sz" "unat tb \<le> unat c"
    using le_less_trans [OF le cs] le by (simp_all add: word_less_nat_alt)
  have td: "unat tb div BPB = unat c div BPB" using ut by simp
  have cd: "unat c div BPB \<le> unat ?sz div BPB" using cs by (simp add: div_le_mono)
  have um: "unat c = unat tb + unat c mod BPB" using ut by simp
  have "free_in s tb"
    using c(2) td um cs unfolding free_in_def used_def BBLOCK_nat lim_of_def
    by (intro exI [of _ "unat c mod BPB"]) auto
  moreover have h: "BPB dvd unat (lastballoc s)" "lastballoc s < ?sz" using pre by (auto simp: alloc_pre_def hint_ok_def)
  ultimately have r: "lastballoc s \<le> tb \<Longrightarrow> ?thesis"
    unfolding balloc_def using pre tb cd by (intro balloc_up) (auto simp: td)
  show ?thesis
  proof (cases "lastballoc s \<le> tb")
    case False
    then have lt: "tb < lastballoc s" by simp
    then have "unat tb + BPB \<le> unat (lastballoc s)"
      using dvd_step [OF tb(1) h(1)] by (simp add: word_less_nat_alt)
    then have "Suc (unat tb div BPB) \<le> unat (lastballoc s) div BPB"
      by (metis div_BPB_Suc div_le_mono)
    moreover have "(unat ?sz - 1 - unat (lastballoc s)) div BPB + unat (lastballoc s) div BPB \<le> unat ?sz div BPB"
    proof -
      have "(unat ?sz - 1 - unat (lastballoc s)) div BPB + unat (lastballoc s) div BPB =
        ((unat ?sz - 1 - unat (lastballoc s)) + unat (lastballoc s)) div BPB"
        using h(1) by (metis div_plus_div_distrib_dvd_right)
      also have "\<dots> \<le> unat ?sz div BPB" using h(2) by (intro div_le_mono) (simp add: word_less_nat_alt)
      finally show ?thesis .
    qed
    ultimately show ?thesis
      unfolding balloc_def using pre tb h lt \<open>free_in s tb\<close> by (intro balloc_round) auto
  qed (rule r)
qed

lemma bfree_spec:
  assumes ok: "balloc_ok s" and s: "tx_inv s" "roomy 1 s" "0 < room s" and b: "b < sb_size (fsb s)" "used s b"
  shows "wp (bfree b s) (\<lambda>s'. tx_inv s' \<and> refs s' = refs s \<and> (\<forall>m < sb_size (fsb s). used s' m \<longleftrightarrow> m \<noteq> b \<and> used s m) \<and>
     (\<forall>m. m \<noteq> BBLOCK b (fsb s) \<longrightarrow> blk s' m = blk s m) \<and> room s \<le> Suc (room s') \<and> tx_frame s s' \<and>
     (\<forall>c m. holds s c m \<longrightarrow> holds s' c m))"
  unfolding bfree_def
proof (rule wp_tx_bread)
  let ?n = "BBLOCK b (fsb s)" and ?bi = "unat b mod BPB" and ?d = "blk s (BBLOCK b (fsb s))"
  let ?e = "?d[?bi div 8 := ?d ! (?bi div 8) AND NOT (bmask ?bi)]"
  have n: "?n \<in> bmap_area s" using b(1) by (auto simp: bmap_area_def)
  then have n0: "?n \<noteq> 0" "?n \<notin> log_area s" using ok by (auto simp: balloc_ok_def)
  show "tx_inv s" "?n \<notin> log_area s" by fact+
  show "can_read s ?n" using s n0 by (intro roomy_can_read [of 1]) simp_all
  fix bp s1
  assume s1: "tx_inv s1" "blk s1 = blk s" "refs s1 = (refs s)(?n := Suc (refs s ?n))" "holds s1 bp ?n"
    "?n \<notin> log_area s1" "b_data (bcache s1 bp) = ?d" "room s1 = room s" "tx_frame s s1" and k1: "\<And>c m. holds s c m \<Longrightarrow> holds s1 c m"
  have len: "length ?d = BSIZE" by (rule length_blk [OF tx_inv_bio [OF s(1)]])
  have ub: "\<not> ?d ! (?bi div 8) AND bmask ?bi = 0" using b(2) by (simp add: used_def used_bit_def bmask_test)
  have "wp (rbind (log_write bp (set_data bp ?e s1)) (\<lambda>s. Ok (brelse bp s))) (\<lambda>s'. tx_inv s' \<and> refs s' = refs s \<and>
     (\<forall>m < sb_size (fsb s). used s' m \<longleftrightarrow> m \<noteq> b \<and> used s m) \<and>
     (\<forall>m. m \<noteq> ?n \<longrightarrow> blk s' m = blk s m) \<and> room s \<le> Suc (room s') \<and> tx_frame s s' \<and>
     (\<forall>c m. holds s c m \<longrightarrow> holds s' c m))"
  proof (rule wp_log_write [OF s1(1,4,5)])
    show "0 < room s1" "length ?e = BSIZE" using s s1 len by simp_all
    fix s2
    assume s2: "tx_inv s2" "blk s2 = (blk s1)(?n := ?e)" "refs s2 = refs s1" "holds s2 bp ?n" "?n \<notin> log_area s2"
      "room s1 \<le> Suc (room s2)" "tx_frame s1 s2" and k2: "\<And>c m. holds s2 c m \<longleftrightarrow> holds s1 c m"
    note r = tx_release [OF s2(1,4,5)]
    let ?t = "brelse bp s2"
    have f: "tx_frame s ?t" using s1(8) s2(7) r(5) tx_frame_trans by blast
    have bk: "blk ?t = (blk s)(?n := ?e)" using r(2) s2(2) s1(2) by simp
    have "used ?t m \<longleftrightarrow> m \<noteq> b \<and> used s m" for m
    proof (cases "BBLOCK m (fsb s) = ?n")
      case True
      have "m = b \<longleftrightarrow> unat m mod BPB = ?bi"
        using True unfolding BBLOCK_eq by (metis div_mod_decomp word_nat_of_unat_id)
      then show ?thesis
        using used_bit_set(2) [of ?bi "unat m mod BPB" ?d] len True tx_frame_fs(4) [OF f] bk by (simp add: used_def)
    next
      case False
      then show ?thesis using tx_frame_fs(4) [OF f] bk by (auto simp: used_def)
    qed
    moreover have rf: "refs ?t = refs s" using r(3) s2(3) s1(3) by (simp add: fun_eq_iff)
    moreover have "\<forall>c m. holds s c m \<longrightarrow> holds ?t c m" using k1 k2 r(6) rf holds_refs by metis
    ultimately show "wp (Ok ?t) (\<lambda>s'. tx_inv s' \<and> refs s' = refs s \<and>
     (\<forall>m < sb_size (fsb s). used s' m \<longleftrightarrow> m \<noteq> b \<and> used s m) \<and>
     (\<forall>m. m \<noteq> ?n \<longrightarrow> blk s' m = blk s m) \<and> room s \<le> Suc (room s') \<and> tx_frame s s' \<and>
     (\<forall>c m. holds s c m \<longrightarrow> holds s' c m))"
      using r(1,4) f bk s2(6) s1(7) by simp
  qed
  then show "wp (let bi = unat b mod BPB; d = b_data (bcache s1 bp)
       in if d ! (bi div 8) AND bmask bi = 0 then Panic ''freeing free block''
          else rbind (log_write bp (set_data bp (d[bi div 8 := d ! (bi div 8) AND NOT (bmask bi)]) s1)) (\<lambda>s.
            Ok (brelse bp s))) (\<lambda>s'. tx_inv s' \<and> refs s' = refs s \<and>
     (\<forall>m < sb_size (fsb s). used s' m \<longleftrightarrow> m \<noteq> b \<and> used s m) \<and>
     (\<forall>m. m \<noteq> ?n \<longrightarrow> blk s' m = blk s m) \<and> room s \<le> Suc (room s') \<and> tx_frame s s' \<and>
     (\<forall>c m. holds s c m \<longrightarrow> holds s' c m))"
    using ub s1(6) by (simp add: Let_def del: wp_rbind)
qed

section \<open>Properties\<close>

text \<open>
  C12. \<open>balloc\<close> finds a block whenever one is free, wherever the search starts among positions that exist
  in every bitmap block: it returns a block of the disk that was free, marked used and zeroed,
  every other block keeps its mark and (the bitmap apart) its contents.
\<close>

theorem balloc_correct:
  assumes "balloc_ok s" "hint_ok s" "tx_inv s" "roomy 1 s" "2 \<le> room s" "f < sb_size (fsb s)" "\<not> used s f"
  shows "\<exists>c s'. balloc s = Ok (c, s') \<and> tx_inv s' \<and> refs s' = refs s \<and> c < sb_size (fsb s) \<and> \<not> used s c \<and>
     (\<forall>m < sb_size (fsb s). used s' m \<longleftrightarrow> m = c \<or> used s m) \<and> blk s' c = replicate BSIZE 0 \<and>
     (\<forall>m. m \<notin> bmap_area s \<longrightarrow> m \<noteq> c \<longrightarrow> blk s' m = blk s m)"
  using balloc_spec [of s f] assms by (auto simp: alloc_pre_def alloc_post_def wp_iff)

text \<open>
  \<open>bfree\<close> undoes the mark: freeing a used block succeeds, frees exactly that block and touches only
  its bitmap block; freeing a free block panics.
\<close>

theorem bfree_correct:
  assumes "balloc_ok s" "tx_inv s" "roomy 1 s" "0 < room s" "b < sb_size (fsb s)"
  shows "if used s b then \<exists>s'. bfree b s = Ok s' \<and> tx_inv s' \<and> (\<forall>m < sb_size (fsb s). used s' m \<longleftrightarrow> m \<noteq> b \<and> used s m) \<and>
       (\<forall>m. m \<noteq> BBLOCK b (fsb s) \<longrightarrow> blk s' m = blk s m)
     else bfree b s = Panic ''freeing free block''"
proof (cases "used s b")
  case True
  then show ?thesis using bfree_spec [OF assms True] by (auto simp: wp_iff)
next
  case False
  let ?n = "BBLOCK b (fsb s)"
  have "?n \<in> bmap_area s" using assms(5) by (auto simp: bmap_area_def)
  then have n: "?n \<noteq> 0" using assms(1) by (auto simp: balloc_ok_def)
  have "wp (bread ?n s) (\<lambda>(bp, s1). b_data (bcache s1 bp) = blk s ?n)"
    using bc.access [OF tx_inv_bio [OF assms(2)] roomy_can_read [OF assms(3) _ n]] by (auto elim!: wp_mono)
  then obtain bp s1 where "bread ?n s = Ok (bp, s1)" "b_data (bcache s1 bp) = blk s ?n" by (auto simp: wp_iff)
  then show ?thesis using False by (simp add: bfree_def Let_def used_def used_bit_def bmask_test)
qed

text \<open>
  A disk of 200 blocks, log at block 2, bitmap at block 150 with the first 160 blocks used, inside
  a transaction.
\<close>

definition demo_inode :: inode where
  "demo_inode = \<lparr>i_inum = 0, i_ref = 0, i_valid = False, i_type = 0, i_major = 0, i_minor = 0, i_nlink = 0,
     i_size = 0, i_mtime = 0, i_addrs = replicate 12 0\<rparr>"

definition demo_bitmap :: bytes where
  "demo_bitmap = replicate 20 0xff @ replicate 492 0"

definition demo_fs :: fs_state where
  "demo_fs = binit (kern_state.extend (kern_state.truncate
       (demo_kern\<lparr>log := (log demo_kern)\<lparr>l_outstanding := 1\<rparr>, bcache := (\<lambda>_. zero_buf),
          disk := (\<lambda>n. if n = 150 then demo_bitmap else replicate BSIZE 0)\<rparr>))
     (fs_state.fields \<lparr>sb_size = 200, sb_nblocks = 40, sb_ninodes = 16, sb_nlog = 100, sb_logstart = 2,
        sb_inodestart = 110, sb_bmapstart = 150\<rparr> 0 0 (\<lambda>_. demo_inode)))"

lemma demo_fs_simps:
  "log demo_fs = \<lparr>l_start = 2, l_size = 100, l_outstanding = 1, l_committing = False, l_lh = \<lparr>lh_n = 0, lh_block = (\<lambda>_. 500)\<rparr>\<rparr>"
  "fsb demo_fs = \<lparr>sb_size = 200, sb_nblocks = 40, sb_ninodes = 16, sb_nlog = 100, sb_logstart = 2,
        sb_inodestart = 110, sb_bmapstart = 150\<rparr>"
  "lastballoc demo_fs = 0" "lastbi demo_fs = 0" "icache demo_fs = (\<lambda>_. demo_inode)"
  by (simp_all add: demo_fs_def binit_def demo_kern_def kern_state.defs log_state.defs fs_state.defs)

lemma demo_fs_bio:
  "bio_inv demo_fs" "refs demo_fs = (\<lambda>_. 0)" "blk demo_fs = (\<lambda>n. if n = 150 then demo_bitmap else replicate BSIZE 0)"
proof -
  let ?s = "kern_state.extend (kern_state.truncate
       (demo_kern\<lparr>log := (log demo_kern)\<lparr>l_outstanding := 1\<rparr>, bcache := (\<lambda>_. zero_buf),
          disk := (\<lambda>n. if n = 150 then demo_bitmap else replicate BSIZE 0)\<rparr>))
     (fs_state.fields \<lparr>sb_size = 200, sb_nblocks = 40, sb_ninodes = 16, sb_nlog = 100, sb_logstart = 2,
        sb_inodestart = 110, sb_bmapstart = 150\<rparr> 0 0 (\<lambda>_. demo_inode))"
  have "bcache ?s i = zero_buf" "length (disk ?s n) = BSIZE" "dev_ok ?s n" "disk ?s = (\<lambda>n. if n = 150 then demo_bitmap else replicate BSIZE 0)" for i n
    by (simp_all add: demo_kern_def demo_log_def kern_state.defs log_state.defs fs_state.defs binit_def demo_bitmap_def BSIZE_def)
  then show "bio_inv demo_fs" "refs demo_fs = (\<lambda>_. 0)" "blk demo_fs = (\<lambda>n. if n = 150 then demo_bitmap else replicate BSIZE 0)"
    unfolding demo_fs_def by (simp_all only: binit_inv)
qed

lemma demo_fs_used: "b < 200 \<Longrightarrow> used demo_fs b \<longleftrightarrow> unat b < 160"
proof -
  assume "b < 200"
  then have b: "unat b < 200" by (simp add: word_less_nat_alt)
  then have "BBLOCK b (fsb demo_fs) = 150" "unat b mod BPB = unat b"
    by (simp_all add: BBLOCK_nat demo_fs_simps BPB_def BSIZE_def)
  moreover have "bit (0xff :: uchar) (unat b mod 8)" by (rule full_byte)
  ultimately show ?thesis using b
    by (cases "unat b < 160") (auto simp: used_def demo_fs_bio used_bit_def demo_bitmap_def nth_append)
qed

lemma demo_fs_ok: "balloc_ok demo_fs" "hint_ok demo_fs" "tx_inv demo_fs" "roomy 1 demo_fs" "2 \<le> room demo_fs"
proof -
  have a: "m \<in> log_area demo_fs \<longleftrightarrow> 2 \<le> unat m \<and> unat m \<le> 102" for m
    using log_area_unat [of demo_fs m] by (simp add: demo_fs_simps LOGSIZE_def)
  have "BBLOCK b (fsb demo_fs) = 150" if "b < 200" for b
    using that by (simp add: BBLOCK_nat demo_fs_simps BPB_def BSIZE_def word_less_nat_alt)
  then have bm: "bmap_area demo_fs \<subseteq> {150}" by (auto simp: bmap_area_def demo_fs_simps)
  show "balloc_ok demo_fs"
    using bm a demo_fs_used by (auto simp: balloc_ok_def demo_fs_simps BPB_def BSIZE_def)
  show "hint_ok demo_fs" by (simp add: hint_ok_def demo_fs_simps word_less_nat_alt)
  show "tx_inv demo_fs" using a by (simp add: tx_inv_def demo_fs_bio demo_fs_simps log_wf_def log_layout_def)
  show "roomy 1 demo_fs" "2 \<le> room demo_fs"
    by (simp_all add: quiet_roomy demo_fs_bio NBUF_def room_def demo_fs_simps LOGSIZE_def)
qed

theorem balloc_correct_witness:
  "\<exists>c s'. balloc demo_fs = Ok (c, s') \<and> tx_inv s' \<and> refs s' = refs demo_fs \<and> c < sb_size (fsb demo_fs) \<and> \<not> used demo_fs c \<and>
     (\<forall>m < sb_size (fsb demo_fs). used s' m \<longleftrightarrow> m = c \<or> used demo_fs m) \<and> blk s' c = replicate BSIZE 0 \<and>
     (\<forall>m. m \<notin> bmap_area demo_fs \<longrightarrow> m \<noteq> c \<longrightarrow> blk s' m = blk demo_fs m)"
  by (rule balloc_correct [OF demo_fs_ok, of 170]) (simp_all add: demo_fs_simps demo_fs_used)

theorem bfree_correct_witness:
  "(\<exists>s'. bfree 17 demo_fs = Ok s' \<and> (\<forall>m < 200. used s' m \<longleftrightarrow> m \<noteq> 17 \<and> used demo_fs m)) \<and>
   bfree 170 demo_fs = Panic ''freeing free block''"
  using bfree_correct [of demo_fs 17] bfree_correct [of demo_fs 170] demo_fs_ok
  by (auto simp: demo_fs_simps demo_fs_used)

end
