(* ===== verification/Inode.thy ===== *)
theory Inode
  imports Balloc
begin

text \<open>
  Inodes of \<open>kern/fs.c\<close>: the on-disk inode and the inode cache (\<open>iinit\<close>, \<open>ialloc\<close>, \<open>iupdate\<close>, \<open>iget\<close>, \<open>idup\<close>,
  \<open>ilock\<close>, \<open>iunlock\<close>, \<open>iput\<close>, \<open>stati\<close>), the block map of a file (\<open>bmap\<close>, \<open>itrunc\<close>) and its contents (\<open>readi\<close>,
  \<open>writei\<close>). An inode pointer is its index in \<open>icache\<close>. The superblock messages of \<open>iinit\<close> go to
  the console and are left out.
\<close>

section \<open>Inodes on disk\<close>

definition IBLOCK :: "uint \<Rightarrow> superblock \<Rightarrow> uint" where
  "IBLOCK i sb = i div of_nat IPB + sb_inodestart sb"

text \<open>Where inode \<open>i\<close> lies in its block; \<open>struct dinode\<close> is 64 bytes.\<close>

definition ioff :: "uint \<Rightarrow> nat" where "ioff i = 64 * (unat i mod IPB)"

definition load_dinode :: "bytes \<Rightarrow> nat \<Rightarrow> inode \<Rightarrow> inode" where
  "load_dinode d off ip = ip\<lparr>i_type := get16 d off, i_major := get16 d (off + 2), i_minor := get16 d (off + 4),
     i_nlink := get16 d (off + 6), i_mtime := get32 d (off + 12), i_size := get32 d (off + 8),
     i_addrs := map (\<lambda>k. get32 d (off + 16 + 4 * k)) [0..<NDIRECT + 1]\<rparr>"

definition store_dinode :: "inode \<Rightarrow> nat \<Rightarrow> bytes \<Rightarrow> bytes" where
  "store_dinode ip off d = patch off
     (enc16 (i_type ip) @ enc16 (i_major ip) @ enc16 (i_minor ip) @ enc16 (i_nlink ip) @
      enc32 (i_size ip) @ enc32 (i_mtime ip) @ concat (map enc32 (i_addrs ip))) d"

definition upd_inode :: "nat \<Rightarrow> (inode \<Rightarrow> inode) \<Rightarrow> 'a fs_state_scheme \<Rightarrow> 'a fs_state_scheme" where
  "upd_inode ip f s = s\<lparr>icache := (icache s)(ip := f (icache s ip))\<rparr>"

definition iinit :: "'a fs_state_scheme \<Rightarrow> 'a fs_state_scheme res" where
  "iinit s = rbind (readsb s) (\<lambda>(sb, s). Ok (s\<lparr>fsb := sb\<rparr>))"

definition iget :: "uint \<Rightarrow> 'a fs_state_scheme \<Rightarrow> (nat \<times> 'a fs_state_scheme) res" where
  "iget inum s =
     (case find_from (\<lambda>i. i_ref (icache s i) > 0 \<and> i_inum (icache s i) = inum) 0 NINODE of
        Some ip \<Rightarrow> Ok (ip, upd_inode ip (\<lambda>i. i\<lparr>i_ref := i_ref i + 1\<rparr>) s)
      | None \<Rightarrow>
          (case find_from (\<lambda>i. i_ref (icache s i) = 0) 0 NINODE of
             None \<Rightarrow> Panic ''iget: no inodes''
           | Some ip \<Rightarrow> Ok (ip, upd_inode ip (\<lambda>i. i\<lparr>i_inum := inum, i_ref := 1, i_valid := False\<rparr>) s)))"

text \<open>A free inode is zeroed and given its type and the time.\<close>

definition fresh_dinode :: "ushort \<Rightarrow> uint \<Rightarrow> nat \<Rightarrow> bytes \<Rightarrow> bytes" where
  "fresh_dinode type now off d = put32 (off + 12) now (put16 off type (patch off (replicate 64 0) d))"

fun ialloc_loop :: "ushort \<Rightarrow> nat list \<Rightarrow> 'a fs_state_scheme \<Rightarrow> (nat \<times> 'a fs_state_scheme) res" where
  "ialloc_loop type [] s = Panic ''ialloc: no inodes''"
| "ialloc_loop type (k # ks) s =
     (let inum = of_nat k in
      rbind (bread (IBLOCK inum (fsb s)) s) (\<lambda>(bp, s).
        if get16 (b_data (bcache s bp)) (ioff inum) = 0 then
          rbind (log_write bp (set_data bp (fresh_dinode type (fst (sys_time False s)) (ioff inum) (b_data (bcache s bp))) s)) (\<lambda>s.
            iget inum (brelse bp s))
        else ialloc_loop type ks (brelse bp s)))"

definition ialloc :: "ushort \<Rightarrow> 'a fs_state_scheme \<Rightarrow> (nat \<times> 'a fs_state_scheme) res" where
  "ialloc type s = ialloc_loop type [1..<unat (sb_ninodes (fsb s))] s"

definition iupdate :: "nat \<Rightarrow> 'a fs_state_scheme \<Rightarrow> 'a fs_state_scheme res" where
  "iupdate ip s =
     rbind (bread (IBLOCK (i_inum (icache s ip)) (fsb s)) s) (\<lambda>(bp, s).
     rbind (log_write bp (set_data bp (store_dinode (icache s ip) (ioff (i_inum (icache s ip))) (b_data (bcache s bp))) s)) (\<lambda>s.
       Ok (brelse bp s)))"

definition idup :: "nat \<Rightarrow> 'a fs_state_scheme \<Rightarrow> nat \<times> 'a fs_state_scheme" where
  "idup ip s = (ip, upd_inode ip (\<lambda>i. i\<lparr>i_ref := i_ref i + 1\<rparr>) s)"

definition ilock :: "nat option \<Rightarrow> 'a fs_state_scheme \<Rightarrow> 'a fs_state_scheme res" where
  "ilock p s =
     (case p of
        None \<Rightarrow> Panic ''ilock''
      | Some ip \<Rightarrow>
          if i_ref (icache s ip) < 1 then Panic ''ilock''
          else if i_valid (icache s ip) then Ok s
          else
            rbind (bread (IBLOCK (i_inum (icache s ip)) (fsb s)) s) (\<lambda>(bp, s).
              let d = b_data (bcache s bp);
                  s = upd_inode ip (\<lambda>i. load_dinode d (ioff (i_inum i)) i) s;
                  s = upd_inode ip (\<lambda>i. i\<lparr>i_valid := True\<rparr>) (brelse bp s)
              in if i_type (icache s ip) = 0 then Panic ''ilock: no type'' else Ok s))"

definition iunlock :: "nat option \<Rightarrow> 'a fs_state_scheme \<Rightarrow> 'a fs_state_scheme res" where
  "iunlock p s =
     (case p of None \<Rightarrow> Panic ''iunlock'' | Some ip \<Rightarrow> if i_ref (icache s ip) < 1 then Panic ''iunlock'' else Ok s)"

section \<open>The block map\<close>

text \<open>
  The entry \<open>idx\<close> of an indirect block, allocated when it is zero; the block stays held meanwhile.
\<close>

definition indirect :: "uint \<Rightarrow> nat \<Rightarrow> 'a fs_state_scheme \<Rightarrow> (uint \<times> 'a fs_state_scheme) res" where
  "indirect addr idx s =
     rbind (bread addr s) (\<lambda>(bp, s).
       let a = get32 (b_data (bcache s bp)) (4 * idx) in
       if a = 0 then
         rbind (balloc s) (\<lambda>(a, s).
         rbind (log_write bp (set_data bp (put32 (4 * idx) a (b_data (bcache s bp))) s)) (\<lambda>s.
           Ok (a, brelse bp s)))
       else Ok (a, brelse bp s))"

definition bmap :: "nat \<Rightarrow> uint \<Rightarrow> 'a fs_state_scheme \<Rightarrow> (uint \<times> 'a fs_state_scheme) res" where
  "bmap ip bn s =
     (if unat bn < NDIRECT then
        (let addr = i_addrs (icache s ip) ! unat bn in
         if addr = 0 then
           rbind (balloc s) (\<lambda>(addr, s).
             Ok (addr, upd_inode ip (\<lambda>i. i\<lparr>i_addrs := (i_addrs i)[unat bn := addr]\<rparr>) s))
         else Ok (addr, s))
      else
        (let n = unat bn - NDIRECT in
         if n < NINDIRECT * NINDIRECT then
           rbind
             (let addr = i_addrs (icache s ip) ! NDIRECT in
              if addr = 0 then
                rbind (balloc s) (\<lambda>(addr, s).
                  Ok (addr, upd_inode ip (\<lambda>i. i\<lparr>i_addrs := (i_addrs i)[NDIRECT := addr]\<rparr>) s))
              else Ok (addr, s)) (\<lambda>(addr, s).
           rbind (indirect addr (n div NINDIRECT) s) (\<lambda>(addr, s).
             indirect addr (n mod NINDIRECT) s))
         else Panic ''bmap: out of range''))"

fun free_direct :: "nat \<Rightarrow> nat list \<Rightarrow> 'a fs_state_scheme \<Rightarrow> 'a fs_state_scheme res" where
  "free_direct ip [] s = Ok s"
| "free_direct ip (i # is) s =
     (if i_addrs (icache s ip) ! i \<noteq> 0 then
        rbind (bfree (i_addrs (icache s ip) ! i) s) (\<lambda>s.
          free_direct ip is (upd_inode ip (\<lambda>q. q\<lparr>i_addrs := (i_addrs q)[i := 0]\<rparr>) s))
      else free_direct ip is s)"

text \<open>Freeing what the entries of the held block \<open>bp2\<close> point to, then the second-level blocks of \<open>bp\<close>.\<close>

fun free_entries :: "nat \<Rightarrow> nat list \<Rightarrow> 'a fs_state_scheme \<Rightarrow> 'a fs_state_scheme res" where
  "free_entries bp2 [] s = Ok s"
| "free_entries bp2 (y # ys) s =
     (let a2 = get32 (b_data (bcache s bp2)) (4 * y) in
      rbind (if a2 \<noteq> 0 then bfree a2 s else Ok s) (\<lambda>s. free_entries bp2 ys s))"

fun free_indirect :: "nat \<Rightarrow> nat list \<Rightarrow> 'a fs_state_scheme \<Rightarrow> 'a fs_state_scheme res" where
  "free_indirect bp [] s = Ok s"
| "free_indirect bp (j # js) s =
     (let a = get32 (b_data (bcache s bp)) (4 * j) in
      rbind
        (if a \<noteq> 0 then
           rbind (bread a s) (\<lambda>(bp2, s).
           rbind (free_entries bp2 [0..<NINDIRECT] s) (\<lambda>s.
             bfree a (brelse bp2 s)))
         else Ok s)
        (\<lambda>s. free_indirect bp js s))"

definition itrunc :: "nat \<Rightarrow> 'a fs_state_scheme \<Rightarrow> 'a fs_state_scheme res" where
  "itrunc ip s =
     rbind (free_direct ip [0..<NDIRECT] s) (\<lambda>s.
     rbind
       (let top = i_addrs (icache s ip) ! NDIRECT in
        if top \<noteq> 0 then
          rbind (bread top s) (\<lambda>(bp, s).
          rbind (free_indirect bp [0..<NINDIRECT] s) (\<lambda>s.
          rbind (bfree top (brelse bp s)) (\<lambda>s.
            Ok (upd_inode ip (\<lambda>q. q\<lparr>i_addrs := (i_addrs q)[NDIRECT := 0]\<rparr>) s))))
        else Ok s) (\<lambda>s.
     iupdate ip (upd_inode ip (\<lambda>q. q\<lparr>i_size := 0\<rparr>) s)))"

definition iput :: "nat \<Rightarrow> 'a fs_state_scheme \<Rightarrow> 'a fs_state_scheme res" where
  "iput ip s =
     rbind
       (if i_valid (icache s ip) \<and> i_nlink (icache s ip) = 0 \<and> i_ref (icache s ip) = 1 then
          rbind (itrunc ip s) (\<lambda>s.
          rbind (iupdate ip (upd_inode ip (\<lambda>q. q\<lparr>i_type := 0\<rparr>) s)) (\<lambda>s.
            Ok (upd_inode ip (\<lambda>q. q\<lparr>i_valid := False\<rparr>) s)))
        else Ok s) (\<lambda>s.
     Ok (upd_inode ip (\<lambda>q. q\<lparr>i_ref := i_ref q - 1\<rparr>) s))"

definition iunlockput :: "nat \<Rightarrow> 'a fs_state_scheme \<Rightarrow> 'a fs_state_scheme res" where
  "iunlockput ip s = rbind (iunlock (Some ip) s) (\<lambda>s. iput ip s)"

section \<open>File contents\<close>

record xvstat =
  st_type :: ushort
  st_ino :: uint
  st_nlink :: ushort
  st_mtime :: uint
  st_size :: uint

definition stati :: "nat \<Rightarrow> 'a fs_state_scheme \<Rightarrow> xvstat" where
  "stati ip s = \<lparr>st_type = i_type (icache s ip), st_ino = i_inum (icache s ip), st_nlink = i_nlink (icache s ip),
     st_mtime = i_mtime (icache s ip), st_size = i_size (icache s ip)\<rparr>"

text \<open>How much of the current block the next round of the copying loops moves.\<close>

definition chunk :: "nat \<Rightarrow> nat \<Rightarrow> nat" where "chunk rem off = min rem (BSIZE - off mod BSIZE)"

lemma chunk_pos: "0 < rem \<Longrightarrow> 0 < chunk rem off" "chunk rem off \<le> rem"
  by (simp_all add: chunk_def BSIZE_def)

text \<open>
  The check at the head of \<open>readi\<close> and \<open>writei\<close> excludes that \<open>off + n\<close> wraps around, so the loops
  count in \<open>nat\<close>; \<open>rem\<close> is \<open>n - tot\<close>.
\<close>

function readi_loop :: "nat \<Rightarrow> nat \<Rightarrow> nat \<Rightarrow> 'a fs_state_scheme \<Rightarrow> (bytes \<times> 'a fs_state_scheme) res" where
  "readi_loop ip rem off s =
     (if rem = 0 then Ok ([], s)
      else
        rbind (bmap ip (of_nat (off div BSIZE)) s) (\<lambda>(addr, s).
        rbind (bread addr s) (\<lambda>(bp, s).
          let m = chunk rem off; part = slice (off mod BSIZE) m (b_data (bcache s bp))
          in rbind (readi_loop ip (rem - m) (off + m) (brelse bp s)) (\<lambda>(rest, s). Ok (part @ rest, s)))))"
  by pat_completeness auto
termination
  by (relation "measure (\<lambda>(ip, rem, off, s). rem)") (auto simp: chunk_def BSIZE_def)

definition readi :: "nat \<Rightarrow> uint \<Rightarrow> uint \<Rightarrow> 'a fs_state_scheme \<Rightarrow> (int \<times> bytes \<times> 'a fs_state_scheme) res" where
  "readi ip off n s =
     (let sz = i_size (icache s ip) in
      if off > sz \<or> off + n < off then Ok (-1, [], s)
      else
        (let n = (if off + n > sz then sz - off else n)
         in rbind (readi_loop ip (unat n) (unat off) s) (\<lambda>(dst, s). Ok (sint n, dst, s))))"

definition MAXFILE :: nat where "MAXFILE = NDIRECT + NINDIRECT * NINDIRECT"

text \<open>Copying from past the end of \<open>src\<close> is undefined.\<close>

function writei_loop :: "nat \<Rightarrow> bytes \<Rightarrow> nat \<Rightarrow> nat \<Rightarrow> 'a fs_state_scheme \<Rightarrow> 'a fs_state_scheme res" where
  "writei_loop ip src rem off s =
     (if rem = 0 then Ok s
      else
        rbind (bmap ip (of_nat (off div BSIZE)) s) (\<lambda>(addr, s).
        rbind (bread addr s) (\<lambda>(bp, s).
          let m = chunk rem off in
          if m > length src then Fault
          else
            rbind (log_write bp (set_data bp (patch (off mod BSIZE) (take m src) (b_data (bcache s bp))) s)) (\<lambda>s.
              writei_loop ip (drop m src) (rem - m) (off + m) (brelse bp s)))))"
  by pat_completeness auto
termination
  by (relation "measure (\<lambda>(ip, src, rem, off, s). rem)") (auto simp: chunk_def BSIZE_def)

definition writei :: "nat \<Rightarrow> bytes \<Rightarrow> uint \<Rightarrow> uint \<Rightarrow> 'a fs_state_scheme \<Rightarrow> (int \<times> 'a fs_state_scheme) res" where
  "writei ip src off n s =
     (if off > i_size (icache s ip) \<or> off + n < off then Ok (-1, s)
      else if off + n > of_nat (MAXFILE * BSIZE) then Ok (-1, s)
      else
        rbind (writei_loop ip src (unat n) (unat off) s) (\<lambda>s.
          let off = off + n in
          if n > 0 \<and> off > i_size (icache s ip) then
            rbind (iupdate ip (upd_inode ip (\<lambda>q. q\<lparr>i_size := off, i_mtime := fst (sys_time False s)\<rparr>) s)) (\<lambda>s.
              Ok (sint n, s))
          else Ok (sint n, s)))"

declare readi_loop.simps [simp del] writei_loop.simps [simp del]

section \<open>The encoding of inodes\<close>

lemma get16_patch_in: "off + length xs \<le> length d \<Longrightarrow> k + 2 \<le> length xs \<Longrightarrow> get16 (patch off xs d) (off + k) = get16 xs k"
  by (simp add: get16_def nth_patch)

lemma get32_patch_in: "off + length xs \<le> length d \<Longrightarrow> k + 4 \<le> length xs \<Longrightarrow> get32 (patch off xs d) (off + k) = get32 xs k"
  by (simp add: get32_def nth_patch)

lemma get16_append: "length xs \<le> k \<Longrightarrow> get16 (xs @ ys) k = get16 ys (k - length xs)" "get16 (enc16 w @ ys) 0 = w"
  by (simp_all add: get16_def nth_append Suc_diff_le) (simp add: enc16_def)

lemma get32_append: "length xs \<le> k \<Longrightarrow> get32 (xs @ ys) k = get32 ys (k - length xs)" "get32 (enc32 w @ ys) 0 = w"
  by (simp add: get32_def nth_append Suc_diff_le) (simp add: get32_def enc32_def)

lemma length_concat_enc32 [simp]: "length (concat (map enc32 ws)) = 4 * length ws"
  by (induction ws) auto

lemma get32_concat: "k < length ws \<Longrightarrow> get32 (concat (map enc32 ws)) (4 * k) = ws ! k"
proof (induction ws arbitrary: k)
  case (Cons w ws)
  then show ?case
    using get32_append(2) [of w "concat (map enc32 ws)"] get32_append(1) [of "enc32 w" "4 * k" "concat (map enc32 ws)"]
    by (cases k) auto
qed simp

text \<open>The fields of an inode that live on disk.\<close>

definition same_disk_part :: "inode \<Rightarrow> inode \<Rightarrow> bool" where
  "same_disk_part p q \<longleftrightarrow> i_type p = i_type q \<and> i_major p = i_major q \<and> i_minor p = i_minor q \<and>
     i_nlink p = i_nlink q \<and> i_size p = i_size q \<and> i_mtime p = i_mtime q \<and> i_addrs p = i_addrs q"

lemma load_store_dinode:
  assumes "length (i_addrs p) = NDIRECT + 1" "off + 64 \<le> length d"
  shows "same_disk_part (load_dinode (store_dinode p off d) off q) p" "length (store_dinode p off d) = length d"
proof -
  let ?xs = "enc16 (i_type p) @ enc16 (i_major p) @ enc16 (i_minor p) @ enc16 (i_nlink p) @
      enc32 (i_size p) @ enc32 (i_mtime p) @ concat (map enc32 (i_addrs p))"
  have l: "length ?xs = 64" using assms(1) by (simp add: NDIRECT_def)
  then have lx: "off + length ?xs \<le> length d" using assms(2) by simp
  note g16 = get16_patch_in [OF lx, unfolded l] and g32 = get32_patch_in [OF lx, unfolded l]
  have a: "get32 (patch off ?xs d) (off + 16 + 4 * k) = i_addrs p ! k" if "k < 12" for k
    using g32 [of "16 + 4 * k"] that assms(1) get32_concat [of k "i_addrs p"]
    by (simp add: get32_append NDIRECT_def add.assoc)
  have "get16 (patch off ?xs d) off = i_type p" "get16 (patch off ?xs d) (off + 2) = i_major p"
    "get16 (patch off ?xs d) (off + 4) = i_minor p" "get16 (patch off ?xs d) (off + 6) = i_nlink p"
    "get32 (patch off ?xs d) (off + 8) = i_size p" "get32 (patch off ?xs d) (off + 12) = i_mtime p"
    using g16 [of 0] g16 [of 2] g16 [of 4] g16 [of 6] g32 [of 8] g32 [of 12]
    by (simp_all add: get16_append get32_append)
  moreover have "map (\<lambda>k. get32 (patch off ?xs d) (off + 16 + 4 * k)) [0..<NDIRECT + 1] = i_addrs p"
    using a assms(1) by (intro nth_equalityI) (simp_all add: NDIRECT_def)
  ultimately show "same_disk_part (load_dinode (store_dinode p off d) off q) p"
    unfolding same_disk_part_def load_dinode_def store_dinode_def by simp
  show "length (store_dinode p off d) = length d"
    unfolding store_dinode_def using lx by (rule length_patch)
qed

text \<open>Storing an inode leaves the other inodes of the block alone.\<close>

lemma load_store_other:
  assumes "length (i_addrs p) = NDIRECT + 1" "off + 64 \<le> length d" "o2 + 64 \<le> length d" "o2 + 64 \<le> off \<or> off + 64 \<le> o2"
  shows "load_dinode (store_dinode p off d) o2 q = load_dinode d o2 q"
proof -
  let ?xs = "enc16 (i_type p) @ enc16 (i_major p) @ enc16 (i_minor p) @ enc16 (i_nlink p) @
      enc32 (i_size p) @ enc32 (i_mtime p) @ concat (map enc32 (i_addrs p))"
  have l: "length ?xs = 64" using assms(1) by (simp add: NDIRECT_def)
  have h: "get16 (patch off ?xs d) (o2 + k) = get16 d (o2 + k)" if "k + 2 \<le> 64" for k
    using that assms l by (intro get16_patch_other) auto
  have "get32 (patch off ?xs d) (o2 + k) = get32 d (o2 + k)" if "k + 4 \<le> 64" for k
    using that assms l by (intro get32_patch_other) auto
  note g = this [of 8] this [of 12] this [of "16 + 4 * k" for k]
  have "map (\<lambda>k. get32 (patch off ?xs d) (o2 + 16 + 4 * k)) [0..<NDIRECT + 1] =
      map (\<lambda>k. get32 d (o2 + 16 + 4 * k)) [0..<NDIRECT + 1]"
    using g(3) by (intro map_cong) (auto simp: NDIRECT_def add.assoc)
  then show ?thesis
    using g(1,2) h [of 0] h [of 2] h [of 4] h [of 6]
    unfolding load_dinode_def store_dinode_def by simp
qed

lemma IPB_val [simp]: "IPB = 8"
  by (simp add: IPB_def BSIZE_def)

lemma ioff_bound: "ioff n + 64 \<le> BSIZE"
proof -
  have "unat n mod 8 < 8" by simp
  then show ?thesis by (simp add: ioff_def BSIZE_def)
qed

lemma IBLOCK_nat: "IBLOCK i sb = of_nat (unat i div IPB) + sb_inodestart sb"
proof -
  have "unat (i div 8) = unat i div 8" by (simp add: unat_div)
  then have "i div 8 = of_nat (unat i div 8)" by (metis word_nat_of_unat_id)
  then show ?thesis by (simp add: IBLOCK_def)
qed

lemma IBLOCK_same:
  assumes "IBLOCK i sb = IBLOCK j sb" "i \<noteq> j"
  shows "ioff j + 64 \<le> ioff i \<or> ioff i + 64 \<le> ioff j"
proof -
  have lt: "unat c div 8 < 2 ^ 32" for c :: uint
  proof -
    have "unat c < 2 ^ LENGTH(32)" by (rule unsigned_less)
    then show ?thesis by (intro le_less_trans [OF div_le_dividend]) simp
  qed
  have "unat i div 8 = unat j div 8"
    using assms(1) of_nat_inj [OF lt lt] by (simp add: IBLOCK_nat)
  moreover have "unat i \<noteq> unat j" using assms(2) by (metis word_nat_of_unat_id)
  ultimately have "unat i mod 8 \<noteq> unat j mod 8" by (metis div_mod_decomp)
  then show ?thesis by (auto simp: ioff_def)
qed

section \<open>The inode cache\<close>

lemma upd_inode_simps [simp]:
  "icache (upd_inode ip f s) = (icache s)(ip := f (icache s ip))" "fsb (upd_inode ip f s) = fsb s" "log (upd_inode ip f s) = log s"
  "blk (upd_inode ip f s) = blk s" "refs (upd_inode ip f s) = refs s" "tx_inv (upd_inode ip f s) = tx_inv s"
  "room (upd_inode ip f s) = room s" "log_area (upd_inode ip f s) = log_area s" "proc (upd_inode ip f s) = proc s"
  "ptable (upd_inode ip f s) = ptable s" "epoch_time (upd_inode ip f s) = epoch_time s"
  by (simp_all add: upd_inode_def)

lemma fs_frame_inode [simp]: "fs_frame s t \<Longrightarrow> fs_frame s (upd_inode ip f t)"
  by (simp add: upd_inode_def)

text \<open>The entry in use for an inode number, and how many references it has.\<close>

definition islot :: "(nat \<Rightarrow> inode) \<Rightarrow> uint \<Rightarrow> nat option" where
  "islot ic n = find_from (\<lambda>i. i_ref (ic i) > 0 \<and> i_inum (ic i) = n) 0 NINODE"

definition iref :: "(nat \<Rightarrow> inode) \<Rightarrow> uint \<Rightarrow> int" where
  "iref ic n = (case islot ic n of None \<Rightarrow> 0 | Some i \<Rightarrow> i_ref (ic i))"

definition icache_inv :: "(nat \<Rightarrow> inode) \<Rightarrow> bool" where
  "icache_inv ic \<longleftrightarrow> (\<forall>i < NINODE. 0 \<le> i_ref (ic i)) \<and>
     (\<forall>i < NINODE. \<forall>j < NINODE. i_ref (ic i) > 0 \<and> i_ref (ic j) > 0 \<and> i_inum (ic i) = i_inum (ic j) \<longrightarrow> i = j)"

lemma islot_eq:
  assumes "icache_inv ic"
  shows "islot ic n = Some i \<longleftrightarrow> i < NINODE \<and> i_ref (ic i) > 0 \<and> i_inum (ic i) = n"
proof
  assume "islot ic n = Some i"
  then show "i < NINODE \<and> i_ref (ic i) > 0 \<and> i_inum (ic i) = n"
    unfolding islot_def by (auto dest: find_from_SomeD)
next
  assume i: "i < NINODE \<and> i_ref (ic i) > 0 \<and> i_inum (ic i) = n"
  have "\<not> (i_ref (ic j) > 0 \<and> i_inum (ic j) = n)" if "j < i" for j
    using assms i that unfolding icache_inv_def by (metis less_trans nat_neq_iff)
  with i show "islot ic n = Some i" by (simp add: islot_def find_from_Some)
qed

lemma islot_None: "islot ic n = None \<longleftrightarrow> (\<forall>i < NINODE. \<not> (i_ref (ic i) > 0 \<and> i_inum (ic i) = n))"
  by (simp add: islot_def find_from_None)

lemma icache_inv_upd:
  assumes "icache_inv ic" "0 \<le> i_ref e" "\<And>j. j < NINODE \<Longrightarrow> j \<noteq> i \<Longrightarrow> i_ref (ic j) > 0 \<Longrightarrow> i_ref e > 0 \<Longrightarrow> i_inum (ic j) \<noteq> i_inum e"
  shows "icache_inv (ic(i := e))"
  unfolding icache_inv_def using assms(2,3) assms(1)[unfolded icache_inv_def]
  by (metis (no_types, lifting) fun_upd_apply)

text \<open>Changing a used entry to another one with the same number: only its own count changes.\<close>

lemma iref_upd:
  assumes inv: "icache_inv ic" and i: "i < NINODE" and u: "i_ref (ic i) > 0 \<or> islot ic n = None" "i_ref (ic i) > 0 \<Longrightarrow> i_inum (ic i) = n"
    and e: "i_inum e = n" "0 \<le> i_ref e"
  shows "icache_inv (ic(i := e)) \<and> iref (ic(i := e)) = (iref ic)(n := i_ref e)"
proof -
  have others: "i_inum (ic j) \<noteq> n" if "j < NINODE" "j \<noteq> i" "i_ref (ic j) > 0" for j
  proof (cases "i_ref (ic i) > 0")
    case True
    then have "islot ic n = Some i" using islot_eq [OF inv] i u by simp
    then show ?thesis using islot_eq [OF inv, of n j] that by auto
  next
    case False
    then show ?thesis using u(1) that by (auto simp: islot_None)
  qed
  have inv': "icache_inv (ic(i := e))"
    using inv e others by (intro icache_inv_upd) auto
  have "iref (ic(i := e)) m = ((iref ic)(n := i_ref e)) m" for m
  proof (cases "m = n")
    case True
    show ?thesis
    proof (cases "i_ref e > 0")
      case True
      then have "islot (ic(i := e)) n = Some i" using islot_eq [OF inv'] i e by simp
      then show ?thesis using \<open>m = n\<close> by (simp add: iref_def)
    next
      case False
      then have "islot (ic(i := e)) n = None" using others by (auto simp: islot_None)
      then show ?thesis using \<open>m = n\<close> False e by (simp add: iref_def)
    qed
  next
    case False
    have "islot (ic(i := e)) m = Some j \<longleftrightarrow> islot ic m = Some j \<and> j \<noteq> i" for j
      unfolding islot_eq [OF inv'] islot_eq [OF inv] using e False by auto
    moreover have "islot ic m \<noteq> Some i" using islot_eq [OF inv, of m i] u(2) False by auto
    ultimately have "islot (ic(i := e)) m = islot ic m" by (intro option_ext) auto
    then show ?thesis using False \<open>islot ic m \<noteq> Some i\<close>
      by (cases "islot ic m") (auto simp: iref_def)
  qed
  with inv' show ?thesis by auto
qed

definition iget_post :: "uint \<Rightarrow> 'a fs_state_scheme \<Rightarrow> nat \<Rightarrow> 'a fs_state_scheme \<Rightarrow> bool" where
  "iget_post n s ip s' \<longleftrightarrow> (\<exists>e. s' = s\<lparr>icache := (icache s)(ip := e)\<rparr> \<and> ip < NINODE \<and> i_inum e = n \<and>
     i_ref e = iref (icache s) n + 1 \<and> icache_inv (icache s') \<and> iref (icache s') = (iref (icache s))(n := iref (icache s) n + 1) \<and>
     (iref (icache s) n > 0 \<longrightarrow> i_ref (icache s ip) > 0 \<and> e = (icache s ip)\<lparr>i_ref := iref (icache s) n + 1\<rparr>) \<and>
     (iref (icache s) n = 0 \<longrightarrow> i_ref (icache s ip) = 0 \<and> \<not> i_valid e) \<and> 0 \<le> iref (icache s) n)"

lemma iget_spec:
  assumes inv: "icache_inv (icache s)" and free: "islot (icache s) n \<noteq> None \<or> (\<exists>i < NINODE. i_ref (icache s i) = 0)"
  shows "wp (iget n s) (\<lambda>(ip, s'). iget_post n s ip s')"
proof (cases "islot (icache s) n")
  case (Some ip)
  then have ip: "ip < NINODE" "i_ref (icache s ip) > 0" "i_inum (icache s ip) = n" by (simp_all add: islot_eq [OF inv])
  have r: "iref (icache s) n = i_ref (icache s ip)" using Some by (simp add: iref_def)
  let ?e = "(icache s ip)\<lparr>i_ref := i_ref (icache s ip) + 1\<rparr>"
  have "iget n s = Ok (ip, s\<lparr>icache := (icache s)(ip := ?e)\<rparr>)"
    using Some by (simp add: iget_def islot_def upd_inode_def)
  moreover have "icache_inv ((icache s)(ip := ?e)) \<and> iref ((icache s)(ip := ?e)) = (iref (icache s))(n := i_ref ?e)"
    using ip by (intro iref_upd [OF inv]) auto
  ultimately show ?thesis using ip r by (auto simp: iget_post_def)
next
  case None
  then obtain ip where f: "find_from (\<lambda>i. i_ref (icache s i) = 0) 0 NINODE = Some ip"
    using free by (cases "find_from (\<lambda>i. i_ref (icache s i) = 0) 0 NINODE") (auto simp: find_from_None)
  then have ip: "ip < NINODE" "i_ref (icache s ip) = 0" by (auto dest: find_from_SomeD)
  have r: "iref (icache s) n = 0" using None by (simp add: iref_def)
  let ?e = "(icache s ip)\<lparr>i_inum := n, i_ref := 1, i_valid := False\<rparr>"
  have "iget n s = Ok (ip, s\<lparr>icache := (icache s)(ip := ?e)\<rparr>)"
    using None f by (simp add: iget_def islot_def upd_inode_def)
  moreover have "icache_inv ((icache s)(ip := ?e)) \<and> iref ((icache s)(ip := ?e)) = (iref (icache s))(n := i_ref ?e)"
    using ip None by (intro iref_upd [OF inv]) auto
  ultimately show ?thesis using ip r by (auto simp: iget_post_def)
qed

text \<open>Dropping a reference that does not free the inode.\<close>

lemma iput_drop:
  assumes inv: "icache_inv (icache s)" and ip: "ip < NINODE" "i_ref (icache s ip) > 0"
    and keep: "\<not> (i_valid (icache s ip) \<and> i_nlink (icache s ip) = 0 \<and> i_ref (icache s ip) = 1)"
  shows "\<exists>s'. iput ip s = Ok s' \<and> s' = upd_inode ip (\<lambda>q. q\<lparr>i_ref := i_ref q - 1\<rparr>) s \<and> icache_inv (icache s') \<and>
    iref (icache s') = (iref (icache s))(i_inum (icache s ip) := iref (icache s) (i_inum (icache s ip)) - 1)"
proof -
  let ?e = "(icache s ip)\<lparr>i_ref := i_ref (icache s ip) - 1\<rparr>" and ?n = "i_inum (icache s ip)"
  have "icache_inv ((icache s)(ip := ?e)) \<and> iref ((icache s)(ip := ?e)) = (iref (icache s))(?n := i_ref ?e)"
    using ip by (intro iref_upd [OF inv]) auto
  moreover have "islot (icache s) ?n = Some ip" using islot_eq [OF inv] ip by simp
  moreover have "iput ip s = Ok (upd_inode ip (\<lambda>q. q\<lparr>i_ref := i_ref q - 1\<rparr>) s)"
    by (simp only: iput_def keep if_False rbind_simps)
  ultimately show ?thesis by (simp add: iref_def)
qed

section \<open>Inodes through the cache\<close>

lemma iupdate_spec:
  assumes s: "tx_inv s" "roomy 1 s" "0 < room s" and n: "n = IBLOCK (i_inum (icache s ip)) (fsb s)" "n \<noteq> 0" "n \<notin> log_area s"
    and a: "length (i_addrs (icache s ip)) = NDIRECT + 1"
  shows "wp (iupdate ip s) (\<lambda>s'. tx_inv s' \<and>
     blk s' = (blk s)(n := store_dinode (icache s ip) (ioff (i_inum (icache s ip))) (blk s n)) \<and> refs s' = refs s \<and>
     room s \<le> Suc (room s') \<and> tx_frame s s')"
proof -
  let ?F = "\<lambda>s1 :: 'a fs_state_scheme. store_dinode (icache s1 ip) (ioff (i_inum (icache s1 ip)))"
  let ?d = "store_dinode (icache s ip) (ioff (i_inum (icache s ip))) (blk s n)"
  have fr: "icache s1 = icache s" if "tx_frame s s1" for s1 :: "'a fs_state_scheme" using tx_frame_fs(1) [OF that] .
  have "length (blk s n) = BSIZE" by (rule length_blk [OF tx_inv_bio [OF s(1)]])
  then have "length ?d = BSIZE" using load_store_dinode(2) [OF a, of _ "blk s n"] ioff_bound by simp
  moreover have "can_read s n" using s(2) n(2) by (intro roomy_can_read [of 1]) simp_all
  ultimately have "wp (bread n s) (\<lambda>(b, s1). wp (log_write b (set_data b (?F s1 (b_data (bcache s1 b))) s1)) (\<lambda>s2.
      tx_inv (brelse b s2) \<and> blk (brelse b s2) = (blk s)(n := ?d) \<and> refs (brelse b s2) = refs s \<and>
      room s \<le> Suc (room (brelse b s2)) \<and> tx_frame s (brelse b s2)))"
  proof (intro lc.modify [where F = ?F])
    fix s1 assume "tx_frame s s1"
    then show "?F s1 (blk s n) = ?d" by (simp only: fr)
  qed (use s(1,3) n(2,3) in simp_all)
  then show ?thesis
    unfolding iupdate_def n(1) [symmetric] by (simp add: case_prod_unfold)
qed

text \<open>\<open>ilock\<close> changes the cache entry, and the buffer cache as any read does.\<close>

lemma ilock_spec:
  assumes s: "bio_inv s" "roomy 1 s" and n: "n = IBLOCK (i_inum (icache s ip)) (fsb s)" "n \<noteq> 0"
    and r: "i_ref (icache s ip) \<ge> 1" and t: "i_type (load_dinode (blk s n) (ioff (i_inum (icache s ip))) (icache s ip)) \<noteq> 0"
  shows "wp (ilock (Some ip) s) (\<lambda>s'. blk s' = blk s \<and> refs s' = refs s \<and>
     (\<exists>t. bio_inv t \<and> bio_frame s t \<and> blk t = blk s \<and> refs t = refs s \<and> s' = t\<lparr>icache := (icache s)(ip :=
        if i_valid (icache s ip) then icache s ip
        else (load_dinode (blk s n) (ioff (i_inum (icache s ip))) (icache s ip))\<lparr>i_valid := True\<rparr>)\<rparr>))"
proof (cases "i_valid (icache s ip)")
  case True
  then show ?thesis using r s by (simp add: ilock_def) (intro exI [of _ s], simp)
next
  case False
  have rd: "can_read s n" using s(2) n(2) by (intro roomy_can_read [of 1]) simp_all
  let ?e = "(load_dinode (blk s n) (ioff (i_inum (icache s ip))) (icache s ip))\<lparr>i_valid := True\<rparr>"
  have il: "ilock (Some ip) s = rbind (bread n s) (\<lambda>(bp, s).
      let d = b_data (bcache s bp); s = upd_inode ip (\<lambda>i. load_dinode d (ioff (i_inum i)) i) s;
          s = upd_inode ip (\<lambda>i. i\<lparr>i_valid := True\<rparr>) (brelse bp s)
      in if i_type (icache s ip) = 0 then Panic ''ilock: no type'' else Ok s)"
    using False r by (simp add: ilock_def n(1))
  have "wp (ilock (Some ip) s) (\<lambda>s'. blk s' = blk s \<and> refs s' = refs s \<and>
     (\<exists>t. bio_inv t \<and> bio_frame s t \<and> blk t = blk s \<and> refs t = refs s \<and> s' = t\<lparr>icache := (icache s)(ip := ?e)\<rparr>))"
    unfolding il
  proof (rule wp_bread [OF s(1) rd])
    fix bp s1
    assume s1: "bio_inv s1" "blk s1 = blk s" "refs s1 = (refs s)(n := Suc (refs s n))" "holds s1 bp n"
      "b_data (bcache s1 bp) = blk s n" "bio_frame s s1"
    have ic: "icache s1 = icache s" using s1(6) by (auto elim!: bio_frameE)
    note rl = release_bio [OF s1(1,4)]
    define t where "t = brelse bp s1"
    have br: "brelse bp (upd_inode ip f s1) = upd_inode ip f t" for f
      by (simp add: t_def brelse_def upd_inode_def upd_buf_def Let_def)
    have t: "bio_inv t" "bio_frame s t" "blk t = blk s" "refs t = refs s" "icache t = icache s"
      using rl s1 bio_frame_trans [OF s1(6) rl(4)] ic by (auto simp: t_def fun_eq_iff elim!: bio_frameE)
    have "upd_inode ip (\<lambda>i. i\<lparr>i_valid := True\<rparr>) (upd_inode ip (\<lambda>i. load_dinode (blk s n) (ioff (i_inum i)) i) t) = t\<lparr>icache := (icache s)(ip := ?e)\<rparr>"
      by (simp add: upd_inode_def t(5))
    then show "wp (let d = b_data (bcache s1 bp); s = upd_inode ip (\<lambda>i. load_dinode d (ioff (i_inum i)) i) s1;
            s = upd_inode ip (\<lambda>i. i\<lparr>i_valid := True\<rparr>) (brelse bp s)
        in if i_type (icache s ip) = 0 then Panic ''ilock: no type'' else Ok s)
       (\<lambda>s'. blk s' = blk s \<and> refs s' = refs s \<and>
         (\<exists>t. bio_inv t \<and> bio_frame s t \<and> blk t = blk s \<and> refs t = refs s \<and> s' = t\<lparr>icache := (icache s)(ip := ?e)\<rparr>))"
      using assms(6) t by (simp add: Let_def s1(5) br) (rule exI [of _ t], simp)
  qed
  then show ?thesis using False by simp
qed

section \<open>Properties of inodes\<close>


text \<open>
  C15. The inode cache holds every inode at most once and counts its references: with a free entry or the
  inode cached, \<open>iget\<close> returns an entry for the inode and adds one to its count, whichever entry
  that is, and a later \<open>iput\<close> that is not the last one of an unlinked inode takes it back; the counts
  of other inodes do not move and no inode gets a second entry.
\<close>

theorem iget_iput_counts:
  assumes "icache_inv (icache s)" "islot (icache s) n \<noteq> None \<or> (\<exists>i < NINODE. i_ref (icache s i) = 0)"
  shows "\<exists>ip s'. iget n s = Ok (ip, s') \<and> i_inum (icache s' ip) = n \<and> icache_inv (icache s') \<and>
     iref (icache s') = (iref (icache s))(n := iref (icache s) n + 1) \<and> blk s' = blk s \<and>
     (i_valid (icache s' ip) \<and> i_nlink (icache s' ip) = 0 \<longrightarrow> iref (icache s) n > 0) \<and>
     (\<exists>s''. iput ip s' = Ok s'' \<and> icache_inv (icache s'') \<and> iref (icache s'') = iref (icache s) \<and> blk s'' = blk s)"
proof -
  obtain ip s1 where s1: "iget n s = Ok (ip, s1)" "iget_post n s ip s1"
    using iget_spec [OF assms] by (auto simp: wp_iff)
  from s1(2) obtain e where e: "s1 = s\<lparr>icache := (icache s)(ip := e)\<rparr>" and ip: "ip < NINODE" "i_inum e = n"
    "i_ref e = iref (icache s) n + 1" and inv1: "icache_inv (icache s1)"
    and cnt1: "iref (icache s1) = (iref (icache s))(n := iref (icache s) n + 1)"
    and v0: "iref (icache s) n = 0 \<longrightarrow> i_ref (icache s ip) = 0 \<and> \<not> i_valid e" and nn: "iref (icache s) n \<ge> 0"
    unfolding iget_post_def by (elim exE conjE) (rule that; assumption)
  have v: "iref (icache s) n = 0 \<longrightarrow> \<not> i_valid e" using v0 by simp
  have g: "iget n s = Ok (ip, s\<lparr>icache := (icache s)(ip := e)\<rparr>)" using s1(1) e by simp
  have inv: "icache_inv ((icache s)(ip := e))" and cnt: "iref ((icache s)(ip := e)) = (iref (icache s))(n := iref (icache s) n + 1)"
    using inv1 cnt1 e by simp_all
  let ?s = "s\<lparr>icache := (icache s)(ip := e)\<rparr>"
  have "\<exists>s''. iput ip ?s = Ok s'' \<and> s'' = upd_inode ip (\<lambda>q. q\<lparr>i_ref := i_ref q - 1\<rparr>) ?s \<and> icache_inv (icache s'') \<and>
    iref (icache s'') = (iref (icache ?s))(i_inum (icache ?s ip) := iref (icache ?s) (i_inum (icache ?s ip)) - 1)"
    using inv ip nn v by (intro iput_drop) auto
  then obtain s'' where s'': "iput ip ?s = Ok s''" "s'' = upd_inode ip (\<lambda>q. q\<lparr>i_ref := i_ref q - 1\<rparr>) ?s"
    "icache_inv (icache s'')" "iref (icache s'') = (iref (icache ?s))(n := iref (icache ?s) n - 1)"
    using ip(2) by auto
  have "iref (icache s'') = iref (icache s)" using s''(4) cnt by (auto simp: fun_eq_iff)
  moreover have "blk s'' = blk s" using s''(2) by simp
  ultimately show ?thesis using g ip inv cnt v nn s''(1,3) by auto
qed

text \<open>Inode 3, a file, in entry 0 of the cache.\<close>

definition demo_ifs :: fs_state where
  "demo_ifs = upd_inode 0 (\<lambda>i. i\<lparr>i_inum := 3, i_ref := 1, i_valid := True, i_type := 2, i_nlink := 1, i_size := 700\<rparr>) demo_fs"

lemma demo_ifs_simps:
  "tx_inv demo_ifs" "roomy 1 demo_ifs" "room demo_ifs = 99" "icache demo_ifs 0 = demo_inode\<lparr>i_inum := 3, i_ref := 1,
     i_valid := True, i_type := 2, i_nlink := 1, i_size := 700\<rparr>" "fsb demo_ifs = fsb demo_fs" "log_area demo_ifs = log_area demo_fs"
  using demo_fs_ok roomy_cong [of demo_ifs demo_fs 1]
  by (simp_all add: demo_ifs_def demo_fs_simps room_def LOGSIZE_def)


theorem iget_iput_counts_witness:
  "\<exists>ip s'. iget 1 demo_fs = Ok (ip, s') \<and> i_inum (icache s' ip) = 1 \<and> icache_inv (icache s') \<and>
     iref (icache s') = (iref (icache demo_fs))(1 := iref (icache demo_fs) 1 + 1) \<and> blk s' = blk demo_fs \<and>
     (i_valid (icache s' ip) \<and> i_nlink (icache s' ip) = 0 \<longrightarrow> iref (icache demo_fs) 1 > 0) \<and>
     (\<exists>s''. iput ip s' = Ok s'' \<and> icache_inv (icache s'') \<and> iref (icache s'') = iref (icache demo_fs) \<and> blk s'' = blk demo_fs)"
proof (rule iget_iput_counts)
  show "icache_inv (icache demo_fs)" by (simp add: demo_fs_simps icache_inv_def demo_inode_def)
  show "islot (icache demo_fs) 1 \<noteq> None \<or> (\<exists>i < NINODE. i_ref (icache demo_fs i) = 0)"
    by (intro disjI2 exI [of _ 0]) (simp add: demo_fs_simps demo_inode_def NINODE_def)
qed

end
