(* ===== verification/Fdata.thy ===== *)
theory Fdata
  imports Inode
begin

text \<open>
  The contents of files. \<open>fmap s ip k\<close> is the disk block of the \<open>k\<close>-th block of a file, read off the block
  map without allocating, and \<open>fbyte s ip pos\<close> the byte at offset \<open>pos\<close>. Shown for files whose blocks are
  mapped: \<open>bmap\<close> returns \<open>fmap\<close> and changes no block; \<open>readi\<close> returns exactly the bytes of the file in
  the requested range, clipped at its size; \<open>writei\<close> over existing contents changes exactly the
  bytes of the range, of this file only.
\<close>

definition fmid :: "'a fs_state_scheme \<Rightarrow> nat \<Rightarrow> nat \<Rightarrow> uint" where
  "fmid s ip k = get32 (blk s (i_addrs (icache s ip) ! NDIRECT)) (4 * ((k - NDIRECT) div NINDIRECT))"

definition fmap :: "'a fs_state_scheme \<Rightarrow> nat \<Rightarrow> nat \<Rightarrow> uint" where
  "fmap s ip k =
     (if k < NDIRECT then i_addrs (icache s ip) ! k
      else get32 (blk s (fmid s ip k)) (4 * ((k - NDIRECT) mod NINDIRECT)))"

definition mapped :: "'a fs_state_scheme \<Rightarrow> nat \<Rightarrow> nat \<Rightarrow> bool" where
  "mapped s ip k \<longleftrightarrow> k < MAXFILE \<and> fmap s ip k \<noteq> 0 \<and>
     (NDIRECT \<le> k \<longrightarrow> i_addrs (icache s ip) ! NDIRECT \<noteq> 0 \<and> fmid s ip k \<noteq> 0)"

definition fbyte :: "'a fs_state_scheme \<Rightarrow> nat \<Rightarrow> nat \<Rightarrow> uchar" where
  "fbyte s ip pos = blk s (fmap s ip (pos div BSIZE)) ! (pos mod BSIZE)"

lemma MAXFILE_val: "MAXFILE = 16395" "NDIRECT = 11" "NINDIRECT = 128"
  by (simp_all add: MAXFILE_def NDIRECT_def NINDIRECT_def BSIZE_def)

text \<open>A read through the cache: the cache and the device may change, no logical contents do.\<close>

definition read_only :: "'a bio_state_scheme \<Rightarrow> 'a bio_state_scheme \<Rightarrow> bool" where
  "read_only s s' \<longleftrightarrow> bio_inv s' \<and> blk s' = blk s \<and> refs s' = refs s \<and> bio_frame s s'"

lemma read_onlyD:
  assumes "read_only s s'"
  shows "bio_inv s'" "blk s' = blk s" "refs s' = refs s" "bio_frame s s'" "roomy k s' = roomy k s"
  using assms roomy_cong [of s' s] by (simp_all add: read_only_def)

lemma read_only_refl: "bio_inv s \<Longrightarrow> read_only s s"
  by (simp add: read_only_def)

lemma read_only_trans: "read_only s t \<Longrightarrow> read_only t u \<Longrightarrow> read_only s u"
  unfolding read_only_def using bio_frame_trans by metis

lemma bio_frame_fs:
  assumes "bio_frame s s'"
  shows "icache s' = icache s" "fsb s' = fsb s" "ptable s' = ptable s" "proc s' = proc s"
  using assms by (auto elim!: bio_frameE)

lemma read_only_file:
  assumes "read_only s s'"
  shows "fmid s' = fmid s" "fmap s' = fmap s" "mapped s' = mapped s" "fbyte s' = fbyte s"
proof -
  note e = read_onlyD(2) [OF assms] bio_frame_fs(1) [OF read_onlyD(4) [OF assms]]
  show 1: "fmid s' = fmid s" using e by (simp add: fmid_def fun_eq_iff)
  show 2: "fmap s' = fmap s" using e 1 by (simp add: fmap_def fun_eq_iff)
  show "mapped s' = mapped s" "fbyte s' = fbyte s" using e 1 2 by (simp_all add: mapped_def fbyte_def fun_eq_iff)
qed

lemma wp_peek:
  assumes "bio_inv s" "roomy 1 s" "n \<noteq> 0"
    and "\<And>b s1 s2. b_data (bcache s1 b) = blk s n \<Longrightarrow> bio_frame s s1 \<Longrightarrow> s2 = brelse b s1 \<Longrightarrow> read_only s s2 \<Longrightarrow> wp (f b s1) P"
  shows "wp (rbind (bread n s) (\<lambda>(b, s1). f b s1)) P"
proof (rule wp_mono_bind [OF bc.access [OF assms(1) roomy_can_read [OF assms(2) _ assms(3)]]])
  show "wp (case x of (b, s1) \<Rightarrow> f b s1) P"
    if "case x of (b, s1) \<Rightarrow> b_data (bcache s1 b) = blk s n \<and> bio_frame s s1 \<and> bio_inv (brelse b s1) \<and>
      blk (brelse b s1) = blk s \<and> refs (brelse b s1) = refs s \<and> 1 = (1::nat) \<and> bio_frame s (brelse b s1)" for x
    using that assms(4) by (auto simp: read_only_def)
qed simp

lemma indirect_mapped:
  assumes "bio_inv s" "roomy 1 s" "addr \<noteq> 0" "get32 (blk s addr) (4 * idx) \<noteq> 0"
  shows "wp (indirect addr idx s) (\<lambda>(a, s'). a = get32 (blk s addr) (4 * idx) \<and> read_only s s')"
  unfolding indirect_def by (rule wp_peek [OF assms(1-3)]) (use assms(4) in \<open>auto simp: Let_def\<close>)

lemma bmap_mapped:
  assumes s: "bio_inv s" "roomy 1 s" and m: "mapped s ip k"
  shows "wp (bmap ip (of_nat k) s) (\<lambda>(a, s'). a = fmap s ip k \<and> read_only s s')"
proof -
  have k: "unat (of_nat k :: uint) = k" using m by (intro unat_of_nat_small) (simp add: mapped_def MAXFILE_val)
  show ?thesis
  proof (cases "k < NDIRECT")
    case True
    then show ?thesis
      using m s by (auto simp: bmap_def k mapped_def fmap_def Let_def read_only_refl)
  next
    case False
    let ?n = "k - NDIRECT"
    have n: "?n < NINDIRECT * NINDIRECT" using m False unfolding mapped_def MAXFILE_def by linarith
    have nz: "i_addrs (icache s ip) ! NDIRECT \<noteq> 0" "fmid s ip k \<noteq> 0" "fmap s ip k \<noteq> 0"
      using m False by (simp_all add: mapped_def)
    have b: "bmap ip (of_nat k) s = rbind (indirect (i_addrs (icache s ip) ! NDIRECT) (?n div NINDIRECT) s)
       (\<lambda>(addr, s). indirect addr (?n mod NINDIRECT) s)"
      using False n nz by (simp add: bmap_def k Let_def)
    show ?thesis unfolding b
    proof (rule wp_mono_bind [OF indirect_mapped [OF s nz(1)]])
      show "get32 (blk s (i_addrs (icache s ip) ! NDIRECT)) (4 * (?n div NINDIRECT)) \<noteq> 0"
        using nz(2) by (simp add: fmid_def)
      fix x
      assume "case x of (a, s') \<Rightarrow> a = get32 (blk s (i_addrs (icache s ip) ! NDIRECT)) (4 * (?n div NINDIRECT)) \<and> read_only s s'"
      then obtain t where x: "x = (fmid s ip k, t)" and t: "read_only s t" by (auto simp: fmid_def)
      have l: "get32 (blk t (fmid s ip k)) (4 * (?n mod NINDIRECT)) = fmap s ip k"
        using False read_onlyD(2) [OF t] by (simp add: fmap_def)
      have "wp (indirect (fmid s ip k) (?n mod NINDIRECT) t)
        (\<lambda>(a, s'). a = get32 (blk t (fmid s ip k)) (4 * (?n mod NINDIRECT)) \<and> read_only t s')"
        using read_onlyD [OF t] s nz l by (intro indirect_mapped) auto
      then show "wp (case x of (addr, s) \<Rightarrow> indirect addr (?n mod NINDIRECT) s) (\<lambda>(a, s'). a = fmap s ip k \<and> read_only s s')"
        unfolding x prod.case by (rule wp_mono) (use l read_only_trans [OF t] in auto)
    qed
  qed
qed

section \<open>Reading\<close>

lemma block_part:
  assumes "off mod BSIZE + m \<le> BSIZE" "length (blk s (fmap s ip (off div BSIZE))) = BSIZE"
  shows "slice (off mod BSIZE) m (blk s (fmap s ip (off div BSIZE))) = map (fbyte s ip) [off..<off + m]"
proof (rule nth_equalityI)
  show "length (slice (off mod BSIZE) m (blk s (fmap s ip (off div BSIZE)))) = length (map (fbyte s ip) [off..<off + m])"
    using assms by (simp add: length_slice)
  fix i
  assume "i < length (slice (off mod BSIZE) m (blk s (fmap s ip (off div BSIZE))))"
  then have i: "i < m" using assms by (simp add: length_slice)
  have "off + i = off div BSIZE * BSIZE + (off mod BSIZE + i)" "off mod BSIZE + i < BSIZE" using i assms(1) by simp_all
  then have "(off + i) div BSIZE = off div BSIZE" "(off + i) mod BSIZE = off mod BSIZE + i"
    by (metis add.right_neutral div_less div_mult_self3 less_nat_zero_code add.commute, metis mod_less mod_mult_self3)
  then show "slice (off mod BSIZE) m (blk s (fmap s ip (off div BSIZE))) ! i = map (fbyte s ip) [off..<off + m] ! i"
    using i assms by (simp add: nth_slice fbyte_def)
qed

lemma chunk_fits: "off mod BSIZE + chunk rem off \<le> BSIZE"
  by (simp add: chunk_def BSIZE_def)

lemma readi_loop_spec:
  assumes "bio_inv s" "roomy 1 s" "\<And>k. off div BSIZE \<le> k \<Longrightarrow> k * BSIZE < off + rem \<Longrightarrow> mapped s ip k"
  shows "wp (readi_loop ip rem off s) (\<lambda>(dst, s'). dst = map (fbyte s ip) [off..<off + rem] \<and> read_only s s')"
  using assms
proof (induction rem arbitrary: off s rule: less_induct)
  case (less rem)
  show ?case
  proof (cases "rem = 0")
    case True
    then show ?thesis using less.prems by (subst readi_loop.simps) (simp add: read_only_refl)
  next
    case False
    let ?m = "chunk rem off" and ?k = "off div BSIZE"
    have m: "0 < ?m" "?m \<le> rem" using chunk_pos [of rem off] False by auto
    have mp: "mapped s ip ?k" using less.prems(3) [of ?k] False div_times_less_eq_dividend [of off BSIZE] by linarith
    have eq: "readi_loop ip rem off s = rbind (bmap ip (of_nat ?k) s) (\<lambda>(addr, s).
        rbind (bread addr s) (\<lambda>(bp, s).
          rbind (readi_loop ip (rem - ?m) (off + ?m) (brelse bp s)) (\<lambda>(rest, s1). Ok (slice (off mod BSIZE) ?m (b_data (bcache s bp)) @ rest, s1))))"
      using False by (subst readi_loop.simps) (simp add: Let_def)
    show ?thesis unfolding eq
    proof (rule wp_mono_bind [OF bmap_mapped [OF less.prems(1,2) mp]])
      fix x
      assume "case x of (a, s') \<Rightarrow> a = fmap s ip ?k \<and> read_only s s'"
      then obtain t where x: "x = (fmap s ip ?k, t)" and t: "read_only s t" by auto
      have "wp (rbind (bread (fmap s ip ?k) t) (\<lambda>(bp, s).
          rbind (readi_loop ip (rem - ?m) (off + ?m) (brelse bp s)) (\<lambda>(rest, s1). Ok (slice (off mod BSIZE) ?m (b_data (bcache s bp)) @ rest, s1))))
        (\<lambda>(dst, s'). dst = map (fbyte s ip) [off..<off + rem] \<and> read_only s s')"
      proof (rule wp_peek)
        show "bio_inv t" "roomy 1 t" "fmap s ip ?k \<noteq> 0"
          using read_onlyD [OF t] less.prems mp by (auto simp: mapped_def)
        fix bp s1 s2
        assume d: "b_data (bcache s1 bp) = blk t (fmap s ip ?k)" and s2: "s2 = brelse bp s1" "read_only t s2"
        have ro: "read_only s s2" by (rule read_only_trans [OF t s2(2)])
        have "wp (readi_loop ip (rem - ?m) (off + ?m) s2)
          (\<lambda>(dst, s'). dst = map (fbyte s2 ip) [off + ?m..<off + ?m + (rem - ?m)] \<and> read_only s2 s')"
        proof (rule less.IH)
          show "rem - ?m < rem" using m by simp
          show "bio_inv s2" "roomy 1 s2" using read_onlyD [OF ro] less.prems(2) by auto
          show "mapped s2 ip k" if "(off + ?m) div BSIZE \<le> k" "k * BSIZE < off + ?m + (rem - ?m)" for k
            using less.prems(3) [of k] that m read_only_file(3) [OF ro] div_le_mono [of off "off + ?m" BSIZE] by simp
        qed
        moreover have "slice (off mod BSIZE) ?m (b_data (bcache s1 bp)) = map (fbyte s ip) [off..<off + ?m]"
          using block_part [OF chunk_fits length_blk [OF less.prems(1)]] d read_onlyD(2) [OF t] by simp
        moreover have "map (fbyte s ip) [off..<off + ?m] @ map (fbyte s ip) [off + ?m..<off + rem] = map (fbyte s ip) [off..<off + rem]"
          using m upt_add_eq_append [of off "off + ?m" "rem - ?m"] by simp
        ultimately show "wp (rbind (readi_loop ip (rem - ?m) (off + ?m) (brelse bp s1))
            (\<lambda>(rest, s1'). Ok (slice (off mod BSIZE) ?m (b_data (bcache s1 bp)) @ rest, s1')))
          (\<lambda>(dst, s'). dst = map (fbyte s ip) [off..<off + rem] \<and> read_only s s')"
          unfolding s2(1) [symmetric]
          using read_only_file(4) [OF ro] read_only_trans [OF ro] m by (auto elim!: wp_mono)
      qed
      then show "wp (case x of (addr, s) \<Rightarrow> rbind (bread addr s) (\<lambda>(bp, s).
          rbind (readi_loop ip (rem - ?m) (off + ?m) (brelse bp s)) (\<lambda>(rest, s1). Ok (slice (off mod BSIZE) ?m (b_data (bcache s bp)) @ rest, s1))))
        (\<lambda>(dst, s'). dst = map (fbyte s ip) [off..<off + rem] \<and> read_only s s')"
        by (simp add: x del: wp_rbind)
    qed
  qed
qed

section \<open>Writing\<close>

text \<open>
  A file whose first \<open>N\<close> blocks may be overwritten: they are mapped, distinct, outside the log, and
  not blocks of the map itself.
\<close>

definition map_blocks :: "'a fs_state_scheme \<Rightarrow> nat \<Rightarrow> nat \<Rightarrow> uint set" where
  "map_blocks s ip N = (if NDIRECT < N then insert (i_addrs (icache s ip) ! NDIRECT) (fmid s ip ` {NDIRECT..<N}) else {})"

definition writable :: "'a fs_state_scheme \<Rightarrow> nat \<Rightarrow> nat \<Rightarrow> bool" where
  "writable s ip N \<longleftrightarrow> (\<forall>k < N. mapped s ip k \<and> fmap s ip k \<notin> log_area s \<and> fmap s ip k \<notin> map_blocks s ip N) \<and>
     inj_on (fmap s ip) {..<N}"

text \<open>Overwriting a data block leaves the map as it was.\<close>

lemma data_write_map:
  assumes w: "writable s ip N" and k: "k < N" and b: "blk s' = (blk s)(fmap s ip k := d)" "icache s' = icache s" "log_area s' = log_area s"
  shows "\<And>j. NDIRECT \<le> j \<Longrightarrow> j < N \<Longrightarrow> fmid s' ip j = fmid s ip j" "\<And>j. j < N \<Longrightarrow> fmap s' ip j = fmap s ip j" "writable s' ip N"
proof -
  have nm: "fmap s ip k \<notin> map_blocks s ip N" using w k by (simp add: writable_def)
  show mid: "fmid s' ip j = fmid s ip j" if "NDIRECT \<le> j" "j < N" for j
    using that nm b by (auto simp: map_blocks_def fmid_def split: if_splits)
  show mp: "fmap s' ip j = fmap s ip j" if "j < N" for j
  proof (cases "j < NDIRECT")
    case False
    then have "fmid s ip j \<in> map_blocks s ip N" using that by (auto simp: map_blocks_def)
    then show ?thesis using False that mid [of j] nm b by (auto simp: fmap_def)
  qed (simp add: fmap_def b)
  have "map_blocks s' ip N = map_blocks s ip N"
    using mid b(2) by (auto simp: map_blocks_def)
  then show "writable s' ip N"
    using w mp mid b by (auto simp: writable_def mapped_def inj_on_def)
qed

lemma data_write_bytes:
  assumes w: "writable s ip N" and k: "off div BSIZE < N" and m: "off mod BSIZE + length xs \<le> BSIZE" and len: "\<And>n. length (blk s n) = BSIZE"
    and b: "blk s' = (blk s)(fmap s ip (off div BSIZE) := patch (off mod BSIZE) xs (blk s (fmap s ip (off div BSIZE))))"
      "icache s' = icache s" "log_area s' = log_area s"
    and p: "pos div BSIZE < N"
  shows "fbyte s' ip pos = (if off \<le> pos \<and> pos < off + length xs then xs ! (pos - off) else fbyte s ip pos)"
proof -
  let ?k = "off div BSIZE"
  have mp: "fmap s' ip (pos div BSIZE) = fmap s ip (pos div BSIZE)"
    by (rule data_write_map(2) [OF w k b p])
  have od: "off = ?k * BSIZE + off mod BSIZE" and pd: "pos = pos div BSIZE * BSIZE + pos mod BSIZE" by simp_all
  have lt: "off mod BSIZE < BSIZE" "pos mod BSIZE < BSIZE" by (simp_all add: BSIZE_def)
  show ?thesis
  proof (cases "pos div BSIZE = ?k")
    case True
    then have "(off \<le> pos \<and> pos < off + length xs) \<longleftrightarrow> (off mod BSIZE \<le> pos mod BSIZE \<and> pos mod BSIZE < off mod BSIZE + length xs)"
      "off mod BSIZE \<le> pos mod BSIZE \<Longrightarrow> pos - off = pos mod BSIZE - off mod BSIZE"
      using od pd by (metis add_le_cancel_left add_less_cancel_left add.assoc, metis diff_add_inverse2 add_diff_cancel_left od pd)
    then show ?thesis
      using True mp b(1) m len lt nth_patch [of "off mod BSIZE" xs "blk s (fmap s ip ?k)" "pos mod BSIZE"] by (auto simp: fbyte_def)
  next
    case False
    then have "fmap s ip (pos div BSIZE) \<noteq> fmap s ip ?k" using w k p by (auto simp: writable_def inj_on_def)
    moreover have "\<not> (off \<le> pos \<and> pos < off + length xs)"
    proof
      assume a: "off \<le> pos \<and> pos < off + length xs"
      have "off + length xs \<le> ?k * BSIZE + BSIZE" using m od by linarith
      then have "pos < Suc ?k * BSIZE" using a by simp
      then have "pos div BSIZE < Suc ?k" by (simp add: less_mult_imp_div_less)
      moreover have "?k \<le> pos div BSIZE" using a by (simp add: div_le_mono)
      ultimately show False using False by simp
    qed
    ultimately show ?thesis using mp b(1) by (auto simp: fbyte_def)
  qed
qed

text \<open>How many rounds the copying loop makes.\<close>

definition rounds :: "nat \<Rightarrow> nat \<Rightarrow> nat" where
  "rounds rem off = (if rem = 0 then 0 else (off mod BSIZE + rem + (BSIZE - 1)) div BSIZE)"

lemma rounds_step: "0 < rem \<Longrightarrow> rounds rem off = Suc (rounds (rem - chunk rem off) (off + chunk rem off))"
proof -
  assume r: "0 < rem"
  have lt: "off mod 512 < 512" by simp
  show ?thesis
  proof (cases "rem \<le> 512 - off mod 512")
    case True
    then have "chunk rem off = rem" by (simp add: chunk_def BSIZE_def)
    moreover have "(off mod 512 + rem + 511) div 512 = 1" using True r lt by (intro div_nat_eqI) auto
    ultimately show ?thesis using r by (simp add: rounds_def BSIZE_def)
  next
    case False
    then have c: "chunk rem off = 512 - off mod 512" by (simp add: chunk_def BSIZE_def)
    have "off + (512 - off mod 512) = 512 * Suc (off div 512)" using lt mult_div_mod_eq [of 512 off] unfolding mult_Suc_right by linarith
    then have "(off + (512 - off mod 512)) mod 512 = 0" by (simp only: mod_mult_self1_is_0)
    moreover have "off mod 512 + rem + 511 = (rem - (512 - off mod 512) + 511) + 512" using False lt by simp
    then have "(off mod 512 + rem + 511) div 512 = Suc ((rem - (512 - off mod 512) + 511) div 512)" by simp
    moreover have "\<not> rem + off mod 512 \<le> 512" using False lt by linarith
    ultimately show ?thesis using r False by (simp add: rounds_def BSIZE_def c)
  qed
qed

definition write_effect :: "nat \<Rightarrow> bytes \<Rightarrow> nat \<Rightarrow> nat \<Rightarrow> nat \<Rightarrow> 'a fs_state_scheme \<Rightarrow> 'a fs_state_scheme \<Rightarrow> bool" where
  "write_effect ip src rem off N s s' \<longleftrightarrow> tx_inv s' \<and> writable s' ip N \<and> refs s' = refs s \<and> tx_frame s s' \<and>
     room s \<le> room s' + rounds rem off \<and>
     (\<forall>pos. pos div BSIZE < N \<longrightarrow> fbyte s' ip pos = (if off \<le> pos \<and> pos < off + rem then src ! (pos - off) else fbyte s ip pos)) \<and>
     (\<forall>n. n \<notin> fmap s ip ` {..<N} \<longrightarrow> blk s' n = blk s n) \<and> (\<forall>j < N. fmap s' ip j = fmap s ip j)"

lemma write_effect_seq:
  assumes "0 < rem" "m = chunk rem off" "m \<le> length src"
    and "tx_frame s t" "refs t = refs s" "room s \<le> Suc (room t)" "\<And>j. j < N \<Longrightarrow> fmap t ip j = fmap s ip j"
    and "\<And>pos. pos div BSIZE < N \<Longrightarrow> fbyte t ip pos = (if off \<le> pos \<and> pos < off + m then src ! (pos - off) else fbyte s ip pos)"
    and "\<And>n. n \<notin> fmap s ip ` {..<N} \<Longrightarrow> blk t n = blk s n"
    and w: "write_effect ip (drop m src) (rem - m) (off + m) N t s'"
  shows "write_effect ip src rem off N s s'"
proof -
  have img: "fmap t ip ` {..<N} = fmap s ip ` {..<N}" using assms(7) by (auto simp: image_def)
  have m: "m \<le> rem" using chunk_pos(2) assms(2) by simp
  have "fbyte s' ip pos = (if off \<le> pos \<and> pos < off + rem then src ! (pos - off) else fbyte s ip pos)"
    if "pos div BSIZE < N" for pos
  proof -
    have 1: "fbyte s' ip pos = (if off + m \<le> pos \<and> pos < off + m + (rem - m) then drop m src ! (pos - (off + m)) else fbyte t ip pos)"
      using w that by (simp add: write_effect_def)
    show ?thesis
    proof (cases "off + m \<le> pos \<and> pos < off + rem")
      case True
      then have "drop m src ! (pos - (off + m)) = src ! (pos - off)" using assms(3) by simp
      then show ?thesis using 1 True m by simp
    next
      case False
      then show ?thesis using 1 assms(8) [OF that] m by auto
    qed
  qed
  moreover have "room s \<le> room s' + rounds rem off"
    using w assms(6) rounds_step [OF assms(1), of off] assms(2) by (simp add: write_effect_def)
  ultimately show ?thesis
    using w assms(4,5,7,9) img tx_frame_trans [OF assms(4)] by (simp add: write_effect_def)
qed

lemma writable_read_only:
  assumes "read_only s t"
  shows "writable t ip N = writable s ip N"
proof -
  note e = read_only_file [OF assms] bio_frame_fs(1) [OF read_onlyD(4) [OF assms]]
  have "log_area t = log_area s" using log_area_frame read_onlyD(4) [OF assms] by auto
  then show ?thesis using e by (simp add: writable_def map_blocks_def)
qed

lemma writei_loop_spec:
  assumes "tx_inv s" "roomy 1 s" "writable s ip N" "off + rem \<le> N * BSIZE" "rem \<le> length src" "rounds rem off \<le> room s"
  shows "wp (writei_loop ip src rem off s) (write_effect ip src rem off N s)"
  using assms
proof (induction rem arbitrary: off s src rule: less_induct)
  case (less rem)
  show ?case
  proof (cases "rem = 0")
    case True
    then show ?thesis using less.prems by (subst writei_loop.simps) (auto simp: write_effect_def)
  next
    case False
    let ?m = "chunk rem off" and ?k = "off div BSIZE"
    have m: "0 < ?m" "?m \<le> rem" "\<not> ?m > length src" using chunk_pos [of rem off] False less.prems(5) by auto
    have k: "?k < N" using False less.prems(4) by (intro less_mult_imp_div_less) linarith
    then have mp: "mapped s ip ?k" "fmap s ip ?k \<notin> log_area s" "fmap s ip ?k \<noteq> 0" using less.prems(3) by (auto simp: writable_def mapped_def)
    note binv = tx_inv_bio [OF less.prems(1)]
    have eq: "writei_loop ip src rem off s = rbind (bmap ip (of_nat ?k) s) (\<lambda>(addr, s).
        rbind (bread addr s) (\<lambda>(bp, s).
            rbind (log_write bp (set_data bp (patch (off mod BSIZE) (take ?m src) (b_data (bcache s bp))) s)) (\<lambda>s.
              writei_loop ip (drop ?m src) (rem - ?m) (off + ?m) (brelse bp s))))"
      using False m(3) by (subst writei_loop.simps) (simp add: Let_def)
    show ?thesis unfolding eq
    proof (rule wp_mono_bind [OF bmap_mapped [OF binv less.prems(2) mp(1)]])
      fix x
      assume "case x of (a, s') \<Rightarrow> a = fmap s ip ?k \<and> read_only s s'"
      then obtain t where x: "x = (fmap s ip ?k, t)" and t: "read_only s t" by auto
      note ro = read_onlyD [OF t]
      have tt: "tx_inv t" "room t = room s" using tx_inv_frame [OF ro(4,1) less.prems(1)] by auto
      have la: "log_area t = log_area s" using log_area_frame [OF ro(4)] by simp
      note ft = read_only_file [OF t] and wt = writable_read_only [OF t]
      let ?n = "fmap s ip ?k" and ?d = "patch (off mod BSIZE) (take ?m src) (blk s (fmap s ip ?k))"
      have len: "length (blk s b) = BSIZE" for b by (rule length_blk [OF binv])
      have ld: "length ?d = BSIZE" using len chunk_fits [of off rem] m(3) by simp
      have "wp (rbind (bread ?n t) (\<lambda>(bp, s).
            rbind (log_write bp (set_data bp (patch (off mod BSIZE) (take ?m src) (b_data (bcache s bp))) s)) (\<lambda>s.
              writei_loop ip (drop ?m src) (rem - ?m) (off + ?m) (brelse bp s)))) (write_effect ip src rem off N s)"
      proof (rule wp_tx_bread [OF tt(1)])
        show "can_read t ?n" using ro(5) [of 1] less.prems(2) mp(3) by (intro roomy_can_read [of 1]) auto
        show "?n \<notin> log_area t" using la mp by simp
        fix bp s1
        assume s1: "tx_inv s1" "blk s1 = blk t" "refs s1 = (refs t)(?n := Suc (refs t ?n))" "holds s1 bp ?n"
          "?n \<notin> log_area s1" "b_data (bcache s1 bp) = blk t ?n" "room s1 = room t" "tx_frame t s1"
        have r1: "0 < room s1" using s1(7) tt(2) less.prems(6) rounds_step [of rem off] False by simp
        show "wp (rbind (log_write bp (set_data bp (patch (off mod BSIZE) (take ?m src) (b_data (bcache s1 bp))) s1)) (\<lambda>s.
              writei_loop ip (drop ?m src) (rem - ?m) (off + ?m) (brelse bp s))) (write_effect ip src rem off N s)"
          unfolding s1(6) ro(2)
        proof (rule wp_log_write [OF s1(1,4,5) r1 ld])
          fix s2
          assume s2: "tx_inv s2" "blk s2 = (blk s1)(?n := ?d)" "refs s2 = refs s1" "holds s2 bp ?n" "?n \<notin> log_area s2"
            "room s1 \<le> Suc (room s2)" "tx_frame s1 s2"
          note r = tx_release [OF s2(1,4,5)]
          define u where "u = brelse bp s2"
          have fu: "tx_frame s u" unfolding u_def
            by (rule tx_frame_trans [OF bio_tx_frame [OF ro(4)] tx_frame_trans [OF s1(8) tx_frame_trans [OF s2(7) r(5)]]])
          have bu: "blk u = (blk s)(?n := ?d)" using r(2) s2(2) s1(2) ro(2) by (simp add: u_def)
          have ru: "refs u = refs s" using r(3) s2(3) s1(3) ro(3) by (simp add: u_def fun_eq_iff)
          have mu: "room s \<le> Suc (room u)" using r(4) s2(6) s1(7) tt(2) by (simp add: u_def)
          note iu = tx_frame_fs(1) [OF fu] tx_frame_same(6) [OF fu]
          note dm = data_write_map [OF less.prems(3) k bu iu]
          have by': "fbyte u ip pos = (if off \<le> pos \<and> pos < off + ?m then src ! (pos - off) else fbyte s ip pos)"
            if "pos div BSIZE < N" for pos
            using data_write_bytes [OF less.prems(3) k _ len bu iu that] m(3) chunk_fits [of off rem] by auto
          have "wp (writei_loop ip (drop ?m src) (rem - ?m) (off + ?m) u) (write_effect ip (drop ?m src) (rem - ?m) (off + ?m) N u)"
          proof (rule less.IH)
            show "rem - ?m < rem" using m by simp
            show "tx_inv u" using r(1) by (simp add: u_def)
            show "roomy 1 u" using roomy_cong [OF ru] less.prems(2) by simp
            show "writable u ip N" by (rule dm(3))
            show "off + ?m + (rem - ?m) \<le> N * BSIZE" "rem - ?m \<le> length (drop ?m src)" using less.prems(4,5) m by simp_all
            show "rounds (rem - ?m) (off + ?m) \<le> room u" using mu less.prems(6) rounds_step [of rem off] False by simp
          qed
          then show "wp (writei_loop ip (drop ?m src) (rem - ?m) (off + ?m) (brelse bp s2)) (write_effect ip src rem off N s)"
            unfolding u_def [symmetric]
          proof (rule wp_mono)
            fix s' assume "write_effect ip (drop ?m src) (rem - ?m) (off + ?m) N u s'"
            then show "write_effect ip src rem off N s s'"
              by (rule write_effect_seq [OF _ refl _ fu ru mu dm(2) by', rotated -1]) (use False m(3) bu k in auto)
          qed
        qed
      qed
      then show "wp (case x of (addr, s) \<Rightarrow> rbind (bread addr s) (\<lambda>(bp, s).
            rbind (log_write bp (set_data bp (patch (off mod BSIZE) (take ?m src) (b_data (bcache s bp))) s)) (\<lambda>s.
              writei_loop ip (drop ?m src) (rem - ?m) (off + ?m) (brelse bp s)))) (write_effect ip src rem off N s)"
        by (simp add: x del: wp_rbind)
    qed
  qed
qed

section \<open>Properties\<close>

lemma readi_clip:
  assumes "off \<le> sz" "\<not> off + n < (off :: uint)"
  shows "unat (if off + n > sz then sz - off else n) = min (unat n) (unat sz - unat off)"
proof -
  have nw: "unat (off + n) = unat off + unat n" using assms(2) by (metis not_le unat_plus_simple)
  have "unat (sz - off) = unat sz - unat off" using assms(1) by (simp add: unat_sub)
  then show ?thesis using nw assms(1) by (auto simp: word_less_nat_alt word_le_nat_alt)
qed

lemma readi_spec:
  assumes "bio_inv s" "roomy 1 s" "i_size (icache s ip) < 2 ^ 31"
    "\<And>k. k * BSIZE < unat (i_size (icache s ip)) \<Longrightarrow> mapped s ip k"
    and c: "off \<le> i_size (icache s ip)" "\<not> off + n < off"
    and len: "len = min (unat n) (unat (i_size (icache s ip)) - unat off)"
  shows "\<exists>s'. readi ip off n s = Ok (int len, map (fbyte s ip) [unat off..<unat off + len], s') \<and> read_only s s'"
proof -
  let ?sz = "i_size (icache s ip)" and ?n = "if off + n > i_size (icache s ip) then i_size (icache s ip) - off else n"
  have ln: "unat ?n = len" unfolding len using c by (intro readi_clip) auto
  have le: "unat off + len \<le> unat ?sz" using c by (auto simp: len word_le_nat_alt)
  have "unat ?n < 2 ^ 31" using le ln assms(3) by (simp add: word_less_nat_alt)
  then have si: "sint ?n = int len" using ln sint_small [of "int len"] by (metis of_int_of_nat_eq of_nat_0_le_iff of_nat_less_numeral_power_cancel_iff word_nat_of_unat_id)
  have "wp (readi_loop ip len (unat off) s) (\<lambda>(dst, s'). dst = map (fbyte s ip) [unat off..<unat off + len] \<and> read_only s s')"
    using assms(1-4) le by (intro readi_loop_spec) auto
  then obtain s' where s': "readi_loop ip len (unat off) s = Ok (map (fbyte s ip) [unat off..<unat off + len], s')" "read_only s s'"
    by (auto simp: wp_iff)
  have "\<not> (off > ?sz \<or> off + n < off)" using c by auto
  then have "readi ip off n s = Ok (int len, map (fbyte s ip) [unat off..<unat off + len], s')"
    using s'(1) unfolding readi_def Let_def ln si by simp
  then show ?thesis using s'(2) by blast
qed

lemma writei_spec:
  assumes "tx_inv s" "roomy 1 s" "writable s ip N" "unat off + unat n \<le> unat (i_size (icache s ip))"
    "unat (i_size (icache s ip)) \<le> N * BSIZE" "N \<le> MAXFILE" "unat n \<le> length src" "rounds (unat n) (unat off) \<le> room s"
  shows "\<exists>s'. writei ip src off n s = Ok (int (unat n), s') \<and> write_effect ip src (unat n) (unat off) N s s'"
proof -
  let ?sz = "i_size (icache s ip)"
  have bound: "N * BSIZE \<le> 8394240" using assms(6) by (simp add: MAXFILE_val BSIZE_def)
  then have nw: "unat (off + n) = unat off + unat n" using assms(4,5) by (simp add: unat_word_ariths)
  have c: "\<not> (off > ?sz \<or> off + n < off)" "\<not> off + n > of_nat (MAXFILE * BSIZE)" "\<not> off + n > ?sz"
    using assms(4,5) nw bound by (auto simp: word_less_nat_alt word_le_nat_alt MAXFILE_val BSIZE_def)
  have small: "unat n < 2 ^ 31" using assms(4,5) bound by simp
  then have si: "sint n = int (unat n)" using sint_small [of "int (unat n)"]
    by (metis of_int_of_nat_eq of_nat_0_le_iff of_nat_less_numeral_power_cancel_iff word_nat_of_unat_id)
  obtain s' where s': "writei_loop ip src (unat n) (unat off) s = Ok s'" "write_effect ip src (unat n) (unat off) N s s'"
    using writei_loop_spec [of s ip N "unat off" "unat n" src] assms by (auto simp: wp_iff)
  have "icache s' = icache s" using s'(2) tx_frame_fs(1) [of s s'] by (simp add: write_effect_def)
  then have "writei ip src off n s = Ok (int (unat n), s')" using c s'(1) si by (simp add: writei_def Let_def)
  then show ?thesis using s'(2) by blast
qed

text \<open>
  Reading a file: past the end, or when the range wraps around, \<open>readi\<close> returns -1 and no bytes;
  otherwise it returns exactly the bytes of the file from \<open>off\<close> on, as many as asked for and the
  file has, and changes no contents anywhere.
\<close>

theorem readi_correct:
  assumes "bio_inv s" "roomy 1 s" "i_size (icache s ip) < 2 ^ 31"
    "\<And>k. k * BSIZE < unat (i_size (icache s ip)) \<Longrightarrow> mapped s ip k"
  shows "if off > i_size (icache s ip) \<or> off + n < off then readi ip off n s = Ok (-1, [], s)
    else \<exists>s' len. len = min (unat n) (unat (i_size (icache s ip)) - unat off) \<and>
      readi ip off n s = Ok (int len, map (fbyte s ip) [unat off..<unat off + len], s') \<and> blk s' = blk s \<and> refs s' = refs s"
proof (cases "off > i_size (icache s ip) \<or> off + n < off")
  case True
  then show ?thesis by (simp add: readi_def Let_def)
next
  case False
  then have c: "off \<le> i_size (icache s ip)" "\<not> off + n < off" by (auto simp: not_less)
  obtain s' where "readi ip off n s = Ok (int (min (unat n) (unat (i_size (icache s ip)) - unat off)),
      map (fbyte s ip) [unat off..<unat off + min (unat n) (unat (i_size (icache s ip)) - unat off)], s')" "read_only s s'"
    using readi_spec [OF assms c refl] by blast
  then show ?thesis unfolding if_not_P [OF False] using read_onlyD(2,3) by blast
qed

text \<open>
  Writing over existing contents inside a transaction with enough room: \<open>writei\<close> returns the number of
  bytes, afterwards the range holds the source bytes and every other byte of the file is as it
  was, and no block that does not belong to the file's data changes.
\<close>

theorem writei_overwrites:
  assumes "tx_inv s" "roomy 1 s" "writable s ip N" "unat off + unat n \<le> unat (i_size (icache s ip))"
    "unat (i_size (icache s ip)) \<le> N * BSIZE" "N \<le> MAXFILE" "unat n \<le> length src" "rounds (unat n) (unat off) \<le> room s"
  shows "\<exists>s'. writei ip src off n s = Ok (int (unat n), s') \<and> tx_inv s' \<and> refs s' = refs s \<and>
    (\<forall>pos. pos div BSIZE < N \<longrightarrow>
       fbyte s' ip pos = (if unat off \<le> pos \<and> pos < unat off + unat n then src ! (pos - unat off) else fbyte s ip pos)) \<and>
    (\<forall>b. b \<notin> fmap s ip ` {..<N} \<longrightarrow> blk s' b = blk s b)"
  using writei_spec [OF assms] unfolding write_effect_def by blast

text \<open>A file of 700 bytes in blocks 170 and 171.\<close>

definition demo_file :: fs_state where
  "demo_file = upd_inode 0 (\<lambda>i. i\<lparr>i_inum := 3, i_ref := 1, i_valid := True, i_type := 2, i_nlink := 1, i_size := 700,
     i_addrs := [170, 171] @ replicate 10 0\<rparr>) demo_fs"

lemma demo_file_simps:
  "tx_inv demo_file" "bio_inv demo_file" "roomy 1 demo_file" "room demo_file = 99" "i_size (icache demo_file 0) = 700"
  "i_addrs (icache demo_file 0) = [170, 171] @ replicate 10 0" "log_area demo_file = log_area demo_fs"
  using demo_fs_ok roomy_cong [of demo_file demo_fs 1] tx_inv_bio [of demo_file]
  by (simp_all add: demo_file_def demo_fs_simps room_def LOGSIZE_def)

lemma demo_file_mapped:
  "fmap demo_file 0 0 = 170" "fmap demo_file 0 1 = 171" "mapped demo_file 0 0" "mapped demo_file 0 1"
  by (simp_all add: fmap_def mapped_def demo_file_simps MAXFILE_val)

lemma less_2_cases: "k < 2 \<Longrightarrow> k = 0 \<or> k = (1 :: nat)"
  by auto

lemma demo_file_writable: "writable demo_file 0 2"
proof -
  have "170 \<notin> log_area demo_file" "171 \<notin> log_area demo_file"
    using log_area_unat [of demo_fs 170] log_area_unat [of demo_fs 171] by (simp_all add: demo_file_simps demo_fs_simps LOGSIZE_def)
  moreover have "map_blocks demo_file 0 2 = {}" by (simp add: map_blocks_def MAXFILE_val)
  ultimately show ?thesis
    using demo_file_mapped unfolding writable_def inj_on_def by (auto dest!: less_2_cases)
qed

theorem readi_correct_witness:
  "\<exists>s'. readi 0 510 3 demo_file = Ok (3, map (fbyte demo_file 0) [510..<513], s') \<and> blk s' = blk demo_file"
proof -
  have "mapped demo_file 0 k" if "k * BSIZE < unat (i_size (icache demo_file 0))" for k
    using that demo_file_mapped less_2_cases [of k] by (cases "k < 2") (auto simp: demo_file_simps BSIZE_def)
  then show ?thesis
    using readi_correct [of demo_file 0 510 3, OF demo_file_simps(2,3)] by (auto simp: demo_file_simps)
qed

theorem writei_overwrites_witness:
  "\<exists>s'. writei 0 [1, 2, 3] 510 3 demo_file = Ok (3, s') \<and> fbyte s' 0 511 = 2 \<and> fbyte s' 0 512 = 3 \<and>
     fbyte s' 0 509 = fbyte demo_file 0 509"
proof -
  have "unat (510 :: uint) + unat (3 :: uint) \<le> unat (i_size (icache demo_file 0))" "unat (i_size (icache demo_file 0)) \<le> 2 * BSIZE"
    "2 \<le> MAXFILE" "unat (3 :: uint) \<le> length [1, 2, 3 :: uchar]" "rounds (unat (3 :: uint)) (unat (510 :: uint)) \<le> room demo_file"
    by (simp_all add: demo_file_simps BSIZE_def MAXFILE_val rounds_def)
  from writei_overwrites [OF demo_file_simps(1,3) demo_file_writable this]
  obtain s' where s': "writei 0 [1, 2, 3] 510 3 demo_file = Ok (3, s')" and
    "\<And>pos. pos div BSIZE < 2 \<Longrightarrow>
       fbyte s' 0 pos = (if 510 \<le> pos \<and> pos < 513 then [1, 2, 3] ! (pos - 510) else fbyte demo_file 0 pos)"
    by auto
  from this(2) [of 511] this(2) [of 512] this(2) [of 509] s' show ?thesis by (simp add: BSIZE_def)
qed

end
