(* ===== verification/Ftree.thy ===== *)
theory Ftree
  imports Fdata
begin

text \<open>
  The blocks of a file. They form a tree below the inode: direct blocks, the doubly indirect block, its second-level blocks and
  theirs. \<open>node_addr\<close> gives the block at each place of the tree, zero where there is none. Shown: allocations in a row succeed while
  blocks are to spare, and \<open>bmap\<close> puts a fresh, zeroed block at every missing place on the way to a block of the file and
  changes no other place and no other block in use.
\<close>

section \<open>Allocations one after the other\<close>

text \<open>The free blocks, and those covered by the bitmap block the allocator looks at first.\<close>

definition free_blocks :: "'a fs_state_scheme \<Rightarrow> uint set" where
  "free_blocks s = {b. b < sb_size (fsb s) \<and> \<not> used s b}"

definition near_blocks :: "'a fs_state_scheme \<Rightarrow> uint set" where
  "near_blocks s = {b \<in> free_blocks s. unat b div BPB = unat (lastballoc s) div BPB}"

definition place_ok :: "'a fs_state_scheme \<Rightarrow> bool" where
  "place_ok s \<longleftrightarrow> BPB dvd unat (lastballoc s) \<and> lastbi s < BPB \<and> unat (lastballoc s) + lastbi s < unat (sb_size (fsb s))"

text \<open>
  \<open>k\<close> allocations in a row will succeed: the bitmap block searched first covers \<open>k\<close> free blocks, or the disk has \<open>k\<close>
  free blocks and no bitmap block but the first is cut off by the end of the disk.
\<close>

definition spare :: "nat \<Rightarrow> 'a fs_state_scheme \<Rightarrow> bool" where
  "spare k s \<longleftrightarrow> balloc_ok s \<and> place_ok s \<and>
     (k \<le> card (near_blocks s) \<or> (BPB dvd unat (sb_size (fsb s)) \<or> unat (sb_size (fsb s)) \<le> BPB) \<and> k \<le> card (free_blocks s))"

lemma finite_free [simp]: "finite (free_blocks s)" "finite (near_blocks s)"
  by (simp_all add: near_blocks_def)

lemma spare_mono: "spare k s \<Longrightarrow> j \<le> k \<Longrightarrow> spare j s"
  by (auto simp: spare_def)

lemma place_hint:
  assumes "place_ok s" "BPB dvd unat (sb_size (fsb s)) \<or> unat (sb_size (fsb s)) \<le> BPB"
  shows "hint_ok s"
proof -
  have "unat b + lastbi s < unat (sb_size (fsb s))" if b: "b < sb_size (fsb s)" "BPB dvd unat b" for b
  proof (cases "unat (sb_size (fsb s)) \<le> BPB")
    case True
    then have "unat b < BPB" using b(1) by (simp add: word_less_nat_alt)
    then have "unat b = 0" using b(2) by (auto dest: dvd_imp_le)
    then show ?thesis using assms(1) by (simp add: place_ok_def)
  next
    case False
    then have "unat b + BPB \<le> unat (sb_size (fsb s))" using assms(2) b by (intro dvd_step) (auto simp: word_less_nat_alt)
    then show ?thesis using assms(1) by (simp add: place_ok_def)
  qed
  then show ?thesis using assms(1) by (auto simp: hint_ok_def place_ok_def word_less_nat_alt)
qed

lemma alloc_post_free:
  assumes "alloc_post s c s'"
  shows "fsb s' = fsb s" "free_blocks s' = free_blocks s - {c}" "c \<in> free_blocks s" "place_ok s'" "log_area s' = log_area s" "bmap_area s' = bmap_area s"
proof -
  have f: "fs_frame s s'" using assms by (simp add: alloc_post_def)
  show 1: "fsb s' = fsb s" "log_area s' = log_area s" using fs_frame_same [OF f] by auto
  show "free_blocks s' = free_blocks s - {c}" "c \<in> free_blocks s" using assms 1 by (auto simp: alloc_post_def free_blocks_def)
  show "bmap_area s' = bmap_area s" using 1 by (simp add: bmap_area_def)
  show "place_ok s'" using assms 1 by (auto simp: alloc_post_def place_ok_def word_less_nat_alt)
qed

lemma balloc_ok_shrinks:
  assumes "balloc_ok s" "fsb s' = fsb s" "log_area s' = log_area s" "free_blocks s' \<subseteq> free_blocks s"
  shows "balloc_ok s'"
  using assms unfolding balloc_ok_def bmap_area_def free_blocks_def by auto

lemma balloc_near:
  assumes "alloc_base s" "place_ok s" "near_blocks s \<noteq> {}"
  shows "wp (balloc s) (\<lambda>(c, s'). alloc_post s c s' \<and> lastballoc s' = lastballoc s)"
proof -
  let ?b = "lastballoc s" and ?sz = "sb_size (fsb s)"
  have p: "?b < ?sz" "BPB dvd unat ?b" "lastbi s < lim_of ?sz ?b"
    using assms(2) by (auto simp: place_ok_def word_less_nat_alt lim_of_def)
  obtain c where c: "c < ?sz" "\<not> used s c" "unat c div BPB = unat ?b div BPB" using assms(3) by (auto simp: near_blocks_def free_blocks_def)
  have um: "unat c = unat ?b + unat c mod BPB" using c(3) p(2) by (metis div_mult_mod_eq dvd_div_mult_self)
  have "BBLOCK c (fsb s) = BBLOCK ?b (fsb s)" using c(3) by (simp add: BBLOCK_eq)
  then have f: "free_in s ?b"
    using c um unfolding free_in_def used_def lim_of_def by (intro exI [of _ "unat c mod BPB"]) (auto simp: word_less_nat_alt)
  show ?thesis unfolding balloc_def add_2_eq_Suc'
    by (rule balloc_visit_at [OF assms(1) p]) (use f in auto)
qed

lemma balloc_spare:
  assumes "spare (Suc k) s" "tx_inv s" "roomy 1 s" "2 \<le> room s"
  shows "wp (balloc s) (\<lambda>(c, s'). alloc_post s c s' \<and> spare k s')"
proof -
  have ok: "balloc_ok s" "place_ok s" using assms(1) by (simp_all add: spare_def)
  have post: "balloc_ok s'" if "alloc_post s c s'" for c s'
    using balloc_ok_shrinks [OF ok(1)] alloc_post_free [OF that] by blast
  show ?thesis
  proof (cases "Suc k \<le> card (near_blocks s)")
    case True
    then have "near_blocks s \<noteq> {}" by auto
    then have "wp (balloc s) (\<lambda>(c, s'). alloc_post s c s' \<and> lastballoc s' = lastballoc s)"
      using assms ok by (intro balloc_near) (auto simp: alloc_base_def)
    then show ?thesis
    proof (rule wp_mono_pair)
      fix c s' assume "alloc_post s c s' \<and> lastballoc s' = lastballoc s"
      then have a: "alloc_post s c s'" "lastballoc s' = lastballoc s" by auto
      note f = alloc_post_free [OF a(1)]
      have "near_blocks s' = near_blocks s - {c}" using f(2) a(2) by (auto simp: near_blocks_def)
      then have "k \<le> card (near_blocks s')" using True by (cases "c \<in> near_blocks s") auto
      then show "alloc_post s c s' \<and> spare k s'" using a(1) post f by (simp add: spare_def)
    qed
  next
    case False
    then have d: "BPB dvd unat (sb_size (fsb s)) \<or> unat (sb_size (fsb s)) \<le> BPB" "Suc k \<le> card (free_blocks s)"
      using assms(1) by (auto simp: spare_def)
    then have "free_blocks s \<noteq> {}" by auto
    then obtain b where "b < sb_size (fsb s)" "\<not> used s b" by (auto simp: free_blocks_def)
    moreover have "alloc_pre s" using assms ok place_hint [OF ok(2) d(1)] by (simp add: alloc_pre_def)
    ultimately have "wp (balloc s) (\<lambda>(c, s'). alloc_post s c s')" by (intro balloc_spec)
    then show ?thesis
    proof (rule wp_mono_pair)
      fix c s' assume a: "alloc_post s c s'"
      note f = alloc_post_free [OF a]
      have "k \<le> card (free_blocks s')" using d(2) f(2,3) by simp
      then show "alloc_post s c s' \<and> spare k s'" using a post f d(1) by (simp add: spare_def)
    qed
  qed
qed

section \<open>The tree of blocks\<close>

datatype node = Top | Mid nat | Leaf nat

definition mid_addr :: "'a fs_state_scheme \<Rightarrow> nat \<Rightarrow> nat \<Rightarrow> uint" where
  "mid_addr s ip j = (let top = i_addrs (icache s ip) ! NDIRECT in if top = 0 then 0 else get32 (blk s top) (4 * j))"

definition leaf_addr :: "'a fs_state_scheme \<Rightarrow> nat \<Rightarrow> nat \<Rightarrow> uint" where
  "leaf_addr s ip k =
     (if k < NDIRECT then i_addrs (icache s ip) ! k
      else let mid = mid_addr s ip ((k - NDIRECT) div NINDIRECT)
        in if mid = 0 then 0 else get32 (blk s mid) (4 * ((k - NDIRECT) mod NINDIRECT)))"

fun node_addr :: "'a fs_state_scheme \<Rightarrow> nat \<Rightarrow> node \<Rightarrow> uint" where
  "node_addr s ip Top = i_addrs (icache s ip) ! NDIRECT"
| "node_addr s ip (Mid j) = mid_addr s ip j"
| "node_addr s ip (Leaf k) = leaf_addr s ip k"

lemma node_addr_unfold:
  "node_addr s ip Top = i_addrs (icache s ip) ! NDIRECT"
  "node_addr s ip (Mid j) = (if node_addr s ip Top = 0 then 0 else get32 (blk s (node_addr s ip Top)) (4 * j))"
  "node_addr s ip (Leaf k) =
     (if k < NDIRECT then i_addrs (icache s ip) ! k
      else if node_addr s ip (Mid ((k - NDIRECT) div NINDIRECT)) = 0 then 0
      else get32 (blk s (node_addr s ip (Mid ((k - NDIRECT) div NINDIRECT)))) (4 * ((k - NDIRECT) mod NINDIRECT)))"
  by (simp_all add: mid_addr_def leaf_addr_def Let_def)

declare node_addr.simps [simp del]

definition nodes :: "node set" where
  "nodes = insert Top (Mid ` {..<NINDIRECT} \<union> Leaf ` {..<MAXFILE})"

definition inner :: "node set" where
  "inner = insert Top (Mid ` {..<NINDIRECT})"

lemma nodes_simps [simp]:
  "Top \<in> nodes" "Mid j \<in> nodes \<longleftrightarrow> j < NINDIRECT" "Leaf k \<in> nodes \<longleftrightarrow> k < MAXFILE"
  "Top \<in> inner" "Mid j \<in> inner \<longleftrightarrow> j < NINDIRECT" "Leaf k \<notin> inner"
  by (auto simp: nodes_def inner_def)

lemma inner_nodes: "p \<in> inner \<Longrightarrow> p \<in> nodes"
  by (auto simp: nodes_def inner_def)

lemma leaf_mid: "k < MAXFILE \<Longrightarrow> \<not> k < NDIRECT \<Longrightarrow> (k - NDIRECT) div NINDIRECT < NINDIRECT" "(k - NDIRECT) mod NINDIRECT < NINDIRECT"
  by (simp_all add: MAXFILE_def less_mult_imp_div_less NINDIRECT_def BSIZE_def)

text \<open>Blocks of the file, at places that exist.\<close>

definition tree_blocks :: "'a fs_state_scheme \<Rightarrow> nat \<Rightarrow> uint set" where
  "tree_blocks s ip = {node_addr s ip p | p. p \<in> nodes \<and> node_addr s ip p \<noteq> 0}"

definition data_block :: "'a fs_state_scheme \<Rightarrow> uint \<Rightarrow> bool" where
  "data_block s b \<longleftrightarrow> b \<noteq> 0 \<and> b < sb_size (fsb s) \<and> used s b \<and> b \<notin> log_area s \<and> b \<notin> bmap_area s"

definition tree_ok :: "'a fs_state_scheme \<Rightarrow> nat \<Rightarrow> bool" where
  "tree_ok s ip \<longleftrightarrow> length (i_addrs (icache s ip)) = NDIRECT + 1 \<and> (\<forall>b \<in> tree_blocks s ip. data_block s b) \<and>
     inj_on (node_addr s ip) {p \<in> nodes. node_addr s ip p \<noteq> 0}"

lemma tree_blocks_image: "tree_blocks s ip = node_addr s ip ` nodes - {0}"
  by (auto simp: tree_blocks_def)

lemma tree_blocksI: "p \<in> nodes \<Longrightarrow> node_addr s ip p \<noteq> 0 \<Longrightarrow> node_addr s ip p \<in> tree_blocks s ip"
  by (auto simp: tree_blocks_def)

lemma tree_node:
  assumes "tree_ok s ip" "p \<in> nodes" "node_addr s ip p \<noteq> 0"
  shows "data_block s (node_addr s ip p)" "q \<in> nodes \<Longrightarrow> node_addr s ip q = node_addr s ip p \<Longrightarrow> q = p"
  using assms tree_blocksI [OF assms(2,3)] by (auto simp: tree_ok_def dest: inj_onD)

text \<open>A leaf that exists is a block of the file as \<open>readi\<close> finds it.\<close>

lemma leaf_mapped:
  assumes "k < MAXFILE" "node_addr s ip (Leaf k) \<noteq> 0"
  shows "mapped s ip k" "fmap s ip k = node_addr s ip (Leaf k)"
proof -
  show 1: "fmap s ip k = node_addr s ip (Leaf k)"
    using assms by (auto simp: fmap_def fmid_def node_addr_unfold split: if_splits)
  show "mapped s ip k"
    using assms 1 by (auto simp: mapped_def fmid_def node_addr_unfold split: if_splits)
qed

text \<open>The places depend on the block addresses in the inode and on the inner blocks only.\<close>

lemma node_addr_cong:
  assumes "i_addrs (icache t ip) = i_addrs (icache s ip)"
    and "\<And>q. q \<in> inner \<Longrightarrow> node_addr s ip q \<noteq> 0 \<Longrightarrow> blk t (node_addr s ip q) = blk s (node_addr s ip q)" and "p \<in> nodes"
  shows "node_addr t ip p = node_addr s ip p"
proof -
  have top: "node_addr t ip Top = node_addr s ip Top" using assms(1) by (simp add: node_addr_unfold)
  have mid: "node_addr t ip (Mid j) = node_addr s ip (Mid j)" if "j < NINDIRECT" for j
    using assms(2) [of Top] top by (simp add: node_addr_unfold(2))
  show ?thesis
  proof (cases p)
    case (Leaf k)
    then have k: "k < MAXFILE" using assms(3) by simp
    show ?thesis
    proof (cases "k < NDIRECT")
      case False
      note m = leaf_mid(1) [OF k False]
      show ?thesis using assms(2) [of "Mid ((k - NDIRECT) div NINDIRECT)"] mid [OF m] m False by (simp add: Leaf node_addr_unfold(3))
    qed (simp add: Leaf node_addr_unfold(3) assms(1))
  qed (use top mid assms(3) in auto)
qed

text \<open>What allocating one more block does to the tree: nothing.\<close>

definition took :: "'a fs_state_scheme \<Rightarrow> uint \<Rightarrow> 'a fs_state_scheme \<Rightarrow> bool" where
  "took s c t \<longleftrightarrow> c < sb_size (fsb s) \<and> \<not> used s c \<and> (\<forall>m < sb_size (fsb s). used t m \<longleftrightarrow> m = c \<or> used s m) \<and>
     blk t c = replicate BSIZE 0 \<and> (\<forall>m. m \<notin> bmap_area s \<longrightarrow> m \<noteq> c \<longrightarrow> blk t m = blk s m) \<and> fs_frame s t \<and> icache t = icache s"

lemma took_from:
  assumes "alloc_post s1 c t" "blk s1 = blk s" "tx_frame s s1"
  shows "took s c t"
proof -
  note f = tx_frame_fs [OF assms(3)]
  have "used s1 = used s" "bmap_area s1 = bmap_area s" using f assms(2) by (simp_all add: used_def bmap_area_def fun_eq_iff)
  then show ?thesis
    using assms(1,2) f fs_frame_trans [OF tx_fs_frame [OF assms(3)], of t] by (auto simp: alloc_post_def took_def)
qed

lemma took_free:
  assumes "took s c t"
  shows "fsb t = fsb s" "free_blocks t = free_blocks s - {c}" "c \<in> free_blocks s" "log_area t = log_area s" "bmap_area t = bmap_area s"
proof -
  have f: "fs_frame s t" using assms by (simp add: took_def)
  show 1: "fsb t = fsb s" "log_area t = log_area s" using fs_frame_same [OF f] by auto
  show "free_blocks t = free_blocks s - {c}" "c \<in> free_blocks s" using assms 1 by (auto simp: took_def free_blocks_def)
  show "bmap_area t = bmap_area s" using 1 by (simp add: bmap_area_def)
qed

lemma took_keeps:
  assumes "took s c t" "balloc_ok s" "tree_ok s ip"
  shows "p \<in> nodes \<Longrightarrow> node_addr t ip p = node_addr s ip p" "c \<notin> tree_blocks s ip"
    "data_block s b \<Longrightarrow> data_block t b \<and> b \<noteq> c \<and> blk t b = blk s b" "c \<noteq> 0"
proof -
  note f = took_free [OF assms(1)]
  have ic: "icache t = icache s" using assms(1) by (simp add: took_def)
  have db: "data_block t b \<and> b \<noteq> c \<and> blk t b = blk s b" if "data_block s b" for b
    using that assms(1) f by (auto simp: data_block_def took_def)
  show "data_block s b \<Longrightarrow> data_block t b \<and> b \<noteq> c \<and> blk t b = blk s b" by (rule db)
  show "c \<notin> tree_blocks s ip" using db assms(3) by (auto simp: tree_ok_def)
  show "p \<in> nodes \<Longrightarrow> node_addr t ip p = node_addr s ip p"
    by (rule node_addr_cong) (use ic db tree_node(1) [OF assms(3)] inner_nodes in auto)
  show "c \<noteq> 0" using f(3) assms(2) by (auto simp: free_blocks_def balloc_ok_def)
qed

section \<open>Parents and children\<close>

definition root :: "node \<Rightarrow> bool" where
  "root p \<longleftrightarrow> p = Top \<or> (\<exists>k < NDIRECT. p = Leaf k)"

fun child :: "node \<Rightarrow> nat \<Rightarrow> node" where
  "child (Mid j) i = Leaf (NDIRECT + j * NINDIRECT + i)"
| "child q i = Mid i"

lemma NINDIRECT_pos [simp]: "0 < NINDIRECT"
  by (simp add: NINDIRECT_def BSIZE_def)

lemma inner_cases:
  assumes "q \<in> inner"
  obtains "q = Top" | j where "q = Mid j" "j < NINDIRECT"
  using assms by (auto simp: inner_def)

lemma child_nodes: "q \<in> inner \<Longrightarrow> i < NINDIRECT \<Longrightarrow> child q i \<in> nodes"
proof (erule inner_cases)
  fix j assume j: "q = Mid j" "j < NINDIRECT" "i < NINDIRECT"
  have "Suc j * NINDIRECT \<le> NINDIRECT * NINDIRECT" using j(2) by (intro mult_le_mono1) simp
  then have "NDIRECT + j * NINDIRECT + i < MAXFILE" using j(3) by (simp add: MAXFILE_def)
  then show ?thesis using j(1) by simp
qed simp

lemma child_not_root [simp]: "\<not> root (child q i)"
  by (cases q) (auto simp: root_def)

lemma nodes_cases:
  assumes "p \<in> nodes"
  obtains "root p" | q i where "q \<in> inner" "i < NINDIRECT" "p = child q i"
proof (cases p)
  case (Mid i)
  then show ?thesis using that(2) [of Top i] assms by simp
next
  case (Leaf k)
  show ?thesis
  proof (cases "k < NDIRECT")
    case False
    have "p = child (Mid ((k - NDIRECT) div NINDIRECT)) ((k - NDIRECT) mod NINDIRECT)" using False by (simp add: Leaf)
    then show ?thesis by (rule that(2) [rotated 2]) (use leaf_mid [of k] False assms Leaf in simp_all)
  qed (use that(1) Leaf root_def in auto)
qed (use that(1) root_def in auto)

lemma node_addr_child:
  assumes "q \<in> inner" "i < NINDIRECT"
  shows "node_addr s ip (child q i) = (if node_addr s ip q = 0 then 0 else get32 (blk s (node_addr s ip q)) (4 * i))"
  using assms by (elim inner_cases) (simp_all add: node_addr_unfold)

lemma child_inject:
  assumes "child q i = child r j" "q \<in> inner" "r \<in> inner" "i < NINDIRECT" "j < NINDIRECT"
  shows "q = r \<and> i = j"
proof (cases q)
  case (Mid a)
  then obtain b where r: "r = Mid b" using assms(1) by (cases r) auto
  then have e: "a * NINDIRECT + i = b * NINDIRECT + j" using assms(1) Mid by simp
  have "(a * NINDIRECT + i) div NINDIRECT = a" "(b * NINDIRECT + j) div NINDIRECT = b" using assms(4,5) by simp_all
  then have "a = b" using e by simp
  then show ?thesis using e Mid r by simp
qed (use assms in \<open>auto elim!: inner_cases\<close>)

lemma get32_zeroes: "i < NINDIRECT \<Longrightarrow> get32 (replicate BSIZE 0) (4 * i) = 0"
  by (simp add: get32_def NINDIRECT_def BSIZE_def be32_def)

text \<open>A block full of zeroes put at one place: the other places stay what they were.\<close>

lemma relink:
  assumes p: "node_addr s ip p = 0" and zero: "blk s' c = replicate BSIZE 0"
    and rt: "\<And>q. root q \<Longrightarrow> node_addr s' ip q = (if q = p then c else node_addr s ip q)"
    and slot: "\<And>q i. q \<in> inner \<Longrightarrow> i < NINDIRECT \<Longrightarrow> node_addr s ip q \<noteq> 0 \<Longrightarrow>
      get32 (blk s' (node_addr s ip q)) (4 * i) = (if child q i = p then c else get32 (blk s (node_addr s ip q)) (4 * i))"
    and parent: "\<And>q i. q \<in> inner \<Longrightarrow> i < NINDIRECT \<Longrightarrow> p = child q i \<Longrightarrow> node_addr s ip q \<noteq> 0"
    and q: "q \<in> nodes"
  shows "node_addr s' ip q = (if q = p then c else node_addr s ip q)"
proof -
  have step: "node_addr s' ip (child r i) = (if child r i = p then c else node_addr s ip (child r i))"
    if r: "r \<in> inner" "i < NINDIRECT" "node_addr s' ip r = (if r = p then c else node_addr s ip r)" for r i
  proof (cases "r = p")
    case True
    have "child r i \<noteq> p" using parent [OF r(1,2)] p True by auto
    then show ?thesis using True r p zero get32_zeroes [OF r(2)] by (simp add: node_addr_child)
  next
    case False
    then show ?thesis using r slot [OF r(1,2)] parent [OF r(1,2)] by (auto simp: node_addr_child)
  qed
  have top: "node_addr s' ip Top = (if Top = p then c else node_addr s ip Top)" by (rule rt) (simp add: root_def)
  have inn: "node_addr s' ip r = (if r = p then c else node_addr s ip r)" if "r \<in> inner" for r
    using that top step [of Top] by (elim inner_cases) auto
  from q show ?thesis by (cases rule: nodes_cases) (use rt step inn in auto)
qed

lemma tree_ok_attach:
  assumes "tree_ok s ip" "p \<in> nodes" "node_addr s ip p = 0" "c \<notin> tree_blocks s ip" "data_block s' c"
    and db: "\<And>b. data_block s b \<Longrightarrow> data_block s' b" and len: "length (i_addrs (icache s' ip)) = length (i_addrs (icache s ip))"
    and na: "\<And>q. q \<in> nodes \<Longrightarrow> node_addr s' ip q = (if q = p then c else node_addr s ip q)"
  shows "tree_ok s' ip"
proof -
  have fresh: "node_addr s ip x \<noteq> c" if "x \<in> nodes" "node_addr s ip x \<noteq> 0" for x
    using tree_blocksI [OF that] assms(4) by metis
  have "data_block s' (node_addr s' ip q)" if q: "q \<in> nodes" "node_addr s' ip q \<noteq> 0" for q
  proof (cases "q = p")
    case False
    then have e: "node_addr s' ip q = node_addr s ip q" using na [OF q(1)] by simp
    then show ?thesis using db [OF tree_node(1) [OF assms(1) q(1)]] q(2) by simp
  qed (use na [OF q(1)] assms(5) in simp)
  then have "\<forall>b \<in> tree_blocks s' ip. data_block s' b" by (auto simp: tree_blocks_def)
  moreover have "inj_on (node_addr s' ip) {q \<in> nodes. node_addr s' ip q \<noteq> 0}"
  proof (rule inj_onI)
    fix q r assume a: "q \<in> {q \<in> nodes. node_addr s' ip q \<noteq> 0}" "r \<in> {q \<in> nodes. node_addr s' ip q \<noteq> 0}" "node_addr s' ip q = node_addr s' ip r"
    then have n: "q \<in> nodes" "r \<in> nodes" by auto
    have e: "(if q = p then c else node_addr s ip q) = (if r = p then c else node_addr s ip r)" "(if q = p then c else node_addr s ip q) \<noteq> 0"
      using a na [OF n(1)] na [OF n(2)] by simp_all
    consider "q = p" "r = p" | "q = p" "r \<noteq> p" | "q \<noteq> p" "r = p" | "q \<noteq> p" "r \<noteq> p" by blast
    then show "q = r"
    proof cases
      case 2
      then show ?thesis using e fresh [OF n(2)] by simp
    next
      case 3
      then show ?thesis using e fresh [OF n(1)] by simp
    next
      case 4
      then show ?thesis using e tree_node(2) [OF assms(1) n(2) _ n(1)] by simp
    qed simp
  qed
  ultimately show ?thesis using assms(1) len by (simp add: tree_ok_def)
qed

section \<open>A tree that has grown\<close>

text \<open>
  From \<open>s\<close> to \<open>s'\<close> blocks were put at empty places of \<open>P\<close>; every place that had a block still has it, new leaves are zeroed, and
  no block in use has changed but the inner blocks of this file.
\<close>

definition grown :: "nat \<Rightarrow> node set \<Rightarrow> 'a fs_state_scheme \<Rightarrow> 'a fs_state_scheme \<Rightarrow> bool" where
  "grown ip P s s' \<longleftrightarrow> tx_inv s' \<and> refs s' = refs s \<and> fs_frame s s' \<and> tree_ok s' ip \<and>
     (\<exists>as. icache s' = (icache s)(ip := (icache s ip)\<lparr>i_addrs := as\<rparr>)) \<and>
     (\<forall>q \<in> nodes. node_addr s ip q \<noteq> 0 \<or> q \<notin> P \<longrightarrow> node_addr s' ip q = node_addr s ip q) \<and>
     (\<forall>q \<in> nodes. node_addr s ip q = 0 \<longrightarrow> node_addr s' ip q \<noteq> 0 \<longrightarrow> node_addr s' ip q \<in> free_blocks s) \<and>
     (\<forall>k < MAXFILE. node_addr s ip (Leaf k) = 0 \<longrightarrow> node_addr s' ip (Leaf k) \<noteq> 0 \<longrightarrow> blk s' (node_addr s' ip (Leaf k)) = replicate BSIZE 0) \<and>
     (\<forall>b. data_block s b \<longrightarrow> data_block s' b) \<and>
     (\<forall>b. data_block s b \<longrightarrow> b \<notin> node_addr s ip ` inner \<longrightarrow> blk s' b = blk s b) \<and>
     free_blocks s' \<subseteq> free_blocks s"

lemma grownD:
  assumes "grown ip P s s'"
  shows "tx_inv s'" "refs s' = refs s" "fs_frame s s'" "tree_ok s' ip"
    "\<exists>as. icache s' = (icache s)(ip := (icache s ip)\<lparr>i_addrs := as\<rparr>)"
    "q \<in> nodes \<Longrightarrow> node_addr s ip q \<noteq> 0 \<Longrightarrow> node_addr s' ip q = node_addr s ip q"
    "q \<in> nodes \<Longrightarrow> q \<notin> P \<Longrightarrow> node_addr s' ip q = node_addr s ip q"
    "q \<in> nodes \<Longrightarrow> node_addr s ip q = 0 \<Longrightarrow> node_addr s' ip q \<noteq> 0 \<Longrightarrow> node_addr s' ip q \<in> free_blocks s"
    "k < MAXFILE \<Longrightarrow> node_addr s ip (Leaf k) = 0 \<Longrightarrow> node_addr s' ip (Leaf k) \<noteq> 0 \<Longrightarrow> blk s' (node_addr s' ip (Leaf k)) = replicate BSIZE 0"
    "data_block s b \<Longrightarrow> data_block s' b"
    "data_block s b \<Longrightarrow> b \<notin> node_addr s ip ` inner \<Longrightarrow> blk s' b = blk s b"
    "free_blocks s' \<subseteq> free_blocks s"
  using assms unfolding grown_def by blast+

text \<open>Reading.\<close>

lemma bitmap_view:
  assumes "fsb s' = fsb s" "log_area s' = log_area s" "\<And>b. b \<in> bmap_area s \<Longrightarrow> blk s' b = blk s b"
  shows "data_block s' = data_block s" "free_blocks s' = free_blocks s"
    "lastballoc s' = lastballoc s \<Longrightarrow> lastbi s' = lastbi s \<Longrightarrow> spare k s' = spare k s"
proof -
  have u: "used s' b \<longleftrightarrow> used s b" if "b < sb_size (fsb s)" for b using that assms by (simp add: used_def bmap_area_def)
  have bm: "bmap_area s' = bmap_area s" using assms(1) by (simp add: bmap_area_def)
  show f: "free_blocks s' = free_blocks s" using u assms(1) by (auto simp: free_blocks_def)
  show "data_block s' = data_block s" using u bm assms(1,2) by (auto simp: data_block_def fun_eq_iff)
  have "balloc_ok s' = balloc_ok s" using u bm assms(1,2) by (simp add: balloc_ok_def)
  then show "lastballoc s' = lastballoc s \<Longrightarrow> lastbi s' = lastbi s \<Longrightarrow> spare k s' = spare k s"
    using f assms(1) by (simp add: spare_def place_ok_def near_blocks_def)
qed

lemma read_only_spare:
  assumes "read_only s s'"
  shows "spare k s' = spare k s" "data_block s' = data_block s" "free_blocks s' = free_blocks s"
  using bitmap_view [of s' s] read_onlyD(2) [OF assms] tx_frame_fs [OF bio_tx_frame [OF read_onlyD(4) [OF assms]]]
    log_area_frame [OF read_onlyD(4) [OF assms]] by simp_all

lemma node_addr_same:
  assumes "blk s' = blk s" "i_addrs (icache s' ip) = i_addrs (icache s ip)"
  shows "node_addr s' ip = node_addr s ip"
proof
  show "node_addr s' ip p = node_addr s ip p" for p
    using assms by (cases p) (simp_all add: node_addr_unfold)
qed

lemma read_only_tree:
  assumes "read_only s s'"
  shows "node_addr s' ip = node_addr s ip" "tree_ok s' ip = tree_ok s ip"
proof -
  have ic: "icache s' = icache s" by (rule bio_frame_fs(1) [OF read_onlyD(4) [OF assms]])
  then show n: "node_addr s' ip = node_addr s ip" using read_onlyD(2) [OF assms] by (intro node_addr_same) simp_all
  show "tree_ok s' ip = tree_ok s ip" using ic n read_only_spare(2) [OF assms] by (simp add: tree_ok_def tree_blocks_def)
qed

lemma read_only_grown:
  assumes "read_only s s'" "tree_ok s ip" "tx_inv s"
  shows "grown ip P s s'" "room s' = room s"
proof -
  note ro = read_onlyD [OF assms(1)]
  have "tx_inv s'" "room s' = room s" using tx_inv_frame [OF ro(4,1) assms(3)] by auto
  moreover have "\<exists>as. icache s' = (icache s)(ip := (icache s ip)\<lparr>i_addrs := as\<rparr>)"
    using bio_frame_fs(1) [OF ro(4)] by (intro exI [of _ "i_addrs (icache s ip)"]) simp
  ultimately show "grown ip P s s'" "room s' = room s"
    using ro(2,3) tx_fs_frame [OF bio_tx_frame [OF ro(4)]] read_only_tree [OF assms(1), of ip] assms(2) read_only_spare(2,3) [OF assms(1)]
    unfolding grown_def by simp_all
qed

text \<open>One growth after another.\<close>

lemma free_not_data: "b \<in> free_blocks s \<Longrightarrow> \<not> data_block s b"
  by (simp add: free_blocks_def data_block_def)

lemma leaf_not_inner:
  assumes "tree_ok s ip" "k < MAXFILE" "node_addr s ip (Leaf k) \<noteq> 0"
  shows "node_addr s ip (Leaf k) \<notin> node_addr s ip ` inner"
proof
  assume "node_addr s ip (Leaf k) \<in> node_addr s ip ` inner"
  then obtain q where "q \<in> inner" "node_addr s ip q = node_addr s ip (Leaf k)" by auto
  then have "q = Leaf k" using tree_node(2) [OF assms(1), of "Leaf k" q] assms inner_nodes by simp
  then show False using \<open>q \<in> inner\<close> by simp
qed

lemma grown_trans:
  assumes st: "grown ip P s t" and tu: "grown ip Q t u"
  shows "grown ip (P \<union> Q) s u"
proof -
  note S = grownD [OF st] and T = grownD [OF tu]
  have fb: "b \<notin> node_addr t ip ` inner" if "data_block s b" "b \<notin> node_addr s ip ` inner" for b
  proof
    assume "b \<in> node_addr t ip ` inner"
    then obtain q where q: "q \<in> inner" "b = node_addr t ip q" by auto
    show False
    proof (cases "node_addr s ip q = 0")
      case True
      have "b \<noteq> 0 \<Longrightarrow> b \<in> free_blocks s" using S(8) [OF inner_nodes [OF q(1)] True] q(2) by simp
      moreover have "b \<noteq> 0" using that(2) q True by force
      ultimately show False using that(1) free_not_data by blast
    next
      case False
      then show False using S(6) [OF inner_nodes [OF q(1)]] q that(2) by simp
    qed
  qed
  have "blk u b = blk s b" if "data_block s b" "b \<notin> node_addr s ip ` inner" for b
    using S(11) [OF that] T(11) [OF S(10) [OF that(1)] fb [OF that]] by simp
  moreover have "node_addr u ip q \<in> free_blocks s" if "q \<in> nodes" "node_addr s ip q = 0" "node_addr u ip q \<noteq> 0" for q
  proof (cases "node_addr t ip q = 0")
    case True
    have "node_addr u ip q \<in> free_blocks t" by (rule T(8) [OF that(1) True that(3)])
    moreover have "free_blocks t \<subseteq> free_blocks s" by (rule S(12))
    ultimately show ?thesis by blast
  next
    case False
    then show ?thesis using S(8) [OF that(1,2)] T(6) [OF that(1)] by simp
  qed
  moreover have "blk u (node_addr u ip (Leaf k)) = replicate BSIZE 0"
    if k: "k < MAXFILE" "node_addr s ip (Leaf k) = 0" "node_addr u ip (Leaf k) \<noteq> 0" for k
  proof (cases "node_addr t ip (Leaf k) = 0")
    case True
    then show ?thesis using T(9) k by simp
  next
    case False
    have e: "node_addr u ip (Leaf k) = node_addr t ip (Leaf k)" using T(6) False k(1) by simp
    have "data_block t (node_addr t ip (Leaf k))" using tree_node(1) [OF S(4)] False k(1) by simp
    then show ?thesis using T(11) leaf_not_inner [OF S(4) k(1) False] S(9) [OF k(1,2) False] e by simp
  qed
  moreover have "\<exists>as. icache u = (icache s)(ip := (icache s ip)\<lparr>i_addrs := as\<rparr>)"
  proof -
    obtain as bs where "icache t = (icache s)(ip := (icache s ip)\<lparr>i_addrs := as\<rparr>)" "icache u = (icache t)(ip := (icache t ip)\<lparr>i_addrs := bs\<rparr>)"
      using S(5) T(5) by blast
    then have "icache u = (icache s)(ip := (icache s ip)\<lparr>i_addrs := bs\<rparr>)" by simp
    then show ?thesis ..
  qed
  moreover have "node_addr u ip q = node_addr s ip q" if "q \<in> nodes" "node_addr s ip q \<noteq> 0 \<or> q \<notin> P \<union> Q" for q
    using that S(6,7) [OF that(1)] T(6,7) [OF that(1)] by auto
  ultimately show ?thesis
    using S(2,10,12) T(1-4,10,12) fs_frame_trans [OF S(3) T(3)] unfolding grown_def by auto
qed

section \<open>Putting a block at an empty place\<close>

text \<open>
  A block \<open>c\<close> is allocated, in \<open>t\<close>, and linked at \<open>p\<close>, in \<open>s'\<close>: by writing its address into the inode or into an inner block.
\<close>

lemma grown_attach:
  assumes tree: "tree_ok s ip" "p \<in> nodes" "node_addr s ip p = 0" and al: "took s c t" "balloc_ok s"
    and s': "tx_inv s'" "refs s' = refs s" "fs_frame t s'" "icache s' = (icache s)(ip := (icache s ip)\<lparr>i_addrs := as\<rparr>)"
      "length as = length (i_addrs (icache s ip))" "lastballoc s' = lastballoc t" "lastbi s' = lastbi t"
    and bk: "\<And>b. b \<noteq> c \<Longrightarrow> b \<notin> node_addr s ip ` inner - {0} \<Longrightarrow> blk s' b = blk t b" "blk s' c = replicate BSIZE 0"
    and na: "\<And>q. q \<in> nodes \<Longrightarrow> node_addr s' ip q = (if q = p then c else node_addr s ip q)"
  shows "grown ip {p} s s'" "spare k s' = spare k t"
proof -
  note f = took_free [OF al(1)] and k = took_keeps [OF al tree(1)] and fr = fs_frame_same [OF s'(3)]
  have c: "c \<notin> log_area s" "c \<notin> bmap_area s" "c < sb_size (fsb s)" "used t c" using f(3) al by (auto simp: free_blocks_def balloc_ok_def took_def)
  have "blk s' b = blk t b" if "b \<in> bmap_area t" for b
  proof (rule bk(1))
    show "b \<noteq> c" using that c(2) f(5) by auto
    show "b \<notin> node_addr s ip ` inner - {0}"
      using that f(5) tree_node(1) [OF tree(1)] inner_nodes by (auto simp: data_block_def)
  qed
  note v = bitmap_view [OF fr(1,2) this]
  show "spare k s' = spare k t" using v(3) s'(6,7) by blast
  have "data_block t c" using c k(4) f(1,4,5) by (simp add: data_block_def)
  then have dc: "data_block s' c" using v(1) by simp
  have db: "data_block s' b" if "data_block s b" for b using k(3) [OF that] v(1) by simp
  have "tree_ok s' ip" by (rule tree_ok_attach [OF tree k(2) dc db _ na]) (use s'(4,5) in simp_all)
  moreover have "blk s' b = blk s b" if b: "data_block s b" "b \<notin> node_addr s ip ` inner" for b
    using bk(1) [of b] k(3) [OF b(1)] b by simp
  moreover have "fs_frame s s'" using fs_frame_trans [OF _ s'(3)] al(1) by (simp add: took_def)
  moreover have "blk s' (node_addr s' ip (Leaf j)) = replicate BSIZE 0"
    if "j < MAXFILE" "node_addr s ip (Leaf j) = 0" "node_addr s' ip (Leaf j) \<noteq> 0" for j
    using na [of "Leaf j"] that bk(2) by (simp split: if_splits)
  moreover have "free_blocks s' \<subseteq> free_blocks s" using v(2) f(2) by blast
  moreover have "node_addr s' ip q \<in> free_blocks s" if "q \<in> nodes" "node_addr s ip q = 0" "node_addr s' ip q \<noteq> 0" for q
    using na [OF that(1)] that f(3) by (simp split: if_splits)
  moreover have "node_addr s' ip q = node_addr s ip q" if "q \<in> nodes" "node_addr s ip q \<noteq> 0 \<or> q \<notin> {p}" for q
    using na [OF that(1)] that(2) tree(3) by auto
  ultimately show "grown ip {p} s s'" using s'(1,2,4) db unfolding grown_def by blast
qed

fun slot_of :: "node \<Rightarrow> nat" where
  "slot_of (Leaf k) = k"
| "slot_of q = NDIRECT"

lemma upd_inode_hints [simp]: "lastballoc (upd_inode ip f s) = lastballoc s" "lastbi (upd_inode ip f s) = lastbi s"
  by (simp_all add: upd_inode_def)

lemma root_addr:
  assumes "root q"
  shows "node_addr s ip q = i_addrs (icache s ip) ! slot_of q" "slot_of q < NDIRECT + 1" "q \<in> nodes" "root r \<Longrightarrow> slot_of q = slot_of r \<longleftrightarrow> q = r"
  using assms by (auto simp: root_def node_addr_unfold MAXFILE_def)

lemma attach_inode:
  assumes tree: "tree_ok s ip" "root p" "node_addr s ip p = 0" and s: "spare (Suc k) s" "tx_inv s" "roomy 1 s" "2 \<le> room s"
  shows "wp (balloc s) (\<lambda>(c, t). \<exists>s'. s' = upd_inode ip (\<lambda>q. q\<lparr>i_addrs := (i_addrs q)[slot_of p := c]\<rparr>) t \<and>
    grown ip {p} s s' \<and> spare k s' \<and> room s \<le> room s' + 2 \<and> node_addr s' ip p = c \<and> c \<noteq> 0)"
proof (rule wp_mono_pair [OF balloc_spare [OF s]])
  fix c t assume a: "alloc_post s c t \<and> spare k t"
  define s' where "s' = upd_inode ip (\<lambda>q. q\<lparr>i_addrs := (i_addrs q)[slot_of p := c]\<rparr>) t"
  have al: "took s c t" "balloc_ok s" using a s(1) took_from [of s c t s] by (simp_all add: spare_def)
  note k = took_keeps [OF al tree(1)] and p = root_addr(2,3) [OF tree(2)]
  have t: "icache t = icache s" "blk t c = replicate BSIZE 0" "room s \<le> room t + 2" "tx_inv t" "refs t = refs s" using a by (auto simp: alloc_post_def)
  have len: "length (i_addrs (icache s ip)) = NDIRECT + 1" using tree(1) by (simp add: tree_ok_def)
  have rt: "node_addr s' ip q = (if q = p then c else node_addr s ip q)" if "root q" for q
    using root_addr(1) [OF that, of s' ip] root_addr(1) [OF that, of s ip] root_addr(2) [OF that] root_addr(4) [OF that tree(2)] len p(1) t(1)
    by (auto simp: s'_def nth_list_update)
  have na: "node_addr s' ip q = (if q = p then c else node_addr s ip q)" if "q \<in> nodes" for q
  proof (rule relink [OF tree(3) _ rt _ _ that])
    show "blk s' c = replicate BSIZE 0" using t(2) by (simp add: s'_def)
    show "get32 (blk s' (node_addr s ip q)) (4 * i) = (if child q i = p then c else get32 (blk s (node_addr s ip q)) (4 * i))"
      if "q \<in> inner" "i < NINDIRECT" "node_addr s ip q \<noteq> 0" for q i
      using k(3) [OF tree_node(1) [OF tree(1) inner_nodes [OF that(1)] that(3)]] tree(2) child_not_root by (auto simp: s'_def)
  qed (use tree(2) in auto)
  have "grown ip {p} s s' \<and> spare k s' = spare k t"
    by (intro conjI grown_attach [OF tree(1) p(2) tree(3) al _ _ _ _ _ _ _ _ _ na, where as = "(i_addrs (icache s ip))[slot_of p := c]"])
      (use t in \<open>simp_all add: s'_def\<close>)
  then show "\<exists>s'. s' = upd_inode ip (\<lambda>q. q\<lparr>i_addrs := (i_addrs q)[slot_of p := c]\<rparr>) t \<and>
    grown ip {p} s s' \<and> spare k s' \<and> room s \<le> room s' + 2 \<and> node_addr s' ip p = c \<and> c \<noteq> 0"
    using a t(3) na [OF p(2)] k(4) unfolding s'_def by simp
qed

lemma get32_put32_slot:
  assumes "length d = BSIZE" "i < NINDIRECT" "j < NINDIRECT"
  shows "get32 (put32 (4 * i) c d) (4 * j) = (if j = i then c else get32 d (4 * j))" "length (put32 (4 * i) c d) = BSIZE"
proof -
  have l: "4 * i + 4 \<le> length d" "4 * j + 4 \<le> length d" using assms by (simp_all add: NINDIRECT_def BSIZE_def)
  show "get32 (put32 (4 * i) c d) (4 * j) = (if j = i then c else get32 d (4 * j))"
  proof (cases "j = i")
    case False
    then have "4 * j + 4 \<le> 4 * i \<or> 4 * i + 4 \<le> 4 * j" by linarith
    then show ?thesis using get32_patch_other [of "4 * i" "enc32 c" d "4 * j"] l False by (simp add: put32_def)
  qed (use l in simp)
  show "length (put32 (4 * i) c d) = BSIZE" using l assms(1) by simp
qed

text \<open>Entry \<open>i\<close> of the inner block \<open>q\<close> is set to the fresh block.\<close>

lemma link_entry:
  assumes tree: "tree_ok s ip" and q: "q \<in> inner" "i < NINDIRECT" "node_addr s ip q \<noteq> 0" and z: "node_addr s ip (child q i) = 0"
    and tk: "took s c t" "balloc_ok s" and bs': "blk s' = (blk t)(node_addr s ip q := put32 (4 * i) c (blk s (node_addr s ip q)))"
    and len: "length (blk s (node_addr s ip q)) = BSIZE" and ic: "icache s' = icache s" and r: "r \<in> nodes"
  shows "node_addr s' ip r = (if r = child q i then c else node_addr s ip r)"
proof (rule relink [OF z _ _ _ _ r])
  let ?a = "node_addr s ip q"
  note kp = took_keeps [OF tk tree] and gp = get32_put32_slot [OF len q(2)]
  have "?a \<noteq> c" using kp(3) tree_node(1) [OF tree inner_nodes [OF q(1)] q(3)] by blast
  then show "blk s' c = replicate BSIZE 0" using bs' tk(1) by (simp add: took_def)
  show "node_addr s' ip r = (if r = child q i then c else node_addr s ip r)" if "root r" for r
    using root_addr(1) [OF that, of s' ip] root_addr(1) [OF that, of s ip] ic that child_not_root by auto
  show "get32 (blk s' (node_addr s ip r)) (4 * j) = (if child r j = child q i then c else get32 (blk s (node_addr s ip r)) (4 * j))"
    if r: "r \<in> inner" "j < NINDIRECT" "node_addr s ip r \<noteq> 0" for r j
  proof (cases "r = q")
    case True
    then show ?thesis using gp(1) [OF r(2)] child_inject [OF _ r(1) q(1) r(2) q(2)] bs' by auto
  next
    case False
    have "node_addr s ip r \<noteq> ?a" using tree_node(2) [OF tree inner_nodes [OF q(1)] q(3) inner_nodes [OF r(1)]] False by auto
    moreover have "child r j \<noteq> child q i" using child_inject [OF _ r(1) q(1) r(2) q(2)] False by auto
    moreover have "blk t (node_addr s ip r) = blk s (node_addr s ip r)" using kp(3) tree_node(1) [OF tree inner_nodes [OF r(1)] r(3)] by blast
    ultimately show ?thesis using bs' by simp
  qed
  show "node_addr s ip r \<noteq> 0" if "r \<in> inner" "j < NINDIRECT" "child q i = child r j" for r j
    using child_inject [OF that(3) q(1) that(1) q(2) that(2)] q(3) by simp
qed

lemma attach_block:
  assumes tree: "tree_ok s ip" and q: "q \<in> inner" "i < NINDIRECT" "node_addr s ip q \<noteq> 0"
    and s: "spare (Suc k) s" "tx_inv s" "roomy 2 s" "3 \<le> room s"
  shows "wp (indirect (node_addr s ip q) i s) (\<lambda>(r, s'). grown ip {child q i} s s' \<and> spare k s' \<and> room s \<le> room s' + 3 \<and>
    r = node_addr s' ip (child q i) \<and> r \<noteq> 0)"
proof -
  let ?a = "node_addr s ip q" and ?p = "child q i"
  have a: "data_block s ?a" by (rule tree_node(1) [OF tree inner_nodes [OF q(1)] q(3)])
  then have al: "?a \<notin> log_area s" by (simp add: data_block_def)
  have pn: "?p \<in> nodes" by (rule child_nodes [OF q(1,2)])
  have pa: "node_addr s ip ?p = get32 (blk s ?a) (4 * i)" using node_addr_child [OF q(1,2), of s ip] q(3) by simp
  have rm: "roomy 1 s" using s(3) roomy_mono by fastforce
  show ?thesis
  proof (cases "node_addr s ip ?p = 0")
    case False
    then have nz: "get32 (blk s ?a) (4 * i) \<noteq> 0" using pa by simp
    from indirect_mapped [OF tx_inv_bio [OF s(2)] rm q(3) nz] show ?thesis
    proof (rule wp_mono_pair)
      fix r s' assume r: "r = get32 (blk s ?a) (4 * i) \<and> read_only s s'"
      then have "node_addr s' ip = node_addr s ip" "spare k s'" using read_only_tree(1) [of s s'] read_only_spare(1) [of s s'] spare_mono [OF s(1)] by auto
      then show "grown ip {?p} s s' \<and> spare k s' \<and> room s \<le> room s' + 3 \<and> r = node_addr s' ip ?p \<and> r \<noteq> 0"
        using r read_only_grown(1) [of s s' ip "{?p}"] read_only_grown(2) [of s s' ip] tree s(2) pa nz by simp
    qed
  next
    case True
    show ?thesis unfolding indirect_def
    proof (rule wp_tx_bread [OF s(2) roomy_can_read [OF rm _ q(3)] al])
      fix bp s1
      assume s1: "tx_inv s1" "blk s1 = blk s" "refs s1 = (refs s)(?a := Suc (refs s ?a))" "holds s1 bp ?a" "?a \<notin> log_area s1"
        "b_data (bcache s1 bp) = blk s ?a" "room s1 = room s" "tx_frame s s1"
      note f1 = tx_frame_fs [OF s1(8)] and l1 = tx_frame_same(6) [OF s1(8)]
      have n1: "node_addr s1 ip = node_addr s ip" using s1(2) f1(1) by (intro node_addr_same) simp_all
      note v1 = bitmap_view [OF f1(4) l1, unfolded s1(2), OF refl]
      have t1: "tree_ok s1 ip" using tree n1 v1(1) f1(1) by (simp add: tree_ok_def tree_blocks_def)
      have sp1: "spare (Suc k) s1" using v1(3) f1(2,3) s(1) by blast
      have r1: "roomy 1 s1" using roomy_held [OF _ s1(3) tx_inv_bio [OF s(2)], of 1] s(3) by (simp add: numeral_2_eq_2)
      have "wp (balloc s1) (\<lambda>(c, t). alloc_post s1 c t \<and> spare k t)"
        by (rule balloc_spare [OF sp1 s1(1) r1]) (use s(4) s1(7) in simp)
      then have "wp (rbind (balloc s1) (\<lambda>(a, t). rbind (log_write bp (set_data bp (put32 (4 * i) a (b_data (bcache t bp))) t)) (\<lambda>u. Ok (a, brelse bp u))))
        (\<lambda>(r, s'). grown ip {?p} s s' \<and> spare k s' \<and> room s \<le> room s' + 3 \<and> r = node_addr s' ip ?p \<and> r \<noteq> 0)"
      proof (rule wp_mono_bind)
        fix x assume x: "case x of (c, t) \<Rightarrow> alloc_post s1 c t \<and> spare k t"
        obtain c t where ct: "x = (c, t)" by fastforce
        then have t: "alloc_post s1 c t" "spare k t" using x by auto
        note tk = took_from [OF t(1) s1(2,8)]
        have bo: "balloc_ok s" using s(1) by (simp add: spare_def)
        note kp = took_keeps [OF tk bo tree]
        have tt: "tx_inv t" "holds t bp ?a" "room s1 \<le> room t + 2" "refs t = refs s1" using t(1) s1(4) by (auto simp: alloc_post_def)
        have ba: "blk t ?a = blk s ?a" "b_data (bcache t bp) = blk s ?a" "?a \<noteq> c" using kp(3) [OF a] holds_data [OF tx_inv_bio [OF tt(1)] tt(2)] by simp_all
        have lt: "?a \<notin> log_area t" using took_free(4) [OF tk] al by simp
        have len: "length (blk s ?a) = BSIZE" by (rule length_blk [OF tx_inv_bio [OF s(2)]])
        show "wp (case x of (a, t) \<Rightarrow> rbind (log_write bp (set_data bp (put32 (4 * i) a (b_data (bcache t bp))) t)) (\<lambda>u. Ok (a, brelse bp u)))
          (\<lambda>(r, s'). grown ip {?p} s s' \<and> spare k s' \<and> room s \<le> room s' + 3 \<and> r = node_addr s' ip ?p \<and> r \<noteq> 0)"
          unfolding ct prod.case ba(2)
        proof (rule wp_log_write [OF tt(1,2) lt])
          show "0 < room t" using tt(3) s(4) s1(7) by simp
          show "length (put32 (4 * i) c (blk s ?a)) = BSIZE" by (rule get32_put32_slot(2) [OF len q(2,2)])
          fix u
          assume u: "tx_inv u" "blk u = (blk t)(?a := put32 (4 * i) c (blk s ?a))" "refs u = refs t" "holds u bp ?a" "?a \<notin> log_area u"
            "room t \<le> Suc (room u)" "tx_frame t u"
          define s' where "s' = brelse bp u"
          note rl = tx_release [OF u(1,4,5), folded s'_def]
          have ft: "tx_frame t s'" by (rule tx_frame_trans [OF u(7) rl(5)])
          note fs' = tx_frame_fs [OF ft]
          have bs': "blk s' = (blk t)(?a := put32 (4 * i) c (blk s ?a))" using rl(2) u(2) by simp
          have ic: "icache s' = icache s" using fs'(1) tk by (simp add: took_def)
          have rf: "refs s' = refs s" using rl(3) u(3) tt(4) s1(3) by (simp add: fun_eq_iff)
          have bc: "blk s' c = replicate BSIZE 0" using bs' ba(3) tk by (simp add: took_def)
          note na = link_entry [OF tree q True tk bo bs' len ic]
          have bk: "blk s' b = blk t b" if "b \<noteq> c" "b \<notin> node_addr s ip ` inner - {0}" for b using that q bs' by auto
          have "grown ip {?p} s s' \<and> spare k s' = spare k t"
            by (intro conjI grown_attach [OF tree pn True tk bo rl(1) rf tx_fs_frame [OF ft] _ _ _ _ bk bc na, where as = "i_addrs (icache s ip)"])
              (use ic fs' in simp_all)
          then show "wp (Ok (c, brelse bp u)) (\<lambda>(r, s'). grown ip {?p} s s' \<and> spare k s' \<and> room s \<le> room s' + 3 \<and> r = node_addr s' ip ?p \<and> r \<noteq> 0)"
            unfolding s'_def [symmetric] using t(2) na [OF pn] kp(4) rl(4) u(6) tt(3) s1(7) by simp
        qed
      qed
      then show "wp (let a = get32 (b_data (bcache s1 bp)) (4 * i) in
       if a = 0 then
         rbind (balloc s1) (\<lambda>(a, s).
         rbind (log_write bp (set_data bp (put32 (4 * i) a (b_data (bcache s bp))) s)) (\<lambda>s.
           Ok (a, brelse bp s)))
       else Ok (a, brelse bp s1)) (\<lambda>(r, s'). grown ip {?p} s s' \<and> spare k s' \<and> room s \<le> room s' + 3 \<and> r = node_addr s' ip ?p \<and> r \<noteq> 0)"
        using True pa s1(6) by (simp add: Let_def del: wp_rbind)
    qed simp
  qed
qed

section \<open>The block map\<close>

text \<open>The places on the way to a block of the file.\<close>

definition way :: "nat \<Rightarrow> node set" where
  "way k = (if k < NDIRECT then {Leaf k} else {Top, Mid ((k - NDIRECT) div NINDIRECT), Leaf k})"

lemma grown_weaken: "grown ip P s s' \<Longrightarrow> P \<subseteq> Q \<Longrightarrow> grown ip Q s s'"
  unfolding grown_def by blast

lemma bmap_top:
  assumes tree: "tree_ok s ip" and s: "spare (Suc k) s" "tx_inv s" "roomy 2 s" "2 \<le> room s"
  shows "wp (let addr = i_addrs (icache s ip) ! NDIRECT in
      if addr = 0 then rbind (balloc s) (\<lambda>(addr, s). Ok (addr, upd_inode ip (\<lambda>i. i\<lparr>i_addrs := (i_addrs i)[NDIRECT := addr]\<rparr>) s))
      else Ok (addr, s)) (\<lambda>(r, s'). grown ip {Top} s s' \<and> spare k s' \<and> room s \<le> room s' + 2 \<and> r = node_addr s' ip Top \<and> r \<noteq> 0)"
proof (cases "node_addr s ip Top = 0")
  case True
  have "wp (balloc s) (\<lambda>(c, t). \<exists>s'. s' = upd_inode ip (\<lambda>q. q\<lparr>i_addrs := (i_addrs q)[slot_of Top := c]\<rparr>) t \<and>
    grown ip {Top} s s' \<and> spare k s' \<and> room s \<le> room s' + 2 \<and> node_addr s' ip Top = c \<and> c \<noteq> 0)"
    using s roomy_mono [OF s(3), of 1] by (intro attach_inode [OF tree _ True]) (auto simp: root_def)
  then have "wp (rbind (balloc s) (\<lambda>(addr, s). Ok (addr, upd_inode ip (\<lambda>i. i\<lparr>i_addrs := (i_addrs i)[NDIRECT := addr]\<rparr>) s)))
      (\<lambda>(r, s'). grown ip {Top} s s' \<and> spare k s' \<and> room s \<le> room s' + 2 \<and> r = node_addr s' ip Top \<and> r \<noteq> 0)"
    by (rule wp_mono_bind) auto
  then show ?thesis using True by (simp add: node_addr_unfold(1) del: wp_rbind)
next
  case False
  then show ?thesis
    using read_only_grown(1) [OF read_only_refl tree s(2)] tx_inv_bio [OF s(2)] spare_mono [OF s(1)] by (simp add: node_addr_unfold(1))
qed

lemma bmap_new:
  assumes tree: "tree_ok s ip" "k < MAXFILE" and s: "spare (j + 3) s" "tx_inv s" "roomy 2 s" "8 \<le> room s"
  shows "wp (bmap ip (of_nat k) s) (\<lambda>(r, s'). grown ip (way k) s s' \<and> spare j s' \<and> room s \<le> room s' + 8 \<and> r = node_addr s' ip (Leaf k) \<and> r \<noteq> 0)"
proof -
  have k: "unat (of_nat k :: uint) = k" using tree(2) by (intro unat_of_nat_small) (simp add: MAXFILE_val)
  show ?thesis
  proof (cases "k < NDIRECT")
    case True
    show ?thesis
    proof (cases "node_addr s ip (Leaf k) = 0")
      case z: True
      have "wp (balloc s) (\<lambda>(c, t). \<exists>s'. s' = upd_inode ip (\<lambda>q. q\<lparr>i_addrs := (i_addrs q)[slot_of (Leaf k) := c]\<rparr>) t \<and>
        grown ip {Leaf k} s s' \<and> spare j s' \<and> room s \<le> room s' + 2 \<and> node_addr s' ip (Leaf k) = c \<and> c \<noteq> 0)"
        using s roomy_mono [OF s(3), of 1] spare_mono [OF s(1), of "Suc j"] True
        by (intro attach_inode [OF tree(1) _ z]) (auto simp: root_def)
      then have "wp (rbind (balloc s) (\<lambda>(addr, s). Ok (addr, upd_inode ip (\<lambda>i. i\<lparr>i_addrs := (i_addrs i)[k := addr]\<rparr>) s)))
        (\<lambda>(r, s'). grown ip {Leaf k} s s' \<and> spare j s' \<and> room s \<le> room s' + 8 \<and> r = node_addr s' ip (Leaf k) \<and> r \<noteq> 0)"
        by (rule wp_mono_bind) auto
      then show ?thesis using z True by (simp add: bmap_def k way_def node_addr_unfold(3) del: wp_rbind)
    next
      case False
      then show ?thesis
        using read_only_grown(1) [OF read_only_refl tree(1) s(2)] tx_inv_bio [OF s(2)] spare_mono [OF s(1), of j] True
        by (simp add: bmap_def k Let_def node_addr_unfold(3))
    qed
  next
    case False
    let ?n = "k - NDIRECT" and ?j = "(k - NDIRECT) div NINDIRECT" and ?i = "(k - NDIRECT) mod NINDIRECT"
    note m = leaf_mid(1) [OF tree(2) False] leaf_mid(2) [of k]
    have n: "?n < NINDIRECT * NINDIRECT" using tree(2) False unfolding MAXFILE_def by linarith
    have lf: "child (Mid ?j) ?i = Leaf k" using False by simp
    have w: "way k = {Top} \<union> {Mid ?j} \<union> {Leaf k}" using False by (auto simp: way_def)
    have b: "bmap ip (of_nat k) s = rbind (let addr = i_addrs (icache s ip) ! NDIRECT in
      if addr = 0 then rbind (balloc s) (\<lambda>(addr, s). Ok (addr, upd_inode ip (\<lambda>i. i\<lparr>i_addrs := (i_addrs i)[NDIRECT := addr]\<rparr>) s))
      else Ok (addr, s)) (\<lambda>(addr, s). rbind (indirect addr ?j s) (\<lambda>(addr, s). indirect addr ?i s))"
      using False n by (simp add: bmap_def k Let_def)
    have "wp (let addr = i_addrs (icache s ip) ! NDIRECT in
      if addr = 0 then rbind (balloc s) (\<lambda>(addr, s). Ok (addr, upd_inode ip (\<lambda>i. i\<lparr>i_addrs := (i_addrs i)[NDIRECT := addr]\<rparr>) s))
      else Ok (addr, s)) (\<lambda>(r, s'). grown ip {Top} s s' \<and> spare (j + 2) s' \<and> room s \<le> room s' + 2 \<and> r = node_addr s' ip Top \<and> r \<noteq> 0)"
      using s by (intro bmap_top [OF tree(1)]) (simp_all add: numeral_eq_Suc)
    then show ?thesis unfolding b
    proof (rule wp_bind_pair)
      fix r t assume rt: "grown ip {Top} s t \<and> spare (j + 2) t \<and> room s \<le> room t + 2 \<and> r = node_addr t ip Top \<and> r \<noteq> 0"
      then have t: "grown ip {Top} s t" "spare (j + 2) t" "room s \<le> room t + 2" "node_addr t ip Top \<noteq> 0" "r = node_addr t ip Top" by auto
      note T = grownD [OF t(1)]
      have rm: "roomy 2 t" using s(3) roomy_cong [OF T(2)] by simp
      have "wp (indirect (node_addr t ip Top) ?j t) (\<lambda>(r, s'). grown ip {child Top ?j} t s' \<and> spare (Suc j) s' \<and> room t \<le> room s' + 3 \<and>
        r = node_addr s' ip (child Top ?j) \<and> r \<noteq> 0)"
        using t m T(1) rm s(4) by (intro attach_block [OF T(4)]) (simp_all add: numeral_eq_Suc)
      then show "wp (rbind (indirect r ?j t) (\<lambda>(addr, s). indirect addr ?i s))
        (\<lambda>(r, s'). grown ip (way k) s s' \<and> spare j s' \<and> room s \<le> room s' + 8 \<and> r = node_addr s' ip (Leaf k) \<and> r \<noteq> 0)"
        unfolding t(5)
      proof (rule wp_bind_pair)
        fix r u assume "grown ip {child Top ?j} t u \<and> spare (Suc j) u \<and> room t \<le> room u + 3 \<and> r = node_addr u ip (child Top ?j) \<and> r \<noteq> 0"
        then have u: "grown ip {Mid ?j} t u" "spare (Suc j) u" "room t \<le> room u + 3" "node_addr u ip (Mid ?j) \<noteq> 0" "r = node_addr u ip (Mid ?j)" by auto
        note U = grownD [OF u(1)]
        have ru: "roomy 2 u" using rm roomy_cong [OF U(2)] by simp
        have "wp (indirect (node_addr u ip (Mid ?j)) ?i u) (\<lambda>(r, s'). grown ip {child (Mid ?j) ?i} u s' \<and> spare j s' \<and> room u \<le> room s' + 3 \<and>
          r = node_addr s' ip (child (Mid ?j) ?i) \<and> r \<noteq> 0)"
          using u m U(1) ru s(4) t(3) by (intro attach_block [OF U(4)]) simp_all
        then show "wp (indirect r ?i u)
          (\<lambda>(r, s'). grown ip (way k) s s' \<and> spare j s' \<and> room s \<le> room s' + 8 \<and> r = node_addr s' ip (Leaf k) \<and> r \<noteq> 0)"
          unfolding lf u(5)
        proof (rule wp_mono_pair)
          fix r v assume v: "grown ip {Leaf k} u v \<and> spare j v \<and> room u \<le> room v + 3 \<and> r = node_addr v ip (Leaf k) \<and> r \<noteq> 0"
          have "grown ip (way k) s v" unfolding w using grown_trans [OF grown_trans [OF t(1) u(1)]] v by blast
          then show "grown ip (way k) s v \<and> spare j v \<and> room s \<le> room v + 8 \<and> r = node_addr v ip (Leaf k) \<and> r \<noteq> 0"
            using v u(3) t(3) by auto
        qed
      qed
    qed
  qed
qed

text \<open>A block of the file that exists costs nothing; one that does not costs at most three blocks and eight entries of the log.\<close>

definition missing :: "'a fs_state_scheme \<Rightarrow> nat \<Rightarrow> nat \<Rightarrow> nat" where
  "missing s ip k = (if node_addr s ip (Leaf k) = 0 then 1 else 0)"

lemma bmap_grows:
  assumes tree: "tree_ok s ip" "k < MAXFILE"
    and s: "spare (j + 3 * missing s ip k) s" "tx_inv s" "roomy 2 s" "8 * missing s ip k \<le> room s"
  shows "wp (bmap ip (of_nat k) s) (\<lambda>(r, s'). grown ip (way k) s s' \<and> spare j s' \<and> room s \<le> room s' + 8 * missing s ip k \<and>
    r = node_addr s' ip (Leaf k) \<and> r \<noteq> 0 \<and> (missing s ip k = 0 \<longrightarrow> icache s' = icache s))"
proof (cases "node_addr s ip (Leaf k) = 0")
  case True
  then show ?thesis using bmap_new [OF tree, of j] s by (simp add: missing_def)
next
  case False
  note mp = leaf_mapped [OF tree(2) False]
  have rm: "roomy 1 s" using s(3) roomy_mono by fastforce
  from bmap_mapped [OF tx_inv_bio [OF s(2)] rm mp(1)] show ?thesis
  proof (rule wp_mono_pair)
    fix r s' assume r: "r = fmap s ip k \<and> read_only s s'"
    then show "grown ip (way k) s s' \<and> spare j s' \<and> room s \<le> room s' + 8 * missing s ip k \<and> r = node_addr s' ip (Leaf k) \<and> r \<noteq> 0 \<and>
      (missing s ip k = 0 \<longrightarrow> icache s' = icache s)"
      using read_only_grown(1) [of s s' ip "way k"] read_only_grown(2) [of s s' ip] read_only_tree(1) [of s s' ip] read_only_spare(1) [of s s' j]
        tree(1) s(1,2) mp(2) False bio_frame_fs(1) [of s s'] read_onlyD(4) [of s s'] by (simp add: missing_def)
  qed
qed

end
