(* ===== verification/Fgrow.thy ===== *)
theory Fgrow
  imports Ftree
begin

text \<open>
  Files that grow. The contents of a file are an array of bytes; \<open>writei\<close> implements writing into it, over its end included, while other
  files keep theirs.
\<close>

section \<open>Contents\<close>

text \<open>The byte at a position of the file; where no block has been put yet it is zero.\<close>

definition cbyte :: "'a fs_state_scheme \<Rightarrow> nat \<Rightarrow> nat \<Rightarrow> uchar" where
  "cbyte s ip pos = (let a = node_addr s ip (Leaf (pos div BSIZE)) in if a = 0 then 0 else blk s a ! (pos mod BSIZE))"

text \<open>What writing to a file keeps, of the file and of everything else.\<close>

definition evolves :: "nat \<Rightarrow> 'a fs_state_scheme \<Rightarrow> 'a fs_state_scheme \<Rightarrow> bool" where
  "evolves ip s s' \<longleftrightarrow> tx_inv s' \<and> refs s' = refs s \<and> fs_frame s s' \<and> tree_ok s' ip \<and>
     (\<exists>as. icache s' = (icache s)(ip := (icache s ip)\<lparr>i_addrs := as\<rparr>)) \<and>
     (\<forall>q \<in> nodes. node_addr s ip q \<noteq> 0 \<longrightarrow> node_addr s' ip q = node_addr s ip q) \<and>
     (\<forall>q \<in> nodes. node_addr s ip q = 0 \<longrightarrow> node_addr s' ip q \<noteq> 0 \<longrightarrow> node_addr s' ip q \<in> free_blocks s) \<and>
     (\<forall>b. data_block s b \<longrightarrow> data_block s' b) \<and>
     (\<forall>b. data_block s b \<longrightarrow> b \<notin> tree_blocks s ip \<longrightarrow> blk s' b = blk s b) \<and> free_blocks s' \<subseteq> free_blocks s"

lemma evolvesD:
  assumes "evolves ip s s'"
  shows "tx_inv s'" "refs s' = refs s" "fs_frame s s'" "tree_ok s' ip"
    "\<exists>as. icache s' = (icache s)(ip := (icache s ip)\<lparr>i_addrs := as\<rparr>)"
    "q \<in> nodes \<Longrightarrow> node_addr s ip q \<noteq> 0 \<Longrightarrow> node_addr s' ip q = node_addr s ip q"
    "q \<in> nodes \<Longrightarrow> node_addr s ip q = 0 \<Longrightarrow> node_addr s' ip q \<noteq> 0 \<Longrightarrow> node_addr s' ip q \<in> free_blocks s"
    "data_block s b \<Longrightarrow> data_block s' b"
    "data_block s b \<Longrightarrow> b \<notin> tree_blocks s ip \<Longrightarrow> blk s' b = blk s b" "free_blocks s' \<subseteq> free_blocks s"
  using assms unfolding evolves_def by blast+

lemma evolves_refl: "tx_inv s \<Longrightarrow> tree_ok s ip \<Longrightarrow> evolves ip s s"
  unfolding evolves_def by (auto intro: exI [of _ "i_addrs (icache s ip)"])

lemma evolves_trans:
  assumes st: "evolves ip s t" and tu: "evolves ip t u"
  shows "evolves ip s u"
proof -
  note S = evolvesD [OF st] and T = evolvesD [OF tu]
  have nt: "b \<notin> tree_blocks t ip" if "data_block s b" "b \<notin> tree_blocks s ip" for b
  proof
    assume "b \<in> tree_blocks t ip"
    then obtain q where q: "q \<in> nodes" "b = node_addr t ip q" "b \<noteq> 0" by (auto simp: tree_blocks_def)
    show False
    proof (cases "node_addr s ip q = 0")
      case True
      then have "b \<in> free_blocks s" using S(7) [OF q(1)] q(2,3) by simp
      then show False using free_not_data that(1) by blast
    next
      case False
      then show False using S(6) [OF q(1)] q(2) that(2) tree_blocksI [OF q(1) False] by simp
    qed
  qed
  obtain as bs where "icache t = (icache s)(ip := (icache s ip)\<lparr>i_addrs := as\<rparr>)" "icache u = (icache t)(ip := (icache t ip)\<lparr>i_addrs := bs\<rparr>)"
    using S(5) T(5) by blast
  then have "icache u = (icache s)(ip := (icache s ip)\<lparr>i_addrs := bs\<rparr>)" by simp
  moreover have "node_addr u ip q \<in> free_blocks s" if "q \<in> nodes" "node_addr s ip q = 0" "node_addr u ip q \<noteq> 0" for q
    using S(7,10) T(6,7) that by (cases "node_addr t ip q = 0") auto
  moreover have "blk u b = blk s b" if "data_block s b" "b \<notin> tree_blocks s ip" for b
    using S(9) [OF that] T(9) [OF S(8) [OF that(1)] nt [OF that]] by simp
  ultimately show ?thesis
    using S(2,6,8,10) T(1,2,4,6,8,10) fs_frame_trans [OF S(3) T(3)] unfolding evolves_def by auto
qed

lemma grown_evolves:
  assumes "grown ip P s s'"
  shows "evolves ip s s'" "pos div BSIZE < MAXFILE \<Longrightarrow> tree_ok s ip \<Longrightarrow> cbyte s' ip pos = cbyte s ip pos"
proof -
  note G = grownD [OF assms]
  have "b \<notin> node_addr s ip ` inner" if "b \<notin> tree_blocks s ip" "data_block s b" for b
    using that inner_nodes tree_blocksI by (auto simp: data_block_def)
  then have "\<forall>b. data_block s b \<longrightarrow> b \<notin> tree_blocks s ip \<longrightarrow> blk s' b = blk s b" using G(11) by blast
  then show "evolves ip s s'"
    using G(1-6,8,10,12) unfolding evolves_def by simp
  show "cbyte s' ip pos = cbyte s ip pos" if p: "pos div BSIZE < MAXFILE" "tree_ok s ip"
  proof (cases "node_addr s ip (Leaf (pos div BSIZE)) = 0")
    case True
    then show ?thesis using G(9) [OF p(1) True] by (simp add: cbyte_def Let_def BSIZE_def)
  next
    case False
    have "data_block s (node_addr s ip (Leaf (pos div BSIZE)))" using tree_node(1) [OF p(2) _ False] p(1) by simp
    then have "blk s' (node_addr s ip (Leaf (pos div BSIZE))) = blk s (node_addr s ip (Leaf (pos div BSIZE)))"
      by (rule G(11) [OF _ leaf_not_inner [OF p(2,1) False]])
    then show ?thesis using G(6) [of "Leaf (pos div BSIZE)"] False p(1) by (simp add: cbyte_def Let_def)
  qed
qed

section \<open>The copying loop\<close>

text \<open>Writing into a leaf.\<close>

lemma leaf_write:
  assumes tree: "tree_ok t ip" "k < MAXFILE" "node_addr t ip (Leaf k) \<noteq> 0"
    and u: "tx_inv u" "refs u = refs t" "tx_frame t u" "blk u = (blk t)(node_addr t ip (Leaf k) := d)"
  shows "evolves ip t u" "q \<in> nodes \<Longrightarrow> node_addr u ip q = node_addr t ip q" "spare j u = spare j t"
proof -
  let ?a = "node_addr t ip (Leaf k)"
  note f = tx_frame_fs [OF u(3)] and l = tx_frame_same(6) [OF u(3)]
  have a: "data_block t ?a" using tree_node(1) [OF tree(1)] tree(2,3) by simp
  have "blk u b = blk t b" if "b \<in> bmap_area t" for b using that a u(4) by (auto simp: data_block_def)
  note v = bitmap_view [OF f(4) l this]
  show "spare j u = spare j t" using v(3) f(2,3) by blast
  have ni: "node_addr t ip q \<noteq> ?a" if "q \<in> inner" for q using leaf_not_inner [OF tree] that by (metis image_eqI)
  show na: "node_addr u ip q = node_addr t ip q" if "q \<in> nodes" for q
    by (rule node_addr_cong [OF _ _ that]) (use f(1) u(4) ni in auto)
  have tb: "tree_blocks u ip = tree_blocks t ip" unfolding tree_blocks_image using na by (simp cong: image_cong)
  have "inj_on (node_addr u ip) {p \<in> nodes. node_addr u ip p \<noteq> 0}"
    using tree(1) na unfolding tree_ok_def inj_on_def by auto
  then have "tree_ok u ip" using tree(1) tb v(1) f(1) by (simp add: tree_ok_def)
  moreover have "blk u b = blk t b" if "b \<notin> tree_blocks t ip" for b using that tree_blocksI [OF _ tree(3)] tree(2) u(4) by auto
  moreover have "\<exists>as. icache u = (icache t)(ip := (icache t ip)\<lparr>i_addrs := as\<rparr>)" using f(1) by (intro exI [of _ "i_addrs (icache t ip)"]) simp
  ultimately show "evolves ip t u" using u(1,2) tx_fs_frame [OF u(3)] na v(1,2) unfolding evolves_def by simp
qed

lemma block_bound: "off = off div BSIZE * BSIZE + off mod BSIZE" "(off div BSIZE + 1) * BSIZE = off div BSIZE * BSIZE + BSIZE"
  by simp_all

lemma leaf_write_bytes:
  assumes tree: "tree_ok t ip" "off div BSIZE < MAXFILE" "node_addr t ip (Leaf (off div BSIZE)) \<noteq> 0"
    and u: "blk u = (blk t)(node_addr t ip (Leaf (off div BSIZE)) := patch (off mod BSIZE) xs (blk t (node_addr t ip (Leaf (off div BSIZE)))))"
    and na: "\<And>q. q \<in> nodes \<Longrightarrow> node_addr u ip q = node_addr t ip q"
    and len: "\<And>b. length (blk t b) = BSIZE" "off mod BSIZE + length xs \<le> BSIZE" and p: "pos div BSIZE < MAXFILE"
  shows "cbyte u ip pos = (if off \<le> pos \<and> pos < off + length xs then xs ! (pos - off) else cbyte t ip pos)"
proof (cases "pos div BSIZE = off div BSIZE")
  case True
  have d: "off = off div BSIZE * BSIZE + off mod BSIZE" "pos = off div BSIZE * BSIZE + pos mod BSIZE" using True by (metis div_mult_mod_eq)+
  then have "(off \<le> pos \<and> pos < off + length xs) \<longleftrightarrow> (off mod BSIZE \<le> pos mod BSIZE \<and> pos mod BSIZE < off mod BSIZE + length xs)"
    "off mod BSIZE \<le> pos mod BSIZE \<Longrightarrow> pos - off = pos mod BSIZE - off mod BSIZE" by linarith+
  moreover have "pos mod BSIZE < BSIZE" by (simp add: BSIZE_def)
  ultimately show ?thesis
    using True na [of "Leaf (off div BSIZE)"] tree(2,3) u len nth_patch [of "off mod BSIZE" xs "blk t (node_addr t ip (Leaf (off div BSIZE)))" "pos mod BSIZE"]
    by (simp add: cbyte_def Let_def)
next
  case False
  have "\<not> (off \<le> pos \<and> pos < off + length xs)"
  proof
    assume a: "off \<le> pos \<and> pos < off + length xs"
    then have "off div BSIZE \<le> pos div BSIZE" by (simp add: div_le_mono)
    moreover have "pos < (off div BSIZE + 1) * BSIZE" using a len(2) block_bound [of off] by linarith
    then have "pos div BSIZE < off div BSIZE + 1" by (rule less_mult_imp_div_less)
    ultimately show False using False by simp
  qed
  moreover have "node_addr t ip (Leaf (pos div BSIZE)) \<noteq> node_addr t ip (Leaf (off div BSIZE))" if "node_addr t ip (Leaf (pos div BSIZE)) \<noteq> 0"
    using tree_node(2) [OF tree(1) _ tree(3), of "Leaf (pos div BSIZE)"] p tree(2) False by auto
  ultimately show ?thesis using na [of "Leaf (pos div BSIZE)"] p u by (auto simp: cbyte_def Let_def)
qed

text \<open>The blocks of the file a range of positions lies in, and how many of them are missing.\<close>

definition blocks_of :: "nat \<Rightarrow> nat \<Rightarrow> nat set" where
  "blocks_of off rem = (if rem = 0 then {} else {off div BSIZE..(off + rem - 1) div BSIZE})"

definition news :: "'a fs_state_scheme \<Rightarrow> nat \<Rightarrow> nat \<Rightarrow> nat \<Rightarrow> nat" where
  "news s ip off rem = sum (missing s ip) (blocks_of off rem)"

lemma blocks_of_step:
  assumes "0 < rem"
  shows "blocks_of off rem = insert (off div BSIZE) (blocks_of (off + chunk rem off) (rem - chunk rem off))"
    "off div BSIZE \<notin> blocks_of (off + chunk rem off) (rem - chunk rem off)"
proof -
  let ?B = BSIZE
  have B: "0 < ?B" by (simp add: BSIZE_def)
  have "blocks_of off rem = insert (off div ?B) (blocks_of (off + chunk rem off) (rem - chunk rem off)) \<and>
    off div ?B \<notin> blocks_of (off + chunk rem off) (rem - chunk rem off)"
  proof (cases "off mod ?B + rem \<le> ?B")
    case True
    then have c: "chunk rem off = rem" by (simp add: chunk_def)
    have "off + rem - 1 < (off div ?B + 1) * ?B" using True assms block_bound [of off] by linarith
    then have "(off + rem - 1) div ?B < off div ?B + 1" by (rule less_mult_imp_div_less)
    moreover have "off div ?B \<le> (off + rem - 1) div ?B" using assms by (intro div_le_mono) simp
    ultimately show ?thesis using assms by (simp add: blocks_of_def c)
  next
    case False
    then have c: "chunk rem off = ?B - off mod ?B" "chunk rem off < rem" using mod_less_divisor [OF B, of off] by (auto simp: chunk_def)
    have lt: "off mod ?B < ?B" using B by simp
    have "off + chunk rem off = (off div ?B + 1) * ?B" using c(1) lt block_bound [of off] by linarith
    then have d: "(off + chunk rem off) div ?B = Suc (off div ?B)" using B by simp
    have e: "off + chunk rem off + (rem - chunk rem off) - 1 = off + rem - 1" using c(2) by simp
    have "off + chunk rem off \<le> off + rem - 1" using c(2) by simp
    then have "Suc (off div ?B) \<le> (off + rem - 1) div ?B" using div_le_mono [of "off + chunk rem off" "off + rem - 1" ?B] d by simp
    then show ?thesis using assms c(2) d e by (auto simp: blocks_of_def)
  qed
  then show "blocks_of off rem = insert (off div ?B) (blocks_of (off + chunk rem off) (rem - chunk rem off))"
    "off div ?B \<notin> blocks_of (off + chunk rem off) (rem - chunk rem off)" by auto
qed

lemma blocks_of_bound:
  assumes "off + rem \<le> MAXFILE * BSIZE" "k \<in> blocks_of off rem"
  shows "k < MAXFILE"
proof -
  have "0 < rem" "k \<le> (off + rem - 1) div BSIZE" using assms(2) by (auto simp: blocks_of_def split: if_splits)
  moreover from this have "(off + rem - 1) div BSIZE < MAXFILE" using assms(1) by (intro less_mult_imp_div_less) linarith
  ultimately show ?thesis by simp
qed

lemma news_step:
  assumes "0 < rem" "\<And>k. k \<in> blocks_of (off + chunk rem off) (rem - chunk rem off) \<Longrightarrow> missing u ip k = missing s ip k"
  shows "news s ip off rem = missing s ip (off div BSIZE) + news u ip (off + chunk rem off) (rem - chunk rem off)"
proof -
  have "finite (blocks_of (off + chunk rem off) (rem - chunk rem off))" by (simp add: blocks_of_def)
  then show ?thesis unfolding news_def using blocks_of_step [OF assms(1), of off] assms(2) by (simp cong: sum.cong)
qed

text \<open>The effect of the loop: the range holds the source, every block of the file it lies in is there, and nothing else is different.\<close>

definition wrote :: "nat \<Rightarrow> bytes \<Rightarrow> nat \<Rightarrow> nat \<Rightarrow> 'a fs_state_scheme \<Rightarrow> 'a fs_state_scheme \<Rightarrow> bool" where
  "wrote ip src rem off s s' \<longleftrightarrow> evolves ip s s' \<and> room s \<le> room s' + rounds rem off + 8 * news s ip off rem \<and>
     (\<forall>pos. pos div BSIZE < MAXFILE \<longrightarrow> cbyte s' ip pos = (if off \<le> pos \<and> pos < off + rem then src ! (pos - off) else cbyte s ip pos)) \<and>
     (\<forall>k \<in> blocks_of off rem. node_addr s' ip (Leaf k) \<noteq> 0) \<and> (news s ip off rem = 0 \<longrightarrow> icache s' = icache s)"

lemma wrote_seq:
  assumes rem: "0 < rem" "m = chunk rem off" "m \<le> length src" and su: "evolves ip s u" "room s \<le> room u + 1 + 8 * missing s ip (off div BSIZE)"
    and by': "\<And>pos. pos div BSIZE < MAXFILE \<Longrightarrow> cbyte u ip pos = (if off \<le> pos \<and> pos < off + m then src ! (pos - off) else cbyte s ip pos)"
    and lf: "node_addr u ip (Leaf (off div BSIZE)) \<noteq> 0" "off div BSIZE < MAXFILE" "missing s ip (off div BSIZE) = 0 \<longrightarrow> icache u = icache s"
    and ms: "news s ip off rem = missing s ip (off div BSIZE) + news u ip (off + m) (rem - m)"
    and w: "wrote ip (drop m src) (rem - m) (off + m) u s'"
  shows "wrote ip src rem off s s'"
proof -
  have W: "evolves ip u s'" "room u \<le> room s' + rounds (rem - m) (off + m) + 8 * news u ip (off + m) (rem - m)"
    "\<And>pos. pos div BSIZE < MAXFILE \<Longrightarrow> cbyte s' ip pos = (if off + m \<le> pos \<and> pos < off + m + (rem - m) then drop m src ! (pos - (off + m)) else cbyte u ip pos)"
    "\<And>k. k \<in> blocks_of (off + m) (rem - m) \<Longrightarrow> node_addr s' ip (Leaf k) \<noteq> 0" "news u ip (off + m) (rem - m) = 0 \<longrightarrow> icache s' = icache u" using w unfolding wrote_def by blast+
  have m: "m \<le> rem" using rem(2) chunk_pos(2) by simp
  have "cbyte s' ip pos = (if off \<le> pos \<and> pos < off + rem then src ! (pos - off) else cbyte s ip pos)" if "pos div BSIZE < MAXFILE" for pos
    using W(3) [OF that] by' [OF that] m rem(3) by (auto simp: nth_drop)
  moreover have "room s \<le> room s' + rounds rem off + 8 * news s ip off rem"
    using su(2) W(2) ms rounds_step [OF rem(1), of off] rem(2) by simp
  moreover have "node_addr s' ip (Leaf k) \<noteq> 0" if "k \<in> blocks_of off rem" for k
  proof (cases "k = off div BSIZE")
    case True
    then show ?thesis using evolvesD(6) [OF W(1), of "Leaf k"] lf by simp
  next
    case False
    then show ?thesis using that blocks_of_step(1) [OF rem(1), of off] rem(2) W(4) by simp
  qed
  moreover have "news s ip off rem = 0 \<longrightarrow> icache s' = icache s" using ms W(5) lf(3) by simp
  ultimately show ?thesis using evolves_trans [OF su(1) W(1)] unfolding wrote_def by blast
qed

lemma writei_loop_grows:
  assumes "tree_ok s ip" "tx_inv s" "roomy 2 s" "off + rem \<le> MAXFILE * BSIZE" "rem \<le> length src"
    "spare (j + 3 * news s ip off rem) s" "rounds rem off + 8 * news s ip off rem \<le> room s"
  shows "wp (writei_loop ip src rem off s) (\<lambda>s'. wrote ip src rem off s s' \<and> spare j s')"
  using assms
proof (induction rem arbitrary: off s src rule: less_induct)
  case (less rem)
  show ?case
  proof (cases "rem = 0")
    case True
    then show ?thesis using less.prems evolves_refl [of s ip]
      by (subst writei_loop.simps) (auto simp: wrote_def news_def blocks_of_def)
  next
    case False
    let ?m = "chunk rem off" and ?k = "off div BSIZE"
    have m: "0 < ?m" "?m \<le> rem" "\<not> ?m > length src" "?m \<le> length src" using chunk_pos [of rem off] False less.prems(5) by auto
    have rem: "0 < rem" using False by simp
    have k: "?k < MAXFILE" using blocks_of_bound [OF less.prems(4)] blocks_of_step(1) [OF rem, of off] by simp
    have ns: "news s ip off rem = missing s ip ?k + sum (missing s ip) (blocks_of (off + ?m) (rem - ?m))"
      using news_step [OF rem, of off s ip s] by (simp add: news_def)
    have eq: "writei_loop ip src rem off s = rbind (bmap ip (of_nat ?k) s) (\<lambda>(addr, s).
        rbind (bread addr s) (\<lambda>(bp, s).
            rbind (log_write bp (set_data bp (patch (off mod BSIZE) (take ?m src) (b_data (bcache s bp))) s)) (\<lambda>s.
              writei_loop ip (drop ?m src) (rem - ?m) (off + ?m) (brelse bp s))))"
      using False m(3) by (subst writei_loop.simps) (simp add: Let_def)
    have "wp (bmap ip (of_nat ?k) s) (\<lambda>(r, t). grown ip (way ?k) s t \<and> spare (j + 3 * sum (missing s ip) (blocks_of (off + ?m) (rem - ?m))) t \<and>
      room s \<le> room t + 8 * missing s ip ?k \<and> r = node_addr t ip (Leaf ?k) \<and> r \<noteq> 0 \<and> (missing s ip ?k = 0 \<longrightarrow> icache t = icache s))"
      using less.prems(2,3,6,7) ns by (intro bmap_grows [OF less.prems(1) k]) (simp_all add: algebra_simps)
    then show ?thesis unfolding eq
    proof (rule wp_bind_pair)
      fix r t
      assume rt: "grown ip (way ?k) s t \<and> spare (j + 3 * sum (missing s ip) (blocks_of (off + ?m) (rem - ?m))) t \<and>
        room s \<le> room t + 8 * missing s ip ?k \<and> r = node_addr t ip (Leaf ?k) \<and> r \<noteq> 0 \<and> (missing s ip ?k = 0 \<longrightarrow> icache t = icache s)"
      let ?d = "patch (off mod BSIZE) (take ?m src) (blk t r)"
      have g: "grown ip (way ?k) s t" using rt by blast
      note G = grownD [OF g]
      have rd: "data_block t r" using rt tree_node(1) [OF G(4), of "Leaf ?k"] k by auto
      then have rl: "r \<notin> log_area t" "r \<noteq> 0" by (simp_all add: data_block_def)
      have len: "length (blk t b) = BSIZE" for b by (rule length_blk [OF tx_inv_bio [OF G(1)]])
      have ld: "length ?d = BSIZE" using len chunk_fits [of off rem] m(4) by simp
      have rm: "roomy 2 t" "roomy 1 t" using less.prems(3) roomy_cong [OF G(2)] roomy_mono [of 2 t 1] by auto
      show "wp (rbind (bread r t) (\<lambda>(bp, s).
            rbind (log_write bp (set_data bp (patch (off mod BSIZE) (take ?m src) (b_data (bcache s bp))) s)) (\<lambda>s.
              writei_loop ip (drop ?m src) (rem - ?m) (off + ?m) (brelse bp s)))) (\<lambda>s'. wrote ip src rem off s s' \<and> spare j s')"
      proof (rule wp_tx_bread [OF G(1) roomy_can_read [OF rm(2) _ rl(2)] rl(1)])
        fix bp s1
        assume s1: "tx_inv s1" "blk s1 = blk t" "refs s1 = (refs t)(r := Suc (refs t r))" "holds s1 bp r"
          "r \<notin> log_area s1" "b_data (bcache s1 bp) = blk t r" "room s1 = room t" "tx_frame t s1"
        have r1: "0 < room s1" using s1(7) rt less.prems(7) rounds_step [OF rem, of off] ns by simp
        show "wp (rbind (log_write bp (set_data bp (patch (off mod BSIZE) (take ?m src) (b_data (bcache s1 bp))) s1)) (\<lambda>s.
              writei_loop ip (drop ?m src) (rem - ?m) (off + ?m) (brelse bp s))) (\<lambda>s'. wrote ip src rem off s s' \<and> spare j s')"
          unfolding s1(6)
        proof (rule wp_log_write [OF s1(1,4,5) r1 ld])
          fix s2
          assume s2: "tx_inv s2" "blk s2 = (blk s1)(r := ?d)" "refs s2 = refs s1" "holds s2 bp r" "r \<notin> log_area s2"
            "room s1 \<le> Suc (room s2)" "tx_frame s1 s2"
          define u where "u = brelse bp s2"
          note rl = tx_release [OF s2(1,4,5), folded u_def]
          have fu: "tx_frame t u" by (rule tx_frame_trans [OF s1(8) tx_frame_trans [OF s2(7) rl(5)]])
          have bu: "blk u = (blk t)(node_addr t ip (Leaf ?k) := patch (off mod BSIZE) (take ?m src) (blk t (node_addr t ip (Leaf ?k))))"
            using rl(2) s2(2) s1(2) rt by simp
          have ru: "refs u = refs t" using rl(3) s2(3) s1(3) by (simp add: fun_eq_iff)
          have lz: "node_addr t ip (Leaf ?k) \<noteq> 0" using rt by blast
          note lw = leaf_write [OF G(4) k lz rl(1) ru fu bu]
          have eu: "evolves ip s u" by (rule evolves_trans [OF grown_evolves(1) [OF g] lw(1)])
          have mu: "missing u ip j = missing s ip j" if "j \<in> blocks_of (off + ?m) (rem - ?m)" for j
          proof -
            have j: "j < MAXFILE" "j \<noteq> ?k" using that blocks_of_bound [OF less.prems(4), of j] blocks_of_step [OF rem, of off] by auto
            then have "Leaf j \<notin> way ?k" by (auto simp: way_def)
            then show ?thesis using lw(2) [of "Leaf j"] G(7) [of "Leaf j"] j(1) by (simp add: missing_def)
          qed
          have nu: "news u ip (off + ?m) (rem - ?m) = sum (missing s ip) (blocks_of (off + ?m) (rem - ?m))"
            unfolding news_def using mu by (rule sum.cong [OF refl])
          have by': "cbyte u ip pos = (if off \<le> pos \<and> pos < off + ?m then src ! (pos - off) else cbyte s ip pos)" if "pos div BSIZE < MAXFILE" for pos
            using leaf_write_bytes [OF G(4) k lz bu lw(2) len _ that] grown_evolves(2) [OF g that less.prems(1)] m(4) chunk_fits [of off rem] by auto
          have iu: "missing s ip ?k = 0 \<longrightarrow> icache u = icache s" using rt tx_frame_fs(1) [OF fu] by simp
          have rmu: "room s \<le> room u + 1 + 8 * missing s ip ?k" using rt s1(7) s2(6) rl(4) by linarith
          have lu: "node_addr u ip (Leaf ?k) \<noteq> 0" using lw(2) [of "Leaf ?k"] k lz by simp
          have "wp (writei_loop ip (drop ?m src) (rem - ?m) (off + ?m) u) (\<lambda>s'. wrote ip (drop ?m src) (rem - ?m) (off + ?m) u s' \<and> spare j s')"
          proof (rule less.IH)
            show "rem - ?m < rem" using m by simp
            show "tree_ok u ip" "tx_inv u" using evolvesD(4) [OF lw(1)] rl(1) by auto
            show "roomy 2 u" using roomy_cong [OF ru] rm(1) by simp
            show "off + ?m + (rem - ?m) \<le> MAXFILE * BSIZE" "rem - ?m \<le> length (drop ?m src)" using less.prems(4,5) m by simp_all
            show "spare (j + 3 * news u ip (off + ?m) (rem - ?m)) u" using lw(3) rt nu by simp
            show "rounds (rem - ?m) (off + ?m) + 8 * news u ip (off + ?m) (rem - ?m) \<le> room u"
              using rmu less.prems(7) ns nu rounds_step [OF rem, of off] by simp
          qed
          then show "wp (writei_loop ip (drop ?m src) (rem - ?m) (off + ?m) (brelse bp s2)) (\<lambda>s'. wrote ip src rem off s s' \<and> spare j s')"
            unfolding u_def [symmetric]
          proof (rule wp_mono)
            fix s' assume "wrote ip (drop ?m src) (rem - ?m) (off + ?m) u s' \<and> spare j s'"
            then show "wrote ip src rem off s s' \<and> spare j s'"
              using wrote_seq [OF rem refl m(4) eu rmu by' lu k iu] ns nu by simp
          qed
        qed
      qed simp
    qed
  qed
qed

section \<open>Files\<close>

text \<open>The contents of a file.\<close>

definition contents :: "'a fs_state_scheme \<Rightarrow> nat \<Rightarrow> bytes" where
  "contents s ip = map (cbyte s ip) [0..<unat (i_size (icache s ip))]"

definition inode_area :: "'a fs_state_scheme \<Rightarrow> uint set" where
  "inode_area s = (\<lambda>m. IBLOCK m (fsb s)) ` {m. m < sb_ninodes (fsb s)}"

text \<open>A file whose blocks are its own and all there, up to its size.\<close>

definition file_ok :: "'a fs_state_scheme \<Rightarrow> nat \<Rightarrow> bool" where
  "file_ok s ip \<longleftrightarrow> tree_ok s ip \<and> tree_blocks s ip \<inter> inode_area s = {} \<and> (\<forall>b \<in> inode_area s. data_block s b) \<and>
     i_inum (icache s ip) < sb_ninodes (fsb s) \<and> unat (i_size (icache s ip)) \<le> MAXFILE * BSIZE \<and>
     (\<forall>k. k * BSIZE < unat (i_size (icache s ip)) \<longrightarrow> node_addr s ip (Leaf k) \<noteq> 0)"

definition apart :: "'a fs_state_scheme \<Rightarrow> nat \<Rightarrow> nat \<Rightarrow> bool" where
  "apart s ip jp \<longleftrightarrow> tree_blocks s ip \<inter> tree_blocks s jp = {}"

text \<open>The inode block holds the inode.\<close>

definition on_disk :: "'a fs_state_scheme \<Rightarrow> nat \<Rightarrow> bool" where
  "on_disk s ip \<longleftrightarrow> same_disk_part (load_dinode (blk s (IBLOCK (i_inum (icache s ip)) (fsb s))) (ioff (i_inum (icache s ip))) (icache s ip)) (icache s ip)"

lemma file_inode_block:
  assumes "file_ok s ip"
  shows "data_block s (IBLOCK (i_inum (icache s ip)) (fsb s))" "IBLOCK (i_inum (icache s ip)) (fsb s) \<in> inode_area s"
  using assms by (auto simp: file_ok_def inode_area_def)

text \<open>A file none of whose blocks is written.\<close>

lemma file_kept_on:
  assumes ok: "file_ok s jp" and s': "fsb s' = fsb s" "icache s' jp = icache s jp" "\<And>b. b \<in> tree_blocks s jp \<union> inode_area s \<Longrightarrow> data_block s b \<Longrightarrow> data_block s' b"
    and bk: "\<And>b. b \<in> tree_blocks s jp \<Longrightarrow> blk s' b = blk s b"
  shows "file_ok s' jp" "tree_blocks s' jp = tree_blocks s jp" "contents s' jp = contents s jp"
proof -
  have t: "tree_ok s jp" using ok by (simp add: file_ok_def)
  have na: "node_addr s' jp q = node_addr s jp q" if "q \<in> nodes" for q
    by (rule node_addr_cong [OF _ _ that]) (use s'(2) bk [OF tree_blocksI [OF inner_nodes]] in auto)
  show tb: "tree_blocks s' jp = tree_blocks s jp" unfolding tree_blocks_image using na by (simp cong: image_cong)
  have "inj_on (node_addr s' jp) {p \<in> nodes. node_addr s' jp p \<noteq> 0}" using t na unfolding tree_ok_def inj_on_def by auto
  then have "tree_ok s' jp" using t tb s'(2,3) by (simp add: tree_ok_def)
  moreover have lk: "k < MAXFILE" if "k * BSIZE < unat (i_size (icache s jp))" for k
    using that ok less_le_trans [of "k * BSIZE" _ "MAXFILE * BSIZE"] by (simp add: file_ok_def)
  ultimately show "file_ok s' jp" using ok tb na s' unfolding file_ok_def by (simp add: inode_area_def)
  have "cbyte s' jp pos = cbyte s jp pos" if "pos < unat (i_size (icache s jp))" for pos
  proof -
    have k: "pos div BSIZE < MAXFILE" by (rule lk [OF le_less_trans [OF div_times_less_eq_dividend that]])
    then show ?thesis using na [of "Leaf (pos div BSIZE)"] bk tree_blocksI [of "Leaf (pos div BSIZE)" s jp] by (auto simp: cbyte_def Let_def)
  qed
  then show "contents s' jp = contents s jp" using s'(2) by (simp add: contents_def)
qed

lemma file_kept:
  assumes "file_ok s jp" "fsb s' = fsb s" "icache s' jp = icache s jp" "\<And>b. data_block s b \<Longrightarrow> data_block s' b" "\<And>b. b \<in> tree_blocks s jp \<Longrightarrow> blk s' b = blk s b"
  shows "file_ok s' jp" "tree_blocks s' jp = tree_blocks s jp" "contents s' jp = contents s jp"
  using file_kept_on [OF assms(1-3) _ assms(5)] assms(4) by blast+

text \<open>The bytes of an array written at \<open>off\<close>, which may lie at its end.\<close>

lemma map_patch:
  assumes "off \<le> sz" "n \<le> length src" "\<And>pos. pos < max sz (off + n) \<Longrightarrow> f pos = (if off \<le> pos \<and> pos < off + n then src ! (pos - off) else g pos)"
  shows "map f [0..<max sz (off + n)] = patch off (take n src) (map g [0..<sz])"
proof (rule nth_equalityI)
  show "length (map f [0..<max sz (off + n)]) = length (patch off (take n src) (map g [0..<sz]))" using assms(1,2) by (simp add: patch_def)
  fix i assume "i < length (map f [0..<max sz (off + n)])"
  then have i: "i < max sz (off + n)" by simp
  have "patch off (take n src) (map g [0..<sz]) ! i = (if off \<le> i \<and> i < off + n then src ! (i - off) else g i)"
    using assms(1,2) i by (auto simp: patch_def nth_append)
  then show "map f [0..<max sz (off + n)] ! i = patch off (take n src) (map g [0..<sz]) ! i" using assms(3) [OF i] i by simp
qed

section \<open>Writing to a file\<close>

text \<open>After the loop, with the new size: the blocks of the file are there up to it, and no other file has noticed.\<close>

lemma wrote_file:
  assumes ok: "file_ok s ip" and w: "wrote ip src n off s t" and off: "off \<le> unat (i_size (icache s ip))" "off + n \<le> MAXFILE * BSIZE" "n \<le> length src"
    and t': "t' = upd_inode ip (\<lambda>q. q\<lparr>i_size := sz, i_mtime := mt\<rparr>) t" "unat sz = max (unat (i_size (icache s ip))) (off + n)"
  shows "file_ok t' ip" "contents t' ip = patch off (take n src) (contents s ip)"
proof -
  let ?sz = "unat (i_size (icache s ip))"
  have W: "evolves ip s t" "\<And>pos. pos div BSIZE < MAXFILE \<Longrightarrow> cbyte t ip pos = (if off \<le> pos \<and> pos < off + n then src ! (pos - off) else cbyte s ip pos)"
    "\<And>k. k \<in> blocks_of off n \<Longrightarrow> node_addr t ip (Leaf k) \<noteq> 0" using w unfolding wrote_def by blast+
  note E = evolvesD [OF W(1)]
  obtain as where ic: "icache t = (icache s)(ip := (icache s ip)\<lparr>i_addrs := as\<rparr>)" using E(5) by blast
  have f: "fsb t = fsb s" using fs_frame_same(1) [OF E(3)] .
  have O: "?sz \<le> MAXFILE * BSIZE" "\<And>k. k * BSIZE < ?sz \<Longrightarrow> node_addr s ip (Leaf k) \<noteq> 0" "i_inum (icache s ip) < sb_ninodes (fsb s)"
    "tree_blocks s ip \<inter> inode_area s = {}" "\<And>b. b \<in> inode_area s \<Longrightarrow> data_block s b" using ok by (auto simp: file_ok_def)
  have le: "max ?sz (off + n) \<le> MAXFILE * BSIZE" using O(1) off(2) by simp
  have na: "node_addr t' ip = node_addr t ip" unfolding t'(1) by (rule node_addr_same) simp_all
  have v: "data_block t' = data_block t" "free_blocks t' = free_blocks t" using bitmap_view [of t' t] unfolding t'(1) by simp_all
  have tb: "tree_blocks t' ip = tree_blocks t ip" unfolding tree_blocks_def na ..
  have dense: "node_addr t ip (Leaf k) \<noteq> 0" if k: "k * BSIZE < max ?sz (off + n)" for k
  proof (cases "k * BSIZE < ?sz")
    case True
    have "k < MAXFILE" using True O(1) less_le_trans [of "k * BSIZE" _ "MAXFILE * BSIZE"] by simp
    then show ?thesis using E(6) [of "Leaf k"] O(2) [OF True] by simp
  next
    case False
    then have "off \<le> k * BSIZE" "k * BSIZE \<le> off + n - 1" "n \<noteq> 0" using k off(1) by auto
    then have "k \<in> blocks_of off n" using div_le_mono [of off "k * BSIZE" BSIZE] div_le_mono [of "k * BSIZE" "off + n - 1" BSIZE]
      by (simp add: blocks_of_def BSIZE_def)
    then show ?thesis by (rule W(3))
  qed
  have "b \<notin> inode_area s" if "b \<in> tree_blocks t ip" for b
  proof -
    obtain q where q: "q \<in> nodes" "b = node_addr t ip q" "b \<noteq> 0" using \<open>b \<in> tree_blocks t ip\<close> by (auto simp: tree_blocks_def)
    show ?thesis
    proof (cases "node_addr s ip q = 0")
      case True
      then have "b \<in> free_blocks s" using E(7) [OF q(1)] q(2,3) by simp
      then show ?thesis using O(5) free_not_data by blast
    next
      case False
      then have "b \<in> tree_blocks s ip" using E(6) [OF q(1)] q(2) tree_blocksI [OF q(1) False] by simp
      then show ?thesis using O(4) by blast
    qed
  qed
  moreover have "tree_ok t' ip" using E(4) unfolding tree_ok_def tb na v(1) by (simp add: t'(1))
  ultimately show "file_ok t' ip"
    using dense le O(3,5) E(8) tb na v(1) t'(2) f unfolding file_ok_def inode_area_def by (auto simp: t'(1) ic)
  have "cbyte t' ip pos = (if off \<le> pos \<and> pos < off + n then src ! (pos - off) else cbyte s ip pos)" if "pos < max ?sz (off + n)" for pos
  proof -
    have "pos div BSIZE < MAXFILE" using that le by (intro less_mult_imp_div_less) linarith
    moreover have "cbyte t' ip pos = cbyte t ip pos" unfolding cbyte_def na Let_def by (simp add: t'(1))
    ultimately show ?thesis using W(2) by simp
  qed
  then have "map (cbyte t' ip) [0..<max ?sz (off + n)] = patch off (take n src) (map (cbyte s ip) [0..<?sz])"
    by (rule map_patch [OF off(1,3)])
  then show "contents t' ip = patch off (take n src) (contents s ip)" unfolding contents_def by (simp add: t' ic)
qed

lemma evolves_others:
  assumes e: "evolves ip s t" and j: "jp \<noteq> ip" "file_ok s jp" "apart s ip jp"
  shows "file_ok t jp" "apart t ip jp" "contents t jp = contents s jp" "tree_blocks t jp = tree_blocks s jp"
proof -
  note E = evolvesD [OF e]
  have db: "\<And>b. b \<in> tree_blocks s jp \<Longrightarrow> data_block s b" using j(2) by (simp add: file_ok_def tree_ok_def)
  have bk: "blk t b = blk s b" if "b \<in> tree_blocks s jp" for b
    using E(9) [OF db [OF that]] that j(3) by (auto simp: apart_def)
  have ic: "icache t jp = icache s jp" using E(5) j(1) by auto
  note k = file_kept [OF j(2) fs_frame_same(1) [OF E(3)] ic E(8) bk]
  show "file_ok t jp" by (rule k(1))
  show "contents t jp = contents s jp" by (rule k(3))
  show "tree_blocks t jp = tree_blocks s jp" by (rule k(2))
  have "b \<notin> tree_blocks s jp" if b: "b \<in> tree_blocks t ip" for b
  proof -
    obtain q where q: "q \<in> nodes" "b = node_addr t ip q" "b \<noteq> 0" using b by (auto simp: tree_blocks_def)
    show ?thesis
    proof (cases "node_addr s ip q = 0")
      case True
      then have "b \<in> free_blocks s" using E(7) [OF q(1)] q(2,3) by simp
      then show ?thesis using db free_not_data by blast
    next
      case False
      then have "b \<in> tree_blocks s ip" using E(6) [OF q(1)] q(2) tree_blocksI [OF q(1) False] by simp
      then show ?thesis using j(3) by (auto simp: apart_def)
    qed
  qed
  then show "apart t ip jp" using k(2) by (auto simp: apart_def)
qed

lemma writei_grows:
  assumes ok: "file_ok s ip" and s: "tx_inv s" "roomy 2 s"
    and off: "off \<le> i_size (icache s ip)" "unat off + unat n \<le> MAXFILE * BSIZE" "unat n \<le> length src"
    and sp: "spare (j + 3 * news s ip (unat off) (unat n)) s" "rounds (unat n) (unat off) + 8 * news s ip (unat off) (unat n) < room s"
  obtains t s' t' mt where "writei ip src off n s = Ok (int (unat n), s')" "wrote ip src (unat n) (unat off) s t" "spare j s'" "tx_inv s'" "refs s' = refs s"
    "room t \<le> Suc (room s')" "fs_frame s s'"
    "t' = upd_inode ip (\<lambda>q. q\<lparr>i_size := of_nat (max (unat (i_size (icache s ip))) (unat off + unat n)), i_mtime := mt\<rparr>) t" "icache s' = icache t'"
    "s' = t' \<and> icache s' = icache s \<or> tx_frame t' s' \<and>
       blk s' = (blk t)(IBLOCK (i_inum (icache s ip)) (fsb s) := store_dinode (icache s' ip) (ioff (i_inum (icache s ip))) (blk t (IBLOCK (i_inum (icache s ip)) (fsb s))))"
proof -
  let ?sz = "i_size (icache s ip)" and ?I = "IBLOCK (i_inum (icache s ip)) (fsb s)" and ?o = "unat off" and ?n = "unat n"
  have mx: "MAXFILE * BSIZE = 8394240" by (simp add: MAXFILE_val BSIZE_def)
  have nw: "unat (off + n) = ?o + ?n" using off(2) mx by (simp add: unat_word_ariths)
  have c: "\<not> (off > ?sz \<or> off + n < off)" "\<not> off + n > of_nat (MAXFILE * BSIZE)"
    using off(1,2) nw mx by (auto simp: word_less_nat_alt word_le_nat_alt)
  have si: "sint n = int ?n" using off(2) mx by (intro sint_unat) simp
  have tree: "tree_ok s ip" using ok by (simp add: file_ok_def)
  obtain t where t: "writei_loop ip src ?n ?o s = Ok t" "wrote ip src ?n ?o s t" "spare j t"
    using writei_loop_grows [OF tree s off(2,3) sp(1)] sp(2) by (auto simp: wp_iff)
  have E: "evolves ip s t" "room s \<le> room t + rounds ?n ?o + 8 * news s ip ?o ?n" using t(2) by (simp_all add: wrote_def)
  note D = evolvesD [OF E(1)]
  have same: "i_size (icache t ip) = ?sz" "i_inum (icache t ip) = i_inum (icache s ip)" "length (i_addrs (icache t ip)) = NDIRECT + 1"
    using D(4,5) by (auto simp: tree_ok_def)
  show thesis
  proof (cases "n > 0 \<and> off + n > ?sz")
    case False
    then have le: "?o + ?n \<le> unat ?sz" using off(1) nw by (auto simp: word_le_nat_alt word_less_nat_alt word_gt_0)
    have "news s ip ?o ?n = 0"
    proof -
      have "missing s ip k = 0" if k: "k \<in> blocks_of ?o ?n" for k
      proof -
        have "k * BSIZE \<le> (?o + ?n - 1) div BSIZE * BSIZE" "?n \<noteq> 0" using k by (auto simp: blocks_of_def split: if_splits)
        then have "k * BSIZE < unat ?sz" using div_times_less_eq_dividend [of "?o + ?n - 1" BSIZE] le by linarith
        then show ?thesis using ok by (simp add: file_ok_def missing_def)
      qed
      then show ?thesis by (simp add: news_def)
    qed
    then have ict: "icache t = icache s" using t(2) by (simp add: wrote_def)
    have mx: "of_nat (max (unat ?sz) (?o + ?n)) = i_size (icache t ip)" using le same(1) by simp
    have u: "upd_inode ip (\<lambda>q. q\<lparr>i_size := of_nat (max (unat ?sz) (?o + ?n)), i_mtime := i_mtime (icache t ip)\<rparr>) t = t"
      unfolding mx by (simp add: upd_inode_def)
    have "writei ip src off n s = Ok (int ?n, t)" using c False t(1) si same(1) by (auto simp: writei_def Let_def)
    then show ?thesis by (rule that [where t = t and t' = t and mt = "i_mtime (icache t ip)"]) (use t D(1-3) u ict in simp_all)
  next
    case True
    define t' where "t' = upd_inode ip (\<lambda>q. q\<lparr>i_size := off + n, i_mtime := fst (sys_time False t)\<rparr>) t"
    have mxs: "max (unat ?sz) (?o + ?n) = ?o + ?n" using True nw by (simp add: word_less_nat_alt)
    have on: "of_nat (max (unat ?sz) (?o + ?n)) = off + n" unfolding mxs by simp
    have I: "?I \<noteq> 0" "?I \<notin> log_area s" using file_inode_block(1) [OF ok] by (simp_all add: data_block_def)
    have f: "fsb t = fsb s" "log_area t = log_area s" using fs_frame_same [OF D(3)] by auto
    have rm: "roomy 1 t'" using roomy_cong [of t' s 1] D(2) roomy_mono [OF s(2), of 1] by (simp add: t'_def)
    have "wp (iupdate ip t') (\<lambda>s'. tx_inv s' \<and> blk s' = (blk t')(?I := store_dinode (icache t' ip) (ioff (i_inum (icache t' ip))) (blk t' ?I)) \<and>
      refs s' = refs t' \<and> room t' \<le> Suc (room s') \<and> tx_frame t' s')"
      using D(1) sp(2) E(2) I f same rm by (intro iupdate_spec) (simp_all add: t'_def)
    then obtain s' where s': "iupdate ip t' = Ok s'" "tx_inv s'" "blk s' = (blk t)(?I := store_dinode (icache t' ip) (ioff (i_inum (icache s ip))) (blk t ?I))"
      "refs s' = refs t" "room t \<le> Suc (room s')" "tx_frame t' s'" using same(2) by (auto simp: wp_iff t'_def)
    note fr = tx_frame_fs [OF s'(6)]
    have w: "writei ip src off n s = Ok (int ?n, s')" using c True t(1) si same(1) s'(1) by (simp add: writei_def Let_def t'_def)
    have "bmap_area t' = bmap_area s" using f(1) by (simp add: bmap_area_def t'_def)
    moreover have "?I \<notin> bmap_area s" using file_inode_block(1) [OF ok] by (simp add: data_block_def)
    ultimately have "blk s' b = blk t' b" if "b \<in> bmap_area t'" for b using that s'(3) by (auto simp: t'_def)
    then have "spare j s' = spare j t'" using fr tx_frame_same(6) [OF s'(6)] by (intro bitmap_view(3)) auto
    moreover have "spare j t' = spare j t" by (intro bitmap_view(3)) (simp_all add: t'_def)
    moreover have "fs_frame s s'" using fs_frame_trans [OF D(3)] fs_frame_trans [OF _ tx_fs_frame [OF s'(6)], of t] by (simp add: t'_def)
    ultimately show ?thesis
      by (intro that [OF w t(2), of t' "fst (sys_time False t)"]) (use t(3) s' D(2) fr in \<open>simp_all add: t'_def on\<close>)
  qed
qed

text \<open>Writing the inode back touches the blocks of no file.\<close>

lemma node_addr_kept:
  assumes ok: "file_ok t' ip" and s': "icache s' = icache t'" "fsb s' = fsb t'" "log_area s' = log_area t'"
    "blk s' = (blk t')(IBLOCK (i_inum (icache t' ip)) (fsb t') := d)" and k: "k < MAXFILE"
  shows "node_addr s' ip (Leaf k) = node_addr t' ip (Leaf k)"
proof (rule node_addr_cong)
  have I: "IBLOCK (i_inum (icache t' ip)) (fsb t') \<in> inode_area t'" using file_inode_block [OF ok] by simp
  show "blk s' (node_addr t' ip q) = blk t' (node_addr t' ip q)" if "q \<in> inner" "node_addr t' ip q \<noteq> 0" for q
    using tree_blocksI [OF inner_nodes [OF that(1)] that(2)] ok I s'(4) by (auto simp: file_ok_def)
qed (use s'(1) k in simp_all)

lemma inode_written:
  assumes ok: "file_ok t' ip" and s': "icache s' = icache t'" "fsb s' = fsb t'" "log_area s' = log_area t'"
    "blk s' = (blk t')(IBLOCK (i_inum (icache t' ip)) (fsb t') := d)" and j: "file_ok t' jp"
  shows "file_ok s' jp" "tree_blocks s' jp = tree_blocks t' jp" "contents s' jp = contents t' jp"
proof -
  let ?I = "IBLOCK (i_inum (icache t' ip)) (fsb t')"
  have I: "?I \<in> inode_area t'" "?I \<notin> bmap_area t'" using file_inode_block [OF ok] by (simp_all add: data_block_def)
  have "blk s' b = blk t' b" if "b \<in> bmap_area t'" for b using that s'(4) I(2) by auto
  then have db: "data_block s' = data_block t'" by (rule bitmap_view(1) [OF s'(2,3)])
  have bk: "blk s' b = blk t' b" if "b \<in> tree_blocks t' jp" for b using that j I(1) s'(4) by (auto simp: file_ok_def)
  note k = file_kept [OF j s'(2) fun_cong [OF s'(1)] _ bk]
  show "file_ok s' jp" "tree_blocks s' jp = tree_blocks t' jp" "contents s' jp = contents t' jp" using k db by simp_all
qed

lemma store_on_disk:
  assumes "length (i_addrs (icache s ip)) = NDIRECT + 1" "\<And>b. length (blk t b) = BSIZE"
    "blk s (IBLOCK (i_inum (icache s ip)) (fsb s)) = store_dinode (icache s ip) (ioff (i_inum (icache s ip))) (blk t b)"
  shows "on_disk s ip"
  unfolding on_disk_def assms(3) by (rule load_store_dinode(1) [OF assms(1)]) (use assms(2) ioff_bound in simp)

lemma writei_grown:
  assumes "file_ok s ip" "tx_inv s" "roomy 2 s" "off \<le> i_size (icache s ip)" "unat off + unat n \<le> MAXFILE * BSIZE" "unat n \<le> length src"
    "spare (j + 3 * news s ip (unat off) (unat n)) s" "rounds (unat n) (unat off) + 8 * news s ip (unat off) (unat n) < room s"
  shows "\<exists>s'. writei ip src off n s = Ok (int (unat n), s') \<and> tx_inv s' \<and> refs s' = refs s \<and> file_ok s' ip \<and>
    contents s' ip = patch (unat off) (take (unat n) src) (contents s ip) \<and> (on_disk s ip \<longrightarrow> on_disk s' ip) \<and>
    (\<forall>jp. jp \<noteq> ip \<and> file_ok s jp \<and> apart s ip jp \<longrightarrow> file_ok s' jp \<and> apart s' ip jp \<and> contents s' jp = contents s jp \<and> tree_blocks s' jp = tree_blocks s jp) \<and>
    spare j s' \<and> fs_frame s s' \<and> (\<exists>as sz mt. icache s' = (icache s)(ip := (icache s ip)\<lparr>i_addrs := as, i_size := sz, i_mtime := mt\<rparr>)) \<and>
    (\<forall>k < MAXFILE. missing s' ip k \<le> missing s ip k)"
proof -
  let ?sz = "of_nat (max (unat (i_size (icache s ip))) (unat off + unat n)) :: uint"
  obtain t s' t' mt where w: "writei ip src off n s = Ok (int (unat n), s')" "wrote ip src (unat n) (unat off) s t" "tx_inv s'" "refs s' = refs s" "fs_frame s s'" "spare j s'"
    and t': "t' = upd_inode ip (\<lambda>q. q\<lparr>i_size := ?sz, i_mtime := mt\<rparr>) t" "icache s' = icache t'"
    and c: "s' = t' \<and> icache s' = icache s \<or> tx_frame t' s' \<and>
       blk s' = (blk t)(IBLOCK (i_inum (icache s ip)) (fsb s) := store_dinode (icache s' ip) (ioff (i_inum (icache s ip))) (blk t (IBLOCK (i_inum (icache s ip)) (fsb s))))"
    by (rule writei_grows [OF assms])
  have le: "max (unat (i_size (icache s ip))) (unat off + unat n) \<le> MAXFILE * BSIZE" using assms(1,5) by (simp add: file_ok_def)
  then have sz: "unat ?sz = max (unat (i_size (icache s ip))) (unat off + unat n)" by (intro unat_of_nat_small) (simp add: MAXFILE_val BSIZE_def)
  have off: "unat off \<le> unat (i_size (icache s ip))" using assms(4) by (simp add: word_le_nat_alt)
  note f = wrote_file [OF assms(1) w(2) off assms(5,6) t'(1) sz]
  have e: "evolves ip s t" using w(2) by (simp add: wrote_def)
  note E = evolvesD [OF e]
  have others: "file_ok t' jp \<and> apart t' ip jp \<and> contents t' jp = contents s jp \<and> tree_blocks t' jp = tree_blocks s jp" if j: "jp \<noteq> ip" "file_ok s jp" "apart s ip jp" for jp
  proof -
    have u: "blk t' = blk t" "icache t' jp = icache t jp" "i_addrs (icache t' ip) = i_addrs (icache t ip)" "fsb t' = fsb t" using j(1) by (simp_all add: t'(1))
    have "data_block t' = data_block t" by (rule bitmap_view(1)) (simp_all add: t'(1))
    then have "file_ok t' jp" "tree_blocks t' jp = tree_blocks t jp" "contents t' jp = contents t jp"
      using file_kept [OF evolves_others(1) [OF e j] u(4,2)] u(1) by simp_all
    moreover have "tree_blocks t' ip = tree_blocks t ip" unfolding tree_blocks_def node_addr_same [OF u(1,3)] ..
    ultimately show ?thesis using evolves_others [OF e j] by (simp add: apart_def)
  qed
  have inum: "i_inum (icache t' ip) = i_inum (icache s ip)" "fsb t' = fsb s" "blk t' = blk t" using E(5) fs_frame_same(1) [OF E(3)] by (auto simp: t'(1))
  from c have "file_ok s' ip \<and> contents s' ip = contents t' ip \<and> (on_disk s ip \<longrightarrow> on_disk s' ip) \<and>
    (\<forall>jp. jp \<noteq> ip \<and> file_ok s jp \<and> apart s ip jp \<longrightarrow> file_ok s' jp \<and> apart s' ip jp \<and> contents s' jp = contents s jp \<and> tree_blocks s' jp = tree_blocks s jp)"
  proof
    assume a: "s' = t' \<and> icache s' = icache s"
    have "blk s' (IBLOCK (i_inum (icache s ip)) (fsb s)) = blk s (IBLOCK (i_inum (icache s ip)) (fsb s))"
      using E(9) [OF file_inode_block(1) [OF assms(1)]] file_inode_block(2) [OF assms(1)] assms(1) a inum(3) by (auto simp: file_ok_def)
    then show ?thesis using a f(1) others inum by (auto simp: on_disk_def)
  next
    assume a: "tx_frame t' s' \<and>
       blk s' = (blk t)(IBLOCK (i_inum (icache s ip)) (fsb s) := store_dinode (icache s' ip) (ioff (i_inum (icache s ip))) (blk t (IBLOCK (i_inum (icache s ip)) (fsb s))))"
    then have a': "fsb s' = fsb t'" "log_area s' = log_area t'" using tx_frame_fs [of t' s'] tx_frame_same(6) [of t' s'] by auto
    note iw = inode_written [OF f(1) t'(2) a' a [THEN conjunct2, folded inum]]
    have "length (i_addrs (icache s' ip)) = NDIRECT + 1" using iw(1) [OF f(1)] by (simp add: file_ok_def tree_ok_def)
    then have "on_disk s' ip" using a length_blk [OF tx_inv_bio [OF E(1)]] t'(2) inum a' by (intro store_on_disk [of s' ip t]) simp_all
    moreover have "file_ok s' jp \<and> apart s' ip jp \<and> contents s' jp = contents s jp \<and> tree_blocks s' jp = tree_blocks s jp"
      if "jp \<noteq> ip \<and> file_ok s jp \<and> apart s ip jp" for jp
      using that others [of jp] iw [of jp] iw(2) [OF f(1)] by (auto simp: apart_def)
    ultimately show ?thesis using iw [OF f(1)] by blast
  qed
  moreover have "\<exists>as sz mt. icache s' = (icache s)(ip := (icache s ip)\<lparr>i_addrs := as, i_size := sz, i_mtime := mt\<rparr>)"
  proof -
    obtain as where "icache t = (icache s)(ip := (icache s ip)\<lparr>i_addrs := as\<rparr>)" using E(5) by blast
    then have "icache s' = (icache s)(ip := (icache s ip)\<lparr>i_addrs := as, i_size := ?sz, i_mtime := mt\<rparr>)" using t' by simp
    then show ?thesis by blast
  qed
  moreover have "missing s' ip k \<le> missing s ip k" if k: "k < MAXFILE" for k
  proof -
    have "node_addr t' ip = node_addr t ip" by (rule node_addr_same) (simp_all add: t'(1))
    moreover have "node_addr s' ip (Leaf k) = node_addr t' ip (Leaf k)"
      using c node_addr_kept [OF f(1) t'(2) _ _ _ k] tx_frame_fs [of t' s'] tx_frame_same(6) [of t' s'] inum by auto
    ultimately show ?thesis using E(6) [of "Leaf k"] k by (auto simp: missing_def)
  qed
  ultimately show ?thesis using w f(2) by simp
qed

text \<open>Files depend on the blocks, the cached inodes and the geometry of the disk only.\<close>

lemma file_view:
  assumes v: "fsb t = fsb s" "blk t = blk s" "icache t = icache s" "log_area t = log_area s"
  shows "file_ok t = file_ok s" "contents t = contents s" "on_disk t = on_disk s" "tree_blocks t = tree_blocks s" "apart t = apart s"
    "missing t = missing s" "news t = news s" "lastballoc t = lastballoc s \<Longrightarrow> lastbi t = lastbi s \<Longrightarrow> spare k t = spare k s"
proof -
  have n: "node_addr t ip = node_addr s ip" for ip by (rule node_addr_same) (simp_all add: v)
  have d: "data_block t = data_block s" "lastballoc t = lastballoc s \<Longrightarrow> lastbi t = lastbi s \<Longrightarrow> spare k t = spare k s"
    using bitmap_view [of t s] v by simp_all
  show "lastballoc t = lastballoc s \<Longrightarrow> lastbi t = lastbi s \<Longrightarrow> spare k t = spare k s" by (rule d(2))
  show b: "tree_blocks t = tree_blocks s" by (simp add: tree_blocks_def n fun_eq_iff)
  then show "apart t = apart s" by (simp add: apart_def fun_eq_iff)
  have "file_ok t ip = file_ok s ip" for ip unfolding file_ok_def tree_ok_def inode_area_def n b d(1) v ..
  then show "file_ok t = file_ok s" ..
  show "contents t = contents s" by (simp add: contents_def cbyte_def Let_def n v fun_eq_iff)
  show "on_disk t = on_disk s" by (simp add: on_disk_def v fun_eq_iff)
  show m: "missing t = missing s" by (simp add: missing_def n fun_eq_iff)
  show "news t = news s" by (simp add: news_def m fun_eq_iff)
qed

section \<open>Property\<close>


text \<open>A file of 700 bytes in blocks 155 and 156, to which 2000 bytes are appended: four new blocks.\<close>

definition demo_grow :: fs_state where
  "demo_grow = upd_inode 0 (\<lambda>i. i\<lparr>i_inum := 3, i_ref := 1, i_valid := True, i_type := 2, i_nlink := 1, i_size := 700,
     i_addrs := [155, 156] @ replicate 10 0\<rparr>) demo_fs"

lemma demo_grow_simps:
  "tx_inv demo_grow" "roomy 2 demo_grow" "room demo_grow = 99" "i_size (icache demo_grow 0) = 700" "i_inum (icache demo_grow 0) = 3"
  "i_addrs (icache demo_grow 0) = [155, 156] @ replicate 10 0" "fsb demo_grow = fsb demo_fs" "blk demo_grow = blk demo_fs" "log_area demo_grow = log_area demo_fs"
  "used demo_grow = used demo_fs" "bmap_area demo_grow = bmap_area demo_fs" "lastballoc demo_grow = 0" "lastbi demo_grow = 0"
  using demo_fs_ok roomy_cong [of demo_grow demo_fs 2] quiet_roomy [of demo_fs 2]
  by (simp_all add: demo_grow_def demo_fs_simps demo_fs_bio room_def LOGSIZE_def NBUF_def used_def bmap_area_def fun_eq_iff)

lemma demo_grow_data: "data_block demo_grow b \<longleftrightarrow> b < 200 \<and> unat b < 160 \<and> b \<notin> log_area demo_fs \<and> b \<noteq> 150 \<and> b \<noteq> 0"
proof -
  have "BBLOCK m (fsb demo_fs) = 150" if "m < 200" for m
    using that by (simp add: BBLOCK_nat demo_fs_simps BPB_def BSIZE_def word_less_nat_alt)
  then have "bmap_area demo_fs = {150}" by (auto simp: bmap_area_def demo_fs_simps intro!: image_eqI [of _ _ 0])
  then show ?thesis using demo_fs_used by (auto simp: data_block_def demo_grow_simps demo_fs_simps)
qed

lemma demo_grow_nodes: "node_addr demo_grow 0 p = (if p = Leaf 0 then 155 else if p = Leaf 1 then 156 else 0)" if "p \<in> nodes"
proof (cases p)
  case (Leaf k)
  then show ?thesis by (simp add: node_addr_unfold demo_grow_simps MAXFILE_val nth_Cons' nth_append)
qed (simp_all add: node_addr_unfold demo_grow_simps MAXFILE_val)

lemma demo_grow_tree: "tree_blocks demo_grow 0 = {155, 156}"
proof -
  have "node_addr demo_grow 0 ` nodes - {0} \<subseteq> {155, 156}" using demo_grow_nodes by auto
  moreover have "155 \<in> node_addr demo_grow 0 ` nodes" "156 \<in> node_addr demo_grow 0 ` nodes"
    using demo_grow_nodes [of "Leaf 0"] demo_grow_nodes [of "Leaf 1"] by (force simp: MAXFILE_val)+
  ultimately show ?thesis unfolding tree_blocks_image by auto
qed

lemma demo_grow_ok: "file_ok demo_grow 0"
proof -
  have lg: "m \<in> log_area demo_fs \<longleftrightarrow> 2 \<le> unat m \<and> unat m \<le> 102" for m
    using log_area_unat [of demo_fs m] by (simp add: demo_fs_simps LOGSIZE_def)
  have ia: "inode_area demo_grow \<subseteq> {110, 111}"
  proof
    fix b assume "b \<in> inode_area demo_grow"
    then obtain m where m: "b = IBLOCK m (fsb demo_fs)" "unat m < 16" by (auto simp: inode_area_def demo_grow_simps demo_fs_simps word_less_nat_alt)
    then have "unat m div IPB = 0 \<or> unat m div IPB = 1" by (auto simp: IPB_def BSIZE_def)
    then show "b \<in> {110, 111}" using m(1) by (auto simp: IBLOCK_nat demo_fs_simps)
  qed
  have "tree_ok demo_grow 0"
    using demo_grow_nodes lg by (auto simp: tree_ok_def demo_grow_tree demo_grow_data demo_grow_simps MAXFILE_val inj_on_def split: if_splits)
  moreover have "node_addr demo_grow 0 (Leaf k) \<noteq> 0" if "k * BSIZE < 700" for k
    using that demo_grow_nodes [of "Leaf k"] less_2_cases [of k] by (cases "k < 2") (auto simp: BSIZE_def MAXFILE_val)
  moreover have "tree_blocks demo_grow 0 \<inter> inode_area demo_grow = {}" "\<forall>b \<in> inode_area demo_grow. data_block demo_grow b"
    using ia lg by (auto simp: demo_grow_tree demo_grow_data)
  ultimately show ?thesis by (simp add: file_ok_def demo_grow_simps demo_fs_simps MAXFILE_val BSIZE_def)
qed

lemma demo_grow_spare: "spare 12 demo_grow" "news demo_grow 0 700 2000 = 4"
proof -
  have u: "unat (of_nat j :: uint) = j" if "j < 200" for j using that by (intro unat_of_nat_small) simp
  have "(of_nat :: nat \<Rightarrow> uint) ` {160..<172} \<subseteq> near_blocks demo_grow"
    using u demo_fs_used by (auto simp: near_blocks_def free_blocks_def demo_grow_simps demo_fs_simps word_less_nat_alt BPB_def BSIZE_def)
  moreover have "inj_on (of_nat :: nat \<Rightarrow> uint) {160..<172}" 
  proof (rule inj_onI)
    fix i j :: nat assume a: "i \<in> {160..<172}" "j \<in> {160..<172}" "(of_nat i :: uint) = of_nat j"
    have "i < 200" "j < 200" using a(1,2) by auto
    moreover have "unat (of_nat i :: uint) = unat (of_nat j :: uint)" by (rule arg_cong [OF a(3)])
    ultimately show "i = j" by (simp only: u)
  qed
  then have "card ((of_nat :: nat \<Rightarrow> uint) ` {160..<172}) = 12" by (simp add: card_image)
  ultimately have "12 \<le> card (near_blocks demo_grow)" using card_mono [OF finite_free(2)] by (metis (no_types))
  moreover have "balloc_ok demo_grow" using demo_fs_ok(1) by (simp add: balloc_ok_def demo_grow_simps)
  ultimately show "spare 12 demo_grow" by (simp add: spare_def place_ok_def demo_grow_simps demo_fs_simps)
  have b: "blocks_of 700 2000 = {1, 2, 3, 4, 5}" by (auto simp: blocks_of_def BSIZE_def)
  have "missing demo_grow 0 k = (if k < 2 then 0 else 1)" if "k < MAXFILE" for k
    using demo_grow_nodes [of "Leaf k"] that by (auto simp: missing_def)
  then show "news demo_grow 0 700 2000 = 4" by (simp add: news_def b MAXFILE_val)
qed


end
