(* ===== verification/Ftrunc.thy ===== *)
theory Ftrunc
  imports Fgrow
begin

text \<open>
  Taking a file away: \<open>itrunc\<close> frees the blocks of the tree below an inode, the inner ones after those below them, and \<open>iput\<close> of the last reference to an
  inode without links gives the inode back. Shown: exactly the blocks of the file become free, and the log has room for it if it has room for the
  bitmap blocks they are marked in, because a bitmap block is logged once however often it is written.
\<close>

section \<open>Freeing one block after the other\<close>

lemma logged_cong: "log s' = log s \<Longrightarrow> logged s' = logged s \<and> room s' = room s"
  by (simp add: logged_def room_def)

text \<open>Changing one block in a transaction: the block is in the log afterwards, and takes room there if it was not before.\<close>

lemma modify_logged:
  fixes s :: "'a fs_state_scheme"
  assumes s: "tx_inv s" "roomy 1 s" "0 < room s" and n: "n \<noteq> 0" "n \<notin> log_area s"
    and F: "\<And>s1. bio_frame s s1 \<Longrightarrow> length (F s1 (blk s n)) = BSIZE"
  shows "wp (rbind (bread n s) (\<lambda>(b, s1). rbind (log_write b (set_data b (F s1 (b_data (bcache s1 b))) s1)) (\<lambda>s2. Ok (brelse b s2))))
    (\<lambda>t. logged t = insert n (logged s) \<and> room t = (if n \<in> logged s then room s else room s - 1))"
proof (rule wp_bind_pair)
  show "wp (bread n s) (\<lambda>(b, s'). read_post n s b s')"
    using bread_spec [OF tx_inv_bio [OF s(1)]] roomy_can_read [OF s(2) _ n(1)] by (simp add: can_read_def)
  fix bp s1 assume p: "read_post n s bp s1"
  then have l1: "log s1 = log s" "tx_inv s1" "holds s1 bp n" "b_data (bcache s1 bp) = blk s n" "bio_frame s s1"
    using tx_inv_frame(1) [OF _ _ s(1)] by (auto simp: read_post_def)
  note c1 = logged_cong [OF l1(1)] and a1 = log_area_cong [OF l1(1)]
  have "wp (log_write bp (set_data bp (F s1 (blk s n)) s1)) (\<lambda>u. logged u = insert n (logged s) \<and> room u = (if n \<in> logged s then room s else room s - 1))"
    using log_write_spec [OF l1(2,3) _ _ F [OF l1(5)]] n(2) a1 c1 s(3) by (auto elim!: wp_mono)
  moreover have "log (brelse bp u) = log u" for u :: "'a fs_state_scheme" by (simp add: brelse_def Let_def upd_buf_def)
  note logged_cong [OF this]
  ultimately show "wp (rbind (log_write bp (set_data bp (F s1 (b_data (bcache s1 bp))) s1)) (\<lambda>s2. Ok (brelse bp s2)))
     (\<lambda>t. logged t = insert n (logged s) \<and> room t = (if n \<in> logged s then room s else room s - 1))"
    using l1(4) by (auto elim!: wp_mono)
qed

lemma bfree_logged:
  assumes ok: "balloc_ok s" and s: "tx_inv s" "roomy 1 s" "0 < room s" and b: "b < sb_size (fsb s)" "used s b"
  shows "wp (bfree b s) (\<lambda>t. logged t = insert (BBLOCK b (fsb s)) (logged s) \<and>
    room t = (if BBLOCK b (fsb s) \<in> logged s then room s else room s - 1))"
proof -
  let ?n = "BBLOCK b (fsb s)" and ?bi = "unat b mod BPB"
  let ?F = "\<lambda>d. d[?bi div 8 := d ! (?bi div 8) AND NOT (bmask ?bi)]"
  have n: "?n \<noteq> 0" "?n \<notin> log_area s" using ok b(1) by (auto simp: balloc_ok_def bmap_area_def)
  have ub: "\<not> blk s ?n ! (?bi div 8) AND bmask ?bi = 0" using b(2) by (simp add: used_def used_bit_def bmask_test)
  have "wp (bread ?n s) (\<lambda>(bp, s1). b_data (bcache s1 bp) = blk s ?n)"
    by (rule wp_mono [OF bread_spec [OF tx_inv_bio [OF s(1)]]])
      (use roomy_can_read [OF s(2) _ n(1)] in \<open>auto simp: can_read_def read_post_def\<close>)
  then have "bfree b s = rbind (bread ?n s) (\<lambda>(bp, s1). rbind (log_write bp (set_data bp (?F (b_data (bcache s1 bp))) s1)) (\<lambda>s2. Ok (brelse bp s2)))"
    using ub unfolding bfree_def by (cases "bread ?n s") (auto simp: Let_def)
  then show ?thesis
    using modify_logged [OF s n, where F = "\<lambda>_. ?F"] length_blk [OF tx_inv_bio [OF s(1)]] by simp
qed

lemma iupdate_logged:
  assumes s: "tx_inv s" "roomy 1 s" "0 < room s" and n: "n = IBLOCK (i_inum (icache s ip)) (fsb s)" "n \<noteq> 0" "n \<notin> log_area s"
    and a: "length (i_addrs (icache s ip)) = NDIRECT + 1"
  shows "wp (iupdate ip s) (\<lambda>t. logged t = insert n (logged s) \<and> room t = (if n \<in> logged s then room s else room s - 1))"
  unfolding iupdate_def n(1) [symmetric]
proof (rule modify_logged [OF s n(2,3), where F = "\<lambda>s1. store_dinode (icache s1 ip) (ioff (i_inum (icache s1 ip)))"])
  fix s1 assume "bio_frame s s1"
  then have "icache s1 = icache s" by (rule tx_frame_fs(1) [OF bio_tx_frame])
  then show "length (store_dinode (icache s1 ip) (ioff (i_inum (icache s1 ip))) (blk s n)) = BSIZE"
    using load_store_dinode(2) [OF a, of _ "blk s n"] ioff_bound length_blk [OF tx_inv_bio [OF s(1)]] by simp
qed

text \<open>From \<open>s\<close> to \<open>t\<close> the blocks of \<open>B\<close> were freed and nothing else happened to the blocks of the disk.\<close>

definition freed :: "uint set \<Rightarrow> 'a fs_state_scheme \<Rightarrow> 'a fs_state_scheme \<Rightarrow> bool" where
  "freed B s t \<longleftrightarrow> tx_inv t \<and> fs_frame s t \<and> lastballoc t = lastballoc s \<and> lastbi t = lastbi s \<and>
     (\<forall>m < sb_size (fsb s). used t m \<longleftrightarrow> m \<notin> B \<and> used s m) \<and> (\<forall>m. m \<notin> bmap_area s \<longrightarrow> blk t m = blk s m) \<and>
     logged t = logged s \<union> (\<lambda>b. BBLOCK b (fsb s)) ` B \<and> room t + card (logged t) = room s + card (logged s)"

text \<open>The log takes the bitmap blocks of \<open>B\<close> and the blocks of \<open>X\<close>, and has room left.\<close>

definition log_takes :: "'a fs_state_scheme \<Rightarrow> uint set \<Rightarrow> uint set \<Rightarrow> bool" where
  "log_takes s B X \<longleftrightarrow> card (logged s \<union> (\<lambda>b. BBLOCK b (fsb s)) ` B \<union> X) < room s + card (logged s)"

text \<open>What a step of the truncation leaves as it is.\<close>

definition steady :: "'a fs_state_scheme \<Rightarrow> 'a fs_state_scheme \<Rightarrow> bool" where
  "steady s t \<longleftrightarrow> refs t = refs s \<and> (\<forall>c m. holds s c m \<longrightarrow> holds t c m)"

lemma finite_logged [simp]: "finite (logged s)"
  by (simp add: logged_def)

lemma freedD:
  assumes "freed B s t"
  shows "tx_inv t" "fs_frame s t" "fsb t = fsb s" "log_area t = log_area s" "bmap_area t = bmap_area s"
    "m < sb_size (fsb s) \<Longrightarrow> used t m \<longleftrightarrow> m \<notin> B \<and> used s m" "m \<notin> bmap_area s \<Longrightarrow> blk t m = blk s m"
    "logged t = logged s \<union> (\<lambda>b. BBLOCK b (fsb s)) ` B" "room t + card (logged t) = room s + card (logged s)"
  using assms fs_frame_same [of s t] by (auto simp: freed_def bmap_area_def)

lemma freed_upd_inode: "freed B s u \<Longrightarrow> freed B s (upd_inode ip f u)"
proof -
  have "logged (upd_inode ip f u) = logged u" "room (upd_inode ip f u) = room u" "used (upd_inode ip f u) = used u" "blk (upd_inode ip f u) = blk u"
    "tx_inv (upd_inode ip f u) = tx_inv u" by (simp_all add: logged_def used_def fun_eq_iff)
  note e = this upd_inode_hints
  show "freed B s u \<Longrightarrow> freed B s (upd_inode ip f u)" unfolding freed_def e by (metis fs_frame_inode)
qed

lemma steady_upd_inode: "steady t (upd_inode ip f u) = steady t u"
  by (simp add: steady_def upd_inode_def)

lemma freed_refl: "tx_inv s \<Longrightarrow> freed {} s s"
  by (simp add: freed_def)

lemma freed_room:
  assumes "freed B s t" "B \<subseteq> W" "finite W" "finite X" "log_takes s W X"
  shows "0 < room t"
proof -
  have "card (logged t) \<le> card (logged s \<union> (\<lambda>b. BBLOCK b (fsb s)) ` W \<union> X)"
    using assms(2-4) freedD(8) [OF assms(1)] by (intro card_mono) auto
  then show ?thesis using assms(5) freedD(9) [OF assms(1)] by (simp add: log_takes_def)
qed

lemma freed_step:
  assumes ok: "balloc_ok s" and W: "\<And>b. b \<in> W \<Longrightarrow> data_block s b" "finite W" "finite X" "log_takes s W X"
    and t: "freed B s t" "B \<subseteq> W" "b \<in> W - B" "roomy 1 t"
  shows "wp (bfree b t) (\<lambda>u. freed (insert b B) s u \<and> steady t u \<and> icache u = icache t)"
proof -
  note D = freedD [OF t(1)]
  have b: "b < sb_size (fsb t)" "used t b" using W(1) [of b] t(3) D by (auto simp: data_block_def)
  have okt: "balloc_ok t"
    using ok subsetD [OF t(2), THEN W(1)] D(6) unfolding balloc_ok_def data_block_def D(3-5) by blast
  have n: "BBLOCK b (fsb s) \<in> bmap_area s" using b(1) D(3) by (auto simp: bmap_area_def)
  note pre = okt D(1) t(4) freed_room [OF t(1,2) W(2-4)] b
  from bfree_spec [OF pre] bfree_logged [OF pre] obtain u where u: "bfree b t = Ok u" "tx_inv u" "refs u = refs t"
    "\<forall>m < sb_size (fsb t). used u m \<longleftrightarrow> m \<noteq> b \<and> used t m" "\<forall>m. m \<noteq> BBLOCK b (fsb t) \<longrightarrow> blk u m = blk t m" "tx_frame t u"
    "\<forall>c m. holds t c m \<longrightarrow> holds u c m" "logged u = insert (BBLOCK b (fsb s)) (logged t)"
    "room u = (if BBLOCK b (fsb s) \<in> logged t then room t else room t - 1)"
    by (auto simp: wp_iff D(3))
  note f = tx_frame_fs [OF u(6)]
  have "room u + card (logged u) = room t + card (logged t)"
    using u(8,9) freed_room [OF t(1,2) W(2-4)] by (auto simp: insert_absorb)
  moreover have "fs_frame s u" using fs_frame_trans [OF D(2) tx_fs_frame [OF u(6)]] .
  moreover have "\<forall>m. m \<notin> bmap_area s \<longrightarrow> blk u m = blk s m" using u(5) D(7) n unfolding D(3) by metis
  moreover have "\<forall>m < sb_size (fsb s). used u m \<longleftrightarrow> m \<notin> insert b B \<and> used s m" using u(4) D(3,6) by auto
  ultimately show ?thesis
    using u(1-3,7,8) f D(8,9) t(1) by (auto simp: freed_def steady_def)
qed

section \<open>Places of the tree\<close>

text \<open>The blocks at the places \<open>N\<close> of the tree of \<open>ip\<close> were freed.\<close>

definition gone :: "nat \<Rightarrow> node set \<Rightarrow> 'a fs_state_scheme \<Rightarrow> 'a fs_state_scheme \<Rightarrow> bool" where
  "gone ip N s t \<longleftrightarrow> N \<subseteq> nodes \<and> freed (node_addr s ip ` N - {0}) s t"

definition can_trunc :: "'a fs_state_scheme \<Rightarrow> nat \<Rightarrow> uint set \<Rightarrow> bool" where
  "can_trunc s ip X \<longleftrightarrow> balloc_ok s \<and> tree_ok s ip \<and> finite X \<and> log_takes s (tree_blocks s ip) X"

lemma finite_tree [simp]: "finite (tree_blocks s ip)"
  by (simp add: tree_blocks_image nodes_def)

lemma gone_room: "can_trunc s ip X \<Longrightarrow> gone ip N s t \<Longrightarrow> 0 < room t"
  unfolding can_trunc_def gone_def by (rule freed_room [of _ s t "tree_blocks s ip" X]) (auto simp: tree_blocks_image)

lemma free_node:
  assumes c: "can_trunc s ip X" and t: "gone ip N s t" "p \<in> nodes - N" "roomy 1 t"
  shows "wp (if node_addr s ip p \<noteq> 0 then bfree (node_addr s ip p) t else Ok t) (\<lambda>u. gone ip (insert p N) s u \<and> steady t u \<and> icache u = icache t)"
proof (cases "node_addr s ip p = 0")
  case True
  then have "node_addr s ip ` insert p N - {0} = node_addr s ip ` N - {0}" by auto
  then show ?thesis using True t by (simp add: gone_def steady_def)
next
  case False
  have k: "balloc_ok s" "tree_ok s ip" "finite X" "log_takes s (tree_blocks s ip) X" using c by (simp_all add: can_trunc_def)
  have N: "N \<subseteq> nodes" "freed (node_addr s ip ` N - {0}) s t" using t(1) by (simp_all add: gone_def)
  have "node_addr s ip p \<notin> node_addr s ip ` N"
  proof
    assume "node_addr s ip p \<in> node_addr s ip ` N"
    then obtain r where r: "r \<in> N" "node_addr s ip r = node_addr s ip p" by (metis imageE)
    then have "r = p" using tree_node(2) [OF k(2) _ False, of r] t(2) N(1) by blast
    then show False using r(1) t(2) by simp
  qed
  then have b: "node_addr s ip p \<in> tree_blocks s ip - (node_addr s ip ` N - {0})" using tree_blocksI [of p] False t(2) by auto
  have "node_addr s ip ` insert p N - {0} = insert (node_addr s ip p) (node_addr s ip ` N - {0})" using False by auto
  moreover have "wp (bfree (node_addr s ip p) t)
    (\<lambda>u. freed (insert (node_addr s ip p) (node_addr s ip ` N - {0})) s u \<and> steady t u \<and> icache u = icache t)"
  proof (rule freed_step [OF k(1) _ finite_tree k(3,4) N(2) _ b t(3)])
    show "data_block s b" if "b \<in> tree_blocks s ip" for b using that k(2) by (simp add: tree_ok_def)
    show "node_addr s ip ` N - {0} \<subseteq> tree_blocks s ip" using N(1) by (auto simp: tree_blocks_image)
  qed
  ultimately show ?thesis using False N(1) t(2) by (auto simp: gone_def elim!: wp_mono)
qed

text \<open>Reading on the way.\<close>

lemma gone_frame:
  assumes "gone ip N s t" "bio_inv u" "bio_frame t u" "blk u = blk t"
  shows "gone ip N s u"
proof -
  have f: "freed (node_addr s ip ` N - {0}) s t" "N \<subseteq> nodes" using assms(1) by (simp_all add: gone_def)
  note D = freedD [OF f(1)] and l = logged_cong [OF bio_frame_log [OF assms(3)]] and g = tx_frame_fs [OF bio_tx_frame [OF assms(3)]]
  have "used u = used t" using assms(4) g(4) by (simp add: used_def fun_eq_iff)
  then have "freed (node_addr s ip ` N - {0}) s u"
    using f(1) tx_inv_frame(1) [OF assms(3,2) D(1)] fs_frame_trans [OF D(2) tx_fs_frame [OF bio_tx_frame [OF assms(3)]]]
    unfolding freed_def g l [THEN conjunct1] l [THEN conjunct2] assms(4) by metis
  then show ?thesis using f(2) by (simp add: gone_def)
qed

text \<open>An inner block is still what it was, whatever was freed below it.\<close>

lemma gone_entry:
  assumes c: "can_trunc s ip X" and t: "gone ip N s t" and q: "q \<in> inner" "i < NINDIRECT" "node_addr s ip q \<noteq> 0"
    and h: "holds t bp (node_addr s ip q)"
  shows "get32 (b_data (bcache t bp)) (4 * i) = node_addr s ip (child q i)"
proof -
  have f: "freed (node_addr s ip ` N - {0}) s t" using t by (simp add: gone_def)
  have "data_block s (node_addr s ip q)" using c tree_node(1) [OF _ inner_nodes [OF q(1)] q(3)] by (simp add: can_trunc_def)
  then have "blk t (node_addr s ip q) = blk s (node_addr s ip q)" using freedD(7) [OF f] by (simp add: data_block_def)
  then show ?thesis using holds_data [OF tx_inv_bio [OF freedD(1) [OF f]] h] q by (simp add: node_addr_child)
qed

lemma steady_trans: "steady s t \<Longrightarrow> steady t u \<Longrightarrow> steady s u"
  by (simp add: steady_def)

lemma steady_roomy: "steady s t \<Longrightarrow> roomy k t = roomy k s"
  unfolding steady_def using roomy_cong by blast

section \<open>The loops\<close>

lemma free_entries_spec:
  assumes c: "can_trunc s ip X" and q: "q = Mid j" "j < NINDIRECT" "node_addr s ip q \<noteq> 0"
    and "set ys \<subseteq> {..<NINDIRECT}" "distinct ys" "gone ip N s t" "child q ` set ys \<inter> N = {}" "holds t bp (node_addr s ip q)" "roomy 1 t"
  shows "wp (free_entries bp ys t) (\<lambda>u. gone ip (N \<union> child q ` set ys) s u \<and> steady t u \<and> icache u = icache t)"
  using assms(5-)
proof (induction ys arbitrary: N t)
  case Nil
  then show ?case by (simp add: steady_def)
next
  case (Cons y ys)
  have i: "q \<in> inner" "y < NINDIRECT" using q Cons.prems(1) by simp_all
  have p: "child q y \<in> nodes - N" using child_nodes [OF i] Cons.prems(4) by auto
  note e = gone_entry [OF c Cons.prems(3) i q(3) Cons.prems(5)]
  have "wp (rbind (if node_addr s ip (child q y) \<noteq> 0 then bfree (node_addr s ip (child q y)) t else Ok t) (\<lambda>s. free_entries bp ys s))
    (\<lambda>u. gone ip (N \<union> child q ` set (y # ys)) s u \<and> steady t u \<and> icache u = icache t)"
  proof (rule wp_mono_bind [OF free_node [OF c Cons.prems(3) p Cons.prems(6)]])
    fix u assume u: "gone ip (insert (child q y) N) s u \<and> steady t u \<and> icache u = icache t"
    have "child q y \<notin> child q ` set ys"
      using child_inject [OF _ i(1,1,2)] Cons.prems(1,2) by fastforce
    then have "wp (free_entries bp ys u) (\<lambda>v. gone ip (insert (child q y) N \<union> child q ` set ys) s v \<and> steady u v \<and> icache v = icache u)"
      using u Cons.prems steady_roomy [of t u] by (intro Cons.IH) (auto simp: steady_def)
    then show "wp (free_entries bp ys u) (\<lambda>u. gone ip (N \<union> child q ` set (y # ys)) s u \<and> steady t u \<and> icache u = icache t)"
      using u steady_trans by (auto elim!: wp_mono)
  qed
  then show ?case by (simp only: free_entries.simps Let_def e)
qed

text \<open>One second-level block with all the blocks it points to.\<close>

definition below :: "nat \<Rightarrow> node set" where
  "below j = insert (Mid j) (child (Mid j) ` {..<NINDIRECT})"

lemma release_steady:
  assumes "read_post n s bp s1" "bio_inv s" "steady s1 t" "gone ip N r t"
  shows "gone ip N r (brelse bp t)" "steady s (brelse bp t)" "icache (brelse bp t) = icache t"
proof -
  have i: "bio_inv t" using assms(4) freedD(1) tx_inv_bio by (metis gone_def)
  have h: "holds t bp n" using assms(1,3) by (simp add: read_post_def steady_def)
  note r = brelse_spec [OF i h, unfolded release_post_def]
  show "gone ip N r (brelse bp t)" using r by (intro gone_frame [OF assms(4)]) auto
  show "icache (brelse bp t) = icache t" using tx_frame_fs(1) [OF bio_tx_frame] r by blast
  have "refs (brelse bp t) = refs s" using r assms(1,3) by (simp add: read_post_def steady_def fun_eq_iff)
  moreover have "holds (brelse bp t) c m" if "holds s c m" for c m
  proof -
    have "holds t c m" using that assms(1,3) by (simp add: read_post_def steady_def)
    then show ?thesis using that r \<open>refs (brelse bp t) = refs s\<close> by (simp add: holds_def)
  qed
  ultimately show "steady s (brelse bp t)" by (simp add: steady_def)
qed

lemma free_mid:
  assumes c: "can_trunc s ip X" and j: "j < NINDIRECT" and t: "gone ip N s t" "below j \<inter> N = {}" "roomy 2 t"
  shows "wp (if node_addr s ip (Mid j) \<noteq> 0 then
        rbind (bread (node_addr s ip (Mid j)) t) (\<lambda>(bp2, s1). rbind (free_entries bp2 [0..<NINDIRECT] s1) (\<lambda>s1. bfree (node_addr s ip (Mid j)) (brelse bp2 s1)))
      else Ok t) (\<lambda>u. gone ip (N \<union> below j) s u \<and> steady t u \<and> icache u = icache t)"
proof (cases "node_addr s ip (Mid j) = 0")
  case True
  have "node_addr s ip q = 0" if "q \<in> below j" for q
    using that True j by (auto simp: below_def node_addr_child simp del: child.simps)
  then have "node_addr s ip ` (N \<union> below j) - {0} = node_addr s ip ` N - {0}" by auto
  moreover have "below j \<subseteq> nodes" using child_nodes [of "Mid j"] j by (auto simp: below_def simp del: child.simps)
  ultimately show ?thesis using True t(1) by (simp add: gone_def steady_def)
next
  case False
  let ?a = "node_addr s ip (Mid j)" and ?K = "child (Mid j) ` {..<NINDIRECT}"
  have f: "tx_inv t" using t(1) freedD(1) by (metis gone_def)
  have "wp (rbind (bread ?a t) (\<lambda>(bp2, s1). rbind (free_entries bp2 [0..<NINDIRECT] s1) (\<lambda>s1. bfree ?a (brelse bp2 s1))))
    (\<lambda>u. gone ip (N \<union> below j) s u \<and> steady t u \<and> icache u = icache t)"
  proof (rule wp_bind_pair)
    show "wp (bread ?a t) (\<lambda>(b, s'). read_post ?a t b s')"
      using bread_spec [OF tx_inv_bio [OF f]] roomy_can_read [OF t(3) _ False] by (simp add: can_read_def)
    fix bp2 s1 assume p: "read_post ?a t bp2 s1"
    then have s1: "bio_inv s1" "bio_frame t s1" "blk s1 = blk t" "refs s1 = (refs t)(?a := Suc (refs t ?a))" "holds s1 bp2 ?a" by (auto simp: read_post_def)
    have r1: "roomy 1 s1" using roomy_held [OF _ s1(4) tx_inv_bio [OF f], of 1] t(3) by (simp add: numeral_2_eq_2)
    have "wp (free_entries bp2 [0..<NINDIRECT] s1) (\<lambda>u. gone ip (N \<union> child (Mid j) ` set [0..<NINDIRECT]) s u \<and> steady s1 u \<and> icache u = icache s1)"
    proof (rule free_entries_spec [OF c refl j False _ _ gone_frame [OF t(1) s1(1-3)] _ s1(5) r1])
      show "child (Mid j) ` set [0..<NINDIRECT] \<inter> N = {}" using t(2) unfolding below_def set_upt atLeast0LessThan by blast
    qed auto
    then show "wp (rbind (free_entries bp2 [0..<NINDIRECT] s1) (\<lambda>s1. bfree ?a (brelse bp2 s1)))
      (\<lambda>u. gone ip (N \<union> below j) s u \<and> steady t u \<and> icache u = icache t)"
    proof (rule wp_mono_bind)
      fix u assume u: "gone ip (N \<union> child (Mid j) ` set [0..<NINDIRECT]) s u \<and> steady s1 u \<and> icache u = icache s1"
      have gu: "gone ip (N \<union> ?K) s u" and st: "steady s1 u" and iu: "icache u = icache t"
        using u tx_frame_fs(1) [OF bio_tx_frame [OF s1(2)]] by (simp_all add: atLeast0LessThan)
      note r = release_steady [OF p tx_inv_bio [OF f] st gu]
      have "Mid j \<in> nodes - (N \<union> ?K)" using j t(2) by (auto simp: below_def)
      moreover have "roomy 1 (brelse bp2 u)" using steady_roomy [OF r(2)] roomy_mono [OF t(3)] by simp
      ultimately have "wp (if ?a \<noteq> 0 then bfree ?a (brelse bp2 u) else Ok (brelse bp2 u))
        (\<lambda>v. gone ip (insert (Mid j) (N \<union> ?K)) s v \<and> steady (brelse bp2 u) v \<and> icache v = icache (brelse bp2 u))"
        by (rule free_node [OF c r(1)])
      moreover have "insert (Mid j) (N \<union> ?K) = N \<union> below j" by (auto simp: below_def)
      ultimately show "wp (bfree ?a (brelse bp2 u)) (\<lambda>u. gone ip (N \<union> below j) s u \<and> steady t u \<and> icache u = icache t)"
        using False steady_trans [OF r(2)] r(3) iu by (auto elim!: wp_mono)
    qed
  qed
  then show ?thesis using False by simp
qed

lemma below_disjoint: "i < NINDIRECT \<Longrightarrow> j < NINDIRECT \<Longrightarrow> i \<noteq> j \<Longrightarrow> below i \<inter> below j = {}"
proof (rule ccontr)
  assume a: "i < NINDIRECT" "j < NINDIRECT" "i \<noteq> j" "below i \<inter> below j \<noteq> {}"
  then obtain k l where "k < NINDIRECT" "l < NINDIRECT" "child (Mid i) k = child (Mid j) l" by (auto simp: below_def)
  then show False using child_inject [of "Mid i" k "Mid j" l] a by simp
qed

lemma free_indirect_spec:
  assumes c: "can_trunc s ip X" and q: "node_addr s ip Top \<noteq> 0"
    and "set js \<subseteq> {..<NINDIRECT}" "distinct js" "gone ip N s t" "\<Union> (below ` set js) \<inter> N = {}" "holds t bp (node_addr s ip Top)" "roomy 2 t"
  shows "wp (free_indirect bp js t) (\<lambda>u. gone ip (N \<union> \<Union> (below ` set js)) s u \<and> steady t u \<and> icache u = icache t)"
  using assms(3-)
proof (induction js arbitrary: N t)
  case Nil
  then show ?case by (simp add: steady_def)
next
  case (Cons j js)
  have j: "j < NINDIRECT" using Cons.prems(1) by simp
  have e: "get32 (b_data (bcache t bp)) (4 * j) = node_addr s ip (Mid j)"
    using gone_entry [OF c Cons.prems(3) _ j q Cons.prems(5)] by simp
  have dj: "below j \<inter> N = {}" using Cons.prems(4) by auto
  show ?case unfolding free_indirect.simps Let_def e
  proof (rule wp_mono_bind [OF free_mid [OF c j Cons.prems(3) dj Cons.prems(6)]])
    fix u assume u: "gone ip (N \<union> below j) s u \<and> steady t u \<and> icache u = icache t"
    have "below i \<inter> below j = {}" if "i \<in> set js" for i
      using below_disjoint that Cons.prems(1,2) by auto
    then have "\<Union> (below ` set js) \<inter> (N \<union> below j) = {}" using Cons.prems(4) by auto
    then have "wp (free_indirect bp js u) (\<lambda>v. gone ip (N \<union> below j \<union> \<Union> (below ` set js)) s v \<and> steady u v \<and> icache v = icache u)"
      using u Cons.prems steady_roomy [of t u 2] by (intro Cons.IH) (auto simp: steady_def)
    moreover have "N \<union> below j \<union> \<Union> (below ` set js) = N \<union> \<Union> (below ` set (j # js))" by auto
    ultimately show "wp (free_indirect bp js u) (\<lambda>u. gone ip (N \<union> \<Union> (below ` set (j # js))) s u \<and> steady t u \<and> icache u = icache t)"
      using u steady_trans by (auto elim!: wp_mono)
  qed
qed

lemma free_direct_spec:
  assumes c: "can_trunc s ip X" and "set is \<subseteq> {..<NDIRECT}" "distinct is" "gone ip N s t" "Leaf ` set is \<inter> N = {}" "roomy 1 t"
    "\<And>i. i \<in> set is \<Longrightarrow> i_addrs (icache t ip) ! i = node_addr s ip (Leaf i)" "length (i_addrs (icache t ip)) = NDIRECT + 1"
  shows "wp (free_direct ip is t) (\<lambda>u. gone ip (N \<union> Leaf ` set is) s u \<and> steady t u \<and>
    (\<exists>as. icache u = (icache t)(ip := (icache t ip)\<lparr>i_addrs := as\<rparr>) \<and> length as = NDIRECT + 1 \<and>
       (\<forall>i < NDIRECT + 1. as ! i = (if i \<in> set is then 0 else i_addrs (icache t ip) ! i))))"
  using assms(2-)
proof (induction "is" arbitrary: N t)
  case Nil
  then show ?case by (auto simp: steady_def intro!: exI [of _ "i_addrs (icache t ip)"])
next
  case (Cons i "is")
  have i: "i < NDIRECT" "Leaf i \<in> nodes - N" using Cons.prems(1,4) by (auto simp: MAXFILE_def)
  have a: "i_addrs (icache t ip) ! i = node_addr s ip (Leaf i)" using Cons.prems(6) by simp
  let ?z = "\<lambda>q. q\<lparr>i_addrs := (i_addrs q)[i := 0]\<rparr>"
  have e: "free_direct ip (i # is) t = rbind (if node_addr s ip (Leaf i) \<noteq> 0 then bfree (node_addr s ip (Leaf i)) t else Ok t)
    (\<lambda>u. free_direct ip is (if node_addr s ip (Leaf i) \<noteq> 0 then upd_inode ip ?z u else u))"
    using a by (cases "bfree (node_addr s ip (Leaf i)) t") auto
  show ?case unfolding e
  proof (rule wp_mono_bind [OF free_node [OF c Cons.prems(3) i(2) Cons.prems(5)]])
    fix u assume u: "gone ip (insert (Leaf i) N) s u \<and> steady t u \<and> icache u = icache t"
    define v where "v = (if node_addr s ip (Leaf i) \<noteq> 0 then upd_inode ip ?z u else u)"
    have iv: "icache v = (icache t)(ip := (icache t ip)\<lparr>i_addrs := (i_addrs (icache t ip))[i := 0]\<rparr>)"
    proof (cases "node_addr s ip (Leaf i) = 0")
      case True
      then have "(i_addrs (icache t ip))[i := 0] = i_addrs (icache t ip)" using a list_update_id by metis
      then show ?thesis using True u by (simp add: v_def)
    qed (use u in \<open>simp add: v_def upd_inode_def\<close>)
    have gv: "gone ip (insert (Leaf i) N) s v" "steady t v" using u by (auto simp: v_def gone_def freed_upd_inode steady_upd_inode)
    have "wp (free_direct ip is v) (\<lambda>w. gone ip (insert (Leaf i) N \<union> Leaf ` set is) s w \<and> steady v w \<and>
      (\<exists>as. icache w = (icache v)(ip := (icache v ip)\<lparr>i_addrs := as\<rparr>) \<and> length as = NDIRECT + 1 \<and>
       (\<forall>k < NDIRECT + 1. as ! k = (if k \<in> set is then 0 else i_addrs (icache v ip) ! k))))"
      using Cons.prems gv steady_roomy [OF gv(2)] by (intro Cons.IH) (auto simp: iv nth_list_update)
    then show "wp (free_direct ip is (if node_addr s ip (Leaf i) \<noteq> 0 then upd_inode ip ?z u else u)) (\<lambda>u. gone ip (N \<union> Leaf ` set (i # is)) s u \<and> steady t u \<and>
      (\<exists>as. icache u = (icache t)(ip := (icache t ip)\<lparr>i_addrs := as\<rparr>) \<and> length as = NDIRECT + 1 \<and>
       (\<forall>k < NDIRECT + 1. as ! k = (if k \<in> set (i # is) then 0 else i_addrs (icache t ip) ! k))))"
      unfolding v_def [symmetric]
    proof (rule wp_mono)
      fix w assume w: "gone ip (insert (Leaf i) N \<union> Leaf ` set is) s w \<and> steady v w \<and>
      (\<exists>as. icache w = (icache v)(ip := (icache v ip)\<lparr>i_addrs := as\<rparr>) \<and> length as = NDIRECT + 1 \<and>
       (\<forall>k < NDIRECT + 1. as ! k = (if k \<in> set is then 0 else i_addrs (icache v ip) ! k)))"
      then obtain as where as: "icache w = (icache v)(ip := (icache v ip)\<lparr>i_addrs := as\<rparr>)" "length as = NDIRECT + 1"
        "\<forall>k < NDIRECT + 1. as ! k = (if k \<in> set is then 0 else i_addrs (icache v ip) ! k)" by blast
      have "icache w = (icache t)(ip := (icache t ip)\<lparr>i_addrs := as\<rparr>)" using as(1) by (simp add: iv)
      moreover have "\<forall>k < NDIRECT + 1. as ! k = (if k \<in> set (i # is) then 0 else i_addrs (icache t ip) ! k)"
        using as(3) Cons.prems(7) by (auto simp: iv nth_list_update)
      ultimately show "gone ip (N \<union> Leaf ` set (i # is)) s w \<and> steady t w \<and>
        (\<exists>as. icache w = (icache t)(ip := (icache t ip)\<lparr>i_addrs := as\<rparr>) \<and> length as = NDIRECT + 1 \<and>
         (\<forall>k < NDIRECT + 1. as ! k = (if k \<in> set (i # is) then 0 else i_addrs (icache t ip) ! k)))"
        using w as(2) steady_trans [OF gv(2)] by auto
    qed
  qed
qed

section \<open>Truncation\<close>

lemma nodes_split: "nodes = insert Top (\<Union> (below ` {..<NINDIRECT}) \<union> Leaf ` {..<NDIRECT})"
proof
  show "nodes \<subseteq> insert Top (\<Union> (below ` {..<NINDIRECT}) \<union> Leaf ` {..<NDIRECT})"
  proof
    fix p assume "p \<in> nodes"
    then show "p \<in> insert Top (\<Union> (below ` {..<NINDIRECT}) \<union> Leaf ` {..<NDIRECT})"
    proof (cases rule: nodes_cases)
      case (2 q i)
      from 2(1) show ?thesis by (rule inner_cases) (use 2(2,3) in \<open>auto simp: below_def\<close>)
    qed (auto simp: root_def)
  qed
  show "insert Top (\<Union> (below ` {..<NINDIRECT}) \<union> Leaf ` {..<NDIRECT}) \<subseteq> nodes"
    using child_nodes [of "Mid _"] by (auto simp: below_def MAXFILE_def simp del: child.simps)
qed

text \<open>The indirect part, with the direct blocks already gone.\<close>

lemma free_top:
  assumes c: "can_trunc s ip X" and t: "gone ip (Leaf ` {..<NDIRECT}) s t" "roomy 3 t" "i_addrs (icache t ip) ! NDIRECT = node_addr s ip Top"
    "length (i_addrs (icache t ip)) = NDIRECT + 1"
  shows "wp (let top = i_addrs (icache t ip) ! NDIRECT in
      if top \<noteq> 0 then
        rbind (bread top t) (\<lambda>(bp, s). rbind (free_indirect bp [0..<NINDIRECT] s) (\<lambda>s. rbind (bfree top (brelse bp s)) (\<lambda>s.
          Ok (upd_inode ip (\<lambda>q. q\<lparr>i_addrs := (i_addrs q)[NDIRECT := 0]\<rparr>) s))))
      else Ok t) (\<lambda>u. gone ip nodes s u \<and> steady t u \<and> icache u = (icache t)(ip := (icache t ip)\<lparr>i_addrs := (i_addrs (icache t ip))[NDIRECT := 0]\<rparr>))"
proof (cases "node_addr s ip Top = 0")
  case True
  have mid: "node_addr s ip (Mid j) = 0" if "j < NINDIRECT" for j using node_addr_child [of Top j s ip] that True by simp
  have "node_addr s ip q = 0" if "j < NINDIRECT" "q \<in> below j" for q j
    using that mid by (auto simp: below_def node_addr_child simp del: child.simps)
  then have "node_addr s ip ` nodes - {0} = node_addr s ip ` (Leaf ` {..<NDIRECT}) - {0}"
    unfolding nodes_split using True by auto
  moreover have "(i_addrs (icache t ip))[NDIRECT := 0] = i_addrs (icache t ip)" using True t(3) list_update_id by metis
  ultimately show ?thesis using True t(1,3) by (simp add: gone_def steady_def Let_def)
next
  case False
  let ?a = "node_addr s ip Top" and ?N = "Leaf ` {..<NDIRECT}" and ?z = "\<lambda>q. q\<lparr>i_addrs := (i_addrs q)[NDIRECT := 0]\<rparr>"
  have f: "tx_inv t" using t(1) freedD(1) by (metis gone_def)
  have "wp (rbind (bread ?a t) (\<lambda>(bp, s). rbind (free_indirect bp [0..<NINDIRECT] s) (\<lambda>s. rbind (bfree ?a (brelse bp s)) (\<lambda>s. Ok (upd_inode ip ?z s)))))
    (\<lambda>u. gone ip nodes s u \<and> steady t u \<and> icache u = (icache t)(ip := ?z (icache t ip)))"
  proof (rule wp_bind_pair)
    show "wp (bread ?a t) (\<lambda>(b, s'). read_post ?a t b s')"
      using bread_spec [OF tx_inv_bio [OF f]] roomy_can_read [OF t(2) _ False] by (simp add: can_read_def)
    fix bp s1 assume p: "read_post ?a t bp s1"
    then have s1: "bio_inv s1" "bio_frame t s1" "blk s1 = blk t" "refs s1 = (refs t)(?a := Suc (refs t ?a))" "holds s1 bp ?a" by (auto simp: read_post_def)
    have r1: "roomy 2 s1" using roomy_held [OF _ s1(4) tx_inv_bio [OF f], of 2] t(2) by (simp add: numeral_3_eq_3 numeral_2_eq_2)
    have "wp (free_indirect bp [0..<NINDIRECT] s1) (\<lambda>u. gone ip (?N \<union> \<Union> (below ` set [0..<NINDIRECT])) s u \<and> steady s1 u \<and> icache u = icache s1)"
      by (rule free_indirect_spec [OF c False _ _ gone_frame [OF t(1) s1(1-3)] _ s1(5) r1]) (auto simp: below_def)
    then show "wp (rbind (free_indirect bp [0..<NINDIRECT] s1) (\<lambda>s. rbind (bfree ?a (brelse bp s)) (\<lambda>s. Ok (upd_inode ip ?z s))))
      (\<lambda>u. gone ip nodes s u \<and> steady t u \<and> icache u = (icache t)(ip := ?z (icache t ip)))"
    proof (rule wp_mono_bind)
      fix u assume u: "gone ip (?N \<union> \<Union> (below ` set [0..<NINDIRECT])) s u \<and> steady s1 u \<and> icache u = icache s1"
      have gu: "gone ip (?N \<union> \<Union> (below ` {..<NINDIRECT})) s u" and st: "steady s1 u" and iu: "icache u = icache t"
        using u tx_frame_fs(1) [OF bio_tx_frame [OF s1(2)]] by (simp_all add: atLeast0LessThan)
      note r = release_steady [OF p tx_inv_bio [OF f] st gu]
      have "Top \<in> nodes - (?N \<union> \<Union> (below ` {..<NINDIRECT}))" by (auto simp: below_def)
      moreover have "roomy 1 (brelse bp u)" using steady_roomy [OF r(2)] roomy_mono [OF t(2)] by simp
      ultimately have "wp (if ?a \<noteq> 0 then bfree ?a (brelse bp u) else Ok (brelse bp u))
        (\<lambda>v. gone ip (insert Top (?N \<union> \<Union> (below ` {..<NINDIRECT}))) s v \<and> steady (brelse bp u) v \<and> icache v = icache (brelse bp u))"
        by (rule free_node [OF c r(1)])
      moreover have "insert Top (?N \<union> \<Union> (below ` {..<NINDIRECT})) = nodes" unfolding nodes_split by auto
      ultimately have "wp (bfree ?a (brelse bp u)) (\<lambda>v. gone ip nodes s v \<and> steady t v \<and> icache v = icache t)"
        using False steady_trans [OF r(2)] r(3) iu by (auto elim!: wp_mono)
      then show "wp (rbind (bfree ?a (brelse bp u)) (\<lambda>s. Ok (upd_inode ip ?z s)))
        (\<lambda>u. gone ip nodes s u \<and> steady t u \<and> icache u = (icache t)(ip := ?z (icache t ip)))"
        by (auto simp: gone_def freed_upd_inode steady_upd_inode elim!: wp_mono)
    qed
  qed
  then show ?thesis using False t(3) by (simp add: Let_def)
qed

text \<open>
  The file of \<open>ip\<close> has been taken away: its blocks are free, other blocks are what they were, of the inode block every other inode. The log has still
  room for the inode block.
\<close>

abbreviation iblock_of :: "nat \<Rightarrow> 'a fs_state_scheme \<Rightarrow> uint" where
  "iblock_of ip s \<equiv> IBLOCK (i_inum (icache s ip)) (fsb s)"

definition emptied :: "nat \<Rightarrow> 'a fs_state_scheme \<Rightarrow> 'a fs_state_scheme \<Rightarrow> bool" where
  "emptied ip s t \<longleftrightarrow> tx_inv t \<and> refs t = refs s \<and> fs_frame s t \<and> lastballoc t = lastballoc s \<and> lastbi t = lastbi s \<and>
     (\<forall>m < sb_size (fsb s). used t m \<longleftrightarrow> m \<notin> tree_blocks s ip \<and> used s m) \<and>
     (\<forall>m. m \<notin> bmap_area s \<longrightarrow> m \<noteq> iblock_of ip s \<longrightarrow> blk t m = blk s m) \<and>
     (\<forall>m q. m \<noteq> i_inum (icache s ip) \<longrightarrow> IBLOCK m (fsb s) = iblock_of ip s \<longrightarrow>
        load_dinode (blk t (iblock_of ip s)) (ioff m) q = load_dinode (blk s (iblock_of ip s)) (ioff m) q) \<and>
     0 < room t \<and> (iblock_of ip s \<in> logged t \<or> 1 < room t)"

lemma tree_gone: "node_addr s ip ` nodes - {0} = tree_blocks s ip"
  by (simp add: tree_blocks_image)

lemma emptiedD:
  assumes "emptied ip s t"
  shows "tx_inv t" "refs t = refs s" "fsb t = fsb s" "log_area t = log_area s" "bmap_area t = bmap_area s"
    "m < sb_size (fsb s) \<Longrightarrow> used t m \<longleftrightarrow> m \<notin> tree_blocks s ip \<and> used s m" "m \<notin> bmap_area s \<Longrightarrow> m \<noteq> iblock_of ip s \<Longrightarrow> blk t m = blk s m"
    "m \<noteq> i_inum (icache s ip) \<Longrightarrow> IBLOCK m (fsb s) = iblock_of ip s \<Longrightarrow>
        load_dinode (blk t (iblock_of ip s)) (ioff m) q = load_dinode (blk s (iblock_of ip s)) (ioff m) q" "0 < room t"
  using assms fs_frame_same [of s t] by (auto simp: emptied_def bmap_area_def)

lemma emptied_gone:
  assumes c: "can_trunc s ip {iblock_of ip s}" and I: "data_block s (iblock_of ip s)" and v: "gone ip nodes s v" "refs v = refs s"
  shows "emptied ip s v"
proof -
  have f: "freed (tree_blocks s ip) s v" using v(1) by (simp add: gone_def tree_gone)
  note D = freedD [OF f]
  have "card (insert (iblock_of ip s) (logged v)) < room v + card (logged v)"
    using c D(8,9) by (simp add: can_trunc_def log_takes_def)
  then have "iblock_of ip s \<in> logged v \<or> 1 < room v" by (simp add: card_insert_if split: if_splits)
  moreover have "blk v (iblock_of ip s) = blk s (iblock_of ip s)" using D(7) I by (simp add: data_block_def)
  ultimately show ?thesis
    using v(2) gone_room [OF c v(1)] f unfolding emptied_def freed_def by simp
qed

lemma emptied_upd_inode: "emptied ip s v \<Longrightarrow> emptied ip s (upd_inode jp f v)"
proof -
  have "logged (upd_inode jp f v) = logged v" "used (upd_inode jp f v) = used v" by (simp_all add: logged_def used_def fun_eq_iff)
  then show "emptied ip s v \<Longrightarrow> emptied ip s (upd_inode jp f v)" by (simp add: emptied_def)
qed

lemma emptied_update:
  assumes s: "roomy 1 s" and I: "data_block s (iblock_of ip s)" and v: "emptied ip s v" "i_inum (icache v ip) = i_inum (icache s ip)"
    "length (i_addrs (icache v ip)) = NDIRECT + 1"
  shows "wp (iupdate ip v) (\<lambda>t. emptied ip s t \<and> icache t = icache v \<and>
    (\<forall>q. same_disk_part (load_dinode (blk t (iblock_of ip s)) (ioff (i_inum (icache s ip))) q) (icache v ip)))"
proof -
  let ?I = "iblock_of ip s" and ?k = "i_inum (icache s ip)"
  note D = emptiedD [OF v(1)]
  have i: "?I = iblock_of ip v" "?I \<noteq> 0" "?I \<notin> log_area v" "?I \<notin> bmap_area s" using I v(2) D(3,4) by (simp_all add: data_block_def)
  have r: "roomy 1 v" using s roomy_cong [OF D(2)] by simp
  let ?d = "store_dinode (icache v ip) (ioff ?k) (blk v ?I)"
  obtain t where t: "iupdate ip v = Ok t" "tx_inv t" "blk t = (blk v)(?I := ?d)"
    "refs t = refs v" "tx_frame v t" "logged t = insert ?I (logged v)" "room t = (if ?I \<in> logged v then room v else room v - 1)"
    using iupdate_spec [OF D(1) r D(9) i(1-3) v(3)] iupdate_logged [OF D(1) r D(9) i(1-3) v(3)] v(2) by (auto simp: wp_iff)
  note g = tx_frame_fs [OF t(5)]
  have len: "ioff m + 64 \<le> length (blk v b)" for m b
    using length_blk [OF tx_inv_bio [OF D(1)], of b] ioff_bound [of m] by simp
  have u: "used t m \<longleftrightarrow> used v m" if "m < sb_size (fsb s)" for m
  proof -
    have "BBLOCK m (fsb s) \<noteq> ?I" using that i(4) by (force simp: bmap_area_def)
    then show ?thesis using t(3) g(4) D(3) by (simp add: used_def)
  qed
  have us: "\<forall>m < sb_size (fsb s). used t m \<longleftrightarrow> m \<notin> tree_blocks s ip \<and> used s m" using u D(6) by simp
  have other: "load_dinode (blk t ?I) (ioff m) q = load_dinode (blk s ?I) (ioff m) q" if "m \<noteq> ?k" "IBLOCK m (fsb s) = ?I" for m q
    using load_store_other [OF v(3) len len IBLOCK_same [OF that(2) [symmetric]]] that D(8) [OF that] t(3) by simp
  have bk: "\<forall>m. m \<notin> bmap_area s \<longrightarrow> m \<noteq> ?I \<longrightarrow> blk t m = blk s m" using t(3) D(7) by simp
  have fr: "fs_frame s t" using v(1) fs_frame_trans [OF _ tx_fs_frame [OF t(5)]] by (simp add: emptied_def)
  have rt: "0 < room t" using v(1) t(7) by (auto simp: emptied_def)
  have "emptied ip s t"
    unfolding emptied_def using t(2,4,6) D(2) g v(1) us bk other fr rt by (simp add: emptied_def)
  moreover have "same_disk_part (load_dinode (blk t ?I) (ioff ?k) q) (icache v ip)" for q
    using load_store_dinode(1) [OF v(3) len] t(3) by simp
  ultimately show ?thesis using t(1) g(1) by simp
qed

abbreviation cleared :: "inode \<Rightarrow> inode" where
  "cleared q \<equiv> q\<lparr>i_addrs := replicate (NDIRECT + 1) 0, i_size := 0\<rparr>"

lemma itrunc_spec:
  assumes c: "can_trunc s ip {iblock_of ip s}" and s: "tx_inv s" "roomy 3 s" and I: "data_block s (iblock_of ip s)"
  shows "wp (itrunc ip s) (\<lambda>t. emptied ip s t \<and> icache t = (icache s)(ip := cleared (icache s ip)) \<and>
    (\<forall>q. same_disk_part (load_dinode (blk t (iblock_of ip s)) (ioff (i_inum (icache s ip))) q) (cleared (icache s ip))))"
proof -
  have len: "length (i_addrs (icache s ip)) = NDIRECT + 1" using c by (simp add: can_trunc_def tree_ok_def)
  have g0: "gone ip {} s s" using freed_refl [OF s(1)] by (simp add: gone_def)
  have lf: "i_addrs (icache s ip) ! i = node_addr s ip (Leaf i)" if "i < NDIRECT" for i using that by (simp add: node_addr_unfold)
  have "wp (free_direct ip [0..<NDIRECT] s) (\<lambda>u. gone ip ({} \<union> Leaf ` set [0..<NDIRECT]) s u \<and> steady s u \<and>
    (\<exists>as. icache u = (icache s)(ip := (icache s ip)\<lparr>i_addrs := as\<rparr>) \<and> length as = NDIRECT + 1 \<and>
       (\<forall>i < NDIRECT + 1. as ! i = (if i \<in> set [0..<NDIRECT] then 0 else i_addrs (icache s ip) ! i))))"
    using lf len roomy_mono [OF s(2), of 1] by (intro free_direct_spec [OF c _ _ g0]) auto
  then show ?thesis unfolding itrunc_def
  proof (rule wp_mono_bind)
    fix u assume u: "gone ip ({} \<union> Leaf ` set [0..<NDIRECT]) s u \<and> steady s u \<and>
    (\<exists>as. icache u = (icache s)(ip := (icache s ip)\<lparr>i_addrs := as\<rparr>) \<and> length as = NDIRECT + 1 \<and>
       (\<forall>i < NDIRECT + 1. as ! i = (if i \<in> set [0..<NDIRECT] then 0 else i_addrs (icache s ip) ! i)))"
    then obtain as where as: "icache u = (icache s)(ip := (icache s ip)\<lparr>i_addrs := as\<rparr>)" "length as = NDIRECT + 1"
      "\<forall>i < NDIRECT + 1. as ! i = (if i \<in> set [0..<NDIRECT] then 0 else i_addrs (icache s ip) ! i)" by blast
    have zero: "as[NDIRECT := 0] = replicate (NDIRECT + 1) 0" using as(2,3)
      by (auto intro!: nth_equalityI simp: nth_list_update less_Suc_eq simp del: replicate_Suc)
    have top: "as ! NDIRECT = node_addr s ip Top" using as(3) by (simp add: node_addr_unfold)
    have gu: "gone ip (Leaf ` {..<NDIRECT}) s u" "roomy 3 u" using u steady_roomy [of s u 3] s(2) by (simp_all add: atLeast0LessThan)
    have au: "i_addrs (icache u ip) ! NDIRECT = node_addr s ip Top" "length (i_addrs (icache u ip)) = NDIRECT + 1" using as(1,2) top by simp_all
    note ft = free_top [OF c gu au]
    show "wp (rbind (let top = i_addrs (icache u ip) ! NDIRECT in
        if top \<noteq> 0 then
          rbind (bread top u) (\<lambda>(bp, s). rbind (free_indirect bp [0..<NINDIRECT] s) (\<lambda>s. rbind (bfree top (brelse bp s)) (\<lambda>s.
            Ok (upd_inode ip (\<lambda>q. q\<lparr>i_addrs := (i_addrs q)[NDIRECT := 0]\<rparr>) s))))
        else Ok u) (\<lambda>s. iupdate ip (upd_inode ip (\<lambda>q. q\<lparr>i_size := 0\<rparr>) s)))
      (\<lambda>t. emptied ip s t \<and> icache t = (icache s)(ip := cleared (icache s ip)) \<and>
        (\<forall>q. same_disk_part (load_dinode (blk t (iblock_of ip s)) (ioff (i_inum (icache s ip))) q) (cleared (icache s ip))))"
    proof (rule wp_mono_bind [OF ft])
      fix v assume v: "gone ip nodes s v \<and> steady u v \<and> icache v = (icache u)(ip := (icache u ip)\<lparr>i_addrs := (i_addrs (icache u ip))[NDIRECT := 0]\<rparr>)"
      let ?v = "upd_inode ip (\<lambda>q. q\<lparr>i_size := 0\<rparr>) v"
      have iv: "icache ?v = (icache s)(ip := cleared (icache s ip))"
        using v zero as(1) by (simp add: upd_inode_def)
      have "gone ip nodes s v" "refs v = refs s" using v u by (auto simp: steady_def)
      then have "emptied ip s ?v" by (intro emptied_upd_inode emptied_gone [OF c I])
      from emptied_update [OF roomy_mono [OF s(2)] I this] show "wp (iupdate ip ?v) (\<lambda>t. emptied ip s t \<and> icache t = (icache s)(ip := cleared (icache s ip)) \<and>
        (\<forall>q. same_disk_part (load_dinode (blk t (iblock_of ip s)) (ioff (i_inum (icache s ip))) q) (cleared (icache s ip))))"
        unfolding iv by simp
    qed
  qed
qed

section \<open>Giving an inode back\<close>

text \<open>Another file keeps its blocks and its contents.\<close>

lemma emptied_others:
  assumes e: "emptied ip s t" and ok: "file_ok s ip" "file_ok s jp" "apart s ip jp" and ic: "icache t jp = icache s jp"
  shows "file_ok t jp" "tree_blocks t jp = tree_blocks s jp" "contents t jp = contents s jp"
proof -
  note D = emptiedD [OF e] and I = file_inode_block [OF ok(1)]
  have db: "data_block t b" if "b \<in> tree_blocks s jp \<union> inode_area s" "data_block s b" for b
    using that D(3-6) ok(1,3) by (auto simp: data_block_def file_ok_def apart_def)
  have bk: "blk t b = blk s b" if "b \<in> tree_blocks s jp" for b
  proof (rule D(7))
    have "data_block s b" "b \<notin> inode_area s" using that ok(2) by (auto simp: file_ok_def tree_ok_def)
    then show "b \<notin> bmap_area s" "b \<noteq> iblock_of ip s" using I(2) by (auto simp: data_block_def)
  qed
  show "file_ok t jp" "tree_blocks t jp = tree_blocks s jp" "contents t jp = contents s jp"
    using file_kept_on [OF ok(2) D(3) ic db bk] by blast+
qed

lemma iput_emptied:
  assumes ok: "file_ok s ip" and c: "can_trunc s ip {iblock_of ip s}" and s: "tx_inv s" "roomy 3 s"
    and i: "i_valid (icache s ip)" "i_nlink (icache s ip) = 0" "i_ref (icache s ip) = 1"
  shows "wp (iput ip s) (\<lambda>t. emptied ip s t \<and> icache t = (icache s)(ip := (cleared (icache s ip))\<lparr>i_type := 0, i_valid := False, i_ref := 0\<rparr>) \<and>
    (\<forall>q. i_type (load_dinode (blk t (iblock_of ip s)) (ioff (i_inum (icache s ip))) q) = 0))"
proof -
  note I = file_inode_block(1) [OF ok]
  have r1: "roomy 1 s" using roomy_mono [OF s(2)] by simp
  let ?Q = "\<lambda>t q. same_disk_part (load_dinode (blk t (iblock_of ip s)) (ioff (i_inum (icache s ip))) q)"
  have "wp (rbind (itrunc ip s) (\<lambda>s. rbind (iupdate ip (upd_inode ip (\<lambda>q. q\<lparr>i_type := 0\<rparr>) s)) (\<lambda>s. Ok (upd_inode ip (\<lambda>q. q\<lparr>i_valid := False\<rparr>) s))))
    (\<lambda>t. emptied ip s t \<and> icache t = (icache s)(ip := (cleared (icache s ip))\<lparr>i_type := 0, i_valid := False\<rparr>) \<and>
      (\<forall>q. i_type (load_dinode (blk t (iblock_of ip s)) (ioff (i_inum (icache s ip))) q) = 0))"
  proof (rule wp_mono_bind [OF itrunc_spec [OF c s I]])
    fix t assume t: "emptied ip s t \<and> icache t = (icache s)(ip := cleared (icache s ip)) \<and> (\<forall>q. ?Q t q (cleared (icache s ip)))"
    let ?v = "upd_inode ip (\<lambda>q. q\<lparr>i_type := 0\<rparr>) t"
    have iv: "icache ?v = (icache s)(ip := (cleared (icache s ip))\<lparr>i_type := 0\<rparr>)" using t by (simp add: upd_inode_def)
    have "emptied ip s ?v" using t by (intro emptied_upd_inode) simp
    then have "wp (iupdate ip ?v) (\<lambda>u. emptied ip s u \<and> icache u = icache ?v \<and> (\<forall>q. ?Q u q (icache ?v ip)))"
      by (rule emptied_update [OF r1 I]) (use t in simp_all)
    then show "wp (rbind (iupdate ip ?v) (\<lambda>s. Ok (upd_inode ip (\<lambda>q. q\<lparr>i_valid := False\<rparr>) s)))
      (\<lambda>t. emptied ip s t \<and> icache t = (icache s)(ip := (cleared (icache s ip))\<lparr>i_type := 0, i_valid := False\<rparr>) \<and>
        (\<forall>q. i_type (load_dinode (blk t (iblock_of ip s)) (ioff (i_inum (icache s ip))) q) = 0))"
      unfolding iv by (auto simp: emptied_upd_inode same_disk_part_def elim!: wp_mono)
  qed
  then have "wp (rbind (rbind (itrunc ip s) (\<lambda>s. rbind (iupdate ip (upd_inode ip (\<lambda>q. q\<lparr>i_type := 0\<rparr>) s)) (\<lambda>s. Ok (upd_inode ip (\<lambda>q. q\<lparr>i_valid := False\<rparr>) s))))
      (\<lambda>s. Ok (upd_inode ip (\<lambda>q. q\<lparr>i_ref := i_ref q - 1\<rparr>) s)))
    (\<lambda>t. emptied ip s t \<and> icache t = (icache s)(ip := (cleared (icache s ip))\<lparr>i_type := 0, i_valid := False, i_ref := 0\<rparr>) \<and>
    (\<forall>q. i_type (load_dinode (blk t (iblock_of ip s)) (ioff (i_inum (icache s ip))) q) = 0))"
    by (rule wp_mono_bind) (use i(3) in \<open>simp add: emptied_upd_inode\<close>)
  then show ?thesis unfolding iput_def using i by (simp del: wp_rbind)
qed

section \<open>Property\<close>


text \<open>The file of \<open>demo_grow\<close>, with its last link gone.\<close>

definition demo_gone :: fs_state where
  "demo_gone = upd_inode 0 (\<lambda>q. q\<lparr>i_nlink := 0\<rparr>) demo_grow"

lemma demo_gone_simps:
  "tx_inv demo_gone" "roomy 3 demo_gone" "balloc_ok demo_gone" "logged demo_gone = {}" "room demo_gone = 99" "tree_blocks demo_gone 0 = {155, 156}" "file_ok demo_gone 0"
  "i_valid (icache demo_gone 0)" "i_nlink (icache demo_gone 0) = 0" "i_ref (icache demo_gone 0) = 1"
proof -
  have v: "blk demo_gone = blk demo_grow" "fsb demo_gone = fsb demo_grow" "log_area demo_gone = log_area demo_grow" by (simp_all add: demo_gone_def)
  have bm: "used demo_gone = used demo_grow" "bmap_area demo_gone = bmap_area demo_grow" by (simp_all add: demo_gone_def used_def bmap_area_def fun_eq_iff)
  show "balloc_ok demo_gone" using demo_fs_ok(1) by (simp add: balloc_ok_def v bm demo_grow_simps)
  show "tree_blocks demo_gone 0 = {155, 156}" "file_ok demo_gone 0"
  proof -
    have n: "node_addr demo_gone 0 = node_addr demo_grow 0" by (rule node_addr_same) (simp_all add: demo_gone_def)
    then show t: "tree_blocks demo_gone 0 = {155, 156}" using demo_grow_tree by (simp add: tree_blocks_def)
    have "data_block demo_gone = data_block demo_grow" using v by (intro bitmap_view) simp_all
    then show "file_ok demo_gone 0"
      using demo_grow_ok demo_grow_tree unfolding file_ok_def tree_ok_def inode_area_def n t v by (simp add: demo_gone_def)
  qed
  show "tx_inv demo_gone" "logged demo_gone = {}" "room demo_gone = 99"
    using demo_grow_simps(1,3) by (simp_all add: demo_gone_def logged_def demo_grow_def demo_fs_simps)
  show "roomy 3 demo_gone" using quiet_roomy [of demo_gone 3] by (simp add: demo_gone_def demo_grow_def demo_fs_bio NBUF_def)
  show "i_valid (icache demo_gone 0)" "i_nlink (icache demo_gone 0) = 0" "i_ref (icache demo_gone 0) = 1"
    by (simp_all add: demo_gone_def demo_grow_def)
qed


end
