(* ===== verification/Dir.thy ===== *)
theory Dir
  imports Fdata Kstring
begin

text \<open>
  Directories and path names of \<open>kern/fs.c\<close>. A directory is a file of 16-byte entries, an inode number
  and a name of 14 bytes. \<open>readi\<close> does not change the size of a file, so the loops over the entries
  run over the offsets below the size at their start.
\<close>

definition DIRSIZ :: nat where "DIRSIZ = 14"
definition T_DIR :: ushort where "T_DIR = 1"
definition T_FILE :: ushort where "T_FILE = 2"
definition T_DEV :: ushort where "T_DEV = 3"
definition T_PIPE :: ushort where "T_PIPE = 4"

text \<open>\<open>struct xvdirent\<close> as it lies in a file.\<close>

definition de_inum :: "bytes \<Rightarrow> ushort" where "de_inum de = get16 de 0"
definition de_name :: "bytes \<Rightarrow> bytes" where "de_name de = drop 2 de"

definition namecmp :: "bytes \<Rightarrow> bytes \<Rightarrow> int" where
  "namecmp s t = strncmp s t DIRSIZ"

definition dir_offs :: "nat \<Rightarrow> nat list" where
  "dir_offs sz = map (\<lambda>i. 16 * i) [0..<(sz + 15) div 16]"

fun dirlookup_loop :: "nat \<Rightarrow> bytes \<Rightarrow> nat list \<Rightarrow> 'a fs_state_scheme \<Rightarrow> ((nat \<times> nat) option \<times> 'a fs_state_scheme) res" where
  "dirlookup_loop dp name [] s = Ok (None, s)"
| "dirlookup_loop dp name (off # offs) s =
     rbind (readi dp (of_nat off) 16 s) (\<lambda>(r, de, s).
       if r \<noteq> 16 then Panic ''dirlookup read''
       else if de_inum de = 0 then dirlookup_loop dp name offs s
       else if namecmp name (de_name de) = 0 then
         rbind (iget (ucast (de_inum de)) s) (\<lambda>(ip, s). Ok (Some (ip, off), s))
       else dirlookup_loop dp name offs s)"

text \<open>The inode found and the offset of its entry, which goes to \<open>*poff\<close>.\<close>

definition dirlookup :: "nat \<Rightarrow> bytes \<Rightarrow> 'a fs_state_scheme \<Rightarrow> ((nat \<times> nat) option \<times> 'a fs_state_scheme) res" where
  "dirlookup dp name s =
     (if i_type (icache s dp) \<noteq> T_DIR then Panic ''dirlookup not DIR''
      else dirlookup_loop dp name (dir_offs (unat (i_size (icache s dp)))) s)"

text \<open>The offset of the first unused entry, or the one past the last entry.\<close>

fun empty_slot :: "nat \<Rightarrow> nat \<Rightarrow> nat list \<Rightarrow> 'a fs_state_scheme \<Rightarrow> (nat \<times> 'a fs_state_scheme) res" where
  "empty_slot dp past [] s = Ok (past, s)"
| "empty_slot dp past (off # offs) s =
     rbind (readi dp (of_nat off) 16 s) (\<lambda>(r, de, s).
       if r \<noteq> 16 then Panic ''dirlink read''
       else if de_inum de = 0 then Ok (off, s)
       else empty_slot dp past offs s)"

definition make_de :: "bytes \<Rightarrow> uint \<Rightarrow> bytes" where
  "make_de name inum = enc16 (ucast inum) @ strncpy_bytes name DIRSIZ"

definition dirlink :: "nat \<Rightarrow> bytes \<Rightarrow> uint \<Rightarrow> 'a fs_state_scheme \<Rightarrow> (int \<times> 'a fs_state_scheme) res" where
  "dirlink dp name inum s =
     rbind (dirlookup dp name s) (\<lambda>(r, s).
       case r of
         Some (ip, _) \<Rightarrow> rbind (iput ip s) (\<lambda>s. Ok (-1, s))
       | None \<Rightarrow>
           (let sz = unat (i_size (icache s dp)) in
            rbind (empty_slot dp (16 * ((sz + 15) div 16)) (dir_offs sz) s) (\<lambda>(off, s).
            rbind (writei dp (make_de name inum) (of_nat off) 16 s) (\<lambda>(r, s).
              if r \<noteq> 16 then Panic ''dirlink'' else Ok (0, s)))))"

section \<open>Paths\<close>

text \<open>
  The result is the rest of the path and the new contents of the name buffer; bytes of the buffer
  after the terminating NUL keep what they held.
\<close>

definition slash :: uchar where "slash = 47"

definition skipelem :: "bytes \<Rightarrow> bytes \<Rightarrow> (bytes \<times> bytes) option" where
  "skipelem path name =
     (let path = dropWhile (\<lambda>c. c = slash) path in
      if deref path = 0 then None
      else
        (let s = takeWhile (\<lambda>c. c \<noteq> slash \<and> c \<noteq> 0) path;
             path = dropWhile (\<lambda>c. c \<noteq> slash \<and> c \<noteq> 0) path;
             name = (if length s \<ge> DIRSIZ then patch 0 (take DIRSIZ s) name else patch 0 (s @ [0]) name)
         in Some (dropWhile (\<lambda>c. c = slash) path, name)))"

lemma dropWhile_head: "dropWhile (\<lambda>c. c = a) xs = c # cs \<Longrightarrow> c \<noteq> a"
  by (simp add: dropWhile_eq_Cons_conv)

lemma skipelem_shorter: "skipelem path name = Some (rest, nm) \<Longrightarrow> length rest < length path"
proof -
  let ?p = "dropWhile (\<lambda>c. c = slash) path" and ?q = "\<lambda>c. c \<noteq> slash \<and> c \<noteq> 0"
  assume s: "skipelem path name = Some (rest, nm)"
  then have p: "deref ?p \<noteq> 0" and rest: "rest = dropWhile (\<lambda>c. c = slash) (dropWhile ?q ?p)"
    by (auto simp: skipelem_def Let_def split: if_splits)
  then obtain c cs where cs: "?p = c # cs" by (cases ?p) auto
  then have "c \<noteq> slash" by (rule dropWhile_head)
  then have "dropWhile ?q ?p = dropWhile ?q cs" using p cs by simp
  then have "length rest \<le> length cs" unfolding rest
    by (simp add: le_trans [OF length_dropWhile_le length_dropWhile_le])
  also have "\<dots> < length ?p" by (simp add: cs)
  also have "\<dots> \<le> length path" by (rule length_dropWhile_le)
  finally show ?thesis .
qed

function namex_loop :: "nat \<Rightarrow> bytes \<Rightarrow> bool \<Rightarrow> bytes \<Rightarrow> 'a fs_state_scheme \<Rightarrow> (nat option \<times> bytes \<times> 'a fs_state_scheme) res" where
  "namex_loop ip path nip name s =
     (case skipelem path name of
        None \<Rightarrow> if nip then rbind (iput ip s) (\<lambda>s. Ok (None, name, s)) else Ok (Some ip, name, s)
      | Some (path', name) \<Rightarrow>
          rbind (ilock (Some ip) s) (\<lambda>s.
            if i_type (icache s ip) \<noteq> T_DIR then rbind (iunlockput ip s) (\<lambda>s. Ok (None, name, s))
            else if nip \<and> deref path' = 0 then rbind (iunlock (Some ip) s) (\<lambda>s. Ok (Some ip, name, s))
            else
              rbind (dirlookup ip name s) (\<lambda>(r, s).
                case r of
                  None \<Rightarrow> rbind (iunlockput ip s) (\<lambda>s. Ok (None, name, s))
                | Some (next', _) \<Rightarrow> rbind (iunlockput ip s) (\<lambda>s. namex_loop next' path' nip name s))))"
  by pat_completeness auto
termination
  by (relation "measure (\<lambda>(ip, path, nip, name, s). length path)") (auto dest: skipelem_shorter)

declare namex_loop.simps [simp del]

definition namex :: "bytes \<Rightarrow> bool \<Rightarrow> bytes \<Rightarrow> 'a fs_state_scheme \<Rightarrow> (nat option \<times> bytes \<times> 'a fs_state_scheme) res" where
  "namex path nip name s =
     rbind
       (if deref path = slash then iget ROOTINO s
        else rbind (myproc s) (\<lambda>p.
          case p_cwd (ptable s p) of None \<Rightarrow> Fault | Some ip \<Rightarrow> Ok (idup ip s)))
       (\<lambda>(ip, s). namex_loop ip path nip name s)"

text \<open>\<open>name\<close> is an uninitialised array of \<open>DIRSIZ\<close> bytes on the stack.\<close>

definition namei :: "bytes \<Rightarrow> 'a fs_state_scheme \<Rightarrow> (nat option \<times> 'a fs_state_scheme) res" where
  "namei path s = rbind (namex path False (replicate DIRSIZ 0) s) (\<lambda>(ip, _, s). Ok (ip, s))"

definition nameiparent :: "bytes \<Rightarrow> bytes \<Rightarrow> 'a fs_state_scheme \<Rightarrow> (nat option \<times> bytes \<times> 'a fs_state_scheme) res" where
  "nameiparent path name s = namex path True name s"

section \<open>Splitting paths\<close>

text \<open>The elements of a path: the maximal runs of bytes other than slash, before the NUL.\<close>

fun elems :: "bytes \<Rightarrow> bytes \<Rightarrow> bytes list" where
  "elems cur [] = (if cur = [] then [] else [cur])"
| "elems cur (c # cs) =
     (if c = 0 then (if cur = [] then [] else [cur])
      else if c = slash then (if cur = [] then elems [] cs else cur # elems [] cs)
      else elems (cur @ [c]) cs)"

abbreviation components :: "bytes \<Rightarrow> bytes list" where "components path \<equiv> elems [] path"

lemma slash_nz [simp]: "slash \<noteq> 0" "0 \<noteq> slash"
  by (simp_all add: slash_def)

lemma elems_skip: "elems [] (dropWhile (\<lambda>c. c = slash) path) = elems [] path"
  by (induction path) auto

lemma elems_run:
  "cur \<noteq> [] \<or> takeWhile (\<lambda>c. c \<noteq> slash \<and> c \<noteq> 0) p \<noteq> [] \<Longrightarrow>
   elems cur p = (cur @ takeWhile (\<lambda>c. c \<noteq> slash \<and> c \<noteq> 0) p) # elems [] (dropWhile (\<lambda>c. c \<noteq> slash \<and> c \<noteq> 0) p)"
proof (induction p arbitrary: cur)
  case (Cons c p)
  show ?case
  proof (cases "c \<noteq> slash \<and> c \<noteq> 0")
    case True
    then show ?thesis using Cons.IH [of "cur @ [c]"] by simp
  next
    case False
    then show ?thesis using Cons.prems by auto
  qed
qed simp

lemma skipelem_None_deref: "skipelem path name = None \<longleftrightarrow> deref (dropWhile (\<lambda>c. c = slash) path) = 0"
  by (simp add: skipelem_def Let_def)

lemma skipelem_None: "skipelem path name = None \<longleftrightarrow> components path = []"
proof -
  let ?p = "dropWhile (\<lambda>c. c = slash) path"
  have "skipelem path name = None \<longleftrightarrow> deref ?p = 0" by (rule skipelem_None_deref)
  also have "\<dots> \<longleftrightarrow> elems [] ?p = []"
  proof (cases ?p)
    case (Cons c cs)
    then have "c \<noteq> slash" by (rule dropWhile_head)
    then show ?thesis using Cons elems_run [of "[c]" cs] by auto
  next
    case Nil
    then show ?thesis by (simp only: deref_simps elems.simps if_True simp_thms)
  qed
  finally show ?thesis by (simp add: elems_skip)
qed

lemma cname_patch:
  assumes "length name = DIRSIZ" "\<forall>c \<in> set e. c \<noteq> 0"
  shows "cname DIRSIZ (if length e \<ge> DIRSIZ then patch 0 (take DIRSIZ e) name else patch 0 (e @ [0]) name) = take DIRSIZ e"
    "length (if length e \<ge> DIRSIZ then patch 0 (take DIRSIZ e) name else patch 0 (e @ [0]) name) = DIRSIZ"
proof -
  have t: "takeWhile (\<lambda>c. c \<noteq> 0) (take DIRSIZ e) = take DIRSIZ e"
    using assms(2) by (auto simp: takeWhile_eq_all_conv dest: in_set_takeD)
  have a: "takeWhile (\<lambda>c. c \<noteq> 0) (e @ 0 # r) = e" for r using assms(2) by simp
  show "cname DIRSIZ (if length e \<ge> DIRSIZ then patch 0 (take DIRSIZ e) name else patch 0 (e @ [0]) name) = take DIRSIZ e"
    using assms(1) t a by (auto simp: cname_take patch_def)
  show "length (if length e \<ge> DIRSIZ then patch 0 (take DIRSIZ e) name else patch 0 (e @ [0]) name) = DIRSIZ"
    using assms(1) by (auto simp: patch_def)
qed

lemma skipelem_cases:
  assumes "length name = DIRSIZ"
  shows "case skipelem path name of
      None \<Rightarrow> components path = []
    | Some (rest, nm) \<Rightarrow> \<exists>e. components path = e # components rest \<and> length nm = DIRSIZ \<and> cname DIRSIZ nm = take DIRSIZ e \<and>
        e \<noteq> [] \<and> (deref rest = 0 \<longleftrightarrow> components rest = [])"
proof (cases "skipelem path name")
  case None
  show ?thesis unfolding None option.case using None skipelem_None by blast
next
  case (Some x)
  let ?p = "dropWhile (\<lambda>c. c = slash) path" and ?q = "\<lambda>c. c \<noteq> slash \<and> c \<noteq> 0"
  let ?e = "takeWhile ?q ?p" and ?r = "dropWhile (\<lambda>c. c = slash) (dropWhile ?q ?p)"
  let ?nm = "if length ?e \<ge> DIRSIZ then patch 0 (take DIRSIZ ?e) name else patch 0 (?e @ [0]) name"
  have p: "deref ?p \<noteq> 0" and x: "x = (?r, ?nm)" using Some by (auto simp: skipelem_def Let_def split: if_splits)
  obtain c cs where cs: "?p = c # cs" using p by (cases ?p) auto
  then have "c \<noteq> slash" by (rule dropWhile_head)
  then have ne: "?e \<noteq> []" using cs p by simp
  have "components path = ?e # components ?r"
    using elems_run [of "[]" ?p] ne elems_skip by simp
  moreover have "\<forall>c \<in> set ?e. c \<noteq> 0" by (auto dest: set_takeWhileD)
  moreover have "deref ?r = 0 \<longleftrightarrow> components ?r = []"
    using skipelem_None [of ?r name] unfolding skipelem_None_deref by (simp only: dropWhile_idem)
  ultimately show ?thesis
    using cname_patch [OF assms, of ?e] ne unfolding Some x option.case prod.case by blast
qed

text \<open>
  C18. Path splitting: \<open>skipelem\<close> fails exactly on paths without elements; otherwise it takes the first
  element off: the name buffer then holds its first \<open>DIRSIZ\<close> bytes, the rest is the path of the
  remaining elements, and the rest is empty exactly when the element was the last one.
\<close>

theorem skipelem_splits:
  assumes "length name = DIRSIZ"
  shows "case skipelem path name of
      None \<Rightarrow> components path = []
    | Some (rest, nm) \<Rightarrow> \<exists>e. components path = e # components rest \<and> length nm = DIRSIZ \<and> cname DIRSIZ nm = take DIRSIZ e \<and>
        e \<noteq> [] \<and> (deref rest = 0 \<longleftrightarrow> components rest = [])"
  by (rule skipelem_cases [OF assms])

theorem skipelem_splits_witness:
  "\<exists>e. components [47, 97, 47, 47, 98] = e # components [98] \<and> cname DIRSIZ (snd (the (skipelem [47, 97, 47, 47, 98] (replicate DIRSIZ 0)))) = take DIRSIZ e"
  using skipelem_splits [of "replicate DIRSIZ 0" "[47, 97, 47, 47, 98]"]
  by (auto simp: skipelem_def slash_def Let_def DIRSIZ_def)

section \<open>Looking up names\<close>

lemma readi_full:
  assumes "bio_inv s" "roomy 1 s" "i_size (icache s ip) < 2 ^ 31" "\<And>k. k * BSIZE < unat (i_size (icache s ip)) \<Longrightarrow> mapped s ip k"
    and le: "off + n \<le> unat (i_size (icache s ip))"
  shows "wp (readi ip (of_nat off) (of_nat n) s) (\<lambda>(r, d, s'). r = int n \<and> d = map (fbyte s ip) [off..<off + n] \<and> read_only s s')"
proof -
  let ?sz = "i_size (icache s ip)"
  have sz: "unat ?sz < 2 ^ 31" using assms(3) by (simp add: word_less_nat_alt)
  have u: "unat (of_nat off :: uint) = off" "unat (of_nat n :: uint) = n" "unat (of_nat off + of_nat n :: uint) = off + n"
    using le sz unat_of_nat_small [of "off + n"] by (simp_all add: unat_of_nat_small)
  have c: "\<not> (of_nat off > ?sz \<or> of_nat off + of_nat n < (of_nat off :: uint))" "\<not> of_nat off + of_nat n > ?sz"
    using u le by (auto simp: word_less_nat_alt)
  have si: "sint (of_nat n :: uint) = int n" using sint_small [of "int n"] le sz by simp
  have "wp (readi_loop ip n off s) (\<lambda>(dst, s'). dst = map (fbyte s ip) [off..<off + n] \<and> read_only s s')"
    using assms by (intro readi_loop_spec) auto
  then show ?thesis
    using c u si by (auto simp: readi_def Let_def elim!: wp_mono)
qed

text \<open>Entry \<open>i\<close> of a directory, and whether it is in use for a name.\<close>

definition dent :: "'a fs_state_scheme \<Rightarrow> nat \<Rightarrow> nat \<Rightarrow> bytes" where
  "dent s dp i = map (fbyte s dp) [16 * i..<16 * i + 16]"

definition dmatch :: "bytes \<Rightarrow> bytes \<Rightarrow> bool" where
  "dmatch name de \<longleftrightarrow> de_inum de \<noteq> 0 \<and> cname DIRSIZ name = cname DIRSIZ (de_name de)"

definition dir_ok :: "'a fs_state_scheme \<Rightarrow> nat \<Rightarrow> bool" where
  "dir_ok s dp \<longleftrightarrow> i_type (icache s dp) = T_DIR \<and> 16 dvd unat (i_size (icache s dp)) \<and> i_size (icache s dp) < 2 ^ 31 \<and>
     (\<forall>k. k * BSIZE < unat (i_size (icache s dp)) \<longrightarrow> mapped s dp k)"

abbreviation dcount :: "'a fs_state_scheme \<Rightarrow> nat \<Rightarrow> nat" where
  "dcount s dp \<equiv> unat (i_size (icache s dp)) div 16"

lemma dir_ok_view:
  assumes "read_only s t"
  shows "dir_ok t dp = dir_ok s dp" "dent t dp = dent s dp" "dcount t dp = dcount s dp"
  using read_only_file [OF assms] bio_frame_fs(1) [OF read_onlyD(4) [OF assms]] by (simp_all add: dir_ok_def dent_def fun_eq_iff)

lemma read_dent:
  assumes "bio_inv s" "roomy 1 s" "dir_ok s dp" "i < dcount s dp"
  shows "wp (readi dp (of_nat (16 * i)) 16 s) (\<lambda>(r, de, s'). r = 16 \<and> de = dent s dp i \<and> read_only s s')"
proof -
  have "16 * i + 16 \<le> unat (i_size (icache s dp))" using assms(3,4) by (auto simp: dir_ok_def elim!: dvdE)
  then show ?thesis
    using readi_full [of s dp "16 * i" 16] assms by (simp add: dir_ok_def dent_def)
qed

lemma dir_offs_dcount: "dir_ok s dp \<Longrightarrow> dir_offs (unat (i_size (icache s dp))) = map (\<lambda>i. 16 * i) [0..<dcount s dp]"
  by (auto simp: dir_ok_def dir_offs_def elim!: dvdE)

lemma dirlookup_loop_spec:
  assumes "bio_inv s" "roomy 1 s" "dir_ok s dp" "lo \<le> dcount s dp"
  shows "case find_from (\<lambda>i. dmatch name (dent s dp i)) lo (dcount s dp) of
      None \<Rightarrow> wp (dirlookup_loop dp name (map (\<lambda>i. 16 * i) [lo..<dcount s dp]) s) (\<lambda>(r, s'). r = None \<and> read_only s s')
    | Some i \<Rightarrow> \<exists>t. read_only s t \<and> dirlookup_loop dp name (map (\<lambda>i. 16 * i) [lo..<dcount s dp]) s =
        rbind (iget (ucast (de_inum (dent s dp i))) t) (\<lambda>(ip, s). Ok (Some (ip, 16 * i), s))"
  using assms
proof (induction "dcount s dp - lo" arbitrary: lo s)
  case 0
  then show ?case by (subst find_from.simps) (simp add: read_only_refl)
next
  case (Suc k)
  let ?N = "dcount s dp"
  have lo: "lo < ?N" using Suc.hyps(2) by simp
  then have l: "[lo..<?N] = lo # [Suc lo..<?N]" by (rule upt_conv_Cons)
  obtain t where r: "readi dp (of_nat (16 * lo)) 16 s = Ok (16, dent s dp lo, t)" and t: "read_only s t"
    using read_dent [OF Suc.prems(1-3) lo] by (auto simp: wp_iff)
  note v = dir_ok_view [OF t] and ro = read_onlyD [OF t]
  have nc: "namecmp name (de_name (dent s dp lo)) = 0 \<longleftrightarrow> cname DIRSIZ name = cname DIRSIZ (de_name (dent s dp lo))"
    by (simp add: namecmp_def strncmp_eq_0)
  have IH: "case find_from (\<lambda>i. dmatch name (dent t dp i)) (Suc lo) (dcount t dp) of
      None \<Rightarrow> wp (dirlookup_loop dp name (map (\<lambda>i. 16 * i) [Suc lo..<dcount t dp]) t) (\<lambda>(r, s'). r = None \<and> read_only t s')
    | Some i \<Rightarrow> \<exists>u. read_only t u \<and> dirlookup_loop dp name (map (\<lambda>i. 16 * i) [Suc lo..<dcount t dp]) t =
        rbind (iget (ucast (de_inum (dent t dp i))) u) (\<lambda>(ip, s). Ok (Some (ip, 16 * i), s))"
    using Suc.hyps(2) Suc.prems v ro lo by (intro Suc.hyps(1)) auto
  show ?case
  proof (cases "dmatch name (dent s dp lo)")
    case True
    then have "find_from (\<lambda>i. dmatch name (dent s dp i)) lo ?N = Some lo" using lo by (subst find_from.simps) simp
    then show ?thesis using True r t nc by (auto simp: l dmatch_def)
  next
    case False
    then have f: "find_from (\<lambda>i. dmatch name (dent s dp i)) lo ?N = find_from (\<lambda>i. dmatch name (dent s dp i)) (Suc lo) ?N"
      using lo by (subst find_from.simps) simp
    have step: "dirlookup_loop dp name (map (\<lambda>i. 16 * i) [lo..<?N]) s = dirlookup_loop dp name (map (\<lambda>i. 16 * i) [Suc lo..<?N]) t"
      using False r nc by (auto simp: l dmatch_def)
    show ?thesis
      using IH read_only_trans [OF t] unfolding f step v(2,3) by (auto split: option.splits elim!: wp_mono)
  qed
qed

lemma dirlookup_spec:
  assumes "bio_inv s" "roomy 1 s" "dir_ok s dp"
  shows "case find_from (\<lambda>i. dmatch name (dent s dp i)) 0 (dcount s dp) of
      None \<Rightarrow> wp (dirlookup dp name s) (\<lambda>(r, s'). r = None \<and> read_only s s')
    | Some i \<Rightarrow> \<exists>t. read_only s t \<and> dirlookup dp name s =
        rbind (iget (ucast (de_inum (dent s dp i))) t) (\<lambda>(ip, s). Ok (Some (ip, 16 * i), s))"
  using dirlookup_loop_spec [OF assms le0] assms(3) unfolding dirlookup_def dir_offs_dcount [OF assms(3)]
  by (simp add: dir_ok_def)

lemma iget_postD:
  assumes "iget_post n s ip s'"
  shows "blk s' = blk s" "refs s' = refs s" "i_inum (icache s' ip) = n" "icache_inv (icache s')" "ip < NINODE"
    "iref (icache s') = (iref (icache s))(n := iref (icache s) n + 1)" "tx_inv s' = tx_inv s" "fs_frame s s'"
    "\<And>j. j \<noteq> ip \<Longrightarrow> icache s' j = icache s j" "room s' = room s"
proof -
  from assms obtain e where e: "s' = s\<lparr>icache := (icache s)(ip := e)\<rparr>" "i_inum e = n" "icache_inv (icache s')" "ip < NINODE"
    "iref (icache s') = (iref (icache s))(n := iref (icache s) n + 1)"
    unfolding iget_post_def by (elim exE conjE) (rule that; assumption)
  show "icache_inv (icache s')" "ip < NINODE" "iref (icache s') = (iref (icache s))(n := iref (icache s) n + 1)" by fact+
  show "blk s' = blk s" "refs s' = refs s" "i_inum (icache s' ip) = n" "tx_inv s' = tx_inv s" "fs_frame s s'"
    "\<And>j. j \<noteq> ip \<Longrightarrow> icache s' j = icache s j" "room s' = room s"
    using e(2) unfolding e(1) by simp_all
qed

text \<open>
  Directory lookup: in a well-formed directory \<open>dirlookup\<close> returns the inode and the offset of the first
  entry in use with the name, comparing at most \<open>DIRSIZ\<close> bytes, with one more reference to that
  inode; it returns null exactly when there is no such entry, and changes nothing then.
\<close>

theorem dirlookup_correct:
  assumes "bio_inv s" "roomy 1 s" "dir_ok s dp" "icache_inv (icache s)" "\<exists>i < NINODE. i_ref (icache s i) = 0"
  shows "case find_from (\<lambda>i. dmatch name (dent s dp i)) 0 (dcount s dp) of
      None \<Rightarrow> \<exists>s'. dirlookup dp name s = Ok (None, s') \<and> blk s' = blk s \<and> icache s' = icache s
    | Some i \<Rightarrow> \<exists>ip s'. dirlookup dp name s = Ok (Some (ip, 16 * i), s') \<and> blk s' = blk s \<and>
        i_inum (icache s' ip) = ucast (de_inum (dent s dp i)) \<and> icache_inv (icache s') \<and>
        iref (icache s') = (iref (icache s))(ucast (de_inum (dent s dp i)) := iref (icache s) (ucast (de_inum (dent s dp i))) + 1)"
proof (cases "find_from (\<lambda>i. dmatch name (dent s dp i)) 0 (dcount s dp)")
  case None
  then obtain s' where "dirlookup dp name s = Ok (None, s')" "read_only s s'"
    using dirlookup_spec [OF assms(1-3), of name] by (auto simp: wp_iff)
  then show ?thesis using None read_onlyD(2) [of s s'] bio_frame_fs(1) [OF read_onlyD(4), of s s'] by simp
next
  case (Some i)
  let ?n = "ucast (de_inum (dent s dp i)) :: uint"
  obtain t where t: "read_only s t" "dirlookup dp name s = rbind (iget ?n t) (\<lambda>(ip, s). Ok (Some (ip, 16 * i), s))"
    using dirlookup_spec [OF assms(1-3), of name] Some by auto
  have ic: "icache t = icache s" using bio_frame_fs(1) [OF read_onlyD(4) [OF t(1)]] .
  have "wp (iget ?n t) (\<lambda>(ip, s'). iget_post ?n t ip s')"
    using assms(4,5) by (intro iget_spec) (auto simp: ic)
  then obtain ip s' where g: "iget ?n t = Ok (ip, s')" "iget_post ?n t ip s'" by (auto simp: wp_iff)
  then have p: "blk s' = blk t" "i_inum (icache s' ip) = ?n" "icache_inv (icache s')"
    "iref (icache s') = (iref (icache s))(?n := iref (icache s) ?n + 1)"
    using iget_postD [OF g(2)] by (simp_all add: ic)
  have "dirlookup dp name s = Ok (Some (ip, 16 * i), s')" using t(2) g(1) by simp
  then show ?thesis using Some p read_onlyD(2) [OF t(1)] by auto
qed

section \<open>Adding entries\<close>

lemma writei_full:
  assumes "tx_inv s" "roomy 1 s" "writable s ip N" "off + n \<le> unat (i_size (icache s ip))"
    "unat (i_size (icache s ip)) \<le> N * BSIZE" "N \<le> MAXFILE" "n \<le> length src" "rounds n off \<le> room s"
  shows "wp (writei ip src (of_nat off) (of_nat n) s) (\<lambda>(r, s'). r = int n \<and> write_effect ip src n off N s s')"
proof -
  let ?sz = "i_size (icache s ip)"
  have bound: "unat ?sz \<le> 8394240" using assms(5,6) by (simp add: MAXFILE_val BSIZE_def)
  then have u: "unat (of_nat off :: uint) = off" "unat (of_nat n :: uint) = n" "unat (of_nat off + of_nat n :: uint) = off + n"
    using assms(4) unat_of_nat_small [of "off + n"] by (simp_all add: unat_of_nat_small)
  have c: "\<not> (of_nat off > ?sz \<or> of_nat off + of_nat n < (of_nat off :: uint))" "\<not> of_nat off + of_nat n > (of_nat (MAXFILE * BSIZE) :: uint)"
    "\<not> of_nat off + of_nat n > ?sz"
    using u assms(4) bound by (auto simp: word_less_nat_alt MAXFILE_val BSIZE_def)
  have si: "sint (of_nat n :: uint) = int n" using sint_small [of "int n"] assms(4) bound by simp
  have "wp (writei_loop ip src n off s) (write_effect ip src n off N s)"
    using assms by (intro writei_loop_spec) auto
  then obtain s' where s': "writei_loop ip src n off s = Ok s'" "write_effect ip src n off N s s'" by (auto simp: wp_iff)
  have "icache s' = icache s" using s'(2) tx_frame_fs(1) [of s s'] by (simp add: write_effect_def)
  then have "writei ip src (of_nat off) (of_nat n) s = Ok (int n, s')" using c s'(1) si u by (simp add: writei_def Let_def)
  then show ?thesis using s'(2) by simp
qed

lemma empty_slot_spec:
  assumes "bio_inv s" "roomy 1 s" "dir_ok s dp" "find_from (\<lambda>i. de_inum (dent s dp i) = 0) lo (dcount s dp) = Some j"
  shows "wp (empty_slot dp past (map (\<lambda>i. 16 * i) [lo..<dcount s dp]) s) (\<lambda>(off, s'). off = 16 * j \<and> read_only s s')"
  using assms
proof (induction "dcount s dp - lo" arbitrary: lo s)
  case 0
  then show ?case by (simp add: find_from.simps)
next
  case (Suc k)
  let ?N = "dcount s dp"
  have lo: "lo < ?N" using Suc.hyps(2) by simp
  then have l: "[lo..<?N] = lo # [Suc lo..<?N]" by (rule upt_conv_Cons)
  obtain t where r: "readi dp (of_nat (16 * lo)) 16 s = Ok (16, dent s dp lo, t)" and t: "read_only s t"
    using read_dent [OF Suc.prems(1-3) lo] by (auto simp: wp_iff)
  note v = dir_ok_view [OF t] and ro = read_onlyD [OF t]
  show ?case
  proof (cases "de_inum (dent s dp lo) = 0")
    case True
    then have "j = lo" using Suc.prems(4) lo by (subst (asm) find_from.simps) simp
    then show ?thesis using True r t by (simp add: l)
  next
    case False
    then have f: "find_from (\<lambda>i. de_inum (dent s dp i) = 0) (Suc lo) ?N = Some j"
      using lo Suc.prems(4) by (subst (asm) find_from.simps) simp
    have "wp (empty_slot dp past (map (\<lambda>i. 16 * i) [Suc lo..<dcount t dp]) t) (\<lambda>(off, s'). off = 16 * j \<and> read_only t s')"
      using Suc.hyps(2) Suc.prems v ro f by (intro Suc.hyps(1)) auto
    then show ?thesis
      using False r v(3) read_only_trans [OF t] by (auto simp: l elim!: wp_mono)
  qed
qed

lemma find_from_cong: "(\<And>i. i < hi \<Longrightarrow> P i = Q i) \<Longrightarrow> find_from P lo hi = find_from Q lo hi"
proof (induction P lo hi rule: find_from.induct)
  case (1 P lo hi)
  then show ?case by (subst (1 2) find_from.simps) auto
qed

lemma make_de_fields:
  "length (make_de name inum) = 16" "de_inum (make_de name inum) = ucast inum"
  "cname DIRSIZ (de_name (make_de name inum)) = cname DIRSIZ name"
  using cname_strncpy [of DIRSIZ name] by (simp_all add: make_de_def DIRSIZ_def de_inum_def de_name_def get16_append)

text \<open>What writing one entry does to the entries.\<close>

lemma write_dent:
  assumes w: "write_effect dp de 16 (16 * j) N s s'" and l: "length de = 16" and i: "i < dcount s dp" "j < dcount s dp"
    and sz: "unat (i_size (icache s dp)) \<le> N * BSIZE"
  shows "dent s' dp i = (if i = j then de else dent s dp i)"
proof -
  have in_file: "pos div BSIZE < N" if "pos < 16 * i + 16" for pos
  proof -
    have "16 * i + 16 \<le> unat (i_size (icache s dp))" using i(1) by (simp add: less_eq_div_iff_mult_less_eq [symmetric] Suc_le_eq)
    then show ?thesis using that sz by (intro less_mult_imp_div_less) simp
  qed
  have b: "fbyte s' dp pos = (if 16 * j \<le> pos \<and> pos < 16 * j + 16 then de ! (pos - 16 * j) else fbyte s dp pos)"
    if "pos < 16 * i + 16" for pos
    using w in_file [OF that] by (simp add: write_effect_def)
  show ?thesis
  proof (cases "i = j")
    case True
    show ?thesis using True b l by (auto simp: dent_def intro!: nth_equalityI)
  next
    case False
    then show ?thesis using b by (auto simp: dent_def)
  qed
qed

text \<open>The run of \<open>dirlink\<close> that fills entry \<open>j\<close>.\<close>

lemma dirlink_run:
  assumes "tx_inv s" "roomy 1 s" "0 < room s" "dir_ok s dp" "writable s dp N" "unat (i_size (icache s dp)) \<le> N * BSIZE" "N \<le> MAXFILE"
    "find_from (\<lambda>i. dmatch name (dent s dp i)) 0 (dcount s dp) = None"
    "find_from (\<lambda>i. de_inum (dent s dp i) = 0) 0 (dcount s dp) = Some j"
  obtains s' where "dirlink dp name inum s = Ok (0, s')" "tx_inv s'" "icache s' = icache s"
    "\<And>i. i < dcount s dp \<Longrightarrow> dent s' dp i = (if i = j then make_de name inum else dent s dp i)"
proof -
  let ?D = "dcount s dp"
  note binv = tx_inv_bio [OF assms(1)]
  obtain t where t: "dirlookup dp name s = Ok (None, t)" "read_only s t"
    using dirlookup_spec [OF binv assms(2,4), of name] assms(8) by (auto simp: wp_iff)
  note v = dir_ok_view [OF t(2)] and rt = read_onlyD [OF t(2)]
  have ict: "icache t = icache s" by (rule bio_frame_fs(1) [OF rt(4)])
  have "wp (empty_slot dp (16 * ((unat (i_size (icache t dp)) + 15) div 16)) (map (\<lambda>i. 16 * i) [0..<dcount t dp]) t)
      (\<lambda>(off, s'). off = 16 * j \<and> read_only t s')"
    using rt assms(2,4,9) v by (intro empty_slot_spec) auto
  then obtain u where u: "empty_slot dp (16 * ((unat (i_size (icache t dp)) + 15) div 16)) (dir_offs (unat (i_size (icache t dp)))) t = Ok (16 * j, u)"
    "read_only t u" using v(1) assms(4) dir_offs_dcount [of t dp] by (auto simp: wp_iff)
  have ru: "read_only s u" by (rule read_only_trans [OF t(2) u(2)])
  note vu = dir_ok_view [OF ru] and ro = read_onlyD [OF ru]
  have icu: "icache u = icache s" by (rule bio_frame_fs(1) [OF ro(4)])
  have j: "j < ?D" using find_from_SomeD(2) [OF assms(9)] .
  have size: "16 * j + 16 \<le> unat (i_size (icache s dp))" using j by (simp add: less_eq_div_iff_mult_less_eq [symmetric] Suc_le_eq)
  have "(16 * j) mod 512 = 16 * (j mod 32)" using mult_mod_right [of 16 j 32] by simp
  then have "(16 * j) mod 512 + 16 \<le> 512" using mod_less_divisor [of 32 j] by linarith
  then have "((16 * j) mod 512 + 16 + 511) div 512 = 1" by (intro div_nat_eqI) auto
  then have rd: "rounds 16 (16 * j) = 1" by (simp add: rounds_def BSIZE_def)
  have "wp (writei dp (make_de name inum) (of_nat (16 * j)) (of_nat 16) u)
      (\<lambda>(r, s'). r = int 16 \<and> write_effect dp (make_de name inum) 16 (16 * j) N u s')"
    using tx_inv_frame [OF ro(4,1) assms(1)] ro(5) assms rd make_de_fields(1) [of name inum] size icu writable_read_only [OF ru]
    by (intro writei_full) auto
  then obtain s' where s': "writei dp (make_de name inum) (of_nat (16 * j)) 16 u = Ok (16, s')"
    "write_effect dp (make_de name inum) 16 (16 * j) N u s'" by (auto simp: wp_iff)
  have dl: "dirlink dp name inum s = Ok (0, s')"
    using t(1) u(1) s'(1) by (simp add: dirlink_def Let_def)
  have "icache s' = icache s" using s'(2) icu tx_frame_fs(1) [of u s'] by (simp add: write_effect_def)
  moreover have "dent s' dp i = (if i = j then make_de name inum else dent s dp i)" if "i < ?D" for i
    using write_dent [OF s'(2) make_de_fields(1), of i] that j vu icu assms(6) by simp
  moreover have "tx_inv s'" using s'(2) by (simp add: write_effect_def)
  ultimately show ?thesis using dl that by blast
qed

text \<open>
  C20. Adding a directory entry: when the name is not in the directory and entry \<open>j\<close> is the first unused one,
  \<open>dirlink\<close> returns 0, fills entry \<open>j\<close> and no other, and from then on the name is found there with the
  new inode number; what any other name finds does not change.
\<close>

theorem dirlink_adds:
  assumes "tx_inv s" "roomy 1 s" "0 < room s" "dir_ok s dp" "writable s dp N" "unat (i_size (icache s dp)) \<le> N * BSIZE" "N \<le> MAXFILE"
    "find_from (\<lambda>i. dmatch name (dent s dp i)) 0 (dcount s dp) = None"
    "find_from (\<lambda>i. de_inum (dent s dp i) = 0) 0 (dcount s dp) = Some j" "(ucast inum :: ushort) \<noteq> 0"
  shows "\<exists>s'. dirlink dp name inum s = Ok (0, s') \<and> tx_inv s' \<and> dcount s' dp = dcount s dp \<and>
    (\<forall>i < dcount s dp. dent s' dp i = (if i = j then make_de name inum else dent s dp i)) \<and>
    find_from (\<lambda>i. dmatch name (dent s' dp i)) 0 (dcount s' dp) = Some j \<and> de_inum (dent s' dp j) = ucast inum \<and>
    (\<forall>other. cname DIRSIZ other \<noteq> cname DIRSIZ name \<longrightarrow>
       find_from (\<lambda>i. dmatch other (dent s' dp i)) 0 (dcount s' dp) = find_from (\<lambda>i. dmatch other (dent s dp i)) 0 (dcount s dp))"
proof -
  let ?D = "dcount s dp"
  obtain s' where dl: "dirlink dp name inum s = Ok (0, s')" "tx_inv s'" and ic: "icache s' = icache s" and
    de: "\<And>i. i < ?D \<Longrightarrow> dent s' dp i = (if i = j then make_de name inum else dent s dp i)"
    using dirlink_run [OF assms(1-9)] by metis
  have j: "j < ?D" using find_from_SomeD(2) [OF assms(9)] .
  have nomatch: "\<not> dmatch name (dent s dp i)" if "i < ?D" for i using assms(8) that by (simp add: find_from_None)
  have "dmatch name (make_de name inum)" using make_de_fields [of name inum] assms(10) by (simp add: dmatch_def)
  then have found: "find_from (\<lambda>i. dmatch name (dent s' dp i)) 0 ?D = Some j"
    using j de nomatch by (auto simp: find_from_Some)
  have free: "de_inum (dent s dp j) = 0" using find_from_SomeD(3) [OF assms(9)] .
  have "find_from (\<lambda>i. dmatch other (dent s' dp i)) 0 ?D = find_from (\<lambda>i. dmatch other (dent s dp i)) 0 ?D"
    if "cname DIRSIZ other \<noteq> cname DIRSIZ name" for other
  proof (rule find_from_cong)
    fix i assume "i < ?D"
    then show "dmatch other (dent s' dp i) = dmatch other (dent s dp i)"
      using de [of i] free that make_de_fields(3) [of name inum] by (auto simp: dmatch_def)
  qed
  then show ?thesis using dl ic de j found make_de_fields(2) by auto
qed

text \<open>A directory of two unused entries in block 170.\<close>

definition demo_dir :: fs_state where
  "demo_dir = upd_inode 0 (\<lambda>i. i\<lparr>i_inum := 3, i_ref := 1, i_valid := True, i_type := 1, i_nlink := 1, i_size := 32,
     i_addrs := [170] @ replicate 11 0\<rparr>) demo_fs"

lemma demo_dir_simps:
  "tx_inv demo_dir" "bio_inv demo_dir" "roomy 1 demo_dir" "0 < room demo_dir" "i_size (icache demo_dir 0) = 32" "i_type (icache demo_dir 0) = 1"
  "i_addrs (icache demo_dir 0) = [170] @ replicate 11 0" "log_area demo_dir = log_area demo_fs" "blk demo_dir = blk demo_fs"
  using demo_fs_ok roomy_cong [of demo_dir demo_fs 1] tx_inv_bio [of demo_dir]
  by (simp_all add: demo_dir_def demo_fs_simps room_def LOGSIZE_def)

lemma demo_dir_mapped: "fmap demo_dir 0 0 = 170" "mapped demo_dir 0 0"
  by (simp_all add: fmap_def mapped_def demo_dir_simps MAXFILE_val)

lemma demo_dir_dent:
  assumes "i < 2"
  shows "dent demo_dir 0 i = replicate 16 0"
proof -
  have "fbyte demo_dir 0 pos = 0" if "pos < 512" for pos
    using that demo_dir_mapped by (simp add: fbyte_def demo_dir_simps demo_fs_bio BSIZE_def)
  then show ?thesis using assms by (intro nth_equalityI) (auto simp: dent_def)
qed

lemma demo_dir_ok: "dir_ok demo_dir 0"
  using demo_dir_mapped by (auto simp: dir_ok_def demo_dir_simps T_DIR_def BSIZE_def)

lemma demo_dir_writable: "writable demo_dir 0 1"
proof -
  have "170 \<notin> log_area demo_dir"
    using log_area_unat [of demo_fs 170] by (simp add: demo_dir_simps demo_fs_simps LOGSIZE_def)
  then show ?thesis using demo_dir_mapped by (simp add: writable_def map_blocks_def MAXFILE_val inj_on_def)
qed

lemma demo_dir_find:
  "find_from (\<lambda>i. dmatch [97] (dent demo_dir 0 i)) 0 (dcount demo_dir 0) = None"
  "find_from (\<lambda>i. de_inum (dent demo_dir 0 i) = 0) 0 (dcount demo_dir 0) = Some 0"
  using demo_dir_dent by (auto simp: find_from_None find_from_Some demo_dir_simps dmatch_def de_inum_def get16_def be16_def)

theorem dirlookup_correct_witness:
  "\<exists>s'. dirlookup 0 [97] demo_dir = Ok (None, s') \<and> blk s' = blk demo_dir \<and> icache s' = icache demo_dir"
proof -
  have "icache_inv (icache demo_dir)" "\<exists>i < NINODE. i_ref (icache demo_dir i) = 0"
    by (auto simp: demo_dir_def demo_fs_simps demo_inode_def icache_inv_def NINODE_def intro!: exI [of _ 1])
  from dirlookup_correct [OF demo_dir_simps(2,3) demo_dir_ok this, of "[97]"] demo_dir_find(1) show ?thesis by simp
qed

theorem dirlink_adds_witness:
  "\<exists>s'. dirlink 0 [97] 7 demo_dir = Ok (0, s') \<and> find_from (\<lambda>i. dmatch [97] (dent s' 0 i)) 0 (dcount s' 0) = Some 0 \<and>
     de_inum (dent s' 0 0) = 7"
  using dirlink_adds [OF demo_dir_simps(1,3,4) demo_dir_ok demo_dir_writable _ _ demo_dir_find, of 7]
  by (auto simp: demo_dir_simps BSIZE_def MAXFILE_val)

end
