(* ===== verification/Namei.thy ===== *)
theory Namei
  imports Dir
begin

text \<open>
  Paths through the tree of directories (\<open>namex\<close>, \<open>namei\<close> and \<open>nameiparent\<close> of \<open>kern/fs.c\<close>). The reference is a walk over the directories as they lie on
  the disk, without a cache; shown is that the code, with its inode cache, reference counts and buffers, ends at the inode the walk ends at, holding one
  reference to it and to no other inode on the way.
\<close>

section \<open>The tree on the disk\<close>

text \<open>Inode \<open>n\<close> as it lies in its block, and the file system seen with that inode in the cache.\<close>

definition dino :: "'a fs_state_scheme \<Rightarrow> uint \<Rightarrow> inode" where
  "dino s n = load_dinode (blk s (IBLOCK n (fsb s))) (ioff n)
     \<lparr>i_inum = n, i_ref = 1, i_valid = True, i_type = 0, i_major = 0, i_minor = 0, i_nlink = 0, i_size = 0, i_mtime = 0, i_addrs = []\<rparr>"

definition at_inode :: "'a fs_state_scheme \<Rightarrow> uint \<Rightarrow> 'a fs_state_scheme" where
  "at_inode s n = s\<lparr>icache := (\<lambda>_. dino s n)\<rparr>"

abbreviation is_dir :: "'a fs_state_scheme \<Rightarrow> uint \<Rightarrow> bool" where
  "is_dir s n \<equiv> i_type (dino s n) = T_DIR"

text \<open>The number in the first entry of directory \<open>n\<close> that is in use for the name \<open>key\<close>.\<close>

definition dmatches :: "bytes \<Rightarrow> bytes \<Rightarrow> bool" where
  "dmatches key de \<longleftrightarrow> de_inum de \<noteq> 0 \<and> key = cname DIRSIZ (de_name de)"

definition dir_entry :: "'a fs_state_scheme \<Rightarrow> uint \<Rightarrow> bytes \<Rightarrow> uint option" where
  "dir_entry s n key = map_option (\<lambda>i. ucast (de_inum (dent (at_inode s n) 0 i)))
     (find_from (\<lambda>i. dmatches key (dent (at_inode s n) 0 i)) 0 (dcount (at_inode s n) 0))"

fun resolve :: "'a fs_state_scheme \<Rightarrow> uint \<Rightarrow> bytes list \<Rightarrow> uint option" where
  "resolve s n [] = Some n"
| "resolve s n (e # es) =
     (if is_dir s n then (case dir_entry s n (take DIRSIZ e) of None \<Rightarrow> None | Some m \<Rightarrow> resolve s m es) else None)"

fun resolve_parent :: "'a fs_state_scheme \<Rightarrow> uint \<Rightarrow> bytes list \<Rightarrow> (uint \<times> bytes) option" where
  "resolve_parent s n [] = None"
| "resolve_parent s n (e # es) =
     (if is_dir s n then
        (if es = [] then Some (n, take DIRSIZ e)
         else (case dir_entry s n (take DIRSIZ e) of None \<Rightarrow> None | Some m \<Rightarrow> resolve_parent s m es))
      else None)"

text \<open>A set of inodes in good order, from which the entries of directories do not lead away.\<close>

definition closed_tree :: "'a fs_state_scheme \<Rightarrow> uint set \<Rightarrow> bool" where
  "closed_tree s G \<longleftrightarrow> (\<forall>n \<in> G. IBLOCK n (fsb s) \<noteq> 0 \<and> i_type (dino s n) \<noteq> 0 \<and> i_nlink (dino s n) \<noteq> 0 \<and>
     (is_dir s n \<longrightarrow> dir_ok (at_inode s n) 0 \<and> (\<forall>key m. dir_entry s n key = Some m \<longrightarrow> m \<in> G)))"

section \<open>The cache on the way\<close>

text \<open>Entries that have been read in agree with the disk.\<close>

definition cache_good :: "'a fs_state_scheme \<Rightarrow> 'a fs_state_scheme \<Rightarrow> bool" where
  "cache_good s t \<longleftrightarrow> (\<forall>i < NINODE. i_ref (icache t i) > 0 \<and> i_valid (icache t i) \<longrightarrow> same_disk_part (icache t i) (dino s (i_inum (icache t i))))"

text \<open>From \<open>s\<close> to \<open>t\<close> only caches changed, and no reference was left behind; or exactly one, to inode \<open>n\<close> in entry \<open>ip\<close>.\<close>

definition same_fs :: "'a fs_state_scheme \<Rightarrow> 'a fs_state_scheme \<Rightarrow> bool" where
  "same_fs s t \<longleftrightarrow> bio_inv t \<and> blk t = blk s \<and> refs t = refs s \<and> fs_frame s t \<and> icache_inv (icache t) \<and> cache_good s t"

definition released :: "'a fs_state_scheme \<Rightarrow> 'a fs_state_scheme \<Rightarrow> bool" where
  "released s t \<longleftrightarrow> same_fs s t \<and> iref (icache t) = iref (icache s)"

definition holding :: "'a fs_state_scheme \<Rightarrow> uint \<Rightarrow> nat \<Rightarrow> 'a fs_state_scheme \<Rightarrow> bool" where
  "holding s n ip t \<longleftrightarrow> same_fs s t \<and> iref (icache t) = (iref (icache s))(n := iref (icache s) n + 1) \<and>
     ip < NINODE \<and> i_ref (icache t ip) > 0 \<and> i_inum (icache t ip) = n"

text \<open>How many inodes are in the cache, and that an entry is left over.\<close>

lemma free_entry:
  assumes inv: "icache_inv ic" and c: "card {n. iref ic n > 0} < NINODE"
  shows "\<exists>i < NINODE. i_ref (ic i) = 0"
proof (rule ccontr)
  assume "\<not> (\<exists>i < NINODE. i_ref (ic i) = 0)"
  then have pos: "i_ref (ic i) > 0" if "i < NINODE" for i using that inv by (auto simp: icache_inv_def order_le_less)
  have slot: "islot ic (i_inum (ic i)) = Some i" if "i < NINODE" for i using islot_eq [OF inv] that pos by simp
  have "inj_on (\<lambda>i. i_inum (ic i)) {..<NINODE}" using slot by (intro inj_onI) (metis lessThan_iff option.inject)
  then have "card ((\<lambda>i. i_inum (ic i)) ` {..<NINODE}) = NINODE" by (simp add: card_image)
  moreover have "(\<lambda>i. i_inum (ic i)) ` {..<NINODE} \<subseteq> {n. iref ic n > 0}" using slot pos by (auto simp: iref_def)
  moreover have "finite {n :: uint. iref ic n > 0}" by simp
  ultimately show False using c card_mono by (metis not_le)
qed

lemma card_refs: "card {m. ((iref ic)(n := k)) m > 0} \<le> Suc (card {m :: uint. iref ic m > 0})"
proof -
  have "{m. ((iref ic)(n := k)) m > 0} \<subseteq> insert n {m. iref ic m > 0}" by (auto split: if_splits)
  then have "card {m. ((iref ic)(n := k)) m > 0} \<le> card (insert n {m. iref ic m > 0})" by (intro card_mono) simp_all
  also have "\<dots> \<le> Suc (card {m. iref ic m > 0})" by (simp add: card_insert_if)
  finally show ?thesis .
qed

text \<open>A directory is what its disk part and the blocks make it.\<close>

lemma dir_view:
  assumes "same_disk_part (icache t ip) (dino s n)" "blk t = blk s"
  shows "dir_ok t ip = dir_ok (at_inode s n) 0" "dent t ip = dent (at_inode s n) 0" "dcount t ip = dcount (at_inode s n) 0"
proof -
  have b: "blk (at_inode s n) = blk s" "icache (at_inode s n) 0 = dino s n" by (simp_all add: at_inode_def)
  have d: "i_addrs (icache t ip) = i_addrs (dino s n)" "i_size (icache t ip) = i_size (dino s n)" "i_type (icache t ip) = i_type (dino s n)"
    using assms(1) by (simp_all add: same_disk_part_def)
  have m: "fmid t ip = fmid (at_inode s n) 0" by (simp add: fmid_def b d assms(2) fun_eq_iff)
  then have f: "fmap t ip = fmap (at_inode s n) 0" "mapped t ip = mapped (at_inode s n) 0"
    by (simp_all add: fmap_def mapped_def b d assms(2) fun_eq_iff)
  then show "dent t ip = dent (at_inode s n) 0" "dir_ok t ip = dir_ok (at_inode s n) 0" "dcount t ip = dcount (at_inode s n) 0"
    by (simp_all add: dent_def fbyte_def dir_ok_def b d assms(2) fun_eq_iff)
qed

lemma dmatch_key: "cname DIRSIZ name = key \<Longrightarrow> dmatch name = dmatches key"
  by (auto simp: dmatch_def dmatches_def fun_eq_iff)

section \<open>One step\<close>

lemma same_fsD:
  assumes "same_fs s t"
  shows "bio_inv t" "blk t = blk s" "roomy k t = roomy k s" "fsb t = fsb s" "icache_inv (icache t)" "dino t = dino s"
    "i < NINODE \<Longrightarrow> i_ref (icache t i) > 0 \<Longrightarrow> i_valid (icache t i) \<Longrightarrow> same_disk_part (icache t i) (dino s (i_inum (icache t i)))"
  using assms roomy_cong [of t s] fs_frame_same(1) [of s t] by (auto simp: same_fs_def cache_good_def dino_def fun_eq_iff)

text \<open>Changing one entry of the cache.\<close>

lemma same_fs_upd:
  assumes "same_fs s t" "read_only t u" "icache_inv ((icache t)(ip := e))"
    "ip < NINODE \<Longrightarrow> i_ref e > 0 \<Longrightarrow> i_valid e \<Longrightarrow> same_disk_part e (dino s (i_inum e))"
  shows "same_fs s (u\<lparr>icache := (icache t)(ip := e)\<rparr>)"
proof -
  have "fs_frame t (u\<lparr>icache := (icache t)(ip := e)\<rparr>)"
    using fs_frame_inode [OF tx_fs_frame [OF bio_tx_frame [OF read_onlyD(4) [OF assms(2)]]], of ip "\<lambda>_. e"]
      bio_frame_fs(1) [OF read_onlyD(4) [OF assms(2)]] by (simp add: upd_inode_def)
  moreover have "bio_inv (u\<lparr>icache := (icache t)(ip := e)\<rparr>)" using read_onlyD(1) [OF assms(2)] by (simp add: bio_inv_def)
  ultimately show ?thesis
    using assms read_onlyD(1-3) [OF assms(2)] fs_frame_trans [of s t] unfolding same_fs_def cache_good_def by auto
qed

lemma same_fs_read: "same_fs s t \<Longrightarrow> read_only t u \<Longrightarrow> same_fs s u \<and> icache u = icache t"
  using bio_frame_fs(1) [OF read_onlyD(4), of t u] read_onlyD(1-3) [of t u] tx_fs_frame [OF bio_tx_frame [OF read_onlyD(4)], of t u] fs_frame_trans [of s t u]
  by (auto simp: same_fs_def cache_good_def)

lemma lock_entry:
  assumes G: "closed_tree s G" "n \<in> G" and r: "roomy 1 s" and h: "holding s n ip t"
  shows "wp (ilock (Some ip) t) (\<lambda>u. holding s n ip u \<and> same_disk_part (icache u ip) (dino s n))"
proof -
  have t: "same_fs s t" "iref (icache t) = (iref (icache s))(n := iref (icache s) n + 1)" "ip < NINODE" "i_ref (icache t ip) > 0" "i_inum (icache t ip) = n"
    using h by (simp_all add: holding_def)
  note D = same_fsD [OF t(1)]
  have g: "IBLOCK n (fsb s) \<noteq> 0" "i_type (dino s n) \<noteq> 0" using G by (auto simp: closed_tree_def)
  let ?l = "load_dinode (blk t (IBLOCK n (fsb t))) (ioff n) (icache t ip)"
  let ?e = "if i_valid (icache t ip) then icache t ip else ?l\<lparr>i_valid := True\<rparr>"
  have ld: "same_disk_part ?l (dino s n)" using D(2,4) by (simp add: dino_def load_dinode_def same_disk_part_def)
  have e: "i_ref ?e = i_ref (icache t ip)" "i_inum ?e = n" using t(5) by (simp_all add: load_dinode_def)
  have de: "same_disk_part ?e (dino s n)" using ld D(7) [OF t(3,4)] t(5) by (auto simp: same_disk_part_def)
  have "icache_inv ((icache t)(ip := ?e)) \<and> iref ((icache t)(ip := ?e)) = (iref (icache t))(n := i_ref ?e)"
    using t e by (intro iref_upd [OF D(5)]) auto
  moreover have "iref (icache t) n = i_ref (icache t ip)" using islot_eq [OF D(5), of n ip] t(3-5) by (simp add: iref_def)
  ultimately have c: "icache_inv ((icache t)(ip := ?e))" "iref ((icache t)(ip := ?e)) = iref (icache t)" using e(1) by auto
  have "wp (ilock (Some ip) t) (\<lambda>s'. blk s' = blk t \<and> refs s' = refs t \<and>
     (\<exists>u. bio_inv u \<and> bio_frame t u \<and> blk u = blk t \<and> refs u = refs t \<and> s' = u\<lparr>icache := (icache t)(ip := ?e)\<rparr>))"
  proof (rule ilock_spec [of t "IBLOCK n (fsb t)" ip, unfolded t(5)])
    show "i_type ?l \<noteq> 0" using ld g(2) by (simp add: same_disk_part_def)
  qed (use D(1,3,4) r g(1) t(4) in simp_all)
  then show ?thesis
  proof (rule wp_mono)
    fix s' assume "blk s' = blk t \<and> refs s' = refs t \<and> (\<exists>u. bio_inv u \<and> bio_frame t u \<and> blk u = blk t \<and> refs u = refs t \<and> s' = u\<lparr>icache := (icache t)(ip := ?e)\<rparr>)"
    then obtain u where u: "read_only t u" "s' = u\<lparr>icache := (icache t)(ip := ?e)\<rparr>" by (auto simp: read_only_def)
    have "same_fs s s'" unfolding u(2) by (rule same_fs_upd [OF t(1) u(1) c(1)]) (use de e(2) in simp)
    then show "holding s n ip s' \<and> same_disk_part (icache s' ip) (dino s n)"
      using t c(2) e de unfolding holding_def u(2) by simp
  qed
qed

lemma put_entry:
  assumes G: "closed_tree s G" "n \<in> G" and t: "same_fs s t" "ip < NINODE" "i_ref (icache t ip) > 0" "i_inum (icache t ip) = n"
  shows "wp (iput ip t) (\<lambda>u. same_fs s u \<and> iref (icache u) = (iref (icache t))(n := iref (icache t) n - 1) \<and>
    icache u = (icache t)(ip := (icache t ip)\<lparr>i_ref := i_ref (icache t ip) - 1\<rparr>))"
    "wp (iunlockput ip t) (\<lambda>u. same_fs s u \<and> iref (icache u) = (iref (icache t))(n := iref (icache t) n - 1) \<and>
    icache u = (icache t)(ip := (icache t ip)\<lparr>i_ref := i_ref (icache t ip) - 1\<rparr>))"
proof -
  note D = same_fsD [OF t(1)]
  have "i_nlink (dino s n) \<noteq> 0" using G by (auto simp: closed_tree_def)
  then have keep: "\<not> (i_valid (icache t ip) \<and> i_nlink (icache t ip) = 0 \<and> i_ref (icache t ip) = 1)"
    using D(7) [OF t(2,3)] t(4) by (auto simp: same_disk_part_def)
  let ?u = "upd_inode ip (\<lambda>q. q\<lparr>i_ref := i_ref q - 1\<rparr>) t"
  have p: "iput ip t = Ok ?u" "icache_inv (icache ?u)" "iref (icache ?u) = (iref (icache t))(n := iref (icache t) n - 1)"
    using iput_drop [OF D(5) t(2,3) keep] t(4) by auto
  have "same_fs s (t\<lparr>icache := (icache t)(ip := (icache t ip)\<lparr>i_ref := i_ref (icache t ip) - 1\<rparr>)\<rparr>)"
    by (rule same_fs_upd [OF t(1) read_only_refl [OF D(1)]])
      (use p(2) D(7) [OF t(2,3)] in \<open>auto simp: upd_inode_def same_disk_part_def\<close>)
  then have q: "same_fs s ?u" by (simp add: upd_inode_def)
  show "wp (iput ip t) (\<lambda>u. same_fs s u \<and> iref (icache u) = (iref (icache t))(n := iref (icache t) n - 1) \<and>
    icache u = (icache t)(ip := (icache t ip)\<lparr>i_ref := i_ref (icache t ip) - 1\<rparr>))"
    using p(1,3) q by simp
  then show "wp (iunlockput ip t) (\<lambda>u. same_fs s u \<and> iref (icache u) = (iref (icache t))(n := iref (icache t) n - 1) \<and>
    icache u = (icache t)(ip := (icache t ip)\<lparr>i_ref := i_ref (icache t ip) - 1\<rparr>))"
    using t(3) by (simp add: iunlockput_def iunlock_def)
qed

lemma put_released:
  assumes "closed_tree s G" "n \<in> G" "holding s n ip t"
  shows "wp (iput ip t) (released s)" "wp (iunlockput ip t) (released s)"
  using put_entry [OF assms(1,2), of t ip] assms(3) by (auto simp: holding_def released_def elim!: wp_mono)

definition holding_both :: "'a fs_state_scheme \<Rightarrow> uint \<Rightarrow> nat \<Rightarrow> uint \<Rightarrow> nat \<Rightarrow> 'a fs_state_scheme \<Rightarrow> bool" where
  "holding_both s n ip m jp t \<longleftrightarrow> same_fs s t \<and> ip < NINODE \<and> i_ref (icache t ip) > 0 \<and> i_inum (icache t ip) = n \<and>
     jp < NINODE \<and> i_ref (icache t jp) > (if jp = ip then 1 else 0) \<and> i_inum (icache t jp) = m \<and>
     (let c = (iref (icache s))(n := iref (icache s) n + 1) in iref (icache t) = c(m := c m + 1))"

lemma get_same:
  assumes t: "same_fs s t" and u: "read_only t u" and p: "iget_post m u jp w"
  shows "same_fs s w" "jp < NINODE" "i_inum (icache w jp) = m" "i_ref (icache w jp) = iref (icache t) m + 1" "0 \<le> iref (icache t) m"
    "iref (icache w) = (iref (icache t))(m := iref (icache t) m + 1)"
    "j \<noteq> jp \<or> i_ref (icache t j) > 0 \<Longrightarrow> i_inum (icache w j) = i_inum (icache t j)" "j \<noteq> jp \<Longrightarrow> i_ref (icache w j) = i_ref (icache t j)"
    "i_ref (icache t jp) > 0 \<Longrightarrow> 0 < iref (icache t) m"
proof -
  have ic: "icache u = icache t" using same_fs_read [OF t u] by simp
  obtain e where e: "w = u\<lparr>icache := (icache t)(jp := e)\<rparr>" "jp < NINODE" "i_inum e = m" "i_ref e = iref (icache t) m + 1"
    "icache_inv (icache w)" "iref (icache w) = (iref (icache t))(m := iref (icache t) m + 1)"
    "iref (icache t) m > 0 \<Longrightarrow> i_ref (icache t jp) > 0 \<and> e = (icache t jp)\<lparr>i_ref := iref (icache t) m + 1\<rparr>"
    "iref (icache t) m = 0 \<Longrightarrow> i_ref (icache t jp) = 0 \<and> \<not> i_valid e" "0 \<le> iref (icache t) m"
    using p unfolding iget_post_def ic by blast
  note D = same_fsD [OF t]
  have "same_disk_part e (dino s (i_inum e))" if "i_valid e"
  proof -
    have pos: "iref (icache t) m > 0" using that e(8,9) by (cases "iref (icache t) m = 0") auto
    have ee: "e = (icache t jp)\<lparr>i_ref := iref (icache t) m + 1\<rparr>" "i_ref (icache t jp) > 0" using e(7) [OF pos] by auto
    have "i_valid (icache t jp)" using that by (subst (asm) ee(1)) simp
    then have "same_disk_part ((icache t jp)\<lparr>i_ref := r\<rparr>) (dino s (i_inum ((icache t jp)\<lparr>i_ref := r\<rparr>)))" for r
      using D(7) [OF e(2) ee(2)] by (simp add: same_disk_part_def)
    then show ?thesis using ee(1) by metis
  qed
  then show "same_fs s w" unfolding e(1) using e(1,5) by (intro same_fs_upd [OF t u]) auto
  show pos: "0 < iref (icache t) m" if "i_ref (icache t jp) > 0" using e(8,9) that by (cases "iref (icache t) m = 0") auto
  have "i_inum e = i_inum (icache t jp)" if "i_ref (icache t jp) > 0" using e(7) [OF pos [OF that]] by (metis inode.select_convs(1) inode.surjective inode.update_convs(2))
  then show "i_inum (icache w j) = i_inum (icache t j)" if "j \<noteq> jp \<or> i_ref (icache t j) > 0" using e(1) that by (cases "j = jp") auto
  show "i_ref (icache w j) = i_ref (icache t j)" if "j \<noteq> jp" using e(1) that by simp
  show "jp < NINODE" "i_inum (icache w jp) = m" "i_ref (icache w jp) = iref (icache t) m + 1" "0 \<le> iref (icache t) m"
    "iref (icache w) = (iref (icache t))(m := iref (icache t) m + 1)" using e by simp_all
qed

lemma get_entry:
  assumes h: "holding s n ip t" and u: "read_only t u" and p: "iget_post m u jp w"
  shows "holding_both s n ip m jp w"
proof -
  have t: "same_fs s t" "iref (icache t) = (iref (icache s))(n := iref (icache s) n + 1)" "ip < NINODE" "i_ref (icache t ip) > 0" "i_inum (icache t ip) = n"
    using h by (simp_all add: holding_def)
  note g = get_same [OF t(1) u p]
  have "i_ref (icache w ip) > 0 \<and> i_ref (icache w jp) > (if jp = ip then 1 else 0)"
    using g(4,5,9) g(8) [of ip] t(4) by (cases "jp = ip") auto
  then show ?thesis using g(1-3,6) g(7) [of ip] t(2-5) by (simp add: holding_both_def Let_def)
qed

lemma put_directory:
  assumes "closed_tree s G" "n \<in> G" "holding_both s n ip m jp t"
  shows "wp (iunlockput ip t) (holding s m jp)"
proof -
  let ?c = "(iref (icache s))(n := iref (icache s) n + 1)"
  have t: "same_fs s t" "ip < NINODE" "i_ref (icache t ip) > 0" "i_inum (icache t ip) = n" "jp < NINODE" "i_ref (icache t jp) > (if jp = ip then 1 else 0)"
    "i_inum (icache t jp) = m" "iref (icache t) = ?c(m := ?c m + 1)" using assms(3) by (simp_all add: holding_both_def Let_def)
  have "(iref (icache t))(n := iref (icache t) n - 1) = (iref (icache s))(m := iref (icache s) m + 1)" unfolding t(8) by auto
  then show ?thesis
    using put_entry(2) [OF assms(1,2) t(1-4)] t(5-7) by (auto simp: holding_def elim!: wp_mono)
qed

text \<open>Looking up a name, with a reference to what is found besides the one to the directory.\<close>

lemma lookup_entry:
  assumes G: "closed_tree s G" "n \<in> G" "is_dir s n" and r: "roomy 1 s" "card {m. iref (icache s) m > 0} + 1 < NINODE"
    and h: "holding s n ip t" "same_disk_part (icache t ip) (dino s n)" and k: "cname DIRSIZ name = key"
  shows "wp (dirlookup ip name t) (\<lambda>(q, u). case dir_entry s n key of
      None \<Rightarrow> q = None \<and> holding s n ip u
    | Some m \<Rightarrow> \<exists>jp off. q = Some (jp, off) \<and> holding_both s n ip m jp u)"
proof -
  have t: "same_fs s t" "iref (icache t) = (iref (icache s))(n := iref (icache s) n + 1)" using h(1) by (simp_all add: holding_def)
  note D = same_fsD [OF t(1)] and v = dir_view [OF h(2) D(2)]
  have dok: "dir_ok t ip" using G v(1) by (auto simp: closed_tree_def)
  let ?f = "find_from (\<lambda>i. dmatches key (dent (at_inode s n) 0 i)) 0 (dcount (at_inode s n) 0)"
  have f: "find_from (\<lambda>i. dmatch name (dent t ip i)) 0 (dcount t ip) = ?f" unfolding v(2,3) dmatch_key [OF k] ..
  note spec = dirlookup_spec [OF D(1) _ dok, of name, unfolded f, unfolded v(2,3)]
  show ?thesis
  proof (cases ?f)
    case None
    then have "wp (dirlookup ip name t) (\<lambda>(q, u). q = None \<and> read_only t u)" using spec D(3) r(1) by simp
    then show ?thesis using None h(1) same_fs_read [OF t(1)] by (auto simp: dir_entry_def holding_def elim!: wp_mono)
  next
    case (Some i)
    let ?m = "ucast (de_inum (dent (at_inode s n) 0 i)) :: uint"
    obtain u where u: "read_only t u" "dirlookup ip name t = rbind (iget ?m u) (\<lambda>(jp, s). Ok (Some (jp, 16 * i), s))"
      using spec Some D(3) r(1) by auto
    note ro = same_fs_read [OF t(1) u(1)]
    have "card {m. iref (icache t) m > 0} < NINODE" using card_refs [of "icache s" n "iref (icache s) n + 1"] r(2) t(2) by simp
    then have "\<exists>i < NINODE. i_ref (icache u i) = 0" using free_entry [OF D(5)] ro by simp
    then have "wp (iget ?m u) (\<lambda>(jp, w). iget_post ?m u jp w)" using D(5) ro by (intro iget_spec) auto
    then have "wp (dirlookup ip name t) (\<lambda>(q, w). \<exists>jp off. q = Some (jp, off) \<and> holding_both s n ip ?m jp w)" unfolding u(2)
    proof (rule wp_bind_pair)
      fix jp w assume "iget_post ?m u jp w"
      then have "holding_both s n ip ?m jp w" by (rule get_entry [OF h(1) u(1)])
      then show "wp (Ok (Some (jp, 16 * i), w)) (\<lambda>(q, w). \<exists>jp off. q = Some (jp, off) \<and> holding_both s n ip ?m jp w)" by simp
    qed
    then show ?thesis using Some by (simp add: dir_entry_def)
  qed
qed

text \<open>The first reference.\<close>

lemma get_first:
  assumes "same_fs s s" "iget_post n s ip t"
  shows "holding s n ip t"
  using get_same [OF assms(1) read_only_refl [OF same_fsD(1) [OF assms(1)]] assms(2)] by (simp add: holding_def)

lemma dup_first:
  assumes s: "same_fs s s" and ip: "ip < NINODE" "i_ref (icache s ip) > 0" "i_inum (icache s ip) = n"
  shows "\<exists>t. idup ip s = (ip, t) \<and> holding s n ip t"
proof -
  note D = same_fsD [OF s]
  let ?e = "(icache s ip)\<lparr>i_ref := i_ref (icache s ip) + 1\<rparr>" and ?t = "upd_inode ip (\<lambda>i. i\<lparr>i_ref := i_ref i + 1\<rparr>) s"
  have "icache_inv ((icache s)(ip := ?e)) \<and> iref ((icache s)(ip := ?e)) = (iref (icache s))(n := i_ref ?e)"
    using ip by (intro iref_upd [OF D(5)]) auto
  moreover have "iref (icache s) n = i_ref (icache s ip)" using islot_eq [OF D(5), of n ip] ip by (simp add: iref_def)
  moreover have "same_fs s (s\<lparr>icache := (icache s)(ip := ?e)\<rparr>)"
    by (rule same_fs_upd [OF s read_only_refl [OF D(1)]]) (use calculation D(7) [OF ip(1,2)] in \<open>auto simp: same_disk_part_def\<close>)
  ultimately have "holding s n ip ?t" using ip by (simp add: holding_def upd_inode_def)
  then show ?thesis by (simp add: idup_def)
qed

section \<open>The walk\<close>

lemma walk_step:
  assumes G: "closed_tree s G" "n \<in> G" and r: "roomy 1 s" "card {m. iref (icache s) m > 0} + 1 < NINODE"
    and h: "holding s n ip t" "same_disk_part (icache t ip) (dino s n)" "is_dir s n" and k: "cname DIRSIZ name = key"
    and some: "\<And>m jp u. dir_entry s n key = Some m \<Longrightarrow> m \<in> G \<Longrightarrow> holding s m jp u \<Longrightarrow> wp (F jp u) Q"
    and Q: "\<And>u. dir_entry s n key = None \<Longrightarrow> released s u \<Longrightarrow> Q (None, name, u)"
  shows "wp (rbind (dirlookup ip name t) (\<lambda>(q, u). case q of
      None \<Rightarrow> rbind (iunlockput ip u) (\<lambda>u. Ok (None, name, u))
    | Some (next', _) \<Rightarrow> rbind (iunlockput ip u) (\<lambda>u. F next' u))) Q"
proof (rule wp_bind_pair [OF lookup_entry [OF G h(3) r h(1,2) k]])
  fix q u assume a: "case dir_entry s n key of None \<Rightarrow> q = None \<and> holding s n ip u | Some m \<Rightarrow> \<exists>jp off. q = Some (jp, off) \<and> holding_both s n ip m jp u"
  show "wp (case q of None \<Rightarrow> rbind (iunlockput ip u) (\<lambda>u. Ok (None, name, u)) | Some (next', _) \<Rightarrow> rbind (iunlockput ip u) (\<lambda>u. F next' u)) Q"
  proof (cases "dir_entry s n key")
    case None
    then show ?thesis using a put_released(2) [OF G, of ip u] Q by (auto elim!: wp_mono)
  next
    case (Some m)
    then obtain jp off where b: "q = Some (jp, off)" "holding_both s n ip m jp u" using a by auto
    have "m \<in> G" using G h(3) Some by (auto simp: closed_tree_def)
    then have "wp (rbind (iunlockput ip u) (F jp)) Q" by (intro wp_mono_bind [OF put_directory [OF G b(2)]] some [OF Some])
    then show ?thesis using b(1) by simp
  qed
qed

definition walked :: "'a fs_state_scheme \<Rightarrow> uint option \<Rightarrow> nat option \<Rightarrow> 'a fs_state_scheme \<Rightarrow> bool" where
  "walked s target r t \<longleftrightarrow> (case target of None \<Rightarrow> r = None \<and> released s t | Some m \<Rightarrow> \<exists>jp. r = Some jp \<and> holding s m jp t)"

lemma namex_loop_spec:
  assumes G: "closed_tree s G" and r: "roomy 1 s" "card {m. iref (icache s) m > 0} + 1 < NINODE"
  shows "n \<in> G \<Longrightarrow> length name = DIRSIZ \<Longrightarrow> holding s n ip t \<Longrightarrow> wp (namex_loop ip path nip name t) (\<lambda>(q, nm, u).
    if nip then walked s (map_option fst (resolve_parent s n (components path))) q u \<and>
      (\<forall>m key. resolve_parent s n (components path) = Some (m, key) \<longrightarrow> cname DIRSIZ nm = key)
    else walked s (resolve s n (components path)) q u)"
proof (induction "length path" arbitrary: path n name ip t rule: less_induct)
  case less
  let ?Q = "\<lambda>n path (q, nm, u). if nip then walked s (map_option fst (resolve_parent s n (components path))) q u \<and>
      (\<forall>m key. resolve_parent s n (components path) = Some (m, key) \<longrightarrow> cname DIRSIZ nm = key)
    else walked s (resolve s n (components path)) q u"
  show ?case
  proof (cases "skipelem path name")
    case None
    then have c: "components path = []" using skipelem_None by blast
    show ?thesis
    proof (cases nip)
      case True
      then show ?thesis using None c put_released(1) [OF G less.prems(1,3)]
        by (subst namex_loop.simps) (auto simp: walked_def elim!: wp_mono)
    next
      case False
      then show ?thesis using None c less.prems(3) by (subst namex_loop.simps) (auto simp: walked_def)
    qed
  next
    case (Some x)
    obtain rest nm where x: "skipelem path name = Some (rest, nm)" using Some by (cases x) auto
    obtain e where e: "components path = e # components rest" "length nm = DIRSIZ" "cname DIRSIZ nm = take DIRSIZ e" "deref rest = 0 \<longleftrightarrow> components rest = []"
      using skipelem_cases [OF less.prems(2), of path] x by auto
    have "wp (namex_loop ip path nip name t) (?Q n path)" unfolding namex_loop.simps [of ip path] x option.case prod.case
    proof (rule wp_mono_bind [OF lock_entry [OF G less.prems(1) r(1) less.prems(3)]])
      fix u assume u: "holding s n ip u \<and> same_disk_part (icache u ip) (dino s n)"
      then have ty: "i_type (icache u ip) = i_type (dino s n)" by (simp add: same_disk_part_def)
      show "wp (if i_type (icache u ip) \<noteq> T_DIR then rbind (iunlockput ip u) (\<lambda>s. Ok (None, nm, s))
            else if nip \<and> deref rest = 0 then rbind (iunlock (Some ip) u) (\<lambda>s. Ok (Some ip, nm, s))
            else rbind (dirlookup ip nm u) (\<lambda>(r, s). case r of
                None \<Rightarrow> rbind (iunlockput ip s) (\<lambda>s. Ok (None, nm, s))
              | Some (next', _) \<Rightarrow> rbind (iunlockput ip s) (\<lambda>s. namex_loop next' rest nip nm s))) (?Q n path)"
      proof (cases "is_dir s n")
        case False
        then show ?thesis using ty u e(1) put_released(2) [OF G less.prems(1)] by (auto simp: walked_def elim!: wp_mono)
      next
        case dir: True
        show ?thesis
        proof (cases "nip \<and> components rest = []")
          case True
          then show ?thesis using dir ty u e by (auto simp: walked_def iunlock_def holding_def)
        next
          case False
          have "wp (rbind (dirlookup ip nm u) (\<lambda>(q, u). case q of
                None \<Rightarrow> rbind (iunlockput ip u) (\<lambda>u. Ok (None, nm, u))
              | Some (next', _) \<Rightarrow> rbind (iunlockput ip u) (\<lambda>u. namex_loop next' rest nip nm u))) (?Q n path)"
          proof (rule walk_step [OF G less.prems(1) r _ _ dir e(3)])
            fix m jp v assume m: "dir_entry s n (take DIRSIZ e) = Some m" "m \<in> G" "holding s m jp v"
            have "wp (namex_loop jp rest nip nm v) (?Q m rest)"
              using skipelem_shorter [OF x] e(2) m by (intro less.hyps)
            moreover have "?Q m rest = ?Q n path" using m(1) dir False e(1) by (auto simp: fun_eq_iff)
            ultimately show "wp (namex_loop jp rest nip nm v) (?Q n path)" by simp
          next
            fix v assume "dir_entry s n (take DIRSIZ e) = None" "released s v"
            then show "?Q n path (None, nm, v)" using dir e(1) False by (simp add: walked_def)
          qed (use u in auto)
          moreover have a: "\<not> i_type (icache u ip) \<noteq> T_DIR" "\<not> (nip \<and> deref rest = 0)" using dir ty e(4) False by simp_all
          ultimately show ?thesis unfolding if_not_P [OF a(1)] if_not_P [OF a(2)] by blast
        qed
      qed
    qed
    then show ?thesis by simp
  qed
qed

section \<open>Property\<close>

text \<open>
  C19. Path names. In a file system whose directories are in good order, with two cache entries to spare, \<open>namei\<close> returns, and it returns the inode at
  which the walk over the directories on the disk ends that starts at the root for a path with a leading slash and at the current directory otherwise, or null
  exactly when the walk fails, at a missing name or at a component that is no directory; \<open>nameiparent\<close> returns the inode of the directory before the
  last component, whose name it leaves in the buffer. The caller holds one more reference to the inode returned, and no other
  count has changed; no block of the file system has changed.
\<close>

theorem namei_walks:
  assumes "closed_tree s G" "n \<in> G" "bio_inv s" "roomy 1 s" "icache_inv (icache s)" "cache_good s s" "card {m. iref (icache s) m > 0} + 1 < NINODE"
    and start: "if deref path = slash then n = ROOTINO
      else \<exists>p ip. proc s = Some p \<and> p_cwd (ptable s p) = Some ip \<and> ip < NINODE \<and> i_ref (icache s ip) > 0 \<and> i_inum (icache s ip) = n"
    and "length name = DIRSIZ"
  shows "(\<exists>q t. namei path s = Ok (q, t) \<and> walked s (resolve s n (components path)) q t) \<and>
    (\<exists>q nm t. nameiparent path name s = Ok (q, nm, t) \<and> walked s (map_option fst (resolve_parent s n (components path))) q t \<and>
      (\<forall>m key. resolve_parent s n (components path) = Some (m, key) \<longrightarrow> cname DIRSIZ nm = key))"
proof -
  have s0: "same_fs s s" using assms(3,5,6) by (simp add: same_fs_def)
  have "\<exists>ip t. (if deref path = slash then iget ROOTINO s else rbind (myproc s) (\<lambda>p. case p_cwd (ptable s p) of None \<Rightarrow> Fault | Some ip \<Rightarrow> Ok (idup ip s))) = Ok (ip, t) \<and>
    holding s n ip t"
  proof (cases "deref path = slash")
    case True
    have "\<exists>i < NINODE. i_ref (icache s i) = 0" using free_entry [OF assms(5)] assms(7) by simp
    then obtain ip t where t: "iget n s = Ok (ip, t)" "iget_post n s ip t" using iget_spec [OF assms(5), of n] by (auto simp: wp_iff)
    then show ?thesis using True start get_first [OF s0] by auto
  next
    case False
    then obtain p ip where p: "proc s = Some p" "p_cwd (ptable s p) = Some ip" "ip < NINODE" "i_ref (icache s ip) > 0" "i_inum (icache s ip) = n"
      using start by auto
    then show ?thesis using False dup_first [OF s0 p(3-5)] by (auto simp: myproc_def)
  qed
  then obtain ip t where t: "(if deref path = slash then iget ROOTINO s else rbind (myproc s) (\<lambda>p. case p_cwd (ptable s p) of None \<Rightarrow> Fault | Some ip \<Rightarrow> Ok (idup ip s))) = Ok (ip, t)"
    "holding s n ip t" by blast
  have nx: "namex path nip nm s = namex_loop ip path nip nm t" for nip nm by (simp add: namex_def t(1))
  note w = namex_loop_spec [OF assms(1,4,7,2) _ t(2)]
  have "wp (namex_loop ip path False (replicate DIRSIZ 0) t) (\<lambda>(q, nm, u). walked s (resolve s n (components path)) q u)"
    using w [of "replicate DIRSIZ 0" path False] by simp
  moreover have "wp (namex_loop ip path True name t) (\<lambda>(q, nm, u). walked s (map_option fst (resolve_parent s n (components path))) q u \<and>
      (\<forall>m key. resolve_parent s n (components path) = Some (m, key) \<longrightarrow> cname DIRSIZ nm = key))"
    using w [OF assms(9), of path True] by simp
  ultimately show ?thesis by (auto simp: namei_def nameiparent_def nx wp_iff)
qed

text \<open>Inode 1, the root, whose directory in block 170 has the one entry \<open>a\<close>, for inode 2, a file.\<close>

definition demo_root :: inode where
  "demo_root = demo_inode\<lparr>i_type := 1, i_nlink := 1, i_size := 32, i_addrs := [170] @ replicate 11 0\<rparr>"

definition demo_leaf :: inode where
  "demo_leaf = demo_inode\<lparr>i_type := 2, i_nlink := 1\<rparr>"

definition demo_tree :: fs_state where
  "demo_tree = binit (demo_fs\<lparr>bcache := (\<lambda>_. zero_buf), disk := (\<lambda>b.
     if b = 110 then store_dinode demo_root 64 (store_dinode demo_leaf 128 (replicate BSIZE 0))
     else if b = 170 then make_de [97] 2 @ replicate 496 0 else replicate BSIZE 0)\<rparr>)"

lemma demo_inodes: "length (i_addrs demo_root) = NDIRECT + 1" "length (i_addrs demo_leaf) = NDIRECT + 1"
  by (simp_all add: demo_root_def demo_leaf_def demo_inode_def NDIRECT_def)

lemma demo_tree_bio:
  "bio_inv demo_tree" "refs demo_tree = (\<lambda>_. 0)" "fsb demo_tree = fsb demo_fs" "icache demo_tree = (\<lambda>_. demo_inode)"
  "blk demo_tree 110 = store_dinode demo_root 64 (store_dinode demo_leaf 128 (replicate BSIZE 0))" "blk demo_tree 170 = make_de [97] 2 @ replicate 496 0"
proof -
  let ?s = "demo_fs\<lparr>bcache := (\<lambda>_. zero_buf), disk := (\<lambda>b.
     if b = 110 then store_dinode demo_root 64 (store_dinode demo_leaf 128 (replicate BSIZE 0))
     else if b = 170 then make_de [97] 2 @ replicate 496 0 else replicate BSIZE 0)\<rparr>"
  have "length (make_de [97] 2) = 16" by (simp add: make_de_fields)
  then have "length (disk ?s n) = BSIZE" for n
    using load_store_dinode(2) [OF demo_inodes(1)] load_store_dinode(2) [OF demo_inodes(2)] by (simp add: BSIZE_def)
  moreover have "dev_ok ?s n" for n by (simp add: demo_fs_def demo_kern_def demo_log_def kern_state.defs log_state.defs fs_state.defs binit_def)
  ultimately have b: "bio_inv (binit ?s)" "blk (binit ?s) = disk ?s" "refs (binit ?s) = (\<lambda>_. 0)" by (simp_all add: binit_inv)
  show "bio_inv demo_tree" "refs demo_tree = (\<lambda>_. 0)" unfolding demo_tree_def by (rule b)+
  show "fsb demo_tree = fsb demo_fs" "icache demo_tree = (\<lambda>_. demo_inode)" by (simp_all add: demo_tree_def binit_def demo_fs_simps)
  show "blk demo_tree 110 = store_dinode demo_root 64 (store_dinode demo_leaf 128 (replicate BSIZE 0))" "blk demo_tree 170 = make_de [97] 2 @ replicate 496 0"
    unfolding demo_tree_def b(2) by simp_all
qed

lemma demo_tree_inodes: "same_disk_part (dino demo_tree 1) demo_root" "same_disk_part (dino demo_tree 2) demo_leaf" "IBLOCK 1 (fsb demo_tree) = 110" "IBLOCK 2 (fsb demo_tree) = 110"
proof -
  show i: "IBLOCK 1 (fsb demo_tree) = 110" "IBLOCK 2 (fsb demo_tree) = 110" by (simp_all add: demo_tree_bio demo_fs_simps IBLOCK_nat IPB_def BSIZE_def)
  have o: "ioff 1 = 64" "ioff 2 = 128" by (simp_all add: ioff_def IPB_def BSIZE_def)
  let ?d = "store_dinode demo_leaf 128 (replicate BSIZE 0)"
  have l: "length ?d = 512" using load_store_dinode(2) [OF demo_inodes(2), of 128 "replicate BSIZE 0"] by (simp add: BSIZE_def)
  show "same_disk_part (dino demo_tree 1) demo_root"
    unfolding dino_def i demo_tree_bio(5) o by (rule load_store_dinode(1) [OF demo_inodes(1)]) (simp add: l)
  have "load_dinode (store_dinode demo_root 64 ?d) 128 q = load_dinode ?d 128 q" for q
    by (rule load_store_other [OF demo_inodes(1)]) (simp_all add: l)
  then show "same_disk_part (dino demo_tree 2) demo_leaf"
    unfolding dino_def i demo_tree_bio(5) o using load_store_dinode(1) [OF demo_inodes(2), of 128 "replicate BSIZE 0"] by (simp add: BSIZE_def)
qed

lemma demo_tree_dir: "dir_ok (at_inode demo_tree 1) 0" "dir_entry demo_tree 1 key = (if key = [97] then Some 2 else None)" "is_dir demo_tree 1"
  "i_type (dino demo_tree 2) = 2"
proof -
  have r: "i_addrs (dino demo_tree 1) = [170] @ replicate 11 0" "i_size (dino demo_tree 1) = 32" "i_type (dino demo_tree 1) = 1"
    using demo_tree_inodes(1) by (simp_all add: same_disk_part_def demo_root_def)
  then show "is_dir demo_tree 1" by (simp add: T_DIR_def)
  show "i_type (dino demo_tree 2) = 2" using demo_tree_inodes(2) by (simp add: same_disk_part_def demo_leaf_def)
  have m: "fmap (at_inode demo_tree 1) 0 0 = 170" "mapped (at_inode demo_tree 1) 0 0"
    by (simp_all add: fmap_def mapped_def at_inode_def r MAXFILE_val)
  then show "dir_ok (at_inode demo_tree 1) 0" by (auto simp: dir_ok_def at_inode_def r T_DIR_def BSIZE_def)
  have l: "length (make_de [97] 2) = 16" "de_inum (make_de [97] 2) = 2" "cname DIRSIZ (de_name (make_de [97] 2)) = [97]"
    using make_de_fields [of "[97]" 2] by (simp_all add: cname_take DIRSIZ_def)
  have fb: "fbyte (at_inode demo_tree 1) 0 pos = (make_de [97] 2 @ replicate 496 0) ! pos" if "pos < 512" for pos
    using that m by (simp add: fbyte_def BSIZE_def at_inode_def demo_tree_bio(6))
  have d: "dent (at_inode demo_tree 1) 0 0 = make_de [97] 2" "dent (at_inode demo_tree 1) 0 1 = replicate 16 0"
  proof -
    show "dent (at_inode demo_tree 1) 0 0 = make_de [97] 2" using fb l(1) by (auto intro!: nth_equalityI simp: dent_def nth_append)
    have "fbyte (at_inode demo_tree 1) 0 pos = 0" if "pos \<in> set [16..<32]" for pos
      using fb [of pos] that l(1) by (auto simp: nth_append simp del: upt_rec_numeral)
    then have "map (fbyte (at_inode demo_tree 1) 0) [16..<32] = map (\<lambda>_. 0) [16..<32]" by (intro map_cong refl)
    then show "dent (at_inode demo_tree 1) 0 1 = replicate 16 0" by (simp add: dent_def map_replicate_const del: upt_rec_numeral)
  qed
  have dc: "dcount (at_inode demo_tree 1) 0 = 2" by (simp add: at_inode_def r)
  have z: "de_inum (replicate 16 0) = 0" by (simp add: de_inum_def get16_def be16_def)
  have "find_from (\<lambda>i. dmatches key (dent (at_inode demo_tree 1) 0 i)) 0 (dcount (at_inode demo_tree 1) 0) = (if key = [97] then Some 0 else None)"
    unfolding dc using d l z by (auto simp: find_from_None find_from_Some dmatches_def dest!: less_2_cases)
  then show "dir_entry demo_tree 1 key = (if key = [97] then Some 2 else None)"
    using d l by (simp add: dir_entry_def)
qed

theorem namei_walks_witness:
  "\<exists>ip t. namei [47, 97, 0] demo_tree = Ok (Some ip, t) \<and> holding demo_tree 2 ip t"
proof -
  have dir: "is_dir demo_tree 2 \<longleftrightarrow> False" using demo_tree_dir(4) by (simp add: T_DIR_def)
  have "closed_tree demo_tree {1, 2}"
    using demo_tree_inodes demo_tree_dir dir by (auto simp: closed_tree_def same_disk_part_def demo_root_def demo_leaf_def split: if_splits)
  note c = this
  have i: "icache_inv (icache demo_tree)" "cache_good demo_tree demo_tree"
    by (simp_all add: demo_tree_bio icache_inv_def cache_good_def demo_inode_def)
  have "iref (icache demo_tree) = (\<lambda>_. 0)"
    by (simp add: demo_tree_bio iref_def islot_def demo_inode_def fun_eq_iff split: option.split)
  then have k: "card {m. iref (icache demo_tree) m > 0} + 1 < NINODE" by (simp add: NINODE_def)
  have r: "roomy 1 demo_tree" using quiet_roomy [of demo_tree 1] by (simp add: demo_tree_bio NBUF_def)
  have st: "if deref [47, 97, 0] = slash then 1 = ROOTINO
      else \<exists>p ip. proc demo_tree = Some p \<and> p_cwd (ptable demo_tree p) = Some ip \<and> ip < NINODE \<and> i_ref (icache demo_tree ip) > 0 \<and> i_inum (icache demo_tree ip) = 1"
    by (simp add: slash_def ROOTINO_def)
  obtain q t where q: "namei [47, 97, 0] demo_tree = Ok (q, t)" "walked demo_tree (resolve demo_tree 1 (components [47, 97, 0])) q t"
    using namei_walks [OF c _ demo_tree_bio(1) r i k st length_replicate] by blast
  have "resolve demo_tree 1 (components [47, 97, 0]) = Some 2" using demo_tree_dir by (simp add: slash_def DIRSIZ_def)
  then show ?thesis using q by (auto simp: walked_def)
qed

end
