(* ===== verification/Pipe.thy ===== *)
theory Pipe
  imports Dir
begin

text \<open>
  Pipes (\<open>kern/pipe.c\<close>) and the tables of open files and pipes. A pipe is a ring of \<open>PIPESIZE\<close> bytes with
  32-bit counters that wrap around. A reader or writer that has to wait is left at the context
  switch inside \<open>sleep\<close>; its outcome is then \<open>Wait i\<close>, with \<open>i\<close> bytes done, and it goes on with
  \<open>piperead_resume\<close> or \<open>pipewrite_resume\<close> when it is switched to again.

  The ring refines a queue of bytes: the locale \<open>byte_queue\<close> states what the readers and writers
  rely on, and from it follows that any interleaving of puts and gets delivers the bytes in order.
\<close>

definition NPIPE :: nat where "NPIPE = 50"
definition PIPESIZE :: nat where "PIPESIZE = 512"
definition NFILE :: nat where "NFILE = 100"
definition EPIPE :: int where "EPIPE = 32"

datatype ftype = FD_NONE | FD_PIPE | FD_INODE | FD_CONSOLE

record xfile =
  f_type :: ftype
  f_ref :: int
  f_readable :: bool
  f_writable :: bool
  f_pipe :: "nat option"
  f_ip :: "nat option"
  f_off :: uint

text \<open>\<open>isfree\<close> is true for \<open>FREE\<close>.\<close>

record pipe =
  pi_data :: bytes
  pi_isfree :: bool
  pi_nread :: uint
  pi_nwrite :: uint
  pi_readopen :: bool
  pi_writeopen :: bool

text \<open>
  The console is the UART: the characters it will receive and those it has sent, and the two
  flags that \<open>ioctl\<close> sets.
\<close>

record file_state = fs_state +
  ftable :: "nat \<Rightarrow> xfile"
  plist :: "nat \<Rightarrow> pipe"
  uart_in :: bytes
  uart_out :: bytes
  duart_echo :: bool
  duart_crnl :: bool

definition upd_pipe :: "nat \<Rightarrow> (pipe \<Rightarrow> pipe) \<Rightarrow> 'a file_state_scheme \<Rightarrow> 'a file_state_scheme" where
  "upd_pipe p f s = s\<lparr>plist := (plist s)(p := f (plist s p))\<rparr>"

definition pipeinit :: "'a file_state_scheme \<Rightarrow> 'a file_state_scheme" where
  "pipeinit s = s\<lparr>plist := (\<lambda>i. if i < NPIPE then (plist s i)\<lparr>pi_isfree := True\<rparr> else plist s i)\<rparr>"

definition palloc :: "'a file_state_scheme \<Rightarrow> nat option \<times> 'a file_state_scheme" where
  "palloc s =
     (case alloc_slot pi_isfree (\<lambda>p. p\<lparr>pi_isfree := False\<rparr>) NPIPE (plist s) of
        None \<Rightarrow> (None, s)
      | Some (i, t) \<Rightarrow> (Some i, s\<lparr>plist := t\<rparr>))"

definition pfree :: "nat option \<Rightarrow> 'a file_state_scheme \<Rightarrow> 'a file_state_scheme res" where
  "pfree q s =
     (case q of
        None \<Rightarrow> Panic ''pfree: NULL pointer''
      | Some p \<Rightarrow>
          if pi_isfree (plist s p) then Panic ''pfree: pipe not in use''
          else Ok (upd_pipe p (\<lambda>r. r\<lparr>pi_isfree := True\<rparr>) s))"

definition pipeclose :: "nat \<Rightarrow> bool \<Rightarrow> 'a file_state_scheme \<Rightarrow> 'a file_state_scheme res" where
  "pipeclose p wr s =
     (let s = (if wr then wakeup (ChNread p) (upd_pipe p (\<lambda>r. r\<lparr>pi_writeopen := False\<rparr>) s)
               else wakeup (ChNwrite p) (upd_pipe p (\<lambda>r. r\<lparr>pi_readopen := False\<rparr>) s))
      in if \<not> pi_readopen (plist s p) \<and> \<not> pi_writeopen (plist s p) then pfree (Some p) s else Ok s)"

section \<open>The ring\<close>

definition pipe_put :: "uchar \<Rightarrow> pipe \<Rightarrow> pipe" where
  "pipe_put c p = p\<lparr>pi_data := (pi_data p)[unat (pi_nwrite p mod of_nat PIPESIZE) := c], pi_nwrite := pi_nwrite p + 1\<rparr>"

definition pipe_get :: "pipe \<Rightarrow> uchar \<times> pipe" where
  "pipe_get p = (pi_data p ! unat (pi_nread p mod of_nat PIPESIZE), p\<lparr>pi_nread := pi_nread p + 1\<rparr>)"

definition pipe_full :: "pipe \<Rightarrow> bool" where "pipe_full p \<longleftrightarrow> pi_nwrite p = pi_nread p + of_nat PIPESIZE"
definition pipe_empty :: "pipe \<Rightarrow> bool" where "pipe_empty p \<longleftrightarrow> pi_nread p = pi_nwrite p"

datatype 'a io = Ret 'a | Wait nat

text \<open>The loop of \<open>pipewrite\<close> from index \<open>i\<close> on; \<open>n\<close> is the count, and \<open>addr\<close> holds at least that many bytes.\<close>

function pipewrite_loop :: "nat \<Rightarrow> bytes \<Rightarrow> nat \<Rightarrow> nat \<Rightarrow> 'a file_state_scheme \<Rightarrow> (int io \<times> 'a file_state_scheme) res" where
  "pipewrite_loop p addr n i s =
     (if i < n then
        (if pipe_full (plist s p) then
           rbind (myproc s) (\<lambda>me.
             if \<not> pi_readopen (plist s p) \<or> p_killed (ptable s me) then Ok (Ret (-1), s)
             else rbind (sleep (ChNwrite p) (wakeup (ChNread p) s)) (\<lambda>s. Ok (Wait i, s)))
         else pipewrite_loop p addr n (Suc i) (upd_pipe p (pipe_put (addr ! i)) s))
      else Ok (Ret (int n), wakeup (ChNread p) s))"
  by pat_completeness auto
termination
  by (relation "measure (\<lambda>(p, addr, n, i, s). n - i)") auto

declare pipewrite_loop.simps [simp del]

definition pipewrite :: "nat \<Rightarrow> bytes \<Rightarrow> int \<Rightarrow> 'a file_state_scheme \<Rightarrow> (int io \<times> 'a file_state_scheme) res" where
  "pipewrite p addr n s =
     (if n < 0 then Ok (Ret n, wakeup (ChNread p) s) else pipewrite_loop p addr (nat n) 0 s)"

definition pipewrite_resume :: "nat \<Rightarrow> bytes \<Rightarrow> int \<Rightarrow> nat \<Rightarrow> 'a file_state_scheme \<Rightarrow> (int io \<times> 'a file_state_scheme) res" where
  "pipewrite_resume p addr n i s = rbind (sleep_resumed s) (\<lambda>s. pipewrite_loop p addr (nat n) i s)"

fun pipe_copy :: "nat \<Rightarrow> pipe \<Rightarrow> bytes \<times> pipe" where
  "pipe_copy 0 p = ([], p)"
| "pipe_copy (Suc n) p =
     (if pipe_empty p then ([], p)
      else (let (c, p) = pipe_get p; (cs, p) = pipe_copy n p in (c # cs, p)))"

text \<open>The result is the return value with the bytes stored at \<open>addr\<close>.\<close>

definition piperead :: "nat \<Rightarrow> int \<Rightarrow> 'a file_state_scheme \<Rightarrow> ((int \<times> bytes) io \<times> 'a file_state_scheme) res" where
  "piperead p n s =
     (if pipe_empty (plist s p) \<and> pi_writeopen (plist s p) then
        rbind (myproc s) (\<lambda>me.
          if p_killed (ptable s me) then Ok (Ret (EPIPE, []), s)
          else rbind (sleep (ChNread p) s) (\<lambda>s. Ok (Wait 0, s)))
      else
        (let (cs, q) = pipe_copy (nat n) (plist s p)
         in Ok (Ret (int (length cs), cs), wakeup (ChNwrite p) (upd_pipe p (\<lambda>_. q) s))))"

definition piperead_resume :: "nat \<Rightarrow> int \<Rightarrow> 'a file_state_scheme \<Rightarrow> ((int \<times> bytes) io \<times> 'a file_state_scheme) res" where
  "piperead_resume p n s = rbind (sleep_resumed s) (\<lambda>s. piperead p n s)"

section \<open>A queue of bytes\<close>

text \<open>What readers and writers of a pipe rely on.\<close>

datatype qop = Put uchar | Get

locale byte_queue =
  fixes put :: "uchar \<Rightarrow> 'q \<Rightarrow> 'q" and get :: "'q \<Rightarrow> uchar \<times> 'q" and full :: "'q \<Rightarrow> bool" and empt :: "'q \<Rightarrow> bool"
    and inv :: "'q \<Rightarrow> bool" and contents :: "'q \<Rightarrow> bytes" and cap :: nat
  assumes put_ok: "inv q \<Longrightarrow> \<not> full q \<Longrightarrow> inv (put c q) \<and> contents (put c q) = contents q @ [c]"
    and get_ok: "inv q \<Longrightarrow> \<not> empt q \<Longrightarrow> inv (snd (get q)) \<and> contents q = fst (get q) # contents (snd (get q))"
    and full_iff: "inv q \<Longrightarrow> full q \<longleftrightarrow> length (contents q) = cap"
    and empt_iff: "inv q \<Longrightarrow> empt q \<longleftrightarrow> contents q = []"
    and bounded: "inv q \<Longrightarrow> length (contents q) \<le> cap"
begin

text \<open>Operations that would block are left out of the run.\<close>

fun run :: "qop list \<Rightarrow> 'q \<Rightarrow> bytes \<times> bytes \<times> 'q" where
  "run [] q = ([], [], q)"
| "run (Put c # ops) q =
     (if full q then run ops q else (let (ins, outs, q') = run ops (put c q) in (c # ins, outs, q')))"
| "run (Get # ops) q =
     (if empt q then run ops q else (let (ins, outs, q') = run ops (snd (get q)) in (ins, fst (get q) # outs, q')))"

text \<open>Whatever the interleaving: the bytes come out in the order they went in, none lost or repeated.\<close>

lemma run_fifo: "inv q \<Longrightarrow> run ops q = (ins, outs, q') \<Longrightarrow> inv q' \<and> contents q @ ins = outs @ contents q'"
proof (induction ops q arbitrary: ins outs q' rule: run.induct)
  case (1 q)
  then show ?case by simp
next
  case (2 c ops q)
  show ?case
  proof (cases "full q")
    case False
    obtain i o' r where r: "run ops (put c q) = (i, o', r)" by (metis prod_cases3)
    then have "inv r \<and> contents (put c q) @ i = o' @ contents r" using 2 False put_ok by blast
    then show ?thesis using 2(4) False r put_ok [OF 2(3) False] by auto
  qed (use 2 in simp)
next
  case (3 ops q)
  show ?case
  proof (cases "empt q")
    case False
    obtain i o' r where r: "run ops (snd (get q)) = (i, o', r)" by (metis prod_cases3)
    then have "inv r \<and> contents (snd (get q)) @ i = o' @ contents r" using 3 False get_ok by blast
    then show ?thesis using 3(4) False r get_ok [OF 3(3) False] by auto
  qed (use 3 in simp)
qed

end

section \<open>The ring is a queue\<close>

definition ring_len :: "pipe \<Rightarrow> nat" where "ring_len p = unat (pi_nwrite p - pi_nread p)"

definition ring_inv :: "pipe \<Rightarrow> bool" where
  "ring_inv p \<longleftrightarrow> length (pi_data p) = PIPESIZE \<and> ring_len p \<le> PIPESIZE"

definition ring_at :: "pipe \<Rightarrow> nat \<Rightarrow> nat" where
  "ring_at p i = unat ((pi_nread p + of_nat i) mod of_nat PIPESIZE)"

definition ring :: "pipe \<Rightarrow> bytes" where
  "ring p = map (\<lambda>i. pi_data p ! ring_at p i) [0..<ring_len p]"

lemma mod_PIPESIZE: "unat (w mod of_nat PIPESIZE :: uint) = unat w mod PIPESIZE"
  by (simp add: PIPESIZE_def unat_mod)

lemma ring_at_lt: "ring_at p i < PIPESIZE"
  unfolding ring_at_def mod_PIPESIZE by (simp add: PIPESIZE_def)

text \<open>The ring has a power of two of slots, so the positions stay right when the counters wrap around.\<close>

lemma ring_at_nat: "ring_at p i = (unat (pi_nread p) + i) mod PIPESIZE"
proof -
  have "unat (pi_nread p + of_nat i) mod PIPESIZE = ((unat (pi_nread p) + i) mod 2 ^ 32) mod 512"
    by (simp add: unat_word_ariths unat_of_nat take_bit_nat_def mod_simps PIPESIZE_def)
  also have "\<dots> = (unat (pi_nread p) + i) mod 512" by (simp add: mod_mod_cancel)
  finally show ?thesis unfolding ring_at_def mod_PIPESIZE by (simp add: PIPESIZE_def)
qed

lemma mod_shift_inj:
  fixes i j n :: nat
  assumes "i < n" "j < n" "(a + i) mod n = (a + j) mod n"
  shows "i = j"
proof -
  have *: "i = j" if "i \<le> j" "j < n" "(a + j) mod n = (a + i) mod n" for i j :: nat
  proof -
    have "n dvd j - i" using that mod_eq_dvd_iff_nat [of "a + i" "a + j" n] by simp
    then show ?thesis using that by (metis diff_is_0_eq' le_antisym less_imp_diff_less nat_dvd_not_less neq0_conv diff_diff_cancel minus_nat.diff_0)
  qed
  show ?thesis using * [of i j] * [of j i] assms by (cases "i \<le> j") auto
qed

lemma ring_at_inj: "i < PIPESIZE \<Longrightarrow> j < PIPESIZE \<Longrightarrow> ring_at p i = ring_at p j \<Longrightarrow> i = j"
  unfolding ring_at_nat by (rule mod_shift_inj)

lemma ring_len_step:
  assumes "ring_inv p"
  shows "\<not> pipe_full p \<Longrightarrow> ring_len p < PIPESIZE" "pipe_full p \<longleftrightarrow> ring_len p = PIPESIZE" "pipe_empty p \<longleftrightarrow> ring_len p = 0"
proof -
  have "pipe_full p \<longleftrightarrow> pi_nwrite p - pi_nread p = of_nat PIPESIZE"
    by (auto simp: pipe_full_def algebra_simps)
  also have "\<dots> \<longleftrightarrow> ring_len p = PIPESIZE"
    unfolding ring_len_def by (simp add: PIPESIZE_def word_unat_eq_iff)
  finally show f: "pipe_full p \<longleftrightarrow> ring_len p = PIPESIZE" .
  then show "\<not> pipe_full p \<Longrightarrow> ring_len p < PIPESIZE" using assms by (simp add: ring_inv_def)
  show "pipe_empty p \<longleftrightarrow> ring_len p = 0"
    by (auto simp: pipe_empty_def ring_len_def unat_eq_zero)
qed

lemma ring_put:
  assumes inv: "ring_inv p" and nf: "\<not> pipe_full p"
  shows "ring_inv (pipe_put c p) \<and> ring (pipe_put c p) = ring p @ [c]"
proof -
  have lt: "ring_len p < 512" using ring_len_step(1) [OF inv nf] by (simp add: PIPESIZE_def)
  have "unat (pi_nwrite p + 1 - pi_nread p) = Suc (ring_len p)"
  proof -
    have "pi_nwrite p + 1 - pi_nread p = of_nat (Suc (ring_len p))" by (simp add: ring_len_def)
    moreover have "Suc (ring_len p) < 2 ^ 32" using lt by simp
    ultimately show ?thesis by (simp only: unat_of_nat_small)
  qed
  then have len: "ring_len (pipe_put c p) = Suc (ring_len p)" by (simp add: ring_len_def pipe_put_def)
  have at: "ring_at (pipe_put c p) i = ring_at p i" for i by (simp add: ring_at_def pipe_put_def)
  have "pi_nread p + of_nat (ring_len p) = pi_nwrite p" by (simp add: ring_len_def)
  then have w: "unat (pi_nwrite p mod of_nat PIPESIZE) = ring_at p (ring_len p)" by (simp add: ring_at_def)
  have pd: "pi_data (pipe_put c p) = (pi_data p)[ring_at p (ring_len p) := c]"
    unfolding w [symmetric] by (simp add: pipe_put_def)
  have d: "pi_data (pipe_put c p) ! ring_at p i = (if i = ring_len p then c else pi_data p ! ring_at p i)" if "i \<le> ring_len p" for i
    using that lt inv ring_at_lt [of p] ring_at_inj [of i "ring_len p" p]
    by (auto simp: pd ring_inv_def PIPESIZE_def nth_list_update)
  have "ring (pipe_put c p) = map (\<lambda>i. pi_data (pipe_put c p) ! ring_at p i) [0..<ring_len p] @ [c]"
    using d by (simp add: ring_def len at)
  also have "map (\<lambda>i. pi_data (pipe_put c p) ! ring_at p i) [0..<ring_len p] = ring p"
    using d by (simp add: ring_def)
  finally show ?thesis using inv len lt by (simp add: ring_inv_def PIPESIZE_def pipe_put_def)
qed

lemma ring_get:
  assumes inv: "ring_inv p" and ne: "\<not> pipe_empty p"
  shows "ring_inv (snd (pipe_get p)) \<and> ring p = fst (pipe_get p) # ring (snd (pipe_get p))"
proof -
  let ?q = "snd (pipe_get p)"
  have pos: "0 < ring_len p" using ring_len_step(3) [OF inv] ne by simp
  have "unat (pi_nwrite p - (pi_nread p + 1)) = ring_len p - 1"
  proof -
    have "pi_nwrite p - pi_nread p \<noteq> 0" using pos by (auto simp: ring_len_def)
    then have "unat (pi_nwrite p - pi_nread p - 1) = ring_len p - 1" unfolding ring_len_def by (rule unat_minus_one)
    then show ?thesis by (simp add: algebra_simps)
  qed
  then have len: "ring_len ?q = ring_len p - 1" by (simp add: ring_len_def pipe_get_def)
  have at: "ring_at ?q i = ring_at p (Suc i)" for i by (simp add: ring_at_def pipe_get_def algebra_simps)
  have "[0..<ring_len p] = 0 # map Suc [0..<ring_len ?q]" using pos len by (simp add: map_Suc_upt upt_conv_Cons)
  then have "ring p = pi_data p ! ring_at p 0 # ring ?q"
    by (simp add: ring_def at) (simp add: pipe_get_def)
  moreover have "ring_len ?q \<le> PIPESIZE" using inv unfolding ring_inv_def len by linarith
  ultimately show ?thesis using inv by (simp add: ring_inv_def) (simp add: pipe_get_def ring_at_def)
qed

interpretation rq: byte_queue pipe_put pipe_get pipe_full pipe_empty ring_inv ring PIPESIZE
proof unfold_locales
  show "ring_inv q \<Longrightarrow> \<not> pipe_full q \<Longrightarrow> ring_inv (pipe_put c q) \<and> ring (pipe_put c q) = ring q @ [c]" for q c
    by (rule ring_put)
  show "ring_inv q \<Longrightarrow> \<not> pipe_empty q \<Longrightarrow> ring_inv (snd (pipe_get q)) \<and> ring q = fst (pipe_get q) # ring (snd (pipe_get q))" for q
    by (rule ring_get)
  show "ring_inv q \<Longrightarrow> pipe_full q \<longleftrightarrow> length (ring q) = PIPESIZE" for q
    using ring_len_step(2) by (simp add: ring_def)
  show "ring_inv q \<Longrightarrow> pipe_empty q \<longleftrightarrow> ring q = []" for q
    using ring_len_step(3) by (simp add: ring_def)
  show "ring_inv q \<Longrightarrow> length (ring q) \<le> PIPESIZE" for q
    by (simp add: ring_def ring_inv_def)
qed

section \<open>Reading and writing\<close>

lemma upd_pipe_simps [simp]:
  "plist (upd_pipe p f s) = (plist s)(p := f (plist s p))" "proc (upd_pipe p f s) = proc s" "ptable (upd_pipe p f s) = ptable s"
  by (simp_all add: upd_pipe_def)

lemma wakeup_plist [simp]: "plist (wakeup ch s) = plist s" "proc (wakeup ch s) = proc s"
  by (simp_all add: wakeup_def wakeup1_def)

lemma pipe_copy_spec:
  "ring_inv p \<Longrightarrow> pipe_copy n p = (cs, q) \<Longrightarrow> ring_inv q \<and> cs = take n (ring p) \<and> ring q = drop n (ring p) \<and>
     pi_readopen q = pi_readopen p \<and> pi_writeopen q = pi_writeopen p \<and> pi_isfree q = pi_isfree p"
proof (induction n arbitrary: p cs q)
  case (Suc n)
  show ?case
  proof (cases "pipe_empty p")
    case True
    then show ?thesis using Suc.prems rq.empt_iff [OF Suc.prems(1)] by simp
  next
    case False
    obtain ds r where r: "pipe_copy n (snd (pipe_get p)) = (ds, r)" by fastforce
    note g = rq.get_ok [OF Suc.prems(1) False]
    have "ring_inv r \<and> ds = take n (ring (snd (pipe_get p))) \<and> ring r = drop n (ring (snd (pipe_get p))) \<and>
       pi_readopen r = pi_readopen (snd (pipe_get p)) \<and> pi_writeopen r = pi_writeopen (snd (pipe_get p)) \<and> pi_isfree r = pi_isfree (snd (pipe_get p))"
      using g r by (intro Suc.IH) auto
    moreover have "cs = fst (pipe_get p) # ds" "q = r" using Suc.prems(2) False r by (auto simp: case_prod_unfold Let_def)
    ultimately show ?thesis using g by (simp add: pipe_get_def)
  qed
qed simp

text \<open>As long as there is room the loop of \<open>pipewrite\<close> stores.\<close>

lemma pipewrite_loop_fill:
  assumes "ring_inv (plist s p)" "i + k \<le> n" "n \<le> length addr" "length (ring (plist s p)) + k \<le> PIPESIZE"
  shows "\<exists>q. pipewrite_loop p addr n i s = pipewrite_loop p addr n (i + k) (upd_pipe p (\<lambda>_. q) s) \<and> ring_inv q \<and>
     ring q = ring (plist s p) @ slice i k addr \<and> pi_readopen q = pi_readopen (plist s p)"
  using assms
proof (induction k arbitrary: i s)
  case 0
  then show ?case by (intro exI [of _ "plist s p"]) (simp add: upd_pipe_def slice_def)
next
  case (Suc k)
  let ?t = "upd_pipe p (pipe_put (addr ! i)) s"
  have i: "i < n" using Suc.prems(2) by simp
  have nf: "\<not> pipe_full (plist s p)" using rq.full_iff [OF Suc.prems(1)] Suc.prems(4) by simp
  note pt = rq.put_ok [OF Suc.prems(1) nf, of "addr ! i"]
  have "\<exists>q. pipewrite_loop p addr n (Suc i) ?t = pipewrite_loop p addr n (Suc i + k) (upd_pipe p (\<lambda>_. q) ?t) \<and> ring_inv q \<and>
     ring q = ring (plist ?t p) @ slice (Suc i) k addr \<and> pi_readopen q = pi_readopen (plist ?t p)"
    using Suc.prems pt by (intro Suc.IH) auto
  then obtain q where q: "pipewrite_loop p addr n (Suc i) ?t = pipewrite_loop p addr n (Suc i + k) (upd_pipe p (\<lambda>_. q) ?t)"
    "ring_inv q" "ring q = ring (plist ?t p) @ slice (Suc i) k addr" "pi_readopen q = pi_readopen (plist ?t p)" by blast
  have "slice i (Suc k) addr = addr ! i # slice (Suc i) k addr"
    using i Suc.prems(3) by (simp add: slice_def Cons_nth_drop_Suc [symmetric] del: Cons_nth_drop_Suc)
  then have "ring q = ring (plist s p) @ slice i (Suc k) addr" using q(3) pt by simp
  moreover have "pi_readopen q = pi_readopen (plist s p)" using q(4) by (simp add: pipe_put_def)
  moreover have "pipewrite_loop p addr n i s = pipewrite_loop p addr n (Suc i) ?t"
    using i nf by (subst pipewrite_loop.simps) simp
  moreover have "upd_pipe p (\<lambda>_. q) ?t = upd_pipe p (\<lambda>_. q) s" by (simp add: upd_pipe_def)
  ultimately show ?case using q by auto
qed

lemma pipewrite_loop_fits:
  assumes "ring_inv (plist s p)" "i \<le> n" "n \<le> length addr" "length (ring (plist s p)) + (n - i) \<le> PIPESIZE"
  shows "\<exists>q. pipewrite_loop p addr n i s = Ok (Ret (int n), wakeup (ChNread p) (upd_pipe p (\<lambda>_. q) s)) \<and> ring_inv q \<and>
     ring q = ring (plist s p) @ slice i (n - i) addr"
proof -
  obtain q where "pipewrite_loop p addr n i s = pipewrite_loop p addr n n (upd_pipe p (\<lambda>_. q) s)" "ring_inv q"
    "ring q = ring (plist s p) @ slice i (n - i) addr"
    using pipewrite_loop_fill [of s p i "n - i" n addr] assms by auto
  then show ?thesis by (intro exI [of _ q]) (simp add: pipewrite_loop.simps [of p addr n n])
qed

text \<open>When the room is used up and there is still a reader, the writer wakes it and goes to sleep.\<close>

lemma pipewrite_loop_sleeps:
  assumes "ring_inv (plist s p)" "i + k < n" "n \<le> length addr" "length (ring (plist s p)) + k = PIPESIZE"
    "proc s = Some me" "\<not> p_killed (ptable s me)" "pi_readopen (plist s p)"
  shows "\<exists>q. pipewrite_loop p addr n i s =
      rbind (sleep (ChNwrite p) (wakeup (ChNread p) (upd_pipe p (\<lambda>_. q) s))) (\<lambda>s. Ok (Wait (i + k), s)) \<and> ring_inv q \<and>
     ring q = ring (plist s p) @ slice i k addr"
proof -
  obtain q where q: "pipewrite_loop p addr n i s = pipewrite_loop p addr n (i + k) (upd_pipe p (\<lambda>_. q) s)" "ring_inv q"
    "ring q = ring (plist s p) @ slice i k addr" "pi_readopen q"
    using pipewrite_loop_fill [of s p i k n addr] assms by auto
  then have "pipe_full q" using assms(2,3,4) rq.full_iff [OF q(2)] by (simp add: length_slice)
  then show ?thesis
    using q assms by (intro exI [of _ q]) (simp add: pipewrite_loop.simps [of p addr n "i + k"] myproc_def)
qed

lemma piperead_copies:
  assumes "ring_inv (plist s p)" "ring (plist s p) \<noteq> [] \<or> \<not> pi_writeopen (plist s p)"
  shows "\<exists>q. piperead p (int k) s = Ok (Ret (int (length (take k (ring (plist s p)))), take k (ring (plist s p))),
       wakeup (ChNwrite p) (upd_pipe p (\<lambda>_. q) s)) \<and> ring_inv q \<and> ring q = drop k (ring (plist s p))"
proof -
  have ne: "\<not> (pipe_empty (plist s p) \<and> pi_writeopen (plist s p))" using assms rq.empt_iff [OF assms(1)] by auto
  obtain cs q where c: "pipe_copy k (plist s p) = (cs, q)" by fastforce
  then show ?thesis using pipe_copy_spec [OF assms(1) c] ne by (intro exI [of _ q]) (auto simp: piperead_def)
qed

text \<open>
  C21. A pipe is a queue of bytes: from any ring state, whatever the values of its 32-bit counters, every
  interleaving of single-byte puts (when not full) and gets (when not empty) keeps the ring
  invariant, and what was in the pipe followed by what was put in is what came out followed by
  what is left.
\<close>

theorem pipe_fifo:
  assumes "ring_inv p" "rq.run ops p = (ins, outs, q)"
  shows "ring_inv q \<and> ring p @ ins = outs @ ring q"
  using assms by (rule rq.run_fifo)

text \<open>
  The system-call level: a write that fits returns its count, appends its bytes and wakes the readers; a
  read of a non-empty pipe returns the oldest bytes, at most as many as asked for, removes them
  and wakes the writers; a read of an empty pipe whose writers are gone returns 0.
\<close>

theorem pipe_transfer:
  assumes "ring_inv (plist s p)" "n \<le> length addr" "length (ring (plist s p)) + n \<le> PIPESIZE"
  shows "(\<exists>q. pipewrite p addr (int n) s = Ok (Ret (int n), wakeup (ChNread p) (upd_pipe p (\<lambda>_. q) s)) \<and> ring_inv q \<and>
       ring q = ring (plist s p) @ take n addr) \<and>
     (ring (plist s p) \<noteq> [] \<or> \<not> pi_writeopen (plist s p) \<longrightarrow>
       (\<exists>q cs. piperead p (int k) s = Ok (Ret (int (length cs), cs), wakeup (ChNwrite p) (upd_pipe p (\<lambda>_. q) s)) \<and>
          cs = take k (ring (plist s p)) \<and> ring_inv q \<and> ring q = drop k (ring (plist s p))))"
  using pipewrite_loop_fits [of s p 0 n addr] piperead_copies [of s p k] assms
  by (auto simp: pipewrite_def slice_def)

text \<open>
  C23. A write larger than the free room: the writer fills the ring, wakes the readers and sleeps on the pipe's
  \<open>nwrite\<close> with the number of bytes stored. Any later read of the pipe makes it runnable again, and
  when it resumes with enough room it stores exactly the remaining bytes and returns the full count.
\<close>

theorem pipe_blocks:
  assumes "ring_inv (plist s p)" "proc s = Some me" "me < NPROC" "\<not> p_killed (ptable s me)" "pi_readopen (plist s p)"
    "n \<le> length addr" "r = PIPESIZE - length (ring (plist s p))" "r < n"
  shows "(\<exists>q. pipewrite p addr (int n) s =
        rbind (sleep (ChNwrite p) (wakeup (ChNread p) (upd_pipe p (\<lambda>_. q) s))) (\<lambda>s. Ok (Wait r, s)) \<and>
        ring_inv q \<and> ring q = ring (plist s p) @ take r addr) \<and>
    (\<forall>t k. ring_inv (plist t p) \<and> ring (plist t p) \<noteq> [] \<and> p_state (ptable t me) = SLEEPING \<and> p_chan (ptable t me) = Some (ChNwrite p) \<longrightarrow>
        (\<exists>x t'. piperead p (int k) t = Ok (Ret x, t') \<and> p_state (ptable t' me) = RUNNABLE)) \<and>
    (\<forall>u. ring_inv (plist u p) \<and> proc u = Some me \<and> length (ring (plist u p)) + (n - r) \<le> PIPESIZE \<longrightarrow>
        (\<exists>q u'. pipewrite_resume p addr (int n) r u = Ok (Ret (int n), wakeup (ChNread p) (upd_pipe p (\<lambda>_. q) u')) \<and>
           u' = upd_proc me (\<lambda>e. e\<lparr>p_chan := None\<rparr>) u \<and> ring_inv q \<and> ring q = ring (plist u p) @ drop r (take n addr)))"
proof (intro conjI allI impI)
  show "\<exists>q. pipewrite p addr (int n) s =
        rbind (sleep (ChNwrite p) (wakeup (ChNread p) (upd_pipe p (\<lambda>_. q) s))) (\<lambda>s. Ok (Wait r, s)) \<and>
        ring_inv q \<and> ring q = ring (plist s p) @ take r addr"
    using pipewrite_loop_sleeps [of s p 0 r n addr me] assms rq.bounded [OF assms(1)] by (auto simp: pipewrite_def slice_def)
next
  fix t :: "'b file_state_scheme" and k
  assume t: "ring_inv (plist t p) \<and> ring (plist t p) \<noteq> [] \<and> p_state (ptable t me) = SLEEPING \<and> p_chan (ptable t me) = Some (ChNwrite p)"
  then obtain q where "piperead p (int k) t = Ok (Ret (int (length (take k (ring (plist t p)))), take k (ring (plist t p))),
       wakeup (ChNwrite p) (upd_pipe p (\<lambda>_. q) t))" using piperead_copies [of t p k] by auto
  then show "\<exists>x t'. piperead p (int k) t = Ok (Ret x, t') \<and> p_state (ptable t' me) = RUNNABLE"
    using t assms(3) by (auto simp: wakeup_def wakeup1_def)
next
  fix u :: "'c file_state_scheme"
  let ?u = "upd_proc me (\<lambda>e. e\<lparr>p_chan := None\<rparr>) u"
  assume u: "ring_inv (plist u p) \<and> proc u = Some me \<and> length (ring (plist u p)) + (n - r) \<le> PIPESIZE"
  then have "sleep_resumed u = Ok ?u" by (simp add: sleep_resumed_def myproc_def)
  moreover have "plist ?u = plist u" by (simp add: upd_proc_def)
  ultimately show "\<exists>q u'. pipewrite_resume p addr (int n) r u = Ok (Ret (int n), wakeup (ChNread p) (upd_pipe p (\<lambda>_. q) u')) \<and>
           u' = ?u \<and> ring_inv q \<and> ring q = ring (plist u p) @ drop r (take n addr)"
    using pipewrite_loop_fits [of ?u p r n addr] u assms(6,8) by (auto simp: pipewrite_resume_def slice_def drop_take)
qed

text \<open>A table of empty, open pipes whose counters are about to wrap around.\<close>

definition demo_pipe :: pipe where
  "demo_pipe = \<lparr>pi_data = replicate PIPESIZE 0, pi_isfree = False, pi_nread = -1, pi_nwrite = -1, pi_readopen = True, pi_writeopen = True\<rparr>"

definition demo_files :: file_state where
  "demo_files = fs_state.extend demo_fs (file_state.fields
     (\<lambda>_. \<lparr>f_type = FD_NONE, f_ref = 0, f_readable = False, f_writable = False, f_pipe = None, f_ip = None, f_off = 0\<rparr>)
     (\<lambda>_. demo_pipe) [] [] False False)"

lemma demo_files_simps:
  "plist demo_files = (\<lambda>_. demo_pipe)" "proc demo_files = Some 0" "ptable demo_files = ptable demo_kern" "log demo_files = log demo_fs"
  "fsb demo_files = fsb demo_fs" "icache demo_files = icache demo_fs"
  "ftable demo_files = (\<lambda>_. \<lparr>f_type = FD_NONE, f_ref = 0, f_readable = False, f_writable = False, f_pipe = None, f_ip = None, f_off = 0\<rparr>)"
  by (simp_all add: demo_files_def demo_fs_def binit_def demo_kern_def kern_state.defs log_state.defs fs_state.defs file_state.defs)

lemma demo_pipe_ring [simp]: "ring_inv demo_pipe" "ring demo_pipe = []" "pi_readopen demo_pipe"
  by (simp_all add: ring_inv_def ring_len_def ring_def demo_pipe_def)

theorem pipe_fifo_witness: "\<exists>q. rq.run [Put 7, Put 8, Get] demo_pipe = ([7, 8], [7], q) \<and> ring q = [8]"
proof -
  obtain ins outs q where r: "rq.run [Put 7, Put 8, Get] demo_pipe = (ins, outs, q)" by (metis prod_cases3)
  have io: "ins = [7, 8]" "outs = [7]"
    using r by (auto simp: demo_pipe_def pipe_full_def pipe_empty_def pipe_put_def pipe_get_def PIPESIZE_def Let_def)
  show ?thesis using pipe_fifo [OF demo_pipe_ring(1) r] io r by simp
qed

theorem pipe_transfer_witness:
  "\<exists>q. pipewrite 0 [1, 2, 3] 3 demo_files = Ok (Ret 3, wakeup (ChNread 0) (upd_pipe 0 (\<lambda>_. q) demo_files)) \<and> ring q = [1, 2, 3]"
  using pipe_transfer [of demo_files 0 3 "[1, 2, 3]" 0] by (auto simp: demo_files_simps PIPESIZE_def)

theorem pipe_blocks_witness:
  "\<exists>q. pipewrite 0 (replicate 600 5) 600 demo_files =
      rbind (sleep (ChNwrite 0) (wakeup (ChNread 0) (upd_pipe 0 (\<lambda>_. q) demo_files))) (\<lambda>s. Ok (Wait 512, s)) \<and> ring q = replicate 512 5"
  using pipe_blocks [of demo_files 0 0 600 "replicate 600 5" 512]
  by (auto simp: demo_files_simps demo_kern_simps demo_ent_def demo_pipe_ring NPROC_def PIPESIZE_def)

end
