(* ===== verification/Fsframe.thy ===== *)
theory Fsframe
  imports Dir
begin

text \<open>
  What no operation of the file system touches, whatever it does: the process table and the other
  kernel variables, the superblock and everything above the file system. \<open>core\<close> collects these parts
  of the state, and every operation that returns has left them as they were. The clients of the
  file system (open files, system calls, processes) use the facts of the collection \<open>fs_core\<close>.
\<close>

named_theorems fs_core \<open>operations that leave the core of the state as it was\<close>

definition core where
  "core s = (dev_ok s, (ptable s, proc s, initproc s, nextpid s), (frames s, cpu s, basereg s, epoch_time s, errno s), fsb s, fs_state.more s)"

lemma core_upd [simp]:
  "core (s\<lparr>bcache := bc\<rparr>) = core s" "core (s\<lparr>disk := d\<rparr>) = core s" "core (s\<lparr>log := l\<rparr>) = core s"
  "core (s\<lparr>icache := ic\<rparr>) = core s" "core (s\<lparr>lastballoc := lb\<rparr>) = core s" "core (s\<lparr>lastbi := li\<rparr>) = core s"
  by (simp_all add: core_def)

lemma core_basic [simp]:
  "core (upd_buf b f s) = core s" "core (set_data b d s) = core s" "core (bwrite b s) = core s" "core (brelse b s) = core s"
  "core (upd_lh h s) = core s" "core (upd_inode ip g s) = core s"
  by (simp_all add: upd_buf_def set_data_def bwrite_def brelse_def Let_def upd_lh_def upd_inode_def)

lemma blkrw_core [fs_core]: "blkrw b s = Ok s' \<Longrightarrow> core s' = core s"
  by (auto simp: blkrw_def read_block_def write_block_def split: if_splits)

lemma bget_core [fs_core]: "bget n s = Ok (b, s') \<Longrightarrow> core s' = core s"
  by (auto simp: bget_def split: option.splits dest!: fs_core)

lemma bread_core [fs_core]: "bread n s = Ok (b, s') \<Longrightarrow> core s' = core s"
  by (auto simp: bread_def split: if_splits dest!: fs_core)

lemma bflush_from_core: "bflush_from bs s = Ok s' \<Longrightarrow> core s' = core s"
  by (induction bs arbitrary: s) (auto split: if_splits dest!: fs_core)

lemma bflush_core [fs_core]: "bflush s = Ok s' \<Longrightarrow> core s' = core s"
  unfolding bflush_def by (rule bflush_from_core)

lemma log_write_core [fs_core]: "log_write b s = Ok s' \<Longrightarrow> core s' = core s"
  by (auto simp: log_write_def Let_def split: if_splits)

lemma copy_loops_core:
  "install_loop ts s = Ok s' \<Longrightarrow> core s' = core s" "write_log_loop ts s = Ok s' \<Longrightarrow> core s' = core s"
  by (induction ts arbitrary: s) (fastforce simp: Let_def dest!: fs_core)+

lemma write_head_core [fs_core]: "write_head s = Ok s' \<Longrightarrow> core s' = core s"
  by (auto simp: write_head_def Let_def dest!: fs_core)

lemma commit_core [fs_core]: "commit s = Ok s' \<Longrightarrow> core s' = core s"
  by (auto simp: commit_def write_log_def install_trans_def split: if_splits dest!: fs_core copy_loops_core)

lemma begin_op_core [fs_core]: "begin_op s = Ok s' \<Longrightarrow> core s' = core s"
  by (auto simp: begin_op_def split: if_splits)

lemma end_op_core [fs_core]: "end_op s = Ok s' \<Longrightarrow> core s' = core s"
  by (auto simp: end_op_def Let_def split: if_splits dest!: fs_core)

lemma bzero_core [fs_core]: "bzero n s = Ok s' \<Longrightarrow> core s' = core s"
  by (auto simp: bzero_def dest!: fs_core)

lemma balloc_loop_core: "balloc_loop k b s = Ok (c, s') \<Longrightarrow> core s' = core s"
  by (induction k arbitrary: b s) (auto simp: Let_def split: if_splits option.splits dest!: fs_core)

lemma balloc_core [fs_core]: "balloc s = Ok (c, s') \<Longrightarrow> core s' = core s"
  unfolding balloc_def by (rule balloc_loop_core)

lemma bfree_core [fs_core]: "bfree b s = Ok s' \<Longrightarrow> core s' = core s"
  by (auto simp: bfree_def Let_def split: if_splits dest!: fs_core)

lemma iget_core [fs_core]: "iget n s = Ok (ip, s') \<Longrightarrow> core s' = core s"
  by (auto simp: iget_def split: option.splits)

lemma idup_core [simp]: "core (snd (idup ip s)) = core s"
  by (simp add: idup_def)

lemma ialloc_loop_core: "ialloc_loop t ks s = Ok (ip, s') \<Longrightarrow> core s' = core s"
proof (induction ks arbitrary: s)
  case (Cons k ks)
  then obtain b s1 where b: "bread (IBLOCK (of_nat k) (fsb s)) s = Ok (b, s1)"
    and r: "(if get16 (b_data (bcache s1 b)) (ioff (of_nat k)) = 0 then
          rbind (log_write b (set_data b (fresh_dinode t (fst (sys_time False s1)) (ioff (of_nat k)) (b_data (bcache s1 b))) s1)) (\<lambda>s.
            iget (of_nat k) (brelse b s))
        else ialloc_loop t ks (brelse b s1)) = Ok (ip, s')"
    by (auto simp: Let_def)
  show ?case
  proof (cases "get16 (b_data (bcache s1 b)) (ioff (of_nat k)) = 0")
    case True
    with r obtain s2 where "log_write b (set_data b (fresh_dinode t (fst (sys_time False s1)) (ioff (of_nat k)) (b_data (bcache s1 b))) s1) = Ok s2"
      "iget (of_nat k) (brelse b s2) = Ok (ip, s')" by auto
    then show ?thesis using bread_core [OF b] by (simp add: log_write_core iget_core)
  next
    case False
    with r have "ialloc_loop t ks (brelse b s1) = Ok (ip, s')" by simp
    then show ?thesis using bread_core [OF b] Cons.IH by simp
  qed
qed simp

lemma ialloc_core [fs_core]: "ialloc t s = Ok (ip, s') \<Longrightarrow> core s' = core s"
  unfolding ialloc_def by (rule ialloc_loop_core)

lemma iupdate_core [fs_core]: "iupdate ip s = Ok s' \<Longrightarrow> core s' = core s"
  by (auto simp: iupdate_def dest!: fs_core)

lemma ilock_core [fs_core]: "ilock q s = Ok s' \<Longrightarrow> core s' = core s"
  by (auto simp: ilock_def Let_def split: if_splits option.splits dest!: fs_core)

lemma iunlock_core [fs_core]: "iunlock q s = Ok s' \<Longrightarrow> s' = s"
  by (auto simp: iunlock_def split: if_splits option.splits)

lemma indirect_core [fs_core]: "indirect a i s = Ok (c, s') \<Longrightarrow> core s' = core s"
  by (auto simp: indirect_def Let_def split: if_splits dest!: fs_core)

lemma bmap_core [fs_core]: "bmap ip n s = Ok (c, s') \<Longrightarrow> core s' = core s"
  by (auto simp: bmap_def Let_def split: if_splits dest!: fs_core)

lemma free_direct_core [fs_core]: "free_direct ip is s = Ok s' \<Longrightarrow> core s' = core s"
  by (induction "is" arbitrary: s) (auto split: if_splits dest!: fs_core)

lemma free_entries_core [fs_core]: "free_entries b ys s = Ok s' \<Longrightarrow> core s' = core s"
  by (induction ys arbitrary: s) (auto simp: Let_def split: if_splits dest!: fs_core)

lemma free_indirect_core [fs_core]: "free_indirect b js s = Ok s' \<Longrightarrow> core s' = core s"
  by (induction js arbitrary: s) (auto simp: Let_def split: if_splits dest!: fs_core)

lemma itrunc_core [fs_core]: "itrunc ip s = Ok s' \<Longrightarrow> core s' = core s"
  by (auto simp: itrunc_def Let_def split: if_splits dest!: fs_core)

lemma iput_core [fs_core]: "iput ip s = Ok s' \<Longrightarrow> core s' = core s"
  by (auto simp: iput_def split: if_splits dest!: fs_core)

lemma iunlockput_core [fs_core]: "iunlockput ip s = Ok s' \<Longrightarrow> core s' = core s"
  by (auto simp: iunlockput_def dest!: fs_core)

lemma readi_loop_core: "readi_loop ip rem off s = Ok (d, s') \<Longrightarrow> core s' = core s"
proof (induction ip rem off s arbitrary: d rule: readi_loop.induct)
  case (1 ip rem off s)
  show ?case
  proof (cases "rem = 0")
    case False
    with 1(2) obtain a s1 b s2 rest where *: "bmap ip (of_nat (off div BSIZE)) s = Ok (a, s1)" "bread a s1 = Ok (b, s2)"
      "readi_loop ip (rem - chunk rem off) (off + chunk rem off) (brelse b s2) = Ok (rest, s')"
      by (subst (asm) readi_loop.simps) (auto simp: Let_def)
    from 1(1) [OF False *(1) refl *(2) refl refl refl, of rest] * show ?thesis by (auto dest!: fs_core)
  qed (use 1(2) in \<open>simp add: readi_loop.simps\<close>)
qed

lemma readi_core [fs_core]: "readi ip off n s = Ok (r, d, s') \<Longrightarrow> core s' = core s"
  by (auto simp: readi_def Let_def split: if_splits dest!: readi_loop_core)

lemma writei_loop_core: "writei_loop ip src rem off s = Ok s' \<Longrightarrow> core s' = core s"
proof (induction ip src rem off s rule: writei_loop.induct)
  case (1 ip src rem off s)
  show ?case
  proof (cases "rem = 0")
    case False
    with 1(2) obtain a s1 b s2 s3 where *: "bmap ip (of_nat (off div BSIZE)) s = Ok (a, s1)" "bread a s1 = Ok (b, s2)"
      "\<not> chunk rem off > length src"
      "log_write b (set_data b (patch (off mod BSIZE) (take (chunk rem off) src) (b_data (bcache s2 b))) s2) = Ok s3"
      "writei_loop ip (drop (chunk rem off) src) (rem - chunk rem off) (off + chunk rem off) (brelse b s3) = Ok s'"
      by (subst (asm) writei_loop.simps) (auto simp: Let_def split: if_splits)
    from 1(1) [OF False *(1) refl *(2) refl refl *(3,4)] * show ?thesis by (auto dest!: fs_core)
  qed (use 1(2) in \<open>simp add: writei_loop.simps\<close>)
qed

lemma writei_core [fs_core]: "writei ip src off n s = Ok (r, s') \<Longrightarrow> core s' = core s"
  by (auto simp: writei_def Let_def split: if_splits dest!: writei_loop_core fs_core)

lemma dirlookup_loop_core: "dirlookup_loop dp name offs s = Ok (r, s') \<Longrightarrow> core s' = core s"
  by (induction offs arbitrary: s) (auto split: if_splits dest!: fs_core)

lemma dirlookup_core [fs_core]: "dirlookup dp name s = Ok (r, s') \<Longrightarrow> core s' = core s"
  by (auto simp: dirlookup_def split: if_splits dest!: dirlookup_loop_core)

lemma empty_slot_core [fs_core]: "empty_slot dp p offs s = Ok (r, s') \<Longrightarrow> core s' = core s"
  by (induction offs arbitrary: s) (auto split: if_splits dest!: fs_core)

lemma dirlink_core [fs_core]: "dirlink dp name inum s = Ok (r, s') \<Longrightarrow> core s' = core s"
  by (auto simp: dirlink_def Let_def split: if_splits option.splits dest!: fs_core)

lemma namex_loop_core: "namex_loop ip path nip name s = Ok (r, nm, s') \<Longrightarrow> core s' = core s"
proof (induction ip path nip name s arbitrary: r nm rule: namex_loop.induct)
  case (1 ip path nip name s)
  show ?case
  proof (cases "skipelem path name")
    case None
    then show ?thesis using 1(2) by (subst (asm) namex_loop.simps) (auto split: if_splits dest!: fs_core)
  next
    case (Some pn)
    obtain path' nm' where pn: "pn = (path', nm')" by fastforce
    from 1(2) Some pn obtain s1 where l: "ilock (Some ip) s = Ok s1" and
      rest: "(if i_type (icache s1 ip) \<noteq> T_DIR then rbind (iunlockput ip s1) (\<lambda>s. Ok (None, nm', s))
            else if nip \<and> deref path' = 0 then rbind (iunlock (Some ip) s1) (\<lambda>s. Ok (Some ip, nm', s))
            else
              rbind (dirlookup ip nm' s1) (\<lambda>(r, s).
                case r of
                  None \<Rightarrow> rbind (iunlockput ip s) (\<lambda>s. Ok (None, nm', s))
                | Some (next', _) \<Rightarrow> rbind (iunlockput ip s) (\<lambda>s. namex_loop next' path' nip nm' s))) = Ok (r, nm, s')"
      by (subst (asm) namex_loop.simps) (auto simp del: rbind_eq_Ok dest!: rbind_eq_Ok [THEN iffD1])
    show ?thesis
    proof (cases "i_type (icache s1 ip) = T_DIR \<and> \<not> (nip \<and> deref path' = 0)")
      case False
      then show ?thesis using rest l by (auto split: if_splits dest!: fs_core)
    next
      case True
      then obtain q s2 where d: "dirlookup ip nm' s1 = Ok (q, s2)" and
        rest2: "(case q of None \<Rightarrow> rbind (iunlockput ip s2) (\<lambda>s. Ok (None, nm', s))
                | Some (next', _) \<Rightarrow> rbind (iunlockput ip s2) (\<lambda>s. namex_loop next' path' nip nm' s)) = Ok (r, nm, s')"
        using rest by auto
      show ?thesis
      proof (cases q)
        case None
        then show ?thesis using rest2 l d by (auto dest!: fs_core)
      next
        case (Some nx)
        obtain nxt off where nx: "nx = (nxt, off)" by fastforce
        then obtain s3 where u: "iunlockput ip s2 = Ok s3" "namex_loop nxt path' nip nm' s3 = Ok (r, nm, s')"
          using rest2 Some by auto
        have "core s' = core s3"
          using 1(1) [OF \<open>skipelem path name = Some pn\<close> pn [symmetric] l _ _ d refl Some nx [symmetric] u(1), of r nm] True u(2) by auto
        then show ?thesis using l d u(1) by (auto dest!: fs_core)
      qed
    qed
  qed
qed

lemma namex_core [fs_core]: "namex path nip name s = Ok (r, nm, s') \<Longrightarrow> core s' = core s"
  by (auto simp: namex_def myproc_def idup_def split: if_splits option.splits dest!: namex_loop_core fs_core)

lemma namei_core [fs_core]: "namei path s = Ok (r, s') \<Longrightarrow> core s' = core s"
  by (auto simp: namei_def dest!: fs_core)

lemma nameiparent_core [fs_core]: "nameiparent path name s = Ok (r, nm, s') \<Longrightarrow> core s' = core s"
  by (auto simp: nameiparent_def dest!: fs_core)

lemma coreD:
  assumes "core s' = core s"
  shows "ptable s' = ptable s" "proc s' = proc s" "initproc s' = initproc s" "nextpid s' = nextpid s" "frames s' = frames s"
    "errno s' = errno s" "fsb s' = fsb s" "fs_state.more s' = fs_state.more s" "epoch_time s' = epoch_time s"
  using assms by (simp_all add: core_def)

end
