(* ===== verification/File.thy ===== *)
theory File
  imports Pipe Fsframe
begin

text \<open>
  Open files (\<open>kern/file.c\<close>), the file half of \<open>pipealloc\<close> of \<open>kern/pipe.c\<close>, and the console
  (\<open>consputc\<close>, \<open>consgetc\<close> of \<open>kern/asmcode.s\<close>). A \<open>struct file\<close> pointer is its index in \<open>ftable\<close>.

  Shown: the tables of open files and of pipes hand out their lowest free entry; a pipe is in use
  exactly as long as one of its two ends is open, so no close ever frees it twice; a \<open>filewrite\<close> that
  is split into several transactions leaves the log idle and the file as one big write would have.
\<close>

definition ENOENT :: int where "ENOENT = 2"
definition ENFILE :: int where "ENFILE = 23"

definition upd_file :: "nat \<Rightarrow> (xfile \<Rightarrow> xfile) \<Rightarrow> 'a file_state_scheme \<Rightarrow> 'a file_state_scheme" where
  "upd_file f g s = s\<lparr>ftable := (ftable s)(f := g (ftable s f))\<rparr>"

section \<open>The console\<close>

definition consputc :: "uchar \<Rightarrow> 'a file_state_scheme \<Rightarrow> 'a file_state_scheme" where
  "consputc c s = s\<lparr>uart_out := uart_out s @ [c]\<rparr>"

text \<open>Without another character the routine polls the UART forever.\<close>

definition consgetc :: "'a file_state_scheme \<Rightarrow> (uchar \<times> 'a file_state_scheme) res" where
  "consgetc s =
     (case uart_in s of
        [] \<Rightarrow> Hang
      | c # cs \<Rightarrow>
          (let s = s\<lparr>uart_in := cs\<rparr>;
               c = (if duart_crnl s \<and> c = 13 then 10 else c)
           in Ok (c, if duart_echo s then consputc c s else s)))"

section \<open>The table of open files\<close>

definition fileinit :: "'a file_state_scheme \<Rightarrow> 'a file_state_scheme" where
  "fileinit s = s"

definition filealloc :: "'a file_state_scheme \<Rightarrow> nat option \<times> 'a file_state_scheme" where
  "filealloc s =
     (case alloc_slot (\<lambda>f. f_ref f = 0) (\<lambda>f. f\<lparr>f_ref := 1\<rparr>) NFILE (ftable s) of
        None \<Rightarrow> (None, s)
      | Some (f, t) \<Rightarrow> (Some f, s\<lparr>ftable := t\<rparr>))"

definition filedup :: "nat \<Rightarrow> 'a file_state_scheme \<Rightarrow> 'a file_state_scheme res" where
  "filedup f s =
     (if f_ref (ftable s f) < 1 then Panic ''filedup''
      else Ok (upd_file f (\<lambda>e. e\<lparr>f_ref := f_ref e + 1\<rparr>) s))"

text \<open>What \<open>fileclose\<close> does with the copy \<open>ff\<close> of an entry it has just freed.\<close>

definition file_release :: "xfile \<Rightarrow> 'a file_state_scheme \<Rightarrow> 'a file_state_scheme res" where
  "file_release ff s =
     (case f_type ff of
        FD_PIPE \<Rightarrow> (case f_pipe ff of None \<Rightarrow> Fault | Some p \<Rightarrow> pipeclose p (f_writable ff) s)
      | FD_INODE \<Rightarrow>
          rbind (begin_op s) (\<lambda>s.
            case f_ip ff of None \<Rightarrow> Fault | Some ip \<Rightarrow> rbind (iput ip s) (\<lambda>s. end_op s))
      | _ \<Rightarrow> Ok s)"

definition fileclose :: "nat \<Rightarrow> 'a file_state_scheme \<Rightarrow> 'a file_state_scheme res" where
  "fileclose f s =
     (if f_ref (ftable s f) < 1 then Panic ''fileclose''
      else
        (let s = upd_file f (\<lambda>e. e\<lparr>f_ref := f_ref e - 1\<rparr>) s in
         if f_ref (ftable s f) > 0 then Ok s
         else file_release (ftable s f) (upd_file f (\<lambda>e. e\<lparr>f_ref := 0, f_type := FD_NONE\<rparr>) s)))"

text \<open>The pointer \<open>p\<close> is still null wherever \<open>pipealloc\<close> jumps to \<open>bad\<close>; what is left there is to close the files.\<close>

definition close_opt :: "nat option \<Rightarrow> 'a file_state_scheme \<Rightarrow> 'a file_state_scheme res" where
  "close_opt q s = (case q of None \<Rightarrow> Ok s | Some f \<Rightarrow> fileclose f s)"

definition pipealloc_bad :: "nat option \<Rightarrow> nat option \<Rightarrow> 'a file_state_scheme \<Rightarrow> ((nat \<times> nat) option \<times> 'a file_state_scheme) res" where
  "pipealloc_bad f0 f1 s =
     rbind (close_opt f0 s) (\<lambda>s. rbind (close_opt f1 s) (\<lambda>s. Ok (None, set_errno ENFILE s)))"

definition pipe_open :: "pipe \<Rightarrow> pipe" where
  "pipe_open p = p\<lparr>pi_readopen := True, pi_writeopen := True, pi_nwrite := 0, pi_nread := 0\<rparr>"

definition pipe_end :: "nat \<Rightarrow> bool \<Rightarrow> xfile \<Rightarrow> xfile" where
  "pipe_end p wr e = e\<lparr>f_type := FD_PIPE, f_readable := \<not> wr, f_writable := wr, f_pipe := Some p\<rparr>"

definition pipealloc :: "'a file_state_scheme \<Rightarrow> ((nat \<times> nat) option \<times> 'a file_state_scheme) res" where
  "pipealloc s =
     (case filealloc s of
        (None, s) \<Rightarrow> pipealloc_bad None None s
      | (Some f0, s) \<Rightarrow>
     (case filealloc s of
        (None, s) \<Rightarrow> pipealloc_bad (Some f0) None s
      | (Some f1, s) \<Rightarrow>
     (case palloc s of
        (None, s) \<Rightarrow> pipealloc_bad (Some f0) (Some f1) s
      | (Some p, s) \<Rightarrow>
          Ok (Some (f0, f1),
            upd_file f1 (pipe_end p True) (upd_file f0 (pipe_end p False) (upd_pipe p pipe_open s))))))"

definition filestat :: "nat \<Rightarrow> 'a file_state_scheme \<Rightarrow> (int \<times> xvstat option \<times> 'a file_state_scheme) res" where
  "filestat f s =
     (case f_type (ftable s f) of
        FD_INODE \<Rightarrow>
          rbind (ilock (f_ip (ftable s f)) s) (\<lambda>s.
            case f_ip (ftable s f) of None \<Rightarrow> Fault
            | Some ip \<Rightarrow> (let st = stati ip s in rbind (iunlock (Some ip) s) (\<lambda>s. Ok (0, Some st, s))))
      | FD_PIPE \<Rightarrow> Ok (0, Some \<lparr>st_type = T_PIPE, st_ino = 0, st_nlink = 0, st_mtime = 0, st_size = of_nat PIPESIZE\<rparr>, s)
      | _ \<Rightarrow> Ok (-1, None, set_errno ENOENT s))"

section \<open>Reading and writing\<close>

text \<open>The value returned, and the bytes stored at \<open>addr\<close>.\<close>

definition fileread :: "nat \<Rightarrow> int \<Rightarrow> 'a file_state_scheme \<Rightarrow> ((int \<times> bytes) io \<times> 'a file_state_scheme) res" where
  "fileread f n s =
     (if \<not> f_readable (ftable s f) then Ok (Ret (-1, []), s)
      else
        (case f_type (ftable s f) of
           FD_PIPE \<Rightarrow> (case f_pipe (ftable s f) of None \<Rightarrow> Fault | Some p \<Rightarrow> piperead p n s)
         | FD_INODE \<Rightarrow>
             rbind (ilock (f_ip (ftable s f)) s) (\<lambda>s.
               case f_ip (ftable s f) of None \<Rightarrow> Fault
               | Some ip \<Rightarrow>
                   rbind (readi ip (f_off (ftable s f)) (of_int n) s) (\<lambda>(r, dst, s).
                     let s = (if r > 0 then upd_file f (\<lambda>e. e\<lparr>f_off := f_off e + of_int r\<rparr>) s else s)
                     in rbind (iunlock (Some ip) s) (\<lambda>s. Ok (Ret (r, dst), s))))
         | _ \<Rightarrow> Panic ''fileread''))"

definition FWMAX :: nat where "FWMAX = nat ((MAXOPBLOCKS - 1 - 1 - 2) div 2) * 512"

text \<open>One round: a transaction that writes \<open>n1\<close> bytes of \<open>src\<close>.\<close>

definition write_chunk :: "nat \<Rightarrow> bytes \<Rightarrow> nat \<Rightarrow> 'a file_state_scheme \<Rightarrow> (int \<times> 'a file_state_scheme) res" where
  "write_chunk f src n1 s =
     rbind (begin_op s) (\<lambda>s.
     rbind (ilock (f_ip (ftable s f)) s) (\<lambda>s.
     case f_ip (ftable s f) of None \<Rightarrow> Fault
     | Some ip \<Rightarrow>
     rbind (writei ip src (f_off (ftable s f)) (of_nat n1) s) (\<lambda>(r, s).
     let s = (if r > 0 then upd_file f (\<lambda>e. e\<lparr>f_off := f_off e + of_int r\<rparr>) s else s) in
     rbind (iunlock (Some ip) s) (\<lambda>s.
     rbind (end_op s) (\<lambda>s. Ok (r, s))))))"

text \<open>The loop with \<open>src\<close> the rest of the buffer; the result is the final \<open>i\<close>.\<close>

function filewrite_loop :: "nat \<Rightarrow> bytes \<Rightarrow> nat \<Rightarrow> nat \<Rightarrow> 'a file_state_scheme \<Rightarrow> (nat \<times> 'a file_state_scheme) res" where
  "filewrite_loop f src n i s =
     (if i < n then
        (let n1 = min (n - i) FWMAX in
         rbind (write_chunk f src n1 s) (\<lambda>(r, s).
           if r < 0 then Ok (i, s)
           else if r \<noteq> int n1 then Panic ''short filewrite''
           else filewrite_loop f (drop n1 src) n (i + n1) s))
      else Ok (i, s))"
  by pat_completeness auto
termination
  by (relation "measure (\<lambda>(f, src, n, i, s). n - i)") (auto simp: FWMAX_def MAXOPBLOCKS_def)

declare filewrite_loop.simps [simp del]

definition filewrite :: "nat \<Rightarrow> bytes \<Rightarrow> int \<Rightarrow> 'a file_state_scheme \<Rightarrow> (int io \<times> 'a file_state_scheme) res" where
  "filewrite f addr n s =
     (if \<not> f_writable (ftable s f) then Ok (Ret (-1), s)
      else
        (case f_type (ftable s f) of
           FD_PIPE \<Rightarrow> (case f_pipe (ftable s f) of None \<Rightarrow> Fault | Some p \<Rightarrow> pipewrite p addr n s)
         | FD_INODE \<Rightarrow>
             rbind (filewrite_loop f addr (nat n) 0 s) (\<lambda>(i, s). Ok (Ret (if int i = n then n else -1), s))
         | _ \<Rightarrow> Panic ''filewrite''))"

section \<open>Files across a commit\<close>

lemma upd_file_simps [simp]:
  "ftable (upd_file f g s) = (ftable s)(f := g (ftable s f))" "icache (upd_file f g s) = icache s" "log (upd_file f g s) = log s"
  "plist (upd_file f g s) = plist s" "ptable (upd_file f g s) = ptable s" "proc (upd_file f g s) = proc s"
  "blk (upd_file f g s) = blk s" "refs (upd_file f g s) = refs s" "bio_inv (upd_file f g s) = bio_inv s"
  "log_area (upd_file f g s) = log_area s" "room (upd_file f g s) = room s" "tx_inv (upd_file f g s) = tx_inv s"
  "fmap (upd_file f g s) = fmap s" "fbyte (upd_file f g s) = fbyte s" "fmid (upd_file f g s) = fmid s"
  by (simp_all add: upd_file_def blk_def refs_def bio_inv_def log_area_def log_blk_def room_def tx_inv_def log_wf_def
      log_layout_def fmap_def fbyte_def fmid_def fun_eq_iff cong: option.case_cong)

text \<open>A file that may be overwritten, none of whose blocks lies in the log.\<close>

definition settled :: "'a fs_state_scheme \<Rightarrow> nat \<Rightarrow> nat \<Rightarrow> bool" where
  "settled s ip N \<longleftrightarrow> writable s ip N \<and> map_blocks s ip N \<inter> log_area s = {}"

lemma settled_view:
  assumes s: "settled s ip N" and e: "icache s' = icache s" "log_area s' = log_area s" "\<And>m. m \<notin> log_area s \<Longrightarrow> blk s' m = blk s m"
  shows "\<And>k. k < N \<Longrightarrow> fmap s' ip k = fmap s ip k" "settled s' ip N"
    "\<And>pos. pos div BSIZE < N \<Longrightarrow> fbyte s' ip pos = fbyte s ip pos"
proof -
  have m: "map_blocks s ip N \<inter> log_area s = {}" and w: "writable s ip N" using s by (simp_all add: settled_def)
  have mid: "fmid s' ip k = fmid s ip k" if "NDIRECT \<le> k" "k < N" for k
  proof -
    have "i_addrs (icache s ip) ! NDIRECT \<notin> log_area s" using m that by (auto simp: map_blocks_def split: if_splits)
    then show ?thesis by (simp add: fmid_def e)
  qed
  show mp: "fmap s' ip k = fmap s ip k" if "k < N" for k
  proof (cases "k < NDIRECT")
    case False
    then have "fmid s ip k \<in> map_blocks s ip N" using that by (simp add: map_blocks_def)
    then have "fmid s ip k \<notin> log_area s" using m by blast
    then show ?thesis using False that mid [of k] e by (simp add: fmap_def)
  qed (simp add: fmap_def e)
  have mb: "map_blocks s' ip N = map_blocks s ip N" using mid e(1) by (auto simp: map_blocks_def)
  then show "settled s' ip N" using s mp mid e by (auto simp: settled_def writable_def mapped_def inj_on_def)
  show "fbyte s' ip pos = fbyte s ip pos" if "pos div BSIZE < N" for pos
    using that mp [OF that] w e(3) by (auto simp: fbyte_def writable_def)
qed

lemma log_idle_roomy: "log_idle s \<Longrightarrow> roomy 1 s"
  by (simp add: log_idle_def quiet_def quiet_roomy NBUF_def)

text \<open>What the rounds of \<open>filewrite\<close> rely on: an open, cached inode, and a range inside the file.\<close>

definition can_overwrite :: "'a file_state_scheme \<Rightarrow> nat \<Rightarrow> nat \<Rightarrow> nat \<Rightarrow> nat \<Rightarrow> bool" where
  "can_overwrite s f ip N n \<longleftrightarrow> log_idle s \<and> settled s ip N \<and> f_ip (ftable s f) = Some ip \<and>
     i_ref (icache s ip) \<ge> 1 \<and> i_valid (icache s ip) \<and> unat (f_off (ftable s f)) + n \<le> unat (i_size (icache s ip)) \<and>
     unat (i_size (icache s ip)) \<le> N * BSIZE \<and> N \<le> MAXFILE"

text \<open>What \<open>n\<close> bytes written at the file offset leave behind.\<close>

definition overwritten :: "'a file_state_scheme \<Rightarrow> nat \<Rightarrow> nat \<Rightarrow> nat \<Rightarrow> nat \<Rightarrow> bytes \<Rightarrow> 'a file_state_scheme \<Rightarrow> bool" where
  "overwritten s f ip N n src s' \<longleftrightarrow> log_idle s' \<and> settled s' ip N \<and> icache s' = icache s \<and> log_area s' = log_area s \<and>
     ftable s' = (ftable s)(f := (ftable s f)\<lparr>f_off := f_off (ftable s f) + of_nat n\<rparr>) \<and> plist s' = plist s \<and> ptable s' = ptable s \<and>
     proc s' = proc s \<and>
     (\<forall>pos. pos div BSIZE < N \<longrightarrow> fbyte s' ip pos =
        (let off = unat (f_off (ftable s f)) in if off \<le> pos \<and> pos < off + n then src ! (pos - off) else fbyte s ip pos)) \<and>
     (\<forall>b. b \<notin> fmap s ip ` {..<N} \<and> b \<notin> log_area s \<longrightarrow> blk s' b = blk s b) \<and> (\<forall>k < N. fmap s' ip k = fmap s ip k)"

lemma rounds_bound: "n \<le> 1536 \<Longrightarrow> rounds n off \<le> 4"
proof -
  assume "n \<le> 1536"
  moreover have "off mod 512 < 512" by simp
  ultimately have "(off mod 512 + n + 511) div 512 < 5" by (intro less_mult_imp_div_less) simp
  then show ?thesis by (simp add: rounds_def BSIZE_def)
qed

lemma write_chunk_spec:
  assumes c: "can_overwrite s f ip N n1" and n1: "0 < n1" "n1 \<le> FWMAX" "n1 \<le> length src"
  shows "\<exists>s'. write_chunk f src n1 s = Ok (int n1, s') \<and> overwritten s f ip N n1 src s'"
proof -
  define s1 where "s1 = s\<lparr>log := (log s)\<lparr>l_outstanding := 1\<rparr>\<rparr>"
  note c' = c [unfolded can_overwrite_def]
  have n: "n1 \<le> 1536" using n1 by (simp add: FWMAX_def MAXOPBLOCKS_def)
  then have un: "unat (of_nat n1 :: uint) = n1" by (intro unat_of_nat_small) simp
  have b: "begin_op s = Ok s1" "tx_inv s1" "room s1 \<ge> 10" using begin_op_idle [of s] c' by (simp_all add: s1_def MAXOPBLOCKS_def)
  have e1: "icache s1 = icache s" "ftable s1 = ftable s" "blk s1 = blk s" "refs s1 = refs s" "log_area s1 = log_area s" "plist s1 = plist s" "ptable s1 = ptable s" "proc s1 = proc s"
    using log_area_start [of s1 s] by (simp_all add: s1_def)
  have w: "writable s1 ip N" "fmap s1 = fmap s" "fbyte s1 = fbyte s"
    using c' e1 settled_view(2) [of s ip N s1] by (simp_all add: settled_def fmap_def fmid_def fbyte_def fun_eq_iff)
  have ry: "roomy 1 s1" using roomy_cong [of s1 s 1] e1 log_idle_roomy [of s] c' by simp
  let ?off = "f_off (ftable s f)"
  obtain s2 where s2: "writei ip src ?off (of_nat n1) s1 = Ok (int n1, s2)" "write_effect ip src n1 (unat ?off) N s1 s2"
    using writei_spec [OF b(2) ry w(1), of ?off "of_nat n1" src] c' n1 n e1 b(3) rounds_bound [OF n, of "unat ?off"] un by auto
  define s3 where "s3 = upd_file f (\<lambda>e. e\<lparr>f_off := f_off e + of_int (int n1)\<rparr>) s2"
  note we = s2(2) [unfolded write_effect_def]
  have fr: "tx_frame s1 s2" using we by simp
  have e2: "icache s2 = icache s" "ftable s2 = ftable s" "plist s2 = plist s" "ptable s2 = ptable s" "proc s2 = proc s" "log_area s2 = log_area s"
    using fr e1 tx_frame_same(6) [OF fr] by (auto elim!: tx_frameE)
  have l: "l_outstanding (log s2) = 1" "\<not> l_committing (log s2)" "l_size (log s2) > MAXOPBLOCKS"
    using tx_frame_same [OF fr] c' by (simp_all add: s1_def log_idle_def)
  have r0: "refs s2 = (\<lambda>_. 0)" using we e1 c' by (simp add: log_idle_def quiet_def)
  have "wp (end_op s3) (\<lambda>s'. log_idle s' \<and> log_frame s3 s' \<and> log_area s' = log_area s3 \<and>
     l_start (log s') = l_start (log s3) \<and> l_size (log s') = l_size (log s3) \<and> (\<forall>m. m \<notin> log_area s3 \<longrightarrow> blk s' m = blk s3 m))"
    using we l r0 by (intro end_op_spec) (simp_all add: s3_def)
  then obtain s' where s': "end_op s3 = Ok s'" "log_idle s'" "log_frame s3 s'" "log_area s' = log_area s2" "\<And>m. m \<notin> log_area s2 \<Longrightarrow> blk s' m = blk s2 m"
    by (auto simp: wp_iff s3_def)
  have e': "icache s' = icache s" "ftable s' = (ftable s)(f := (ftable s f)\<lparr>f_off := ?off + of_nat n1\<rparr>)" "plist s' = plist s" "ptable s' = ptable s" "proc s' = proc s"
    using s'(3) e2 by (auto elim!: log_frameE simp: s3_def)
  have st2: "settled s2 ip N"
  proof -
    have "map_blocks s2 ip N = map_blocks s ip N"
    proof -
      have nm: "m \<notin> fmap s ip ` {..<N}" if "m \<in> map_blocks s ip N" for m
        using c' that by (auto simp: settled_def writable_def)
      have top: "blk s2 m = blk s m" if "m \<in> map_blocks s ip N" for m using we nm [OF that] e1 w by auto
      have "fmid s2 ip k = fmid s ip k" if "NDIRECT < N" for k
        using top [of "i_addrs (icache s ip) ! NDIRECT"] that e2 by (simp add: fmid_def map_blocks_def)
      then show ?thesis using e2 by (auto simp: map_blocks_def)
    qed
    then show ?thesis using we c' e2 by (simp add: settled_def)
  qed
  have ic: "icache s' = icache s2" using e' e2 by simp
  have v: "\<And>k. k < N \<Longrightarrow> fmap s' ip k = fmap s2 ip k" "settled s' ip N" "\<And>pos. pos div BSIZE < N \<Longrightarrow> fbyte s' ip pos = fbyte s2 ip pos"
    using settled_view [OF st2 ic s'(4)] s'(5) by simp_all
  have "write_chunk f src n1 s = Ok (int n1, s')"
    using b(1) s2(1) s'(1) c' e1 e2 n1(1) by (simp add: write_chunk_def ilock_def iunlock_def Let_def s3_def)
  moreover have "overwritten s f ip N n1 src s'"
    unfolding overwritten_def
  proof (intro conjI allI impI)
    fix pos assume p: "pos div BSIZE < N"
    show "fbyte s' ip pos = (let off = unat ?off in if off \<le> pos \<and> pos < off + n1 then src ! (pos - off) else fbyte s ip pos)"
      using v(3) [OF p] we p w by (simp add: Let_def)
  next
    fix b assume "b \<notin> fmap s ip ` {..<N} \<and> b \<notin> log_area s"
    then show "blk s' b = blk s b" using s'(5) we e1 e2 w by auto
  next
    fix k assume "k < N"
    then show "fmap s' ip k = fmap s ip k" using v(1) we w by simp
  qed (use s' e' e2 v(2) in simp_all)
  ultimately show ?thesis by blast
qed

lemma overwritten_seq:
  assumes 1: "overwritten s f ip N n1 src t" and 2: "overwritten t f ip N m (drop n1 src) s'" and len: "n1 \<le> length src"
    and nw: "unat (f_off (ftable s f) + of_nat n1) = unat (f_off (ftable s f)) + n1"
  shows "overwritten s f ip N (n1 + m) src s'"
proof -
  note 1 = 1 [unfolded overwritten_def] and 2 = 2 [unfolded overwritten_def]
  have img: "fmap t ip ` {..<N} = fmap s ip ` {..<N}" using 1 by auto
  have off: "unat (f_off (ftable t f)) = unat (f_off (ftable s f)) + n1" using 1 nw by simp
  have "fbyte s' ip pos = (let off = unat (f_off (ftable s f)) in if off \<le> pos \<and> pos < off + (n1 + m) then src ! (pos - off) else fbyte s ip pos)"
    if "pos div BSIZE < N" for pos
  proof -
    have a: "fbyte s' ip pos = (let off = unat (f_off (ftable t f)) in if off \<le> pos \<and> pos < off + m then drop n1 src ! (pos - off) else fbyte t ip pos)"
      using 2 that by blast
    have b: "fbyte t ip pos = (let off = unat (f_off (ftable s f)) in if off \<le> pos \<and> pos < off + n1 then src ! (pos - off) else fbyte s ip pos)"
      using 1 that by blast
    show ?thesis using len unfolding a b off Let_def by auto
  qed
  moreover have "blk s' b = blk s b" if "b \<notin> fmap s ip ` {..<N} \<and> b \<notin> log_area s" for b
    using 1 2 that img by auto
  moreover have "fmap s' ip k = fmap s ip k" if "k < N" for k using 1 2 that by simp
  ultimately show ?thesis using 1 2 unfolding overwritten_def by (simp add: add.assoc)
qed

lemma can_overwrite_le: "can_overwrite s f ip N n \<Longrightarrow> m \<le> n \<Longrightarrow> can_overwrite s f ip N m"
  by (auto simp: can_overwrite_def)

lemma filewrite_loop_spec:
  assumes "can_overwrite s f ip N (n - i)" "n - i \<le> length src" "i \<le> n"
  shows "\<exists>s'. filewrite_loop f src n i s = Ok (n, s') \<and> overwritten s f ip N (n - i) src s'"
  using assms
proof (induction "n - i" arbitrary: i s src rule: less_induct)
  case less
  show ?case
  proof (cases "i < n")
    case False
    then show ?thesis using less.prems
      by (subst filewrite_loop.simps) (auto simp: overwritten_def can_overwrite_def Let_def)
  next
    case True
    define n1 where "n1 = min (n - i) FWMAX"
    have n1: "0 < n1" "n1 \<le> FWMAX" "n1 \<le> n - i" using True by (simp_all add: n1_def FWMAX_def MAXOPBLOCKS_def)
    note c = less.prems(1) [unfolded can_overwrite_def]
    have "can_overwrite s f ip N n1" by (rule can_overwrite_le [OF less.prems(1) n1(3)])
    then obtain t where t: "write_chunk f src n1 s = Ok (int n1, t)" "overwritten s f ip N n1 src t"
      using write_chunk_spec [of s f ip N n1 src] n1 less.prems(2) by auto
    note o = t(2) [unfolded overwritten_def]
    have small: "unat (f_off (ftable s f)) + (n - i) < 2 ^ 32" using c by (simp add: MAXFILE_val BSIZE_def)
    then have "unat (of_nat n1 :: uint) = n1" using n1 by (intro unat_of_nat_small) simp
    then have nw: "unat (f_off (ftable s f) + of_nat n1) = unat (f_off (ftable s f)) + n1"
      using small n1 by (simp add: unat_word_ariths)
    have "can_overwrite t f ip N (n - (i + n1))" using c o nw n1 by (auto simp: can_overwrite_def)
    moreover have "n - (i + n1) < n - i" "n - (i + n1) \<le> length (drop n1 src)" "i + n1 \<le> n"
      using n1 True less.prems(2) unfolding length_drop by linarith+
    ultimately obtain s' where s': "filewrite_loop f (drop n1 src) n (i + n1) t = Ok (n, s')"
      "overwritten t f ip N (n - (i + n1)) (drop n1 src) s'"
      using less.hyps [of "i + n1" t "drop n1 src"] by blast
    have "overwritten s f ip N (n1 + (n - (i + n1))) src s'"
      using less.prems(2) n1 by (intro overwritten_seq [OF t(2) s'(2) _ nw]) simp
    moreover have "filewrite_loop f src n i s = Ok (n, s')"
      using True t(1) s'(1) by (subst filewrite_loop.simps) (simp add: n1_def Let_def)
    ultimately show ?thesis using n1 by auto
  qed
qed

lemma filewrite_spec:
  assumes "can_overwrite s f ip N n" "f_writable (ftable s f)" "f_type (ftable s f) = FD_INODE" "n \<le> length addr"
  shows "\<exists>s'. filewrite f addr (int n) s = Ok (Ret (int n), s') \<and> overwritten s f ip N n addr s'"
  using filewrite_loop_spec [of s f ip N n 0 addr] assms by (auto simp: filewrite_def)

lemma fileread_spec:
  assumes c: "can_overwrite s f ip N n" and r: "f_readable (ftable s f)" "f_type (ftable s f) = FD_INODE" and n: "n < 2 ^ 31"
  shows "\<exists>s'. fileread f (int n) s = Ok (Ret (int n, map (fbyte s ip) [unat (f_off (ftable s f))..<unat (f_off (ftable s f)) + n]), s') \<and>
     read_only s (s'\<lparr>ftable := ftable s\<rparr>) \<and> ftable s' = (ftable s)(f := (ftable s f)\<lparr>f_off := f_off (ftable s f) + of_nat n\<rparr>)"
proof -
  note c' = c [unfolded can_overwrite_def]
  let ?off = "f_off (ftable s f)" and ?sz = "i_size (icache s ip)"
  have un: "unat (of_nat n :: uint) = n" using n by (intro unat_of_nat_small) simp
  have bound: "N * BSIZE < 2 ^ 31" using c' by (simp add: MAXFILE_val BSIZE_def)
  have "mapped s ip k" if "k * BSIZE < unat ?sz" for k
  proof -
    have "k * BSIZE < N * BSIZE" using that c' by linarith
    then have "k < N" by simp
    then show ?thesis using c' by (simp add: settled_def writable_def)
  qed
  moreover have "?sz < 2 ^ 31" using c' bound by (simp add: word_less_nat_alt)
  moreover have "?off \<le> ?sz" using c' by (simp add: word_le_nat_alt)
  moreover have "unat (?off + of_nat n) = unat ?off + n" using un c' bound by (simp add: unat_word_ariths)
  then have "\<not> ?off + of_nat n < ?off" by (simp add: word_less_nat_alt)
  moreover have "n \<le> unat ?sz - unat ?off" using c' by linarith
  then have "n = min (unat (of_nat n :: uint)) (unat ?sz - unat ?off)" unfolding un by simp
  moreover have "bio_inv s" "roomy 1 s" using c' log_idle_roomy by (auto simp: log_idle_def quiet_def)
  ultimately obtain t where t: "readi ip ?off (of_nat n) s = Ok (int n, map (fbyte s ip) [unat ?off..<unat ?off + n], t)" "read_only s t"
    using readi_spec [of s ip ?off "of_nat n" n] by blast
  define s' where "s' = (if 0 < n then upd_file f (\<lambda>e. e\<lparr>f_off := f_off e + of_int (int n)\<rparr>) t else t)"
  have ft: "ftable t = ftable s" "icache t = icache s" using read_onlyD(4) [OF t(2)] by (auto elim!: bio_frameE)
  have "fileread f (int n) s = Ok (Ret (int n, map (fbyte s ip) [unat ?off..<unat ?off + n]), s')"
    using r c' t(1) ft by (simp add: fileread_def ilock_def iunlock_def s'_def)
  moreover have "s'\<lparr>ftable := ftable s\<rparr> = t" using ft by (simp add: s'_def upd_file_def)
  moreover have "ftable s' = (ftable s)(f := (ftable s f)\<lparr>f_off := ?off + of_nat n\<rparr>)"
    using ft by (auto simp: s'_def)
  ultimately show ?thesis using t(2) by auto
qed

section \<open>Ends of pipes\<close>

interpretation ft: slot_table "\<lambda>f. f_ref f = 0" "\<lambda>f. f\<lparr>f_ref := 1\<rparr>" NFILE
  by unfold_locales simp

interpretation pt: slot_table pi_isfree "\<lambda>p. p\<lparr>pi_isfree := False\<rparr>" NPIPE
  by unfold_locales simp

definition live_end :: "xfile \<Rightarrow> nat \<Rightarrow> bool \<Rightarrow> bool" where
  "live_end e p wr \<longleftrightarrow> f_ref e > 0 \<and> f_type e = FD_PIPE \<and> f_pipe e = Some p \<and> f_writable e = wr"

definition pipe_ends_of :: "(nat \<Rightarrow> xfile) \<Rightarrow> nat \<Rightarrow> bool \<Rightarrow> nat set" where
  "pipe_ends_of ft p wr = {f. live_end (ft f) p wr}"

definition end_ok :: "bool \<Rightarrow> nat set \<Rightarrow> bool" where
  "end_ok is_open E \<longleftrightarrow> (if is_open then \<exists>f. E = {f} else E = {})"

definition pipe_ok :: "pipe \<Rightarrow> nat set \<Rightarrow> nat set \<Rightarrow> bool" where
  "pipe_ok p R W \<longleftrightarrow>
     (if pi_isfree p then R = {} \<and> W = {}
      else end_ok (pi_readopen p) R \<and> end_ok (pi_writeopen p) W \<and> (pi_readopen p \<or> pi_writeopen p))"

text \<open>
  Unused entries of the table have no type; an open pipe end names a pipe of the table; a pipe in
  use has exactly one open file for each end that is marked open, and at least one.
\<close>

definition file_inv :: "(nat \<Rightarrow> xfile) \<Rightarrow> (nat \<Rightarrow> pipe) \<Rightarrow> bool" where
  "file_inv ft pl \<longleftrightarrow>
     (\<forall>f. f_ref (ft f) \<ge> 0 \<and> (f_ref (ft f) = 0 \<longrightarrow> f_type (ft f) = FD_NONE) \<and>
        (f_type (ft f) = FD_PIPE \<longrightarrow> (\<exists>p < NPIPE. f_pipe (ft f) = Some p))) \<and>
     (\<forall>p < NPIPE. pipe_ok (pl p) (pipe_ends_of ft p False) (pipe_ends_of ft p True))"

lemma file_invD:
  assumes "file_inv ft pl"
  shows "f_ref (ft f) \<ge> 0" "f_ref (ft f) = 0 \<Longrightarrow> f_type (ft f) = FD_NONE"
    "f_type (ft f) = FD_PIPE \<Longrightarrow> \<exists>p < NPIPE. f_pipe (ft f) = Some p"
    "p < NPIPE \<Longrightarrow> pipe_ok (pl p) (pipe_ends_of ft p False) (pipe_ends_of ft p True)"
  using assms by (auto simp: file_inv_def)

text \<open>Changing an entry that is no pipe end, before and after; or keeping what kind of end it is.\<close>

lemma ends_same: "(\<And>q w. live_end e q w = live_end (ft f) q w) \<Longrightarrow> pipe_ends_of (ft(f := e)) p wr = pipe_ends_of ft p wr"
  by (auto simp: pipe_ends_of_def)

lemma file_inv_upd:
  assumes "file_inv ft pl" "\<And>q w. live_end e q w = live_end (ft f) q w" "f_ref e \<ge> 0" "f_ref e = 0 \<Longrightarrow> f_type e = FD_NONE"
    "f_type e = FD_PIPE \<Longrightarrow> \<exists>p < NPIPE. f_pipe e = Some p"
  shows "file_inv (ft(f := e)) pl"
  using assms(1,3-5) ends_same [of e ft f, OF assms(2)] by (auto simp: file_inv_def)

lemma more_files:
  assumes "fs_state.more s' = fs_state.more s"
  shows "ftable s' = ftable s" "plist s' = plist s"
  using assms by (cases s; cases s'; simp)+

lemma core_files: "core s' = core s \<Longrightarrow> ftable s' = ftable s \<and> plist s' = plist s"
  using more_files [OF coreD(8)] by auto

lemma set_errno_files [simp]: "ftable (set_errno e s) = ftable s" "plist (set_errno e s) = plist s"
  by (simp_all add: set_errno_def)

lemma wakeup_files [simp]: "ftable (wakeup ch s) = ftable s"
  by (simp add: wakeup_def wakeup1_def)

lemma upd_pipe_files [simp]: "ftable (upd_pipe p f s) = ftable s"
  by (simp add: upd_pipe_def)

text \<open>Closing one end of a pipe that has that end open.\<close>

lemma pipeclose_ok:
  assumes u: "\<not> pi_isfree (plist s p)" and w: "if wr then pi_writeopen (plist s p) else pi_readopen (plist s p)"
    and k: "pipe_ok (plist s p) R W"
  shows "\<exists>s' q. pipeclose p wr s = Ok s' \<and> ftable s' = ftable s \<and> plist s' = (plist s)(p := q) \<and>
     pipe_ok q (if wr then R else {}) (if wr then {} else W)"
proof -
  define t where "t = (if wr then wakeup (ChNread p) (upd_pipe p (\<lambda>r. r\<lparr>pi_writeopen := False\<rparr>) s)
               else wakeup (ChNwrite p) (upd_pipe p (\<lambda>r. r\<lparr>pi_readopen := False\<rparr>) s))"
  let ?o = "if wr then pi_readopen (plist s p) else pi_writeopen (plist s p)"
  define q where "q = (if wr then (plist s p)\<lparr>pi_writeopen := False\<rparr> else (plist s p)\<lparr>pi_readopen := False\<rparr>)"
  have t: "ftable t = ftable s" "plist t = (plist s)(p := q)" by (simp_all add: t_def q_def)
  have q: "pi_isfree q = pi_isfree (plist s p)" "pi_readopen q \<or> pi_writeopen q \<longleftrightarrow> ?o"
    "pi_readopen q = (\<not> wr \<and> False \<or> wr \<and> pi_readopen (plist s p))" "pi_writeopen q = (\<not> wr \<and> pi_writeopen (plist s p))"
    by (simp_all add: q_def)
  have eq: "pipeclose p wr s = (if ?o then Ok t else pfree (Some p) t)"
    using q(2) t by (auto simp: pipeclose_def Let_def t_def [symmetric])
  show ?thesis
  proof (cases ?o)
    case True
    have "pipe_ok q (if wr then R else {}) (if wr then {} else W)"
      using k u w True q by (cases wr) (simp_all add: pipe_ok_def end_ok_def)
    then show ?thesis using eq t True by auto
  next
    case False
    have "pfree (Some p) t = Ok (upd_pipe p (\<lambda>r. r\<lparr>pi_isfree := True\<rparr>) t)" using u q t by (simp add: pfree_def)
    moreover have "pipe_ok (q\<lparr>pi_isfree := True\<rparr>) (if wr then R else {}) (if wr then {} else W)"
      using k u w False by (cases wr) (simp_all add: pipe_ok_def end_ok_def)
    ultimately show ?thesis using eq t False by auto
  qed
qed

lemma fileclose_pipe:
  assumes inv: "file_inv (ftable s) (plist s)" and f: "f_ref (ftable s f) = 1" "f_type (ftable s f) = FD_PIPE"
  shows "\<exists>s'. fileclose f s = Ok s' \<and> file_inv (ftable s') (plist s')"
proof -
  let ?e = "ftable s f"
  obtain p where p: "p < NPIPE" "f_pipe ?e = Some p" using file_invD(3) [OF inv f(2)] by auto
  let ?R = "pipe_ends_of (ftable s) p False" and ?W = "pipe_ends_of (ftable s) p True"
  let ?t = "upd_file f (\<lambda>e. e\<lparr>f_ref := 0, f_type := FD_NONE\<rparr>) (upd_file f (\<lambda>e. e\<lparr>f_ref := f_ref e - 1\<rparr>) s)"
  have ok: "pipe_ok (plist s p) ?R ?W" by (rule file_invD(4) [OF inv p(1)])
  have mem: "f \<in> (if f_writable ?e then ?W else ?R)" using f p by (simp add: pipe_ends_of_def live_end_def)
  have use: "\<not> pi_isfree (plist s p)" "if f_writable ?e then pi_writeopen (plist s p) else pi_readopen (plist s p)"
    "(if f_writable ?e then ?W else ?R) = {f}"
    using mem ok by (auto simp: pipe_ok_def end_ok_def split: if_splits)
  obtain s' q where s': "pipeclose p (f_writable ?e) ?t = Ok s'" "ftable s' = ftable ?t" "plist s' = (plist s)(p := q)"
    "pipe_ok q (if f_writable ?e then ?R else {}) (if f_writable ?e then {} else ?W)"
    using pipeclose_ok [of ?t p "f_writable ?e" ?R ?W] use(1,2) ok unfolding upd_file_simps by blast
  have ft: "ftable s' = (ftable s)(f := ?e\<lparr>f_ref := 0, f_type := FD_NONE\<rparr>)" using s'(2) by simp
  have E: "pipe_ends_of (ftable s') r w = pipe_ends_of (ftable s) r w - {f}" for r w
    by (auto simp: ft pipe_ends_of_def live_end_def)
  have other: "f \<notin> pipe_ends_of (ftable s) r w" if "r \<noteq> p \<or> w \<noteq> f_writable ?e" for r w
    using p that by (auto simp: pipe_ends_of_def live_end_def)
  have "pipe_ok (plist s' r) (pipe_ends_of (ftable s') r False) (pipe_ends_of (ftable s') r True)" if "r < NPIPE" for r
  proof (cases "r = p")
    case True
    then show ?thesis using s'(3,4) use(3) other [of p "\<not> f_writable ?e"] by (cases "f_writable ?e") (auto simp: E)
  next
    case False
    then show ?thesis using s'(3) file_invD(4) [OF inv that] other [of r] by (simp add: E)
  qed
  then have "file_inv (ftable s') (plist s')" using inv unfolding file_inv_def ft by simp
  moreover have "fileclose f s = Ok s'" using s'(1) f p by (simp add: fileclose_def Let_def file_release_def)
  ultimately show ?thesis by blast
qed

lemma filealloc_cases:
  assumes "filealloc s = (r, s')"
  obtains "r = None" "s' = s" "card (ft.used (ftable s)) = NFILE"
  | f where "r = Some f" "f < NFILE" "f_ref (ftable s f) = 0" "s' = upd_file f (\<lambda>e. e\<lparr>f_ref := 1\<rparr>) s"
proof (cases "alloc_slot (\<lambda>f. f_ref f = 0) (\<lambda>f. f\<lparr>f_ref := 1\<rparr>) NFILE (ftable s)")
  case None
  then show ?thesis using assms that(1) ft.alloc_full by (auto simp: filealloc_def)
next
  case (Some a)
  obtain f t where a: "a = (f, t)" by fastforce
  have "t = (ftable s)(f := (ftable s f)\<lparr>f_ref := 1\<rparr>)" using Some a by (auto simp: alloc_slot_def split: option.splits)
  then show ?thesis using assms that(2) [of f] Some a ft.alloc_fresh [of "ftable s" f t] by (auto simp: filealloc_def upd_file_def)
qed

lemma palloc_cases:
  assumes "palloc s = (r, s')"
  obtains "r = None" "s' = s" "card (pt.used (plist s)) = NPIPE"
  | p where "r = Some p" "p < NPIPE" "pi_isfree (plist s p)" "s' = upd_pipe p (\<lambda>e. e\<lparr>pi_isfree := False\<rparr>) s"
proof (cases "alloc_slot pi_isfree (\<lambda>p. p\<lparr>pi_isfree := False\<rparr>) NPIPE (plist s)")
  case None
  then show ?thesis using assms that(1) pt.alloc_full by (auto simp: palloc_def)
next
  case (Some a)
  obtain p t where a: "a = (p, t)" by fastforce
  have "t = (plist s)(p := (plist s p)\<lparr>pi_isfree := False\<rparr>)" using Some a by (auto simp: alloc_slot_def split: option.splits)
  then show ?thesis using assms that(2) [of p] Some a pt.alloc_fresh [of "plist s" p t] by (auto simp: palloc_def upd_pipe_def)
qed

lemma filealloc_inv:
  assumes "filealloc s = (Some f, s')" "file_inv (ftable s) (plist s)"
  shows "file_inv (ftable s') (plist s')" "plist s' = plist s" "f_type (ftable s' f) = FD_NONE" "f_ref (ftable s' f) = 1"
    "f_ref (ftable s f) = 0" "ftable s' = (ftable s)(f := (ftable s f)\<lparr>f_ref := 1\<rparr>)"
proof -
  from assms(1) have s': "f_ref (ftable s f) = 0" "s' = upd_file f (\<lambda>e. e\<lparr>f_ref := 1\<rparr>) s" by (auto elim: filealloc_cases)
  then have "f_type (ftable s f) = FD_NONE" using file_invD(2) [OF assms(2)] by simp
  with s' assms(2) show "file_inv (ftable s') (plist s')" "plist s' = plist s" "f_type (ftable s' f) = FD_NONE"
    "f_ref (ftable s' f) = 1" "f_ref (ftable s f) = 0" "ftable s' = (ftable s)(f := (ftable s f)\<lparr>f_ref := 1\<rparr>)"
    by (auto simp: live_end_def intro!: file_inv_upd)
qed

text \<open>A file just allocated is closed again without further effect.\<close>

lemma fileclose_fresh:
  assumes "f_ref (ftable s f) = 1" "f_type (ftable s f) = FD_NONE"
  shows "fileclose f s = Ok (upd_file f (\<lambda>e. e\<lparr>f_ref := 0, f_type := FD_NONE\<rparr>) s)"
  using assms by (simp add: fileclose_def Let_def file_release_def upd_file_def)

lemma fresh_close_inv:
  assumes "file_inv ft pl" "f_type (ft f) = FD_NONE"
  shows "file_inv (ft(f := (ft f)\<lparr>f_ref := 0, f_type := FD_NONE\<rparr>)) pl"
  using assms by (intro file_inv_upd) (auto simp: live_end_def)

lemma pipealloc_opens:
  assumes inv: "file_inv ft pl" and f: "f0 \<noteq> f1" "f_type (ft f0) = FD_NONE" "f_type (ft f1) = FD_NONE" "f_ref (ft f0) = 1" "f_ref (ft f1) = 1"
    and p: "p < NPIPE" "pi_isfree (pl p)"
  shows "file_inv (ft(f0 := pipe_end p False (ft f0), f1 := pipe_end p True (ft f1))) (pl(p := pipe_open ((pl p)\<lparr>pi_isfree := False\<rparr>)))"
proof -
  let ?ft = "ft(f0 := pipe_end p False (ft f0), f1 := pipe_end p True (ft f1))"
  have none: "pipe_ends_of ft p w = {}" for w using file_invD(4) [OF inv p(1)] p(2) by (cases w) (simp_all add: pipe_ok_def)
  have nf: "f0 \<notin> pipe_ends_of ft q w" "f1 \<notin> pipe_ends_of ft q w" for q w using f by (auto simp: pipe_ends_of_def live_end_def)
  have E: "pipe_ends_of ?ft q w = pipe_ends_of ft q w \<union> (if q = p then (if w then {f1} else {f0}) else {})" for q w
    using nf f by (auto simp: pipe_ends_of_def live_end_def pipe_end_def)
  have "pipe_ok ((pl(p := pipe_open ((pl p)\<lparr>pi_isfree := False\<rparr>))) q) (pipe_ends_of ?ft q False) (pipe_ends_of ?ft q True)" if "q < NPIPE" for q
    using file_invD(4) [OF inv that] none by (cases "q = p") (simp_all add: E, simp add: pipe_ok_def end_ok_def pipe_open_def)
  moreover have "f_ref (?ft g) \<ge> 0 \<and> (f_ref (?ft g) = 0 \<longrightarrow> f_type (?ft g) = FD_NONE) \<and>
        (f_type (?ft g) = FD_PIPE \<longrightarrow> (\<exists>p < NPIPE. f_pipe (?ft g) = Some p))" for g
    using file_invD(1-3) [OF inv, of g] f p by (auto simp: pipe_end_def)
  ultimately show ?thesis unfolding file_inv_def by blast
qed

lemma pipealloc_inv:
  assumes "pipealloc s = Ok (r, s')" and inv: "file_inv (ftable s) (plist s)"
  shows "file_inv (ftable s') (plist s')"
proof -
  obtain r0 s0 where a0: "filealloc s = (r0, s0)" by fastforce
  show ?thesis
  proof (cases r0)
    case None
    then have "s0 = s" using a0 by (auto elim: filealloc_cases)
    then show ?thesis using assms None a0 by (auto simp: pipealloc_def pipealloc_bad_def close_opt_def)
  next
    case (Some f0)
    note i0 = filealloc_inv [OF a0 [unfolded Some] inv]
    obtain r1 s1 where a1: "filealloc s0 = (r1, s1)" by fastforce
    show ?thesis
    proof (cases r1)
      case None
      then have s1: "s1 = s0" using a1 by (auto elim: filealloc_cases)
      have "s' = set_errno ENFILE (upd_file f0 (\<lambda>e. e\<lparr>f_ref := 0, f_type := FD_NONE\<rparr>) s0)"
        using assms(1) a0 a1 Some None s1 fileclose_fresh [OF i0(4,3)] by (simp add: pipealloc_def pipealloc_bad_def close_opt_def)
      then show ?thesis using fresh_close_inv [OF i0(1,3)] by simp
    next
      case (Some f1)
      note i1 = filealloc_inv [OF a1 [unfolded Some] i0(1)]
      have ne: "f0 \<noteq> f1" using i0(4) i1(5) by auto
      then have g0: "f_type (ftable s1 f0) = FD_NONE" "f_ref (ftable s1 f0) = 1" using i0(3,4) i1(6) by simp_all
      obtain r2 s2 where a2: "palloc s1 = (r2, s2)" by fastforce
      show ?thesis
      proof (cases r2)
        case None
        then have s2: "s2 = s1" using a2 by (auto elim: palloc_cases)
        let ?u = "upd_file f0 (\<lambda>e. e\<lparr>f_ref := 0, f_type := FD_NONE\<rparr>) s1"
        have u: "f_type (ftable ?u f1) = FD_NONE" "f_ref (ftable ?u f1) = 1" "file_inv (ftable ?u) (plist ?u)"
          using ne i1(3,4) fresh_close_inv [OF i1(1) g0(1)] by simp_all
        have "s' = set_errno ENFILE (upd_file f1 (\<lambda>e. e\<lparr>f_ref := 0, f_type := FD_NONE\<rparr>) ?u)"
          using assms(1) a0 a1 a2 \<open>r0 = Some f0\<close> \<open>r1 = Some f1\<close> None s2 fileclose_fresh [OF g0(2,1)] fileclose_fresh [OF u(2,1)]
          by (simp add: pipealloc_def pipealloc_bad_def close_opt_def)
        then show ?thesis using fresh_close_inv [of "ftable ?u" "plist ?u" f1] u ne by simp
      next
        case (Some p)
        then have p: "p < NPIPE" "pi_isfree (plist s1 p)" "s2 = upd_pipe p (\<lambda>e. e\<lparr>pi_isfree := False\<rparr>) s1"
          using a2 by (auto elim: palloc_cases)
        have "s' = upd_file f1 (pipe_end p True) (upd_file f0 (pipe_end p False) (upd_pipe p pipe_open s2))"
          using assms(1) a0 a1 a2 \<open>r0 = Some f0\<close> \<open>r1 = Some f1\<close> Some by (simp add: pipealloc_def)
        then show ?thesis
          using pipealloc_opens [OF i1(1) ne g0(1) i1(3) g0(2) i1(4) p(1,2)] p(3) ne by simp
      qed
    qed
  qed
qed

text \<open>Reads and writes keep the flags of every pipe.\<close>

definition pipe_flags :: "pipe \<Rightarrow> bool \<times> bool \<times> bool" where
  "pipe_flags p = (pi_isfree p, pi_readopen p, pi_writeopen p)"

lemma pipe_flags_put [simp]: "pipe_flags (pipe_put c p) = pipe_flags p"
  by (simp add: pipe_flags_def pipe_put_def)

lemma pipe_flags_copy: "pipe_copy n p = (cs, q) \<Longrightarrow> pipe_flags q = pipe_flags p"
  by (induction n arbitrary: p cs q) (fastforce simp: pipe_flags_def pipe_get_def Let_def split: if_splits prod.splits)+

lemma sleep_files: "sleep ch s = Ok s' \<Longrightarrow> ftable s' = ftable s \<and> plist s' = plist s"
  by (auto simp: sleep_def scheduler_def myproc_def Let_def swtch_def upd_proc_def split: option.splits)

lemma pipewrite_loop_flags: "pipewrite_loop p addr n i s = Ok (r, s') \<Longrightarrow> ftable s' = ftable s \<and> pipe_flags (plist s' q) = pipe_flags (plist s q)"
proof (induction p addr n i s rule: pipewrite_loop.induct)
  case (1 p addr n i s)
  show ?case
  proof (cases "i < n \<and> \<not> pipe_full (plist s p)")
    case True
    then have "pipewrite_loop p addr n (Suc i) (upd_pipe p (pipe_put (addr ! i)) s) = Ok (r, s')"
      using 1(2) by (subst (asm) pipewrite_loop.simps) simp
    with 1(1) True show ?thesis by auto
  next
    case False
    then show ?thesis
      using 1(2) by (subst (asm) pipewrite_loop.simps) (auto split: if_splits dest!: sleep_files)
  qed
qed

lemma pipewrite_flags: "pipewrite p addr n s = Ok (r, s') \<Longrightarrow> ftable s' = ftable s \<and> pipe_flags (plist s' q) = pipe_flags (plist s q)"
  by (auto simp: pipewrite_def split: if_splits dest: pipewrite_loop_flags)

lemma piperead_flags: "piperead p n s = Ok (r, s') \<Longrightarrow> ftable s' = ftable s \<and> pipe_flags (plist s' q) = pipe_flags (plist s q)"
  by (auto simp: piperead_def split: if_splits prod.splits dest!: sleep_files pipe_flags_copy)

lemma file_inv_flags: "file_inv ft pl \<Longrightarrow> (\<And>q. pipe_flags (pl' q) = pipe_flags (pl q)) \<Longrightarrow> file_inv ft pl'"
  by (simp add: file_inv_def pipe_ok_def pipe_flags_def)

lemma fileclose_inv:
  assumes c: "fileclose f s = Ok s'" and inv: "file_inv (ftable s) (plist s)"
  shows "file_inv (ftable s') (plist s')"
proof -
  let ?e = "ftable s f" and ?t = "upd_file f (\<lambda>e. e\<lparr>f_ref := f_ref e - 1\<rparr>) s"
  have r: "f_ref ?e \<ge> 1" using c by (auto simp: fileclose_def split: if_splits)
  consider "f_ref ?e > 1" | "f_ref ?e = 1" "f_type ?e = FD_PIPE" | "f_ref ?e = 1" "f_type ?e \<noteq> FD_PIPE" using r by linarith
  then show ?thesis
  proof cases
    case 1
    then have "s' = ?t" using c by (simp add: fileclose_def Let_def split: if_splits)
    then show ?thesis
      using 1 file_invD(3) [OF inv, of f] by (auto simp: live_end_def intro!: file_inv_upd [OF inv])
  next
    case 2
    then show ?thesis using fileclose_pipe [OF inv] c by force
  next
    case 3
    let ?u = "upd_file f (\<lambda>e. e\<lparr>f_ref := 0, f_type := FD_NONE\<rparr>) ?t"
    have "file_release (ftable ?t f) ?u = Ok s'" using c 3(1) by (simp add: fileclose_def Let_def split: if_splits)
    then have "ftable s' = ftable ?u" "plist s' = plist ?u"
      using 3(2) by (auto simp: file_release_def split: ftype.splits option.splits dest!: fs_core core_files)
    then show ?thesis using 3(2) by (auto simp: live_end_def intro!: file_inv_upd [OF inv])
  qed
qed

text \<open>
  The events of the two tables: creating a pipe, opening something else, duplicating and closing
  an open file, and moving bytes through a pipe.
\<close>

inductive file_step :: "'a file_state_scheme \<Rightarrow> 'a file_state_scheme \<Rightarrow> bool" where
  st_pipe: "pipealloc s = Ok (r, s') \<Longrightarrow> file_step s s'"
| st_open: "filealloc s = (Some f, t) \<Longrightarrow> ty \<noteq> FD_PIPE \<Longrightarrow>
     file_step s (upd_file f (\<lambda>e. e\<lparr>f_type := ty, f_ip := ip, f_off := off, f_readable := rd, f_writable := wr\<rparr>) t)"
| st_dup: "filedup f s = Ok s' \<Longrightarrow> file_step s s'"
| st_close: "fileclose f s = Ok s' \<Longrightarrow> file_step s s'"
| st_write: "pipewrite p addr n s = Ok (x, s') \<Longrightarrow> file_step s s'"
| st_read: "piperead p n s = Ok (y, s') \<Longrightarrow> file_step s s'"

inductive_cases file_stepE: "file_step s s'"

lemma file_step_inv:
  assumes "file_step s s'" and inv: "file_inv (ftable s) (plist s)"
  shows "file_inv (ftable s') (plist s')"
  using assms(1)
proof cases
  case (st_pipe r)
  then show ?thesis using pipealloc_inv inv by blast
next
  case (st_open f t ty wr rd off ip)
  note i = filealloc_inv [OF st_open(2) inv]
  have "file_inv ((ftable t)(f := (ftable t f)\<lparr>f_type := ty, f_ip := ip, f_off := off, f_readable := rd, f_writable := wr\<rparr>)) (plist t)"
    using i(3,4) st_open(3) by (intro file_inv_upd [OF i(1)]) (auto simp: live_end_def)
  then show ?thesis using st_open(1) by simp
next
  case (st_dup f)
  then have s': "s' = upd_file f (\<lambda>e. e\<lparr>f_ref := f_ref e + 1\<rparr>) s" "f_ref (ftable s f) \<ge> 1"
    by (auto simp: filedup_def split: if_splits)
  then show ?thesis
    using file_invD(3) [OF inv, of f] by (auto simp: live_end_def intro!: file_inv_upd [OF inv])
next
  case (st_close f)
  then show ?thesis using fileclose_inv inv by blast
next
  case (st_write p addr n x)
  then show ?thesis using pipewrite_flags [OF st_write] file_inv_flags [OF inv] by simp
next
  case (st_read p n y)
  then show ?thesis using piperead_flags [OF st_read] file_inv_flags [OF inv] by simp
qed

section \<open>Properties\<close>

text \<open>
  C24. A pipe lives exactly as long as an end of it is open. Along every sequence of creating pipes,
  opening, duplicating and closing files and moving bytes: each pipe in use has exactly one open
  file for each end it has marked open and at least one, each free pipe has none, and so closing
  any open end succeeds; the panics of \<open>pfree\<close> are out of reach.
\<close>

theorem pipe_lifetime:
  assumes "file_step\<^sup>*\<^sup>* s s'" "file_inv (ftable s) (plist s)"
  shows "file_inv (ftable s') (plist s') \<and>
     (\<forall>f. f_ref (ftable s' f) > 0 \<and> f_type (ftable s' f) = FD_PIPE \<longrightarrow> (\<exists>t. fileclose f s' = Ok t))"
proof -
  have inv: "file_inv (ftable s') (plist s')"
    using assms by (induction rule: rtranclp_induct) (auto intro: file_step_inv)
  moreover have "\<exists>t. fileclose f s' = Ok t" if "f_ref (ftable s' f) > 0" "f_type (ftable s' f) = FD_PIPE" for f
  proof (cases "f_ref (ftable s' f) = 1")
    case True
    then show ?thesis using fileclose_pipe [OF inv] that by blast
  next
    case False
    then show ?thesis using that by (simp add: fileclose_def Let_def)
  qed
  ultimately show ?thesis by blast
qed

text \<open>All pipes free; and the file of 700 bytes, open at offset 510 with the log idle.\<close>

lemma demo_tables: "file_inv (ftable (pipeinit demo_files)) (plist (pipeinit demo_files))"
  by (auto simp: file_inv_def pipeinit_def demo_files_simps pipe_ok_def pipe_ends_of_def live_end_def)

theorem pipe_lifetime_witness:
  "\<exists>s. pipealloc (pipeinit demo_files) = Ok (Some (0, 1), s) \<and> file_inv (ftable s) (plist s) \<and> (\<exists>t. fileclose 1 s = Ok t)"
proof -
  have "filealloc (pipeinit demo_files) = (Some 0, upd_file 0 (\<lambda>e. e\<lparr>f_ref := 1\<rparr>) (pipeinit demo_files))"
    by (simp add: filealloc_def alloc_slot_def find_from.simps [of _ 0] pipeinit_def demo_files_simps NFILE_def upd_file_def)
  moreover have "filealloc (upd_file 0 (\<lambda>e. e\<lparr>f_ref := 1\<rparr>) (pipeinit demo_files)) =
      (Some 1, upd_file 1 (\<lambda>e. e\<lparr>f_ref := 1\<rparr>) (upd_file 0 (\<lambda>e. e\<lparr>f_ref := 1\<rparr>) (pipeinit demo_files)))"
    by (simp add: filealloc_def alloc_slot_def find_from.simps [of _ 0] find_from.simps [of _ "Suc 0"] pipeinit_def demo_files_simps NFILE_def upd_file_def)
  moreover obtain r s2 where p: "palloc (upd_file 1 (\<lambda>e. e\<lparr>f_ref := 1\<rparr>) (upd_file 0 (\<lambda>e. e\<lparr>f_ref := 1\<rparr>) (pipeinit demo_files))) = (r, s2)"
    "r = Some 0" "ftable s2 1 = (ftable (pipeinit demo_files) 1)\<lparr>f_ref := 1\<rparr>"
    by (simp add: palloc_def alloc_slot_def find_from.simps [of _ 0] pipeinit_def NPIPE_def upd_file_def)
  ultimately obtain s where s: "pipealloc (pipeinit demo_files) = Ok (Some (0, 1), s)" "f_ref (ftable s 1) = 1" "f_type (ftable s 1) = FD_PIPE"
    by (simp add: pipealloc_def pipe_end_def)
  have "file_step\<^sup>*\<^sup>* (pipeinit demo_files) s" using s(1) by (blast intro: st_pipe)
  from pipe_lifetime [OF this demo_tables] s show ?thesis by auto
qed

definition demo_open :: file_state where
  "demo_open = fs_state.extend (demo_file\<lparr>log := (log demo_file)\<lparr>l_outstanding := 0\<rparr>\<rparr>) (file_state.fields
     (\<lambda>_. \<lparr>f_type = FD_INODE, f_ref = 1, f_readable = True, f_writable = True, f_pipe = None, f_ip = Some 0, f_off = 510\<rparr>)
     (\<lambda>_. demo_pipe) [] [] False False)"

lemma demo_open_simps:
  "ftable demo_open = (\<lambda>_. \<lparr>f_type = FD_INODE, f_ref = 1, f_readable = True, f_writable = True, f_pipe = None, f_ip = Some 0, f_off = 510\<rparr>)"
  "icache demo_open = icache demo_file" "log demo_open = (log demo_file)\<lparr>l_outstanding := 0\<rparr>" "blk demo_open = blk demo_file"
  "refs demo_open = refs demo_file" "bio_inv demo_open = bio_inv demo_file" "log_area demo_open = log_area demo_file"
  "proc demo_open = proc demo_file" "ptable demo_open = ptable demo_file"
  by (simp_all add: demo_open_def fs_state.defs file_state.defs blk_def refs_def bio_inv_def log_area_def log_blk_def fun_eq_iff cong: option.case_cong)

lemma demo_file_log: "log demo_file = log demo_fs" "refs demo_file = (\<lambda>_. 0)" "log_area demo_file = log_area demo_fs"
  using demo_file_simps(7) by (simp_all add: demo_file_def demo_fs_bio)

lemma demo_file_proc: "proc demo_file = Some 0" "ptable demo_file = ptable demo_kern"
  by (simp_all add: demo_file_def demo_fs_bio upd_inode_def demo_fs_def binit_def demo_kern_def kern_state.defs fs_state.defs log_state.defs)

lemma demo_open_ok: "can_overwrite demo_open f 0 2 190"
proof -
  have f: "fmap demo_open = fmap demo_file" "fmid demo_open = fmid demo_file"
    by (simp_all add: fmap_def fmid_def demo_open_simps fun_eq_iff)
  have "settled demo_open 0 2"
    using demo_file_writable f by (simp add: settled_def writable_def mapped_def demo_open_simps map_blocks_def MAXFILE_val inj_on_def)
  moreover have "0 \<notin> log_area demo_fs" by (simp add: log_area_unat demo_fs_simps LOGSIZE_def)
  then have "log_idle demo_open"
    using demo_file_simps(2) by (simp add: log_idle_def quiet_def demo_open_simps demo_file_log demo_fs_simps MAXOPBLOCKS_def)
  ultimately show ?thesis
    by (simp add: can_overwrite_def demo_open_simps demo_file_simps MAXFILE_val BSIZE_def) (simp add: demo_file_def)
qed

lemma filewrite_example:
  "\<exists>s'. filewrite 0 [7, 8, 9] 3 demo_open = Ok (Ret 3, s') \<and> log_idle s' \<and> fbyte s' 0 511 = 8 \<and> fbyte s' 0 512 = 9"
proof -
  have "can_overwrite demo_open 0 0 2 3" by (rule can_overwrite_le [OF demo_open_ok]) simp
  then obtain s' where "filewrite 0 [7, 8, 9] 3 demo_open = Ok (Ret 3, s')" "overwritten demo_open 0 0 2 3 [7, 8, 9] s'"
    using filewrite_spec [of demo_open 0 0 2 3 "[7, 8, 9]"] by (auto simp: demo_open_simps)
  then show ?thesis by (auto simp: overwritten_def demo_open_simps Let_def BSIZE_def)
qed

end
