(* ===== verification/Filegrow.thy ===== *)
theory Filegrow
  imports File Fgrow
begin

text \<open>
  Writing through an open file (\<open>filewrite\<close> of \<open>kern/file.c\<close>), the file growing as it is written: a sequence of transactions, after each of which the file is in
  good order on the disk.
\<close>

section \<open>Files across a commit\<close>

lemma settle:
  assumes s': "fsb s' = fsb s" "log_area s' = log_area s" "\<forall>m. m \<notin> log_area s \<longrightarrow> blk s' m = blk s m" "icache s' = icache s" and b: "balloc_ok s"
  shows "data_block s' = data_block s" "lastballoc s' = lastballoc s \<Longrightarrow> lastbi s' = lastbi s \<Longrightarrow> spare k s' = spare k s"
    "file_ok s jp \<Longrightarrow> file_ok s' jp \<and> tree_blocks s' jp = tree_blocks s jp \<and> contents s' jp = contents s jp \<and> on_disk s' jp = on_disk s jp"
proof -
  have bm: "blk s' m = blk s m" if "m \<in> bmap_area s" for m using that b s'(3) by (auto simp: balloc_ok_def)
  note v = bitmap_view [OF s'(1,2) bm]
  show "data_block s' = data_block s" "lastballoc s' = lastballoc s \<Longrightarrow> lastbi s' = lastbi s \<Longrightarrow> spare k s' = spare k s" using v(1,3) by blast+
  assume j: "file_ok s jp"
  have bk: "blk s' m = blk s m" if "m \<in> tree_blocks s jp" for m
    using that j s'(3) by (auto simp: file_ok_def tree_ok_def data_block_def)
  have "blk s' (IBLOCK (i_inum (icache s jp)) (fsb s)) = blk s (IBLOCK (i_inum (icache s jp)) (fsb s))"
    using file_inode_block(1) [OF j] s'(3) by (simp add: data_block_def)
  then show "file_ok s' jp \<and> tree_blocks s' jp = tree_blocks s jp \<and> contents s' jp = contents s jp \<and> on_disk s' jp = on_disk s jp"
    using file_kept [OF j s'(1) fun_cong [OF s'(4)] _ bk] v(1) s'(1,4) by (simp add: on_disk_def)
qed

lemma upd_file_hints [simp]: "fsb (upd_file f g s) = fsb s" "lastballoc (upd_file f g s) = lastballoc s" "lastbi (upd_file f g s) = lastbi s"
  by (simp_all add: upd_file_def)

lemma upd_file_tree [simp]:
  "file_ok (upd_file f g s) = file_ok s" "contents (upd_file f g s) = contents s" "on_disk (upd_file f g s) = on_disk s"
  "tree_blocks (upd_file f g s) = tree_blocks s" "apart (upd_file f g s) = apart s" "spare k (upd_file f g s) = spare k s"
  by (rule file_view; simp)+

lemma patch_patch:
  assumes "off \<le> length bs" "n1 \<le> length src"
  shows "patch (off + n1) (take m (drop n1 src)) (patch off (take n1 src) bs) = patch off (take (n1 + m) src) bs"
proof -
  have "take (n1 + m) src = take n1 src @ take m (drop n1 src)" by (rule take_add)
  then show ?thesis using assms by (simp add: patch_def ac_simps)
qed

section \<open>How many blocks are missing\<close>

lemma blocks_of_split:
  assumes "n1 \<le> n"
  shows "blocks_of off n = blocks_of off n1 \<union> blocks_of (off + n1) (n - n1)"
proof -
  consider "n1 = 0" | "n1 = n" | "0 < n1" "n1 < n" using assms by linarith
  then show ?thesis
  proof cases
    case 3
    have "(off + n1 - 1) div BSIZE \<le> (off + n1) div BSIZE" "(off + n1) div BSIZE \<le> (off + n - 1) div BSIZE" "off div BSIZE \<le> (off + n1 - 1) div BSIZE"
      using 3 by (simp_all add: div_le_mono)
    moreover have "(off + n1) div BSIZE \<le> Suc ((off + n1 - 1) div BSIZE)"
      using 3 div_le_mono [of "off + n1" "off + n1 - 1 + BSIZE" BSIZE] by (simp add: BSIZE_def)
    ultimately show ?thesis using 3 by (auto simp: blocks_of_def)
  qed (auto simp: blocks_of_def)
qed

lemma news_split:
  assumes "n1 \<le> n" "off + n \<le> MAXFILE * BSIZE" "\<And>k. k < MAXFILE \<Longrightarrow> missing t ip k \<le> missing s ip k"
    and z: "\<And>k. k \<in> blocks_of off n1 \<Longrightarrow> missing t ip k = 0"
  shows "news s ip off n1 + news t ip (off + n1) (n - n1) \<le> news s ip off n"
proof -
  let ?A = "blocks_of off n1" and ?B = "blocks_of (off + n1) (n - n1)"
  have fin: "finite ?A" "finite ?B" by (simp_all add: blocks_of_def)
  have "sum (missing t ip) ?B = sum (missing t ip) (?B - ?A)" using fin z by (intro sum.mono_neutral_right) auto
  also have "\<dots> \<le> sum (missing s ip) (?B - ?A)"
    using assms(1,2) blocks_of_bound [of "off + n1" "n - n1"] by (intro sum_mono assms(3)) auto
  finally have "news t ip (off + n1) (n - n1) \<le> sum (missing s ip) (?B - ?A)" by (simp add: news_def)
  moreover have "news s ip off n = sum (missing s ip) (?A \<union> (?B - ?A))"
    unfolding news_def blocks_of_split [OF assms(1)] by (simp add: Un_Diff_cancel)
  ultimately show ?thesis using fin by (subst (asm) sum.union_disjoint) (auto simp: news_def)
qed

lemma news_le_rounds: "news s ip off n \<le> rounds n off"
proof (cases "n = 0")
  case False
  have "news s ip off n \<le> sum (\<lambda>_. 1) (blocks_of off n)" unfolding news_def by (intro sum_mono) (simp add: missing_def)
  also have "\<dots> = Suc ((off + n - 1) div BSIZE) - off div BSIZE" using False by (simp add: blocks_of_def)
  also have "\<dots> \<le> (off mod BSIZE + n + (BSIZE - 1)) div BSIZE"
  proof -
    have "off + n - 1 = off div BSIZE * BSIZE + (off mod BSIZE + n - 1)" using False by (simp add: algebra_simps)
    then have "(off + n - 1) div BSIZE = off div BSIZE + (off mod BSIZE + n - 1) div BSIZE" by (simp add: BSIZE_def)
    moreover have "Suc ((off mod BSIZE + n - 1) div BSIZE) = (off mod BSIZE + n + (BSIZE - 1)) div BSIZE"
      using False by (simp add: BSIZE_def)
    ultimately show ?thesis by simp
  qed
  finally show ?thesis using False by (simp add: rounds_def)
qed (simp add: news_def blocks_of_def)

section \<open>The transactions of a write\<close>

text \<open>An open file in good order, between system calls, with blocks to spare for a write of \<open>n\<close> bytes at its offset.\<close>

definition can_extend :: "'a file_state_scheme \<Rightarrow> nat \<Rightarrow> nat \<Rightarrow> nat \<Rightarrow> nat \<Rightarrow> bool" where
  "can_extend s f ip n j \<longleftrightarrow> log_idle s \<and> 36 < room s \<and> file_ok s ip \<and> f_ip (ftable s f) = Some ip \<and> i_ref (icache s ip) \<ge> 1 \<and> i_valid (icache s ip) \<and>
     f_off (ftable s f) \<le> i_size (icache s ip) \<and> unat (f_off (ftable s f)) + n \<le> MAXFILE * BSIZE \<and> spare (j + 3 * news s ip (unat (f_off (ftable s f))) n) s"

text \<open>What the write leaves behind.\<close>

definition extended :: "'a file_state_scheme \<Rightarrow> nat \<Rightarrow> nat \<Rightarrow> nat \<Rightarrow> bytes \<Rightarrow> nat \<Rightarrow> 'a file_state_scheme \<Rightarrow> bool" where
  "extended s f ip n src j s' \<longleftrightarrow> log_idle s' \<and> room s' = room s \<and> file_ok s' ip \<and> spare j s' \<and> (on_disk s ip \<longrightarrow> on_disk s' ip) \<and>
     contents s' ip = patch (unat (f_off (ftable s f))) (take n src) (contents s ip) \<and>
     (\<exists>as sz mt. icache s' = (icache s)(ip := (icache s ip)\<lparr>i_addrs := as, i_size := sz, i_mtime := mt\<rparr>)) \<and>
     ftable s' = (ftable s)(f := (ftable s f)\<lparr>f_off := f_off (ftable s f) + of_nat n\<rparr>) \<and> plist s' = plist s \<and> ptable s' = ptable s \<and> proc s' = proc s \<and>
     (\<forall>jp. jp \<noteq> ip \<and> file_ok s jp \<and> apart s ip jp \<longrightarrow> file_ok s' jp \<and> apart s' ip jp \<and> contents s' jp = contents s jp \<and> tree_blocks s' jp = tree_blocks s jp) \<and>
     (\<forall>k < MAXFILE. missing s' ip k \<le> missing s ip k)"

lemma fs_frame_files:
  assumes "fs_frame s (s' :: 'a file_state_scheme)"
  shows "ftable s' = ftable s" "plist s' = plist s"
  using assms by (auto elim!: fs_frameE)

lemma length_contents: "length (contents s ip) = unat (i_size (icache s ip))"
  by (simp add: contents_def)

lemma idle_room: "log_idle s \<Longrightarrow> room s = min LOGSIZE (nat (l_size (log s) - 1))"
  by (simp add: log_idle_def room_def)

lemma begin_view:
  fixes s :: "'a file_state_scheme"
  defines "s1 \<equiv> s\<lparr>log := (log s)\<lparr>l_outstanding := 1\<rparr>\<rparr>"
  shows "file_ok s1 = file_ok s" "contents s1 = contents s" "tree_blocks s1 = tree_blocks s" "on_disk s1 = on_disk s" "spare k s1 = spare k s" "missing s1 = missing s"
    "news s1 = news s" "blk s1 = blk s" "icache s1 = icache s" "refs s1 = refs s" "room s1 = room s" "log_area s1 = log_area s" "fsb s1 = fsb s" "apart s1 = apart s"
proof -
  show e: "blk s1 = blk s" "icache s1 = icache s" "refs s1 = refs s" "log_area s1 = log_area s" "fsb s1 = fsb s" "room s1 = room s"
    using log_area_start [of s1 s] by (simp_all add: s1_def room_def)
  note w = file_view [OF e(5,1,2,4)]
  show "file_ok s1 = file_ok s" "contents s1 = contents s" "tree_blocks s1 = tree_blocks s" "on_disk s1 = on_disk s" "apart s1 = apart s" "news s1 = news s"
    "missing s1 = missing s" by (rule w)+
  show "spare k s1 = spare k s" by (rule w) (simp_all add: s1_def)
qed

lemma write_chunk_extends:
  assumes c: "can_extend s f ip n1 j" and n1: "0 < n1" "n1 \<le> FWMAX" "n1 \<le> length src"
  shows "\<exists>s'. write_chunk f src n1 s = Ok (int n1, s') \<and> extended s f ip n1 src j s'"
proof -
  define s1 where "s1 = s\<lparr>log := (log s)\<lparr>l_outstanding := 1\<rparr>\<rparr>"
  note c' = c [unfolded can_extend_def]
  let ?off = "f_off (ftable s f)"
  have n: "n1 \<le> 1536" using n1 by (simp add: FWMAX_def MAXOPBLOCKS_def)
  then have un: "unat (of_nat n1 :: uint) = n1" by (intro unat_of_nat_small) simp
  have bo: "balloc_ok s" using c' by (simp add: spare_def)
  have b: "begin_op s = Ok s1" "tx_inv s1" using begin_op_idle [of s] c' by (simp_all add: s1_def)
  note v = begin_view [where s = s, folded s1_def]
  have ft: "ftable s1 = ftable s" "plist s1 = plist s" "ptable s1 = ptable s" "proc s1 = proc s" by (simp_all add: s1_def)
  have r0: "refs s = (\<lambda>_. 0)" using c' by (simp add: log_idle_def quiet_def)
  have ry: "roomy 2 s1" using quiet_roomy [of s1 2] v(10) r0 by (simp add: NBUF_def)
  have rr: "rounds n1 (unat ?off) + 8 * news s ip (unat ?off) n1 < room s1"
    using rounds_bound [OF n, of "unat ?off"] news_le_rounds [of s ip "unat ?off" n1] c' v(11) by linarith
  obtain s2 where s2: "writei ip src ?off (of_nat n1) s1 = Ok (int n1, s2)" "tx_inv s2" "refs s2 = refs s1" "file_ok s2 ip"
    "contents s2 ip = patch (unat ?off) (take n1 src) (contents s1 ip)" "on_disk s1 ip \<longrightarrow> on_disk s2 ip"
    "\<forall>jp. jp \<noteq> ip \<and> file_ok s1 jp \<and> apart s1 ip jp \<longrightarrow> file_ok s2 jp \<and> apart s2 ip jp \<and> contents s2 jp = contents s1 jp \<and> tree_blocks s2 jp = tree_blocks s1 jp"
    "spare j s2" "fs_frame s1 s2" "\<exists>as sz mt. icache s2 = (icache s1)(ip := (icache s1 ip)\<lparr>i_addrs := as, i_size := sz, i_mtime := mt\<rparr>)"
    "\<forall>k < MAXFILE. missing s2 ip k \<le> missing s1 ip k"
    using writei_grown [of s1 ip ?off "of_nat n1" src j, unfolded un] v b(2) ry rr c' n1(3) by auto
  define s3 where "s3 = upd_file f (\<lambda>e. e\<lparr>f_off := f_off e + of_int (int n1)\<rparr>) s2"
  note fr = fs_frame_same [OF s2(9)] and ff = fs_frame_files [OF s2(9)]
  have l: "l_outstanding (log s2) = 1" "\<not> l_committing (log s2)" "l_size (log s2) > MAXOPBLOCKS" "l_size (log s2) = l_size (log s)"
    using fr(5-7) c' by (simp_all add: s1_def log_idle_def)
  have "wp (end_op s3) (\<lambda>s'. log_idle s' \<and> log_frame s3 s' \<and> log_area s' = log_area s3 \<and>
     l_start (log s') = l_start (log s3) \<and> l_size (log s') = l_size (log s3) \<and> (\<forall>m. m \<notin> log_area s3 \<longrightarrow> blk s' m = blk s3 m))"
    using s2(2,3) l r0 v(10) by (intro end_op_spec) (simp_all add: s3_def)
  then obtain s' where s': "end_op s3 = Ok s'" "log_idle s'" "log_frame s3 s'" "log_area s' = log_area s3" "l_size (log s') = l_size (log s)"
    "\<forall>m. m \<notin> log_area s3 \<longrightarrow> blk s' m = blk s3 m" using l(4) by (auto simp: wp_iff s3_def)
  have e': "icache s' = icache s2" "ftable s' = (ftable s)(f := (ftable s f)\<lparr>f_off := ?off + of_nat n1\<rparr>)" "plist s' = plist s" "ptable s' = ptable s" "proc s' = proc s"
    "fsb s' = fsb s3" "lastballoc s' = lastballoc s3" "lastbi s' = lastbi s3"
    using s'(3) ff ft fr(9,10) by (auto elim!: log_frameE simp: s3_def)
  have ic3: "icache s' = icache s3" using e'(1) by (simp add: s3_def)
  have "spare j s3" using s2(8) by (simp add: s3_def)
  then have bo3: "balloc_ok s3" by (simp add: spare_def)
  note st = settle [OF e'(6) s'(4,6) ic3 bo3]
  have st': "file_ok s' jp \<and> tree_blocks s' jp = tree_blocks s2 jp \<and> contents s' jp = contents s2 jp \<and> on_disk s' jp = on_disk s2 jp" if "file_ok s2 jp" for jp
    using st(3) [of jp] that by (simp add: s3_def)
  have "missing s' ip k = missing s2 ip k" if "k < MAXFILE" for k
  proof -
    have "node_addr s' ip (Leaf k) = node_addr s2 ip (Leaf k)"
    proof (rule node_addr_cong)
      show "blk s' (node_addr s2 ip q) = blk s2 (node_addr s2 ip q)" if "q \<in> inner" "node_addr s2 ip q \<noteq> 0" for q
        using tree_node(1) [OF _ inner_nodes [OF that(1)] that(2)] s2(4) s'(6) by (simp add: s3_def file_ok_def data_block_def)
    qed (use e'(1) that in simp_all)
    then show ?thesis by (simp add: missing_def)
  qed
  moreover have "spare j s'" using st(2) [OF e'(7,8)] s2(8) by (simp add: s3_def)
  moreover have "room s' = room s" using idle_room [OF s'(2)] idle_room [of s] c' s'(5) by simp
  moreover have "file_ok s' jp \<and> apart s' ip jp \<and> contents s' jp = contents s jp \<and> tree_blocks s' jp = tree_blocks s jp" if "jp \<noteq> ip \<and> file_ok s jp \<and> apart s ip jp" for jp
    using that spec [OF s2(7), of jp] st' [of jp] st' [OF s2(4)] v(1-3) by (auto simp: apart_def)
  ultimately have "extended s f ip n1 src j s'"
    unfolding extended_def using s'(2) st' [OF s2(4)] s2(5,6,10,11) v(2,4,6,9) c' e'(1-5) by simp
  moreover have "write_chunk f src n1 s = Ok (int n1, s')"
    using b(1) s2(1,10) s'(1) c' v(9) ft ff n1(1) by (auto simp: write_chunk_def ilock_def iunlock_def Let_def s3_def)
  ultimately show ?thesis by blast
qed


lemma news_le:
  assumes "n1 \<le> n"
  shows "news s ip off n1 \<le> news s ip off n"
  unfolding news_def by (rule sum_mono2) (use blocks_of_split [OF assms, of off] in \<open>auto simp: blocks_of_def\<close>)

lemma extended_dense:
  assumes "extended s f ip n1 src j t" "n1 \<le> length src" "f_off (ftable s f) \<le> i_size (icache s ip)"
  shows "unat (f_off (ftable s f)) + n1 \<le> unat (i_size (icache t ip))"
    "k \<in> blocks_of (unat (f_off (ftable s f))) n1 \<Longrightarrow> missing t ip k = 0"
proof -
  let ?off = "unat (f_off (ftable s f))"
  have "length (contents t ip) = length (patch ?off (take n1 src) (contents s ip))" using assms(1) by (simp add: extended_def)
  then show le: "?off + n1 \<le> unat (i_size (icache t ip))"
    using assms(2,3) by (simp add: length_contents patch_def word_le_nat_alt)
  assume "k \<in> blocks_of ?off n1"
  then have k: "k \<le> (?off + n1 - 1) div BSIZE" "0 < n1" by (auto simp: blocks_of_def split: if_splits)
  have "k * BSIZE \<le> (?off + n1 - 1) div BSIZE * BSIZE" using k(1) by (rule mult_le_mono1)
  also have "\<dots> \<le> ?off + n1 - 1" by simp
  finally have "k * BSIZE < unat (i_size (icache t ip))" using le k(2) by linarith
  then show "missing t ip k = 0" using assms(1) by (simp add: extended_def file_ok_def missing_def)
qed

lemma can_extend_step:
  fixes s t :: "'a file_state_scheme" and n n1 j f ip :: nat
  defines "k \<equiv> \<lambda>u m. news u ip (unat (f_off (ftable u f))) m"
  assumes c: "can_extend s f ip n j" and n1: "n1 \<le> n" "n1 \<le> length src"
  shows "can_extend s f ip n1 (j + 3 * (k s n - k s n1))"
    "extended s f ip n1 src (j + 3 * (k s n - k s n1)) t \<Longrightarrow> can_extend t f ip (n - n1) j"
    "unat (f_off (ftable s f) + of_nat n1) = unat (f_off (ftable s f)) + n1"
proof -
  let ?o = "f_off (ftable s f)"
  note c' = c [unfolded can_extend_def]
  have le: "k s n1 \<le> k s n" unfolding k_def by (rule news_le [OF n1(1)])
  then have eq: "j + 3 * (k s n - k s n1) + 3 * k s n1 = j + 3 * k s n" by linarith
  have "spare (j + 3 * (k s n - k s n1) + 3 * k s n1) s" unfolding eq unfolding k_def using c' by blast
  then show "can_extend s f ip n1 (j + 3 * (k s n - k s n1))" using c' n1(1) unfolding can_extend_def k_def by auto
  have small: "unat ?o + n1 < 2 ^ 32" using c' n1(1) by (simp add: MAXFILE_val BSIZE_def)
  then have "unat (of_nat n1 :: uint) = n1" by (intro unat_of_nat_small) simp
  then show nw: "unat (?o + of_nat n1) = unat ?o + n1" using small by (simp add: unat_word_ariths)
  assume e: "extended s f ip n1 src (j + 3 * (k s n - k s n1)) t"
  note e' = e [unfolded extended_def]
  have off: "?o \<le> i_size (icache s ip)" using c' by blast
  note d = extended_dense [OF e n1(2) off]
  have o: "unat (f_off (ftable t f)) = unat ?o + n1" using e' nw by simp
  have "k s n1 + k t (n - n1) \<le> k s n"
    unfolding k_def o by (rule news_split [OF n1(1) _ _ d(2)]) (use c' e' in auto)
  moreover have "spare (j + 3 * (k s n - k s n1)) t" using e' by blast
  ultimately have "spare (j + 3 * k t (n - n1)) t" by (elim spare_mono) linarith
  moreover have "f_off (ftable t f) \<le> i_size (icache t ip)" using d(1) o by (simp add: word_le_nat_alt)
  moreover have "i_ref (icache t ip) = i_ref (icache s ip)" "i_valid (icache t ip) = i_valid (icache s ip)" "f_ip (ftable t f) = f_ip (ftable s f)"
    using e' by auto
  ultimately show "can_extend t f ip (n - n1) j"
    unfolding can_extend_def using c' e' o n1(1) by (simp add: k_def)
qed

lemma extended_seq:
  assumes 1: "extended s f ip n1 src j1 t" and 2: "extended t f ip n2 (drop n1 src) j u"
    and o: "unat (f_off (ftable s f) + of_nat n1) = unat (f_off (ftable s f)) + n1" "f_off (ftable s f) \<le> i_size (icache s ip)" "n1 \<le> length src"
  shows "extended s f ip (n1 + n2) src j u"
proof -
  note a = 1 [unfolded extended_def] and b = 2 [unfolded extended_def]
  have f: "unat (f_off (ftable t f)) = unat (f_off (ftable s f)) + n1" using a o(1) by simp
  have "contents u ip = patch (unat (f_off (ftable s f))) (take (n1 + n2) src) (contents s ip)"
    using a b o patch_patch [of "unat (f_off (ftable s f))" "contents s ip" n1 src n2] by (simp add: f length_contents word_le_nat_alt)
  moreover have "ftable u = (ftable s)(f := (ftable s f)\<lparr>f_off := f_off (ftable s f) + of_nat (n1 + n2)\<rparr>)" using a b by (simp add: add.assoc)
  moreover have "\<exists>as sz mt. icache u = (icache s)(ip := (icache s ip)\<lparr>i_addrs := as, i_size := sz, i_mtime := mt\<rparr>)"
  proof -
    obtain as sz mt as' sz' mt' where "icache t = (icache s)(ip := (icache s ip)\<lparr>i_addrs := as, i_size := sz, i_mtime := mt\<rparr>)"
      "icache u = (icache t)(ip := (icache t ip)\<lparr>i_addrs := as', i_size := sz', i_mtime := mt'\<rparr>)" using a b by metis
    then have "icache u = (icache s)(ip := (icache s ip)\<lparr>i_addrs := as', i_size := sz', i_mtime := mt'\<rparr>)" by simp
    then show ?thesis by blast
  qed
  moreover have "missing u ip k \<le> missing s ip k" if "k < MAXFILE" for k
  proof -
    have "missing u ip k \<le> missing t ip k" "missing t ip k \<le> missing s ip k" using a b that by blast+
    then show ?thesis by (rule order_trans)
  qed
  moreover have "file_ok u jp \<and> apart u ip jp \<and> contents u jp = contents s jp \<and> tree_blocks u jp = tree_blocks s jp" if "jp \<noteq> ip \<and> file_ok s jp \<and> apart s ip jp" for jp
    using a b that by auto
  ultimately show ?thesis unfolding extended_def using a b by simp
qed

lemma filewrite_loop_extends:
  assumes "can_extend s f ip (n - i) j" "n - i \<le> length src" "i \<le> n"
  shows "\<exists>s'. filewrite_loop f src n i s = Ok (n, s') \<and> extended s f ip (n - i) src j s'"
  using assms
proof (induction "n - i" arbitrary: i s src rule: less_induct)
  case less
  note c = less.prems(1) [unfolded can_extend_def]
  show ?case
  proof (cases "i < n")
    case False
    have "\<exists>as sz mt. icache s = (icache s)(ip := (icache s ip)\<lparr>i_addrs := as, i_size := sz, i_mtime := mt\<rparr>)"
      by (intro exI [of _ "i_addrs (icache s ip)"] exI [of _ "i_size (icache s ip)"] exI [of _ "i_mtime (icache s ip)"]) simp
    then have "extended s f ip 0 src j s"
      using c False unfolding extended_def by (simp add: news_def blocks_of_def patch_def length_contents word_le_nat_alt)
    then show ?thesis using False less.prems(3) by (subst filewrite_loop.simps) simp
  next
    case True
    define n1 where "n1 = min (n - i) FWMAX"
    have n1: "0 < n1" "n1 \<le> FWMAX" "n1 \<le> n - i" "n1 \<le> length src" using True less.prems(2) by (simp_all add: n1_def FWMAX_def MAXOPBLOCKS_def)
    note st = can_extend_step [OF less.prems(1) n1(3,4)]
    obtain t where t: "write_chunk f src n1 s = Ok (int n1, t)"
      "extended s f ip n1 src (j + 3 * (news s ip (unat (f_off (ftable s f))) (n - i) - news s ip (unat (f_off (ftable s f))) n1)) t"
      using write_chunk_extends [OF st(1) n1(1,2,4)] by blast
    have ct: "can_extend t f ip (n - (i + n1)) j" using st(2) [OF t(2)] by simp
    have "n - (i + n1) < n - i" "n - (i + n1) \<le> length (drop n1 src)" "i + n1 \<le> n"
      using n1 True less.prems(2) unfolding length_drop by linarith+
    from less.hyps [OF this(1) ct this(2,3)] obtain s' where s': "filewrite_loop f (drop n1 src) n (i + n1) t = Ok (n, s')"
      "extended t f ip (n - (i + n1)) (drop n1 src) j s'" by blast
    have "extended s f ip (n1 + (n - (i + n1))) src j s'" by (rule extended_seq [OF t(2) s'(2) st(3) _ n1(4)]) (use c in blast)
    moreover have "filewrite_loop f src n i s = Ok (n, s')"
      using True t(1) s'(1) by (subst filewrite_loop.simps) (simp add: n1_def Let_def)
    ultimately show ?thesis using n1 by auto
  qed
qed

section \<open>Reading\<close>

lemma readi_contents:
  assumes ok: "file_ok s ip" and b: "bio_inv s" "roomy 1 s" and o: "off \<le> i_size (icache s ip)" and n: "n < 2 ^ 31"
  shows "\<exists>s'. readi ip off (of_nat n) s = Ok (int (length (take n (drop (unat off) (contents s ip)))), take n (drop (unat off) (contents s ip)), s') \<and> read_only s s'"
proof -
  let ?sz = "i_size (icache s ip)"
  define len where "len = min n (unat ?sz - unat off)"
  have un: "unat (of_nat n :: uint) = n" using n by (intro unat_of_nat_small) simp
  have sz: "unat ?sz \<le> MAXFILE * BSIZE" using ok by (simp add: file_ok_def)
  have lf: "k < MAXFILE \<and> node_addr s ip (Leaf k) \<noteq> 0" if "k * BSIZE < unat ?sz" for k
    using that sz ok less_le_trans [of "k * BSIZE" _ "MAXFILE * BSIZE"] by (simp add: file_ok_def)
  have fb: "fbyte s ip pos = cbyte s ip pos" if "pos < unat ?sz" for pos
  proof -
    have "pos div BSIZE * BSIZE < unat ?sz" by (rule le_less_trans [OF div_times_less_eq_dividend that])
    from lf [OF this] show ?thesis using leaf_mapped(2) [of "pos div BSIZE" s ip] by (simp add: fbyte_def cbyte_def Let_def)
  qed
  have small: "?sz < 2 ^ 31" "unat off + n < 2 ^ 32" using sz o n by (auto simp: word_less_nat_alt word_le_nat_alt MAXFILE_val BSIZE_def)
  then have nw: "\<not> off + of_nat n < off" using un by (simp add: word_less_nat_alt unat_word_ariths)
  have le: "unat off + len \<le> unat ?sz" using o by (simp add: len_def word_le_nat_alt)
  have "take n (drop (unat off) (contents s ip)) = map (fbyte s ip) [unat off..<unat off + len]"
    using fb le by (intro nth_equalityI) (auto simp: contents_def len_def)
  moreover have "mapped s ip k" if "k * BSIZE < unat ?sz" for k using lf [OF that] leaf_mapped(1) by blast
  moreover have "len = min (unat (of_nat n :: uint)) (unat ?sz - unat off)" by (simp add: len_def un)
  ultimately show ?thesis using readi_spec [OF b small(1) _ o nw, of len] by simp
qed

lemma fileread_contents:
  fixes s :: "'a file_state_scheme"
  assumes s: "log_idle s" "file_ok s ip" "f_ip (ftable s f) = Some ip" "i_ref (icache s ip) \<ge> 1" "i_valid (icache s ip)"
    and f: "f_off (ftable s f) \<le> i_size (icache s ip)" "f_readable (ftable s f)" "f_type (ftable s f) = FD_INODE" and n: "n < 2 ^ 31"
    and out: "out = take n (drop (unat (f_off (ftable s f))) (contents s ip))"
  shows "\<exists>t. fileread f (int n) s = Ok (Ret (int (length out), out), t\<lparr>ftable := (ftable s)(f := (ftable s f)\<lparr>f_off := f_off (ftable s f) + of_nat (length out)\<rparr>)\<rparr>) \<and>
    read_only s t"
proof -
  have "bio_inv s" using s(1) by (simp add: log_idle_def quiet_def)
  then obtain t where t: "readi ip (f_off (ftable s f)) (of_nat n) s = Ok (int (length out), out, t)" "read_only s t"
    using readi_contents [OF s(2) _ log_idle_roomy [OF s(1)] f(1) n] unfolding out by blast
  have ft: "ftable t = ftable s" "icache t = icache s" using read_onlyD(4) [OF t(2)] by (auto elim!: bio_frameE)
  have "(if 0 < length out then upd_file f (\<lambda>e. e\<lparr>f_off := f_off e + of_int (int (length out))\<rparr>) t else t) =
    t\<lparr>ftable := (ftable s)(f := (ftable s f)\<lparr>f_off := f_off (ftable s f) + of_nat (length out)\<rparr>)\<rparr>" using ft(1) [symmetric] by (simp add: upd_file_def)
  then have "fileread f (int n) s = Ok (Ret (int (length out), out), t\<lparr>ftable := (ftable s)(f := (ftable s f)\<lparr>f_off := f_off (ftable s f) + of_nat (length out)\<rparr>)\<rparr>)"
    using f s t(1) ft by (simp add: fileread_def ilock_def iunlock_def)
  then show ?thesis using t(2) by blast
qed

section \<open>Property\<close>


text \<open>The file of 700 bytes of \<^const>\<open>demo_grow\<close>, open at its end.\<close>

definition demo_append :: file_state where
  "demo_append = fs_state.extend (demo_grow\<lparr>log := (log demo_grow)\<lparr>l_outstanding := 0\<rparr>\<rparr>) (file_state.fields
     (\<lambda>_. \<lparr>f_type = FD_INODE, f_ref = 1, f_readable = True, f_writable = True, f_pipe = None, f_ip = Some 0, f_off = 700\<rparr>)
     (\<lambda>_. demo_pipe) [] [] False False)"

lemma demo_append_simps:
  "ftable demo_append = (\<lambda>_. \<lparr>f_type = FD_INODE, f_ref = 1, f_readable = True, f_writable = True, f_pipe = None, f_ip = Some 0, f_off = 700\<rparr>)"
  "icache demo_append = icache demo_grow" "log demo_append = (log demo_fs)\<lparr>l_outstanding := 0\<rparr>" "blk demo_append = blk demo_grow"
  "refs demo_append = refs demo_fs" "bio_inv demo_append = bio_inv demo_fs" "log_area demo_append = log_area demo_grow"
  "fsb demo_append = fsb demo_grow" "lastballoc demo_append = lastballoc demo_grow" "lastbi demo_append = lastbi demo_grow"
  by (simp_all add: demo_append_def demo_grow_def upd_inode_def fs_state.defs file_state.defs blk_def refs_def bio_inv_def log_area_def log_blk_def fun_eq_iff
    cong: option.case_cong)

lemma demo_append_view:
  "file_ok demo_append = file_ok demo_grow" "contents demo_append = contents demo_grow" "news demo_append = news demo_grow" "spare k demo_append = spare k demo_grow"
  by (rule file_view; simp add: demo_append_simps)+

lemma demo_append_idle: "log_idle demo_append"
proof -
  have "0 \<notin> log_area demo_fs" by (simp add: log_area_unat demo_fs_simps LOGSIZE_def)
  then show ?thesis
    using demo_fs_bio demo_grow_simps(9) by (simp add: log_idle_def quiet_def demo_append_simps demo_fs_simps MAXOPBLOCKS_def)
qed


end
