(* ===== verification/Sysfile.thy ===== *)
theory Sysfile
  imports File
begin

text \<open>
  The file-system calls of \<open>kern/sysfile.c\<close>. A path is the bytes of the user's string up to and
  including its NUL, \<open>None\<close> for a null pointer; a buffer to be filled is given by whether its pointer
  is non-null, and what was stored there is part of the result. Names of \<open>DIRSIZ\<close> bytes are
  uninitialised arrays on the stack, taken as zeroes.

  Shown: descriptors are the lowest free ones and the reference counts of the file table stay in
  step with the descriptor tables; the errors of the calls; writing, seeking back and reading
  returns the bytes written; the terminal flags survive the round trip through \<open>ioctl\<close>.
\<close>

definition EPERM :: int where "EPERM = 1"
definition EBADF :: int where "EBADF = 9"
definition EACCES :: int where "EACCES = 13"
definition EEXIST :: int where "EEXIST = 17"
definition ENOTDIR :: int where "ENOTDIR = 20"
definition EISDIR :: int where "EISDIR = 21"
definition EINVAL :: int where "EINVAL = 22"
definition EMFILE :: int where "EMFILE = 24"
definition ENOTTY :: int where "ENOTTY = 25"

definition O_WRONLY :: uint where "O_WRONLY = 1"
definition O_RDWR :: uint where "O_RDWR = 2"
definition O_APPEND :: uint where "O_APPEND = 8"
definition O_CREATE :: uint where "O_CREATE = 0x200"
definition O_TRUNC :: uint where "O_TRUNC = 0x400"
definition ECHO :: uint where "ECHO = 8"
definition ICANON :: uint where "ICANON = 0x100"
definition TCGETA :: uint where "TCGETA = 0x5405"
definition TCSETA :: uint where "TCSETA = 0x5406"
definition SBUFSIZE :: nat where "SBUFSIZE = 512"

section \<open>Descriptors\<close>

definition argfd :: "int \<Rightarrow> 'a file_state_scheme \<Rightarrow> (nat option \<times> 'a file_state_scheme) res" where
  "argfd fd s =
     (if fd < 0 \<or> fd \<ge> int NOFILE then Ok (None, set_errno EBADF s)
      else rbind (myproc s) (\<lambda>p.
        case p_ofile (ptable s p) (nat fd) of
          None \<Rightarrow> Ok (None, set_errno EBADF s)
        | Some f \<Rightarrow> Ok (Some f, s)))"

definition fdalloc :: "nat \<Rightarrow> 'a file_state_scheme \<Rightarrow> (int \<times> 'a file_state_scheme) res" where
  "fdalloc f s =
     rbind (myproc s) (\<lambda>p.
       case alloc_slot (\<lambda>e. e = None) (\<lambda>_. Some f) NOFILE (p_ofile (ptable s p)) of
         None \<Rightarrow> Ok (-1, set_errno EMFILE s)
       | Some (fd, t) \<Rightarrow> Ok (int fd, upd_proc p (\<lambda>e. e\<lparr>p_ofile := t\<rparr>) s))"

definition set_ofile :: "nat \<Rightarrow> nat option \<Rightarrow> nat \<Rightarrow> 'a kern_state_scheme \<Rightarrow> 'a kern_state_scheme" where
  "set_ofile fd q p s = upd_proc p (\<lambda>e. e\<lparr>p_ofile := (p_ofile e)(fd := q)\<rparr>) s"

definition sys_dup :: "int \<Rightarrow> 'a file_state_scheme \<Rightarrow> (int \<times> 'a file_state_scheme) res" where
  "sys_dup fd s =
     rbind (argfd fd (set_errno 0 s)) (\<lambda>(r, s).
       case r of None \<Rightarrow> Ok (-1, s)
       | Some f \<Rightarrow>
           rbind (fdalloc f s) (\<lambda>(fd, s).
             if fd < 0 then Ok (-1, s) else rbind (filedup f s) (\<lambda>s. Ok (fd, s))))"

definition sys_close :: "int \<Rightarrow> 'a file_state_scheme \<Rightarrow> (int \<times> 'a file_state_scheme) res" where
  "sys_close fd s =
     rbind (argfd fd (set_errno 0 s)) (\<lambda>(r, s).
       case r of None \<Rightarrow> Ok (-1, s)
       | Some f \<Rightarrow>
           rbind (myproc s) (\<lambda>p.
           rbind (fileclose f (set_ofile (nat fd) None p s)) (\<lambda>s. Ok (0, s))))"

section \<open>Reading and writing\<close>

definition sys_read :: "int \<Rightarrow> bool \<Rightarrow> int \<Rightarrow> 'a file_state_scheme \<Rightarrow> ((int \<times> bytes) io \<times> 'a file_state_scheme) res" where
  "sys_read fd nonnull n s =
     rbind (argfd fd (set_errno 0 s)) (\<lambda>(r, s).
       case r of None \<Rightarrow> Ok (Ret (-1, []), s)
       | Some f \<Rightarrow>
           if n < 0 \<or> \<not> nonnull then Ok (Ret (-1, []), s)
           else if f_type (ftable s f) = FD_CONSOLE then
             rbind (consgetc s) (\<lambda>(c, s). Ok (Ret (1, [c]), s))
           else fileread f n s)"

text \<open>Reading past the end of the user's buffer is undefined.\<close>

definition sys_write :: "int \<Rightarrow> bytes option \<Rightarrow> int \<Rightarrow> 'a file_state_scheme \<Rightarrow> (int io \<times> 'a file_state_scheme) res" where
  "sys_write fd p n s =
     rbind (argfd fd (set_errno 0 s)) (\<lambda>(r, s).
       case (r, p) of
         (Some f, Some buf) \<Rightarrow>
           if n < 0 then Ok (Ret (-1), s)
           else if f_type (ftable s f) = FD_CONSOLE then
             (if nat n > length buf then Fault else Ok (Ret n, fold consputc (take (nat n) buf) s))
           else filewrite f buf n s
       | _ \<Rightarrow> Ok (Ret (-1), s))"

text \<open>The structure the user passes is updated in place.\<close>

definition sys_fstat :: "int \<Rightarrow> xvstat option \<Rightarrow> 'a file_state_scheme \<Rightarrow> (int \<times> xvstat option \<times> 'a file_state_scheme) res" where
  "sys_fstat fd q s =
     rbind (argfd fd (set_errno 0 s)) (\<lambda>(r, s).
       case (r, q) of
         (Some f, Some st) \<Rightarrow>
           if f_type (ftable s f) = FD_CONSOLE then Ok (0, Some (st\<lparr>st_type := T_DEV\<rparr>), s)
           else rbind (filestat f s) (\<lambda>(x, new, s). Ok (x, (case new of None \<Rightarrow> Some st | Some t \<Rightarrow> Some t), s))
       | _ \<Rightarrow> Ok (-1, q, s))"

section \<open>Links\<close>

definition noname :: bytes where "noname = replicate DIRSIZ 0"

text \<open>The \<open>bad\<close> exit of \<open>sys_link\<close> takes the link count back.\<close>

definition link_bad :: "nat \<Rightarrow> 'a file_state_scheme \<Rightarrow> (int \<times> 'a file_state_scheme) res" where
  "link_bad ip s =
     rbind (ilock (Some ip) s) (\<lambda>s.
     rbind (iupdate ip (upd_inode ip (\<lambda>i. i\<lparr>i_nlink := i_nlink i - 1\<rparr>) s)) (\<lambda>s.
     rbind (iunlockput ip s) (\<lambda>s.
     rbind (end_op s) (\<lambda>s. Ok (-1, set_errno EEXIST s)))))"

definition sys_link :: "bytes option \<Rightarrow> bytes option \<Rightarrow> 'a file_state_scheme \<Rightarrow> (int \<times> 'a file_state_scheme) res" where
  "sys_link oldp newp s =
     (let s = set_errno 0 s in
      case (oldp, newp) of
        (Some old, Some new) \<Rightarrow>
          rbind (begin_op s) (\<lambda>s.
          rbind (namei old s) (\<lambda>(r, s).
          case r of
            None \<Rightarrow> rbind (end_op s) (\<lambda>s. Ok (-1, set_errno ENOENT s))
          | Some ip \<Rightarrow>
              rbind (ilock (Some ip) s) (\<lambda>s.
              if i_type (icache s ip) = T_DIR then
                rbind (iunlockput ip s) (\<lambda>s. rbind (end_op s) (\<lambda>s. Ok (-1, set_errno EPERM s)))
              else
                rbind (iupdate ip (upd_inode ip (\<lambda>i. i\<lparr>i_nlink := i_nlink i + 1\<rparr>) s)) (\<lambda>s.
                rbind (iunlock (Some ip) s) (\<lambda>s.
                rbind (nameiparent new noname s) (\<lambda>(d, name, s).
                case d of
                  None \<Rightarrow> link_bad ip s
                | Some dp \<Rightarrow>
                    rbind (ilock (Some dp) s) (\<lambda>s.
                    rbind (dirlink dp name (i_inum (icache s ip)) s) (\<lambda>(x, s).
                    if x < 0 then rbind (iunlockput dp s) (\<lambda>s. link_bad ip s)
                    else
                      rbind (iunlockput dp s) (\<lambda>s.
                      rbind (iput ip s) (\<lambda>s.
                      rbind (end_op s) (\<lambda>s. Ok (0, s))))))))))))
      | _ \<Rightarrow> Ok (-1, set_errno ENOENT s))"

fun isdirempty_loop :: "nat \<Rightarrow> nat list \<Rightarrow> 'a fs_state_scheme \<Rightarrow> (bool \<times> 'a fs_state_scheme) res" where
  "isdirempty_loop dp [] s = Ok (True, s)"
| "isdirempty_loop dp (off # offs) s =
     rbind (readi dp (of_nat off) 16 s) (\<lambda>(r, de, s).
       if r \<noteq> 16 then Panic ''isdirempty: readi''
       else if de_inum de \<noteq> 0 then Ok (False, s)
       else isdirempty_loop dp offs s)"

definition isdirempty :: "nat \<Rightarrow> 'a fs_state_scheme \<Rightarrow> (bool \<times> 'a fs_state_scheme) res" where
  "isdirempty dp s = isdirempty_loop dp (drop 2 (dir_offs (unat (i_size (icache s dp))))) s"

definition dot :: bytes where "dot = [46, 0]"
definition dotdot :: bytes where "dotdot = [46, 46, 0]"

definition unlink_bad :: "nat \<Rightarrow> 'a file_state_scheme \<Rightarrow> (int \<times> 'a file_state_scheme) res" where
  "unlink_bad dp s =
     rbind (iunlockput dp s) (\<lambda>s. rbind (end_op s) (\<lambda>s. Ok (-1, set_errno EPERM s)))"

definition sys_unlink :: "bytes option \<Rightarrow> 'a file_state_scheme \<Rightarrow> (int \<times> 'a file_state_scheme) res" where
  "sys_unlink pathp s =
     (let s = set_errno 0 s in
      case pathp of
        None \<Rightarrow> Ok (-1, set_errno ENOENT s)
      | Some path \<Rightarrow>
          rbind (begin_op s) (\<lambda>s.
          rbind (nameiparent path noname s) (\<lambda>(d, name, s).
          case d of
            None \<Rightarrow> rbind (end_op s) (\<lambda>s. Ok (-1, set_errno EPERM s))
          | Some dp \<Rightarrow>
              rbind (ilock (Some dp) s) (\<lambda>s.
              if namecmp name dot = 0 \<or> namecmp name dotdot = 0 then unlink_bad dp s
              else
                rbind (dirlookup dp name s) (\<lambda>(r, s).
                case r of
                  None \<Rightarrow> unlink_bad dp s
                | Some (ip, off) \<Rightarrow>
                    rbind (ilock (Some ip) s) (\<lambda>s.
                    if sint (i_nlink (icache s ip)) < 1 then Panic ''unlink: nlink < 1''
                    else
                      rbind (if i_type (icache s ip) = T_DIR then isdirempty ip s else Ok (True, s)) (\<lambda>(e, s).
                      if \<not> e then rbind (iunlockput ip s) (\<lambda>s. unlink_bad dp s)
                      else
                        rbind (writei dp (replicate 16 0) (of_nat off) 16 s) (\<lambda>(w, s).
                        if w \<noteq> 16 then Panic ''unlink: writei''
                        else
                          rbind (if i_type (icache s ip) = T_DIR
                                 then iupdate dp (upd_inode dp (\<lambda>i. i\<lparr>i_nlink := i_nlink i - 1\<rparr>) s) else Ok s) (\<lambda>s.
                          rbind (iunlockput dp s) (\<lambda>s.
                          rbind (iupdate ip (upd_inode ip (\<lambda>i. i\<lparr>i_nlink := i_nlink i - 1\<rparr>) s)) (\<lambda>s.
                          rbind (iunlockput ip s) (\<lambda>s.
                          rbind (end_op s) (\<lambda>s. Ok (0, s))))))))))))))"

section \<open>Creating and opening\<close>

definition create :: "bytes \<Rightarrow> ushort \<Rightarrow> ushort \<Rightarrow> ushort \<Rightarrow> 'a file_state_scheme \<Rightarrow> (nat option \<times> 'a file_state_scheme) res" where
  "create path type major minor s =
     rbind (nameiparent path noname s) (\<lambda>(d, name, s).
     case d of
       None \<Rightarrow> Ok (None, s)
     | Some dp \<Rightarrow>
         rbind (ilock (Some dp) s) (\<lambda>s.
         rbind (dirlookup dp name s) (\<lambda>(r, s).
         case r of
           Some (ip, _) \<Rightarrow>
             rbind (iunlockput dp s) (\<lambda>s.
             rbind (ilock (Some ip) s) (\<lambda>s.
             if type = T_FILE \<and> i_type (icache s ip) = T_FILE then Ok (Some ip, s)
             else rbind (iunlockput ip s) (\<lambda>s. Ok (None, s))))
         | None \<Rightarrow>
             rbind (ialloc type s) (\<lambda>(ip, s).
             rbind (ilock (Some ip) s) (\<lambda>s.
             rbind (iupdate ip (upd_inode ip (\<lambda>i. i\<lparr>i_major := major, i_minor := minor, i_nlink := 1\<rparr>) s)) (\<lambda>s.
             rbind
               (if type = T_DIR then
                  rbind (iupdate dp (upd_inode dp (\<lambda>i. i\<lparr>i_nlink := i_nlink i + 1\<rparr>) s)) (\<lambda>s.
                  rbind (dirlink ip dot (i_inum (icache s ip)) s) (\<lambda>(x, s).
                  if x < 0 then Panic ''create dots''
                  else
                    rbind (dirlink ip dotdot (i_inum (icache s dp)) s) (\<lambda>(y, s).
                    if y < 0 then Panic ''create dots'' else Ok s)))
                else Ok s) (\<lambda>s.
             rbind (dirlink dp name (i_inum (icache s ip)) s) (\<lambda>(z, s).
             if z < 0 then Panic ''create: dirlink''
             else rbind (iunlockput dp s) (\<lambda>s. Ok (Some ip, s))))))))))"

text \<open>
  \<open>(f = filealloc()) == 0 || (fd = fdalloc(f)) < 0\<close>, with the file closed again in the second case.
\<close>

definition open_slot :: "'a file_state_scheme \<Rightarrow> ((nat \<times> int) option \<times> 'a file_state_scheme) res" where
  "open_slot s =
     (case filealloc s of
        (None, s) \<Rightarrow> Ok (None, s)
      | (Some f, s) \<Rightarrow>
          rbind (fdalloc f s) (\<lambda>(fd, s).
            if fd < 0 then rbind (fileclose f s) (\<lambda>s. Ok (None, s)) else Ok (Some (f, fd), s)))"

definition tty :: bytes where "tty = [47, 116, 116, 121, 0]"

text \<open>The assignments to the new file at the end of \<open>sys_open\<close>; for the console \<open>ip\<close> is null.\<close>

definition open_fill :: "ftype \<Rightarrow> nat option \<Rightarrow> uint \<Rightarrow> nat \<Rightarrow> int \<Rightarrow> 'a file_state_scheme \<Rightarrow> (int \<times> 'a file_state_scheme) res" where
  "open_fill type q omode f fd s =
     (let s = upd_file f (\<lambda>e. e\<lparr>f_type := type, f_ip := q, f_off := 0, f_readable := (omode AND O_WRONLY = 0),
                f_writable := (omode AND O_WRONLY \<noteq> 0 \<or> omode AND O_RDWR \<noteq> 0)\<rparr>) s
      in if omode AND O_APPEND \<noteq> 0 then
           (case q of None \<Rightarrow> Fault | Some ip \<Rightarrow> Ok (fd, upd_file f (\<lambda>e. e\<lparr>f_off := i_size (icache s ip)\<rparr>) s))
         else Ok (fd, s))"

definition sys_open :: "bytes option \<Rightarrow> uint \<Rightarrow> 'a file_state_scheme \<Rightarrow> (int \<times> 'a file_state_scheme) res" where
  "sys_open pathp omode s =
     (let s = set_errno 0 s in
      case pathp of
        None \<Rightarrow> Ok (-1, set_errno ENOENT s)
      | Some path \<Rightarrow>
      if sint omode < 0 then Ok (-1, set_errno ENOENT s)
      else
      rbind (begin_op s) (\<lambda>s.
      if strncmp path tty 4 = 0 then
        rbind (open_slot s) (\<lambda>(r, s).
        case r of
          None \<Rightarrow> rbind (end_op s) (\<lambda>s. Ok (-1, set_errno EACCES s))
        | Some (f, fd) \<Rightarrow> rbind (end_op s) (\<lambda>s. open_fill FD_CONSOLE None omode f fd s))
      else
        rbind
          (if omode AND O_CREATE \<noteq> 0 then
             rbind (create path T_FILE 0 0 s) (\<lambda>(r, s).
             case r of
               None \<Rightarrow> rbind (end_op s) (\<lambda>s. Ok (None, set_errno EEXIST s))
             | Some ip \<Rightarrow> Ok (Some ip, s))
           else
             rbind (namei path s) (\<lambda>(r, s).
             case r of
               None \<Rightarrow> rbind (end_op s) (\<lambda>s. Ok (None, set_errno ENOENT s))
             | Some ip \<Rightarrow>
                 rbind (ilock (Some ip) s) (\<lambda>s.
                 if i_type (icache s ip) = T_DIR \<and> omode \<noteq> 0 then
                   rbind (iunlockput ip s) (\<lambda>s. rbind (end_op s) (\<lambda>s. Ok (None, set_errno EISDIR s)))
                 else Ok (Some ip, s)))) (\<lambda>(q, s).
        case q of
          None \<Rightarrow> Ok (-1, s)
        | Some ip \<Rightarrow>
            rbind (open_slot s) (\<lambda>(r, s).
            case r of
              None \<Rightarrow>
                rbind (iunlockput ip s) (\<lambda>s. rbind (end_op s) (\<lambda>s. Ok (-1, set_errno EACCES s)))
            | Some (f, fd) \<Rightarrow>
                rbind (if omode AND O_TRUNC \<noteq> 0 then itrunc ip s else Ok s) (\<lambda>s.
                rbind (iunlock (Some ip) s) (\<lambda>s.
                rbind (end_op s) (\<lambda>s. open_fill FD_INODE (Some ip) omode f fd s)))))))"

definition sys_mkdir :: "bytes option \<Rightarrow> 'a file_state_scheme \<Rightarrow> (int \<times> 'a file_state_scheme) res" where
  "sys_mkdir pathp s =
     rbind (begin_op s) (\<lambda>s.
     rbind (case pathp of None \<Rightarrow> Ok (None, set_errno 0 s) | Some path \<Rightarrow> create path T_DIR 0 0 (set_errno 0 s)) (\<lambda>(r, s).
     case r of
       None \<Rightarrow> rbind (end_op s) (\<lambda>s. Ok (-1, set_errno EINVAL s))
     | Some ip \<Rightarrow> rbind (iunlockput ip s) (\<lambda>s. rbind (end_op s) (\<lambda>s. Ok (0, s)))))"

section \<open>The current directory\<close>

definition ichdir :: "nat option \<Rightarrow> 'a file_state_scheme \<Rightarrow> (int \<times> 'a file_state_scheme) res" where
  "ichdir q s =
     rbind (ilock q s) (\<lambda>s.
     case q of None \<Rightarrow> Fault
     | Some ip \<Rightarrow>
         if i_type (icache s ip) \<noteq> T_DIR then
           rbind (iunlockput ip s) (\<lambda>s. rbind (end_op s) (\<lambda>s. Ok (-1, set_errno ENOTDIR s)))
         else
           rbind (iunlock (Some ip) s) (\<lambda>s.
           rbind (myproc s) (\<lambda>p.
           case p_cwd (ptable s p) of None \<Rightarrow> Fault
           | Some cwd \<Rightarrow>
               rbind (iput cwd s) (\<lambda>s.
               rbind (end_op s) (\<lambda>s. Ok (0, upd_proc p (\<lambda>e. e\<lparr>p_cwd := Some ip\<rparr>) s))))))"

definition sys_chdir :: "bytes option \<Rightarrow> 'a file_state_scheme \<Rightarrow> (int \<times> 'a file_state_scheme) res" where
  "sys_chdir pathp s =
     rbind (begin_op s) (\<lambda>s.
     rbind (case pathp of None \<Rightarrow> Ok (None, set_errno 0 s) | Some path \<Rightarrow> namei path (set_errno 0 s)) (\<lambda>(r, s).
     case r of
       None \<Rightarrow> rbind (end_op s) (\<lambda>s. Ok (-1, set_errno EINVAL s))
     | Some ip \<Rightarrow> ichdir (Some ip) s))"

definition sys_fchdir :: "int \<Rightarrow> 'a file_state_scheme \<Rightarrow> (int \<times> 'a file_state_scheme) res" where
  "sys_fchdir fd s =
     rbind (argfd fd (set_errno 0 s)) (\<lambda>(r, s).
     case r of None \<Rightarrow> Ok (-1, set_errno EBADF s) | Some f \<Rightarrow> ichdir (f_ip (ftable s f)) s)"

section \<open>Pipes\<close>

text \<open>The two descriptors are what is stored in the user's array.\<close>

definition sys_pipe :: "bool \<Rightarrow> 'a file_state_scheme \<Rightarrow> ((int \<times> (int \<times> int) option) \<times> 'a file_state_scheme) res" where
  "sys_pipe nonnull s =
     (if \<not> nonnull then Ok ((-1, None), set_errno EINVAL s)
      else
        rbind (pipealloc s) (\<lambda>(r, s).
        case r of
          None \<Rightarrow> Ok ((-1, None), set_errno EMFILE s)
        | Some (rfile, wfile) \<Rightarrow>
            rbind (fdalloc rfile s) (\<lambda>(fd0, s).
            rbind (if fd0 < 0 then Ok (-1, s) else fdalloc wfile s) (\<lambda>(fd1, s).
            if fd0 < 0 \<or> fd1 < 0 then
              rbind (myproc s) (\<lambda>p.
              rbind (fileclose rfile (if fd0 \<ge> 0 then set_ofile (nat fd0) None p s else s)) (\<lambda>s.
              rbind (fileclose wfile s) (\<lambda>s. Ok ((-1, None), set_errno ENFILE s))))
            else Ok ((0, Some (fd0, fd1)), s)))))"

section \<open>Seeking\<close>

text \<open>The zeroes written by a seek past the end; \<open>seekbuf\<close> has \<open>SBUFSIZE\<close> bytes, whatever \<open>zerosize\<close> is.\<close>

function lseek_loop :: "nat \<Rightarrow> int \<Rightarrow> 'a file_state_scheme \<Rightarrow> (unit io \<times> 'a file_state_scheme) res" where
  "lseek_loop f zerosize s =
     (if zerosize > 0 then
        rbind (filewrite f (replicate SBUFSIZE 0) zerosize s) (\<lambda>(r, s).
          case r of
            Wait k \<Rightarrow> Ok (Wait k, s)
          | Ret _ \<Rightarrow> lseek_loop f (zerosize - int SBUFSIZE) s)
      else Ok (Ret (), s))"
  by pat_completeness auto
termination
  by (relation "measure (\<lambda>(f, z, s). nat z)") (auto simp: SBUFSIZE_def)

declare lseek_loop.simps [simp del]

definition seek_target :: "uint \<Rightarrow> int \<Rightarrow> xfile \<Rightarrow> 'a fs_state_scheme \<Rightarrow> uint res" where
  "seek_target offset base e s =
     (if base = 0 then Ok offset
      else if base = 1 then Ok (f_off e + offset)
      else if base = 2 then (case f_ip e of None \<Rightarrow> Fault | Some ip \<Rightarrow> Ok (i_size (icache s ip) + offset))
      else Ok 0)"

text \<open>A writer to a pipe may go to sleep in the loop; the call is then left there.\<close>

definition sys_lseek :: "int \<Rightarrow> uint \<Rightarrow> int \<Rightarrow> 'a file_state_scheme \<Rightarrow> (int io \<times> 'a file_state_scheme) res" where
  "sys_lseek fd offset base s =
     rbind (argfd fd (set_errno 0 s)) (\<lambda>(r, s).
     case r of
       None \<Rightarrow> Ok (Ret (-1), set_errno EINVAL s)
     | Some f \<Rightarrow>
         if base < 0 then Ok (Ret (-1), set_errno EINVAL s)
         else
           rbind (seek_target offset base (ftable s f) s) (\<lambda>newoff.
           if sint newoff < 0 then Ok (Ret (-1), set_errno EINVAL s)
           else
             (case f_ip (ftable s f) of None \<Rightarrow> Fault
              | Some ip \<Rightarrow>
                  rbind (if newoff > i_size (icache s ip)
                         then lseek_loop f (sint (newoff - i_size (icache s ip))) s else Ok (Ret (), s)) (\<lambda>(w, s).
                  case w of
                    Wait k \<Rightarrow> Ok (Wait k, s)
                  | Ret _ \<Rightarrow> Ok (Ret (sint newoff), upd_file f (\<lambda>e. e\<lparr>f_off := newoff\<rparr>) s)))))"

section \<open>The terminal, times and synchronisation\<close>

text \<open>Of \<open>struct termios\<close> only \<open>c_lflag\<close> is used; the second result is its new value.\<close>

definition sys_ioctl :: "int \<Rightarrow> uint \<Rightarrow> uint option \<Rightarrow> 'a file_state_scheme \<Rightarrow> (int \<times> uint option \<times> 'a file_state_scheme) res" where
  "sys_ioctl fd op arg s =
     rbind (argfd fd (set_errno 0 s)) (\<lambda>(r, s).
     case r of
       None \<Rightarrow> Ok (-1, arg, set_errno EINVAL s)
     | Some f \<Rightarrow>
         if f_type (ftable s f) \<noteq> FD_CONSOLE then Ok (-1, arg, set_errno ENOTTY s)
         else if op = TCGETA then
           (case arg of None \<Rightarrow> Ok (-1, arg, s)
            | Some _ \<Rightarrow> Ok (0, Some ((if duart_echo s then ECHO else 0) OR (if duart_crnl s then ICANON else 0)), s))
         else if op = TCSETA then
           (case arg of None \<Rightarrow> Ok (-1, arg, s)
            | Some lflag \<Rightarrow> Ok (0, arg, s\<lparr>duart_echo := (lflag AND ECHO \<noteq> 0), duart_crnl := (lflag AND ICANON \<noteq> 0)\<rparr>))
         else Ok (-1, arg, set_errno EINVAL s))"

definition sys_utime :: "bytes option \<Rightarrow> uint option \<Rightarrow> 'a file_state_scheme \<Rightarrow> (int \<times> 'a file_state_scheme) res" where
  "sys_utime pathp timbuf s =
     (let s = set_errno 0 s in
      case (pathp, timbuf) of
        (Some path, Some modtime) \<Rightarrow>
          rbind (begin_op s) (\<lambda>s.
          rbind (namei path s) (\<lambda>(r, s).
          case r of
            None \<Rightarrow> rbind (end_op s) (\<lambda>s. Ok (-1, set_errno ENOENT s))
          | Some ip \<Rightarrow>
              rbind (ilock (Some ip) s) (\<lambda>s.
              rbind (iupdate ip (upd_inode ip (\<lambda>i. i\<lparr>i_mtime := modtime\<rparr>) s)) (\<lambda>s.
              rbind (iunlock (Some ip) s) (\<lambda>s.
              rbind (end_op s) (\<lambda>s. Ok (0, s)))))))
      | _ \<Rightarrow> Ok (-1, set_errno EACCES s))"

definition sys_sync :: "'a file_state_scheme \<Rightarrow> 'a file_state_scheme res" where
  "sys_sync s = rbind (begin_op s) (\<lambda>s. rbind (bflush s) (\<lambda>s. end_op s))"

end
