(* ===== verification/Fdrefs.thy ===== *)
theory Fdrefs
  imports Sysfile
begin

text \<open>
  Reference counts of open files. \<open>refs_ok d s\<close> says that the count of every file is the number of
  descriptors, over all processes, that name it, plus \<open>d\<close> references held by the kernel code that is
  running. Each routine of the descriptor layer moves \<open>d\<close> by one; a system call starts and ends with
  \<open>d = 0\<close>.
\<close>

definition fds :: "(nat \<Rightarrow> nat \<Rightarrow> nat option) \<Rightarrow> nat \<Rightarrow> (nat \<times> nat) set" where
  "fds ofs f = {(p, fd). p < NPROC \<and> fd < NOFILE \<and> ofs p fd = Some f}"

definition ofiles :: "'a kern_state_scheme \<Rightarrow> nat \<Rightarrow> nat \<Rightarrow> nat option" where
  "ofiles s p = p_ofile (ptable s p)"

definition refs_ok :: "(nat \<Rightarrow> int) \<Rightarrow> 'a file_state_scheme \<Rightarrow> bool" where
  "refs_ok d s \<longleftrightarrow> (\<exists>p < NPROC. proc s = Some p) \<and> (\<forall>f. f_ref (ftable s f) = int (card (fds (ofiles s) f)) + d f)"

text \<open>The part of the state the count depends on.\<close>

definition fview :: "'a file_state_scheme \<Rightarrow> (nat \<Rightarrow> xfile) \<times> (nat \<Rightarrow> nat \<Rightarrow> nat option) \<times> nat option" where
  "fview s = (ftable s, ofiles s, proc s)"

lemma refs_ok_fview: "fview s' = fview s \<Longrightarrow> refs_ok d s' = refs_ok d s"
  by (simp add: fview_def refs_ok_def)

lemma fview_core: "core s' = core s \<Longrightarrow> fview s' = fview s"
  using core_files [of s' s] coreD [of s' s] by (simp add: fview_def ofiles_def fun_eq_iff)

lemma fview_errno [simp]: "fview (set_errno e s) = fview s"
  by (simp add: fview_def ofiles_def set_errno_def fun_eq_iff)

lemma refs_ok_errno [simp]: "refs_ok d (set_errno e s) = refs_ok d s"
  by (rule refs_ok_fview) simp

lemma fview_wakeup [simp]: "fview (wakeup ch s) = fview s"
  by (auto simp: fview_def ofiles_def wakeup_def wakeup1_def fun_eq_iff)

lemma fview_pipe [simp]: "fview (upd_pipe p f s) = fview s"
  by (simp add: fview_def ofiles_def fun_eq_iff)

lemma finite_fds [simp]: "finite (fds ofs f)"
  by (rule finite_subset [of _ "{..<NPROC} \<times> {..<NOFILE}"]) (auto simp: fds_def)

lemma ofiles_set: "ofiles (set_ofile fd q p s) = (ofiles s)(p := (ofiles s p)(fd := q))"
  by (auto simp: ofiles_def set_ofile_def fun_eq_iff)

lemma set_ofile_simps [simp]:
  "ftable (set_ofile fd q p s) = ftable s" "proc (set_ofile fd q p s) = proc s" "plist (set_ofile fd q p s) = plist s"
  by (simp_all add: set_ofile_def upd_proc_def)

lemma ofiles_upd_file [simp]: "ofiles (upd_file f g s) = ofiles s"
  by (simp add: ofiles_def fun_eq_iff)

section \<open>Each routine moves one reference\<close>

lemma refs_store:
  assumes "refs_ok d s" "p < NPROC" "fd < NOFILE" "ofiles s p fd = None"
  shows "refs_ok (d(f := d f - 1)) (set_ofile fd (Some f) p s)"
proof -
  have "fds (ofiles (set_ofile fd (Some f) p s)) g = (if g = f then insert (p, fd) (fds (ofiles s) g) else fds (ofiles s) g)" for g
    using assms by (auto simp: ofiles_set fds_def split: if_splits)
  moreover have "(p, fd) \<notin> fds (ofiles s) f" using assms by (simp add: fds_def)
  ultimately show ?thesis using assms(1) by (auto simp: refs_ok_def)
qed

lemma refs_clear:
  assumes "refs_ok d s" "p < NPROC" "fd < NOFILE" "ofiles s p fd = Some f"
  shows "refs_ok (d(f := d f + 1)) (set_ofile fd None p s)"
proof -
  have "fds (ofiles (set_ofile fd None p s)) g = (if g = f then fds (ofiles s) g - {(p, fd)} else fds (ofiles s) g)" for g
    using assms by (auto simp: ofiles_set fds_def split: if_splits)
  moreover have m: "(p, fd) \<in> fds (ofiles s) f" using assms by (simp add: fds_def)
  then have "int (card (fds (ofiles s) f - {(p, fd)})) = int (card (fds (ofiles s) f)) - 1"
    using card_gt_0_iff [of "fds (ofiles s) f"] by (subst card_Diff_singleton) auto
  ultimately show ?thesis using assms(1) by (auto simp: refs_ok_def)
qed

lemma refs_upd:
  assumes "refs_ok d s" "f_ref (g (ftable s f)) = f_ref (ftable s f) + k"
  shows "refs_ok (d(f := d f + k)) (upd_file f g s)"
  using assms by (auto simp: refs_ok_def ofiles_def)

lemma refs_upd_same:
  assumes "refs_ok d s" "f_ref (g (ftable s f)) = f_ref (ftable s f)"
  shows "refs_ok d (upd_file f g s)"
  using refs_upd [of d s g f 0] assms by simp

lemma refs_filealloc:
  assumes "filealloc s = (r, s')" "refs_ok d s"
  shows "case r of None \<Rightarrow> s' = s | Some f \<Rightarrow> refs_ok (d(f := d f + 1)) s' \<and> f < NFILE \<and> f_ref (ftable s f) = 0 \<and>
     f_ref (ftable s' f) = 1 \<and> f_type (ftable s' f) = f_type (ftable s f) \<and> (\<forall>g. g \<noteq> f \<longrightarrow> ftable s' g = ftable s g)"
  using assms(1)
proof (cases rule: filealloc_cases)
  case 2
  then show ?thesis using refs_upd [of d s "\<lambda>e. e\<lparr>f_ref := 1\<rparr>" _ 1] assms(2) by auto
qed simp

interpretation fdt: slot_table "\<lambda>e. e = None" "\<lambda>_. Some f" NOFILE for f :: nat
  by unfold_locales simp

lemma fdalloc_cases:
  assumes "fdalloc f s = Ok (r, s')" "refs_ok d s"
  obtains "r = -1" "s' = set_errno EMFILE s"
  | p fd where "r = int fd" "fd < NOFILE" "proc s = Some p" "p < NPROC" "ofiles s p fd = None" "s' = set_ofile fd (Some f) p s"
proof -
  obtain p where p: "p < NPROC" "proc s = Some p" using assms(2) by (auto simp: refs_ok_def)
  show ?thesis
  proof (cases "alloc_slot (\<lambda>e. e = None) (\<lambda>_. Some f) NOFILE (p_ofile (ptable s p))")
    case None
    then show ?thesis using assms(1) p that(1) by (simp add: fdalloc_def myproc_def)
  next
    case (Some a)
    obtain fd t where a: "a = (fd, t)" by fastforce
    have t: "t = (p_ofile (ptable s p))(fd := Some f)" using Some a by (auto simp: alloc_slot_def split: option.splits)
    have "fd < NOFILE" "p_ofile (ptable s p) fd = None" using fdt.alloc_fresh [of f "p_ofile (ptable s p)" fd t] Some a by auto
    moreover have "r = int fd" "s' = upd_proc p (\<lambda>e. e\<lparr>p_ofile := t\<rparr>) s" using assms(1) Some a p by (auto simp: fdalloc_def myproc_def)
    moreover from this have "s' = set_ofile fd (Some f) p s" by (simp add: set_ofile_def upd_proc_def t)
    ultimately show ?thesis using that(2) [of fd p] p by (simp add: ofiles_def)
  qed
qed

lemma refs_fdalloc:
  assumes "fdalloc f s = Ok (r, s')" "refs_ok d s"
  shows "if r < 0 then refs_ok d s' \<and> fview s' = fview s
    else refs_ok (d(f := d f - 1)) s' \<and> ftable s' = ftable s \<and> plist s' = plist s \<and>
      (\<exists>p fd. r = int fd \<and> fd < NOFILE \<and> p < NPROC \<and> proc s = Some p \<and> s' = set_ofile fd (Some f) p s \<and> ofiles s p fd = None)"
  using assms(1,2)
proof (cases rule: fdalloc_cases)
  case 1
  then show ?thesis using assms(2) by simp
next
  case (2 p fd)
  then show ?thesis using refs_store [OF assms(2)] by auto
qed

lemma refs_filedup: "filedup f s = Ok s' \<Longrightarrow> refs_ok d s \<Longrightarrow> refs_ok (d(f := d f + 1)) s'"
  by (auto simp: filedup_def split: if_splits intro!: refs_upd)

lemma file_release_fview: "file_release e s = Ok s' \<Longrightarrow> fview s' = fview s"
  by (auto simp: file_release_def pipeclose_def pfree_def Let_def split: ftype.splits option.splits if_splits
      dest!: fs_core) (auto intro: fview_core)

lemma refs_fileclose:
  assumes "fileclose f s = Ok s'" "refs_ok d s"
  shows "refs_ok (d(f := d f - 1)) s' \<and> ofiles s' = ofiles s \<and> proc s' = proc s \<and> (\<forall>g. g \<noteq> f \<longrightarrow> ftable s' g = ftable s g)"
proof -
  let ?t = "upd_file f (\<lambda>e. e\<lparr>f_ref := f_ref e - 1\<rparr>) s"
  let ?u = "upd_file f (\<lambda>e. e\<lparr>f_ref := 0, f_type := FD_NONE\<rparr>) ?t"
  have t: "refs_ok (d(f := d f - 1)) ?t" using refs_upd [OF assms(2), of "\<lambda>e. e\<lparr>f_ref := f_ref e - 1\<rparr>" f "-1"] by simp
  have r: "f_ref (ftable s f) \<ge> 1" using assms(1) by (auto simp: fileclose_def split: if_splits)
  show ?thesis
  proof (cases "f_ref (ftable s f) = 1")
    case True
    then have "file_release (ftable ?t f) ?u = Ok s'" using assms(1) by (auto simp: fileclose_def Let_def split: if_splits)
    then have v: "fview s' = fview ?u" by (rule file_release_fview)
    have "refs_ok (d(f := d f - 1)) ?u" by (rule refs_upd_same [OF t]) (simp add: True)
    then have "refs_ok (d(f := d f - 1)) s'" using refs_ok_fview [OF v] by simp
    then show ?thesis using v by (simp add: fview_def)
  next
    case False
    then have "s' = ?t" using assms(1) r by (auto simp: fileclose_def Let_def split: if_splits)
    then show ?thesis using t by simp
  qed
qed

section \<open>The system calls\<close>

lemma isdirempty_loop_core: "isdirempty_loop dp offs s = Ok (e, s') \<Longrightarrow> core s' = core s"
  by (induction offs arbitrary: s) (auto split: if_splits dest!: fs_core)

lemma isdirempty_core [fs_core]: "isdirempty dp s = Ok (e, s') \<Longrightarrow> core s' = core s"
  unfolding isdirempty_def by (rule isdirempty_loop_core)

lemma create_core [fs_core]: "create path ty ma mi s = Ok (r, s') \<Longrightarrow> core s' = core s"
  by (auto simp: create_def split: option.splits if_splits dest!: fs_core)

lemma refs_core: "core s' = core s \<Longrightarrow> refs_ok d s' = refs_ok d s"
  by (rule refs_ok_fview [OF fview_core])

lemma argfd_cases:
  assumes "argfd fd s = Ok (r, s')" "refs_ok d s"
  obtains "r = None" "s' = set_errno EBADF s"
  | f p where "r = Some f" "s' = s" "nat fd < NOFILE" "proc s = Some p" "p < NPROC" "ofiles s p (nat fd) = Some f"
proof -
  obtain p where p: "p < NPROC" "proc s = Some p" using assms(2) by (auto simp: refs_ok_def)
  show ?thesis
  proof (cases "fd < 0 \<or> fd \<ge> int NOFILE \<or> ofiles s p (nat fd) = None")
    case True
    then show ?thesis using that(1) assms(1) p by (auto simp: argfd_def myproc_def ofiles_def split: if_splits)
  next
    case False
    then obtain f where f: "ofiles s p (nat fd) = Some f" by auto
    then have "r = Some f" "s' = s" using False assms(1) p by (auto simp: argfd_def myproc_def ofiles_def)
    then show ?thesis using that(2) [of f p] False f p by auto
  qed
qed

lemma sys_dup_refs:
  assumes "sys_dup fd s = Ok (r, s')" "refs_ok d s"
  shows "refs_ok d s'"
proof -
  obtain q t where q: "argfd fd (set_errno 0 s) = Ok (q, t)" using assms(1) by (auto simp: sys_dup_def)
  from q show ?thesis
  proof (rule argfd_cases)
    show "refs_ok d (set_errno 0 s)" using assms(2) by simp
  next
    fix f p
    assume f: "q = Some f" "t = set_errno 0 s"
    obtain n u where u: "fdalloc f t = Ok (n, u)" using assms(1) q f by (auto simp: sys_dup_def)
    note ru = refs_fdalloc [OF u, of d] 
    show ?thesis
    proof (cases "n < 0")
      case True
      then show ?thesis using ru assms q f u by (auto simp: sys_dup_def)
    next
      case False
      then have "filedup f u = Ok s'" using assms(1) q f u by (auto simp: sys_dup_def)
      then show ?thesis using refs_filedup [of f u s' "d(f := d f - 1)"] ru False assms(2) f by simp
    qed
  qed (use assms q in \<open>auto simp: sys_dup_def\<close>)
qed

lemma sys_close_refs:
  assumes "sys_close fd s = Ok (r, s')" "refs_ok d s"
  shows "refs_ok d s'"
proof -
  obtain q t where q: "argfd fd (set_errno 0 s) = Ok (q, t)" using assms(1) by (auto simp: sys_close_def)
  from q show ?thesis
  proof (rule argfd_cases)
    show "refs_ok d (set_errno 0 s)" using assms(2) by simp
  next
    fix f p
    assume f: "q = Some f" "t = set_errno 0 s" "nat fd < NOFILE" "proc (set_errno 0 s) = Some p" "p < NPROC" "ofiles (set_errno 0 s) p (nat fd) = Some f"
    then have c: "fileclose f (set_ofile (nat fd) None p t) = Ok s'" using assms(1) q by (auto simp: sys_close_def myproc_def)
    have "refs_ok (d(f := d f + 1)) (set_ofile (nat fd) None p t)" using f assms(2) by (intro refs_clear) simp_all
    then show ?thesis using refs_fileclose [OF c, of "d(f := d f + 1)"] by simp
  qed (use assms q in \<open>auto simp: sys_close_def\<close>)
qed

lemma close_opt_refs:
  "close_opt None s = Ok s' \<Longrightarrow> s' = s"
  "close_opt (Some f) s = Ok s' \<Longrightarrow> refs_ok d s \<Longrightarrow> refs_ok (d(f := d f - 1)) s'"
  using refs_fileclose by (auto simp: close_opt_def)

lemma refs_pipealloc:
  assumes "pipealloc s = Ok (r, s')" "refs_ok d s"
  shows "case r of None \<Rightarrow> refs_ok d s' | Some (f0, f1) \<Rightarrow> f0 \<noteq> f1 \<and> refs_ok (d(f0 := d f0 + 1, f1 := d f1 + 1)) s'"
proof -
  obtain r0 s0 where a0: "filealloc s = (r0, s0)" by fastforce
  note i0 = refs_filealloc [OF a0 assms(2)]
  show ?thesis
  proof (cases r0)
    case None
    then show ?thesis using assms a0 i0 by (auto simp: pipealloc_def pipealloc_bad_def close_opt_def)
  next
    case (Some f0)
    let ?d0 = "d(f0 := d f0 + 1)"
    have r0: "refs_ok ?d0 s0" "f_ref (ftable s0 f0) = 1" using i0 Some by auto
    obtain r1 s1 where a1: "filealloc s0 = (r1, s1)" by fastforce
    note i1 = refs_filealloc [OF a1 r0(1)]
    show ?thesis
    proof (cases r1)
      case None
      then obtain t where t: "close_opt (Some f0) s0 = Ok t" "r = None" "s' = set_errno ENFILE t"
        using assms(1) a0 a1 Some i1 by (auto simp: pipealloc_def pipealloc_bad_def dest!: close_opt_refs(1))
      then show ?thesis using close_opt_refs(2) [OF t(1) r0(1)] by simp
    next
      case (Some f1)
      let ?d1 = "?d0(f1 := ?d0 f1 + 1)"
      have r1: "refs_ok ?d1 s1" "f0 \<noteq> f1" using i1 Some r0(2) by auto
      obtain r2 s2 where a2: "palloc s1 = (r2, s2)" by fastforce
      then have v: "fview s2 = fview s1" by (auto elim: palloc_cases)
      then have r2: "refs_ok ?d1 s2" using r1(1) refs_ok_fview by blast
      show ?thesis
      proof (cases r2)
        case None
        then obtain t u where t: "close_opt (Some f0) s2 = Ok t" "close_opt (Some f1) t = Ok u" "r = None" "s' = set_errno ENFILE u"
          using assms(1) a0 a1 a2 \<open>r0 = Some f0\<close> Some by (auto simp: pipealloc_def pipealloc_bad_def)
        have "?d1(f0 := ?d1 f0 - 1, f1 := (?d1(f0 := ?d1 f0 - 1)) f1 - 1) = d" using r1(2) by (simp add: fun_eq_iff)
        then show ?thesis using close_opt_refs(2) [OF t(2) close_opt_refs(2) [OF t(1) r2]] t by simp
      next
        case (Some p)
        then have "r = Some (f0, f1)" "s' = upd_file f1 (pipe_end p True) (upd_file f0 (pipe_end p False) (upd_pipe p pipe_open s2))"
          using assms(1) a0 a1 a2 \<open>r0 = Some f0\<close> \<open>r1 = Some f1\<close> by (auto simp: pipealloc_def)
        moreover have "refs_ok ?d1 (upd_pipe p pipe_open s2)" using r2 refs_ok_fview [of "upd_pipe p pipe_open s2" s2] by simp
        ultimately show ?thesis using r1(2) by (auto simp: pipe_end_def intro!: refs_upd_same)
      qed
    qed
  qed
qed

lemma open_slot_refs:
  assumes "open_slot s = Ok (r, s')" "refs_ok d s"
  shows "refs_ok d s'"
proof -
  obtain r0 s0 where a0: "filealloc s = (r0, s0)" by fastforce
  note i0 = refs_filealloc [OF a0 assms(2)]
  show ?thesis
  proof (cases r0)
    case None
    then show ?thesis using assms a0 i0 by (simp add: open_slot_def)
  next
    case (Some f)
    let ?d = "d(f := d f + 1)"
    have r0: "refs_ok ?d s0" using i0 Some by simp
    obtain n t where t: "fdalloc f s0 = Ok (n, t)" using assms(1) a0 Some by (auto simp: open_slot_def)
    note rt = refs_fdalloc [OF t r0]
    show ?thesis
    proof (cases "n < 0")
      case True
      then have "fileclose f t = Ok s'" using assms(1) a0 Some t by (auto simp: open_slot_def)
      then show ?thesis using refs_fileclose [of f t s' ?d] rt True by simp
    next
      case False
      then show ?thesis using assms(1) a0 Some t rt by (auto simp: open_slot_def)
    qed
  qed
qed

lemma open_fill_refs: "open_fill ty q omode f fd s = Ok (r, s') \<Longrightarrow> refs_ok d s \<Longrightarrow> refs_ok d s'"
  by (auto simp: open_fill_def Let_def split: if_splits option.splits intro!: refs_upd_same)

text \<open>Finding or creating the inode, the part of \<open>sys_open\<close> before the descriptor is allocated.\<close>

lemma sys_open_refs:
  assumes o: "sys_open pathp omode s = Ok (r, s')" and "refs_ok d s"
  shows "refs_ok d s'"
proof (cases "pathp = None \<or> sint omode < 0")
  case True
  then show ?thesis using assms by (cases pathp) (auto simp: sys_open_def)
next
  case False
  then obtain path where path: "pathp = Some path" "\<not> sint omode < 0" by auto
  obtain s1 where b: "begin_op (set_errno 0 s) = Ok s1" using o path by (auto simp: sys_open_def)
  then have r1: "refs_ok d s1" using assms(2) refs_core [OF begin_op_core [OF b]] by simp
  show ?thesis
  proof (cases "strncmp path tty 4 = 0")
    case True
    then obtain q s2 s3 where q: "open_slot s1 = Ok (q, s2)" "end_op s2 = Ok s3"
      "case q of None \<Rightarrow> s' = set_errno EACCES s3 | Some (f, fd) \<Rightarrow> open_fill FD_CONSOLE None omode f fd s3 = Ok (r, s')"
      using o path b by (fastforce simp: sys_open_def split: option.splits)
    have "refs_ok d s3" using open_slot_refs [OF q(1) r1] refs_core [OF end_op_core [OF q(2)]] by simp
    then show ?thesis using q(3) open_fill_refs by (auto split: option.splits prod.splits)
  next
    case False
    let ?find = "if omode AND O_CREATE \<noteq> 0 then
             rbind (create path T_FILE 0 0 s1) (\<lambda>(r, s).
             case r of
               None \<Rightarrow> rbind (end_op s) (\<lambda>s. Ok (None, set_errno EEXIST s))
             | Some ip \<Rightarrow> Ok (Some ip, s))
           else
             rbind (namei path s1) (\<lambda>(r, s).
             case r of
               None \<Rightarrow> rbind (end_op s) (\<lambda>s. Ok (None, set_errno ENOENT s))
             | Some ip \<Rightarrow>
                 rbind (ilock (Some ip) s) (\<lambda>s.
                 if i_type (icache s ip) = T_DIR \<and> omode \<noteq> 0 then
                   rbind (iunlockput ip s) (\<lambda>s. rbind (end_op s) (\<lambda>s. Ok (None, set_errno EISDIR s)))
                 else Ok (Some ip, s)))"
    obtain q s2 where q: "?find = Ok (q, s2)" and
      rest: "(case q of
          None \<Rightarrow> Ok (-1, s2)
        | Some ip \<Rightarrow>
            rbind (open_slot s2) (\<lambda>(r, s).
            case r of
              None \<Rightarrow>
                rbind (iunlockput ip s) (\<lambda>s. rbind (end_op s) (\<lambda>s. Ok (-1, set_errno EACCES s)))
            | Some (f, fd) \<Rightarrow>
                rbind (if omode AND O_TRUNC \<noteq> 0 then itrunc ip s else Ok s) (\<lambda>s.
                rbind (iunlock (Some ip) s) (\<lambda>s.
                rbind (end_op s) (\<lambda>s. open_fill FD_INODE (Some ip) omode f fd s))))) = Ok (r, s')"
      using o path b False by (auto simp: sys_open_def)
    have "\<exists>t. core t = core s1 \<and> fview s2 = fview t"
      using q by (auto split: if_splits option.splits dest!: fs_core) blast+
    then have r2: "refs_ok d s2" using r1 refs_core refs_ok_fview by metis
    show ?thesis
    proof (cases q)
      case None
      then show ?thesis using rest r2 by simp
    next
      case (Some ip)
      then obtain a s3 where a: "open_slot s2 = Ok (a, s3)" using rest by auto
      note r3 = open_slot_refs [OF a r2]
      show ?thesis
      proof (cases a)
        case None
        then obtain t where "core t = core s3" "s' = set_errno EACCES t" using rest a Some by (auto dest!: fs_core)
        then show ?thesis using r3 refs_core by auto
      next
        case (Some ff)
        then obtain t where "core t = core s3" "open_fill FD_INODE (Some ip) omode (fst ff) (snd ff) t = Ok (r, s')"
          using rest a \<open>q = Some ip\<close> by (cases ff) (auto split: if_splits dest!: fs_core)
        then show ?thesis using r3 refs_core [of t s3] open_fill_refs by blast
      qed
    qed
  qed
qed

lemma sys_pipe_refs:
  assumes o: "sys_pipe nn s = Ok (r, s')" and "refs_ok d s"
  shows "refs_ok d s'"
proof (cases nn)
  case False
  then show ?thesis using assms by (auto simp: sys_pipe_def)
next
  case True
  then obtain q s1 where q: "pipealloc s = Ok (q, s1)" using o by (auto simp: sys_pipe_def)
  note r1 = refs_pipealloc [OF q assms(2)]
  show ?thesis
  proof (cases q)
    case None
    then show ?thesis using o True q r1 by (auto simp: sys_pipe_def)
  next
    case (Some ff)
    obtain f0 f1 where ff: "ff = (f0, f1)" by fastforce
    let ?d = "d(f0 := d f0 + 1, f1 := d f1 + 1)"
    have ne: "f0 \<noteq> f1" and r1: "refs_ok ?d s1" using r1 Some ff by auto
    obtain n0 s2 where a0: "fdalloc f0 s1 = Ok (n0, s2)" using o True q Some ff by (auto simp: sys_pipe_def)
    note i0 = refs_fdalloc [OF a0 r1]
    obtain n1 s3 where a1: "(if n0 < 0 then Ok (-1, s2) else fdalloc f1 s2) = Ok (n1, s3)"
      using o True q Some ff a0 by (auto simp: sys_pipe_def)
    have fail: "refs_ok d s'" if "n0 < 0 \<or> n1 < 0" "refs_ok ?d t" "fileclose f0 t = Ok u" "fileclose f1 u = Ok v" "s' = set_errno ENFILE v" for t u v
    proof -
      have "refs_ok (?d(f0 := ?d f0 - 1, f1 := (?d(f0 := ?d f0 - 1)) f1 - 1)) v"
        using refs_fileclose [OF that(4)] refs_fileclose [OF that(3,2)] by blast
      moreover have "?d(f0 := ?d f0 - 1, f1 := (?d(f0 := ?d f0 - 1)) f1 - 1) = d" using ne by (simp add: fun_eq_iff)
      ultimately show ?thesis using that(5) by simp
    qed
    show ?thesis
    proof (cases "n0 < 0")
      case True
      then have "s3 = s2" "refs_ok ?d s2" using a1 i0 by auto
      moreover from this obtain u v where "fileclose f0 s2 = Ok u" "fileclose f1 u = Ok v" "s' = set_errno ENFILE v"
        using o \<open>nn\<close> q Some ff a0 a1 True by (auto simp: sys_pipe_def)
      ultimately show ?thesis using fail True by blast
    next
      case False
      then obtain p fd where fd: "n0 = int fd" "fd < NOFILE" "p < NPROC" "proc s1 = Some p" "s2 = set_ofile fd (Some f0) p s1" "ofiles s1 p fd = None"
        and r2: "refs_ok (?d(f0 := ?d f0 - 1)) s2" using i0 by auto
      have a1: "fdalloc f1 s2 = Ok (n1, s3)" using a1 False by simp
      note i1 = refs_fdalloc [OF a1 r2]
      show ?thesis
      proof (cases "n1 < 0")
        case False
        moreover have "(?d(f0 := ?d f0 - 1))(f1 := (?d(f0 := ?d f0 - 1)) f1 - 1) = d" using ne by (simp add: fun_eq_iff)
        ultimately show ?thesis using i1 o \<open>nn\<close> q Some ff a0 a1 \<open>\<not> n0 < 0\<close> by (auto simp: sys_pipe_def)
      next
        case True
        then have r3: "refs_ok (?d(f0 := ?d f0 - 1)) s3" "proc s3 = Some p" "ofiles s3 = ofiles s2" using i1 fd by (auto simp: fview_def)
        then have "refs_ok ?d (set_ofile fd None p s3)"
          using refs_clear [OF r3(1) fd(3,2), of f0] fd(5) ne by (auto simp: ofiles_set fun_upd_twist)
        moreover obtain u v where "fileclose f0 (set_ofile fd None p s3) = Ok u" "fileclose f1 u = Ok v" "s' = set_errno ENFILE v"
          using o \<open>nn\<close> q Some ff a0 a1 True \<open>\<not> n0 < 0\<close> fd(1) r3(2) by (auto simp: sys_pipe_def myproc_def)
        ultimately show ?thesis using fail True by blast
      qed
    qed
  qed
qed

end
