(* ===== verification/Syscalls.thy ===== *)
theory Syscalls
  imports Fdrefs
begin

text \<open>
  Behaviour of the file-system calls: errors on bad descriptors, the terminal modes, and two calls that do not do what they mean to.
\<close>

section \<open>Setting \<open>errno\<close>\<close>

lemma set_errno_kern [simp]: "proc (set_errno e s) = proc s" "ptable (set_errno e s) = ptable s"
  by (simp_all add: set_errno_def)

lemma set_errno_simps [simp]:
  "icache (set_errno e s) = icache s" "log (set_errno e s) = log s"
  "blk (set_errno e s) = blk s" "refs (set_errno e s) = refs s" "bio_inv (set_errno e s) = bio_inv s" "fsb (set_errno e s) = fsb s"
  by (simp_all add: set_errno_def blk_def refs_def bio_inv_def fun_eq_iff cong: option.case_cong)

lemma set_errno_map [simp]:
  "fmap (set_errno e s) = fmap s" "fmid (set_errno e s) = fmid s" "fbyte (set_errno e s) = fbyte s"
  by (simp_all add: fmap_def fmid_def fbyte_def fun_eq_iff)

lemma set_errno_area [simp]: "log_area (set_errno e s) = log_area s"
  by (simp add: log_area_def log_blk_def set_errno_def)

lemma set_errno_uart [simp]:
  "uart_in (set_errno e s) = uart_in s" "uart_out (set_errno e s) = uart_out s"
  "duart_echo (set_errno e s) = duart_echo s" "duart_crnl (set_errno e s) = duart_crnl s"
  by (simp_all add: set_errno_def)

lemma set_errno_idem [simp]: "set_errno e (set_errno e' s) = set_errno e s"
  by (simp add: set_errno_def)

lemma idle_upd [simp]:
  "log_idle (set_errno e s) = log_idle s" "settled (set_errno e s) = settled s"
  "log_idle (upd_file f g t) = log_idle t" "settled (upd_file f g t) = settled t"
  by (simp_all add: log_idle_def quiet_def settled_def writable_def mapped_def map_blocks_def fun_eq_iff)

lemma can_overwrite_errno [simp]: "can_overwrite (set_errno e s) f ip N n = can_overwrite s f ip N n"
  by (simp add: can_overwrite_def)

text \<open>A valid descriptor of the current process.\<close>

definition fd_open :: "'a kern_state_scheme \<Rightarrow> int \<Rightarrow> nat \<Rightarrow> bool" where
  "fd_open s fd f \<longleftrightarrow> 0 \<le> fd \<and> fd < int NOFILE \<and> (\<exists>p. proc s = Some p \<and> p_ofile (ptable s p) (nat fd) = Some f)"

lemma argfd_open: "fd_open s fd f \<Longrightarrow> argfd fd s = Ok (Some f, s)"
  by (auto simp: fd_open_def argfd_def myproc_def)

lemma fd_open_errno [simp]: "fd_open (set_errno e s) fd f = fd_open s fd f"
  by (simp add: fd_open_def)

lemma fd_open_upd [simp]: "fd_open (upd_file g h s) fd f = fd_open s fd f"
  by (simp add: fd_open_def)

definition fd_bad :: "'a kern_state_scheme \<Rightarrow> int \<Rightarrow> bool" where
  "fd_bad s fd \<longleftrightarrow> fd < 0 \<or> fd \<ge> int NOFILE \<or> (\<exists>p. proc s = Some p \<and> p_ofile (ptable s p) (nat fd) = None)"

lemma argfd_bad: "fd_bad s fd \<Longrightarrow> argfd fd s = Ok (None, set_errno EBADF s)"
  by (auto simp: fd_bad_def argfd_def myproc_def)

lemma sys_write_inode:
  assumes "fd_open s fd f" "f_type (ftable s f) = FD_INODE"
  shows "sys_write fd (Some buf) (int n) s = filewrite f buf (int n) (set_errno 0 s)"
  using assms argfd_open [of "set_errno 0 s" fd f] by (simp add: sys_write_def)

lemma sys_read_inode:
  assumes "fd_open s fd f" "f_type (ftable s f) = FD_INODE"
  shows "sys_read fd True (int n) s = fileread f (int n) (set_errno 0 s)"
  using assms argfd_open [of "set_errno 0 s" fd f] by (simp add: sys_read_def)

lemma sys_lseek_back:
  assumes "fd_open s fd f" "f_ip (ftable s f) = Some ip" "off \<le> i_size (icache s ip)" "0 \<le> sint off"
  shows "sys_lseek fd off 0 s = Ok (Ret (sint off), upd_file f (\<lambda>e. e\<lparr>f_off := off\<rparr>) (set_errno 0 s))"
  using assms argfd_open [of "set_errno 0 s" fd f] by (auto simp: sys_lseek_def seek_target_def)

lemma and_push_bit_1: "(w :: uint) AND push_bit k 1 = (if bit w k then push_bit k 1 else 0)"
  by (rule bit_word_eqI) (auto simp: bit_simps)

lemma lflag_bits:
  "(w AND ECHO \<noteq> 0) = bit w 3" "(w AND ICANON \<noteq> 0) = bit w 8"
  "(if bit w 3 then ECHO else 0) OR (if bit w 8 then ICANON else 0) = w AND (ECHO OR ICANON)"
proof -
  have e: "ECHO = push_bit 3 1" "ICANON = push_bit 8 1" by (simp_all add: ECHO_def ICANON_def)
  show "(w AND ECHO \<noteq> 0) = bit w 3" "(w AND ICANON \<noteq> 0) = bit w 8"
    unfolding e and_push_bit_1 by simp_all
  have "w AND (ECHO OR ICANON) = (w AND ECHO) OR (w AND ICANON)" by (simp add: bit.conj_disj_distrib)
  then show "(if bit w 3 then ECHO else 0) OR (if bit w 8 then ICANON else 0) = w AND (ECHO OR ICANON)"
    unfolding e and_push_bit_1 by simp
qed

section \<open>Properties\<close>

text \<open>
  C26. A descriptor that is out of range or not open: every call that takes one fails with -1, sets
  \<open>errno\<close> (to \<open>EBADF\<close>, in \<open>lseek\<close> and \<open>ioctl\<close> to \<open>EINVAL\<close>) and changes nothing else.
\<close>

theorem bad_descriptor:
  assumes "fd_bad s fd"
  shows "sys_read fd nn n s = Ok (Ret (-1, []), set_errno EBADF s) \<and> sys_write fd buf n s = Ok (Ret (-1), set_errno EBADF s) \<and>
     sys_close fd s = Ok (-1, set_errno EBADF s) \<and> sys_dup fd s = Ok (-1, set_errno EBADF s) \<and>
     sys_fstat fd st s = Ok (-1, st, set_errno EBADF s) \<and> sys_fchdir fd s = Ok (-1, set_errno EBADF s) \<and>
     sys_lseek fd off base s = Ok (Ret (-1), set_errno EINVAL s) \<and> sys_ioctl fd op arg s = Ok (-1, arg, set_errno EINVAL s)"
proof -
  have "fd_bad (set_errno 0 s) fd" using assms by (simp add: fd_bad_def)
  from argfd_bad [OF this] show ?thesis
    by (simp add: sys_read_def sys_write_def sys_close_def sys_dup_def sys_fstat_def sys_fchdir_def sys_lseek_def sys_ioctl_def)
qed

text \<open>
  The terminal. Setting the local flags and reading them back gives the two flags the kernel
  keeps; afterwards a read of the console returns the next character received, with a carriage
  return turned into a newline exactly in canonical mode, and echoes it exactly in echo mode.
\<close>

theorem terminal_modes:
  assumes "fd_open s fd f" "f_type (ftable s f) = FD_CONSOLE" "uart_in s = c # cs" "c' = (if l AND ICANON \<noteq> 0 \<and> c = 13 then 10 else c)"
  shows "\<exists>s1 s2. sys_ioctl fd TCSETA (Some l) s = Ok (0, Some l, s1) \<and>
     sys_ioctl fd TCGETA (Some x) s1 = Ok (0, Some (l AND (ECHO OR ICANON)), s1) \<and>
     sys_read fd True (int k) s1 = Ok (Ret (1, [c']), s2) \<and> uart_in s2 = cs \<and>
     uart_out s2 = uart_out s @ (if l AND ECHO \<noteq> 0 then [c'] else [])"
proof -
  define s1 where "s1 = (set_errno 0 s)\<lparr>duart_echo := bit l 3, duart_crnl := bit l 8\<rparr>"
  have s1: "ftable s1 = ftable s" "uart_in s1 = c # cs" "uart_out s1 = uart_out s" "set_errno 0 s1 = s1" "fd_open s1 fd f"
    "duart_echo s1 = bit l 3" "duart_crnl s1 = bit l 8"
    using assms by (simp_all add: s1_def fd_open_def set_errno_def)
  have a: "argfd fd (set_errno 0 s) = Ok (Some f, set_errno 0 s)" "argfd fd (set_errno 0 s1) = Ok (Some f, s1)"
    using assms(1) s1 argfd_open [of "set_errno 0 s" fd f] argfd_open [of s1 fd f] by simp_all
  have set: "sys_ioctl fd TCSETA (Some l) s = Ok (0, Some l, s1)"
    using a assms(2) by (simp add: sys_ioctl_def TCGETA_def TCSETA_def lflag_bits s1_def)
  have get: "sys_ioctl fd TCGETA (Some x) s1 = Ok (0, Some (l AND (ECHO OR ICANON)), s1)"
    using a(2) assms(2) s1 unfolding lflag_bits(3) [symmetric] by (simp add: sys_ioctl_def TCGETA_def)
  have c': "c' = (if bit l 8 \<and> c = 13 then 10 else c)" using assms(4) by (simp add: lflag_bits)
  obtain s2 where "consgetc s1 = Ok (c', s2)" "uart_in s2 = cs" "uart_out s2 = uart_out s @ (if bit l 3 then [c'] else [])"
    using s1 c' by (simp add: consgetc_def Let_def consputc_def)
  moreover from this have "sys_read fd True (int k) s1 = Ok (Ret (1, [c']), s2)"
    using a(2) assms(2) s1 by (simp add: sys_read_def)
  ultimately show ?thesis using set get by (auto simp: lflag_bits)
qed

text \<open>
  C29. \<open>fchdir\<close> ends a transaction it has not begun. On an open directory it returns 0, but takes no
  reference of its own to the new current directory, and leaves the count of outstanding
  operations at -1; the next operation that begins runs at 0, and its first \<open>log_write\<close> panics.
\<close>

theorem fchdir_unbalanced:
  assumes "log_idle s" "fd_open s fd f" "f_ip (ftable s f) = Some ip" "i_ref (icache s ip) \<ge> 1" "i_valid (icache s ip)"
    "i_type (icache s ip) = T_DIR" "proc s = Some p" "p_cwd (ptable s p) = Some c" "i_nlink (icache s c) \<noteq> 0"
  shows "\<exists>s1 s2. sys_fchdir fd s = Ok (0, s1) \<and> p_cwd (ptable s1 p) = Some ip \<and>
     i_ref (icache s1 ip) = i_ref (icache s ip) - (if ip = c then 1 else 0) \<and> l_outstanding (log s1) = -1 \<and>
     begin_op s1 = Ok s2 \<and> (\<forall>b. log_write b s2 = Panic ''log_write outside of trans'')"
proof -
  let ?t = "upd_inode c (\<lambda>q. q\<lparr>i_ref := i_ref q - 1\<rparr>) (set_errno 0 s)"
  define s1 where "s1 = upd_proc p (\<lambda>e. e\<lparr>p_cwd := Some ip\<rparr>) (?t\<lparr>log := (log s)\<lparr>l_outstanding := -1\<rparr>\<rparr>)"
  have l: "l_outstanding (log s) = 0" "\<not> l_committing (log s)" "lh_n (l_lh (log s)) = 0" "l_size (log s) > 10"
    using assms(1) by (simp_all add: log_idle_def MAXOPBLOCKS_def)
  have "iput c (set_errno 0 s) = Ok ?t" using assms(9) by (simp add: iput_def)
  moreover have "end_op ?t = Ok (?t\<lparr>log := (log s)\<lparr>l_outstanding := -1\<rparr>\<rparr>)"
    using l by (simp add: end_op_def Let_def upd_inode_def set_errno_def)
  ultimately have "sys_fchdir fd s = Ok (0, s1)"
    using assms argfd_open [of "set_errno 0 s" fd f]
    by (simp add: sys_fchdir_def ichdir_def ilock_def iunlock_def myproc_def s1_def)
  moreover have "begin_op s1 = Ok (s1\<lparr>log := (log s)\<lparr>l_outstanding := 0\<rparr>\<rparr>)"
    using l by (simp add: begin_op_def s1_def upd_proc_def MAXOPBLOCKS_def LOGSIZE_def)
  moreover have "log_write b (s1\<lparr>log := (log s)\<lparr>l_outstanding := 0\<rparr>\<rparr>) = Panic ''log_write outside of trans''" for b
    using l by (simp add: log_write_def Let_def LOGSIZE_def)
  moreover have "p_cwd (ptable s1 p) = Some ip" "i_ref (icache s1 ip) = i_ref (icache s ip) - (if ip = c then 1 else 0)"
    "l_outstanding (log s1) = -1"
    by (simp_all add: s1_def upd_proc_def upd_inode_def set_errno_def)
  ultimately show ?thesis by blast
qed

text \<open>
  \<open>lseek\<close> past the end of a file does not extend it. With the offset inside the file, a seek to
  up to 512 bytes past the end writes its zeroes at the old offset, over the contents of the file;
  the size stays as it was, and the offset returned lies past the end.
\<close>

theorem lseek_zeroes_contents:
  assumes fd: "fd_open s fd f" and f: "f_type (ftable s f) = FD_INODE" "f_writable (ftable s f)"
    and c: "can_overwrite s f ip N z" and z: "0 < z" "z \<le> 512"
  shows "\<exists>s1. sys_lseek fd (i_size (icache s ip) + of_nat z) 0 s = Ok (Ret (int (unat (i_size (icache s ip)) + z)), s1) \<and>
     i_size (icache s1 ip) = i_size (icache s ip) \<and> (\<forall>k < z. fbyte s1 ip (unat (f_off (ftable s f)) + k) = 0) \<and>
     f_off (ftable s1 f) = i_size (icache s ip) + of_nat z"
proof -
  let ?s = "set_errno 0 s" and ?sz = "i_size (icache s ip)" and ?off = "f_off (ftable s f)"
  note c' = c [unfolded can_overwrite_def]
  have bound: "unat ?sz + z < 2 ^ 31" using c' z by (simp add: MAXFILE_val BSIZE_def)
  have uz: "unat (of_nat z :: uint) = z" using z by (intro unat_of_nat_small) simp
  then have un: "unat (?sz + of_nat z) = unat ?sz + z" using bound by (simp add: unat_word_ariths)
  then have new: "sint (?sz + of_nat z) = int (unat ?sz + z)" "?sz + of_nat z > ?sz"
    using bound z sint_unat [of "?sz + of_nat z"] by (simp_all add: word_less_nat_alt)
  have sz: "sint (?sz + of_nat z - ?sz) = int z" using uz z sint_unat [of "of_nat z"] by simp
  obtain t where t: "filewrite f (replicate SBUFSIZE 0) (int z) ?s = Ok (Ret (int z), t)"
    "overwritten ?s f ip N z (replicate SBUFSIZE 0) t"
    using filewrite_spec [of ?s f ip N z "replicate SBUFSIZE 0"] c f z by (auto simp: SBUFSIZE_def)
  note o = t(2) [unfolded overwritten_def]
  have "lseek_loop f (int z - int SBUFSIZE) t = Ok (Ret (), t)" using z by (simp add: lseek_loop.simps SBUFSIZE_def)
  then have "lseek_loop f (int z) ?s = Ok (Ret (), t)" using t(1) z by (subst lseek_loop.simps) simp
  moreover have "\<not> sint (?sz + of_nat z) < 0" unfolding new(1) by linarith
  ultimately have "sys_lseek fd (?sz + of_nat z) 0 s =
      Ok (Ret (int (unat ?sz + z)), upd_file f (\<lambda>e. e\<lparr>f_off := ?sz + of_nat z\<rparr>) t)"
    using fd argfd_open [of ?s fd f] c' new sz by (simp add: sys_lseek_def seek_target_def del: of_nat_unat)
  moreover have "fbyte t ip (unat ?off + k) = 0" if "k < z" for k
  proof -
    have "(unat ?off + k) div BSIZE < N" using c' that by (intro less_mult_imp_div_less) linarith
    then show ?thesis using o that z by (simp add: Let_def SBUFSIZE_def)
  qed
  ultimately show ?thesis using o by auto
qed

text \<open>Descriptor 0 of process 0 open on the file of 700 bytes.\<close>

definition demo_sys :: file_state where
  "demo_sys = set_ofile 0 (Some 0) 0 demo_open"

lemma demo_sys_simps:
  "ftable demo_sys = ftable demo_open" "icache demo_sys = icache demo_file" "fd_open demo_sys 0 0" "proc demo_sys = Some 0"
  "log_idle demo_sys" "can_overwrite demo_sys 0 0 2 190" "fbyte demo_sys = fbyte demo_open" "log demo_sys = log demo_open"
proof -
  have o: "can_overwrite demo_open 0 0 2 190" by (rule demo_open_ok)
  have b: "blk demo_sys = blk demo_open" "refs demo_sys = refs demo_open" "bio_inv demo_sys = bio_inv demo_open"
    "log_area demo_sys = log_area demo_open"
    by (simp_all add: demo_sys_def set_ofile_def upd_proc_def blk_def refs_def bio_inv_def log_area_def log_blk_def fun_eq_iff cong: option.case_cong)
  show 1: "ftable demo_sys = ftable demo_open" "icache demo_sys = icache demo_file" "fd_open demo_sys 0 0" "proc demo_sys = Some 0"
    and 2: "log demo_sys = log demo_open"
    by (simp_all add: demo_sys_def set_ofile_def upd_proc_def demo_open_simps fd_open_def NOFILE_def demo_file_proc)
  show li: "log_idle demo_sys" using o b 2 by (simp add: can_overwrite_def log_idle_def quiet_def)
  have m: "fmap demo_sys = fmap demo_open" "fmid demo_sys = fmid demo_open" using b 1 by (simp_all add: fmap_def fmid_def demo_open_simps fun_eq_iff)
  then show "fbyte demo_sys = fbyte demo_open" using b by (simp add: fbyte_def fun_eq_iff)
  have "settled demo_sys 0 2 = settled demo_open 0 2"
    using m b 1 by (simp add: settled_def writable_def mapped_def map_blocks_def demo_open_simps)
  then show "can_overwrite demo_sys 0 0 2 190" using o li 1 by (simp add: can_overwrite_def demo_open_simps)
qed

theorem bad_descriptor_witness: "sys_read 16 True 1 demo_sys = Ok (Ret (-1, []), set_errno EBADF demo_sys)"
  using bad_descriptor [of demo_sys 16] by (simp add: fd_bad_def NOFILE_def)

theorem lseek_zeroes_contents_witness:
  "\<exists>s1. sys_lseek 0 712 0 demo_sys = Ok (Ret 712, s1) \<and> i_size (icache s1 0) = 700 \<and> fbyte s1 0 511 = 0"
proof -
  have c: "can_overwrite demo_sys 0 0 2 12" by (rule can_overwrite_le [OF demo_sys_simps(6)]) simp
  obtain s1 where "sys_lseek 0 712 0 demo_sys = Ok (Ret 712, s1)" "i_size (icache s1 0) = 700" "\<And>k. k < 12 \<Longrightarrow> fbyte s1 0 (510 + k) = 0"
    using lseek_zeroes_contents [OF demo_sys_simps(3) _ _ c] demo_sys_simps by (auto simp: demo_open_simps demo_file_simps)
  from this(1,2) this(3) [of 1] show ?thesis by auto
qed

definition demo_tty :: file_state where
  "demo_tty = (upd_file 0 (\<lambda>e. e\<lparr>f_type := FD_CONSOLE\<rparr>) demo_sys)\<lparr>uart_in := [13]\<rparr>"

theorem terminal_modes_witness:
  "\<exists>s1 s2. sys_ioctl 0 TCSETA (Some 0x108) demo_tty = Ok (0, Some 0x108, s1) \<and> sys_read 0 True 1 s1 = Ok (Ret (1, [10]), s2) \<and>
     uart_out s2 = uart_out demo_tty @ [10]"
proof -
  have "fd_open demo_tty 0 0" using demo_sys_simps(3) by (simp add: demo_tty_def fd_open_def)
  from terminal_modes [OF this, of 13 "[]" 10 "0x108" 0 1]
  show ?thesis by (force simp: demo_tty_def ICANON_def ECHO_def)
qed

text \<open>The inode of descriptor 0 made a directory, which is also the current one.\<close>

definition demo_chdir :: file_state where
  "demo_chdir = upd_proc 0 (\<lambda>e. e\<lparr>p_cwd := Some 0\<rparr>) (upd_inode 0 (\<lambda>i. i\<lparr>i_type := T_DIR\<rparr>) demo_sys)"

theorem fchdir_unbalanced_witness:
  "\<exists>s1. sys_fchdir 0 demo_chdir = Ok (0, s1) \<and> l_outstanding (log s1) = -1"
proof -
  have i: "i_ref (icache demo_file 0) = 1" "i_valid (icache demo_file 0)" "i_nlink (icache demo_file 0) = 1" by (simp_all add: demo_file_def)
  have e: "ptable demo_chdir = (ptable demo_sys)(0 := (ptable demo_sys 0)\<lparr>p_cwd := Some 0\<rparr>)" "proc demo_chdir = Some 0"
    "icache demo_chdir = (icache demo_file)(0 := (icache demo_file 0)\<lparr>i_type := T_DIR\<rparr>)" "ftable demo_chdir = ftable demo_open"
    "log demo_chdir = log demo_sys"
    using demo_sys_simps by (simp_all add: demo_chdir_def upd_inode_def upd_proc_def)
  have b: "refs demo_chdir = refs demo_sys" "bio_inv demo_chdir = bio_inv demo_sys" "log_area demo_chdir = log_area demo_sys"
    by (simp_all add: demo_chdir_def upd_proc_def upd_inode_def refs_def bio_inv_def log_area_def log_blk_def fun_eq_iff cong: option.case_cong)
  have "fd_open demo_chdir 0 0" using demo_sys_simps(3,4) e by (simp add: fd_open_def)
  moreover have "log_idle demo_chdir" using demo_sys_simps(5) b e by (simp add: log_idle_def quiet_def)
  ultimately show ?thesis
    using fchdir_unbalanced [of demo_chdir 0 0 0 0 0] i e by (auto simp: demo_open_simps)
qed

end
