(* ===== verification/Sysgrow.thy ===== *)
theory Sysgrow
  imports Syscalls Filegrow
begin

text \<open>
  The file-system calls on open files against an abstract file system: files are arrays of bytes, open files are positions in
  them, and descriptors may share either. Any sequence of \<open>write\<close>, \<open>lseek\<close> and \<open>read\<close> returns what it returns there.
\<close>

section \<open>Simulation\<close>

text \<open>An implementation whose every operation, where the specification allows it, returns the result of the specification and keeps a relation between the states.\<close>

fun run_impl :: "('op \<Rightarrow> 's \<Rightarrow> ('out \<times> 's) res) \<Rightarrow> 'op list \<Rightarrow> 's \<Rightarrow> ('out list \<times> 's) res" where
  "run_impl step [] s = Ok ([], s)"
| "run_impl step (x # xs) s = rbind (step x s) (\<lambda>(r, s). rbind (run_impl step xs s) (\<lambda>(rs, s). Ok (r # rs, s)))"

fun run_spec :: "('op \<Rightarrow> 'a \<Rightarrow> 'out \<times> 'a) \<Rightarrow> 'op list \<Rightarrow> 'a \<Rightarrow> 'out list \<times> 'a" where
  "run_spec step [] a = ([], a)"
| "run_spec step (x # xs) a = (let (r, a) = step x a; (rs, a) = run_spec step xs a in (r # rs, a))"

fun run_allowed :: "('op \<Rightarrow> 'a \<Rightarrow> bool) \<Rightarrow> ('op \<Rightarrow> 'a \<Rightarrow> 'out \<times> 'a) \<Rightarrow> 'op list \<Rightarrow> 'a \<Rightarrow> bool" where
  "run_allowed ok step [] a \<longleftrightarrow> True"
| "run_allowed ok step (x # xs) a \<longleftrightarrow> ok x a \<and> run_allowed ok step xs (snd (step x a))"

locale simulation =
  fixes impl :: "'op \<Rightarrow> 's \<Rightarrow> ('out \<times> 's) res" and spec :: "'op \<Rightarrow> 'a \<Rightarrow> 'out \<times> 'a" and ok :: "'op \<Rightarrow> 'a \<Rightarrow> bool" and R :: "'s \<Rightarrow> 'a \<Rightarrow> bool"
  assumes step: "R s a \<Longrightarrow> ok x a \<Longrightarrow> \<exists>s'. impl x s = Ok (fst (spec x a), s') \<and> R s' (snd (spec x a))"
begin

lemma runs:
  assumes "R s a" "run_allowed ok spec xs a"
  shows "\<exists>s'. run_impl impl xs s = Ok (fst (run_spec spec xs a), s') \<and> R s' (snd (run_spec spec xs a))"
  using assms
proof (induction xs arbitrary: s a)
  case (Cons x xs)
  obtain t where t: "impl x s = Ok (fst (spec x a), t)" "R t (snd (spec x a))" using step Cons.prems by fastforce
  then obtain u where "run_impl impl xs t = Ok (fst (run_spec spec xs (snd (spec x a))), u)" "R u (snd (run_spec spec xs (snd (spec x a))))"
    using Cons.IH [OF t(2)] Cons.prems(2) by auto
  then show ?case using t(1) by (auto simp: split_beta Let_def)
qed simp

end

section \<open>The abstract file system\<close>

datatype fop = Fwrite int bytes | Fseek int uint | Fread int nat

text \<open>
  Each descriptor leads to an open file and an inode; open files have positions, inodes have bytes. \<open>a_spare\<close> is
  the number of blocks writes may still use up.
\<close>

record afs =
  a_fd :: "int \<Rightarrow> (nat \<times> nat) option"
  a_pos :: "nat \<Rightarrow> nat"
  a_data :: "nat \<Rightarrow> bytes"
  a_spare :: nat

fun afs_step :: "fop \<Rightarrow> afs \<Rightarrow> (int \<times> bytes) \<times> afs" where
  "afs_step (Fwrite fd buf) a = (case a_fd a fd of None \<Rightarrow> ((-1, []), a)
     | Some (f, ip) \<Rightarrow> ((int (length buf), []), a\<lparr>a_data := (a_data a)(ip := patch (a_pos a f) buf (a_data a ip)),
         a_pos := (a_pos a)(f := a_pos a f + length buf), a_spare := a_spare a - 3 * rounds (length buf) (a_pos a f)\<rparr>))"
| "afs_step (Fseek fd off) a = (case a_fd a fd of None \<Rightarrow> ((-1, []), a)
     | Some (f, ip) \<Rightarrow> ((int (unat off), []), a\<lparr>a_pos := (a_pos a)(f := unat off)\<rparr>))"
| "afs_step (Fread fd n) a = (case a_fd a fd of None \<Rightarrow> ((-1, []), a)
     | Some (f, ip) \<Rightarrow> let out = take n (drop (a_pos a f) (a_data a ip)) in
         ((int (length out), out), a\<lparr>a_pos := (a_pos a)(f := a_pos a f + length out)\<rparr>))"

text \<open>Writes up to the largest file with blocks to spare, seeks inside the file, reads of any length.\<close>

fun afs_ok :: "fop \<Rightarrow> afs \<Rightarrow> bool" where
  "afs_ok (Fwrite fd buf) a \<longleftrightarrow> (\<exists>f ip. a_fd a fd = Some (f, ip) \<and> a_pos a f + length buf \<le> MAXFILE * BSIZE \<and> 3 * rounds (length buf) (a_pos a f) \<le> a_spare a)"
| "afs_ok (Fseek fd off) a \<longleftrightarrow> (\<exists>f ip. a_fd a fd = Some (f, ip) \<and> unat off \<le> length (a_data a ip))"
| "afs_ok (Fread fd n) a \<longleftrightarrow> a_fd a fd \<noteq> None \<and> n < 2 ^ 31"

text \<open>The calls of the kernel.\<close>

definition io_ret :: "'b io \<times> 's \<Rightarrow> ('b \<times> 's) res" where
  "io_ret x = (case x of (Ret r, s) \<Rightarrow> Ok (r, s) | (Wait _, _) \<Rightarrow> Hang)"

fun sys_step :: "fop \<Rightarrow> 'a file_state_scheme \<Rightarrow> ((int \<times> bytes) \<times> 'a file_state_scheme) res" where
  "sys_step (Fwrite fd buf) s = rbind (rbind (sys_write fd (Some buf) (int (length buf)) s) io_ret) (\<lambda>(n, s). Ok ((n, []), s))"
| "sys_step (Fseek fd off) s = rbind (rbind (sys_lseek fd off 0 s) io_ret) (\<lambda>(n, s). Ok ((n, []), s))"
| "sys_step (Fread fd n) s = rbind (sys_read fd True (int n) s) io_ret"

text \<open>How the states correspond.\<close>

definition fd_rel :: "'a file_state_scheme \<Rightarrow> afs \<Rightarrow> int \<Rightarrow> nat \<Rightarrow> nat \<Rightarrow> bool" where
  "fd_rel s a fd f ip \<longleftrightarrow> fd_open s fd f \<and> f_type (ftable s f) = FD_INODE \<and> f_readable (ftable s f) \<and> f_writable (ftable s f) \<and> f_ip (ftable s f) = Some ip \<and>
     i_ref (icache s ip) \<ge> 1 \<and> i_valid (icache s ip) \<and> file_ok s ip \<and> contents s ip = a_data a ip \<and> unat (f_off (ftable s f)) = a_pos a f \<and> a_pos a f \<le> length (a_data a ip)"

definition afs_rel :: "'a file_state_scheme \<Rightarrow> afs \<Rightarrow> bool" where
  "afs_rel s a \<longleftrightarrow> log_idle s \<and> 36 < room s \<and> spare (a_spare a) s \<and> (\<forall>fd f ip. a_fd a fd = Some (f, ip) \<longrightarrow> fd_rel s a fd f ip) \<and>
     (\<forall>fd f ip fd' f' jp. a_fd a fd = Some (f, ip) \<longrightarrow> a_fd a fd' = Some (f', jp) \<longrightarrow> ip \<noteq> jp \<longrightarrow> apart s ip jp)"

section \<open>The calls simulate the abstract file system\<close>

lemma set_errno_hints [simp]: "lastballoc (set_errno e s) = lastballoc s" "lastbi (set_errno e s) = lastbi s"
  by (simp_all add: set_errno_def)

lemma set_errno_tree [simp]:
  "file_ok (set_errno e s) = file_ok s" "contents (set_errno e s) = contents s" "tree_blocks (set_errno e s) = tree_blocks s"
  "apart (set_errno e s) = apart s" "news (set_errno e s) = news s" "spare k (set_errno e s) = spare k s"
  by (rule file_view; simp)+

lemma room_upd [simp]: "room (set_errno e s) = room s" "room (upd_file f g s) = room s"
  by (simp_all add: room_def)

lemma apart_sym: "apart s ip jp = apart s jp ip"
  by (auto simp: apart_def)

lemma afs_relD:
  assumes "afs_rel s a"
  shows "log_idle s" "36 < room s" "spare (a_spare a) s" "a_fd a fd = Some (f, ip) \<Longrightarrow> fd_rel s a fd f ip"
    "a_fd a fd = Some (f, ip) \<Longrightarrow> a_fd a fd' = Some (f', jp) \<Longrightarrow> ip \<noteq> jp \<Longrightarrow> apart s ip jp"
  using assms unfolding afs_rel_def by blast+

lemma fd_same_slot:
  assumes "afs_rel s a" "a_fd a fd = Some (f, ip)" "a_fd a fd' = Some (f, jp)"
  shows "jp = ip"
  using afs_relD(4) [OF assms(1,2)] afs_relD(4) [OF assms(1,3)] by (simp add: fd_rel_def)

lemma afs_rel_errno [simp]: "afs_rel (set_errno e s) a = afs_rel s a"
  by (simp add: afs_rel_def fd_rel_def)

text \<open>Moving a position.\<close>

lemma afs_rel_move:
  assumes R: "afs_rel s a" "a_fd a fd = Some (f, ip)" and v: "fsb t = fsb s" "blk t = blk s" "icache t = icache s" "log_area t = log_area s"
    "lastballoc t = lastballoc s" "lastbi t = lastbi s" "log_idle t" "room t = room s" "proc t = proc s" "ptable t = ptable s"
    and f: "ftable t = (ftable s)(f := (ftable s f)\<lparr>f_off := off\<rparr>)" "unat off \<le> length (a_data a ip)"
  shows "afs_rel t (a\<lparr>a_pos := (a_pos a)(f := unat off)\<rparr>)"
proof -
  note w = file_view [OF v(1-4)] and r = afs_relD [OF R(1)]
  have "fd_rel t (a\<lparr>a_pos := (a_pos a)(f := unat off)\<rparr>) fd' f' jp" if x: "a_fd a fd' = Some (f', jp)" for fd' f' jp
    using r(4) [OF x] fd_same_slot [OF R, of fd' jp] x f v w(1,2) by (auto simp: fd_rel_def fd_open_def)
  moreover have "apart t jp kp" if "a_fd a fd' = Some (f', jp)" "a_fd a fd'' = Some (f'', kp)" "jp \<noteq> kp" for fd' f' jp fd'' f'' kp
    using r(5) [OF that] w(5) by simp
  ultimately show ?thesis unfolding afs_rel_def using r(1-3) v w(8) by simp
qed

lemma length_patch_ge: "off \<le> length bs \<Longrightarrow> length (patch off xs bs) = max (length bs) (off + length xs)"
  by (simp add: patch_def)

lemma afs_rel_write:
  assumes R: "afs_rel s a" "a_fd a fd = Some (f, ip)" and e: "extended s f ip (length buf) buf j s'"
    and b: "a_pos a f + length buf \<le> MAXFILE * BSIZE"
  shows "afs_rel s' (a\<lparr>a_data := (a_data a)(ip := patch (a_pos a f) buf (a_data a ip)), a_pos := (a_pos a)(f := a_pos a f + length buf), a_spare := j\<rparr>)" (is "afs_rel s' ?a")
proof -
  note r = afs_relD [OF R(1)] and x = e [unfolded extended_def]
  note fr = r(4) [OF R(2), unfolded fd_rel_def]
  let ?o = "f_off (ftable s f)"
  have small: "unat ?o + length buf < 2 ^ 32" using b fr by (simp add: MAXFILE_val BSIZE_def)
  then have "unat (of_nat (length buf) :: uint) = length buf" by (intro unat_of_nat_small) simp
  then have o: "unat (?o + of_nat (length buf)) = a_pos a f + length buf" using small fr by (simp add: unat_word_ariths)
  have c: "contents s' ip = patch (a_pos a f) buf (a_data a ip)" using x fr by simp
  have ic: "icache s' jp = icache s jp" if "jp \<noteq> ip" for jp using x that by auto
  have ici: "i_ref (icache s' ip) = i_ref (icache s ip)" "i_valid (icache s' ip) = i_valid (icache s ip)" using x by auto
  have oth: "file_ok s' jp \<and> apart s' ip jp \<and> contents s' jp = contents s jp \<and> tree_blocks s' jp = tree_blocks s jp"
    if "a_fd a fd' = Some (f', jp)" "jp \<noteq> ip" for fd' f' jp
    using x r(4) [OF that(1)] r(5) [OF R(2) that(1)] that(2) by (simp add: fd_rel_def)
  have "fd_rel s' ?a fd' f' jp" if y: "a_fd a fd' = Some (f', jp)" for fd' f' jp
  proof (cases "jp = ip")
    case True
    then show ?thesis using r(4) [OF y] x c o ici fr by (auto simp: fd_rel_def fd_open_def length_patch_ge)
  next
    case False
    then have "f' \<noteq> f" using fd_same_slot [OF R] y by auto
    then show ?thesis using r(4) [OF y] oth [OF y False] x ic [OF False] False by (auto simp: fd_rel_def fd_open_def)
  qed
  moreover have "apart s' jp kp" if y: "a_fd a fd' = Some (f', jp)" "a_fd a fd'' = Some (f'', kp)" "jp \<noteq> kp" for fd' f' jp fd'' f'' kp
    using oth [OF y(1)] oth [OF y(2)] r(5) [OF y] y(3) apart_sym [of s' ip] by (cases "jp = ip"; cases "kp = ip") (auto simp: apart_def)
  ultimately show ?thesis unfolding afs_rel_def using x r(2) by simp
qed

lemma sys_write_sim:
  assumes R: "afs_rel s a" and ok: "afs_ok (Fwrite fd buf) a"
  shows "\<exists>s'. sys_step (Fwrite fd buf) s = Ok (fst (afs_step (Fwrite fd buf) a), s') \<and> afs_rel s' (snd (afs_step (Fwrite fd buf) a))"
proof -
  obtain f ip where x: "a_fd a fd = Some (f, ip)" and b: "a_pos a f + length buf \<le> MAXFILE * BSIZE" "3 * rounds (length buf) (a_pos a f) \<le> a_spare a"
    using ok by auto
  let ?j = "a_spare a - 3 * rounds (length buf) (a_pos a f)" and ?s = "set_errno 0 s"
  note r = afs_relD [OF R] and fr = afs_relD(4) [OF R x, unfolded fd_rel_def]
  have "spare (?j + 3 * news s ip (a_pos a f) (length buf)) s"
    using r(3) by (rule spare_mono) (use b(2) news_le_rounds [of s ip "a_pos a f" "length buf"] in linarith)
  moreover have "f_off (ftable s f) \<le> i_size (icache s ip)"
    using fr length_contents [of s ip] by (simp add: word_le_nat_alt)
  ultimately have c: "can_extend ?s f ip (length buf) ?j" unfolding can_extend_def using r(1,2) fr b(1) by simp
  obtain s' where s': "filewrite_loop f buf (length buf) 0 ?s = Ok (length buf, s')" "extended ?s f ip (length buf) buf ?j s'"
    using filewrite_loop_extends [of ?s f ip "length buf" 0 ?j buf] c by auto
  then have "sys_write fd (Some buf) (int (length buf)) s = Ok (Ret (int (length buf)), s')"
    using sys_write_inode [of s fd f buf "length buf"] fr by (simp add: filewrite_def)
  moreover have "afs_rel ?s a" using R by simp
  ultimately show ?thesis using afs_rel_write [OF _ x s'(2) b(1)] x by (simp add: io_ret_def)
qed

lemma sys_lseek_sim:
  assumes R: "afs_rel s a" and ok: "afs_ok (Fseek fd off) a"
  shows "\<exists>s'. sys_step (Fseek fd off) s = Ok (fst (afs_step (Fseek fd off) a), s') \<and> afs_rel s' (snd (afs_step (Fseek fd off) a))"
proof -
  obtain f ip where x: "a_fd a fd = Some (f, ip)" and b: "unat off \<le> length (a_data a ip)" using ok by auto
  note fr = afs_relD(4) [OF R x, unfolded fd_rel_def]
  have le: "unat off \<le> unat (i_size (icache s ip))" using b fr length_contents [of s ip] by simp
  then have "unat off < 2 ^ 31" using fr by (simp add: file_ok_def MAXFILE_val BSIZE_def)
  note si = sint_unat [OF this]
  have "sys_lseek fd off 0 s = Ok (Ret (int (unat off)), upd_file f (\<lambda>e. e\<lparr>f_off := off\<rparr>) (set_errno 0 s))"
    using sys_lseek_back [of s fd f ip off] fr le si by (simp add: word_le_nat_alt)
  moreover have "afs_rel (upd_file f (\<lambda>e. e\<lparr>f_off := off\<rparr>) (set_errno 0 s)) (a\<lparr>a_pos := (a_pos a)(f := unat off)\<rparr>)"
    using afs_relD(1) [OF R] by (intro afs_rel_move [OF R x _ _ _ _ _ _ _ _ _ _ _ b]) auto
  ultimately show ?thesis using x by (simp add: io_ret_def)
qed

lemma sys_read_sim:
  assumes R: "afs_rel s a" and ok: "afs_ok (Fread fd n) a"
  shows "\<exists>s'. sys_step (Fread fd n) s = Ok (fst (afs_step (Fread fd n) a), s') \<and> afs_rel s' (snd (afs_step (Fread fd n) a))"
proof -
  obtain f ip where x: "a_fd a fd = Some (f, ip)" and n: "n < 2 ^ 31" using ok by auto
  note r = afs_relD [OF R] and fr = afs_relD(4) [OF R x, unfolded fd_rel_def]
  let ?s = "set_errno 0 s" and ?o = "f_off (ftable s f)"
  define out where "out = take n (drop (a_pos a f) (a_data a ip))"
  have "?o \<le> i_size (icache s ip)" using fr length_contents [of s ip] by (simp add: word_le_nat_alt)
  then obtain t where t: "fileread f (int n) ?s = Ok (Ret (int (length out), out), t\<lparr>ftable := (ftable s)(f := (ftable s f)\<lparr>f_off := ?o + of_nat (length out)\<rparr>)\<rparr>)"
    "read_only ?s t"
    using fileread_contents [of ?s ip f n out] r(1) fr n by (auto simp: out_def)
  define s' where "s' = t\<lparr>ftable := (ftable s)(f := (ftable s f)\<lparr>f_off := ?o + of_nat (length out)\<rparr>)\<rparr>"
  have "length out \<le> length (a_data a ip) - a_pos a f" by (simp add: out_def)
  then have le: "a_pos a f + length out \<le> length (a_data a ip)" using fr by auto
  have sz: "length (a_data a ip) < 2 ^ 31" using fr length_contents [of s ip] by (auto simp: file_ok_def MAXFILE_val BSIZE_def)
  then have "unat (of_nat (length out) :: uint) = length out" using le by (intro unat_of_nat_small) simp
  then have o: "unat (?o + of_nat (length out)) = a_pos a f + length out" using le sz fr by (simp add: unat_word_ariths)
  have v: "blk s' = blk t" "refs s' = refs t" "bio_inv s' = bio_inv t" "log_area s' = log_area t"
    by (simp_all add: s'_def blk_def refs_def bio_inv_def log_area_def log_blk_def fun_eq_iff cong: option.case_cong)
  note ro = read_onlyD [OF t(2)]
  have l: "log s' = log s" "fsb s' = fsb s" "icache s' = icache s" "lastballoc s' = lastballoc s" "lastbi s' = lastbi s" "proc s' = proc s" "ptable s' = ptable s"
    using ro(4) by (auto elim!: bio_frameE simp: s'_def set_errno_def)
  have la: "log_area s' = log_area s" using l(1) by (simp add: log_area_def log_blk_def)
  have "log_idle s'" using r(1) ro(1-3) v l(1) la by (simp add: log_idle_def quiet_def)
  then have "afs_rel s' (a\<lparr>a_pos := (a_pos a)(f := unat (?o + of_nat (length out)))\<rparr>)"
    using l ro(2) v(1) la o le by (intro afs_rel_move [OF R x]) (simp_all add: s'_def room_def)
  then show ?thesis using sys_read_inode [of s fd f n] fr t(1) x o by (simp add: io_ret_def Let_def out_def s'_def)
qed

interpretation fsim: simulation sys_step afs_step afs_ok afs_rel
proof
  fix s :: "'a file_state_scheme" and a x
  assume "afs_rel s a" "afs_ok x a"
  then show "\<exists>s'. sys_step x s = Ok (fst (afs_step x a), s') \<and> afs_rel s' (snd (afs_step x a))"
    using sys_write_sim sys_lseek_sim sys_read_sim by (cases x) blast+
qed

section \<open>Property\<close>


text \<open>The file of 700 bytes again, open at its end as descriptors 0 and 1 through two open files: what is written through one is read through the other.\<close>

definition demo_calls :: file_state where
  "demo_calls = demo_append\<lparr>proc := Some 0, ptable := (\<lambda>_. (ptable demo_append 0)\<lparr>p_ofile := (\<lambda>_. None)(0 := Some 0, 1 := Some 1)\<rparr>)\<rparr>"

definition demo_files_spec :: afs where
  "demo_files_spec = \<lparr>a_fd = (\<lambda>fd. if fd = 0 then Some (0, 0) else if fd = 1 then Some (1, 0) else None), a_pos = (\<lambda>_. 700),
     a_data = (\<lambda>_. contents demo_grow 0), a_spare = 12\<rparr>"


end
