(* ===== verification/Proc.thy ===== *)
theory Proc
  imports Fdrefs
begin

text \<open>
  Processes (\<open>kern/proc.c\<close>): allocation, the first process, \<open>fork\<close>, \<open>exit\<close>, \<open>wait\<close>, \<open>brk\<close> and \<open>sbrk\<close>. The
  state gets the RAM. A program address from \<open>START_ADDR\<close> on goes through the base register, which
  adds a multiple of 64 KB to it; with the register at zero the kernel sees the RAM as it is. The
  values of the stack pointer that compiled code reads with \<open>getsp\<close>, and the address of \<open>forkret\<close>, are
  arguments.
\<close>

definition EAGAIN :: int where "EAGAIN = 35"
definition ENOMEM :: int where "ENOMEM = 12"
definition START_ADDR :: uint where "START_ADDR = 0x100000"

record proc_state = file_state +
  ram :: "uint \<Rightarrow> uchar"
  kcurbrk :: uint
  kbssend :: uint

text \<open>Where a program address lies in the RAM, for a base register value.\<close>

definition phys :: "int \<Rightarrow> uint \<Rightarrow> uint" where
  "phys base a = a + push_bit 16 (of_int base)"

text \<open>\<open>memmove\<close> copies as if through a temporary array.\<close>

definition ram_move :: "uint \<Rightarrow> uint \<Rightarrow> uint \<Rightarrow> (uint \<Rightarrow> uchar) \<Rightarrow> uint \<Rightarrow> uchar" where
  "ram_move dst src n r = (\<lambda>a. if a - dst < n then r (src + (a - dst)) else r a)"

section \<open>Allocation\<close>

definition allocproc :: "'a kern_state_scheme \<Rightarrow> nat option \<times> 'a kern_state_scheme" where
  "allocproc s =
     (case alloc_slot (\<lambda>p. p_state p = UNUSED) (\<lambda>p. p\<lparr>p_state := EMBRYO\<rparr>) NPROC (ptable s) of
        None \<Rightarrow> (None, s)
      | Some (p, t) \<Rightarrow>
          (Some p, (upd_proc p (\<lambda>e. e\<lparr>p_pid := nextpid s\<rparr>) (s\<lparr>ptable := t\<rparr>))\<lparr>nextpid := nextpid s + 1\<rparr>))"

definition userinit :: "'a fs_state_scheme \<Rightarrow> 'a fs_state_scheme res" where
  "userinit s =
     (case allocproc s of
        (None, s) \<Rightarrow> Fault
      | (Some p, s) \<Rightarrow>
          rbind (namei [slash, 0] (s\<lparr>proc := Some p, initproc := Some p\<rparr>)) (\<lambda>(ip, s).
            Ok (upd_proc p (\<lambda>e. e\<lparr>p_cwd := ip, p_state := RUNNABLE\<rparr>) s)))"

section \<open>Fork\<close>

text \<open>
  The child resumes in \<open>forkret\<close>, which pops four registers that the compiled \<open>sys_fork\<close> has saved
  and returns 0.
\<close>

definition uload32 :: "'a proc_state_scheme \<Rightarrow> uint \<Rightarrow> uint" where
  "uload32 s a = (let m = (\<lambda>i. ram s (phys (basereg s) (a + i))) in be32 (m 0) (m 1) (m 2) (m 3))"

definition forkret :: "'a proc_state_scheme \<Rightarrow> int \<times> 'a proc_state_scheme" where
  "forkret s =
     (let sp = c_sp (cpu s)
      in (0, s\<lparr>cpu := (cpu s)\<lparr>c_a2 := uload32 s sp, c_a3 := uload32 s (sp + 4), c_a4 := uload32 s (sp + 8),
              c_a5 := uload32 s (sp + 12), c_sp := sp + 16\<rparr>\<rparr>))"

text \<open>
  The text, data and heap up to \<open>curbrk\<close>, then the stack from \<open>sp\<close> up to the end of the memory.
\<close>

definition copyaddrspace :: "uint \<Rightarrow> nat \<Rightarrow> nat \<Rightarrow> 'a proc_state_scheme \<Rightarrow> 'a proc_state_scheme" where
  "copyaddrspace sp me np s =
     (let parent = ptable s me; child = ptable s np;
          txtcnt = p_curbrk parent - START_ADDR;
          stkcnt = START_ADDR + push_bit 16 (of_int (p_nframes child)) - sp;
          r = ram_move (phys (p_basereg child) START_ADDR) (phys (p_basereg parent) START_ADDR) txtcnt (ram s);
          r = ram_move (phys (p_basereg child) sp) (phys (p_basereg parent) sp) stkcnt r
      in s\<lparr>ram := r, basereg := p_basereg parent\<rparr>)"

fun fork_files :: "nat \<Rightarrow> nat \<Rightarrow> nat list \<Rightarrow> 'a file_state_scheme \<Rightarrow> 'a file_state_scheme res" where
  "fork_files me np [] s = Ok s"
| "fork_files me np (i # is) s =
     (case p_ofile (ptable s me) i of
        None \<Rightarrow> fork_files me np is s
      | Some f \<Rightarrow> rbind (filedup f s) (\<lambda>s. fork_files me np is (set_ofile i (Some f) np s)))"

text \<open>The assignments to the child's entry; \<open>saveregs\<close> stores all registers but the stack pointer.\<close>

definition fork_entry :: "uint \<Rightarrow> uint \<Rightarrow> nat \<Rightarrow> int \<Rightarrow> 'a kern_state_scheme \<Rightarrow> proc_ent \<Rightarrow> proc_ent" where
  "fork_entry fr sp me base s e = e\<lparr>p_state := RUNNABLE, p_basereg := base, p_nframes := p_nframes (ptable s me),
     p_parent := Some me, p_chan := None, p_killed := False,
     p_name := safestrcpy (p_name e) (p_name (ptable s me)) 16,
     p_context := (cpu s)\<lparr>c_sp := sp, c_pc := fr\<rparr>\<rparr>"

text \<open>\<open>sp1\<close> and \<open>sp2\<close> are what \<open>getsp\<close> returns in \<open>sys_fork\<close> and in \<open>copyaddrspace\<close>, \<open>fr\<close> is the address of \<open>forkret\<close>.\<close>

definition sys_fork :: "uint \<Rightarrow> uint \<Rightarrow> uint \<Rightarrow> 'a proc_state_scheme \<Rightarrow> (int \<times> 'a proc_state_scheme) res" where
  "sys_fork fr sp1 sp2 s =
     (case allocproc s of
        (None, s) \<Rightarrow> Ok (-1, set_errno EAGAIN s)
      | (Some np, s) \<Rightarrow>
          rbind (myproc s) (\<lambda>me.
          let (base, fl) = allocframes (p_pid (ptable s np)) (p_nframes (ptable s me)) (frames s); s = s\<lparr>frames := fl\<rparr>
          in if base = -1 then Ok (-1, set_errno ENOMEM (upd_proc np (\<lambda>e. e\<lparr>p_state := UNUSED\<rparr>) s))
             else
               rbind (fork_files me np [0..<NOFILE] (upd_proc np (fork_entry fr (sp1 - 4) me base s) s)) (\<lambda>s.
               case p_cwd (ptable s me) of
                 None \<Rightarrow> Fault
               | Some cwd \<Rightarrow>
                   (let (ip, s) = idup cwd s;
                        s = copyaddrspace sp2 me np (upd_proc np (\<lambda>e. e\<lparr>p_cwd := Some ip\<rparr>) s)
                    in Ok (p_pid (ptable s np), s)))))"

section \<open>Exit and wait\<close>

text \<open>The files are closed one by one, each descriptor cleared after its file.\<close>

fun exit_files :: "nat \<Rightarrow> nat list \<Rightarrow> 'a file_state_scheme \<Rightarrow> 'a file_state_scheme res" where
  "exit_files me [] s = Ok s"
| "exit_files me (fd # rest) s =
     (case p_ofile (ptable s me) fd of
        None \<Rightarrow> exit_files me rest s
      | Some f \<Rightarrow> rbind (fileclose f s) (\<lambda>s. exit_files me rest (set_ofile fd None me s)))"

definition wakeup_proc :: "nat option \<Rightarrow> 'a kern_state_scheme \<Rightarrow> 'a kern_state_scheme" where
  "wakeup_proc q s =
     (case q of
        Some p \<Rightarrow> wakeup1 (ChProc p) s
      | None \<Rightarrow> s\<lparr>ptable := (\<lambda>i. if i < NPROC \<and> p_state (ptable s i) = SLEEPING \<and> p_chan (ptable s i) = None
                  then (ptable s i)\<lparr>p_state := RUNNABLE\<rparr> else ptable s i)\<rparr>)"

fun abandon :: "nat \<Rightarrow> nat list \<Rightarrow> 'a kern_state_scheme \<Rightarrow> 'a kern_state_scheme" where
  "abandon me [] s = s"
| "abandon me (p # ps) s =
     (if p_parent (ptable s p) = Some me then
        (let s = upd_proc p (\<lambda>e. e\<lparr>p_parent := initproc s\<rparr>) s
         in abandon me ps (if p_state (ptable s p) = ZOMBIE then wakeup_proc (initproc s) s else s))
      else abandon me ps s)"

text \<open>The call does not return: its outcome is the state in the context of the next process.\<close>

definition sys_exit :: "int \<Rightarrow> 'a file_state_scheme \<Rightarrow> 'a file_state_scheme res" where
  "sys_exit exitvalue s =
     rbind (myproc s) (\<lambda>me.
     let s = upd_proc me (\<lambda>e. e\<lparr>p_exitstatus := exitvalue\<rparr>) s in
     if initproc s = Some me then Panic ''init exiting''
     else
       rbind (exit_files me [0..<NOFILE] s) (\<lambda>s.
       let s = s\<lparr>frames := freeframes (p_pid (ptable s me)) (frames s)\<rparr>;
           s = upd_proc me (\<lambda>e. e\<lparr>p_cwd := None\<rparr>) s;
           s = wakeup_proc (p_parent (ptable s me)) s;
           s = abandon me [0..<NPROC] s
       in scheduler (upd_proc me (\<lambda>e. e\<lparr>p_state := ZOMBIE\<rparr>) s)))"

text \<open>The pid returned and the status stored through a non-null \<open>statusptr\<close>.\<close>

definition wait_status :: "proc_ent \<Rightarrow> int" where
  "wait_status e = p_exitstatus e OR (if p_killed e then 0x100 else 0)"

definition sys_wait :: "bool \<Rightarrow> 'a kern_state_scheme \<Rightarrow> ((int \<times> int option) io \<times> 'a kern_state_scheme) res" where
  "sys_wait nonnull s =
     rbind (myproc s) (\<lambda>me.
       case find_from (\<lambda>i. p_parent (ptable s i) = Some me \<and> p_state (ptable s i) = ZOMBIE) 0 NPROC of
         Some p \<Rightarrow>
           (let e = ptable s p
            in Ok (Ret (p_pid e, if nonnull then Some (wait_status e) else None),
                 upd_proc p (\<lambda>e. e\<lparr>p_state := UNUSED, p_pid := 0, p_parent := None, p_name := (p_name e)[0 := 0], p_killed := False\<rparr>) s))
       | None \<Rightarrow>
           if find_from (\<lambda>i. p_parent (ptable s i) = Some me) 0 NPROC = None then Ok (Ret (-1, None), s)
           else rbind (sleep (ChProc me) s) (\<lambda>s. Ok (Wait 0, s)))"

definition sys_wait_resume :: "bool \<Rightarrow> 'a kern_state_scheme \<Rightarrow> ((int \<times> int option) io \<times> 'a kern_state_scheme) res" where
  "sys_wait_resume nonnull s = rbind (sleep_resumed s) (\<lambda>s. sys_wait nonnull s)"

section \<open>The break\<close>

definition sys_brk :: "uint \<Rightarrow> uint \<Rightarrow> 'a kern_state_scheme \<Rightarrow> (int \<times> 'a kern_state_scheme) res" where
  "sys_brk sp addr s =
     rbind (myproc s) (\<lambda>me.
       if addr < p_bssend (ptable s me) \<or> addr > sp - 256 then Ok (-1, set_errno ENOMEM s)
       else Ok (0, upd_proc me (\<lambda>e. e\<lparr>p_curbrk := addr\<rparr>) s))"

definition sys_sbrk :: "uint \<Rightarrow> uint \<Rightarrow> 'a kern_state_scheme \<Rightarrow> (uint \<times> 'a kern_state_scheme) res" where
  "sys_sbrk sp increment s =
     rbind (myproc s) (\<lambda>me.
     let prevbrk = p_curbrk (ptable s me); newbrk = p_curbrk (ptable s me) + increment in
     rbind (sys_brk sp newbrk s) (\<lambda>(r, s). Ok (if r = -1 then -1 else prevbrk, s)))"

definition sys_getpid :: "'a kern_state_scheme \<Rightarrow> int res" where
  "sys_getpid s = rbind (myproc s) (\<lambda>me. Ok (p_pid (ptable s me)))"

section \<open>Kernel memory\<close>

text \<open>\<open>kern/kalloc.c\<close>: the same for the kernel's own break, rounded up to an even address.\<close>

definition kbrk :: "uint \<Rightarrow> uint \<Rightarrow> 'a proc_state_scheme \<Rightarrow> int \<times> 'a proc_state_scheme" where
  "kbrk sp addr s =
     (let addr = (if addr AND 1 \<noteq> 0 then addr + 1 else addr)
      in if addr < kbssend s \<or> addr > sp - 256 then (-1, s) else (0, s\<lparr>kcurbrk := addr\<rparr>))"

definition ksbrk :: "uint \<Rightarrow> uint \<Rightarrow> 'a proc_state_scheme \<Rightarrow> uint \<times> 'a proc_state_scheme" where
  "ksbrk sp increment s =
     (let prevbrk = kcurbrk s; newbrk = kcurbrk s + increment; (r, s) = kbrk sp newbrk s
      in (if r = -1 then -1 else prevbrk, s))"

end
