(* ===== verification/Procprops.thy ===== *)
theory Procprops
  imports Proc
begin

text \<open>
  Properties of processes: \<open>fork\<close> copies the parent's memory and disturbs nobody else's, \<open>exit\<close> and \<open>wait\<close>
  hand over the exit status, the break stays between the end of the program and the stack.
\<close>

section \<open>Addresses\<close>

lemma unat_phys:
  assumes "0 \<le> b" "b \<le> 16" "unat a < 2 ^ 24"
  shows "unat (phys b a) = unat a + nat b * 65536"
proof -
  have "push_bit 16 (of_int b :: uint) = of_nat (nat b * 65536)" using assms by (simp add: push_bit_eq_mult)
  moreover have "nat b * 65536 \<le> 16 * 65536" using assms by (intro mult_right_mono) auto
  then have l: "nat b * 65536 < 2 ^ 21" by simp
  then have "unat (of_nat (nat b * 65536) :: uint) = nat b * 65536" by (intro unat_of_nat_small) simp
  ultimately have "unat (push_bit 16 (of_int b :: uint)) = nat b * 65536" by simp
  then show ?thesis using assms(3) l unfolding phys_def by (subst unat_add_lem [THEN iffD1]) simp_all
qed

lemma ram_move_in:
  fixes a dst n :: uint
  assumes "unat dst + unat n < 2 ^ 32"
  shows "(a - dst < n) = (unat dst \<le> unat a \<and> unat a < unat dst + unat n)"
proof (cases "dst \<le> a")
  case True
  then show ?thesis by (auto simp: word_less_nat_alt unat_sub word_le_nat_alt)
next
  case False
  then have l: "unat a < unat dst" by (simp add: word_less_nat_alt not_le)
  have "unat (a - dst) = 2 ^ 32 + unat a - unat dst"
    using l by (simp add: unat_sub_if_size word_size word_le_nat_alt)
  then show ?thesis using l assms by (auto simp: word_less_nat_alt)
qed

lemma ram_move_nat:
  assumes "unat dst + unat n < 2 ^ 32"
  shows "ram_move dst src n r a = (if unat dst \<le> unat a \<and> unat a < unat dst + unat n then r (src + (a - dst)) else r a)"
  unfolding ram_move_def ram_move_in [OF assms] ..

text \<open>A process' memory: \<open>n\<close> frames from frame \<open>b\<close> on, in the expansion RAM.\<close>

definition frame_area :: "int \<Rightarrow> int \<Rightarrow> uint set" where
  "frame_area b n = {a. 0x100000 + nat b * 65536 \<le> unat a \<and> unat a < 0x100000 + nat (b + n) * 65536}"

lemma copyaddrspace_spec:
  assumes b: "0 \<le> b" "1 \<le> n" "b + n \<le> 16" "0 \<le> c" "c + n \<le> 16" and dis: "b + n \<le> c \<or> c + n \<le> b"
    and me: "p_basereg (ptable s me) = b" "p_basereg (ptable s np) = c" "p_nframes (ptable s np) = n"
    and brk: "START_ADDR \<le> p_curbrk (ptable s me)" "unat (p_curbrk (ptable s me)) \<le> 0x100000 + nat n * 65536"
    and sp: "START_ADDR \<le> sp" "unat sp \<le> 0x100000 + nat n * 65536"
  shows "\<And>a. START_ADDR \<le> a \<and> a < p_curbrk (ptable s me) \<or> sp \<le> a \<and> unat a < 0x100000 + nat n * 65536 \<Longrightarrow>
      ram (copyaddrspace sp me np s) (phys c a) = ram s (phys b a)"
    "\<And>x. x \<notin> frame_area c n \<Longrightarrow> ram (copyaddrspace sp me np s) x = ram s x"
proof -
  let ?brk = "p_curbrk (ptable s me)" and ?N = "nat n * 65536"
  have n16: "?N \<le> 16 * 65536" using b by (intro mult_right_mono) auto
  have sa: "unat START_ADDR = 0x100000" by (simp add: START_ADDR_def)
  have pa: "unat (phys b a) = unat a + nat b * 65536" "unat (phys c a) = unat a + nat c * 65536" if "unat a \<le> 0x200000" for a
    using unat_phys [of b a] unat_phys [of c a] that b by simp_all
  have bc: "nat b * 65536 + ?N \<le> 16 * 65536" "nat c * 65536 + ?N \<le> 16 * 65536"
    using mult_right_mono [of "nat b + nat n" 16 65536] mult_right_mono [of "nat c + nat n" 16 65536] b
    by (simp_all add: algebra_simps)
  have dj: "nat b * 65536 + ?N \<le> nat c * 65536 \<or> nat c * 65536 + ?N \<le> nat b * 65536"
  proof -
    have "nat b + nat n \<le> nat c \<or> nat c + nat n \<le> nat b" using dis b by linarith
    then have "(nat b + nat n) * 65536 \<le> nat c * 65536 \<or> (nat c + nat n) * 65536 \<le> nat b * 65536"
      using mult_le_mono1 by blast
    then show ?thesis unfolding add_mult_distrib .
  qed
  define tcnt where "tcnt = ?brk - START_ADDR"
  define kcnt where "kcnt = START_ADDR + push_bit 16 (of_int n) - sp"
  have ut: "unat tcnt = unat ?brk - 0x100000" using brk sa by (simp add: tcnt_def unat_sub)
  have "START_ADDR + push_bit 16 (of_int n) = phys n START_ADDR" by (simp add: phys_def)
  then have "unat (START_ADDR + push_bit 16 (of_int n)) = 0x100000 + ?N" using unat_phys [of n START_ADDR] b sa by simp
  then have us: "unat kcnt = 0x100000 + ?N - unat sp" using sp by (simp add: kcnt_def unat_sub word_le_nat_alt)
  have spl: "unat sp \<le> 0x200000" "unat START_ADDR \<le> 0x200000" using sp n16 sa by simp_all
  define r1 where "r1 = ram_move (phys c START_ADDR) (phys b START_ADDR) tcnt (ram s)"
  have ram: "ram (copyaddrspace sp me np s) = ram_move (phys c sp) (phys b sp) kcnt r1"
    by (simp add: copyaddrspace_def Let_def me tcnt_def kcnt_def r1_def)
  have b1: "unat (phys c START_ADDR) + unat tcnt < 2 ^ 32" "unat (phys c sp) + unat kcnt < 2 ^ 32"
    using pa(2) [OF spl(1)] pa(2) [OF spl(2)] ut us brk n16 bc sa sp by (simp_all, linarith+)
  have 1: "r1 x = (if 0x100000 + nat c * 65536 \<le> unat x \<and> unat x < unat ?brk + nat c * 65536 then ram s (phys b START_ADDR + (x - phys c START_ADDR)) else ram s x)" for x
    unfolding r1_def ram_move_nat [OF b1(1)] using pa(2) [OF spl(2)] ut sa brk by (simp add: word_le_nat_alt)
  have 2: "ram (copyaddrspace sp me np s) x =
      (if unat sp + nat c * 65536 \<le> unat x \<and> unat x < 0x100000 + ?N + nat c * 65536 then r1 (phys b sp + (x - phys c sp)) else r1 x)" for x
    unfolding ram ram_move_nat [OF b1(2)] using pa(2) [OF spl(1)] us sp by simp
  have sh: "phys b sp + (phys c a - phys c sp) = phys b a" "phys b START_ADDR + (phys c a - phys c START_ADDR) = phys b a" for a
    by (simp_all add: phys_def)
  show "ram (copyaddrspace sp me np s) (phys c a) = ram s (phys b a)"
    if a: "START_ADDR \<le> a \<and> a < ?brk \<or> sp \<le> a \<and> unat a < 0x100000 + nat n * 65536" for a
  proof -
    have al: "unat a \<le> 0x200000" "0x100000 \<le> unat a" using a brk sp n16 sa by (auto simp: word_less_nat_alt word_le_nat_alt)
    have pb: "r1 (phys b a) = ram s (phys b a)" if "unat a < 0x100000 + ?N"
      using dj al that brk unfolding 1 pa [OF al(1)] by auto
    show ?thesis
    proof (cases "unat sp \<le> unat a \<and> unat a < 0x100000 + ?N")
      case True
      then show ?thesis using pb unfolding 2 pa [OF al(1)] sh by simp
    next
      case False
      then have "a < ?brk" using a by (auto simp: word_le_nat_alt)
      then show ?thesis using False al sa unfolding 2 pa [OF al(1)] 1 sh by (auto simp: word_less_nat_alt)
    qed
  qed
  have fa: "nat (c + n) * 65536 = nat c * 65536 + ?N" using b by (simp add: nat_add_distrib add_mult_distrib)
  show "ram (copyaddrspace sp me np s) x = ram s x" if x: "x \<notin> frame_area c n" for x
  proof -
    have o: "unat x < 0x100000 + nat c * 65536 \<or> 0x100000 + nat c * 65536 + ?N \<le> unat x"
      using x unfolding frame_area_def fa by auto
    have "unat START_ADDR \<le> unat sp" using sp(1) by (simp add: word_le_nat_alt)
    then have n2: "\<not> (unat sp + nat c * 65536 \<le> unat x \<and> unat x < 0x100000 + ?N + nat c * 65536)" using o sa by linarith
    have n1: "\<not> (0x100000 + nat c * 65536 \<le> unat x \<and> unat x < unat ?brk + nat c * 65536)" using o brk(2) by linarith
    have "ram (copyaddrspace sp me np s) x = r1 x" unfolding 2 by (rule if_not_P [OF n2])
    also have "\<dots> = ram s x" unfolding 1 by (rule if_not_P [OF n1])
    finally show ?thesis .
  qed
qed

section \<open>Fork\<close>

interpretation prt: slot_table "\<lambda>p. p_state p = UNUSED" "\<lambda>p. p\<lparr>p_state := EMBRYO\<rparr>" NPROC
  by unfold_locales simp

lemma allocproc_cases:
  assumes "allocproc s = (r, s')"
  obtains "r = None" "s' = s" "card (prt.used (ptable s)) = NPROC"
  | p where "r = Some p" "p < NPROC" "p_state (ptable s p) = UNUSED"
      "s' = (upd_proc p (\<lambda>e. e\<lparr>p_state := EMBRYO, p_pid := nextpid s\<rparr>) s)\<lparr>nextpid := nextpid s + 1\<rparr>"
proof (cases "alloc_slot (\<lambda>p. p_state p = UNUSED) (\<lambda>p. p\<lparr>p_state := EMBRYO\<rparr>) NPROC (ptable s)")
  case None
  then show ?thesis using assms that(1) prt.alloc_full by (auto simp: allocproc_def)
next
  case (Some a)
  obtain p t where a: "a = (p, t)" by fastforce
  have "t = (ptable s)(p := (ptable s p)\<lparr>p_state := EMBRYO\<rparr>)" using Some a by (auto simp: alloc_slot_def split: option.splits)
  then show ?thesis using assms that(2) [of p] Some a prt.alloc_fresh [of "ptable s" p t] by (auto simp: allocproc_def upd_proc_def)
qed

lemma fork_files_frame:
  "fork_files me np is s = Ok s' \<Longrightarrow> \<exists>ft ofs. s' = s\<lparr>ftable := ft, ptable := (ptable s)(np := (ptable s np)\<lparr>p_ofile := ofs\<rparr>)\<rparr>"
proof (induction "is" arbitrary: s)
  case Nil
  have "s = s\<lparr>ftable := ftable s, ptable := (ptable s)(np := (ptable s np)\<lparr>p_ofile := p_ofile (ptable s np)\<rparr>)\<rparr>" by simp
  then show ?case using Nil by (metis fork_files.simps(1) res.inject(1))
next
  case (Cons i "is")
  show ?case
  proof (cases "p_ofile (ptable s me) i")
    case None
    then show ?thesis using Cons by simp
  next
    case (Some f)
    then obtain t where t: "filedup f s = Ok t" "fork_files me np is (set_ofile i (Some f) np t) = Ok s'" using Cons.prems by auto
    from Cons.IH [OF t(2)] obtain ft ofs where
      "s' = (set_ofile i (Some f) np t)\<lparr>ftable := ft, ptable := (ptable (set_ofile i (Some f) np t))(np := (ptable (set_ofile i (Some f) np t) np)\<lparr>p_ofile := ofs\<rparr>)\<rparr>"
      by blast
    moreover have "t = upd_file f (\<lambda>e. e\<lparr>f_ref := f_ref e + 1\<rparr>) s" using t(1) by (auto simp: filedup_def split: if_splits)
    ultimately have "s' = s\<lparr>ftable := ft, ptable := (ptable s)(np := (ptable s np)\<lparr>p_ofile := ofs\<rparr>)\<rparr>"
      by (simp add: set_ofile_def upd_proc_def upd_file_def)
    then show ?thesis by blast
  qed
qed

text \<open>What a successful \<open>fork\<close> has done, piece by piece.\<close>

lemma sys_fork_cases:
  fixes s :: "'a proc_state_scheme"
  assumes ok: "sys_fork fr sp1 sp2 s = Ok (pid, s')" and me: "proc s = Some me" and st: "p_state (ptable s me) \<noteq> UNUSED"
  obtains (fail) "pid = -1" "fview s' = fview s" "\<And>i. p_state (ptable s' i) = p_state (ptable s i)"
  | (child) np c fl u v w where "np < NPROC" "np \<noteq> me" "p_state (ptable s np) = UNUSED" "pid = nextpid s"
    "allocframes (nextpid s) (p_nframes (ptable s me)) (frames s) = (c, fl)" "c \<noteq> -1"
    "s' = copyaddrspace sp2 me np u" "frames u = fl" "ram u = ram s" "\<And>i. i \<noteq> np \<Longrightarrow> ptable u i = ptable s i"
    "p_basereg (ptable u np) = c" "p_nframes (ptable u np) = p_nframes (ptable s me)" "p_pid (ptable u np) = nextpid s"
    "p_state (ptable u np) = RUNNABLE" "p_parent (ptable u np) = Some me"
    "p_context (ptable u np) = (cpu s)\<lparr>c_sp := sp1 - 4, c_pc := fr\<rparr>"
    "fork_files me np [0..<NOFILE] (v :: 'a proc_state_scheme) = Ok w" "fview v = fview s" "fview u = fview w"
proof -
  obtain r s1 where a: "allocproc s = (r, s1)" by fastforce
  show ?thesis
  proof (cases r)
    case None
    then have "s1 = s" using a by (auto elim: allocproc_cases)
    then have "pid = -1 \<and> s' = set_errno EAGAIN s" using ok a None by (simp add: sys_fork_def del: rbind_eq_Ok)
    then show ?thesis using fail by (simp add: set_errno_def fview_def ofiles_def fun_eq_iff)
  next
    case (Some np)
    have np: "np < NPROC" "p_state (ptable s np) = UNUSED"
      and s1: "s1 = (upd_proc np (\<lambda>e. e\<lparr>p_state := EMBRYO, p_pid := nextpid s\<rparr>) s)\<lparr>nextpid := nextpid s + 1\<rparr>"
      using a Some by (auto elim: allocproc_cases)
    have ne: "np \<noteq> me" using np(2) st by auto
    have e1: "proc s1 = Some me" "\<And>i. i \<noteq> np \<Longrightarrow> ptable s1 i = ptable s i" "p_pid (ptable s1 np) = nextpid s" "frames s1 = frames s" "ram s1 = ram s" "cpu s1 = cpu s"
      using me ne by (simp_all add: s1 upd_proc_def)
    obtain c fl where al: "allocframes (nextpid s) (p_nframes (ptable s me)) (frames s) = (c, fl)" by fastforce
    define s2 where "s2 = s1\<lparr>frames := fl\<rparr>"
    show ?thesis
    proof (cases "c = -1")
      case True
      then have "pid = -1 \<and> s' = set_errno ENOMEM (upd_proc np (\<lambda>e. e\<lparr>p_state := UNUSED\<rparr>) s2)"
        using ok a Some e1 al ne by (auto simp: sys_fork_def myproc_def Let_def s2_def)
      then show ?thesis using fail np ne by (auto simp: s1 s2_def fview_def ofiles_def fun_eq_iff set_errno_def upd_proc_def)
    next
      case c: False
      define s3 where "s3 = upd_proc np (fork_entry fr (sp1 - 4) me c s2) s2"
      have "rbind (fork_files me np [0..<NOFILE] s3) (\<lambda>s.
               case p_cwd (ptable s me) of
                 None \<Rightarrow> Fault
               | Some cwd \<Rightarrow>
                   (let (ip, s) = idup cwd s;
                        s = copyaddrspace sp2 me np (upd_proc np (\<lambda>e. e\<lparr>p_cwd := Some ip\<rparr>) s)
                    in Ok (p_pid (ptable s np), s))) = Ok (pid, s')"
        using ok a Some e1 al c ne by (simp add: sys_fork_def myproc_def Let_def s2_def s3_def del: rbind_eq_Ok)
      then obtain s4 cwd where s4: "fork_files me np [0..<NOFILE] s3 = Ok s4" "p_cwd (ptable s4 me) = Some cwd"
        and fin: "(let (ip, s) = idup cwd s4;
                   s = copyaddrspace sp2 me np (upd_proc np (\<lambda>e. e\<lparr>p_cwd := Some ip\<rparr>) s)
                    in Ok (p_pid (ptable s np), s)) = Ok (pid, s')"
        by (auto split: option.splits)
      define u where "u = upd_proc np (\<lambda>e. e\<lparr>p_cwd := Some cwd\<rparr>) (snd (idup cwd s4))"
      obtain ft ofs where s4': "s4 = s3\<lparr>ftable := ft, ptable := (ptable s3)(np := (ptable s3 np)\<lparr>p_ofile := ofs\<rparr>)\<rparr>"
        using fork_files_frame [OF s4(1)] by blast
      have u: "frames u = fl" "ram u = ram s" "p_basereg (ptable u np) = c"
        "p_nframes (ptable u np) = p_nframes (ptable s me)" "p_pid (ptable u np) = nextpid s" "p_state (ptable u np) = RUNNABLE"
        "p_parent (ptable u np) = Some me" "p_context (ptable u np) = (cpu s)\<lparr>c_sp := sp1 - 4, c_pc := fr\<rparr>"
        using ne e1 unfolding u_def s4' s3_def s2_def
        by (simp_all add: idup_def upd_proc_def upd_inode_def fork_entry_def)
      have rest: "\<And>i. i \<noteq> np \<Longrightarrow> ptable u i = ptable s i"
        using e1(2) unfolding u_def s4' s3_def s2_def by (simp add: idup_def upd_proc_def upd_inode_def)
      have v: "fview s3 = fview s" by (auto simp: s3_def s2_def s1 fview_def ofiles_def fork_entry_def upd_proc_def fun_eq_iff)
      have w: "fview u = fview s4" by (auto simp: u_def fview_def ofiles_def idup_def upd_inode_def upd_proc_def fun_eq_iff)
      have "s' = copyaddrspace sp2 me np u \<and> pid = p_pid (ptable (copyaddrspace sp2 me np u) np)"
        using fin unfolding u_def idup_def Let_def by auto
      moreover have "ptable (copyaddrspace sp2 me np u) = ptable u" by (simp add: copyaddrspace_def Let_def)
      ultimately have "s' = copyaddrspace sp2 me np u" "pid = nextpid s" using u(5) by simp_all
      then show ?thesis using child [of np c fl u s3 s4] np ne al c u rest s4(1) v w by simp
    qed
  qed
qed

text \<open>The frames of a process: as many as it has, from its base register on, all marked with its pid.\<close>

definition mem_ok :: "'a kern_state_scheme \<Rightarrow> nat \<Rightarrow> bool" where
  "mem_ok s p \<longleftrightarrow> length (frames s) = NFRAME \<and> 0 \<le> p_basereg (ptable s p) \<and> 1 \<le> p_nframes (ptable s p) \<and>
     p_basereg (ptable s p) + p_nframes (ptable s p) \<le> 16 \<and> p_pid (ptable s p) \<noteq> FREE \<and>
     (\<forall>k. p_basereg (ptable s p) \<le> int k \<and> int k < p_basereg (ptable s p) + p_nframes (ptable s p) \<longrightarrow> frames s ! k = p_pid (ptable s p))"

lemma allocframes_fresh:
  assumes "length fl = NFRAME" "1 \<le> n" "allocframes pid n fl = (c, fl')" "c \<noteq> -1" "pid \<notin> set fl"
  shows "0 \<le> c" "c + n \<le> 16" "length fl' = NFRAME" "\<And>k. c \<le> int k \<Longrightarrow> int k < c + n \<Longrightarrow> fl ! k = FREE"
    "\<And>k. k < NFRAME \<Longrightarrow> fl' ! k = (if c \<le> int k \<and> int k < c + n then pid else fl ! k)"
proof -
  have "frame_alloc_spec pid n fl (c, fl')"
    using allocframes_one_spec [OF assms(1), of pid] allocframes_many_spec [OF assms(1), of n pid] assms(2,3) by (cases "n = 1") auto
  moreover have own: "fl ! k \<noteq> pid" if "k < NFRAME" for k using assms(1,5) that nth_mem [of k fl] by auto
  ultimately have sp: "0 \<le> c" "free_run (freeframes pid fl) (nat c) (nat n)" "length fl' = NFRAME"
     "\<And>k. k < NFRAME \<Longrightarrow> fl' ! k = (if c \<le> int k \<and> int k < c + n then pid else fl ! k)"
    using assms(4) by (auto simp: frame_alloc_spec_def)
  then show "0 \<le> c" "length fl' = NFRAME"
    "\<And>k. k < NFRAME \<Longrightarrow> fl' ! k = (if c \<le> int k \<and> int k < c + n then pid else fl ! k)" by auto
  have b: "nat c + nat n \<le> 16" using sp(2) by (simp add: free_run_def NFRAME_def)
  then show "c + n \<le> 16" using sp(1) assms(2) by linarith
  show "fl ! k = FREE" if k: "c \<le> int k" "int k < c + n" for k
  proof -
    have kn: "nat c \<le> k" "k < nat c + nat n" using k sp(1) assms(2) by linarith+
    then have "freeframes pid fl ! k = FREE" using sp(2) by (simp add: free_run_def)
    moreover have "k < NFRAME" using kn b by (simp add: NFRAME_def)
    ultimately show ?thesis using own assms(1) by (simp split: if_splits)
  qed
qed


section \<open>Exit and wait\<close>

text \<open>What closing files does to the process table: it may wake processes, nothing else.\<close>

definition awake :: "proc_ent \<Rightarrow> proc_ent \<Rightarrow> bool" where
  "awake e e' \<longleftrightarrow> e' = e \<or> p_state e = SLEEPING \<and> e' = e\<lparr>p_state := RUNNABLE\<rparr>"

definition woken :: "'a kern_state_scheme \<Rightarrow> 'a kern_state_scheme \<Rightarrow> bool" where
  "woken s s' \<longleftrightarrow> proc s' = proc s \<and> initproc s' = initproc s \<and> frames s' = frames s \<and> (\<forall>i. awake (ptable s i) (ptable s' i))"

lemma awake_refl [simp]: "awake e e" by (simp add: awake_def)

lemma awake_trans [trans]: "awake e e' \<Longrightarrow> awake e' e'' \<Longrightarrow> awake e e''" by (auto simp: awake_def)

lemma awake_fields:
  "awake e e' \<Longrightarrow> p_ofile e' = p_ofile e \<and> p_pid e' = p_pid e \<and> p_parent e' = p_parent e \<and> p_exitstatus e' = p_exitstatus e \<and>
     p_killed e' = p_killed e \<and> p_chan e' = p_chan e \<and> p_cwd e' = p_cwd e \<and> (p_state e \<noteq> SLEEPING \<longrightarrow> p_state e' = p_state e) \<and>
     (p_state e' = SLEEPING \<longrightarrow> p_state e = SLEEPING) \<and> (p_state e = SLEEPING \<longrightarrow> p_state e' = SLEEPING \<or> p_state e' = RUNNABLE)"
  by (auto simp: awake_def)

lemma awake_state: "awake e e' \<Longrightarrow> p_state e' \<noteq> RUNNABLE \<Longrightarrow> p_state e' = p_state e"
  by (auto simp: awake_def)

lemma woken_refl [simp]: "woken s s" by (simp add: woken_def)

lemma woken_trans: "woken s s' \<Longrightarrow> woken s' s'' \<Longrightarrow> woken s s''"
  by (auto simp: woken_def intro: awake_trans)

lemma woken_core: "core s' = core s \<Longrightarrow> woken s s'"
  using coreD [of s' s] by (simp add: woken_def)

lemma woken_wakeup [simp]: "woken s (wakeup ch s)"
  by (auto simp: woken_def wakeup_def wakeup1_def awake_def)

lemma woken_upd_pipe [simp]: "woken s (upd_pipe p f s)" "woken s (upd_file g h s)"
  by (simp_all add: woken_def upd_pipe_def upd_file_def)

lemma pipeclose_woken: "pipeclose p wr s = Ok s' \<Longrightarrow> woken s s'"
proof -
  assume o: "pipeclose p wr s = Ok s'"
  define t where "t = (if wr then wakeup (ChNread p) (upd_pipe p (\<lambda>r. r\<lparr>pi_writeopen := False\<rparr>) s)
               else wakeup (ChNwrite p) (upd_pipe p (\<lambda>r. r\<lparr>pi_readopen := False\<rparr>) s))"
  have "woken s t" unfolding t_def by (simp add: woken_trans [OF woken_upd_pipe(1) woken_wakeup])
  moreover have "woken t s'" using o unfolding pipeclose_def t_def [symmetric] by (auto simp: Let_def pfree_def split: if_splits)
  ultimately show ?thesis by (rule woken_trans)
qed

lemma file_release_woken: "file_release e s = Ok s' \<Longrightarrow> woken s s'"
  by (auto simp: file_release_def split: ftype.splits option.splits intro: pipeclose_woken dest!: fs_core) (auto intro: woken_core)

lemma fileclose_woken:
  assumes "fileclose f s = Ok s'"
  shows "woken s s'"
proof -
  let ?t = "upd_file f (\<lambda>e. e\<lparr>f_ref := f_ref e - 1\<rparr>) s"
  let ?u = "upd_file f (\<lambda>e. e\<lparr>f_ref := 0, f_type := FD_NONE\<rparr>) ?t"
  have "s' = ?t \<or> file_release (ftable ?t f) ?u = Ok s'" using assms by (auto simp: fileclose_def Let_def split: if_splits)
  moreover have "woken s ?t" "woken s ?u" using woken_trans [OF woken_upd_pipe(2) woken_upd_pipe(2)] by simp_all
  ultimately show ?thesis using file_release_woken woken_trans by blast
qed

lemma exit_files_spec:
  assumes "exit_files me fs s = Ok s'" 
  shows "proc s' = proc s \<and> initproc s' = initproc s \<and> frames s' = frames s \<and> (\<forall>i. i \<noteq> me \<longrightarrow> awake (ptable s i) (ptable s' i)) \<and>
    (\<exists>ofs. awake ((ptable s me)\<lparr>p_ofile := ofs\<rparr>) (ptable s' me) \<and> (\<forall>fd. ofs fd = (if fd \<in> set fs then None else p_ofile (ptable s me) fd)))"
  using assms
proof (induction fs arbitrary: s)
  case Nil
  then show ?case by (auto intro!: exI [of _ "p_ofile (ptable s' me)"])
next
  case (Cons fd fs)
  show ?case
  proof (cases "p_ofile (ptable s me) fd")
    case None
    from Cons.IH [of s] Cons.prems None show ?thesis by auto
  next
    case (Some f)
    then obtain t where t: "fileclose f s = Ok t" "exit_files me fs (set_ofile fd None me t) = Ok s'" using Cons.prems by auto
    note w = fileclose_woken [OF t(1), unfolded woken_def]
    have aw: "awake (ptable s me) (ptable t me)" using w by blast
    from Cons.IH [OF t(2)] obtain ofs where I: "proc s' = proc t" "initproc s' = initproc t" "frames s' = frames t"
      "\<And>i. i \<noteq> me \<Longrightarrow> awake (ptable t i) (ptable s' i)" "awake ((ptable t me)\<lparr>p_ofile := ofs\<rparr>) (ptable s' me)"
      "\<And>k. ofs k = (if k \<in> set fs then None else if k = fd then None else p_ofile (ptable t me) k)"
      by (auto simp: set_ofile_def)
    have "awake ((ptable s me)\<lparr>p_ofile := ofs\<rparr>) ((ptable t me)\<lparr>p_ofile := ofs\<rparr>)" using aw by (auto simp: awake_def)
    then have "awake ((ptable s me)\<lparr>p_ofile := ofs\<rparr>) (ptable s' me)" using I(5) awake_trans by blast
    moreover have "ofs k = (if k \<in> set (fd # fs) then None else p_ofile (ptable s me) k)" for k
      using I(6) [of k] awake_fields [OF aw] by simp
    moreover have "awake (ptable s i) (ptable s' i)" if "i \<noteq> me" for i using I(4) [OF that] w awake_trans by blast
    ultimately show ?thesis using I(1-3) w by auto
  qed
qed

lemma woken_wakeup_proc [simp]: "woken s (wakeup_proc q s)"
  by (auto simp: woken_def wakeup_proc_def wakeup1_def awake_def split: option.splits)

lemma abandon_spec:
  "proc (abandon me ps s) = proc s \<and> initproc (abandon me ps s) = initproc s \<and> frames (abandon me ps s) = frames s \<and>
     awake ((ptable s i)\<lparr>p_parent := if i \<in> set ps \<and> p_parent (ptable s i) = Some me then initproc s else p_parent (ptable s i)\<rparr>)
       (ptable (abandon me ps s) i)"
proof (induction ps arbitrary: s)
  case (Cons p ps)
  show ?case
  proof (cases "p_parent (ptable s p) = Some me")
    case False
    then show ?thesis using Cons [of s] by auto
  next
    case True
    define s1 where "s1 = upd_proc p (\<lambda>e. e\<lparr>p_parent := initproc s\<rparr>) s"
    define s2 where "s2 = (if p_state (ptable s1 p) = ZOMBIE then wakeup_proc (initproc s1) s1 else s1)"
    have "woken s1 s2" by (simp add: s2_def)
    then have w: "proc s2 = proc s" "initproc s2 = initproc s" "frames s2 = frames s" "awake (ptable s1 i) (ptable s2 i)"
      by (simp_all add: woken_def s1_def)
    have eq: "abandon me (p # ps) s = abandon me ps s2" using True by (simp add: s1_def s2_def Let_def)
    have "awake ((ptable s i)\<lparr>p_parent := if i \<in> set (p # ps) \<and> p_parent (ptable s i) = Some me then initproc s else p_parent (ptable s i)\<rparr>)
      ((ptable s2 i)\<lparr>p_parent := if i \<in> set ps \<and> p_parent (ptable s2 i) = Some me then initproc s2 else p_parent (ptable s2 i)\<rparr>)"
      using w(2,4) True by (cases "i = p") (auto simp: s1_def awake_def)
    then show ?thesis using Cons [of s2] w(1-3) awake_trans unfolding eq by auto
  qed
qed simp

lemma scheduler_switch:
  assumes "scheduler s = Ok s'"
  obtains q where "q < NPROC" "p_state (ptable s q) = RUNNABLE" "proc s' = Some q" "initproc s' = initproc s" "frames s' = frames s"
    "\<And>i. \<exists>c. ptable s' i = (ptable s i)\<lparr>p_state := if i = q then RUNNING else p_state (ptable s i), p_context := c\<rparr>"
proof -
  obtain q old where q: "find_from (\<lambda>i. p_state (ptable s i) = RUNNABLE) 0 NPROC = Some q" "proc s = Some old"
    "s' = swtch old q (p_basereg (ptable s q)) (upd_proc q (\<lambda>q. q\<lparr>p_state := RUNNING\<rparr>) (s\<lparr>proc := Some q\<rparr>))"
    using assms by (auto simp: scheduler_def myproc_def Let_def split: option.splits)
  have "ptable s' i = (ptable s i)\<lparr>p_state := if i = q then RUNNING else p_state (ptable s i),
      p_context := if i = old then cpu s else p_context (ptable s i)\<rparr>" for i
    unfolding q(3) by (simp add: swtch_def Let_def)
  then have "\<exists>c. ptable s' i = (ptable s i)\<lparr>p_state := if i = q then RUNNING else p_state (ptable s i), p_context := c\<rparr>" for i
    by blast
  moreover have "proc s' = Some q" "initproc s' = initproc s" "frames s' = frames s" using q(3) by (simp_all add: swtch_def Let_def)
  ultimately show ?thesis using that [of q] find_from_SomeD [OF q(1)] by blast
qed

lemma scheduler_runs:
  assumes "p_state (ptable s q) = RUNNABLE" "proc s = Some p" "q < NPROC"
  shows "\<exists>s'. scheduler s = Ok s'"
proof -
  have "find_from (\<lambda>i. p_state (ptable s i) = RUNNABLE) 0 NPROC \<noteq> None" using assms unfolding find_from_None by blast
  then show ?thesis using assms(2) by (auto simp: scheduler_def myproc_def Let_def)
qed

text \<open>The table after a process has exited, as one relation between the two states.\<close>

definition exited :: "int \<Rightarrow> nat \<Rightarrow> 'a kern_state_scheme \<Rightarrow> 'a kern_state_scheme \<Rightarrow> bool" where
  "exited v me s s' \<longleftrightarrow>
     (let e = ptable s me; e' = ptable s' me in
        p_state e' = ZOMBIE \<and> p_exitstatus e' = v \<and> p_pid e' = p_pid e \<and> p_parent e' = p_parent e \<and> p_killed e' = p_killed e \<and>
        p_cwd e' = None \<and> (\<forall>fd < NOFILE. p_ofile e' fd = None)) \<and>
     frames s' = freeframes (p_pid (ptable s me)) (frames s) \<and>
     (\<exists>q < NPROC. proc s' = Some q \<and> q \<noteq> me \<and> p_state (ptable s' q) = RUNNING) \<and>
     (\<forall>i < NPROC. i \<noteq> me \<longrightarrow> p_ofile (ptable s' i) = p_ofile (ptable s i) \<and> p_pid (ptable s' i) = p_pid (ptable s i) \<and>
        p_parent (ptable s' i) = (if p_parent (ptable s i) = Some me then initproc s else p_parent (ptable s i)) \<and>
        (\<forall>st \<in> {UNUSED, EMBRYO, ZOMBIE}. p_state (ptable s' i) = st \<longleftrightarrow> p_state (ptable s i) = st) \<and>
        (p_parent (ptable s me) = Some i \<and> p_chan (ptable s i) = Some (ChProc i) \<longrightarrow> p_state (ptable s' i) \<noteq> SLEEPING))"

lemma exitedD:
  assumes "exited v me s s'"
  shows "\<And>fd. fd < NOFILE \<Longrightarrow> p_ofile (ptable s' me) fd = None"
    "\<And>i. i < NPROC \<Longrightarrow> i \<noteq> me \<Longrightarrow> p_ofile (ptable s' i) = p_ofile (ptable s i)"
    "\<And>i st. i < NPROC \<Longrightarrow> i \<noteq> me \<Longrightarrow> st \<in> {UNUSED, EMBRYO, ZOMBIE} \<Longrightarrow> p_state (ptable s' i) = st \<longleftrightarrow> p_state (ptable s i) = st"
    "\<exists>q < NPROC. proc s' = Some q \<and> q \<noteq> me \<and> p_state (ptable s' q) = RUNNING"
  using assms unfolding exited_def Let_def by blast+

lemma sys_exit_spec:
  assumes o: "sys_exit v s = Ok s'" and me: "proc s = Some me" "p_state (ptable s me) = RUNNING" "p_parent (ptable s me) \<noteq> Some me"
  shows "exited v me s s'"
proof -
  define s1 where "s1 = upd_proc me (\<lambda>e. e\<lparr>p_exitstatus := v\<rparr>) s"
  obtain s2 where s2: "exit_files me [0..<NOFILE] s1 = Ok s2" "initproc s \<noteq> Some me"
    and r: "scheduler (upd_proc me (\<lambda>e. e\<lparr>p_state := ZOMBIE\<rparr>) (abandon me [0..<NPROC]
        (wakeup_proc (p_parent (ptable s2 me)) (upd_proc me (\<lambda>e. e\<lparr>p_cwd := None\<rparr>) (s2\<lparr>frames := freeframes (p_pid (ptable s2 me)) (frames s2)\<rparr>))))) = Ok s'"
    using o me by (auto simp: sys_exit_def myproc_def Let_def s1_def split: if_splits)
  from exit_files_spec [OF s2(1)] obtain ofs where e2: "proc s2 = proc s" "initproc s2 = initproc s" "frames s2 = frames s"
    "\<And>i. i \<noteq> me \<Longrightarrow> awake (ptable s i) (ptable s2 i)" "awake ((ptable s me)\<lparr>p_exitstatus := v, p_ofile := ofs\<rparr>) (ptable s2 me)"
    "\<And>fd. fd < NOFILE \<Longrightarrow> ofs fd = None"
    by (auto simp: s1_def)
  have m2: "ptable s2 me = (ptable s me)\<lparr>p_exitstatus := v, p_ofile := ofs\<rparr>" using e2(5) me(2) by (simp add: awake_def)
  define s3 where "s3 = upd_proc me (\<lambda>e. e\<lparr>p_cwd := None\<rparr>) (s2\<lparr>frames := freeframes (p_pid (ptable s me)) (frames s)\<rparr>)"
  define s4 where "s4 = wakeup_proc (p_parent (ptable s me)) s3"
  define s5 where "s5 = abandon me [0..<NPROC] s4"
  have sch: "scheduler (upd_proc me (\<lambda>e. e\<lparr>p_state := ZOMBIE\<rparr>) s5) = Ok s'"
    using r unfolding s5_def s4_def s3_def m2 e2(3) by simp
  have w4: "proc s4 = proc s" "initproc s4 = initproc s" "frames s4 = freeframes (p_pid (ptable s me)) (frames s)" "\<And>i. awake (ptable s3 i) (ptable s4 i)"
    using woken_wakeup_proc [of s3 "p_parent (ptable s me)"] e2(1,2) unfolding woken_def s4_def by (simp_all add: s3_def)
  have ab: "proc s5 = proc s \<and> initproc s5 = initproc s \<and> frames s5 = freeframes (p_pid (ptable s me)) (frames s) \<and>
      awake ((ptable s4 i)\<lparr>p_parent := if i < NPROC \<and> p_parent (ptable s4 i) = Some me then initproc s else p_parent (ptable s4 i)\<rparr>) (ptable s5 i)" for i
    using abandon_spec [of me "[0..<NPROC]" s4 i] unfolding s5_def w4(1-3) by simp
  obtain q where q: "q < NPROC" "p_state (ptable (upd_proc me (\<lambda>e. e\<lparr>p_state := ZOMBIE\<rparr>) s5) q) = RUNNABLE" "proc s' = Some q" "frames s' = frames s5"
    "\<And>i. \<exists>c. ptable s' i = (ptable (upd_proc me (\<lambda>e. e\<lparr>p_state := ZOMBIE\<rparr>) s5) i)
       \<lparr>p_state := if i = q then RUNNING else p_state (ptable (upd_proc me (\<lambda>e. e\<lparr>p_state := ZOMBIE\<rparr>) s5) i), p_context := c\<rparr>"
    using scheduler_switch [OF sch] by (metis upd_proc_simps(8))
  have ne: "q \<noteq> me" using q(2) by (auto split: if_splits)
  have m3: "ptable s3 me = (ptable s me)\<lparr>p_exitstatus := v, p_ofile := ofs, p_cwd := None\<rparr>" by (simp add: s3_def m2)
  then have m4: "ptable s4 me = ptable s3 me" using w4(4) [of me] me(2) by (simp add: awake_def)
  then have "ptable s5 me = ptable s3 me" using ab [of me] m3 me by (simp add: awake_def)
  then have A: "p_state (ptable s' me) = ZOMBIE" "p_exitstatus (ptable s' me) = v" "p_pid (ptable s' me) = p_pid (ptable s me)"
      "p_parent (ptable s' me) = p_parent (ptable s me)" "p_killed (ptable s' me) = p_killed (ptable s me)" "p_cwd (ptable s' me) = None"
      "\<forall>fd < NOFILE. p_ofile (ptable s' me) fd = None"
    using q(5) [of me] ne m3 e2(6) by auto
  have B: "p_state (ptable s' q) = RUNNING" using q(5) [of q] by auto
  have C: "p_ofile (ptable s' i) = p_ofile (ptable s i)" "p_pid (ptable s' i) = p_pid (ptable s i)"
      "p_parent (ptable s' i) = (if p_parent (ptable s i) = Some me then initproc s else p_parent (ptable s i))"
      "\<forall>st \<in> {UNUSED, EMBRYO, ZOMBIE}. p_state (ptable s' i) = st \<longleftrightarrow> p_state (ptable s i) = st"
      "p_parent (ptable s me) = Some i \<Longrightarrow> p_chan (ptable s i) = Some (ChProc i) \<Longrightarrow> p_state (ptable s' i) \<noteq> SLEEPING"
    if i: "i < NPROC" "i \<noteq> me" for i
  proof -
    have "ptable s3 i = ptable s2 i" using i by (simp add: s3_def)
    then have a3: "awake (ptable s i) (ptable s3 i)" using e2(4) i by simp
    note f4 = awake_fields [OF awake_trans [OF a3 w4(4)]]
    note f5 = awake_fields [OF ab [of i, THEN conjunct2, THEN conjunct2, THEN conjunct2]]
    have same: "ptable (upd_proc me (\<lambda>e. e\<lparr>p_state := ZOMBIE\<rparr>) s5) i = ptable s5 i" using i by simp
    obtain c where s': "ptable s' i = (ptable s5 i)\<lparr>p_state := if i = q then RUNNING else p_state (ptable s5 i), p_context := c\<rparr>"
      using q(5) [of i] unfolding same by blast
    show "p_ofile (ptable s' i) = p_ofile (ptable s i)" "p_pid (ptable s' i) = p_pid (ptable s i)" 
      "p_parent (ptable s' i) = (if p_parent (ptable s i) = Some me then initproc s else p_parent (ptable s i))"
      using f4 f5 i unfolding s' by simp_all
    note a4 = awake_trans [OF a3 w4(4)] and a5 = ab [of i, THEN conjunct2, THEN conjunct2, THEN conjunct2]
    have "p_state (ptable s' i) = st \<longleftrightarrow> p_state (ptable s i) = st" if st: "st \<in> {UNUSED, EMBRYO, ZOMBIE}" for st
    proof
      assume "p_state (ptable s i) = st"
      then have "p_state (ptable s4 i) = st" using f4 st by auto
      then have s5: "p_state (ptable s5 i) = st" using f5 st by auto
      then have "i \<noteq> q" using q(2) i st by auto
      then show "p_state (ptable s' i) = st" using s5 by (simp add: s')
    next
      assume a: "p_state (ptable s' i) = st"
      then have "i \<noteq> q" using st by (auto simp: s')
      then have "p_state (ptable s5 i) = st" using a by (simp add: s')
      then have "p_state (ptable s4 i) = st" using awake_state [OF a5] st by auto
      then show "p_state (ptable s i) = st" using awake_state [OF a4] st by auto
    qed
    then show "\<forall>st \<in> {UNUSED, EMBRYO, ZOMBIE}. p_state (ptable s' i) = st \<longleftrightarrow> p_state (ptable s i) = st" by blast
    show "p_state (ptable s' i) \<noteq> SLEEPING" if "p_parent (ptable s me) = Some i" "p_chan (ptable s i) = Some (ChProc i)"
    proof -
      have "p_chan (ptable s3 i) = Some (ChProc i)" using awake_fields [OF a3] that by simp
      then have "p_state (ptable s4 i) \<noteq> SLEEPING" using that i by (simp add: s4_def wakeup_proc_def wakeup1_def)
      then have "p_state (ptable s5 i) \<noteq> SLEEPING" using f5 by auto
      then show ?thesis by (simp add: s')
    qed
  qed
  show ?thesis unfolding exited_def Let_def using A B C q(1,3,4) ne ab [of me] by auto
qed

text \<open>
  C32. Exit and wait. When a running process exits, its entry is a zombie with the exit status, all its
  descriptors and its directory are cleared, its frames and no others are free, its children belong to
  \<open>init\<close>, a parent that sleeps in \<open>wait\<close> is awake, and another process runs; the other entries that are unused or zombies stay so, and no new ones appear.
  Whenever the parent then calls \<open>wait\<close>, with the zombie still the first of its dead children, the call
  returns the pid of the process and its status, with bit 8 set if the process was killed, and frees the
  entry.
\<close>

theorem exit_wait:
  fixes s :: "'a file_state_scheme"
  assumes "sys_exit v s = Ok s'" "proc s = Some me" "me < NPROC" "p_state (ptable s me) = RUNNING" "p_parent (ptable s me) = Some pp" "pp \<noteq> me"
  shows "exited v me s s' \<and>
    (\<forall>t :: 'a file_state_scheme. proc t = Some pp \<and> ptable t me = ptable s' me \<and> (\<forall>i < me. \<not> (p_parent (ptable t i) = Some pp \<and> p_state (ptable t i) = ZOMBIE)) \<longrightarrow>
       (\<exists>t'. sys_wait nonnull t =
          Ok (Ret (p_pid (ptable s me), if nonnull then Some (v OR (if p_killed (ptable s me) then 0x100 else 0)) else None), t') \<and>
          p_state (ptable t' me) = UNUSED \<and> p_pid (ptable t' me) = 0 \<and> p_parent (ptable t' me) = None \<and>
          (\<forall>i. i \<noteq> me \<longrightarrow> ptable t' i = ptable t i)))"
proof -
  have ex: "exited v me s s'" using sys_exit_spec [of v s s' me] assms by auto
  then have z: "p_state (ptable s' me) = ZOMBIE" "p_parent (ptable s' me) = Some pp" "p_exitstatus (ptable s' me) = v"
    "p_pid (ptable s' me) = p_pid (ptable s me)" "p_killed (ptable s' me) = p_killed (ptable s me)"
    using assms(5) by (simp_all add: exited_def Let_def)
  have "\<exists>t'. sys_wait nonnull t =
          Ok (Ret (p_pid (ptable s me), if nonnull then Some (v OR (if p_killed (ptable s me) then 0x100 else 0)) else None), t') \<and>
          p_state (ptable t' me) = UNUSED \<and> p_pid (ptable t' me) = 0 \<and> p_parent (ptable t' me) = None \<and>
          (\<forall>i. i \<noteq> me \<longrightarrow> ptable t' i = ptable t i)"
    if t: "proc t = Some pp" "ptable t me = ptable s' me" "\<forall>i < me. \<not> (p_parent (ptable t i) = Some pp \<and> p_state (ptable t i) = ZOMBIE)"
    for t :: "'a file_state_scheme"
  proof -
    have "find_from (\<lambda>i. p_parent (ptable t i) = Some pp \<and> p_state (ptable t i) = ZOMBIE) 0 NPROC = Some me"
      using t z assms(3) by (auto simp: find_from_Some)
    then show ?thesis using t z by (simp add: sys_wait_def myproc_def Let_def wait_status_def)
  qed
  then show ?thesis using ex by blast
qed

section \<open>The break\<close>


text \<open>Process 1 runs in frames 0 and 1 with no open files, its parent 2 waits for it in frame 3, 3 is next.\<close>

definition demo_proc :: proc_state where
  "demo_proc = (file_state.extend demo_open (proc_state.fields (\<lambda>a. ucast a) 0x8000 0x7000))
     \<lparr>ptable := (\<lambda>i. if i = 0 then (demo_ent RUNNING 1)\<lparr>p_nframes := 2, p_curbrk := 0x101000, p_bssend := 0x100800, p_parent := Some 1, p_cwd := Some 0\<rparr>
        else if i = 1 then (demo_ent SLEEPING 2)\<lparr>p_basereg := 3, p_nframes := 1, p_chan := Some (ChProc 1)\<rparr>
        else demo_ent UNUSED 0),
      proc := Some 0, initproc := Some 1, nextpid := 3, frames := [1, 1, 0, 2] @ replicate 12 0\<rparr>"

lemma demo_proc_simps:
  "ptable demo_proc = (\<lambda>i. if i = 0 then (demo_ent RUNNING 1)\<lparr>p_nframes := 2, p_curbrk := 0x101000, p_bssend := 0x100800, p_parent := Some 1, p_cwd := Some 0\<rparr>
        else if i = 1 then (demo_ent SLEEPING 2)\<lparr>p_basereg := 3, p_nframes := 1, p_chan := Some (ChProc 1)\<rparr>
        else demo_ent UNUSED 0)"
  "proc demo_proc = Some 0" "initproc demo_proc = Some 1" "nextpid demo_proc = 3" "frames demo_proc = [1, 1, 0, 2] @ replicate 12 0"
  "ram demo_proc = ucast" "kcurbrk demo_proc = 0x8000" "kbssend demo_proc = 0x7000"
  by (simp_all add: demo_proc_def file_state.defs proc_state.defs)

lemma fork_files_none: "(\<forall>i. p_ofile (ptable s me) i = None) \<Longrightarrow> fork_files me np is s = Ok s"
  by (induction "is") auto

lemma exit_files_none: "(\<forall>i. p_ofile (ptable s me) i = None) \<Longrightarrow> exit_files me is s = Ok s"
  by (induction "is") auto

lemma demo_ent_simps [simp]:
  "p_state (demo_ent st pid) = st" "p_pid (demo_ent st pid) = pid" "p_ofile (demo_ent st pid) = (\<lambda>_. None)" "p_basereg (demo_ent st pid) = 0"
  "p_killed (demo_ent st pid) = False" "p_chan (demo_ent st pid) = None" "p_parent (demo_ent st pid) = None" "p_cwd (demo_ent st pid) = None"
  by (simp_all add: demo_ent_def)

lemma demo_fork: "\<exists>s'. sys_fork 0x2000 0x11fff0 0x11ff00 demo_proc = Ok (3, s')"
proof -
  have "find_from (\<lambda>i. p_state (ptable demo_proc i) = UNUSED) 0 NPROC = Some 2"
    by (auto simp: find_from_Some demo_proc_simps NPROC_def)
  then have "allocproc demo_proc = (Some 2, (upd_proc 2 (\<lambda>e. e\<lparr>p_state := EMBRYO, p_pid := 3\<rparr>) demo_proc)\<lparr>nextpid := 4\<rparr>)"
    by (simp add: allocproc_def alloc_slot_def upd_proc_def demo_proc_simps(4))
  moreover have "allocframes 3 2 ([1, 1, 0, 2] @ replicate 12 0) = (4, [1, 1, 0, 2, 3, 3] @ replicate 10 0)" by code_simp
  ultimately show ?thesis
    by (simp add: sys_fork_def demo_proc_simps Let_def myproc_def fork_files_none fork_entry_def idup_def copyaddrspace_def upd_inode_def upd_proc_def)
qed


theorem exit_wait_witness:
  "\<exists>s' t'. sys_exit 7 demo_proc = Ok s' \<and> proc s' = Some 1 \<and> sys_wait True s' = Ok (Ret (1, Some 7), t') \<and> p_state (ptable t' 0) = UNUSED"
proof -
  define s3 where "s3 = upd_proc 0 (\<lambda>e. e\<lparr>p_cwd := None\<rparr>) ((upd_proc 0 (\<lambda>e. e\<lparr>p_exitstatus := 7\<rparr>) demo_proc)
      \<lparr>frames := freeframes 1 (frames demo_proc)\<rparr>)"
  define s5 where "s5 = abandon 0 [0..<NPROC] (wakeup_proc (Some 1) s3)"
  have "p_state (ptable (wakeup_proc (Some 1) s3) 1) = RUNNABLE"
    by (simp add: wakeup_proc_def wakeup1_def s3_def demo_proc_simps NPROC_def)
  then have "p_state (ptable s5 1) = RUNNABLE" "proc s5 = Some 0"
    using abandon_spec [of 0 "[0..<NPROC]" "wakeup_proc (Some 1) s3" 1] woken_wakeup_proc [of s3 "Some 1"]
    by (auto simp: s5_def awake_def woken_def s3_def demo_proc_simps(2))
  then have "\<exists>s'. scheduler (upd_proc 0 (\<lambda>e. e\<lparr>p_state := ZOMBIE\<rparr>) s5) = Ok s'"
    by (intro scheduler_runs [of _ 1 0]) (simp_all add: NPROC_def)
  then obtain s' where s': "sys_exit 7 demo_proc = Ok s'"
    by (auto simp: sys_exit_def demo_proc_simps myproc_def Let_def exit_files_none s5_def s3_def)
  have ew: "exited 7 0 demo_proc s' \<and> (\<forall>t :: proc_state. proc t = Some 1 \<and> ptable t 0 = ptable s' 0 \<longrightarrow>
       (\<exists>t'. sys_wait True t = Ok (Ret (1, Some 7), t') \<and> p_state (ptable t' 0) = UNUSED))"
    using exit_wait [OF s', of 0 1 True] by (simp add: demo_proc_simps NPROC_def) blast
  then obtain q where q: "q < NPROC" "proc s' = Some q" "q \<noteq> 0" "p_state (ptable s' q) = RUNNING" by (auto simp: exited_def)
  have "q = 1"
  proof (rule ccontr)
    assume "q \<noteq> 1"
    then have "p_state (ptable demo_proc q) = UNUSED" using q(3) by (simp add: demo_proc_simps)
    then show False using exitedD(3) [of 7 0 demo_proc s' q UNUSED] ew q by simp
  qed
  then show ?thesis using ew q(2) s' by blast
qed


end
