(* ===== verification/Exec.thy ===== *)
theory Exec
  imports Procprops
begin

text \<open>
  Starting a program (\<open>kern/exec.c\<close>). The arguments are given as the byte lists from their pointers on, up to
  the null pointer that ends \<open>argv\<close>; the copies in kernel memory and on the new stack go through the RAM. A call that
  returns to the caller has the outcome \<open>False\<close>, one that jumps into the new program has \<open>True\<close>.
\<close>

definition AOUT_MAGIC :: ushort where "AOUT_MAGIC = 0x6012"
definition MAXARGS :: nat where "MAXARGS = 100"
definition EFAULT :: int where "EFAULT = 14"

record aout =
  a_magic :: ushort
  a_pad :: ushort
  a_code_end :: uint
  a_data_end :: uint
  a_bss_end :: uint
  a_total_size :: uint

definition decode_aout :: "bytes \<Rightarrow> aout" where
  "decode_aout b = \<lparr>a_magic = get16 b 0, a_pad = get16 b 2, a_code_end = get32 b 4, a_data_end = get32 b 8,
     a_bss_end = get32 b 12, a_total_size = get32 b 16\<rparr>"

section \<open>Memory\<close>

text \<open>The kernel's memory, below \<open>START_ADDR\<close>, is not moved by the base register.\<close>

definition mmu :: "int \<Rightarrow> uint \<Rightarrow> uint" where
  "mmu base a = (if a < START_ADDR then a else phys base a)"

fun store_bytes :: "uint \<Rightarrow> bytes \<Rightarrow> 'a proc_state_scheme \<Rightarrow> 'a proc_state_scheme" where
  "store_bytes a [] s = s"
| "store_bytes a (b # bs) s = store_bytes (a + 1) bs (s\<lparr>ram := (ram s)(mmu (basereg s) a := b)\<rparr>)"

definition load_bytes :: "uint \<Rightarrow> nat \<Rightarrow> 'a proc_state_scheme \<Rightarrow> bytes" where
  "load_bytes a n s = map (\<lambda>i. ram s (mmu (basereg s) (a + of_nat i))) [0..<n]"

text \<open>\<open>strlen\<close> of a string in memory; \<open>None\<close> when there is no zero byte anywhere.\<close>

definition ram_strlen :: "uint \<Rightarrow> 'a proc_state_scheme \<Rightarrow> nat option" where
  "ram_strlen a s = find_from (\<lambda>i. ram s (mmu (basereg s) (a + of_nat i)) = 0) 0 (2 ^ 32)"

section \<open>The arguments\<close>

text \<open>Down to kernel memory, from \<open>ptr\<close> on; the pointers are \<open>kern_argv\<close>.\<close>

fun save_args :: "bytes list \<Rightarrow> uint \<Rightarrow> 'a proc_state_scheme \<Rightarrow> uint list \<times> 'a proc_state_scheme" where
  "save_args [] ptr s = ([], s)"
| "save_args (a # as) ptr s =
     (let len = strlen a + 1;
          (ps, s) = save_args as (ptr + of_nat len) (store_bytes ptr (take len a) s)
      in (ptr # ps, s))"

text \<open>
  Up to the new stack, the last argument first; the pointers are \<open>exec_argv\<close>. The argument list is
  given in the order of the loop.
\<close>

fun push_args :: "uint list \<Rightarrow> uint \<Rightarrow> 'a proc_state_scheme \<Rightarrow> (uint list \<times> uint \<times> 'a proc_state_scheme) res" where
  "push_args [] ptr s = Ok ([], ptr, s)"
| "push_args (k # ks) ptr s =
     (case ram_strlen k s of
        None \<Rightarrow> Hang
      | Some n \<Rightarrow>
          (let cnt = n + 1; ptr = ptr - of_nat cnt
           in rbind (push_args ks ptr (store_bytes ptr (load_bytes k cnt s) s)) (\<lambda>(ps, p, s).
                Ok (ps @ [ptr], p, s))))"

fun put_pointers :: "uint list \<Rightarrow> uint \<Rightarrow> 'a proc_state_scheme \<Rightarrow> uint \<times> 'a proc_state_scheme" where
  "put_pointers [] ptr s = (ptr, s)"
| "put_pointers (p # ps) ptr s = put_pointers ps (ptr + 4) (store_bytes ptr (enc32 p) s)"

text \<open>
  The count, the pointer to the array, the array and a null pointer, from the even address that is
  returned on.
\<close>

definition put_frame :: "uint list \<Rightarrow> uint \<Rightarrow> 'a proc_state_scheme \<Rightarrow> uint \<times> 'a proc_state_scheme" where
  "put_frame argv ptr s =
     (let argc = of_nat (length argv);
          lowptr = (ptr - (4 + argc * 4) - 2 * 4) AND 0xfffffffe;
          s = store_bytes lowptr (enc32 argc) s;
          ptr = lowptr + 4;
          s = store_bytes ptr (enc32 (ptr + 4)) s;
          (ptr, s) = put_pointers argv (ptr + 4) s
      in (lowptr, store_bytes ptr (enc32 0) s))"

definition exec_stack :: "uint list \<Rightarrow> uint \<Rightarrow> 'a proc_state_scheme \<Rightarrow> (uint \<times> 'a proc_state_scheme) res" where
  "exec_stack kern_argv stk s =
     rbind (push_args (rev kern_argv) stk s) (\<lambda>(argv, ptr, s). Ok (put_frame argv ptr s))"

section \<open>The program\<close>

text \<open>
  The loop reads 512 bytes at a time; \<open>k\<close> bounds the number of reads. A file opened by name is never
  a pipe, so the read does not sleep.
\<close>

fun load_loop :: "nat \<Rightarrow> int \<Rightarrow> uint \<Rightarrow> 'a proc_state_scheme \<Rightarrow> 'a proc_state_scheme res" where
  "load_loop 0 fd ptr s = Hang"
| "load_loop (Suc k) fd ptr s =
     rbind (sys_read fd True 512 s) (\<lambda>(r, s).
       case r of
         Wait _ \<Rightarrow> Fault
       | Ret (cnt, bs) \<Rightarrow>
           if cnt \<le> 0 then Ok s else load_loop k fd (ptr + of_int cnt) (store_bytes ptr bs s))"

text \<open>
  After the header has been checked: the frames, the arguments, the program, the jump. \<open>sp\<close> and \<open>sp2\<close> are the values of the
  stack pointer in \<open>ksbrk\<close> and, on the kernel stack, in \<open>kbrk\<close>.
\<close>

definition exec_start :: "nat \<Rightarrow> uint \<Rightarrow> uint \<Rightarrow> bytes \<Rightarrow> bytes list \<Rightarrow> int \<Rightarrow> aout \<Rightarrow> 'a proc_state_scheme \<Rightarrow> (bool \<times> 'a proc_state_scheme) res" where
  "exec_start k sp sp2 pathname argv fd ahdr s =
     rbind (myproc s) (\<lambda>me.
     let nframes = uint (drop_bit 16 (a_total_size ahdr + 0xffff));
         (base, fl) = allocframes (p_pid (ptable s me)) nframes (frames s); s = s\<lparr>frames := fl\<rparr>
     in if base = -1 then Ok (False, set_errno ENOMEM s)
        else
          (let s = upd_proc me (\<lambda>e. e\<lparr>p_basereg := base, p_nframes := nframes, p_curbrk := a_bss_end ahdr,
                     p_bssend := a_bss_end ahdr, p_name := safestrcpy (p_name e) pathname 16\<rparr>) s;
               cnt = sum_list (map (\<lambda>a. strlen a + 1) argv);
               (oldsbrk, s) = ksbrk sp (of_nat cnt) s
           in if oldsbrk = -1 then Panic ''exec''
              else
                (let (kern_argv, s) = save_args argv oldsbrk s;
                     stk = START_ADDR + (a_total_size ahdr AND 0xfffffffe);
                     s = s\<lparr>basereg := base\<rparr>
                 in rbind (exec_stack kern_argv stk s) (\<lambda>(lowptr, s).
                    let s = snd (kbrk sp2 oldsbrk s)
                    in rbind (sys_lseek fd 0 0 s) (\<lambda>(_, s).
                       rbind (load_loop k fd START_ADDR s) (\<lambda>s.
                       rbind (sys_close fd s) (\<lambda>(_, s).
                         Ok (True, s\<lparr>cpu := (cpu s)\<lparr>c_sp := lowptr, c_pc := START_ADDR\<rparr>\<rparr>))))))))"

definition sys_exec :: "nat \<Rightarrow> uint \<Rightarrow> uint \<Rightarrow> bytes option \<Rightarrow> bytes list \<Rightarrow> 'a proc_state_scheme \<Rightarrow> (bool \<times> 'a proc_state_scheme) res" where
  "sys_exec k sp sp2 pathp argv s =
     (let s = set_errno 0 s; argc = length argv in
      if argc < 1 \<or> argc > MAXARGS then Ok (False, set_errno EFAULT s)
      else
        rbind (sys_open pathp 0 s) (\<lambda>(fd, s).
        if fd = -1 then Ok (False, set_errno ENOENT s)
        else
          rbind (sys_read fd True 20 s) (\<lambda>(r, s).
          case r of
            Wait _ \<Rightarrow> Fault
          | Ret (cnt, bs) \<Rightarrow>
              if cnt \<noteq> 20 then Ok (False, set_errno EINVAL s)
              else if a_magic (decode_aout bs) \<noteq> AOUT_MAGIC then Ok (False, set_errno EINVAL s)
              else (case pathp of None \<Rightarrow> Fault | Some pathname \<Rightarrow> exec_start k sp sp2 pathname argv fd (decode_aout bs) s))))"

section \<open>Memory as the program sees it\<close>

definition mem :: "'a proc_state_scheme \<Rightarrow> nat \<Rightarrow> uchar" where
  "mem s n = ram s (mmu (basereg s) (of_nat n))"

definition region :: "int \<Rightarrow> nat \<Rightarrow> nat \<Rightarrow> uint set" where
  "region b lo hi = (\<lambda>n. mmu b (of_nat n)) ` {lo..<hi}"

definition stored :: "nat \<Rightarrow> nat \<Rightarrow> 'a proc_state_scheme \<Rightarrow> 'a proc_state_scheme \<Rightarrow> bool" where
  "stored lo hi s s' \<longleftrightarrow> (\<exists>r. s' = s\<lparr>ram := r\<rparr> \<and> (\<forall>y. y \<notin> region (basereg s) lo hi \<longrightarrow> r y = ram s y))"

lemma stored_refl [simp]: "stored lo hi s s"
  unfolding stored_def by (intro exI [of _ "ram s"]) simp

lemma stored_base: "stored lo hi s s' \<Longrightarrow> basereg s' = basereg s"
  by (auto simp: stored_def)

lemma region_mono: "lo' \<le> lo \<Longrightarrow> hi \<le> hi' \<Longrightarrow> region b lo hi \<subseteq> region b lo' hi'"
  by (auto simp: region_def)

lemma stored_mono: "stored lo hi s s' \<Longrightarrow> lo' \<le> lo \<Longrightarrow> hi \<le> hi' \<Longrightarrow> stored lo' hi' s s'"
  unfolding stored_def using region_mono [of lo' lo hi hi' "basereg s"] by blast

lemma stored_trans: "stored lo hi s s' \<Longrightarrow> stored lo hi s' s'' \<Longrightarrow> stored lo hi s s''"
  by (force simp: stored_def)

text \<open>Addresses below 2 MB are distinct bytes of the RAM.\<close>

lemma unat_mmu:
  assumes "0 \<le> b" "b \<le> 16" "n < 0x200000"
  shows "unat (mmu b (of_nat n)) = (if n < 0x100000 then n else n + nat b * 65536)"
proof -
  have u: "unat (of_nat n :: uint) = n" using assms(3) by (intro unat_of_nat_small) simp
  then have "(of_nat n < START_ADDR) = (n < 0x100000)" by (simp add: START_ADDR_def word_less_nat_alt)
  then show ?thesis using unat_phys [OF assms(1,2), of "of_nat n"] u assms(3) by (simp add: mmu_def)
qed

lemma mmu_inj:
  assumes "0 \<le> b" "b \<le> 16" "n < 0x200000" "k < 0x200000" "mmu b (of_nat n) = mmu b (of_nat k)"
  shows "n = k"
proof -
  have "(if n < 0x100000 then n else n + nat b * 65536) = (if k < 0x100000 then k else k + nat b * 65536)"
    using unat_mmu [OF assms(1-3)] unat_mmu [OF assms(1,2,4)] unfolding assms(5) by (rule trans [OF sym])
  then show ?thesis by (simp split: if_splits)
qed

lemma mem_frame:
  assumes "stored lo hi s s'" "0 \<le> basereg s" "basereg s \<le> 16" "n < lo \<or> hi \<le> n" "n < 0x200000" "hi \<le> 0x200000"
  shows "mem s' n = mem s n"
proof -
  have "mmu (basereg s) (of_nat n) \<notin> region (basereg s) lo hi"
  proof
    assume "mmu (basereg s) (of_nat n) \<in> region (basereg s) lo hi"
    then obtain k where "k \<in> {lo..<hi}" "mmu (basereg s) (of_nat n) = mmu (basereg s) (of_nat k)" unfolding region_def by blast
    then show False using mmu_inj [OF assms(2,3,5), of k] assms(4,6) by simp
  qed
  then show ?thesis using assms(1) by (auto simp: mem_def stored_def)
qed

lemma store_bytes_spec:
  assumes "0 \<le> basereg s" "basereg s \<le> 16" "a + length bs \<le> 0x200000"
  shows "stored a (a + length bs) s (store_bytes (of_nat a) bs s) \<and>
    (\<forall>i < length bs. mem (store_bytes (of_nat a) bs s) (a + i) = bs ! i)"
  using assms
proof (induction bs arbitrary: a s)
  case (Cons b bs)
  let ?s1 = "s\<lparr>ram := (ram s)(mmu (basereg s) (of_nat a) := b)\<rparr>" and ?s' = "store_bytes (of_nat a) (b # bs) s"
  have eq: "?s' = store_bytes (of_nat (Suc a)) bs ?s1" by (simp add: add.commute)
  have IH: "stored (Suc a) (Suc a + length bs) ?s1 ?s'" "\<And>i. i < length bs \<Longrightarrow> mem ?s' (Suc a + i) = bs ! i"
    using Cons.IH [of ?s1 "Suc a"] Cons.prems unfolding eq by auto
  have "stored a (a + length (b # bs)) s ?s1"
    unfolding stored_def by (rule exI [of _ "(ram s)(mmu (basereg s) (of_nat a) := b)"]) (auto simp: region_def)
  moreover have "stored a (a + length (b # bs)) ?s1 ?s'" by (rule stored_mono [OF IH(1)]) auto
  ultimately have st: "stored a (a + length (b # bs)) s ?s'" by (rule stored_trans)
  have "mem ?s' a = mem ?s1 a" using Cons.prems by (intro mem_frame [OF IH(1)]) auto
  then have "mem ?s' a = b" by (simp add: mem_def)
  then have "mem ?s' (a + i) = (b # bs) ! i" if "i < length (b # bs)" for i using IH(2) that by (cases i) auto
  then show ?case using st by blast
qed simp

lemma load_bytes_mem: "load_bytes (of_nat a) n s = map (mem s) [a..<a + n]"
  by (auto simp: load_bytes_def mem_def intro!: nth_equalityI)

definition cstr_at :: "'a proc_state_scheme \<Rightarrow> nat \<Rightarrow> bytes \<Rightarrow> bool" where
  "cstr_at s a str \<longleftrightarrow> (\<forall>i < length str. mem s (a + i) = str ! i) \<and> mem s (a + length str) = 0 \<and> 0 \<notin> set str"

lemma ram_strlen_at:
  assumes "cstr_at s a str" "length str < 2 ^ 32"
  shows "ram_strlen (of_nat a) s = Some (length str)"
  using assms by (auto simp: ram_strlen_def find_from_Some cstr_at_def mem_def in_set_conv_nth)

lemma cstr_load: "cstr_at s a str \<Longrightarrow> load_bytes (of_nat a) (length str + 1) s = str @ [0]"
  by (rule nth_equalityI) (auto simp: load_bytes_mem cstr_at_def nth_append less_Suc_eq simp del: upt_Suc)

lemma cstr_store:
  assumes "0 \<le> basereg s" "basereg s \<le> 16" "a + length str < 0x200000" "0 \<notin> set str"
  shows "cstr_at (store_bytes (of_nat a) (str @ [0]) s) a str"
proof -
  note sp = store_bytes_spec [OF assms(1,2), of a "str @ [0]"]
  have m: "mem (store_bytes (of_nat a) (str @ [0]) s) (a + i) = (str @ [0]) ! i" if "i \<le> length str" for i
    using sp assms(3) that by simp
  show ?thesis unfolding cstr_at_def using m assms(4) by (auto simp: nth_append)
qed

lemma cstr_frame:
  assumes "cstr_at s a str" "stored lo hi s s'" "0 \<le> basereg s" "basereg s \<le> 16" "a + length str < lo \<or> hi \<le> a" "a + length str < 0x200000" "hi \<le> 0x200000"
  shows "cstr_at s' a str"
proof -
  have "mem s' (a + i) = mem s (a + i)" if "i \<le> length str" for i using mem_frame [OF assms(2-4), of "a + i"] assms(5-7) that by auto
  then show ?thesis using assms(1) by (simp add: cstr_at_def)
qed

section \<open>The argument strings\<close>

definition arg_room :: "bytes list \<Rightarrow> nat" where
  "arg_room strs = sum_list (map (\<lambda>x. length x + 1) strs)"

lemma arg_room_simps [simp]: "arg_room [] = 0" "arg_room (x # xs) = length x + 1 + arg_room xs" "arg_room (rev xs) = arg_room xs"
  by (simp_all add: arg_room_def rev_map [symmetric] sum_list_rev)

definition strs_at :: "'a proc_state_scheme \<Rightarrow> nat \<Rightarrow> nat \<Rightarrow> uint list \<Rightarrow> bytes list \<Rightarrow> bool" where
  "strs_at s lo hi = list_all2 (\<lambda>k str. \<exists>a. k = of_nat a \<and> lo \<le> a \<and> a + length str < hi \<and> cstr_at s a str)"

lemma strs_at_mono: "strs_at s lo hi ks strs \<Longrightarrow> lo' \<le> lo \<Longrightarrow> hi \<le> hi' \<Longrightarrow> strs_at s lo' hi' ks strs"
  unfolding strs_at_def by (erule list_all2_mono) (metis le_trans less_le_trans)

lemma strs_at_frame:
  assumes "strs_at s l h ks strs" "stored lo hi s s'" "0 \<le> basereg s" "basereg s \<le> 16" "h \<le> lo \<or> hi \<le> l" "h \<le> 0x200000" "hi \<le> 0x200000"
  shows "strs_at s' l h ks strs"
proof -
  have "cstr_at s' a str" if "cstr_at s a str" "l \<le> a" "a + length str < h" for a str
    using cstr_frame [OF that(1) assms(2-4)] assms(5-7) that by auto
  then show ?thesis using assms(1) unfolding strs_at_def by (elim list_all2_mono) blast
qed

lemma save_args_spec:
  assumes "0 \<le> basereg s" "basereg s \<le> 16" "\<forall>a \<in> set argv. 0 \<in> set a" "ptr + arg_room (map (takeWhile (\<lambda>c. c \<noteq> 0)) argv) \<le> 0x100000"
    "save_args argv (of_nat ptr) s = (ks, s')"
  shows "strs_at s' ptr (ptr + arg_room (map (takeWhile (\<lambda>c. c \<noteq> 0)) argv)) ks (map (takeWhile (\<lambda>c. c \<noteq> 0)) argv) \<and>
    stored ptr (ptr + arg_room (map (takeWhile (\<lambda>c. c \<noteq> 0)) argv)) s s'"
  using assms
proof (induction argv arbitrary: ptr s ks)
  case Nil
  then show ?case by (simp add: strs_at_def)
next
  case (Cons a as)
  let ?str = "takeWhile (\<lambda>c. c \<noteq> 0) a" and ?R = "arg_room (map (takeWhile (\<lambda>c. c \<noteq> 0)) as)"
  have tk: "take (strlen a + 1) a = ?str @ [0]"
  proof -
    obtain xs ys where a: "a = xs @ 0 # ys" "0 \<notin> set xs" using Cons.prems(3) split_list_first [of 0 a] by auto
    then have "?str = xs" by (induction xs arbitrary: a) auto
    then show ?thesis unfolding strlen_takeWhile by (simp add: a)
  qed
  define s1 where "s1 = store_bytes (of_nat ptr) (?str @ [0]) s"
  define p1 where "p1 = ptr + length ?str + 1"
  have p1: "of_nat ptr + of_nat (strlen a + 1) = (of_nat p1 :: uint)" by (simp add: p1_def strlen_takeWhile)
  obtain ks1 where r: "save_args as (of_nat p1) s1 = (ks1, s')" "ks = of_nat ptr # ks1"
    using Cons.prems(5) unfolding save_args.simps Let_def tk p1 s1_def by (auto split: prod.splits)
  have st: "stored ptr p1 s s1" "cstr_at s1 ptr ?str"
    using store_bytes_spec [OF Cons.prems(1,2), of ptr "?str @ [0]"] cstr_store [OF Cons.prems(1,2), of ptr ?str] Cons.prems(4)
    by (auto simp: s1_def p1_def dest: set_takeWhileD)
  note b1 = stored_base [OF st(1)]
  have I: "strs_at s' p1 (p1 + ?R) ks1 (map (takeWhile (\<lambda>c. c \<noteq> 0)) as)" "stored p1 (p1 + ?R) s1 s'"
    using Cons.IH [OF _ _ _ _ r(1)] Cons.prems(1-4) b1 by (auto simp: p1_def)
  have "cstr_at s' ptr ?str" using cstr_frame [OF st(2) I(2)] b1 Cons.prems(1,2,4) by (simp add: p1_def)
  moreover have "strs_at s' ptr (p1 + ?R) ks1 (map (takeWhile (\<lambda>c. c \<noteq> 0)) as)" by (rule strs_at_mono [OF I(1)]) (simp_all add: p1_def)
  moreover have "stored ptr (p1 + ?R) s s'"
    using stored_trans [OF stored_mono [OF st(1)] stored_mono [OF I(2)]] by (simp add: p1_def)
  ultimately show ?case unfolding r(2) by (auto simp: strs_at_def p1_def add.assoc)
qed

lemma push_args_spec:
  assumes "0 \<le> basereg s" "basereg s \<le> 16" "strs_at s l 0x100000 ks strs" "0x100000 + arg_room strs \<le> q" "q \<le> 0x200000"
  shows "\<exists>ps s'. push_args ks (of_nat q) s = Ok (ps, of_nat (q - arg_room strs), s') \<and>
    strs_at s' (q - arg_room strs) q ps (rev strs) \<and> stored (q - arg_room strs) q s s'"
  using assms
proof (induction ks arbitrary: strs q s)
  case Nil
  then show ?case by (auto simp: strs_at_def)
next
  case (Cons k ks)
  then obtain str rest a where strs: "strs = str # rest" "k = of_nat a" "l \<le> a" "a + length str < 0x100000" "cstr_at s a str"
    and ks: "strs_at s l 0x100000 ks rest" by (auto simp: strs_at_def list_all2_Cons1)
  define p where "p = q - (length str + 1)"
  define s1 where "s1 = store_bytes (of_nat p) (str @ [0]) s"
  have pq: "0x100000 \<le> p" "p + length str + 1 = q" "p - arg_room rest = q - arg_room strs" "0x100000 + arg_room rest \<le> p"
    using Cons.prems(4) by (auto simp: p_def strs(1))
  have nz: "0 \<notin> set str" using strs(5) by (simp add: cstr_at_def)
  have st: "stored p q s s1" "cstr_at s1 p str"
    using store_bytes_spec [OF Cons.prems(1,2), of p "str @ [0]"] cstr_store [OF Cons.prems(1,2) _ nz, of p] Cons.prems(5) pq
    by (auto simp: s1_def)
  note b1 = stored_base [OF st(1)]
  have "strs_at s1 l 0x100000 ks rest" by (rule strs_at_frame [OF ks st(1) Cons.prems(1,2)]) (use pq Cons.prems(5) in auto)
  then obtain ps s' where I: "push_args ks (of_nat p) s1 = Ok (ps, of_nat (q - arg_room strs), s')"
    "strs_at s' (q - arg_room strs) p ps (rev rest)" "stored (q - arg_room strs) p s1 s'"
    using Cons.IH [of s1 rest p] b1 Cons.prems(1,2,5) pq by auto
  have "cstr_at s' p str" using cstr_frame [OF st(2) I(3)] b1 Cons.prems(1,2,5) pq by simp
  moreover have "strs_at s' (q - arg_room strs) q ps (rev rest)" by (rule strs_at_mono [OF I(2)]) (use pq in auto)
  moreover have "q - arg_room strs \<le> p" using pq(3) by linarith
  ultimately have "strs_at s' (q - arg_room strs) q (ps @ [of_nat p]) (rev strs)"
    using pq unfolding strs(1) by (auto simp: strs_at_def intro!: list_all2_appendI)
  moreover have "stored (q - arg_room strs) q s s'"
    by (rule stored_trans [OF stored_mono [OF st(1)] stored_mono [OF I(3)]]) (use pq in auto)
  moreover have "of_nat q - of_nat (length str + 1) = (of_nat p :: uint)" using pq(2) by (metis add.assoc add_diff_cancel_right' of_nat_add)
  then have "push_args (k # ks) (of_nat q) s = Ok (ps @ [of_nat p], of_nat (q - arg_room strs), s')"
    using I(1) ram_strlen_at [OF strs(5)] strs(4) cstr_load [OF strs(5)] by (simp add: strs(2) Let_def s1_def)
  ultimately show ?case by blast
qed

section \<open>The count and the pointers\<close>

definition word_at :: "'a proc_state_scheme \<Rightarrow> nat \<Rightarrow> uint" where
  "word_at s a = be32 (mem s a) (mem s (a + 1)) (mem s (a + 2)) (mem s (a + 3))"

lemma word_store:
  assumes "0 \<le> basereg s" "basereg s \<le> 16" "a + 4 \<le> 0x200000"
  shows "stored a (a + 4) s (store_bytes (of_nat a) (enc32 w) s)" "word_at (store_bytes (of_nat a) (enc32 w) s) a = w"
proof -
  note sp = store_bytes_spec [OF assms(1,2), of a "enc32 w"]
  have m: "mem (store_bytes (of_nat a) (enc32 w) s) (a + i) = enc32 w ! i" if "i < 4" for i using sp assms(3) that by simp
  show "stored a (a + 4) s (store_bytes (of_nat a) (enc32 w) s)" using sp assms(3) by simp
  show "word_at (store_bytes (of_nat a) (enc32 w) s) a = w"
    unfolding word_at_def using m [of 0] m [of 1] m [of 2] m [of 3] be32_nth_enc32 [of w] by simp
qed

lemma word_frame:
  assumes "stored lo hi s s'" "0 \<le> basereg s" "basereg s \<le> 16" "a + 4 \<le> lo \<or> hi \<le> a" "a + 4 \<le> 0x200000" "hi \<le> 0x200000"
  shows "word_at s' a = word_at s a"
proof -
  have "mem s' (a + i) = mem s (a + i)" if "i < 4" for i using mem_frame [OF assms(1-3), of "a + i"] assms(4-6) that by auto
  from this [of 0] this [of 1] this [of 2] this [of 3] show ?thesis by (simp add: word_at_def)
qed

lemma put_pointers_spec:
  assumes "0 \<le> basereg s" "basereg s \<le> 16" "q + 4 * length ps \<le> 0x200000"
  shows "\<exists>s'. put_pointers ps (of_nat q) s = (of_nat (q + 4 * length ps), s') \<and> stored q (q + 4 * length ps) s s' \<and>
    (\<forall>i < length ps. word_at s' (q + 4 * i) = ps ! i)"
  using assms
proof (induction ps arbitrary: q s)
  case (Cons p ps)
  define s1 where "s1 = store_bytes (of_nat q) (enc32 p) s"
  have st: "stored q (q + 4) s s1" "word_at s1 q = p" using word_store [OF Cons.prems(1,2), of q p] Cons.prems(3) by (simp_all add: s1_def)
  note b1 = stored_base [OF st(1)]
  obtain s' where I: "put_pointers ps (of_nat (q + 4)) s1 = (of_nat (q + 4 + 4 * length ps), s')" "stored (q + 4) (q + 4 + 4 * length ps) s1 s'"
    "\<And>i. i < length ps \<Longrightarrow> word_at s' (q + 4 + 4 * i) = ps ! i"
    using Cons.IH [of s1 "q + 4"] b1 Cons.prems by auto
  have "word_at s' q = p" using word_frame [OF I(2)] st(2) b1 Cons.prems by auto
  then have "\<forall>i < length (p # ps). word_at s' (q + 4 * i) = (p # ps) ! i" using I(3) by (auto simp: nth_Cons' less_Suc_eq_0_disj add.assoc)
  moreover have "stored q (q + 4 * length (p # ps)) s s'"
    by (rule stored_trans [OF stored_mono [OF st(1)] stored_mono [OF I(2)]]) auto
  moreover have "put_pointers (p # ps) (of_nat q) s = (of_nat (q + 4 * length (p # ps)), s')"
    using I(1) by (simp add: s1_def algebra_simps)
  ultimately show ?case by blast
qed simp

lemma even_floor: "(of_nat m :: uint) AND 0xfffffffe = of_nat (m - m mod 2)"
proof (rule bit_word_eqI)
  fix n assume "n < LENGTH(32)"
  then have n: "n < 32" by simp
  have m: "m - m mod 2 = push_bit 1 (drop_bit 1 m)" by (simp add: push_bit_eq_mult drop_bit_eq_div minus_mod_eq_div_mult)
  have "(0xfffffffe :: uint) = NOT 1" by simp
  then have "bit ((of_nat m :: uint) AND 0xfffffffe) n = (bit m n \<and> n \<noteq> 0)" using n by (simp only:) (simp add: bit_simps)
  also have "\<dots> = bit (of_nat (m - m mod 2) :: uint) n" 
    using n unfolding m bit_of_nat_iff bit_push_bit_iff_nat bit_drop_bit_eq o_def by (auto simp: Suc_le_eq)
  finally show "bit ((of_nat m :: uint) AND 0xfffffffe) n = bit (of_nat (m - m mod 2) :: uint) n" .
qed

lemma put_frame_spec:
  assumes b: "0 \<le> basereg s" "basereg s \<le> 16" and q: "q \<le> 0x200000" "0x100000 + 4 * length argv + 13 \<le> q"
  defines "low \<equiv> (q - 12 - 4 * length argv) - (q - 12 - 4 * length argv) mod 2"
  shows "\<exists>s'. put_frame argv (of_nat q) s = (of_nat low, s') \<and> stored low q s s' \<and> even low \<and> 0x100000 \<le> low \<and>
    word_at s' low = of_nat (length argv) \<and> word_at s' (low + 4) = of_nat (low + 8) \<and>
    (\<forall>i < length argv. word_at s' (low + 8 + 4 * i) = argv ! i) \<and> word_at s' (low + 8 + 4 * length argv) = 0"
proof -
  let ?n = "length argv"
  have low: "even low" "0x100000 \<le> low" "low + 12 + 4 * ?n \<le> q" using q(2) unfolding low_def by (simp, linarith+)
  have "of_nat q - (4 + of_nat ?n * 4) - 2 * 4 = (of_nat (q - 12 - 4 * ?n) :: uint)" using q(2) by (simp add: of_nat_diff algebra_simps)
  then have lp: "(of_nat q - (4 + of_nat ?n * 4) - 2 * 4) AND 0xfffffffe = (of_nat low :: uint)" unfolding low_def even_floor [symmetric] by simp
  define s1 where "s1 = store_bytes (of_nat low) (enc32 (of_nat ?n)) s"
  define s2 where "s2 = store_bytes (of_nat (low + 4)) (enc32 (of_nat (low + 8))) s1"
  have s1: "stored low (low + 4) s s1" "word_at s1 low = of_nat ?n" using word_store [OF b, of low] low q(1) by (simp_all add: s1_def)
  note b1 = b [folded stored_base [OF s1(1)]]
  have s2: "stored (low + 4) (low + 4 + 4) s1 s2" "word_at s2 (low + 4) = of_nat (low + 8)" using word_store [OF b1, of "low + 4"] low q(1) by (simp_all add: s2_def)
  note b2 = b1 [folded stored_base [OF s2(1)]]
  obtain s3 where s3: "put_pointers argv (of_nat (low + 8)) s2 = (of_nat (low + 8 + 4 * ?n), s3)" "stored (low + 8) (low + 8 + 4 * ?n) s2 s3"
     "\<forall>i < ?n. word_at s3 (low + 8 + 4 * i) = argv ! i" using put_pointers_spec [OF b2, of "low + 8" argv] low q(1) by auto
  note b3 = b2 [folded stored_base [OF s3(2)]]
  define s4 where "s4 = store_bytes (of_nat (low + 8 + 4 * ?n)) (enc32 0) s3"
  have s4: "stored (low + 8 + 4 * ?n) (low + 8 + 4 * ?n + 4) s3 s4" "word_at s4 (low + 8 + 4 * ?n) = 0"
    using word_store [OF b3, of "low + 8 + 4 * ?n"] low q(1) by (simp_all add: s4_def)
  have "stored low q s s4"
    by (intro stored_trans [OF stored_mono [OF s1(1)]] stored_trans [OF stored_mono [OF s2(1)]] stored_trans [OF stored_mono [OF s3(2)]] stored_mono [OF s4(1)])
      (use low in auto)
  moreover have "word_at s4 low = of_nat ?n"
    using word_frame [OF s4(1) b3, of low] word_frame [OF s3(2) b2, of low] word_frame [OF s2(1) b1, of low] s1(2) low q(1) by simp
  moreover have "word_at s4 (low + 4) = of_nat (low + 8)"
    using word_frame [OF s4(1) b3, of "low + 4"] word_frame [OF s3(2) b2, of "low + 4"] s2(2) low q(1) by simp
  moreover have "word_at s4 (low + 8 + 4 * i) = argv ! i" if "i < ?n" for i
    using word_frame [OF s4(1) b3, of "low + 8 + 4 * i"] s3(3) that low q(1) by simp
  moreover have "put_frame argv (of_nat q) s = (of_nat low, s4)"
    using s3(1) unfolding put_frame_def Let_def lp s1_def s2_def s4_def by (simp add: add.assoc)
  ultimately show ?thesis using low s4(2) by blast
qed

section \<open>The stack of the new program\<close>

lemma mem_kernel: "n < 0x100000 \<Longrightarrow> mem (s\<lparr>basereg := b\<rparr>) n = mem s n"
  by (simp add: mem_def mmu_def START_ADDR_def word_less_nat_alt unat_of_nat_small)

lemma region_kernel: "hi \<le> 0x100000 \<Longrightarrow> region b lo hi = region b' lo hi"
  unfolding region_def by (rule image_cong) (simp_all add: mmu_def START_ADDR_def word_less_nat_alt unat_of_nat_small)

lemma strs_at_kernel:
  assumes "strs_at s lo hi ks strs" "hi \<le> 0x100000"
  shows "strs_at (s\<lparr>basereg := b\<rparr>) lo hi ks strs"
proof -
  have "cstr_at (s\<lparr>basereg := b\<rparr>) a str" if "cstr_at s a str" "a + length str < hi" for a str
    using that assms(2) by (simp add: cstr_at_def mem_kernel)
  then show ?thesis using assms(1) unfolding strs_at_def by (elim list_all2_mono) blast
qed

lemma strs_at_nth:
  "strs_at s lo hi ks strs \<Longrightarrow> length ks = length strs \<and> (\<forall>i < length strs. \<exists>a. ks ! i = of_nat a \<and> lo \<le> a \<and> a + length (strs ! i) < hi \<and> cstr_at s a (strs ! i))"
  by (auto simp: strs_at_def list_all2_conv_all_nth)

text \<open>
  C34. The arguments of a new program. They are saved in kernel memory while the old program's memory is still
  mapped, and put on the new stack after the switch of the base register. Then, from an even address
  on, there are the count, the address of the array that follows, one pointer per argument, and
  a null pointer; every pointer leads to a string that is the argument up to its first zero byte,
  above the array and below the top of the stack. No byte of memory changes outside the stack area
  and the kernel's buffer.
\<close>

theorem exec_arguments:
  assumes base: "0 \<le> basereg s" "basereg s \<le> 16" "0 \<le> base" "base \<le> 16"
    and argv: "\<forall>a \<in> set argv. 0 \<in> set a" and strs: "strs = map (takeWhile (\<lambda>c. c \<noteq> 0)) argv"
    and room: "kptr + arg_room strs \<le> 0x100000" "0x100000 + arg_room strs + 4 * length argv + 13 \<le> stk" "stk \<le> 0x200000"
    and sv: "save_args argv (of_nat kptr) s = (ks, s1)"
  shows "\<exists>low s'. exec_stack ks (of_nat stk) (s1\<lparr>basereg := base\<rparr>) = Ok (of_nat low, s') \<and> even low \<and> 0x100000 \<le> low \<and>
    word_at s' low = of_nat (length argv) \<and> word_at s' (low + 4) = of_nat (low + 8) \<and> word_at s' (low + 8 + 4 * length argv) = 0 \<and>
    (\<forall>i < length argv. \<exists>a. word_at s' (low + 8 + 4 * i) = of_nat a \<and> low + 12 + 4 * length argv \<le> a \<and> a + length (strs ! i) < stk \<and>
       cstr_at s' a (strs ! i)) \<and>
    (\<forall>y. y \<notin> region base low stk \<union> region base kptr (kptr + arg_room strs) \<longrightarrow> ram s' y = ram s y)"
proof -
  let ?R = "arg_room strs" and ?s1 = "s1\<lparr>basereg := base\<rparr>" and ?n = "length argv"
  have S: "strs_at s1 kptr (kptr + ?R) ks strs" "stored kptr (kptr + ?R) s s1"
    using save_args_spec [OF base(1,2) argv room(1) [unfolded strs] sv] unfolding strs by auto
  have "strs_at ?s1 kptr 0x100000 ks strs" by (rule strs_at_mono [OF strs_at_kernel [OF S(1) room(1)]]) (use room(1) in auto)
  then have "strs_at ?s1 kptr 0x100000 (rev ks) (rev strs)" unfolding strs_at_def by (simp add: list_all2_rev)
  then obtain ps s2 where P: "push_args (rev ks) (of_nat stk) ?s1 = Ok (ps, of_nat (stk - ?R), s2)" "strs_at s2 (stk - ?R) stk ps strs"
    "stored (stk - ?R) stk ?s1 s2"
    using push_args_spec [of ?s1 kptr "rev ks" "rev strs" stk] base(3,4) room(2,3) by auto
  have b2: "basereg s2 = base" using stored_base [OF P(3)] by simp
  define q where "q = stk - ?R"
  define low where "low = (q - 12 - 4 * length ps) - (q - 12 - 4 * length ps) mod 2"
  have lp: "length ps = ?n" using strs_at_nth [OF P(2)] by (simp add: strs)
  have q: "q \<le> 0x200000" "0x100000 + 4 * length ps + 13 \<le> q" using room lp by (simp_all add: q_def)
  have low: "low + 12 + 4 * ?n \<le> q" using q lp unfolding low_def by linarith
  obtain s' where F: "put_frame ps (of_nat q) s2 = (of_nat low, s')" "stored low q s2 s'" "even low" "0x100000 \<le> low"
    "word_at s' low = of_nat (length ps)" "word_at s' (low + 4) = of_nat (low + 8)"
    "\<forall>i < length ps. word_at s' (low + 8 + 4 * i) = ps ! i" "word_at s' (low + 8 + 4 * length ps) = 0"
    using put_frame_spec [of s2 q ps, folded low_def] b2 base(3,4) q by auto
  have "strs_at s' q stk ps strs"
    by (rule strs_at_frame [OF P(2) [folded q_def] F(2)]) (use b2 base(3,4) room(3) q in auto)
  note N = strs_at_nth [OF this]
  have ptr: "\<exists>a. word_at s' (low + 8 + 4 * i) = of_nat a \<and> low + 12 + 4 * ?n \<le> a \<and> a + length (strs ! i) < stk \<and> cstr_at s' a (strs ! i)" if i: "i < ?n" for i
  proof -
    obtain a where "ps ! i = of_nat a" "q \<le> a" "a + length (strs ! i) < stk" "cstr_at s' a (strs ! i)" using N i lp by auto
    then show ?thesis using F(7) i lp low by (intro exI [of _ a]) auto
  qed
  have "stored low stk ?s1 s'"
    by (rule stored_trans [OF stored_mono [OF P(3)] stored_mono [OF F(2)]]) (use low room(3) in \<open>auto simp: q_def\<close>)
  then have "\<forall>y. y \<notin> region base low stk \<union> region base kptr (kptr + ?R) \<longrightarrow> ram s' y = ram s y"
    using S(2) region_kernel [OF room(1), of base kptr "basereg s"] by (auto simp: stored_def)
  moreover have "exec_stack ks (of_nat stk) ?s1 = Ok (of_nat low, s')" using P(1) F(1) by (simp add: exec_stack_def q_def)
  ultimately show ?thesis using F(3,4,5,6,8) ptr lp by auto
qed

theorem exec_arguments_witness:
  "\<exists>low s'. exec_stack (fst (save_args [[104, 105, 0], [120, 0]] 0x8000 demo_proc)) 0x110000 ((snd (save_args [[104, 105, 0], [120, 0]] 0x8000 demo_proc))\<lparr>basereg := 3\<rparr>) =
     Ok (of_nat low, s') \<and> word_at s' low = 2 \<and> word_at s' (low + 16) = 0 \<and> (\<exists>a. word_at s' (low + 12) = of_nat a \<and> cstr_at s' a [120])"
proof -
  have b: "basereg demo_proc = 0"
    by (simp add: demo_proc_def demo_open_def demo_file_def demo_fs_def demo_kern_def log_state.defs kern_state.defs fs_state.defs file_state.defs proc_state.defs upd_inode_def binit_def)
  let ?argv = "[[104, 105, 0], [120, 0]] :: bytes list" and ?strs = "[[104, 105], [120]] :: bytes list"
  obtain ks s1 where sv: "save_args ?argv (of_nat 0x8000) demo_proc = (ks, s1)" by fastforce
  have h: "0 \<le> basereg demo_proc" "basereg demo_proc \<le> 16" "\<forall>a \<in> set ?argv. 0 \<in> set a" "?strs = map (takeWhile (\<lambda>c. c \<noteq> 0)) ?argv"
    "0x8000 + arg_room ?strs \<le> 0x100000" "0x100000 + arg_room ?strs + 4 * length ?argv + 13 \<le> 0x110000"
    "0 \<le> (3 :: int)" "(3 :: int) \<le> 16" "(0x110000 :: nat) \<le> 0x200000"
    using b by (simp_all add: arg_room_def)
  from exec_arguments [OF h(1,2,7,8,3-6,9) sv] obtain low s' where
    L: "exec_stack ks (of_nat 0x110000) (s1\<lparr>basereg := 3\<rparr>) = Ok (of_nat low, s')" "word_at s' low = of_nat (length ?argv)"
    "word_at s' (low + 8 + 4 * length ?argv) = 0"
    and N: "\<And>i. i < length ?argv \<Longrightarrow> \<exists>a. word_at s' (low + 8 + 4 * i) = of_nat a \<and> cstr_at s' a (?strs ! i)"
    by blast
  have sv': "save_args ?argv 0x8000 demo_proc = (ks, s1)" using sv by (simp del: save_args.simps)
  obtain a where "word_at s' (low + 8 + 4 * Suc 0) = of_nat a" "cstr_at s' a [120]" using N [of "Suc 0"] by auto
  then have "word_at s' (low + 12) = of_nat a \<and> cstr_at s' a [120]" by (simp add: add.assoc)
  then show ?thesis using L unfolding sv' by (intro exI [of _ low] exI [of _ s']) (auto simp: add.assoc)
qed

end
