(* ===== verification/Cprintf.thy ===== *)
theory Cprintf
  imports Prelude
begin

text \<open>
  The kernel's formatted printing (\<open>kern/cprintf.c\<close>): the characters sent to the console. Arguments are 32-bit
  words; \<open>str\<close> gives the characters from an address on. Reading an argument that is not there is undefined.
\<close>

definition digits :: bytes where
  "digits = [48, 49, 50, 51, 52, 53, 54, 55, 56, 57, 97, 98, 99, 100, 101, 102]"

text \<open>The digits as the loop stores them, the lowest first. The callers pass the bases 10 and 16.\<close>

function digit_loop :: "uint \<Rightarrow> uint \<Rightarrow> bytes" where
  "digit_loop base x =
     digits ! unat (x mod base) # (if 2 \<le> base \<and> x div base \<noteq> 0 then digit_loop base (x div base) else [])"
  by auto

termination digit_loop
proof (relation "measure (\<lambda>(b, x). unat x)")
  fix base x :: uint assume a: "2 \<le> base \<and> x div base \<noteq> 0"
  then have b: "2 \<le> unat base" by (simp add: word_le_nat_alt)
  have "x \<noteq> 0" using a by auto
  then have "0 < unat x" by (simp add: unat_gt_0)
  then have "unat x div unat base < unat x" using b by (intro div_less_dividend) auto
  then show "((base, x div base), (base, x)) \<in> measure (\<lambda>(b, x). unat x)" by (simp add: unat_div)
qed simp

definition printint :: "uint \<Rightarrow> uint \<Rightarrow> bool \<Rightarrow> bytes" where
  "printint xx base sig =
     (let neg = sig \<and> sint xx < 0; x = (if neg then - xx else xx);
          buf = digit_loop base x @ (if neg then [45] else [])
      in rev buf)"

fun take_arg :: "uint list \<Rightarrow> (uint \<times> uint list) res" where
  "take_arg [] = Fault"
| "take_arg (a # argp) = Ok (a, argp)"

definition cstring :: "bytes \<Rightarrow> bytes" where "cstring s = takeWhile (\<lambda>c. c \<noteq> 0) s"

text \<open>One conversion, after the \<open>%\<close>.\<close>

definition conversion :: "(uint \<Rightarrow> bytes) \<Rightarrow> uchar \<Rightarrow> uint list \<Rightarrow> (bytes \<times> uint list) res" where
  "conversion str c argp =
     (if c = 99 then rbind (take_arg argp) (\<lambda>(a, argp). Ok ([ucast a], argp))
      else if c = 100 then rbind (take_arg argp) (\<lambda>(a, argp). Ok (printint a 10 True, argp))
      else if c = 120 \<or> c = 112 then rbind (take_arg argp) (\<lambda>(a, argp). Ok (printint a 16 False, argp))
      else if c = 115 then
        rbind (take_arg argp) (\<lambda>(a, argp). Ok (if a = 0 then [40, 110, 117, 108, 108, 41] else cstring (str a), argp))
      else if c = 37 then Ok ([37], argp)
      else Ok ([37, c], argp))"

text \<open>The loop over the format, which ends with a zero byte; the list stands for the pointer \<open>fmt + i\<close>.\<close>

fun cprintf_loop :: "(uint \<Rightarrow> bytes) \<Rightarrow> bytes \<Rightarrow> uint list \<Rightarrow> bytes res" where
  "cprintf_loop str [] argp = Fault"
| "cprintf_loop str (c # fmt) argp =
     (if c = 0 then Ok []
      else if c \<noteq> 37 then rbind (cprintf_loop str fmt argp) (\<lambda>out. Ok (c # out))
      else
        (case fmt of
           [] \<Rightarrow> Fault
         | c # fmt \<Rightarrow>
             if c = 0 then Ok []
             else rbind (conversion str c argp) (\<lambda>(o1, argp).
                  rbind (cprintf_loop str fmt argp) (\<lambda>out. Ok (o1 @ out)))))"

definition cprintf :: "(uint \<Rightarrow> bytes) \<Rightarrow> bytes option \<Rightarrow> uint list \<Rightarrow> bytes res" where
  "cprintf str fmt args = (case fmt of None \<Rightarrow> Panic ''null fmt'' | Some f \<Rightarrow> cprintf_loop str f args)"

section \<open>Numbers\<close>

definition digit_val :: "uchar \<Rightarrow> nat" where
  "digit_val c = (if c < 58 then unat c - 48 else unat c - 87)"

definition numeral_value :: "nat \<Rightarrow> bytes \<Rightarrow> nat" where
  "numeral_value b cs = foldl (\<lambda>a c. a * b + digit_val c) 0 cs"

lemma digit_val_digits: "d < 16 \<Longrightarrow> digit_val (digits ! d) = d"
proof -
  assume "d < 16"
  moreover have "\<forall>d \<in> {0..<16}. digit_val (digits ! d) = d" by code_simp
  ultimately show ?thesis by simp
qed

lemma length_digits [simp]: "length digits = 16" by (simp add: digits_def)

lemma numeral_value_snoc: "numeral_value b (cs @ [c]) = numeral_value b cs * b + digit_val c"
  by (simp add: numeral_value_def)

declare digit_loop.simps [simp del]

lemma digit_loop_props:
  assumes "2 \<le> base" "base \<le> 16"
  shows "numeral_value (unat base) (rev (digit_loop base x)) = unat x \<and> (x \<noteq> 0 \<longrightarrow> digit_val (last (digit_loop base x)) \<noteq> 0) \<and>
    (length (digit_loop base x) = 1 \<or> unat base ^ (length (digit_loop base x) - 1) \<le> unat x) \<and> set (digit_loop base x) \<subseteq> set digits"
  using assms
proof (induction base x rule: digit_loop.induct)
  case (1 base x)
  let ?b = "unat base" and ?m = "unat x mod unat base"
  have b: "2 \<le> ?b" "?b \<le> 16" using 1(2,3) by (simp_all add: word_le_nat_alt)
  have m: "?m < 16" using b mod_less_divisor [of ?b "unat x"] by linarith
  then have dv: "digit_val (digits ! ?m) = ?m" "digits ! ?m \<in> set digits"
    using digit_val_digits by simp_all
  show ?case
  proof (cases "x div base = 0")
    case True
    then have "unat x div ?b = 0" by (metis unat_0 unat_div)
    then have "?m = unat x" using b by (simp add: div_eq_0_iff)
    then show ?thesis using True dv unfolding digit_loop.simps [of base x] by (auto simp: unat_mod numeral_value_def unat_eq_zero)
  next
    case False
    let ?q = "x div base"
    have IH: "numeral_value ?b (rev (digit_loop base ?q)) = unat ?q" "digit_val (last (digit_loop base ?q)) \<noteq> 0"
      "length (digit_loop base ?q) = 1 \<or> ?b ^ (length (digit_loop base ?q) - 1) \<le> unat ?q" "set (digit_loop base ?q) \<subseteq> set digits"
      using 1 False by auto
    have eq: "digit_loop base x = digits ! ?m # digit_loop base ?q" "digit_loop base ?q \<noteq> []"
      using False 1(2) by (subst digit_loop.simps; simp add: unat_mod)+
    have q: "unat ?q = unat x div ?b" "1 \<le> unat ?q" using False by (simp add: unat_div, metis One_nat_def Suc_leI unat_gt_0)
    have "?b ^ length (digit_loop base ?q) \<le> unat x"
    proof -
      have "?b ^ (length (digit_loop base ?q) - 1) \<le> unat ?q" using IH(3) q(2) by auto
      then have "?b ^ (length (digit_loop base ?q) - 1) * ?b \<le> unat ?q * ?b" by simp
      also have "\<dots> \<le> unat x" by (simp add: q(1))
      finally show ?thesis using eq(2) by (metis length_greater_0_conv power_minus_mult)
    qed
    then show ?thesis using IH eq dv q by (simp add: numeral_value_snoc)
  qed
qed

text \<open>At most ten decimal and eight hexadecimal digits, so the 16 bytes of \<open>buf\<close> are enough.\<close>

lemma digit_loop_length:
  assumes "2 \<le> base" "base \<le> 16" "2 ^ 32 \<le> unat base ^ k" "1 \<le> k"
  shows "length (digit_loop base x) \<le> k"
proof (rule ccontr)
  assume c: "\<not> ?thesis"
  have b: "1 \<le> unat base" using assms(1) by (simp add: word_le_nat_alt)
  have "unat base ^ (length (digit_loop base x) - 1) \<le> unat x" using digit_loop_props [OF assms(1,2), of x] c assms(4) by auto
  moreover have "unat base ^ k \<le> unat base ^ (length (digit_loop base x) - 1)" using c b by (intro power_increasing) auto
  ultimately have "2 ^ 32 \<le> unat x" using assms(3) by linarith
  moreover have "unat x < 2 ^ 32" using unsigned_less [of x] by simp
  ultimately show False by linarith
qed

lemma printint_signed:
  "\<exists>ds. printint w 10 True = (if sint w < 0 then [45] else []) @ ds \<and> numeral_value 10 ds = nat \<bar>sint w\<bar> \<and> length ds \<le> 10 \<and> set ds \<subseteq> set digits"
proof -
  let ?x = "if sint w < 0 then - w else w" and ?ds = "\<lambda>x. rev (digit_loop 10 x)"
  have "uint ?x = \<bar>sint w\<bar>"
  proof -
    have r: "- (2 ^ 31) \<le> sint w" "sint w < 2 ^ 31" using sint_greater_eq [of w] sint_lt [of w] by simp_all
    have "(of_int \<bar>sint w\<bar> :: uint) = ?x" by simp
    moreover have "uint (of_int \<bar>sint w\<bar> :: uint) = \<bar>sint w\<bar>" using r by (simp add: uint_word_of_int mod_pos_pos_trivial)
    ultimately show ?thesis by simp
  qed
  then have v: "unat ?x = nat \<bar>sint w\<bar>" by (simp add: unat_eq_nat_uint)
  have "length (digit_loop 10 ?x) \<le> 10" by (rule digit_loop_length) simp_all
  then show ?thesis using digit_loop_props [of 10 ?x] v by (intro exI [of _ "?ds ?x"]) (auto simp: printint_def Let_def)
qed

lemma printint_hex: "numeral_value 16 (printint w 16 False) = unat w \<and> length (printint w 16 False) \<le> 8 \<and> set (printint w 16 False) \<subseteq> set digits"
  using digit_loop_props [of 16 w] digit_loop_length [of 16 8 w] by (simp add: printint_def Let_def)

section \<open>Formats\<close>

text \<open>What a format is made of, and what each piece looks like in the format and on the console.\<close>

datatype piece = Lit uchar | Chr uint | Dec uint | Hex uint | Ptr uint | Str uint | Percent | Unknown uchar

fun piece_fmt :: "piece \<Rightarrow> bytes" where
  "piece_fmt (Lit c) = [c]"
| "piece_fmt (Chr w) = [37, 99]"
| "piece_fmt (Dec w) = [37, 100]"
| "piece_fmt (Hex w) = [37, 120]"
| "piece_fmt (Ptr w) = [37, 112]"
| "piece_fmt (Str w) = [37, 115]"
| "piece_fmt Percent = [37, 37]"
| "piece_fmt (Unknown c) = [37, c]"

fun piece_args :: "piece \<Rightarrow> uint list" where
  "piece_args (Chr w) = [w]"
| "piece_args (Dec w) = [w]"
| "piece_args (Hex w) = [w]"
| "piece_args (Ptr w) = [w]"
| "piece_args (Str w) = [w]"
| "piece_args _ = []"

fun piece_out :: "(uint \<Rightarrow> bytes) \<Rightarrow> piece \<Rightarrow> bytes" where
  "piece_out str (Lit c) = [c]"
| "piece_out str (Chr w) = [ucast w]"
| "piece_out str (Dec w) = printint w 10 True"
| "piece_out str (Hex w) = printint w 16 False"
| "piece_out str (Ptr w) = printint w 16 False"
| "piece_out str (Str w) = (if w = 0 then [40, 110, 117, 108, 108, 41] else cstring (str w))"
| "piece_out str Percent = [37]"
| "piece_out str (Unknown c) = [37, c]"

fun piece_ok :: "piece \<Rightarrow> bool" where
  "piece_ok (Lit c) = (c \<noteq> 0 \<and> c \<noteq> 37)"
| "piece_ok (Unknown c) = (c \<notin> {0, 99, 100, 120, 112, 115, 37})"
| "piece_ok _ = True"

lemma cprintf_piece:
  assumes "piece_ok p"
  shows "cprintf_loop str (piece_fmt p @ fmt) (piece_args p @ argp) = rbind (cprintf_loop str fmt argp) (\<lambda>out. Ok (piece_out str p @ out))"
  using assms by (cases p) (auto simp: conversion_def)



end
