(* ===== verification/Procrefs.thy ===== *)
theory Procrefs
  imports Procprops
begin

text \<open>
  Reference counts of open files across processes: along any interleaving of \<open>open\<close>, \<open>dup\<close>, \<open>close\<close>, \<open>pipe\<close>,
  \<open>fork\<close>, \<open>exit\<close>, \<open>wait\<close> and context switches, the count of a file is the number of descriptors that name it.
\<close>

definition idle :: "proc_ent \<Rightarrow> bool" where
  "idle e \<longleftrightarrow> p_state e = UNUSED \<or> p_state e = ZOMBIE"

definition fd_inv :: "'a file_state_scheme \<Rightarrow> bool" where
  "fd_inv s \<longleftrightarrow> refs_ok (\<lambda>_. 0) s \<and> (\<forall>p < NPROC. idle (ptable s p) \<longrightarrow> (\<forall>fd < NOFILE. p_ofile (ptable s p) fd = None)) \<and>
     (\<forall>p. proc s = Some p \<longrightarrow> \<not> idle (ptable s p))"

section \<open>What a call of the descriptor layer does to the process table\<close>

text \<open>It may change the descriptors of the current process, and wake processes.\<close>

definition tab :: "'a kern_state_scheme \<Rightarrow> 'a kern_state_scheme \<Rightarrow> bool" where
  "tab s s' \<longleftrightarrow> proc s' = proc s \<and>
     (\<forall>i. \<exists>ofs. awake ((ptable s i)\<lparr>p_ofile := ofs\<rparr>) (ptable s' i) \<and> (proc s \<noteq> Some i \<longrightarrow> ofs = p_ofile (ptable s i)))"

lemma tab_woken:
  assumes "tab s t" "woken t s'"
  shows "tab s s'"
  unfolding tab_def
proof (intro conjI allI)
  show "proc s' = proc s" using assms by (simp add: tab_def woken_def)
  fix i
  obtain ofs where "awake ((ptable s i)\<lparr>p_ofile := ofs\<rparr>) (ptable t i)" "proc s \<noteq> Some i \<longrightarrow> ofs = p_ofile (ptable s i)"
    using assms(1) unfolding tab_def by blast
  moreover have "awake (ptable t i) (ptable s' i)" using assms(2) unfolding woken_def by blast
  ultimately show "\<exists>ofs. awake ((ptable s i)\<lparr>p_ofile := ofs\<rparr>) (ptable s' i) \<and> (proc s \<noteq> Some i \<longrightarrow> ofs = p_ofile (ptable s i))"
    using awake_trans by blast
qed

lemma tab_refl: "tab s s"
  unfolding tab_def by (auto intro!: exI [of _ "p_ofile (ptable s _)"])

lemma tab_core: "tab s t \<Longrightarrow> core s' = core t \<Longrightarrow> tab s s'"
  by (blast intro: tab_woken woken_core)

lemma tab_ofile:
  assumes "tab s t" "proc s = Some p"
  shows "tab s (set_ofile fd q p t)"
  unfolding tab_def
proof (intro conjI allI)
  show "proc (set_ofile fd q p t) = proc s" using assms by (simp add: tab_def set_ofile_def)
  fix i
  obtain ofs where o: "awake ((ptable s i)\<lparr>p_ofile := ofs\<rparr>) (ptable t i)" "proc s \<noteq> Some i \<longrightarrow> ofs = p_ofile (ptable s i)"
    using assms(1) unfolding tab_def by blast
  show "\<exists>ofs. awake ((ptable s i)\<lparr>p_ofile := ofs\<rparr>) (ptable (set_ofile fd q p t) i) \<and> (proc s \<noteq> Some i \<longrightarrow> ofs = p_ofile (ptable s i))"
  proof (cases "i = p")
    case True
    have "awake ((ptable s p)\<lparr>p_ofile := (p_ofile (ptable t p))(fd := q)\<rparr>) ((ptable t p)\<lparr>p_ofile := (p_ofile (ptable t p))(fd := q)\<rparr>)"
      using o(1) True by (auto simp: awake_def)
    then show ?thesis using True assms(2) by (intro exI [of _ "(p_ofile (ptable t p))(fd := q)"]) (simp add: set_ofile_def)
  next
    case False
    then show ?thesis using o by (intro exI [of _ ofs]) (simp add: set_ofile_def)
  qed
qed

lemma tab_idle:
  assumes "tab s s'" "proc s = Some p" "\<not> idle (ptable s p)"
  shows "idle (ptable s' i) \<longleftrightarrow> idle (ptable s i)" "idle (ptable s i) \<Longrightarrow> p_ofile (ptable s' i) = p_ofile (ptable s i)"
proof -
  obtain ofs where o: "awake ((ptable s i)\<lparr>p_ofile := ofs\<rparr>) (ptable s' i)" "proc s \<noteq> Some i \<longrightarrow> ofs = p_ofile (ptable s i)"
    using assms(1) unfolding tab_def by blast
  note f = awake_fields [OF o(1)]
  show "idle (ptable s' i) \<longleftrightarrow> idle (ptable s i)" using o(1) by (auto simp: idle_def awake_def)
  show "p_ofile (ptable s' i) = p_ofile (ptable s i)" if "idle (ptable s i)" using f o(2) assms(2,3) that by auto
qed

lemma fd_inv_tab:
  assumes "fd_inv s" "tab s s'" "refs_ok (\<lambda>_. 0) s'"
  shows "fd_inv s'"
proof -
  obtain p where p: "proc s = Some p" "\<not> idle (ptable s p)" using assms(1) by (auto simp: fd_inv_def refs_ok_def)
  have "proc s' = proc s" using assms(2) by (simp add: tab_def)
  then show ?thesis using assms tab_idle [OF assms(2) p] p by (auto simp: fd_inv_def)
qed

section \<open>The calls\<close>

text \<open>If the call returns, its final state satisfies \<open>Q\<close>.\<close>

definition ends :: "('s \<Rightarrow> bool) \<Rightarrow> ('a \<times> 's) res \<Rightarrow> bool" where
  "ends Q m \<longleftrightarrow> (\<forall>a s. m = Ok (a, s) \<longrightarrow> Q s)"

lemma ends_simps [simp]: "ends Q (Ok (a, s)) = Q s" "ends Q Fault" "ends Q Hang" "ends Q (Panic m)"
  by (simp_all add: ends_def)

lemma ends_bind: "ends Q m \<Longrightarrow> (\<And>a s. Q s \<Longrightarrow> ends R (f a s)) \<Longrightarrow> ends R (rbind m (case_prod f))"
  by (auto simp: ends_def)

lemma ends_bind1: "(\<And>s. m = Ok s \<Longrightarrow> Q s) \<Longrightarrow> (\<And>s. Q s \<Longrightarrow> ends R (f s)) \<Longrightarrow> ends R (rbind m f)"
  by (auto simp: ends_def)

lemma ends_if: "(b \<Longrightarrow> ends Q x) \<Longrightarrow> (\<not> b \<Longrightarrow> ends Q y) \<Longrightarrow> ends Q (if b then x else y)"
  by simp

lemma ends_option: "(q = None \<Longrightarrow> ends Q x) \<Longrightarrow> (\<And>a. q = Some a \<Longrightarrow> ends Q (y a)) \<Longrightarrow> ends Q (case q of None \<Rightarrow> x | Some a \<Rightarrow> y a)"
  by (cases q) auto

lemma ends_prod: "(\<And>a b. p = (a, b) \<Longrightarrow> ends Q (y a b)) \<Longrightarrow> ends Q (case_prod y p)"
  by (cases p) auto

lemma ends_Ok: "Q s \<Longrightarrow> ends Q (Ok (a, s))"
  by simp

lemma tab_upd:
  assumes "tab s0 t"
  shows "tab s0 (set_errno e t)" "tab s0 (upd_file f g t)" "tab s0 (upd_pipe p h t)"
  using assms by (auto intro!: tab_woken [OF assms] simp: woken_def set_errno_def upd_file_def upd_pipe_def)

lemma ends_core1:
  assumes "\<And>s'. m = Ok s' \<Longrightarrow> core s' = core t" "tab s0 t" "\<And>s. tab s0 s \<Longrightarrow> ends (tab s0) (f s)"
  shows "ends (tab s0) (rbind m f)"
  by (rule ends_bind1 [where Q = "tab s0"]) (use assms tab_core in blast)+

lemma ends_core2:
  assumes "\<And>a s'. m = Ok (a, s') \<Longrightarrow> core s' = core t" "tab s0 t" "\<And>a s. tab s0 s \<Longrightarrow> ends (tab s0) (f a s)"
  shows "ends (tab s0) (rbind m (case_prod f))"
proof (rule ends_bind)
  show "ends (tab s0) m" unfolding ends_def using assms(1,2) tab_core by blast
qed (rule assms(3))

lemma ends_close: "tab s0 t \<Longrightarrow> (\<And>s. tab s0 s \<Longrightarrow> ends (tab s0) (g s)) \<Longrightarrow> ends (tab s0) (rbind (fileclose f t) g)"
  by (rule ends_bind1 [where Q = "tab s0"]) (blast intro: tab_woken fileclose_woken)+

lemma ends_dup: "tab s0 t \<Longrightarrow> (\<And>s. tab s0 s \<Longrightarrow> ends (tab s0) (g s)) \<Longrightarrow> ends (tab s0) (rbind (filedup f t) g)"
  by (rule ends_bind1 [where Q = "tab s0"]) (auto simp: filedup_def tab_upd split: if_splits)

lemma ends_unlock: "tab s0 t \<Longrightarrow> (\<And>s. tab s0 s \<Longrightarrow> ends (tab s0) (g s)) \<Longrightarrow> ends (tab s0) (rbind (iunlock q t) g)"
  by (rule ends_bind1 [where Q = "tab s0"]) (auto dest: iunlock_core)

lemma ends_myproc: "tab s0 t \<Longrightarrow> (\<And>p. proc s0 = Some p \<Longrightarrow> ends (tab s0) (g p)) \<Longrightarrow> ends (tab s0) (rbind (myproc t) g)"
  by (auto simp: myproc_def tab_def split: option.splits)

lemma ends_argfd: "tab s0 t \<Longrightarrow> ends (tab s0) (argfd fd t)"
  by (auto simp: argfd_def tab_upd myproc_def ends_def split: if_splits option.splits)

lemma ends_fdalloc:
  assumes "tab s0 t"
  shows "ends (tab s0) (fdalloc f t)"
proof -
  have "tab s0 (upd_proc p (\<lambda>e. e\<lparr>p_ofile := u\<rparr>) t)"
    if p: "proc s0 = Some p" and a: "alloc_slot (\<lambda>e. e = None) (\<lambda>_. Some f) NOFILE (p_ofile (ptable t p)) = Some (fd, u)" for p fd u
  proof -
    have "u = (p_ofile (ptable t p))(fd := Some f)" using a by (auto simp: alloc_slot_def split: option.splits)
    then have "upd_proc p (\<lambda>e. e\<lparr>p_ofile := u\<rparr>) t = set_ofile fd (Some f) p t" by (simp add: set_ofile_def upd_proc_def)
    then show ?thesis using tab_ofile [OF assms p] by simp
  qed
  then show ?thesis unfolding fdalloc_def by (intro ends_myproc [OF assms] ends_option ends_prod ends_Ok tab_upd [OF assms]) auto
qed

lemma tab_filealloc: "tab s0 t \<Longrightarrow> filealloc t = (r, s') \<Longrightarrow> tab s0 s'"
  by (auto simp: filealloc_def tab_def split: option.splits)

lemma ends_fs:
  assumes "tab s0 t" "\<And>s. tab s0 s \<Longrightarrow> ends (tab s0) (f s)"
  shows "ends (tab s0) (rbind (begin_op t) f)" "ends (tab s0) (rbind (end_op t) f)" "ends (tab s0) (rbind (iunlockput ip t) f)"
    "ends (tab s0) (rbind (ilock q t) f)" "ends (tab s0) (rbind (if b then itrunc ip t else Ok t) f)"
  using assms by (auto intro: ends_core1 dest: begin_op_core end_op_core iunlockput_core ilock_core itrunc_core)

lemma ends_names:
  assumes "tab s0 t" "\<And>a s. tab s0 s \<Longrightarrow> ends (tab s0) (f a s)"
  shows "ends (tab s0) (rbind (namei path t) (case_prod f))" "ends (tab s0) (rbind (create path ty ma mi t) (case_prod f))"
  using assms by (auto intro: ends_core2 dest: namei_core create_core)

lemmas ends_rules = ends_fs ends_names ends_unlock ends_if ends_option ends_prod ends_Ok ends_close ends_dup ends_myproc ends_bind [OF ends_argfd] ends_bind [OF ends_fdalloc]

lemma ends_open_slot:
  assumes "tab s0 t"
  shows "ends (tab s0) (open_slot t)"
proof -
  obtain r s' where r: "filealloc t = (r, s')" by fastforce
  show ?thesis unfolding open_slot_def r using tab_filealloc [OF assms r] by (cases r) (auto intro!: ends_rules)
qed

lemma ends_open_fill: "tab s0 t \<Longrightarrow> ends (tab s0) (open_fill ty q omode f fd t)"
  by (auto simp: open_fill_def Let_def tab_upd split: option.splits)

lemma ends_find_inode:
  assumes "tab s0 t"
  shows "ends (tab s0)
    (if omode AND O_CREATE \<noteq> 0 then
       rbind (create path T_FILE 0 0 t) (\<lambda>(r, s).
       case r of
         None \<Rightarrow> rbind (end_op s) (\<lambda>s. Ok (None, set_errno EEXIST s))
       | Some ip \<Rightarrow> Ok (Some ip, s))
     else
       rbind (namei path t) (\<lambda>(r, s).
       case r of
         None \<Rightarrow> rbind (end_op s) (\<lambda>s. Ok (None, set_errno ENOENT s))
       | Some ip \<Rightarrow>
           rbind (ilock (Some ip) s) (\<lambda>s.
           if i_type (icache s ip) = T_DIR \<and> omode \<noteq> 0 then
             rbind (iunlockput ip s) (\<lambda>s. rbind (end_op s) (\<lambda>s. Ok (None, set_errno EISDIR s)))
           else Ok (Some ip, s))))"
  using assms by (auto intro!: ends_rules tab_upd split del: if_split)

lemma ends_sys_open: "tab s0 t \<Longrightarrow> ends (tab s0) (sys_open pathp omode t)"
  unfolding sys_open_def Let_def
  by (auto intro!: ends_rules ends_bind [OF ends_open_slot] ends_bind [OF ends_find_inode] ends_open_fill tab_upd split del: if_split)

lemma ends_sys_dup: "tab s0 t \<Longrightarrow> ends (tab s0) (sys_dup fd t)"
  unfolding sys_dup_def by (intro ends_rules tab_upd; assumption)

lemma ends_sys_close: "tab s0 t \<Longrightarrow> ends (tab s0) (sys_close fd t)"
  unfolding sys_close_def by (intro ends_rules tab_upd tab_ofile; assumption)

lemma tab_palloc: "tab s0 t \<Longrightarrow> palloc t = (r, s') \<Longrightarrow> tab s0 s'"
  by (auto simp: palloc_def tab_def split: option.splits)

lemma ends_close_opt: "tab s0 t \<Longrightarrow> (\<And>s. tab s0 s \<Longrightarrow> ends (tab s0) (g s)) \<Longrightarrow> ends (tab s0) (rbind (close_opt f t) g)"
  by (cases f) (auto simp: close_opt_def intro: ends_close)

lemma ends_pipealloc:
  assumes "tab s0 t"
  shows "ends (tab s0) (pipealloc t)"
  unfolding pipealloc_def pipealloc_bad_def
  by (auto split: option.splits prod.splits intro!: ends_close_opt tab_upd dest: tab_filealloc [OF assms] tab_filealloc tab_palloc)

lemma ends_sys_pipe: "tab s0 t \<Longrightarrow> ends (tab s0) (sys_pipe nn t)"
  unfolding sys_pipe_def
  by (auto intro!: ends_if ends_option ends_Ok ends_bind [OF ends_pipealloc] ends_bind [OF ends_fdalloc] ends_bind [where Q = "tab s0" and m = "if _ then _ else _"]
      ends_fdalloc ends_myproc ends_close tab_upd tab_ofile split del: if_split split: if_splits)

section \<open>Fork, exit, wait and switches\<close>

lemma fork_files_refs:
  assumes "fork_files me np is s = Ok s'" "refs_ok d s" "np < NPROC" "np \<noteq> me" "distinct is" "\<forall>i \<in> set is. i < NOFILE \<and> ofiles s np i = None"
  shows "refs_ok d s'"
  using assms
proof (induction "is" arbitrary: s)
  case (Cons i "is")
  show ?case
  proof (cases "p_ofile (ptable s me) i")
    case None
    then show ?thesis using Cons by simp
  next
    case (Some f)
    then obtain t where t: "filedup f s = Ok t" "fork_files me np is (set_ofile i (Some f) np t) = Ok s'" using Cons.prems(1) by auto
    have o: "ofiles t = ofiles s" using t(1) by (auto simp: filedup_def split: if_splits)
    have "refs_ok (d(f := d f + 1)) t" by (rule refs_filedup [OF t(1) Cons.prems(2)])
    then have "refs_ok d (set_ofile i (Some f) np t)"
      using refs_store [of "d(f := d f + 1)" t np i f] Cons.prems(3,6) o by simp
    moreover have "\<forall>k \<in> set is. k < NOFILE \<and> ofiles (set_ofile i (Some f) np t) np k = None"
      using Cons.prems(5,6) o by (auto simp: ofiles_set)
    ultimately show ?thesis using Cons.IH [OF t(2)] Cons.prems(3-5) by simp
  qed
qed simp

lemma sys_fork_inv:
  assumes "sys_fork fr sp1 sp2 s = Ok (pid, s')" "fd_inv s"
  shows "fd_inv s'"
proof -
  obtain me where me: "proc s = Some me" "\<not> idle (ptable s me)" using assms(2) by (auto simp: fd_inv_def refs_ok_def)
  then have st: "p_state (ptable s me) \<noteq> UNUSED" by (simp add: idle_def)
  from assms(1) me(1) st show ?thesis
  proof (cases rule: sys_fork_cases)
    case fail
    have "p_ofile (ptable s' i) = p_ofile (ptable s i)" for i using fail(2) by (simp add: fview_def ofiles_def fun_eq_iff)
    then show ?thesis using assms(2) refs_ok_fview [OF fail(2)] fail(2,3) by (simp add: fd_inv_def idle_def fview_def)
  next
    case (child np c fl u v w)
    have s': "fview s' = fview w" "ptable s' = ptable u" using child(7,19) by (simp_all add: copyaddrspace_def Let_def fview_def ofiles_def fun_eq_iff)
    have "idle (ptable s np)" using child(3) by (simp add: idle_def)
    then have "\<forall>i < NOFILE. ofiles v np i = None" using child(1,18) assms(2) by (simp add: fd_inv_def fview_def ofiles_def fun_eq_iff)
    moreover have "refs_ok (\<lambda>_. 0) v" using assms(2) refs_ok_fview [OF child(18)] by (simp add: fd_inv_def)
    ultimately have r: "refs_ok (\<lambda>_. 0) s'" using fork_files_refs [OF child(17)] child(1,2) refs_ok_fview [OF s'(1)] by auto
    have p: "proc s' = Some me" using child(7,18,19) me(1) fork_files_frame [OF child(17)] by (auto simp: copyaddrspace_def Let_def fview_def)
    have "\<not> idle (ptable s' np)" using child(14) s'(2) by (simp add: idle_def)
    moreover have "ptable s' i = ptable s i" if "i \<noteq> np" for i using child(10) that s'(2) by simp
    ultimately show ?thesis using r p me assms(2) child(2) unfolding fd_inv_def by (metis option.inject)
  qed
qed

lemma exit_files_refs:
  assumes "exit_files me fs s = Ok s'" "refs_ok d s" "me < NPROC" "\<forall>fd \<in> set fs. fd < NOFILE"
  shows "refs_ok d s'"
  using assms
proof (induction fs arbitrary: s)
  case (Cons fd fs)
  show ?case
  proof (cases "p_ofile (ptable s me) fd")
    case None
    then show ?thesis using Cons by simp
  next
    case (Some f)
    then obtain t where t: "fileclose f s = Ok t" "exit_files me fs (set_ofile fd None me t) = Ok s'" using Cons.prems(1) by auto
    note c = refs_fileclose [OF t(1) Cons.prems(2)]
    then have "ofiles t me fd = Some f" using Some by (simp add: ofiles_def)
    then have "refs_ok d (set_ofile fd None me t)"
      using refs_clear [of "d(f := d f - 1)" t me fd f] c Cons.prems(3,4) by simp
    then show ?thesis using Cons.IH [OF t(2)] Cons.prems(3,4) by simp
  qed
qed simp

text \<open>Nothing but the process table and the frames is touched after the files are closed.\<close>

lemma sys_exit_files:
  assumes "sys_exit v s = Ok s'" "proc s = Some me"
  obtains t where "exit_files me [0..<NOFILE] (upd_proc me (\<lambda>e. e\<lparr>p_exitstatus := v\<rparr>) s) = Ok t" "ftable s' = ftable t"
proof -
  have ab: "ftable (abandon me ps u) = ftable u" for ps and u :: "'a file_state_scheme"
    by (induction ps arbitrary: u) (auto simp: Let_def wakeup_proc_def wakeup1_def upd_proc_def split: option.splits)
  have sc: "ftable u' = ftable u" if "scheduler u = Ok u'" for u u' :: "'a file_state_scheme"
    using that by (auto simp: scheduler_def myproc_def Let_def swtch_def upd_proc_def split: option.splits)
  obtain t where t: "exit_files me [0..<NOFILE] (upd_proc me (\<lambda>e. e\<lparr>p_exitstatus := v\<rparr>) s) = Ok t"
    and r: "scheduler (upd_proc me (\<lambda>e. e\<lparr>p_state := ZOMBIE\<rparr>) (abandon me [0..<NPROC]
        (wakeup_proc (p_parent (ptable t me)) (upd_proc me (\<lambda>e. e\<lparr>p_cwd := None\<rparr>) (t\<lparr>frames := freeframes (p_pid (ptable t me)) (frames t)\<rparr>))))) = Ok s'"
    using assms by (auto simp: sys_exit_def myproc_def Let_def split: if_splits)
  have "ftable s' = ftable t"
    using sc [OF r] ab by (simp add: upd_proc_def wakeup_proc_def wakeup1_def split: option.splits)
  then show ?thesis using that t by blast
qed

lemma sys_exit_inv:
  assumes o: "sys_exit v s = Ok s'" and inv: "fd_inv s" and me: "proc s = Some me" "p_state (ptable s me) = RUNNING" "p_parent (ptable s me) \<noteq> Some me"
  shows "fd_inv s'"
proof -
  have ex: "exited v me s s'" by (rule sys_exit_spec [OF o me])
  have mp: "me < NPROC" using inv me(1) by (auto simp: fd_inv_def refs_ok_def)
  let ?s1 = "upd_proc me (\<lambda>e. e\<lparr>p_exitstatus := v\<rparr>) s"
  obtain t where t: "exit_files me [0..<NOFILE] ?s1 = Ok t" "ftable s' = ftable t" by (rule sys_exit_files [OF o me(1)])
  have "fview ?s1 = fview s" by (auto simp: fview_def ofiles_def upd_proc_def fun_eq_iff)
  then have "refs_ok (\<lambda>_. 0) ?s1" using inv refs_ok_fview by (auto simp: fd_inv_def)
  then have rt: "refs_ok (\<lambda>_. 0) t" using exit_files_refs [OF t(1)] mp by simp
  have ot: "ofiles t i fd = (if i = me then None else ofiles s i fd)" if "fd < NOFILE" for i fd
  proof (cases "i = me")
    case True
    then show ?thesis using exit_files_spec [OF t(1)] that by (auto simp: ofiles_def dest!: awake_fields)
  next
    case False
    then have "awake (ptable ?s1 i) (ptable t i)" using exit_files_spec [OF t(1)] by blast
    from awake_fields [OF this] show ?thesis using False by (simp add: ofiles_def)
  qed
  have os: "ofiles s' i fd = (if i = me then None else ofiles s i fd)" if "i < NPROC" "fd < NOFILE" for i fd
    using exitedD(1,2) [OF ex] that by (simp add: ofiles_def)
  have "fds (ofiles s') f = fds (ofiles t) f" for f using ot os by (auto simp: fds_def)
  moreover obtain q where q: "q < NPROC" "proc s' = Some q" "p_state (ptable s' q) = RUNNING" using exitedD(4) [OF ex] by blast
  ultimately have r: "refs_ok (\<lambda>_. 0) s'" using rt t(2) by (simp add: refs_ok_def)
  have "p_ofile (ptable s' i) fd = None" if i: "i < NPROC" "idle (ptable s' i)" "fd < NOFILE" for i fd
  proof (cases "i = me")
    case True
    then show ?thesis using exitedD(1) [OF ex] i by simp
  next
    case False
    have "idle (ptable s i)"
      using exitedD(3) [OF ex, of i UNUSED] exitedD(3) [OF ex, of i ZOMBIE] i False by (simp add: idle_def)
    then show ?thesis using os [of i fd] i False inv by (simp add: fd_inv_def ofiles_def)
  qed
  then show ?thesis using r q by (auto simp: fd_inv_def idle_def)
qed

lemma scheduler_inv:
  assumes "scheduler s = Ok s'" "refs_ok d s" "\<forall>p < NPROC. idle (ptable s p) \<longrightarrow> (\<forall>fd < NOFILE. p_ofile (ptable s p) fd = None)" "d = (\<lambda>_. 0)"
  shows "fd_inv s'"
proof -
  obtain q where q: "q < NPROC" "p_state (ptable s q) = RUNNABLE" "proc s' = Some q"
    "\<And>i. \<exists>c. ptable s' i = (ptable s i)\<lparr>p_state := if i = q then RUNNING else p_state (ptable s i), p_context := c\<rparr>"
    using scheduler_switch [OF assms(1)] by metis
  have e: "p_ofile (ptable s' i) = p_ofile (ptable s i)" "p_state (ptable s' i) = (if i = q then RUNNING else p_state (ptable s i))" for i
    using q(4) [of i] by auto
  have "ftable s' = ftable s"
    using assms(1) by (auto simp: scheduler_def myproc_def Let_def swtch_def upd_proc_def split: option.splits)
  moreover have "ofiles s' = ofiles s" using e(1) by (simp add: ofiles_def fun_eq_iff)
  ultimately have "refs_ok (\<lambda>_. 0) s'" using assms(2,4) q(1,3) by (simp add: refs_ok_def)
  then show ?thesis using assms(3) e q by (auto simp: fd_inv_def idle_def)
qed

lemma sleep_inv:
  assumes "sleep ch s = Ok s'" "fd_inv s"
  shows "fd_inv s'"
proof -
  obtain p where p: "proc s = Some p" "p < NPROC" using assms(2) by (auto simp: fd_inv_def refs_ok_def)
  let ?s1 = "upd_proc p (\<lambda>q. q\<lparr>p_chan := Some ch, p_state := SLEEPING\<rparr>) s"
  have sch: "scheduler ?s1 = Ok s'" using assms(1) p by (simp add: sleep_def)
  have v: "fview ?s1 = fview s" by (auto simp: fview_def ofiles_def upd_proc_def fun_eq_iff)
  show ?thesis
    by (rule scheduler_inv [OF sch]) (use assms(2) refs_ok_fview [OF v] in \<open>auto simp: fd_inv_def idle_def\<close>)
qed

lemma sys_wait_inv:
  assumes "sys_wait nn s = Ok (r, s')" "fd_inv s"
  shows "fd_inv s'"
proof -
  obtain me where me: "proc s = Some me" "\<not> idle (ptable s me)" using assms(2) by (auto simp: fd_inv_def refs_ok_def)
  consider (reap) p where "p_state (ptable s p) = ZOMBIE"
      "s' = upd_proc p (\<lambda>e. e\<lparr>p_state := UNUSED, p_pid := 0, p_parent := None, p_name := (p_name e)[0 := 0], p_killed := False\<rparr>) s"
    | (none) "s' = s" | (sleep) "sleep (ChProc me) s = Ok s'"
  proof (cases "find_from (\<lambda>i. p_parent (ptable s i) = Some me \<and> p_state (ptable s i) = ZOMBIE) 0 NPROC")
    case None
    then show ?thesis using assms(1) me(1) that(2,3) by (auto simp: sys_wait_def myproc_def split: if_splits)
  next
    case (Some p)
    then have "p_state (ptable s p) = ZOMBIE" by (simp add: find_from_Some)
    then show ?thesis using assms(1) me(1) Some that(1) [of p] by (simp add: sys_wait_def myproc_def Let_def)
  qed
  then show ?thesis
  proof cases
    case reap
    then have v: "fview s' = fview s" by (auto simp: fview_def ofiles_def upd_proc_def fun_eq_iff)
    have "idle (ptable s' i) = idle (ptable s i)" "p_ofile (ptable s' i) = p_ofile (ptable s i)" for i using reap by (auto simp: idle_def)
    then show ?thesis using assms(2) refs_ok_fview [OF v] v by (simp add: fd_inv_def fview_def)
  next
    case sleep
    then show ?thesis using sleep_inv assms(2) by blast
  qed (use assms(2) in simp)
qed

section \<open>All interleavings\<close>

text \<open>
  The steps: the descriptor calls, \<open>fork\<close>, \<open>exit\<close> of a running process that is not its own parent, \<open>wait\<close>, and
  sleeping and waking anywhere in the kernel.
\<close>

inductive fd_step :: "'a proc_state_scheme \<Rightarrow> 'a proc_state_scheme \<Rightarrow> bool" where
  st_open: "sys_open path omode s = Ok (r, s') \<Longrightarrow> fd_step s s'"
| st_dup: "sys_dup fd s = Ok (r, s') \<Longrightarrow> fd_step s s'"
| st_close: "sys_close fd s = Ok (r, s') \<Longrightarrow> fd_step s s'"
| st_pipe: "sys_pipe nn s = Ok (rr, s') \<Longrightarrow> fd_step s s'"
| st_fork: "sys_fork fr sp1 sp2 s = Ok (r, s') \<Longrightarrow> fd_step s s'"
| st_exit: "proc s = Some p \<Longrightarrow> p_state (ptable s p) = RUNNING \<Longrightarrow> p_parent (ptable s p) \<noteq> Some p \<Longrightarrow> sys_exit v s = Ok s' \<Longrightarrow> fd_step s s'"
| st_wait: "sys_wait nn s = Ok (rw, s') \<Longrightarrow> fd_step s s'"
| st_sleep: "sleep ch s = Ok s' \<Longrightarrow> fd_step s s'"
| st_wakeup: "fd_step s (wakeup ch s)"

inductive_cases fd_stepE: "fd_step s s'"

lemma fd_step_inv:
  assumes "fd_step s s'" "fd_inv s"
  shows "fd_inv s'"
proof -
  have r: "refs_ok (\<lambda>_. 0) s" using assms(2) by (simp add: fd_inv_def)
  from assms(1) show ?thesis
  proof cases
    case (st_open path omode r)
    then show ?thesis using fd_inv_tab [OF assms(2)] ends_sys_open [OF tab_refl] sys_open_refs [OF _ r] by (metis ends_def)
  next
    case (st_dup fd r)
    then show ?thesis using fd_inv_tab [OF assms(2)] ends_sys_dup [OF tab_refl] sys_dup_refs [OF _ r] by (metis ends_def)
  next
    case (st_close fd r)
    then show ?thesis using fd_inv_tab [OF assms(2)] ends_sys_close [OF tab_refl] sys_close_refs [OF _ r] by (metis ends_def)
  next
    case (st_pipe nn rr)
    then show ?thesis using fd_inv_tab [OF assms(2)] ends_sys_pipe [OF tab_refl] sys_pipe_refs [OF _ r] by (metis ends_def)
  next
    case (st_wakeup ch)
    have "refs_ok (\<lambda>_. 0) (wakeup ch s)" using r refs_ok_fview [OF fview_wakeup] by blast
    then show ?thesis using fd_inv_tab [OF assms(2) tab_woken [OF tab_refl woken_wakeup]] st_wakeup by blast
  qed (use assms(2) sys_fork_inv sys_exit_inv sys_wait_inv sleep_inv in blast)+
qed

text \<open>
  C36. Reference counts of open files. From a state in which every count is right, after any
  sequence of \<open>open\<close>, \<open>dup\<close>, \<open>close\<close>, \<open>pipe\<close>, \<open>fork\<close>, \<open>exit\<close> and \<open>wait\<close> by any processes, with context switches in
  between, the count of every open file is the number of descriptors of all processes that name it,
  and unused and dead processes have none. So a file named by a descriptor has a positive count and its duplication does
  not panic: no file is freed while a process can reach it, and none is kept when nobody can.
\<close>

theorem file_references:
  assumes "fd_step\<^sup>*\<^sup>* s s'" "fd_inv s"
  shows "fd_inv s' \<and> (\<forall>f. f_ref (ftable s' f) = int (card {(p, fd). p < NPROC \<and> fd < NOFILE \<and> p_ofile (ptable s' p) fd = Some f})) \<and>
    (\<forall>p fd f. p < NPROC \<and> fd < NOFILE \<and> p_ofile (ptable s' p) fd = Some f \<longrightarrow>
       f_ref (ftable s' f) \<ge> 1 \<and> (\<exists>t. filedup f s' = Ok t) \<and> (f_ref (ftable s' f) > 1 \<longrightarrow> (\<exists>t. fileclose f s' = Ok t)))"
proof -
  have inv: "fd_inv s'" using assms by (induction rule: rtranclp_induct) (auto intro: fd_step_inv)
  then have c: "f_ref (ftable s' f) = int (card (fds (ofiles s') f))" for f by (simp add: fd_inv_def refs_ok_def)
  have pos: "f_ref (ftable s' f) \<ge> 1" if "p < NPROC" "fd < NOFILE" "p_ofile (ptable s' p) fd = Some f" for p fd f
  proof -
    have "(p, fd) \<in> fds (ofiles s') f" using that by (simp add: fds_def ofiles_def)
    then have "card (fds (ofiles s') f) > 0" using card_gt_0_iff [of "fds (ofiles s') f"] by auto
    then show ?thesis using c [of f] by simp
  qed
  have ok: "\<exists>t. filedup f s' = Ok t" "f_ref (ftable s' f) > 1 \<longrightarrow> (\<exists>t. fileclose f s' = Ok t)" if "f_ref (ftable s' f) \<ge> 1" for f
    using that by (simp_all add: filedup_def fileclose_def Let_def)
  have "f_ref (ftable s' f) = int (card {(p, fd). p < NPROC \<and> fd < NOFILE \<and> p_ofile (ptable s' p) fd = Some f})" for f
    using c [of f] unfolding fds_def ofiles_def .
  then show ?thesis using inv pos ok by blast
qed

text \<open>No process has a file open; process 1 forks.\<close>

definition demo_idle :: proc_state where
  "demo_idle = demo_proc\<lparr>ftable := (\<lambda>f. (ftable demo_proc f)\<lparr>f_ref := 0\<rparr>)\<rparr>"

lemma demo_idle_inv: "fd_inv demo_idle"
proof -
  have "fds (ofiles demo_idle) f = {}" for f
    by (auto simp: fds_def ofiles_def demo_idle_def demo_proc_simps)
  then show ?thesis
    by (auto simp: fd_inv_def refs_ok_def demo_idle_def demo_proc_simps NPROC_def idle_def)
qed

theorem file_references_witness: "\<exists>s'. sys_fork 0x2000 0x11fff0 0x11ff00 demo_idle = Ok (3, s') \<and> fd_inv s'"
proof -
  have "find_from (\<lambda>i. p_state (ptable demo_idle i) = UNUSED) 0 NPROC = Some 2"
    by (auto simp: find_from_Some demo_idle_def demo_proc_simps NPROC_def)
  then have "allocproc demo_idle = (Some 2, (upd_proc 2 (\<lambda>e. e\<lparr>p_state := EMBRYO, p_pid := 3\<rparr>) demo_idle)\<lparr>nextpid := 4\<rparr>)"
    by (simp add: allocproc_def alloc_slot_def upd_proc_def demo_idle_def demo_proc_simps(4))
  moreover have "allocframes 3 2 ([1, 1, 0, 2] @ replicate 12 0) = (4, [1, 1, 0, 2, 3, 3] @ replicate 10 0)" by code_simp
  ultimately obtain s' where s': "sys_fork 0x2000 0x11fff0 0x11ff00 demo_idle = Ok (3, s')"
    by (simp add: sys_fork_def demo_proc_simps demo_idle_def Let_def myproc_def fork_files_none fork_entry_def idup_def copyaddrspace_def upd_inode_def upd_proc_def)
  then have "fd_step\<^sup>*\<^sup>* demo_idle s'" by (blast intro: st_fork)
  from file_references [OF this demo_idle_inv] s' show ?thesis by blast
qed

end
