(* ===== verification/Boot.thy ===== *)
theory Boot
  imports Exec Procrefs
begin

text \<open>
  Starting the machine: \<open>kern/kinit.c\<close>, the two block devices (\<open>kern/usbblk.c\<close>, \<open>kern/sdblk.c\<close>) and \<open>kern/main.c\<close>. The routines of
  the SD card are in the firmware and of the CH375 in the hardware: they are arguments here. The greetings the
  code prints are left out.
\<close>

section \<open>Before main\<close>

text \<open>\<open>__kinit\<close> writes zero words as long as the pointer is below the end of the bss.\<close>

function zero_words :: "nat \<Rightarrow> nat \<Rightarrow> (uint \<Rightarrow> uchar) \<Rightarrow> uint \<Rightarrow> uchar" where
  "zero_words dst bend r =
     (if dst < bend then
        zero_words (dst + 4) bend (r(of_nat dst := 0, of_nat (dst + 1) := 0, of_nat (dst + 2) := 0, of_nat (dst + 3) := 0))
      else r)"
  by auto

termination zero_words by (relation "measure (\<lambda>(d, e, r). e - d)") auto

definition kinit :: "nat \<Rightarrow> nat \<Rightarrow> 'a proc_state_scheme \<Rightarrow> 'a proc_state_scheme" where
  "kinit bss_start bss_end s = s\<lparr>ram := zero_words bss_start bss_end (ram s)\<rparr>"

definition MAX_CXA_ATEXITS :: nat where "MAX_CXA_ATEXITS = 1024"

record 'f atexit_entry =
  ae_func :: 'f
  ae_ptr :: uint
  ae_dso :: uint
  ae_done :: bool

text \<open>The entries in use, in order; their number is \<open>cxa_atexit_count\<close>.\<close>

definition cxa_atexit :: "'f \<Rightarrow> uint \<Rightarrow> uint \<Rightarrow> 'f atexit_entry list \<Rightarrow> int \<times> 'f atexit_entry list" where
  "cxa_atexit f p d es =
     (if length es = MAX_CXA_ATEXITS then (1, es)
      else (0, es @ [\<lparr>ae_func = f, ae_ptr = p, ae_dso = d, ae_done = False\<rparr>]))"

text \<open>The calls made, in order, and the entries afterwards; \<open>n\<close> is the index plus one.\<close>

fun cxa_finalize_from :: "nat \<Rightarrow> uint \<Rightarrow> 'f atexit_entry list \<Rightarrow> ('f \<times> uint) list \<times> 'f atexit_entry list" where
  "cxa_finalize_from 0 d es = ([], es)"
| "cxa_finalize_from (Suc i) d es =
     (let e = es ! i in
      if (d = 0 \<or> d = ae_dso e) \<and> \<not> ae_done e then
        (let (calls, es) = cxa_finalize_from i d (es[i := e\<lparr>ae_done := True\<rparr>]) in ((ae_func e, ae_ptr e) # calls, es))
      else cxa_finalize_from i d es)"

definition cxa_finalize :: "uint \<Rightarrow> 'f atexit_entry list \<Rightarrow> ('f \<times> uint) list \<times> 'f atexit_entry list" where
  "cxa_finalize d es = cxa_finalize_from (length es) d es"

section \<open>The CH375\<close>

text \<open>
  The device is what it answers: the values that successive calls of \<open>get_ch375_status\<close> return. What is sent
  to it is kept in order, commands and data.
\<close>

definition CMD_RESET_ALL :: uchar where "CMD_RESET_ALL = 0x05"
definition CMD_SET_USB_MODE :: uchar where "CMD_SET_USB_MODE = 0x15"
definition CMD_DISK_INIT :: uchar where "CMD_DISK_INIT = 0x51"
definition USB_INT_SUCCESS :: uchar where "USB_INT_SUCCESS = 0x14"
definition USB_INT_CONNECT :: uchar where "USB_INT_CONNECT = 0x15"

datatype ch375_io = Cmd uchar | Data uchar

record ch375 =
  ch_answers :: "uchar list"
  ch_sent :: "ch375_io list"

definition ch_send :: "ch375_io \<Rightarrow> ch375 \<Rightarrow> ch375" where
  "ch_send x c = c\<lparr>ch_sent := ch_sent c @ [x]\<rparr>"

fun valid_status :: "uchar list \<Rightarrow> (uchar \<times> uchar list) res" where
  "valid_status [] = Hang"
| "valid_status (a # as) = (if a \<noteq> 0xff then Ok (a, as) else valid_status as)"

definition get_valid_ch375_status :: "ch375 \<Rightarrow> (uchar \<times> ch375) res" where
  "get_valid_ch375_status c = rbind (valid_status (ch_answers c)) (\<lambda>(a, as). Ok (a, c\<lparr>ch_answers := as\<rparr>))"

definition blkinit :: "ch375 \<Rightarrow> ch375 res" where
  "blkinit c =
     (let c = ch_send (Data 6) (ch_send (Cmd CMD_SET_USB_MODE) (ch_send (Cmd CMD_RESET_ALL) c))
      in rbind (get_valid_ch375_status c) (\<lambda>(status, c).
         if status \<noteq> USB_INT_CONNECT then Panic ''ch375_init1''
         else
           rbind (get_valid_ch375_status (ch_send (Cmd CMD_DISK_INIT) c)) (\<lambda>(status, c).
           if status \<noteq> USB_INT_SUCCESS then Panic ''ch375_init2'' else Ok c)))"

section \<open>The SD card\<close>

text \<open>
  The firmware's routines: \<open>init\<close> returns the status and the card, \<open>rd\<close> a result and the 512 bytes read, \<open>wr\<close> a result and the
  card. A null buffer is \<open>None\<close>.
\<close>

record 'c sd_state =
  sd_card :: 'c
  pbase :: uint

text \<open>The table of four partitions at \<open>0x1be\<close>; the shift of the highest byte is a shift of a signed integer.\<close>

definition part_lba :: "bytes \<Rightarrow> nat \<Rightarrow> uint" where
  "part_lba buf i = ucast (buf ! (i + 8)) OR push_bit 8 (ucast (buf ! (i + 9))) OR push_bit 16 (ucast (buf ! (i + 10))) OR
     push_bit 24 (ucast (buf ! (i + 11)))"

definition sd_blkinit :: "('c \<Rightarrow> nat \<times> 'c) \<Rightarrow> ('c \<Rightarrow> uint \<Rightarrow> int \<times> bytes) \<Rightarrow> 'c sd_state \<Rightarrow> 'c sd_state res" where
  "sd_blkinit init rd s =
     (let (st, card) = init (sd_card s) in
      if st \<noteq> 0 then Panic ''SD_initialize failed''
      else
        (let (r, buf) = rd card 0 in
         if r = 0 then Panic ''SD read partition table failed''
         else if buf ! 0x1fe \<noteq> 0x55 \<or> buf ! 0x1ff \<noteq> 0xaa then Panic ''No partition table at SD LBA 0''
         else
           (case find (\<lambda>i. buf ! (i + 4) = 0x07) [0x1be, 0x1ce, 0x1de, 0x1ee] of
              Some i \<Rightarrow> Ok \<lparr>sd_card = card, pbase = part_lba buf i\<rparr>
            | None \<Rightarrow> Panic ''No xv6 partition (id 7) found on SD card'')))"

definition sd_read_block :: "('c \<Rightarrow> uint \<Rightarrow> int \<times> bytes) \<Rightarrow> bytes option \<Rightarrow> uint \<Rightarrow> 'c sd_state \<Rightarrow> (int \<times> bytes option) res" where
  "sd_read_block rd buf lba s =
     (case buf of
        None \<Rightarrow> Ok (0, None)
      | Some _ \<Rightarrow> (let (r, d) = rd (sd_card s) (lba + pbase s) in if r = 0 then Panic ''SD_read_block'' else Ok (1, Some d)))"

definition sd_write_block :: "('c \<Rightarrow> uint \<Rightarrow> bytes \<Rightarrow> int \<times> 'c) \<Rightarrow> bytes option \<Rightarrow> uint \<Rightarrow> 'c sd_state \<Rightarrow> (int \<times> 'c sd_state) res" where
  "sd_write_block wr buf lba s =
     (case buf of
        None \<Rightarrow> Ok (0, s)
      | Some d \<Rightarrow> (let (r, card) = wr (sd_card s) (lba + pbase s) d in if r = 0 then Panic ''SD_write_block'' else Ok (1, s\<lparr>sd_card := card\<rparr>)))"

definition sd_blkrw :: "('c \<Rightarrow> uint \<Rightarrow> int \<times> bytes) \<Rightarrow> ('c \<Rightarrow> uint \<Rightarrow> bytes \<Rightarrow> int \<times> 'c) \<Rightarrow> buf \<Rightarrow> 'c sd_state \<Rightarrow> (buf \<times> 'c sd_state) res" where
  "sd_blkrw rd wr b s =
     (if b_flags b AND (B_VALID OR B_DIRTY) = B_VALID then Panic ''blkrw1''
      else
        rbind
          (if b_flags b AND B_DIRTY \<noteq> 0 then
             rbind (sd_write_block wr (Some (b_data b)) (b_blockno b) s) (\<lambda>(r, s).
               if r = 0 then Panic ''blkrw2'' else Ok (b\<lparr>b_flags := b_flags b AND NOT B_DIRTY\<rparr>, s))
           else
             rbind (sd_read_block rd (Some (b_data b)) (b_blockno b) s) (\<lambda>(r, d).
               if r = 0 then Panic ''blkrw3'' else Ok (case d of None \<Rightarrow> b | Some d \<Rightarrow> b\<lparr>b_data := d\<rparr>, s)))
          (\<lambda>(b, s). Ok (b\<lparr>b_flags := b_flags b OR B_VALID\<rparr>, s)))"

section \<open>The kernel's main function\<close>

text \<open>\<open>"/bin/init"\<close>.\<close>

definition init_path :: bytes where "init_path = [47, 98, 105, 110, 47, 105, 110, 105, 116, 0]"

definition kernel_tables :: "'a proc_state_scheme \<Rightarrow> 'a proc_state_scheme res" where
  "kernel_tables s =
     rbind (iinit (fileinit (binit s))) (\<lambda>s.
     rbind (initlog s) (\<lambda>s.
     userinit (pipeinit ((pinit s)\<lparr>frames := finit\<rparr>))))"

text \<open>\<open>sys_exec\<close> returns only when it fails, and then the kernel loops forever.\<close>

definition kmain :: "nat \<Rightarrow> uint \<Rightarrow> uint \<Rightarrow> ch375 \<Rightarrow> 'a proc_state_scheme \<Rightarrow> (ch375 \<times> 'a proc_state_scheme) res" where
  "kmain k sp sp2 c s =
     rbind (blkinit c) (\<lambda>c.
     rbind (kernel_tables s) (\<lambda>s.
     rbind (sys_exec k sp sp2 (Some init_path) [init_path] s) (\<lambda>(started, s).
       if started then Ok (c, s) else Hang)))"

section \<open>The SD driver stands in for the other\<close>

text \<open>
  C37. The SD driver implements the same block device as the CH375 driver, shifted to its partition: when the
  firmware reads and writes sectors of the card, and block \<open>n\<close> of the device is sector \<open>n + pbase\<close>,
  a transfer of a buffer leaves the same buffer and the same blocks with both, or panics with both;
  no sector but the one of the buffer's block is written.
\<close>

theorem sd_refines_blkrw:
  assumes fw: "\<And>c x. rd c x = (1, sect c x)" "\<And>c x d. wr c x d = (1, put c x d)" "\<And>c x d. sect (put c x d) = (sect c)(x := d)"
    and sim: "\<And>n. disk s n = sect (sd_card t) (n + pbase t)" "\<And>n. dev_ok s n"
  shows "(case blkrw b s of
      Ok s' \<Rightarrow> (\<exists>t'. sd_blkrw rd wr (bcache s b) t = Ok (bcache s' b, t') \<and> pbase t' = pbase t \<and>
        (\<forall>n. disk s' n = sect (sd_card t') (n + pbase t')) \<and>
        (\<forall>x. x \<noteq> b_blockno (bcache s b) + pbase t \<longrightarrow> sect (sd_card t') x = sect (sd_card t) x))
    | Panic e \<Rightarrow> sd_blkrw rd wr (bcache s b) t = Panic e
    | _ \<Rightarrow> False)"
  by (auto simp: blkrw_def sd_blkrw_def sd_write_block_def sd_read_block_def read_block_def write_block_def fw sim upd_buf_def)

theorem sd_refines_blkrw_witness:
  "(case blkrw 3 (demo_open\<lparr>dev_ok := \<lambda>_. True\<rparr>) of
      Ok s' \<Rightarrow> (\<exists>t'. sd_blkrw (\<lambda>c x. (1, c x)) (\<lambda>c x d. (1, c(x := d))) (bcache demo_open 3) \<lparr>sd_card = (\<lambda>x. disk demo_open (x - 2048)), pbase = 2048\<rparr> =
        Ok (bcache s' 3, t'))
    | Panic e \<Rightarrow> sd_blkrw (\<lambda>c x. (1, c x)) (\<lambda>c x d. (1, c(x := d))) (bcache demo_open 3) \<lparr>sd_card = (\<lambda>x. disk demo_open (x - 2048)), pbase = 2048\<rparr> = Panic e
    | _ \<Rightarrow> False)"
  using sd_refines_blkrw [of "\<lambda>c x. (1, c x)" "\<lambda>c. c" "\<lambda>c x d. (1, c(x := d))" "\<lambda>c x d. c(x := d)" "demo_open\<lparr>dev_ok := \<lambda>_. True\<rparr>"
      "\<lparr>sd_card = (\<lambda>x. disk demo_open (x - 2048)), pbase = 2048\<rparr>" 3]
  by (auto split: res.splits)

section \<open>What the kernel starts from\<close>

lemma readsb_core [fs_core]: "readsb s = Ok (sb, s') \<Longrightarrow> core s' = core s"
  by (auto simp: readsb_def dest!: fs_core)

lemma initlog_core [fs_core]: "initlog s = Ok s' \<Longrightarrow> core s' = core s"
  by (auto simp: initlog_def recover_from_log_def read_head_def install_trans_def split: if_splits dest!: fs_core copy_loops_core)

lemma root_path: "namei [slash, 0] s = Ok (q, s') \<Longrightarrow> \<exists>ip. q = Some ip \<and> iget ROOTINO s = Ok (ip, s')"
  by (auto simp: namei_def namex_def namex_loop.simps skipelem_def slash_def)

lemma iget_inum: "iget n s = Ok (ip, s') \<Longrightarrow> i_inum (icache s' ip) = n \<and> i_ref (icache s' ip) \<ge> 1"
  by (auto simp: iget_def upd_inode_def split: option.splits dest!: find_from_SomeD)

text \<open>What the bss, zeroed by \<open>__kinit\<close>, means for the tables: no file is in use, no process exists.\<close>

definition bss_clear :: "'a file_state_scheme \<Rightarrow> bool" where
  "bss_clear s \<longleftrightarrow> (\<forall>f. f_ref (ftable s f) = 0 \<and> f_type (ftable s f) = FD_NONE) \<and> (\<forall>p. p_state (ptable s p) = UNUSED \<and> (\<forall>fd. p_ofile (ptable s p) fd = None))"

lemma iinit_tables:
  assumes "iinit (fileinit (binit s)) = Ok s1" "initlog s1 = Ok s2"
  shows "ptable s2 = ptable s \<and> ftable s2 = ftable s \<and> nextpid s2 = nextpid s"
proof -
  obtain sb t where t: "readsb (binit s) = Ok (sb, t)" "s1 = t\<lparr>fsb := sb\<rparr>" using assms(1) by (auto simp: iinit_def fileinit_def)
  have c: "core t = core s" using readsb_core [OF t(1)] by (simp add: binit_def)
  have "ptable s2 = ptable s1" "nextpid s2 = nextpid s1" "ftable s2 = ftable s1"
    using coreD [OF initlog_core [OF assms(2)]] core_files [OF initlog_core [OF assms(2)]] by simp_all
  then show ?thesis using coreD [OF c] core_files [OF c] by (simp add: t(2))
qed

lemma userinit_tables:
  assumes "userinit s = Ok s'" "\<And>i. i < NPROC \<Longrightarrow> p_state (ptable s i) = UNUSED"
  obtains ip t where "s' = t\<lparr>ptable := (ptable s)(0 := (ptable s 0)\<lparr>p_pid := nextpid s, p_cwd := Some ip, p_state := RUNNABLE\<rparr>)\<rparr>"
    "core t = core (s\<lparr>ptable := (ptable s)(0 := (ptable s 0)\<lparr>p_state := EMBRYO, p_pid := nextpid s\<rparr>), nextpid := nextpid s + 1, proc := Some 0, initproc := Some 0\<rparr>)"
    "i_inum (icache t ip) = ROOTINO" "i_ref (icache t ip) \<ge> 1"
proof -
  have "find_from (\<lambda>i. p_state (ptable s i) = UNUSED) 0 NPROC = Some 0" using assms(2) by (simp add: find_from_Some NPROC_def)
  then have a: "allocproc s = (Some 0, (upd_proc 0 (\<lambda>e. e\<lparr>p_state := EMBRYO, p_pid := nextpid s\<rparr>) s)\<lparr>nextpid := nextpid s + 1\<rparr>)"
    by (simp add: allocproc_def alloc_slot_def upd_proc_def)
  let ?u = "s\<lparr>ptable := (ptable s)(0 := (ptable s 0)\<lparr>p_state := EMBRYO, p_pid := nextpid s\<rparr>), nextpid := nextpid s + 1, proc := Some 0, initproc := Some 0\<rparr>"
  obtain q t where q: "namei [slash, 0] ?u = Ok (q, t)" "s' = upd_proc 0 (\<lambda>e. e\<lparr>p_cwd := q, p_state := RUNNABLE\<rparr>) t"
    using assms(1) a by (auto simp: userinit_def upd_proc_def)
  obtain ip where ip: "q = Some ip" "iget ROOTINO ?u = Ok (ip, t)" using root_path [OF q(1)] by blast
  have c: "core t = core ?u" by (rule namei_core [OF q(1)])
  then have "ptable t 0 = (ptable s 0)\<lparr>p_state := EMBRYO, p_pid := nextpid s\<rparr>" "ptable t = ptable ?u" using coreD [OF c] by simp_all
  then have "s' = t\<lparr>ptable := (ptable s)(0 := (ptable s 0)\<lparr>p_pid := nextpid s, p_cwd := Some ip, p_state := RUNNABLE\<rparr>)\<rparr>"
    by (simp add: q(2) ip(1) upd_proc_def)
  then show ?thesis using that [of ip t] c iget_inum [OF ip(2)] by simp
qed

text \<open>
  C38. The state the kernel starts the first program from. When the initialisation returns, from a cleared
  bss, there is exactly one process, runnable, current and \<open>init\<close>, in the first entry, with the root directory as its
  current directory; every frame and every pipe is free; and the invariants of the scheduler, of the
  pipes and of the file references hold.
\<close>

theorem boot_establishes:
  assumes ok: "kernel_tables s = Ok s'" and bss: "bss_clear s"
  shows "proc s' = Some 0 \<and> initproc s' = Some 0 \<and> p_state (ptable s' 0) = RUNNABLE \<and> p_pid (ptable s' 0) = nextpid s \<and>
    (\<forall>i. 0 < i \<longrightarrow> p_state (ptable s' i) = UNUSED) \<and> frames s' = finit \<and> (\<forall>p < NPIPE. pi_isfree (plist s' p)) \<and>
    (\<exists>ip. p_cwd (ptable s' 0) = Some ip \<and> i_inum (icache s' ip) = ROOTINO \<and> i_ref (icache s' ip) \<ge> 1) \<and>
    one_running s' \<and> file_inv (ftable s') (plist s') \<and> fd_inv s'"
proof -
  obtain s1 s2 where s12: "iinit (fileinit (binit s)) = Ok s1" "initlog s1 = Ok s2"
    and u: "userinit (pipeinit ((pinit s2)\<lparr>frames := finit\<rparr>)) = Ok s'" using ok by (auto simp: kernel_tables_def)
  define s3 where "s3 = pipeinit ((pinit s2)\<lparr>frames := finit\<rparr>)"
  note tb = iinit_tables [OF s12]
  have st: "p_state (ptable s3 i) = UNUSED" "p_ofile (ptable s3 i) fd = None" "f_ref (ftable s3 f) = 0" "f_type (ftable s3 f) = FD_NONE" for i fd f
    using tb bss by (simp_all add: s3_def pipeinit_def pinit_def bss_clear_def)
  have n3: "nextpid s3 = nextpid s" "frames s3 = finit" "\<And>p. p < NPIPE \<Longrightarrow> pi_isfree (plist s3 p)"
    using tb by (simp_all add: s3_def pipeinit_def pinit_def)
  obtain ip t where e: "s' = t\<lparr>ptable := (ptable s3)(0 := (ptable s3 0)\<lparr>p_pid := nextpid s3, p_cwd := Some ip, p_state := RUNNABLE\<rparr>)\<rparr>"
    "core t = core (s3\<lparr>ptable := (ptable s3)(0 := (ptable s3 0)\<lparr>p_state := EMBRYO, p_pid := nextpid s3\<rparr>), nextpid := nextpid s3 + 1, proc := Some 0, initproc := Some 0\<rparr>)"
    "i_inum (icache t ip) = ROOTINO" "i_ref (icache t ip) \<ge> 1"
    using userinit_tables [OF u [folded s3_def] st(1)] by blast
  have k: "proc s' = Some 0" "initproc s' = Some 0" "frames s' = finit" "ftable s' = ftable s3" "plist s' = plist s3"
    using coreD [OF e(2)] core_files [OF e(2)] n3(2) by (simp_all add: e(1))
  have pt: "p_state (ptable s' 0) = RUNNABLE" "p_pid (ptable s' 0) = nextpid s" "p_cwd (ptable s' 0) = Some ip"
    "\<And>i. 0 < i \<Longrightarrow> p_state (ptable s' i) = UNUSED" "\<And>i fd. p_ofile (ptable s' i) fd = None"
    using st n3(1) by (simp_all add: e(1))
  have "fds (ofiles s') f = {}" for f using pt(5) by (simp add: fds_def ofiles_def)
  then have "fd_inv s'" using k(1,4) st(3) pt(1,5) by (auto simp: fd_inv_def refs_ok_def NPROC_def idle_def)
  moreover have "file_inv (ftable s') (plist s')"
    using st(3,4) n3(3) k(4,5) by (auto simp: file_inv_def pipe_ok_def pipe_ends_of_def live_end_def)
  moreover have "p_state (ptable s' i) \<noteq> RUNNING" for i using pt(1) pt(4) [of i] by (cases "i = 0") auto
  then have "one_running s'" by (simp add: one_running_def)
  moreover have "i_inum (icache s' ip) = ROOTINO" "i_ref (icache s' ip) \<ge> 1" using e by simp_all
  ultimately show ?thesis using k pt n3(3) by auto
qed

text \<open>The routines below the file system do not touch the inode cache.\<close>

lemma icache_basic [simp]:
  "icache (upd_buf b f s) = icache s" "icache (set_data b d s) = icache s" "icache (bwrite b s) = icache s" "icache (brelse b s) = icache s"
  "icache (upd_lh h s) = icache s"
  by (simp_all add: upd_buf_def set_data_def bwrite_def brelse_def Let_def upd_lh_def)

lemma blkrw_icache: "blkrw b s = Ok s' \<Longrightarrow> icache s' = icache s"
  by (auto simp: blkrw_def read_block_def write_block_def split: if_splits)

lemma bread_icache: "bread n s = Ok (b, s') \<Longrightarrow> icache s' = icache s"
  by (auto simp: bread_def bget_def split: option.splits if_splits dest!: blkrw_icache)

lemma install_loop_icache: "install_loop ts s = Ok s' \<Longrightarrow> icache s' = icache s"
  by (induction ts arbitrary: s) (fastforce simp: Let_def dest!: bread_icache)+

lemma initlog_icache: "initlog s = Ok s' \<Longrightarrow> icache s' = icache s"
  by (auto simp: initlog_def readsb_def recover_from_log_def read_head_def install_trans_def write_head_def Let_def
      split: if_splits dest!: bread_icache install_loop_icache)

text \<open>A machine with an empty log at block 2.\<close>

definition demo_boot :: proc_state where
  "demo_boot = demo_proc\<lparr>bcache := (\<lambda>_. zero_buf), disk := (\<lambda>n. put32 16 2 (replicate BSIZE 0)), dev_ok := (\<lambda>_. True),
     icache := (\<lambda>i. (icache demo_proc i)\<lparr>i_ref := 0\<rparr>), ptable := (\<lambda>_. demo_ent UNUSED 0),
     ftable := (\<lambda>f. (ftable demo_proc f)\<lparr>f_ref := 0, f_type := FD_NONE\<rparr>)\<rparr>"

lemma demo_boot_returns: "\<exists>s'. kernel_tables demo_boot = Ok s'"
proof -
  let ?b = "binit demo_boot"
  have q: "quiet ?b" "blk ?b = (\<lambda>n. put32 16 2 (replicate BSIZE 0))"
    unfolding quiet_def demo_boot_def by (simp_all add: binit_inv BSIZE_def)
  obtain sb t where t: "readsb ?b = Ok (sb, t)" "quiet t" "blk t = blk ?b" using readsb_spec [OF q(1)] by (auto simp: wp_iff)
  let ?t = "t\<lparr>fsb := sb\<rparr>"
  have i1: "iinit (fileinit ?b) = Ok ?t" using t(1) by (simp add: iinit_def fileinit_def)
  have qt: "quiet ?t" "blk ?t = blk t" using t(2) by (simp_all add: quiet_def bio_inv_def refs_def blk_def fun_eq_iff cong: option.case_cong)
  have "wp (initlog ?t) (\<lambda>_. True)"
  proof (rule initlog_unfold [OF qt(1)])
    fix v :: proc_state
    assume v: "quiet v" "blk v = blk ?t" "l_start (log v) = sb_logstart (decode_sb (blk ?t 1))"
    define w where "w = upd_lh (\<lambda>h. h\<lparr>lh_n := 0\<rparr>) v"
    have bv: "blk v = (\<lambda>n. put32 16 2 (replicate BSIZE 0))" using v(2) qt(2) t(3) q(2) by simp
    have "l_start (log v) = sb_logstart (decode_sb (blk v 1))" using v(2,3) by simp
    then have st: "l_start (log v) = 2" unfolding bv by (simp add: decode_sb_def BSIZE_def)
    have hd: "head_n (blk v 2) = 0" by (simp add: bv head_n_def put32_def get32_patch_other BSIZE_def get32_def be32_def nth_patch)
    have lw: "log_wf w" "log_layout w" "l_start (log w) = 2" "lh_n (l_lh (log w)) = 0"
      using st by (simp_all add: w_def log_wf_def log_layout_def log_area_unat LOGSIZE_def)
    have "logged w = {}" using lw(4) by (simp add: logged_def)
    then have "wp (recover_from_log v) (\<lambda>v'. quiet v' \<and> (\<forall>m. m \<notin> log_area w \<longrightarrow> blk v' m = blk v m) \<and>
        lh_n (l_lh (log v')) = 0 \<and> head_n (blk v' (l_start (log w))) = 0)"
      using recover_replays [of w v "blk v"] lw v(1) st hd by simp
    then show "wp (recover_from_log v) (\<lambda>_. True)" by (rule wp_mono) simp
  qed
  then obtain s2 where s2: "initlog ?t = Ok s2" by (auto simp: wp_iff)
  have "icache s2 = icache demo_boot"
    using initlog_icache [OF s2] t(1) by (auto simp: readsb_def binit_def dest!: bread_icache)
  then have ic: "\<And>i. i_ref (icache s2 i) = 0" by (simp add: demo_boot_def)
  define s3 where "s3 = pipeinit ((pinit s2)\<lparr>frames := finit\<rparr>)"
  have "p_state (ptable s3 i) = UNUSED" if "i < NPROC" for i using that by (simp add: s3_def pipeinit_def pinit_def)
  then have "find_from (\<lambda>i. p_state (ptable s3 i) = UNUSED) 0 NPROC = Some 0" by (simp add: find_from_Some NPROC_def)
  then have a: "allocproc s3 = (Some 0, (upd_proc 0 (\<lambda>e. e\<lparr>p_state := EMBRYO, p_pid := nextpid s3\<rparr>) s3)\<lparr>nextpid := nextpid s3 + 1\<rparr>)"
    by (simp add: allocproc_def alloc_slot_def upd_proc_def)
  have ig: "\<exists>ip u'. iget ROOTINO u = Ok (ip, u')" if "icache u = icache s2" for u :: proc_state
  proof -
    have "find_from (\<lambda>i. i_ref (icache u i) > 0 \<and> i_inum (icache u i) = ROOTINO) 0 NINODE = None" "find_from (\<lambda>i. i_ref (icache u i) = 0) 0 NINODE = Some 0"
      using ic that by (simp_all add: find_from_None find_from_Some NINODE_def)
    then show ?thesis by (simp add: iget_def)
  qed
  have "\<exists>q u'. namei [slash, 0] u = Ok (q, u')" if "icache u = icache s2" for u :: proc_state
    using ig [OF that] by (auto simp: namei_def namex_def namex_loop.simps skipelem_def slash_def)
  then have "\<exists>q u'. namei [slash, 0] (upd_proc 0 (\<lambda>e. e\<lparr>p_state := EMBRYO, p_pid := nextpid s3\<rparr>) s3\<lparr>nextpid := nextpid s3 + 1, proc := Some 0, initproc := Some 0\<rparr>) = Ok (q, u')"
    by (simp add: s3_def pipeinit_def pinit_def upd_proc_def)
  then have "\<exists>s'. userinit s3 = Ok s'" using a by (auto simp: userinit_def)
  then show ?thesis using i1 s2 by (simp add: kernel_tables_def s3_def)
qed

theorem boot_establishes_witness: "\<exists>s'. kernel_tables demo_boot = Ok s' \<and> proc s' = Some 0 \<and> frames s' = finit \<and> one_running s' \<and> fd_inv s'"
proof -
  obtain s' where s': "kernel_tables demo_boot = Ok s'" using demo_boot_returns by blast
  have "bss_clear demo_boot" by (simp add: bss_clear_def demo_boot_def)
  from boot_establishes [OF s' this] s' show ?thesis by blast
qed

end
