(* ===== verification/Mkfs.thy ===== *)
theory Mkfs
  imports Dir
begin

text \<open>
  The tool that makes a file system image (\<open>tools/mkfs.c\<close>), built on a little-endian host for the big-endian machine.
  The image is a file of sectors; the host's directory tree is an argument. A failed assertion or host call ends the
  program, which is the outcome \<open>Panic\<close>.
\<close>

definition NINODES :: nat where "NINODES = 200"
definition FSSIZE :: nat where "FSSIZE = 9000"
definition nbitmap :: nat where "nbitmap = FSSIZE div (BSIZE * 8) + 1"
definition ninodeblocks :: nat where "ninodeblocks = NINODES div IPB + 1"
definition nmeta :: nat where "nmeta = 2 + LOGSIZE + ninodeblocks + nbitmap"
definition nblocks :: nat where "nblocks = FSSIZE - nmeta"

definition nativesb :: superblock where
  "nativesb = \<lparr>sb_size = of_nat FSSIZE, sb_nblocks = of_nat nblocks, sb_ninodes = of_nat NINODES, sb_nlog = of_nat LOGSIZE,
     sb_logstart = 2, sb_inodestart = of_nat (2 + LOGSIZE), sb_bmapstart = of_nat (2 + LOGSIZE + ninodeblocks)\<rparr>"

section \<open>Byte order\<close>

text \<open>
  \<open>xint\<close> and \<open>xshort\<close> assemble the host's integer from the bytes of the big-endian one; the host stores an
  integer with its lowest byte first.
\<close>

definition host_enc32 :: "uint \<Rightarrow> bytes" where "host_enc32 x = rev (enc32 x)"
definition host_enc16 :: "ushort \<Rightarrow> bytes" where "host_enc16 x = rev (enc16 x)"
definition host_get32 :: "bytes \<Rightarrow> nat \<Rightarrow> uint" where
  "host_get32 b k = be32 (b ! (k + 3)) (b ! (k + 2)) (b ! (k + 1)) (b ! k)"
definition host_get16 :: "bytes \<Rightarrow> nat \<Rightarrow> ushort" where
  "host_get16 b k = be16 (b ! (k + 1)) (b ! k)"

definition xint :: "uint \<Rightarrow> uint" where
  "xint x = host_get32 [ucast (drop_bit 24 x), ucast (drop_bit 16 x), ucast (drop_bit 8 x), ucast x] 0"
definition xshort :: "ushort \<Rightarrow> ushort" where
  "xshort x = host_get16 [ucast (drop_bit 8 x), ucast x] 0"

section \<open>The image\<close>

record mkfs_state =
  m_img :: "uint \<Rightarrow> bytes"
  m_len :: nat
  freeinode :: uint
  freeblock :: uint

text \<open>\<open>sec * BSIZE\<close> is a 32-bit product and the file offset is signed; writing past the end extends the file.\<close>

definition wsect :: "uint \<Rightarrow> bytes \<Rightarrow> mkfs_state \<Rightarrow> mkfs_state res" where
  "wsect sec buf s =
     (let pos = sec * of_nat BSIZE; n = pos div of_nat BSIZE in
      if sint pos < 0 then Panic ''lseek''
      else Ok (s\<lparr>m_img := (m_img s)(n := buf), m_len := max (m_len s) (unat n + 1)\<rparr>))"

definition rsect :: "uint \<Rightarrow> mkfs_state \<Rightarrow> bytes res" where
  "rsect sec s =
     (let pos = sec * of_nat BSIZE; n = pos div of_nat BSIZE in
      if sint pos < 0 then Panic ''lseek'' else if unat n \<ge> m_len s then Panic ''read'' else Ok (m_img s n))"

text \<open>An inode as the host holds it: every field is in the machine's byte order.\<close>

record dinode =
  d_type :: ushort
  d_major :: ushort
  d_minor :: ushort
  d_nlink :: ushort
  d_size :: uint
  d_mtime :: uint
  d_addrs :: "uint list"

definition get_dinode :: "bytes \<Rightarrow> nat \<Rightarrow> dinode" where
  "get_dinode b k = \<lparr>d_type = host_get16 b k, d_major = host_get16 b (k + 2), d_minor = host_get16 b (k + 4), d_nlink = host_get16 b (k + 6),
     d_size = host_get32 b (k + 8), d_mtime = host_get32 b (k + 12), d_addrs = map (\<lambda>i. host_get32 b (k + 16 + 4 * i)) [0..<NDIRECT + 1]\<rparr>"

definition put_dinode :: "dinode \<Rightarrow> nat \<Rightarrow> bytes \<Rightarrow> bytes" where
  "put_dinode d k b = patch k (host_enc16 (d_type d) @ host_enc16 (d_major d) @ host_enc16 (d_minor d) @ host_enc16 (d_nlink d) @
     host_enc32 (d_size d) @ host_enc32 (d_mtime d) @ concat (map host_enc32 (d_addrs d))) b"

definition winode :: "uint \<Rightarrow> dinode \<Rightarrow> mkfs_state \<Rightarrow> mkfs_state res" where
  "winode inum ip s =
     (let bn = IBLOCK inum nativesb
      in rbind (rsect bn s) (\<lambda>buf. wsect bn (put_dinode ip (ioff inum) buf) s))"

definition rinode :: "uint \<Rightarrow> mkfs_state \<Rightarrow> dinode res" where
  "rinode inum s = rbind (rsect (IBLOCK inum nativesb) s) (\<lambda>buf. Ok (get_dinode buf (ioff inum)))"

definition mk_ialloc :: "ushort \<Rightarrow> uint \<Rightarrow> mkfs_state \<Rightarrow> (uint \<times> mkfs_state) res" where
  "mk_ialloc type mtime s =
     (let inum = freeinode s; s = s\<lparr>freeinode := freeinode s + 1\<rparr> in
      if \<not> freeinode s < of_nat NINODES then Panic ''assert''
      else
        rbind (winode inum \<lparr>d_type = xshort type, d_major = 0, d_minor = 0, d_nlink = xshort 1, d_size = xint 0, d_mtime = xint mtime,
            d_addrs = replicate (NDIRECT + 1) 0\<rparr> s) (\<lambda>s. Ok (inum, s)))"

text \<open>The bitmap: whole blocks of ones, then one that is filled bit by bit.\<close>

definition bitmap_bytes :: "nat \<Rightarrow> bytes" where
  "bitmap_bytes nused = fold (\<lambda>i buf. buf[i div 8 := buf ! (i div 8) OR bmask i]) [0..<nused] (replicate BSIZE 0)"

function mk_balloc_loop :: "nat \<Rightarrow> uint \<Rightarrow> mkfs_state \<Rightarrow> mkfs_state res" where
  "mk_balloc_loop nused blocknum s =
     (if nused \<ge> BSIZE * 8 then
        rbind (wsect blocknum (replicate BSIZE 0xff) s) (\<lambda>s. mk_balloc_loop (nused - BSIZE * 8) (blocknum + 1) s)
      else wsect blocknum (bitmap_bytes nused) s)"
  by auto

termination mk_balloc_loop by (relation "measure (\<lambda>(u, b, s). u)") (auto simp: BSIZE_def)

definition mk_balloc :: "uint \<Rightarrow> mkfs_state \<Rightarrow> mkfs_state res" where
  "mk_balloc nused s =
     (if \<not> sint nused < int nblocks then Panic ''assert'' else mk_balloc_loop (nat (sint nused)) (sb_bmapstart nativesb) s)"

section \<open>Appending to a file\<close>

definition host_set32 :: "nat \<Rightarrow> uint \<Rightarrow> bytes \<Rightarrow> bytes" where
  "host_set32 k x b = patch (4 * k) (host_enc32 x) b"

text \<open>The block of the file: direct, or through the two levels, with blocks taken as needed.\<close>

definition mk_bmap :: "nat \<Rightarrow> dinode \<Rightarrow> mkfs_state \<Rightarrow> (uint \<times> dinode \<times> mkfs_state) res" where
  "mk_bmap fbn din s =
     (if fbn < NDIRECT then
        (let (din, s) =
           (if xint (d_addrs din ! fbn) = 0 then (din\<lparr>d_addrs := (d_addrs din)[fbn := xint (freeblock s)]\<rparr>, s\<lparr>freeblock := freeblock s + 1\<rparr>)
            else (din, s))
         in Ok (xint (d_addrs din ! fbn), din, s))
      else
        (let (din, s) =
           (if xint (d_addrs din ! NDIRECT) = 0 then (din\<lparr>d_addrs := (d_addrs din)[NDIRECT := xint (freeblock s)]\<rparr>, s\<lparr>freeblock := freeblock s + 1\<rparr>)
            else (din, s));
             a = xint (d_addrs din ! NDIRECT); i = (fbn - NDIRECT) div NINDIRECT; j = (fbn - NDIRECT) mod NINDIRECT
         in rbind (rsect a s) (\<lambda>indirect.
            rbind (if host_get32 indirect (4 * i) = 0 then
                     (let indirect = host_set32 i (xint (freeblock s)) indirect
                      in rbind (wsect a indirect (s\<lparr>freeblock := freeblock s + 1\<rparr>)) (\<lambda>s. Ok (indirect, s)))
                   else Ok (indirect, s)) (\<lambda>(indirect, s).
            let b = xint (host_get32 indirect (4 * i))
            in rbind (rsect b s) (\<lambda>indirect2.
               rbind (if host_get32 indirect2 (4 * j) = 0 then
                        (let indirect2 = host_set32 j (xint (freeblock s)) indirect2
                         in rbind (wsect b indirect2 (s\<lparr>freeblock := freeblock s + 1\<rparr>)) (\<lambda>s. Ok (indirect2, s)))
                      else Ok (indirect2, s)) (\<lambda>(indirect2, s).
               Ok (xint (host_get32 indirect2 (4 * j)), din, s)))))))"

function iappend_loop :: "bytes \<Rightarrow> uint \<Rightarrow> dinode \<Rightarrow> mkfs_state \<Rightarrow> (uint \<times> dinode \<times> mkfs_state) res" where
  "iappend_loop p off din s =
     (if p = [] then Ok (off, din, s)
      else
        (let fbn = unat off div BSIZE in
         if \<not> fbn < MAXFILE then Panic ''assert''
         else
           rbind (mk_bmap fbn din s) (\<lambda>(x, din, s).
           let n1 = min (length p) ((fbn + 1) * BSIZE - unat off)
           in rbind (rsect x s) (\<lambda>buf.
              rbind (wsect x (patch (unat off - fbn * BSIZE) (take n1 p) buf) s) (\<lambda>s.
                iappend_loop (drop n1 p) (off + of_nat n1) din s)))))"
  by pat_completeness auto

termination iappend_loop
proof (relation "measure (\<lambda>(p, off, din, s). length p)", goal_cases)
  case (2 p off din s fbn a x b xa y n1 buf t)
  have "0 < length p" using 2 by simp
  moreover have "0 < (fbn + 1) * BSIZE - unat off"
  proof -
    have "unat off < (unat off div BSIZE + 1) * BSIZE" using dividend_less_div_times [of BSIZE "unat off"] by (simp add: BSIZE_def algebra_simps)
    then show ?thesis using 2 by simp
  qed
  ultimately show ?case using 2 by simp
qed simp

declare iappend_loop.simps [simp del] mk_balloc_loop.simps [simp del]

definition iappend :: "uint \<Rightarrow> bytes \<Rightarrow> mkfs_state \<Rightarrow> mkfs_state res" where
  "iappend inum p s =
     rbind (rinode inum s) (\<lambda>din.
     rbind (iappend_loop p (xint (d_size din)) din s) (\<lambda>(off, din, s).
       if \<not> freeblock s < of_nat FSSIZE then Panic ''assert''
       else winode inum (din\<lparr>d_size := xint off\<rparr>) s))"

section \<open>Directories\<close>

text \<open>\<open>struct xvdirent\<close>: the inode number and the name, cut or padded to 14 bytes.\<close>

definition dappend :: "uint \<Rightarrow> bytes \<Rightarrow> uint \<Rightarrow> mkfs_state \<Rightarrow> mkfs_state res" where
  "dappend dirino name fileino s = iappend dirino (host_enc16 (xshort (ucast fileino)) @ strncpy_bytes name DIRSIZ) s"

text \<open>
  What the host has in a directory: a file that can be opened or not, a directory with its entries in the order \<open>readdir\<close>
  returns them, if it can be opened, something else, or an entry \<open>stat\<close> fails on. Names are zero-terminated.
\<close>

datatype hnode = HFile bytes uint "bytes option" | HDir bytes uint "hnode list option" | HOther bytes | HBad bytes

function (sequential) fappend_loop :: "uint \<Rightarrow> bytes \<Rightarrow> mkfs_state \<Rightarrow> mkfs_state res" where
  "fappend_loop inum [] s = Ok s"
| "fappend_loop inum d s = rbind (iappend inum (take BSIZE d) s) (\<lambda>s. fappend_loop inum (drop BSIZE d) s)"
  by pat_completeness auto

termination fappend_loop by (relation "measure (\<lambda>(i, d, s). length d)") (auto simp: BSIZE_def)

definition fappend :: "uint \<Rightarrow> bytes \<Rightarrow> uint \<Rightarrow> bytes option \<Rightarrow> mkfs_state \<Rightarrow> mkfs_state res" where
  "fappend dirino filename mtime contents s =
     (case contents of
        None \<Rightarrow> Panic ''open''
      | Some d \<Rightarrow>
          rbind (mk_ialloc T_FILE mtime s) (\<lambda>(inum, s).
          rbind (dappend dirino filename inum s) (\<lambda>s. fappend_loop inum d s)))"

definition makdir :: "uint \<Rightarrow> bytes \<Rightarrow> uint \<Rightarrow> mkfs_state \<Rightarrow> (uint \<times> mkfs_state) res" where
  "makdir dirino newdir mtime s =
     rbind (mk_ialloc T_DIR mtime s) (\<lambda>(ino, s).
     rbind (dappend ino [46, 0] ino s) (\<lambda>s.
     rbind (dappend ino [46, 46, 0] dirino s) (\<lambda>s.
     rbind (dappend dirino newdir ino s) (\<lambda>s. Ok (ino, s)))))"

definition skip_name :: "bytes \<Rightarrow> bool" where
  "skip_name nm \<longleftrightarrow> takeWhile (\<lambda>c. c \<noteq> 0) nm = [46] \<or> takeWhile (\<lambda>c. c \<noteq> 0) nm = [46, 46]"

fun add_directory :: "uint \<Rightarrow> hnode list \<Rightarrow> mkfs_state \<Rightarrow> mkfs_state res" where
  "add_directory dirino [] s = Ok s"
| "add_directory dirino (HFile nm mt d # es) s =
     (if skip_name nm then add_directory dirino es s
      else rbind (fappend dirino nm mt d s) (\<lambda>s. add_directory dirino es s))"
| "add_directory dirino (HDir nm mt sub # es) s =
     (if skip_name nm then add_directory dirino es s
      else rbind (makdir dirino nm mt s) (\<lambda>(ino, s).
        case sub of
          None \<Rightarrow> Panic ''opendir''
        | Some sub \<Rightarrow> rbind (add_directory ino sub s) (\<lambda>s. add_directory dirino es s)))"
| "add_directory dirino (HOther nm # es) s = add_directory dirino es s"
| "add_directory dirino (HBad nm # es) s = (if skip_name nm then add_directory dirino es s else Panic ''stat'')"

section \<open>The program\<close>

definition sb_bytes :: bytes where
  "sb_bytes = concat (map (\<lambda>x. host_enc32 (xint x)) [sb_size nativesb, sb_nblocks nativesb, sb_ninodes nativesb, sb_nlog nativesb,
     sb_logstart nativesb, sb_inodestart nativesb, sb_bmapstart nativesb])"

fun wzeroes :: "nat list \<Rightarrow> mkfs_state \<Rightarrow> mkfs_state res" where
  "wzeroes [] s = Ok s"
| "wzeroes (i # is) s = rbind (wsect (of_nat i) (replicate BSIZE 0) s) (\<lambda>s. wzeroes is s)"

text \<open>The tree is what the host has in the directory given, \<open>None\<close> when it cannot be opened.\<close>

definition mkfs_main :: "hnode list option \<Rightarrow> mkfs_state res" where
  "mkfs_main tree =
     rbind (wzeroes [0..<FSSIZE] \<lparr>m_img = (\<lambda>_. replicate BSIZE 0), m_len = 0, freeinode = 1, freeblock = of_nat nmeta\<rparr>) (\<lambda>s.
     rbind (wsect 1 (patch 0 sb_bytes (replicate BSIZE 0)) s) (\<lambda>s.
     rbind (mk_ialloc T_DIR 0 s) (\<lambda>(rootino, s).
     if rootino \<noteq> ROOTINO then Panic ''assert''
     else
       rbind (dappend rootino [46, 0] rootino s) (\<lambda>s.
       rbind (dappend rootino [46, 46, 0] rootino s) (\<lambda>s.
       case tree of
         None \<Rightarrow> Panic ''opendir''
       | Some es \<Rightarrow>
           rbind (add_directory rootino es s) (\<lambda>s.
           rbind (rinode rootino s) (\<lambda>din.
           let off = (xint (d_size din) div of_nat BSIZE + 1) * of_nat BSIZE
           in rbind (winode rootino (din\<lparr>d_size := xint off\<rparr>) s) (\<lambda>s. mk_balloc (freeblock s) s))))))))"

section \<open>Byte order\<close>

lemma xint_enc [simp]: "host_enc32 (xint x) = enc32 x"
  by (simp add: host_enc32_def xint_def host_get32_def) (simp add: enc32_def)

lemma xshort_enc [simp]: "host_enc16 (xshort x) = enc16 x"
  by (simp add: host_enc16_def xshort_def host_get16_def) (simp add: enc16_def)

lemma xint_get [simp]: "xint (host_get32 b k) = get32 b k"
proof -
  have "enc32 (xint (host_get32 b k)) = rev (host_enc32 (xint (host_get32 b k)))" by (simp add: host_enc32_def)
  then have "enc32 (xint (host_get32 b k)) = rev (enc32 (host_get32 b k))" by simp
  also have "\<dots> = enc32 (get32 b k)" by (simp add: host_get32_def get32_def)
  finally show ?thesis by (simp add: enc32_inject)
qed

section \<open>The bitmap\<close>

lemma bit_bmask: "bit (bmask i) k \<longleftrightarrow> k = i mod 8"
  by (auto simp: bmask_def bit_simps dest: bit_imp_le_length)

lemma bitmap_bytes_spec:
  "n \<le> BSIZE * 8 \<Longrightarrow> length (bitmap_bytes n) = BSIZE \<and> (\<forall>i < BSIZE * 8. used_bit (bitmap_bytes n) i \<longleftrightarrow> i < n)"
proof (induction n)
  case 0
  have "replicate BSIZE (0 :: uchar) ! (i div 8) = 0" if "i < BSIZE * 8" for i using that by (intro nth_replicate) linarith
  then show ?case by (simp add: bitmap_bytes_def used_bit_def)
next
  case (Suc n)
  let ?b = "bitmap_bytes n"
  have n: "n div 8 < BSIZE" using Suc.prems by linarith
  have eq: "bitmap_bytes (Suc n) = ?b[n div 8 := ?b ! (n div 8) OR bmask n]" by (simp add: bitmap_bytes_def)
  have IH: "length ?b = BSIZE" "\<And>i. i < BSIZE * 8 \<Longrightarrow> used_bit ?b i \<longleftrightarrow> i < n" using Suc by auto
  have "used_bit (bitmap_bytes (Suc n)) i \<longleftrightarrow> i < Suc n" if i: "i < BSIZE * 8" for i
  proof (cases "i div 8 = n div 8")
    case True
    then have "used_bit (bitmap_bytes (Suc n)) i \<longleftrightarrow> used_bit ?b i \<or> i mod 8 = n mod 8"
      using n IH(1) by (simp add: eq used_bit_def bit_or_iff bit_bmask)
    also have "i mod 8 = n mod 8 \<longleftrightarrow> i = n" using True by (metis div_mult_mod_eq)
    finally show ?thesis using IH(2) [OF i] by auto
  next
    case False
    then have "used_bit (bitmap_bytes (Suc n)) i \<longleftrightarrow> used_bit ?b i" by (simp add: eq used_bit_def)
    then show ?thesis using IH(2) [OF i] False by (auto simp: less_Suc_eq)
  qed
  then show ?case using IH(1) by (simp add: eq)
qed

lemma wsect_small:
  assumes "unat sec < 2 ^ 22"
  shows "wsect sec buf s = Ok (s\<lparr>m_img := (m_img s)(sec := buf), m_len := max (m_len s) (unat sec + 1)\<rparr>)"
    "rsect sec s = (if unat sec \<ge> m_len s then Panic ''read'' else Ok (m_img s sec))"
proof -
  have u: "unat (sec * of_nat BSIZE) = unat sec * 512" using assms by (simp add: unat_word_ariths BSIZE_def)
  then have "sint (sec * of_nat BSIZE) = int (unat sec * 512)" using sint_unat [of "sec * of_nat BSIZE"] assms by simp
  moreover have "sec * of_nat BSIZE div of_nat BSIZE = sec" using u by (simp add: word_unat_eq_iff unat_div BSIZE_def)
  ultimately show "wsect sec buf s = Ok (s\<lparr>m_img := (m_img s)(sec := buf), m_len := max (m_len s) (unat sec + 1)\<rparr>)"
    "rsect sec s = (if unat sec \<ge> m_len s then Panic ''read'' else Ok (m_img s sec))"
    by (simp_all add: wsect_def rsect_def Let_def)
qed

lemma used_bit_ones: "i < BSIZE * 8 \<Longrightarrow> used_bit (replicate BSIZE 0xff) i"
proof -
  assume "i < BSIZE * 8"
  then have "i div 8 < BSIZE" by linarith
  then show ?thesis using full_byte [of i] by (simp add: used_bit_def)
qed

lemma mk_balloc_loop_spec:
  assumes "unat b + n div (BSIZE * 8) < 2 ^ 22"
  shows "\<exists>s'. mk_balloc_loop n b s = Ok s' \<and>
    (\<forall>k \<le> n div (BSIZE * 8). \<forall>i < BSIZE * 8. used_bit (m_img s' (b + of_nat k)) i \<longleftrightarrow> k * (BSIZE * 8) + i < n) \<and>
    (\<forall>x. (\<forall>k \<le> n div (BSIZE * 8). x \<noteq> b + of_nat k) \<longrightarrow> m_img s' x = m_img s x)"
  using assms
proof (induction n b s rule: mk_balloc_loop.induct)
  case (1 n b s)
  show ?case
  proof (cases "n \<ge> BSIZE * 8")
    case False
    then have z: "n div (BSIZE * 8) = 0" by simp
    then show ?thesis
      using False 1(2) wsect_small(1) [of b] bitmap_bytes_spec [of n] by (subst mk_balloc_loop.simps) auto
  next
    case True
    let ?m = "n - BSIZE * 8" and ?B = "BSIZE * 8"
    have d: "n div ?B = Suc (?m div ?B)" using True by (simp add: le_div_geq BSIZE_def)
    define t where "t = s\<lparr>m_img := (m_img s)(b := replicate BSIZE 0xff), m_len := max (m_len s) (unat b + 1)\<rparr>"
    have w: "wsect b (replicate BSIZE 0xff) s = Ok t" using wsect_small(1) [of b] 1(2) by (simp add: t_def)
    have ub: "unat (b + 1) = unat b + 1" using 1(2) d by (simp add: unat_word_ariths)
    obtain s' where IH: "mk_balloc_loop ?m (b + 1) t = Ok s'"
      "\<And>k i. k \<le> ?m div ?B \<Longrightarrow> i < ?B \<Longrightarrow> used_bit (m_img s' (b + 1 + of_nat k)) i \<longleftrightarrow> k * ?B + i < ?m"
      "\<And>x. (\<forall>k \<le> ?m div ?B. x \<noteq> b + 1 + of_nat k) \<Longrightarrow> m_img s' x = m_img t x"
      using 1(1) [OF True w] 1(2) d ub by auto
    have "b \<noteq> b + 1 + of_nat k" if "k \<le> ?m div ?B" for k
    proof
      assume "b = b + 1 + of_nat k"
      then have "(of_nat (Suc k) :: uint) = 0" by (simp add: add.commute)
      moreover have "unat (of_nat (Suc k) :: uint) = Suc k" using that 1(2) d by (intro unat_of_nat_small) simp
      ultimately show False by (metis nat.distinct(1) unat_0)
    qed
    then have b0: "m_img s' b = replicate BSIZE 0xff" using IH(3) [of b] by (simp add: t_def)
    have "used_bit (m_img s' (b + of_nat k)) i \<longleftrightarrow> k * ?B + i < n" if k: "k \<le> n div ?B" "i < ?B" for k i
    proof (cases k)
      case 0
      then show ?thesis using b0 used_bit_ones [OF k(2)] True k(2) by simp
    next
      case (Suc k')
      then have "used_bit (m_img s' (b + of_nat k)) i \<longleftrightarrow> k' * ?B + i < ?m" using IH(2) [of k' i] k d by (simp add: add.assoc)
      then show ?thesis using True Suc by auto
    qed
    moreover have "m_img s' x = m_img s x" if x: "\<forall>k \<le> n div ?B. x \<noteq> b + of_nat k" for x
    proof -
      have "x \<noteq> b + 1 + of_nat k" if "k \<le> ?m div ?B" for k using x [rule_format, of "Suc k"] that d by (simp add: add.assoc)
      then have "m_img s' x = m_img t x" using IH(3) by blast
      moreover have "x \<noteq> b" using x [rule_format, of 0] by simp
      ultimately show ?thesis by (simp add: t_def)
    qed
    moreover have "mk_balloc_loop n b s = Ok s'" using True w IH(1) by (subst mk_balloc_loop.simps) simp
    ultimately show ?thesis by blast
  qed
qed

lemma mkfs_layout: "nmeta = 131" "nblocks = 8869" "nbitmap = 3" "sb_bmapstart nativesb = 128" "sb_inodestart nativesb = 102" "FSSIZE = 9000"
  by (simp_all add: nmeta_def nblocks_def nbitmap_def nativesb_def ninodeblocks_def NINODES_def FSSIZE_def LOGSIZE_def IPB_def BSIZE_def)

text \<open>
  C39. The bitmap of a new file system is the one the kernel's allocator reads: with the first \<open>n\<close> blocks
  in use, for every block of the file system the bit the kernel looks at, in the block and at the position it computes,
  is set exactly when the block is one of the first \<open>n\<close>; nothing but the three bitmap blocks is written.
\<close>

theorem mkfs_bitmap:
  assumes n: "unat n < nblocks" and zero: "\<And>k. k < nbitmap \<Longrightarrow> m_img s (sb_bmapstart nativesb + of_nat k) = replicate BSIZE 0"
  shows "\<exists>s'. mk_balloc n s = Ok s' \<and>
    (\<forall>b < FSSIZE. used_bit (m_img s' (BBLOCK (of_nat b) nativesb)) (b mod BPB) \<longleftrightarrow> b < unat n) \<and>
    (\<forall>x. unat x < 128 \<or> 131 \<le> unat x \<longrightarrow> m_img s' x = m_img s x)"
proof -
  let ?B = "BSIZE * 8"
  have n': "sint n = int (unat n)" using n by (intro sint_unat) (simp add: mkfs_layout)
  have dn: "unat n div ?B \<le> 2" using n by (simp add: mkfs_layout BSIZE_def)
  obtain s' where s': "mk_balloc_loop (unat n) 128 s = Ok s'"
    "\<And>k i. k \<le> unat n div ?B \<Longrightarrow> i < ?B \<Longrightarrow> used_bit (m_img s' (128 + of_nat k)) i \<longleftrightarrow> k * ?B + i < unat n"
    "\<And>x. (\<forall>k \<le> unat n div ?B. x \<noteq> 128 + of_nat k) \<Longrightarrow> m_img s' x = m_img s x"
    using mk_balloc_loop_spec [of 128 "unat n" s] dn by auto
  have u: "unat (128 + of_nat k :: uint) = 128 + k" if "k \<le> 2" for k :: nat
    using that by (simp add: unat_word_ariths unat_of_nat_small)
  have "used_bit (m_img s' (BBLOCK (of_nat b) nativesb)) (b mod BPB) \<longleftrightarrow> b < unat n" if b: "b < FSSIZE" for b
  proof -
    let ?k = "b div BPB"
    have B: "BPB = ?B" by (simp add: BPB_def)
    have k2: "?k \<le> 2" using b by (simp add: mkfs_layout BPB_def BSIZE_def)
    have ub: "unat (of_nat b :: uint) = b" "unat (of_nat BPB :: uint) = BPB" "unat (of_nat ?k :: uint) = ?k"
      using b k2 by (simp_all add: mkfs_layout unat_of_nat_small BPB_def BSIZE_def)
    have "(of_nat b :: uint) div of_nat BPB = of_nat ?k" by (simp add: word_unat_eq_iff unat_div ub)
    then have bb: "BBLOCK (of_nat b) nativesb = 128 + of_nat ?k" by (simp add: BBLOCK_def mkfs_layout add.commute)
    have m: "b mod BPB < ?B" by (simp add: B BSIZE_def)
    show ?thesis
    proof (cases "?k \<le> unat n div ?B")
      case True
      then show ?thesis using s'(2) [OF True m] unfolding bb B div_mult_mod_eq by blast
    next
      case False
      then have "128 + of_nat ?k \<noteq> (128 + of_nat k :: uint)" if "k \<le> unat n div ?B" for k
        using that u [of k] u [OF k2] dn by (metis add_left_cancel le_trans)
      then have "m_img s' (128 + of_nat ?k) = replicate BSIZE 0" using s'(3) [of "128 + of_nat ?k"] zero [of ?k] k2 by (simp add: mkfs_layout)
      moreover have "b mod BPB div 8 < BSIZE" using m by linarith
      moreover have "unat n \<le> b"
      proof (rule ccontr)
        assume "\<not> unat n \<le> b"
        then have "b div ?B \<le> unat n div ?B" by (intro div_le_mono) simp
        then show False using False B by simp
      qed
      ultimately show ?thesis unfolding bb by (simp add: used_bit_def)
    qed
  qed
  moreover have "m_img s' x = m_img s x" if "unat x < 128 \<or> 131 \<le> unat x" for x
  proof (rule s'(3), intro allI impI)
    fix k assume "k \<le> unat n div ?B"
    then show "x \<noteq> 128 + of_nat k" using u [of k] dn that by auto
  qed
  moreover have "sint n < int nblocks" "nat (sint n) = unat n" using n n' by linarith+
  then have "mk_balloc n s = Ok s'" using s'(1) by (simp add: mk_balloc_def mkfs_layout)
  ultimately show ?thesis by blast
qed

theorem mkfs_bitmap_witness:
  "\<exists>s'. mk_balloc 5000 \<lparr>m_img = (\<lambda>_. replicate BSIZE 0), m_len = FSSIZE, freeinode = 7, freeblock = 5000\<rparr> = Ok s' \<and>
     used_bit (m_img s' (BBLOCK (of_nat 4999) nativesb)) (4999 mod BPB) \<and> \<not> used_bit (m_img s' (BBLOCK (of_nat 5000) nativesb)) (5000 mod BPB)"
proof -
  obtain s' where "mk_balloc 5000 \<lparr>m_img = (\<lambda>_. replicate BSIZE 0), m_len = FSSIZE, freeinode = 7, freeblock = 5000\<rparr> = Ok s'"
    "\<And>b. b < FSSIZE \<Longrightarrow> used_bit (m_img s' (BBLOCK (of_nat b) nativesb)) (b mod BPB) \<longleftrightarrow> b < 5000"
    using mkfs_bitmap [of 5000 "\<lparr>m_img = (\<lambda>_. replicate BSIZE 0), m_len = FSSIZE, freeinode = 7, freeblock = 5000\<rparr>"]
    by (auto simp: mkfs_layout)
  moreover from this(2) [of 4999] this(2) [of 5000] have "used_bit (m_img s' (BBLOCK (of_nat 4999) nativesb)) (4999 mod BPB)"
    "\<not> used_bit (m_img s' (BBLOCK (of_nat 5000) nativesb)) (5000 mod BPB)" by (simp_all only: mkfs_layout(6))
  ultimately show ?thesis by blast
qed

end
