(* ===== verification/Stdsort.thy ===== *)
theory Stdsort
  imports Prelude "HOL-Library.Multiset"
begin

text \<open>
  Sorting and searching in the C library: \<open>lib/stdlib/heapsort.c\<close> and \<open>lib/stdlib/bsearch.c\<close>. An array is the list of its elements;
  \<open>cmp\<close> is the comparison function of the caller. Shown: \<open>heapsort\<close> sorts, with a comparison that is a total preorder, and
  \<open>bsearch\<close> finds an element exactly when there is one.
\<close>

section \<open>Heapsort\<close>

definition swap :: "nat \<Rightarrow> nat \<Rightarrow> 'a list \<Rightarrow> 'a list" where
  "swap i j xs = xs[i := xs ! j, j := xs ! i]"

text \<open>
  \<open>HEAP(initval)\<close>. Elements are numbered from 1. The callers start with a positive index.
\<close>

function heap_down :: "('a \<Rightarrow> 'a \<Rightarrow> int) \<Rightarrow> nat \<Rightarrow> nat \<Rightarrow> 'a list \<Rightarrow> 'a list" where
  "heap_down cmp nmemb i xs =
     (let j = i * 2 in
      if 0 < i \<and> j \<le> nmemb then
        (let j = (if j < nmemb \<and> cmp (xs ! (j - 1)) (xs ! j) < 0 then j + 1 else j) in
         if cmp (xs ! (j - 1)) (xs ! (i - 1)) \<le> 0 then xs
         else heap_down cmp nmemb j (swap (i - 1) (j - 1) xs))
      else xs)"
  by pat_completeness auto

termination heap_down by (relation "measure (\<lambda>(c, n, i, xs). n - i)") auto

declare heap_down.simps [simp del]

definition heap_build :: "('a \<Rightarrow> 'a \<Rightarrow> int) \<Rightarrow> nat \<Rightarrow> 'a list \<Rightarrow> 'a list" where
  "heap_build cmp nmemb xs = fold (heap_down cmp nmemb) (rev [1..<nmemb div 2 + 1]) xs"

fun heap_take :: "('a \<Rightarrow> 'a \<Rightarrow> int) \<Rightarrow> nat \<Rightarrow> 'a list \<Rightarrow> 'a list" where
  "heap_take cmp 0 xs = xs"
| "heap_take cmp (Suc n) xs = (if n = 0 then xs else heap_take cmp n (heap_down cmp n 1 (swap 0 n xs)))"

definition heapsort :: "('a \<Rightarrow> 'a \<Rightarrow> int) \<Rightarrow> nat \<Rightarrow> 'a list \<Rightarrow> int \<times> 'a list" where
  "heapsort cmp sz xs =
     (if length xs \<le> 1 then (0, xs)
      else if sz = 0 then (-1, xs)
      else (0, heap_take cmp (length xs) (heap_build cmp (length xs) xs)))"

section \<open>Binary search\<close>

text \<open>The index of the element found; \<open>base\<close> is the first of the \<open>lim\<close> elements still to be searched.\<close>

function bsearch_loop :: "('k \<Rightarrow> 'a \<Rightarrow> int) \<Rightarrow> 'k \<Rightarrow> 'a list \<Rightarrow> nat \<Rightarrow> nat \<Rightarrow> nat option" where
  "bsearch_loop cmp key xs base lim =
     (if lim \<noteq> 0 then
        (let p = base + lim div 2; c = cmp key (xs ! p) in
         if c = 0 then Some p
         else if c > 0 then bsearch_loop cmp key xs (p + 1) ((lim - 1) div 2)
         else bsearch_loop cmp key xs base (lim div 2))
      else None)"
  by pat_completeness auto

termination bsearch_loop by (relation "measure (\<lambda>(c, k, xs, b, l). l)") auto

declare bsearch_loop.simps [simp del]

definition bsearch :: "('k \<Rightarrow> 'a \<Rightarrow> int) \<Rightarrow> 'k \<Rightarrow> 'a list \<Rightarrow> nat option" where
  "bsearch cmp key xs = bsearch_loop cmp key xs 0 (length xs)"

text \<open>What the caller owes: \<open>cmp\<close> compares by a total preorder.\<close>

definition total_cmp :: "('a \<Rightarrow> 'a \<Rightarrow> int) \<Rightarrow> bool" where
  "total_cmp cmp \<longleftrightarrow> (\<forall>a b. cmp a b < 0 \<longleftrightarrow> cmp b a > 0) \<and> (\<forall>a b c. cmp a b \<le> 0 \<longrightarrow> cmp b c \<le> 0 \<longrightarrow> cmp a c \<le> 0)"

lemma total_cmpD:
  assumes "total_cmp cmp"
  shows "cmp a b \<le> 0 \<or> cmp b a \<le> 0" "cmp a b \<le> 0 \<Longrightarrow> cmp b c \<le> 0 \<Longrightarrow> cmp a c \<le> 0" "cmp a a \<le> 0" "\<not> cmp a b \<le> 0 \<Longrightarrow> cmp b a \<le> 0"
  using assms unfolding total_cmp_def by (metis linorder_not_le order_less_le order_less_irrefl less_le_not_le)+

section \<open>Searching\<close>

text \<open>The array is sorted for the key: first the elements it is greater than, then the equal ones, then the others.\<close>

definition key_sorted :: "('k \<Rightarrow> 'a \<Rightarrow> int) \<Rightarrow> 'k \<Rightarrow> 'a list \<Rightarrow> bool" where
  "key_sorted cmp key xs \<longleftrightarrow> (\<forall>i j. i \<le> j \<longrightarrow> j < length xs \<longrightarrow> (cmp key (xs ! j) > 0 \<longrightarrow> cmp key (xs ! i) > 0) \<and> (cmp key (xs ! i) < 0 \<longrightarrow> cmp key (xs ! j) < 0))"

lemma bsearch_loop_spec:
  assumes "key_sorted cmp key xs" "base + lim \<le> length xs" "\<And>i. i < base \<Longrightarrow> cmp key (xs ! i) > 0" "\<And>i. base + lim \<le> i \<Longrightarrow> i < length xs \<Longrightarrow> cmp key (xs ! i) < 0"
  shows "case bsearch_loop cmp key xs base lim of Some p \<Rightarrow> p < length xs \<and> cmp key (xs ! p) = 0 | None \<Rightarrow> (\<forall>i < length xs. cmp key (xs ! i) \<noteq> 0)"
  using assms
proof (induction cmp key xs base lim rule: bsearch_loop.induct)
  case (1 cmp key xs base lim)
  show ?case
  proof (cases "lim = 0")
    case True
    have "cmp key (xs ! i) \<noteq> 0" if "i < length xs" for i
    proof (cases "i < base")
      case True
      then show ?thesis using 1(5) by fastforce
    next
      case False
      then show ?thesis using 1(6) [of i] that \<open>lim = 0\<close> by simp
    qed
    then show ?thesis using True by (subst bsearch_loop.simps) simp
  next
    case False
    let ?p = "base + lim div 2" and ?c = "cmp key (xs ! (base + lim div 2))"
    have p: "?p < length xs" using False 1(4) by linarith
    consider "?c = 0" | "?c > 0" | "?c < 0" by linarith
    then show ?thesis
    proof cases
      case 1
      then show ?thesis using False p by (subst bsearch_loop.simps) (simp add: Let_def)
    next
      case c: 2
      have "base + lim div 2 + 1 + (lim - 1) div 2 = base + lim" using False by linarith
      moreover have "cmp key (xs ! i) > 0" if "i < ?p + 1" for i
        using 1(3) c p that unfolding key_sorted_def by (metis Suc_eq_plus1 less_Suc_eq_le)
      ultimately have "case bsearch_loop cmp key xs (?p + 1) ((lim - 1) div 2) of Some p \<Rightarrow> p < length xs \<and> cmp key (xs ! p) = 0 | None \<Rightarrow> (\<forall>i < length xs. cmp key (xs ! i) \<noteq> 0)"
        using 1(1) [OF _ refl refl] False c 1(3-6) by simp
      then show ?thesis using False c by (subst bsearch_loop.simps) (simp add: Let_def)
    next
      case c: 3
      have "cmp key (xs ! i) < 0" if "?p \<le> i" "i < length xs" for i using 1(3) c that unfolding key_sorted_def by blast
      then have "case bsearch_loop cmp key xs base (lim div 2) of Some p \<Rightarrow> p < length xs \<and> cmp key (xs ! p) = 0 | None \<Rightarrow> (\<forall>i < length xs. cmp key (xs ! i) \<noteq> 0)"
        using 1(2) [OF _ refl refl] False c 1(3-6) p by simp
      then show ?thesis using False c by (subst bsearch_loop.simps) (simp add: Let_def)
    qed
  qed
qed

section \<open>The heap\<close>

definition elt :: "'a list \<Rightarrow> nat \<Rightarrow> 'a" where
  "elt xs j = xs ! (j - 1)"

text \<open>
  Every element from the children of \<open>l\<close> on is at most its parent; in \<open>heap_but\<close> the children of \<open>i\<close> are only at most
  the parent of \<open>i\<close>.
\<close>

definition heap_order :: "('a \<Rightarrow> 'a \<Rightarrow> int) \<Rightarrow> nat \<Rightarrow> nat \<Rightarrow> 'a list \<Rightarrow> bool" where
  "heap_order cmp n l xs \<longleftrightarrow> (\<forall>j \<le> n. l \<le> j div 2 \<longrightarrow> cmp (elt xs j) (elt xs (j div 2)) \<le> 0)"

definition heap_but :: "('a \<Rightarrow> 'a \<Rightarrow> int) \<Rightarrow> nat \<Rightarrow> nat \<Rightarrow> nat \<Rightarrow> 'a list \<Rightarrow> bool" where
  "heap_but cmp n l i xs \<longleftrightarrow>
     (\<forall>j \<le> n. l \<le> j div 2 \<longrightarrow> j div 2 \<noteq> i \<longrightarrow> cmp (elt xs j) (elt xs (j div 2)) \<le> 0) \<and>
     (\<forall>j \<le> n. l \<le> i div 2 \<longrightarrow> j div 2 = i \<longrightarrow> cmp (elt xs j) (elt xs (i div 2)) \<le> 0)"

lemma swap_facts [simp]: "length (swap i j xs) = length xs" "i < length xs \<Longrightarrow> j < length xs \<Longrightarrow> mset (swap i j xs) = mset xs"
  by (simp_all add: swap_def mset_swap)

lemma swap_beyond: "i < n \<Longrightarrow> j < n \<Longrightarrow> drop n (swap i j xs) = drop n xs"
  by (simp add: swap_def)

lemma elt_swap:
  assumes "0 < i" "0 < c" "i \<le> length xs" "c \<le> length xs" "0 < j"
  shows "elt (swap (i - 1) (c - 1) xs) j = (if j = i then elt xs c else if j = c then elt xs i else elt xs j)"
  using assms by (auto simp: elt_def swap_def nth_list_update)

lemma heap_but_swap:
  assumes h: "heap_but cmp n l i xs" and l: "0 < l" "l \<le> i" and n: "n \<le> length xs" and c: "c \<le> n" "c div 2 = i"
    and up: "cmp (elt xs i) (elt xs c) \<le> 0" and max: "\<And>j. j \<le> n \<Longrightarrow> j div 2 = i \<Longrightarrow> cmp (elt xs j) (elt xs c) \<le> 0"
  shows "heap_but cmp n l c (swap (i - 1) (c - 1) xs)"
proof -
  have pos: "0 < i" "i < c" "i \<le> length xs" "c \<le> length xs" using l n c by auto
  note e = elt_swap [OF pos(1) _ pos(3,4)]
  have "cmp (elt (swap (i - 1) (c - 1) xs) j) (elt (swap (i - 1) (c - 1) xs) (j div 2)) \<le> 0"
    if j: "j \<le> n" "l \<le> j div 2" "j div 2 \<noteq> c" for j
  proof -
    have j0: "0 < j" "0 < j div 2" "j \<noteq> j div 2" using j l by auto
    consider "j = c" | "j \<noteq> c" "j div 2 = i" | "j = i" | "j \<noteq> c" "j \<noteq> i" "j div 2 \<noteq> i" by blast
    then show ?thesis
    proof cases
      case 1
      then show ?thesis using e j0 c(2) pos up by simp
    next
      case 2
      then show ?thesis using e j0 j pos max by auto
    next
      case 3
      moreover have "i div 2 \<noteq> i" "i div 2 \<noteq> c" using pos by auto
      ultimately show ?thesis using e j0 j pos h c by (auto simp: heap_but_def)
    next
      case 4
      then show ?thesis using e j0 j pos h by (auto simp: heap_but_def)
    qed
  qed
  moreover have "cmp (elt (swap (i - 1) (c - 1) xs) j) (elt (swap (i - 1) (c - 1) xs) (c div 2)) \<le> 0" if "j \<le> n" "j div 2 = c" for j
  proof -
    have "0 < j" "j \<noteq> c" "j \<noteq> i" "l \<le> j div 2" "j div 2 \<noteq> i" using that pos l by auto
    then show ?thesis using e that pos h c by (auto simp: heap_but_def)
  qed
  ultimately show ?thesis by (simp add: heap_but_def)
qed

lemma heap_but_finish:
  assumes "heap_but cmp n l i xs" "\<And>j. j \<le> n \<Longrightarrow> j div 2 = i \<Longrightarrow> cmp (elt xs j) (elt xs i) \<le> 0"
  shows "heap_order cmp n l xs"
  using assms by (auto simp: heap_but_def heap_order_def)

text \<open>What the step of \<open>HEAP\<close> chooses is the greatest child.\<close>

lemma heap_child:
  assumes t: "total_cmp cmp" and i: "0 < i" "i * 2 \<le> n"
    and c: "c = (if i * 2 < n \<and> cmp (xs ! (i * 2 - 1)) (xs ! (i * 2)) < 0 then i * 2 + 1 else i * 2)"
  shows "c \<le> n \<and> c div 2 = i \<and> i < c \<and> (\<forall>j \<le> n. j div 2 = i \<longrightarrow> cmp (elt xs j) (elt xs c) \<le> 0)"
proof -
  have e: "c = (if i * 2 < n \<and> cmp (elt xs (i * 2)) (elt xs (i * 2 + 1)) < 0 then i * 2 + 1 else i * 2)"
    using c by (simp add: elt_def)
  have l: "cmp (elt xs (i * 2)) (elt xs c) \<le> 0" using e total_cmpD(3) [OF t] by auto
  have r: "cmp (elt xs (i * 2 + 1)) (elt xs c) \<le> 0" if "i * 2 + 1 \<le> n"
  proof (cases "cmp (elt xs (i * 2)) (elt xs (i * 2 + 1)) < 0")
    case True
    then show ?thesis using e that total_cmpD(3) [OF t] by simp
  next
    case False
    then have "cmp (elt xs (i * 2 + 1)) (elt xs (i * 2)) \<le> 0" using t unfolding total_cmp_def by (meson linorder_not_le)
    then show ?thesis using e False by simp
  qed
  have "cmp (elt xs j) (elt xs c) \<le> 0" if "j \<le> n" "j div 2 = i" for j
  proof -
    have "j = i * 2 \<or> j = i * 2 + 1" using that(2) by presburger
    then show ?thesis by (elim disjE) (use l r that(1) in simp_all)
  qed
  moreover have "c \<le> n" "c div 2 = i" "i < c" using e i by simp_all
  ultimately show ?thesis by blast
qed

lemma heap_down_spec:
  assumes "total_cmp cmp" "heap_but cmp n l i xs" "0 < l" "l \<le> i" "n \<le> length xs"
  shows "heap_order cmp n l (heap_down cmp n i xs) \<and> mset (heap_down cmp n i xs) = mset xs \<and> drop n (heap_down cmp n i xs) = drop n xs"
  using assms
proof (induction cmp n i xs rule: heap_down.induct)
  case (1 cmp n i xs)
  show ?case
  proof (cases "0 < i \<and> i * 2 \<le> n")
    case False
    then have "\<not> (j \<le> n \<and> j div 2 = i)" for j using 1(4,5) by auto
    then show ?thesis using False heap_but_finish [OF 1(3)] by (subst (1 2 3) heap_down.simps) auto
  next
    case i: True
    define c where "c = (if i * 2 < n \<and> cmp (xs ! (i * 2 - 1)) (xs ! (i * 2)) < 0 then i * 2 + 1 else i * 2)"
    note ch = heap_child [OF 1(2) i [THEN conjunct1] i [THEN conjunct2] c_def]
    have step: "heap_down cmp n i xs = (if cmp (elt xs c) (elt xs i) \<le> 0 then xs else heap_down cmp n c (swap (i - 1) (c - 1) xs))"
      using i by (subst heap_down.simps) (simp add: Let_def elt_def c_def)
    show ?thesis
    proof (cases "cmp (elt xs c) (elt xs i) \<le> 0")
      case True
      then have "cmp (elt xs j) (elt xs i) \<le> 0" if "j \<le> n" "j div 2 = i" for j
        using ch total_cmpD(2) [OF 1(2)] that by blast
      then show ?thesis using True step heap_but_finish [OF 1(3)] by simp
    next
      case False
      have b: "heap_but cmp n l c (swap (i - 1) (c - 1) xs)"
        by (rule heap_but_swap [OF 1(3-6)]) (use ch False total_cmpD(4) [OF 1(2)] in auto)
      have "heap_order cmp n l (heap_down cmp n c (swap (i - 1) (c - 1) xs)) \<and>
          mset (heap_down cmp n c (swap (i - 1) (c - 1) xs)) = mset (swap (i - 1) (c - 1) xs) \<and>
          drop n (heap_down cmp n c (swap (i - 1) (c - 1) xs)) = drop n (swap (i - 1) (c - 1) xs)"
        using 1(1) [OF refl i c_def] False 1(2,4,5,6) b ch by (auto simp: elt_def)
      moreover have "mset (swap (i - 1) (c - 1) xs) = mset xs" "drop n (swap (i - 1) (c - 1) xs) = drop n xs"
        using i ch 1(6) by (auto intro!: swap_facts swap_beyond)
      ultimately show ?thesis using step False by simp
    qed
  qed
qed

section \<open>Heapsort sorts\<close>

lemma heap_build_spec:
  assumes "total_cmp cmp"
  shows "heap_order cmp (length xs) 1 (heap_build cmp (length xs) xs) \<and> mset (heap_build cmp (length xs) xs) = mset xs"
proof -
  have "heap_order cmp (length xs) (l + 1) ys \<Longrightarrow> length ys = length xs \<Longrightarrow>
      heap_order cmp (length xs) 1 (fold (heap_down cmp (length xs)) (rev [1..<l + 1]) ys) \<and>
      mset (fold (heap_down cmp (length xs)) (rev [1..<l + 1]) ys) = mset ys" for l ys
  proof (induction l arbitrary: ys)
    case (Suc l)
    have "heap_but cmp (length xs) (Suc l) (Suc l) ys"
      using Suc(2) by (auto simp: heap_but_def heap_order_def)
    from heap_down_spec [OF assms this] have
      d: "heap_order cmp (length xs) (Suc l) (heap_down cmp (length xs) (Suc l) ys)" "mset (heap_down cmp (length xs) (Suc l) ys) = mset ys"
      using Suc(3) by auto
    from d(2) have "length (heap_down cmp (length xs) (Suc l) ys) = length xs" using Suc(3) by (metis size_mset)
    from Suc(1) [of "heap_down cmp (length xs) (Suc l) ys"] this d show ?case by simp
  qed simp
  moreover have "heap_order cmp (length xs) (length xs div 2 + 1) xs" by (auto simp: heap_order_def div_le_mono) 
  ultimately show ?thesis unfolding heap_build_def by blast
qed

lemma heap_max:
  assumes "total_cmp cmp" "heap_order cmp n 1 xs" "0 < j" "j \<le> n"
  shows "cmp (elt xs j) (elt xs 1) \<le> 0"
  using assms(3,4)
proof (induction j rule: less_induct)
  case (less j)
  show ?case
  proof (cases "j = 1")
    case True
    then show ?thesis using total_cmpD(3) [OF assms(1)] by simp
  next
    case False
    then have "cmp (elt xs (j div 2)) (elt xs 1) \<le> 0" "cmp (elt xs j) (elt xs (j div 2)) \<le> 0"
      using less assms(2) by (auto simp: heap_order_def)
    then show ?thesis using total_cmpD(2) [OF assms(1)] by blast
  qed
qed

abbreviation sorted_by :: "('a \<Rightarrow> 'a \<Rightarrow> int) \<Rightarrow> 'a list \<Rightarrow> bool" where
  "sorted_by cmp \<equiv> sorted_wrt (\<lambda>a b. cmp a b \<le> 0)"

text \<open>The first \<open>n\<close> elements are a heap, the others are sorted and at least those of the heap.\<close>

definition taking :: "('a \<Rightarrow> 'a \<Rightarrow> int) \<Rightarrow> nat \<Rightarrow> 'a list \<Rightarrow> bool" where
  "taking cmp n xs \<longleftrightarrow> n \<le> length xs \<and> heap_order cmp n 1 xs \<and> sorted_by cmp (drop n xs) \<and>
     (\<forall>x \<in> set (take n xs). \<forall>y \<in> set (drop n xs). cmp x y \<le> 0)"

lemma swap_last:
  assumes "Suc n \<le> length xs"
  shows "drop n (swap 0 n xs) = elt xs 1 # drop (Suc n) xs" "set (take n (swap 0 n xs)) \<subseteq> set (take (Suc n) xs)"
proof -
  show "drop n (swap 0 n xs) = elt xs 1 # drop (Suc n) xs"
    using assms by (simp add: swap_def elt_def drop_update_swap Cons_nth_drop_Suc [symmetric])
  have "x \<in> set (take (Suc n) xs)" if x: "x \<in> set (take n (swap 0 n xs))" for x
  proof -
    obtain k where "k < n" "x = swap 0 n xs ! k"
      using x assms unfolding in_set_conv_nth by (auto simp: min_def)
    then have "x = take (Suc n) xs ! (if k = 0 then n else k)" "(if k = 0 then n else k) < length (take (Suc n) xs)"
      using Suc_le_lessD [OF assms] order_le_less_trans [OF le0 Suc_le_lessD [OF assms]] by (auto simp: swap_def nth_list_update simp del: length_greater_0_conv)
    then show ?thesis by (metis nth_mem)
  qed
  then show "set (take n (swap 0 n xs)) \<subseteq> set (take (Suc n) xs)" by blast
qed

lemma mset_take_same: "mset xs = mset ys \<Longrightarrow> drop n xs = drop n ys \<Longrightarrow> mset (take n xs) = mset (take n ys)"
  by (metis add_right_cancel append_take_drop_id mset_append)

lemma heap_order_max_set:
  assumes "total_cmp cmp" "heap_order cmp n 1 xs" "x \<in> set (take n xs)"
  shows "cmp x (elt xs 1) \<le> 0"
proof -
  obtain k where "k < n" "x = elt xs (Suc k)" using assms(3) by (auto simp: in_set_conv_nth elt_def)
  then show ?thesis using heap_max [OF assms(1,2), of "Suc k"] by simp
qed

lemma taking_step:
  assumes t: "total_cmp cmp" and k: "taking cmp (Suc n) xs" and n: "0 < n"
  shows "taking cmp n (heap_down cmp n 1 (swap 0 n xs)) \<and> mset (heap_down cmp n 1 (swap 0 n xs)) = mset xs"
proof -
  let ?ys = "swap 0 n xs" and ?zs = "heap_down cmp n 1 (swap 0 n xs)"
  have len: "Suc n \<le> length xs" and h: "heap_order cmp (Suc n) 1 xs" using k by (auto simp: taking_def)
  have "elt ?ys j = elt xs j" if "1 < j" "j \<le> n" for j
    using elt_swap [of 1 "Suc n" xs j] that len by simp
  then have "heap_but cmp n 1 1 ?ys" using h by (auto simp: heap_but_def heap_order_def)
  from heap_down_spec [OF t this] have d: "heap_order cmp n 1 ?zs" "mset ?zs = mset ?ys" "drop n ?zs = drop n ?ys"
    using len by auto
  have m: "mset ?ys = mset xs" by (rule swap_facts) (use len in auto)
  have tk: "set (take n ?zs) \<subseteq> set (take (Suc n) xs)"
    using swap_last(2) [OF len] mset_take_same [OF d(2,3)] by (metis set_mset_mset)
  have dr: "drop n ?zs = elt xs 1 # drop (Suc n) xs" using swap_last(1) [OF len] d(3) by simp
  have "elt xs 1 \<in> set (take (Suc n) xs)" using len by (cases xs) (auto simp: elt_def)
  then have "sorted_by cmp (drop n ?zs)" using k dr by (auto simp: taking_def)
  moreover have "cmp x y \<le> 0" if "x \<in> set (take n ?zs)" "y \<in> set (drop n ?zs)" for x y
  proof -
    have "x \<in> set (take (Suc n) xs)" using that(1) tk by blast
    then show ?thesis using that(2) dr heap_order_max_set [OF t h] k by (auto simp: taking_def)
  qed
  moreover have "n \<le> length ?zs" using d(2) m len by (metis Suc_leD size_mset)
  ultimately show ?thesis using d m by (simp add: taking_def)
qed

lemma heap_take_spec:
  assumes "total_cmp cmp" "taking cmp n xs" "0 < n"
  shows "sorted_by cmp (heap_take cmp n xs) \<and> mset (heap_take cmp n xs) = mset xs"
  using assms
proof (induction cmp n xs rule: heap_take.induct)
  case (2 cmp n xs)
  show ?case
  proof (cases "n = 0")
    case True
    then show ?thesis using 2(3) by (cases xs) (auto simp: taking_def)
  next
    case False
    then show ?thesis using 2(1,2) taking_step [OF 2(2,3)] by simp
  qed
qed simp

lemma sorted_by_key:
  assumes t: "total_cmp cmp" and "sorted_by cmp xs"
  shows "key_sorted cmp key xs"
proof -
  have le: "cmp (xs ! i) (xs ! j) \<le> 0" if "i \<le> j" "j < length xs" for i j
    using that assms(2) total_cmpD(3) [OF t] sorted_wrt_nth_less [of _ xs i j] by (cases "i = j") auto
  have gt: "0 < cmp a b \<longleftrightarrow> \<not> cmp a b \<le> 0" "cmp a b < 0 \<longleftrightarrow> \<not> cmp b a \<le> 0" for a b
    using t unfolding total_cmp_def by (auto simp: not_le)
  show ?thesis unfolding key_sorted_def gt using le total_cmpD(2) [OF t] by blast
qed

text \<open>
  C40: with a comparison that is a total preorder, \<open>heapsort\<close> returns 0 and leaves in the array a sorted permutation of what it
  held, for an array of any length (one of at most one element is left alone, whatever the size of its elements); in the array
  so sorted \<open>bsearch\<close> finds, for every key, the index of an element equal to the key, and it returns \<open>NULL\<close> only
  when the array held no such element.
\<close>

theorem heapsort_bsearch:
  assumes "total_cmp cmp" "sz \<noteq> 0 \<or> length xs \<le> 1"
  shows "\<exists>ys. heapsort cmp sz xs = (0, ys) \<and> mset ys = mset xs \<and> sorted_by cmp ys \<and>
    (\<forall>key. case bsearch cmp key ys of Some p \<Rightarrow> p < length ys \<and> cmp key (ys ! p) = 0 | None \<Rightarrow> \<forall>x \<in> set xs. cmp key x \<noteq> 0)"
proof -
  obtain ys where ys: "heapsort cmp sz xs = (0, ys)" "mset ys = mset xs" "sorted_by cmp ys"
  proof (cases "length xs \<le> 1")
    case True
    then show thesis using that [of xs] by (cases xs) (auto simp: heapsort_def)
  next
    case False
    let ?b = "heap_build cmp (length xs) xs"
    have b: "heap_order cmp (length xs) 1 ?b" "mset ?b = mset xs" using heap_build_spec [OF assms(1)] by auto
    then have "length ?b = length xs" by (metis size_mset)
    then have "taking cmp (length xs) ?b" using b by (simp add: taking_def)
    have "0 < length xs" using False by linarith
    from heap_take_spec [OF assms(1) \<open>taking cmp (length xs) ?b\<close> this] show thesis
      using False assms(2) b that [of "heap_take cmp (length xs) ?b"] by (auto simp: heapsort_def)
  qed
  have "set ys = set xs" using ys(2) by (metis set_mset_mset)
  then have "case bsearch cmp key ys of Some p \<Rightarrow> p < length ys \<and> cmp key (ys ! p) = 0 | None \<Rightarrow> \<forall>x \<in> set xs. cmp key x \<noteq> 0" for key
    using bsearch_loop_spec [OF sorted_by_key [OF assms(1) ys(3)], of 0 "length ys" key] unfolding bsearch_def
    by (auto split: option.splits) (metis in_set_conv_nth)
  then show ?thesis using ys by blast
qed

theorem heapsort_bsearch_witness:
  "\<exists>ys. heapsort (\<lambda>a b. a - b) 4 [3, 1, 2::int] = (0, ys) \<and> mset ys = {#1, 2, 3#} \<and> sorted_by (\<lambda>a b. a - b) ys \<and>
    (\<forall>key. case bsearch (\<lambda>a b. a - b) key ys of Some p \<Rightarrow> p < length ys \<and> key - ys ! p = 0 | None \<Rightarrow> \<forall>x \<in> set [3, 1, 2]. key - x \<noteq> 0)"
proof -
  have m: "mset [3, 1, 2] = {#1, 2, 3::int#}" by simp
  have "total_cmp (\<lambda>a b::int. a - b)" by (simp add: total_cmp_def)
  then show ?thesis unfolding m [symmetric] by (rule heapsort_bsearch) simp
qed

end
