(* ===== verification/Stdqsort.thy ===== *)
theory Stdqsort
  imports Stdsort
begin

text \<open>
  Quicksort of the C library (\<open>lib/stdlib/qsort.c\<close>): partition around the median of three, insertion sort for short
  segments and for those in which partitioning swapped nothing, recursion on the shorter part. The loops that may not end are partial functions,
  whose value is \<open>None\<close> if they do not; shown is that they end and sort.
\<close>

section \<open>Insertion sort\<close>

definition MTHRESH :: nat where
  "MTHRESH = 6"

definition THRESH :: nat where
  "THRESH = 4"

text \<open>How far the element at \<open>t1\<close> goes down: the loop on \<open>t2\<close>.\<close>

fun ins_find :: "('a \<Rightarrow> 'a \<Rightarrow> int) \<Rightarrow> nat \<Rightarrow> 'a \<Rightarrow> 'a list \<Rightarrow> nat \<Rightarrow> nat" where
  "ins_find cmp lo x xs 0 = 0"
| "ins_find cmp lo x xs (Suc t) = (if lo \<le> t \<and> cmp x (xs ! t) < 0 then ins_find cmp lo x xs t else Suc t)"

text \<open>The bytes of the elements are bubbled up one by one; together the element at \<open>t1\<close> moves to \<open>t2\<close>, and those between go up by one.\<close>

definition ins_move :: "nat \<Rightarrow> nat \<Rightarrow> 'a list \<Rightarrow> 'a list" where
  "ins_move t2 t1 xs = take t2 xs @ xs ! t1 # take (t1 - t2) (drop t2 xs) @ drop (Suc t1) xs"

fun ins_loop :: "('a \<Rightarrow> 'a \<Rightarrow> int) \<Rightarrow> nat \<Rightarrow> nat \<Rightarrow> nat \<Rightarrow> 'a list \<Rightarrow> 'a list" where
  "ins_loop cmp lo t1 0 xs = xs"
| "ins_loop cmp lo t1 (Suc k) xs =
     (let t2 = ins_find cmp lo (xs ! t1) xs t1 in
      ins_loop cmp lo (Suc t1) k (if t1 \<noteq> t2 then ins_move t2 t1 xs else xs))"

definition insertion_sort :: "('a \<Rightarrow> 'a \<Rightarrow> int) \<Rightarrow> nat \<Rightarrow> nat \<Rightarrow> 'a list \<Rightarrow> 'a list" where
  "insertion_sort cmp lo nmemb xs = ins_loop cmp lo (lo + 1) (nmemb - 1) xs"

definition SORT :: "('a \<Rightarrow> 'a \<Rightarrow> int) \<Rightarrow> nat \<Rightarrow> nat \<Rightarrow> 'a list \<Rightarrow> 'a list" where
  "SORT cmp lo n xs =
     (if n > 1 then
        (if n = 2 then (if cmp (xs ! (lo + 1)) (xs ! lo) < 0 then swap (lo + 1) lo xs else xs)
         else insertion_sort cmp lo n xs)
      else xs)"

section \<open>Partition\<close>

text \<open>The two scans inside the loop: up from \<open>bot\<close> to an element greater than the one at \<open>mid\<close>, down from \<open>top\<close> to one that is less.\<close>

function scan_up :: "('a \<Rightarrow> 'a \<Rightarrow> int) \<Rightarrow> nat \<Rightarrow> 'a list \<Rightarrow> nat \<Rightarrow> nat" where
  "scan_up cmp mid xs lo = (if lo < mid \<and> cmp (xs ! lo) (xs ! mid) \<le> 0 then scan_up cmp mid xs (lo + 1) else lo)"
  by pat_completeness auto

termination scan_up by (relation "measure (\<lambda>(c, m, xs, b). m - b)") auto

fun scan_down :: "('a \<Rightarrow> 'a \<Rightarrow> int) \<Rightarrow> nat \<Rightarrow> 'a list \<Rightarrow> nat \<Rightarrow> nat" where
  "scan_down cmp mid xs 0 = 0"
| "scan_down cmp mid xs (Suc t) = (if Suc t > mid \<and> cmp (xs ! mid) (xs ! Suc t) \<le> 0 then scan_down cmp mid xs t else Suc t)"

declare scan_up.simps [simp del]

text \<open>The loop; its result is the place of the element partitioned by, whether anything was swapped, and the array.\<close>

partial_function (option) qpart :: "('a \<Rightarrow> 'a \<Rightarrow> int) \<Rightarrow> nat \<Rightarrow> nat \<Rightarrow> nat \<Rightarrow> bool \<Rightarrow> 'a list \<Rightarrow> (nat \<times> bool \<times> 'a list) option" where
  "qpart cmp lo mid hi didswap xs =
     (let lo = scan_up cmp mid xs lo; hi = scan_down cmp mid xs hi in
      if hi > mid then
        (if lo = mid then qpart cmp (lo + 1) hi hi True (swap lo hi xs)
         else qpart cmp (lo + 1) mid (hi - 1) True (swap lo hi xs))
      else if lo = mid then Some (mid, didswap, xs)
      else qpart cmp lo lo (hi - 1) True (swap lo mid xs))"

section \<open>Quicksort\<close>

text \<open>The median of the first, the middle and the last element.\<close>

definition median :: "('a \<Rightarrow> 'a \<Rightarrow> int) \<Rightarrow> nat \<Rightarrow> nat \<Rightarrow> nat \<Rightarrow> 'a list \<Rightarrow> nat" where
  "median cmp lo mid hi xs =
     (let n1 = cmp (xs ! lo) (xs ! mid); n2 = cmp (xs ! mid) (xs ! hi) in
      if n1 < 0 \<and> n2 > 0 then (if cmp (xs ! lo) (xs ! hi) < 0 then hi else lo)
      else if n1 > 0 \<and> n2 < 0 then (if cmp (xs ! lo) (xs ! hi) > 0 then hi else lo)
      else mid)"

partial_function (option) quick_sort :: "('a \<Rightarrow> 'a \<Rightarrow> int) \<Rightarrow> nat \<Rightarrow> nat \<Rightarrow> 'a list \<Rightarrow> 'a list option" where
  "quick_sort cmp lo nmemb xs =
     (let mid = lo + nmemb div 2; hi = lo + nmemb - 1;
          t1 = (if nmemb \<ge> MTHRESH then median cmp lo mid hi xs else mid);
          xs = (if t1 \<noteq> mid then swap t1 mid xs else xs) in
      Option.bind (qpart cmp lo mid hi False xs) (\<lambda>(mid, didswap, xs).
      if \<not> didswap then Some (insertion_sort cmp lo nmemb xs)
      else
        (let nlower = mid - lo; mid = mid + 1; nupper = nmemb - nlower - 1 in
         if nlower > nupper then
           (if nupper \<ge> THRESH then Option.bind (quick_sort cmp mid nupper xs) (\<lambda>xs. quick_sort cmp lo nlower xs)
            else if nlower < THRESH then Some (SORT cmp lo nlower (SORT cmp mid nupper xs))
            else quick_sort cmp lo nlower (SORT cmp mid nupper xs))
         else
           (if nlower \<ge> THRESH then Option.bind (quick_sort cmp lo nlower xs) (\<lambda>xs. quick_sort cmp mid nupper xs)
            else if nupper < THRESH then Some (SORT cmp mid nupper (SORT cmp lo nlower xs))
            else quick_sort cmp mid nupper (SORT cmp lo nlower xs)))))"

definition qsort :: "('a \<Rightarrow> 'a \<Rightarrow> int) \<Rightarrow> 'a list \<Rightarrow> 'a list option" where
  "qsort cmp xs =
     (if length xs \<le> 1 then Some xs
      else if length xs \<ge> THRESH then quick_sort cmp 0 (length xs) xs
      else Some (insertion_sort cmp 0 (length xs) xs))"

section \<open>Segments of the array\<close>

text \<open>\<open>ys\<close> is \<open>xs\<close> with the elements from \<open>lo\<close> up to \<open>hi\<close> permuted.\<close>

definition within :: "nat \<Rightarrow> nat \<Rightarrow> 'a list \<Rightarrow> 'a list \<Rightarrow> bool" where
  "within lo hi xs ys \<longleftrightarrow> mset ys = mset xs \<and> take lo ys = take lo xs \<and> drop hi ys = drop hi xs"

definition seg_sorted :: "('a \<Rightarrow> 'a \<Rightarrow> int) \<Rightarrow> nat \<Rightarrow> nat \<Rightarrow> 'a list \<Rightarrow> bool" where
  "seg_sorted cmp lo hi xs \<longleftrightarrow> (\<forall>i j. lo \<le> i \<longrightarrow> i < j \<longrightarrow> j < hi \<longrightarrow> cmp (xs ! i) (xs ! j) \<le> 0)"

lemma within_refl [simp]: "within lo hi xs xs"
  by (simp add: within_def)

lemma within_trans: "within lo hi xs ys \<Longrightarrow> within lo hi ys zs \<Longrightarrow> within lo hi xs zs"
  by (simp add: within_def)

lemma within_length: "within lo hi xs ys \<Longrightarrow> length ys = length xs"
  unfolding within_def by (metis size_mset)

lemma within_mono:
  assumes "within lo hi xs ys" "lo' \<le> lo" "hi \<le> hi'"
  shows "within lo' hi' xs ys"
proof -
  have "take lo' (take lo ys) = take lo' (take lo xs)" "drop (hi' - hi) (drop hi ys) = drop (hi' - hi) (drop hi xs)" using assms(1) by (simp_all add: within_def)
  then show ?thesis using assms by (simp add: within_def min_absorb1)
qed

lemma within_nth:
  assumes "within lo hi xs ys" "i < lo \<or> hi \<le> i" "i < length xs"
  shows "ys ! i = xs ! i"
proof (cases "i < lo")
  case True
  then show ?thesis using assms(1) nth_take [of i lo ys] nth_take [of i lo xs] by (simp add: within_def)
next
  case False
  then show ?thesis using assms within_length [OF assms(1)] nth_drop [of hi ys "i - hi"] nth_drop [of hi xs "i - hi"] by (simp add: within_def)
qed

text \<open>The elements of the segment stay in it.\<close>

lemma within_mem:
  assumes w: "within lo hi xs ys" and i: "lo \<le> i" "i < hi" "hi \<le> length xs"
  shows "\<exists>j. lo \<le> j \<and> j < hi \<and> ys ! i = xs ! j"
proof -
  let ?m = "\<lambda>zs. take (hi - lo) (drop lo zs)"
  have e: "mset zs = mset (take lo zs) + mset (?m zs) + mset (drop hi zs)" for zs :: "'a list"
  proof -
    have "drop lo zs = ?m zs @ drop hi zs" using i append_take_drop_id [of "hi - lo" "drop lo zs"] by simp
    then have "zs = take lo zs @ ?m zs @ drop hi zs" by (metis append_take_drop_id)
    then show ?thesis by (metis add.assoc mset_append)
  qed
  have "mset (?m ys) = mset (?m xs)" using e [of ys] e [of xs] w unfolding within_def by (metis add_left_cancel add_right_cancel)
  then have "set (?m ys) = set (?m xs)" by (metis set_mset_mset)
  moreover have "ys ! i \<in> set (?m ys)"
    using i within_length [OF w] nth_mem [of "i - lo" "?m ys"] by simp
  ultimately obtain k where "k < length (?m xs)" "ys ! i = ?m xs ! k" by (metis in_set_conv_nth)
  then show ?thesis using i by (intro exI [of _ "lo + k"]) auto
qed

lemma within_swap: "lo \<le> i \<Longrightarrow> i < hi \<Longrightarrow> lo \<le> j \<Longrightarrow> j < hi \<Longrightarrow> hi \<le> length xs \<Longrightarrow> within lo hi xs (swap i j xs)"
  by (simp add: within_def swap_beyond) (simp add: swap_def)

lemma nth_swap: "i < length xs \<Longrightarrow> j < length xs \<Longrightarrow> k < length xs \<Longrightarrow> swap i j xs ! k = (if k = i then xs ! j else if k = j then xs ! i else xs ! k)"
  by (auto simp: swap_def nth_list_update)

section \<open>Insertion sort sorts\<close>

lemma not_less_cmp: "total_cmp cmp \<Longrightarrow> \<not> cmp a b < 0 \<Longrightarrow> cmp b a \<le> 0"
  by (auto simp: total_cmp_def not_less [symmetric])

lemma ins_find_spec:
  assumes "lo \<le> t"
  shows "lo \<le> ins_find cmp lo x xs t \<and> ins_find cmp lo x xs t \<le> t \<and> (\<forall>k. ins_find cmp lo x xs t \<le> k \<longrightarrow> k < t \<longrightarrow> cmp x (xs ! k) < 0) \<and>
    (ins_find cmp lo x xs t = lo \<or> \<not> cmp x (xs ! (ins_find cmp lo x xs t - 1)) < 0)"
  using assms
proof (induction t)
  case (Suc t)
  show ?case
  proof (cases "lo \<le> t \<and> cmp x (xs ! t) < 0")
    case True
    then show ?thesis using Suc.IH by (auto simp: less_Suc_eq)
  next
    case False
    then show ?thesis using Suc.prems by auto
  qed
qed simp

lemma nth_ins_move:
  assumes "t2 \<le> t1" "t1 < length xs" "i < length xs"
  shows "ins_move t2 t1 xs ! i = (if i < t2 then xs ! i else if i = t2 then xs ! t1 else if i \<le> t1 then xs ! (i - 1) else xs ! i)"
  using assms by (auto simp: ins_move_def nth_append nth_Cons' min_def not_less)

lemma within_ins_move:
  assumes "lo \<le> t2" "t2 \<le> t1" "t1 < hi" "hi \<le> length xs"
  shows "within lo hi xs (ins_move t2 t1 xs)"
proof -
  have x: "xs = take t2 xs @ take (t1 - t2) (drop t2 xs) @ xs ! t1 # drop (Suc t1) xs"
    using assms append_take_drop_id [of "t1 - t2" "drop t2 xs"] by (simp add: Cons_nth_drop_Suc)
  have "mset (ins_move t2 t1 xs) = mset (take t2 xs @ take (t1 - t2) (drop t2 xs) @ xs ! t1 # drop (Suc t1) xs)"
    by (simp add: ins_move_def)
  then have "mset (ins_move t2 t1 xs) = mset xs" using x by simp
  moreover have "take lo (ins_move t2 t1 xs) = take lo xs" using assms by (simp add: ins_move_def min_absorb1)
  moreover have "drop hi (ins_move t2 t1 xs) = drop hi xs" using assms by (simp add: ins_move_def Suc_diff_le drop_Cons')
  ultimately show ?thesis by (simp add: within_def)
qed

lemma seg_sorted_ins:
  assumes t: "total_cmp cmp" and s: "seg_sorted cmp lo t1 xs" and l: "lo \<le> t1" "t1 < length xs"
  shows "seg_sorted cmp lo (Suc t1) (ins_move (ins_find cmp lo (xs ! t1) xs t1) t1 xs)"
proof -
  let ?r = "ins_find cmp lo (xs ! t1) xs t1"
  have r: "lo \<le> ?r" "?r \<le> t1" "\<And>k. ?r \<le> k \<Longrightarrow> k < t1 \<Longrightarrow> cmp (xs ! t1) (xs ! k) < 0" "?r = lo \<or> \<not> cmp (xs ! t1) (xs ! (?r - 1)) < 0"
    using ins_find_spec [OF l(1), of cmp "xs ! t1" xs] by auto
  have le: "cmp (xs ! i) (xs ! t1) \<le> 0" if "lo \<le> i" "i < ?r" for i
  proof -
    have "cmp (xs ! (?r - 1)) (xs ! t1) \<le> 0" using r(4) that not_less_cmp [OF t] by auto
    moreover have "cmp (xs ! i) (xs ! (?r - 1)) \<le> 0"
    proof (cases "i = ?r - 1")
      case False
      then have "i < ?r - 1" "?r - 1 < t1" using that r(2) by linarith+
      then show ?thesis using s that(1) unfolding seg_sorted_def by blast
    qed (simp add: total_cmpD(3) [OF t])
    ultimately show ?thesis using total_cmpD(2) [OF t] by blast
  qed
  have o: "cmp (xs ! i) (xs ! j) \<le> 0" if "lo \<le> i" "i < j" "j < t1" for i j using s that by (simp add: seg_sorted_def)
  have "cmp (ins_move ?r t1 xs ! i) (ins_move ?r t1 xs ! j) \<le> 0" if h: "lo \<le> i" "i < j" "j < Suc t1" for i j
  proof -
    have n: "ins_move ?r t1 xs ! k = (if k < ?r then xs ! k else if k = ?r then xs ! t1 else xs ! (k - 1))" if "k \<le> t1" for k
      using nth_ins_move [OF r(2) l(2), of k] that l(2) by simp
    consider "j < ?r" | "i < ?r" "j = ?r" | "i < ?r" "?r < j" | "i = ?r" | "?r < i" using h(2) by linarith
    then show ?thesis
    proof cases
      case 3
      then have "i < j - 1 \<or> i = j - 1" "j - 1 < t1" using h by auto
      then show ?thesis using 3 h n [of i] n [of j] o [of i "j - 1"] total_cmpD(3) [OF t] by auto
    next
      case 4
      then have "cmp (xs ! t1) (xs ! (j - 1)) < 0" using h by (intro r(3)) linarith+
      then show ?thesis using 4 h n [of i] n [of j] by auto
    next
      case 5
      then show ?thesis using h n [of i] n [of j] o [of "i - 1" "j - 1"] r(1) by auto
    qed (use h n [of i] n [of j] o le r(2) in auto)
  qed
  then show ?thesis by (simp add: seg_sorted_def)
qed

lemma ins_loop_spec:
  assumes t: "total_cmp cmp" and "seg_sorted cmp lo t1 xs" "lo \<le> t1" "t1 + k \<le> length xs"
  shows "seg_sorted cmp lo (t1 + k) (ins_loop cmp lo t1 k xs) \<and> within lo (t1 + k) xs (ins_loop cmp lo t1 k xs)"
  using assms(2-)
proof (induction k arbitrary: t1 xs)
  case (Suc k)
  let ?r = "ins_find cmp lo (xs ! t1) xs t1" and ?ys = "ins_move (ins_find cmp lo (xs ! t1) xs t1) t1 xs"
  have r: "lo \<le> ?r" "?r \<le> t1" using ins_find_spec [OF Suc.prems(2), of cmp "xs ! t1" xs] by auto
  have id: "ins_move t1 t1 xs = xs" using Suc.prems(3) by (simp add: ins_move_def Cons_nth_drop_Suc)
  have w: "within lo (Suc t1) xs ?ys" using within_ins_move [OF r, of "Suc t1" xs] Suc.prems(3) by simp
  have s: "seg_sorted cmp lo (Suc t1) ?ys" using seg_sorted_ins [OF t Suc.prems(1,2)] Suc.prems(3) by simp
  from Suc.IH [OF s] have "seg_sorted cmp lo (Suc t1 + k) (ins_loop cmp lo (Suc t1) k ?ys) \<and> within lo (Suc t1 + k) ?ys (ins_loop cmp lo (Suc t1) k ?ys)"
    using Suc.prems(2,3) within_length [OF w] by simp
  moreover have "ins_loop cmp lo t1 (Suc k) xs = ins_loop cmp lo (Suc t1) k ?ys" using id by (cases "t1 = ?r") (simp_all add: Let_def)
  ultimately show ?case using within_trans [OF within_mono [OF w]] by simp
qed simp

lemma insertion_sort_spec:
  assumes "total_cmp cmp" "lo + n \<le> length xs"
  shows "seg_sorted cmp lo (lo + n) (insertion_sort cmp lo n xs)" "within lo (lo + n) xs (insertion_sort cmp lo n xs)"
proof -
  have "seg_sorted cmp lo (lo + 1) xs" by (simp add: seg_sorted_def)
  then show "seg_sorted cmp lo (lo + n) (insertion_sort cmp lo n xs)" "within lo (lo + n) xs (insertion_sort cmp lo n xs)"
    using ins_loop_spec [OF assms(1), of lo "lo + 1" xs "n - 1"] assms(2) unfolding insertion_sort_def by (cases n; simp add: seg_sorted_def)+
qed

lemma SORT_spec:
  assumes t: "total_cmp cmp" and "lo + n \<le> length xs"
  shows "seg_sorted cmp lo (lo + n) (SORT cmp lo n xs)" "within lo (lo + n) xs (SORT cmp lo n xs)"
proof -
  have 2: "seg_sorted cmp lo (lo + 2) zs \<longleftrightarrow> cmp (zs ! lo) (zs ! (lo + 1)) \<le> 0" for zs
  proof -
    have "i = lo \<and> j = Suc lo" if "lo \<le> i" "i < j" "j < Suc (Suc lo)" for i j using that by linarith
    then have "seg_sorted cmp lo (Suc (Suc lo)) zs" if "cmp (zs ! lo) (zs ! Suc lo) \<le> 0" unfolding seg_sorted_def using that by metis
    then show ?thesis by (auto simp: seg_sorted_def)
  qed
  show "seg_sorted cmp lo (lo + n) (SORT cmp lo n xs)"
    using insertion_sort_spec [OF assms] assms(2) 2 not_less_cmp [OF t] by (cases "n \<le> 1") (auto simp: SORT_def nth_swap seg_sorted_def [of _ _ "lo + n" xs])
  show "within lo (lo + n) xs (SORT cmp lo n xs)"
    using insertion_sort_spec [OF assms] assms(2) by (auto simp: SORT_def intro: within_swap)
qed

section \<open>The partition\<close>

lemma scan_up_spec:
  assumes "lo \<le> mid"
  shows "lo \<le> scan_up cmp mid xs lo" "scan_up cmp mid xs lo \<le> mid" "\<And>i. lo \<le> i \<Longrightarrow> i < scan_up cmp mid xs lo \<Longrightarrow> cmp (xs ! i) (xs ! mid) \<le> 0"
    "scan_up cmp mid xs lo < mid \<Longrightarrow> \<not> cmp (xs ! scan_up cmp mid xs lo) (xs ! mid) \<le> 0"
proof -
  have "lo \<le> scan_up cmp mid xs lo \<and> scan_up cmp mid xs lo \<le> mid \<and> (\<forall>i. lo \<le> i \<longrightarrow> i < scan_up cmp mid xs lo \<longrightarrow> cmp (xs ! i) (xs ! mid) \<le> 0) \<and>
    (scan_up cmp mid xs lo < mid \<longrightarrow> \<not> cmp (xs ! scan_up cmp mid xs lo) (xs ! mid) \<le> 0)"
    using assms
  proof (induction "mid - lo" arbitrary: lo)
    case 0
    then show ?case by (simp add: scan_up.simps)
  next
    case (Suc k)
    show ?case
    proof (cases "cmp (xs ! lo) (xs ! mid) \<le> 0")
      case True
      have "lo < mid" using Suc.hyps(2) by linarith
      then have "scan_up cmp mid xs lo = scan_up cmp mid xs (lo + 1)" using True by (subst scan_up.simps) simp
      moreover have "i = lo \<or> lo + 1 \<le> i" if "lo \<le> i" for i using that by linarith
      moreover have "k = mid - (lo + 1)" "lo + 1 \<le> mid" using Suc.hyps(2) by linarith+
      note Suc.hyps(1) [OF this]
      ultimately show ?thesis using True by auto
    next
      case False
      then have "scan_up cmp mid xs lo = lo" by (subst scan_up.simps) simp
      then show ?thesis using False Suc.prems by simp
    qed
  qed
  then show "lo \<le> scan_up cmp mid xs lo" "scan_up cmp mid xs lo \<le> mid" "\<And>i. lo \<le> i \<Longrightarrow> i < scan_up cmp mid xs lo \<Longrightarrow> cmp (xs ! i) (xs ! mid) \<le> 0"
    "scan_up cmp mid xs lo < mid \<Longrightarrow> \<not> cmp (xs ! scan_up cmp mid xs lo) (xs ! mid) \<le> 0" by auto
qed

lemma scan_down_spec:
  assumes "mid \<le> hi"
  shows "mid \<le> scan_down cmp mid xs hi" "scan_down cmp mid xs hi \<le> hi" "\<And>i. scan_down cmp mid xs hi < i \<Longrightarrow> i \<le> hi \<Longrightarrow> cmp (xs ! mid) (xs ! i) \<le> 0"
    "mid < scan_down cmp mid xs hi \<Longrightarrow> \<not> cmp (xs ! mid) (xs ! scan_down cmp mid xs hi) \<le> 0"
proof -
  have "mid \<le> scan_down cmp mid xs hi \<and> scan_down cmp mid xs hi \<le> hi \<and> (\<forall>i. scan_down cmp mid xs hi < i \<longrightarrow> i \<le> hi \<longrightarrow> cmp (xs ! mid) (xs ! i) \<le> 0) \<and>
    (mid < scan_down cmp mid xs hi \<longrightarrow> \<not> cmp (xs ! mid) (xs ! scan_down cmp mid xs hi) \<le> 0)"
    using assms
  proof (induction hi)
    case (Suc t)
    then show ?case by (cases "Suc t > mid \<and> cmp (xs ! mid) (xs ! Suc t) \<le> 0") (auto simp: le_Suc_eq)
  qed auto
  then show "mid \<le> scan_down cmp mid xs hi" "scan_down cmp mid xs hi \<le> hi" "\<And>i. scan_down cmp mid xs hi < i \<Longrightarrow> i \<le> hi \<Longrightarrow> cmp (xs ! mid) (xs ! i) \<le> 0"
    "mid < scan_down cmp mid xs hi \<Longrightarrow> \<not> cmp (xs ! mid) (xs ! scan_down cmp mid xs hi) \<le> 0" by auto
qed

text \<open>The elements before \<open>lo\<close> are at most the one at \<open>mid\<close>, those after \<open>hi\<close> at least; \<open>mid\<close> lies between.\<close>

definition split_at :: "('a \<Rightarrow> 'a \<Rightarrow> int) \<Rightarrow> nat \<Rightarrow> nat \<Rightarrow> nat \<Rightarrow> nat \<Rightarrow> nat \<Rightarrow> 'a list \<Rightarrow> bool" where
  "split_at cmp b e lo mid hi xs \<longleftrightarrow> b \<le> lo \<and> lo \<le> mid \<and> mid \<le> hi \<and> hi < e \<and> e \<le> length xs \<and>
     (\<forall>i. b \<le> i \<longrightarrow> i < lo \<longrightarrow> cmp (xs ! i) (xs ! mid) \<le> 0) \<and> (\<forall>i. hi < i \<longrightarrow> i < e \<longrightarrow> cmp (xs ! mid) (xs ! i) \<le> 0)"

lemma split_at_scan:
  assumes "split_at cmp b e lo mid hi xs"
  shows "split_at cmp b e (scan_up cmp mid xs lo) mid (scan_down cmp mid xs hi) xs"
proof -
  have l: "lo \<le> mid" "mid \<le> hi" using assms by (auto simp: split_at_def)
  note u = scan_up_spec [OF l(1), where cmp = cmp and xs = xs] and d = scan_down_spec [OF l(2), where cmp = cmp and xs = xs]
  have "cmp (xs ! i) (xs ! mid) \<le> 0" if "b \<le> i" "i < scan_up cmp mid xs lo" for i
    using assms u(3) [of i] that by (cases "i < lo") (auto simp: split_at_def)
  moreover have "cmp (xs ! mid) (xs ! i) \<le> 0" if "scan_down cmp mid xs hi < i" "i < e" for i
    using assms d(3) [of i] that by (cases "hi < i") (auto simp: split_at_def)
  ultimately show ?thesis using assms u(1,2) d(1,2) by (simp add: split_at_def)
qed

lemma split_at_swap:
  assumes t: "total_cmp cmp" and s: "split_at cmp b e lo mid hi xs"
  shows "mid < hi \<Longrightarrow> \<not> cmp (xs ! mid) (xs ! hi) \<le> 0 \<Longrightarrow> lo = mid \<Longrightarrow> split_at cmp b e (lo + 1) hi hi (swap lo hi xs)"
    "mid < hi \<Longrightarrow> \<not> cmp (xs ! mid) (xs ! hi) \<le> 0 \<Longrightarrow> lo < mid \<Longrightarrow> \<not> cmp (xs ! lo) (xs ! mid) \<le> 0 \<Longrightarrow> split_at cmp b e (lo + 1) mid (hi - 1) (swap lo hi xs)"
    "hi = mid \<Longrightarrow> lo < mid \<Longrightarrow> \<not> cmp (xs ! lo) (xs ! mid) \<le> 0 \<Longrightarrow> split_at cmp b e lo lo (hi - 1) (swap lo mid xs)"
proof -
  have l: "b \<le> lo" "lo \<le> mid" "mid \<le> hi" "hi < e" "e \<le> length xs" and le: "\<And>i. b \<le> i \<Longrightarrow> i < lo \<Longrightarrow> cmp (xs ! i) (xs ! mid) \<le> 0"
    and ge: "\<And>i. hi < i \<Longrightarrow> i < e \<Longrightarrow> cmp (xs ! mid) (xs ! i) \<le> 0" using s by (auto simp: split_at_def)
  have n: "swap lo j xs ! k = (if k = lo then xs ! j else if k = j then xs ! lo else xs ! k)" if "j \<le> hi" "k < e" for j k
    using nth_swap [of lo xs j k] l that by simp
  have len: "length (swap lo j xs) = length xs" for j by (rule swap_facts)
  note c = total_cmpD(4) [OF t]
  show "split_at cmp b e (lo + 1) hi hi (swap lo hi xs)" if "mid < hi" "\<not> cmp (xs ! mid) (xs ! hi) \<le> 0" "lo = mid"
    unfolding split_at_def using that l le ge n [of hi] c [OF that(2)] len by (simp add: less_Suc_eq)
  show "split_at cmp b e (lo + 1) mid (hi - 1) (swap lo hi xs)" if h: "mid < hi" "\<not> cmp (xs ! mid) (xs ! hi) \<le> 0" "lo < mid" "\<not> cmp (xs ! lo) (xs ! mid) \<le> 0"
  proof -
    have "i = hi \<or> hi < i" if "hi - 1 < i" for i using that h(1) by linarith
    then show ?thesis unfolding split_at_def using h l le ge n [of hi] c [OF h(2)] c [OF h(4)] len by (auto simp: less_Suc_eq)
  qed
  show "split_at cmp b e lo lo (hi - 1) (swap lo mid xs)" if h: "hi = mid" "lo < mid" "\<not> cmp (xs ! lo) (xs ! mid) \<le> 0"
  proof -
    have "i = hi \<or> hi < i" if "hi - 1 < i" for i using that h(1,2) by linarith
    then show ?thesis unfolding split_at_def using h l le ge n [of mid] c [OF h(3)] len by auto
  qed
qed

lemma qpart_spec:
  assumes t: "total_cmp cmp" and "split_at cmp b e lo mid hi xs"
  shows "\<exists>m d ys. qpart cmp lo mid hi didswap xs = Some (m, d, ys) \<and> within b e xs ys \<and> split_at cmp b e m m m ys"
  using assms(2)
proof (induction "hi - lo" arbitrary: lo mid hi didswap xs rule: less_induct)
  case less
  let ?lo = "scan_up cmp mid xs lo" and ?hi = "scan_down cmp mid xs hi"
  have l: "lo \<le> mid" "mid \<le> hi" using less.prems by (auto simp: split_at_def)
  note u = scan_up_spec [OF l(1), where cmp = cmp and xs = xs] and d = scan_down_spec [OF l(2), where cmp = cmp and xs = xs] and s = split_at_scan [OF less.prems]
  have s': "b \<le> ?lo" "?hi < e" "e \<le> length xs" using s by (auto simp: split_at_def)
  have step: ?case if q: "qpart cmp lo mid hi didswap xs = qpart cmp lo' mid' hi' True (swap ?lo j xs)" "hi' - lo' < hi - lo" "?lo \<le> j" "j \<le> ?hi"
    "split_at cmp b e lo' mid' hi' (swap ?lo j xs)" for lo' mid' hi' j
  proof -
    have w: "within b e xs (swap ?lo j xs)" by (rule within_swap) (use s' q(3,4) in auto)
    from less.hyps [OF q(2,5)] show ?thesis unfolding q(1) using within_trans [OF w] by blast
  qed
  consider "mid < ?hi" "?lo = mid" | "mid < ?hi" "?lo < mid" | "?hi = mid" "?lo = mid" | "?hi = mid" "?lo < mid" using u(2) d(1) by linarith
  then show ?case
  proof cases
    case 1
    show ?thesis
      by (rule step [of "?lo + 1" ?hi ?hi ?hi]) (use 1 u d split_at_swap(1) [OF t s] in \<open>auto simp: qpart.simps [of cmp lo mid hi] Let_def\<close>)
  next
    case 2
    show ?thesis
      by (rule step [of "?lo + 1" mid "?hi - 1" ?hi]) (use 2 u d split_at_swap(2) [OF t s] in \<open>auto simp: qpart.simps [of cmp lo mid hi] Let_def\<close>)
  next
    case 3
    then have "qpart cmp lo mid hi didswap xs = Some (mid, didswap, xs)" by (simp add: qpart.simps [of cmp lo mid hi] Let_def)
    then show ?thesis using s 3 by simp
  next
    case 4
    show ?thesis
      by (rule step [of ?lo ?lo "?hi - 1" mid]) (use 4 u d split_at_swap(3) [OF t s] in \<open>auto simp: qpart.simps [of cmp lo mid hi] Let_def\<close>)
  qed
qed

section \<open>Quicksort sorts\<close>

lemma split_at_keep:
  assumes s: "split_at cmp b e m m m xs"
  shows "within b m xs ys \<Longrightarrow> split_at cmp b e m m m ys" "within (m + 1) e xs ys \<Longrightarrow> split_at cmp b e m m m ys"
proof -
  have l: "b \<le> m" "m < e" "e \<le> length xs" using s by (auto simp: split_at_def)
  show "split_at cmp b e m m m ys" if w: "within b m xs ys"
  proof -
    have n: "ys ! i = xs ! i" if "m \<le> i" "i < e" for i using within_nth [OF w, of i] that l by simp
    have "cmp (ys ! i) (xs ! m) \<le> 0" if "b \<le> i" "i < m" for i
      using within_mem [OF w that] l s unfolding split_at_def by fastforce
    then show ?thesis using s n l within_length [OF w] unfolding split_at_def by auto
  qed
  show "split_at cmp b e m m m ys" if w: "within (m + 1) e xs ys"
  proof -
    have n: "ys ! i = xs ! i" if "i \<le> m" for i using within_nth [OF w, of i] that l by simp
    have "cmp (xs ! m) (ys ! i) \<le> 0" if "m < i" "i < e" for i
      using within_mem [OF w _ that(2)] that(1) l s unfolding split_at_def by fastforce
    then show ?thesis using s n l within_length [OF w] unfolding split_at_def by auto
  qed
qed

lemma seg_sorted_keep:
  assumes "within lo hi xs ys" "seg_sorted cmp b e xs" "e \<le> lo \<or> hi \<le> b" "e \<le> length xs"
  shows "seg_sorted cmp b e ys"
proof -
  have "ys ! i = xs ! i" if "b \<le> i" "i < e" for i using within_nth [OF assms(1), of i] that assms(3,4) by auto
  then show ?thesis using assms(2) by (simp add: seg_sorted_def)
qed

lemma split_sorted:
  assumes t: "total_cmp cmp" and s: "split_at cmp b e m m m xs" "seg_sorted cmp b m xs" "seg_sorted cmp (m + 1) e xs"
  shows "seg_sorted cmp b e xs"
  unfolding seg_sorted_def
proof (intro allI impI)
  fix i j assume h: "b \<le> i" "i < j" "j < e"
  have le: "cmp (xs ! i) (xs ! m) \<le> 0" if "i \<le> m" using s(1) h that total_cmpD(3) [OF t] by (cases "i = m") (auto simp: split_at_def)
  have ge: "cmp (xs ! m) (xs ! j) \<le> 0" if "m \<le> j" using s(1) h that total_cmpD(3) [OF t] by (cases "j = m") (auto simp: split_at_def)
  consider "j < m" | "i \<le> m" "m \<le> j" | "m < i" by linarith
  then show "cmp (xs ! i) (xs ! j) \<le> 0"
  proof cases
    case 2
    then show ?thesis using le ge total_cmpD(2) [OF t] by blast
  qed (use s(2,3) h in \<open>auto simp: seg_sorted_def\<close>)
qed

text \<open>A part of the array sorted by some routine.\<close>

definition sorts :: "('a \<Rightarrow> 'a \<Rightarrow> int) \<Rightarrow> nat \<Rightarrow> nat \<Rightarrow> ('a list \<Rightarrow> 'a list option) \<Rightarrow> bool" where
  "sorts cmp lo n f \<longleftrightarrow> (\<forall>xs. lo + n \<le> length xs \<longrightarrow> (\<exists>ys. f xs = Some ys \<and> seg_sorted cmp lo (lo + n) ys \<and> within lo (lo + n) xs ys))"

lemma sorts_both:
  assumes t: "total_cmp cmp" and s: "split_at cmp b (b + n) m m m xs" and k: "m = b + nl" "nu = n - nl - 1"
    and f: "sorts cmp b nl f" "sorts cmp (m + 1) nu g"
  shows "\<exists>ys. Option.bind (f xs) g = Some ys \<and> seg_sorted cmp b (b + n) ys \<and> within b (b + n) xs ys"
    "\<exists>ys. Option.bind (g xs) f = Some ys \<and> seg_sorted cmp b (b + n) ys \<and> within b (b + n) xs ys"
proof -
  have l: "b \<le> m" "m < b + n" "b + n \<le> length xs" using s by (auto simp: split_at_def)
  then have e: "b + nl = m" "m + 1 + nu = b + n" using k by auto
  note f' = f [unfolded sorts_def e]
  obtain ys where ys: "f xs = Some ys" "seg_sorted cmp b m ys" "within b m xs ys" using f'(1) l by (meson le_trans less_imp_le)
  note ly = within_length [OF ys(3)]
  obtain zs where zs: "g ys = Some zs" "seg_sorted cmp (m + 1) (b + n) zs" "within (m + 1) (b + n) ys zs" using f'(2) [rule_format, of ys] l(3) ly by metis
  have "seg_sorted cmp b m zs" by (rule seg_sorted_keep [OF zs(3) ys(2)]) (use l ly in auto)
  then have "seg_sorted cmp b (b + n) zs" using split_sorted [OF t split_at_keep(2) [OF split_at_keep(1) [OF s ys(3)] zs(3)] _ zs(2)] by blast
  moreover have "within b (b + n) xs zs" using within_trans [OF within_mono [OF ys(3)] within_mono [OF zs(3)]] l by simp
  ultimately show "\<exists>ys. Option.bind (f xs) g = Some ys \<and> seg_sorted cmp b (b + n) ys \<and> within b (b + n) xs ys" using ys(1) zs(1) by simp
  obtain us where us: "g xs = Some us" "seg_sorted cmp (m + 1) (b + n) us" "within (m + 1) (b + n) xs us" using f'(2) [rule_format, of xs] l(3) by metis
  note lu = within_length [OF us(3)]
  obtain vs where vs: "f us = Some vs" "seg_sorted cmp b m vs" "within b m us vs" using f'(1) l lu by (metis le_trans less_imp_le)
  have "seg_sorted cmp (m + 1) (b + n) vs" by (rule seg_sorted_keep [OF vs(3) us(2)]) (use l lu in auto)
  then have "seg_sorted cmp b (b + n) vs" using split_sorted [OF t split_at_keep(1) [OF split_at_keep(2) [OF s us(3)] vs(3)] vs(2)] by blast
  moreover have "within b (b + n) xs vs" using within_trans [OF within_mono [OF us(3)] within_mono [OF vs(3)]] l by simp
  ultimately show "\<exists>ys. Option.bind (g xs) f = Some ys \<and> seg_sorted cmp b (b + n) ys \<and> within b (b + n) xs ys" using us(1) vs(1) by simp
qed

lemma SORT_sorts: "total_cmp cmp \<Longrightarrow> sorts cmp lo n (\<lambda>xs. Some (SORT cmp lo n xs))"
  by (simp add: sorts_def SORT_spec)

lemma median_range: "lo \<le> mid \<Longrightarrow> mid \<le> hi \<Longrightarrow> lo \<le> median cmp lo mid hi xs \<and> median cmp lo mid hi xs \<le> hi"
  by (auto simp: median_def Let_def)

lemma quick_sort_sorts:
  assumes t: "total_cmp cmp"
  shows "0 < n \<Longrightarrow> sorts cmp lo n (quick_sort cmp lo n)"
proof (induction n arbitrary: lo rule: less_induct)
  case (less n)
  have "\<exists>ys. quick_sort cmp lo n xs = Some ys \<and> seg_sorted cmp lo (lo + n) ys \<and> within lo (lo + n) xs ys" if len: "lo + n \<le> length xs" for xs
  proof -
    define mid where "mid = lo + n div 2"
    define t1 where "t1 = (if n \<ge> MTHRESH then median cmp lo mid (lo + n - 1) xs else mid)"
    define xs1 where "xs1 = (if t1 \<noteq> mid then swap t1 mid xs else xs)"
    have m: "lo \<le> mid" "mid \<le> lo + n - 1" using less.prems by (auto simp: mid_def)
    have t1: "lo \<le> t1" "t1 \<le> lo + n - 1" using median_range [OF m] m by (auto simp: t1_def)
    have w1: "within lo (lo + n) xs xs1" unfolding xs1_def using t1 m len less.prems by (auto intro!: within_swap)
    then have "split_at cmp lo (lo + n) lo mid (lo + n - 1) xs1" using m len less.prems within_length [OF w1] by (auto simp: split_at_def)
    from qpart_spec [OF t this] obtain p d ys where q: "qpart cmp lo mid (lo + n - 1) False xs1 = Some (p, d, ys)" "within lo (lo + n) xs1 ys"
      "split_at cmp lo (lo + n) p p p ys" by blast
    have w: "within lo (lo + n) xs ys" by (rule within_trans [OF w1 q(2)])
    have ly: "lo + n \<le> length ys" using within_length [OF w] len by simp
    define nl where "nl = p - lo"
    define nu where "nu = n - nl - 1"
    have p: "p = lo + nl" "nl < n" "nu < n" using q(3) by (auto simp: split_at_def nl_def nu_def)
    have nu: "n - Suc nl = nu" by (simp add: nu_def)
    define F where "F = (if nl \<ge> THRESH then quick_sort cmp lo nl else (\<lambda>xs. Some (SORT cmp lo nl xs)))"
    define G where "G = (if nu \<ge> THRESH then quick_sort cmp (p + 1) nu else (\<lambda>xs. Some (SORT cmp (p + 1) nu xs)))"
    have FG: "sorts cmp lo nl F" "sorts cmp (p + 1) nu G"
      using less.IH [OF p(2), of lo] less.IH [OF p(3), of "p + 1"] SORT_sorts [OF t] by (auto simp: F_def G_def THRESH_def)
    have "quick_sort cmp lo n xs = (if \<not> d then Some (insertion_sort cmp lo n ys) else if nl > nu then Option.bind (G ys) F else Option.bind (F ys) G)"
      using q(1) unfolding quick_sort.simps [of cmp lo n xs] Let_def mid_def [symmetric] t1_def [symmetric] xs1_def [symmetric]
      using nu by (auto simp: F_def G_def nl_def [symmetric])
    moreover note sorts_both [OF t q(3) p(1) nu_def FG] insertion_sort_spec [OF t ly]
    ultimately obtain zs where "quick_sort cmp lo n xs = Some zs" "seg_sorted cmp lo (lo + n) zs" "within lo (lo + n) ys zs"
      by (cases d; cases "nl > nu") auto
    then show ?thesis using within_trans [OF w] by blast
  qed
  then show ?case by (simp add: sorts_def)
qed

section \<open>Property\<close>

text \<open>
  C16. With a comparison that is a total preorder, \<open>qsort\<close> returns, for an array of any length and contents, and leaves a sorted permutation of the array:
  the partitioning loops and the recursion end, on arrays that are sorted, reversed or all equal as on others.
\<close>

theorem qsort_sorts:
  assumes "total_cmp cmp"
  shows "\<exists>ys. qsort cmp xs = Some ys \<and> mset ys = mset xs \<and> sorted_by cmp ys"
proof -
  have fin: "mset ys = mset xs \<and> sorted_by cmp ys" if "seg_sorted cmp 0 (length xs) ys" "within 0 (length xs) xs ys" for ys
    using that within_length [OF that(2)] by (simp add: within_def seg_sorted_def sorted_wrt_iff_nth_less)
  show ?thesis
  proof (cases "length xs \<le> 1")
    case True
    then show ?thesis by (cases xs) (auto simp: qsort_def)
  next
    case False
    then have "0 < length xs" by linarith
    from quick_sort_sorts [OF assms this, of 0] insertion_sort_spec [OF assms, of 0 "length xs" xs] False
    show ?thesis using fin by (auto simp: sorts_def qsort_def)
  qed
qed

theorem qsort_sorts_witness:
  "\<exists>ys. qsort (\<lambda>a b. a - b) [5, 3, 9, 1, 2, 8, 3, 7::int] = Some ys \<and> mset ys = {#1, 2, 3, 3, 5, 7, 8, 9#} \<and> sorted_by (\<lambda>a b. a - b) ys"
proof -
  have m: "{#1, 2, 3, 3, 5, 7, 8, 9#} = mset [5, 3, 9, 1, 2, 8, 3, 7::int]" by simp
  have "total_cmp (\<lambda>a b::int. a - b)" by (simp add: total_cmp_def)
  then show ?thesis unfolding m by (rule qsort_sorts)
qed

end
