(* ===== verification/Malloc.thy ===== *)
theory Malloc
  imports Proc
begin

text \<open>
  The allocator of the C library, \<open>lib/stdlib/malloc.c\<close>: the memory of a process between its slots, the
  list of free slots, and \<open>malloc\<close>, \<open>free\<close>, \<open>realloc\<close> and \<open>calloc\<close> over the break system calls of the kernel. Then the layout of the
  heap, the steps that change it, and that \<open>free\<close> keeps it.
\<close>

section \<open>Memory\<close>

type_synonym mem = "uint \<Rightarrow> uchar"

definition peek :: "mem \<Rightarrow> uint \<Rightarrow> uint" where
  "peek m a = be32 (m a) (m (a + 1)) (m (a + 2)) (m (a + 3))"

definition poke :: "uint \<Rightarrow> uint \<Rightarrow> mem \<Rightarrow> mem" where
  "poke a v m = m(a := enc32 v ! 0, a + 1 := enc32 v ! 1, a + 2 := enc32 v ! 2, a + 3 := enc32 v ! 3)"

definition BRKSIZE :: uint where "BRKSIZE = 1024"
definition PTRSIZE :: uint where "PTRSIZE = 4"

definition Align :: "uint \<Rightarrow> uint \<Rightarrow> uint" where
  "Align x a = (x + (a - 1)) AND NOT (a - 1)"

definition NextSlot :: "mem \<Rightarrow> uint \<Rightarrow> uint" where "NextSlot m p = peek m (p - PTRSIZE)"
definition NextFree :: "mem \<Rightarrow> uint \<Rightarrow> uint" where "NextFree m p = peek m p"
definition set_NextSlot :: "uint \<Rightarrow> uint \<Rightarrow> mem \<Rightarrow> mem" where "set_NextSlot p v = poke (p - PTRSIZE) v"
definition set_NextFree :: "uint \<Rightarrow> uint \<Rightarrow> mem \<Rightarrow> mem" where "set_NextFree p v = poke p v"

text \<open>
  The state of the program: its memory, \<open>_bottom\<close>, \<open>_top\<close> and \<open>_empty\<close>, and the kernel, which keeps its break. \<open>assert_failed\<close> prints a
  message and exits.
\<close>

record heap =
  hmem :: mem
  bottom :: uint
  htop :: uint
  empty :: uint
  kern :: kern_state

definition ASSERT :: "bool \<Rightarrow> 'a res \<Rightarrow> 'a res" where
  "ASSERT b k = (if b then k else Panic ''assert failed in lib/malloc.c'')"

definition upd_mem :: "(mem \<Rightarrow> mem) \<Rightarrow> heap \<Rightarrow> heap" where
  "upd_mem f h = h\<lparr>hmem := f (hmem h)\<rparr>"

text \<open>\<open>if (prev) NextFree(prev) = v; else _empty = v;\<close>\<close>

definition set_link :: "uint \<Rightarrow> uint \<Rightarrow> heap \<Rightarrow> heap" where
  "set_link prev v h = (if prev \<noteq> 0 then upd_mem (set_NextFree prev v) h else h\<lparr>empty := v\<rparr>)"

text \<open>
  The walks along the free list end when the list does; the fuel is the number of addresses that can hold a slot, and a list that
  does not end within it has a cycle, along which the walk never ends.
\<close>

definition HFUEL :: nat where "HFUEL = 2 ^ 32"

text \<open>\<open>for (prev = 0, p = _empty; p != 0; prev = p, p = NextFree(p)) if (stop) break;\<close>, the form of all the walks.\<close>

fun walk :: "nat \<Rightarrow> mem \<Rightarrow> (uint \<Rightarrow> bool) \<Rightarrow> uint \<Rightarrow> uint \<Rightarrow> (uint \<times> uint) res" where
  "walk k m stop prev p =
     (if k = 0 then Hang
      else if p = 0 \<or> stop p then Ok (prev, p)
      else walk (k - 1) m stop p (NextFree m p))"

declare walk.simps [simp del]

section \<open>free\<close>

definition merge_next :: "uint \<Rightarrow> uint \<Rightarrow> heap \<Rightarrow> heap res" where
  "merge_next p nxt h =
     (if nxt \<noteq> 0 then
        ASSERT (NextSlot (hmem h) p \<le> nxt)
          (if NextSlot (hmem h) p = nxt then
             (let h = upd_mem (set_NextSlot p (NextSlot (hmem h) nxt)) h
              in Ok (upd_mem (set_NextFree p (NextFree (hmem h) nxt)) h))
           else Ok h)
      else Ok h)"

definition merge_prev :: "uint \<Rightarrow> uint \<Rightarrow> heap \<Rightarrow> heap res" where
  "merge_prev prev p h =
     (if prev \<noteq> 0 then
        ASSERT (NextSlot (hmem h) prev \<le> p)
          (if NextSlot (hmem h) prev = p then
             (let h = upd_mem (set_NextSlot prev (NextSlot (hmem h) p)) h
              in Ok (upd_mem (set_NextFree prev (NextFree (hmem h) p)) h))
           else Ok h)
      else Ok h)"

definition free :: "uint \<Rightarrow> heap \<Rightarrow> heap res" where
  "free p h =
     ASSERT (NextSlot (hmem h) p > p)
       (rbind (walk HFUEL (hmem h) (\<lambda>q. p < q) 0 (empty h)) (\<lambda>(prev, nxt).
        let h = upd_mem (set_NextFree p nxt) h;
            h = set_link prev p h
        in rbind (merge_next p nxt h) (merge_prev prev p)))"

section \<open>malloc\<close>

definition grow :: "uint \<Rightarrow> uint \<Rightarrow> heap \<Rightarrow> (int \<times> heap) res" where
  "grow sp len h =
     ASSERT (NextSlot (hmem h) (htop h) = 0)
       (let p = Align (htop h + len) BRKSIZE in
        if p < htop h then Ok (0, h)
        else
          rbind (sys_brk sp p (kern h)) (\<lambda>(r, k).
            let h = h\<lparr>kern := k\<rparr> in
            if r \<noteq> 0 then Ok (0, h)
            else
              (let h = upd_mem (set_NextSlot (htop h) p) h;
                   h = upd_mem (set_NextSlot p 0) h
               in rbind (free (htop h) h) (\<lambda>h. Ok (1, h\<lparr>htop := p\<rparr>)))))"

text \<open>A free slot is skipped when it is too small.\<close>

definition fits :: "mem \<Rightarrow> uint \<Rightarrow> uint \<Rightarrow> bool" where
  "fits m len p \<longleftrightarrow> \<not> (p + len > NextSlot m p \<or> p + len \<le> p)"

definition split_slot :: "uint \<Rightarrow> uint \<Rightarrow> heap \<Rightarrow> heap res" where
  "split_slot len p h =
     (let nxt = NextSlot (hmem h) p; new = p + len in
      if new + PTRSIZE < nxt then
        ASSERT (new + PTRSIZE > new)
          (let h = upd_mem (set_NextSlot new nxt) h;
               h = upd_mem (set_NextSlot p new) h;
               h = upd_mem (set_NextFree new (NextFree (hmem h) p)) h
           in Ok (upd_mem (set_NextFree p new) h))
      else Ok h)"

definition take_slot :: "uint \<Rightarrow> uint \<Rightarrow> uint \<Rightarrow> heap \<Rightarrow> (uint \<times> heap) res" where
  "take_slot len prev p h = rbind (split_slot len p h) (\<lambda>h. Ok (p, set_link prev (NextFree (hmem h) p) h))"

definition first_slot :: "uint \<Rightarrow> heap \<Rightarrow> (bool \<times> heap) res" where
  "first_slot sp h =
     (if bottom h = 0 then
        rbind (sys_sbrk sp (2 * PTRSIZE) (kern h)) (\<lambda>(p, k).
          let h = h\<lparr>kern := k\<rparr> in
          if p = -1 then Ok (False, h)
          else
            (let p = Align p PTRSIZE in
             ASSERT (p + PTRSIZE > p)
               (let p = p + PTRSIZE in Ok (True, upd_mem (set_NextSlot p 0) (h\<lparr>htop := p, bottom := p\<rparr>)))))
      else Ok (True, h))"

fun malloc_try :: "nat \<Rightarrow> uint \<Rightarrow> uint \<Rightarrow> heap \<Rightarrow> (uint \<times> heap) res" where
  "malloc_try 0 sp sz h = ASSERT False (Ok (0, h))"
| "malloc_try (Suc n) sp sz h =
     (let len = Align sz PTRSIZE + PTRSIZE in
      if len < 2 * PTRSIZE then Ok (0, h)
      else
        rbind (first_slot sp h) (\<lambda>(ok, h).
          if \<not> ok then Ok (0, h)
          else
            rbind (walk HFUEL (hmem h) (fits (hmem h) len) 0 (empty h)) (\<lambda>(prev, p).
              if p \<noteq> 0 then take_slot len prev p h
              else rbind (grow sp len h) (\<lambda>(r, h). if r = 0 then Ok (0, h) else malloc_try n sp sz h))))"

declare malloc_try.simps [simp del]

definition malloc :: "uint \<Rightarrow> uint \<Rightarrow> heap \<Rightarrow> (uint \<times> heap) res" where
  "malloc sp sz h = malloc_try 2 sp (if sz = 0 then PTRSIZE else sz) h"

section \<open>realloc and calloc\<close>

text \<open>The first part of \<open>realloc\<close>: a free slot just behind the old one becomes part of it.\<close>

definition absorb_next :: "uint \<Rightarrow> uint \<Rightarrow> uint \<Rightarrow> heap \<Rightarrow> heap" where
  "absorb_next old prev p h =
     (let h = upd_mem (set_NextSlot old (NextSlot (hmem h) p)) h in set_link prev (NextFree (hmem h) p) h)"

definition copy_mem :: "uint \<Rightarrow> uint \<Rightarrow> nat \<Rightarrow> mem \<Rightarrow> mem" where
  "copy_mem dst src n m = (\<lambda>x. if unat (x - dst) < n then m (src + (x - dst)) else m x)"

definition realloc :: "uint \<Rightarrow> uint \<Rightarrow> uint \<Rightarrow> heap \<Rightarrow> (uint \<times> heap) res" where
  "realloc sp old sz h =
     (if sz > - (2 * PTRSIZE) then Ok (0, h)
      else
        (let len = Align sz PTRSIZE + PTRSIZE; nxt = NextSlot (hmem h) old; n = nxt - old in
         rbind (walk HFUEL (hmem h) (\<lambda>q. q > nxt \<or> q = nxt) 0 (empty h)) (\<lambda>(prev, p).
         let (h, nxt) =
               (if p \<noteq> 0 \<and> p = nxt then
                  (let h = absorb_next old prev p h in (h, NextSlot (hmem h) old))
                else (h, nxt));
             new = old + len
         in if new \<le> nxt \<and> new \<ge> old then
              (if new + PTRSIZE < nxt then
                 ASSERT (new + PTRSIZE > new)
                   (let h = upd_mem (set_NextSlot new nxt) h;
                        h = upd_mem (set_NextSlot old new) h
                    in rbind (free new h) (\<lambda>h. Ok (old, h)))
               else Ok (old, h))
            else
              rbind (malloc sp sz h) (\<lambda>(new, h).
                if new = 0 then Ok (0, h)
                else rbind (free old (upd_mem (copy_mem new old (unat n)) h)) (\<lambda>h. Ok (new, h))))))"

definition zero_mem :: "uint \<Rightarrow> nat \<Rightarrow> mem \<Rightarrow> mem" where
  "zero_mem cp n m = (\<lambda>x. if unat (x - cp) < n then 0 else m x)"

definition calloc :: "uint \<Rightarrow> uint \<Rightarrow> uint \<Rightarrow> heap \<Rightarrow> (uint \<times> heap) res" where
  "calloc sp n sz h =
     (let n = n * sz in
      rbind (malloc sp n h) (\<lambda>(cp, h). if cp = 0 then Ok (0, h) else Ok (cp, upd_mem (zero_mem cp (unat n)) h)))"

section \<open>Cells\<close>

definition aligned :: "uint \<Rightarrow> bool" where "aligned a \<longleftrightarrow> 4 dvd unat a"

lemma aligned_bound: "aligned a \<Longrightarrow> unat a + 4 \<le> 2 ^ 32"
proof -
  assume "aligned a"
  moreover have "unat a < 2 ^ 32" using unsigned_less [of a] by simp
  ultimately show ?thesis by (auto simp: aligned_def elim!: dvdE)
qed

lemma unat_plus_small: "unat a + unat b < 2 ^ 32 \<Longrightarrow> unat (a + b :: uint) = unat a + unat b"
  by (subst unat_add_lem [symmetric]) simp

lemma aligned_off:
  assumes "aligned a"
  shows "unat (a + 1) = unat a + 1" "unat (a + 2) = unat a + 2" "unat (a + 3) = unat a + 3"
  using aligned_bound [OF assms] by (auto simp: unat_plus_small)

lemma aligned_less: "aligned a \<Longrightarrow> aligned b \<Longrightarrow> unat a < unat b \<Longrightarrow> unat a + 4 \<le> unat b"
  by (auto simp: aligned_def elim!: dvdE)

lemma poke_outside:
  assumes "aligned a" "unat x < unat a \<or> unat a + 4 \<le> unat x"
  shows "poke a v m x = m x"
  using assms aligned_off [OF assms(1)] by (auto simp: poke_def)

lemma peek_poke: "peek (poke a v m) a = v"
  using be32_nth_enc32 [of v] by (simp add: peek_def poke_def add.assoc)

lemma peek_poke_other:
  assumes "aligned a" "aligned b" "a \<noteq> b"
  shows "peek (poke a v m) b = peek m b"
proof -
  have "unat a + 4 \<le> unat b \<or> unat b + 4 \<le> unat a"
    using aligned_less [OF assms(1,2)] aligned_less [OF assms(2,1)] assms(3) by (metis linorder_neqE_nat unsigned_word_eqI)
  then show ?thesis unfolding peek_def
    using poke_outside [OF assms(1)] aligned_off [OF assms(2)] by auto
qed

section \<open>The layout\<close>

text \<open>\<open>b\<close> is the least element of \<open>X\<close> above \<open>a\<close>, or 0 when there is none.\<close>

definition is_succ :: "uint set \<Rightarrow> uint \<Rightarrow> uint \<Rightarrow> bool" where
  "is_succ X a b \<longleftrightarrow> (if b = 0 then \<forall>x \<in> X. x \<le> a else b \<in> X \<and> a < b \<and> (\<forall>x \<in> X. a < x \<longrightarrow> b \<le> x))"

text \<open>
  The addresses of slots: aligned, at least 8 bytes apart (the header of the next slot and a link to the next free slot fit), each
  header holding the next one. The slots that are free are linked in the order of their addresses. The last slot is only a header.
\<close>

definition slots_ok :: "uint set \<Rightarrow> uint \<Rightarrow> bool" where
  "slots_ok S t \<longleftrightarrow> t \<in> S \<and> (\<forall>a \<in> S. aligned a \<and> 8 \<le> unat a \<and> a \<le> t) \<and> (\<forall>a \<in> S. \<forall>b \<in> S. a < b \<longrightarrow> unat a + 8 \<le> unat b)"

definition layout :: "mem \<Rightarrow> uint \<Rightarrow> uint \<Rightarrow> uint set \<Rightarrow> uint set \<Rightarrow> bool" where
  "layout m e t S F \<longleftrightarrow> slots_ok S t \<and> (\<forall>a \<in> S. is_succ S a (NextSlot m a)) \<and>
     F \<subseteq> S - {t} \<and> (\<forall>f \<in> F. is_succ F f (NextFree m f)) \<and> is_succ F 0 e"

text \<open>The bytes of a slot that are its owner's.\<close>

definition block :: "mem \<Rightarrow> uint \<Rightarrow> uint set" where
  "block m a = {x. unat a \<le> unat x \<and> unat x + 4 < unat (NextSlot m a)}"

lemma slots_okD:
  assumes "slots_ok S t" "a \<in> S"
  shows "aligned a" "8 \<le> unat a" "a \<noteq> 0" "a \<le> t" "unat (a - 4) = unat a - 4" "aligned (a - 4)"
proof -
  show a: "aligned a" "8 \<le> unat a" "a \<le> t" using assms by (auto simp: slots_ok_def)
  then show "a \<noteq> 0" by auto
  have "(4::uint) \<le> a" using a(2) by (simp add: word_le_nat_alt)
  then show u: "unat (a - 4) = unat a - 4" by (simp add: unat_sub)
  show "aligned (a - 4)" using a u by (auto simp: aligned_def elim!: dvdE)
qed

lemma slots_ok_gap: "slots_ok S t \<Longrightarrow> a \<in> S \<Longrightarrow> b \<in> S \<Longrightarrow> unat a < unat b \<Longrightarrow> unat a + 8 \<le> unat b"
  by (simp add: slots_ok_def word_less_nat_alt)

lemma cells_differ:
  assumes "slots_ok S t" "a \<in> S" "b \<in> S"
  shows "a - 4 \<noteq> b" "a - 4 = b - 4 \<longleftrightarrow> a = b"
proof -
  show "a - 4 \<noteq> b"
  proof
    assume "a - 4 = b"
    then have "unat b = unat a - 4" using slots_okD(5) [OF assms(1,2)] by simp
    then show False using slots_ok_gap [OF assms(1,3,2)] slots_okD(2) [OF assms(1,2)] by simp
  qed
qed simp

text \<open>Writing a header or a link changes that header or link and no other.\<close>

lemma slot_writes:
  assumes "slots_ok S t" "a \<in> S" "b \<in> S"
  shows "NextSlot (set_NextSlot a v m) b = (if a = b then v else NextSlot m b)"
    "NextFree (set_NextSlot a v m) b = NextFree m b"
    "NextSlot (set_NextFree a v m) b = NextSlot m b"
    "NextFree (set_NextFree a v m) b = (if a = b then v else NextFree m b)"
  using peek_poke peek_poke_other cells_differ [OF assms] cells_differ [OF assms(1,3,2)] slots_okD [OF assms(1,2)] slots_okD [OF assms(1,3)]
  by (auto simp: NextSlot_def NextFree_def set_NextSlot_def set_NextFree_def PTRSIZE_def)

lemma layout_nonzero: "layout m e t S F \<Longrightarrow> f \<in> F \<Longrightarrow> f \<noteq> 0"
  using slots_okD(3) [of S t f] unfolding layout_def by blast

section \<open>Successors\<close>

lemma is_succ_insert:
  assumes "is_succ F p n" "p \<notin> F"
  shows "is_succ (insert p F) p n"
  using assms by (auto simp: is_succ_def)

lemma is_succ_insert_before:
  assumes "is_succ F a n" "a < p" "n = 0 \<or> p < n" "p \<noteq> 0"
  shows "is_succ (insert p F) a p"
  using assms unfolding is_succ_def by (auto split: if_splits)

lemma is_succ_insert_other:
  assumes "is_succ F a b" "\<not> a < p \<or> b \<noteq> 0 \<and> b \<le> p"
  shows "is_succ (insert p F) a b"
  using assms unfolding is_succ_def by (auto split: if_splits)

lemma is_succ_remove:
  assumes "is_succ F a b" "b \<noteq> 0" "is_succ F b c"
  shows "is_succ (F - {b}) a c"
  using assms unfolding is_succ_def by (auto split: if_splits dest: order.strict_trans) (meson le_less_trans order_less_le not_le)+

lemma is_succ_remove_other:
  assumes "is_succ F a c" "c \<noteq> b"
  shows "is_succ (F - {b}) a c"
  using assms unfolding is_succ_def by (auto split: if_splits)

lemma is_succ_unique: "is_succ F a b \<Longrightarrow> is_succ F a c \<Longrightarrow> 0 \<notin> F \<Longrightarrow> b = c"
  unfolding is_succ_def by (auto split: if_splits) (meson antisym leD)+

lemma is_succ_ge: "is_succ F a n \<Longrightarrow> x \<in> F \<Longrightarrow> a < x \<Longrightarrow> n \<noteq> 0 \<and> n \<le> x"
  unfolding is_succ_def by (auto split: if_splits)

lemma is_succ_gt: "is_succ F a n \<Longrightarrow> n \<noteq> 0 \<Longrightarrow> n \<in> F \<and> a < n"
  unfolding is_succ_def by simp

lemma is_succ_before:
  assumes "is_succ F a n" "is_succ F b n" "n \<noteq> 0" "a \<in> F \<or> a = 0" "b \<in> F \<or> b = 0"
  shows "a = b"
proof (rule linorder_cases [of a b])
  assume "a < b"
  then have "b \<in> F" using assms(5) by auto
  then show ?thesis using is_succ_ge [OF assms(1) _ \<open>a < b\<close>] is_succ_gt [OF assms(2,3)] by auto
next
  assume "b < a"
  then have "a \<in> F" using assms(4) by auto
  then show ?thesis using is_succ_ge [OF assms(2) _ \<open>b < a\<close>] is_succ_gt [OF assms(1,3)] by auto
qed

lemma is_succ_between:
  assumes a: "is_succ F a n" "n = 0 \<or> p < n" "a < p" "a \<in> F \<or> a = 0" and f: "f \<in> F" "is_succ F f b" "f \<noteq> a"
  shows "\<not> f < p \<or> b \<noteq> 0 \<and> b \<le> p"
proof (cases "a < f")
  case True
  then show ?thesis using is_succ_ge [OF a(1) f(1)] a(2) by auto
next
  case False
  then have "f < a" "a \<in> F" using f(3) a(4) by (auto simp: not_less)
  then show ?thesis using is_succ_ge [OF f(2)] a(3) by fastforce
qed

section \<open>Walks\<close>

lemma walk_spec:
  assumes "\<And>f. f \<in> F \<Longrightarrow> is_succ F f (NextFree m f)" "is_succ F prev p" "prev = 0 \<or> prev \<in> F" "\<And>x. x \<in> F \<Longrightarrow> x \<le> prev \<Longrightarrow> \<not> stop x"
    "card {x \<in> F. prev < x} < k"
  shows "\<exists>prev' p'. walk k m stop prev p = Ok (prev', p') \<and> (prev' = 0 \<or> prev' \<in> F) \<and> is_succ F prev' p' \<and>
    (\<forall>x \<in> F. x \<le> prev' \<longrightarrow> \<not> stop x) \<and> (p' = 0 \<or> p' \<in> F \<and> stop p')"
  using assms(2-)
proof (induction k arbitrary: prev p)
  case (Suc k)
  show ?case
  proof (cases "p = 0 \<or> stop p")
    case True
    then have "walk (Suc k) m stop prev p = Ok (prev, p)" by (subst walk.simps) auto
    then show ?thesis using Suc.prems(1-3) True is_succ_gt [OF Suc.prems(1)] by blast
  next
    case False
    then have p: "p \<in> F" "prev < p" using is_succ_gt [OF Suc.prems(1)] by auto
    then have "{x \<in> F. p < x} \<subset> {x \<in> F. prev < x}" by (auto dest: order.strict_trans)
    then have c: "card {x \<in> F. p < x} < k" using psubset_card_mono [of "{x \<in> F. prev < x}" "{x \<in> F. p < x}"] Suc.prems(4) by simp
    have "\<not> stop x" if "x \<in> F" "x \<le> p" for x
      using that Suc.prems(3) is_succ_ge [OF Suc.prems(1) that(1)] False by (cases "x \<le> prev") auto
    from Suc.IH [OF assms(1) [OF p(1)] _ this c] p(1) obtain prev' p' where
      r: "walk k m stop p (NextFree m p) = Ok (prev', p')" "prev' = 0 \<or> prev' \<in> F" "is_succ F prev' p'"
        "\<forall>x \<in> F. x \<le> prev' \<longrightarrow> \<not> stop x" "p' = 0 \<or> p' \<in> F \<and> stop p'" by blast
    have "walk (Suc k) m stop prev p = Ok (prev', p')" using False r(1) by (subst walk.simps) simp
    then show ?thesis using r by blast
  qed
qed simp

lemma walk_free_list:
  assumes "layout m e t S F"
  shows "\<exists>prev p. walk HFUEL m stop 0 e = Ok (prev, p) \<and> (prev = 0 \<or> prev \<in> F) \<and> is_succ F prev p \<and>
    (\<forall>x \<in> F. x \<le> prev \<longrightarrow> \<not> stop x) \<and> (p = 0 \<or> p \<in> F \<and> stop p)"
proof (rule walk_spec)
  have "0 \<notin> F" using assms slots_okD(3) [of S t 0] unfolding layout_def by blast
  then have "{x \<in> F. 0 < x} \<subset> UNIV" by blast
  then show "card {x \<in> F. 0 < x} < HFUEL" using psubset_card_mono [of UNIV "{x \<in> F. 0 < x}"] by (simp add: HFUEL_def card_word)
  show "\<not> stop x" if "x \<in> F" "x \<le> 0" for x using that \<open>0 \<notin> F\<close> by auto
qed (use assms in \<open>auto simp: layout_def\<close>)

section \<open>Changing the layout\<close>

text \<open>The slots in use, and that a change of the memory leaves them and their contents alone.\<close>

definition in_use :: "uint set \<Rightarrow> uint set \<Rightarrow> uint \<Rightarrow> uint set" where
  "in_use S F t = S - F - {t}"

definition keeps :: "uint set \<Rightarrow> mem \<Rightarrow> mem \<Rightarrow> bool" where
  "keeps A m m' \<longleftrightarrow> (\<forall>a \<in> A. NextSlot m' a = NextSlot m a \<and> (\<forall>x \<in> block m a. m' x = m x))"

lemma keeps_refl [simp]: "keeps A m m"
  by (simp add: keeps_def)

lemma keeps_trans: "keeps A m m' \<Longrightarrow> keeps A m' m'' \<Longrightarrow> keeps A m m''"
  by (simp add: keeps_def block_def)

lemma keeps_mono: "keeps A m m' \<Longrightarrow> B \<subseteq> A \<Longrightarrow> keeps B m m'"
  by (auto simp: keeps_def)

lemma block_inside:
  assumes "layout m e t S F" "b \<in> S" "x \<in> block m b" "c \<in> S"
  shows "unat c \<le> unat b \<or> unat x + 4 < unat c"
proof (cases "b < c")
  case True
  then have "NextSlot m b \<le> c" using assms is_succ_ge [of S b "NextSlot m b" c] by (auto simp: layout_def)
  then show ?thesis using assms(3) by (auto simp: block_def word_le_nat_alt)
next
  case False
  then show ?thesis by (simp add: not_less word_le_nat_alt)
qed

lemma slot_write_outside:
  assumes "layout m e t S F" "b \<in> S" "x \<in> block m b" "c \<in> S"
  shows "set_NextSlot c v m' x = m' x" "c \<noteq> b \<Longrightarrow> set_NextFree c v m' x = m' x"
proof -
  have ok: "slots_ok S t" and x: "unat b \<le> unat x" using assms by (auto simp: layout_def block_def)
  note c = slots_okD [OF ok assms(4)]
  show "set_NextSlot c v m' x = m' x"
    unfolding set_NextSlot_def PTRSIZE_def by (rule poke_outside) (use c block_inside [OF assms] x in auto)
  assume "c \<noteq> b"
  then show "set_NextFree c v m' x = m' x"
    unfolding set_NextFree_def using c block_inside [OF assms] x slots_ok_gap [OF ok assms(4,2)]
    by (intro poke_outside) (auto simp: word_unat_eq_iff)
qed

text \<open>Entering a slot in use in the list of free slots.\<close>

lemma layout_link:
  assumes l: "layout (hmem h) (empty h) t S F" and p: "p \<in> in_use S F t"
    and prev: "prev = 0 \<or> prev \<in> F" "prev < p" and n: "is_succ F prev n" "n = 0 \<or> p < n"
  defines "h' \<equiv> set_link prev p (upd_mem (set_NextFree p n) h)"
  shows "layout (hmem h') (empty h') t S (insert p F)" "keeps (in_use S F t - {p}) (hmem h) (hmem h')"
    "\<And>a. a \<in> S \<Longrightarrow> NextSlot (hmem h') a = NextSlot (hmem h) a"
proof -
  have ok: "slots_ok S t" and F: "F \<subseteq> S" "t \<notin> F" and pS: "p \<in> S" "p \<notin> F" "p \<noteq> t" "p \<noteq> 0"
    using l p slots_okD(3) by (auto simp: layout_def in_use_def)
  have np: "is_succ F p n" using n prev(2) unfolding is_succ_def by (auto split: if_splits dest: order.strict_trans)
  have ns: "NextSlot (hmem h') a = NextSlot (hmem h) a" if "a \<in> S" for a
    using that F prev(1) slot_writes(3) [OF ok] pS(1) by (auto simp: h'_def set_link_def upd_mem_def)
  then show "\<And>a. a \<in> S \<Longrightarrow> NextSlot (hmem h') a = NextSlot (hmem h) a" .
  have nf: "NextFree (hmem h') a = (if a = prev then p else if a = p then n else NextFree (hmem h) a)" if "a \<in> S" for a
    using that F prev(1) slot_writes(4) [OF ok] pS slots_okD(3) [OF ok that] by (auto simp: h'_def set_link_def upd_mem_def)
  have e: "empty h' = (if prev = 0 then p else empty h)" by (simp add: h'_def set_link_def upd_mem_def)
  have "is_succ (insert p F) f (NextFree (hmem h') f)" if fF: "f \<in> insert p F" for f
  proof -
    consider "f = p" | "f = prev" "f \<noteq> p" | "f \<in> F" "f \<noteq> p" "f \<noteq> prev" using fF by blast
    then show ?thesis
    proof cases
      case 1
      then show ?thesis using nf [OF pS(1)] prev(2) is_succ_insert [OF np pS(2)] by auto
    next
      case 2
      then show ?thesis using nf [of prev] that F is_succ_insert_before [OF n(1) prev(2) n(2) pS(4)] by auto
    next
      case 3
      then have "is_succ F f (NextFree (hmem h) f)" using l by (simp add: layout_def)
      then have "is_succ (insert p F) f (NextFree (hmem h) f)"
        using is_succ_insert_other is_succ_between [OF n prev(2) _ 3(1)] prev(1) 3(3) by blast
      then show ?thesis using nf [of f] 3 F by auto
    qed
  qed
  moreover have "is_succ (insert p F) 0 (empty h')"
  proof (cases "prev = 0")
    case True
    then show ?thesis using e n is_succ_insert_before [OF n(1) prev(2) n(2) pS(4)] by simp
  next
    case False
    have e0: "is_succ F 0 (empty h)" using l by (simp add: layout_def)
    have "empty h \<noteq> 0 \<and> empty h \<le> prev" using is_succ_ge [OF e0] False prev(1) by (auto simp: word_gt_0)
    then have "empty h \<noteq> 0 \<and> empty h \<le> p" using prev(2) by (auto elim: order_trans)
    then show ?thesis using e False is_succ_insert_other [OF e0] by auto
  qed
  ultimately show "layout (hmem h') (empty h') t S (insert p F)" using l ok F pS ns by (auto simp: layout_def)
  have "hmem h' x = hmem h x" if a: "a \<in> in_use S F t - {p}" "x \<in> block (hmem h) a" for a x
  proof -
    have "a \<in> S" "p \<noteq> a" "prev = 0 \<or> prev \<in> S \<and> prev \<noteq> a" using a prev(1) F by (auto simp: in_use_def)
    then show ?thesis using slot_write_outside(2) [OF l _ a(2)] pS(1) by (auto simp: h'_def set_link_def upd_mem_def)
  qed
  then show "keeps (in_use S F t - {p}) (hmem h) (hmem h')" using ns by (auto simp: keeps_def in_use_def)
qed

text \<open>Taking a slot out of the list.\<close>

lemma layout_unlink:
  assumes l: "layout (hmem h) (empty h) t S F" and p: "p \<in> F" and prev: "prev = 0 \<or> prev \<in> F" "is_succ F prev p"
  defines "h' \<equiv> set_link prev (NextFree (hmem h) p) h"
  shows "layout (hmem h') (empty h') t S (F - {p})" "keeps (in_use S F t) (hmem h) (hmem h')"
    "\<And>a. a \<in> S \<Longrightarrow> NextSlot (hmem h') a = NextSlot (hmem h) a"
proof -
  have ok: "slots_ok S t" and F: "F \<subseteq> S" "t \<notin> F" using l by (auto simp: layout_def)
  have p0: "p \<noteq> 0" "p \<noteq> prev" using slots_okD(3) [OF ok] p F prev is_succ_gt [OF prev(2)] by auto
  show ns: "NextSlot (hmem h') a = NextSlot (hmem h) a" if "a \<in> S" for a
    using that F prev(1) slot_writes(3) [OF ok] by (auto simp: h'_def set_link_def upd_mem_def)
  have nf: "NextFree (hmem h') a = (if a = prev then NextFree (hmem h) p else NextFree (hmem h) a)" if "a \<in> S" for a
    using that F prev(1) slot_writes(4) [OF ok] slots_okD(3) [OF ok that] by (auto simp: h'_def set_link_def upd_mem_def)
  have sp: "is_succ F p (NextFree (hmem h) p)" using l p by (simp add: layout_def)
  have "is_succ (F - {p}) f (NextFree (hmem h') f)" if f: "f \<in> F" "f \<noteq> p" for f
  proof (cases "f = prev")
    case True
    then show ?thesis using nf [of f] f F is_succ_remove [OF prev(2) p0(1) sp] by auto
  next
    case False
    have sf: "is_succ F f (NextFree (hmem h) f)" using l f by (simp add: layout_def)
    then have "NextFree (hmem h) f \<noteq> p" using is_succ_before [OF _ prev(2) p0(1)] f prev(1) False by blast
    then show ?thesis using nf [of f] f F False is_succ_remove_other [OF sf] by auto
  qed
  moreover have "is_succ (F - {p}) 0 (empty h')"
  proof (cases "prev = 0")
    case True
    then show ?thesis using is_succ_remove [OF prev(2) p0(1) sp] by (simp add: h'_def set_link_def)
  next
    case False
    have e0: "is_succ F 0 (empty h)" using l by (simp add: layout_def)
    then have "empty h \<noteq> p" using is_succ_before [OF _ prev(2) p0(1)] prev(1) False by blast
    then show ?thesis using is_succ_remove_other [OF e0] False by (simp add: h'_def set_link_def upd_mem_def)
  qed
  ultimately show "layout (hmem h') (empty h') t S (F - {p})" using l ok F ns by (auto simp: layout_def)
  have "hmem h' x = hmem h x" if a: "a \<in> in_use S F t" "x \<in> block (hmem h) a" for a x
  proof -
    have "a \<in> S" "prev = 0 \<or> prev \<in> S \<and> prev \<noteq> a" using a prev(1) F by (auto simp: in_use_def)
    then show ?thesis using slot_write_outside(2) [OF l _ a(2)] by (auto simp: h'_def set_link_def upd_mem_def)
  qed
  then show "keeps (in_use S F t) (hmem h) (hmem h')" using ns by (auto simp: keeps_def in_use_def)
qed

text \<open>A new slot behind \<open>p\<close>, in use.\<close>

lemma layout_split:
  assumes l: "layout m e t S F" and p: "p \<in> S" "p \<noteq> t"
    and new: "aligned new" "unat p + 8 \<le> unat new" "unat new + 8 \<le> unat (NextSlot m p)"
  defines "m' \<equiv> set_NextSlot p new (set_NextSlot new (NextSlot m p) m)"
  shows "layout m' e t (insert new S) F" "keeps (in_use S F t - {p}) m m'" "\<And>x. x \<in> block m' p \<Longrightarrow> m' x = m x"
    "new \<notin> S" "NextSlot m' p = new"
proof -
  have ok: "slots_ok S t" and sp: "is_succ S p (NextSlot m p)" using l p by (auto simp: layout_def)
  have n0: "NextSlot m p \<noteq> 0" using new(3) by auto
  then have nS: "NextSlot m p \<in> S" "p < NextSlot m p" using is_succ_gt [OF sp] by auto
  have far: "unat c \<le> unat p \<or> unat (NextSlot m p) \<le> unat c" if "c \<in> S" for c
    using is_succ_ge [OF sp that] by (cases "p < c") (auto simp: word_le_nat_alt word_less_nat_alt)
  have new0: "new \<noteq> 0" using new(2) by auto
  have pn: "p < new" "new < NextSlot m p" using new by (auto simp: word_less_nat_alt)
  show nnew: "new \<notin> S" using far new by fastforce
  have gap: "unat a + 8 \<le> unat b" if "a \<in> insert new S" "b \<in> insert new S" "a < b" for a b
    using that far new slots_ok_gap [OF ok] by (force simp: word_less_nat_alt)
  have "8 \<le> unat new" "new \<le> t" using slots_okD(2,4) [OF ok p(1)] slots_okD(4) [OF ok nS(1)] new pn by (auto simp: word_less_nat_alt word_le_nat_alt)
  then have ok': "slots_ok (insert new S) t" using ok gap new(1) unfolding slots_ok_def by blast
  have ns: "NextSlot m' a = (if a = p then new else if a = new then NextSlot m p else NextSlot m a)" if "a \<in> insert new S" for a
    using that slot_writes(1) [OF ok'] p(1) by (auto simp: m'_def)
  then show "NextSlot m' p = new" using p by simp
  have nf: "NextFree m' a = NextFree m a" if "a \<in> insert new S" for a
    using that slot_writes(2) [OF ok'] p(1) by (auto simp: m'_def)
  have "is_succ (insert new S) a (NextSlot m' a)" if a: "a \<in> insert new S" for a
  proof -
    consider "a = p" | "a = new" "a \<noteq> p" | "a \<in> S" "a \<noteq> p" "a \<noteq> new" using a by blast
    then show ?thesis
    proof cases
      case 1
      then show ?thesis using ns [OF a] is_succ_insert_before [OF sp pn(1)] pn new0 by auto
    next
      case 2
      have "is_succ S new (NextSlot m p)" using sp pn unfolding is_succ_def by (auto split: if_splits dest: order.strict_trans)
      then show ?thesis using ns [OF a] 2 is_succ_insert nnew by simp
    next
      case 3
      then have sa: "is_succ S a (NextSlot m a)" using l by (simp add: layout_def)
      show ?thesis using ns [OF a] 3 is_succ_insert_other [OF sa is_succ_between [OF sp _ pn(1) _ 3(1) sa 3(2)]] pn p by simp
    qed
  qed
  then show "layout m' e t (insert new S) F" using l ok' nf unfolding layout_def by (auto 4 3)
  have out: "m' x = m x" if "unat x < unat p - 4 \<or> unat p \<le> unat x" "unat x < unat new - 4 \<or> unat new \<le> unat x" for x
    using that poke_outside slots_okD [OF ok' insertI2 [OF p(1)]] slots_okD [OF ok' insertI1]
    by (auto simp: m'_def set_NextSlot_def PTRSIZE_def)
  show "m' x = m x" if "x \<in> block m' p" for x
    using that ns [of p] p out [of x] by (auto simp: block_def)
  have "m' x = m x" if a: "a \<in> S" "a \<noteq> p" "x \<in> block m a" for a x
  proof (rule out)
    have g: "unat a + 8 \<le> unat p \<or> unat (NextSlot m p) \<le> unat a"
      using far [OF a(1)] slots_ok_gap [OF ok a(1) p(1)] a(2) by (auto simp: word_unat_eq_iff)
    show "unat x < unat p - 4 \<or> unat p \<le> unat x" using block_inside [OF l a(1,3) p(1)] a(3) by (auto simp: block_def)
    show "unat x < unat new - 4 \<or> unat new \<le> unat x"
      using g block_inside [OF l a(1,3) p(1)] a(3) new by (auto simp: block_def)
  qed
  then show "keeps (in_use S F t - {p}) m m'" using ns nnew by (auto simp: keeps_def in_use_def)
qed

text \<open>Joining a slot with the one behind it, which is not in the list.\<close>

lemma layout_join:
  assumes l: "layout m e t S F" and p: "p \<in> S" "NextSlot m p = b" "b \<noteq> 0" "b \<noteq> t" "b \<notin> F"
  defines "m' \<equiv> set_NextSlot p (NextSlot m b) m"
  shows "layout m' e t (S - {b}) F" "keeps (in_use S F t - {p, b}) m m'" "NextSlot m' p = NextSlot m b" "\<And>x. unat p \<le> unat x \<Longrightarrow> m' x = m x"
    "b \<in> S" "p < b"
proof -
  have ok: "slots_ok S t" and sp: "is_succ S p b" using l p by (auto simp: layout_def)
  show b: "b \<in> S" "p < b" using is_succ_gt [OF sp p(3)] by auto
  have sb: "is_succ S b (NextSlot m b)" using l b by (simp add: layout_def)
  have ok': "slots_ok (S - {b}) t" using ok p(4) by (auto simp: slots_ok_def)
  have ns: "NextSlot m' a = (if a = p then NextSlot m b else NextSlot m a)" if "a \<in> S" for a
    using that slot_writes(1) [OF ok p(1) that] by (auto simp: m'_def)
  then show "NextSlot m' p = NextSlot m b" using p by simp
  have nf: "NextFree m' a = NextFree m a" if "a \<in> S" for a using slot_writes(2) [OF ok p(1) that] by (simp add: m'_def)
  have "is_succ (S - {b}) a (NextSlot m' a)" if a: "a \<in> S" "a \<noteq> b" for a
  proof (cases "a = p")
    case True
    then show ?thesis using ns [OF a(1)] is_succ_remove [OF sp p(3) sb] by simp
  next
    case False
    have sa: "is_succ S a (NextSlot m a)" using l a by (simp add: layout_def)
    then have "NextSlot m a \<noteq> b" using is_succ_before [OF _ sp p(3)] a(1) p(1) False by blast
    then show ?thesis using ns [OF a(1)] False is_succ_remove_other [OF sa] by simp
  qed
  then show "layout m' e t (S - {b}) F" using l ok' nf p(5) unfolding layout_def by (auto 4 3)
  have "m' x = m x" if "a \<in> S" "x \<in> block m a" for a x using slot_write_outside(1) [OF l that p(1)] by (simp add: m'_def)
  then show "keeps (in_use S F t - {p, b}) m m'" using ns by (auto simp: keeps_def in_use_def)
  show "m' x = m x" if "unat p \<le> unat x" for x
    unfolding m'_def set_NextSlot_def PTRSIZE_def by (rule poke_outside) (use that slots_okD [OF ok p(1)] in auto)
qed

text \<open>A new last slot; the old one becomes a slot in use.\<close>

lemma layout_extend:
  assumes l: "layout m e t S F" and p: "aligned p" "unat t + 8 \<le> unat p"
  defines "m' \<equiv> set_NextSlot p 0 (set_NextSlot t p m)"
  shows "layout m' e p (insert p S) F" "keeps (in_use S F t) m m'" "NextSlot m' t = p" "p \<notin> S"
proof -
  have ok: "slots_ok S t" using l by (simp add: layout_def)
  have t: "t \<in> S" "8 \<le> unat t" "\<And>a. a \<in> S \<Longrightarrow> unat a \<le> unat t" "t < p" using ok p(2) by (auto simp: slots_ok_def word_le_nat_alt word_less_nat_alt)
  have st: "is_succ S t (NextSlot m t)" using l t by (simp add: layout_def)
  then have nt: "NextSlot m t = 0" using is_succ_gt [OF st] t(3) by (force simp: word_less_nat_alt)
  have p0: "p \<noteq> 0" using p(2) by auto
  show np: "p \<notin> S" using t(3) p(2) by fastforce
  have gap: "unat a + 8 \<le> unat b" if "a \<in> insert p S" "b \<in> insert p S" "a < b" for a b
    using that t(3) [of a] t(3) [of b] p(2) slots_ok_gap [OF ok, of a b] by (auto simp: word_less_nat_alt)
  have "a \<le> p" if "a \<in> S" for a using t(3) [OF that] p(2) by (simp add: word_le_nat_alt)
  then have ok': "slots_ok (insert p S) p" using ok gap p t(2) by (auto simp: slots_ok_def)
  have ns: "NextSlot m' a = (if a = p then 0 else if a = t then p else NextSlot m a)" if "a \<in> insert p S" for a
    using that slot_writes(1) [OF ok'] t(1) by (auto simp: m'_def)
  from ns [of t] show "NextSlot m' t = p" using t(1,4) by auto
  have nf: "NextFree m' a = NextFree m a" if "a \<in> insert p S" for a using that slot_writes(2) [OF ok'] t(1) by (auto simp: m'_def)
  have "is_succ (insert p S) a (NextSlot m' a)" if a: "a \<in> insert p S" for a
  proof -
    consider "a = p" | "a = t" "a \<noteq> p" | "a \<in> S" "a \<noteq> p" "a \<noteq> t" using a by blast
    then show ?thesis
    proof cases
      case 1
      then show ?thesis using ns [OF a] t(3) p(2) by (auto simp: is_succ_def word_le_nat_alt) fastforce
    next
      case 2
      then show ?thesis using ns [OF a] is_succ_insert_before [OF st t(4)] nt p0 by auto
    next
      case 3
      have sa: "is_succ S a (NextSlot m a)" using l 3 by (simp add: layout_def)
      then show ?thesis using ns [OF a] 3 is_succ_insert_other [OF sa is_succ_between [OF st _ t(4) _ 3(1) sa 3(3)]] nt t(1) by simp
    qed
  qed
  then show "layout m' e p (insert p S) F" using l ok' nf np unfolding layout_def by (auto 4 3)
  have "m' x = m x" if a: "a \<in> S" "a \<noteq> t" "x \<in> block m a" for a x
  proof -
    have "unat a < unat t" using t(3) [OF a(1)] a(2) by (simp add: le_neq_implies_less word_unat_eq_iff)
    then have "unat x + 4 < unat t" using block_inside [OF l a(1,3) t(1)] by auto
    then show ?thesis using poke_outside slots_okD [OF ok' insertI1] slots_okD [OF ok' insertI2 [OF t(1)]] p(2)
      by (auto simp: m'_def set_NextSlot_def PTRSIZE_def)
  qed
  then show "keeps (in_use S F t) m m'" using ns np by (auto simp: keeps_def in_use_def)
qed

section \<open>free keeps the layout\<close>

lemma poke_cong: "f x = g x \<Longrightarrow> poke a v f x = poke a v g x"
  by (simp add: poke_def)

lemma poke_commute:
  assumes "aligned a" "aligned b" "a \<noteq> b"
  shows "poke a v (poke b w m) = poke b w (poke a v m)"
proof (rule ext)
  fix x :: uint
  have "unat a + 4 \<le> unat b \<or> unat b + 4 \<le> unat a"
    using aligned_less [OF assms(1,2)] aligned_less [OF assms(2,1)] assms(3) by (metis linorder_neqE_nat unsigned_word_eqI)
  then consider "unat x < unat a \<or> unat a + 4 \<le> unat x" | "unat x < unat b \<or> unat b + 4 \<le> unat x" by linarith
  then show "poke a v (poke b w m) x = poke b w (poke a v m) x"
  proof cases
    case 1
    then show ?thesis using poke_outside [OF assms(1)] poke_cong [of "poke a v m" x m b w] by simp
  next
    case 2
    then show ?thesis using poke_outside [OF assms(2)] poke_cong [of "poke b w m" x m a v] by simp
  qed
qed

lemma writes_commute:
  assumes "slots_ok S t" "a \<in> S" "b \<in> S"
  shows "set_NextFree a v (set_NextSlot b w m) = set_NextSlot b w (set_NextFree a v m)"
  unfolding set_NextFree_def set_NextSlot_def PTRSIZE_def
  by (rule poke_commute) (use slots_okD [OF assms(1,2)] slots_okD [OF assms(1,3)] cells_differ(1) [OF assms(1,3,2)] in auto)

text \<open>A free slot and the next one, also free, become one.\<close>

definition merge_slots :: "uint \<Rightarrow> uint \<Rightarrow> heap \<Rightarrow> heap" where
  "merge_slots a b h =
     (let h = upd_mem (set_NextSlot a (NextSlot (hmem h) b)) h in upd_mem (set_NextFree a (NextFree (hmem h) b)) h)"

lemma layout_merge:
  assumes l: "layout (hmem h) (empty h) t S F" and ab: "a \<in> F" "b \<in> F" "is_succ F a b" "NextSlot (hmem h) a = b"
  defines "h' \<equiv> merge_slots a b h"
  shows "layout (hmem h') (empty h') t (S - {b}) (F - {b})" "keeps (in_use S F t) (hmem h) (hmem h')"
    "NextSlot (hmem h') a = NextSlot (hmem h) b" "\<exists>m. h' = h\<lparr>hmem := m\<rparr>"
    "\<And>c. c \<in> S - {a} \<Longrightarrow> NextSlot (hmem h') c = NextSlot (hmem h) c"
proof -
  have ok: "slots_ok S t" and F: "F \<subseteq> S" "t \<notin> F" using l by (auto simp: layout_def)
  have S: "a \<in> S" "b \<in> S" "a \<noteq> 0" "b \<noteq> 0" "b \<noteq> t" using ab F slots_okD(3) [OF ok] by auto
  let ?h1 = "set_link a (NextFree (hmem h) b) h"
  note u = layout_unlink [OF l ab(2) disjI2 [OF ab(1)] ab(3)]
  have eq: "hmem h' = set_NextSlot a (NextSlot (hmem ?h1) b) (hmem ?h1)" "empty h' = empty ?h1"
    using u(3) [OF S(2)] writes_commute [OF ok S(1,1)] slot_writes(2) [OF ok S(1,2)] S
    by (simp_all add: h'_def merge_slots_def upd_mem_def set_link_def)
  note j = layout_join [OF u(1) S(1) u(3) [OF S(1), unfolded ab(4)] S(4,5), simplified]
  show "layout (hmem h') (empty h') t (S - {b}) (F - {b})" using j(1) eq by simp
  have "keeps (in_use S F t) (hmem ?h1) (hmem h')"
    by (rule keeps_mono [OF j(2) [folded eq(1)]]) (use ab F in \<open>auto simp: in_use_def\<close>)
  with u(2) show "keeps (in_use S F t) (hmem h) (hmem h')" by (rule keeps_trans)
  show "NextSlot (hmem h') a = NextSlot (hmem h) b" using j(3) eq u(3) [OF S(2)] by simp
  show "\<exists>m. h' = h\<lparr>hmem := m\<rparr>" by (auto simp: h'_def merge_slots_def upd_mem_def)
  show "NextSlot (hmem h') c = NextSlot (hmem h) c" if "c \<in> S - {a}" for c
    using that slot_writes(1) [OF ok S(1), of c] u(3) eq(1) by auto
qed

lemma merge_next_eq: "merge_next p n h = (if n = 0 then Ok h else ASSERT (NextSlot (hmem h) p \<le> n) (Ok (if NextSlot (hmem h) p = n then merge_slots p n h else h)))"
  by (simp add: merge_next_def merge_slots_def Let_def ASSERT_def)

lemma merge_prev_eq: "merge_prev q p h = (if q = 0 then Ok h else ASSERT (NextSlot (hmem h) q \<le> p) (Ok (if NextSlot (hmem h) q = p then merge_slots q p h else h)))"
  by (simp add: merge_prev_def merge_slots_def Let_def ASSERT_def)

text \<open>
  What the two merges do to the layout: they only ever drop free slots, which a free slot before them covers.
\<close>

definition merged :: "heap \<Rightarrow> uint \<Rightarrow> uint set \<Rightarrow> uint set \<Rightarrow> heap \<Rightarrow> uint set \<Rightarrow> uint set \<Rightarrow> bool" where
  "merged h t S F h' S' F' \<longleftrightarrow> layout (hmem h') (empty h') t S' F' \<and> keeps (in_use S F t) (hmem h) (hmem h') \<and>
     in_use S' F' t = in_use S F t \<and> S' \<subseteq> S \<and> (\<exists>m. h' = h\<lparr>hmem := m\<rparr>) \<and>
     (\<forall>a \<in> S. (\<forall>c \<in> S. a \<le> c) \<longrightarrow> a \<in> S') \<and>
     (\<forall>f \<in> F. \<exists>q \<in> F'. q \<le> f \<and> NextSlot (hmem h) f \<le> NextSlot (hmem h') q)"

lemma merged_refl: "layout (hmem h) (empty h) t S F \<Longrightarrow> merged h t S F h S F"
  by (auto simp: merged_def intro: exI [of _ "hmem h"])

lemma merged_trans: "merged h t S F h1 S1 F1 \<Longrightarrow> merged h1 t S1 F1 h2 S2 F2 \<Longrightarrow> merged h t S F h2 S2 F2"
  unfolding merged_def by (auto intro: keeps_trans) (meson order_trans subsetD)+

lemma merged_slots:
  assumes l: "layout (hmem h) (empty h) t S F" and ab: "a \<in> F" "b \<in> F" "is_succ F a b" "NextSlot (hmem h) a = b"
  shows "merged h t S F (merge_slots a b h) (S - {b}) (F - {b})"
proof -
  note m = layout_merge [OF l ab]
  have ok: "slots_ok S t" and F: "F \<subseteq> S" "t \<notin> F" using l by (auto simp: layout_def)
  have b: "a < b" "b \<noteq> 0" using ab is_succ_gt [OF ab(3)] slots_okD(3) [OF ok] F by auto
  have "NextSlot (hmem h) b \<noteq> 0"
  proof
    assume "NextSlot (hmem h) b = 0"
    moreover have "is_succ S b (NextSlot (hmem h) b)" "t \<in> S" using l ab(2) F ok by (auto simp: layout_def slots_ok_def)
    ultimately have "t \<le> b" using is_succ_def by auto
    then show False using slots_okD(4) [OF ok, of b] ab(2) F by auto
  qed
  then have "b < NextSlot (hmem h) b" using l ab(2) F is_succ_gt unfolding layout_def by blast
  then have "\<exists>q \<in> F - {b}. q \<le> f \<and> NextSlot (hmem h) f \<le> NextSlot (hmem (merge_slots a b h)) q" if f: "f \<in> F" for f
    using m(3,5) b ab F f by (cases "f = b"; cases "f = a") (force intro: bexI [of _ f] bexI [of _ a])+
  moreover have "in_use (S - {b}) (F - {b}) t = in_use S F t" using ab(2) by (auto simp: in_use_def)
  moreover have "x \<in> S - {b}" if "x \<in> S" "\<forall>c \<in> S. x \<le> c" for x using that b ab(1) F by force
  ultimately show ?thesis using m(1,2,4) unfolding merged_def by blast
qed

lemma merge_step:
  assumes l: "layout (hmem h) (empty h) t S F" and ab: "a \<in> F" "b \<in> F" "is_succ F a b"
  shows "\<exists>h' S' F'. ASSERT (NextSlot (hmem h) a \<le> b) (Ok (if NextSlot (hmem h) a = b then merge_slots a b h else h)) = Ok h' \<and>
    merged h t S F h' S' F' \<and> (F' = F \<or> F' = F - {b})"
proof -
  have ok: "slots_ok S t" and F: "F \<subseteq> S" using l by (auto simp: layout_def)
  have "b \<noteq> 0" using ab(2) F slots_okD(3) [OF ok] by auto
  then have "NextSlot (hmem h) a \<le> b"
    using is_succ_gt [OF ab(3)] is_succ_ge [of S a "NextSlot (hmem h) a" b] l ab F by (auto simp: layout_def)
  then show ?thesis using merged_slots [OF l ab] merged_refl [OF l] by (auto simp: ASSERT_def)
qed

lemma free_spec:
  assumes l: "layout (hmem h) (empty h) t S F" and p: "p \<in> in_use S F t"
  shows "\<exists>m' e' S' F'. free p h = Ok (h\<lparr>hmem := m', empty := e'\<rparr>) \<and> layout m' e' t S' F' \<and>
    keeps (in_use S F t - {p}) (hmem h) m' \<and> in_use S' F' t = in_use S F t - {p} \<and> S' \<subseteq> S \<and>
    (\<forall>a \<in> S. (\<forall>c \<in> S. a \<le> c) \<longrightarrow> a \<in> S') \<and> (\<exists>q \<in> F'. q \<le> p \<and> NextSlot (hmem h) p \<le> NextSlot m' q)"
proof -
  have ok: "slots_ok S t" and F: "F \<subseteq> S" "t \<notin> F" and pS: "p \<in> S" "p \<notin> F" "p \<noteq> t" using l p by (auto simp: layout_def in_use_def)
  have sp: "is_succ S p (NextSlot (hmem h) p)" "t \<in> S" using l pS by (auto simp: layout_def slots_ok_def)
  have "p < t" using slots_okD(4) [OF ok pS(1)] pS(3) by auto
  then have up: "p < NextSlot (hmem h) p" using is_succ_gt [OF sp(1)] is_succ_ge [OF sp] by auto
  obtain prev n where w: "walk HFUEL (hmem h) (\<lambda>q. p < q) 0 (empty h) = Ok (prev, n)" "prev = 0 \<or> prev \<in> F" "is_succ F prev n"
      "\<forall>x \<in> F. x \<le> prev \<longrightarrow> \<not> p < x" "n = 0 \<or> n \<in> F \<and> p < n"
    using walk_free_list [OF l, of "\<lambda>q. p < q"] by blast
  have "prev < p" using w(2,4) pS slots_okD(3) [OF ok pS(1)] by (cases "prev = p") (auto simp: word_gt_0 not_less order.order_iff_strict)
  note k = layout_link [OF l p w(2) this w(3)]
  define h1 where "h1 = set_link prev p (upd_mem (set_NextFree p n) h)"
  have n: "n = 0 \<or> p < n" using w(5) by blast
  have l1: "layout (hmem h1) (empty h1) t S (insert p F)" and k1: "keeps (in_use S F t - {p}) (hmem h) (hmem h1)"
    and s1: "\<And>a. a \<in> S \<Longrightarrow> NextSlot (hmem h1) a = NextSlot (hmem h) a"
    using k [OF n] by (auto simp: h1_def)
  have e1: "h1 = h\<lparr>hmem := hmem h1, empty := empty h1\<rparr>" by (simp add: h1_def set_link_def upd_mem_def)
  have pF: "is_succ (insert p F) p n" "is_succ (insert p F) prev p"
  proof -
    have "is_succ F p n" using w(3) n \<open>prev < p\<close> unfolding is_succ_def by (auto split: if_splits dest: order.strict_trans)
    then show "is_succ (insert p F) p n" using is_succ_insert pS(2) by blast
    show "is_succ (insert p F) prev p" using is_succ_insert_before [OF w(3) \<open>prev < p\<close> n] slots_okD(3) [OF ok pS(1)] by blast
  qed
  obtain h2 S2 F2 where m2: "merge_next p n h1 = Ok h2" "merged h1 t S (insert p F) h2 S2 F2" "F2 = insert p F \<or> F2 = insert p F - {n}"
    using merge_step [OF l1 _ _ pF(1)] merged_refl [OF l1] w(5) unfolding merge_next_eq by (cases "n = 0") auto
  have F2: "p \<in> F2" "prev = 0 \<or> prev \<in> F2" "is_succ F2 prev p"
    using m2(3) n w(2) pF(2) is_succ_remove_other [OF pF(2), of n] \<open>prev < p\<close> slots_okD(3) [OF ok pS(1)] by (auto dest: order.strict_trans)
  have l2: "layout (hmem h2) (empty h2) t S2 F2" using m2(2) by (simp add: merged_def)
  obtain h3 S3 F3 where m3: "merge_prev prev p h2 = Ok h3" "merged h2 t S2 F2 h3 S3 F3"
    using merge_step [OF l2 _ F2(1,3)] merged_refl [OF l2] F2(2) unfolding merge_prev_eq by (cases "prev = 0") auto
  have g: "merged h1 t S (insert p F) h3 S3 F3" using merged_trans [OF m2(2) m3(2)] .
  have iu: "in_use S (insert p F) t = in_use S F t - {p}" by (auto simp: in_use_def)
  have "free p h = Ok h3" using up w(1) m2(1) m3(1) by (simp add: free_def ASSERT_def h1_def Let_def)
  moreover have "h3 = h\<lparr>hmem := hmem h3, empty := empty h3\<rparr>"
  proof -
    obtain m where "h3 = h1\<lparr>hmem := m\<rparr>" using g by (auto simp: merged_def)
    moreover have "h1\<lparr>hmem := m\<rparr> = h\<lparr>hmem := m, empty := empty h1\<rparr>" by (subst e1) simp
    ultimately show ?thesis by simp
  qed
  moreover have "keeps (in_use S F t - {p}) (hmem h) (hmem h3)" using k1 g iu keeps_trans by (auto simp: merged_def)
  moreover have "\<exists>q \<in> F3. q \<le> p \<and> NextSlot (hmem h) p \<le> NextSlot (hmem h3) q" using g s1 [OF pS(1)] by (auto simp: merged_def)
  ultimately show ?thesis using g iu unfolding merged_def by metis
qed

end
