(* ===== verification/Mallocprops.thy ===== *)
theory Mallocprops
  imports Malloc
begin

text \<open>
  What the allocator promises its clients: \<open>malloc\<close>, \<open>calloc\<close>, \<open>realloc\<close> and \<open>free\<close> keep the layout of the heap and every slot that is not
  theirs to change, and along any run of a program that uses them its blocks never overlap, keep their contents, and no
  assertion of the allocator fails.
\<close>

section \<open>malloc keeps the layout\<close>

lemma aligned_sum: "aligned a \<Longrightarrow> aligned b \<Longrightarrow> unat (a + b) = unat a + unat b \<Longrightarrow> aligned (a + b)"
  by (simp add: aligned_def)

lemma aligned_gap8: "aligned a \<Longrightarrow> aligned b \<Longrightarrow> unat a + 4 < unat b \<Longrightarrow> unat a + 8 \<le> unat b"
  unfolding aligned_def by presburger

lemma fits_iff:
  assumes "8 \<le> unat len"
  shows "fits m len p \<longleftrightarrow> unat p + unat len \<le> unat (NextSlot m p)"
proof (cases "unat p + unat len < 2 ^ 32")
  case True
  then show ?thesis using unat_plus_small [OF True] assms by (auto simp: fits_def word_le_nat_alt word_less_nat_alt)
next
  case False
  have b: "unat p < 2 ^ 32" "unat len < 2 ^ 32" using unsigned_less [of p] unsigned_less [of len] by simp_all
  have "unat (p + len) = (unat p + unat len - 2 ^ 32) mod 2 ^ 32" using False by (simp add: unat_word_ariths le_mod_geq)
  also have "\<dots> = unat p + unat len - 2 ^ 32" using b by (intro mod_less) linarith
  finally have "unat (p + len) < unat p" using b False by linarith
  moreover have "unat (NextSlot m p) < 2 ^ 32" using unsigned_less [of "NextSlot m p"] by simp
  ultimately show ?thesis using False by (auto simp: fits_def word_le_nat_alt)
qed

lemma take_slot_spec:
  assumes l: "layout (hmem h) (empty h) t S F" and t: "unat t + 8 \<le> 2 ^ 32" and len: "aligned len" "8 \<le> unat len"
    and p: "p \<in> F" "fits (hmem h) len p" and prev: "prev = 0 \<or> prev \<in> F" "is_succ F prev p"
  shows "\<exists>m' e' S' F'. take_slot len prev p h = Ok (p, h\<lparr>hmem := m', empty := e'\<rparr>) \<and> layout m' e' t S' F' \<and> S \<subseteq> S' \<and>
    keeps (in_use S F t) (hmem h) m' \<and> in_use S' F' t = insert p (in_use S F t) \<and> unat p + unat len \<le> unat (NextSlot m' p) \<and>
    (\<forall>b. (\<forall>c \<in> S. b \<le> c) \<longrightarrow> (\<forall>c \<in> S'. b \<le> c))"
proof -
  have ok: "slots_ok S t" and F: "F \<subseteq> S" "t \<notin> F" and pS: "p \<in> S" "p \<noteq> t" using l p by (auto simp: layout_def)
  let ?n = "NextSlot (hmem h) p" and ?new = "p + len"
  have fit: "unat p + unat len \<le> unat ?n" using fits_iff [OF len(2)] p(2) by blast
  have sp: "is_succ S p ?n" using l pS by (simp add: layout_def)
  have n: "?n \<in> S" using is_succ_gt [OF sp] fit len(2) by (cases "?n = 0") auto
  have nt: "unat ?n \<le> unat t" using slots_okD(4) [OF ok n] by (simp add: word_le_nat_alt)
  have un: "unat ?new = unat p + unat len" using fit nt t by (intro unat_plus_small) simp
  have un4: "unat (?new + 4) = unat ?new + 4" using un fit nt t by (subst unat_plus_small) auto
  have al: "aligned ?new" using aligned_sum [OF slots_okD(1) [OF ok pS(1)] len(1) un] .
  have asrt: "?new + 4 > ?new" using un4 by (simp add: word_less_nat_alt)
  show ?thesis
  proof (cases "?new + 4 < ?n")
    case False
    have eq: "take_slot len prev p h = Ok (p, set_link prev (NextFree (hmem h) p) h)"
      using False by (simp add: take_slot_def split_slot_def PTRSIZE_def Let_def)
    define h' where "h' = set_link prev (NextFree (hmem h) p) h"
    note u = layout_unlink [OF l p(1) prev, folded h'_def]
    have "h' = h\<lparr>hmem := hmem h', empty := empty h'\<rparr>" by (simp add: h'_def set_link_def upd_mem_def)
    moreover have "in_use S (F - {p}) t = insert p (in_use S F t)" using pS by (auto simp: in_use_def)
    ultimately show ?thesis using eq u(1,2) u(3) [OF pS(1)] fit unfolding h'_def [symmetric] by (metis order_refl)
  next
    case True
    then have g: "unat ?new + 8 \<le> unat ?n" using aligned_gap8 [OF al slots_okD(1) [OF ok n]] un4 by (simp add: word_less_nat_alt)
    have pn: "unat p + 8 \<le> unat ?new" using un len(2) by simp
    define h1 where "h1 = upd_mem (set_NextSlot p ?new) (upd_mem (set_NextSlot ?new ?n) h)"
    have h1: "hmem h1 = set_NextSlot p ?new (set_NextSlot ?new ?n (hmem h))" "empty h1 = empty h" by (simp_all add: h1_def upd_mem_def)
    note s = layout_split [OF l pS al pn g, folded h1(1)]
    have l1: "layout (hmem h1) (empty h1) t (insert ?new S) F" using s(1) h1(2) by simp
    have nf: "is_succ F p (NextFree (hmem h1) p)" using l1 p(1) by (simp add: layout_def)
    have new: "p < ?new" "?new < ?n" using pn g by (auto simp: word_less_nat_alt)
    have nn: "NextFree (hmem h1) p = 0 \<or> ?new < NextFree (hmem h1) p"
      using is_succ_gt [OF nf] is_succ_ge [OF sp] F(1) new(2) by (cases "NextFree (hmem h1) p = 0") (auto dest: order.strict_trans2)
    have iu: "?new \<in> in_use (insert ?new S) F t" using s(4) F ok by (auto simp: in_use_def slots_ok_def)
    define h2 where "h2 = set_link p ?new (upd_mem (set_NextFree ?new (NextFree (hmem h1) p)) h1)"
    note k = layout_link [OF l1 iu disjI2 [OF p(1)] new(1) nf nn, folded h2_def]
    have prev2: "prev = 0 \<or> prev \<in> insert ?new F" "is_succ (insert ?new F) prev p"
      using prev is_succ_insert_other [OF prev(2), of ?new] less_imp_le [OF new(1)] slots_okD(3) [OF ok pS(1)] by auto
    define h3 where "h3 = set_link prev (NextFree (hmem h2) p) h2"
    note u = layout_unlink [OF k(1) insertI2 [OF p(1)] prev2, folded h3_def]
    have p0: "p \<noteq> 0" using slots_okD(3) [OF ok pS(1)] .
    have eq: "take_slot len prev p h = Ok (p, h3)"
      using True asrt p0 by (simp add: take_slot_def split_slot_def PTRSIZE_def Let_def ASSERT_def h3_def h2_def h1_def set_link_def upd_mem_def)
    have h3: "h3 = h\<lparr>hmem := hmem h3, empty := empty h3\<rparr>" by (simp add: h3_def h2_def h1_def set_link_def upd_mem_def)
    have "keeps (in_use S F t) (hmem h) (hmem h1)" by (rule keeps_mono [OF s(2)]) (use p(1) in \<open>auto simp: in_use_def\<close>)
    moreover have "keeps (in_use S F t) (hmem h1) (hmem h2)" by (rule keeps_mono [OF k(2)]) (use s(4) in \<open>auto simp: in_use_def\<close>)
    moreover have "keeps (in_use S F t) (hmem h2) (hmem h3)" by (rule keeps_mono [OF u(2)]) (use s(4) in \<open>auto simp: in_use_def\<close>)
    ultimately have kp: "keeps (in_use S F t) (hmem h) (hmem h3)" by (meson keeps_trans)
    have "in_use (insert ?new S) (insert ?new F - {p}) t = insert p (in_use S F t)" using pS p(1) new(1) s(4) by (auto simp: in_use_def)
    moreover have "NextSlot (hmem h3) p = ?new" using u(3) k(3) s(5) pS(1) by simp
    moreover have "\<forall>c \<in> insert ?new S. b \<le> c" if "\<forall>c \<in> S. b \<le> c" for b
      using that pS(1) new(1) by (auto dest: order.strict_trans1)
    ultimately show ?thesis using eq h3 u(1) kp un by (metis subset_insertI order_refl)
  qed
qed

text \<open>Rounding up, when the sum does not wrap around.\<close>

lemma and_not_mask: "unat (w AND NOT (mask n) :: uint) = unat w div 2 ^ n * 2 ^ n"
proof -
  have e: "w AND NOT (mask n) = push_bit n (drop_bit n w)" by (rule bit_word_eqI) (auto simp: bit_simps)
  have "take_bit 32 (unat w) = unat w" using unsigned_less [of w, where 'a = nat] by (simp add: take_bit_nat_eq_self)
  then have "unat (push_bit n (drop_bit n w)) = take_bit 32 (push_bit n (drop_bit n (unat w)))"
    by (simp add: unsigned_push_bit_eq unsigned_drop_bit_eq del: push_bit_of_nat)
  moreover have "unat w div 2 ^ n * 2 ^ n < 2 ^ 32"
    by (rule le_less_trans [OF div_times_less_eq_dividend]) (use unsigned_less [of w, where 'a = nat] in simp)
  ultimately show ?thesis unfolding e by (simp only: push_bit_eq_mult drop_bit_eq_div take_bit_eq_mod mod_less)
qed

lemma Align_power:
  assumes "a = 4 \<or> a = BRKSIZE"
  obtains n k where "unat a = 2 ^ n" "unat a = 4 * k" "unat (Align x a) = (unat x + unat a - 1) mod 2 ^ 32 div 2 ^ n * 2 ^ n"
proof -
  obtain n k where n: "a - 1 = mask n" "unat a = 2 ^ n" "unat a = 4 * k" "unat (a - 1) = unat a - 1"
  proof (cases "a = 4")
    case True
    then show thesis using that [of 2 1] by (simp add: mask_eq_exp_minus_1)
  next
    case False
    then show thesis using assms that [of 10 256] by (simp add: BRKSIZE_def mask_eq_exp_minus_1)
  qed
  have "unat (x + (a - 1)) = (unat x + unat a - 1) mod 2 ^ 32" using n(2,4) by (simp add: unat_word_ariths)
  then have "unat (Align x a) = (unat x + unat a - 1) mod 2 ^ 32 div 2 ^ n * 2 ^ n" unfolding Align_def by (simp add: n(1) and_not_mask)
  with n that show thesis by blast
qed

lemma unat_Align:
  assumes "a = 4 \<or> a = BRKSIZE" "unat x + unat a \<le> 2 ^ 32"
  shows "aligned (Align x a)" "unat x \<le> unat (Align x a)" "unat (Align x a) < unat x + unat a"
proof -
  obtain n k where n: "unat a = 2 ^ n" "unat a = 4 * k" "unat (Align x a) = (unat x + unat a - 1) mod 2 ^ 32 div 2 ^ n * 2 ^ n"
    using Align_power [OF assms(1)] by metis
  have pos: "0 < unat a" using n(1) by simp
  then have e: "unat (Align x a) = (unat x + unat a - 1) div unat a * unat a" using assms(2) n(1,3) by simp
  have "4 dvd unat a" using n(2) by simp
  then show "aligned (Align x a)" unfolding aligned_def e by simp
  have "(unat x + unat a - 1) div unat a * unat a + (unat x + unat a - 1) mod unat a = unat x + unat a - 1" by simp
  moreover have "(unat x + unat a - 1) mod unat a < unat a" using pos by simp
  ultimately show "unat x \<le> unat (Align x a)" "unat (Align x a) < unat x + unat a" unfolding e using pos by linarith+
qed

lemma Align_wraps:
  assumes "a = 4 \<or> a = BRKSIZE" "2 ^ 32 < unat x + unat a"
  shows "Align x a = 0"
proof -
  obtain n where n: "unat a = 2 ^ n" "unat (Align x a) = (unat x + unat a - 1) mod 2 ^ 32 div 2 ^ n * 2 ^ n"
    using Align_power [OF assms(1)] by metis
  have "unat x < 2 ^ 32" "unat a < 2 ^ 32" using unsigned_less [of x, where 'a = nat] unsigned_less [of a, where 'a = nat] by simp_all
  moreover from this have "(unat x + unat a - 1) mod 2 ^ 32 = unat x + unat a - 1 - 2 ^ 32"
    using assms(2) by (simp add: le_mod_geq)
  moreover have "0 < unat a" using n(1) by simp
  ultimately have "(unat x + unat a - 1) mod 2 ^ 32 < unat a" by linarith
  then have "(unat x + unat a - 1) mod 2 ^ 32 < 2 ^ n" using n(1) by simp
  then have "unat (Align x a) = 0" using n(2) by simp
  then show ?thesis by (simp add: word_unat_eq_iff)
qed

lemma slot_length:
  assumes "\<not> Align sz PTRSIZE + PTRSIZE < 2 * PTRSIZE"
  shows "aligned (Align sz PTRSIZE + PTRSIZE)" "8 \<le> unat (Align sz PTRSIZE + PTRSIZE)"
    "unat sz + 4 \<le> unat (Align sz PTRSIZE + PTRSIZE)" "unat (Align sz PTRSIZE + PTRSIZE) < unat sz + 8"
proof -
  have "8 \<le> unat (Align sz 4 + 4)" using assms by (simp add: PTRSIZE_def word_less_nat_alt)
  then show e: "8 \<le> unat (Align sz PTRSIZE + PTRSIZE)" by (simp add: PTRSIZE_def)
  have "unat sz + 4 \<le> 2 ^ 32" using Align_wraps [of 4 sz] e by (force simp: PTRSIZE_def not_le)
  then have A: "aligned (Align sz 4)" "unat sz \<le> unat (Align sz 4)" "unat (Align sz 4) < unat sz + 4" using unat_Align [of 4 sz] by auto
  have "unat (Align sz 4 + 4) = unat (Align sz 4) + 4"
  proof (cases "unat (Align sz 4) + 4 = 2 ^ 32")
    case True
    then have "unat (Align sz 4 + 4) = 0" by (simp add: unat_word_ariths)
    then show ?thesis using e by (simp add: PTRSIZE_def)
  next
    case False
    then show ?thesis using aligned_bound [OF A(1)] by (subst unat_plus_small) auto
  qed
  then show "aligned (Align sz PTRSIZE + PTRSIZE)" "unat sz + 4 \<le> unat (Align sz PTRSIZE + PTRSIZE)"
    "unat (Align sz PTRSIZE + PTRSIZE) < unat sz + 8"
    using A by (auto simp: PTRSIZE_def aligned_def)
qed

section \<open>The break\<close>

text \<open>The kernel's record of the break of the running process, and what it keeps of it.\<close>

abbreviation cur_brk :: "kern_state \<Rightarrow> uint" where "cur_brk k \<equiv> p_curbrk (ptable k (the (proc k)))"
abbreviation bss_end :: "kern_state \<Rightarrow> uint" where "bss_end k \<equiv> p_bssend (ptable k (the (proc k)))"

definition break_ok :: "kern_state \<Rightarrow> bool" where
  "break_ok k \<longleftrightarrow> proc k \<noteq> None \<and> 4 \<le> unat (bss_end k) \<and> bss_end k \<le> cur_brk k \<and> unat (cur_brk k) + 256 \<le> 2 ^ 32"

lemma sys_brk_spec:
  assumes "break_ok k" "256 \<le> unat sp"
  shows "\<exists>r k'. sys_brk sp a k = Ok (r, k') \<and> break_ok k' \<and> bss_end k' = bss_end k \<and>
    (r = 0 \<and> cur_brk k' = a \<and> unat a + 256 \<le> 2 ^ 32 \<and> bss_end k \<le> a \<or> r = -1 \<and> cur_brk k' = cur_brk k)"
proof -
  obtain me where me: "proc k = Some me" using assms by (auto simp: break_ok_def)
  have "unat (sp - 256) + 256 \<le> 2 ^ 32"
    using assms(2) unsigned_less [of sp, where 'a = nat] by (subst unat_sub) (auto simp: word_le_nat_alt)
  then show ?thesis using me assms(1)
    by (auto simp: sys_brk_def break_ok_def myproc_def upd_proc_def set_errno_def not_less word_le_nat_alt)
qed

lemma sys_sbrk_spec:
  assumes "break_ok k" "256 \<le> unat sp"
  shows "\<exists>r k'. sys_sbrk sp 8 k = Ok (r, k') \<and> break_ok k' \<and> bss_end k' = bss_end k \<and>
    (r = cur_brk k \<and> unat (cur_brk k') = unat (cur_brk k) + 8 \<or> r = -1 \<and> cur_brk k' = cur_brk k)"
proof -
  obtain me where me: "proc k = Some me" using assms by (auto simp: break_ok_def)
  have "unat (cur_brk k + 8) = unat (cur_brk k) + 8" using assms(1) by (subst unat_plus_small) (auto simp: break_ok_def)
  moreover obtain r k' where b: "sys_brk sp (cur_brk k + 8) k = Ok (r, k')" "break_ok k'" "bss_end k' = bss_end k"
      "r = 0 \<and> cur_brk k' = cur_brk k + 8 \<or> r = -1 \<and> cur_brk k' = cur_brk k"
    using sys_brk_spec [OF assms, of "cur_brk k + 8"] by blast
  moreover have "sys_sbrk sp 8 k = Ok (if r = -1 then -1 else cur_brk k, k')" using b(1) me by (simp add: sys_sbrk_def myproc_def)
  ultimately show ?thesis by (cases "r = -1") auto
qed

text \<open>The state of the allocator between calls; \<open>A\<close> is the set of slots its client holds.\<close>

definition heap_rep :: "heap \<Rightarrow> uint set \<Rightarrow> uint set \<Rightarrow> bool" where
  "heap_rep h S F \<longleftrightarrow> layout (hmem h) (empty h) (htop h) S F \<and> bottom h \<in> S \<and> (\<forall>a \<in> S. bottom h \<le> a) \<and>
     break_ok (kern h) \<and> htop h \<le> cur_brk (kern h) \<and> unat (bss_end (kern h)) + 4 \<le> unat (bottom h)"

definition heap_inv :: "heap \<Rightarrow> uint set \<Rightarrow> bool" where
  "heap_inv h A \<longleftrightarrow>
     (if bottom h = 0 then empty h = 0 \<and> A = {} \<and> break_ok (kern h)
      else \<exists>S F. heap_rep h S F \<and> A = in_use S F (htop h))"

lemma heap_rep_top:
  assumes "heap_rep h S F"
  shows "unat (htop h) + 256 \<le> 2 ^ 32" "8 \<le> unat (htop h)" "bottom h \<noteq> 0" "NextSlot (hmem h) (htop h) = 0"
proof -
  have ok: "slots_ok S (htop h)" "htop h \<in> S" using assms by (auto simp: heap_rep_def layout_def slots_ok_def)
  show "unat (htop h) + 256 \<le> 2 ^ 32" using assms by (auto simp: heap_rep_def break_ok_def word_le_nat_alt)
  show "8 \<le> unat (htop h)" "bottom h \<noteq> 0" using slots_okD(2,3) [OF ok(1)] ok(2) assms by (auto simp: heap_rep_def)
  have "is_succ S (htop h) (NextSlot (hmem h) (htop h))" using assms ok(2) by (simp add: heap_rep_def layout_def)
  from is_succ_gt [OF this] show "NextSlot (hmem h) (htop h) = 0" using slots_okD(4) [OF ok(1)] by fastforce
qed

text \<open>Growing fails with the slots as they were, or leaves a free slot of the length asked for.\<close>

lemma grow_spec:
  assumes r: "heap_rep h S F" and sp: "256 \<le> unat sp" and len: "8 \<le> unat len" "unat len + 1024 \<le> 2 ^ 32"
  shows "\<exists>c h' S' F'. grow sp len h = Ok (c, h') \<and> heap_rep h' S' F' \<and> keeps (in_use S F (htop h)) (hmem h) (hmem h') \<and>
    in_use S' F' (htop h') = in_use S F (htop h) \<and> (c \<noteq> 0 \<longrightarrow> (\<exists>q \<in> F'. fits (hmem h') len q))"
proof -
  note T = heap_rep_top [OF r]
  let ?t = "htop h" and ?p = "Align (htop h + len) BRKSIZE"
  have same: "\<exists>c h' S' F'. Ok (0::int, h\<lparr>kern := k\<rparr>) = Ok (c, h') \<and> heap_rep h' S' F' \<and> keeps (in_use S F (htop h)) (hmem h) (hmem h') \<and>
      in_use S' F' (htop h') = in_use S F (htop h) \<and> (c \<noteq> 0 \<longrightarrow> (\<exists>q \<in> F'. fits (hmem h') len q))"
    if "break_ok k" "bss_end k = bss_end (kern h)" "cur_brk k = cur_brk (kern h)" for k
    using that r by (intro exI [of _ "0::int"] exI [of _ "h\<lparr>kern := k\<rparr>"] exI [of _ S] exI [of _ F]) (simp add: heap_rep_def)
  have B: "unat BRKSIZE = 1024" by (simp add: BRKSIZE_def)
  have up: "unat ?t + unat len \<le> unat ?p \<and> aligned ?p" if "\<not> ?p < ?t"
  proof -
    have t0: "?t > 0" using T(2) by (auto simp: word_gt_0)
    have nw: "unat (?t + len) + 1024 \<le> 2 ^ 32" using Align_wraps [of BRKSIZE "?t + len"] B that t0 by (force simp: not_le)
    note A = unat_Align [of BRKSIZE "?t + len", unfolded B, OF disjI2 [OF refl] nw]
    have "unat ?t + unat len < 2 ^ 32"
    proof (rule ccontr)
      assume w: "\<not> unat ?t + unat len < 2 ^ 32"
      have "unat (?t + len) = (unat ?t + unat len - 2 ^ 32) mod 2 ^ 32" using w by (simp add: unat_word_ariths le_mod_geq)
      also have "\<dots> = unat ?t + unat len - 2 ^ 32" using T(1) len(2) by (intro mod_less) linarith
      finally have "unat ?p < unat ?t" using A(3) len(2) w by linarith
      then show False using that by (simp add: word_less_nat_alt)
    qed
    then show ?thesis using A(1,2) unat_plus_small by simp
  qed
  show ?thesis
  proof (cases "?p < ?t")
    case True
    then have "grow sp len h = Ok (0, h\<lparr>kern := kern h\<rparr>)" using T(4) by (simp add: grow_def ASSERT_def Let_def)
    then show ?thesis using same [of "kern h"] r by (simp add: heap_rep_def)
  next
    case False
    obtain c k where b: "sys_brk sp ?p (kern h) = Ok (c, k)" "break_ok k" "bss_end k = bss_end (kern h)"
        "c = 0 \<and> cur_brk k = ?p \<or> c = -1 \<and> cur_brk k = cur_brk (kern h)"
      using sys_brk_spec [of "kern h" sp ?p] r sp by (auto simp: heap_rep_def)
    show ?thesis
    proof (cases "c = 0")
      case False
      then have "grow sp len h = Ok (0, h\<lparr>kern := k\<rparr>)" using T(4) b \<open>\<not> ?p < ?t\<close> by (simp add: grow_def ASSERT_def Let_def)
      then show ?thesis using same [of k] b False by simp
    next
      case True
      have p: "unat ?t + unat len \<le> unat ?p" "aligned ?p" "unat ?t + 8 \<le> unat ?p" using up [OF False] len by auto
      have l: "layout (hmem h) (empty h) ?t S F" using r by (simp add: heap_rep_def)
      define h1 where "h1 = upd_mem (set_NextSlot ?p 0) (upd_mem (set_NextSlot ?t ?p) (h\<lparr>kern := k\<rparr>))"
      have h1: "hmem h1 = set_NextSlot ?p 0 (set_NextSlot ?t ?p (hmem h))" "empty h1 = empty h" by (simp_all add: h1_def upd_mem_def)
      note x = layout_extend [OF l p(2,3), folded h1(1)]
      have tu: "?t \<in> in_use (insert ?p S) F ?p" and iu: "in_use (insert ?p S) F ?p = insert ?t (in_use S F ?t)"
        using l x(4) by (auto simp: layout_def slots_ok_def in_use_def)
      from free_spec [OF x(1) [folded h1(2)] tu] obtain m' e' S' F' q where
        f: "free ?t h1 = Ok (h1\<lparr>hmem := m', empty := e'\<rparr>)" "layout m' e' ?p S' F'" "keeps (in_use (insert ?p S) F ?p - {?t}) (hmem h1) m'"
          "in_use S' F' ?p = in_use (insert ?p S) F ?p - {?t}" "S' \<subseteq> insert ?p S"
          "\<forall>a \<in> insert ?p S. (\<forall>c \<in> insert ?p S. a \<le> c) \<longrightarrow> a \<in> S'" "q \<in> F'" "q \<le> ?t" "NextSlot (hmem h1) ?t \<le> NextSlot m' q" by blast
      let ?h' = "h1\<lparr>hmem := m', empty := e', htop := ?p\<rparr>"
      have iu2: "in_use (insert ?p S) F ?p - {?t} = in_use S F ?t" using iu by (auto simp: in_use_def)
      have bt: "bottom h \<in> S" "\<And>a. a \<in> S \<Longrightarrow> bottom h \<le> a" using r by (auto simp: heap_rep_def)
      have "bottom h \<le> ?p" using bt(2) [of ?t] l p(3) by (force simp: layout_def slots_ok_def word_le_nat_alt)
      then have "bottom h \<in> S'" "\<forall>a \<in> S'. bottom h \<le> a" using f(5,6) bt by auto
      then have rep: "heap_rep ?h' S' F'" using f(2) b True r by (simp add: heap_rep_def h1_def upd_mem_def)
      have g: "grow sp len h = Ok (1, ?h')" using T(4) b(1) True \<open>\<not> ?p < ?t\<close> f(1)
        by (simp add: grow_def ASSERT_def Let_def h1_def upd_mem_def)
      have "unat q + unat len \<le> unat (NextSlot m' q)" using f(8,9) x(3) p(1) by (auto simp: word_le_nat_alt)
      then have "fits (hmem ?h') len q" using fits_iff [OF len(1)] by simp
      moreover have "keeps (in_use S F ?t) (hmem h) m'" using x(2) f(3) iu2 keeps_trans by metis
      ultimately show ?thesis using g rep f(4,7) iu2 by fastforce
    qed
  qed
qed

lemma first_slot_spec:
  assumes inv: "heap_inv h A" and sp: "256 \<le> unat sp"
  shows "\<exists>ok h'. first_slot sp h = Ok (ok, h') \<and> heap_inv h' A \<and> keeps A (hmem h) (hmem h') \<and> (ok \<longrightarrow> bottom h' \<noteq> 0)"
proof (cases "bottom h = 0")
  case False
  then show ?thesis using inv by (auto simp: first_slot_def)
next
  case True
  then have h: "empty h = 0" "A = {}" "break_ok (kern h)" using inv by (auto simp: heap_inv_def)
  obtain r k where b: "sys_sbrk sp 8 (kern h) = Ok (r, k)" "break_ok k" "bss_end k = bss_end (kern h)"
      "r = cur_brk (kern h) \<and> unat (cur_brk k) = unat (cur_brk (kern h)) + 8 \<or> r = -1 \<and> cur_brk k = cur_brk (kern h)"
    using sys_sbrk_spec [OF h(3) sp] by blast
  show ?thesis
  proof (cases "r = -1")
    case fail: True
    then have "first_slot sp h = Ok (False, h\<lparr>kern := k\<rparr>)" using b(1) True by (simp add: first_slot_def PTRSIZE_def)
    then show ?thesis using h b(2) True by (intro exI [of _ False] exI [of _ "h\<lparr>kern := k\<rparr>"]) (simp add: heap_inv_def)
  next
    case False
    define p where "p = Align (cur_brk (kern h)) 4"
    have c: "r = cur_brk (kern h)" "unat (cur_brk k) = unat (cur_brk (kern h)) + 8" using b(4) False by auto
    have k0: "4 \<le> unat (bss_end (kern h))" "unat (bss_end (kern h)) \<le> unat (cur_brk (kern h))" "unat (cur_brk (kern h)) + 256 \<le> 2 ^ 32"
      using h(3) by (auto simp: break_ok_def word_le_nat_alt)
    have P: "aligned p" "unat (cur_brk (kern h)) \<le> unat p" "unat p < unat (cur_brk (kern h)) + 4"
      using unat_Align [of 4 "cur_brk (kern h)"] k0(3) by (auto simp: p_def)
    then have t: "unat (p + 4) = unat p + 4" using k0(3) by (subst unat_plus_small) auto
    then have "aligned (p + 4)" using P(1) by (simp add: aligned_def)
    let ?h' = "upd_mem (set_NextSlot (p + 4) 0) (h\<lparr>kern := k, htop := p + 4, bottom := p + 4\<rparr>)"
    have f: "first_slot sp h = Ok (True, ?h')"
      using b(1) True False c(1) t by (simp add: first_slot_def PTRSIZE_def ASSERT_def Let_def p_def word_less_nat_alt upd_mem_def)
    have "slots_ok {p + 4} (p + 4)" using \<open>aligned (p + 4)\<close> t P k0 by (simp add: slots_ok_def)
    moreover from this have "NextSlot (hmem ?h') (p + 4) = 0" using slot_writes(1) [of "{p + 4}" "p + 4"] by (simp add: upd_mem_def)
    ultimately have "layout (hmem ?h') (empty ?h') (p + 4) {p + 4} {}" using h(1) by (simp add: layout_def is_succ_def upd_mem_def)
    then have "heap_rep ?h' {p + 4} {}"
      using b(2,3) c(2) k0 P t by (simp add: heap_rep_def upd_mem_def word_le_nat_alt)
    moreover have "p + 4 \<noteq> 0" using t by auto
    ultimately have "heap_inv ?h' A" using h(2) unfolding heap_inv_def by (auto simp: in_use_def upd_mem_def)
    then show ?thesis using f h(2) \<open>p + 4 \<noteq> 0\<close> by (auto simp: keeps_def upd_mem_def)
  qed
qed

section \<open>The contract\<close>

text \<open>What \<open>malloc\<close> owes its client: no slot of the client changes, and the new one is not one of them and is long enough.\<close>

definition malloc_post :: "uint set \<Rightarrow> nat \<Rightarrow> heap \<Rightarrow> uint \<Rightarrow> heap \<Rightarrow> bool" where
  "malloc_post A n h p h' \<longleftrightarrow> keeps A (hmem h) (hmem h') \<and>
     (if p = 0 then heap_inv h' A else p \<notin> A \<and> heap_inv h' (insert p A) \<and> unat p + n + 4 \<le> unat (NextSlot (hmem h') p))"

lemma malloc_post_trans: "keeps A (hmem h) (hmem h1) \<Longrightarrow> malloc_post A n h1 p h' \<Longrightarrow> malloc_post A n h p h'"
  by (auto simp: malloc_post_def intro: keeps_trans)

lemma heap_invE:
  assumes "heap_inv h A" "bottom h \<noteq> 0"
  obtains S F where "heap_rep h S F" "A = in_use S F (htop h)"
  using assms by (auto simp: heap_inv_def)

lemma heap_invI: "heap_rep h S F \<Longrightarrow> heap_inv h (in_use S F (htop h))"
  using heap_rep_top(3) by (auto simp: heap_inv_def)

lemma take_slot_post:
  assumes r: "heap_rep h S F" and len: "aligned len" "8 \<le> unat len" "n + 4 \<le> unat len"
    and p: "p \<in> F" "fits (hmem h) len p" and prev: "prev = 0 \<or> prev \<in> F" "is_succ F prev p"
  shows "\<exists>h'. take_slot len prev p h = Ok (p, h') \<and> malloc_post (in_use S F (htop h)) n h p h'"
proof -
  have l: "layout (hmem h) (empty h) (htop h) S F" using r by (simp add: heap_rep_def)
  have "unat (htop h) + 8 \<le> 2 ^ 32" using heap_rep_top(1) [OF r] by simp
  from take_slot_spec [OF l this len(1,2) p prev] obtain m' e' S' F' where
    t: "take_slot len prev p h = Ok (p, h\<lparr>hmem := m', empty := e'\<rparr>)" "layout m' e' (htop h) S' F'" "S \<subseteq> S'"
      "keeps (in_use S F (htop h)) (hmem h) m'" "in_use S' F' (htop h) = insert p (in_use S F (htop h))"
      "unat p + unat len \<le> unat (NextSlot m' p)" "\<forall>b. (\<forall>c \<in> S. b \<le> c) \<longrightarrow> (\<forall>c \<in> S'. b \<le> c)" by blast
  let ?h' = "h\<lparr>hmem := m', empty := e'\<rparr>"
  have "heap_rep ?h' S' F'" using r t(2,3,7) by (auto simp: heap_rep_def)
  from heap_invI [OF this] have "heap_inv ?h' (insert p (in_use S F (htop h)))" using t(5) by simp
  moreover have "p \<notin> in_use S F (htop h)" "p \<noteq> 0" using p(1) layout_nonzero [OF l] by (auto simp: in_use_def)
  ultimately show ?thesis using t len(3) by (auto simp: malloc_post_def)
qed

lemma malloc_try_rep:
  assumes r: "heap_rep h S F" and len: "len = Align sz PTRSIZE + PTRSIZE" "\<not> len < 2 * PTRSIZE"
  shows "(\<exists>p h'. malloc_try (Suc n) sp sz h = Ok (p, h') \<and> malloc_post (in_use S F (htop h)) (unat sz) h p h') \<or>
    (\<forall>q \<in> F. \<not> fits (hmem h) len q) \<and>
    malloc_try (Suc n) sp sz h = rbind (grow sp len h) (\<lambda>(r, h). if r = 0 then Ok (0, h) else malloc_try n sp sz h)"
proof -
  have l: "layout (hmem h) (empty h) (htop h) S F" using r by (simp add: heap_rep_def)
  note L = slot_length [OF len(2) [unfolded len(1)], folded len(1)]
  obtain prev p where w: "walk HFUEL (hmem h) (fits (hmem h) len) 0 (empty h) = Ok (prev, p)" "prev = 0 \<or> prev \<in> F" "is_succ F prev p"
      "\<forall>x \<in> F. x \<le> prev \<longrightarrow> \<not> fits (hmem h) len x" "p = 0 \<or> p \<in> F \<and> fits (hmem h) len p"
    using walk_free_list [OF l, of "fits (hmem h) len"] by blast
  have tr: "malloc_try (Suc n) sp sz h =
      (if p \<noteq> 0 then take_slot len prev p h else rbind (grow sp len h) (\<lambda>(r, h). if r = 0 then Ok (0, h) else malloc_try n sp sz h))"
    using len w(1) heap_rep_top(3) [OF r] by (simp add: first_slot_def malloc_try.simps Let_def)
  show ?thesis
  proof (cases "p = 0")
    case True
    then have "\<not> fits (hmem h) len q" if "q \<in> F" for q using that w(3,4) by (auto simp: is_succ_def)
    then show ?thesis using tr True by simp
  next
    case False
    then have "p \<in> F" "fits (hmem h) len p" using w(5) by auto
    from take_slot_post [OF r L(1,2,3) this w(2,3)] obtain h' where
      "take_slot len prev p h = Ok (p, h')" "malloc_post (in_use S F (htop h)) (unat sz) h p h'" by blast
    then show ?thesis using tr False by simp
  qed
qed

lemma malloc_spec:
  assumes inv: "heap_inv h A" and sp: "256 \<le> unat sp" and sz: "unat sz + 2048 \<le> 2 ^ 32"
  shows "\<exists>p h'. malloc sp sz h = Ok (p, h') \<and> malloc_post A (unat sz) h p h'"
proof -
  define z where "z = (if sz = 0 then PTRSIZE else sz)"
  have z: "unat sz \<le> unat z" "unat z + 2040 \<le> 2 ^ 32" using sz by (auto simp: z_def PTRSIZE_def)
  have mono: "malloc_post A (unat z) h p h' \<Longrightarrow> malloc_post A (unat sz) h p h'" for p h' using z(1) by (auto simp: malloc_post_def split: if_splits)
  define len where "len = Align z PTRSIZE + PTRSIZE"
  have "\<exists>p h'. malloc_try (Suc (Suc 0)) sp z h = Ok (p, h') \<and> malloc_post A (unat z) h p h'"
  proof (cases "len < 2 * PTRSIZE")
    case True
    then show ?thesis using inv by (auto simp: malloc_post_def len_def malloc_try.simps Let_def)
  next
    case False
    note L = slot_length [OF False [unfolded len_def], folded len_def]
    obtain ok h1 where f: "first_slot sp h = Ok (ok, h1)" "heap_inv h1 A" "keeps A (hmem h) (hmem h1)" "ok \<longrightarrow> bottom h1 \<noteq> 0"
      using first_slot_spec [OF inv sp] by blast
    show ?thesis
    proof (cases ok)
      case False
      then have "malloc_try (Suc (Suc 0)) sp z h = Ok (0, h1)" using f(1) \<open>\<not> len < 2 * PTRSIZE\<close> by (simp add: len_def malloc_try.simps Let_def)
      then show ?thesis using f by (auto simp: malloc_post_def)
    next
      case True
      then obtain S F where r: "heap_rep h1 S F" "A = in_use S F (htop h1)" using f(2,4) heap_invE by blast
      have "first_slot sp h1 = Ok (True, h1)" using f(4) True by (simp add: first_slot_def)
      then have tr: "malloc_try (Suc n) sp z h = malloc_try (Suc n) sp z h1" for n
        using f(1) True \<open>\<not> len < 2 * PTRSIZE\<close> by (simp add: malloc_try.simps Let_def len_def)
      show ?thesis
      proof (cases "\<exists>p h'. malloc_try (Suc (Suc 0)) sp z h1 = Ok (p, h') \<and> malloc_post A (unat z) h1 p h'")
        case True
        then show ?thesis using tr malloc_post_trans [OF f(3)] by metis
      next
        case nofit: False
        then have m: "malloc_try (Suc (Suc 0)) sp z h1 = rbind (grow sp len h1) (\<lambda>(r, h). if r = 0 then Ok (0, h) else malloc_try (Suc 0) sp z h)"
          using malloc_try_rep [OF r(1) len_def False, of "Suc 0" sp] r(2) by blast
        have "unat len + 1024 \<le> 2 ^ 32" using L(4) z(2) by simp
        from grow_spec [OF r(1) sp L(2) this] obtain c h2 S2 F2 where
          g: "grow sp len h1 = Ok (c, h2)" "heap_rep h2 S2 F2" "keeps A (hmem h1) (hmem h2)" "in_use S2 F2 (htop h2) = A"
            "c \<noteq> 0 \<longrightarrow> (\<exists>q \<in> F2. fits (hmem h2) len q)" using r(2) by blast
        have k: "keeps A (hmem h) (hmem h2)" using keeps_trans [OF f(3) g(3)] .
        show ?thesis
        proof (cases "c = 0")
          case True
          then have "malloc_try (Suc (Suc 0)) sp z h = Ok (0, h2)" using tr [of "Suc 0"] m g(1) by simp
          then show ?thesis using k heap_invI [OF g(2)] g(4) by (auto simp: malloc_post_def)
        next
          case grown: False
          then obtain p h' where "malloc_try (Suc 0) sp z h2 = Ok (p, h')" "malloc_post A (unat z) h2 p h'"
            using malloc_try_rep [OF g(2) len_def False, of 0 sp] g(4,5) by blast
          then show ?thesis using tr [of "Suc 0"] m g(1) grown malloc_post_trans [OF k] by auto
        qed
      qed
    qed
  qed
  then show ?thesis using mono by (auto simp: malloc_def z_def numeral_2_eq_2)
qed

lemma free_inv:
  assumes "heap_inv h A" "p \<in> A"
  shows "\<exists>h'. free p h = Ok h' \<and> heap_inv h' (A - {p}) \<and> keeps (A - {p}) (hmem h) (hmem h')"
proof -
  have "bottom h \<noteq> 0" using assms by (auto simp: heap_inv_def)
  then obtain S F where r: "heap_rep h S F" "A = in_use S F (htop h)" using heap_invE assms(1) by blast
  have l: "layout (hmem h) (empty h) (htop h) S F" using r by (simp add: heap_rep_def)
  from free_spec [OF l, of p] assms(2) r(2) obtain m' e' S' F' where
    f: "free p h = Ok (h\<lparr>hmem := m', empty := e'\<rparr>)" "layout m' e' (htop h) S' F'" "keeps (A - {p}) (hmem h) m'"
      "in_use S' F' (htop h) = A - {p}" "S' \<subseteq> S" "\<forall>a \<in> S. (\<forall>c \<in> S. a \<le> c) \<longrightarrow> a \<in> S'" by blast
  have "heap_rep (h\<lparr>hmem := m', empty := e'\<rparr>) S' F'" using r(1) f(2,5,6) by (auto simp: heap_rep_def)
  from heap_invI [OF this] f(1,3,4) show ?thesis by auto
qed

section \<open>Writing into a slot\<close>

lemma peek_cong:
  assumes "aligned c" "\<And>x. unat c \<le> unat x \<Longrightarrow> unat x < unat c + 4 \<Longrightarrow> m' x = m x"
  shows "peek m' c = peek m c"
  using assms(2) [of c] assms(2) [of "c + 1"] assms(2) [of "c + 2"] assms(2) [of "c + 3"] aligned_off [OF assms(1)] by (simp add: peek_def)

lemma layout_write:
  assumes l: "layout m e t S F" and p: "p \<in> in_use S F t" and eq: "\<And>x. x \<notin> block m p \<Longrightarrow> m' x = m x"
  shows "layout m' e t S F" "keeps (in_use S F t - {p}) m m'" "\<And>a. a \<in> S \<Longrightarrow> NextSlot m' a = NextSlot m a"
proof -
  have ok: "slots_ok S t" and F: "F \<subseteq> S" and pS: "p \<in> S" "p \<notin> F" using l p by (auto simp: layout_def in_use_def)
  have ns: "NextSlot m' a = NextSlot m a" if a: "a \<in> S" for a
    unfolding NextSlot_def PTRSIZE_def
  proof (rule peek_cong)
    note A = slots_okD [OF ok a]
    show "aligned (a - 4)" using A by simp
    show "m' x = m x" if "unat (a - 4) \<le> unat x" "unat x < unat (a - 4) + 4" for x
      using that A block_inside [OF l pS(1) _ a, of x] by (intro eq) (auto simp: block_def)
  qed
  then show "\<And>a. a \<in> S \<Longrightarrow> NextSlot m' a = NextSlot m a" .
  have nf: "NextFree m' f = NextFree m f" if f: "f \<in> F" for f
    unfolding NextFree_def
  proof (rule peek_cong)
    have fS: "f \<in> S" "f \<noteq> p" using f F pS by auto
    show "aligned f" using slots_okD [OF ok fS(1)] by simp
    show "m' x = m x" if "unat f \<le> unat x" "unat x < unat f + 4" for x
      using that block_inside [OF l pS(1) _ fS(1), of x] slots_ok_gap [OF ok fS(1) pS(1)] fS(2)
      by (intro eq) (auto simp: block_def word_unat_eq_iff)
  qed
  show "layout m' e t S F" using l ns nf by (auto simp: layout_def)
  have "m' x = m x" if a: "a \<in> S" "a \<noteq> p" "x \<in> block m a" for a x
  proof (rule eq)
    show "x \<notin> block m p"
    proof
      assume "x \<in> block m p"
      then show False using block_inside [OF l a(1,3) pS(1)] block_inside [OF l pS(1) _ a(1), of x] a(2,3)
        by (auto simp: block_def word_unat_eq_iff)
    qed
  qed
  then show "keeps (in_use S F t - {p}) m m'" using ns by (auto simp: keeps_def in_use_def)
qed

lemma heap_write:
  assumes "heap_inv h A" "p \<in> A" "\<And>x. x \<notin> block (hmem h) p \<Longrightarrow> m' x = hmem h x"
  shows "heap_inv (h\<lparr>hmem := m'\<rparr>) A" "keeps (A - {p}) (hmem h) m'" "\<And>a. a \<in> A \<Longrightarrow> NextSlot m' a = NextSlot (hmem h) a"
proof -
  have "bottom h \<noteq> 0" using assms by (auto simp: heap_inv_def)
  then obtain S F where r: "heap_rep h S F" "A = in_use S F (htop h)" using heap_invE assms(1) by blast
  have l: "layout (hmem h) (empty h) (htop h) S F" using r by (simp add: heap_rep_def)
  note w = layout_write [OF l assms(2) [unfolded r(2)] assms(3), folded r(2)]
  have "heap_rep (h\<lparr>hmem := m'\<rparr>) S F" using r(1) w(1) by (simp add: heap_rep_def)
  from heap_invI [OF this] show "heap_inv (h\<lparr>hmem := m'\<rparr>) A" using r(2) by simp
  show "keeps (A - {p}) (hmem h) m'" by (rule w(2))
  show "NextSlot m' a = NextSlot (hmem h) a" if "a \<in> A" for a using w(3) that r(2) by (auto simp: in_use_def)
qed

text \<open>An offset within a slot.\<close>

lemma block_off:
  assumes "unat p + n + 4 \<le> unat (NextSlot m p)" "unat (x - p) < n"
  shows "x \<in> block m p" "unat x = unat p + unat (x - p)"
proof -
  have "unat (NextSlot m p) < 2 ^ 32" using unsigned_less [of "NextSlot m p", where 'a = nat] by simp
  then show "unat x = unat p + unat (x - p)" using unat_plus_small [of p "x - p"] assms by simp
  then show "x \<in> block m p" using assms by (simp add: block_def)
qed

lemma calloc_spec:
  assumes "heap_inv h A" "256 \<le> unat sp" "unat (n * sz) + 2048 \<le> 2 ^ 32"
  shows "\<exists>p h'. calloc sp n sz h = Ok (p, h') \<and> malloc_post A (unat (n * sz)) h p h' \<and>
    (p \<noteq> 0 \<longrightarrow> (\<forall>i < unat (n * sz). hmem h' (p + of_nat i) = 0))"
proof -
  obtain p h1 where m: "malloc sp (n * sz) h = Ok (p, h1)" "malloc_post A (unat (n * sz)) h p h1" using malloc_spec [OF assms] by blast
  show ?thesis
  proof (cases "p = 0")
    case True
    then show ?thesis using m by (simp add: calloc_def)
  next
    case False
    let ?m = "zero_mem p (unat (n * sz)) (hmem h1)"
    have b: "unat p + unat (n * sz) + 4 \<le> unat (NextSlot (hmem h1) p)" "heap_inv h1 (insert p A)" "p \<notin> A" "keeps A (hmem h) (hmem h1)"
      using m(2) False by (auto simp: malloc_post_def)
    have "?m x = hmem h1 x" if "x \<notin> block (hmem h1) p" for x using that block_off(1) [OF b(1), of x] by (auto simp: zero_mem_def)
    note w = heap_write [OF b(2) insertI1 this]
    have "keeps A (hmem h1) ?m" by (rule keeps_mono [OF w(2)]) (use b(3) in auto)
    then have "malloc_post A (unat (n * sz)) h p (h1\<lparr>hmem := ?m\<rparr>)"
      using w(1) w(3) [of p] b False keeps_trans by (auto simp: malloc_post_def)
    moreover have "?m (p + of_nat i) = 0" if "i < unat (n * sz)" for i
    proof -
      have "unat (of_nat i :: uint) = i" using that unsigned_less [of "n * sz", where 'a = nat]
        by (simp add: unsigned_of_nat take_bit_nat_eq_self)
      then show ?thesis using that by (simp add: zero_mem_def)
    qed
    ultimately show ?thesis using m(1) False by (simp add: calloc_def upd_mem_def)
  qed
qed

section \<open>realloc\<close>

lemma absorb_spec:
  assumes r: "heap_rep h S F" and old: "old \<in> in_use S F (htop h)" and p: "p \<in> F" "NextSlot (hmem h) old = p"
    and prev: "prev = 0 \<or> prev \<in> F" "is_succ F prev p"
  defines "h' \<equiv> absorb_next old prev p h"
  shows "heap_rep h' (S - {p}) (F - {p})" "in_use (S - {p}) (F - {p}) (htop h') = in_use S F (htop h)"
    "keeps (in_use S F (htop h) - {old}) (hmem h) (hmem h')" "unat p \<le> unat (NextSlot (hmem h') old)"
    "\<And>x. x \<in> block (hmem h) old \<Longrightarrow> hmem h' x = hmem h x"
proof -
  have l: "layout (hmem h) (empty h) (htop h) S F" using r by (simp add: heap_rep_def)
  have ok: "slots_ok S (htop h)" and F: "F \<subseteq> S" "htop h \<notin> F" using l by (auto simp: layout_def)
  have S: "old \<in> S" "p \<in> S" "p \<noteq> 0" "p \<noteq> htop h" "prev = 0 \<or> prev \<in> S" using old p(1) prev(1) F slots_okD(3) [OF ok] by (auto simp: in_use_def)
  let ?h1 = "set_link prev (NextFree (hmem h) p) h"
  note u = layout_unlink [OF l p(1) prev]
  have eq: "hmem h' = set_NextSlot old (NextSlot (hmem ?h1) p) (hmem ?h1)" "empty h' = empty ?h1"
    using u(3) [OF S(2)] writes_commute [OF ok _ S(1)] slot_writes(2) [OF ok S(1,2)] S
    by (auto simp: h'_def absorb_next_def upd_mem_def set_link_def Let_def)
  have rest: "htop h' = htop h" "bottom h' = bottom h" "kern h' = kern h"
    by (simp_all add: h'_def absorb_next_def upd_mem_def set_link_def Let_def)
  have np: "p \<notin> F - {p}" by simp
  note j = layout_join [OF u(1) S(1) u(3) [OF S(1), unfolded p(2)] S(3,4) np, folded eq(1)]
  have "bottom h \<in> S - {p}" using r j(6) S(1) by (force simp: heap_rep_def)
  then show "heap_rep h' (S - {p}) (F - {p})" using r j(1) eq(2) rest by (simp add: heap_rep_def)
  show iu: "in_use (S - {p}) (F - {p}) (htop h') = in_use S F (htop h)" using rest p(1) by (auto simp: in_use_def)
  have "keeps (in_use S F (htop h) - {old}) (hmem ?h1) (hmem h')"
    by (rule keeps_mono [OF j(2)]) (use p(1) in \<open>auto simp: in_use_def\<close>)
  with keeps_mono [OF u(2) Diff_subset] show "keeps (in_use S F (htop h) - {old}) (hmem h) (hmem h')" by (rule keeps_trans)
  show "hmem h' x = hmem h x" if "x \<in> block (hmem h) old" for x
    using that u(2) old j(4) [of x] by (auto simp: keeps_def block_def)
  have "is_succ S p (NextSlot (hmem h) p)" "htop h \<in> S" "p < htop h"
    using l S ok slots_okD(4) [OF ok S(2)] by (auto simp: layout_def slots_ok_def)
  then have "p < NextSlot (hmem h) p" using is_succ_ge is_succ_gt by blast
  then show "unat p \<le> unat (NextSlot (hmem h') old)" using j(3) u(3) [OF S(2)] by (simp add: word_less_nat_alt)
qed

text \<open>The second part: cutting the slot to the length asked for.\<close>

lemma shrink_spec:
  assumes r: "heap_rep h S F" and old: "old \<in> in_use S F (htop h)" and len: "aligned len" "8 \<le> unat len"
    and fit: "unat old + unat len \<le> unat (NextSlot (hmem h) old)"
    and h': "h' = upd_mem (set_NextSlot old (old + len)) (upd_mem (set_NextSlot (old + len) (NextSlot (hmem h) old)) h)"
    and big: "old + len + 4 < NextSlot (hmem h) old"
  shows "old + len + 4 > old + len" "\<exists>h''. free (old + len) h' = Ok h'' \<and> heap_inv h'' (in_use S F (htop h)) \<and>
    keeps (in_use S F (htop h) - {old}) (hmem h) (hmem h'') \<and> NextSlot (hmem h'') old = old + len \<and> unat (old + len) = unat old + unat len \<and>
    (\<forall>x. unat old \<le> unat x \<longrightarrow> unat x + 4 < unat old + unat len \<longrightarrow> hmem h'' x = hmem h x)"
proof -
  have l: "layout (hmem h) (empty h) (htop h) S F" using r by (simp add: heap_rep_def)
  have ok: "slots_ok S (htop h)" and F: "F \<subseteq> S" "htop h \<notin> F" using l by (auto simp: layout_def)
  have oS: "old \<in> S" "old \<noteq> htop h" using old by (auto simp: in_use_def)
  let ?new = "old + len" and ?n = "NextSlot (hmem h) old"
  have "is_succ S old ?n" using l oS by (simp add: layout_def)
  moreover have "?n \<noteq> 0" using big by auto
  ultimately have n: "?n \<in> S" using is_succ_gt by blast
  have "unat ?n + 256 \<le> 2 ^ 32" using slots_okD(4) [OF ok n] heap_rep_top(1) [OF r] by (simp add: word_le_nat_alt)
  then have un: "unat ?new = unat old + unat len" "unat (?new + 4) = unat ?new + 4"
    using fit by (auto simp: unat_plus_small)
  show "?new + 4 > ?new" using un(2) by (simp add: word_less_nat_alt)
  have al: "aligned ?new" using aligned_sum [OF slots_okD(1) [OF ok oS(1)] len(1) un(1)] .
  have g: "unat ?new + 8 \<le> unat ?n" using big aligned_gap8 [OF al slots_okD(1) [OF ok n]] un(2) by (simp add: word_less_nat_alt)
  have pn: "unat old + 8 \<le> unat ?new" using un(1) len(2) by simp
  have m: "hmem h' = set_NextSlot old ?new (set_NextSlot ?new ?n (hmem h))" "empty h' = empty h" "htop h' = htop h" "bottom h' = bottom h" "kern h' = kern h"
    by (simp_all add: h' upd_mem_def)
  note s = layout_split [OF l oS al pn g, folded m(1)]
  have "bottom h \<le> ?new" using r oS(1) pn by (force simp: heap_rep_def word_le_nat_alt)
  then have rep: "heap_rep h' (insert ?new S) F" using r s(1) m by (auto simp: heap_rep_def)
  have iu: "in_use (insert ?new S) F (htop h') = insert ?new (in_use S F (htop h))" "?new \<notin> in_use S F (htop h)"
    using s(4) F m(3) ok by (auto simp: in_use_def slots_ok_def)
  from free_inv [OF heap_invI [OF rep], of ?new] iu obtain h'' where
    f: "free ?new h' = Ok h''" "heap_inv h'' (in_use S F (htop h))" "keeps (in_use S F (htop h)) (hmem h') (hmem h'')" by auto
  have "keeps (in_use S F (htop h) - {old}) (hmem h) (hmem h'')"
    using keeps_trans [OF s(2)] keeps_mono [OF f(3)] by blast
  moreover have "NextSlot (hmem h'') old = ?new" using f(3) old s(5) by (simp add: keeps_def)
  moreover have "hmem h'' x = hmem h x" if "unat old \<le> unat x" "unat x + 4 < unat old + unat len" for x
  proof -
    have "x \<in> block (hmem h') old" using that s(5) un(1) by (simp add: block_def)
    then show ?thesis using s(3) f(3) old by (auto simp: keeps_def)
  qed
  ultimately show "\<exists>h''. free (old + len) h' = Ok h'' \<and> heap_inv h'' (in_use S F (htop h)) \<and>
    keeps (in_use S F (htop h) - {old}) (hmem h) (hmem h'') \<and> NextSlot (hmem h'') old = old + len \<and> unat (old + len) = unat old + unat len \<and>
    (\<forall>x. unat old \<le> unat x \<longrightarrow> unat x + 4 < unat old + unat len \<longrightarrow> hmem h'' x = hmem h x)" using f un(1) by blast
qed

lemma realloc_length:
  assumes "0 < sz" "unat sz + 2048 \<le> 2 ^ 32"
  shows "\<not> Align sz PTRSIZE + PTRSIZE < 2 * PTRSIZE" "\<not> sz > - (2 * PTRSIZE)"
proof -
  have A: "aligned (Align sz 4)" "unat sz \<le> unat (Align sz 4)" "unat (Align sz 4) < unat sz + 4" using unat_Align [of 4 sz] assms(2) by auto
  have "0 < unat sz" using assms(1) by (simp add: word_less_nat_alt)
  then have "4 \<le> unat (Align sz 4)" using A(1,2) by (auto simp: aligned_def elim!: dvdE)
  moreover have "unat (Align sz 4 + 4) = unat (Align sz 4) + 4" using A(3) assms(2) by (subst unat_plus_small) auto
  ultimately show "\<not> Align sz PTRSIZE + PTRSIZE < 2 * PTRSIZE" by (simp add: PTRSIZE_def word_less_nat_alt)
  show "\<not> sz > - (2 * PTRSIZE)" using assms(2) by (simp add: PTRSIZE_def word_less_nat_alt)
qed

lemma heap_slot:
  assumes "heap_inv h A" "a \<in> A"
  shows "aligned a" "aligned (NextSlot (hmem h) a)" "a < NextSlot (hmem h) a" "a \<noteq> 0"
proof -
  have "bottom h \<noteq> 0" using assms by (auto simp: heap_inv_def)
  then obtain S F where r: "heap_rep h S F" "A = in_use S F (htop h)" using heap_invE assms(1) by blast
  have ok: "slots_ok S (htop h)" "htop h \<in> S" and a: "a \<in> S" "a \<noteq> htop h" "is_succ S a (NextSlot (hmem h) a)"
    using r assms(2) by (auto simp: heap_rep_def layout_def in_use_def slots_ok_def)
  have "a < htop h" using slots_okD(4) [OF ok(1) a(1)] a(2) by auto
  then have n: "NextSlot (hmem h) a \<in> S" "a < NextSlot (hmem h) a" using is_succ_ge [OF a(3) ok(2)] is_succ_gt [OF a(3)] by auto
  show "aligned a" "aligned (NextSlot (hmem h) a)" "a < NextSlot (hmem h) a" "a \<noteq> 0"
    using slots_okD [OF ok(1) a(1)] slots_okD [OF ok(1) n(1)] n(2) by auto
qed

text \<open>The third part: a new slot, a copy of the old contents and the old slot freed.\<close>

lemma move_spec:
  assumes inv: "heap_inv h A" and old: "old \<in> A" and sp: "256 \<le> unat sp" and sz: "unat sz + 2048 \<le> 2 ^ 32"
    and n: "4 dvd n" "n < unat sz + 4" "unat old + n \<le> unat (NextSlot (hmem h) old)"
  shows "\<exists>p h'. rbind (malloc sp sz h) (\<lambda>(new, h). if new = 0 then Ok (0, h)
      else rbind (free old (upd_mem (copy_mem new old n) h)) (\<lambda>h. Ok (new, h))) = Ok (p, h') \<and>
    (if p = 0 then heap_inv h' A \<and> keeps A (hmem h) (hmem h')
     else heap_inv h' (insert p (A - {old})) \<and> p \<notin> A \<and> keeps (A - {old}) (hmem h) (hmem h') \<and>
       unat p + unat sz + 4 \<le> unat (NextSlot (hmem h') p) \<and>
       (\<forall>i < n. unat old + i + 4 < unat (NextSlot (hmem h) old) \<longrightarrow> hmem h' (p + of_nat i) = hmem h (old + of_nat i)))"
proof -
  obtain p h1 where m: "malloc sp sz h = Ok (p, h1)" "malloc_post A (unat sz) h p h1" using malloc_spec [OF inv sp sz] by blast
  show ?thesis
  proof (cases "p = 0")
    case True
    then show ?thesis using m by (simp add: malloc_post_def)
  next
    case False
    have b: "unat p + unat sz + 4 \<le> unat (NextSlot (hmem h1) p)" "heap_inv h1 (insert p A)" "p \<notin> A" "keeps A (hmem h) (hmem h1)"
      using m(2) False by (auto simp: malloc_post_def)
    have room: "unat p + n + 4 \<le> unat (NextSlot (hmem h1) p)"
    proof -
      have "4 dvd unat p" "4 dvd unat (NextSlot (hmem h1) p)" using heap_slot [OF b(2) insertI1] by (auto simp: aligned_def)
      then show ?thesis using b(1) n(1,2) by presburger
    qed
    let ?m = "copy_mem p old n (hmem h1)"
    have "?m x = hmem h1 x" if "x \<notin> block (hmem h1) p" for x using that block_off(1) [OF room, of x] by (auto simp: copy_mem_def)
    note w = heap_write [OF b(2) insertI1 this]
    have kA: "keeps A (hmem h1) ?m" by (rule keeps_mono [OF w(2)]) (use b(3) in auto)
    from free_inv [OF w(1), of old] old obtain h2 where
      f: "free old (h1\<lparr>hmem := ?m\<rparr>) = Ok h2" "heap_inv h2 (insert p A - {old})" "keeps (insert p A - {old}) ?m (hmem h2)" by auto
    have po: "p \<noteq> old" using b(3) old by auto
    then have "heap_inv h2 (insert p (A - {old}))" using f(2) by (simp add: insert_Diff_if)
    moreover have "keeps (A - {old}) (hmem h) (hmem h2)"
      using keeps_mono [OF keeps_trans [OF b(4) kA], of "A - {old}"] keeps_mono [OF f(3), of "A - {old}"] keeps_trans by blast
    moreover have np: "NextSlot (hmem h2) p = NextSlot (hmem h1) p" using f(3) po w(3) [of p] by (simp add: keeps_def)
    moreover have "hmem h2 (p + of_nat i) = hmem h (old + of_nat i)"
      if i: "i < n" "unat old + i + 4 < unat (NextSlot (hmem h) old)" for i
    proof -
      have lt: "i < 2 ^ 32" using i(2) unsigned_less [of "NextSlot (hmem h) old", where 'a = nat] by simp
      then have ui: "unat (of_nat i :: uint) = i" by (simp add: unsigned_of_nat take_bit_nat_eq_self)
      have "p + of_nat i \<in> block (hmem h1) p" using block_off(1) [OF room, of "p + of_nat i"] i(1) ui by simp
      then have "p + of_nat i \<in> block ?m p" using w(3) [of p] by (simp add: block_def)
      then have "hmem h2 (p + of_nat i) = ?m (p + of_nat i)" using f(3) po by (auto simp: keeps_def)
      also have "\<dots> = hmem h1 (old + of_nat i)" using i(1) ui by (simp add: copy_mem_def)
      also have "\<dots> = hmem h (old + of_nat i)"
      proof -
        have "unat (old + of_nat i) = unat old + i" using i(2) ui unsigned_less [of "NextSlot (hmem h) old", where 'a = nat] by (subst unat_plus_small) auto
        then have "old + of_nat i \<in> block (hmem h) old" using i(2) by (simp add: block_def)
        then show ?thesis using b(4) old by (simp add: keeps_def)
      qed
      finally show ?thesis .
    qed
    ultimately show ?thesis using m(1) f(1) b(1,3) False by (simp add: upd_mem_def)
  qed
qed

text \<open>
  What \<open>realloc\<close> owes: the other slots of the client stay; on failure so does the old one; otherwise the result has the length asked
  for and begins with as much of the old contents as both hold.
\<close>

definition realloc_post :: "uint set \<Rightarrow> uint \<Rightarrow> nat \<Rightarrow> heap \<Rightarrow> uint \<Rightarrow> heap \<Rightarrow> bool" where
  "realloc_post A old n h p h' \<longleftrightarrow> keeps (A - {old}) (hmem h) (hmem h') \<and>
     (if p = 0 then heap_inv h' A \<and> (\<forall>x \<in> block (hmem h) old. x \<in> block (hmem h') old \<and> hmem h' x = hmem h x)
      else p \<notin> A - {old} \<and> heap_inv h' (insert p (A - {old})) \<and> unat p + n + 4 \<le> unat (NextSlot (hmem h') p) \<and>
        (\<forall>i < n. unat old + i + 4 < unat (NextSlot (hmem h) old) \<longrightarrow> hmem h' (p + of_nat i) = hmem h (old + of_nat i)))"

lemma realloc_spec:
  assumes inv: "heap_inv h A" and old: "old \<in> A" and sp: "256 \<le> unat sp" and sz: "0 < sz" "unat sz + 2048 \<le> 2 ^ 32"
  shows "\<exists>p h'. realloc sp old sz h = Ok (p, h') \<and> realloc_post A old (unat sz) h p h'"
proof -
  define len where "len = Align sz PTRSIZE + PTRSIZE"
  note L = slot_length [OF realloc_length(1) [OF sz], folded len_def]
  have "bottom h \<noteq> 0" using inv old by (auto simp: heap_inv_def)
  then obtain S F where r: "heap_rep h S F" "A = in_use S F (htop h)" using heap_invE inv by blast
  let ?n = "NextSlot (hmem h) old"
  obtain prev p where w: "walk HFUEL (hmem h) (\<lambda>q. q > ?n \<or> q = ?n) 0 (empty h) = Ok (prev, p)" "prev = 0 \<or> prev \<in> F" "is_succ F prev p" "p = 0 \<or> p \<in> F"
    using walk_free_list [of "hmem h" "empty h" "htop h" S F "\<lambda>q. q > ?n \<or> q = ?n"] r(1) unfolding heap_rep_def by blast
  obtain h1 n1 where h1: "(if p \<noteq> 0 \<and> p = ?n then (let h = absorb_next old prev p h in (h, NextSlot (hmem h) old)) else (h, ?n)) = (h1, n1)"
    using prod.exhaust by blast
  have "\<exists>S1 F1. heap_rep h1 S1 F1 \<and> in_use S1 F1 (htop h1) = A \<and> keeps (A - {old}) (hmem h) (hmem h1) \<and> unat ?n \<le> unat n1 \<and>
      n1 = NextSlot (hmem h1) old \<and> (\<forall>x \<in> block (hmem h) old. hmem h1 x = hmem h x)"
  proof (cases "p \<noteq> 0 \<and> p = ?n")
    case True
    then have e: "h1 = absorb_next old prev p h" "n1 = NextSlot (hmem h1) old" using h1 by (auto simp: Let_def)
    have "p \<in> F" "?n = p" using True w(4) by auto
    note a = absorb_spec [OF r(1) old [unfolded r(2)] this w(2,3), folded e(1)]
    show ?thesis using a e(2) r(2) True by blast
  next
    case False
    then have "h1 = h" "n1 = ?n" using h1 by auto
    then show ?thesis using r by (intro exI [of _ S] exI [of _ F]) simp
  qed
  then obtain S1 F1 where r1: "heap_rep h1 S1 F1" "in_use S1 F1 (htop h1) = A" "keeps (A - {old}) (hmem h) (hmem h1)" "unat ?n \<le> unat n1"
      "n1 = NextSlot (hmem h1) old" "\<And>x. x \<in> block (hmem h) old \<Longrightarrow> hmem h1 x = hmem h x" by blast
  have inv1: "heap_inv h1 A" using heap_invI [OF r1(1)] r1(2) by simp
  have sub: "x \<in> block (hmem h1) old" if "x \<in> block (hmem h) old" for x using that r1(4,5) by (simp add: block_def)
  have run: "realloc sp old sz h =
      (if old + len \<le> n1 \<and> old + len \<ge> old then
         (if old + len + PTRSIZE < n1 then
            ASSERT (old + len + PTRSIZE > old + len)
              (let h = upd_mem (set_NextSlot (old + len) n1) h1; h = upd_mem (set_NextSlot old (old + len)) h
               in rbind (free (old + len) h) (\<lambda>h. Ok (old, h)))
          else Ok (old, h1))
       else
         rbind (malloc sp sz h1) (\<lambda>(new, h).
           if new = 0 then Ok (0, h) else rbind (free old (upd_mem (copy_mem new old (unat (?n - old))) h)) (\<lambda>h. Ok (new, h))))"
    unfolding realloc_def using realloc_length(2) [OF sz] w(1) h1 by (simp add: Let_def len_def)
  have at: "old + of_nat i \<in> block (hmem h) old \<and> unat (old + of_nat i :: uint) = unat old + i" if "unat old + i + 4 < unat ?n" for i
  proof -
    have b: "unat ?n < 2 ^ 32" using unsigned_less [of ?n, where 'a = nat] by simp
    then have "unat (of_nat i :: uint) = i" using that by (simp add: unsigned_of_nat take_bit_nat_eq_self)
    then have "unat (old + of_nat i) = unat old + i" using that b by (subst unat_plus_small) auto
    then show ?thesis using that by (simp add: block_def)
  qed
  have fit: "old + len \<le> n1 \<and> old + len \<ge> old \<longleftrightarrow> unat old + unat len \<le> unat n1"
  proof -
    have "len \<noteq> 0" using L(2) by auto
    then have "old + len \<noteq> old" by simp
    then have "old + len \<le> n1 \<and> old + len \<ge> old \<longleftrightarrow> fits (hmem h1) len old"
      unfolding fits_def r1(5) [symmetric] by (metis leD leI order_le_less)
    then show ?thesis using fits_iff [OF L(2), of "hmem h1" old] r1(5) by simp
  qed
  have ins: "insert old (A - {old}) = A" using old by auto
  show ?thesis
  proof (cases "unat old + unat len \<le> unat n1")
    case True
    show ?thesis
    proof (cases "old + len + PTRSIZE < n1")
      case big: True
      define h2 where "h2 = upd_mem (set_NextSlot old (old + len)) (upd_mem (set_NextSlot (old + len) n1) h1)"
      note k = shrink_spec [OF r1(1) old [folded r1(2)] L(1,2) True [unfolded r1(5)] h2_def [unfolded r1(5)] big [unfolded PTRSIZE_def r1(5)], unfolded r1(2)]
      obtain h3 where f: "free (old + len) h2 = Ok h3" "heap_inv h3 A" "keeps (A - {old}) (hmem h1) (hmem h3)" "NextSlot (hmem h3) old = old + len"
          "unat (old + len) = unat old + unat len" "\<And>x. unat old \<le> unat x \<Longrightarrow> unat x + 4 < unat old + unat len \<Longrightarrow> hmem h3 x = hmem h1 x"
        using k(2) by blast
      have "realloc sp old sz h = Ok (old, h3)" using run fit True big k(1) f(1) by (simp add: ASSERT_def PTRSIZE_def h2_def Let_def)
      moreover have "hmem h3 (old + of_nat i) = hmem h (old + of_nat i)" if "i < unat sz" "unat old + i + 4 < unat ?n" for i
        using at [OF that(2)] f(6) [of "old + of_nat i"] r1(6) that(1) L(3) by simp
      ultimately show ?thesis using f L(3) ins keeps_trans [OF r1(3) f(3)] heap_slot(4) [OF inv old] by (auto simp: realloc_post_def)
    next
      case False
      then have "realloc sp old sz h = Ok (old, h1)" using run fit True by simp
      moreover have "hmem h1 (old + of_nat i) = hmem h (old + of_nat i)" if "unat old + i + 4 < unat ?n" for i using at [OF that] r1(6) by blast
      ultimately show ?thesis using inv1 L(3) ins r1(3,5) True heap_slot(4) [OF inv old] by (auto simp: realloc_post_def)
    qed
  next
    case False
    let ?c = "unat (?n - old)"
    have c: "?c = unat ?n - unat old" "unat old < unat ?n" using unat_sub [OF less_imp_le [OF heap_slot(3) [OF inv old]]] heap_slot(3) [OF inv old]
      by (simp_all add: word_less_nat_alt)
    have d: "4 dvd unat ?n" "4 dvd unat old" "4 dvd unat len" using heap_slot(1,2) [OF inv old] L(1) by (auto simp: aligned_def)
    then have dc: "4 dvd ?c" using c(1) by simp
    have "?c < unat len" using False r1(4) c by linarith
    then have "?c < unat sz + 4" using dc d(3) L(4) by presburger
    moreover have "unat old + ?c \<le> unat (NextSlot (hmem h1) old)" using c r1(4,5) by simp
    ultimately obtain q h' where mv: "realloc sp old sz h = Ok (q, h')" "if q = 0 then heap_inv h' A \<and> keeps A (hmem h1) (hmem h')
        else heap_inv h' (insert q (A - {old})) \<and> q \<notin> A \<and> keeps (A - {old}) (hmem h1) (hmem h') \<and> unat q + unat sz + 4 \<le> unat (NextSlot (hmem h') q) \<and>
          (\<forall>i < ?c. unat old + i + 4 < unat (NextSlot (hmem h1) old) \<longrightarrow> hmem h' (q + of_nat i) = hmem h1 (old + of_nat i))"
      using move_spec [OF inv1 old sp sz(2) dc] run fit False by auto
    show ?thesis
    proof (cases "q = 0")
      case True
      then have k: "heap_inv h' A" "keeps A (hmem h1) (hmem h')" using mv(2) by auto
      have "x \<in> block (hmem h') old \<and> hmem h' x = hmem h x" if "x \<in> block (hmem h) old" for x
        using k(2) old sub [OF that] r1(6) [OF that] by (auto simp: keeps_def block_def)
      then show ?thesis using mv(1) True k keeps_trans [OF r1(3) keeps_mono [OF k(2) Diff_subset]] by (auto simp: realloc_post_def)
    next
      case False
      have "hmem h' (q + of_nat i) = hmem h (old + of_nat i)" if "i < unat sz" "unat old + i + 4 < unat ?n" for i
        using mv(2) False that at [OF that(2)] r1(4,5) r1(6) c by auto
      then show ?thesis using mv False keeps_trans [OF r1(3)] by (auto simp: realloc_post_def)
    qed
  qed
qed

section \<open>Clients\<close>

text \<open>
  A program that uses the allocator. \<open>L\<close> maps each block it holds to the bytes it may rely on: those \<open>calloc\<close> cleared, those it wrote,
  those \<open>realloc\<close> carried over (and whatever \<open>malloc\<close> left there). Its sizes stay clear of the top of the address space.
\<close>

definition contents :: "mem \<Rightarrow> uint \<Rightarrow> nat \<Rightarrow> nat \<Rightarrow> bytes" where
  "contents m p i n = map (\<lambda>j. m (p + of_nat j)) [i..<n]"

abbreviation sane :: "uint \<Rightarrow> uint \<Rightarrow> bool" where
  "sane sp sz \<equiv> 256 \<le> unat sp \<and> unat sz + 2048 \<le> 2 ^ 32"

inductive client :: "heap \<times> (uint \<rightharpoonup> bytes) \<Rightarrow> heap \<times> (uint \<rightharpoonup> bytes) \<Rightarrow> bool" where
  malloc_some: "sane sp sz \<Longrightarrow> malloc sp sz h = Ok (p, h') \<Longrightarrow> p \<noteq> 0 \<Longrightarrow> client (h, L) (h', L(p \<mapsto> contents (hmem h') p 0 (unat sz)))"
| malloc_none: "sane sp sz \<Longrightarrow> malloc sp sz h = Ok (0, h') \<Longrightarrow> client (h, L) (h', L)"
| calloc_some: "sane sp (n * sz) \<Longrightarrow> calloc sp n sz h = Ok (p, h') \<Longrightarrow> p \<noteq> 0 \<Longrightarrow> client (h, L) (h', L(p \<mapsto> replicate (unat (n * sz)) 0))"
| calloc_none: "sane sp (n * sz) \<Longrightarrow> calloc sp n sz h = Ok (0, h') \<Longrightarrow> client (h, L) (h', L)"
| realloc_some: "sane sp sz \<Longrightarrow> 0 < sz \<Longrightarrow> L p = Some bs \<Longrightarrow> realloc sp p sz h = Ok (q, h') \<Longrightarrow> q \<noteq> 0 \<Longrightarrow>
    client (h, L) (h', (L(p := None))(q \<mapsto> take (unat sz) bs @ contents (hmem h') q (length bs) (unat sz)))"
| realloc_none: "sane sp sz \<Longrightarrow> 0 < sz \<Longrightarrow> p \<in> dom L \<Longrightarrow> realloc sp p sz h = Ok (0, h') \<Longrightarrow> client (h, L) (h', L)"
| freeing: "p \<in> dom L \<Longrightarrow> free p h = Ok h' \<Longrightarrow> client (h, L) (h', L(p := None))"
| writing: "L p = Some bs \<Longrightarrow> i < length bs \<Longrightarrow> client (h, L) (h\<lparr>hmem := (hmem h)(p + of_nat i := c)\<rparr>, L(p \<mapsto> bs[i := c]))"

definition holds_bytes :: "mem \<Rightarrow> uint \<Rightarrow> bytes \<Rightarrow> bool" where
  "holds_bytes m p bs \<longleftrightarrow> unat p + length bs + 4 \<le> unat (NextSlot m p) \<and> (\<forall>i < length bs. m (p + of_nat i) = bs ! i)"

definition agrees :: "heap \<Rightarrow> (uint \<rightharpoonup> bytes) \<Rightarrow> bool" where
  "agrees h L \<longleftrightarrow> heap_inv h (dom L) \<and> (\<forall>p bs. L p = Some bs \<longrightarrow> holds_bytes (hmem h) p bs)"

lemma block_at:
  assumes "unat p + n + 4 \<le> unat (NextSlot m p)" "i < n"
  shows "p + of_nat i \<in> block m p" "unat (p + of_nat i :: uint) = unat p + i" "unat (of_nat i :: uint) = i"
proof -
  have b: "unat (NextSlot m p) < 2 ^ 32" using unsigned_less [of "NextSlot m p", where 'a = nat] by simp
  then show u: "unat (of_nat i :: uint) = i" using assms by (simp add: unsigned_of_nat take_bit_nat_eq_self)
  then show v: "unat (p + of_nat i) = unat p + i" using assms b by (subst unat_plus_small) auto
  show "p + of_nat i \<in> block m p" using assms v by (simp add: block_def)
qed

lemma holds_bytes_keeps: "holds_bytes m p bs \<Longrightarrow> keeps A m m' \<Longrightarrow> p \<in> A \<Longrightarrow> holds_bytes m' p bs"
  using block_at(1) [of p "length bs" m] by (auto simp: holds_bytes_def keeps_def)

lemma holds_contents: "unat p + n + 4 \<le> unat (NextSlot m p) \<Longrightarrow> holds_bytes m p (contents m p 0 n)"
  by (simp add: holds_bytes_def contents_def)

lemma agrees_keeps:
  assumes "agrees h L" "keeps B (hmem h) (hmem h')" "heap_inv h' (dom L')" "\<And>p bs. L' p = Some bs \<Longrightarrow> L p = Some bs \<and> p \<in> B \<or> holds_bytes (hmem h') p bs"
  shows "agrees h' L'"
  using assms holds_bytes_keeps unfolding agrees_def by blast

lemma client_malloc:
  assumes a: "agrees h L" and m: "malloc_post (dom L) n h p h'" and bs: "p \<noteq> 0 \<Longrightarrow> holds_bytes (hmem h') p bs"
  shows "agrees h' (if p = 0 then L else L(p \<mapsto> bs))"
proof (rule agrees_keeps [OF a])
  show "keeps (dom L) (hmem h) (hmem h')" using m by (simp add: malloc_post_def)
  show "heap_inv h' (dom (if p = 0 then L else L(p \<mapsto> bs)))" using m by (simp add: malloc_post_def split: if_splits)
qed (use bs in \<open>auto split: if_splits\<close>)

lemma client_realloc:
  assumes a: "agrees h L" and p: "L p = Some bs" and m: "realloc_post (dom L) p n h q h'"
  shows "agrees h' (if q = 0 then L else (L(p := None))(q \<mapsto> take n bs @ contents (hmem h') q (length bs) n))"
proof (rule agrees_keeps [OF a])
  have hb: "holds_bytes (hmem h) p bs" using a p by (simp add: agrees_def)
  show "keeps (dom L - {p}) (hmem h) (hmem h')" using m by (simp add: realloc_post_def)
  have "dom ((L(p := None))(q \<mapsto> b)) = insert q (dom L - {p})" for b by auto
  then show "heap_inv h' (dom (if q = 0 then L else (L(p := None))(q \<mapsto> take n bs @ contents (hmem h') q (length bs) n)))"
    using m by (simp add: realloc_post_def split: if_splits)
  have "holds_bytes (hmem h') p bs" if "q = 0"
  proof -
    have k: "x \<in> block (hmem h') p \<and> hmem h' x = hmem h x" if "x \<in> block (hmem h) p" for x using m that \<open>q = 0\<close> by (simp add: realloc_post_def)
    have inside: "unat p + length bs + 4 \<le> unat (NextSlot (hmem h) p)" using hb by (simp add: holds_bytes_def)
    have "heap_inv h' (dom L)" using m \<open>q = 0\<close> by (simp add: realloc_post_def)
    note hs = heap_slot [OF this, of p]
    have "unat p + length bs + 4 \<le> unat (NextSlot (hmem h') p)"
    proof (cases "bs = []")
      case True
      have "p < NextSlot (hmem h') p" "aligned p" "aligned (NextSlot (hmem h') p)" using hs p by auto
      then show ?thesis using True aligned_less by (simp add: word_less_nat_alt)
    next
      case False
      then have "length bs - 1 < length bs" by simp
      note b = block_at [OF inside this]
      have "unat p + (length bs - 1) + 4 < unat (NextSlot (hmem h') p)" using k [OF b(1)] b(2) by (simp add: block_def)
      then show ?thesis using False by (cases bs) auto
    qed
    then show ?thesis using hb k block_at(1) [OF inside] by (simp add: holds_bytes_def)
  qed
  moreover have "holds_bytes (hmem h') q (take n bs @ contents (hmem h') q (length bs) n)" if "q \<noteq> 0"
  proof -
    have q: "unat q + n + 4 \<le> unat (NextSlot (hmem h') q)"
      "\<And>i. i < n \<Longrightarrow> unat p + i + 4 < unat (NextSlot (hmem h) p) \<Longrightarrow> hmem h' (q + of_nat i) = hmem h (p + of_nat i)"
      using m that by (auto simp: realloc_post_def)
    have "hmem h' (q + of_nat i) = (take n bs @ contents (hmem h') q (length bs) n) ! i" if "i < n" for i
      using that q(2) [OF that] hb by (auto simp: nth_append contents_def holds_bytes_def min_def)
    moreover have "length (take n bs @ contents (hmem h') q (length bs) n) = n" by (simp add: contents_def min_def)
    ultimately show ?thesis using q(1) by (simp add: holds_bytes_def)
  qed
  ultimately show "L r = Some cs \<and> r \<in> dom L - {p} \<or> holds_bytes (hmem h') r cs"
    if "(if q = 0 then L else (L(p := None))(q \<mapsto> take n bs @ contents (hmem h') q (length bs) n)) r = Some cs" for r cs
    using that p by (auto split: if_splits)
qed

lemma client_write:
  assumes a: "agrees h L" and p: "L p = Some bs" and i: "i < length bs"
  shows "agrees (h\<lparr>hmem := (hmem h)(p + of_nat i := c)\<rparr>) (L(p \<mapsto> bs[i := c]))"
proof -
  have hb: "unat p + length bs + 4 \<le> unat (NextSlot (hmem h) p)" "\<And>j. j < length bs \<Longrightarrow> hmem h (p + of_nat j) = bs ! j" "heap_inv h (dom L)"
    using a p by (auto simp: agrees_def holds_bytes_def)
  let ?m = "(hmem h)(p + of_nat i := c)"
  have "?m x = hmem h x" if "x \<notin> block (hmem h) p" for x using that block_at(1) [OF hb(1) i] by auto
  moreover have "p \<in> dom L" using p by auto
  ultimately have w: "heap_inv (h\<lparr>hmem := ?m\<rparr>) (dom L)" "keeps (dom L - {p}) (hmem h) ?m" "\<And>a. a \<in> dom L \<Longrightarrow> NextSlot ?m a = NextSlot (hmem h) a"
    using heap_write [OF hb(3), of p ?m] by blast+
  have ne: "p + of_nat j \<noteq> p + of_nat i" if "j < length bs" "j \<noteq> i" for j
    using block_at(2) [OF hb(1) that(1)] block_at(2) [OF hb(1) i] that(2) by (metis add_left_cancel)
  have "?m (p + of_nat j) = bs[i := c] ! j" if "j < length bs" for j
  proof (cases "j = i")
    case False
    then have "?m (p + of_nat j) = hmem h (p + of_nat j)" by (intro fun_upd_other ne that)
    then show ?thesis using hb(2) [OF that] False by simp
  qed (use i in simp)
  then have "holds_bytes ?m p (bs[i := c])" using hb(1) w(3) [OF \<open>p \<in> dom L\<close>] by (simp add: holds_bytes_def del: fun_upd_apply)
  moreover have "dom (L(p \<mapsto> bs[i := c])) = dom L" using p by auto
  ultimately show ?thesis using w(1,2) by (intro agrees_keeps [OF a, of "dom L - {p}"]) (auto simp del: fun_upd_apply simp: fun_upd_apply [of L] split: if_splits)
qed

lemma client_agrees:
  assumes "client s s'" "agrees (fst s) (snd s)"
  shows "agrees (fst s') (snd s')"
  using assms
proof (induction rule: client.induct)
  case (malloc_some sp sz h p h' L)
  then have m: "malloc_post (dom L) (unat sz) h p h'" using malloc_spec [of h "dom L" sp sz] by (auto simp: agrees_def)
  then have "holds_bytes (hmem h') p (contents (hmem h') p 0 (unat sz))" using malloc_some by (intro holds_contents) (simp add: malloc_post_def)
  from client_malloc [OF _ m this] malloc_some(3,4) show ?case by (simp add: fun_upd_def)
next
  case (malloc_none sp sz h h' L)
  then have "malloc_post (dom L) (unat sz) h 0 h'" using malloc_spec [of h "dom L" sp sz] by (auto simp: agrees_def)
  from client_malloc [OF _ this] malloc_none(3) show ?case by simp
next
  case (calloc_some sp n sz h p h' L)
  then have m: "malloc_post (dom L) (unat (n * sz)) h p h'" "\<forall>i < unat (n * sz). hmem h' (p + of_nat i) = 0"
    using calloc_spec [of h "dom L" sp n sz] by (auto simp: agrees_def)
  then have "holds_bytes (hmem h') p (replicate (unat (n * sz)) 0)" using calloc_some by (simp add: malloc_post_def holds_bytes_def)
  from client_malloc [OF _ m(1) this] calloc_some(3,4) show ?case by (simp add: fun_upd_def)
next
  case (calloc_none sp n sz h h' L)
  then have "malloc_post (dom L) (unat (n * sz)) h 0 h'" using calloc_spec [of h "dom L" sp n sz] by (auto simp: agrees_def)
  from client_malloc [OF _ this] calloc_none(3) show ?case by simp
next
  case (realloc_some sp sz L p bs h q h')
  then have "realloc_post (dom L) p (unat sz) h q h'" using realloc_spec [of h "dom L" p sp sz] by (auto simp: agrees_def)
  from client_realloc [OF _ realloc_some(3) this] realloc_some(5,6) show ?case by (simp add: fun_upd_def)
next
  case (realloc_none sp sz p L h h')
  then have "realloc_post (dom L) p (unat sz) h 0 h'" using realloc_spec [of h "dom L" p sp sz] by (auto simp: agrees_def)
  moreover obtain bs where "L p = Some bs" using realloc_none(3) by auto
  ultimately show ?case using client_realloc [of h L p bs "unat sz" 0 h'] realloc_none(5) by simp
next
  case (freeing p L h h')
  then have "heap_inv h' (dom L - {p})" "keeps (dom L - {p}) (hmem h) (hmem h')" using free_inv [of h "dom L" p] by (auto simp: agrees_def)
  moreover have "agrees h L" using freeing(3) by simp
  ultimately have "agrees h' (L(p := None))" by (rule_tac agrees_keeps [of h L "dom L - {p}"]) (simp_all add: domI split: if_splits)
  then show ?case by (simp add: fun_upd_def)
next
  case (writing L p bs i h c)
  then show ?case using client_write [of h L p bs i c] by (simp add: fun_upd_def)
qed

text \<open>Blocks do not overlap.\<close>

lemma agrees_disjoint:
  assumes a: "agrees h L" and p: "L p = Some bs" "L q = Some cs" "p \<noteq> q" and ij: "i < length bs" "j < length cs"
  shows "p + of_nat i \<noteq> q + of_nat j"
proof -
  have hb: "unat p + length bs + 4 \<le> unat (NextSlot (hmem h) p)" "unat q + length cs + 4 \<le> unat (NextSlot (hmem h) q)" "heap_inv h (dom L)"
    using a p by (auto simp: agrees_def holds_bytes_def)
  have "bottom h \<noteq> 0" using hb(3) p(1) by (auto simp: heap_inv_def)
  then obtain S F where r: "heap_rep h S F" "dom L = in_use S F (htop h)" using heap_invE hb(3) by blast
  have l: "layout (hmem h) (empty h) (htop h) S F" and S: "p \<in> S" "q \<in> S" using r p by (auto simp: heap_rep_def in_use_def)
  note b = block_at [OF hb(1) ij(1)] and c = block_at [OF hb(2) ij(2)]
  show ?thesis
  proof
    assume e: "p + of_nat i = q + of_nat j"
    have "unat q \<le> unat p \<or> unat (p + of_nat i) + 4 < unat q" using block_inside [OF l S(1) b(1) S(2)] .
    moreover have "unat p \<le> unat q \<or> unat (q + of_nat j) + 4 < unat p" using block_inside [OF l S(2) c(1) S(1)] .
    moreover have "unat p \<noteq> unat q" using p(3) by (simp add: word_unat_eq_iff)
    ultimately show False using e b(2) c(2) by simp
  qed
qed

lemma client_reachable:
  assumes "client\<^sup>*\<^sup>* s s'" "agrees (fst s) (snd s)"
  shows "agrees (fst s') (snd s')"
  using assms by (induction rule: rtranclp_induct) (auto intro: client_agrees)


definition demo_heap :: heap where
  "demo_heap = \<lparr>hmem = (\<lambda>_. 0), bottom = 0, htop = 0, empty = 0,
     kern = upd_proc 0 (\<lambda>e. e\<lparr>p_bssend := 0x108000, p_curbrk := 0x108000\<rparr>) demo_kern\<rparr>"

lemma walk_stop: "p = 0 \<or> stop p \<Longrightarrow> walk HFUEL m stop prev p = Ok (prev, p)"
  by (subst walk.simps) (simp add: HFUEL_def)

abbreviation demo_brk :: "uint \<Rightarrow> kern_state" where
  "demo_brk b \<equiv> upd_proc 0 (\<lambda>e. e\<lparr>p_curbrk := b\<rparr>) (kern demo_heap)"

lemma demo_kern_heap: "proc (demo_brk b) = Some 0" "p_bssend (ptable (demo_brk b) 0) = 0x108000" "p_curbrk (ptable (demo_brk b) 0) = b"
    "proc (kern demo_heap) = Some 0" "p_bssend (ptable (kern demo_heap) 0) = 0x108000" "p_curbrk (ptable (kern demo_heap) 0) = 0x108000"
    "upd_proc 0 (\<lambda>e. e\<lparr>p_curbrk := c\<rparr>) (demo_brk b) = demo_brk c"
  by (simp_all add: demo_heap_def upd_proc_def demo_kern_simps fun_upd_def cong: if_cong)

definition demo_first :: heap where
  "demo_first = \<lparr>hmem = set_NextSlot 0x108004 0 (\<lambda>_. 0), bottom = 0x108004, htop = 0x108004, empty = 0, kern = demo_brk 0x108008\<rparr>"

lemma demo_first_slot: "first_slot 0x120000 demo_heap = Ok (True, demo_first)"
  by (simp add: demo_kern_heap first_slot_def sys_sbrk_def sys_brk_def myproc_def PTRSIZE_def Align_def Let_def ASSERT_def upd_mem_def demo_first_def)
    (simp add: demo_heap_def)

definition demo_grown :: heap where
  "demo_grown = \<lparr>hmem = set_NextFree 0x108004 0 (set_NextSlot 0x108400 0 (set_NextSlot 0x108004 0x108400 (hmem demo_first))), bottom = 0x108004, htop = 0x108400,
     empty = 0x108004, kern = demo_brk 0x108400\<rparr>"

lemma demo_grow: "grow 0x120000 16 demo_first = Ok (1, demo_grown)"
  by (simp add: demo_kern_heap demo_first_def demo_grown_def grow_def sys_brk_def myproc_def PTRSIZE_def BRKSIZE_def Align_def Let_def ASSERT_def upd_mem_def
      free_def merge_next_def merge_prev_def set_link_def walk_stop NextSlot_def set_NextSlot_def set_NextFree_def peek_poke peek_poke_other aligned_def)

lemma demo_malloc: "\<exists>h'. malloc 0x120000 10 demo_heap = Ok (0x108004, h')"
proof -
  have len: "Align 10 PTRSIZE + PTRSIZE = 16" "\<not> (16 :: uint) < 2 * PTRSIZE" by (simp_all add: Align_def PTRSIZE_def)
  have n: "NextSlot (hmem demo_grown) 0x108004 = 0x108400"
    by (simp add: demo_grown_def NextSlot_def set_NextSlot_def set_NextFree_def PTRSIZE_def peek_poke peek_poke_other aligned_def)
  then have "walk HFUEL (hmem demo_grown) (fits (hmem demo_grown) 16) 0 (heap.empty demo_grown) = Ok (0, 0x108004)"
    by (simp add: demo_grown_def walk_stop fits_def)
  moreover have "first_slot 0x120000 demo_grown = Ok (True, demo_grown)" by (simp add: first_slot_def demo_grown_def)
  moreover obtain h' where t: "take_slot 16 0 0x108004 demo_grown = Ok (0x108004, h')"
    using n by (simp add: take_slot_def split_slot_def Let_def ASSERT_def PTRSIZE_def)
  ultimately have "malloc_try (Suc 0) 0x120000 10 demo_grown = Ok (0x108004, h')" by (simp add: malloc_try.simps(2) len Let_def)
  moreover have "walk HFUEL (hmem demo_first) (fits (hmem demo_first) 16) 0 (heap.empty demo_first) = Ok (0, 0)" by (simp add: walk_stop demo_first_def)
  ultimately have "malloc_try (Suc (Suc 0)) 0x120000 10 demo_heap = Ok (0x108004, h')"
    using demo_first_slot demo_grow by (simp add: malloc_try.simps(2) [of "Suc 0"] len Let_def)
  then have "malloc 0x120000 10 demo_heap = Ok (0x108004, h')" unfolding malloc_def numeral_2_eq_2 by simp
  then show ?thesis by blast
qed


text \<open>
  The bound on the sizes is needed. With the end of the heap on a multiple of \<open>BRKSIZE\<close>, as every growth leaves it, a request for
  \<open>0xfffffff4\<close> bytes wraps around in \<open>grow\<close> to the end itself, and the program dies of a failed assertion instead of getting \<open>NULL\<close>.
\<close>

lemma malloc_huge_aborts: "malloc 0x120000 0xfffffff4 demo_grown = Panic ''assert failed in lib/malloc.c''"
proof -
  let ?len = "0xfffffff8 :: uint"
  have len: "Align 0xfffffff4 PTRSIZE + PTRSIZE = ?len" "\<not> ?len < 2 * PTRSIZE" by (simp_all add: Align_def PTRSIZE_def)
  have n: "NextSlot (hmem demo_grown) 0x108004 = 0x108400" "NextFree (hmem demo_grown) 0x108004 = 0" "NextSlot (hmem demo_grown) 0x108400 = 0"
    by (simp_all add: demo_grown_def NextSlot_def NextFree_def set_NextSlot_def set_NextFree_def PTRSIZE_def peek_poke peek_poke_other aligned_def)
  have w: "walk HFUEL (hmem demo_grown) (fits (hmem demo_grown) ?len) 0 (heap.empty demo_grown) = Ok (0x108004, 0)"
  proof -
    have "heap.empty demo_grown = 0x108004" "\<not> fits (hmem demo_grown) ?len 0x108004" by (simp add: demo_grown_def) (simp add: fits_def n)
    then show ?thesis by (subst walk.simps, subst walk.simps) (simp add: HFUEL_def n)
  qed
  have f: "first_slot 0x120000 demo_grown = Ok (True, demo_grown)" by (simp add: first_slot_def demo_grown_def)
  have t: "htop demo_grown = 0x108400" by (simp add: demo_grown_def)
  have a: "Align (0x108400 + ?len) BRKSIZE = 0x108400" by (simp add: Align_def BRKSIZE_def)
  have b: "sys_brk 0x120000 0x108400 (kern demo_grown) = Ok (0, demo_brk 0x108400)"
    by (simp add: demo_grown_def demo_kern_heap sys_brk_def myproc_def)
  have "grow 0x120000 ?len demo_grown = Panic ''assert failed in lib/malloc.c''"
    unfolding grow_def t a b ASSERT_def n(3) by (simp add: t b Let_def free_def ASSERT_def upd_mem_def NextSlot_def set_NextSlot_def peek_poke)
  then have "malloc_try (Suc (Suc 0)) 0x120000 0xfffffff4 demo_grown = Panic ''assert failed in lib/malloc.c''"
    using w f by (simp add: malloc_try.simps(2) [of "Suc 0"] len Let_def)
  then show ?thesis unfolding malloc_def numeral_2_eq_2 by simp
qed

end
