(* ===== verification/Ctype.thy ===== *)
theory Ctype
  imports Prelude
begin

text \<open>
  Classes of characters in the C library: the table of the default locale (\<open>lib/locale/table.c\<close>) and the macros of \<open>ctype.h\<close> on it. A
  character is the value of an \<open>int\<close>; those outside 0 to 255 are in no class, as the locale has no extended ranges. A \<open>char\<close> is
  signed on this machine.
\<close>

section \<open>The table\<close>

definition CT_A :: uint where "CT_A = 0x100"
definition CT_C :: uint where "CT_C = 0x200"
definition CT_D :: uint where "CT_D = 0x400"
definition CT_G :: uint where "CT_G = 0x800"
definition CT_L :: uint where "CT_L = 0x1000"
definition CT_P :: uint where "CT_P = 0x2000"
definition CT_S :: uint where "CT_S = 0x4000"
definition CT_U :: uint where "CT_U = 0x8000"
definition CT_X :: uint where "CT_X = 0x10000"
definition CT_B :: uint where "CT_B = 0x20000"
definition CT_R :: uint where "CT_R = 0x40000"

lemmas ct_flags = CT_A_def CT_C_def CT_D_def CT_G_def CT_L_def CT_P_def CT_S_def CT_U_def CT_X_def CT_B_def CT_R_def

definition runetype :: "uint list" where
  "runetype =
     (let punct = CT_P OR CT_R OR CT_G; upper = CT_U OR CT_R OR CT_G OR CT_A; lower = CT_L OR CT_R OR CT_G OR CT_A; digit = CT_D OR CT_R OR CT_G OR CT_X in
      replicate 9 CT_C @ [CT_C OR CT_S OR CT_B] @ replicate 4 (CT_C OR CT_S) @ replicate 18 CT_C @
      [CT_S OR CT_B OR CT_R] @ replicate 15 punct @
      map (\<lambda>d. digit OR d) [0, 1, 2, 3, 4, 5, 6, 7, 8, 9] @ replicate 7 punct @
      map (\<lambda>d. CT_X OR upper OR d) [10, 11, 12, 13, 14, 15] @ replicate 20 upper @ replicate 6 punct @
      map (\<lambda>d. CT_X OR lower OR d) [10, 11, 12, 13, 14, 15] @ replicate 20 lower @ replicate 4 punct @ [CT_C] @
      replicate 128 0)"

definition istype :: "int \<Rightarrow> uint \<Rightarrow> bool" where
  "istype c f \<longleftrightarrow> 0 \<le> c \<and> c < 256 \<and> runetype ! nat c AND f \<noteq> 0"

definition isalpha :: "int \<Rightarrow> bool" where "isalpha c = istype c CT_A"
definition isdigit :: "int \<Rightarrow> bool" where "isdigit c = istype c CT_D"
definition isspace :: "int \<Rightarrow> bool" where "isspace c = istype c CT_S"
definition isupper :: "int \<Rightarrow> bool" where "isupper c = istype c CT_U"
definition islower :: "int \<Rightarrow> bool" where "islower c = istype c CT_L"
definition isgraph :: "int \<Rightarrow> bool" where "isgraph c = istype c CT_G"
definition iscntrl :: "int \<Rightarrow> bool" where "iscntrl c = istype c CT_C"

definition mapupper :: "nat list" where
  "mapupper = [0..<97] @ [65..<91] @ [123..<256]"

definition toupper :: "int \<Rightarrow> int" where
  "toupper c = (if 0 \<le> c \<and> c < 256 then int (mapupper ! nat c) else c)"

definition maplower :: "nat list" where
  "maplower = [0..<65] @ [97..<123] @ [91..<256]"

definition tolower :: "int \<Rightarrow> int" where
  "tolower c = (if 0 \<le> c \<and> c < 256 then int (maplower ! nat c) else c)"

section \<open>The classes\<close>

lemma istype_table:
  assumes "map (\<lambda>w. w AND f \<noteq> 0) runetype = map P [0..<256]"
  shows "istype c f \<longleftrightarrow> 0 \<le> c \<and> c < 256 \<and> P (nat c)"
proof -
  have len: "length runetype = 256" using arg_cong [OF assms, of length] by (simp del: upt_rec_numeral)
  have "(runetype ! nat c AND f \<noteq> 0) = P (nat c)" if "0 \<le> c" "c < 256"
    using arg_cong [OF assms, of "\<lambda>xs. xs ! nat c"] that len by (simp del: upt_rec_numeral)
  then show ?thesis by (auto simp: istype_def)
qed

lemma isdigit_iff [code]: "isdigit c \<longleftrightarrow> 48 \<le> c \<and> c \<le> 57"
proof -
  have "map (\<lambda>w. w AND CT_D \<noteq> 0) runetype = map (\<lambda>i. 48 \<le> i \<and> i \<le> 57) [0..<256::nat]" by code_simp
  then have "istype c CT_D \<longleftrightarrow> 0 \<le> c \<and> c < 256 \<and> (48 \<le> nat c \<and> nat c \<le> 57)" by (rule istype_table)
  then show ?thesis unfolding isdigit_def by linarith
qed

lemma isupper_iff [code]: "isupper c \<longleftrightarrow> 65 \<le> c \<and> c \<le> 90"
proof -
  have "map (\<lambda>w. w AND CT_U \<noteq> 0) runetype = map (\<lambda>i. 65 \<le> i \<and> i \<le> 90) [0..<256::nat]" by code_simp
  then have "istype c CT_U \<longleftrightarrow> 0 \<le> c \<and> c < 256 \<and> (65 \<le> nat c \<and> nat c \<le> 90)" by (rule istype_table)
  then show ?thesis unfolding isupper_def by linarith
qed

lemma islower_iff [code]: "islower c \<longleftrightarrow> 97 \<le> c \<and> c \<le> 122"
proof -
  have "map (\<lambda>w. w AND CT_L \<noteq> 0) runetype = map (\<lambda>i. 97 \<le> i \<and> i \<le> 122) [0..<256::nat]" by code_simp
  then have "istype c CT_L \<longleftrightarrow> 0 \<le> c \<and> c < 256 \<and> (97 \<le> nat c \<and> nat c \<le> 122)" by (rule istype_table)
  then show ?thesis unfolding islower_def by linarith
qed

lemma isalpha_iff [code]: "isalpha c \<longleftrightarrow> isupper c \<or> islower c"
proof -
  have "map (\<lambda>w. w AND CT_A \<noteq> 0) runetype = map (\<lambda>i. 65 \<le> i \<and> i \<le> 90 \<or> 97 \<le> i \<and> i \<le> 122) [0..<256::nat]" by code_simp
  then have "istype c CT_A \<longleftrightarrow> 0 \<le> c \<and> c < 256 \<and> (65 \<le> nat c \<and> nat c \<le> 90 \<or> 97 \<le> nat c \<and> nat c \<le> 122)" by (rule istype_table)
  then show ?thesis unfolding isalpha_def isupper_iff islower_iff by linarith
qed

lemma isspace_iff [code]: "isspace c \<longleftrightarrow> 9 \<le> c \<and> c \<le> 13 \<or> c = 32"
proof -
  have "map (\<lambda>w. w AND CT_S \<noteq> 0) runetype = map (\<lambda>i. 9 \<le> i \<and> i \<le> 13 \<or> i = 32) [0..<256::nat]" by code_simp
  then have "istype c CT_S \<longleftrightarrow> 0 \<le> c \<and> c < 256 \<and> (9 \<le> nat c \<and> nat c \<le> 13 \<or> nat c = 32)" by (rule istype_table)
  then show ?thesis unfolding isspace_def by linarith
qed

lemma isgraph_iff [code]: "isgraph c \<longleftrightarrow> 33 \<le> c \<and> c \<le> 126"
proof -
  have "map (\<lambda>w. w AND CT_G \<noteq> 0) runetype = map (\<lambda>i. 33 \<le> i \<and> i \<le> 126) [0..<256::nat]" by code_simp
  then have "istype c CT_G \<longleftrightarrow> 0 \<le> c \<and> c < 256 \<and> (33 \<le> nat c \<and> nat c \<le> 126)" by (rule istype_table)
  then show ?thesis unfolding isgraph_def by linarith
qed

lemma iscntrl_iff [code]: "iscntrl c \<longleftrightarrow> 0 \<le> c \<and> c < 32 \<or> c = 127"
proof -
  have "map (\<lambda>w. w AND CT_C \<noteq> 0) runetype = map (\<lambda>i. i < 32 \<or> i = 127) [0..<256::nat]" by code_simp
  then have "istype c CT_C \<longleftrightarrow> 0 \<le> c \<and> c < 256 \<and> (nat c < 32 \<or> nat c = 127)" by (rule istype_table)
  then show ?thesis unfolding iscntrl_def by linarith
qed

lemma toupper_iff [code]: "toupper c = (if islower c then c - 32 else c)"
  by (auto simp: toupper_def mapupper_def islower_iff nth_append nat_less_iff simp del: upt_rec_numeral)

lemma tolower_iff [code]: "tolower c = (if isupper c then c + 32 else c)"
  by (auto simp: tolower_def maplower_def isupper_iff nth_append nat_less_iff simp del: upt_rec_numeral)

end
