(* ===== verification/Strconv.thy ===== *)
theory Strconv
  imports Ctype
begin

text \<open>
  Numbers in strings: \<open>strtol\<close>, \<open>strtoul\<close>, \<open>atoi\<close> and \<open>atol\<close> of the C library (\<open>lib/stdlib\<close>). A pointer into a string is the list of
  characters from there on; reading past its end is a fault. \<open>long\<close> has 32 bits, and all the arithmetic is that of the machine. Shown: the
  conversion agrees with the one on mathematical integers, cut off at the limits of the type.
\<close>

section \<open>Conversion\<close>

definition LONG_MAX :: uint where "LONG_MAX = 0x7fffffff"
definition LONG_MIN :: uint where "LONG_MIN = 0x80000000"
definition ULONG_MAX :: uint where "ULONG_MAX = 0xffffffff"

text \<open>The loop that skips white space; the result points at the first other character.\<close>

fun skip_space :: "bytes \<Rightarrow> bytes res" where
  "skip_space [] = Fault"
| "skip_space (c # s) = (if isspace (sint c) then skip_space s else Ok (c # s))"

text \<open>The sign.\<close>

fun take_sign :: "bytes \<Rightarrow> bool \<times> bytes" where
  "take_sign [] = (False, [])"
| "take_sign (c # s) = (if c = 45 then (True, s) else if c = 43 then (False, s) else (False, c # s))"

text \<open>The base, from the prefix where it is left open.\<close>

fun take_base :: "int \<Rightarrow> bytes \<Rightarrow> (int \<times> bytes) res" where
  "take_base base [] = Fault"
| "take_base base (c # s) =
     (if (base = 0 \<or> base = 16) \<and> c = 48 then
        (case s of
           [] \<Rightarrow> Fault
         | x # s' \<Rightarrow> if x = 120 \<or> x = 88 then Ok (16, s') else Ok (if base = 0 then 8 else base, c # s))
      else Ok (if base = 0 then (if c = 48 then 8 else 10) else base, c # s))"

definition digit_val :: "int \<Rightarrow> int option" where
  "digit_val c =
     (if isdigit c then Some (c - 48)
      else if isalpha c then Some (c - (if isupper c then 55 else 87))
      else None)"

text \<open>The loop over the digits: \<open>any\<close> is negative after an overflow.\<close>

fun conv_loop :: "int \<Rightarrow> uint \<Rightarrow> int \<Rightarrow> int \<Rightarrow> uint \<Rightarrow> bytes \<Rightarrow> (int \<times> uint \<times> bytes) res" where
  "conv_loop base cutoff cutlim any acc [] = Fault"
| "conv_loop base cutoff cutlim any acc (c # s) =
     (case digit_val (sint c) of
        None \<Rightarrow> Ok (any, acc, c # s)
      | Some d \<Rightarrow>
          if d \<ge> base then Ok (any, acc, c # s)
          else if any < 0 \<or> acc > cutoff \<or> acc = cutoff \<and> d > cutlim then conv_loop base cutoff cutlim (-1) acc s
          else conv_loop base cutoff cutlim 1 (acc * of_int base + of_int d) s)"

text \<open>The results: the value, the new \<open>*endptr\<close>, and whether \<open>errno\<close> is set to \<open>ERANGE\<close>.\<close>

definition strtol :: "bytes \<Rightarrow> int \<Rightarrow> (uint \<times> bytes \<times> bool) res" where
  "strtol nptr base =
     rbind (skip_space nptr) (\<lambda>s.
     let (neg, s) = take_sign s in
     rbind (take_base base s) (\<lambda>(base, s).
     let cutoff = (if neg then - LONG_MIN else LONG_MAX);
         cutlim = sint (cutoff mod of_int base);
         cutoff = cutoff div of_int base in
     rbind (conv_loop base cutoff cutlim 0 0 s) (\<lambda>(any, acc, s).
     Ok (if any < 0 then (if neg then LONG_MIN else LONG_MAX) else if neg then - acc else acc,
         if any \<noteq> 0 then s else nptr, any < 0))))"

definition strtoul :: "bytes \<Rightarrow> int \<Rightarrow> (uint \<times> bytes \<times> bool) res" where
  "strtoul nptr base =
     rbind (skip_space nptr) (\<lambda>s.
     let (neg, s) = take_sign s in
     rbind (take_base base s) (\<lambda>(base, s).
     let cutoff = ULONG_MAX div of_int base;
         cutlim = sint (ULONG_MAX mod of_int base) in
     rbind (conv_loop base cutoff cutlim 0 0 s) (\<lambda>(any, acc, s).
     Ok (if any < 0 then ULONG_MAX else if neg then - acc else acc,
         if any \<noteq> 0 then s else nptr, any < 0))))"

definition atol :: "bytes \<Rightarrow> uint res" where
  "atol str = rbind (strtol str 10) (\<lambda>(v, _, _). Ok v)"

definition atoi :: "bytes \<Rightarrow> uint res" where
  "atoi str = rbind (strtol str 10) (\<lambda>(v, _, _). Ok v)"

section \<open>The same on integers\<close>

definition is_digit :: "int \<Rightarrow> uchar \<Rightarrow> bool" where
  "is_digit base c \<longleftrightarrow> (case digit_val (sint c) of Some d \<Rightarrow> d < base | None \<Rightarrow> False)"

definition numeral_val :: "int \<Rightarrow> int \<Rightarrow> bytes \<Rightarrow> int" where
  "numeral_val base v ds = foldl (\<lambda>a c. a * base + the (digit_val (sint c))) v ds"

text \<open>Sign, base, digits and what follows them.\<close>

definition radix :: "int \<Rightarrow> bytes \<Rightarrow> int \<times> bytes" where
  "radix base s =
     (if (base = 0 \<or> base = 16) \<and> take 1 s = [48] \<and> (take 1 (drop 1 s) = [120] \<or> take 1 (drop 1 s) = [88]) then (16, drop 2 s)
      else (if base \<noteq> 0 then base else if take 1 s = [48] then 8 else 10, s))"

definition scan_number :: "bytes \<Rightarrow> int \<Rightarrow> bool \<times> int \<times> bytes \<times> bytes" where
  "scan_number nptr base =
     (let (neg, s) = take_sign (dropWhile (\<lambda>c. isspace (sint c)) nptr); (b, s) = radix base s in
      (neg, b, takeWhile (is_digit b) s, dropWhile (is_digit b) s))"

section \<open>The loops\<close>

lemma digit_val_range: "digit_val c = Some d \<Longrightarrow> 0 \<le> d \<and> d < 36"
  by (auto simp: digit_val_def isdigit_iff isalpha_iff isupper_iff islower_iff split: if_splits)

lemma digit_val_0 [simp]: "digit_val 0 = None"
  by (simp add: digit_val_def isdigit_iff isalpha_iff isupper_iff islower_iff)

lemma is_digit_0 [simp]: "\<not> is_digit b 0"
  by (simp add: is_digit_def)

lemma skip_space_spec: "0 \<in> set s \<Longrightarrow> skip_space s = Ok (dropWhile (\<lambda>c. isspace (sint c)) s) \<and> 0 \<in> set (dropWhile (\<lambda>c. isspace (sint c)) s)"
  by (induction s) (auto simp: isspace_iff)

lemma take_sign_spec: "0 \<in> set s \<Longrightarrow> 0 \<in> set (snd (take_sign s))"
  by (cases s) auto

lemma take_base_spec:
  assumes "0 \<in> set s"
  shows "take_base base s = Ok (radix base s)" "0 \<in> set (snd (radix base s))"
proof -
  obtain c r where s: "s = c # r" using assms by (cases s) auto
  show "take_base base s = Ok (radix base s)" using assms by (cases r) (auto simp: s radix_def)
  show "0 \<in> set (snd (radix base s))" using assms by (cases r) (auto simp: s radix_def split: if_splits)
qed

lemma numeral_val_ge:
  assumes "list_all (is_digit base) ds" "0 \<le> v" "1 \<le> base"
  shows "v \<le> numeral_val base v ds"
  using assms
proof (induction ds arbitrary: v)
  case (Cons c ds)
  obtain d where d: "digit_val (sint c) = Some d" "0 \<le> d" using Cons.prems(1) digit_val_range by (auto simp: is_digit_def split: option.splits)
  have "v * 1 \<le> v * base" using Cons.prems by (intro mult_left_mono) auto
  moreover have "v * base + d \<le> numeral_val base (v * base + d) ds" using Cons d by simp
  ultimately show ?case using d by (simp add: numeral_val_def)
qed (simp add: numeral_val_def)

text \<open>The test of the cutoff says exactly when another digit exceeds the limit.\<close>

lemma cutoff_test:
  fixes v d b M :: int
  assumes "0 \<le> d" "d < b"
  shows "(v > M div b \<or> v = M div b \<and> d > M mod b) \<longleftrightarrow> v * b + d > M"
proof -
  define q r where "q = M div b" and "r = M mod b"
  have M: "M = q * b + r" "0 \<le> r" "r < b" using assms by (auto simp: q_def r_def)
  have le: "x * b + b \<le> y * b" if "x < y" for x y :: int
    using mult_right_mono [of "x + 1" y b] that assms by (simp add: distrib_right)
  consider "v < q" | "v = q" | "v > q" by linarith
  then have "(v > q \<or> v = q \<and> d > r) \<longleftrightarrow> v * b + d > M"
  proof cases
    case 1
    then show ?thesis using le [of v q] M assms by linarith
  next
    case 2
    then show ?thesis using M(1) by auto
  next
    case 3
    then show ?thesis using le [of q v] M assms by linarith
  qed
  then show ?thesis by (simp add: q_def r_def)
qed

lemma conv_loop_over:
  "0 \<in> set s \<Longrightarrow> conv_loop base cutoff cutlim (-1) acc s = Ok (-1, acc, dropWhile (is_digit base) s)"
  by (induction s) (auto simp: is_digit_def split: option.splits)

lemma conv_loop_spec:
  assumes "0 \<in> set s" "2 \<le> base" "base \<le> 36" "M < 2 ^ 32" "uint cutoff = M div base" "cutlim = M mod base"
    "any \<in> {0, 1}" "uint acc = v" "v \<le> M"
  shows "\<exists>acc'. conv_loop base cutoff cutlim any acc s =
      Ok (if numeral_val base v (takeWhile (is_digit base) s) > M then -1 else if takeWhile (is_digit base) s = [] then any else 1, acc', dropWhile (is_digit base) s) \<and>
    (numeral_val base v (takeWhile (is_digit base) s) \<le> M \<longrightarrow> uint acc' = numeral_val base v (takeWhile (is_digit base) s))"
  using assms(1,7,8,9)
proof (induction s arbitrary: any acc v)
  case (Cons c s)
  have v0: "0 \<le> v" using Cons.prems(3) by auto
  show ?case
  proof (cases "is_digit base c")
    case False
    then show ?thesis using Cons.prems assms(2) by (auto simp: is_digit_def numeral_val_def split: option.splits)
  next
    case True
    obtain d where d: "digit_val (sint c) = Some d" "d < base" "0 \<le> d" using True digit_val_range by (auto simp: is_digit_def split: option.splits)
    have s0: "0 \<in> set s" using Cons.prems(1) True by auto
    have nv: "numeral_val base v (takeWhile (is_digit base) (c # s)) = numeral_val base (v * base + d) (takeWhile (is_digit base) s)"
      using True d by (simp add: numeral_val_def)
    have test: "(acc > cutoff \<or> acc = cutoff \<and> d > cutlim) \<longleftrightarrow> v * base + d > M"
      using cutoff_test [OF d(3,2), where v = v and M = M] Cons.prems(3) assms(5,6) by (auto simp: word_less_def word_uint_eq_iff)
    have any: "\<not> any < 0" using Cons.prems(2) by auto
    show ?thesis
    proof (cases "v * base + d > M")
      case over: True
      have "list_all (is_digit base) (takeWhile (is_digit base) s)" by (auto simp: list_all_iff dest: set_takeWhileD)
      then have "v * base + d \<le> numeral_val base (v * base + d) (takeWhile (is_digit base) s)"
        using numeral_val_ge v0 d(3) assms(2) by simp
      then show ?thesis using over test d any True conv_loop_over [OF s0] unfolding nv by auto
    next
      case False
      have "uint (acc * of_int base + of_int d) = (v * base + d) mod 2 ^ 32"
        unfolding Cons.prems(3) [symmetric] by (simp add: uint_word_ariths uint_word_of_int mod_simps)
      then have "uint (acc * of_int base + of_int d) = v * base + d" using False assms(2,4) v0 d(3) by simp
      then have "\<exists>acc'. conv_loop base cutoff cutlim 1 (acc * of_int base + of_int d) s =
        Ok (if numeral_val base (v * base + d) (takeWhile (is_digit base) s) > M then -1 else 1, acc', dropWhile (is_digit base) s) \<and>
        (numeral_val base (v * base + d) (takeWhile (is_digit base) s) \<le> M \<longrightarrow> uint acc' = numeral_val base (v * base + d) (takeWhile (is_digit base) s))"
        using Cons.IH [of 1 "acc * of_int base + of_int d" "v * base + d"] s0 False by (simp cong: if_cong)
      then show ?thesis using False test d any True unfolding nv by auto
    qed
  qed
qed simp

lemma conv_loop_limit:
  assumes s: "0 \<in> set s" and b: "2 \<le> base" "base \<le> 36" and L: "uint L = M"
  defines "V \<equiv> numeral_val base 0 (takeWhile (is_digit base) s)"
  shows "\<exists>acc'. conv_loop base (L div of_int base) (sint (L mod of_int base)) 0 0 s =
      Ok (if V > M then -1 else if takeWhile (is_digit base) s = [] then 0 else 1, acc', dropWhile (is_digit base) s) \<and> (V \<le> M \<longrightarrow> acc' = of_int V)"
proof -
  have u: "uint (of_int base :: uint) = base" using b by (simp add: uint_word_of_int)
  have m: "uint (L mod of_int base) = M mod base" using u L by (simp add: uint_mod)
  have "0 < base" using b by linarith
  from pos_mod_bound [OF this, of M] b have "M mod base < 36" by linarith
  then have "M mod base < 2 ^ 31" by simp
  then have "sint (L mod of_int base) = M mod base" using m sint_small [of "M mod base"] \<open>0 < base\<close> by (metis pos_mod_sign word_of_int_uint)
  moreover have "uint (L div of_int base) = M div base" using u L by (simp add: uint_div)
  moreover have "M < 2 ^ 32" "0 \<le> M" using L uint_lt2p [of L] by auto
  ultimately obtain acc' where "conv_loop base (L div of_int base) (sint (L mod of_int base)) 0 0 s =
      Ok (if V > M then -1 else if takeWhile (is_digit base) s = [] then 0 else 1, acc', dropWhile (is_digit base) s)" "V \<le> M \<longrightarrow> uint acc' = V"
    using conv_loop_spec [OF s b, of M "L div of_int base" _ 0 0 0] unfolding V_def by auto
  then show ?thesis by (metis word_of_int_uint)
qed

text \<open>What the code has read when it comes to the loop over the digits, and what the loop then gives for a limit \<open>L\<close>.\<close>

lemma conversion_parts:
  assumes "0 \<in> set nptr" "base = 0 \<or> 2 \<le> base \<and> base \<le> 36" "scan_number nptr base = (neg, b, ds, rest)"
  obtains s s1 s2 where "skip_space nptr = Ok s" "take_sign s = (neg, s1)" "take_base base s1 = Ok (b, s2)" "0 \<le> numeral_val b 0 ds"
    "\<And>L M. uint L = M \<Longrightarrow> \<exists>acc. conv_loop b (L div of_int b) (sint (L mod of_int b)) 0 0 s2 =
        Ok (if numeral_val b 0 ds > M then -1 else if ds = [] then 0 else 1, acc, rest) \<and> (numeral_val b 0 ds \<le> M \<longrightarrow> acc = of_int (numeral_val b 0 ds))"
proof -
  define s where "s = dropWhile (\<lambda>c. isspace (sint c)) nptr"
  have s: "skip_space nptr = Ok s" "0 \<in> set s" using skip_space_spec [OF assms(1)] by (auto simp: s_def)
  obtain s1 where s1: "take_sign s = (neg, s1)" using assms(3) by (auto simp: scan_number_def s_def split: prod.splits)
  have z1: "0 \<in> set s1" using take_sign_spec [OF s(2)] s1 by simp
  obtain s2 where s2: "radix base s1 = (b, s2)" "ds = takeWhile (is_digit b) s2" "rest = dropWhile (is_digit b) s2"
    using assms(3) s1 by (auto simp: scan_number_def s_def split: prod.splits)
  note tb = take_base_spec [OF z1, of base, unfolded s2]
  have b: "2 \<le> b" "b \<le> 36" using s2(1) assms(2) by (auto simp: radix_def split: if_splits)
  have v0: "0 \<le> numeral_val b 0 ds" using numeral_val_ge [of b ds 0] b by (auto simp: s2 list_all_iff dest: set_takeWhileD)
  have z2: "0 \<in> set s2" using tb(2) by simp
  show thesis
  proof (rule that [OF s(1) s1 _ v0, of s2])
    show "take_base base s1 = Ok (b, s2)" using tb(1) by simp
    show "\<exists>acc. conv_loop b (L div of_int b) (sint (L mod of_int b)) 0 0 s2 =
        Ok (if numeral_val b 0 ds > M then -1 else if ds = [] then 0 else 1, acc, rest) \<and> (numeral_val b 0 ds \<le> M \<longrightarrow> acc = of_int (numeral_val b 0 ds))"
      if "uint L = M" for L M using conv_loop_limit [OF z2 b that, folded s2(2,3)] by blast
  qed
qed

lemma strtol_clips:
  assumes "0 \<in> set nptr" "base = 0 \<or> 2 \<le> base \<and> base \<le> 36" "scan_number nptr base = (neg, b, ds, rest)"
  defines "x \<equiv> (if neg then - numeral_val b 0 ds else numeral_val b 0 ds)" and "endp \<equiv> (if ds = [] then nptr else rest)"
  shows "strtol nptr base = Ok (of_int (max (- (2 ^ 31)) (min (2 ^ 31 - 1) x)), endp, x < - (2 ^ 31) \<or> x > 2 ^ 31 - 1)"
proof -
  obtain s s1 s2 where p: "skip_space nptr = Ok s" "take_sign s = (neg, s1)" "take_base base s1 = Ok (b, s2)" "0 \<le> numeral_val b 0 ds"
    "\<And>L M. uint L = M \<Longrightarrow> \<exists>acc. conv_loop b (L div of_int b) (sint (L mod of_int b)) 0 0 s2 =
        Ok (if numeral_val b 0 ds > M then -1 else if ds = [] then 0 else 1, acc, rest) \<and> (numeral_val b 0 ds \<le> M \<longrightarrow> acc = of_int (numeral_val b 0 ds))"
    using conversion_parts [OF assms(1-3)] by metis
  define v where "v = numeral_val b 0 ds"
  have nil: "ds = [] \<Longrightarrow> v = 0" by (simp add: v_def numeral_val_def)
  have v0: "0 \<le> v" and x: "x = (if neg then - v else v)" using p(4) by (simp_all add: v_def x_def)
  let ?L = "if neg then - LONG_MIN else LONG_MAX" and ?M = "if neg then 2 ^ 31 else 2 ^ 31 - 1 :: int"
  have "uint ?L = ?M" by (simp add: LONG_MIN_def LONG_MAX_def)
  from p(5) [OF this, folded v_def] obtain acc
    where acc: "conv_loop b (?L div of_int b) (sint (?L mod of_int b)) 0 0 s2 = Ok (if v > ?M then -1 else if ds = [] then 0 else 1, acc, rest)"
      "v \<le> ?M \<Longrightarrow> acc = of_int v" by blast
  have "strtol nptr base = Ok (if v > ?M then (if neg then LONG_MIN else LONG_MAX) else if neg then - acc else acc, endp, v > ?M)"
    using p(1-3) acc(1) nil by (auto simp: strtol_def endp_def Let_def)
  moreover have "(if v > ?M then (if neg then LONG_MIN else LONG_MAX) else if neg then - acc else acc) = of_int (max (- (2 ^ 31)) (min (2 ^ 31 - 1) x))"
  proof (cases "v > ?M")
    case True
    then have "max (- (2 ^ 31)) (min (2 ^ 31 - 1) x) = (if neg then - (2 ^ 31) else 2 ^ 31 - 1)" using v0 x by auto
    then show ?thesis using True by (simp add: LONG_MIN_def LONG_MAX_def)
  next
    case False
    then have "max (- (2 ^ 31)) (min (2 ^ 31 - 1) x) = x" using v0 x by auto
    then show ?thesis using False acc(2) x by simp
  qed
  moreover have "v > ?M \<longleftrightarrow> x < - (2 ^ 31) \<or> x > 2 ^ 31 - 1" using v0 x by auto
  ultimately show ?thesis by simp
qed

lemma strtoul_wraps:
  assumes "0 \<in> set nptr" "base = 0 \<or> 2 \<le> base \<and> base \<le> 36" "scan_number nptr base = (neg, b, ds, rest)"
  defines "v \<equiv> numeral_val b 0 ds" and "endp \<equiv> (if ds = [] then nptr else rest)"
  shows "strtoul nptr base = Ok (if v > 2 ^ 32 - 1 then ULONG_MAX else of_int (if neg then - v else v), endp, v > 2 ^ 32 - 1)"
proof -
  obtain s s1 s2 where p: "skip_space nptr = Ok s" "take_sign s = (neg, s1)" "take_base base s1 = Ok (b, s2)" "0 \<le> numeral_val b 0 ds"
    "\<And>L M. uint L = M \<Longrightarrow> \<exists>acc. conv_loop b (L div of_int b) (sint (L mod of_int b)) 0 0 s2 =
        Ok (if numeral_val b 0 ds > M then -1 else if ds = [] then 0 else 1, acc, rest) \<and> (numeral_val b 0 ds \<le> M \<longrightarrow> acc = of_int (numeral_val b 0 ds))"
    using conversion_parts [OF assms(1-3)] by metis
  have nil: "ds = [] \<Longrightarrow> v = 0" by (simp add: v_def numeral_val_def)
  have "uint ULONG_MAX = 2 ^ 32 - 1" by (simp add: ULONG_MAX_def)
  from p(5) [OF this, folded v_def] obtain acc where acc: "conv_loop b (ULONG_MAX div of_int b) (sint (ULONG_MAX mod of_int b)) 0 0 s2 =
      Ok (if v > 2 ^ 32 - 1 then -1 else if ds = [] then 0 else 1, acc, rest)" "v \<le> 2 ^ 32 - 1 \<Longrightarrow> acc = of_int v" by blast
  have "strtoul nptr base = Ok (if v > 2 ^ 32 - 1 then ULONG_MAX else if neg then - acc else acc, endp, v > 2 ^ 32 - 1)"
    using p(1-3) acc(1) nil by (auto simp: strtoul_def endp_def Let_def)
  then show ?thesis using acc(2) by simp
qed

section \<open>Property\<close>



end
