(* ===== verification/Vis.thy ===== *)
theory Vis
  imports Ctype
begin

text \<open>
  Visible encodings of characters: \<open>lib/gen/vis.c\<close> and the decoder \<open>lib/gen/unvis.c\<close>. What the encoder appends to \<open>dst\<close> is
  a list of bytes; the decoder is the state machine of the source. Shown: decoding gives back every string that was encoded, under any flags
  that keep the backslash.
\<close>

section \<open>Encoding\<close>

definition VIS_OCTAL :: uint where "VIS_OCTAL = 1"
definition VIS_CSTYLE :: uint where "VIS_CSTYLE = 2"
definition VIS_SP :: uint where "VIS_SP = 4"
definition VIS_TAB :: uint where "VIS_TAB = 8"
definition VIS_NL :: uint where "VIS_NL = 16"
definition VIS_SAFE :: uint where "VIS_SAFE = 32"
definition VIS_NOSLASH :: uint where "VIS_NOSLASH = 64"

definition isoctal :: "uchar \<Rightarrow> bool" where
  "isoctal c \<longleftrightarrow> 48 \<le> c \<and> c \<le> 55"

text \<open>The escapes of C; \<open>None\<close> where the \<open>switch\<close> has no case.\<close>

definition vis_cstyle :: "int \<Rightarrow> int \<Rightarrow> bytes option" where
  "vis_cstyle c nextc =
     (if c = 10 then Some [92, 110] else if c = 13 then Some [92, 114] else if c = 8 then Some [92, 98]
      else if c = 7 then Some [92, 97] else if c = 11 then Some [92, 118] else if c = 9 then Some [92, 116]
      else if c = 12 then Some [92, 102] else if c = 32 then Some [92, 115]
      else if c = 0 then Some ([92, 48] @ (if isoctal (of_int nextc) then [48, 48] else []))
      else None)"

definition vis_octal :: "uchar \<Rightarrow> bytes" where
  "vis_octal u = [92, (drop_bit 6 u AND 7) + 48, (drop_bit 3 u AND 7) + 48, (u AND 7) + 48]"

text \<open>The last part: control and meta characters.\<close>

definition vis_meta :: "int \<Rightarrow> uint \<Rightarrow> bytes" where
  "vis_meta c flag =
     (if flag AND VIS_NOSLASH = 0 then [92] else []) @
     (let m = (if c AND 0x80 \<noteq> 0 then [77] else []); c = (if c AND 0x80 \<noteq> 0 then c AND 0x7f else c) in
      m @ (if iscntrl c then [94, if c = 0x7f then 63 else of_int (c + 64)] else [45, of_int c]))"

definition vis :: "int \<Rightarrow> uint \<Rightarrow> int \<Rightarrow> bytes" where
  "vis c flag nextc =
     (if 0 \<le> c \<and> c \<le> 255 \<and> isgraph c \<or>
         flag AND VIS_SP = 0 \<and> c = 32 \<or> flag AND VIS_TAB = 0 \<and> c = 9 \<or> flag AND VIS_NL = 0 \<and> c = 10 \<or>
         flag AND VIS_SAFE \<noteq> 0 \<and> (c = 8 \<or> c = 7 \<or> c = 13)
      then [of_int c] @ (if c = 92 \<and> flag AND VIS_NOSLASH = 0 then [92] else [])
      else
        (case (if flag AND VIS_CSTYLE \<noteq> 0 then vis_cstyle c nextc else None) of
           Some out \<Rightarrow> out
         | None \<Rightarrow>
             if c AND 0x7f = 32 \<or> flag AND VIS_OCTAL \<noteq> 0 then vis_octal (of_int c)
             else vis_meta c flag))"

text \<open>A \<open>char\<close> is signed; the string ends at its first zero.\<close>

fun strvis :: "bytes \<Rightarrow> uint \<Rightarrow> bytes res" where
  "strvis [] flag = Fault"
| "strvis (c # src) flag =
     (if c = 0 then Ok []
      else (case src of [] \<Rightarrow> Fault | n # _ \<Rightarrow> rbind (strvis src flag) (\<lambda>out. Ok (vis (sint c) flag (sint n) @ out))))"

text \<open>\<open>strvisx\<close> counts \<open>len\<close> down and leaves \<open>src\<close> where it is.\<close>

fun strvisx :: "bytes \<Rightarrow> nat \<Rightarrow> uint \<Rightarrow> bytes res" where
  "strvisx src 0 flag = Ok []"
| "strvisx src (Suc n) flag =
     (case src of
        [] \<Rightarrow> Fault
      | c # r \<Rightarrow>
          if n = 0 then Ok (vis (sint c) flag 0)
          else (case r of [] \<Rightarrow> Fault | d # _ \<Rightarrow> rbind (strvisx src n flag) (\<lambda>out. Ok (vis (sint c) flag (sint d) @ out))))"

section \<open>Decoding\<close>

datatype unvis_state = S_GROUND | S_START | S_META | S_META1 | S_CTRL | S_OCTAL2 | S_OCTAL3

datatype unvis_code = UNVIS_MORE | UNVIS_VALID | UNVIS_VALIDPUSH | UNVIS_NOCHAR | UNVIS_SYNBAD

text \<open>The escapes that end with their second character.\<close>

definition unvis_simple :: "uchar \<Rightarrow> uchar option" where
  "unvis_simple c =
     (if c = 92 then Some 92 else if c = 110 then Some 10 else if c = 114 then Some 13 else if c = 98 then Some 8
      else if c = 97 then Some 7 else if c = 118 then Some 11 else if c = 116 then Some 9 else if c = 102 then Some 12
      else if c = 115 then Some 32 else if c = 69 then Some 27 else None)"

text \<open>One character \<open>c\<close>; \<open>cp\<close> is what \<open>*cp\<close> holds. The results are the code returned, \<open>*cp\<close> and the new state.\<close>

fun unvis :: "uchar \<Rightarrow> uchar \<Rightarrow> unvis_state \<Rightarrow> unvis_code \<times> uchar \<times> unvis_state" where
  "unvis cp c S_GROUND = (if c = 92 then (UNVIS_MORE, 0, S_START) else (UNVIS_VALID, c, S_GROUND))"
| "unvis cp c S_START =
     (case unvis_simple c of
        Some d \<Rightarrow> (UNVIS_VALID, d, S_GROUND)
      | None \<Rightarrow>
          if isoctal c then (UNVIS_MORE, c - 48, S_OCTAL2)
          else if c = 77 then (UNVIS_MORE, 0x80, S_META)
          else if c = 94 then (UNVIS_MORE, cp, S_CTRL)
          else if c = 10 \<or> c = 36 then (UNVIS_NOCHAR, cp, S_GROUND)
          else (UNVIS_SYNBAD, cp, S_GROUND))"
| "unvis cp c S_META =
     (if c = 45 then (UNVIS_MORE, cp, S_META1) else if c = 94 then (UNVIS_MORE, cp, S_CTRL) else (UNVIS_SYNBAD, cp, S_GROUND))"
| "unvis cp c S_META1 = (UNVIS_VALID, cp OR c, S_GROUND)"
| "unvis cp c S_CTRL = (UNVIS_VALID, if c = 63 then cp OR 0x7f else cp OR (c AND 0x1f), S_GROUND)"
| "unvis cp c S_OCTAL2 =
     (if isoctal c then (UNVIS_MORE, push_bit 3 cp + (c - 48), S_OCTAL3) else (UNVIS_VALIDPUSH, cp, S_GROUND))"
| "unvis cp c S_OCTAL3 =
     (if isoctal c then (UNVIS_VALID, push_bit 3 cp + (c - 48), S_GROUND) else (UNVIS_VALIDPUSH, cp, S_GROUND))"

text \<open>The call with \<open>UNVIS_END\<close>.\<close>

definition unvis_end :: "unvis_state \<Rightarrow> unvis_code" where
  "unvis_end st = (if st = S_OCTAL2 \<or> st = S_OCTAL3 then UNVIS_VALID else if st = S_GROUND then UNVIS_NOCHAR else UNVIS_SYNBAD)"

text \<open>
  \<open>strunvis\<close>; \<open>old\<close> is what the destination held, and \<open>None\<close> is the result -1. A character that is pushed back is read again in the ground state, where
  it is not pushed back another time.
\<close>

fun strunvis_loop :: "(nat \<Rightarrow> uchar) \<Rightarrow> bytes \<Rightarrow> bytes \<Rightarrow> uchar \<Rightarrow> unvis_state \<Rightarrow> bytes option res" where
  "strunvis_loop old out [] cp st = Fault"
| "strunvis_loop old out (c # src) cp st =
     (if c = 0 then Ok (Some (if unvis_end st = UNVIS_VALID then out @ [cp] else out))
      else
        (case unvis cp c st of
           (UNVIS_VALID, cp, st) \<Rightarrow> strunvis_loop old (out @ [cp]) src (old (length out + 1)) st
         | (UNVIS_MORE, cp, st) \<Rightarrow> strunvis_loop old out src cp st
         | (UNVIS_NOCHAR, cp, st) \<Rightarrow> strunvis_loop old out src cp st
         | (UNVIS_SYNBAD, cp, st) \<Rightarrow> Ok None
         | (UNVIS_VALIDPUSH, cp, st) \<Rightarrow>
             (let out = out @ [cp] in
              case unvis (old (length out)) c st of
                (UNVIS_VALID, cp, st) \<Rightarrow> strunvis_loop old (out @ [cp]) src (old (length out + 1)) st
              | (UNVIS_SYNBAD, cp, st) \<Rightarrow> Ok None
              | (_, cp, st) \<Rightarrow> strunvis_loop old out src cp st)))"

definition strunvis :: "(nat \<Rightarrow> uchar) \<Rightarrow> bytes \<Rightarrow> bytes option res" where
  "strunvis old src = strunvis_loop old [] src (old 0) S_GROUND"

section \<open>Decoding what was encoded\<close>

lemma all_bytes: "list_all P (map of_nat [0..<256]) \<Longrightarrow> P (c :: uchar)"
proof -
  assume a: "list_all P (map of_nat [0..<256])"
  have "unat c < 2 ^ LENGTH(8)" by (rule unsigned_less)
  then have "unat c < 256" by simp
  then have "unat c \<in> set [0..<256]" by (simp del: upt_rec_numeral)
  moreover have "of_nat (unat c) = c" by simp
  ultimately have "c \<in> set (map of_nat [0..<256])" by (metis (no_types) image_eqI list.set_map)
  then show "P c" using a by (simp only: list_all_iff)
qed

lemma sint_byte: "- 128 \<le> k \<Longrightarrow> k < 128 \<Longrightarrow> (sint (c :: uchar) = k) = (c = of_int k)"
  using signed_take_bit_int_eq_self [of 7 k] by (auto simp: signed_of_int)

text \<open>Three octal digits.\<close>

lemma octal_digits: "push_bit 3 (push_bit 3 (drop_bit 6 c AND 7) + (drop_bit 3 c AND 7)) + (c AND 7) = (c :: uchar)"
  by (rule all_bytes [where P = "\<lambda>c. push_bit 3 (push_bit 3 (drop_bit 6 c AND 7) + (drop_bit 3 c AND 7)) + (c AND 7) = c"]) code_simp

lemma isoctal_digit: "isoctal ((x AND 7) + 48)"
proof -
  have "unat (x AND 7) \<le> 7" using word_and_le1 [of x 7] by (simp add: word_le_nat_alt)
  then show ?thesis by (simp add: isoctal_def word_le_nat_alt unat_word_ariths)
qed

lemma isoctal_plain: "isoctal d \<Longrightarrow> d \<noteq> 0 \<and> unvis_simple d = None"
  by (auto simp: isoctal_def unvis_simple_def)

text \<open>Control and meta characters.\<close>

fun meta_form :: "uchar \<Rightarrow> bytes \<Rightarrow> bool" where
  "meta_form c [a, b, x] \<longleftrightarrow> a = 92 \<and> b = 94 \<and> x \<noteq> 0 \<and> (if x = 63 then 0x7f else x AND 0x1f) = c"
| "meta_form c [a, m, b, x] \<longleftrightarrow> a = 92 \<and> m = 77 \<and> x \<noteq> 0 \<and> (if b = 94 then (if x = 63 then 0x80 OR 0x7f else 0x80 OR (x AND 0x1f)) = c else b = 45 \<and> 0x80 OR x = c)"
| "meta_form c _ \<longleftrightarrow> False"

lemma vis_meta_form: "isgraph (sint c) \<or> sint c AND 0x7f = 32 \<or> meta_form c (vis_meta (sint c) 0)"
  by (rule all_bytes [where P = "\<lambda>c. isgraph (sint c) \<or> sint c AND 0x7f = 32 \<or> meta_form c (vis_meta (sint c) 0)"]) code_simp

lemma decode_meta_form:
  assumes "meta_form c e"
  shows "strunvis_loop old out (e @ src) cp S_GROUND = strunvis_loop old (out @ [c]) src (old (length out + 1)) S_GROUND"
proof -
  have u: "unvis_simple 94 = None" "unvis_simple 77 = None" "\<not> isoctal 94" "\<not> isoctal 77" by (simp_all add: unvis_simple_def isoctal_def)
  from assms show ?thesis
  proof (cases rule: meta_form.elims(2))
    case (1 a b x)
    then have e: "e = [92, 94, x]" "x \<noteq> 0" "c = (if x = 63 then 0x7f else x AND 0x1f)" by metis+
    then show ?thesis unfolding e(1,3) by (simp add: u)
  next
    case (2 a m b x)
    then have e: "e = [92, 77, b, x]" "x \<noteq> 0" "b = 94 \<or> b = 45" "c = (if b = 94 then (if x = 63 then 0x80 OR 0x7f else 0x80 OR (x AND 0x1f)) else 0x80 OR x)" by metis+
    from e(3) show ?thesis unfolding e(1,4) using e(2) by (elim disjE) (simp_all add: u)
  qed
qed

lemma decode_meta:
  assumes "\<not> isgraph (sint c)" "sint c AND 0x7f \<noteq> 32" "flag AND VIS_NOSLASH = 0"
  shows "strunvis_loop old out (vis_meta (sint c) flag @ src) cp S_GROUND = strunvis_loop old (out @ [c]) src (old (length out + 1)) S_GROUND"
proof -
  have "vis_meta (sint c) flag = vis_meta (sint c) 0" using assms(3) by (simp add: vis_meta_def)
  then show ?thesis using vis_meta_form [of c] assms(1,2) by (simp add: decode_meta_form)
qed

lemma decode_octal: "strunvis_loop old out (vis_octal c @ src) cp S_GROUND = strunvis_loop old (out @ [c]) src (old (length out + 1)) S_GROUND"
proof -
  define a b d where "a = (drop_bit 6 c AND 7) + 48" and "b = (drop_bit 3 c AND 7) + 48" and "d = (c AND 7) + 48"
  have v: "vis_octal c = [92, a, b, d]" by (simp add: vis_octal_def a_def b_def d_def)
  have o: "isoctal a" "isoctal b" "isoctal d" "push_bit 3 (push_bit 3 (a - 48) + (b - 48)) + (d - 48) = c"
    using octal_digits [of c] by (simp_all add: a_def b_def d_def isoctal_digit)
  show ?thesis unfolding v using o isoctal_plain [OF o(1)] isoctal_plain [OF o(2)] isoctal_plain [OF o(3)] by simp
qed

lemma decode_cstyle:
  assumes "vis_cstyle (sint c) n = Some e" "c \<noteq> 0"
  shows "strunvis_loop old out (e @ src) cp S_GROUND = strunvis_loop old (out @ [c]) src (old (length out + 1)) S_GROUND"
  using assms by (auto simp: vis_cstyle_def sint_byte unvis_simple_def split: if_splits)

lemma decode_vis:
  assumes c: "c \<noteq> 0" and f: "flag AND VIS_NOSLASH = 0"
  shows "strunvis_loop old out (vis (sint c) flag n @ src) cp S_GROUND = strunvis_loop old (out @ [c]) src (old (length out + 1)) S_GROUND"
proof (cases "0 \<le> sint c \<and> sint c \<le> 255 \<and> isgraph (sint c) \<or>
         flag AND VIS_SP = 0 \<and> sint c = 32 \<or> flag AND VIS_TAB = 0 \<and> sint c = 9 \<or> flag AND VIS_NL = 0 \<and> sint c = 10 \<or>
         flag AND VIS_SAFE \<noteq> 0 \<and> (sint c = 8 \<or> sint c = 7 \<or> sint c = 13)")
  case True
  then have "vis (sint c) flag n = (if c = 92 then [92, 92] else [c])" using f by (simp add: vis_def sint_byte)
  then show ?thesis using c by (simp add: unvis_simple_def)
next
  case False
  then have g: "\<not> isgraph (sint c)" by (auto simp: isgraph_iff)
  show ?thesis
  proof (cases "if flag AND VIS_CSTYLE \<noteq> 0 then vis_cstyle (sint c) n else None")
    case None
    then have "vis (sint c) flag n = (if sint c AND 0x7f = 32 \<or> flag AND VIS_OCTAL \<noteq> 0 then vis_octal c else vis_meta (sint c) flag)"
      unfolding vis_def if_not_P [OF False] by simp
    then show ?thesis using decode_octal decode_meta [OF g _ f] by (cases "sint c AND 0x7f = 32") auto
  next
    case (Some e)
    then have "vis (sint c) flag n = e" "vis_cstyle (sint c) n = Some e" unfolding vis_def if_not_P [OF False] by (auto split: if_splits)
    then show ?thesis using decode_cstyle c by simp
  qed
qed

lemma decode_string:
  assumes "0 \<notin> set src" "flag AND VIS_NOSLASH = 0"
  shows "\<exists>enc. strvis (src @ 0 # r) flag = Ok enc \<and> (\<forall>out cp. strunvis_loop old out (enc @ 0 # r') cp S_GROUND = Ok (Some (out @ src)))"
  using assms(1)
proof (induction src)
  case Nil
  then show ?case by (simp add: unvis_end_def)
next
  case (Cons c src)
  obtain n m where n: "src @ 0 # r = n # m" by (cases src) auto
  have c: "c \<noteq> 0" "0 \<notin> set src" using Cons.prems by auto
  from Cons.IH [OF c(2)] obtain enc where enc: "strvis (src @ 0 # r) flag = Ok enc"
    "\<forall>out cp. strunvis_loop old out (enc @ 0 # r') cp S_GROUND = Ok (Some (out @ src))" by blast
  have "strvis ((c # src) @ 0 # r) flag = Ok (vis (sint c) flag (sint n) @ enc)" using enc(1) c(1) n by simp
  moreover have "strunvis_loop old out ((vis (sint c) flag (sint n) @ enc) @ 0 # r') cp S_GROUND = Ok (Some (out @ c # src))" for out cp
    using decode_vis [OF c(1) assms(2), of old out "sint n" "enc @ 0 # r'" cp] enc(2) by simp
  ultimately show ?case by blast
qed

section \<open>Property\<close>

text \<open>
  C22. Encoding and decoding. For every string, with any characters of either sign, and any flags but \<open>VIS_NOSLASH\<close> (which leaves out the
  backslashes), \<open>strvis\<close> returns an encoding and \<open>strunvis\<close> accepts it, whatever the destination held, and gives back the string: the escapes of C, the octal, control
  and meta sequences are read as they were meant, one after the other.
\<close>

theorem vis_round_trip:
  assumes "0 \<notin> set src" "flag AND VIS_NOSLASH = 0"
  shows "\<exists>enc. strvis (src @ [0]) flag = Ok enc \<and> strunvis old (enc @ [0]) = Ok (Some src)"
proof -
  obtain enc where "strvis (src @ 0 # []) flag = Ok enc" "\<forall>out cp. strunvis_loop old out (enc @ 0 # []) cp S_GROUND = Ok (Some (out @ src))"
    using decode_string [OF assms] by blast
  then show ?thesis by (simp add: strunvis_def)
qed

theorem vis_round_trip_witness:
  "\<exists>enc. strvis [9, 92, 0xe9, 0xa0, 1, 65, 0] (VIS_TAB OR VIS_CSTYLE) = Ok enc \<and> strunvis (\<lambda>_. 0) (enc @ [0]) = Ok (Some [9, 92, 0xe9, 0xa0, 1, 65])"
proof -
  have "(VIS_TAB OR VIS_CSTYLE) AND VIS_NOSLASH = 0" by code_simp
  from vis_round_trip [OF _ this, of "[9, 92, 0xe9, 0xa0, 1, 65]" "\<lambda>_. 0"] show ?thesis by simp
qed

end
