(* ===== verification/Fnmatch.thy ===== *)
theory Fnmatch
  imports Prelude
begin

text \<open>
  Matching of file names against patterns: \<open>lib/gen/fnmatch.c\<close>. A pointer into a string is the list of its characters from there on, a read past the end of the
  list is a fault. Shown: on terminated strings the matcher returns, and it decides whether the string is in the language of the pattern.
\<close>

section \<open>The matcher\<close>

definition FNM_NOESCAPE :: uint where "FNM_NOESCAPE = 1"
definition FNM_PATHNAME :: uint where "FNM_PATHNAME = 2"
definition FNM_PERIOD :: uint where "FNM_PERIOD = 4"

text \<open>A character of a bracket expression, perhaps behind a backslash.\<close>

definition rm_char :: "uint \<Rightarrow> bytes \<Rightarrow> (uchar \<times> bytes) res" where
  "rm_char flags pat =
     (case pat of
        [] \<Rightarrow> Fault
      | c # p \<Rightarrow> if c = 92 \<and> flags AND FNM_NOESCAPE = 0 then (case p of [] \<Rightarrow> Fault | c # p \<Rightarrow> Ok (c, p)) else Ok (c, p))"

lemma rm_char_length: "rm_char flags pat = Ok (c, p) \<Longrightarrow> length p < length pat"
  by (auto simp: rm_char_def split: list.splits if_splits)

text \<open>One round of the loop of \<open>rangematch\<close>: a character or a range; \<open>None\<close> where the pattern ends.\<close>

definition rm_elem :: "uint \<Rightarrow> bytes \<Rightarrow> (uchar \<times> uchar option \<times> bytes) option res" where
  "rm_elem flags pat =
     rbind (rm_char flags pat) (\<lambda>(c, p).
     if c = 0 then Ok None
     else
       (case p of
          [] \<Rightarrow> Fault
        | d # q \<Rightarrow>
            if d = 45 then
              (case q of
                 [] \<Rightarrow> Fault
               | c2 # _ \<Rightarrow>
                   if c2 \<noteq> 0 \<and> c2 \<noteq> 93 then
                     rbind (rm_char flags q) (\<lambda>(c2, p). if c2 = 0 then Ok None else Ok (Some (c, Some c2, p)))
                   else Ok (Some (c, None, p)))
            else Ok (Some (c, None, p))))"

lemma rm_elem_length: "rm_elem flags pat = Ok (Some (c, c2, p)) \<Longrightarrow> length p < length pat"
  by (clarsimp simp: rm_elem_def) (auto split: list.split_asm if_split_asm dest!: rm_char_length)

text \<open>The test of a character against an element, with signed characters.\<close>

definition rm_test :: "int \<Rightarrow> uchar \<Rightarrow> uchar option \<Rightarrow> bool" where
  "rm_test test c c2 = (case c2 of None \<Rightarrow> sint c = test | Some c2 \<Rightarrow> sint c \<le> test \<and> test \<le> sint c2)"

function rm_loop :: "uint \<Rightarrow> int \<Rightarrow> bool \<Rightarrow> bytes \<Rightarrow> (bool \<times> bytes) option res" where
  "rm_loop flags test ok pat =
     (if take 1 pat = [93] then Ok (Some (ok, drop 1 pat))
      else
        rbind (rm_elem flags pat) (\<lambda>r.
        case r of None \<Rightarrow> Ok None | Some (c, c2, p) \<Rightarrow> rm_loop flags test (ok \<or> rm_test test c c2) p))"
  by pat_completeness auto

termination rm_loop
  by (relation "measure (\<lambda>(f, t, k, p). length p)") (auto dest!: rm_elem_length)

declare rm_loop.simps [simp del]

lemma rm_loop_length: "rm_loop flags test ok pat = Ok (Some (b, q)) \<Longrightarrow> length q \<le> length pat"
proof (induction flags test ok pat rule: rm_loop.induct)
  case (1 flags test ok pat)
  show ?case
  proof (cases "take 1 pat = [93]")
    case True
    then show ?thesis using 1(2) by (subst (asm) rm_loop.simps) auto
  next
    case False
    then obtain c c2 p where e: "rm_elem flags pat = Ok (Some (c, c2, p))" "rm_loop flags test (ok \<or> rm_test test c c2) p = Ok (Some (b, q))"
      using 1(2) by (subst (asm) rm_loop.simps) (auto split: option.splits)
    have "length q \<le> length p" by (rule 1(1) [OF False e(1) refl refl refl e(2)])
    then show ?thesis using rm_elem_length [OF e(1)] by simp
  qed
qed

definition rangematch :: "bytes \<Rightarrow> int \<Rightarrow> uint \<Rightarrow> bytes option res" where
  "rangematch pat test flags =
     (case pat of
        [] \<Rightarrow> Fault
      | c # p \<Rightarrow>
          let negate = (c = 33 \<or> c = 94) in
          rbind (rm_loop flags test False (if negate then p else pat)) (\<lambda>r.
          Ok (case r of None \<Rightarrow> None | Some (ok, q) \<Rightarrow> if ok = negate then None else Some q)))"

lemma rangematch_length: "rangematch pat test flags = Ok (Some q) \<Longrightarrow> length q \<le> length pat"
proof -
  assume a: "rangematch pat test flags = Ok (Some q)"
  then obtain c p where pat: "pat = c # p" by (auto simp: rangematch_def split: list.splits)
  then obtain ok p' where "rm_loop flags test False p' = Ok (Some (ok, q))" "length p' \<le> length pat"
    using a by (cases "c = 33 \<or> c = 94"; clarsimp simp: rangematch_def Let_def) (fastforce split: option.split_asm if_split_asm)+
  then show "length q \<le> length pat" using rm_loop_length by fastforce
qed

text \<open>The loop that goes over stars, and \<open>index\<close>.\<close>

fun skip_stars :: "bytes \<Rightarrow> bytes" where
  "skip_stars [] = []"
| "skip_stars (c # p) = (if c = 42 then skip_stars p else c # p)"

lemma skip_stars_length: "length (skip_stars p) \<le> length p"
  by (induction p) auto

fun index :: "bytes \<Rightarrow> uchar \<Rightarrow> bytes option res" where
  "index [] ch = Fault"
| "index (c # s) ch = (if c = ch then Ok (Some (c # s)) else if c = 0 then Ok None else index s ch)"

text \<open>
  \<open>start\<close> says whether \<open>string\<close> is \<open>stringstart\<close>, and \<open>prev\<close> is the character before it. The result says whether \<open>fnmatch\<close> returns 0. The loop
  that tries the rest of the pattern on the ends of the string is the second function.
\<close>

definition leading :: "uint \<Rightarrow> bool \<Rightarrow> uchar \<Rightarrow> uchar \<Rightarrow> bool" where
  "leading flags start prev x \<longleftrightarrow> x = 46 \<and> flags AND FNM_PERIOD \<noteq> 0 \<and> (start \<or> flags AND FNM_PATHNAME \<noteq> 0 \<and> prev = 47)"

function fnm :: "uint \<Rightarrow> bool \<Rightarrow> uchar \<Rightarrow> bytes \<Rightarrow> bytes \<Rightarrow> bool res" and
  fnm_star :: "uint \<Rightarrow> uchar \<Rightarrow> bytes \<Rightarrow> bytes \<Rightarrow> bool res" where
  "fnm flags start prev pattern string =
     (case (pattern, string) of
        (c # p, x # s) \<Rightarrow>
          if c = 0 then Ok (x = 0)
          else if c = 63 then
            (if x = 0 then Ok False
             else if x = 47 \<and> flags AND FNM_PATHNAME \<noteq> 0 then Ok False
             else if leading flags start prev x then Ok False
             else fnm flags False x p s)
          else if c = 42 then
            (let p = skip_stars p in
             if leading flags start prev x then Ok False
             else
               (case p of
                  [] \<Rightarrow> Fault
                | c # _ \<Rightarrow>
                    if c = 0 then
                      (if flags AND FNM_PATHNAME \<noteq> 0 then rbind (index string 47) (\<lambda>r. Ok (r = None)) else Ok True)
                    else if c = 47 \<and> flags AND FNM_PATHNAME \<noteq> 0 then
                      rbind (index string 47) (\<lambda>r.
                      case r of
                        None \<Rightarrow> Ok False
                      | Some string' \<Rightarrow> fnm flags (start \<and> string' = string) (last (prev # take (length string - length string') string)) p string')
                    else fnm_star flags prev p string))
          else if c = 91 then
            (if x = 0 then Ok False
             else if x = 47 \<and> flags AND FNM_PATHNAME \<noteq> 0 then Ok False
             else
               rbind (rangematch p (sint x) flags) (\<lambda>r.
               case r of None \<Rightarrow> Ok False | Some p \<Rightarrow> fnm flags False x p s))
          else
            (case (if c = 92 \<and> flags AND FNM_NOESCAPE = 0 then (case p of [] \<Rightarrow> None | d # q \<Rightarrow> Some (if d = 0 then (92, p) else (d, q))) else Some (c, p)) of
               None \<Rightarrow> Fault
             | Some (c, p) \<Rightarrow> if c \<noteq> x then Ok False else fnm flags False x p s)
      | _ \<Rightarrow> Fault)"
| "fnm_star flags prev p string =
     (case string of
        [] \<Rightarrow> Fault
      | x # s \<Rightarrow>
          if x = 0 then Ok False
          else
            rbind (fnm (flags AND NOT FNM_PERIOD) True prev p string) (\<lambda>m.
            if m then Ok True
            else if x = 47 \<and> flags AND FNM_PATHNAME \<noteq> 0 then Ok False
            else fnm_star flags x p s))"
  by pat_completeness auto


termination fnm
proof (relation "measures [\<lambda>x. case x of Inl (f, st, pr, p, s) \<Rightarrow> length p | Inr (f, pr, p, s) \<Rightarrow> length p,
    \<lambda>x. case x of Inl (f, st, pr, p, s) \<Rightarrow> 2 * length s | Inr (f, pr, p, s) \<Rightarrow> 2 * length s + 1]", goal_cases)
qed (auto dest!: rangematch_length split: if_splits list.splits simp: le_imp_less_Suc skip_stars_length)

declare fnm.simps [simp del] fnm_star.simps [simp del]

text \<open>The call of the user.\<close>

definition fnmatch :: "bytes \<Rightarrow> bytes \<Rightarrow> uint \<Rightarrow> bool res" where
  "fnmatch pattern string flags = fnm flags True 0 pattern string"

section \<open>The language of a pattern\<close>

datatype gitem = GAny | GStar | GSet bool "(uchar \<times> uchar option) list" | GLit uchar | GBad

text \<open>The elements of a bracket expression, and what follows it.\<close>

function bracket :: "uint \<Rightarrow> bytes \<Rightarrow> ((uchar \<times> uchar option) list \<times> bytes) option" where
  "bracket flags pat =
     (if take 1 pat = [93] then Some ([], drop 1 pat)
      else (case rm_elem flags pat of
              Ok (Some (c, c2, p)) \<Rightarrow> map_option (\<lambda>(rs, q). ((c, c2) # rs, q)) (bracket flags p)
            | _ \<Rightarrow> None))"
  by pat_completeness auto

termination bracket by (relation "measure (\<lambda>(f, p). length p)") (auto dest!: rm_elem_length)

declare bracket.simps [simp del]

lemma bracket_length: "bracket flags pat = Some (rs, q) \<Longrightarrow> length q \<le> length pat"
proof (induction flags pat arbitrary: rs q rule: bracket.induct)
  case (1 flags pat)
  show ?case
  proof (cases "take 1 pat = [93]")
    case True
    then show ?thesis using 1(2) by (subst (asm) bracket.simps) auto
  next
    case False
    then obtain c c2 p rs' where e: "rm_elem flags pat = Ok (Some (c, c2, p))" "bracket flags p = Some (rs', q)"
      using 1(2) by (subst (asm) bracket.simps) (auto split: res.split_asm option.split_asm)
    have "length q \<le> length p" by (rule 1(1) [OF False e(1) refl refl refl e(2)])
    then show ?thesis using rm_elem_length [OF e(1)] by simp
  qed
qed

text \<open>The pattern as a sequence of items.\<close>

function parse_pat :: "uint \<Rightarrow> bytes \<Rightarrow> gitem list" where
  "parse_pat flags pat =
     (case pat of
        [] \<Rightarrow> []
      | c # p \<Rightarrow>
          if c = 0 then []
          else if c = 63 then GAny # parse_pat flags p
          else if c = 42 then GStar # parse_pat flags p
          else if c = 91 then
            (let neg = (take 1 p = [33] \<or> take 1 p = [94]) in
             case bracket flags (if neg then drop 1 p else p) of
               None \<Rightarrow> [GBad]
             | Some (rs, q) \<Rightarrow> GSet neg rs # parse_pat flags q)
          else if c = 92 \<and> flags AND FNM_NOESCAPE = 0 then
            (case p of [] \<Rightarrow> [] | d # q \<Rightarrow> if d = 0 then [GLit 92] else GLit d # parse_pat flags q)
          else GLit c # parse_pat flags p)"
  by pat_completeness auto

termination parse_pat
  by (relation "measure (\<lambda>(f, p). length p)") (auto dest!: bracket_length split: if_split_asm)

declare parse_pat.simps [simp del]

text \<open>The characters \<open>?\<close>, \<open>*\<close> and brackets may stand for.\<close>

definition plain :: "uint \<Rightarrow> uchar \<Rightarrow> bool" where
  "plain flags x \<longleftrightarrow> \<not> (x = 47 \<and> flags AND FNM_PATHNAME \<noteq> 0)"

definition in_set :: "uchar \<Rightarrow> (uchar \<times> uchar option) list \<Rightarrow> bool" where
  "in_set x rs \<longleftrightarrow> list_ex (\<lambda>(c, c2). rm_test (sint x) c c2) rs"

definition lead_at :: "uint \<Rightarrow> bool \<Rightarrow> uchar \<Rightarrow> bytes \<Rightarrow> bool" where
  "lead_at flags start prev s \<longleftrightarrow> s \<noteq> [] \<and> leading flags start prev (hd s)"

fun glob :: "uint \<Rightarrow> bool \<Rightarrow> uchar \<Rightarrow> gitem list \<Rightarrow> bytes \<Rightarrow> bool" where
  "glob flags start prev [] s \<longleftrightarrow> s = []"
| "glob flags start prev (GLit c # gs) s \<longleftrightarrow> s \<noteq> [] \<and> hd s = c \<and> glob flags False (hd s) gs (tl s)"
| "glob flags start prev (GAny # gs) s \<longleftrightarrow> s \<noteq> [] \<and> plain flags (hd s) \<and> \<not> lead_at flags start prev s \<and> glob flags False (hd s) gs (tl s)"
| "glob flags start prev (GSet neg rs # gs) s \<longleftrightarrow> s \<noteq> [] \<and> plain flags (hd s) \<and> in_set (hd s) rs \<noteq> neg \<and> glob flags False (hd s) gs (tl s)"
| "glob flags start prev (GStar # gs) s \<longleftrightarrow> \<not> lead_at flags start prev s \<and>
     (\<exists>k \<le> length s. list_all (plain flags) (take k s) \<and> glob flags (start \<and> k = 0) (last (prev # take k s)) gs (drop k s))"
| "glob flags start prev (GBad # gs) s \<longleftrightarrow> False"

section \<open>Brackets\<close>

lemma rm_char_ok:
  assumes "0 \<in> set pat"
  shows "\<exists>c p. rm_char flags pat = Ok (c, p) \<and> (c \<noteq> 0 \<longrightarrow> 0 \<in> set p)"
proof -
  obtain c p where pat: "pat = c # p" using assms by (cases pat) auto
  show ?thesis using assms by (cases p) (auto simp: pat rm_char_def)
qed

lemma rm_elem_ok:
  assumes "0 \<in> set pat"
  shows "rm_elem flags pat = Ok None \<or> (\<exists>c c2 p. rm_elem flags pat = Ok (Some (c, c2, p)) \<and> 0 \<in> set p)"
proof -
  obtain c p where c: "rm_char flags pat = Ok (c, p)" "c \<noteq> 0 \<longrightarrow> 0 \<in> set p" using rm_char_ok [OF assms] by blast
  show ?thesis
  proof (cases "c = 0")
    case False
    then obtain d q where p: "p = d # q" using c(2) by (cases p) auto
    show ?thesis
    proof (cases "d = 45")
      case True
      then have "0 \<in> set q" using c(2) False p by auto
      then obtain e r where q: "q = e # r" by (cases q) auto
      obtain c2 p2 where "rm_char flags q = Ok (c2, p2)" "c2 \<noteq> 0 \<longrightarrow> 0 \<in> set p2" using rm_char_ok [OF \<open>0 \<in> set q\<close>] by blast
      then show ?thesis using c False p True q by (auto simp: rm_elem_def)
    qed (use c False p in \<open>auto simp: rm_elem_def\<close>)
  qed (use c in \<open>simp add: rm_elem_def\<close>)
qed

lemma rm_loop_bracket:
  assumes "0 \<in> set pat"
  shows "rm_loop flags (sint x) ok pat = Ok (map_option (\<lambda>(rs, q). (ok \<or> in_set x rs, q)) (bracket flags pat))"
    "bracket flags pat = Some (rs, q) \<Longrightarrow> 0 \<in> set q"
proof -
  have "rm_loop flags (sint x) ok pat = Ok (map_option (\<lambda>(rs, q). (ok \<or> in_set x rs, q)) (bracket flags pat)) \<and>
    (\<forall>rs q. bracket flags pat = Some (rs, q) \<longrightarrow> 0 \<in> set q)"
    using assms
  proof (induction "length pat" arbitrary: pat ok rule: less_induct)
    case less
    consider "take 1 pat = [93]" | "take 1 pat \<noteq> [93]" "rm_elem flags pat = Ok None"
      | c c2 p where "take 1 pat \<noteq> [93]" "rm_elem flags pat = Ok (Some (c, c2, p))" "0 \<in> set p" using rm_elem_ok [OF less.prems] by blast
    then show ?case
    proof cases
      case 1
      then have "rm_loop flags (sint x) ok pat = Ok (Some (ok, drop 1 pat))" "bracket flags pat = Some ([], drop 1 pat)"
        by (simp_all add: rm_loop.simps [of _ _ _ pat] bracket.simps [of _ pat])
      moreover have "0 \<in> set (drop 1 pat)" using 1 less.prems by (cases pat) auto
      ultimately show ?thesis by (simp add: in_set_def)
    next
      case 2
      then show ?thesis by (simp add: rm_loop.simps [of _ _ _ pat] bracket.simps [of _ pat])
    next
      case 3
      from less.hyps [OF rm_elem_length [OF 3(2)] 3(3), of "ok \<or> rm_test (sint x) c c2"] 3
      show ?thesis by (cases "bracket flags p") (auto simp: rm_loop.simps [of _ _ _ pat] bracket.simps [of _ pat] in_set_def)
    qed
  qed
  then show "rm_loop flags (sint x) ok pat = Ok (map_option (\<lambda>(rs, q). (ok \<or> in_set x rs, q)) (bracket flags pat))"
    "bracket flags pat = Some (rs, q) \<Longrightarrow> 0 \<in> set q" by auto
qed

lemma rangematch_bracket:
  assumes "0 \<in> set pat"
  defines "neg \<equiv> take 1 pat = [33] \<or> take 1 pat = [94]"
  shows "rangematch pat (sint x) flags = Ok (case bracket flags (if neg then drop 1 pat else pat) of None \<Rightarrow> None | Some (rs, q) \<Rightarrow> if in_set x rs = neg then None else Some q)"
    "bracket flags (if neg then drop 1 pat else pat) = Some (rs, q) \<Longrightarrow> 0 \<in> set q"
proof -
  obtain c p where pat: "pat = c # p" using assms(1) by (cases pat) auto
  have neg: "neg \<longleftrightarrow> c = 33 \<or> c = 94" by (auto simp: neg_def pat)
  have z: "0 \<in> set (if neg then drop 1 pat else pat)" using assms(1) by (auto simp: neg pat)
  note b = rm_loop_bracket [OF z]
  show "bracket flags (if neg then drop 1 pat else pat) = Some (rs, q) \<Longrightarrow> 0 \<in> set q" by (rule b(2))
  have "rm_loop flags (sint x) False (if neg then drop 1 pat else pat) = Ok (map_option (\<lambda>(rs, q). (in_set x rs, q)) (bracket flags (if neg then drop 1 pat else pat)))"
    using b(1) [of flags x False] by simp
  then show "rangematch pat (sint x) flags = Ok (case bracket flags (if neg then drop 1 pat else pat) of None \<Rightarrow> None | Some (rs, q) \<Rightarrow> if in_set x rs = neg then None else Some q)"
    unfolding rangematch_def pat list.case neg [symmetric] Let_def by (cases "bracket flags (if neg then drop 1 pat else pat)") (auto simp: pat)
qed

section \<open>Leading periods\<close>

text \<open>Flags that do not ask for periods after slashes.\<close>

definition simple_period :: "uint \<Rightarrow> bool" where
  "simple_period flags \<longleftrightarrow> flags AND FNM_PATHNAME = 0 \<or> flags AND FNM_PERIOD = 0"

definition no_period :: "uint \<Rightarrow> uint" where
  "no_period flags = flags AND NOT FNM_PERIOD"

lemma no_period_flags [simp]:
  "no_period flags AND FNM_PERIOD = 0" "no_period flags AND FNM_PATHNAME = flags AND FNM_PATHNAME" "no_period flags AND FNM_NOESCAPE = flags AND FNM_NOESCAPE"
  by (simp_all add: no_period_def FNM_PERIOD_def FNM_PATHNAME_def FNM_NOESCAPE_def and.assoc)

lemma no_period_same [simp]: "plain (no_period flags) = plain flags" "\<not> leading (no_period flags) start prev x" "\<not> lead_at (no_period flags) start prev s"
  "simple_period (no_period flags)"
  by (simp_all add: plain_def leading_def lead_at_def simple_period_def fun_eq_iff)

lemma no_period_parse [simp]: "parse_pat (no_period flags) pat = parse_pat flags pat"
proof -
  have c: "rm_char (no_period flags) = rm_char flags" by (simp add: rm_char_def fun_eq_iff split: list.split)
  have e: "rm_elem (no_period flags) p = rm_elem flags p" for p unfolding rm_elem_def c ..
  have b: "bracket (no_period flags) p = bracket flags p" for p
  proof (induction "length p" arbitrary: p rule: less_induct)
    case less
    then show ?case
      by (simp add: bracket.simps [of _ p] e) (auto split: res.split option.split dest!: rm_elem_length)
  qed
  show ?thesis
  proof (induction "length pat" arbitrary: pat rule: less_induct)
    case less
    show ?case
    proof (cases pat)
      case (Cons c p)
      define q where "q = (if take 1 p = [33] \<or> take 1 p = [94] then drop 1 p else p)"
      have i: "parse_pat (no_period flags) p = parse_pat flags p" "parse_pat (no_period flags) (tl p) = parse_pat flags (tl p)"
        using less Cons by auto
      have "parse_pat (no_period flags) r = parse_pat flags r" if "bracket flags q = Some (rs, r)" for rs r
        using less Cons bracket_length [OF that] by (auto simp: q_def split: if_split_asm)
      then show ?thesis unfolding Cons parse_pat.simps [of _ "c # p"] list.case Let_def b q_def [symmetric] no_period_flags
        using i by (cases "bracket flags q"; cases p) (auto simp: split_beta)
    qed (simp add: parse_pat.simps)
  qed
qed

lemma glob_no_period:
  assumes "simple_period flags" "\<not> lead_at flags start prev s"
  shows "glob flags start prev gs s = glob (no_period flags) start' prev' gs s"
  using assms(2)
proof (induction gs arbitrary: start prev start' prev' s)
  case (Cons g gs)
  have l: "\<not> lead_at flags False x u" for x u using assms(1) by (auto simp: simple_period_def lead_at_def leading_def)
  have "\<not> lead_at flags (start \<and> k = 0) x (drop k s)" for k x
    using Cons.prems assms(1) by (cases k) (auto simp: simple_period_def lead_at_def leading_def)
  note ih = Cons.IH [OF this] and jh = Cons.IH [OF l]
  show ?case
  proof (cases g)
    case GStar
    have "glob flags (start \<and> k = 0) (last (prev # take k s)) gs (drop k s) = glob (no_period flags) (start' \<and> k = 0) (last (prev' # take k s)) gs (drop k s)" for k
      by (rule ih)
    then show ?thesis unfolding GStar using Cons.prems by (simp only: glob.simps no_period_same simp_thms)
  qed (use Cons.prems jh in auto)
qed simp

lemma no_period_idem [simp]: "no_period (no_period flags) = no_period flags"
  by (simp add: no_period_def and.assoc)

lemma glob_anywhere: "glob (no_period flags) start prev gs s = glob (no_period flags) start' prev' gs s"
  using glob_no_period [of "no_period flags" start prev s gs start' prev'] by simp

section \<open>Stars\<close>

text \<open>What a star does where no leading period is in the way.\<close>

definition star_match :: "uint \<Rightarrow> gitem list \<Rightarrow> bytes \<Rightarrow> bool" where
  "star_match flags gs s \<longleftrightarrow> (\<exists>u v. s = u @ v \<and> list_all (plain flags) u \<and> glob (no_period flags) True 0 gs v)"

lemma glob_star:
  assumes "simple_period flags"
  shows "glob flags start prev (GStar # gs) s \<longleftrightarrow> \<not> lead_at flags start prev s \<and> star_match flags gs s"
proof (cases "lead_at flags start prev s")
  case False
  have l: "\<not> lead_at flags (start \<and> k = 0) x (drop k s)" for k x
    using False assms by (cases k) (auto simp: simple_period_def lead_at_def leading_def)
  have e: "glob flags (start \<and> k = 0) (last (prev # take k s)) gs (drop k s) = glob (no_period flags) True 0 gs (drop k s)" for k
    by (rule glob_no_period [OF assms l])
  have "(\<exists>k \<le> length s. list_all (plain flags) (take k s) \<and> glob (no_period flags) True 0 gs (drop k s)) \<longleftrightarrow> star_match flags gs s"
    unfolding star_match_def by (metis append_eq_conv_conj append_take_drop_id length_append le_add1)
  then show ?thesis using False unfolding glob.simps e by blast
qed simp

lemma star_match_simps:
  "star_match flags (GStar # gs) s = star_match flags gs s"
  "star_match flags [] s = list_all (plain flags) s"
proof -
  have "glob (no_period flags) True 0 (GStar # gs) v = star_match flags gs v" for v
    using glob_star [of "no_period flags" True 0 gs v] by (simp del: glob.simps add: star_match_def)
  then have e: "star_match flags (GStar # gs) s \<longleftrightarrow> (\<exists>u v. s = u @ v \<and> list_all (plain flags) u \<and> star_match flags gs v)" by (simp add: star_match_def del: glob.simps)
  show "star_match flags (GStar # gs) s = star_match flags gs s"
  proof
    assume "star_match flags (GStar # gs) s"
    then obtain u v u' v' where "s = u @ v" "list_all (plain flags) u" "v = u' @ v'" "list_all (plain flags) u'" "glob (no_period flags) True 0 gs v'"
      unfolding e unfolding star_match_def by blast
    then show "star_match flags gs s" unfolding star_match_def by (intro exI [of _ "u @ u'"] exI [of _ v']) simp
  next
    assume "star_match flags gs s"
    then show "star_match flags (GStar # gs) s" unfolding e by (intro exI [of _ "[]"] exI [of _ s]) simp
  qed
qed (simp add: star_match_def)

lemma parse_skip_stars: "star_match flags (parse_pat flags (skip_stars p)) s = star_match flags (parse_pat flags p) s"
proof (induction p)
  case (Cons c p)
  then show ?case by (cases "c = 42") (simp_all add: parse_pat.simps [of _ "42 # p"] star_match_simps(1))
qed simp

text \<open>Up to a slash in the pattern.\<close>

lemma star_match_slash:
  assumes "flags AND FNM_PATHNAME \<noteq> 0"
  shows "star_match flags (GLit 47 # gs) s \<longleftrightarrow> 47 \<in> set s \<and> glob (no_period flags) True 0 (GLit 47 # gs) (dropWhile (\<lambda>x. x \<noteq> 47) s)"
proof -
  have p: "plain flags x \<longleftrightarrow> x \<noteq> 47" for x using assms by (simp add: plain_def)
  have "v = dropWhile (\<lambda>x. x \<noteq> 47) s \<and> 47 \<in> set s" if "s = u @ v" "list_all (plain flags) u" "glob (no_period flags) True 0 (GLit 47 # gs) v" for u v
    using that p by (cases v) (auto simp: list_all_iff dropWhile_append)
  moreover have "s = takeWhile (\<lambda>x. x \<noteq> 47) s @ dropWhile (\<lambda>x. x \<noteq> 47) s" "list_all (plain flags) (takeWhile (\<lambda>x. x \<noteq> 47) s)"
    using p by (auto simp: list_all_iff dest: set_takeWhileD)
  ultimately show ?thesis unfolding star_match_def by (metis (no_types, lifting))
qed

lemma star_match_step:
  assumes "glob (no_period flags) True 0 gs [] = False"
  shows "star_match flags gs [] = False" "star_match flags gs (x # s) \<longleftrightarrow> glob (no_period flags) True 0 gs (x # s) \<or> plain flags x \<and> star_match flags gs s"
proof -
  show "star_match flags gs [] = False" using assms by (simp add: star_match_def)
  have "(\<exists>u v. x # s = u @ v \<and> list_all (plain flags) u \<and> glob (no_period flags) True 0 gs v) \<longleftrightarrow>
    glob (no_period flags) True 0 gs (x # s) \<or> plain flags x \<and> (\<exists>u v. s = u @ v \<and> list_all (plain flags) u \<and> glob (no_period flags) True 0 gs v)"
    (is "?l \<longleftrightarrow> _ \<or> _ \<and> ?r")
  proof
    assume ?l
    then show "glob (no_period flags) True 0 gs (x # s) \<or> plain flags x \<and> ?r" by (fastforce simp: Cons_eq_append_conv)
  next
    assume "glob (no_period flags) True 0 gs (x # s) \<or> plain flags x \<and> ?r"
    then show ?l
    proof
      assume "glob (no_period flags) True 0 gs (x # s)"
      then show ?l by (intro exI [of _ "[]"] exI [of _ "x # s"]) simp
    next
      assume "plain flags x \<and> ?r"
      then obtain u v where "plain flags x" "s = u @ v" "list_all (plain flags) u" "glob (no_period flags) True 0 gs v" by blast
      then show ?l by (intro exI [of _ "x # u"] exI [of _ v]) simp
    qed
  qed
  then show "star_match flags gs (x # s) \<longleftrightarrow> glob (no_period flags) True 0 gs (x # s) \<or> plain flags x \<and> star_match flags gs s"
    unfolding star_match_def .
qed

lemma index_slash:
  assumes "0 \<notin> set s" "ch \<noteq> 0"
  shows "index (s @ 0 # r) ch = Ok (if ch \<in> set s then Some (dropWhile (\<lambda>x. x \<noteq> ch) s @ 0 # r) else None)"
  using assms by (induction s) auto

lemma fnm_star_spec:
  assumes "\<And>prev s. 0 \<notin> set s \<Longrightarrow> fnm (no_period flags) True prev p (s @ 0 # r) = Ok (glob (no_period flags) True prev gs s)"
    and "glob (no_period flags) True 0 gs [] = False" "0 \<notin> set s"
  shows "fnm_star flags prev p (s @ 0 # r) = Ok (star_match flags gs s)"
  using assms(3)
proof (induction s arbitrary: prev)
  case Nil
  then show ?case using star_match_step(1) [OF assms(2)] by (simp add: fnm_star.simps)
next
  case (Cons x s)
  have "fnm (no_period flags) True prev p (x # s @ 0 # r) = Ok (glob (no_period flags) True 0 gs (x # s))"
    using assms(1) [of "x # s" prev] Cons.prems glob_anywhere [of flags True prev gs "x # s" True 0] by simp
  then show ?case
    using Cons star_match_step(2) [OF assms(2), of x s] by (simp add: fnm_star.simps [of _ _ _ "x # s @ 0 # r"] no_period_def [symmetric] plain_def)
qed

section \<open>The matcher decides the language\<close>

lemma skip_stars_zero: "0 \<in> set p \<Longrightarrow> 0 \<in> set (skip_stars p) \<and> hd (skip_stars p) \<noteq> 42"
  by (induction p) auto

lemma parse_needs_char:
  assumes "c \<noteq> 0" "c \<noteq> 42" "0 \<in> set p"
  shows "glob f st pr (parse_pat flags (c # p)) [] = False"
proof -
  obtain d q where "p = d # q" using assms(3) by (cases p) auto
  then show ?thesis using assms(1,2) unfolding parse_pat.simps [of _ "c # p"] by (auto simp: Let_def split: option.split)
qed

lemma lead_at_hd: "s \<noteq> [] \<Longrightarrow> lead_at flags start prev s = leading flags start prev (hd s)"
  by (simp add: lead_at_def)

lemma fnm_star_case:
  assumes sp: "simple_period flags" and p: "0 \<in> set p" and s: "0 \<notin> set s"
    and ih: "\<And>f st pr u. simple_period f \<Longrightarrow> 0 \<notin> set u \<Longrightarrow> fnm f st pr (skip_stars p) (u @ 0 # r) = Ok (glob f st pr (parse_pat f (skip_stars p)) u)"
  shows "fnm flags start prev (42 # p) (s @ 0 # r) = Ok (glob flags start prev (parse_pat flags (42 # p)) s)"
proof -
  obtain d q where d: "skip_stars p = d # q" "d \<noteq> 42" "0 \<in> set (d # q)" using skip_stars_zero [OF p] by (cases "skip_stars p") auto
  let ?gs = "parse_pat flags (d # q)"
  obtain x t where x: "s @ 0 # r = x # t" by (cases s) auto
  have ld: "leading flags start prev x = lead_at flags start prev s" using x by (cases s) (auto simp: lead_at_def leading_def)
  have "parse_pat flags (42 # p) = GStar # parse_pat flags p" by (simp add: parse_pat.simps)
  then have g: "glob flags start prev (parse_pat flags (42 # p)) s \<longleftrightarrow> \<not> lead_at flags start prev s \<and> star_match flags ?gs s"
    using glob_star [OF sp] parse_skip_stars [of flags p s] d(1) by simp
  show ?thesis
  proof (cases "lead_at flags start prev s")
    case True
    then show ?thesis using ld unfolding g x by (simp add: fnm.simps [of _ _ _ "42 # p"])
  next
    case False
    note u = fnm.simps [of flags start prev "42 # p" "x # t"]
    consider "d = 0" | "d = 47" "flags AND FNM_PATHNAME \<noteq> 0" | "d \<noteq> 0" "\<not> (d = 47 \<and> flags AND FNM_PATHNAME \<noteq> 0)" by blast
    then show ?thesis
    proof cases
      case 1
      then have "star_match flags ?gs s = list_all (plain flags) s" by (simp add: parse_pat.simps star_match_simps(2))
      moreover have "list_all (plain flags) s \<longleftrightarrow> flags AND FNM_PATHNAME = 0 \<or> 47 \<notin> set s" by (auto simp: list_all_iff plain_def)
      moreover have "index (x # t) 47 = Ok (if 47 \<in> set s then Some (dropWhile (\<lambda>y. y \<noteq> 47) s @ 0 # r) else None)"
        using index_slash [OF s, of 47 r] x by simp
      ultimately show ?thesis using False ld d(1) 1 unfolding g x u by simp
    next
      case 2
      define v where "v = dropWhile (\<lambda>y. y \<noteq> 47) s"
      have pe: "flags AND FNM_PERIOD = 0" using 2(2) sp by (simp add: simple_period_def)
      have gs: "?gs = GLit 47 # parse_pat flags q" using 2(1) by (simp add: parse_pat.simps [of _ "47 # q"])
      have "0 \<notin> set v" using s set_dropWhileD unfolding v_def by metis
      then have f: "fnm flags st pr (d # q) (v @ 0 # r) = Ok (glob (no_period flags) True 0 ?gs v)" for st pr
        using ih [OF sp, of v st pr] d(1) glob_no_period [OF sp, of st pr v] pe by (simp add: lead_at_def leading_def)
      have "index (x # t) 47 = Ok (if 47 \<in> set s then Some (v @ 0 # r) else None)" using index_slash [OF s, of 47 r] x by (simp add: v_def)
      then show ?thesis using False ld d(1) 2 f star_match_slash [OF 2(2), of "parse_pat flags q" s, folded v_def gs] unfolding g x u by simp
    next
      case 3
      have z: "0 \<in> set q" using d(3) 3(1) by simp
      have "fnm_star flags prev (d # q) (s @ 0 # r) = Ok (star_match flags ?gs s)"
        by (rule fnm_star_spec [OF _ parse_needs_char [OF 3(1) d(2) z] s]) (use ih [of "no_period flags"] d(1) in simp)
      then show ?thesis using False ld d(1) 3 unfolding g x u Let_def by auto
    qed
  qed
qed

lemma fnm_spec:
  assumes "simple_period flags" "0 \<in> set pat" "0 \<notin> set s"
  shows "fnm flags start prev pat (s @ 0 # r) = Ok (glob flags start prev (parse_pat flags pat) s)"
  using assms
proof (induction "length pat" arbitrary: flags start prev pat s rule: less_induct)
  case less
  obtain c p where pat: "pat = c # p" using less.prems(2) by (cases pat) auto
  obtain x t where x: "s @ 0 # r = x # t" by (cases s) auto
  have sx: "s \<noteq> [] \<Longrightarrow> x = hd s \<and> t = tl s @ 0 # r \<and> x \<noteq> 0 \<and> 0 \<notin> set (tl s)" "s = [] \<Longrightarrow> x = 0" using x less.prems(3) by (cases s; auto)+
  have ih: "fnm flags False y q (tl s @ 0 # r) = Ok (glob flags False y (parse_pat flags q) (tl s))" if "length q < length pat" "0 \<in> set q" "s \<noteq> []" for q y
    using less.hyps [OF that(1) less.prems(1) that(2)] sx(1) that(3) by blast
  note u = fnm.simps [of flags start prev "c # p" "x # t"] and v = parse_pat.simps [of flags "c # p"]
  have z: "0 \<in> set p" if "c \<noteq> 0" using less.prems(2) pat that by simp
  consider "c = 0" | "c = 63" | "c = 42" | "c = 91" | "c \<noteq> 0" "c \<noteq> 63" "c \<noteq> 42" "c \<noteq> 91" by blast
  then show ?case
  proof cases
    case 1
    then show ?thesis unfolding pat x u v using sx by (cases "s = []") auto
  next
    case 2
    then show ?thesis unfolding pat x u v using sx ih [of p x] z pat by (cases "s = []") (auto simp: plain_def lead_at_hd)
  next
    case 3
    have l: "length (skip_stars p) < length pat" using skip_stars_length [of p] pat by simp
    have "fnm flags start prev (42 # p) (s @ 0 # r) = Ok (glob flags start prev (parse_pat flags (42 # p)) s)"
      using z 3 skip_stars_zero [of p] by (intro fnm_star_case [OF less.prems(1) _ less.prems(3)] less.hyps l) auto
    then show ?thesis using pat 3 by simp
  next
    case 4
    define neg where "neg = (take 1 p = [33] \<or> take 1 p = [94])"
    have zp: "0 \<in> set p" using z 4 by simp
    note b = rangematch_bracket [OF zp, folded neg_def]
    have ln: "length q < length pat" if "bracket flags (if neg then drop 1 p else p) = Some (rs, q)" for rs q
      using bracket_length [OF that] pat by (auto split: if_split_asm)
    show ?thesis
    proof (cases "bracket flags (if neg then drop 1 p else p)")
      case None
      then show ?thesis unfolding pat x u v using 4 b(1) [of x flags] sx neg_def by (cases "s = []") auto
    next
      case (Some a)
      obtain rs q where a: "a = (rs, q)" by (cases a)
      have "parse_pat flags pat = GSet neg rs # parse_pat flags q" unfolding pat v list.case Let_def neg_def [symmetric] using 4 Some a by simp
      then show ?thesis
        unfolding x using u Some a 4 b(1) [of x flags] sx ih [OF ln [OF Some [unfolded a]] b(2) [OF Some [unfolded a]]] pat
        by (cases "s = []") (auto simp: plain_def)
    qed
  next
    case 5
    obtain d q where p: "p = d # q" using z 5 by (cases p) auto
    have "0 \<in> set q" if "d \<noteq> 0" using z 5 p that by simp
    moreover have "parse_pat flags (0 # q) = []" by (simp add: parse_pat.simps)
    ultimately show ?thesis unfolding pat x u v using 5 sx ih [of p x] ih [of q x] z pat p by (cases "s = []") auto
  qed
qed

section \<open>Property\<close>



end
