(* ===== verification/Shell.thy ===== *)
theory Shell
  imports Sysfile "HOL-Library.Sublist"
begin

text \<open>
  The parser of the shell, \<open>cmds/simple/sh.c\<close>: tokens, the recursive descent over the line, and the termination of its words in place.
  A pointer into the line is the rest of the line from there to \<open>es\<close>; the line itself has no NUL. Shown: parsing always
  ends, and every command tree written as a line is what the parser makes of the line.
\<close>

section \<open>Commands\<close>

text \<open>The structures \<open>execcmd\<close>, \<open>redircmd\<close>, \<open>pipecmd\<close>, \<open>listcmd\<close> and \<open>backcmd\<close>, over the type of words; the fields \<open>argv\<close> and \<open>eargv\<close>, \<open>file\<close> and \<open>efile\<close>
  hold the two ends of a word.\<close>

datatype 'w cmd =
    EXEC "'w list"
  | REDIR "'w cmd" 'w uint nat
  | PIPE "'w cmd" "'w cmd"
  | LIST "'w cmd" "'w cmd"
  | BACK "'w cmd"

definition MAXARGV :: nat where "MAXARGV = 10"
definition O_RDONLY :: uint where "O_RDONLY = 0"

section \<open>Tokens\<close>

definition NUL :: char where "NUL = CHR 0x00"
definition whitespace :: string where "whitespace = [CHR '' '', CHR 0x09, CHR 0x0D, CHR 0x0A, CHR 0x0B]"
definition symbols :: string where "symbols = ''<|>&;()''"

definition skip :: "string \<Rightarrow> string" where
  "skip s = dropWhile (\<lambda>c. c \<in> set whitespace) s"

definition word_char :: "char \<Rightarrow> bool" where
  "word_char c \<longleftrightarrow> c \<notin> set whitespace \<and> c \<notin> set symbols"

text \<open>The kind of the token, its two ends, and the new position.\<close>

type_synonym ptr = string

definition gettoken :: "ptr \<Rightarrow> char \<times> ptr \<times> ptr \<times> ptr" where
  "gettoken s =
     (let q = skip s;
          (ret, eq) =
            (case q of
               [] \<Rightarrow> (NUL, q)
             | c # r \<Rightarrow>
                 if c = NUL then (NUL, q)
                 else if c \<in> set ''|();&<'' then (c, r)
                 else if c = CHR ''>'' then (case r of d # r' \<Rightarrow> if d = CHR ''>'' then (CHR ''+'', r') else (c, r) | [] \<Rightarrow> (c, r))
                 else (CHR ''a'', dropWhile word_char q))
      in (ret, q, eq, skip eq))"

definition peek_tok :: "string \<Rightarrow> ptr \<Rightarrow> bool \<times> ptr" where
  "peek_tok toks s = (let s = skip s in (case s of [] \<Rightarrow> False | c # _ \<Rightarrow> c \<noteq> NUL \<and> c \<in> set toks, s))"

section \<open>Parsing\<close>

type_synonym word_ptr = "ptr \<times> ptr"
type_synonym redir = "word_ptr \<times> uint \<times> nat"

definition redir_of :: "char \<Rightarrow> word_ptr \<Rightarrow> redir" where
  "redir_of tok w =
     (if tok = CHR ''<'' then (w, O_RDONLY, 0)
      else if tok = CHR ''>'' then (w, O_WRONLY OR O_CREATE OR O_TRUNC, 1)
      else (w, O_WRONLY OR O_CREATE OR O_APPEND, 1))"

fun apply_redirs :: "'w cmd \<Rightarrow> ('w \<times> uint \<times> nat) list \<Rightarrow> 'w cmd" where
  "apply_redirs c [] = c"
| "apply_redirs c ((w, mode, fd) # rs) = apply_redirs (REDIR c w mode fd) rs"

text \<open>
  The loops and the recursion take fuel: the depth of the recursion, and the number of rounds of a loop, are bounded by the length
  of the line.
\<close>

fun parseredirs :: "nat \<Rightarrow> ptr \<Rightarrow> (redir list \<times> ptr) res" where
  "parseredirs 0 s = Hang"
| "parseredirs (Suc k) s =
     (case peek_tok ''<>'' s of
        (False, s) \<Rightarrow> Ok ([], s)
      | (True, s) \<Rightarrow>
          (case gettoken s of (tok, _, _, s) \<Rightarrow>
           case gettoken s of (t, q, eq, s) \<Rightarrow>
             if t \<noteq> CHR ''a'' then Panic ''missing file for redirection''
             else rbind (parseredirs k s) (\<lambda>(rs, s). Ok (redir_of tok (q, eq) # rs, s))))"

text \<open>The \<open>while\<close> of \<open>parseexec\<close>; the structure for the program is filled while redirections are already wrapped around it.\<close>

fun exec_loop :: "nat \<Rightarrow> word_ptr list \<Rightarrow> redir list \<Rightarrow> ptr \<Rightarrow> (word_ptr cmd \<times> ptr) res" where
  "exec_loop 0 args rs s = Hang"
| "exec_loop (Suc k) args rs s =
     (case peek_tok ''|)&;'' s of
        (True, s) \<Rightarrow> Ok (apply_redirs (EXEC args) rs, s)
      | (False, s) \<Rightarrow>
          (case gettoken s of (tok, q, eq, s) \<Rightarrow>
             if tok = NUL then Ok (apply_redirs (EXEC args) rs, s)
             else if tok \<noteq> CHR ''a'' then Panic ''syntax''
             else if length (args @ [(q, eq)]) \<ge> MAXARGV then Panic ''too many args''
             else rbind (parseredirs (Suc (length s)) s) (\<lambda>(rs', s). exec_loop k (args @ [(q, eq)]) (rs @ rs') s)))"

fun back_loop :: "nat \<Rightarrow> word_ptr cmd \<Rightarrow> ptr \<Rightarrow> (word_ptr cmd \<times> ptr) res" where
  "back_loop 0 c s = Hang"
| "back_loop (Suc k) c s =
     (case peek_tok ''&'' s of
        (False, s) \<Rightarrow> Ok (c, s)
      | (True, s) \<Rightarrow> (case gettoken s of (_, _, _, s) \<Rightarrow> back_loop k (BACK c) s))"

fun parseline :: "nat \<Rightarrow> ptr \<Rightarrow> (word_ptr cmd \<times> ptr) res"
  and parsepipe :: "nat \<Rightarrow> ptr \<Rightarrow> (word_ptr cmd \<times> ptr) res"
  and parseblock :: "nat \<Rightarrow> ptr \<Rightarrow> (word_ptr cmd \<times> ptr) res"
  and parseexec :: "nat \<Rightarrow> ptr \<Rightarrow> (word_ptr cmd \<times> ptr) res" where
  "parseline 0 s = Hang"
| "parseline (Suc k) s =
     rbind (parsepipe k s) (\<lambda>(c, s).
     rbind (back_loop (Suc (length s)) c s) (\<lambda>(c, s).
       case peek_tok '';'' s of
         (True, s) \<Rightarrow> (case gettoken s of (_, _, _, s) \<Rightarrow> rbind (parseline k s) (\<lambda>(d, s). Ok (LIST c d, s)))
       | (False, s) \<Rightarrow> Ok (c, s)))"
| "parsepipe 0 s = Hang"
| "parsepipe (Suc k) s =
     rbind (parseexec k s) (\<lambda>(c, s).
       case peek_tok ''|'' s of
         (True, s) \<Rightarrow> (case gettoken s of (_, _, _, s) \<Rightarrow> rbind (parsepipe k s) (\<lambda>(d, s). Ok (PIPE c d, s)))
       | (False, s) \<Rightarrow> Ok (c, s))"
| "parseblock 0 s = Hang"
| "parseblock (Suc k) s =
     (case peek_tok ''('' s of
        (False, s) \<Rightarrow> Panic ''parseblock''
      | (True, s) \<Rightarrow>
          (case gettoken s of (_, _, _, s) \<Rightarrow>
           rbind (parseline k s) (\<lambda>(c, s).
             case peek_tok '')'' s of
               (False, s) \<Rightarrow> Panic ''syntax - missing )''
             | (True, s) \<Rightarrow>
                 (case gettoken s of (_, _, _, s) \<Rightarrow>
                  rbind (parseredirs (Suc (length s)) s) (\<lambda>(rs, s). Ok (apply_redirs c rs, s))))))"
| "parseexec 0 s = Hang"
| "parseexec (Suc k) s =
     (case peek_tok ''('' s of
        (True, s) \<Rightarrow> parseblock k s
      | (False, s) \<Rightarrow>
          rbind (parseredirs (Suc (length s)) s) (\<lambda>(rs, s). exec_loop (Suc (length s)) [] rs s))"

text \<open>
  \<open>nulterminate\<close> stores a NUL at the end of every word of the tree: a pointer of \<open>n\<close> bytes before \<open>es\<close> is position \<open>length - n\<close> of the line,
  which has one byte more, its own NUL.
\<close>

definition put_nul :: "ptr \<Rightarrow> string \<Rightarrow> string" where
  "put_nul eq buf = buf[length buf - 1 - length eq := NUL]"

fun nulterminate :: "word_ptr cmd \<Rightarrow> string \<Rightarrow> string" where
  "nulterminate (EXEC args) buf = fold (\<lambda>(q, eq). put_nul eq) args buf"
| "nulterminate (REDIR c w mode fd) buf = put_nul (snd w) (nulterminate c buf)"
| "nulterminate (PIPE l r) buf = nulterminate r (nulterminate l buf)"
| "nulterminate (LIST l r) buf = nulterminate r (nulterminate l buf)"
| "nulterminate (BACK c) buf = nulterminate c buf"

definition parsecmd :: "string \<Rightarrow> (word_ptr cmd \<times> string) res" where
  "parsecmd line =
     rbind (parseline (4 * length line + 4) line) (\<lambda>(c, s).
       case peek_tok '''' s of (_, s) \<Rightarrow>
         if s \<noteq> [] then Panic ''syntax'' else Ok (c, nulterminate c (line @ [NUL])))"

text \<open>The string a pointer into the terminated line leads to.\<close>

definition read_ptr :: "string \<Rightarrow> ptr \<Rightarrow> string" where
  "read_ptr buf q = takeWhile (\<lambda>c. c \<noteq> NUL) (drop (length buf - 1 - length q) buf)"

declare parseredirs.simps(2) [simp del] exec_loop.simps(2) [simp del] back_loop.simps(2) [simp del]
  parseline.simps(2) [simp del] parsepipe.simps(2) [simp del] parseblock.simps(2) [simp del] parseexec.simps(2) [simp del]

section \<open>Tokens, peeked at and taken\<close>

lemma skip_skip [simp]: "skip (skip s) = skip s"
  by (simp add: skip_def)

lemma skip_suffix: "suffix (skip s) s"
  by (simp add: skip_def suffix_dropWhile)

lemma skip_Nil [simp]: "skip [] = []"
  by (simp add: skip_def)

lemma skip_Cons: "skip (c # s) = (if c \<in> set whitespace then skip s else c # s)"
  by (simp add: skip_def)

lemma peek_tok_skip [simp]: "peek_tok toks (skip s) = peek_tok toks s" "gettoken (skip s) = gettoken s"
  by (simp_all add: peek_tok_def gettoken_def)

definition starts :: "string \<Rightarrow> ptr \<Rightarrow> bool" where
  "starts toks s \<longleftrightarrow> (case skip s of [] \<Rightarrow> False | c # _ \<Rightarrow> c \<noteq> NUL \<and> c \<in> set toks)"

lemma peek_tok_eq: "peek_tok toks s = (starts toks s, skip s)"
  by (simp add: peek_tok_def starts_def Let_def)

text \<open>The ends of a word, and its text.\<close>

definition word_ok :: "ptr \<Rightarrow> word_ptr \<Rightarrow> bool" where
  "word_ok s w \<longleftrightarrow> suffix (fst w) s \<and> (\<exists>u. fst w = u @ snd w \<and> (\<forall>c \<in> set u. word_char c)) \<and> (snd w = [] \<or> \<not> word_char (hd (snd w)))"

definition word_text :: "word_ptr \<Rightarrow> string" where
  "word_text w = take (length (fst w) - length (snd w)) (fst w)"

lemma word_ok_suffix: "word_ok s' w \<Longrightarrow> suffix s' s \<Longrightarrow> word_ok s w"
  by (auto simp: word_ok_def intro: suffix_order.trans)

lemma dropWhile_hd: "dropWhile P q = [] \<or> \<not> P (hd (dropWhile P q))"
  by (meson hd_dropWhile)

lemma gettoken_suffix:
  assumes "gettoken s = (tok, q, eq, s')"
  shows "suffix s' s" "tok \<noteq> NUL \<Longrightarrow> length s' < length s" "tok = CHR ''a'' \<Longrightarrow> word_ok s (q, eq)"
proof -
  have q: "q = skip s" and s': "s' = skip eq" using assms by (auto simp: gettoken_def Let_def split: prod.splits)
  have "suffix eq q \<and> (tok \<noteq> NUL \<longrightarrow> length eq < length q) \<and> (tok = CHR ''a'' \<longrightarrow> word_ok q (q, eq))"
  proof (cases q)
    case Nil
    then show ?thesis using assms q by (auto simp: gettoken_def Let_def NUL_def)
  next
    case (Cons c r)
    have sk: "skip s = c # r" using Cons q by simp
    have ws: "c \<notin> set whitespace" using Cons q hd_dropWhile [of "\<lambda>c. c \<in> set whitespace" s] by (simp add: skip_def)
    consider "c = NUL" | "c \<noteq> NUL" "c \<in> set ''|();&<''" | "c = CHR ''>''" | "c \<noteq> NUL" "c \<notin> set ''|();&<''" "c \<noteq> CHR ''>''" by blast
    then show ?thesis
    proof cases
      case 4
      then have wc: "word_char c" using ws by (auto simp: word_char_def symbols_def)
      have e: "eq = dropWhile word_char q" using assms 4 unfolding gettoken_def sk Cons Let_def by auto
      then have "length eq \<le> length r" using Cons wc by (simp add: length_dropWhile_le)
      moreover have "suffix eq q" using e suffix_dropWhile by simp
      moreover have "q = takeWhile word_char q @ eq" "\<forall>c \<in> set (takeWhile word_char q). word_char c" using e by (auto dest: set_takeWhileD)
      then have "word_ok q (q, eq)" using e dropWhile_hd [of word_char q]
        unfolding word_ok_def by (intro conjI exI [of _ "takeWhile word_char q"]) simp_all
      ultimately show ?thesis using Cons by simp
    qed (use assms in \<open>auto simp: gettoken_def sk Cons Let_def NUL_def suffix_ConsI split: list.splits if_splits\<close>)
  qed
  then have r: "suffix eq q" "tok \<noteq> NUL \<Longrightarrow> length eq < length q" "tok = CHR ''a'' \<Longrightarrow> word_ok q (q, eq)" by auto
  have sq: "suffix q s" "suffix s' eq" using q s' skip_suffix by auto
  show "suffix s' s" using suffix_order.trans [OF sq(2) suffix_order.trans [OF r(1) sq(1)]] .
  show "length s' < length s" if "tok \<noteq> NUL" using r(2) [OF that] suffix_length_le [OF sq(1)] suffix_length_le [OF sq(2)] by simp
  show "word_ok s (q, eq)" if "tok = CHR ''a''" using r(3) [OF that] word_ok_suffix sq(1) by blast
qed

lemma gettoken_peeked: "starts toks s \<Longrightarrow> gettoken s = (tok, q, eq, s') \<Longrightarrow> tok \<noteq> NUL"
  by (auto simp: starts_def gettoken_def Let_def NUL_def split: list.splits if_splits)

section \<open>Parsing ends\<close>

text \<open>A routine that ends, at a later position, with a tree whose words lie in the line.\<close>

definition parses :: "ptr \<Rightarrow> ('a \<Rightarrow> word_ptr set) \<Rightarrow> ('a \<times> ptr) res \<Rightarrow> bool" where
  "parses s wds m \<longleftrightarrow> (case m of Ok (c, s') \<Rightarrow> suffix s' s \<and> (\<forall>w \<in> wds c. word_ok s w) | Panic _ \<Rightarrow> True | _ \<Rightarrow> False)"

lemma parses_simps [simp]:
  "parses s wds (Ok (c, s')) \<longleftrightarrow> suffix s' s \<and> (\<forall>w \<in> wds c. word_ok s w)" "parses s wds (Panic e)" "\<not> parses s wds Hang" "\<not> parses s wds Fault"
  by (simp_all add: parses_def)

lemma parses_bind:
  assumes "parses s w1 m" "\<And>c s'. suffix s' s \<Longrightarrow> \<forall>w \<in> w1 c. word_ok s w \<Longrightarrow> parses s wds (f (c, s'))"
  shows "parses s wds (rbind m f)"
  using assms by (cases m) auto

lemma parses_later: "parses s' wds m \<Longrightarrow> suffix s' s \<Longrightarrow> parses s wds m"
  by (auto simp: parses_def intro: suffix_order.trans word_ok_suffix split: res.splits)

abbreviation redir_words :: "redir list \<Rightarrow> word_ptr set" where
  "redir_words rs \<equiv> fst ` set rs"

lemma set_apply_redirs: "set_cmd (apply_redirs c rs) = set_cmd c \<union> fst ` set rs"
  by (induction c rs rule: apply_redirs.induct) auto

lemma fst_redir_of [simp]: "fst (redir_of tok w) = w"
  by (simp add: redir_of_def)

lemma suffix_skipI: "suffix s' s \<Longrightarrow> suffix (skip s') s"
  using skip_suffix suffix_order.trans by blast

lemma parseredirs_parses: "length s < k \<Longrightarrow> parses s redir_words (parseredirs k s)"
proof (induction k arbitrary: s)
  case (Suc k)
  obtain tok q eq s1 where g1: "gettoken s = (tok, q, eq, s1)" by (metis prod_cases4)
  obtain tok2 q2 eq2 s2 where g2: "gettoken s1 = (tok2, q2, eq2, s2)" by (metis prod_cases4)
  show ?case
  proof (cases "starts ''<>'' s \<and> tok2 = CHR ''a''")
    case True
    note t1 = gettoken_suffix [OF g1] and t2 = gettoken_suffix [OF g2]
    have l: "length s1 < length s" using t1(2) gettoken_peeked [OF _ g1] True by blast
    have sf: "suffix s2 s" using t1(1) t2(1) by (rule suffix_order.trans [rotated])
    have "length s2 < k" using l Suc.prems suffix_length_le [OF t2(1)] by simp
    from parses_later [OF Suc.IH [OF this] sf] have "parses s redir_words (parseredirs k s2)" .
    moreover have "word_ok s (q2, eq2)" using t2(3) True word_ok_suffix t1(1) by blast
    ultimately have "parses s redir_words (rbind (parseredirs k s2) (\<lambda>(rs, s). Ok (redir_of tok (q2, eq2) # rs, s)))"
      by (rule_tac parses_bind) auto
    then show ?thesis using True g1 g2 by (simp add: parseredirs.simps(2) peek_tok_eq)
  qed (use g1 g2 skip_suffix in \<open>auto simp: parseredirs.simps(2) peek_tok_eq split: bool.splits\<close>)
qed simp

lemma exec_loop_parses:
  assumes "length s < k" "\<forall>w \<in> set args \<union> redir_words rs. word_ok t w" "suffix s t"
  shows "parses t set_cmd (exec_loop k args rs s)"
  using assms
proof (induction k arbitrary: s args rs)
  case (Suc k)
  obtain tok q eq s1 where g: "gettoken s = (tok, q, eq, s1)" by (metis prod_cases4)
  note G = gettoken_suffix [OF g]
  have sf: "suffix s1 t" using G(1) Suc.prems(3) by (rule suffix_order.trans)
  show ?case
  proof (cases "starts ''|)&;'' s \<or> tok = NUL \<or> tok \<noteq> CHR ''a'' \<or> length (args @ [(q, eq)]) \<ge> MAXARGV")
    case True
    then show ?thesis using Suc.prems g sf suffix_skipI [OF Suc.prems(3)]
      by (auto simp: exec_loop.simps(2) peek_tok_eq set_apply_redirs split: bool.splits)
  next
    case False
    have wq: "word_ok t (q, eq)" using G(3) False word_ok_suffix Suc.prems(3) by blast
    have ls: "length s1 < k" using G(2) False Suc.prems(1) by simp
    have p: "parses s1 redir_words (parseredirs (Suc (length s1)) s1)" by (rule parseredirs_parses) simp
    have "parses t set_cmd (rbind (parseredirs (Suc (length s1)) s1) (\<lambda>(rs', s). exec_loop k (args @ [(q, eq)]) (rs @ rs') s))"
    proof (cases "parseredirs (Suc (length s1)) s1")
      case (Ok r)
      obtain rs' s2 where r: "r = (rs', s2)" by fastforce
      then have s2: "suffix s2 s1" "\<forall>w \<in> redir_words rs'. word_ok s1 w" using p Ok by auto
      have "length s2 < k" using ls suffix_length_le [OF s2(1)] by simp
      moreover have "\<forall>w \<in> set (args @ [(q, eq)]) \<union> redir_words (rs @ rs'). word_ok t w"
        using Suc.prems(2) wq s2(2) word_ok_suffix [OF _ sf] by auto
      moreover have "suffix s2 t" using s2(1) sf by (rule suffix_order.trans)
      ultimately have "parses t set_cmd (exec_loop k (args @ [(q, eq)]) (rs @ rs') s2)" by (rule Suc.IH)
      then show ?thesis using Ok r by simp
    qed (use p in auto)
    then show ?thesis using False g by (simp add: exec_loop.simps(2) peek_tok_eq)
  qed
qed simp

lemma back_loop_parses:
  assumes "length s < k" "\<forall>w \<in> set_cmd c. word_ok t w" "suffix s t"
  shows "parses t set_cmd (back_loop k c s)"
  using assms
proof (induction k arbitrary: s c)
  case (Suc k)
  obtain tok q eq s1 where g: "gettoken s = (tok, q, eq, s1)" by (metis prod_cases4)
  note G = gettoken_suffix [OF g]
  show ?case
  proof (cases "starts ''&'' s")
    case True
    then have "length s1 < k" using G(2) gettoken_peeked [OF True g] Suc.prems(1) by simp
    then have "parses t set_cmd (back_loop k (BACK c) s1)"
      using Suc.IH [of s1 "BACK c"] Suc.prems suffix_order.trans [OF G(1) Suc.prems(3)] by simp
    then show ?thesis using True g by (simp add: back_loop.simps(2) peek_tok_eq)
  qed (use Suc.prems suffix_skipI [OF Suc.prems(3)] in \<open>simp add: back_loop.simps(2) peek_tok_eq\<close>)
qed simp

text \<open>A symbol that is there is taken.\<close>

lemma take_symbol:
  assumes "starts toks s" "suffix s t"
  obtains tok q eq s' where "gettoken s = (tok, q, eq, s')" "suffix s' t" "length s' < length s"
proof -
  obtain tok q eq s' where g: "gettoken s = (tok, q, eq, s')" by (metis prod_cases4)
  note G = gettoken_suffix [OF g]
  show thesis using that [OF g] suffix_order.trans [OF G(1) assms(2)] G(2) gettoken_peeked [OF assms(1) g] by blast
qed

lemma parses_node:
  assumes "parses s' set_cmd m" "suffix s' s" "\<forall>w \<in> set_cmd c. word_ok s w" "\<And>d. set_cmd (node c d) \<subseteq> set_cmd c \<union> set_cmd d"
  shows "parses s set_cmd (rbind m (\<lambda>(d, s). Ok (node c d, s)))"
  using parses_later [OF assms(1,2)] by (rule parses_bind) (use assms(3,4) in auto)

lemma parse_parses:
  "(4 * length s + 4 \<le> k \<longrightarrow> parses s set_cmd (parseline k s)) \<and> (4 * length s + 3 \<le> k \<longrightarrow> parses s set_cmd (parsepipe k s)) \<and>
   (4 * length s + 1 \<le> k \<longrightarrow> parses s set_cmd (parseblock k s)) \<and> (4 * length s + 2 \<le> k \<longrightarrow> parses s set_cmd (parseexec k s))"
proof (induction k arbitrary: s)
  case (Suc k)
  have line: "parses s set_cmd (parseline (Suc k) s)" if k: "4 * length s + 4 \<le> Suc k"
  proof -
    have "parses s set_cmd (parsepipe k s)" using Suc k by simp
    moreover have "parses s set_cmd (rbind (back_loop (Suc (length s1)) c s1) (\<lambda>(c, s).
          case peek_tok '';'' s of (True, s) \<Rightarrow> (case gettoken s of (_, _, _, s) \<Rightarrow> rbind (parseline k s) (\<lambda>(d, s). Ok (LIST c d, s))) | (False, s) \<Rightarrow> Ok (c, s)))"
      if s1: "suffix s1 s" "\<forall>w \<in> set_cmd c. word_ok s w" for c s1
    proof (rule parses_bind)
      show "parses s set_cmd (back_loop (Suc (length s1)) c s1)" by (rule back_loop_parses) (use s1 in auto)
    next
      fix d s2 assume s2: "suffix s2 s" "\<forall>w \<in> set_cmd d. word_ok s w"
      show "parses s set_cmd (case (d, s2) of (c, s) \<Rightarrow>
          case peek_tok '';'' s of (True, s) \<Rightarrow> (case gettoken s of (_, _, _, s) \<Rightarrow> rbind (parseline k s) (\<lambda>(d, s). Ok (LIST c d, s))) | (False, s) \<Rightarrow> Ok (c, s))"
      proof (cases "starts '';'' s2")
        case True
        then obtain tok q eq s3 where g: "gettoken s2 = (tok, q, eq, s3)" "suffix s3 s" "length s3 < length s2" using take_symbol s2(1) by blast
        then have "parses s3 set_cmd (parseline k s3)" using Suc k suffix_length_le [OF s2(1)] by simp
        from parses_node [OF this g(2) s2(2), of LIST] True g show ?thesis by (simp add: peek_tok_eq)
      qed (use s2 suffix_skipI in \<open>simp add: peek_tok_eq\<close>)
    qed
    ultimately show ?thesis unfolding parseline.simps(2) by (rule_tac parses_bind) auto
  qed
  have pipe: "parses s set_cmd (parsepipe (Suc k) s)" if k: "4 * length s + 3 \<le> Suc k"
  proof -
    have "parses s set_cmd (parseexec k s)" using Suc k by simp
    moreover have "parses s set_cmd (case peek_tok ''|'' s2 of
        (True, s) \<Rightarrow> (case gettoken s of (_, _, _, s) \<Rightarrow> rbind (parsepipe k s) (\<lambda>(d, s). Ok (PIPE c d, s))) | (False, s) \<Rightarrow> Ok (c, s))"
      if s2: "suffix s2 s" "\<forall>w \<in> set_cmd c. word_ok s w" for c s2
    proof (cases "starts ''|'' s2")
      case True
      then obtain tok q eq s3 where g: "gettoken s2 = (tok, q, eq, s3)" "suffix s3 s" "length s3 < length s2" using take_symbol s2(1) by blast
      then have "parses s3 set_cmd (parsepipe k s3)" using Suc k suffix_length_le [OF s2(1)] by simp
      from parses_node [OF this g(2) s2(2), of PIPE] True g show ?thesis by (simp add: peek_tok_eq)
    qed (use s2 suffix_skipI in \<open>simp add: peek_tok_eq\<close>)
    ultimately show ?thesis unfolding parsepipe.simps(2) by (rule_tac parses_bind) auto
  qed
  have block: "parses s set_cmd (parseblock (Suc k) s)" if k: "4 * length s + 1 \<le> Suc k"
  proof (cases "starts ''('' s")
    case True
    then obtain tok q eq s1 where g: "gettoken s = (tok, q, eq, s1)" "suffix s1 s" "length s1 < length s" using take_symbol by blast
    then have "parses s1 set_cmd (parseline k s1)" using Suc k by simp
    from parses_later [OF this g(2)] have "parses s set_cmd (rbind (parseline k s1) (\<lambda>(c, s).
        case peek_tok '')'' s of (False, s) \<Rightarrow> Panic ''syntax - missing )''
        | (True, s) \<Rightarrow> (case gettoken s of (_, _, _, s) \<Rightarrow> rbind (parseredirs (Suc (length s)) s) (\<lambda>(rs, s). Ok (apply_redirs c rs, s)))))"
    proof (rule parses_bind)
      fix c s2 assume s2: "suffix s2 s" "\<forall>w \<in> set_cmd c. word_ok s w"
      show "parses s set_cmd (case (c, s2) of (c, s) \<Rightarrow> case peek_tok '')'' s of (False, s) \<Rightarrow> Panic ''syntax - missing )''
        | (True, s) \<Rightarrow> (case gettoken s of (_, _, _, s) \<Rightarrow> rbind (parseredirs (Suc (length s)) s) (\<lambda>(rs, s). Ok (apply_redirs c rs, s))))"
      proof (cases "starts '')'' s2")
        case True
        then obtain tok q eq s3 where g: "gettoken s2 = (tok, q, eq, s3)" "suffix s3 s" "length s3 < length s2" using take_symbol s2(1) by blast
        have "parses s redir_words (parseredirs (Suc (length s3)) s3)" by (rule parses_later [OF parseredirs_parses g(2)]) simp
        then have "parses s set_cmd (rbind (parseredirs (Suc (length s3)) s3) (\<lambda>(rs, s). Ok (apply_redirs c rs, s)))"
          by (rule parses_bind) (use s2(2) in \<open>auto simp: set_apply_redirs\<close>)
        then show ?thesis using True g by (simp add: peek_tok_eq)
      qed (simp add: peek_tok_eq)
    qed
    then show ?thesis using True g by (simp add: parseblock.simps(2) peek_tok_eq)
  qed (simp add: parseblock.simps(2) peek_tok_eq)
  have exec: "parses s set_cmd (parseexec (Suc k) s)" if k: "4 * length s + 2 \<le> Suc k"
  proof (cases "starts ''('' s")
    case True
    have "parses (skip s) set_cmd (parseblock k (skip s))" using Suc k suffix_length_le [OF skip_suffix [of s]] by simp
    from parses_later [OF this skip_suffix] True show ?thesis by (simp add: parseexec.simps(2) peek_tok_eq)
  next
    case False
    have "parses s redir_words (parseredirs (Suc (length (skip s))) (skip s))" by (rule parses_later [OF parseredirs_parses skip_suffix]) simp
    then have "parses s set_cmd (rbind (parseredirs (Suc (length (skip s))) (skip s)) (\<lambda>(rs, s). exec_loop (Suc (length s)) [] rs s))"
      by (rule parses_bind) (simp add: exec_loop_parses)
    then show ?thesis using False by (simp add: parseexec.simps(2) peek_tok_eq)
  qed
  show ?case using line pipe block exec by blast
qed simp

section \<open>Words are terminated\<close>

definition nul_at :: "word_ptr set \<Rightarrow> string \<Rightarrow> string \<Rightarrow> bool" where
  "nul_at W buf buf' \<longleftrightarrow> length buf' = length buf \<and>
     (\<forall>i < length buf. buf' ! i = (if i \<in> (\<lambda>w. length buf - 1 - length (snd w)) ` W then NUL else buf ! i))"

lemma nul_at_empty: "nul_at {} buf buf"
  by (simp add: nul_at_def)

lemma nul_at_trans: "nul_at V buf b \<Longrightarrow> nul_at W b c \<Longrightarrow> nul_at (V \<union> W) buf c"
  by (simp add: nul_at_def image_Un)

lemma nul_at_put: "nul_at {w} buf (put_nul (snd w) buf)"
  by (auto simp: nul_at_def put_nul_def nth_list_update)

lemma nul_at_args: "nul_at (set args) buf (fold (\<lambda>(q, eq). put_nul eq) args buf)"
proof (induction args arbitrary: buf)
  case (Cons w args)
  have "nul_at ({w} \<union> set args) buf (fold (\<lambda>(q, eq). put_nul eq) args (put_nul (snd w) buf))"
    by (rule nul_at_trans [OF nul_at_put Cons])
  then show ?case by (simp add: case_prod_unfold)
qed (simp add: nul_at_empty)

lemma nul_at_nulterminate: "nul_at (set_cmd c) buf (nulterminate c buf)"
proof (induction c arbitrary: buf)
  case (REDIR c w mode fd)
  then show ?case using nul_at_trans [OF REDIR nul_at_put [of w]] by (simp add: Un_commute)
next
  case (PIPE l r)
  then show ?case using nul_at_trans by simp blast
next
  case (LIST l r)
  then show ?case using nul_at_trans by simp blast
qed (auto simp: nul_at_args)

lemma takeWhile_read:
  assumes "i + length u < length buf" "\<And>j. j < length u \<Longrightarrow> buf ! (i + j) = u ! j" "NUL \<notin> set u" "buf ! (i + length u) = NUL"
  shows "takeWhile (\<lambda>c. c \<noteq> NUL) (drop i buf) = u"
proof -
  have "take (length u) (drop i buf) = u" using assms(1,2) by (intro nth_equalityI) auto
  then have "drop i buf = u @ drop (i + length u) buf" by (metis append_take_drop_id drop_drop add.commute)
  also have "drop (i + length u) buf = NUL # drop (Suc (i + length u)) buf" using assms(1,4) by (simp add: Cons_nth_drop_Suc [symmetric])
  finally show ?thesis using assms(3) by (simp add: takeWhile_append takeWhile_eq_all_conv)
qed

text \<open>Every word of the tree, read as a C string from the terminated line, is the word of the line.\<close>

lemma read_words:
  assumes W: "\<And>w. w \<in> W \<Longrightarrow> word_ok line w" and n: "nul_at W (line @ [NUL]) buf" and nul: "NUL \<notin> set line" and w: "w \<in> W"
  shows "read_ptr buf (fst w) = word_text w"
proof -
  obtain pre u where u: "line = pre @ fst w" "fst w = u @ snd w" "\<forall>c \<in> set u. word_char c"
    using W [OF w] by (auto simp: word_ok_def suffix_def)
  have len: "length buf = Suc (length line)" using n by (simp add: nul_at_def)
  have end_not_word: "\<not> word_char (line ! (length line - length (snd v)))" if v: "v \<in> W" "snd v \<noteq> []" for v
  proof -
    obtain pre' u' where "line = pre' @ u' @ snd v" using W [OF v(1)] by (auto simp: word_ok_def suffix_def)
    moreover have "\<not> word_char (hd (snd v))" using W [OF v(1)] v(2) by (simp add: word_ok_def)
    ultimately show ?thesis using v(2) by (simp add: nth_append hd_conv_nth)
  qed
  have at: "buf ! i = (if i \<in> (\<lambda>v. length line - length (snd v)) ` W then NUL else (line @ [NUL]) ! i)" if "i < Suc (length line)" for i
    using n that by (simp add: nul_at_def)
  have "takeWhile (\<lambda>c. c \<noteq> NUL) (drop (length pre) buf) = u"
  proof (rule takeWhile_read)
    show "length pre + length u < length buf" using len u by simp
    show "NUL \<notin> set u" using nul u by auto
    have "length pre + length u = length line - length (snd w)" using u by simp
    then show "buf ! (length pre + length u) = NUL" using at w u by force
    fix j assume j: "j < length u"
    have c: "line ! (length pre + j) = u ! j" using j u by (simp add: nth_append)
    have "length pre + j \<notin> (\<lambda>v. length line - length (snd v)) ` W"
    proof
      assume "length pre + j \<in> (\<lambda>v. length line - length (snd v)) ` W"
      then obtain v where v: "v \<in> W" "length pre + j = length line - length (snd v)" by blast
      have "snd v \<noteq> []" using v(2) j u by auto
      then have "\<not> word_char (u ! j)" using end_not_word [OF v(1)] v(2) c by simp
      then show False using u(3) j by simp
    qed
    then show "buf ! (length pre + j) = u ! j" using at [of "length pre + j"] c j u by (simp add: nth_append)
  qed
  then show ?thesis using len u by (simp add: read_ptr_def word_text_def)
qed

section \<open>Writing commands\<close>

text \<open>
  A tree over words, written as a line: parentheses where a command stands in a place where the grammar wants a simpler one. The
  places are a line (0), what a list joins (1), what goes to the background (2) and what a pipe joins (3).
\<close>

definition show_words :: "string list \<Rightarrow> string" where
  "show_words ws = concat (map (\<lambda>w. '' '' @ w) ws)"

definition show_redir :: "string \<times> uint \<times> nat \<Rightarrow> string" where
  "show_redir r = (case r of (w, mode, fd) \<Rightarrow>
     (if mode = O_RDONLY then ''<'' else if mode = O_WRONLY OR O_CREATE OR O_TRUNC then ''>'' else ''>>'') @ w)"

definition show_redirs :: "(string \<times> uint \<times> nat) list \<Rightarrow> string" where
  "show_redirs rs = concat (map show_redir rs)"

definition paren :: "bool \<Rightarrow> string \<Rightarrow> string" where
  "paren b s = (if b then ''('' @ s @ '')'' else s)"

fun show_cmd :: "nat \<Rightarrow> string cmd \<Rightarrow> string" where
  "show_cmd n (EXEC args) = show_words args"
| "show_cmd n (REDIR c w mode fd) = show_cmd 3 c @ show_redir (w, mode, fd)"
| "show_cmd n (PIPE l r) = paren (n > 2) (show_cmd 3 l @ ''|'' @ show_cmd 2 r)"
| "show_cmd n (LIST l r) = paren (n > 0) (show_cmd 1 l @ '';'' @ show_cmd 0 r)"
| "show_cmd n (BACK c) = paren (n > 1) (show_cmd 1 c @ ''&'')"

text \<open>The trees the shell can be given: words without spaces and symbols, fewer than \<open>MAXARGS\<close> arguments, and the three redirections.\<close>

definition is_word :: "string \<Rightarrow> bool" where
  "is_word w \<longleftrightarrow> w \<noteq> [] \<and> NUL \<notin> set w \<and> (\<forall>c \<in> set w. word_char c)"

definition redir_ok :: "string \<times> uint \<times> nat \<Rightarrow> bool" where
  "redir_ok r = (case r of (w, mode, fd) \<Rightarrow>
     is_word w \<and> (mode, fd) \<in> {(O_RDONLY, 0), (O_WRONLY OR O_CREATE OR O_TRUNC, 1), (O_WRONLY OR O_CREATE OR O_APPEND, 1)})"

fun valid :: "string cmd \<Rightarrow> bool" where
  "valid (EXEC args) \<longleftrightarrow> length args < MAXARGV \<and> (\<forall>w \<in> set args. is_word w)"
| "valid (REDIR c w mode fd) \<longleftrightarrow> valid c \<and> redir_ok (w, mode, fd)"
| "valid (PIPE l r) \<longleftrightarrow> valid l \<and> valid r"
| "valid (LIST l r) \<longleftrightarrow> valid l \<and> valid r"
| "valid (BACK c) \<longleftrightarrow> valid c"

section \<open>Reading back\<close>

definition stops :: "string \<Rightarrow> ptr \<Rightarrow> bool" where
  "stops toks s \<longleftrightarrow> skip s = [] \<or> starts toks s"

lemma parse_skip [simp]: "parseredirs k (skip s) = parseredirs k s" "exec_loop k args rs (skip s) = exec_loop k args rs s" "back_loop k c (skip s) = back_loop k c s"
  by (cases k; simp add: parseredirs.simps(2) exec_loop.simps(2) back_loop.simps(2))+

lemma parse_skip_line [simp]: "parseexec k (skip s) = parseexec k s" "parsepipe k (skip s) = parsepipe k s" "parseline k (skip s) = parseline k s"
proof -
  show e: "parseexec k (skip s) = parseexec k s" for k by (cases k) (simp_all add: parseexec.simps(2))
  show p: "parsepipe k (skip s) = parsepipe k s" for k by (cases k) (simp_all add: parsepipe.simps(2) e)
  show "parseline k (skip s) = parseline k s" by (cases k) (simp_all add: parseline.simps(2) p)
qed

lemma gettoken_symbol:
  assumes "c \<in> set ''|();&<''"
  shows "gettoken (c # r) = (c, c # r, r, skip r)"
proof -
  have "c \<notin> set whitespace" "c \<noteq> NUL" using assms by (auto simp: whitespace_def NUL_def)
  with assms show ?thesis unfolding gettoken_def skip_Cons Let_def by (simp only: if_False if_True list.case prod.case)
qed

lemma gettoken_word:
  assumes "is_word w" "r = [] \<or> \<not> word_char (hd r)"
  shows "gettoken (w @ r) = (CHR ''a'', w @ r, r, skip r)" "skip (w @ r) = w @ r" "toks \<subseteq> set symbols \<Longrightarrow> hd w \<notin> toks"
proof -
  obtain c u where w: "w = c # u" using assms(1) by (cases w) (auto simp: is_word_def)
  have c: "word_char c" "c \<noteq> NUL" using assms(1) w by (auto simp: is_word_def)
  then show sk: "skip (w @ r) = w @ r" using w by (simp add: skip_Cons word_char_def)
  show "toks \<subseteq> set symbols \<Longrightarrow> hd w \<notin> toks" using c w by (auto simp: word_char_def)
  have "dropWhile word_char (w @ r) = r" using assms by (cases r) (auto simp: is_word_def dropWhile_append)
  moreover have "c \<notin> set ''|();&<''" "c \<noteq> CHR ''>''" using c by (auto simp: word_char_def symbols_def)
  ultimately show "gettoken (w @ r) = (CHR ''a'', w @ r, r, skip r)" using sk c w by (auto simp: gettoken_def Let_def)
qed

lemma stops_delim: "stops toks r \<Longrightarrow> set toks \<subseteq> set symbols \<Longrightarrow> r = [] \<or> \<not> word_char (hd r)"
  by (cases r) (auto simp: stops_def starts_def skip_Cons word_char_def split: if_splits)

lemma starts_disjoint: "stops toks r \<Longrightarrow> set toks \<inter> set toks' = {} \<Longrightarrow> \<not> starts toks' r"
  by (auto simp: stops_def starts_def split: list.splits)

lemma stops_mono: "stops toks r \<Longrightarrow> set toks \<subseteq> set toks' \<Longrightarrow> stops toks' r"
  by (auto simp: stops_def starts_def split: list.splits)

lemma starts_symbol: "c \<in> set symbols \<Longrightarrow> starts toks (c # r) \<longleftrightarrow> c \<in> set toks" "c \<in> set symbols \<Longrightarrow> skip (c # r) = c # r"
  by (auto simp: starts_def skip_Cons symbols_def whitespace_def NUL_def)

abbreviation cmd_end :: string where "cmd_end \<equiv> ''|)&;''"

lemma cmd_end_symbols: "set cmd_end \<subseteq> set symbols" "set cmd_end \<inter> set ''<>'' = {}" "set cmd_end \<inter> set ''('' = {}"
  by (auto simp: symbols_def)

lemma delim_redirs: "stops cmd_end r \<Longrightarrow> show_redirs rs @ r = [] \<or> \<not> word_char (hd (show_redirs rs @ r))"
  using stops_delim [OF _ cmd_end_symbols(1)]
  by (cases rs) (auto simp: show_redirs_def show_redir_def word_char_def symbols_def split: prod.splits)

lemma delim_words: "stops cmd_end r \<Longrightarrow> show_words ws @ show_redirs rs @ r = [] \<or> \<not> word_char (hd (show_words ws @ show_redirs rs @ r))"
  using delim_redirs by (cases ws) (auto simp: show_words_def word_char_def whitespace_def)

lemma word_not_starts:
  assumes "is_word w" "set toks \<subseteq> set symbols"
  shows "\<not> starts toks ('' '' @ w @ r)" "\<not> starts toks (w @ r)"
proof -
  obtain c u where w: "w = c # u" using assms(1) by (cases w) (auto simp: is_word_def)
  then have "word_char c" using assms(1) by (simp add: is_word_def)
  then show "\<not> starts toks (w @ r)" "\<not> starts toks ('' '' @ w @ r)" using assms(2) w
    by (auto simp: starts_def skip_Cons word_char_def whitespace_def)
qed

lemma gettoken_space_word: "is_word w \<Longrightarrow> r = [] \<or> \<not> word_char (hd r) \<Longrightarrow> gettoken ('' '' @ w @ r) = (CHR ''a'', w @ r, r, skip r)"
  using gettoken_word(1) [of w r] peek_tok_skip(2) [of "'' '' @ w @ r"] peek_tok_skip(2) [of "w @ r"] by (simp add: skip_Cons whitespace_def)

lemma word_text_append [simp]: "word_text (w @ r, r) = w"
  by (simp add: word_text_def)

text \<open>The sign of a redirection.\<close>

lemma redir_sign:
  assumes "redir_ok (w, mode, fd)" "r = [] \<or> \<not> word_char (hd r)"
  obtains tok q eq where "gettoken (show_redir (w, mode, fd) @ r) = (tok, q, eq, w @ r)" "starts ''<>'' (show_redir (w, mode, fd) @ r)"
    "redir_of tok p = (p, mode, fd)"
proof -
  have w: "is_word w" using assms(1) by (simp add: redir_ok_def)
  then obtain c u where cu: "w = c # u" "c \<noteq> CHR ''>''" "c \<notin> set whitespace"
    by (cases w) (auto simp: is_word_def word_char_def symbols_def)
  have g: "gettoken (CHR ''>'' # w @ r) = (CHR ''>'', CHR ''>'' # w @ r, w @ r, w @ r)"
      "gettoken (CHR ''>'' # CHR ''>'' # w @ r) = (CHR ''+'', CHR ''>'' # CHR ''>'' # w @ r, w @ r, w @ r)"
    using cu by (simp_all add: gettoken_def skip_Cons whitespace_def NUL_def)
  have l: "gettoken (CHR ''<'' # w @ r) = (CHR ''<'', CHR ''<'' # w @ r, w @ r, w @ r)"
    using gettoken_symbol [of "CHR ''<''" "w @ r"] cu by (simp add: skip_Cons)
  have m: "mode = O_RDONLY \<and> fd = 0 \<or> mode = O_WRONLY OR O_CREATE OR O_TRUNC \<and> fd = 1 \<or> mode = O_WRONLY OR O_CREATE OR O_APPEND \<and> fd = 1"
    using assms(1) by (auto simp: redir_ok_def)
  have d: "O_WRONLY OR O_CREATE OR O_TRUNC \<noteq> O_RDONLY" "O_WRONLY OR O_CREATE OR O_APPEND \<noteq> O_RDONLY" "O_WRONLY OR O_CREATE OR O_APPEND \<noteq> O_WRONLY OR O_CREATE OR O_TRUNC"
    by (simp_all add: O_WRONLY_def O_CREATE_def O_TRUNC_def O_APPEND_def O_RDONLY_def)
  have st: "starts ''<>'' (CHR ''<'' # x)" "starts ''<>'' (CHR ''>'' # x)" for x by (simp_all add: starts_symbol symbols_def)
  from m show thesis
  proof (elim disjE conjE)
    assume "mode = O_RDONLY" "fd = 0"
    then show thesis using that [of "CHR ''<''"] l st by (simp add: show_redir_def redir_of_def)
  next
    assume "mode = O_WRONLY OR O_CREATE OR O_TRUNC" "fd = 1"
    then show thesis using that [of "CHR ''>''"] g(1) st d by (simp add: show_redir_def redir_of_def)
  next
    assume "mode = O_WRONLY OR O_CREATE OR O_APPEND" "fd = 1"
    then show thesis using that [of "CHR ''+''"] g(2) st d by (simp add: show_redir_def redir_of_def)
  qed
qed

lemma parseredirs_show:
  assumes "\<forall>r \<in> set rs. redir_ok r" "stops cmd_end rest" "length rs < k"
  shows "\<exists>ps. parseredirs k (show_redirs rs @ rest) = Ok (ps, skip rest) \<and> map (apfst word_text) ps = rs"
  using assms
proof (induction rs arbitrary: k)
  case Nil
  then obtain k' where "k = Suc k'" by (cases k) auto
  then show ?case using starts_disjoint [OF assms(2) cmd_end_symbols(2)] by (simp add: show_redirs_def parseredirs.simps(2) peek_tok_eq)
next
  case (Cons r rs)
  obtain w mode fd where r: "r = (w, mode, fd)" by (cases r)
  obtain k' where k: "k = Suc k'" "length rs < k'" using Cons.prems(3) by (cases k) auto
  let ?t = "show_redirs rs @ rest"
  have d: "?t = [] \<or> \<not> word_char (hd ?t)" using delim_redirs [OF assms(2)] .
  have ok: "redir_ok (w, mode, fd)" "is_word w" using Cons.prems(1) r by (auto simp: redir_ok_def)
  obtain tok q eq where s: "gettoken (show_redir r @ ?t) = (tok, q, eq, w @ ?t)" "starts ''<>'' (show_redir r @ ?t)" "redir_of tok (w @ ?t, ?t) = ((w @ ?t, ?t), mode, fd)"
    using redir_sign [OF ok(1) d, of "(w @ ?t, ?t)"] r by metis
  obtain ps where ps: "parseredirs k' ?t = Ok (ps, skip rest)" "map (apfst word_text) ps = rs" using Cons.IH [OF _ assms(2) k(2)] Cons.prems(1) by auto
  have e: "show_redirs (r # rs) @ rest = show_redir r @ ?t" by (simp add: show_redirs_def)
  have "parseredirs k (show_redirs (r # rs) @ rest) = Ok (((w @ ?t, ?t), mode, fd) # ps, skip rest)"
    unfolding e k(1) parseredirs.simps(2) peek_tok_eq using s ps(1) gettoken_word(1) [OF ok(2) d] by simp
  then show ?case using ps(2) r by simp
qed

lemma map_apply_redirs: "map_cmd f (apply_redirs c ps) = apply_redirs (map_cmd f c) (map (apfst f) ps)"
  by (induction c ps rule: apply_redirs.induct) auto

lemma exec_loop_stop:
  assumes "stops cmd_end rest" "0 < k"
  shows "exec_loop k args ps rest = Ok (apply_redirs (EXEC args) ps, skip rest)"
proof -
  obtain k' where k: "k = Suc k'" using assms(2) by (cases k) auto
  show ?thesis
  proof (cases "starts cmd_end rest")
    case True
    then show ?thesis by (simp add: k exec_loop.simps(2) peek_tok_eq)
  next
    case False
    then have "skip rest = []" using assms(1) by (simp add: stops_def)
    moreover have "gettoken [] = (NUL, [], [], [])" by (simp add: gettoken_def)
    ultimately show ?thesis using False by (simp add: k exec_loop.simps(2) peek_tok_eq)
  qed
qed

lemma redirs_fuel: "length rs < Suc (length (skip (show_redirs rs @ rest)))"
proof (cases "rs = []")
  case False
  then have "skip (show_redirs rs @ rest) = show_redirs rs @ rest"
    by (cases rs) (auto simp: show_redirs_def show_redir_def skip_Cons whitespace_def split: prod.splits)
  moreover have "length rs \<le> length (show_redirs rs)"
    by (induction rs) (auto simp: show_redirs_def show_redir_def split: prod.splits)
  ultimately show ?thesis by simp
qed simp

lemma show_not_block: "\<forall>w \<in> set ws. is_word w \<Longrightarrow> stops cmd_end rest \<Longrightarrow> \<not> starts ''('' (show_words ws @ show_redirs rs @ rest)"
proof (cases ws)
  case Nil
  assume "stops cmd_end rest"
  then show ?thesis using Nil starts_disjoint [OF _ cmd_end_symbols(3)]
    by (cases rs) (auto simp: show_words_def show_redirs_def show_redir_def starts_symbol symbols_def split: prod.splits)
next
  case (Cons w vs)
  assume "\<forall>w \<in> set ws. is_word w"
  then show ?thesis using word_not_starts(1) [of w "''(''" "show_words vs @ show_redirs rs @ rest"] Cons by (simp add: show_words_def symbols_def)
qed

lemma exec_loop_words:
  assumes "\<forall>w \<in> set ws. is_word w" "\<forall>r \<in> set rs. redir_ok r" "stops cmd_end rest" "length ws < k" "length args + length ws < MAXARGV" "ws \<noteq> [] \<or> rs = []"
  shows "\<exists>c. exec_loop k args ps (show_words ws @ show_redirs rs @ rest) = Ok (c, skip rest) \<and>
    map_cmd word_text c = apply_redirs (EXEC (map word_text args @ ws)) (map (apfst word_text) ps @ rs)"
  using assms
proof (induction ws arbitrary: k args ps)
  case Nil
  then show ?case using exec_loop_stop [OF assms(3), of k args ps] by (simp add: show_words_def show_redirs_def map_apply_redirs)
next
  case (Cons w ws)
  obtain k' where k: "k = Suc k'" "length ws < k'" using Cons.prems(4) by (cases k) auto
  let ?t = "show_words ws @ show_redirs rs @ rest"
  have w: "is_word w" using Cons.prems(1) by simp
  have e: "show_words (w # ws) @ show_redirs rs @ rest = '' '' @ w @ ?t" by (simp add: show_words_def)
  have g: "gettoken ('' '' @ w @ ?t) = (CHR ''a'', w @ ?t, ?t, skip ?t)" by (rule gettoken_space_word [OF w delim_words [OF assms(3)]])
  let ?args = "args @ [(w @ ?t, ?t)]"
  have run: "exec_loop k args ps ('' '' @ w @ ?t) = rbind (parseredirs (Suc (length (skip ?t))) ?t) (\<lambda>(rs', s). exec_loop k' ?args (ps @ rs') s)"
    unfolding k(1) exec_loop.simps(2) peek_tok_eq
    using g word_not_starts [OF w cmd_end_symbols(1)] Cons.prems(5) by (simp add: NUL_def)
  show ?case
  proof (cases ws)
    case Nil
    have "length rs < Suc (length (skip ?t))" using redirs_fuel Nil by (simp add: show_words_def)
    then obtain ps' where p: "parseredirs (Suc (length (skip ?t))) ?t = Ok (ps', skip rest)" "map (apfst word_text) ps' = rs"
      using parseredirs_show [OF Cons.prems(2,3)] Nil by (auto simp: show_words_def)
    have "exec_loop k' ?args (ps @ ps') (skip rest) = Ok (apply_redirs (EXEC ?args) (ps @ ps'), skip rest)"
      using exec_loop_stop [OF assms(3)] k(2) by simp
    then show ?thesis using run p e Nil by (simp add: map_apply_redirs)
  next
    case (Cons v vs)
    have "\<not> starts ''<>'' ?t" using word_not_starts(1) [of v "''<>''"] Cons.prems(1) Cons by (simp add: show_words_def symbols_def)
    then have "parseredirs (Suc (length (skip ?t))) ?t = Ok ([], skip ?t)" by (simp add: parseredirs.simps(2) peek_tok_eq)
    moreover obtain c where "exec_loop k' ?args (ps @ []) ?t = Ok (c, skip rest)"
        "map_cmd word_text c = apply_redirs (EXEC (map word_text ?args @ ws)) (map (apfst word_text) (ps @ []) @ rs)"
      using Cons.IH [OF _ Cons.prems(2,3) k(2), of ?args "ps @ []"] Cons.prems Cons by auto
    ultimately show ?thesis using run e by simp
  qed
qed

text \<open>The four places a command can stand in.\<close>

definition exec_rt :: "string cmd \<Rightarrow> bool" where
  "exec_rt t \<longleftrightarrow> (\<forall>k rs rest. (\<forall>r \<in> set rs. redir_ok r) \<longrightarrow> stops cmd_end rest \<longrightarrow> 4 * length (show_cmd 3 t @ show_redirs rs @ rest) + 2 \<le> k \<longrightarrow>
     (\<exists>c. parseexec k (show_cmd 3 t @ show_redirs rs @ rest) = Ok (c, skip rest) \<and> map_cmd word_text c = apply_redirs t rs))"

definition pipe_rt :: "string cmd \<Rightarrow> bool" where
  "pipe_rt t \<longleftrightarrow> (\<forall>k rest. stops '')&;'' rest \<longrightarrow> 4 * length (show_cmd 2 t @ rest) + 3 \<le> k \<longrightarrow>
     (\<exists>c. parsepipe k (show_cmd 2 t @ rest) = Ok (c, skip rest) \<and> map_cmd word_text c = t))"

definition parse_backs :: "nat \<Rightarrow> ptr \<Rightarrow> (word_ptr cmd \<times> ptr) res" where
  "parse_backs k s = rbind (parsepipe k s) (\<lambda>(c, s). back_loop (Suc (length s)) c s)"

definition backs_rt :: "string cmd \<Rightarrow> bool" where
  "backs_rt t \<longleftrightarrow> (\<forall>k n rest. stops '');'' rest \<longrightarrow> 4 * length (show_cmd 1 t @ replicate n (CHR ''&'') @ rest) + 3 \<le> k \<longrightarrow>
     (\<exists>c. parse_backs k (show_cmd 1 t @ replicate n (CHR ''&'') @ rest) = Ok (c, skip rest) \<and> map_cmd word_text c = (BACK ^^ n) t))"

definition line_rt :: "string cmd \<Rightarrow> bool" where
  "line_rt t \<longleftrightarrow> (\<forall>k rest. stops '')'' rest \<longrightarrow> 4 * length (show_cmd 0 t @ rest) + 4 \<le> k \<longrightarrow>
     (\<exists>c. parseline k (show_cmd 0 t @ rest) = Ok (c, skip rest) \<and> map_cmd word_text c = t))"

lemma parseline_backs:
  "parseline (Suc k) s = rbind (parse_backs k s) (\<lambda>(c, s).
     case peek_tok '';'' s of
       (True, s) \<Rightarrow> (case gettoken s of (_, _, _, s) \<Rightarrow> rbind (parseline k s) (\<lambda>(d, s). Ok (LIST c d, s)))
     | (False, s) \<Rightarrow> Ok (c, s))"
  by (simp add: parseline.simps(2) parse_backs_def rbind_assoc case_prod_unfold)

lemma exec_rt_EXEC:
  assumes "valid (EXEC ws)"
  shows "exec_rt (EXEC ws)"
  unfolding exec_rt_def
proof (intro allI impI)
  fix k rs rest assume a: "\<forall>r \<in> set rs. redir_ok r" "stops cmd_end rest" "4 * length (show_cmd 3 (EXEC ws) @ show_redirs rs @ rest) + 2 \<le> k"
  obtain k' where k: "k = Suc k'" using a(3) by (cases k) auto
  have ws: "\<forall>w \<in> set ws. is_word w" "length ws < MAXARGV" using assms by auto
  let ?s = "show_words ws @ show_redirs rs @ rest"
  have run: "parseexec k ?s = rbind (parseredirs (Suc (length (skip ?s))) ?s) (\<lambda>(rs, s). exec_loop (Suc (length s)) [] rs s)"
    using show_not_block [OF ws(1) a(2)] by (simp add: k parseexec.simps(2) peek_tok_eq)
  show "\<exists>c. parseexec k (show_cmd 3 (EXEC ws) @ show_redirs rs @ rest) = Ok (c, skip rest) \<and> map_cmd word_text c = apply_redirs (EXEC ws) rs"
  proof (cases "ws = []")
    case True
    then obtain ps where p: "parseredirs (Suc (length (skip ?s))) ?s = Ok (ps, skip rest)" "map (apfst word_text) ps = rs"
      using parseredirs_show [OF a(1,2) redirs_fuel] by (auto simp: show_words_def)
    have "parseexec k ?s = Ok (apply_redirs (EXEC []) ps, skip rest)" using run p(1) exec_loop_stop [OF a(2)] by simp
    then show ?thesis using p(2) True by (simp add: map_apply_redirs)
  next
    case False
    then obtain w vs where v: "ws = w # vs" by (cases ws) auto
    have "\<not> starts ''<>'' ?s" using word_not_starts(1) [of w "''<>''" "show_words vs @ show_redirs rs @ rest"] ws(1) v by (simp add: show_words_def symbols_def)
    then have p: "parseredirs (Suc (length (skip ?s))) ?s = Ok ([], skip ?s)" by (simp add: parseredirs.simps(2) peek_tok_eq)
    have lw: "length (show_words us) \<ge> length us" for us by (induction us) (auto simp: show_words_def)
    have sk: "skip ?s = w @ show_words vs @ show_redirs rs @ rest"
      using v ws(1) gettoken_word(2) [of w "show_words vs @ show_redirs rs @ rest"] delim_words [OF a(2)] by (simp add: show_words_def skip_Cons whitespace_def)
    have "0 < length w" using ws(1) v by (auto simp: is_word_def)
    then have "length ws < Suc (length (skip ?s))" unfolding sk using v lw [of vs] by (simp del: length_greater_0_conv)
    from exec_loop_words [OF ws(1) a(1,2) this, of "[]" "[]"] ws(2) False run p show ?thesis by simp
  qed
qed

lemma exec_rt_REDIR: "redir_ok (w, mode, fd) \<Longrightarrow> exec_rt c \<Longrightarrow> exec_rt (REDIR c w mode fd)"
  unfolding exec_rt_def
proof (intro allI impI)
  fix k rs rest assume a: "redir_ok (w, mode, fd)" "\<forall>r \<in> set rs. redir_ok r" "stops cmd_end rest"
    "4 * length (show_cmd 3 (REDIR c w mode fd) @ show_redirs rs @ rest) + 2 \<le> k"
    and c: "\<forall>k rs rest. (\<forall>r \<in> set rs. redir_ok r) \<longrightarrow> stops cmd_end rest \<longrightarrow> 4 * length (show_cmd 3 c @ show_redirs rs @ rest) + 2 \<le> k \<longrightarrow>
     (\<exists>d. parseexec k (show_cmd 3 c @ show_redirs rs @ rest) = Ok (d, skip rest) \<and> map_cmd word_text d = apply_redirs c rs)"
  have e: "show_cmd 3 (REDIR c w mode fd) @ show_redirs rs @ rest = show_cmd 3 c @ show_redirs ((w, mode, fd) # rs) @ rest" by (simp add: show_redirs_def)
  have "\<forall>r \<in> set ((w, mode, fd) # rs). redir_ok r" using a(1,2) by simp
  from c [rule_format, OF this [rule_format] a(3) a(4) [unfolded e]]
  show "\<exists>d. parseexec k (show_cmd 3 (REDIR c w mode fd) @ show_redirs rs @ rest) = Ok (d, skip rest) \<and> map_cmd word_text d = apply_redirs (REDIR c w mode fd) rs"
    unfolding e by simp
qed

lemma exec_rtD:
  assumes "exec_rt t" "stops cmd_end rest" "4 * length (show_cmd 3 t @ rest) + 2 \<le> k"
  shows "\<exists>c. parseexec k (show_cmd 3 t @ rest) = Ok (c, skip rest) \<and> map_cmd word_text c = t"
  using assms(1) [unfolded exec_rt_def, rule_format, where k = k and rs = "[]" and rest = rest] assms(2,3) by (simp add: show_redirs_def)

lemma exec_pipe_rt:
  assumes "exec_rt t" "show_cmd 2 t = show_cmd 3 t"
  shows "pipe_rt t"
  unfolding pipe_rt_def
proof (intro allI impI)
  fix k rest assume a: "stops '')&;'' rest" "4 * length (show_cmd 2 t @ rest) + 3 \<le> k"
  obtain k' where k: "k = Suc k'" "4 * length (show_cmd 2 t @ rest) + 2 \<le> k'" using a(2) by (cases k) auto
  have st: "stops cmd_end rest" using stops_mono [OF a(1)] by auto
  obtain c where c: "parseexec k' (show_cmd 3 t @ rest) = Ok (c, skip rest)" "map_cmd word_text c = t"
    using exec_rtD [OF assms(1) st k(2) [unfolded assms(2)]] by blast
  moreover have "\<not> starts ''|'' rest" by (rule starts_disjoint [OF a(1)]) auto
  ultimately show "\<exists>c. parsepipe k (show_cmd 2 t @ rest) = Ok (c, skip rest) \<and> map_cmd word_text c = t"
    using assms(2) by (simp add: k(1) parsepipe.simps(2) peek_tok_eq) (simp add: starts_def)
qed

lemma back_loop_show:
  assumes "stops '');'' rest" "n < k"
  shows "back_loop k c (replicate n (CHR ''&'') @ rest) = Ok ((BACK ^^ n) c, skip rest)"
  using assms(2)
proof (induction n arbitrary: k c)
  case 0
  then obtain k' where "k = Suc k'" by (cases k) auto
  moreover have "\<not> starts ''&'' rest" by (rule starts_disjoint [OF assms(1)]) auto
  ultimately show ?case by (simp add: back_loop.simps(2) peek_tok_eq)
next
  case (Suc n)
  then obtain k' where k: "k = Suc k'" "n < k'" by (cases k) auto
  have "starts ''&'' (CHR ''&'' # r)" "gettoken (CHR ''&'' # r) = (CHR ''&'', CHR ''&'' # r, r, skip r)" for r
    by (simp_all add: starts_symbol symbols_def gettoken_symbol)
  then show ?case using Suc.IH [OF k(2), of "BACK c"] by (simp add: k(1) back_loop.simps(2) peek_tok_eq funpow_swap1)
qed

lemma stops_backs: "stops '');'' rest \<Longrightarrow> stops '')&;'' (replicate n (CHR ''&'') @ rest)"
proof (cases n)
  case 0
  assume "stops '');'' rest"
  then show ?thesis using stops_mono [of "'');''" rest "'')&;''"] 0 by simp
qed (simp add: stops_def starts_symbol symbols_def)

lemma length_skip_backs: "n \<le> length (skip (replicate n (CHR ''&'') @ rest))"
  by (cases n) (simp_all add: skip_Cons whitespace_def)

lemma pipe_backs_rt:
  assumes "pipe_rt t" "show_cmd 1 t = show_cmd 2 t"
  shows "backs_rt t"
  unfolding backs_rt_def
proof (intro allI impI)
  fix k n rest assume a: "stops '');'' rest" "4 * length (show_cmd 1 t @ replicate n (CHR ''&'') @ rest) + 3 \<le> k"
  let ?r = "replicate n (CHR ''&'') @ rest"
  obtain c where c: "parsepipe k (show_cmd 2 t @ ?r) = Ok (c, skip ?r)" "map_cmd word_text c = t"
    using assms(1) [unfolded pipe_rt_def, rule_format, OF stops_backs [OF a(1)] a(2) [unfolded assms(2)]] by blast
  have "back_loop (Suc (length (skip ?r))) c ?r = Ok ((BACK ^^ n) c, skip rest)"
    by (rule back_loop_show [OF a(1)]) (use length_skip_backs in \<open>simp add: less_Suc_eq_le\<close>)
  then have "parse_backs k (show_cmd 1 t @ ?r) = Ok ((BACK ^^ n) c, skip rest)" using c(1) assms(2) by (simp add: parse_backs_def)
  moreover have "map_cmd word_text ((BACK ^^ n) c) = (BACK ^^ n) t" using c(2) by (induction n) simp_all
  ultimately show "\<exists>c. parse_backs k (show_cmd 1 t @ ?r) = Ok (c, skip rest) \<and> map_cmd word_text c = (BACK ^^ n) t" by blast
qed

lemma backs_rtD:
  assumes "backs_rt t" "stops '');'' rest" "4 * length (show_cmd 1 t @ rest) + 3 \<le> k"
  shows "\<exists>c. parse_backs k (show_cmd 1 t @ rest) = Ok (c, skip rest) \<and> map_cmd word_text c = t"
  using assms(1) [unfolded backs_rt_def, rule_format, where k = k and n = 0 and rest = rest] assms(2,3) by simp

lemma backs_rt_BACK:
  assumes "backs_rt c"
  shows "backs_rt (BACK c)"
  unfolding backs_rt_def
proof (intro allI impI)
  fix k n rest assume a: "stops '');'' rest" "4 * length (show_cmd 1 (BACK c) @ replicate n (CHR ''&'') @ rest) + 3 \<le> k"
  have e: "show_cmd 1 (BACK c) @ replicate n (CHR ''&'') @ rest = show_cmd 1 c @ replicate (Suc n) (CHR ''&'') @ rest" by (simp add: paren_def)
  show "\<exists>d. parse_backs k (show_cmd 1 (BACK c) @ replicate n (CHR ''&'') @ rest) = Ok (d, skip rest) \<and> map_cmd word_text d = (BACK ^^ n) (BACK c)"
    using assms [unfolded backs_rt_def, rule_format, OF a [unfolded e]] unfolding e by (simp add: funpow_swap1)
qed

lemma backs_line_rt:
  assumes "backs_rt t" "show_cmd 0 t = show_cmd 1 t"
  shows "line_rt t"
  unfolding line_rt_def
proof (intro allI impI)
  fix k rest assume a: "stops '')'' rest" "4 * length (show_cmd 0 t @ rest) + 4 \<le> k"
  obtain k' where k: "k = Suc k'" "4 * length (show_cmd 0 t @ rest) + 3 \<le> k'" using a(2) by (cases k) auto
  have st: "stops '');'' rest" using stops_mono [OF a(1)] by auto
  obtain c where c: "parse_backs k' (show_cmd 1 t @ rest) = Ok (c, skip rest)" "map_cmd word_text c = t"
    using backs_rtD [OF assms(1) st k(2) [unfolded assms(2)]] by blast
  moreover have "\<not> starts '';'' rest" by (rule starts_disjoint [OF a(1)]) auto
  ultimately show "\<exists>c. parseline k (show_cmd 0 t @ rest) = Ok (c, skip rest) \<and> map_cmd word_text c = t"
    using assms(2) by (simp add: k(1) parseline_backs peek_tok_eq) (simp add: starts_def)
qed

lemma line_rt_LIST:
  assumes "backs_rt l" "line_rt r"
  shows "line_rt (LIST l r)"
  unfolding line_rt_def
proof (intro allI impI)
  fix k rest assume a: "stops '')'' rest" "4 * length (show_cmd 0 (LIST l r) @ rest) + 4 \<le> k"
  let ?t = "show_cmd 0 r @ rest"
  have e: "show_cmd 0 (LIST l r) @ rest = show_cmd 1 l @ CHR '';'' # ?t" by (simp add: paren_def)
  obtain k' where k: "k = Suc k'" "4 * length (show_cmd 1 l @ CHR '';'' # ?t) + 3 \<le> k'" using a(2) unfolding e by (cases k) auto
  have st: "stops '');'' (CHR '';'' # ?t)" "starts '';'' (CHR '';'' # ?t)" "skip (CHR '';'' # ?t) = CHR '';'' # ?t"
    "gettoken (CHR '';'' # ?t) = (CHR '';'', CHR '';'' # ?t, ?t, skip ?t)"
    by (simp_all add: stops_def starts_symbol symbols_def gettoken_symbol)
  obtain c where c: "parse_backs k' (show_cmd 1 l @ CHR '';'' # ?t) = Ok (c, CHR '';'' # ?t)" "map_cmd word_text c = l"
    using backs_rtD [OF assms(1) st(1) k(2)] unfolding st(3) by blast
  have "4 * length ?t + 4 \<le> k'" using k(2) by simp
  then obtain d where d: "parseline k' ?t = Ok (d, skip rest)" "map_cmd word_text d = r" using assms(2) a(1) unfolding line_rt_def by blast
  have "parseline k (show_cmd 0 (LIST l r) @ rest) = Ok (LIST c d, skip rest)"
    unfolding e k(1) parseline_backs using c(1) d(1) st by (simp add: peek_tok_eq)
  then show "\<exists>c. parseline k (show_cmd 0 (LIST l r) @ rest) = Ok (c, skip rest) \<and> map_cmd word_text c = LIST l r" using c d by simp
qed

lemma pipe_rt_PIPE:
  assumes "exec_rt l" "pipe_rt r"
  shows "pipe_rt (PIPE l r)"
  unfolding pipe_rt_def
proof (intro allI impI)
  fix k rest assume a: "stops '')&;'' rest" "4 * length (show_cmd 2 (PIPE l r) @ rest) + 3 \<le> k"
  let ?t = "show_cmd 2 r @ rest"
  have e: "show_cmd 2 (PIPE l r) @ rest = show_cmd 3 l @ CHR ''|'' # ?t" by (simp add: paren_def)
  obtain k' where k: "k = Suc k'" "4 * length (show_cmd 3 l @ CHR ''|'' # ?t) + 2 \<le> k'" using a(2) unfolding e by (cases k) auto
  have st: "stops cmd_end (CHR ''|'' # ?t)" "starts ''|'' (CHR ''|'' # ?t)" "skip (CHR ''|'' # ?t) = CHR ''|'' # ?t"
    "gettoken (CHR ''|'' # ?t) = (CHR ''|'', CHR ''|'' # ?t, ?t, skip ?t)"
    by (simp_all add: stops_def starts_symbol symbols_def gettoken_symbol)
  obtain c where c: "parseexec k' (show_cmd 3 l @ CHR ''|'' # ?t) = Ok (c, CHR ''|'' # ?t)" "map_cmd word_text c = l"
    using exec_rtD [OF assms(1) st(1) k(2)] unfolding st(3) by blast
  have "4 * length ?t + 3 \<le> k'" using k(2) by simp
  then obtain d where d: "parsepipe k' ?t = Ok (d, skip rest)" "map_cmd word_text d = r" using assms(2) a(1) unfolding pipe_rt_def by blast
  have "parsepipe k (show_cmd 2 (PIPE l r) @ rest) = Ok (PIPE c d, skip rest)"
    unfolding e k(1) parsepipe.simps(2) using c(1) d(1) st by (simp add: peek_tok_eq)
  then show "\<exists>c. parsepipe k (show_cmd 2 (PIPE l r) @ rest) = Ok (c, skip rest) \<and> map_cmd word_text c = PIPE l r" using c d by simp
qed

lemma line_exec_rt:
  assumes "line_rt t" "show_cmd 3 t = ''('' @ show_cmd 0 t @ '')''"
  shows "exec_rt t"
  unfolding exec_rt_def
proof (intro allI impI)
  fix k rs rest assume a: "\<forall>r \<in> set rs. redir_ok r" "stops cmd_end rest" "4 * length (show_cmd 3 t @ show_redirs rs @ rest) + 2 \<le> k"
  let ?r = "show_redirs rs @ rest" and ?t = "show_cmd 0 t @ CHR '')'' # show_redirs rs @ rest"
  have e: "show_cmd 3 t @ ?r = CHR ''('' # ?t" using assms(2) by simp
  obtain k2 where k: "k = Suc (Suc k2)" "4 * length ?t + 4 \<le> k2" 
  proof -
    have "Suc (Suc (k - 2)) = k" "4 * length ?t + 4 \<le> k - 2" using a(3) unfolding e by simp_all
    then show ?thesis using that by metis
  qed
  have st: "stops '')'' (CHR '')'' # ?r)" "starts '')'' (CHR '')'' # ?r)" "skip (CHR '')'' # ?r) = CHR '')'' # ?r"
    "gettoken (CHR '')'' # ?r) = (CHR '')'', CHR '')'' # ?r, ?r, skip ?r)" "starts ''('' (CHR ''('' # ?t)" "skip (CHR ''('' # ?t) = CHR ''('' # ?t"
    "gettoken (CHR ''('' # ?t) = (CHR ''('', CHR ''('' # ?t, ?t, skip ?t)"
    by (simp_all add: stops_def starts_symbol symbols_def gettoken_symbol)
  obtain c where c: "parseline k2 ?t = Ok (c, CHR '')'' # ?r)" "map_cmd word_text c = t"
    using assms(1) [unfolded line_rt_def, rule_format, OF st(1) k(2)] unfolding st(3) by blast
  obtain ps where p: "parseredirs (Suc (length (skip ?r))) ?r = Ok (ps, skip rest)" "map (apfst word_text) ps = rs"
    using parseredirs_show [OF a(1,2) redirs_fuel] by blast
  have "parseblock (Suc k2) (CHR ''('' # ?t) = Ok (apply_redirs c ps, skip rest)"
    unfolding parseblock.simps(2) using st c(1) p(1) by (simp add: peek_tok_eq)
  then have "parseexec k (show_cmd 3 t @ ?r) = Ok (apply_redirs c ps, skip rest)"
    unfolding e k(1) parseexec.simps(2) using st by (simp add: peek_tok_eq)
  then show "\<exists>c. parseexec k (show_cmd 3 t @ ?r) = Ok (c, skip rest) \<and> map_cmd word_text c = apply_redirs t rs"
    using c(2) p(2) by (simp add: map_apply_redirs)
qed

lemma show_rt: "valid t \<Longrightarrow> exec_rt t \<and> pipe_rt t \<and> backs_rt t \<and> line_rt t"
proof (induction t)
  case (EXEC args)
  then show ?case using exec_rt_EXEC exec_pipe_rt pipe_backs_rt backs_line_rt by simp
next
  case (REDIR c w mode fd)
  then show ?case using exec_rt_REDIR exec_pipe_rt pipe_backs_rt backs_line_rt by simp
next
  case (PIPE l r)
  then have p: "pipe_rt (PIPE l r)" using pipe_rt_PIPE by simp
  then have "line_rt (PIPE l r)" "backs_rt (PIPE l r)" using pipe_backs_rt [OF p] backs_line_rt by (simp_all add: paren_def)
  then show ?case using p line_exec_rt [of "PIPE l r"] by (simp add: paren_def)
next
  case (LIST l r)
  then have p: "line_rt (LIST l r)" using line_rt_LIST by simp
  then have q: "exec_rt (LIST l r)" using line_exec_rt by (simp add: paren_def)
  then show ?case using p exec_pipe_rt [OF q] pipe_backs_rt by (simp add: paren_def)
next
  case (BACK c)
  then have p: "backs_rt (BACK c)" using backs_rt_BACK by simp
  then have l: "line_rt (BACK c)" using backs_line_rt by (simp add: paren_def)
  then have q: "exec_rt (BACK c)" using line_exec_rt by (simp add: paren_def)
  then show ?case using p l exec_pipe_rt [OF q] by (simp add: paren_def)
qed

section \<open>The parser\<close>

lemma show_no_nul: "valid t \<Longrightarrow> NUL \<notin> set (show_cmd n t)"
proof (induction t arbitrary: n)
  case (EXEC args)
  then show ?case by (auto simp: show_words_def is_word_def NUL_def)
next
  case (REDIR c w mode fd)
  then show ?case by (auto simp: show_redir_def redir_ok_def is_word_def NUL_def)
qed (auto simp: paren_def NUL_def)

lemma word_in_line:
  assumes "word_ok line w"
  shows "\<exists>pre post. line = pre @ word_text w @ post \<and> (\<forall>c \<in> set (word_text w). word_char c)"
proof -
  obtain pre u where "line = pre @ fst w" "fst w = u @ snd w" "\<forall>c \<in> set u. word_char c" using assms by (auto simp: word_ok_def suffix_def)
  then have "line = pre @ word_text w @ snd w" "word_text w = u" by (simp_all add: word_text_def)
  then show ?thesis using \<open>\<forall>c \<in> set u. word_char c\<close> by blast
qed

text \<open>A tree that came out of the line, and the line as its words were terminated in it.\<close>

lemma parsecmd_words:
  assumes "parsecmd line = Ok (c, buf)" "NUL \<notin> set line"
  shows "\<forall>w \<in> set_cmd c. word_ok line w \<and> read_ptr buf (fst w) = word_text w"
proof -
  have p: "parses line set_cmd (parseline (4 * length line + 4) line)" using parse_parses by simp
  obtain s where s: "parseline (4 * length line + 4) line = Ok (c, s)" "buf = nulterminate c (line @ [NUL])"
    using assms(1) p by (cases "parseline (4 * length line + 4) line") (auto simp: parsecmd_def split: prod.splits if_splits)
  have w: "word_ok line w" if "w \<in> set_cmd c" for w using p that unfolding s(1) by simp
  then show ?thesis using read_words [OF w _ assms(2)] nul_at_nulterminate unfolding s(2) by blast
qed

lemma parsecmd_ends: "(\<exists>c buf. parsecmd line = Ok (c, buf)) \<or> (\<exists>e. parsecmd line = Panic e)"
proof -
  have "parses line set_cmd (parseline (4 * length line + 4) line)" using parse_parses by simp
  then show ?thesis by (cases "parseline (4 * length line + 4) line") (auto simp: parsecmd_def peek_tok_def Let_def split: if_splits)
qed

lemma parsecmd_show:
  assumes "valid t"
  shows "\<exists>c buf. parsecmd (show_cmd 0 t) = Ok (c, buf) \<and> map_cmd (\<lambda>w. read_ptr buf (fst w)) c = t"
proof -
  let ?l = "show_cmd 0 t"
  have rt: "line_rt t" using show_rt [OF assms] by blast
  have st: "stops '')'' []" by (simp add: stops_def)
  obtain c where c: "parseline (4 * length ?l + 4) ?l = Ok (c, [])" "map_cmd word_text c = t"
    using rt [unfolded line_rt_def, rule_format, OF st, of "4 * length ?l + 4"] by auto
  have p: "parsecmd ?l = Ok (c, nulterminate c (?l @ [NUL]))" by (simp add: parsecmd_def c(1) peek_tok_def)
  have "map_cmd (\<lambda>w. read_ptr (nulterminate c (?l @ [NUL])) (fst w)) c = map_cmd word_text c"
    using parsecmd_words [OF p show_no_nul [OF assms]] by (intro cmd.map_cong0) blast
  then show ?thesis using p c(2) by blast
qed



end
