(* ===== verification/Grep.thy ===== *)
theory Grep
  imports Ctype
begin

text \<open>
  The command grep (\<open>cmds/simple/grep.c\<close>): the compiler of patterns into \<open>expbuf\<close>, the backtracking matcher on it, and the selection of lines, with \<open>main\<close>. A pointer into
  the pattern or into the compiled expression is the list of bytes from there on, one into the line an index, as the matcher also goes backwards there; the
  arrays \<open>braslist\<close> and \<open>braelist\<close> are passed along. Accesses outside are faults, the calls of \<open>errexit\<close> panics with its message. What is shown is in \<open>Grepprops\<close>.
\<close>

section \<open>The compiler\<close>

definition CBRA :: uchar where "CBRA = 1"
definition CCHR :: uchar where "CCHR = 2"
definition CDOT :: uchar where "CDOT = 4"
definition CCL :: uchar where "CCL = 6"
definition CDOL :: uchar where "CDOL = 10"
definition CEOF :: uchar where "CEOF = 11"
definition CKET :: uchar where "CKET = 12"
definition CBRC :: uchar where "CBRC = 14"
definition CLET :: uchar where "CLET = 15"
definition CBACK :: uchar where "CBACK = 18"
definition STAR :: uchar where "STAR = 1"
definition ESIZE :: nat where "ESIZE = 256"
definition NBRA :: nat where "NBRA = 9"

text \<open>The locals of \<open>compile\<close> and \<open>expbuf\<close>; \<open>lastep\<close> is \<open>None\<close> for null.\<close>

record cstate =
  expbuf :: bytes
  epos :: nat
  lastep :: "nat option"
  brackets :: "nat list"
  nclosed :: nat
  numbra :: nat

definition emit :: "uchar \<Rightarrow> cstate \<Rightarrow> cstate res" where
  "emit c st = (if epos st < ESIZE then Ok (st\<lparr>expbuf := (expbuf st)[epos st := c], epos := epos st + 1\<rparr>) else Fault)"

definition emit2 :: "uchar \<Rightarrow> uchar \<Rightarrow> cstate \<Rightarrow> cstate res" where
  "emit2 c d st = rbind (emit c st) (emit d)"

text \<open>\<open>ep[c>>3] |= bittab[c&07]\<close>, for a character of either sign.\<close>

definition class_bit :: "nat \<Rightarrow> int \<Rightarrow> bytes \<Rightarrow> bytes res" where
  "class_bit ep c buf =
     (let i = int ep + c div 8 in
      if 0 \<le> i \<and> i < int ESIZE then Ok (buf[nat i := buf ! nat i OR push_bit (nat (c mod 8)) 1]) else Fault)"

text \<open>The loop over a range; the result is the value of \<open>c\<close> at its end.\<close>

function class_range :: "nat \<Rightarrow> int \<Rightarrow> int \<Rightarrow> bytes \<Rightarrow> (int \<times> bytes) res" where
  "class_range ep c b buf = (if c < b then rbind (class_bit ep c buf) (\<lambda>buf. class_range ep (c + 1) b buf) else Ok (c, buf))"
  by pat_completeness auto

termination by (relation "measure (\<lambda>(ep, c, b, buf). nat (b - c))") auto

declare class_range.simps [simp del]

text \<open>
  One round of the loop over the characters of a class. \<open>first\<close> says that \<open>sp\<close> is \<open>cstart\<close>, and \<open>prev\<close> is \<open>sp[-2]\<close>. The results are the last character
  read, \<open>sp\<close> and the buffer. The loop itself gives what follows the bracket, \<open>None\<close> for an error.
\<close>

definition class_elem :: "nat \<Rightarrow> bool \<Rightarrow> int \<Rightarrow> int \<Rightarrow> bytes \<Rightarrow> bytes \<Rightarrow> (int \<times> bytes \<times> bytes) res" where
  "class_elem ep first prev c sp buf =
     (if c = 45 \<and> \<not> first then
        (case sp of
           [] \<Rightarrow> Fault
         | d # sp' \<Rightarrow>
             if d \<noteq> 93 then
               rbind (class_range ep prev (sint d) buf) (\<lambda>(c, buf). rbind (class_bit ep c buf) (\<lambda>buf. Ok (sint d, sp', buf)))
             else rbind (class_bit ep c buf) (\<lambda>buf. Ok (c, sp, buf)))
      else rbind (class_bit ep c buf) (\<lambda>buf. Ok (c, sp, buf)))"

lemma class_elem_length: "class_elem ep first prev c sp buf = Ok (p, r, buf') \<Longrightarrow> length r \<le> length sp"
  by (auto simp: class_elem_def split: if_split_asm list.split_asm)

function class_loop :: "nat \<Rightarrow> bool \<Rightarrow> int \<Rightarrow> int \<Rightarrow> bytes \<Rightarrow> bytes \<Rightarrow> (bytes \<times> bytes) option res" where
  "class_loop ep first prev c sp buf =
     (if c = 0 then Ok None
      else
        rbind (class_elem ep first prev c sp buf) (\<lambda>(prev, sp, buf).
        case sp of [] \<Rightarrow> Fault | x # sp \<Rightarrow> if x = 93 then Ok (Some (sp, buf)) else class_loop ep False prev (sint x) sp buf))"
  by pat_completeness auto

termination by (relation "measure (\<lambda>(ep, first, prev, c, sp, buf). length sp)") (auto dest!: class_elem_length)

declare class_loop.simps [simp del]

lemma class_loop_length: "class_loop ep first prev c sp buf = Ok (Some (r, buf')) \<Longrightarrow> length r < length sp"
proof (induction "length sp" arbitrary: first prev c sp buf rule: less_induct)
  case less
  have c: "c \<noteq> 0" using less.prems by (subst (asm) class_loop.simps) auto
  then obtain p sp1 b1 where e: "class_elem ep first prev c sp buf = Ok (p, sp1, b1)"
    using less.prems unfolding class_loop.simps [of ep first] by (cases "class_elem ep first prev c sp buf") auto
  note l = class_elem_length [OF e]
  show ?case
  proof (cases sp1)
    case Nil
    then show ?thesis using less.prems c e unfolding class_loop.simps [of ep first] by simp
  next
    case (Cons x sp2)
    then show ?thesis using less.prems c e l less.hyps [of sp2 False p "sint x" b1] unfolding class_loop.simps [of ep first]
      by (simp split: if_split_asm)
  qed
qed

text \<open>\<open>ep[i] ^= -1\<close> for sixteen bytes, and the bit of NUL cleared.\<close>

definition negate_class :: "nat \<Rightarrow> bytes \<Rightarrow> bytes" where
  "negate_class ep buf =
     (let m = map NOT (take 16 (drop ep buf)); b = patch ep m buf in b[ep := b ! ep AND 0xfe])"

definition re_error :: string where "re_error = ''grep: RE error''"

text \<open>The case of a bracket, behind it; the result is the rest of the pattern.\<close>

definition class_body :: "bool \<Rightarrow> bytes \<Rightarrow> cstate \<Rightarrow> (bytes \<times> cstate) res" where
  "class_body neg sp st =
     (case sp of
        [] \<Rightarrow> Fault
      | c # sp \<Rightarrow>
          rbind (class_loop (epos st) True 0 (sint c) sp (expbuf st)) (\<lambda>r.
          case r of
            None \<Rightarrow> Panic re_error
          | Some (sp, buf) \<Rightarrow> Ok (sp, st\<lparr>expbuf := (if neg then negate_class (epos st) buf else buf), epos := epos st + 16\<rparr>)))"

definition compile_class :: "bytes \<Rightarrow> cstate \<Rightarrow> (bytes \<times> cstate) res" where
  "compile_class sp st =
     (if epos st + 17 \<ge> ESIZE then Panic re_error
      else rbind (emit CCL st) (\<lambda>st. if take 1 sp = [94] then class_body True (drop 1 sp) st else class_body False sp st))"

lemma class_body_length: "class_body neg sp st = Ok (r, st') \<Longrightarrow> length r < length sp"
proof (cases sp)
  case (Cons c sp')
  assume b: "class_body neg sp st = Ok (r, st')"
  then obtain buf where "class_loop (epos st) True 0 (sint c) sp' (expbuf st) = Ok (Some (r, buf))"
    by (cases "class_loop (epos st) True 0 (sint c) sp' (expbuf st)") (auto simp: class_body_def Cons split: option.split_asm)
  then show ?thesis using class_loop_length Cons by fastforce
qed (simp add: class_body_def)

lemma compile_class_length: "compile_class sp st = Ok (r, st') \<Longrightarrow> length r < length sp"
proof -
  assume "compile_class sp st = Ok (r, st')"
  then obtain st1 where "class_body True (drop 1 sp) st1 = Ok (r, st') \<or> class_body False sp st1 = Ok (r, st')"
    by (cases "emit CCL st") (auto simp: compile_class_def split: if_split_asm)
  then show ?thesis using class_body_length [of True "drop 1 sp"] class_body_length [of False sp] by fastforce
qed

text \<open>The case of a backslash, behind it.\<close>

definition compile_escape :: "uchar \<Rightarrow> cstate \<Rightarrow> cstate res" where
  "compile_escape c st =
     (if c = 0 then Panic re_error
      else if c = 60 then emit CBRC st
      else if c = 62 then emit CLET st
      else if c = 40 then
        (if numbra st \<ge> NBRA then Panic re_error
         else rbind (emit2 CBRA (of_nat (numbra st)) (st\<lparr>brackets := numbra st # brackets st\<rparr>)) (\<lambda>st. Ok (st\<lparr>numbra := numbra st + 1\<rparr>)))
      else if c = 41 then
        (case brackets st of
           [] \<Rightarrow> Panic re_error
         | b # bs \<Rightarrow> rbind (emit2 CKET (of_nat b) (st\<lparr>brackets := bs\<rparr>)) (\<lambda>st. Ok (st\<lparr>nclosed := nclosed st + 1\<rparr>)))
      else if 49 \<le> c \<and> c \<le> 57 then
        (if unat (c - 49) \<ge> nclosed st then Panic re_error else emit2 CBACK (c - 49) st)
      else emit2 CCHR c st)"

function compile_loop :: "bool \<Rightarrow> bytes \<Rightarrow> cstate \<Rightarrow> cstate res" where
  "compile_loop wflag sp st =
     (if epos st \<ge> ESIZE then Panic re_error
      else
        (case sp of
           [] \<Rightarrow> Fault
         | c # sp \<Rightarrow>
             (let st = (if c \<noteq> 42 then st\<lparr>lastep := Some (epos st)\<rparr> else st) in
              if c = 0 then rbind (if wflag then emit CLET st else Ok st) (emit CEOF)
              else if c = 46 then rbind (emit CDOT st) (compile_loop wflag sp)
              else if c = 42 then
                (case lastep st of
                   None \<Rightarrow> rbind (emit2 CCHR c st) (compile_loop wflag sp)
                 | Some l \<Rightarrow>
                     (let x = expbuf st ! l in
                      if x = CBRA \<or> x = CKET \<or> x = CBRC \<or> x = CLET then rbind (emit2 CCHR c st) (compile_loop wflag sp)
                      else compile_loop wflag sp (st\<lparr>expbuf := (expbuf st)[l := x OR STAR]\<rparr>)))
              else if c = 36 then
                (case sp of
                   [] \<Rightarrow> Fault
                 | d # _ \<Rightarrow> if d \<noteq> 0 then rbind (emit2 CCHR c st) (compile_loop wflag sp) else rbind (emit CDOL st) (compile_loop wflag sp))
              else if c = 91 then rbind (compile_class sp st) (\<lambda>(sp, st). compile_loop wflag sp st)
              else if c = 92 then (case sp of [] \<Rightarrow> Fault | d # sp \<Rightarrow> rbind (compile_escape d st) (compile_loop wflag sp))
              else rbind (emit2 CCHR c st) (compile_loop wflag sp))))"
  by pat_completeness auto

termination
  by (relation "measure (\<lambda>(w, sp, st). length sp)") (auto dest!: compile_class_length)

declare compile_loop.simps [simp del]

text \<open>The result is \<open>expbuf\<close>, and whether \<open>circf\<close> is set.\<close>

definition compile :: "bool \<Rightarrow> bytes \<Rightarrow> (bytes \<times> bool) res" where
  "compile wflag astr =
     (let st = \<lparr>expbuf = replicate ESIZE 0, epos = 0, lastep = None, brackets = [], nclosed = 0, numbra = 0\<rparr> in
      case astr of
        [] \<Rightarrow> Fault
      | c # sp \<Rightarrow>
          rbind (if wflag then emit CBRC st else Ok st) (\<lambda>st.
          rbind (compile_loop wflag (if c = 94 then sp else c # sp) st) (\<lambda>st. Ok (expbuf st, c = 94))))"

section \<open>The matcher\<close>

text \<open>The ends of the groups: \<open>braslist\<close>, and \<open>braelist\<close> with \<open>None\<close> for null.\<close>

record groups =
  braslist :: "nat \<Rightarrow> nat"
  braelist :: "nat \<Rightarrow> nat option"

definition rd :: "bytes \<Rightarrow> nat \<Rightarrow> uchar res" where
  "rd xs i = (if i < length xs then Ok (xs ! i) else Fault)"

fun ecmp :: "bytes \<Rightarrow> nat \<Rightarrow> nat \<Rightarrow> nat \<Rightarrow> bool res" where
  "ecmp line a b 0 = Ok True"
| "ecmp line a b (Suc n) = rbind (rd line a) (\<lambda>x. rbind (rd line b) (\<lambda>y. if x \<noteq> y then Ok False else ecmp line (a + 1) (b + 1) n))"

text \<open>The loops in front of \<open>star\<close>: the first place from \<open>lp\<close> on whose character fails the test, which is where \<open>--lp\<close> then points.\<close>

function star_run :: "(uchar \<Rightarrow> bool) \<Rightarrow> bytes \<Rightarrow> nat \<Rightarrow> nat res" where
  "star_run P line lp = (if lp < length line then if P (line ! lp) then star_run P line (lp + 1) else Ok lp else Fault)"
  by pat_completeness auto

termination by (relation "measure (\<lambda>(P, line, lp). length line - lp)") auto

declare star_run.simps [simp del]

text \<open>\<open>ep[c>>3] & bittab[c & 07]\<close> for \<open>c = *lp & 0177\<close>.\<close>

definition in_bits :: "bytes \<Rightarrow> uchar \<Rightarrow> bool" where
  "in_bits ep x = (let c = unat (x AND 0x7f) in ep ! (c div 8) AND push_bit (c mod 8) 1 \<noteq> 0)"

text \<open>\<open>while (ecmp(bbeg, lp, ct)) lp += ct\<close>, which does not end for an empty group.\<close>

function ref_run :: "bytes \<Rightarrow> nat \<Rightarrow> nat \<Rightarrow> nat \<Rightarrow> nat res" where
  "ref_run line bbeg ct lp =
     (if ct = 0 then Hang
      else if lp < length line then rbind (ecmp line bbeg lp ct) (\<lambda>e. if e then ref_run line bbeg ct (lp + ct) else Ok lp)
      else Fault)"
  by pat_completeness auto

termination by (relation "measure (\<lambda>(line, bbeg, ct, lp). length line - lp)") auto

declare ref_run.simps [simp del]

definition uletter :: "uchar \<Rightarrow> bool" where
  "uletter c \<longleftrightarrow> isalpha (sint c) \<or> c = 95"

definition wordchar :: "uchar \<Rightarrow> bool" where
  "wordchar c \<longleftrightarrow> uletter c \<or> isdigit (sint c)"

text \<open>What a step of the matcher does next: fail, go on at a place, or try places downwards for a starred item.\<close>

datatype action = Fail | Succ | Go nat bytes groups | Star nat nat bytes | Back nat nat nat bytes

definition adv_back :: "bytes \<Rightarrow> nat \<Rightarrow> bytes \<Rightarrow> groups \<Rightarrow> bool \<Rightarrow> action res" where
  "adv_back line lp ep g star =
     rbind (rd ep 0) (\<lambda>k.
     case braelist g (unat k) of
       None \<Rightarrow> Ok Fail
     | Some e \<Rightarrow>
         if e < braslist g (unat k) then Fault
         else
           (let bbeg = braslist g (unat k); ct = e - bbeg in
            if star then rbind (ref_run line bbeg ct lp) (\<lambda>l. Ok (Back lp ct l (drop 1 ep)))
            else rbind (ecmp line bbeg lp ct) (\<lambda>m. Ok (if m then Go (lp + ct) (drop 1 ep) g else Fail))))"

definition adv_class :: "bytes \<Rightarrow> nat \<Rightarrow> bytes \<Rightarrow> groups \<Rightarrow> action res" where
  "adv_class line lp ep g =
     (if length ep < 16 then Fault else rbind (rd line lp) (\<lambda>x. Ok (if in_bits ep x then Go (lp + 1) (drop 16 ep) g else Fail)))"

text \<open>The switch of \<open>advance\<close> on the opcode \<open>op\<close>, with \<open>ep\<close> behind it.\<close>

definition adv_step :: "bytes \<Rightarrow> nat \<Rightarrow> uchar \<Rightarrow> bytes \<Rightarrow> groups \<Rightarrow> action res" where
  "adv_step line lp op ep g =
     (if op = CCHR then rbind (rd ep 0) (\<lambda>c. rbind (rd line lp) (\<lambda>x. Ok (if c = x then Go (lp + 1) (drop 1 ep) g else Fail)))
      else if op = CDOT then rbind (rd line lp) (\<lambda>x. Ok (if x \<noteq> 0 then Go (lp + 1) ep g else Fail))
      else if op = CDOL then rbind (rd line lp) (\<lambda>x. Ok (if x = 0 then Go lp ep g else Fail))
      else if op = CEOF then Ok Succ
      else if op = CCL then adv_class line lp ep g
      else if op = CBRA then rbind (rd ep 0) (\<lambda>k. Ok (Go lp (drop 1 ep) (g\<lparr>braslist := (braslist g)(unat k := lp)\<rparr>)))
      else if op = CKET then rbind (rd ep 0) (\<lambda>k. Ok (Go lp (drop 1 ep) (g\<lparr>braelist := (braelist g)(unat k := Some lp)\<rparr>)))
      else if op = CBACK then adv_back line lp ep g False
      else if op = CBACK OR STAR then adv_back line lp ep g True
      else if op = CDOT OR STAR then rbind (star_run (\<lambda>x. x \<noteq> 0) line lp) (\<lambda>l. Ok (Star lp l ep))
      else if op = CCHR OR STAR then rbind (rd ep 0) (\<lambda>c. rbind (star_run (\<lambda>x. x = c) line lp) (\<lambda>l. Ok (Star lp l (drop 1 ep))))
      else if op = CCL OR STAR then
        (if length ep < 16 then Fault else rbind (star_run (in_bits ep) line lp) (\<lambda>l. Ok (Star lp l (drop 16 ep))))
      else if op = CBRC then
        rbind (rd line lp) (\<lambda>x.
        if wordchar x then (if lp = 0 then Fault else Ok (if \<not> wordchar (line ! (lp - 1)) then Go lp ep g else Fail)) else Ok Fail)
      else if op = CLET then rbind (rd line lp) (\<lambda>x. Ok (if \<not> wordchar x then Go lp ep g else Fail))
      else Panic ''grep RE botch'')"

fun next_ep :: "action \<Rightarrow> bytes" where
  "next_ep (Go lp ep g) = ep"
| "next_ep (Star cur l ep) = ep"
| "next_ep (Back cur ct l ep) = ep"
| "next_ep _ = []"

lemma adv_step_length: "adv_step line lp op ep g = Ok a \<Longrightarrow> length (next_ep a) \<le> length ep"
  by (auto simp: adv_step_def adv_back_def adv_class_def Let_def split: if_split_asm option.split_asm)

function advance :: "bytes \<Rightarrow> nat \<Rightarrow> bytes \<Rightarrow> groups \<Rightarrow> (bool \<times> groups) res" and
  star_loop :: "bytes \<Rightarrow> nat \<Rightarrow> nat \<Rightarrow> bytes \<Rightarrow> groups \<Rightarrow> (bool \<times> groups) res" and
  ref_loop :: "bytes \<Rightarrow> nat \<Rightarrow> nat \<Rightarrow> nat \<Rightarrow> bytes \<Rightarrow> groups \<Rightarrow> (bool \<times> groups) res" where
  "advance line lp ep g =
     (case ep of
        [] \<Rightarrow> Fault
      | op # ep \<Rightarrow>
          rbind (adv_step line lp op ep g) (\<lambda>a.
          case a of
            Fail \<Rightarrow> Ok (False, g)
          | Succ \<Rightarrow> Ok (True, g)
          | Go lp ep g \<Rightarrow> advance line lp ep g
          | Star cur l ep \<Rightarrow> if l = cur then advance line cur ep g else star_loop line cur l ep g
          | Back cur ct l ep \<Rightarrow> ref_loop line cur ct l ep g))"
| "star_loop line cur lp ep g =
     rbind (rd ep 0) (\<lambda>op.
     rbind (if op = CCHR then rbind (rd ep 1) (\<lambda>c. rbind (rd line lp) (\<lambda>x. Ok (x = c))) else Ok True) (\<lambda>fits.
     rbind (if fits then advance line lp ep g else Ok (False, g)) (\<lambda>(found, g).
       if found then Ok (True, g)
       else if lp > cur then star_loop line cur (lp - 1) ep g
       else Ok (False, g))))"
| "ref_loop line cur ct lp ep g =
     rbind (advance line lp ep g) (\<lambda>(found, g).
       if found then Ok (True, g)
       else if 0 < ct \<and> lp \<ge> cur + ct then ref_loop line cur ct (lp - ct) ep g
       else Ok (False, g))"
  by pat_completeness auto

termination advance
  by (relation "measures [\<lambda>x. case x of Inl (line, lp, ep, g) \<Rightarrow> length ep | Inr (Inl (line, cur, lp, ep, g)) \<Rightarrow> length ep | Inr (Inr (line, cur, ct, lp, ep, g)) \<Rightarrow> length ep,
    \<lambda>x. case x of Inl (line, lp, ep, g) \<Rightarrow> 0 | Inr (Inl (line, cur, lp, ep, g)) \<Rightarrow> Suc lp | Inr (Inr (line, cur, ct, lp, ep, g)) \<Rightarrow> Suc lp]")
    (auto dest!: adv_step_length)

declare advance.simps [simp del] star_loop.simps [simp del] ref_loop.simps [simp del]

section \<open>Lines\<close>

definition LBSIZE :: nat where "LBSIZE = 1024"

text \<open>The loops of \<open>execute\<close> over the places of a line, with the fast check for the first character.\<close>

function scan :: "bytes \<Rightarrow> nat \<Rightarrow> bytes \<Rightarrow> groups \<Rightarrow> (bool \<times> groups) res" where
  "scan line lp ep g =
     rbind (rd line lp) (\<lambda>x.
     rbind (rd ep 0) (\<lambda>op.
     rbind (if op = CCHR then rbind (rd ep 1) (\<lambda>c. Ok (x = c)) else Ok True) (\<lambda>fits.
     rbind (if fits then advance line lp ep g else Ok (False, g)) (\<lambda>(found, g).
       if found then Ok (True, g)
       else if x \<noteq> 0 then scan line (lp + 1) ep g
       else Ok (False, g)))))"
  by pat_completeness auto

termination by (relation "measure (\<lambda>(line, lp, ep, g). length line - lp)") (auto simp: rd_def split: if_split_asm)

declare scan.simps [simp del]

definition match_line :: "bytes \<times> bool \<Rightarrow> bytes \<Rightarrow> groups \<Rightarrow> (bool \<times> groups) res" where
  "match_line code line g = (if snd code then advance line 0 (fst code) g else scan line 0 (fst code) g)"

text \<open>Reading a line: at most \<open>n\<close> characters, without the newline; \<open>None\<close> at the end of the file.\<close>

fun read_line :: "nat \<Rightarrow> bytes \<Rightarrow> (bytes \<times> bytes) option" where
  "read_line n [] = None"
| "read_line n (c # cs) =
     (if c = 10 then Some ([], cs)
      else if n \<le> 1 then Some ([c], cs)
      else map_option (\<lambda>(l, r). (c # l, r)) (read_line (n - 1) cs))"

lemma read_line_length: "read_line n cs = Some (l, r) \<Longrightarrow> length r < length cs"
  by (induction n cs arbitrary: l r rule: read_line.induct) (auto split: if_splits simp: less_Suc_eq)

record flags =
  bflag :: bool
  lflag :: bool
  nflag :: bool
  cflag :: bool
  vflag :: bool
  hflag :: bool
  sflag :: bool
  yflag :: bool
  wflag :: bool
  nfile :: nat

text \<open>What the calls of \<open>printf\<close> write: the name of the file before a colon, numbers, the name alone, a line, a count.\<close>

datatype printed = PName bytes | PBlock | PNumber uint | PFile bytes | PLine bytes | PCount uint

record gstate =
  lnum :: uint
  tln :: uint
  nsucc :: bool
  outp :: "printed list"

text \<open>The second result says that the input is wound on to its end.\<close>

definition succeed :: "flags \<Rightarrow> bytes \<Rightarrow> bytes \<Rightarrow> gstate \<Rightarrow> gstate \<times> bool" where
  "succeed fl f line st =
     (let st = st\<lparr>nsucc := True\<rparr> in
      if sflag fl then (st, False)
      else if cflag fl then (st\<lparr>tln := tln st + 1\<rparr>, False)
      else if lflag fl then (st\<lparr>outp := outp st @ [PFile f]\<rparr>, True)
      else
        (st\<lparr>outp := outp st @ (if nfile fl > 1 \<and> hflag fl then [PName f] else []) @ (if bflag fl then [PBlock] else []) @
           (if nflag fl then [PNumber (lnum st)] else []) @ [PLine (takeWhile (\<lambda>c. c \<noteq> 0) line)]\<rparr>, False))"

function execute_loop :: "flags \<Rightarrow> bytes \<Rightarrow> bytes \<times> bool \<Rightarrow> bytes \<Rightarrow> groups \<Rightarrow> gstate \<Rightarrow> (groups \<times> gstate) res" where
  "execute_loop fl f code input g st =
     (let st = st\<lparr>lnum := lnum st + 1\<rparr> in
      case read_line (LBSIZE - 1) input of
        None \<Rightarrow>
          Ok (g, if cflag fl then st\<lparr>outp := outp st @ (if nfile fl > 1 then [PName f] else []) @ [PCount (tln st)]\<rparr> else st)
      | Some (l, rest) \<Rightarrow>
          rbind (match_line code (l @ [0]) g) (\<lambda>(found, g).
          if found \<noteq> vflag fl then
            (let (st, wind) = succeed fl f l st in execute_loop fl f code (if wind then [] else rest) g st)
          else execute_loop fl f code rest g st))"
  by pat_completeness auto

termination
  by (relation "measure (\<lambda>(fl, f, code, input, g, st). length input)") (auto dest: read_line_length split: if_split_asm)

declare execute_loop.simps [simp del]

text \<open>The contents of the file opened, \<open>None\<close> when it cannot be opened; the second result says that \<open>retcode\<close> becomes 2.\<close>

definition execute :: "flags \<Rightarrow> bytes \<Rightarrow> bytes \<times> bool \<Rightarrow> bytes option \<Rightarrow> groups \<Rightarrow> gstate \<Rightarrow> (groups \<times> gstate \<times> bool) res" where
  "execute fl f code content g st =
     rbind (execute_loop fl f code (case content of None \<Rightarrow> [] | Some d \<Rightarrow> d) g (st\<lparr>lnum := 0, tln := 0\<rparr>)) (\<lambda>(g, st). Ok (g, st, content = None))"

section \<open>The command\<close>

text \<open>The switch over the options, \<open>None\<close> for the call of \<open>errexit\<close>; the second result is the arguments left, from the pattern on.\<close>

fun options :: "flags \<Rightarrow> bytes list \<Rightarrow> (flags \<times> bytes list) option" where
  "options fl [] = Some (fl, [])"
| "options fl (a # as) =
     (if take 1 a \<noteq> [45] then Some (fl, a # as)
      else
        (let c = (if length a < 2 then 0 else a ! 1) in
         if c = 105 \<or> c = 121 then options (fl\<lparr>yflag := True\<rparr>) as
         else if c = 119 then options (fl\<lparr>wflag := True\<rparr>) as
         else if c = 104 then options (fl\<lparr>hflag := False\<rparr>) as
         else if c = 115 then options (fl\<lparr>sflag := True\<rparr>) as
         else if c = 118 then options (fl\<lparr>vflag := True\<rparr>) as
         else if c = 98 then options (fl\<lparr>bflag := True\<rparr>) as
         else if c = 108 then options (fl\<lparr>lflag := True\<rparr>) as
         else if c = 99 then options (fl\<lparr>cflag := True\<rparr>) as
         else if c = 110 then options (fl\<lparr>nflag := True\<rparr>) as
         else if c = 101 then Some (fl, as)
         else None))"

text \<open>One round of the loop that makes \<open>ybuf\<close> for \<open>-i\<close>: what it writes, and the rest of the pattern.\<close>

definition ystep :: "uchar \<Rightarrow> bytes \<Rightarrow> bytes \<times> bytes" where
  "ystep c p =
     (if c = 92 then (case p of [] \<Rightarrow> ([92], []) | d # p \<Rightarrow> ([92, d], p))
      else if c = 91 then (c # takeWhile (\<lambda>x. x \<noteq> 93) p, dropWhile (\<lambda>x. x \<noteq> 93) p)
      else if islower (sint c) then ([91, word_of_int (toupper (sint c)), c, 93], p)
      else ([c], p))"

lemma ystep_length: "length (snd (ystep c p)) \<le> length p"
  by (auto simp: ystep_def length_dropWhile_le split: list.split)

function ybuf :: "bytes \<Rightarrow> bytes \<Rightarrow> bytes res" where
  "ybuf [] s = Ok s"
| "ybuf (c # p) s =
     (let s = s @ fst (ystep c p) in
      if length s > ESIZE then Fault
      else if length s \<ge> ESIZE - 5 then Panic ''grep: argument too long''
      else ybuf (snd (ystep c p)) s)"
  by pat_completeness auto

termination
  by (relation "measure (\<lambda>(p, s). length p)") (auto simp: ystep_length less_Suc_eq_le)

text \<open>The loop over the files; \<open>retcode\<close> becomes 2 when one cannot be opened.\<close>

fun execute_files :: "flags \<Rightarrow> (bytes \<Rightarrow> bytes option) \<Rightarrow> bytes \<times> bool \<Rightarrow> bytes list \<Rightarrow> groups \<Rightarrow> gstate \<Rightarrow> bool \<Rightarrow> (gstate \<times> bool) res" where
  "execute_files fl fs code [] g st bad = Ok (st, bad)"
| "execute_files fl fs code (f # files) g st bad =
     rbind (execute fl f code (fs f) g st) (\<lambda>(g, st, b). execute_files fl fs code files g st (bad \<or> b))"

definition flags0 :: flags where
  "flags0 = \<lparr>bflag = False, lflag = False, nflag = False, cflag = False, vflag = False, hflag = True, sflag = False, yflag = False, wflag = False, nfile = 0\<rparr>"

text \<open>The exit code and the output. \<open>fs\<close> gives the contents of files; the bytes of the standard input come beside it.\<close>

definition grep_main :: "(bytes \<Rightarrow> bytes option) \<Rightarrow> bytes \<Rightarrow> bytes list \<Rightarrow> (nat \<times> printed list) res" where
  "grep_main fs stdin args =
     (let g = \<lparr>braslist = (\<lambda>_. 0), braelist = (\<lambda>_. None)\<rparr>; st = \<lparr>lnum = 0, tln = 0, nsucc = False, outp = []\<rparr> in
      case options flags0 args of
        None \<Rightarrow> Panic ''grep: unknown flag''
      | Some (fl, []) \<Rightarrow> Ok (2, [])
      | Some (fl, p # files) \<Rightarrow>
          (let fl = fl\<lparr>nfile := length files\<rparr> in
           rbind (if yflag fl then ybuf p [] else Ok p) (\<lambda>p.
           rbind (compile (wflag fl) (p @ [0])) (\<lambda>code.
           if files = [] then
             (if lflag fl then Ok (1, [])
              else rbind (execute fl [] code (Some stdin) g st) (\<lambda>(g, st, b). Ok (if nsucc st then 0 else 1, outp st)))
           else
             rbind (execute_files fl fs code files g st False) (\<lambda>(st, bad). Ok (if bad then 2 else if nsucc st then 0 else 1, outp st))))))"

end
