(* ===== verification/Grepprops.thy ===== *)
theory Grepprops
  imports Grep
begin

text \<open>
  The language of a pattern of grep, and that the compiler and the matcher decide it. The reference is a list of items, each a set of characters that may be
  repeated, with the anchors at both ends; matching is by recursion on the list, without code, places or backtracking.
\<close>

section \<open>The language of a pattern\<close>

datatype atom = AChar uchar | AAny | AClass bool "(int \<times> int) list"

text \<open>A range that runs backwards has its first character only; classes look at seven bits.\<close>

definition in_ranges :: "(int \<times> int) list \<Rightarrow> int \<Rightarrow> bool" where
  "in_ranges rs v \<longleftrightarrow> (\<exists>(a, b) \<in> set rs. a = v \<or> a \<le> v \<and> v \<le> b)"

fun atom_ok :: "atom \<Rightarrow> uchar \<Rightarrow> bool" where
  "atom_ok (AChar c) x \<longleftrightarrow> x = c"
| "atom_ok AAny x \<longleftrightarrow> x \<noteq> 0"
| "atom_ok (AClass neg rs) x \<longleftrightarrow> x AND 0x7f \<noteq> 0 \<and> in_ranges rs (uint (x AND 0x7f)) \<noteq> neg"

text \<open>Whether a beginning of the line matches; with \<open>eol\<close>, the whole line.\<close>

fun matches :: "(atom \<times> bool) list \<Rightarrow> bool \<Rightarrow> bytes \<Rightarrow> bool" where
  "matches [] eol l \<longleftrightarrow> (eol \<longrightarrow> l = [])"
| "matches ((a, False) # is) eol l \<longleftrightarrow> (case l of [] \<Rightarrow> False | x # l \<Rightarrow> atom_ok a x \<and> matches is eol l)"
| "matches ((a, True) # is) eol l \<longleftrightarrow> (\<exists>j \<le> length (takeWhile (atom_ok a) l). matches is eol (drop j l))"

definition finds :: "bool \<Rightarrow> (atom \<times> bool) list \<Rightarrow> bool \<Rightarrow> bytes \<Rightarrow> bool" where
  "finds circ is eol l \<longleftrightarrow> (if circ then matches is eol l else (\<exists>k \<le> length l. matches is eol (drop k l)))"

section \<open>Code\<close>

abbreviation starred :: "bool \<Rightarrow> uchar \<Rightarrow> uchar" where
  "starred s op \<equiv> (if s then op OR STAR else op)"

fun item_code :: "atom \<times> bool \<Rightarrow> bytes \<Rightarrow> bool" where
  "item_code (AChar c, s) seg \<longleftrightarrow> c \<noteq> 0 \<and> seg = [starred s CCHR, c]"
| "item_code (AAny, s) seg \<longleftrightarrow> seg = [starred s CDOT]"
| "item_code (AClass neg rs, s) seg \<longleftrightarrow> (\<exists>cl. seg = starred s CCL # cl \<and> length cl = 16 \<and> (\<forall>x. in_bits cl x = atom_ok (AClass neg rs) x))"

fun codes :: "(atom \<times> bool) list \<Rightarrow> bool \<Rightarrow> bytes \<Rightarrow> bool" where
  "codes [] eol ep \<longleftrightarrow> (\<exists>r. ep = (if eol then [CDOL, CEOF] else [CEOF]) @ r)"
| "codes (i # is) eol ep \<longleftrightarrow> (\<exists>seg r. ep = seg @ r \<and> item_code i seg \<and> codes is eol r)"

lemmas opcodes = CBRA_def CCHR_def CDOT_def CCL_def CDOL_def CEOF_def CKET_def CBRC_def CLET_def CBACK_def STAR_def

lemma in_bits_append: "length cl = 16 \<Longrightarrow> in_bits (cl @ r) x = in_bits cl x"
proof -
  assume l: "length cl = 16"
  have "unat (x AND 0x7f) \<le> 127" using word_and_le1 [of x "0x7f"] by (simp add: word_le_nat_alt)
  then have "unat (x AND 0x7f) div 8 < 16" by simp
  then show ?thesis using l by (simp add: in_bits_def Let_def nth_append)
qed

lemma rd_line: "lp \<le> length l \<Longrightarrow> rd (l @ [0]) lp = Ok (if lp < length l then l ! lp else 0)"
  by (auto simp: rd_def nth_append)

text \<open>One item that is not repeated.\<close>

lemma plain_step:
  assumes c: "item_code (a, False) (op # cl)" and l: "lp \<le> length l" "0 \<notin> set l"
  shows "adv_step (l @ [0]) lp op (cl @ r) g = Ok (if lp < length l \<and> atom_ok a (l ! lp) then Go (lp + 1) r g else Fail)"
proof (cases a)
  case (AClass neg rs)
  then have o: "op = CCL" "length cl = 16" "\<And>x. in_bits cl x = atom_ok a x" using c by auto
  have "adv_step (l @ [0]) lp op (cl @ r) g = adv_class (l @ [0]) lp (cl @ r) g" by (simp add: adv_step_def o(1) opcodes)
  moreover have "\<not> atom_ok a 0" using AClass by simp
  ultimately show ?thesis using o(2,3) l(1) by (auto simp: adv_class_def rd_line in_bits_append)
qed (use c l in \<open>auto simp: adv_step_def opcodes rd_line rd_def [of "_ # _"]\<close>)

lemma run_spec:
  assumes "lp \<le> length l" "\<not> P 0"
  shows "star_run P (l @ [0]) lp = Ok (lp + length (takeWhile P (drop lp l)))"
  using assms(1)
proof (induction "length l - lp" arbitrary: lp)
  case 0
  then show ?case using assms(2) by (subst star_run.simps) (simp add: nth_append)
next
  case (Suc k)
  then have lt: "lp < length l" by simp
  then have d: "drop lp l = l ! lp # drop (lp + 1) l" by (simp add: Cons_nth_drop_Suc)
  have "star_run P (l @ [0]) (lp + 1) = Ok (lp + 1 + length (takeWhile P (drop (lp + 1) l)))" using Suc by (intro Suc.hyps(1)) auto
  then show ?case using lt by (subst star_run.simps) (simp add: d nth_append)
qed

lemma star_step:
  assumes c: "item_code (a, True) (op # cl)" and l: "lp \<le> length l" "0 \<notin> set l"
  shows "adv_step (l @ [0]) lp op (cl @ r) g = Ok (Star lp (lp + length (takeWhile (atom_ok a) (drop lp l))) r)"
proof (cases a)
  case (AClass neg rs)
  then have o: "op = CCL OR STAR" "length cl = 16" "in_bits cl = atom_ok a" using c by auto
  have "in_bits (cl @ r) = atom_ok a" using o(2,3) by (simp add: in_bits_append fun_eq_iff)
  moreover have "\<not> atom_ok a 0" using AClass by simp
  ultimately show ?thesis using run_spec [OF l(1), of "atom_ok a"] o by (simp add: adv_step_def opcodes)
next
  case (AChar c)
  have "(\<lambda>x. x = c) = atom_ok (AChar c)" by (simp add: fun_eq_iff)
  then show ?thesis using assms(1) AChar run_spec [OF l(1), of "atom_ok (AChar c)"] by (auto simp: adv_step_def opcodes rd_def)
next
  case AAny
  have "(\<lambda>x. x \<noteq> 0) = atom_ok AAny" by (simp add: fun_eq_iff)
  then show ?thesis using assms(1) AAny run_spec [OF l(1), of "atom_ok AAny"] by (auto simp: adv_step_def opcodes)
qed


text \<open>The fast check for the first character rejects only what does not match.\<close>

definition fast :: "bytes \<Rightarrow> nat \<Rightarrow> bytes \<Rightarrow> bool res" where
  "fast line lp ep =
     rbind (rd ep 0) (\<lambda>op. if op = CCHR then rbind (rd ep 1) (\<lambda>c. rbind (rd line lp) (\<lambda>x. Ok (x = c))) else Ok True)"

lemma item_code_Cons: "item_code i seg \<Longrightarrow> \<exists>op cl. seg = op # cl"
  by (cases i; cases "fst i") auto

lemma fast_spec:
  assumes "codes is eol ep" "lp \<le> length l"
  obtains b where "fast (l @ [0]) lp ep = Ok b" "\<not> b \<Longrightarrow> \<not> matches is eol (drop lp l)"
proof (cases "\<exists>c is'. is = (AChar c, False) # is'")
  case True
  then obtain c is' where i: "is = (AChar c, False) # is'" by auto
  then have c: "c \<noteq> 0" and e: "fast (l @ [0]) lp ep = Ok ((if lp < length l then l ! lp else 0) = c)"
    using assms by (auto simp: fast_def rd_line opcodes rd_def [of "_ # _"])
  show thesis
  proof (rule that [OF e])
    assume n: "\<not> (if lp < length l then l ! lp else 0) = c"
    then show "\<not> matches is eol (drop lp l)" by (cases "lp < length l") (auto simp: i Cons_nth_drop_Suc [symmetric])
  qed
next
  case False
  have "\<exists>op ep'. ep = op # ep' \<and> op \<noteq> CCHR"
  proof (cases "is")
    case Nil
    then show ?thesis using assms by (auto simp: opcodes)
  next
    case (Cons i is')
    then obtain seg r where s: "ep = seg @ r" "item_code i seg" using assms by auto
    obtain a b where "i = (a, b)" by (cases i)
    then show ?thesis using s False Cons by (cases a; cases b) (auto simp: opcodes)
  qed
  then have "fast (l @ [0]) lp ep = Ok True" by (auto simp: fast_def rd_def)
  then show thesis using that by simp
qed

lemma star_loop_fast:
  "star_loop line cur lp ep g =
     rbind (fast line lp ep) (\<lambda>fits.
     rbind (if fits then advance line lp ep g else Ok (False, g)) (\<lambda>(found, g).
       if found then Ok (True, g)
       else if lp > cur then star_loop line cur (lp - 1) ep g
       else Ok (False, g)))"
  by (subst star_loop.simps) (simp add: fast_def rd_def split: if_split)

lemma star_loop_spec:
  assumes c: "codes is eol ep"
    and adv: "\<And>lp. lp \<le> length l \<Longrightarrow> advance (l @ [0]) lp ep g = Ok (matches is eol (drop lp l), g)"
  shows "cur \<le> lp \<Longrightarrow> lp \<le> length l \<Longrightarrow>
    star_loop (l @ [0]) cur lp ep g = Ok ((\<exists>k. cur \<le> k \<and> k \<le> lp \<and> matches is eol (drop k l)), g)"
proof (induction "lp - cur" arbitrary: lp)
  case 0
  obtain b where b: "fast (l @ [0]) lp ep = Ok b" "\<not> b \<Longrightarrow> \<not> matches is eol (drop lp l)" using fast_spec [OF c] 0 by blast
  have "lp = cur" using 0 by simp
  then show ?case using b adv [of lp] 0 by (subst star_loop_fast) (auto simp: le_antisym)
next
  case (Suc n)
  obtain b where b: "fast (l @ [0]) lp ep = Ok b" "\<not> b \<Longrightarrow> \<not> matches is eol (drop lp l)" using fast_spec [OF c] Suc by blast
  have ih: "star_loop (l @ [0]) cur (lp - 1) ep g = Ok ((\<exists>k. cur \<le> k \<and> k \<le> lp - 1 \<and> matches is eol (drop k l)), g)"
    using Suc by (intro Suc.hyps(1)) auto
  have le: "\<And>k. k \<le> lp \<longleftrightarrow> k = lp \<or> k \<le> lp - 1" using Suc.hyps(2) by arith
  have ex: "(\<exists>k. cur \<le> k \<and> k \<le> lp \<and> matches is eol (drop k l)) \<longleftrightarrow>
      matches is eol (drop lp l) \<or> (\<exists>k. cur \<le> k \<and> k \<le> lp - 1 \<and> matches is eol (drop k l))"
    using Suc.prems(1) le by (metis order_refl)
  have "cur < lp" using Suc.hyps(2) by simp
  then show ?case unfolding ex using b adv [of lp] Suc.prems ih by (subst star_loop_fast) auto
qed

lemma ex_shift: "(\<exists>k. m \<le> k \<and> k \<le> m + n \<and> P k) \<longleftrightarrow> (\<exists>j \<le> n. P (j + m))" for m n :: nat
proof
  assume "\<exists>k. m \<le> k \<and> k \<le> m + n \<and> P k"
  then obtain k where "m \<le> k" "k \<le> m + n" "P k" by blast
  then show "\<exists>j \<le> n. P (j + m)" by (intro exI [of _ "k - m"]) auto
next
  assume "\<exists>j \<le> n. P (j + m)"
  then obtain j where "j \<le> n" "P (j + m)" by blast
  then show "\<exists>k. m \<le> k \<and> k \<le> m + n \<and> P k" by (intro exI [of _ "j + m"]) auto
qed

lemma advance_spec:
  assumes "0 \<notin> set l"
  shows "codes is eol ep \<Longrightarrow> lp \<le> length l \<Longrightarrow> advance (l @ [0]) lp ep g = Ok (matches is eol (drop lp l), g)"
proof (induction "is" arbitrary: ep lp)
  case Nil
  then show ?case using assms
    by (auto simp: advance.simps [of _ _ "_ # _"] adv_step_def opcodes rd_line in_set_conv_nth)
next
  case (Cons i "is")
  obtain a s where i: "i = (a, s)" by (cases i)
  obtain op cl r where e: "ep = op # cl @ r" "item_code i (op # cl)" "codes is eol r"
    using Cons.prems(1) item_code_Cons by fastforce
  note ih = Cons.IH [OF e(3)]
  show ?case
  proof (cases s)
    case False
    then have st: "adv_step (l @ [0]) lp op (cl @ r) g = Ok (if lp < length l \<and> atom_ok a (l ! lp) then Go (lp + 1) r g else Fail)"
      using plain_step [of a op cl lp l r g] e(2) i Cons.prems(2) assms by simp
    show ?thesis
    proof (cases "lp < length l")
      case True
      then show ?thesis using st ih [of "lp + 1"] False
        by (simp add: e advance.simps [of _ _ "_ # _"] i Cons_nth_drop_Suc [symmetric])
    qed (use st False in \<open>simp add: e advance.simps [of _ _ "_ # _"] i\<close>)
  next
    case True
    let ?n = "length (takeWhile (atom_ok a) (drop lp l))"
    have st: "adv_step (l @ [0]) lp op (cl @ r) g = Ok (Star lp (lp + ?n) r)"
      using star_step [of a op cl lp l r g] e(2) i True Cons.prems(2) assms by simp
    have n: "lp + ?n \<le> length l" using length_takeWhile_le [of "atom_ok a" "drop lp l"] Cons.prems(2) by simp
    have "(\<exists>k. lp \<le> k \<and> k \<le> lp + ?n \<and> matches is eol (drop k l)) \<longleftrightarrow> (\<exists>j \<le> ?n. matches is eol (drop j (drop lp l)))"
      by (simp add: ex_shift)
    then have m: "matches (i # is) eol (drop lp l) \<longleftrightarrow> (\<exists>k. lp \<le> k \<and> k \<le> lp + ?n \<and> matches is eol (drop k l))"
      using True by (simp add: i)
    show ?thesis
    proof (cases "?n = 0")
      case True
      then have "matches (i # is) eol (drop lp l) \<longleftrightarrow> matches is eol (drop lp l)" using m by (metis add.right_neutral le_antisym le_refl)
      then show ?thesis using st ih [OF Cons.prems(2)] True by (simp add: e(1) advance.simps [of _ _ "_ # _"] del: matches.simps)
    next
      case False
      then show ?thesis using st star_loop_spec [OF e(3) ih, of lp "lp + ?n"] n unfolding m
        by (simp add: e(1) advance.simps [of _ _ "_ # _"])
    qed
  qed
qed

text \<open>The search from a place on, and a whole line.\<close>

lemma scan_fast:
  "lp < length line \<Longrightarrow> scan line lp ep g =
     rbind (fast line lp ep) (\<lambda>fits.
     rbind (if fits then advance line lp ep g else Ok (False, g)) (\<lambda>(found, g).
       if found then Ok (True, g)
       else if line ! lp \<noteq> 0 then scan line (lp + 1) ep g
       else Ok (False, g)))"
  by (subst scan.simps) (simp add: fast_def rd_def)

lemma scan_spec:
  assumes c: "codes is eol ep" and nz: "0 \<notin> set l"
  shows "lp \<le> length l \<Longrightarrow> scan (l @ [0]) lp ep g = Ok ((\<exists>k. lp \<le> k \<and> k \<le> length l \<and> matches is eol (drop k l)), g)"
proof (induction "length l - lp" arbitrary: lp)
  case 0
  obtain b where b: "fast (l @ [0]) lp ep = Ok b" "\<not> b \<Longrightarrow> \<not> matches is eol (drop lp l)" using fast_spec [OF c] 0 by blast
  have lp: "lp = length l" using 0 by simp
  have "(\<exists>k. lp \<le> k \<and> k \<le> length l \<and> matches is eol (drop k l)) \<longleftrightarrow> matches is eol (drop lp l)" using lp by (metis le_antisym le_refl)
  then show ?case using b advance_spec [OF nz c, of lp g] lp by (subst scan_fast) auto
next
  case (Suc n)
  obtain b where b: "fast (l @ [0]) lp ep = Ok b" "\<not> b \<Longrightarrow> \<not> matches is eol (drop lp l)" using fast_spec [OF c] Suc by blast
  have lt: "lp < length l" using Suc by simp
  have ih: "scan (l @ [0]) (lp + 1) ep g = Ok ((\<exists>k. lp + 1 \<le> k \<and> k \<le> length l \<and> matches is eol (drop k l)), g)"
    using Suc by (intro Suc.hyps(1)) auto
  have le: "\<And>k. lp \<le> k \<longleftrightarrow> k = lp \<or> lp + 1 \<le> k" by arith
  have ex: "(\<exists>k. lp \<le> k \<and> k \<le> length l \<and> matches is eol (drop k l)) \<longleftrightarrow>
      matches is eol (drop lp l) \<or> (\<exists>k. lp + 1 \<le> k \<and> k \<le> length l \<and> matches is eol (drop k l))"
    using le Suc.prems by (metis order_refl)
  have "(l @ [0]) ! lp \<noteq> 0" using lt nz by (auto simp: nth_append in_set_conv_nth)
  then show ?case unfolding ex using b advance_spec [OF nz c, of lp g] Suc.prems ih lt by (subst scan_fast) auto
qed

lemma match_line_spec:
  assumes "codes is eol ep" "0 \<notin> set l"
  shows "match_line (ep, circ) (l @ [0]) g = Ok (finds circ is eol l, g)"
  using advance_spec [OF assms(2,1), of 0] scan_spec [OF assms, of 0] by (simp add: match_line_def finds_def)

section \<open>Patterns\<close>

text \<open>
  The characters of a class behind the bracket, as in \<open>class_loop\<close>, and an item at the beginning of a pattern, each with what follows it. Groups, word anchors
  and references are not in the language, and neither are classes with characters that are not ASCII.
\<close>

function parse_class :: "bool \<Rightarrow> int \<Rightarrow> bytes \<Rightarrow> ((int \<times> int) list \<times> bytes) option" where
  "parse_class first prev p =
     (case p of
        [] \<Rightarrow> None
      | c # p \<Rightarrow>
          if c \<ge> 128 then None
          else if c = 93 \<and> \<not> first then Some ([], p)
          else if c = 45 \<and> \<not> first \<and> p \<noteq> [] \<and> hd p \<noteq> 93 then
            (if hd p \<ge> 128 then None
             else map_option (apfst ((#) (prev, uint (hd p)))) (parse_class False (uint (hd p)) (tl p)))
          else map_option (apfst ((#) (uint c, uint c))) (parse_class False (uint c) p))"
  by pat_completeness auto

termination by (relation "measure (\<lambda>(first, prev, p). length p)") auto

declare parse_class.simps [simp del]

definition parse_atom :: "bytes \<Rightarrow> (atom \<times> bytes) option" where
  "parse_atom p =
     (case p of
        [] \<Rightarrow> None
      | c # p \<Rightarrow>
          if c = 46 then Some (AAny, p)
          else if c = 91 then
            (if take 1 p = [94] then map_option (apfst (AClass True)) (parse_class True 0 (drop 1 p))
             else map_option (apfst (AClass False)) (parse_class True 0 p))
          else if c = 92 then
            (case p of [] \<Rightarrow> None | d # p \<Rightarrow> if d \<in> {60, 62, 40, 41} \<or> 49 \<le> d \<and> d \<le> 57 then None else Some (AChar d, p))
          else Some (AChar c, p))"

lemma parse_class_cases:
  assumes "parse_class first prev p = Some (rs, r)"
  obtains (close) "p = 93 # r" "\<not> first" "rs = []"
  | (span) d q rs' where "p = 45 # d # q" "\<not> first" "d \<noteq> 93" "d < 128" "parse_class False (uint d) q = Some (rs', r)" "rs = (prev, uint d) # rs'"
  | (one) c q rs' where "p = c # q" "first \<or> c \<noteq> 93" "\<not> (c = 45 \<and> \<not> first \<and> q \<noteq> [] \<and> hd q \<noteq> 93)" "c < 128"
      "parse_class False (uint c) q = Some (rs', r)" "rs = (uint c, uint c) # rs'"
proof (cases p)
  case (Cons c q)
  then show ?thesis using assms close span one
    by (cases q) (auto simp: parse_class.simps [of first prev] not_le split: if_split_asm)
qed (use assms in \<open>simp add: parse_class.simps\<close>)

lemma parse_class_length: "parse_class first prev p = Some (rs, r) \<Longrightarrow> length r < length p"
proof (induction "length p" arbitrary: first prev p rs rule: less_induct)
  case less
  from less.prems show ?case
  proof (cases rule: parse_class_cases)
    case (span d q rs')
    then show ?thesis using less.hyps [OF _ span(5)] by simp
  next
    case (one c q rs')
    then show ?thesis using less.hyps [OF _ one(5)] by simp
  qed simp
qed

lemma parse_atom_length: "parse_atom p = Some (a, r) \<Longrightarrow> length r < length p"
  by (cases p) (auto simp: parse_atom_def less_Suc_eq split: if_split_asm list.split_asm dest!: parse_class_length)

text \<open>What the compiler does to the sixteen bytes at \<open>ep\<close>: it sets the bits of the characters in \<open>R\<close>.\<close>

definition sets :: "nat \<Rightarrow> bytes \<Rightarrow> bytes \<Rightarrow> (int \<Rightarrow> bool) \<Rightarrow> bool" where
  "sets ep buf buf' R \<longleftrightarrow>
     length buf' = length buf \<and> (\<forall>i. \<not> (ep \<le> i \<and> i < ep + 16) \<longrightarrow> buf' ! i = buf ! i) \<and>
     (\<forall>v < 128. bit (buf' ! (ep + v div 8)) (v mod 8) \<longleftrightarrow> bit (buf ! (ep + v div 8)) (v mod 8) \<or> R (int v))"

lemma sets_trans: "sets ep b1 b2 R \<Longrightarrow> sets ep b2 b3 S \<Longrightarrow> sets ep b1 b3 (\<lambda>v. R v \<or> S v)"
  by (auto simp: sets_def)

lemma sets_cong: "sets ep b1 b2 R \<Longrightarrow> (\<And>v. 0 \<le> v \<Longrightarrow> v < 128 \<Longrightarrow> R v = S v) \<Longrightarrow> sets ep b1 b2 S"
  by (auto simp: sets_def)

lemma sets_length: "sets ep b1 b2 R \<Longrightarrow> length b2 = length b1"
  by (simp add: sets_def)

lemma class_bit_sets:
  assumes c: "0 \<le> c" "c < 128" and ep: "ep + 16 \<le> ESIZE" and l: "length buf = ESIZE"
  obtains buf' where "class_bit ep c buf = Ok buf'" "sets ep buf buf' (\<lambda>v. v = c)"
proof -
  define n where "n = nat c"
  have n: "c = int n" "n < 128" using c by (auto simp: n_def)
  let ?i = "ep + n div 8"
  let ?b = "buf[?i := buf ! ?i OR push_bit (n mod 8) 1]"
  have i: "?i < ESIZE" using n(2) ep by auto
  have "nat (int ep + int n div 8) = ?i" "nat (int n mod 8) = n mod 8" by (simp_all add: nat_add_distrib nat_div_distrib nat_mod_distrib)
  moreover have "0 \<le> int ep + int n div 8" "int ep + int n div 8 < int ESIZE" using i by (auto simp: zdiv_int)
  ultimately have "class_bit ep c buf = Ok ?b" by (simp add: class_bit_def Let_def n(1))
  moreover have "sets ep buf ?b (\<lambda>v. v = c)"
    unfolding sets_def
  proof (intro conjI allI impI)
    fix v :: nat assume v: "v < 128"
    show "bit (?b ! (ep + v div 8)) (v mod 8) \<longleftrightarrow> bit (buf ! (ep + v div 8)) (v mod 8) \<or> int v = c"
    proof (cases "v div 8 = n div 8")
      case True
      then have "n mod 8 = v mod 8 \<longleftrightarrow> v = n" by (metis div_mod_decomp)
      then show ?thesis using True i l n(1) by (auto simp: bit_simps nth_list_update)
    qed (auto simp: n(1))
  qed (use n(2) in \<open>auto simp: nth_list_update\<close>)
  ultimately show ?thesis using that by blast
qed

lemma class_range_sets:
  assumes ep: "ep + 16 \<le> ESIZE" and c: "0 \<le> c" "b \<le> 128" "length buf = ESIZE"
  shows "\<exists>buf'. class_range ep c b buf = Ok (max c b, buf') \<and> sets ep buf buf' (\<lambda>v. c \<le> v \<and> v < b)"
  using c
proof (induction "nat (b - c)" arbitrary: c buf)
  case 0
  then show ?case by (subst class_range.simps) (auto simp: sets_def)
next
  case (Suc n)
  then have lt: "c < b" by simp
  have "0 \<le> c" "c < 128" "length buf = ESIZE" using Suc.prems lt by auto
  then obtain b1 where b1: "class_bit ep c buf = Ok b1" "sets ep buf b1 (\<lambda>v. v = c)" using class_bit_sets [OF _ _ ep] by blast
  have "n = nat (b - (c + 1))" "0 \<le> c + 1" "b \<le> 128" "length b1 = ESIZE" using Suc.hyps(2) Suc.prems sets_length [OF b1(2)] by auto
  then obtain b2 where b2: "class_range ep (c + 1) b b1 = Ok (max (c + 1) b, b2)" "sets ep b1 b2 (\<lambda>v. c + 1 \<le> v \<and> v < b)"
    using Suc.hyps(1) by blast
  then have "class_range ep c b buf = Ok (max c b, b2)" using b1(1) lt by (subst class_range.simps) (simp add: max_def)
  moreover have "sets ep buf b2 (\<lambda>v. c \<le> v \<and> v < b)" by (rule sets_cong [OF sets_trans [OF b1(2) b2(2)]]) (use lt in auto)
  ultimately show ?case by blast
qed

lemma small_sint: "c < 128 \<Longrightarrow> sint c = uint c" for c :: uchar
  using signed_take_bit_int_eq_self [of 7 "uint c"] uint_ge_0 [of c] by (simp add: sint_uint word_less_def order_trans [of "- 128" 0])

text \<open>A range, with its end.\<close>

lemma class_span_sets:
  assumes ep: "ep + 16 \<le> ESIZE" and c: "0 \<le> c" "c < 128" "b < 128" and l: "length buf = ESIZE"
  obtains b1 b2 where "class_range ep c b buf = Ok (max c b, b1)" "class_bit ep (max c b) b1 = Ok b2" "sets ep buf b2 (in_ranges [(c, b)])"
proof -
  obtain b1 where b1: "class_range ep c b buf = Ok (max c b, b1)" "sets ep buf b1 (\<lambda>v. c \<le> v \<and> v < b)"
    using class_range_sets [OF ep c(1) _ l, of b] c by auto
  have "0 \<le> max c b" "max c b < 128" "length b1 = ESIZE" using c l sets_length [OF b1(2)] by auto
  then obtain b2 where b2: "class_bit ep (max c b) b1 = Ok b2" "sets ep b1 b2 (\<lambda>v. v = max c b)" using class_bit_sets [OF _ _ ep] by blast
  have "sets ep buf b2 (in_ranges [(c, b)])"
    by (rule sets_cong [OF sets_trans [OF b1(2) b2(2)]]) (auto simp: in_ranges_def)
  then show ?thesis using that b1(1) b2(1) by blast
qed

lemma in_ranges_Cons: "in_ranges (p # rs) v \<longleftrightarrow> in_ranges [p] v \<or> in_ranges rs v"
  by (auto simp: in_ranges_def)

text \<open>The class of a bracket, behind it.\<close>

lemma class_loop_rest:
  assumes c: "sint c \<noteq> 0" and e: "class_elem ep first prev (sint c) (p @ [0]) buf = Ok (prev', q @ [0], b1)" and b1: "sets ep buf b1 (in_ranges [pr])"
    and q: "parse_class False prev' q = Some (rs', r)" "rs = pr # rs'" "length q \<le> length p" "set q \<subseteq> set p" "0 \<le> prev'" "prev' < 128"
    and p: "0 \<notin> set (c # p)" "length buf = ESIZE"
    and ih: "\<And>p' first prev x rs buf. length p' < length p \<Longrightarrow> parse_class first prev (x # p') = Some (rs, r) \<Longrightarrow> first \<or> x \<noteq> 93 \<Longrightarrow>
      0 \<notin> set (x # p') \<Longrightarrow> length buf = ESIZE \<Longrightarrow> first \<or> 0 \<le> prev \<and> prev < 128 \<Longrightarrow>
      \<exists>buf'. class_loop ep first prev (sint x) (p' @ [0]) buf = Ok (Some (r @ [0], buf')) \<and> sets ep buf buf' (in_ranges rs)"
  shows "\<exists>buf'. class_loop ep first prev (sint c) (p @ [0]) buf = Ok (Some (r @ [0], buf')) \<and> sets ep buf buf' (in_ranges rs)"
proof (cases q)
  case (Cons x q')
  have l: "class_loop ep first prev (sint c) (p @ [0]) buf =
      (if x = 93 then Ok (Some (q' @ [0], b1)) else class_loop ep False prev' (sint x) (q' @ [0]) b1)"
    using c e by (subst class_loop.simps) (simp add: Cons)
  show ?thesis
  proof (cases "x = 93")
    case True
    then have "rs' = []" "r = q'" using q(1) by (auto simp: parse_class.simps Cons)
    then show ?thesis using b1 q(2) True by (auto simp: l)
  next
    case False
    have "length q' < length p" "0 \<notin> set (x # q')" "length b1 = ESIZE" using q(3,4) Cons p sets_length [OF b1] by auto
    then obtain b2 where b2: "class_loop ep False prev' (sint x) (q' @ [0]) b1 = Ok (Some (r @ [0], b2))" "sets ep b1 b2 (in_ranges rs')"
      using ih [of q' False prev' x rs' b1] q(1,5,6) False Cons by auto
    have "sets ep buf b2 (in_ranges rs)"
      by (rule sets_cong [OF sets_trans [OF b1 b2(2)]]) (simp only: q(2) in_ranges_Cons [of pr rs'])
    then show ?thesis using b2(1) False by (auto simp: l)
  qed
qed (use q(1) in \<open>simp add: parse_class.simps\<close>)

lemma class_loop_spec:
  assumes ep: "ep + 16 \<le> ESIZE"
  shows "parse_class first prev (c # p) = Some (rs, r) \<Longrightarrow> first \<or> c \<noteq> 93 \<Longrightarrow> 0 \<notin> set (c # p) \<Longrightarrow> length buf = ESIZE \<Longrightarrow>
    first \<or> 0 \<le> prev \<and> prev < 128 \<Longrightarrow>
    \<exists>buf'. class_loop ep first prev (sint c) (p @ [0]) buf = Ok (Some (r @ [0], buf')) \<and> sets ep buf buf' (in_ranges rs)"
proof (induction "length p" arbitrary: first prev c p rs buf rule: less_induct)
  case less
  have c: "c < 128" using less.prems(1) by (auto simp: parse_class.simps not_le [symmetric] split: if_split_asm)
  then have uc: "sint c = uint c" "0 \<le> uint c" "uint c < 128" "sint c \<noteq> 0" using less.prems(3) by (auto simp: small_sint word_less_def uint_0_iff)
  note rest = class_loop_rest [OF uc(4) _ _ _ _ _ _ _ _ less.prems(3,4) less.hyps]
  show ?case
  proof (cases "c = 45 \<and> \<not> first \<and> p \<noteq> [] \<and> hd p \<noteq> 93")
    case True
    then obtain d p' where p: "p = d # p'" "d \<noteq> 93" by (cases p) auto
    have d: "d < 128" using less.prems(1) True p by (auto simp: parse_class.simps [of _ _ "_ # _"] not_le [symmetric] split: if_split_asm)
    obtain rs' where rs: "parse_class False (uint d) p' = Some (rs', r)" "rs = (prev, uint d) # rs'"
      using less.prems(1) True p d by (auto simp: parse_class.simps [of _ _ "_ # _"] split: if_split_asm)
    have "0 \<le> prev" "prev < 128" "uint d < 128" using less.prems(5) True d by (auto simp: word_less_def)
    then obtain b1 b2 where b: "class_range ep prev (uint d) buf = Ok (max prev (uint d), b1)" "class_bit ep (max prev (uint d)) b1 = Ok b2"
        "sets ep buf b2 (in_ranges [(prev, uint d)])" using class_span_sets [OF ep _ _ _ less.prems(4)] by blast
    have "class_elem ep first prev (sint c) (p @ [0]) buf = Ok (uint d, p' @ [0], b2)"
      using b True by (simp add: class_elem_def p small_sint d)
    then show ?thesis by (rule rest [OF _ b(3) rs]) (use d p in \<open>auto simp: word_less_def\<close>)
  next
    case False
    then obtain rs' where rs: "parse_class False (uint c) p = Some (rs', r)" "rs = (uint c, uint c) # rs'"
      using less.prems(1,2) c by (auto simp: parse_class.simps [of _ _ "_ # _"] split: if_split_asm)
    obtain b1 where b: "class_bit ep (sint c) buf = Ok b1" "sets ep buf b1 (\<lambda>v. v = uint c)"
      using class_bit_sets [OF uc(2,3) ep less.prems(4)] uc(1) by auto
    have b': "sets ep buf b1 (in_ranges [(uint c, uint c)])" by (rule sets_cong [OF b(2)]) (auto simp: in_ranges_def)
    have "p \<noteq> []" using rs(1) by (auto simp: parse_class.simps)
    then have "class_elem ep first prev (sint c) (p @ [0]) buf = Ok (uint c, p @ [0], b1)"
      using b(1) False uc(1) word_uint_eqI [of c 45] by (cases p) (auto simp: class_elem_def c small_sint)
    then show ?thesis by (rule rest [OF _ b' rs]) (use uc in auto)
  qed
qed

text \<open>The sixteen bytes as they are then in the buffer, also negated, against what the matcher reads.\<close>

lemma sets_split:
  assumes s: "sets (length pre) (pre @ replicate n 0) buf R" and n: "16 \<le> n"
  obtains cl where "buf = pre @ cl @ replicate (n - 16) 0" "length cl = 16" "\<And>v. v < 128 \<Longrightarrow> bit (cl ! (v div 8)) (v mod 8) = R (int v)"
proof -
  let ?cl = "take 16 (drop (length pre) buf)"
  have len: "length buf = length pre + n" using sets_length [OF s] by simp
  have keep: "\<And>i. i < length pre \<or> length pre + 16 \<le> i \<Longrightarrow> buf ! i = (pre @ replicate n 0) ! i" using s by (auto simp: sets_def)
  have "buf = pre @ ?cl @ replicate (n - 16) 0"
    using len n by (intro nth_equalityI) (auto simp: nth_append keep)
  moreover have "bit (?cl ! (v div 8)) (v mod 8) = R (int v)" if "v < 128" for v
  proof -
    have "v div 8 < 16" using that by auto
    then have "?cl ! (v div 8) = buf ! (length pre + v div 8)" "(pre @ replicate n 0) ! (length pre + v div 8) = 0" using len n by (simp_all add: nth_append)
    then show ?thesis using s that by (simp add: sets_def)
  qed
  ultimately show ?thesis using that len n by force
qed

lemma negate_split:
  assumes "length cl = 16"
  obtains cl' where "negate_class (length pre) (pre @ cl @ z) = pre @ cl' @ z" "length cl' = 16"
    "\<And>v. v < 128 \<Longrightarrow> bit (cl' ! (v div 8)) (v mod 8) \<longleftrightarrow> v \<noteq> 0 \<and> \<not> bit (cl ! (v div 8)) (v mod 8)"
proof -
  let ?m = "map NOT cl"
  let ?cl = "?m[0 := ?m ! 0 AND 0xfe]"
  have "negate_class (length pre) (pre @ cl @ z) = pre @ ?cl @ z"
    using assms by (cases cl) (auto simp: negate_class_def Let_def patch_def list_update_append nth_append)
  moreover have "bit (?cl ! (v div 8)) (v mod 8) \<longleftrightarrow> v \<noteq> 0 \<and> \<not> bit (cl ! (v div 8)) (v mod 8)" if "v < 128" for v
  proof -
    have v: "v div 8 < 16" "v mod 8 < 8" using that by auto
    have "(0xfe :: uchar) = NOT 1" by simp
    then have fe: "bit (0xfe :: uchar) (v mod 8) \<longleftrightarrow> v mod 8 \<noteq> 0" using v(2) by (simp only: bit_simps) auto
    show ?thesis
    proof (cases "v div 8 = 0")
      case True
      then have "v < 8" by auto
      then show ?thesis using fe v assms by (auto simp: bit_simps)
    qed (use v assms in \<open>auto simp: bit_simps\<close>)
  qed
  ultimately show ?thesis using that assms by force
qed

lemma in_bits_bit: "in_bits cl x = bit (cl ! (unat (x AND 0x7f) div 8)) (unat (x AND 0x7f) mod 8)"
  by (simp add: in_bits_def Let_def bit_iff_and_push_bit_not_eq_0)

lemma parse_class_pos:
  "parse_class first prev p = Some (rs, r) \<Longrightarrow> 0 \<notin> set p \<Longrightarrow> first \<or> 0 < prev \<Longrightarrow> \<not> in_ranges rs 0 \<and> 0 \<notin> set r"
proof (induction "length p" arbitrary: first prev p rs rule: less_induct)
  case less
  have pos: "0 < uint x" if "x \<noteq> 0" for x :: uchar using that by (metis uint_0_iff uint_ge_0 order_le_less)
  from less.prems(1) show ?case
  proof (cases rule: parse_class_cases)
    case close
    then show ?thesis using less.prems by (simp add: in_ranges_def)
  next
    case (span d q rs')
    then have "\<not> in_ranges rs' 0 \<and> 0 \<notin> set r" using less.prems pos by (intro less.hyps [OF _ span(5)]) auto
    then show ?thesis using less.prems(3) span(2) by (simp add: span(6) in_ranges_Cons [of _ rs']) (simp add: in_ranges_def)
  next
    case (one c q rs')
    then have c: "0 < uint c" using less.prems(2) pos by simp
    then have "\<not> in_ranges rs' 0 \<and> 0 \<notin> set r" using less.prems(2) one(1) by (intro less.hyps [OF _ one(5)]) auto
    then show ?thesis using c by (simp add: one(6) in_ranges_Cons [of _ rs']) (simp add: in_ranges_def)
  qed
qed

text \<open>The buffer has the code so far, and zeros.\<close>

definition built :: "bytes \<Rightarrow> cstate \<Rightarrow> bool" where
  "built pre st \<longleftrightarrow> expbuf st = pre @ replicate (ESIZE - length pre) 0 \<and> epos st = length pre \<and> length pre \<le> ESIZE"

lemma emit_built:
  assumes "built pre st" "length pre < ESIZE"
  obtains st' where "emit c st = Ok st'" "built (pre @ [c]) st'" "lastep st' = lastep st"
proof -
  obtain n where n: "ESIZE - length pre = Suc n" using assms(2) by (metis Suc_diff_Suc)
  show thesis by (rule that [of "st\<lparr>expbuf := (expbuf st)[epos st := c], epos := epos st + 1\<rparr>"])
    (use assms n in \<open>auto simp: emit_def built_def list_update_append\<close>)
qed

lemma emit2_built:
  assumes "built pre st" "length pre + 1 < ESIZE"
  obtains st' where "emit2 c d st = Ok st'" "built (pre @ [c, d]) st'" "lastep st' = lastep st"
proof -
  obtain st1 where 1: "emit c st = Ok st1" "built (pre @ [c]) st1" "lastep st1 = lastep st" using emit_built [OF assms(1)] assms(2) by auto
  obtain st2 where 2: "emit d st1 = Ok st2" "built ((pre @ [c]) @ [d]) st2" "lastep st2 = lastep st1" using emit_built [OF 1(2)] assms(2) by auto
  show thesis by (rule that [of st2]) (use 1 2 in \<open>simp_all add: emit2_def\<close>)
qed

lemma class_body_spec:
  assumes b: "built pre st" "length pre + 16 \<le> ESIZE" and p: "parse_class True 0 p = Some (rs, r)" "0 \<notin> set p"
  obtains st' cl where "class_body neg (p @ [0]) st = Ok (r @ [0], st')" "built (pre @ cl) st'" "lastep st' = lastep st"
    "length cl = 16" "\<And>x. in_bits cl x = atom_ok (AClass neg rs) x"
proof -
  let ?z = "replicate (ESIZE - length pre - 16) 0"
  obtain c q where q: "p = c # q" using p(1) by (cases p) (auto simp: parse_class.simps)
  have st: "expbuf st = pre @ replicate (ESIZE - length pre) 0" "epos st = length pre" using b(1) by (auto simp: built_def)
  then have "length (expbuf st) = ESIZE" using b(2) by simp
  then obtain buf where buf: "class_loop (length pre) True 0 (sint c) (q @ [0]) (expbuf st) = Ok (Some (r @ [0], buf))"
      "sets (length pre) (expbuf st) buf (in_ranges rs)" using class_loop_spec [OF b(2), of True 0 c q rs r "expbuf st"] p q by auto
  have n: "16 \<le> ESIZE - length pre" using b(2) by simp
  obtain cl where cl: "buf = pre @ cl @ ?z" "length cl = 16" "\<And>v. v < 128 \<Longrightarrow> bit (cl ! (v div 8)) (v mod 8) = in_ranges rs (int v)"
    using sets_split [OF buf(2) [unfolded st(1)] n] by blast
  obtain cl' where cl': "negate_class (length pre) (pre @ cl @ ?z) = pre @ cl' @ ?z" "length cl' = 16"
      "\<And>v. v < 128 \<Longrightarrow> bit (cl' ! (v div 8)) (v mod 8) \<longleftrightarrow> v \<noteq> 0 \<and> \<not> bit (cl ! (v div 8)) (v mod 8)" using negate_split [OF cl(2)] by blast
  have v: "unat (x AND 0x7f) < 128" for x :: uchar using word_and_le1 [of x "0x7f"] by (simp add: word_le_nat_alt)
  have z: "\<not> in_ranges rs 0" using parse_class_pos p by blast
  let ?cl = "if neg then cl' else cl"
  let ?st = "st\<lparr>expbuf := pre @ ?cl @ ?z, epos := length pre + 16\<rparr>"
  have "class_body neg (p @ [0]) st = Ok (r @ [0], ?st)" using buf(1) cl(1) cl'(1) by (simp add: class_body_def q st(2))
  moreover have "built (pre @ ?cl) ?st" using cl(2) cl'(2) b(2) by (simp add: built_def)
  moreover have "in_bits ?cl x = atom_ok (AClass neg rs) x" for x
    using cl(3) [OF v, of x] cl'(3) [OF v, of x] z by (auto simp: in_bits_bit unat_eq_zero)
  ultimately show thesis using that [of ?st ?cl] cl(2) cl'(2) by simp
qed

lemma compile_class_spec:
  assumes b: "built pre st" "length pre + 17 < ESIZE" and p: "parse_atom (91 # p) = Some (a, r)" "0 \<notin> set p"
  obtains st' seg where "compile_class (p @ [0]) st = Ok (r @ [0], st')" "built (pre @ seg) st'" "lastep st' = lastep st" "item_code (a, False) seg"
proof -
  define neg where "neg = (take 1 p = [94])"
  define q where "q = (if neg then drop 1 p else p)"
  obtain rs where rs: "a = AClass neg rs" "parse_class True 0 q = Some (rs, r)" using p(1) by (auto simp: parse_atom_def neg_def q_def split: if_split_asm)
  have zq: "0 \<notin> set q" using p(2) by (auto simp: q_def dest: in_set_dropD)
  obtain st1 where st1: "emit CCL st = Ok st1" "built (pre @ [CCL]) st1" "lastep st1 = lastep st" using emit_built [OF b(1)] b(2) by auto
  obtain st2 cl where st2: "class_body neg (q @ [0]) st1 = Ok (r @ [0], st2)" "built ((pre @ [CCL]) @ cl) st2" "lastep st2 = lastep st1"
      "length cl = 16" "\<And>x. in_bits cl x = atom_ok (AClass neg rs) x" using class_body_spec [OF st1(2) _ rs(2) zq] b(2) by auto
  have t: "take 1 (p @ [0]) = [94] \<longleftrightarrow> neg" "neg \<Longrightarrow> drop 1 (p @ [0]) = q @ [0]" "\<not> neg \<Longrightarrow> p = q" by (cases p; simp add: neg_def q_def)+
  have "epos st = length pre" using b(1) by (simp add: built_def)
  then have "compile_class (p @ [0]) st = Ok (r @ [0], st2)" using b(2) st1(1) st2(1) t by (cases neg) (simp_all add: compile_class_def)
  then show thesis using that [of st2 "CCL # cl"] st1(3) st2 by (auto simp: rs(1))
qed

text \<open>One item, the stars behind it, and the rest of a pattern.\<close>

fun asize :: "atom \<Rightarrow> nat" where
  "asize (AChar c) = 2"
| "asize AAny = 1"
| "asize (AClass neg rs) = 17"

lemma item_code_length: "item_code (a, s) seg \<Longrightarrow> length seg = asize a"
  by (cases a) auto

lemma parse_atom_rest: "parse_atom p = Some (a, r) \<Longrightarrow> 0 \<notin> set p \<Longrightarrow> 0 \<notin> set r"
  by (cases p) (auto simp: parse_atom_def split: if_split_asm list.split_asm dest!: parse_class_pos [of True] dest: in_set_dropD)

lemma compile_loop_char:
  assumes b: "built pre st" "length pre + 1 < ESIZE" and c: "c \<notin> {0, 42, 46, 91, 92}" "c = 36 \<Longrightarrow> q \<noteq> [] \<and> hd q \<noteq> 0"
  obtains st' where "compile_loop False (c # q) st = compile_loop False q st'" "built (pre @ [CCHR, c]) st'" "lastep st' = Some (length pre)"
proof -
  have b': "built pre (st\<lparr>lastep := Some (epos st)\<rparr>)" "epos st = length pre" using b(1) by (auto simp: built_def)
  obtain st' where st': "emit2 CCHR c (st\<lparr>lastep := Some (epos st)\<rparr>) = Ok st'" "built (pre @ [CCHR, c]) st'"
      "lastep st' = lastep (st\<lparr>lastep := Some (epos st)\<rparr>)" using emit2_built [OF b'(1) b(2)] by blast
  have "compile_loop False (c # q) st = compile_loop False q st'"
    using b c b'(2) st'(1) by (subst compile_loop.simps) (auto simp: Let_def split: list.split)
  then show thesis using that st'(2,3) b'(2) by simp
qed

lemma compile_loop_atom:
  assumes p: "parse_atom p = Some (a, r)" "0 \<notin> set p" "p \<noteq> [36]" "hd p \<noteq> 42" and b: "built pre st" "length pre + asize a < ESIZE"
  obtains st' seg where "compile_loop False (p @ [0]) st = compile_loop False (r @ [0]) st'" "built (pre @ seg) st'" "lastep st' = Some (length pre)"
    "item_code (a, False) seg"
proof -
  let ?st = "st\<lparr>lastep := Some (epos st)\<rparr>"
  have b': "built pre ?st" "epos st = length pre" using b(1) by (auto simp: built_def)
  obtain c q where c: "p = c # q" using p(1) by (cases p) (auto simp: parse_atom_def)
  have lt: "epos st < ESIZE" using b(2) b'(2) by simp
  consider (any) "c = 46" | (cls) "c = 91" | (esc) "c = 92" | (char) "c \<notin> {0, 42, 46, 91, 92}" using p(2,4) c by auto
  then show thesis
  proof cases
    case any
    obtain st' where st': "emit CDOT ?st = Ok st'" "built (pre @ [CDOT]) st'" "lastep st' = lastep ?st" using emit_built [OF b'(1)] b(2) by auto
    have "a = AAny" "r = q" using p(1) any c by (auto simp: parse_atom_def)
    then show ?thesis using that [of st' "[CDOT]"] st' b'(2) any lt c by (simp add: compile_loop.simps [of _ "_ # _"] Let_def)
  next
    case cls
    have n: "length pre + 17 < ESIZE" using b(2) p(1) cls c by (auto simp: parse_atom_def split: if_split_asm)
    have "parse_atom (91 # q) = Some (a, r)" "0 \<notin> set q" using p(1,2) cls c by auto
    then obtain st' seg where st': "compile_class (q @ [0]) ?st = Ok (r @ [0], st')" "built (pre @ seg) st'" "lastep st' = lastep ?st" "item_code (a, False) seg"
      using compile_class_spec [OF b'(1) n] by blast
    then show ?thesis using that [of st' seg] b'(2) cls lt c by (simp add: compile_loop.simps [of _ "_ # _"] Let_def)
  next
    case esc
    then obtain d q' where d: "q = d # q'" "a = AChar d" "r = q'" "d \<notin> {60, 62, 40, 41}" "\<not> (49 \<le> d \<and> d \<le> 57)" "d \<noteq> 0"
      using p(1,2) c by (cases q) (auto simp: parse_atom_def split: if_split_asm)
    obtain st' where st': "emit2 CCHR d ?st = Ok st'" "built (pre @ [CCHR, d]) st'" "lastep st' = lastep ?st" using emit2_built [OF b'(1)] b(2) d(2) by auto
    have "compile_escape d ?st = Ok st'" using d(4-6) st'(1) by (auto simp: compile_escape_def)
    then show ?thesis using that [of st' "[CCHR, d]"] st' b'(2) esc lt c d by (simp add: compile_loop.simps [of _ "_ # _"] Let_def)
  next
    case char
    then have a: "a = AChar c" "r = q" using p(1) c by (auto simp: parse_atom_def)
    have d: "c = 36 \<Longrightarrow> q @ [0] \<noteq> [] \<and> hd (q @ [0]) \<noteq> 0" using p(2,3) c by (cases q) auto
    obtain st' where st': "compile_loop False (c # q @ [0]) st = compile_loop False (q @ [0]) st'" "built (pre @ [CCHR, c]) st'" "lastep st' = Some (length pre)"
      using compile_loop_char [OF b(1) _ char d] b(2) a by auto
    then show ?thesis using that [of st' "[CCHR, c]"] a c char by simp
  qed
qed

lemma compile_loop_stars:
  assumes "built (pre @ seg) st" "lastep st = Some (length pre)" "item_code (a, s) seg" "length (pre @ seg) < ESIZE"
  shows "\<exists>st' seg'. compile_loop False (replicate n 42 @ q) st = compile_loop False q st' \<and> built (pre @ seg') st' \<and> item_code (a, s \<or> 0 < n) seg'"
  using assms
proof (induction n arbitrary: st seg s)
  case (Suc n)
  obtain op cl where seg: "seg = op # cl" using item_code_Cons Suc.prems(3) by blast
  have op: "item_code (a, True) ((op OR STAR) # cl)" "op \<notin> {CBRA, CKET, CBRC, CLET}"
    using Suc.prems(3) seg by (cases a; cases s; auto simp: opcodes)+
  have x: "expbuf st ! length pre = op" "epos st < ESIZE" using Suc.prems(1,4) seg by (auto simp: built_def nth_append)
  let ?st = "st\<lparr>expbuf := (expbuf st)[length pre := op OR STAR]\<rparr>"
  have "compile_loop False (replicate (Suc n) 42 @ q) st = compile_loop False (replicate n 42 @ q) ?st"
    using x op(2) Suc.prems(2) by (subst compile_loop.simps) (simp add: Let_def)
  moreover have "built (pre @ (op OR STAR) # cl) ?st" using Suc.prems(1) seg by (auto simp: built_def list_update_append)
  ultimately show ?case using Suc.IH [of "(op OR STAR) # cl" ?st True] Suc.prems(2,4) op(1) seg by simp
qed auto

text \<open>The items of a pattern, whose stars repeat what is before them, and a whole pattern; stars at its beginning are characters.\<close>

function parse_items :: "bytes \<Rightarrow> ((atom \<times> bool) list \<times> bool) option" where
  "parse_items p =
     (if p = [] then Some ([], False)
      else if p = [36] then Some ([], True)
      else
        (case parse_atom p of
           None \<Rightarrow> None
         | Some (a, r) \<Rightarrow> map_option (apfst ((#) (a, take 1 r = [42]))) (parse_items (dropWhile (\<lambda>c. c = 42) r))))"
  by pat_completeness auto

termination
  by (relation "measure length") (auto dest!: parse_atom_length intro: le_less_trans [OF length_dropWhile_le])

declare parse_items.simps [simp del]

definition parse_re :: "bytes \<Rightarrow> (bool \<times> (atom \<times> bool) list \<times> bool) option" where
  "parse_re p =
     (let circ = (take 1 p = [94]); q = (if circ then drop 1 p else p) in
      map_option (\<lambda>(is, eol). (circ, map (\<lambda>c. (AChar c, False)) (takeWhile (\<lambda>c. c = 42) q) @ is, eol)) (parse_items (dropWhile (\<lambda>c. c = 42) q)))"

definition code_size :: "(atom \<times> bool) list \<Rightarrow> nat" where
  "code_size is = sum_list (map (asize \<circ> fst) is)"

lemma code_size_simps [simp]: "code_size [] = 0" "code_size (i # is) = asize (fst i) + code_size is" "code_size (is @ js) = code_size is + code_size js"
  by (simp_all add: code_size_def)

lemma star_prefix: "takeWhile (\<lambda>c. c = 42) r = replicate (length (takeWhile (\<lambda>c. c = 42) r)) (42 :: uchar)"
  by (induction r) auto

lemma compile_loop_end:
  assumes b: "built pre st" "length pre + 2 \<le> ESIZE"
  shows "\<exists>st' r. compile_loop False [0] st = Ok st' \<and> expbuf st' = pre @ CEOF # r"
    and "\<exists>st' r. compile_loop False [36, 0] st = Ok st' \<and> expbuf st' = pre @ CDOL # CEOF # r"
proof -
  have b': "built pre (st\<lparr>lastep := Some (epos st)\<rparr>)" "epos st < ESIZE" using b by (auto simp: built_def)
  have last: "\<exists>st' r. compile_loop False [0] st = Ok st' \<and> expbuf st' = pre @ CEOF # r" if b: "built pre st" "length pre < ESIZE" for pre st
  proof -
    have b': "built pre (st\<lparr>lastep := Some (epos st)\<rparr>)" "epos st < ESIZE" using b by (auto simp: built_def)
    obtain st' where st': "emit CEOF (st\<lparr>lastep := Some (epos st)\<rparr>) = Ok st'" "built (pre @ [CEOF]) st'" using emit_built [OF b'(1) b(2)] by blast
    then show ?thesis using b'(2) by (subst compile_loop.simps) (auto simp: built_def Let_def)
  qed
  show "\<exists>st' r. compile_loop False [0] st = Ok st' \<and> expbuf st' = pre @ CEOF # r" using last [OF b(1)] b(2) by simp
  obtain st1 where st1: "emit CDOL (st\<lparr>lastep := Some (epos st)\<rparr>) = Ok st1" "built (pre @ [CDOL]) st1" using emit_built [OF b'(1)] b(2) by auto
  have "compile_loop False [36, 0] st = compile_loop False [0] st1" using b'(2) st1(1) by (subst compile_loop.simps) (simp add: Let_def)
  then show "\<exists>st' r. compile_loop False [36, 0] st = Ok st' \<and> expbuf st' = pre @ CDOL # CEOF # r" using last [OF st1(2)] b(2) by auto
qed

lemma compile_loop_items:
  "parse_items p = Some (is, eol) \<Longrightarrow> 0 \<notin> set p \<Longrightarrow> p = [] \<or> hd p \<noteq> 42 \<Longrightarrow> built pre st \<Longrightarrow> length pre + code_size is + 2 \<le> ESIZE \<Longrightarrow>
   \<exists>st' code. compile_loop False (p @ [0]) st = Ok st' \<and> expbuf st' = pre @ code \<and> codes is eol code"
proof (induction "is" arbitrary: p pre st)
  case Nil
  then have "p = [] \<and> \<not> eol \<or> p = [36] \<and> eol" by (subst (asm) parse_items.simps) (auto split: if_split_asm option.split_asm)
  then show ?case using compile_loop_end [OF Nil(4)] Nil(5) by fastforce
next
  case (Cons i "is")
  then obtain a r where a: "p \<noteq> []" "p \<noteq> [36]" "parse_atom p = Some (a, r)" "i = (a, take 1 r = [42])" "parse_items (dropWhile (\<lambda>c. c = 42) r) = Some (is, eol)"
    by (subst (asm) parse_items.simps) (auto split: if_split_asm option.split_asm)
  obtain st1 seg where 1: "compile_loop False (p @ [0]) st = compile_loop False (r @ [0]) st1" "built (pre @ seg) st1" "lastep st1 = Some (length pre)"
      "item_code (a, False) seg" using compile_loop_atom [OF a(3) Cons.prems(2) a(2) _ Cons.prems(4)] Cons.prems(3,5) a(1,4) by auto
  define n where "n = length (takeWhile (\<lambda>c. c = 42) r)"
  define w where "w = dropWhile (\<lambda>c. c = 42) r"
  have r: "r @ [0] = replicate n 42 @ w @ [0]" by (metis append_assoc n_def star_prefix takeWhile_dropWhile_id w_def)
  have s: "take 1 r = [42] \<longleftrightarrow> 0 < n" by (cases r) (auto simp: n_def)
  have "length (pre @ seg) < ESIZE" using item_code_length [OF 1(4)] Cons.prems(5) a(4) by simp
  then obtain st2 seg' where 2: "compile_loop False (r @ [0]) st1 = compile_loop False (w @ [0]) st2" "built (pre @ seg') st2" "item_code i seg'"
    using compile_loop_stars [OF 1(2,3,4), of n "w @ [0]"] r s a(4) by auto
  have l: "length seg' = asize a" using item_code_length 2(3) a(4) by auto
  have "0 \<notin> set (w)" using parse_atom_rest [OF a(3) Cons.prems(2)] by (auto simp: w_def dest: set_dropWhileD)
  moreover have "w = [] \<or> hd (w) \<noteq> 42" unfolding w_def using hd_dropWhile by blast
  ultimately obtain st' code where "compile_loop False (w @ [0]) st2 = Ok st'" "expbuf st' = (pre @ seg') @ code" "codes is eol code"
    using Cons.IH [OF a(5) [folded w_def] _ _ 2(2)] Cons.prems(5) l a(4) by auto
  then show ?case using 1(1) 2(1,3) by auto
qed

lemma compile_loop_lead:
  assumes "built pre st" "lastep st = None" "length pre + 2 * n < ESIZE"
  shows "\<exists>st'. compile_loop False (replicate n 42 @ q) st = compile_loop False q st' \<and> built (pre @ concat (replicate n [CCHR, 42])) st'"
  using assms
proof (induction n arbitrary: pre st)
  case (Suc n)
  obtain st1 where st1: "emit2 CCHR 42 st = Ok st1" "built (pre @ [CCHR, 42]) st1" "lastep st1 = lastep st"
    using emit2_built [OF Suc.prems(1)] Suc.prems(3) by auto
  have "epos st < ESIZE" using Suc.prems by (auto simp: built_def)
  then have "compile_loop False (replicate (Suc n) 42 @ q) st = compile_loop False (replicate n 42 @ q) st1"
    using Suc.prems(2) st1(1) by (subst compile_loop.simps) (simp add: Let_def)
  then show ?case using Suc.IH [OF st1(2)] Suc.prems(2,3) st1(3) by simp
qed auto

lemma codes_lead: "codes is eol code \<Longrightarrow> codes (replicate n (AChar 42, False) @ is) eol (concat (replicate n [CCHR, 42]) @ code)"
proof (induction n)
  case (Suc n)
  then show ?case by (auto intro!: exI [of _ "[CCHR, 42]"])
qed simp

text \<open>A pattern of the language whose code fits is compiled to its items.\<close>

lemma compile_spec:
  assumes p: "parse_re p = Some (circ, is, eol)" "0 \<notin> set p" and n: "code_size is + 2 \<le> ESIZE"
  obtains buf where "compile False (p @ [0]) = Ok (buf, circ)" "codes is eol buf"
proof -
  define q where "q = (if circ then drop 1 p else p)"
  define k where "k = length (takeWhile (\<lambda>c. c = 42) q)"
  define w where "w = dropWhile (\<lambda>c. c = 42) q"
  obtain js where circ: "circ = (take 1 p = [94])" and js: "parse_items w = Some (js, eol)" and "is": "is = map (\<lambda>c. (AChar c, False)) (takeWhile (\<lambda>c. c = 42) q) @ js"
    using p(1) by (auto simp: parse_re_def Let_def w_def q_def split: if_split_asm)
  have q: "q @ [0] = replicate k 42 @ w @ [0]" by (metis append_assoc k_def star_prefix takeWhile_dropWhile_id w_def)
  have is': "is = replicate k (AChar 42, False) @ js" unfolding "is" by (subst star_prefix) (simp add: k_def)
  have zq: "0 \<notin> set w" using p(2) by (auto simp: w_def q_def dest!: set_dropWhileD dest: in_set_dropD)
  have hw: "w = [] \<or> hd w \<noteq> 42" unfolding w_def using hd_dropWhile by blast
  have k: "code_size is = 2 * k + code_size js" by (simp add: is' code_size_def sum_list_replicate)
  let ?st = "\<lparr>expbuf = replicate ESIZE 0, epos = 0, lastep = None, brackets = [], nclosed = 0, numbra = 0\<rparr>"
  have "built [] ?st" by (simp add: built_def)
  then obtain st1 where 1: "compile_loop False (q @ [0]) ?st = compile_loop False (w @ [0]) st1" "built (concat (replicate k [CCHR, 42])) st1"
    using compile_loop_lead [of "[]" ?st k "w @ [0]"] n k by (auto simp: q)
  have "length (concat (replicate k [CCHR, 42])) = 2 * k" by (induction k) auto
  then obtain st' code where 2: "compile_loop False (w @ [0]) st1 = Ok st'" "expbuf st' = concat (replicate k [CCHR, 42]) @ code" "codes js eol code"
    using compile_loop_items [OF js zq hw 1(2)] n k by auto
  have "compile False (p @ [0]) = Ok (expbuf st', circ)"
    using 1(1) 2(1) by (cases p) (auto simp: compile_def Let_def q_def circ)
  then show thesis using that codes_lead [OF 2(3)] 2(2) is' by simp
qed

section \<open>The lines selected\<close>

text \<open>A text of whole lines, and what is behind the last newline; lines are shorter than the buffer.\<close>

definition line_ok :: "bytes \<Rightarrow> bool" where
  "line_ok l \<longleftrightarrow> 0 \<notin> set l \<and> 10 \<notin> set l \<and> length l + 1 < LBSIZE"

definition text_of :: "bytes list \<Rightarrow> bytes \<Rightarrow> bytes" where
  "text_of ls rest = concat (map (\<lambda>l. l @ [10]) ls) @ rest"

lemma read_line_end: "10 \<notin> set l \<Longrightarrow> length l < n \<Longrightarrow> read_line n l = None"
  by (induction l arbitrary: n) auto

lemma read_line_line: "10 \<notin> set l \<Longrightarrow> length l < n \<Longrightarrow> read_line n (l @ 10 # r) = Some (l, r)"
  by (induction l arbitrary: n) auto

text \<open>The numbered lines that are selected, and what grep writes for them.\<close>

definition selected :: "flags \<Rightarrow> bool \<times> (atom \<times> bool) list \<times> bool \<Rightarrow> nat \<Rightarrow> bytes list \<Rightarrow> (nat \<times> bytes) list" where
  "selected fl re k ls = filter (\<lambda>(_, l). finds (fst re) (fst (snd re)) (snd (snd re)) l \<noteq> vflag fl) (enumerate k ls)"

definition line_output :: "flags \<Rightarrow> bytes \<Rightarrow> nat \<times> bytes \<Rightarrow> printed list" where
  "line_output fl f = (\<lambda>(k, l). (if nfile fl > 1 \<and> hflag fl then [PName f] else []) @ (if bflag fl then [PBlock] else []) @
     (if nflag fl then [PNumber (of_nat k)] else []) @ [PLine l])"

definition count_output :: "flags \<Rightarrow> bytes \<Rightarrow> uint \<Rightarrow> printed list" where
  "count_output fl f n = (if cflag fl then (if nfile fl > 1 then [PName f] else []) @ [PCount n] else [])"

definition file_output :: "flags \<Rightarrow> bytes \<Rightarrow> uint \<Rightarrow> (nat \<times> bytes) list \<Rightarrow> printed list" where
  "file_output fl f n sel =
     (if sflag fl \<or> cflag fl then [] else if lflag fl then (if sel = [] then [] else [PFile f]) else concat (map (line_output fl f) sel)) @
     count_output fl f (n + (if sflag fl then 0 else of_nat (length sel)))"

lemma selected_simps:
  "selected fl re k [] = []"
  "selected fl re k (l # ls) = (if finds (fst re) (fst (snd re)) (snd (snd re)) l \<noteq> vflag fl then (k, l) # selected fl re (Suc k) ls else selected fl re (Suc k) ls)"
  by (simp_all add: selected_def)

lemma execute_loop_end:
  "10 \<notin> set rest \<Longrightarrow> length rest + 1 < LBSIZE \<Longrightarrow>
   \<exists>st'. execute_loop fl f code rest g st = Ok (g, st') \<and> outp st' = outp st @ count_output fl f (tln st) \<and> nsucc st' = nsucc st"
  by (subst execute_loop.simps) (simp add: read_line_end count_output_def Let_def)

lemma execute_loop_spec:
  assumes c: "codes is eol ep" and rest: "10 \<notin> set rest" "length rest + 1 < LBSIZE"
  shows "list_all line_ok ls \<Longrightarrow> lnum st = of_nat k \<Longrightarrow>
    \<exists>st'. execute_loop fl f (ep, circ) (text_of ls rest) g st = Ok (g, st') \<and>
      outp st' = outp st @ file_output fl f (tln st) (selected fl (circ, is, eol) (Suc k) ls) \<and>
      nsucc st' = (nsucc st \<or> selected fl (circ, is, eol) (Suc k) ls \<noteq> [])"
proof (induction ls arbitrary: st k)
  case Nil
  show ?case using execute_loop_end [OF rest, of fl f "(ep, circ)" g st] by (simp add: text_of_def selected_simps file_output_def)
next
  case (Cons l ls)
  have l: "0 \<notin> set l" "10 \<notin> set l" "length l < LBSIZE - 1" and ok: "list_all line_ok ls" using Cons.prems(1) by (simp_all, auto simp: line_ok_def)
  let ?st = "st\<lparr>lnum := lnum st + 1\<rparr>"
  have "read_line (LBSIZE - Suc 0) (text_of (l # ls) rest) = Some (l, text_of ls rest)" using read_line_line [OF l(2,3)] by (simp add: text_of_def)
  then have step: "execute_loop fl f (ep, circ) (text_of (l # ls) rest) g st =
      (if finds circ is eol l \<noteq> vflag fl then
         (let (st, wind) = succeed fl f l ?st in execute_loop fl f (ep, circ) (if wind then [] else text_of ls rest) g st)
       else execute_loop fl f (ep, circ) (text_of ls rest) g ?st)"
    by (subst execute_loop.simps) (simp add: match_line_spec [OF c l(1)] Let_def)
  have num: "lnum (x\<lparr>lnum := lnum st + 1\<rparr>) = of_nat (Suc k)" for x using Cons.prems(2) by simp
  have z: "takeWhile (\<lambda>c. c \<noteq> 0) l = l" using l(1) by (auto simp: takeWhile_eq_all_conv)
  show ?case
  proof (cases "finds circ is eol l \<noteq> vflag fl")
    case False
    then show ?thesis using Cons.IH [OF ok, of ?st "Suc k"] Cons.prems(2) by (simp add: step selected_simps)
  next
    case True
    obtain st1 wind where s: "succeed fl f l ?st = (st1, wind)" by (cases "succeed fl f l ?st")
    have s1: "lnum st1 = of_nat (Suc k)" "nsucc st1" "wind \<longleftrightarrow> \<not> sflag fl \<and> \<not> cflag fl \<and> lflag fl"
      "tln st1 = tln st + (if \<not> sflag fl \<and> cflag fl then 1 else 0)"
      "outp st1 = outp st @ (if sflag fl \<or> cflag fl then [] else if lflag fl then [PFile f] else line_output fl f (Suc k, l))"
      using s Cons.prems(2) z by (auto simp: succeed_def Let_def line_output_def split: if_split_asm)
    show ?thesis
    proof (cases wind)
      case w: True
      obtain st' where "execute_loop fl f (ep, circ) [] g st1 = Ok (g, st')" "outp st' = outp st1 @ count_output fl f (tln st1)" "nsucc st' = nsucc st1"
        using execute_loop_end [of "[]" fl f "(ep, circ)" g st1] by (auto simp: LBSIZE_def)
      then show ?thesis using True s s1 w by (simp add: step selected_simps file_output_def count_output_def)
    next
      case w: False
      obtain st' where "execute_loop fl f (ep, circ) (text_of ls rest) g st1 = Ok (g, st')"
          "outp st' = outp st1 @ file_output fl f (tln st1) (selected fl (circ, is, eol) (Suc (Suc k)) ls)" "nsucc st'"
        using Cons.IH [OF ok s1(1)] s1(2) by auto
      then show ?thesis using True s s1 w by (auto simp: step selected_simps file_output_def count_output_def add.assoc)
    qed
  qed
qed

lemma execute_spec:
  assumes "codes is eol ep" "10 \<notin> set rest" "length rest + 1 < LBSIZE" "list_all line_ok ls"
  shows "\<exists>st'. execute fl f (ep, circ) (Some (text_of ls rest)) g st = Ok (g, st', False) \<and>
    outp st' = outp st @ file_output fl f 0 (selected fl (circ, is, eol) 1 ls) \<and> nsucc st' = (nsucc st \<or> selected fl (circ, is, eol) 1 ls \<noteq> [])"
  using execute_loop_spec [OF assms, of "st\<lparr>lnum := 0, tln := 0\<rparr>" 0 fl f circ g] by (auto simp: execute_def)

lemma execute_files_spec:
  assumes c: "codes is eol ep"
  shows "(\<And>f. f \<in> set files \<Longrightarrow> fs f = Some (text_of (lines f) (rest f)) \<and> list_all line_ok (lines f) \<and> 10 \<notin> set (rest f) \<and> length (rest f) + 1 < LBSIZE) \<Longrightarrow>
    \<exists>st'. execute_files fl fs (ep, circ) files g st bad = Ok (st', bad) \<and>
      outp st' = outp st @ concat (map (\<lambda>f. file_output fl f 0 (selected fl (circ, is, eol) 1 (lines f))) files) \<and>
      nsucc st' = (nsucc st \<or> (\<exists>f \<in> set files. selected fl (circ, is, eol) 1 (lines f) \<noteq> []))"
proof (induction files arbitrary: st)
  case (Cons f files)
  obtain st1 where 1: "execute fl f (ep, circ) (fs f) g st = Ok (g, st1, False)"
      "outp st1 = outp st @ file_output fl f 0 (selected fl (circ, is, eol) 1 (lines f))"
      "nsucc st1 = (nsucc st \<or> selected fl (circ, is, eol) 1 (lines f) \<noteq> [])"
    using execute_spec [OF c, of "rest f" "lines f" fl f circ g st] Cons.prems [of f] by auto
  obtain st2 where "execute_files fl fs (ep, circ) files g st1 bad = Ok (st2, bad)"
      "outp st2 = outp st1 @ concat (map (\<lambda>f. file_output fl f 0 (selected fl (circ, is, eol) 1 (lines f))) files)"
      "nsucc st2 = (nsucc st1 \<or> (\<exists>f \<in> set files. selected fl (circ, is, eol) 1 (lines f) \<noteq> []))"
    using Cons.IH [of st1] Cons.prems by auto
  then show ?case using 1 by auto
qed simp



section \<open>Patterns the code mishandles\<close>

text \<open>An open range at the end of the pattern, a word at the beginning of a line, a repeated reference to an empty group, and a pattern that nearly fills the buffer.\<close>

lemma open_range_faults: "compile False [91, 97, 45, 0] = Fault"
  by code_simp

lemma word_start_faults:
  "rbind (compile False [92, 60, 97, 0]) (\<lambda>code. rbind (match_line code [97, 0] \<lparr>braslist = (\<lambda>_. 0), braelist = (\<lambda>_. None)\<rparr>) (\<lambda>(found, g). Ok found)) = Fault"
  by code_simp

lemma empty_reference_hangs:
  "rbind (compile False [92, 40, 92, 41, 92, 49, 42, 0]) (\<lambda>code. rbind (match_line code [97, 0] \<lparr>braslist = (\<lambda>_. 0), braelist = (\<lambda>_. None)\<rparr>) (\<lambda>(found, g). Ok found)) = Hang"
  by code_simp

lemma full_buffer_faults: "compile False (46 # replicate 128 97 @ [0]) = Fault"
  by code_simp

end
