(* ===== verification/Spec2Isabelle.thy ===== *)
theory Spec2Isabelle
  imports Prelude Frames Bio Log Kstate Kstring Balloc Inode Fdata Ftree Fgrow Ftrunc Dir Namei Pipe Fsframe File Filegrow Sysfile Fdrefs Syscalls Sysgrow Proc Procprops Exec Cprintf Procrefs Boot Mkfs Stdsort Stdqsort Malloc Mallocprops Ctype Strconv Vis Fnmatch Shell Grep Grepprops
begin

text \<open>
  A verification of xv6 for the rosco r2, a machine with a Motorola 68000 (sources under \<open>src\<close>): the whole of the
  kernel's C code (\<open>kern\<close>), the tool that makes its file systems (\<open>tools/mkfs.c\<close>), and from user space parts of the C
  library (\<open>lib/stdlib\<close>, \<open>lib/gen\<close>, \<open>lib/locale\<close>: the memory allocator, sorting and searching, classes of characters, the conversion of numbers, visible
  encodings, the matching of file names), the parser of the shell (\<open>cmds/simple/sh.c\<close>) and grep (\<open>cmds/simple/grep.c\<close>).

  \<^bold>\<open>Parts and how they interact.\<close>
  The kernel runs one process at a time, without preemption inside the kernel, so that a routine runs to its end unless it calls
  \<open>sleep\<close>. From the bottom: the block device moves 512-byte blocks (\<open>blkrw\<close>); the buffer cache keeps copies of blocks (\<open>bread\<close>,
  \<open>bwrite\<close>, \<open>brelse\<close>) and writes a block back when its buffer is recycled or at \<open>bflush\<close>; the log groups writes of blocks into
  transactions (\<open>begin_op\<close>, \<open>log_write\<close>, \<open>end_op\<close>); the block allocator, the inodes and the directories of \<open>fs.c\<close> are
  built on these; open files, pipes and the console stand behind descriptors (\<open>file.c\<close>, \<open>pipe.c\<close>, \<open>sysfile.c\<close>); and
  processes own descriptors, a current directory and frames of memory (\<open>proc.c\<close>, \<open>frames.c\<close>, \<open>exec.c\<close>). The state is one
  record that grows along this order: \<open>bio_state\<close>, \<open>log_state\<close>, \<open>kern_state\<close>, \<open>fs_state\<close>, \<open>file_state\<close>, \<open>proc_state\<close>, each
  extending the one before it, so that an operation of a lower part, defined on every extension, is called as it is from
  the parts above.

  \<^bold>\<open>Outcomes.\<close>
  A routine that can fail has a result in \<open>res\<close>: \<open>Ok\<close>, \<open>Panic\<close> with the message given to the kernel's \<open>panic\<close> (in \<open>Malloc\<close> and
  \<open>Shell\<close>: the message with which the program exits), \<open>Hang\<close> when it would loop forever, \<open>Fault\<close> for an access C leaves
  undefined. Properties are of total correctness: they state \<open>Ok\<close> with the result, or with \<open>wp\<close> that the routine
  returns and what then holds. A routine that sleeps stops at the context switch and says how far it came (\<open>Wait\<close>); its
  continuation is a definition of its own (\<open>piperead_resume\<close>, \<open>pipewrite_resume\<close>, \<open>sys_wait_resume\<close>).

  \<^bold>\<open>The theories.\<close>
  \<^item> \<open>Prelude\<close>: machine integers, outcomes, big-endian loads and stores, and the locale \<open>slot_table\<close> of a table searched for a
    free slot. It is interpreted for open files and pipes (\<open>File\<close>), descriptors (\<open>Fdrefs\<close>) and processes (\<open>Procprops\<close>).
  \<^item> \<open>Frames\<close> (\<open>kern/frames.c\<close>): \<open>finit\<close>, \<open>freeframes\<close>, \<open>allocframes\<close>; exactly when an allocation succeeds and what it gives (C1).
  \<^item> \<open>Bio\<close> (\<open>kern/bio.c\<close>, \<open>blkrw\<close> of \<open>kern/usbblk.c\<close>): the doubly linked list of buffers as the code keeps it. The invariant \<open>bio_inv\<close> is
    kept by every operation; the logical contents of a block do not change under reading and eviction (C2) and reach the
    device at \<open>bflush\<close> (C3). The locale \<open>block_cache\<close> is what the file system uses of the cache: it is interpreted for \<open>bwrite\<close>
    here and for \<open>log_write\<close> in \<open>Log\<close>.
  \<^item> \<open>Log\<close> (\<open>kern/log.c\<close>, \<open>readsb\<close>): recovery from a written header (C4), the cycle of a transaction (C5), absorption of
    blocks written twice (\<open>log_write_absorbs\<close>).
  \<^item> \<open>Kstate\<close> (\<open>kern/clock.c\<close>, \<open>sleep\<close>, \<open>wakeup\<close>, \<open>kill\<close> and \<open>scheduler\<close> of \<open>kern/proc.c\<close>): one running process along the steps of the
    scheduler (C7), sleeping and waking (C8), the sleep system call (C9).
  \<^item> \<open>Kstring\<close> (\<open>kern/string.c\<close>): comparison and bounded copies (\<open>string_routines\<close>).
  \<^item> \<open>Balloc\<close>, \<open>Inode\<close>, \<open>Fdata\<close>, \<open>Ftree\<close>, \<open>Fgrow\<close>, \<open>Ftrunc\<close>, \<open>Dir\<close>, \<open>Namei\<close>, \<open>Fsframe\<close> (\<open>kern/fs.c\<close>): the bitmap (C12, \<open>bfree_correct\<close>); inodes on disk and in the cache (C14, C15);
    the contents of a file over direct and doubly indirect blocks, read and overwritten (\<open>readi_correct\<close>); the tree of a file's blocks and how \<open>bmap\<close>
    adds to it, so that \<open>writei\<close> implements a resizable array of bytes (C17); truncation and the last \<open>iput\<close>, which free exactly
    the blocks of the file (C10); path components,
    lookup and entry of names (C18, \<open>dirlookup_correct\<close>, C20); paths, which end where a walk over the directories on the disk ends (C19); what no operation of the file system touches.
  \<^item> \<open>Pipe\<close> (\<open>kern/pipe.c\<close>): the ring refines a queue, by the locale \<open>byte_queue\<close> and its interpretation on the ring (C21); transfers (\<open>pipe_transfer\<close>),
    blocking and resumption (C23).
  \<^item> \<open>File\<close>, \<open>Filegrow\<close> (\<open>kern/file.c\<close>, \<open>pipealloc\<close>, the console): the ends of pipes along any sequence of calls (C24), writes split into
    transactions, through which a file grows (C25).
  \<^item> \<open>Sysfile\<close>, \<open>Fdrefs\<close>, \<open>Syscalls\<close>, \<open>Sysgrow\<close> (\<open>kern/sysfile.c\<close>): every file-system call; errors on descriptors (C26); any sequence of \<open>write\<close>, \<open>lseek\<close> and
    \<open>read\<close> refines an abstract file system, by the locale \<open>simulation\<close> and its interpretation on the calls (C27); the terminal (\<open>terminal_modes\<close>), the unbalanced \<open>fchdir\<close> (C29).
  \<^item> \<open>Proc\<close>, \<open>Procprops\<close>, \<open>Exec\<close>, \<open>Procrefs\<close> (\<open>kern/proc.c\<close>, \<open>kern/kalloc.c\<close>, \<open>kern/exec.c\<close>): isolation of \<open>fork\<close> (C31), \<open>exit\<close> and \<open>wait\<close> (C32),
    the break (C33), the arguments of a new program (C34), and reference counts of open files over all processes (C36).
  \<^item> \<open>Cprintf\<close> (\<open>kern/cprintf.c\<close>, C35); \<open>Boot\<close> (\<open>kern/kinit.c\<close>, \<open>usbblk.c\<close>, \<open>sdblk.c\<close>, \<open>main.c\<close>): the SD driver does what the CH375 driver
    does (C37), and the initialisation establishes the invariants of the components (C38).
  \<^item> \<open>Mkfs\<close> (\<open>tools/mkfs.c\<close>): its bitmap is the one the kernel reads (C39).
  \<^item> \<open>Malloc\<close>, \<open>Mallocprops\<close> (\<open>lib/stdlib/malloc.c\<close>): the allocator in the bytes of its arena, with the links of its two lists
    in the memory itself; along any run of a client the blocks it holds are disjoint and keep their contents (C30).
  \<^item> \<open>Stdsort\<close> (\<open>lib/stdlib/heapsort.c\<close>, \<open>bsearch.c\<close>): heapsort sorts and bsearch finds (C40).
  \<^item> \<open>Stdqsort\<close> (\<open>lib/stdlib/qsort.c\<close>): quicksort with insertion sort for short segments ends and sorts (C16).
  \<^item> \<open>Ctype\<close> (\<open>include/ctype.h\<close>, \<open>lib/locale/table.c\<close>): classes of characters, used by the next two. \<open>Strconv\<close> (\<open>lib/stdlib/strtol.c\<close>, \<open>strtoul.c\<close>,
    \<open>atol.c\<close>, \<open>atoi.c\<close>): the arithmetic of the machine gives the value of the numeral, cut off at the limits of the type (C28).
  \<^item> \<open>Vis\<close> (\<open>lib/gen/vis.c\<close>, \<open>unvis.c\<close>): the state machine of the decoder gives back what was encoded (C22).
  \<^item> \<open>Fnmatch\<close> (\<open>lib/gen/fnmatch.c\<close>): the matcher decides the language of the pattern (C6).
  \<^item> \<open>Shell\<close> (\<open>cmds/simple/sh.c\<close>): parsing ends, and reads back every command written as a line (C11).
  \<^item> \<open>Grep\<close>, \<open>Grepprops\<close> (\<open>cmds/simple/grep.c\<close>): the compiler of patterns, the matcher and the command around them; the lines selected are those
    that a reference semantics of the pattern finds (C13); four patterns that the code mishandles.

  \<^bold>\<open>Bounds and fuel.\<close>
  Loops whose end needs an invariant take fuel, and running out is \<open>Hang\<close>. The scans of the buffer list have \<open>BFUEL\<close> steps, one more
  than there are buffers, which the list invariant shows to be enough; the scans of \<open>balloc\<close> have one step per bit and per bitmap
  block; the walks over the free list of \<open>malloc\<close> have \<open>HFUEL\<close> steps, one per address; the loop that loads a program and the
  loop of \<open>sys_sleep\<close> take their number of rounds as an argument; the parser has \<open>4 n + 4\<close> levels for a line of \<open>n\<close> characters
  and as many rounds in a loop as characters are left.
  The loops of \<open>Stdqsort\<close> are partial functions, \<open>None\<close> when they do not end; C16 states \<open>Some\<close>. The theorems state \<open>Ok\<close>, so that the fuel is shown to be enough.

  \<^bold>\<open>Outside code.\<close>
  The sector routines of the CH375, which are assembly, succeed or fail sector by sector; those of the SD card's firmware are
  arguments of \<open>Boot\<close>, with the hypothesis that they read and write sectors. Timer ticks, keys pressed and stack
  pointers are arguments or part of the state. The comparison functions of heapsort, bsearch and qsort are arguments.

  \<^bold>\<open>What the theorems do not say.\<close>
  \<open>bwrite\<close> only marks a buffer dirty, so the log orders nothing on the device; C4 is about the logical contents of blocks, and
  holds on the device only when the buffers of a commit have been flushed. C12 needs the hint \<open>lastbi\<close> to be a position of every
  bitmap block, because \<open>balloc\<close> does not check it; C17 and C25 need, for the same reason, enough free blocks where the hints lead (\<open>spare\<close>).
  C30 leaves out sizes of zero for \<open>realloc\<close> and sizes near the end of the
  address space, for which the code misbehaves. C6 leaves out the flags \<open>FNM_PATHNAME\<close> and \<open>FNM_PERIOD\<close> together, for which the code forgets leading
  periods after a star; C22 leaves out \<open>VIS_NOSLASH\<close>, whose encoding is ambiguous, and says nothing of \<open>strvisx\<close>, which does not advance. C13 leaves out
  groups, word anchors, references and the option \<open>-i\<close>, which are modelled.

  \<^bold>\<open>Not modelled.\<close>
  Assembly (trap entry, dispatch of system calls, context switch, \<open>memmove\<close>, \<open>memset\<close>), whose effect appears in the model as
  the change of the current process and as list operations. \<open>runcmd\<close> and \<open>main\<close> of the shell. The file system in \<open>32xvfs\<close>, an earlier
  port of the same code to a host. The other commands, the editor and the rest of the C library, which are imported
  programs and reach the kernel only through the calls modelled here.
\<close>

end
